(* ===== verification/Lz4_Prelude.thy ===== *)
theory Lz4_Prelude
  imports Main "HOL-Library.Word" "HOL-Library.Monad_Syntax"
begin

text \<open>
  Shared vocabulary of the development: machine-width arithmetic written out on \<open>int\<close>, the flat
  byte memory of a C program with its undefined behaviour made explicit, the combinator every C
  loop is expressed with and its total-correctness rule, and the generic list lemmas.

  A C function that touches memory is modelled in the option monad: \<open>None\<close> stands for undefined
  behaviour (an access outside the mapped bytes, an overlapping \<open>memcpy\<close>) or for a loop that does
  not end. A theorem that a call equals \<open>Some\<close> of something therefore says that the call is free
  of both.
\<close>

section \<open>Machine integers\<close>

type_synonym byte = "8 word"

text \<open>Unsigned and signed values are \<open>int\<close>s; the casts of the code are these reductions.\<close>

definition u16 :: "int \<Rightarrow> int" where
  "u16 x = x mod 2 ^ 16"

definition u32 :: "int \<Rightarrow> int" where
  "u32 x = x mod 2 ^ 32"

definition u64 :: "int \<Rightarrow> int" where
  "u64 x = x mod 2 ^ 64"

definition s32 :: "int \<Rightarrow> int" where
  "s32 x = (x + 2 ^ 31) mod 2 ^ 32 - 2 ^ 31"

text \<open>\<open>sizeof(size_t)\<close>, \<open>sizeof(reg_t)\<close> and \<open>sizeof(void*)\<close> on the 64-bit target.\<close>

definition sizeof_ptr :: int where
  "sizeof_ptr = 8"

named_theorems width_simps \<open>the casts on values already in range\<close>

lemma u16_id [width_simps]: "0 \<le> x \<Longrightarrow> x < 65536 \<Longrightarrow> u16 x = x"
  by (simp add: u16_def)

lemma u32_id [width_simps]: "0 \<le> x \<Longrightarrow> x < 4294967296 \<Longrightarrow> u32 x = x"
  by (simp add: u32_def)

lemma u64_id [width_simps]: "0 \<le> x \<Longrightarrow> x < 18446744073709551616 \<Longrightarrow> u64 x = x"
  by (simp add: u64_def)

lemma s32_id [width_simps]: "- 2147483648 \<le> x \<Longrightarrow> x < 2147483648 \<Longrightarrow> s32 x = x"
  by (simp add: s32_def)

lemma u32_range [simp]: "0 \<le> u32 x" "u32 x < 4294967296"
  by (simp_all add: u32_def)

lemma u64_range [simp]: "0 \<le> u64 x" "u64 x < 18446744073709551616"
  by (simp_all add: u64_def)

lemma uint_byte_range [simp]: "0 \<le> uint (b :: byte)" "uint (b :: byte) < 256"
  using uint_bounded [of b] by simp_all

lemma uint_byte_word_of_int [simp]: "uint (word_of_int v :: byte) = v mod 256"
  by (simp add: uint_word_of_int)

lemma unat_byte_less [simp]: "unat (b :: byte) < 256"
  using uint_byte_range(2) [of b] unfolding unat_eq_nat_uint by linarith

lemma unat_byte_le [simp]: "unat (b :: byte) \<le> 255"
  using unat_byte_less [of b] by linarith

lemma div_range:
  fixes x a b :: int
  assumes "0 \<le> x" "x < a * b" "0 < b"
  shows "0 \<le> x div b" "x div b < a"
proof -
  show "0 \<le> x div b" using assms by (simp add: pos_imp_zdiv_nonneg_iff)
  have "x div b * b \<le> x" using assms(3) by (simp add: div_mod_decomp_int mult_div_mod_eq [symmetric] flip: minus_mod_eq_div_mult)
  then have "x div b * b < a * b" using assms(2) by linarith
  then show "x div b < a" using assms(3) by simp
qed

section \<open>Memory\<close>

text \<open>
  One flat address space: an address is an \<open>int\<close>, \<open>m a = None\<close> says that no object of the
  program holds the byte at \<open>a\<close>. Pointers are addresses, the null pointer is \<open>0\<close>, pointer
  differences and comparisons are those of \<open>int\<close>.
\<close>

type_synonym mem = "int \<Rightarrow> byte option"

definition load8 :: "mem \<Rightarrow> int \<Rightarrow> int option" where
  "load8 m a = map_option uint (m a)"

definition store8 :: "mem \<Rightarrow> int \<Rightarrow> int \<Rightarrow> mem option" where
  "store8 m a v = (case m a of None \<Rightarrow> None | Some _ \<Rightarrow> Some (m(a \<mapsto> word_of_int v)))"

primrec loads :: "mem \<Rightarrow> int \<Rightarrow> nat \<Rightarrow> byte list option" where
  "loads m a 0 = Some []"
| "loads m a (Suc n) =
     (case m a of None \<Rightarrow> None | Some b \<Rightarrow> map_option (\<lambda>bs. b # bs) (loads m (a + 1) n))"

primrec stores :: "mem \<Rightarrow> int \<Rightarrow> byte list \<Rightarrow> mem option" where
  "stores m a [] = Some m"
| "stores m a (b # bs) =
     (case m a of None \<Rightarrow> None | Some _ \<Rightarrow> stores (m(a \<mapsto> b)) (a + 1) bs)"

text \<open>The C library's \<open>memmove\<close>, and \<open>memcpy\<close>, whose overlapping use is undefined.\<close>

definition memmove :: "mem \<Rightarrow> int \<Rightarrow> int \<Rightarrow> int \<Rightarrow> mem option" where
  "memmove m d s n = (case loads m s (nat n) of None \<Rightarrow> None | Some bs \<Rightarrow> stores m d bs)"

definition memcpy :: "mem \<Rightarrow> int \<Rightarrow> int \<Rightarrow> int \<Rightarrow> mem option" where
  "memcpy m d s n = (if 0 < n \<and> d < s + n \<and> s < d + n then None else memmove m d s n)"

subsection \<open>Mapped ranges, contents, copies\<close>

definition mapped :: "mem \<Rightarrow> int \<Rightarrow> int \<Rightarrow> bool" where
  "mapped m lo hi \<longleftrightarrow> (\<forall>a. lo \<le> a \<and> a < hi \<longrightarrow> m a \<noteq> None)"

definition bytes :: "mem \<Rightarrow> int \<Rightarrow> int \<Rightarrow> byte list" where
  "bytes m lo hi = map (\<lambda>k. the (m (lo + int k))) [0..<nat (hi - lo)]"

definition blit :: "mem \<Rightarrow> int \<Rightarrow> int \<Rightarrow> int \<Rightarrow> mem" where
  "blit m d s n = (\<lambda>a. if d \<le> a \<and> a < d + n then m (s + (a - d)) else m a)"

text \<open>Outside \<open>[lo, hi)\<close> the memory is as before.\<close>

definition frame :: "mem \<Rightarrow> mem \<Rightarrow> int \<Rightarrow> int \<Rightarrow> bool" where
  "frame m m' lo hi \<longleftrightarrow> (\<forall>a. a < lo \<or> hi \<le> a \<longrightarrow> m' a = m a) \<and> dom m' = dom m"

named_theorems frame_intros \<open>composition of frames\<close>

lemma mappedD: "mapped m lo hi \<Longrightarrow> lo \<le> a \<Longrightarrow> a < hi \<Longrightarrow> \<exists>b. m a = Some b"
  by (auto simp: mapped_def)

lemma mapped_sub: "mapped m lo hi \<Longrightarrow> lo \<le> lo' \<Longrightarrow> hi' \<le> hi \<Longrightarrow> mapped m lo' hi'"
  by (auto simp: mapped_def)

lemma mapped_join: "mapped m lo mid \<Longrightarrow> mapped m mid hi \<Longrightarrow> mapped m lo hi"
  unfolding mapped_def by (meson not_less)

lemma mapped_dom: "dom m' = dom m \<Longrightarrow> mapped m' lo hi = mapped m lo hi"
  unfolding mapped_def by (metis domIff)

lemma frame_refl [frame_intros]: "frame m m lo hi"
  by (simp add: frame_def)

lemma frame_trans: "frame m m' lo hi \<Longrightarrow> frame m' m'' lo hi \<Longrightarrow> frame m m'' lo hi"
  by (auto simp: frame_def)

lemma frame_widen: "frame m m' lo hi \<Longrightarrow> lo' \<le> lo \<Longrightarrow> hi \<le> hi' \<Longrightarrow> frame m m' lo' hi'"
  by (auto simp: frame_def)

lemma frame_mapped: "frame m m' lo hi \<Longrightarrow> mapped m' a b = mapped m a b"
  using mapped_dom [of m' m] by (simp add: frame_def)

lemma frame_at: "frame m m' lo hi \<Longrightarrow> a < lo \<or> hi \<le> a \<Longrightarrow> m' a = m a"
  by (auto simp: frame_def)

lemma length_bytes [simp]: "length (bytes m lo hi) = nat (hi - lo)"
  by (simp add: bytes_def)

lemma nth_bytes: "k < nat (hi - lo) \<Longrightarrow> bytes m lo hi ! k = the (m (lo + int k))"
  by (simp add: bytes_def)

lemma bytes_cong: "(\<And>a. lo \<le> a \<Longrightarrow> a < hi \<Longrightarrow> m' a = m a) \<Longrightarrow> bytes m' lo hi = bytes m lo hi"
  by (auto simp: bytes_def intro!: map_cong)

lemma bytes_frame: "frame m m' lo hi \<Longrightarrow> b \<le> lo \<or> hi \<le> a \<Longrightarrow> bytes m' a b = bytes m a b"
  by (rule bytes_cong) (auto simp: frame_def)

lemma bytes_append: "lo \<le> mid \<Longrightarrow> mid \<le> hi \<Longrightarrow> bytes m lo hi = bytes m lo mid @ bytes m mid hi"
  by (rule nth_equalityI) (auto simp: nth_bytes nth_append algebra_simps)

lemma bytes_empty [simp]: "hi \<le> lo \<Longrightarrow> bytes m lo hi = []"
  by (simp add: bytes_def)

lemma mapped_Some_bytes: "mapped m lo hi \<Longrightarrow> lo \<le> a \<Longrightarrow> a < hi \<Longrightarrow> m a = Some (bytes m lo hi ! nat (a - lo))"
  by (auto simp: nth_bytes dest: mappedD)

lemma load8_bytes: "mapped m lo hi \<Longrightarrow> lo \<le> a \<Longrightarrow> a < hi \<Longrightarrow> load8 m a = Some (uint (bytes m lo hi ! nat (a - lo)))"
  by (simp add: load8_def mapped_Some_bytes)

lemma loads_Some: "mapped m a (a + int n) \<Longrightarrow> loads m a n = Some (bytes m a (a + int n))"
proof (induction n arbitrary: a)
  case 0
  then show ?case by simp
next
  case (Suc n)
  then obtain b where b: "m a = Some b"
    by (auto simp: mapped_def)
  have "mapped m (a + 1) (a + 1 + int n)"
    using Suc.prems by (auto simp: mapped_def)
  then have IH: "loads m (a + 1) n = Some (bytes m (a + 1) (a + 1 + int n))"
    by (rule Suc.IH)
  have "bytes m a (a + int (Suc n)) = bytes m a (a + 1) @ bytes m (a + 1) (a + int (Suc n))"
    by (rule bytes_append) auto
  moreover have "bytes m a (a + 1) = [b]"
    using b by (simp add: bytes_def)
  ultimately show ?case
    using b IH by (simp add: algebra_simps)
qed

lemma stores_Some:
  "mapped m a (a + int (length bs)) \<Longrightarrow>
   stores m a bs = Some (\<lambda>x. if a \<le> x \<and> x < a + int (length bs) then Some (bs ! nat (x - a)) else m x)"
proof (induction bs arbitrary: m a)
  case Nil
  then show ?case by (auto simp: fun_eq_iff)
next
  case (Cons b bs)
  then obtain c where c: "m a = Some c"
    by (auto simp: mapped_def)
  have "mapped (m(a \<mapsto> b)) (a + 1) (a + 1 + int (length bs))"
    using Cons.prems by (auto simp: mapped_def)
  then have IH: "stores (m(a \<mapsto> b)) (a + 1) bs =
      Some (\<lambda>x. if a + 1 \<le> x \<and> x < a + 1 + int (length bs) then Some (bs ! nat (x - (a + 1)))
                else (m(a \<mapsto> b)) x)"
    by (rule Cons.IH)
  have "nat (x - a) = Suc (nat (x - (a + 1)))" if "a + 1 \<le> x" for x
    using that by simp
  with c IH show ?case
    by (auto simp: fun_eq_iff nth_Cons')
qed

lemma memmove_Some:
  assumes "0 \<le> n" "mapped m s (s + n)" "mapped m d (d + n)"
  shows "memmove m d s n = Some (blit m d s n)"
proof -
  have "loads m s (nat n) = Some (bytes m s (s + n))"
    using loads_Some [of m s "nat n"] assms by simp
  moreover have "stores m d (bytes m s (s + n)) =
      Some (\<lambda>x. if d \<le> x \<and> x < d + n then Some (bytes m s (s + n) ! nat (x - d)) else m x)"
    using stores_Some [of m d "bytes m s (s + n)"] assms by simp
  moreover have "Some (bytes m s (s + n) ! nat (x - d)) = m (s + (x - d))" if "d \<le> x" "x < d + n" for x
    using that assms(2) mappedD [of m s "s + n" "s + (x - d)"] by (auto simp: nth_bytes)
  ultimately show ?thesis
    by (auto simp: memmove_def blit_def fun_eq_iff)
qed

lemma memcpy_Some:
  assumes "0 \<le> n" "mapped m s (s + n)" "mapped m d (d + n)" "s + n \<le> d \<or> d + n \<le> s"
  shows "memcpy m d s n = Some (blit m d s n)"
  using memmove_Some [OF assms(1-3)] assms(4) by (auto simp: memcpy_def)

lemma dom_blit: "mapped m s (s + n) \<Longrightarrow> mapped m d (d + n) \<Longrightarrow> dom (blit m d s n) = dom m"
proof (rule set_eqI)
  fix a assume "mapped m s (s + n)" "mapped m d (d + n)"
  then show "a \<in> dom (blit m d s n) \<longleftrightarrow> a \<in> dom m"
    using mappedD [of m s "s + n" "s + (a - d)"] mappedD [of m d "d + n" a]
    by (cases "d \<le> a \<and> a < d + n") (auto simp: blit_def)
qed

lemma frame_blit:
  "mapped m s (s + n) \<Longrightarrow> mapped m d (d + n) \<Longrightarrow> lo \<le> d \<Longrightarrow> d + n \<le> hi \<Longrightarrow> frame m (blit m d s n) lo hi"
  by (auto simp: frame_def dom_blit) (auto simp: blit_def)

lemma store8_Some: "m a = Some b \<Longrightarrow> store8 m a v = Some (m(a \<mapsto> word_of_int v))"
  by (simp add: store8_def)

lemma frame_upd: "m a \<noteq> None \<Longrightarrow> lo \<le> a \<Longrightarrow> a < hi \<Longrightarrow> frame m (m(a \<mapsto> b)) lo hi"
  by (auto simp: frame_def)

lemma stores_ok:
  assumes "mapped m a (a + int (length bs))"
  shows "\<exists>m'. stores m a bs = Some m' \<and> frame m m' a (a + int (length bs)) \<and> bytes m' a (a + int (length bs)) = bs"
proof -
  define m' where "m' = (\<lambda>x. if a \<le> x \<and> x < a + int (length bs) then Some (bs ! nat (x - a)) else m x)"
  have "stores m a bs = Some m'" using stores_Some [OF assms] by (simp add: m'_def)
  moreover have "dom m' = dom m" using assms unfolding mapped_def m'_def dom_def by auto
  then have "frame m m' a (a + int (length bs))" by (auto simp: frame_def m'_def)
  moreover have "bytes m' a (a + int (length bs)) = bs"
    by (rule nth_equalityI) (simp_all add: nth_bytes m'_def)
  ultimately show ?thesis by blast
qed

text \<open>A memory with a list of bytes at an address, to build concrete memories from.\<close>

definition place :: "int \<Rightarrow> byte list \<Rightarrow> mem \<Rightarrow> mem" where
  "place base xs m = (\<lambda>a. if base \<le> a \<and> a < base + int (length xs) then Some (xs ! nat (a - base)) else m a)"

definition no_mem :: mem where
  "no_mem = (\<lambda>a. None)"

lemma bytes_place: "hi = base + int (length xs) \<Longrightarrow> bytes (place base xs m) base hi = xs"
  by (rule nth_equalityI) (auto simp: nth_bytes place_def)

lemma bytes_place_other: "hi \<le> base \<or> base + int (length xs) \<le> lo \<Longrightarrow> bytes (place base xs m) lo hi = bytes m lo hi"
  by (rule bytes_cong) (auto simp: place_def)

lemma mapped_place: "base \<le> lo \<Longrightarrow> hi \<le> base + int (length xs) \<Longrightarrow> mapped (place base xs m) lo hi"
  by (auto simp: mapped_def place_def)

lemma mapped_place_other: "mapped m lo hi \<Longrightarrow> mapped (place base xs m) lo hi"
  by (auto simp: mapped_def place_def)

section \<open>Loops\<close>

text \<open>
  Every loop of the C code is \<open>cloop body s\<close>: one run of \<open>body\<close> from the loop's variables gives
  the next values of the variables (\<open>Inl\<close>, also for \<open>continue\<close>) or leaves the loop (\<open>Inr\<close>, for
  \<open>break\<close>, \<open>return\<close> and \<open>goto\<close>).
\<close>

partial_function (option) cloop :: "('s \<Rightarrow> ('s + 'r) option) \<Rightarrow> 's \<Rightarrow> 'r option" where
  [code]: "cloop body s =
     (case body s of None \<Rightarrow> None
      | Some x \<Rightarrow> (case x of Inl s' \<Rightarrow> cloop body s' | Inr r \<Rightarrow> Some r))"

lemma cloop_Inl: "body s = Some (Inl s') \<Longrightarrow> cloop body s = cloop body s'"
  by (subst cloop.simps) simp

lemma cloop_Inr: "body s = Some (Inr r) \<Longrightarrow> cloop body s = Some r"
  by (subst cloop.simps) simp

text \<open>
  Total correctness: an invariant, a well-founded order (or a measure) that decreases, a postcondition of
  every exit.
\<close>

lemma cloop_wf:
  assumes "wf R" "I s"
    and step: "\<And>s. I s \<Longrightarrow>
      (\<exists>s'. body s = Some (Inl s') \<and> I s' \<and> (s', s) \<in> R) \<or> (\<exists>r. body s = Some (Inr r) \<and> Q r)"
  shows "\<exists>r. cloop body s = Some r \<and> Q r"
  using assms(1,2)
proof (induction s rule: wf_induct_rule)
  case (less s)
  from step [OF less.prems] show ?case
  proof
    assume "\<exists>s'. body s = Some (Inl s') \<and> I s' \<and> (s', s) \<in> R"
    then obtain s' where "body s = Some (Inl s')" "I s'" "(s', s) \<in> R" by blast
    then show ?thesis using less.IH [of s'] by (simp add: cloop_Inl)
  next
    assume "\<exists>r. body s = Some (Inr r) \<and> Q r"
    then show ?thesis by (auto simp: cloop_Inr)
  qed
qed

lemma cloop_total:
  fixes \<mu> :: "'s \<Rightarrow> nat"
  assumes "I s"
    and step: "\<And>s. I s \<Longrightarrow>
      (\<exists>s'. body s = Some (Inl s') \<and> I s' \<and> \<mu> s' < \<mu> s) \<or> (\<exists>r. body s = Some (Inr r) \<and> Q r)"
  shows "\<exists>r. cloop body s = Some r \<and> Q r"
  by (rule cloop_wf [OF wf_measure [of \<mu>], where I = I]) (use assms in auto)

section \<open>Lists\<close>

lemma take_Suc_nth: "n < length xs \<Longrightarrow> take (Suc n) xs = take n xs @ [xs ! n]"
  by (rule take_Suc_conv_app_nth)

lemma map_the_Some [simp]: "map (\<lambda>k. the (Some (f k))) xs = map f xs"
  by simp

end
