(* ===== verification/Lz4_Format.thy ===== *)
theory Lz4_Format
  imports Lz4_Prelude
begin

text \<open>
  The LZ4 block format, as the code and its comments rely on it: a block is a series of sequences,
  each a token, a literal run and a match into the already decoded bytes, closed by a literal run.
  This is the abstract specification; nothing here looks at memory.
\<close>

section \<open>Syntax\<close>

text \<open>The tail of a length: bytes of 255 and a last byte below 255.\<close>

fun ext_len :: "nat \<Rightarrow> byte list" where
  "ext_len n = (if n < 255 then [word_of_nat n] else 255 # ext_len (n - 255))"

declare ext_len.simps [simp del]

definition len_ext :: "nat \<Rightarrow> byte list" where
  "len_ext n = (if n < 15 then [] else ext_len (n - 15))"

definition token_byte :: "nat \<Rightarrow> nat \<Rightarrow> byte" where
  "token_byte ll ml = word_of_nat (16 * min ll 15 + min ml 15)"

text \<open>A sequence: literals, offset of the match, length of the match.\<close>

datatype lz4_seq = LSeq (seq_lits: "byte list") (seq_off: nat) (seq_mlen: nat)

definition le16 :: "nat \<Rightarrow> byte list" where
  "le16 n = [word_of_nat n, word_of_nat (n div 256)]"

fun encode_seq :: "lz4_seq \<Rightarrow> byte list" where
  "encode_seq (LSeq ls off ml) =
     token_byte (length ls) (ml - 4) # len_ext (length ls) @ ls @ le16 off @ len_ext (ml - 4)"

definition encode_last :: "byte list \<Rightarrow> byte list" where
  "encode_last ls = token_byte (length ls) 0 # len_ext (length ls) @ ls"

definition encode_block :: "lz4_seq list \<Rightarrow> byte list \<Rightarrow> byte list" where
  "encode_block seqs ls = concat (map encode_seq seqs) @ encode_last ls"

section \<open>Semantics\<close>

text \<open>
  A match copies byte by byte, so it may overlap what it writes. A zero offset, which no valid
  block contains, stands for zero bytes.
\<close>

primrec copy_match :: "byte list \<Rightarrow> nat \<Rightarrow> nat \<Rightarrow> byte list" where
  "copy_match h off 0 = h"
| "copy_match h off (Suc n) =
     copy_match (h @ [if off = 0 then 0 else h ! (length h - off)]) off n"

fun expand_seq :: "byte list \<Rightarrow> lz4_seq \<Rightarrow> byte list" where
  "expand_seq h (LSeq ls off ml) = copy_match (h @ ls) off ml"

definition expand :: "byte list \<Rightarrow> lz4_seq list \<Rightarrow> byte list \<Rightarrow> byte list" where
  "expand h seqs ls = foldl expand_seq h seqs @ ls"

text \<open>Every match lies in the history and in the 16-bit window, and is long enough.\<close>

fun seq_ok :: "byte list \<Rightarrow> lz4_seq \<Rightarrow> bool" where
  "seq_ok h (LSeq ls off ml) \<longleftrightarrow> 0 < off \<and> off \<le> 65535 \<and> off \<le> length h + length ls \<and> 4 \<le> ml"

fun seqs_ok :: "byte list \<Rightarrow> lz4_seq list \<Rightarrow> bool" where
  "seqs_ok h [] \<longleftrightarrow> True"
| "seqs_ok h (q # qs) \<longleftrightarrow> seq_ok h q \<and> seqs_ok (expand_seq h q) qs"

text \<open>
  What a decoder can check of a sequence: the offset zero, which no encoder emits, passes. The low half
  of the last token has no meaning and is not checked either.
\<close>

fun seq_fits :: "byte list \<Rightarrow> lz4_seq \<Rightarrow> bool" where
  "seq_fits h (LSeq ls off ml) \<longleftrightarrow> off \<le> 65535 \<and> off \<le> length h + length ls \<and> 4 \<le> ml"

fun seqs_fit :: "byte list \<Rightarrow> lz4_seq list \<Rightarrow> bool" where
  "seqs_fit h [] \<longleftrightarrow> True"
| "seqs_fit h (q # qs) \<longleftrightarrow> seq_fits h q \<and> seqs_fit (expand_seq h q) qs"

definition encode_tail :: "nat \<Rightarrow> byte list \<Rightarrow> byte list" where
  "encode_tail x ls = token_byte (length ls) x # len_ext (length ls) @ ls"

text \<open>
  The end-of-block rules: the last five bytes are literals and the last match starts at least twelve
  bytes before the end.
\<close>

definition block_end_ok :: "lz4_seq list \<Rightarrow> byte list \<Rightarrow> bool" where
  "block_end_ok seqs ls \<longleftrightarrow>
     seqs = [] \<or> 5 \<le> length ls \<and> 12 \<le> seq_mlen (last seqs) + length ls"

section \<open>Facts\<close>

lemma length_copy_match [simp]: "length (copy_match h off n) = length h + n"
  by (induction n arbitrary: h) auto

lemma copy_match_prefix: "take (length h) (copy_match h off n) = h"
proof (induction n arbitrary: h)
  case 0
  then show ?case by simp
next
  case (Suc n)
  let ?h = "h @ [if off = 0 then 0 else h ! (length h - off)]"
  have "take (length h) (copy_match ?h off n) = take (length h) (take (length ?h) (copy_match ?h off n))"
    by simp
  also have "\<dots> = h"
    by (simp only: Suc.IH) simp
  finally show ?case by simp
qed

lemma nth_copy_match_old: "k < length h \<Longrightarrow> copy_match h off n ! k = h ! k"
  using copy_match_prefix [of h off n] by (metis nth_take)

lemma nth_copy_match_new:
  "0 < off \<Longrightarrow> off \<le> length h \<Longrightarrow> length h \<le> k \<Longrightarrow> k < length h + n \<Longrightarrow>
   copy_match h off n ! k = copy_match h off n ! (k - off)"
proof (induction n arbitrary: h)
  case 0
  then show ?case by simp
next
  case (Suc n)
  let ?h = "h @ [h ! (length h - off)]"
  show ?case
  proof (cases "k = length h")
    case True
    then show ?thesis
      using Suc.prems nth_copy_match_old [of k ?h off n] nth_copy_match_old [of "k - off" ?h off n]
      by (simp add: nth_append)
  next
    case False
    then show ?thesis
      using Suc.prems Suc.IH [of ?h] by simp
  qed
qed

lemma nth_copy_match_zero: "length h \<le> k \<Longrightarrow> k < length h + n \<Longrightarrow> copy_match h 0 n ! k = 0"
proof (induction n arbitrary: h)
  case 0
  then show ?case by simp
next
  case (Suc n)
  let ?h = "h @ [0 :: byte]"
  show ?case
  proof (cases "k = length h")
    case True
    then show ?thesis
      using nth_copy_match_old [of k ?h 0 n] by simp
  next
    case False
    then show ?thesis
      using Suc.prems Suc.IH [of ?h] by simp
  qed
qed

text \<open>The new bytes of a match are determined by the old ones and the distance.\<close>

lemma copy_match_unique:
  assumes "0 < off" "off \<le> length h" "length h' = length h + n" "take (length h) h' = h"
    and step: "\<And>k. length h \<le> k \<Longrightarrow> k < length h' \<Longrightarrow> h' ! k = h' ! (k - off)"
  shows "h' = copy_match h off n"
proof (rule nth_equalityI)
  show "length h' = length (copy_match h off n)" using assms by simp
  fix k assume "k < length h'"
  then show "h' ! k = copy_match h off n ! k"
  proof (induction k rule: less_induct)
    case (less k)
    show ?case
    proof (cases "k < length h")
      case True
      then show ?thesis
        using assms(4) nth_copy_match_old [OF True, of off n] by (metis nth_take)
    next
      case False
      then have k: "length h \<le> k" by simp
      have "h' ! k = h' ! (k - off)" using step [OF k less.prems] .
      also have "\<dots> = copy_match h off n ! (k - off)"
        using less.IH [of "k - off"] less.prems assms(1) k \<open>off \<le> length h\<close> by linarith
      also have "\<dots> = copy_match h off n ! k"
        using nth_copy_match_new [OF assms(1,2) k] less.prems assms(3) by simp
      finally show ?thesis .
    qed
  qed
qed

lemma copy_match_add: "copy_match h off (a + b) = copy_match (copy_match h off a) off b"
  by (induction a arbitrary: h) auto

lemma length_expand_seq [simp]: "length (expand_seq h q) = length h + length (seq_lits q) + seq_mlen q"
  by (cases q) simp

lemma ext_len_nonempty [simp]: "ext_len n \<noteq> []"
  by (subst ext_len.simps) simp

end
