(* ===== verification/Lz4_Common.thy ===== *)
theory Lz4_Common
  imports Lz4_Format
begin

unbundle bit_operations_syntax

text \<open>
  The part of \<open>lib/lz4/lz4.c\<close> that \<open>lz4hc.c\<close> shares (up to \<open>LZ4_COMMONDEFS_ONLY\<close>): constants,
  unaligned reads and writes in the CPU's byte order, the copy routines that may write past the end
  they are given, and the match length counter. The copy routines are proved to implement one
  interface, the locale \<open>match_copier\<close>.
\<close>

section \<open>Constants\<close>

definition MINMATCH :: int where [simp]: "MINMATCH = 4"
definition WILDCOPYLENGTH :: int where [simp]: "WILDCOPYLENGTH = 8"
definition LASTLITERALS :: int where [simp]: "LASTLITERALS = 5"
definition MFLIMIT :: int where [simp]: "MFLIMIT = 12"
definition MATCH_SAFEGUARD_DISTANCE :: int where
  [simp]: "MATCH_SAFEGUARD_DISTANCE = 2 * WILDCOPYLENGTH - MINMATCH"
definition FASTLOOP_SAFE_DISTANCE :: int where [simp]: "FASTLOOP_SAFE_DISTANCE = 64"
definition LZ4_minLength :: int where [simp]: "LZ4_minLength = MFLIMIT + 1"
definition KB :: int where [simp]: "KB = 1024"
definition GB :: int where [simp]: "GB = 1073741824"
definition LZ4_DISTANCE_MAX :: int where [simp]: "LZ4_DISTANCE_MAX = 65535"
definition LZ4_DISTANCE_ABSOLUTE_MAX :: int where [simp]: "LZ4_DISTANCE_ABSOLUTE_MAX = 65535"
definition LZ4_MAX_INPUT_SIZE :: int where [simp]: "LZ4_MAX_INPUT_SIZE = 2113929216"
definition ML_BITS :: nat where [simp]: "ML_BITS = 4"
definition ML_MASK :: int where [simp]: "ML_MASK = 15"
definition RUN_BITS :: nat where [simp]: "RUN_BITS = 4"
definition RUN_MASK :: int where [simp]: "RUN_MASK = 15"

definition LZ4_isAligned :: "int \<Rightarrow> int \<Rightarrow> bool" where
  "LZ4_isAligned ptr alignment \<longleftrightarrow> u64 ptr AND (alignment - 1) = 0"

text \<open>The kernel target is little endian; the routines below take the byte order as an argument.\<close>

definition LZ4_isLittleEndian :: bool where
  "LZ4_isLittleEndian = True"

text \<open>Where the content that precedes a block is kept; both directions use it.\<close>

datatype dict_directive = noDict | withPrefix64k | usingExtDict | usingDictCtx

section \<open>Unaligned reads and writes\<close>

primrec le_val :: "byte list \<Rightarrow> int" where
  "le_val [] = 0"
| "le_val (b # bs) = uint b + 256 * le_val bs"

primrec le_bytes :: "nat \<Rightarrow> int \<Rightarrow> byte list" where
  "le_bytes 0 v = []"
| "le_bytes (Suc n) v = word_of_int v # le_bytes n (v div 256)"

definition native :: "bool \<Rightarrow> byte list \<Rightarrow> byte list" where
  "native le bs = (if le then bs else rev bs)"

definition LZ4_read16 :: "bool \<Rightarrow> mem \<Rightarrow> int \<Rightarrow> int option" where
  "LZ4_read16 le m p = map_option (\<lambda>bs. le_val (native le bs)) (loads m p 2)"

definition LZ4_read32 :: "bool \<Rightarrow> mem \<Rightarrow> int \<Rightarrow> int option" where
  "LZ4_read32 le m p = map_option (\<lambda>bs. le_val (native le bs)) (loads m p 4)"

definition LZ4_read_ARCH :: "bool \<Rightarrow> mem \<Rightarrow> int \<Rightarrow> int option" where
  "LZ4_read_ARCH le m p = map_option (\<lambda>bs. le_val (native le bs)) (loads m p 8)"

definition LZ4_write16 :: "bool \<Rightarrow> mem \<Rightarrow> int \<Rightarrow> int \<Rightarrow> mem option" where
  "LZ4_write16 le m p v = stores m p (native le (le_bytes 2 v))"

definition LZ4_write32 :: "bool \<Rightarrow> mem \<Rightarrow> int \<Rightarrow> int \<Rightarrow> mem option" where
  "LZ4_write32 le m p v = stores m p (native le (le_bytes 4 v))"

definition LZ4_readLE16 :: "bool \<Rightarrow> mem \<Rightarrow> int \<Rightarrow> int option" where
  "LZ4_readLE16 le m p =
     (if le then LZ4_read16 le m p
      else do { b0 \<leftarrow> load8 m p; b1 \<leftarrow> load8 m (p + 1); Some (u16 (b0 OR (push_bit 8 b1))) })"

definition LZ4_readLE32 :: "bool \<Rightarrow> mem \<Rightarrow> int \<Rightarrow> int option" where
  "LZ4_readLE32 le m p =
     (if le then LZ4_read32 le m p
      else do { b0 \<leftarrow> load8 m p; b1 \<leftarrow> load8 m (p + 1);
                b2 \<leftarrow> load8 m (p + 2); b3 \<leftarrow> load8 m (p + 3);
                Some (u32 (b0 OR push_bit 8 b1 OR push_bit 16 b2 OR push_bit 24 b3)) })"

definition LZ4_writeLE16 :: "bool \<Rightarrow> mem \<Rightarrow> int \<Rightarrow> int \<Rightarrow> mem option" where
  "LZ4_writeLE16 le m p v =
     (if le then LZ4_write16 le m p v
      else do { m \<leftarrow> store8 m p v; store8 m (p + 1) (drop_bit 8 v) })"

section \<open>Copy routines\<close>

fun LZ4_wildCopy8_body :: "int \<Rightarrow> int \<times> int \<times> mem \<Rightarrow> (int \<times> int \<times> mem + mem) option" where
  "LZ4_wildCopy8_body e (d, s, m) =
     do { m' \<leftarrow> memcpy m d s 8;
          Some (if d + 8 < e then Inl (d + 8, s + 8, m') else Inr m') }"

definition LZ4_wildCopy8 :: "mem \<Rightarrow> int \<Rightarrow> int \<Rightarrow> int \<Rightarrow> mem option" where
  "LZ4_wildCopy8 m dstPtr srcPtr dstEnd = cloop (LZ4_wildCopy8_body dstEnd) (dstPtr, srcPtr, m)"

definition inc32table :: "int list" where
  "inc32table = [0, 1, 2, 1, 0, 4, 4, 4]"

definition dec64table :: "int list" where
  "dec64table = [0, 0, 0, -1, -4, 1, 2, 3]"

text \<open>\<open>*d = *s\<close> on bytes.\<close>

definition copy_byte :: "mem \<Rightarrow> int \<Rightarrow> int \<Rightarrow> mem option" where
  "copy_byte m d s = do { v \<leftarrow> load8 m s; store8 m d v }"

text \<open>
  The first eight bytes of a match that is less than eight bytes behind: four single bytes, then
  four at once from a source moved forward, after which the source is far enough behind for
  \<open>LZ4_wildCopy8\<close>. The decoder's safe loop has the same statements.
\<close>

definition copy8_small_offset :: "bool \<Rightarrow> mem \<Rightarrow> int \<Rightarrow> int \<Rightarrow> int \<Rightarrow> (mem \<times> int) option" where
  "copy8_small_offset le m dstPtr srcPtr offset = do {
     m \<leftarrow> LZ4_write32 le m dstPtr 0;
     m \<leftarrow> copy_byte m dstPtr srcPtr;
     m \<leftarrow> copy_byte m (dstPtr + 1) (srcPtr + 1);
     m \<leftarrow> copy_byte m (dstPtr + 2) (srcPtr + 2);
     m \<leftarrow> copy_byte m (dstPtr + 3) (srcPtr + 3);
     let srcPtr = srcPtr + inc32table ! nat offset;
     m \<leftarrow> memcpy m (dstPtr + 4) srcPtr 4;
     Some (m, srcPtr - dec64table ! nat offset) }"

definition LZ4_memcpy_using_offset_base :: "bool \<Rightarrow> mem \<Rightarrow> int \<Rightarrow> int \<Rightarrow> int \<Rightarrow> int \<Rightarrow> mem option" where
  "LZ4_memcpy_using_offset_base le m dstPtr srcPtr dstEnd offset =
     (if offset < 8 then do {
        (m, srcPtr) \<leftarrow> copy8_small_offset le m dstPtr srcPtr offset;
        LZ4_wildCopy8 m (dstPtr + 8) srcPtr dstEnd }
      else do {
        m \<leftarrow> memcpy m dstPtr srcPtr 8;
        LZ4_wildCopy8 m (dstPtr + 8) (srcPtr + 8) dstEnd })"

fun LZ4_wildCopy32_body :: "int \<Rightarrow> int \<times> int \<times> mem \<Rightarrow> (int \<times> int \<times> mem + mem) option" where
  "LZ4_wildCopy32_body e (d, s, m) =
     do { m' \<leftarrow> memcpy m d s 16;
          m'' \<leftarrow> memcpy m' (d + 16) (s + 16) 16;
          Some (if d + 32 < e then Inl (d + 32, s + 32, m'') else Inr m'') }"

definition LZ4_wildCopy32 :: "mem \<Rightarrow> int \<Rightarrow> int \<Rightarrow> int \<Rightarrow> mem option" where
  "LZ4_wildCopy32 m dstPtr srcPtr dstEnd = cloop (LZ4_wildCopy32_body dstEnd) (dstPtr, srcPtr, m)"

text \<open>The closing loop of \<open>LZ4_memcpy_using_offset\<close>: \<open>while (dstPtr < dstEnd)\<close>.\<close>

fun fill_pattern_body :: "byte list \<Rightarrow> int \<Rightarrow> int \<times> mem \<Rightarrow> (int \<times> mem + mem) option" where
  "fill_pattern_body v e (d, m) =
     (if d < e then do { m' \<leftarrow> stores m d v; Some (Inl (d + 8, m')) } else Some (Inr m))"

definition LZ4_memcpy_using_offset :: "bool \<Rightarrow> mem \<Rightarrow> int \<Rightarrow> int \<Rightarrow> int \<Rightarrow> int \<Rightarrow> mem option" where
  "LZ4_memcpy_using_offset le m dstPtr srcPtr dstEnd offset =
     (if offset = 1 then do {
        bs \<leftarrow> loads m srcPtr 1;
        m \<leftarrow> stores m dstPtr (bs @ bs @ bs @ bs @ bs @ bs @ bs @ bs);
        cloop (fill_pattern_body (bs @ bs @ bs @ bs @ bs @ bs @ bs @ bs) dstEnd) (dstPtr + 8, m) }
      else if offset = 2 then do {
        bs \<leftarrow> loads m srcPtr 2;
        m \<leftarrow> stores m dstPtr (bs @ bs @ bs @ bs);
        cloop (fill_pattern_body (bs @ bs @ bs @ bs) dstEnd) (dstPtr + 8, m) }
      else if offset = 4 then do {
        bs \<leftarrow> loads m srcPtr 4;
        m \<leftarrow> stores m dstPtr (bs @ bs);
        cloop (fill_pattern_body (bs @ bs) dstEnd) (dstPtr + 8, m) }
      else LZ4_memcpy_using_offset_base le m dstPtr srcPtr dstEnd offset)"

text \<open>\<open>while (d < e) *d++ = *s++\<close>, which the decoder writes out in four places.\<close>

fun copy_bytes_body :: "int \<Rightarrow> int \<times> int \<times> mem \<Rightarrow> (int \<times> int \<times> mem + mem) option" where
  "copy_bytes_body e (d, s, m) =
     (if d < e then do { m' \<leftarrow> copy_byte m d s; Some (Inl (d + 1, s + 1, m')) } else Some (Inr m))"

definition copy_bytes :: "mem \<Rightarrow> int \<Rightarrow> int \<Rightarrow> int \<Rightarrow> mem option" where
  "copy_bytes m d s e = cloop (copy_bytes_body e) (d, s, m)"

section \<open>Counting equal bytes\<close>

text \<open>\<open>__builtin_ctzll\<close> and \<open>__builtin_clzll\<close>, undefined on 0.\<close>

function ctz :: "int \<Rightarrow> nat" where
  "ctz v = (if v \<le> 0 \<or> odd v then 0 else Suc (ctz (v div 2)))"
  by pat_completeness auto
termination
  by (relation "measure nat") auto

declare ctz.simps [simp del]

fun bit_len :: "int \<Rightarrow> nat" where
  "bit_len v = (if v \<le> 0 then 0 else Suc (bit_len (v div 2)))"

declare bit_len.simps [simp del]

definition builtin_ctz :: "int \<Rightarrow> int option" where
  "builtin_ctz v = (if v = 0 then None else Some (int (ctz v)))"

definition builtin_clz :: "nat \<Rightarrow> int \<Rightarrow> int option" where
  "builtin_clz w v = (if v = 0 then None else Some (int w - int (bit_len v)))"

text \<open>The variant the compiler and the target select: \<open>reg_t\<close> has 64 bits.\<close>

definition LZ4_NbCommonBytes :: "bool \<Rightarrow> int \<Rightarrow> int option" where
  "LZ4_NbCommonBytes le val =
     (if le then map_option (drop_bit 3) (builtin_ctz val)
      else map_option (drop_bit 3) (builtin_clz 64 val))"

text \<open>The portable variants, for compilers without the builtins.\<close>

definition LZ4_NbCommonBytes_sw64 :: "64 word \<Rightarrow> 64 word" where
  "LZ4_NbCommonBytes_sw64 val =
     (let m = 0x0101010101010101; val = val XOR (val - 1)
      in drop_bit 56 ((val AND (m - 1)) * m))"

definition LZ4_NbCommonBytes_sw32 :: "32 word \<Rightarrow> 32 word" where
  "LZ4_NbCommonBytes_sw32 val =
     (let m = 0x01010101 in drop_bit 24 ((((val - 1) XOR val) AND (m - 1)) * m))"

section \<open>LZ4_count\<close>

definition STEPSIZE :: int where [simp]: "STEPSIZE = sizeof_ptr"

fun LZ4_count_body :: "bool \<Rightarrow> int \<Rightarrow> int \<Rightarrow> mem \<Rightarrow> int \<times> int \<Rightarrow> (int \<times> int + int + int \<times> int) option" where
  "LZ4_count_body le pStart pInLimit m (pIn, pMatch) =
     (if pIn < pInLimit - (STEPSIZE - 1) then do {
        a \<leftarrow> LZ4_read_ARCH le m pMatch;
        b \<leftarrow> LZ4_read_ARCH le m pIn;
        let diff = a XOR b;
        if diff = 0 then Some (Inl (pIn + STEPSIZE, pMatch + STEPSIZE))
        else do { k \<leftarrow> LZ4_NbCommonBytes le diff; Some (Inr (Inl (pIn + k))) } }
      else Some (Inr (Inr (pIn, pMatch))))"

text \<open>The three closing tests, on four bytes, two bytes and one.\<close>

definition LZ4_count_tail :: "bool \<Rightarrow> int \<Rightarrow> mem \<Rightarrow> int \<times> int \<Rightarrow> int option" where
  "LZ4_count_tail le pInLimit m = (\<lambda>(pIn, pMatch). do {
     (pIn, pMatch) \<leftarrow>
       (if STEPSIZE = 8 \<and> pIn < pInLimit - 3 then do {
          a \<leftarrow> LZ4_read32 le m pMatch; b \<leftarrow> LZ4_read32 le m pIn;
          Some (if a = b then (pIn + 4, pMatch + 4) else (pIn, pMatch)) }
        else Some (pIn, pMatch));
     (pIn, pMatch) \<leftarrow>
       (if pIn < pInLimit - 1 then do {
          a \<leftarrow> LZ4_read16 le m pMatch; b \<leftarrow> LZ4_read16 le m pIn;
          Some (if a = b then (pIn + 2, pMatch + 2) else (pIn, pMatch)) }
        else Some (pIn, pMatch));
     if pIn < pInLimit then do {
       a \<leftarrow> load8 m pMatch; b \<leftarrow> load8 m pIn;
       Some (if a = b then pIn + 1 else pIn) }
     else Some pIn })"

text \<open>The main loop and the closing tests, from the second word on.\<close>

definition LZ4_count_rest :: "bool \<Rightarrow> mem \<Rightarrow> int \<Rightarrow> int \<times> int \<Rightarrow> int \<Rightarrow> int option" where
  "LZ4_count_rest le m pStart q pInLimit = do {
     r \<leftarrow> cloop (LZ4_count_body le pStart pInLimit m) q;
     p \<leftarrow> (case r of Inl p \<Rightarrow> Some p | Inr q \<Rightarrow> LZ4_count_tail le pInLimit m q);
     Some (u32 (p - pStart)) }"

definition LZ4_count :: "bool \<Rightarrow> mem \<Rightarrow> int \<Rightarrow> int \<Rightarrow> int \<Rightarrow> int option" where
  "LZ4_count le m pIn pMatch pInLimit =
     (if pIn < pInLimit - (STEPSIZE - 1) then do {
        a \<leftarrow> LZ4_read_ARCH le m pMatch;
        b \<leftarrow> LZ4_read_ARCH le m pIn;
        let diff = a XOR b;
        if diff = 0
        then LZ4_count_rest le m pIn (pIn + STEPSIZE, pMatch + STEPSIZE) pInLimit
        else LZ4_NbCommonBytes le diff }
      else LZ4_count_rest le m pIn (pIn, pMatch) pInLimit)"

section \<open>Facts about reads and writes\<close>

lemma length_native [simp]: "length (native le bs) = length bs"
  by (simp add: native_def)

lemma le_val_bounds: "0 \<le> le_val bs \<and> le_val bs < 256 ^ length bs"
proof (induction bs)
  case Nil
  then show ?case by simp
next
  case (Cons b bs)
  have "0 \<le> uint b" "uint b < 256" by simp_all
  moreover define P :: int where "P = 256 ^ length bs"
  moreover have "0 \<le> le_val bs" "le_val bs + 1 \<le> P"
    using Cons by (simp_all add: P_def)
  ultimately have "0 \<le> uint b + 256 * le_val bs" "uint b + 256 * le_val bs < 256 * P" by linarith+
  then show ?case by (simp add: P_def)
qed

lemma bytes_two: "mapped m p (p + 2) \<Longrightarrow> bytes m p (p + 2) = [the (m p), the (m (p + 1))]"
  by (simp add: bytes_def upt_rec numeral_2_eq_2)

lemma loads_two:
  "mapped m p (p + 2) \<Longrightarrow> loads m p 2 = Some [the (m p), the (m (p + 1))]"
  using loads_Some [of m p 2] bytes_two [of m p] by simp

lemma or_push_byte:
  fixes a b :: byte
  shows "uint a OR push_bit 8 (uint b) = uint a + 256 * uint b"
proof -
  have "uint a AND push_bit 8 (uint b) = 0"
    by (rule bit_eqI) (auto simp: bit_simps bit_uint_iff dest: bit_imp_le_length)
  then show ?thesis
    by (simp add: disjunctive_add_eq_or [symmetric] push_bit_eq_mult)
qed

text \<open>\<open>LZ4_readLE16\<close> reads little endian whatever the CPU.\<close>

lemma LZ4_readLE16_eq:
  assumes "mapped m p (p + 2)"
  shows "LZ4_readLE16 le m p = Some (uint (the (m p)) + 256 * uint (the (m (p + 1))))"
proof -
  obtain b0 b1 where b: "m p = Some b0" "m (p + 1) = Some b1"
    using mappedD [OF assms, of p] mappedD [OF assms, of "p + 1"] by auto
  have "uint b0 + 256 * uint b1 < 65536"
    using uint_byte_range [of b0] uint_byte_range [of b1] by linarith
  then show ?thesis
    using assms b by (auto simp: LZ4_readLE16_def LZ4_read16_def loads_two native_def load8_def
        or_push_byte width_simps)
qed

section \<open>The copy contract\<close>

text \<open>
  What every copy routine of the decoder and encoder promises: the memory outside \<open>[d, w)\<close> is
  untouched, and each byte of \<open>[d, e)\<close> equals the byte at the same distance behind it. The bytes of
  \<open>[e, w)\<close> are scratch.
\<close>

definition lz_copied :: "mem \<Rightarrow> mem \<Rightarrow> int \<Rightarrow> int \<Rightarrow> int \<Rightarrow> int \<Rightarrow> bool" where
  "lz_copied m m' d s e w \<longleftrightarrow>
     frame m m' d w \<and> (\<forall>a. d \<le> a \<and> a < e \<longrightarrow> m' a = m' (s + (a - d)))"

lemma lz_copied_frame: "lz_copied m m' d s e w \<Longrightarrow> frame m m' d w"
  by (simp add: lz_copied_def)

lemma lz_copied_at: "lz_copied m m' d s e w \<Longrightarrow> d \<le> a \<Longrightarrow> a < e \<Longrightarrow> m' a = m' (s + (a - d))"
  by (simp add: lz_copied_def)

lemma lz_copied_weaken: "lz_copied m m' d s e w \<Longrightarrow> e' \<le> e \<Longrightarrow> w \<le> w' \<Longrightarrow> lz_copied m m' d s e' w'"
  by (auto simp: lz_copied_def intro: frame_widen)

lemma lz_copied_refl: "lz_copied m m d s d d"
  by (auto simp: lz_copied_def frame_refl)

text \<open>One block of \<open>n\<close> bytes appended to a copy in progress.\<close>

lemma lz_copied_step:
  assumes c: "lz_copied m m1 d s d1 d1" and "d \<le> d1" "0 \<le> n"
    and ov: "s + n \<le> d \<or> d1 + n \<le> s"
    and ms: "mapped m (s + (d1 - d)) (s + (d1 - d) + n)" and md: "mapped m d1 (d1 + n)"
  shows "\<exists>m2. memcpy m1 d1 (s + (d1 - d)) n = Some m2 \<and> lz_copied m m2 d s (d1 + n) (d1 + n)"
proof (intro exI conjI)
  let ?s = "s + (d1 - d)" let ?m2 = "blit m1 d1 ?s n"
  have fr: "frame m m1 d d1" using c by (rule lz_copied_frame)
  have ms1: "mapped m1 ?s (?s + n)" and md1: "mapped m1 d1 (d1 + n)"
    using ms md frame_mapped [OF fr] by auto
  show "memcpy m1 d1 ?s n = Some ?m2"
    using \<open>0 \<le> n\<close> ms1 md1 ov \<open>d \<le> d1\<close> by (intro memcpy_Some) auto
  have fr2: "frame m1 ?m2 d1 (d1 + n)"
    using ms1 md1 by (intro frame_blit) auto
  have "frame m ?m2 d (d1 + n)"
    using frame_widen [OF fr, of d "d1 + n"] frame_widen [OF fr2, of d "d1 + n"] \<open>d \<le> d1\<close> \<open>0 \<le> n\<close>
    by (auto intro: frame_trans)
  moreover have "?m2 a = ?m2 (s + (a - d))" if "d \<le> a" "a < d1 + n" for a
  proof -
    have out: "s + (a - d) < d1 \<or> d1 + n \<le> s + (a - d)"
      using that ov \<open>d \<le> d1\<close> by linarith
    then have "?m2 (s + (a - d)) = m1 (s + (a - d))"
      using fr2 by (auto intro: frame_at)
    also have "\<dots> = ?m2 a"
    proof (cases "a < d1")
      case True
      then show ?thesis
        using c that by (simp add: lz_copied_at blit_def)
    next
      case False
      have "?s + (a - d1) = s + (a - d)" by simp
      then show ?thesis
        using False that unfolding blit_def by (simp only:) simp
    qed
    finally show ?thesis by simp
  qed
  ultimately show "lz_copied m ?m2 d s (d1 + n) (d1 + n)"
    by (simp add: lz_copied_def)
qed

text \<open>A copy whose source is left alone just moves the bytes.\<close>

lemma lz_copied_bytes_disjoint:
  assumes c: "lz_copied m m' d s e w" and "d \<le> e" and dis: "s + (e - d) \<le> d \<or> w \<le> s"
  shows "bytes m' d e = bytes m s (s + (e - d))"
proof (rule nth_equalityI)
  show "length (bytes m' d e) = length (bytes m s (s + (e - d)))" by simp
  fix k assume "k < length (bytes m' d e)"
  then have k: "d + int k < e" by simp
  have "m' (d + int k) = m' (s + int k)"
    using lz_copied_at [OF c, of "d + int k"] k by simp
  also have "\<dots> = m (s + int k)"
    using lz_copied_frame [OF c] dis k by (intro frame_at) auto
  finally show "bytes m' d e ! k = bytes m s (s + (e - d)) ! k"
    using k by (simp add: nth_bytes)
qed

text \<open>A copy from inside the history extends it as the format's match does.\<close>

lemma lz_copied_history:
  assumes c: "lz_copied m m' d s e w" and "lo \<le> s" "s < d" "d \<le> e"
  shows "bytes m' lo e = copy_match (bytes m lo d) (nat (d - s)) (nat (e - d))"
proof (rule copy_match_unique)
  show "0 < nat (d - s)" using \<open>s < d\<close> by simp
  show "nat (d - s) \<le> length (bytes m lo d)" using \<open>lo \<le> s\<close> by simp
  show "length (bytes m' lo e) = length (bytes m lo d) + nat (e - d)"
    using assms by (simp add: nat_diff_distrib)
  have "bytes m' lo e = bytes m' lo d @ bytes m' d e"
    using assms by (intro bytes_append) auto
  moreover have "bytes m' lo d = bytes m lo d"
    using lz_copied_frame [OF c] by (rule bytes_frame) simp
  ultimately show "take (length (bytes m lo d)) (bytes m' lo e) = bytes m lo d"
    by (metis append_eq_conv_conj length_bytes)
  fix k assume k: "length (bytes m lo d) \<le> k" "k < length (bytes m' lo e)"
  define a where "a = lo + int k"
  have a: "d \<le> a" "a < e" using k assms by (auto simp: a_def)
  have eq: "s + (a - d) = lo + int (k - nat (d - s))"
    using a k assms by (auto simp: a_def of_nat_diff)
  have "m' a = m' (s + (a - d))" using lz_copied_at [OF c a] .
  then have "m' a = m' (lo + int (k - nat (d - s)))" unfolding eq .
  then have "the (m' (lo + int k)) = the (m' (lo + int (k - nat (d - s))))"
    by (simp only: a_def)
  moreover have "k < nat (e - lo)" "k - nat (d - s) < nat (e - lo)" using k by auto
  ultimately show "bytes m' lo e ! k = bytes m' lo e ! (k - nat (d - s))"
    by (simp only: nth_bytes)
qed

section \<open>The copy routines implement it\<close>

text \<open>
  The interface the decoder and the encoder rely on: called on a destination \<open>[d, e)\<close> of at least
  \<open>minlen\<close> bytes with a source at least \<open>mindist\<close> behind it, with everything from the source to
  \<open>slack\<close> bytes past the end mapped, the routine has no undefined behaviour and copies.
\<close>

locale match_copier =
  fixes copy :: "mem \<Rightarrow> int \<Rightarrow> int \<Rightarrow> int \<Rightarrow> mem option"
    and slack :: int and mindist :: int and minlen :: int
  assumes copies:
    "d + minlen \<le> e \<Longrightarrow> s + mindist \<le> d \<Longrightarrow> mapped m s (e + slack) \<Longrightarrow>
     \<exists>m'. copy m d s e = Some m' \<and> lz_copied m m' d s e (e + slack)"
    and sizes: "0 \<le> slack" "1 \<le> mindist" "0 \<le> minlen"
begin

text \<open>On a history \<open>[lo, d)\<close> the routine performs the format's match copy.\<close>

lemma copy_extends_history:
  assumes "d + minlen \<le> e" "s + mindist \<le> d" "lo \<le> s" "mapped m lo (e + slack)"
  shows "\<exists>m'. copy m d s e = Some m' \<and> frame m m' d (e + slack) \<and>
           bytes m' lo e = copy_match (bytes m lo d) (nat (d - s)) (nat (e - d))"
proof -
  have "mapped m s (e + slack)"
    using assms sizes by (auto elim!: mapped_sub)
  then obtain m' where "copy m d s e = Some m'" and c: "lz_copied m m' d s e (e + slack)"
    using copies [of d e s m] assms by blast
  moreover have "bytes m' lo e = copy_match (bytes m lo d) (nat (d - s)) (nat (e - d))"
    using assms sizes by (intro lz_copied_history [OF c]) auto
  ultimately show ?thesis
    by (auto dest: lz_copied_frame)
qed

end

text \<open>Routines that may also copy from a separate object, as literals are.\<close>

locale literal_copier = match_copier +
  assumes copies_apart:
    "d + minlen \<le> e \<Longrightarrow> s + (e - d) + slack \<le> d \<or> e + slack \<le> s \<Longrightarrow>
     mapped m s (s + (e - d) + slack) \<Longrightarrow> mapped m d (e + slack) \<Longrightarrow>
     \<exists>m'. copy m d s e = Some m' \<and> lz_copied m m' d s e (e + slack)"
begin

lemma copy_literals:
  assumes "d + minlen \<le> e" "s + (e - d) + slack \<le> d \<or> e + slack \<le> s"
    "mapped m s (s + (e - d) + slack)" "mapped m d (e + slack)"
  shows "\<exists>m'. copy m d s e = Some m' \<and> frame m m' d (e + slack) \<and>
           bytes m' d e = bytes m s (s + (e - d))"
proof -
  obtain m' where m': "copy m d s e = Some m'" "lz_copied m m' d s e (e + slack)"
    using copies_apart [OF assms] by blast
  moreover have "bytes m' d e = bytes m s (s + (e - d))"
    using assms sizes by (intro lz_copied_bytes_disjoint [OF m'(2)]) auto
  ultimately show ?thesis
    by (auto dest: lz_copied_frame)
qed

end

text \<open>A do-while loop that appends blocks of \<open>n\<close> bytes until \<open>e\<close> is reached or passed.\<close>

lemma block_copy_loop:
  assumes "d < e" "0 < n"
    and step: "\<And>d1 m1. d \<le> d1 \<Longrightarrow> d1 < e \<Longrightarrow> lz_copied m m1 d s d1 d1 \<Longrightarrow>
      \<exists>m2. body (d1, s + (d1 - d), m1) =
             Some (if d1 + n < e then Inl (d1 + n, s + (d1 + n - d), m2) else Inr m2) \<and>
           lz_copied m m2 d s (d1 + n) (d1 + n)"
  shows "\<exists>m'. cloop body (d, s, m) = Some m' \<and> lz_copied m m' d s e (e + (n - 1))"
proof (rule cloop_total [where \<mu> = "\<lambda>(d1, s1, m1). nat (e - d1)" and
      I = "\<lambda>(d1, s1, m1). d \<le> d1 \<and> d1 < e \<and> s1 = s + (d1 - d) \<and> lz_copied m m1 d s d1 d1"])
  show "case (d, s, m) of (d1, s1, m1) \<Rightarrow>
      d \<le> d1 \<and> d1 < e \<and> s1 = s + (d1 - d) \<and> lz_copied m m1 d s d1 d1"
    using \<open>d < e\<close> by (simp add: lz_copied_refl)
next
  fix st assume "case st of (d1, s1, m1) \<Rightarrow>
      d \<le> d1 \<and> d1 < e \<and> s1 = s + (d1 - d) \<and> lz_copied m m1 d s d1 d1"
  then obtain d1 m1 where st: "st = (d1, s + (d1 - d), m1)" and d1: "d \<le> d1" "d1 < e"
    and c: "lz_copied m m1 d s d1 d1" by auto
  obtain m2 where "body (d1, s + (d1 - d), m1) =
             Some (if d1 + n < e then Inl (d1 + n, s + (d1 + n - d), m2) else Inr m2)"
      "lz_copied m m2 d s (d1 + n) (d1 + n)"
    using step [OF d1 c] by blast
  with d1 \<open>0 < n\<close> show "(\<exists>s'. body st = Some (Inl s') \<and>
          (case s' of (d1, s1, m1) \<Rightarrow> d \<le> d1 \<and> d1 < e \<and> s1 = s + (d1 - d) \<and> lz_copied m m1 d s d1 d1) \<and>
          (case s' of (d1, s1, m1) \<Rightarrow> nat (e - d1)) < (case st of (d1, s1, m1) \<Rightarrow> nat (e - d1))) \<or>
        (\<exists>r. body st = Some (Inr r) \<and> lz_copied m r d s e (e + (n - 1)))"
    by (cases "d1 + n < e") (auto simp: st intro: lz_copied_weaken)
qed

lemma LZ4_wildCopy8_ok:
  assumes "d < e" and ov: "s + 8 \<le> d \<or> e + 7 \<le> s"
    and ms: "mapped m s (s + (e - d) + 7)" and md: "mapped m d (e + 7)"
  shows "\<exists>m'. LZ4_wildCopy8 m d s e = Some m' \<and> lz_copied m m' d s e (e + 7)"
proof -
  have "\<exists>m2. LZ4_wildCopy8_body e (d1, s + (d1 - d), m1) =
             Some (if d1 + 8 < e then Inl (d1 + 8, s + (d1 + 8 - d), m2) else Inr m2) \<and>
           lz_copied m m2 d s (d1 + 8) (d1 + 8)"
    if d1: "d \<le> d1" "d1 < e" and c: "lz_copied m m1 d s d1 d1" for d1 m1
  proof -
    obtain m2 where "memcpy m1 d1 (s + (d1 - d)) 8 = Some m2" "lz_copied m m2 d s (d1 + 8) (d1 + 8)"
      using lz_copied_step [OF c d1(1), of 8] ov d1
        mapped_sub [OF ms, of "s + (d1 - d)" "s + (d1 - d) + 8"] mapped_sub [OF md, of d1 "d1 + 8"]
      by auto
    moreover have "s + (d1 - d) + 8 = s + (d1 + 8 - d)" by simp
    ultimately show ?thesis by simp
  qed
  from block_copy_loop [where body = "LZ4_wildCopy8_body e" and n = 8, OF \<open>d < e\<close> _ this]
  show ?thesis by (simp add: LZ4_wildCopy8_def)
qed

lemma LZ4_wildCopy32_ok:
  assumes "d < e" and ov: "s + 16 \<le> d \<or> e + 31 \<le> s"
    and ms: "mapped m s (s + (e - d) + 31)" and md: "mapped m d (e + 31)"
  shows "\<exists>m'. LZ4_wildCopy32 m d s e = Some m' \<and> lz_copied m m' d s e (e + 31)"
proof -
  have "\<exists>m2. LZ4_wildCopy32_body e (d1, s + (d1 - d), m1) =
             Some (if d1 + 32 < e then Inl (d1 + 32, s + (d1 + 32 - d), m2) else Inr m2) \<and>
           lz_copied m m2 d s (d1 + 32) (d1 + 32)"
    if d1: "d \<le> d1" "d1 < e" and c: "lz_copied m m1 d s d1 d1" for d1 m1
  proof -
    obtain m2 where m2: "memcpy m1 d1 (s + (d1 - d)) 16 = Some m2" "lz_copied m m2 d s (d1 + 16) (d1 + 16)"
      using lz_copied_step [OF c d1(1), of 16] ov d1
        mapped_sub [OF ms, of "s + (d1 - d)" "s + (d1 - d) + 16"] mapped_sub [OF md, of d1 "d1 + 16"]
      by auto
    have eq: "d1 + 16 + 16 = d1 + 32" "s + (d1 - d) + 16 = s + (d1 + 16 - d)"
      "s + (d1 - d) + 32 = s + (d1 + 32 - d)" by simp_all
    obtain m3 where "memcpy m2 (d1 + 16) (s + (d1 + 16 - d)) 16 = Some m3"
        "lz_copied m m3 d s (d1 + 16 + 16) (d1 + 16 + 16)"
      using lz_copied_step [OF m2(2), of 16] ov d1
        mapped_sub [OF ms, of "s + (d1 + 16 - d)" "s + (d1 + 16 - d) + 16"]
        mapped_sub [OF md, of "d1 + 16" "d1 + 16 + 16"]
      by auto
    with m2(1) show ?thesis unfolding eq by (simp add: eq)
  qed
  from block_copy_loop [where body = "LZ4_wildCopy32_body e" and n = 32, OF \<open>d < e\<close> _ this]
  show ?thesis by (simp add: LZ4_wildCopy32_def)
qed

interpretation wildCopy8: literal_copier LZ4_wildCopy8 7 8 1
  by unfold_locales (auto intro!: LZ4_wildCopy8_ok elim: mapped_sub)

interpretation wildCopy32: literal_copier LZ4_wildCopy32 31 16 1
  by unfold_locales (auto intro!: LZ4_wildCopy32_ok elim: mapped_sub)

lemma LZ4_wildCopy8_once: "e \<le> d + 8 \<Longrightarrow> LZ4_wildCopy8 m d s e = memcpy m d s 8"
  unfolding LZ4_wildCopy8_def
  by (subst cloop.simps, cases "memcpy m d s 8") auto

lemma copy_byte_memcpy: "d \<noteq> s \<Longrightarrow> copy_byte m d s = memcpy m d s 1"
  by (auto simp: copy_byte_def load8_def store8_def memcpy_def memmove_def split: option.splits)

lemma copy_byte_step:
  assumes "lz_copied m m1 d s d1 d1" "d \<le> d1" "s < d"
    and "mapped m (s + (d1 - d)) (s + (d1 - d) + 1)" "mapped m d1 (d1 + 1)"
  shows "\<exists>m2. copy_byte m1 d1 (s + (d1 - d)) = Some m2 \<and> lz_copied m m2 d s (d1 + 1) (d1 + 1)"
  using lz_copied_step [OF assms(1,2), of 1] assms by (simp add: copy_byte_memcpy)

lemma copy_bytes_ok:
  assumes de: "d \<le> e" and ov: "s < d" and ms: "mapped m s (s + (e - d))" and md: "mapped m d e"
  shows "\<exists>m'. copy_bytes m d s e = Some m' \<and> lz_copied m m' d s e e"
  unfolding copy_bytes_def
proof (rule cloop_total [where \<mu> = "\<lambda>(d1, s1, m1). nat (e - d1)" and
      I = "\<lambda>(d1, s1, m1). d \<le> d1 \<and> d1 \<le> e \<and> s1 = s + (d1 - d) \<and> lz_copied m m1 d s d1 d1"])
  show "case (d, s, m) of (d1, s1, m1) \<Rightarrow>
      d \<le> d1 \<and> d1 \<le> e \<and> s1 = s + (d1 - d) \<and> lz_copied m m1 d s d1 d1"
    using de by (simp add: lz_copied_refl)
next
  fix st assume "case st of (d1, s1, m1) \<Rightarrow>
      d \<le> d1 \<and> d1 \<le> e \<and> s1 = s + (d1 - d) \<and> lz_copied m m1 d s d1 d1"
  then obtain d1 m1 where st: "st = (d1, s + (d1 - d), m1)" and d1: "d \<le> d1" "d1 \<le> e"
    and c: "lz_copied m m1 d s d1 d1" by auto
  show "(\<exists>s'. copy_bytes_body e st = Some (Inl s') \<and>
          (case s' of (d1, s1, m1) \<Rightarrow> d \<le> d1 \<and> d1 \<le> e \<and> s1 = s + (d1 - d) \<and> lz_copied m m1 d s d1 d1) \<and>
          (case s' of (d1, s1, m1) \<Rightarrow> nat (e - d1)) < (case st of (d1, s1, m1) \<Rightarrow> nat (e - d1))) \<or>
        (\<exists>r. copy_bytes_body e st = Some (Inr r) \<and> lz_copied m r d s e e)"
  proof (cases "d1 < e")
    case True
    then obtain m2 where "copy_byte m1 d1 (s + (d1 - d)) = Some m2" "lz_copied m m2 d s (d1 + 1) (d1 + 1)"
      using copy_byte_step [OF c d1(1) ov] d1
        mapped_sub [OF ms, of "s + (d1 - d)" "s + (d1 - d) + 1"] mapped_sub [OF md, of d1 "d1 + 1"]
      by auto
    with True d1 show ?thesis by (auto simp: st)
  next
    case False
    with c d1 show ?thesis by (auto simp: st)
  qed
qed

interpretation byte_loop: match_copier copy_bytes 0 1 0
  by unfold_locales (auto intro!: copy_bytes_ok elim: mapped_sub)

section \<open>Matches less than eight bytes behind\<close>

text \<open>
  Copying from \<open>k\<close> periods behind is copying from one period behind, once the bytes in between
  repeat with that period.
\<close>

lemma period_chain:
  fixes f :: "int \<Rightarrow> 'a"
  assumes "\<And>x. d \<le> x \<Longrightarrow> x < a \<Longrightarrow> f x = f (x - off)" "0 < off" "d \<le> a - int k * off"
  shows "f (a - off) = f (a - int (Suc k) * off)"
  using assms(3)
proof (induction k)
  case 0
  then show ?case by simp
next
  case (Suc k)
  have lt: "a - int (Suc k) * off < a"
    using \<open>0 < off\<close> by (simp add: zero_less_mult_iff)
  have "a - int (Suc k) * off \<le> a - int k * off"
    using \<open>0 < off\<close> by (intro diff_left_mono mult_right_mono) auto
  with Suc have "f (a - off) = f (a - int (Suc k) * off)" by simp
  also have "\<dots> = f (a - int (Suc k) * off - off)"
    using Suc.prems lt by (rule assms(1))
  also have "a - int (Suc k) * off - off = a - int (Suc (Suc k)) * off"
    by (simp add: algebra_simps)
  finally show ?case .
qed

lemma period_step:
  fixes f :: "int \<Rightarrow> 'a"
  assumes "\<And>x. d \<le> x \<Longrightarrow> x < a \<Longrightarrow> f x = f (x - off)" "0 < off" "1 \<le> k"
    and "f a = f (a - int k * off)" "d \<le> a - (int k - 1) * off"
  shows "f a = f (a - off)"
proof -
  obtain j where "k = Suc j" using \<open>1 \<le> k\<close> by (cases k) auto
  then show ?thesis
    using period_chain [of d a f off j] assms by simp
qed

text \<open>A period that restarts \<open>k\<close> periods behind from \<open>d1\<close> on is one period all the way.\<close>

lemma period_extend:
  fixes f :: "int \<Rightarrow> 'a"
  assumes base: "\<And>x. d \<le> x \<Longrightarrow> x < d1 \<Longrightarrow> f x = f (x - off)"
    and rest: "\<And>x. d1 \<le> x \<Longrightarrow> x < e \<Longrightarrow> f x = f (x - int k * off)"
    and "0 < off" "1 \<le> k" "d \<le> d1 - (int k - 1) * off" "d \<le> x" "x < e"
  shows "f x = f (x - off)"
  using \<open>d \<le> x\<close> \<open>x < e\<close>
proof (induction "nat (x - d)" arbitrary: x rule: less_induct)
  case (less x)
  show ?case
  proof (cases "x < d1")
    case True
    with less.prems show ?thesis by (intro base)
  next
    case False
    show ?thesis
    proof (rule period_step [of d x f off k])
      fix y assume "d \<le> y" "y < x"
      with less.prems show "f y = f (y - off)" by (intro less.hyps) auto
    qed (use False less.prems assms in auto)
  qed
qed

lemma LZ4_write32_ok:
  assumes "mapped m p (p + 4)"
  shows "\<exists>m'. LZ4_write32 le m p v = Some m' \<and> frame m m' p (p + 4) \<and>
           (\<forall>a. p \<le> a \<and> a < p + 4 \<longrightarrow> m' a = Some (native le (le_bytes 4 v) ! nat (a - p)))"
proof -
  have len: "int (length (native le (le_bytes 4 v))) = 4"
    by (simp add: numeral_eq_Suc)
  have st: "LZ4_write32 le m p v = Some (\<lambda>x. if p \<le> x \<and> x < p + 4
      then Some (native le (le_bytes 4 v) ! nat (x - p)) else m x)"
    using stores_Some [of m p "native le (le_bytes 4 v)"] assms unfolding len LZ4_write32_def .
  have "dom (\<lambda>x. if p \<le> x \<and> x < p + 4 then Some (native le (le_bytes 4 v) ! nat (x - p)) else m x) = dom m"
    using assms by (auto simp: mapped_def dom_def)
  with st show ?thesis by (auto simp: frame_def)
qed

lemma native_zero: "i < 4 \<Longrightarrow> native le (le_bytes 4 0) ! i = 0"
proof -
  have "le_bytes 4 0 = [0, 0, 0, 0]" by (simp add: numeral_eq_Suc)
  then show "i < 4 \<Longrightarrow> native le (le_bytes 4 0) ! i = 0"
    by (auto simp: native_def numeral_eq_Suc less_Suc_eq)
qed

text \<open>The periods that the two tables jump, for each offset below eight.\<close>

lemma offset_tables:
  assumes "0 < off" "off < 8"
  shows "\<exists>j k. 1 \<le> j \<and> 1 \<le> k \<and> inc32table ! nat off + int j * off = 4 + off \<and> (int j - 1) * off \<le> 4 \<and>
           4 \<le> int j * off \<and>
           inc32table ! nat off - dec64table ! nat off + int k * off = 8 + off \<and>
           (int k - 1) * off \<le> 8 \<and> 8 \<le> int k * off"
proof -
  consider "off = 1" | "off = 2" | "off = 3" | "off = 4" | "off = 5" | "off = 6" | "off = 7"
    using assms by linarith
  then show ?thesis
  proof cases
    case 1
    show ?thesis unfolding 1 by (intro exI [of _ 4] exI [of _ 8]) (simp add: inc32table_def dec64table_def)
  next
    case 2
    show ?thesis unfolding 2 by (intro exI [of _ 2] exI [of _ 4]) (simp add: inc32table_def dec64table_def)
  next
    case 3
    show ?thesis unfolding 3 by (intro exI [of _ 2] exI [of _ 3]) (simp add: inc32table_def dec64table_def)
  next
    case 4
    show ?thesis unfolding 4 by (intro exI [of _ 2] exI [of _ 2]) (simp add: inc32table_def dec64table_def)
  next
    case 5
    show ?thesis unfolding 5 by (intro exI [of _ 1] exI [of _ 2]) (simp add: inc32table_def dec64table_def)
  next
    case 6
    show ?thesis unfolding 6 by (intro exI [of _ 1] exI [of _ 2]) (simp add: inc32table_def dec64table_def)
  next
    case 7
    show ?thesis unfolding 7 by (intro exI [of _ 1] exI [of _ 2]) (simp add: inc32table_def dec64table_def)
  qed
qed

lemma copy8_small_offset_ok:
  assumes off: "0 < off" "off < 8" "s = d - off" and m: "mapped m s (d + 8)"
  shows "\<exists>m' k. copy8_small_offset le m d s off = Some (m', d + 8 - int k * off) \<and>
           lz_copied m m' d s (d + 8) (d + 8) \<and> 1 \<le> k \<and> (int k - 1) * off \<le> 8 \<and> 8 \<le> int k * off"
proof -
  obtain j k where jk: "1 \<le> j" "1 \<le> k" "inc32table ! nat off + int j * off = 4 + off"
      "(int j - 1) * off \<le> 4" "4 \<le> int j * off"
      "inc32table ! nat off - dec64table ! nat off + int k * off = 8 + off"
      "(int k - 1) * off \<le> 8" "8 \<le> int k * off"
    using offset_tables [OF off(1,2)] by blast
  let ?inc = "inc32table ! nat off"
  have inc: "0 \<le> ?inc" "?inc \<le> off" using jk by (simp_all add: algebra_simps)
  have "mapped m d (d + 4)" using off by (intro mapped_sub [OF m]) auto
  then obtain m1 where m1: "LZ4_write32 le m d 0 = Some m1" and f1: "frame m m1 d (d + 4)"
    using LZ4_write32_ok by blast
  have mp1: "mapped m1 s (d + 8)" using m frame_mapped [OF f1] by simp
  have step: "\<exists>m2. copy_byte m' (d + i) (s + i) = Some m2 \<and> lz_copied m1 m2 d s (d + (i + 1)) (d + (i + 1))"
    if "lz_copied m1 m' d s (d + i) (d + i)" "0 \<le> i" "i < 4" for m' i
    using copy_byte_step [OF that(1)] that off
      mapped_sub [OF mp1, of "s + i" "s + (i + 1)"] mapped_sub [OF mp1, of "d + i" "d + (i + 1)"]
    by (auto simp: add.assoc)
  obtain m2 where m2: "copy_byte m1 d s = Some m2" and c2: "lz_copied m1 m2 d s (d + 1) (d + 1)"
    using step [of m1 0] by (auto simp: lz_copied_refl)
  obtain m3 where m3: "copy_byte m2 (d + 1) (s + 1) = Some m3" and c3: "lz_copied m1 m3 d s (d + 2) (d + 2)"
    using step [OF c2] by auto
  obtain m4 where m4: "copy_byte m3 (d + 2) (s + 2) = Some m4" and c4: "lz_copied m1 m4 d s (d + 3) (d + 3)"
    using step [OF c3] by auto
  obtain m5 where m5: "copy_byte m4 (d + 3) (s + 3) = Some m5" and c5: "lz_copied m1 m5 d s (d + 4) (d + 4)"
    using step [OF c4] by auto
  let ?m6 = "blit m5 (d + 4) (s + ?inc) 4"
  have f5: "frame m m5 d (d + 4)"
    using frame_trans [OF f1 lz_copied_frame [OF c5]] .
  have mp5: "mapped m5 s (d + 8)" using m frame_mapped [OF f5] by simp
  have m6: "memcpy m5 (d + 4) (s + ?inc) 4 = Some ?m6"
    using off inc mp5 by (intro memcpy_Some) (auto elim!: mapped_sub)
  have f56: "frame m5 ?m6 (d + 4) (d + 8)"
    using mp5 off inc by (intro frame_blit) (auto elim!: mapped_sub)
  have low: "?m6 a = m5 a" if "a < d + 4" for a
    using frame_at [OF f56] that by auto
  have p1: "?m6 a = ?m6 (a - off)" if "d \<le> a" "a < d + 4" for a
    using lz_copied_at [OF c5 that] low that off by (simp add: diff_add_eq add.commute)
  have p2: "?m6 a = ?m6 (a - int j * off)" if "d + 4 \<le> a" "a < d + 8" for a
  proof -
    have eq: "s + ?inc + (a - (d + 4)) = a - int j * off"
      using jk(3) off(3) by simp
    have "?m6 a = m5 (s + ?inc + (a - (d + 4)))"
      using that by (simp add: blit_def)
    then have "?m6 a = m5 (a - int j * off)" unfolding eq .
    also have "m5 (a - int j * off) = ?m6 (a - int j * off)"
      using that jk(5) by (intro low [symmetric]) linarith
    finally show ?thesis .
  qed
  have per: "?m6 a = ?m6 (a - off)" if "d \<le> a" "a < d + 8" for a
  proof (rule period_extend [of d "d + 4" ?m6 off "d + 8" j])
    show "?m6 x = ?m6 (x - off)" if "d \<le> x" "x < d + 4" for x using that by (rule p1)
    show "?m6 x = ?m6 (x - int j * off)" if "d + 4 \<le> x" "x < d + 8" for x using that by (rule p2)
  qed (use that off jk(1,4) in auto)
  have "lz_copied m ?m6 d s (d + 8) (d + 8)"
    unfolding lz_copied_def
  proof (intro conjI allI impI)
    show "frame m ?m6 d (d + 8)"
      using frame_trans [OF frame_widen [OF f5, of d "d + 8"] frame_widen [OF f56, of d "d + 8"]] by simp
    fix a assume "d \<le> a \<and> a < d + 8"
    then show "?m6 a = ?m6 (s + (a - d))"
      using per [of a] off(3) by (simp add: diff_add_eq add.commute)
  qed
  moreover have "s + ?inc - dec64table ! nat off = d + 8 - int k * off"
    using jk(6) off(3) by simp
  ultimately show ?thesis
    using m1 m2 m3 m4 m5 m6 jk by (auto simp: copy8_small_offset_def Let_def)
qed

text \<open>A zero offset writes zeros.\<close>

lemma copy8_small_offset_zero:
  assumes m: "mapped m d (d + 8)"
  shows "\<exists>m'. copy8_small_offset le m d d 0 = Some (m', d) \<and> frame m m' d (d + 8) \<and>
           (\<forall>a. d \<le> a \<and> a < d + 8 \<longrightarrow> m' a = Some 0)"
proof -
  have "mapped m d (d + 4)" by (intro mapped_sub [OF m]) auto
  then obtain m1 where m1: "LZ4_write32 le m d 0 = Some m1" and f1: "frame m m1 d (d + 4)"
      and v1: "\<forall>a. d \<le> a \<and> a < d + 4 \<longrightarrow> m1 a = Some (native le (le_bytes 4 0) ! nat (a - d))"
    using LZ4_write32_ok by blast
  have z1: "m1 a = Some 0" if "d \<le> a" "a < d + 4" for a
    using v1 that by (simp add: native_zero)
  have self: "copy_byte m1 (d + i) (d + i) = Some m1" if "0 \<le> i" "i < 4" for i
    using z1 [of "d + i"] that by (auto simp: copy_byte_def load8_def store8_def fun_eq_iff)
  let ?m6 = "blit m1 (d + 4) d 4"
  have mp1: "mapped m1 d (d + 8)" using m frame_mapped [OF f1] by simp
  have m6: "memcpy m1 (d + 4) d 4 = Some ?m6"
    using mp1 by (intro memcpy_Some) (auto elim!: mapped_sub)
  have f6: "frame m1 ?m6 (d + 4) (d + 8)"
    using mp1 by (intro frame_blit) (auto elim!: mapped_sub)
  have "frame m ?m6 d (d + 8)"
    using frame_trans [OF frame_widen [OF f1, of d "d + 8"] frame_widen [OF f6, of d "d + 8"]] by simp
  moreover have "?m6 a = Some 0" if "d \<le> a" "a < d + 8" for a
    using that by (auto simp: blit_def intro: z1)
  ultimately show ?thesis
    using m1 m6 self [of 0] self [of 1] self [of 2] self [of 3]
    by (auto simp: copy8_small_offset_def inc32table_def dec64table_def)
qed

lemma lz_copied_trans:
  assumes c1: "lz_copied m m1 d s d1 w1" and c2: "lz_copied m1 m2 d1 (s + (d1 - d)) e w"
    and "s < d" "d \<le> d1" "w1 \<le> w"
  shows "lz_copied m m2 d s e w"
  unfolding lz_copied_def
proof (intro conjI allI impI)
  show "frame m m2 d w"
    using frame_trans [OF frame_widen [OF lz_copied_frame [OF c1], of d w]
        frame_widen [OF lz_copied_frame [OF c2], of d w]] assms by simp
  fix a assume a: "d \<le> a \<and> a < e"
  show "m2 a = m2 (s + (a - d))"
  proof (cases "a < d1")
    case True
    then have "m2 a = m1 a" "m2 (s + (a - d)) = m1 (s + (a - d))"
      using \<open>s < d\<close> a by (auto intro!: frame_at [OF lz_copied_frame [OF c2]])
    then show ?thesis using lz_copied_at [OF c1, of a] True a by simp
  next
    case False
    then show ?thesis using lz_copied_at [OF c2, of a] a by (simp add: algebra_simps)
  qed
qed

lemma LZ4_memcpy_using_offset_base_ok:
  assumes off: "0 < off" "s = d - off" and e: "d + 4 \<le> e" and m: "mapped m s (e + 12)"
  shows "\<exists>m'. LZ4_memcpy_using_offset_base le m d s e off = Some m' \<and> lz_copied m m' d s e (e + 12)"
proof -
  define e1 where "e1 = max e (d + 9)"
  have e1: "d + 8 < e1" "e \<le> e1" "e1 + 7 \<le> e + 12" using e by (auto simp: e1_def)
  have wild: "LZ4_wildCopy8 m1 (d + 8) s1 e = LZ4_wildCopy8 m1 (d + 8) s1 e1" for m1 s1
  proof (cases "e \<le> d + 8")
    case True
    then show ?thesis by (simp add: e1_def LZ4_wildCopy8_once)
  next
    case False
    then show ?thesis by (cases "e = d + 9") (auto simp: e1_def max_def)
  qed
  show ?thesis
  proof (cases "off < 8")
    case True
    have "mapped m s (d + 8)" using m e by (auto elim: mapped_sub)
    then obtain m1 k where m1: "copy8_small_offset le m d s off = Some (m1, d + 8 - int k * off)"
      and c1: "lz_copied m m1 d s (d + 8) (d + 8)"
      and k: "1 \<le> k" "(int k - 1) * off \<le> 8" "8 \<le> int k * off"
      using copy8_small_offset_ok [OF off(1) True off(2)] by blast
    let ?s = "d + 8 - int k * off"
    have mp1: "mapped m1 s (e + 12)" using m frame_mapped [OF lz_copied_frame [OF c1]] by simp
    have "s \<le> ?s" using k off by (simp add: algebra_simps)
    then obtain m2 where m2: "LZ4_wildCopy8 m1 (d + 8) ?s e1 = Some m2"
      and c2: "lz_copied m1 m2 (d + 8) ?s e1 (e1 + 7)"
      using LZ4_wildCopy8_ok [of "d + 8" e1 ?s m1] e1 k off
        mapped_sub [OF mp1, of ?s "?s + (e1 - (d + 8)) + 7"] mapped_sub [OF mp1, of "d + 8" "e1 + 7"]
      by auto
    have low: "m2 a = m1 a" if "a < d + 8" for a
      using frame_at [OF lz_copied_frame [OF c2]] that by auto
    have "m2 a = m2 (a - off)" if "d \<le> a" "a < e" for a
    proof (rule period_extend [of d "d + 8" m2 off e k])
      fix x assume x: "d \<le> x" "x < d + 8"
      then show "m2 x = m2 (x - off)"
        using lz_copied_at [OF c1 x] low off by (simp add: diff_add_eq add.commute)
    next
      fix x assume "d + 8 \<le> x" "x < e"
      then show "m2 x = m2 (x - int k * off)"
        using lz_copied_at [OF c2, of x] e1(2) by (simp add: algebra_simps)
    qed (use that k off in auto)
    moreover have "frame m m2 d (e + 12)"
      using frame_trans [OF frame_widen [OF lz_copied_frame [OF c1], of d "e + 12"]
          frame_widen [OF lz_copied_frame [OF c2], of d "e + 12"]] e e1 by simp
    ultimately have "lz_copied m m2 d s e (e + 12)"
      using off(2) by (simp add: lz_copied_def diff_add_eq add.commute)
    with m1 m2 True wild show ?thesis by (simp add: LZ4_memcpy_using_offset_base_def)
  next
    case False
    obtain m1 where m1: "memcpy m d s 8 = Some m1" and c1: "lz_copied m m1 d s (d + 8) (d + 8)"
      using lz_copied_step [OF lz_copied_refl [of m d s], of 8] False off e
        mapped_sub [OF m, of s "s + 8"] mapped_sub [OF m, of d "d + 8"] by auto
    have mp1: "mapped m1 s (e + 12)" using m frame_mapped [OF lz_copied_frame [OF c1]] by simp
    obtain m2 where m2: "LZ4_wildCopy8 m1 (d + 8) (s + 8) e1 = Some m2"
      and c2: "lz_copied m1 m2 (d + 8) (s + 8) e1 (e1 + 7)"
      using LZ4_wildCopy8_ok [of "d + 8" e1 "s + 8" m1] e1 False off
        mapped_sub [OF mp1, of "s + 8" "s + 8 + (e1 - (d + 8)) + 7"]
        mapped_sub [OF mp1, of "d + 8" "e1 + 7"]
      by auto
    have "lz_copied m m2 d s e1 (e1 + 7)"
      using lz_copied_trans [OF c1, of m2 e1 "e1 + 7"] c2 off e1 by simp
    then have "lz_copied m m2 d s e (e + 12)"
      using e1 by (auto intro: lz_copied_weaken)
    with m1 m2 False wild show ?thesis by (simp add: LZ4_memcpy_using_offset_base_def)
  qed
qed

text \<open>The replicated pattern of offsets 1, 2 and 4.\<close>

lemma fill_pattern_ok:
  assumes m: "mapped m d (e + 7)" and v: "length v = 8" and de: "d \<le> e"
    and ini: "frame m m1 d (d + 8)" "\<And>a. d \<le> a \<Longrightarrow> a < d + 8 \<Longrightarrow> m1 a = Some (v ! nat ((a - d) mod 8))"
  shows "\<exists>m'. cloop (fill_pattern_body v e) (d + 8, m1) = Some m' \<and> frame m m' d (max (d + 8) (e + 7)) \<and>
           (\<forall>a. d \<le> a \<and> a < e \<longrightarrow> m' a = Some (v ! nat ((a - d) mod 8)))"
proof (rule cloop_total [where \<mu> = "\<lambda>(d1, m1). nat (e - d1)" and
      I = "\<lambda>(d1, m1). d + 8 \<le> d1 \<and> (d1 - d) mod 8 = 0 \<and> d1 \<le> max (d + 8) (e + 7) \<and> frame m m1 d d1 \<and>
             (\<forall>a. d \<le> a \<and> a < d1 \<longrightarrow> m1 a = Some (v ! nat ((a - d) mod 8)))"], goal_cases)
  case 1
  show ?case using ini by auto
next
  case (2 st)
  then obtain d1 m1 where st: "st = (d1, m1)" and d1: "d + 8 \<le> d1" "(d1 - d) mod 8 = 0"
      "d1 \<le> max (d + 8) (e + 7)" and fr: "frame m m1 d d1"
    and con: "\<forall>a. d \<le> a \<and> a < d1 \<longrightarrow> m1 a = Some (v ! nat ((a - d) mod 8))" by auto
  show ?case
  proof (cases "d1 < e")
    case True
    define m2 where "m2 = (\<lambda>x. if d1 \<le> x \<and> x < d1 + 8 then Some (v ! nat (x - d1)) else m1 x)"
    have mp: "mapped m1 d1 (d1 + 8)"
      unfolding frame_mapped [OF fr] using True d1 by (intro mapped_sub [OF m]) auto
    then have "stores m1 d1 v = Some m2"
      using stores_Some [of m1 d1 v] v by (simp add: m2_def)
    moreover have "frame m1 m2 d1 (d1 + 8)"
      using mp by (auto simp: frame_def m2_def mapped_def dom_def)
    then have "frame m m2 d (d1 + 8)"
      using frame_trans [OF frame_widen [OF fr, of d "d1 + 8"] frame_widen [of m1 m2 d1 "d1 + 8" d "d1 + 8"]] d1
      by simp
    moreover have "m2 a = Some (v ! nat ((a - d) mod 8))" if "d \<le> a" "a < d1 + 8" for a
    proof (cases "a < d1")
      case True
      with con that show ?thesis by (simp add: m2_def)
    next
      case False
      have "(a - d) mod 8 = ((a - d1) + (d1 - d)) mod 8" by simp
      also have "\<dots> = (a - d1) mod 8" using d1(2) by (subst mod_add_eq [symmetric]) simp
      also have "\<dots> = a - d1" using False that by simp
      finally show ?thesis using False that by (simp add: m2_def)
    qed
    moreover have "(d1 + 8 - d) mod 8 = 0"
      using d1(2) mod_add_self2 [of "d1 - d" 8] by (simp add: algebra_simps)
    ultimately show ?thesis
      using True d1 by (auto simp: st)
  next
    case False
    then show ?thesis
      using d1 fr con by (auto simp: st intro: frame_widen)
  qed
qed

lemma nth_pattern:
  "length bs = 1 \<Longrightarrow> 0 \<le> x \<Longrightarrow> (bs @ bs @ bs @ bs @ bs @ bs @ bs @ bs) ! nat (x mod 8) = bs ! nat (x mod 1)"
  "length bs = 2 \<Longrightarrow> 0 \<le> x \<Longrightarrow> (bs @ bs @ bs @ bs) ! nat (x mod 8) = bs ! nat (x mod 2)"
  "length bs = 4 \<Longrightarrow> 0 \<le> x \<Longrightarrow> (bs @ bs) ! nat (x mod 8) = bs ! nat (x mod 4)"
proof -
  have r: "0 \<le> x mod 8 \<and> x mod 8 < 8" by simp
  have m: "x mod 1 = x mod 8 mod 1" "x mod 2 = x mod 8 mod 2" "x mod 4 = x mod 8 mod 4"
    by (simp_all add: mod_mod_cancel)
  consider "x mod 8 = 0" | "x mod 8 = 1" | "x mod 8 = 2" | "x mod 8 = 3" | "x mod 8 = 4"
    | "x mod 8 = 5" | "x mod 8 = 6" | "x mod 8 = 7" using r by linarith
  note c = this
  show "length bs = 1 \<Longrightarrow> (bs @ bs @ bs @ bs @ bs @ bs @ bs @ bs) ! nat (x mod 8) = bs ! nat (x mod 1)"
    unfolding m by (cases rule: c) (auto simp: nth_append)
  show "length bs = 2 \<Longrightarrow> (bs @ bs @ bs @ bs) ! nat (x mod 8) = bs ! nat (x mod 2)"
    unfolding m by (cases rule: c) (auto simp: nth_append)
  show "length bs = 4 \<Longrightarrow> (bs @ bs) ! nat (x mod 8) = bs ! nat (x mod 4)"
    unfolding m by (cases rule: c) (auto simp: nth_append)
qed

lemma pattern_is_match:
  assumes off: "0 < off" "off dvd 8" "s = d - off" and m: "mapped m s (e + 12)" and e: "d + 4 \<le> e"
    and v: "length v = 8" "\<And>x. 0 \<le> x \<Longrightarrow> v ! nat (x mod 8) = bytes m s d ! nat (x mod off)"
  shows "\<exists>m' m''. stores m d v = Some m' \<and> cloop (fill_pattern_body v e) (d + 8, m') = Some m'' \<and>
           lz_copied m m'' d s e (e + 12)"
proof -
  have md: "mapped m d (e + 7)" "mapped m d (d + 8)" using m off e by (auto elim!: mapped_sub)
  define m1 where "m1 = (\<lambda>x. if d \<le> x \<and> x < d + 8 then Some (v ! nat (x - d)) else m x)"
  have m1: "stores m d v = Some m1"
    using stores_Some [of m d v] v md by (simp add: m1_def)
  have "frame m m1 d (d + 8)"
    using md by (auto simp: frame_def m1_def mapped_def dom_def)
  moreover have "m1 a = Some (v ! nat ((a - d) mod 8))" if "d \<le> a" "a < d + 8" for a
    using that by (simp add: m1_def)
  ultimately obtain m2 where m2: "cloop (fill_pattern_body v e) (d + 8, m1) = Some m2"
      and fr: "frame m m2 d (max (d + 8) (e + 7))"
      and con: "\<forall>a. d \<le> a \<and> a < e \<longrightarrow> m2 a = Some (v ! nat ((a - d) mod 8))"
    using fill_pattern_ok [of m d e v m1] md v e by auto
  have new: "m2 a = Some (bytes m s d ! nat ((a - d) mod off))" if "d \<le> a" "a < e" for a
    using con v(2) [of "a - d"] that by simp
  have "m2 a = m2 (a - off)" if a: "d \<le> a" "a < e" for a
  proof (cases "d \<le> a - off")
    case True
    have "(a - off - d) mod off = (a - d) mod off"
      using mod_add_self2 [of "a - off - d" off] by simp
    with True show ?thesis using new [of a] new [of "a - off"] a off(1) by simp
  next
    case False
    have "(a - d) mod off = a - off - s"
      using False a off by (simp add: algebra_simps mod_pos_pos_trivial)
    moreover have "m2 (a - off) = m (a - off)"
      using frame_at [OF fr] False by simp
    moreover have "m (a - off) = Some (bytes m s d ! nat (a - off - s))"
      using False a off mapped_sub [OF m, of s d] e by (intro mapped_Some_bytes) auto
    ultimately show ?thesis using new [OF a] by simp
  qed
  moreover have "frame m m2 d (e + 12)"
    using fr e by (auto elim: frame_widen)
  ultimately have "lz_copied m m2 d s e (e + 12)"
    using off(3) by (simp add: lz_copied_def diff_add_eq add.commute)
  with m1 m2 show ?thesis by blast
qed

lemma LZ4_memcpy_using_offset_ok:
  assumes off: "0 < off" "s = d - off" and e: "d + 4 \<le> e" and m: "mapped m s (e + 12)"
  shows "\<exists>m'. LZ4_memcpy_using_offset le m d s e off = Some m' \<and> lz_copied m m' d s e (e + 12)"
proof -
  have ld: "loads m s n = Some (bytes m s d)" "length (bytes m s d) = n" if "off = int n" for n
    using loads_Some [of m s n] mapped_sub [OF m, of s d] that off e by auto
  let ?bs = "bytes m s d"
  consider "off = 1" | "off = 2" | "off = 4" | "off \<noteq> 1" "off \<noteq> 2" "off \<noteq> 4" by blast
  then show ?thesis
  proof cases
    case 1
    then show ?thesis
      using pattern_is_match [of off s d m e "?bs @ ?bs @ ?bs @ ?bs @ ?bs @ ?bs @ ?bs @ ?bs"] assms
        ld [of 1] nth_pattern(1) [of ?bs] by (auto simp: LZ4_memcpy_using_offset_def)
  next
    case 2
    then show ?thesis
      using pattern_is_match [of off s d m e "?bs @ ?bs @ ?bs @ ?bs"] assms
        ld [of 2] nth_pattern(2) [of ?bs] by (auto simp: LZ4_memcpy_using_offset_def)
  next
    case 3
    then show ?thesis
      using pattern_is_match [of off s d m e "?bs @ ?bs"] assms
        ld [of 4] nth_pattern(3) [of ?bs] by (auto simp: LZ4_memcpy_using_offset_def)
  next
    case 4
    then show ?thesis
      using LZ4_memcpy_using_offset_base_ok [OF assms, of le] by (simp add: LZ4_memcpy_using_offset_def)
  qed
qed

interpretation using_offset: match_copier "\<lambda>m d s e. LZ4_memcpy_using_offset le m d s e (d - s)" 12 1 4
  for le
  by unfold_locales (auto intro!: LZ4_memcpy_using_offset_ok elim!: mapped_sub)

lemma zeros_by_period:
  assumes base: "\<And>a. d \<le> a \<Longrightarrow> a < d + 8 \<Longrightarrow> f a = z"
    and per: "\<And>a. d + 8 \<le> a \<Longrightarrow> a < e \<Longrightarrow> f a = f (a - 8)"
    and "d \<le> (a :: int)" "a < e"
  shows "f a = z"
  using assms(3,4)
proof (induction "nat (a - d)" arbitrary: a rule: less_induct)
  case (less a)
  show ?case
  proof (cases "a < d + 8")
    case True
    then show ?thesis using less.prems by (intro base)
  next
    case False
    then show ?thesis using less.hyps [of "a - 8"] less.prems per [of a] by simp
  qed
qed

lemma LZ4_memcpy_using_offset_zero:
  assumes e: "d + 4 \<le> e" and m: "mapped m d (e + 12)"
  shows "\<exists>m'. LZ4_memcpy_using_offset le m d d e 0 = Some m' \<and> frame m m' d (e + 12) \<and>
           (\<forall>a. d \<le> a \<and> a < e \<longrightarrow> m' a = Some 0)"
proof -
  define e1 where "e1 = max e (d + 9)"
  have e1: "d + 8 < e1" "e \<le> e1" "e1 + 7 \<le> e + 12" using e by (auto simp: e1_def)
  have wild: "LZ4_wildCopy8 m1 (d + 8) d e = LZ4_wildCopy8 m1 (d + 8) d e1" for m1
  proof (cases "e \<le> d + 8")
    case True
    then show ?thesis by (simp add: e1_def LZ4_wildCopy8_once)
  next
    case False
    then show ?thesis by (cases "e = d + 9") (auto simp: e1_def max_def)
  qed
  have "mapped m d (d + 8)" using m e by (auto elim: mapped_sub)
  then obtain m1 where m1: "copy8_small_offset le m d d 0 = Some (m1, d)" and f1: "frame m m1 d (d + 8)"
    and z1: "\<forall>a. d \<le> a \<and> a < d + 8 \<longrightarrow> m1 a = Some 0"
    using copy8_small_offset_zero by blast
  have mp1: "mapped m1 d (e + 12)" using m frame_mapped [OF f1] by simp
  obtain m2 where m2: "LZ4_wildCopy8 m1 (d + 8) d e1 = Some m2"
    and c2: "lz_copied m1 m2 (d + 8) d e1 (e1 + 7)"
    using LZ4_wildCopy8_ok [of "d + 8" e1 d m1] e1
      mapped_sub [OF mp1, of d "d + (e1 - (d + 8)) + 7"] mapped_sub [OF mp1, of "d + 8" "e1 + 7"]
    by auto
  have "m2 a = Some 0" if "d \<le> a" "a < e" for a
  proof (rule zeros_by_period [of d m2 "Some 0" e a])
    fix a assume "d \<le> a" "a < d + 8"
    then show "m2 a = Some 0" using z1 frame_at [OF lz_copied_frame [OF c2], of a] by simp
  next
    fix a assume "d + 8 \<le> a" "a < e"
    then show "m2 a = m2 (a - 8)" using lz_copied_at [OF c2, of a] e1 by (simp add: algebra_simps)
  qed (use that in auto)
  moreover have "frame m m2 d (e + 12)"
    using frame_trans [OF frame_widen [OF f1, of d "e + 12"]
        frame_widen [OF lz_copied_frame [OF c2], of d "e + 12"]] e e1 by simp
  ultimately show ?thesis
    using m1 m2 wild by (auto simp: LZ4_memcpy_using_offset_def LZ4_memcpy_using_offset_base_def)
qed

lemma copy_match_zero: "copy_match h 0 n = h @ replicate n 0"
  by (induction n arbitrary: h) (auto simp: replicate_app_Cons_same)

lemma zeroed_history:
  assumes "frame m m' d w" "\<forall>a. d \<le> a \<and> a < e \<longrightarrow> m' a = Some 0" "lo \<le> d" "d \<le> e"
  shows "bytes m' lo e = copy_match (bytes m lo d) 0 (nat (e - d))"
proof -
  have "bytes m' d e = replicate (nat (e - d)) 0"
    using assms(2) by (intro nth_equalityI) (auto simp: nth_bytes)
  moreover have "bytes m' lo d = bytes m lo d"
    using assms(1) by (rule bytes_frame) simp
  ultimately show ?thesis
    using bytes_append [of lo d e m'] assms by (simp add: copy_match_zero)
qed

end
