(* ===== verification/Lz4_Decompress.thy ===== *)
theory Lz4_Decompress
  imports Lz4_Common
begin

unbundle bit_operations_syntax

text \<open>
  The decompression functions of \<open>lib/lz4/lz4.c\<close>: the generic decoder with its fast and safe loops,
  cut at the labels the code jumps to, and the entry points that instantiate it. Pointers are
  addresses, \<open>size_t\<close> values wrap with \<^const>\<open>u64\<close>; \<open>LZ4_FAST_DEC_LOOP\<close> is 1, as the Makefile sets
  it. \<open>assert\<close> is disabled in the build and has no effect here.
\<close>

section \<open>Arguments and local constants of the generic decoder\<close>

datatype earlyEnd_directive = decode_full_block | partial_decode

record dargs =
  a_src :: int
  a_dst :: int
  a_srcSize :: int
  a_outputSize :: int
  a_partialDecoding :: earlyEnd_directive
  a_dict :: dict_directive
  a_lowPrefix :: int
  a_dictStart :: int
  a_dictSize :: int

definition a_iend :: "dargs \<Rightarrow> int" where
  "a_iend a = a_src a + a_srcSize a"

definition a_oend :: "dargs \<Rightarrow> int" where
  "a_oend a = a_dst a + a_outputSize a"

definition a_dictEnd :: "dargs \<Rightarrow> int" where
  "a_dictEnd a = (if a_dictStart a = 0 then 0 else a_dictStart a + a_dictSize a)"

definition a_checkOffset :: "dargs \<Rightarrow> bool" where
  "a_checkOffset a \<longleftrightarrow> a_dictSize a < 64 * KB"

definition a_shortiend :: "dargs \<Rightarrow> int" where
  "a_shortiend a = a_iend a - 14 - 2"

definition a_shortoend :: "dargs \<Rightarrow> int" where
  "a_shortoend a = a_oend a - 14 - 18"

definition a_partial :: "dargs \<Rightarrow> bool" where
  "a_partial a \<longleftrightarrow> a_partialDecoding a = partial_decode"

section \<open>Variable-length integers\<close>

definition rvl_error :: int where
  "rvl_error = u64 (- 1)"

text \<open>
  One round of reading: the next byte is added, the limit and (on 32-bit targets) the accumulator
  are checked. \<open>Inr\<close> is the returned value and the input position.
\<close>

fun rvl_body :: "int \<Rightarrow> mem \<Rightarrow> int \<times> int \<Rightarrow> (int \<times> int + int \<times> int) option" where
  "rvl_body ilimit m (ip, len) =
     do { s \<leftarrow> load8 m ip;
          let ip = ip + 1; let len = u64 (len + s);
          Some (if ip > ilimit then Inr (rvl_error, ip)
                else if sizeof_ptr < 8 \<and> len > u64 (- 1) div 2 then Inr (rvl_error, ip)
                else if s = 255 then Inl (ip, len)
                else Inr (len, ip)) }"

definition read_variable_length :: "mem \<Rightarrow> int \<Rightarrow> int \<Rightarrow> bool \<Rightarrow> (int \<times> int) option" where
  "read_variable_length m ip ilimit initial_check =
     (if initial_check \<and> ip \<ge> ilimit then Some (rvl_error, ip)
      else cloop (rvl_body ilimit m) (ip, 0))"

section \<open>Copying a match\<close>

text \<open>What leaves a decoding loop for good: the end of the block or \<open>goto _output_error\<close>.\<close>

datatype dexit = Decoded int mem | Output_error int mem

text \<open>
  A match that starts in the external dictionary, as both loops write it out. \<open>Inl\<close> is the
  \<open>continue\<close> of the loop.
\<close>

definition ext_dict_copy :: "dargs \<Rightarrow> int \<Rightarrow> int \<Rightarrow> int \<Rightarrow> mem \<Rightarrow> (int \<times> mem) option" where
  "ext_dict_copy a len mtch op m =
     (if len \<le> a_lowPrefix a - mtch then do {
        m \<leftarrow> memmove m op (a_dictEnd a - (a_lowPrefix a - mtch)) len;
        Some (op + len, m) }
      else do {
        let copySize = a_lowPrefix a - mtch; let restSize = len - copySize;
        m \<leftarrow> memcpy m op (a_dictEnd a - copySize) copySize;
        let op = op + copySize;
        if restSize > op - a_lowPrefix a then do {
          m \<leftarrow> copy_bytes m op (a_lowPrefix a) (op + restSize);
          Some (op + restSize, m) }
        else do {
          m \<leftarrow> memcpy m op (a_lowPrefix a) restSize;
          Some (op + restSize, m) } })"

definition ext_dict_match :: "dargs \<Rightarrow> int \<Rightarrow> int \<Rightarrow> int \<Rightarrow> int \<Rightarrow> mem \<Rightarrow> (int \<times> int \<times> mem + dexit) option" where
  "ext_dict_match a len mtch ip op m =
     (if op + len > a_oend a - LASTLITERALS then
        (if a_partial a then do {
           (op, m) \<leftarrow> ext_dict_copy a (min len (a_oend a - op)) mtch op m;
           Some (Inl (ip, op, m)) }
         else Some (Inr (Output_error ip m)))
      else do {
        (op, m) \<leftarrow> ext_dict_copy a len mtch op m;
        Some (Inl (ip, op, m)) })"

text \<open>The end of the safe loop's body: a match inside the current block or its prefix.\<close>

definition in_block_match ::
    "dargs \<Rightarrow> int \<Rightarrow> int \<Rightarrow> int \<Rightarrow> int \<Rightarrow> int \<Rightarrow> mem \<Rightarrow> (int \<times> int \<times> mem + dexit) option" where
  "in_block_match a offset mtch len ip op m =
     (let cpy = op + len in
      if a_partial a \<and> cpy > a_oend a - MATCH_SAFEGUARD_DISTANCE then do {
        let mlen = min len (a_oend a - op); let matchEnd = mtch + mlen; let copyEnd = op + mlen;
        m \<leftarrow> (if matchEnd > op then copy_bytes m op mtch copyEnd else memcpy m op mtch mlen);
        let op = copyEnd;
        Some (if op = a_oend a then Inr (Decoded op m) else Inl (ip, op, m)) }
      else do {
        (m, mtch) \<leftarrow>
          (if offset < 8 then copy8_small_offset LZ4_isLittleEndian m op mtch offset
           else do { m \<leftarrow> memcpy m op mtch 8; Some (m, mtch + 8) });
        let op = op + 8;
        if cpy > a_oend a - MATCH_SAFEGUARD_DISTANCE then do {
          let oCopyLimit = a_oend a - (WILDCOPYLENGTH - 1);
          if cpy > a_oend a - LASTLITERALS then Some (Inr (Output_error ip m))
          else do {
            (m, mtch, op) \<leftarrow>
              (if op < oCopyLimit then do {
                 m \<leftarrow> LZ4_wildCopy8 m op mtch oCopyLimit;
                 Some (m, mtch + (oCopyLimit - op), oCopyLimit) }
               else Some (m, mtch, op));
            m \<leftarrow> copy_bytes m op mtch cpy;
            Some (Inl (ip, cpy, m)) } }
        else do {
          m \<leftarrow> memcpy m op mtch 8;
          m \<leftarrow> (if len > 16 then LZ4_wildCopy8 m (op + 8) (mtch + 8) cpy else Some m);
          Some (Inl (ip, cpy, m)) } })"

text \<open>From the label \<open>safe_match_copy\<close>.\<close>

definition safe_match_copy ::
    "dargs \<Rightarrow> int \<Rightarrow> int \<Rightarrow> int \<Rightarrow> int \<Rightarrow> int \<Rightarrow> mem \<Rightarrow> (int \<times> int \<times> mem + dexit) option" where
  "safe_match_copy a offset mtch len ip op m =
     (if a_checkOffset a \<and> mtch + a_dictSize a < a_lowPrefix a then Some (Inr (Output_error ip m))
      else if a_dict a = usingExtDict \<and> mtch < a_lowPrefix a then ext_dict_match a len mtch ip op m
      else in_block_match a offset mtch len ip op m)"

text \<open>From the label \<open>_copy_match\<close>; \<open>len\<close> is the low half of the token.\<close>

definition copy_match_label ::
    "dargs \<Rightarrow> int \<Rightarrow> int \<Rightarrow> int \<Rightarrow> int \<Rightarrow> int \<Rightarrow> mem \<Rightarrow> (int \<times> int \<times> mem + dexit) option" where
  "copy_match_label a offset mtch len ip op m =
     (if len = ML_MASK then do {
        (addl, ip) \<leftarrow> read_variable_length m ip (a_iend a - LASTLITERALS + 1) False;
        if addl = rvl_error then Some (Inr (Output_error ip m))
        else do {
          let len = u64 (len + addl);
          if u64 (op + len) < u64 op then Some (Inr (Output_error ip m))
          else safe_match_copy a offset mtch (u64 (len + MINMATCH)) ip op m } }
      else safe_match_copy a offset mtch (u64 (len + MINMATCH)) ip op m)"

section \<open>The safe loop\<close>

text \<open>The offset and the match length that follow the literals.\<close>

definition safe_offset :: "dargs \<Rightarrow> int \<Rightarrow> int \<Rightarrow> int \<Rightarrow> mem \<Rightarrow> (int \<times> int \<times> mem + dexit) option" where
  "safe_offset a token ip op m = do {
     offset \<leftarrow> LZ4_readLE16 LZ4_isLittleEndian m ip;
     let ip = ip + 2; let mtch = op - offset;
     copy_match_label a offset mtch (token AND ML_MASK) ip op m }"

text \<open>From the label \<open>safe_literal_copy\<close>.\<close>

definition safe_literal_copy ::
    "dargs \<Rightarrow> int \<Rightarrow> int \<Rightarrow> int \<Rightarrow> int \<Rightarrow> mem \<Rightarrow> (int \<times> int \<times> mem + dexit) option" where
  "safe_literal_copy a token len ip op m =
     (let cpy = op + len in
      if cpy > a_oend a - MFLIMIT \<or> ip + len > a_iend a - (2 + 1 + LASTLITERALS) then
        (if \<not> a_partial a \<and> (ip + len \<noteq> a_iend a \<or> cpy > a_oend a)
         then Some (Inr (Output_error ip m))
         else do {
           let (len, cpy) =
             (if a_partial a \<and> ip + len > a_iend a
              then (a_iend a - ip, op + (a_iend a - ip)) else (len, cpy));
           let (len, cpy) =
             (if a_partial a \<and> cpy > a_oend a then (a_oend a - op, a_oend a) else (len, cpy));
           m \<leftarrow> memmove m op ip len;
           let ip = ip + len; let op = op + len;
           if \<not> a_partial a \<or> cpy = a_oend a \<or> ip \<ge> a_iend a - 2
           then Some (Inr (Decoded op m))
           else safe_offset a token ip op m })
      else do {
        m \<leftarrow> LZ4_wildCopy8 m op ip cpy;
        safe_offset a token (ip + len) cpy m })"

text \<open>The two-stage shortcut for short literal runs and short matches.\<close>

definition safe_shortcut :: "dargs \<Rightarrow> int \<Rightarrow> int \<Rightarrow> int \<Rightarrow> int \<Rightarrow> mem \<Rightarrow> (int \<times> int \<times> mem + dexit) option" where
  "safe_shortcut a token len ip op m = do {
     m \<leftarrow> memcpy m op ip 16;
     let op = op + len; let ip = ip + len; let len = token AND ML_MASK;
     offset \<leftarrow> LZ4_readLE16 LZ4_isLittleEndian m ip;
     let ip = ip + 2; let mtch = op - offset;
     if len \<noteq> ML_MASK \<and> offset \<ge> 8 \<and> (a_dict a = withPrefix64k \<or> mtch \<ge> a_lowPrefix a) then do {
       m \<leftarrow> memcpy m op mtch 8;
       m \<leftarrow> memcpy m (op + 8) (mtch + 8) 8;
       m \<leftarrow> memcpy m (op + 16) (mtch + 16) 2;
       Some (Inl (ip, op + len + MINMATCH, m)) }
     else copy_match_label a offset mtch len ip op m }"

fun safe_body :: "dargs \<Rightarrow> int \<times> int \<times> mem \<Rightarrow> (int \<times> int \<times> mem + dexit) option" where
  "safe_body a (ip, op, m) = do {
     token \<leftarrow> load8 m ip;
     let ip = ip + 1; let len = drop_bit ML_BITS token;
     if len \<noteq> RUN_MASK \<and> ip < a_shortiend a \<and> op \<le> a_shortoend a
     then safe_shortcut a token len ip op m
     else if len = RUN_MASK then do {
       (addl, ip) \<leftarrow> read_variable_length m ip (a_iend a - RUN_MASK) True;
       if addl = rvl_error then Some (Inr (Output_error ip m))
       else do {
         let len = u64 (len + addl);
         if u64 (op + len) < u64 op \<or> u64 (ip + len) < u64 ip
         then Some (Inr (Output_error ip m))
         else safe_literal_copy a token len ip op m } }
     else safe_literal_copy a token len ip op m }"

declare safe_body.simps [simp del]

definition safe_decode :: "dargs \<Rightarrow> int \<times> int \<times> mem \<Rightarrow> dexit option" where
  "safe_decode a = cloop (safe_body a)"

section \<open>The fast loop\<close>

text \<open>
  The fast loop runs while 64 bytes of output are left; its jumps into the safe loop carry the
  values the labels need.
\<close>

datatype fexit =
    Goto_safe_literal_copy int int int int mem \<comment> \<open>token, len, ip, op\<close>
  | Goto_safe_match_copy int int int int int mem \<comment> \<open>offset, match, len, ip, op\<close>
  | Goto_output_error int mem

definition fast_match :: "dargs \<Rightarrow> int \<Rightarrow> int \<Rightarrow> int \<Rightarrow> int \<Rightarrow> int \<Rightarrow> mem \<Rightarrow> (int \<times> int \<times> mem + fexit) option" where
  "fast_match a offset mtch len ip op m =
     (if a_checkOffset a \<and> mtch + a_dictSize a < a_lowPrefix a then Some (Inr (Goto_output_error ip m))
      else if a_dict a = usingExtDict \<and> mtch < a_lowPrefix a then do {
        r \<leftarrow> ext_dict_match a len mtch ip op m;
        Some (case r of Inl s \<Rightarrow> Inl s | Inr (Output_error ip m) \<Rightarrow> Inr (Goto_output_error ip m)
              | Inr (Decoded op m) \<Rightarrow> Inr (Goto_output_error ip m)) }
      else do {
        let cpy = op + len;
        m \<leftarrow> (if offset < 16 then LZ4_memcpy_using_offset LZ4_isLittleEndian m op mtch cpy offset
              else LZ4_wildCopy32 m op mtch cpy);
        Some (Inl (ip, cpy, m)) })"

definition fast_offset :: "dargs \<Rightarrow> int \<Rightarrow> int \<Rightarrow> int \<Rightarrow> mem \<Rightarrow> (int \<times> int \<times> mem + fexit) option" where
  "fast_offset a token ip op m = do {
     offset \<leftarrow> LZ4_readLE16 LZ4_isLittleEndian m ip;
     let ip = ip + 2; let mtch = op - offset; let len = token AND ML_MASK;
     if len = ML_MASK then do {
       (addl, ip) \<leftarrow> read_variable_length m ip (a_iend a - LASTLITERALS + 1) False;
       if addl = rvl_error then Some (Inr (Goto_output_error ip m))
       else do {
         let len = u64 (u64 (len + addl) + MINMATCH);
         if u64 (op + len) < u64 op then Some (Inr (Goto_output_error ip m))
         else if op + len \<ge> a_oend a - FASTLOOP_SAFE_DISTANCE
         then Some (Inr (Goto_safe_match_copy offset mtch len ip op m))
         else fast_match a offset mtch len ip op m } }
     else do {
       let len = u64 (len + MINMATCH);
       if op + len \<ge> a_oend a - FASTLOOP_SAFE_DISTANCE
       then Some (Inr (Goto_safe_match_copy offset mtch len ip op m))
       else if (a_dict a = withPrefix64k \<or> mtch \<ge> a_lowPrefix a) \<and> offset \<ge> 8 then do {
         m \<leftarrow> memcpy m op mtch 8;
         m \<leftarrow> memcpy m (op + 8) (mtch + 8) 8;
         m \<leftarrow> memcpy m (op + 16) (mtch + 16) 2;
         Some (Inl (ip, op + len, m)) }
       else fast_match a offset mtch len ip op m } }"

fun fast_body :: "dargs \<Rightarrow> int \<times> int \<times> mem \<Rightarrow> (int \<times> int \<times> mem + fexit) option" where
  "fast_body a (ip, op, m) = do {
     token \<leftarrow> load8 m ip;
     let ip = ip + 1; let len = drop_bit ML_BITS token;
     if len = RUN_MASK then do {
       (addl, ip) \<leftarrow> read_variable_length m ip (a_iend a - RUN_MASK) True;
       if addl = rvl_error then Some (Inr (Goto_output_error ip m))
       else do {
         let len = u64 (len + addl);
         if u64 (op + len) < u64 op \<or> u64 (ip + len) < u64 ip
         then Some (Inr (Goto_output_error ip m))
         else if op + len > a_oend a - 32 \<or> ip + len > a_iend a - 32
         then Some (Inr (Goto_safe_literal_copy token len ip op m))
         else do {
           m \<leftarrow> LZ4_wildCopy32 m op ip (op + len);
           fast_offset a token (ip + len) (op + len) m } } }
     else if ip \<le> a_iend a - (16 + 1) then do {
       m \<leftarrow> memcpy m op ip 16;
       fast_offset a token (ip + len) (op + len) m }
     else Some (Inr (Goto_safe_literal_copy token len ip op m)) }"

declare fast_body.simps [simp del]

section \<open>The generic decoder\<close>

text \<open>After a jump into the middle of the safe loop, the loop goes on.\<close>

definition resume_safe :: "dargs \<Rightarrow> (int \<times> int \<times> mem + dexit) option \<Rightarrow> dexit option" where
  "resume_safe a r = do { x \<leftarrow> r; case x of Inl s \<Rightarrow> safe_decode a s | Inr e \<Rightarrow> Some e }"

definition decode_loops :: "dargs \<Rightarrow> int \<Rightarrow> int \<Rightarrow> mem \<Rightarrow> dexit option" where
  "decode_loops a ip op m =
     (if a_oend a - op < FASTLOOP_SAFE_DISTANCE then safe_decode a (ip, op, m)
      else do {
        e \<leftarrow> cloop (fast_body a) (ip, op, m);
        case e of
          Goto_safe_literal_copy token len ip op m \<Rightarrow>
            resume_safe a (safe_literal_copy a token len ip op m)
        | Goto_safe_match_copy offset mtch len ip op m \<Rightarrow>
            resume_safe a (safe_match_copy a offset mtch len ip op m)
        | Goto_output_error ip m \<Rightarrow> Some (Output_error ip m) })"

definition LZ4_decompress_generic_from :: "dargs \<Rightarrow> int \<Rightarrow> int \<Rightarrow> mem \<Rightarrow> (int \<times> mem) option" where
  "LZ4_decompress_generic_from a ip op m =
     (if a_src a = 0 \<or> a_outputSize a < 0 then Some (- 1, m)
      else if a_outputSize a = 0 then
        (if a_partial a then Some (0, m)
         else if a_srcSize a = 1 then do { b \<leftarrow> load8 m ip; Some (if b = 0 then 0 else - 1, m) }
         else Some (- 1, m))
      else if a_srcSize a = 0 then Some (- 1, m)
      else do {
        e \<leftarrow> decode_loops a ip op m;
        Some (case e of
          Decoded op m \<Rightarrow> (s32 (op - a_dst a), m)
        | Output_error ip m \<Rightarrow> (s32 (- (ip - a_src a)) - 1, m)) })"

definition LZ4_decompress_generic :: "dargs \<Rightarrow> mem \<Rightarrow> (int \<times> mem) option" where
  "LZ4_decompress_generic a m = LZ4_decompress_generic_from a (a_src a) (a_dst a) m"

end
