(* ===== verification/Lz4_DecodeApi.thy ===== *)
theory Lz4_DecodeApi
  imports Lz4_Decompress
begin

text \<open>
  The entry points of the decoder: the one-shot functions, the dictionary and streaming variants, and the
  dispatch to the ARM64 assembler routine. The decoder behind the deprecated \<open>LZ4_decompress_fast*\<close>
  functions, which trusts its input, is in \<open>Lz4_Unsafe\<close>.
\<close>

unbundle bit_operations_syntax

section \<open>Instances of the generic decoder\<close>

definition LZ4_decompress_safe :: "mem \<Rightarrow> int \<Rightarrow> int \<Rightarrow> int \<Rightarrow> int \<Rightarrow> (int \<times> mem) option" where
  "LZ4_decompress_safe m source dest compressedSize maxDecompressedSize =
     LZ4_decompress_generic
       \<lparr>a_src = source, a_dst = dest, a_srcSize = compressedSize, a_outputSize = maxDecompressedSize,
        a_partialDecoding = decode_full_block, a_dict = noDict, a_lowPrefix = dest,
        a_dictStart = 0, a_dictSize = 0\<rparr> m"

definition LZ4_decompress_safe_partial :: "mem \<Rightarrow> int \<Rightarrow> int \<Rightarrow> int \<Rightarrow> int \<Rightarrow> int \<Rightarrow> (int \<times> mem) option" where
  "LZ4_decompress_safe_partial m src dst compressedSize targetOutputSize dstCapacity =
     (let dstCapacity = min targetOutputSize dstCapacity in
      LZ4_decompress_generic
       \<lparr>a_src = src, a_dst = dst, a_srcSize = compressedSize, a_outputSize = dstCapacity,
        a_partialDecoding = partial_decode, a_dict = noDict, a_lowPrefix = dst,
        a_dictStart = 0, a_dictSize = 0\<rparr> m)"

definition LZ4_decompress_safe_withPrefix64k :: "mem \<Rightarrow> int \<Rightarrow> int \<Rightarrow> int \<Rightarrow> int \<Rightarrow> (int \<times> mem) option" where
  "LZ4_decompress_safe_withPrefix64k m source dest compressedSize maxOutputSize =
     LZ4_decompress_generic
       \<lparr>a_src = source, a_dst = dest, a_srcSize = compressedSize, a_outputSize = maxOutputSize,
        a_partialDecoding = decode_full_block, a_dict = withPrefix64k, a_lowPrefix = dest - 64 * KB,
        a_dictStart = 0, a_dictSize = 0\<rparr> m"

definition LZ4_decompress_safe_partial_withPrefix64k ::
    "mem \<Rightarrow> int \<Rightarrow> int \<Rightarrow> int \<Rightarrow> int \<Rightarrow> int \<Rightarrow> (int \<times> mem) option" where
  "LZ4_decompress_safe_partial_withPrefix64k m source dest compressedSize targetOutputSize dstCapacity =
     (let dstCapacity = min targetOutputSize dstCapacity in
      LZ4_decompress_generic
       \<lparr>a_src = source, a_dst = dest, a_srcSize = compressedSize, a_outputSize = dstCapacity,
        a_partialDecoding = partial_decode, a_dict = withPrefix64k, a_lowPrefix = dest - 64 * KB,
        a_dictStart = 0, a_dictSize = 0\<rparr> m)"

definition LZ4_decompress_safe_withSmallPrefix ::
    "mem \<Rightarrow> int \<Rightarrow> int \<Rightarrow> int \<Rightarrow> int \<Rightarrow> int \<Rightarrow> (int \<times> mem) option" where
  "LZ4_decompress_safe_withSmallPrefix m source dest compressedSize maxOutputSize prefixSize =
     LZ4_decompress_generic
       \<lparr>a_src = source, a_dst = dest, a_srcSize = compressedSize, a_outputSize = maxOutputSize,
        a_partialDecoding = decode_full_block, a_dict = noDict, a_lowPrefix = dest - prefixSize,
        a_dictStart = 0, a_dictSize = 0\<rparr> m"

definition LZ4_decompress_safe_partial_withSmallPrefix ::
    "mem \<Rightarrow> int \<Rightarrow> int \<Rightarrow> int \<Rightarrow> int \<Rightarrow> int \<Rightarrow> int \<Rightarrow> (int \<times> mem) option" where
  "LZ4_decompress_safe_partial_withSmallPrefix m source dest compressedSize targetOutputSize dstCapacity prefixSize =
     (let dstCapacity = min targetOutputSize dstCapacity in
      LZ4_decompress_generic
       \<lparr>a_src = source, a_dst = dest, a_srcSize = compressedSize, a_outputSize = dstCapacity,
        a_partialDecoding = partial_decode, a_dict = noDict, a_lowPrefix = dest - prefixSize,
        a_dictStart = 0, a_dictSize = 0\<rparr> m)"

definition LZ4_decompress_safe_forceExtDict ::
    "mem \<Rightarrow> int \<Rightarrow> int \<Rightarrow> int \<Rightarrow> int \<Rightarrow> int \<Rightarrow> int \<Rightarrow> (int \<times> mem) option" where
  "LZ4_decompress_safe_forceExtDict m source dest compressedSize maxOutputSize dictStart dictSize =
     LZ4_decompress_generic
       \<lparr>a_src = source, a_dst = dest, a_srcSize = compressedSize, a_outputSize = maxOutputSize,
        a_partialDecoding = decode_full_block, a_dict = usingExtDict, a_lowPrefix = dest,
        a_dictStart = dictStart, a_dictSize = dictSize\<rparr> m"

definition LZ4_decompress_safe_partial_forceExtDict ::
    "mem \<Rightarrow> int \<Rightarrow> int \<Rightarrow> int \<Rightarrow> int \<Rightarrow> int \<Rightarrow> int \<Rightarrow> int \<Rightarrow> (int \<times> mem) option" where
  "LZ4_decompress_safe_partial_forceExtDict m source dest compressedSize targetOutputSize dstCapacity dictStart dictSize =
     (let dstCapacity = min targetOutputSize dstCapacity in
      LZ4_decompress_generic
       \<lparr>a_src = source, a_dst = dest, a_srcSize = compressedSize, a_outputSize = dstCapacity,
        a_partialDecoding = partial_decode, a_dict = usingExtDict, a_lowPrefix = dest,
        a_dictStart = dictStart, a_dictSize = dictSize\<rparr> m)"

definition LZ4_decompress_safe_doubleDict ::
    "mem \<Rightarrow> int \<Rightarrow> int \<Rightarrow> int \<Rightarrow> int \<Rightarrow> int \<Rightarrow> int \<Rightarrow> int \<Rightarrow> (int \<times> mem) option" where
  "LZ4_decompress_safe_doubleDict m source dest compressedSize maxOutputSize prefixSize dictStart dictSize =
     LZ4_decompress_generic
       \<lparr>a_src = source, a_dst = dest, a_srcSize = compressedSize, a_outputSize = maxOutputSize,
        a_partialDecoding = decode_full_block, a_dict = usingExtDict, a_lowPrefix = dest - prefixSize,
        a_dictStart = dictStart, a_dictSize = dictSize\<rparr> m"

text \<open>An explicit dictionary; an \<open>int\<close> size is converted to \<open>size_t\<close> on the way.\<close>

definition LZ4_decompress_safe_usingDict ::
    "mem \<Rightarrow> int \<Rightarrow> int \<Rightarrow> int \<Rightarrow> int \<Rightarrow> int \<Rightarrow> int \<Rightarrow> (int \<times> mem) option" where
  "LZ4_decompress_safe_usingDict m source dest compressedSize maxOutputSize dictStart dictSize =
     (if dictSize = 0 then LZ4_decompress_safe m source dest compressedSize maxOutputSize
      else if dictStart + dictSize = dest then
        (if dictSize \<ge> 64 * KB - 1
         then LZ4_decompress_safe_withPrefix64k m source dest compressedSize maxOutputSize
         else LZ4_decompress_safe_withSmallPrefix m source dest compressedSize maxOutputSize (u64 dictSize))
      else LZ4_decompress_safe_forceExtDict m source dest compressedSize maxOutputSize dictStart (u64 dictSize))"

definition LZ4_decompress_safe_partial_usingDict ::
    "mem \<Rightarrow> int \<Rightarrow> int \<Rightarrow> int \<Rightarrow> int \<Rightarrow> int \<Rightarrow> int \<Rightarrow> int \<Rightarrow> (int \<times> mem) option" where
  "LZ4_decompress_safe_partial_usingDict m source dest compressedSize targetOutputSize dstCapacity dictStart dictSize =
     (if dictSize = 0 then LZ4_decompress_safe_partial m source dest compressedSize targetOutputSize dstCapacity
      else if dictStart + dictSize = dest then
        (if dictSize \<ge> 64 * KB - 1
         then LZ4_decompress_safe_partial_withPrefix64k m source dest compressedSize targetOutputSize dstCapacity
         else LZ4_decompress_safe_partial_withSmallPrefix m source dest compressedSize targetOutputSize dstCapacity
                (u64 dictSize))
      else LZ4_decompress_safe_partial_forceExtDict m source dest compressedSize targetOutputSize dstCapacity
             dictStart (u64 dictSize))"

definition LZ4_uncompress_unknownOutputSize :: "mem \<Rightarrow> int \<Rightarrow> int \<Rightarrow> int \<Rightarrow> int \<Rightarrow> (int \<times> mem) option" where
  "LZ4_uncompress_unknownOutputSize m source dest isize maxOutputSize =
     LZ4_decompress_safe m source dest isize maxOutputSize"

section \<open>The ARM64 assembler path\<close>

text \<open>
  The assembler decoder of \<open>lz4armv8.S\<close> is a parameter: it takes the output position, the output
  window, the input position and the input limit, and returns a status, the two positions reached and
  the memory. The table of function pointers starts with the selector in every slot; the first call on
  a CPU replaces its slot.
\<close>

type_synonym asm_code = "mem \<Rightarrow> int \<Rightarrow> int \<Rightarrow> int \<Rightarrow> int \<Rightarrow> int \<Rightarrow> bool \<Rightarrow> (int \<times> int \<times> int \<times> mem) option"

datatype asm_fn = Fn_select | Fn_asm | Fn_asm_noprfm

record cpu_env =
  may_use_simd :: bool
  smp_processor_id :: nat
  cpu_is_cortex_a53 :: bool
  lz4_asm :: asm_code
  lz4_asm_noprfm :: asm_code

definition LZ4_FAST_MARGIN :: int where
  "LZ4_FAST_MARGIN = 128"

definition EIO :: int where
  "EIO = 5"

definition initial_asm_fn :: "nat \<Rightarrow> asm_fn" where
  "initial_asm_fn = (\<lambda>i. Fn_select)"

definition lz4_decompress_asm_select ::
    "cpu_env \<Rightarrow> (nat \<Rightarrow> asm_fn) \<Rightarrow> mem \<Rightarrow> int \<Rightarrow> int \<Rightarrow> int \<Rightarrow> int \<Rightarrow> int \<Rightarrow> bool \<Rightarrow>
     ((nat \<Rightarrow> asm_fn) \<times> int \<times> int \<times> int \<times> mem) option" where
  "lz4_decompress_asm_select E fns m dst_ptr dst_begin dst_end src_ptr src_end dip =
     (let i = smp_processor_id E in
      if cpu_is_cortex_a53 E then do {
        let fns = fns(i := Fn_asm_noprfm);
        (ret, d, s, m) \<leftarrow> lz4_asm_noprfm E m dst_ptr dst_begin dst_end src_ptr src_end dip;
        Some (fns, ret, d, s, m) }
      else do {
        let fns = fns(i := Fn_asm);
        (ret, d, s, m) \<leftarrow> lz4_asm E m dst_ptr dst_begin dst_end src_ptr src_end dip;
        Some (fns, ret, d, s, m) })"

definition lz4_decompress_asm ::
    "cpu_env \<Rightarrow> (nat \<Rightarrow> asm_fn) \<Rightarrow> mem \<Rightarrow> int \<Rightarrow> int \<Rightarrow> int \<Rightarrow> int \<Rightarrow> int \<Rightarrow> bool \<Rightarrow>
     ((nat \<Rightarrow> asm_fn) \<times> int \<times> int \<times> int \<times> mem) option" where
  "lz4_decompress_asm E fns m dst_ptr dst_begin dst_end src_ptr src_end dip =
     (case fns (smp_processor_id E) of
        Fn_select \<Rightarrow> lz4_decompress_asm_select E fns m dst_ptr dst_begin dst_end src_ptr src_end dip
      | Fn_asm \<Rightarrow> do {
          (ret, d, s, m) \<leftarrow> lz4_asm E m dst_ptr dst_begin dst_end src_ptr src_end dip; Some (fns, ret, d, s, m) }
      | Fn_asm_noprfm \<Rightarrow> do {
          (ret, d, s, m) \<leftarrow> lz4_asm_noprfm E m dst_ptr dst_begin dst_end src_ptr src_end dip; Some (fns, ret, d, s, m) })"

definition LZ4_arm64_decompress_safe_partial ::
    "cpu_env \<Rightarrow> (nat \<Rightarrow> asm_fn) \<Rightarrow> mem \<Rightarrow> int \<Rightarrow> int \<Rightarrow> int \<Rightarrow> int \<Rightarrow> bool \<Rightarrow> ((nat \<Rightarrow> asm_fn) \<times> int \<times> mem) option" where
  "LZ4_arm64_decompress_safe_partial E fns m source dest inputSize outputSize dip = do {
     (fns, ret, dstPtr, srcPtr, m) \<leftarrow>
       (if outputSize > LZ4_FAST_MARGIN \<and> inputSize > LZ4_FAST_MARGIN \<and> may_use_simd E
        then lz4_decompress_asm E fns m dest dest (dest + outputSize - LZ4_FAST_MARGIN)
               source (source + inputSize - LZ4_FAST_MARGIN) dip
        else Some (fns, 0, dest, source, m));
     if ret \<noteq> 0 then Some (fns, - EIO, m)
     else do {
       (r, m) \<leftarrow> LZ4_decompress_generic_from
         \<lparr>a_src = source, a_dst = dest, a_srcSize = s32 inputSize, a_outputSize = s32 outputSize,
          a_partialDecoding = partial_decode, a_dict = noDict, a_lowPrefix = dest,
          a_dictStart = 0, a_dictSize = 0\<rparr> srcPtr dstPtr m;
       Some (fns, r, m) } }"

definition LZ4_arm64_decompress_safe ::
    "cpu_env \<Rightarrow> (nat \<Rightarrow> asm_fn) \<Rightarrow> mem \<Rightarrow> int \<Rightarrow> int \<Rightarrow> int \<Rightarrow> int \<Rightarrow> bool \<Rightarrow> ((nat \<Rightarrow> asm_fn) \<times> int \<times> mem) option" where
  "LZ4_arm64_decompress_safe E fns m source dest inputSize outputSize dip = do {
     (fns, ret, dstPtr, srcPtr, m) \<leftarrow>
       (if outputSize > LZ4_FAST_MARGIN \<and> inputSize > LZ4_FAST_MARGIN \<and> may_use_simd E
        then lz4_decompress_asm E fns m dest dest (dest + outputSize - LZ4_FAST_MARGIN)
               source (source + inputSize - LZ4_FAST_MARGIN) dip
        else Some (fns, 0, dest, source, m));
     if ret \<noteq> 0 then Some (fns, - EIO, m)
     else do {
       (r, m) \<leftarrow> LZ4_decompress_generic_from
         \<lparr>a_src = source, a_dst = dest, a_srcSize = s32 inputSize, a_outputSize = s32 outputSize,
          a_partialDecoding = decode_full_block, a_dict = noDict, a_lowPrefix = dest,
          a_dictStart = 0, a_dictSize = 0\<rparr> srcPtr dstPtr m;
       Some (fns, r, m) } }"

section \<open>Streaming\<close>

record LZ4_streamDecode_t_internal =
  externalDict :: int
  prefixEnd :: int
  extDictSize :: int
  prefixSize :: int

definition LZ4_setStreamDecode ::
    "LZ4_streamDecode_t_internal \<Rightarrow> int \<Rightarrow> int \<Rightarrow> LZ4_streamDecode_t_internal \<times> int" where
  "LZ4_setStreamDecode lz4sd dictionary dictSize =
     (let lz4sd = lz4sd\<lparr>prefixSize := u64 dictSize\<rparr>;
          lz4sd = (if dictSize \<noteq> 0 then lz4sd\<lparr>prefixEnd := dictionary + dictSize\<rparr>
                   else lz4sd\<lparr>prefixEnd := dictionary\<rparr>);
          lz4sd = lz4sd\<lparr>externalDict := 0, extDictSize := 0\<rparr>
      in (lz4sd, 1))"

definition LZ4_DECODER_RING_BUFFER_SIZE :: "int \<Rightarrow> int" where
  "LZ4_DECODER_RING_BUFFER_SIZE maxBlockSize = 65536 + 14 + maxBlockSize"

definition LZ4_decoderRingBufferSize :: "int \<Rightarrow> int" where
  "LZ4_decoderRingBufferSize maxBlockSize =
     (if maxBlockSize < 0 then 0
      else if maxBlockSize > LZ4_MAX_INPUT_SIZE then 0
      else LZ4_DECODER_RING_BUFFER_SIZE (if maxBlockSize < 16 then 16 else maxBlockSize))"

text \<open>The sizes of buffers for work in place.\<close>

definition LZ4_DECOMPRESS_INPLACE_MARGIN :: "int \<Rightarrow> int" where
  "LZ4_DECOMPRESS_INPLACE_MARGIN compressedSize = drop_bit 8 compressedSize + 32"

definition LZ4_DECOMPRESS_INPLACE_BUFFER_SIZE :: "int \<Rightarrow> int" where
  "LZ4_DECOMPRESS_INPLACE_BUFFER_SIZE decompressedSize = decompressedSize + LZ4_DECOMPRESS_INPLACE_MARGIN decompressedSize"

definition LZ4_COMPRESS_INPLACE_MARGIN :: int where
  "LZ4_COMPRESS_INPLACE_MARGIN = LZ4_DISTANCE_MAX + 32"

definition LZ4_COMPRESS_INPLACE_BUFFER_SIZE :: "int \<Rightarrow> int" where
  "LZ4_COMPRESS_INPLACE_BUFFER_SIZE maxCompressedSize = maxCompressedSize + LZ4_COMPRESS_INPLACE_MARGIN"

text \<open>
  The first branch calls the assembler front end, as the kernel configuration with NEON does; the
  \<open>int\<close> sizes become \<open>size_t\<close> there, and its \<open>ssize_t\<close> result becomes an \<open>int\<close> again.
\<close>

definition LZ4_decompress_safe_continue ::
    "cpu_env \<Rightarrow> (nat \<Rightarrow> asm_fn) \<Rightarrow> mem \<Rightarrow> LZ4_streamDecode_t_internal \<Rightarrow> int \<Rightarrow> int \<Rightarrow> int \<Rightarrow> int \<Rightarrow>
     ((nat \<Rightarrow> asm_fn) \<times> int \<times> LZ4_streamDecode_t_internal \<times> mem) option" where
  "LZ4_decompress_safe_continue E fns m lz4sd source dest compressedSize maxOutputSize =
     (if prefixSize lz4sd = 0 then do {
        (fns, result, m) \<leftarrow>
          LZ4_arm64_decompress_safe E fns m source dest (u64 compressedSize) (u64 maxOutputSize) False;
        if result \<le> 0 then Some (fns, result, lz4sd, m)
        else Some (fns, result, lz4sd\<lparr>prefixSize := result, prefixEnd := dest + result\<rparr>, m) }
      else if prefixEnd lz4sd = dest then do {
        (result, m) \<leftarrow>
          (if prefixSize lz4sd \<ge> 64 * KB - 1
           then LZ4_decompress_safe_withPrefix64k m source dest compressedSize maxOutputSize
           else if extDictSize lz4sd = 0
           then LZ4_decompress_safe_withSmallPrefix m source dest compressedSize maxOutputSize (prefixSize lz4sd)
           else LZ4_decompress_safe_doubleDict m source dest compressedSize maxOutputSize
                  (prefixSize lz4sd) (externalDict lz4sd) (extDictSize lz4sd));
        if result \<le> 0 then Some (fns, result, lz4sd, m)
        else Some (fns, result,
          lz4sd\<lparr>prefixSize := u64 (prefixSize lz4sd + result), prefixEnd := prefixEnd lz4sd + result\<rparr>, m) }
      else do {
        let lz4sd = lz4sd\<lparr>extDictSize := prefixSize lz4sd\<rparr>;
        let lz4sd = lz4sd\<lparr>externalDict := prefixEnd lz4sd - extDictSize lz4sd\<rparr>;
        (result, m) \<leftarrow>
          LZ4_decompress_safe_forceExtDict m source dest compressedSize maxOutputSize
            (externalDict lz4sd) (extDictSize lz4sd);
        if result \<le> 0 then Some (fns, result, lz4sd, m)
        else Some (fns, result, lz4sd\<lparr>prefixSize := result, prefixEnd := dest + result\<rparr>, m) })"

end
