(* ===== verification/Lz4_Unsafe.thy ===== *)
theory Lz4_Unsafe
  imports Lz4_DecodeApi
begin

unbundle bit_operations_syntax

text \<open>
  The decoder behind the deprecated \<open>LZ4_decompress_fast*\<close> functions of \<open>lib/lz4/lz4.c\<close>. It knows the
  size of the output but not of the input, and presumes a well-formed block: on others it may read
  anything, which is \<open>None\<close> here when the address is not mapped.
\<close>

section \<open>The generic unsafe decoder\<close>

fun read_long_length_body :: "mem \<Rightarrow> int \<times> int \<Rightarrow> (int \<times> int + int \<times> int) option" where
  "read_long_length_body m (p, l) = do {
     b \<leftarrow> load8 m p;
     Some (if b = 255 then Inl (p + 1, u64 (l + b)) else Inr (u64 (l + b), p + 1)) }"

definition read_long_length_no_check :: "mem \<Rightarrow> int \<Rightarrow> (int \<times> int) option" where
  "read_long_length_no_check m p = cloop (read_long_length_body m) (p, 0)"

record uargs =
  u_istart :: int
  u_ostart :: int
  u_decompressedSize :: int
  u_prefixSize :: int
  u_dictStart :: int
  u_dictSize :: int

definition u_oend :: "uargs \<Rightarrow> int" where
  "u_oend a = u_ostart a + u_decompressedSize a"

definition u_prefixStart :: "uargs \<Rightarrow> int" where
  "u_prefixStart a = u_ostart a - u_prefixSize a"

text \<open>\<open>for (u = 0; u < ml; u++) op[u] = match[u]\<close>.\<close>

fun unsafe_copy_body :: "int \<Rightarrow> int \<Rightarrow> int \<Rightarrow> int \<times> mem \<Rightarrow> (int \<times> mem + mem) option" where
  "unsafe_copy_body op mtch ml (u, m) =
     (if u < ml then do { v \<leftarrow> load8 m (mtch + u); m \<leftarrow> store8 m (op + u) v; Some (Inl (u + 1, m)) }
      else Some (Inr m))"

text \<open>\<open>if (l == 15) l += read_long_length_no_check(&ip)\<close>, for literals and matches.\<close>

definition extend_length :: "mem \<Rightarrow> int \<Rightarrow> int \<Rightarrow> (int \<times> int) option" where
  "extend_length m l ip =
     (if l = 15 then do { (x, ip) \<leftarrow> read_long_length_no_check m ip; Some (u64 (l + x), ip) } else Some (l, ip))"

text \<open>The literals: \<open>Inl\<close> goes on with the match, \<open>Inr\<close> is the returned value.\<close>

definition unsafe_literals :: "uargs \<Rightarrow> int \<Rightarrow> int \<Rightarrow> int \<Rightarrow> mem \<Rightarrow> (int \<times> int \<times> mem + int \<times> mem) option" where
  "unsafe_literals a token ip op m = do {
     let ll = drop_bit ML_BITS token;
     (ll, ip) \<leftarrow> extend_length m ll ip;
     if u64 (u_oend a - op) < ll then Some (Inr (- 1, m))
     else do {
       m \<leftarrow> memmove m op ip ll;
       let op = op + ll; let ip = ip + ll;
       if u64 (u_oend a - op) < MFLIMIT then
         (if op = u_oend a then Some (Inr (s32 (ip - u_istart a), m)) else Some (Inr (- 1, m)))
       else Some (Inl (ip, op, m)) } }"

text \<open>Where the match starts, with its part in the dictionary copied, and how much of it is left.\<close>

definition unsafe_source :: "uargs \<Rightarrow> int \<Rightarrow> int \<Rightarrow> int \<Rightarrow> mem \<Rightarrow> (int \<times> int \<times> int \<times> mem) option" where
  "unsafe_source a offset ml op m =
     (if offset > u64 (op - u_prefixStart a) then do {
        let dictEnd = u_dictStart a + u_dictSize a;
        let extMatch = dictEnd - (offset - u64 (op - u_prefixStart a));
        let extml = u64 (dictEnd - extMatch);
        if extml > ml then do { m \<leftarrow> memmove m op extMatch ml; Some (u_prefixStart a, 0, op + ml, m) }
        else do { m \<leftarrow> memmove m op extMatch extml; Some (u_prefixStart a, ml - extml, op + extml, m) } }
      else Some (op - offset, ml, op, m))"

text \<open>The match, in the output, in the dictionary or across both.\<close>

definition unsafe_match :: "uargs \<Rightarrow> int \<Rightarrow> int \<Rightarrow> int \<Rightarrow> mem \<Rightarrow> (int \<times> int \<times> mem + int \<times> mem) option" where
  "unsafe_match a token ip op m = do {
     let ml = token AND 15;
     offset \<leftarrow> LZ4_readLE16 LZ4_isLittleEndian m ip;
     let ip = ip + 2;
     (ml, ip) \<leftarrow> extend_length m ml ip;
     let ml = u64 (ml + MINMATCH);
     if u64 (u_oend a - op) < ml then Some (Inr (- 1, m))
     else if offset > u64 (u64 (op - u_prefixStart a) + u_dictSize a) then Some (Inr (- 1, m))
     else do {
       (mtch, ml, op, m) \<leftarrow> unsafe_source a offset ml op m;
       m \<leftarrow> cloop (unsafe_copy_body op mtch ml) (0, m);
       let op = op + ml;
       if u64 (u_oend a - op) < LASTLITERALS then Some (Inr (- 1, m)) else Some (Inl (ip, op, m)) } }"

fun unsafe_body :: "uargs \<Rightarrow> int \<times> int \<times> mem \<Rightarrow> (int \<times> int \<times> mem + int \<times> mem) option" where
  "unsafe_body a (ip, op, m) = do {
     token \<leftarrow> load8 m ip;
     r \<leftarrow> unsafe_literals a token (ip + 1) op m;
     (case r of Inr e \<Rightarrow> Some (Inr e) | Inl (ip, op, m) \<Rightarrow> unsafe_match a token ip op m) }"

definition LZ4_decompress_unsafe_generic :: "uargs \<Rightarrow> mem \<Rightarrow> (int \<times> mem) option" where
  "LZ4_decompress_unsafe_generic a m = cloop (unsafe_body a) (u_istart a, u_ostart a, m)"

section \<open>Entry points\<close>

definition unsafe_args :: "int \<Rightarrow> int \<Rightarrow> int \<Rightarrow> int \<Rightarrow> int \<Rightarrow> int \<Rightarrow> uargs" where
  "unsafe_args src dst decompressedSize psize dict dlen =
     \<lparr>u_istart = src, u_ostart = dst, u_decompressedSize = decompressedSize, u_prefixSize = psize,
      u_dictStart = dict, u_dictSize = dlen\<rparr>"

definition LZ4_decompress_fast :: "mem \<Rightarrow> int \<Rightarrow> int \<Rightarrow> int \<Rightarrow> (int \<times> mem) option" where
  "LZ4_decompress_fast m source dest originalSize =
     LZ4_decompress_unsafe_generic (unsafe_args source dest originalSize 0 0 0) m"

definition LZ4_decompress_fast_withPrefix64k :: "mem \<Rightarrow> int \<Rightarrow> int \<Rightarrow> int \<Rightarrow> (int \<times> mem) option" where
  "LZ4_decompress_fast_withPrefix64k m source dest originalSize =
     LZ4_decompress_unsafe_generic (unsafe_args source dest originalSize (64 * KB) 0 0) m"

definition LZ4_decompress_fast_extDict :: "mem \<Rightarrow> int \<Rightarrow> int \<Rightarrow> int \<Rightarrow> int \<Rightarrow> int \<Rightarrow> (int \<times> mem) option" where
  "LZ4_decompress_fast_extDict m source dest originalSize dictStart dictSize =
     LZ4_decompress_unsafe_generic (unsafe_args source dest originalSize 0 dictStart dictSize) m"

definition LZ4_decompress_fast_usingDict :: "mem \<Rightarrow> int \<Rightarrow> int \<Rightarrow> int \<Rightarrow> int \<Rightarrow> int \<Rightarrow> (int \<times> mem) option" where
  "LZ4_decompress_fast_usingDict m source dest originalSize dictStart dictSize =
     (if dictSize = 0 \<or> dictStart + dictSize = dest
      then LZ4_decompress_unsafe_generic (unsafe_args source dest originalSize (u64 dictSize) 0 0) m
      else LZ4_decompress_fast_extDict m source dest originalSize dictStart (u64 dictSize))"

definition LZ4_uncompress :: "mem \<Rightarrow> int \<Rightarrow> int \<Rightarrow> int \<Rightarrow> (int \<times> mem) option" where
  "LZ4_uncompress m source dest outputSize = LZ4_decompress_fast m source dest outputSize"

definition LZ4_decompress_fast_continue ::
    "mem \<Rightarrow> LZ4_streamDecode_t_internal \<Rightarrow> int \<Rightarrow> int \<Rightarrow> int \<Rightarrow> (int \<times> LZ4_streamDecode_t_internal \<times> mem) option" where
  "LZ4_decompress_fast_continue m lz4sd source dest originalSize =
     (if prefixSize lz4sd = 0 then do {
        (result, m) \<leftarrow> LZ4_decompress_fast m source dest originalSize;
        if result \<le> 0 then Some (result, lz4sd, m)
        else Some (result, lz4sd\<lparr>prefixSize := u64 originalSize, prefixEnd := dest + originalSize\<rparr>, m) }
      else if prefixEnd lz4sd = dest then do {
        (result, m) \<leftarrow> LZ4_decompress_unsafe_generic
          (unsafe_args source dest originalSize (prefixSize lz4sd) (externalDict lz4sd) (extDictSize lz4sd)) m;
        if result \<le> 0 then Some (result, lz4sd, m)
        else Some (result,
          lz4sd\<lparr>prefixSize := u64 (prefixSize lz4sd + u64 originalSize), prefixEnd := prefixEnd lz4sd + originalSize\<rparr>, m) }
      else do {
        let lz4sd = lz4sd\<lparr>extDictSize := prefixSize lz4sd\<rparr>;
        let lz4sd = lz4sd\<lparr>externalDict := prefixEnd lz4sd - extDictSize lz4sd\<rparr>;
        (result, m) \<leftarrow>
          LZ4_decompress_fast_extDict m source dest originalSize (externalDict lz4sd) (extDictSize lz4sd);
        if result \<le> 0 then Some (result, lz4sd, m)
        else Some (result, lz4sd\<lparr>prefixSize := u64 originalSize, prefixEnd := dest + originalSize\<rparr>, m) })"

end
