(* ===== verification/Lz4_RefDecode.thy ===== *)
theory Lz4_RefDecode
  imports Lz4_Format
begin

text \<open>
  The abstract specification of the decoder: a parser on byte lists that grows a history. It has
  neither memory nor pointers, no fast loop and no copies in blocks; what it fixes is which inputs
  the code accepts, what they decode to, and the input position an error is reported at.

  Only in partial decoding does the output depend on anything else: a match with the invalid offset
  zero that reaches the end of the buffer leaves the bytes that were there (\<open>stale\<close>).
\<close>

section \<open>Parameters and outcomes\<close>

text \<open>
  The input block, the capacity of the output, the length of the history before the first decoded
  byte, how many bytes of it lie in the external dictionary, and the decoding mode.
\<close>

record rparams =
  r_src :: "byte list"
  r_cap :: nat
  r_base :: nat
  r_dl :: nat
  r_partial :: bool

datatype rstep = RCont nat "byte list" | RDone "byte list" | RErr nat

definition r_out :: "rparams \<Rightarrow> byte list \<Rightarrow> nat" where
  "r_out P H = length H - r_base P"

definition segment :: "byte list \<Rightarrow> nat \<Rightarrow> nat \<Rightarrow> byte list" where
  "segment S i n = take n (drop i S)"

section \<open>The parser, stage by stage\<close>

text \<open>The tail of a length; \<open>k\<close> bytes must remain after it.\<close>

function ref_ext :: "byte list \<Rightarrow> nat \<Rightarrow> nat \<Rightarrow> nat \<Rightarrow> nat + nat \<times> nat" where
  "ref_ext S k i acc =
     (if i + 1 + k > length S then Inl (i + 1)
      else if S ! i = 255 then ref_ext S k (i + 1) (acc + 255)
      else Inr (acc + unat (S ! i), i + 1))"
  by pat_completeness auto
termination
  by (relation "measure (\<lambda>(S, k, i, acc). length S - i)") auto

declare ref_ext.simps [simp del]

definition ref_match :: "rparams \<Rightarrow> byte list \<Rightarrow> nat \<Rightarrow> byte list \<Rightarrow> nat \<Rightarrow> nat \<Rightarrow> rstep" where
  "ref_match P stale i H off ml =
     (let o' = r_out P H in
      if off > length H then RErr i
      else if off > length H - r_dl P then
        (if o' + ml + 5 > r_cap P then
           (if r_partial P then RCont i (copy_match H off (min ml (r_cap P - o'))) else RErr i)
         else RCont i (copy_match H off ml))
      else if r_partial P \<and> o' + ml + 12 > r_cap P then
        (let n = min ml (r_cap P - o');
             H' = (if off = 0 then H @ segment stale 0 n else copy_match H off n)
         in if o' + n = r_cap P then RDone H' else RCont i H')
      else if o' + ml + 5 > r_cap P then RErr i
      else RCont i (copy_match H off ml))"

definition ref_ml :: "rparams \<Rightarrow> byte list \<Rightarrow> nat \<Rightarrow> byte list \<Rightarrow> nat \<Rightarrow> nat \<Rightarrow> rstep" where
  "ref_ml P stale i H off t =
     (if t = 15 then
        (case ref_ext (r_src P) 4 i 0 of Inl e \<Rightarrow> RErr e
         | Inr (x, i) \<Rightarrow> ref_match P stale i H off (x + 19))
      else ref_match P stale i H off (t + 4))"

definition le16_at :: "byte list \<Rightarrow> nat \<Rightarrow> nat" where
  "le16_at S i = unat (S ! i) + 256 * unat (S ! (i + 1))"

definition ref_off :: "rparams \<Rightarrow> byte list \<Rightarrow> nat \<Rightarrow> byte list \<Rightarrow> nat \<Rightarrow> rstep" where
  "ref_off P stale i H t = ref_ml P stale (i + 2) H (le16_at (r_src P) i) (t mod 16)"

definition ref_lits :: "rparams \<Rightarrow> byte list \<Rightarrow> nat \<Rightarrow> byte list \<Rightarrow> nat \<Rightarrow> nat \<Rightarrow> rstep" where
  "ref_lits P stale i H t ll =
     (let n = length (r_src P); o' = r_out P H in
      if o' + ll + 12 > r_cap P \<or> i + ll + 8 > n then
        (if \<not> r_partial P then
           (if i + ll = n \<and> o' + ll \<le> r_cap P then RDone (H @ segment (r_src P) i ll) else RErr i)
         else
           (let l = min (min ll (n - i)) (r_cap P - o'); H' = H @ segment (r_src P) i l in
            if o' + l = r_cap P \<or> i + l + 2 \<ge> n then RDone H' else ref_off P stale (i + l) H' t))
      else ref_off P stale (i + ll) (H @ segment (r_src P) i ll) t)"

text \<open>Short literals far from both ends: the last bytes of the block are not reserved then.\<close>

definition ref_short :: "rparams \<Rightarrow> byte list \<Rightarrow> nat \<Rightarrow> byte list \<Rightarrow> nat \<Rightarrow> rstep" where
  "ref_short P stale i H t =
     (let off = le16_at (r_src P) i in
      if t mod 16 \<noteq> 15 \<and> 8 \<le> off \<and> off \<le> length H - r_dl P
      then RCont (i + 2) (copy_match H off (t mod 16 + 4))
      else ref_ml P stale (i + 2) H off (t mod 16))"

definition ref_step :: "rparams \<Rightarrow> byte list \<Rightarrow> nat \<Rightarrow> byte list \<Rightarrow> rstep" where
  "ref_step P stale i H =
     (let n = length (r_src P); t = unat (r_src P ! i); i = i + 1; ll = t div 16 in
      if ll \<noteq> 15 \<and> i + 16 < n \<and> r_out P H + 32 \<le> r_cap P
      then ref_short P stale (i + ll) (H @ segment (r_src P) i ll) t
      else if ll = 15 then
        (if i + 15 \<ge> n then RErr i
         else case ref_ext (r_src P) 15 i 0 of Inl e \<Rightarrow> RErr e
              | Inr (x, i) \<Rightarrow> ref_lits P stale i H t (15 + x))
      else ref_lits P stale i H t ll)"

section \<open>Whole blocks\<close>

text \<open>A run either rejects the block at a position or ends with a history.\<close>

inductive ref_run :: "rparams \<Rightarrow> nat \<Rightarrow> byte list \<Rightarrow> nat + byte list \<Rightarrow> bool" for P where
  run_cont: "ref_step P stale i H = RCont i' H' \<Longrightarrow> ref_run P i' H' r \<Longrightarrow> ref_run P i H r"
| run_done: "ref_step P stale i H = RDone H' \<Longrightarrow> ref_run P i H (Inr H')"
| run_err: "ref_step P stale i H = RErr e \<Longrightarrow> ref_run P i H (Inl e)"

lemma length_segment [simp]: "length (segment S i n) = min n (length S - i)"
  by (simp add: segment_def)

lemma ref_ext_bounds: "ref_ext S k i acc = Inr (x, i') \<Longrightarrow> i < i' \<and> i' + k \<le> length S \<and> acc \<le> x \<and> x \<le> acc + 255 * (i' - i)"
proof (induction S k i acc rule: ref_ext.induct)
  case (1 S k i acc)
  have "unat (S ! i) \<le> 255"
    by simp
  with 1 show ?case
    by (subst (asm) (2) ref_ext.simps) (fastforce split: if_splits)
qed

text \<open>The input position grows with every sequence, so every run ends.\<close>

lemma ref_match_pos: "ref_match P st i H off ml = RCont i' H' \<Longrightarrow> i' = i"
  by (auto simp: ref_match_def Let_def split: if_splits)

lemma ref_ml_pos:
  "ref_ml P st i H off t = RCont i' H' \<Longrightarrow> i < length (r_src P) \<Longrightarrow> i \<le> i' \<and> i' < length (r_src P)"
  by (auto simp: ref_ml_def dest!: ref_match_pos ref_ext_bounds split: if_splits sum.splits)

lemma ref_off_pos:
  "ref_off P st i H t = RCont i' H' \<Longrightarrow> i + 2 < length (r_src P) \<Longrightarrow> i + 2 \<le> i' \<and> i' < length (r_src P)"
  by (auto simp: ref_off_def dest: ref_ml_pos)

lemma ref_lits_pos:
  assumes "ref_lits P st i H t ll = RCont i' H'"
  shows "i < i' \<and> i' < length (r_src P)"
proof -
  define l where "l = min (min ll (length (r_src P) - i)) (r_cap P - r_out P H)"
  have "\<exists>j \<ge> i. \<exists>G. j + 2 < length (r_src P) \<and> ref_off P st j G t = RCont i' H'"
  proof (cases "r_out P H + ll + 12 > r_cap P \<or> i + ll + 8 > length (r_src P)")
    case True
    with assms show ?thesis
      by (auto simp: ref_lits_def Let_def l_def [symmetric] split: if_splits intro!: exI [of _ "i + l"])
  next
    case False
    with assms show ?thesis
      by (auto simp: ref_lits_def Let_def intro!: exI [of _ "i + ll"])
  qed
  then show ?thesis
    using ref_off_pos by fastforce
qed

lemma ref_short_pos:
  "ref_short P st i H t = RCont i' H' \<Longrightarrow> i + 2 < length (r_src P) \<Longrightarrow> i < i' \<and> i' < length (r_src P)"
  by (auto simp: ref_short_def Let_def dest: ref_ml_pos split: if_splits)

lemma ref_step_pos:
  assumes "ref_step P st i H = RCont i' H'"
  shows "i < i' \<and> i' < length (r_src P)"
proof -
  have "unat (r_src P ! i) div 16 \<le> 15"
    using unat_byte_less [of "r_src P ! i"] by (simp add: less_Suc_eq_le [symmetric] div_less_iff_less_mult)
  with assms show ?thesis
    by (auto simp: ref_step_def Let_def dest!: ref_short_pos ref_lits_pos ref_ext_bounds
        split: if_splits sum.splits)
qed

text \<open>The run as a function of the block and of the stale bytes each match may meet.\<close>

function ref_loop :: "rparams \<Rightarrow> byte list \<Rightarrow> nat \<Rightarrow> byte list \<Rightarrow> nat + byte list" where
  "ref_loop P stale i H =
     (case ref_step P stale i H of RCont i' H' \<Rightarrow> ref_loop P stale i' H'
      | RDone H' \<Rightarrow> Inr H' | RErr e \<Rightarrow> Inl e)"
  by pat_completeness auto
termination
  by (relation "measure (\<lambda>(P, st, i, H). length (r_src P) - i)") (use ref_step_pos in fastforce)+

declare ref_loop.simps [simp del]

text \<open>In full mode the stale bytes play no part, so there is exactly one outcome.\<close>

lemma ref_match_full: "\<not> r_partial P \<Longrightarrow> ref_match P st = ref_match P st'"
  by (intro ext) (simp add: ref_match_def Let_def)

lemma ref_ml_full:
  assumes n: "\<not> r_partial P" shows "ref_ml P st = ref_ml P st'"
  by (intro ext) (simp only: ref_ml_def ref_match_full [OF n, of st st'])

lemma ref_off_full:
  assumes n: "\<not> r_partial P" shows "ref_off P st = ref_off P st'"
  by (intro ext) (simp only: ref_off_def ref_ml_full [OF n, of st st'])

lemma ref_lits_full:
  assumes n: "\<not> r_partial P" shows "ref_lits P st = ref_lits P st'"
  by (intro ext) (simp only: ref_lits_def ref_off_full [OF n, of st st'])

lemma ref_short_full:
  assumes n: "\<not> r_partial P" shows "ref_short P st = ref_short P st'"
  by (intro ext) (simp only: ref_short_def ref_ml_full [OF n, of st st'])

lemma ref_step_full:
  assumes n: "\<not> r_partial P" shows "ref_step P st = ref_step P st'"
  by (intro ext) (simp only: ref_step_def ref_lits_full [OF n, of st st'] ref_short_full [OF n, of st st'])

lemma ref_run_full: "ref_run P i H r \<Longrightarrow> \<not> r_partial P \<Longrightarrow> r = ref_loop P [] i H"
proof (induction rule: ref_run.induct)
  case (run_cont st i H i' H' r)
  then show ?case using ref_step_full [of P st "[]"] by (subst ref_loop.simps) simp
next
  case (run_done st i H H')
  then show ?case using ref_step_full [of P st "[]"] by (subst ref_loop.simps) simp
next
  case (run_err st i H e)
  then show ?case using ref_step_full [of P st "[]"] by (subst ref_loop.simps) simp
qed

text \<open>An error is reported inside the input.\<close>

lemma ref_ext_err: "ref_ext S k i acc = Inl e \<Longrightarrow> i < length S \<Longrightarrow> 0 < k \<Longrightarrow> e \<le> length S"
proof (induction S k i acc rule: ref_ext.induct)
  case (1 S k i acc)
  then show ?case
    by (subst (asm) (2) ref_ext.simps) (auto split: if_splits)
qed

lemma ref_match_err: "ref_match P st i H off ml = RErr e \<Longrightarrow> e = i"
  by (auto simp: ref_match_def Let_def split: if_splits)

lemma ref_ml_err: "ref_ml P st i H off t = RErr e \<Longrightarrow> i < length (r_src P) \<Longrightarrow> e \<le> length (r_src P)"
  by (auto simp: ref_ml_def dest!: ref_match_err ref_ext_bounds dest: ref_ext_err split: if_splits sum.splits)

lemma ref_lits_err: "ref_lits P st i H t ll = RErr e \<Longrightarrow> i \<le> length (r_src P) \<Longrightarrow> e \<le> length (r_src P)"
  by (auto simp: ref_lits_def ref_off_def Let_def dest!: ref_ml_err split: if_splits)

lemma ref_step_err:
  assumes "ref_step P st i H = RErr e" "i < length (r_src P)"
  shows "e \<le> length (r_src P)"
proof -
  have "unat (r_src P ! i) div 16 \<le> 15"
    using unat_byte_less [of "r_src P ! i"] by linarith
  with assms show ?thesis
    by (auto simp: ref_step_def ref_short_def Let_def dest!: ref_lits_err ref_ml_err ref_ext_bounds
        dest: ref_ext_err split: if_splits sum.splits)
qed

lemma ref_run_err: "ref_run P i H r \<Longrightarrow> i < length (r_src P) \<Longrightarrow> r = Inl e \<Longrightarrow> e \<le> length (r_src P)"
  by (induction rule: ref_run.induct) (auto dest: ref_step_err ref_step_pos)

end
