(* ===== verification/Lz4_DecodeCopies.thy ===== *)
theory Lz4_DecodeCopies
  imports Lz4_Decompress Lz4_RefDecode
begin

text \<open>
  The copying statements of the decoder against \<^const>\<open>copy_match\<close>: what the callers of the generic
  decoder must provide (\<open>dec_ok\<close>), how the memory represents a history (\<open>hist\<close>), and the effect of
  every way the decoder writes a literal run or a match.
\<close>

section \<open>More on \<^const>\<open>copy_match\<close>\<close>

lemma copy_match_append: "off \<le> length h \<Longrightarrow> copy_match (g @ h) off n = g @ copy_match h off n"
proof (induction n arbitrary: h)
  case 0
  then show ?case by simp
next
  case (Suc n)
  have "(g @ h) ! (length (g @ h) - off) = h ! (length h - off)" if "off \<noteq> 0"
  proof -
    have "length (g @ h) - off = length g + (length h - off)" using Suc.prems by simp
    then show ?thesis by (simp only: nth_append_length_plus)
  qed
  then show ?case using Suc by simp
qed

lemma copy_match_short:
  assumes "n \<le> off" "off \<le> length h"
  shows "copy_match h off n = h @ take n (drop (length h - off) h)"
proof (cases "off = 0")
  case True
  with assms show ?thesis by simp
next
  case False
  show ?thesis
  proof (rule copy_match_unique [symmetric])
    fix k assume k: "length h \<le> k" "k < length (h @ take n (drop (length h - off) h))"
    then have "k - off < length h" "length h - off + (k - length h) = k - off"
      using assms by auto
    then show "(h @ take n (drop (length h - off) h)) ! k = (h @ take n (drop (length h - off) h)) ! (k - off)"
      using k assms by (simp add: nth_append)
  qed (use assms False in auto)
qed

section \<open>Matches inside the output\<close>

text \<open>The effect of a match copy, offset zero included.\<close>

definition lz_match :: "mem \<Rightarrow> mem \<Rightarrow> int \<Rightarrow> int \<Rightarrow> int \<Rightarrow> int \<Rightarrow> bool" where
  "lz_match m m' d off e w \<longleftrightarrow>
     frame m m' d w \<and> (\<forall>a. d \<le> a \<and> a < e \<longrightarrow> m' a = (if off = 0 then Some 0 else m' (a - off)))"

lemma lz_match_frame: "lz_match m m' d off e w \<Longrightarrow> frame m m' d w"
  by (simp add: lz_match_def)

lemma lz_match_weaken: "lz_match m m' d off e w \<Longrightarrow> e' \<le> e \<Longrightarrow> w \<le> w' \<Longrightarrow> lz_match m m' d off e' w'"
  by (auto simp: lz_match_def intro: frame_widen)

lemma lz_match_copied: "lz_copied m m' d (d - off) e w \<Longrightarrow> 0 < off \<Longrightarrow> lz_match m m' d off e w"
  by (auto simp: lz_match_def lz_copied_def algebra_simps)

lemma lz_match_history:
  assumes c: "lz_match m m' d off e w" and "0 \<le> off" "lo \<le> d - off" "d \<le> e"
  shows "bytes m' lo e = copy_match (bytes m lo d) (nat off) (nat (e - d))"
proof (cases "off = 0")
  case True
  then show ?thesis
    using zeroed_history [of m m' d w e lo] c assms by (simp add: lz_match_def)
next
  case False
  have "lz_copied m m' d (d - off) e w"
    using c False by (auto simp: lz_match_def lz_copied_def algebra_simps)
  then show ?thesis
    using lz_copied_history [of m m' d "d - off" e w lo] assms False by simp
qed

lemma memcpy_step:
  assumes "s + n \<le> d \<or> d + n \<le> s" "0 \<le> n" "mapped m s (s + n)" "mapped m d (d + n)"
  shows "\<exists>m'. memcpy m d s n = Some m' \<and> lz_copied m m' d s (d + n) (d + n)"
  using lz_copied_step [OF lz_copied_refl [of m d s], of n] assms by simp

text \<open>
  The first eight bytes of a match: whatever its distance, the source that is left is eight bytes
  behind, and any copy that goes on from it completes the match.
\<close>

lemma match_head:
  assumes off: "0 \<le> off" and m: "mapped m (d - off) (d + 8)"
  shows "\<exists>m1 s1. (if off < 8 then copy8_small_offset le m d (d - off) off
           else do { m \<leftarrow> memcpy m d (d - off) 8; Some (m, d - off + 8) }) = Some (m1, s1) \<and>
         d - off \<le> s1 \<and> s1 \<le> d \<and> frame m m1 d (d + 8) \<and>
         (\<forall>m2 e w. lz_copied m1 m2 (d + 8) s1 e w \<longrightarrow> d + 8 \<le> w \<longrightarrow> lz_match m m2 d off e w)"
proof -
  consider "off = 0" | "0 < off" "off < 8" | "8 \<le> off" using off by linarith
  then show ?thesis
  proof cases
    case 1
    then obtain m1 where m1: "copy8_small_offset le m d d 0 = Some (m1, d)" and f1: "frame m m1 d (d + 8)"
      and z1: "\<forall>a. d \<le> a \<and> a < d + 8 \<longrightarrow> m1 a = Some 0"
      using copy8_small_offset_zero [of m d le] m by auto
    have "lz_match m m2 d 0 e w" if c2: "lz_copied m1 m2 (d + 8) d e w" "d + 8 \<le> w" for m2 e w
    proof -
      have "m2 a = Some 0" if "d \<le> a" "a < e" for a
      proof (rule zeros_by_period [of d m2 "Some 0" e a])
        fix a assume "d \<le> a" "a < d + 8"
        then show "m2 a = Some 0" using z1 frame_at [OF lz_copied_frame [OF c2(1)], of a] by simp
      next
        fix a assume "d + 8 \<le> a" "a < e"
        then show "m2 a = m2 (a - 8)" using lz_copied_at [OF c2(1), of a] by (simp add: algebra_simps)
      qed (use that in auto)
      moreover have "frame m m2 d w"
        using frame_trans [OF frame_widen [OF f1, of d w] frame_widen [OF lz_copied_frame [OF c2(1)], of d w]] c2
        by simp
      ultimately show ?thesis by (simp add: lz_match_def)
    qed
    with 1 m1 f1 show ?thesis by auto
  next
    case 2
    obtain m1 k where m1: "copy8_small_offset le m d (d - off) off = Some (m1, d + 8 - int k * off)"
      and c1: "lz_copied m m1 d (d - off) (d + 8) (d + 8)"
      and k: "1 \<le> k" "(int k - 1) * off \<le> 8" "8 \<le> int k * off"
      using copy8_small_offset_ok [of off "d - off" d m le] 2 m by blast
    let ?s = "d + 8 - int k * off"
    have "lz_match m m2 d off e w" if c2: "lz_copied m1 m2 (d + 8) ?s e w" "d + 8 \<le> w" for m2 e w
    proof -
      have "m2 a = m2 (a - off)" if "d \<le> a" "a < e" for a
      proof (rule period_extend [of d "d + 8" m2 off e k])
        fix x assume x: "d \<le> x" "x < d + 8"
        then show "m2 x = m2 (x - off)"
          using lz_copied_at [OF c1 x] frame_at [OF lz_copied_frame [OF c2(1)]] 2
          by (simp add: diff_add_eq add.commute)
      next
        fix x assume "d + 8 \<le> x" "x < e"
        then show "m2 x = m2 (x - int k * off)"
          using lz_copied_at [OF c2(1), of x] by (simp add: algebra_simps)
      qed (use that k 2 in auto)
      moreover have "frame m m2 d w"
        using frame_trans [OF frame_widen [OF lz_copied_frame [OF c1], of d w]
            frame_widen [OF lz_copied_frame [OF c2(1)], of d w]] c2 by simp
      ultimately show ?thesis using 2 by (simp add: lz_match_def)
    qed
    moreover have "d - off \<le> ?s" "?s \<le> d" using k 2 by (simp_all add: algebra_simps)
    ultimately show ?thesis using 2 m1 lz_copied_frame [OF c1] by auto
  next
    case 3
    obtain m1 where m1: "memcpy m d (d - off) 8 = Some m1" and c1: "lz_copied m m1 d (d - off) (d + 8) (d + 8)"
      using memcpy_step [of "d - off" 8 d m] 3 mapped_sub [OF m, of "d - off" "d - off + 8"]
        mapped_sub [OF m, of d "d + 8"] by auto
    have "lz_match m m2 d off e w" if c2: "lz_copied m1 m2 (d + 8) (d - off + 8) e w" "d + 8 \<le> w" for m2 e w
      using lz_match_copied [OF lz_copied_trans [OF c1, of m2 e w]] c2 3 by (simp add: algebra_simps)
    with m1 lz_copied_frame [OF c1] 3 show ?thesis by auto
  qed
qed

lemma copy_bytes_none: "e \<le> d \<Longrightarrow> copy_bytes m d s e = Some m"
  by (simp add: copy_bytes_def cloop_Inr)

text \<open>The remaining bytes one by one, from a source that is somewhere behind.\<close>

lemma copy_bytes_rest:
  assumes "lz_copied m m1 d s d1 w" "s < d" "d \<le> d1" "mapped m1 s (max d1 e)" "e \<le> w"
  shows "\<exists>m2. copy_bytes m1 d1 (s + (d1 - d)) e = Some m2 \<and> lz_copied m m2 d s e w"
proof (cases "e \<le> d1")
  case True
  then show ?thesis using assms lz_copied_weaken [OF assms(1), of e w] by (simp add: copy_bytes_none)
next
  case False
  then obtain m2 where "copy_bytes m1 d1 (s + (d1 - d)) e = Some m2" "lz_copied m1 m2 d1 (s + (d1 - d)) e e"
    using copy_bytes_ok [of d1 e "s + (d1 - d)" m1] assms
      mapped_sub [OF assms(4), of "s + (d1 - d)" "s + (d1 - d) + (e - d1)"] mapped_sub [OF assms(4), of d1 e]
    by auto
  then show ?thesis
    using lz_copied_trans [OF assms(1) _ assms(2,3), of m2 e w] assms(5) lz_copied_weaken [of m1 m2 d1 "s + (d1 - d)" e e e w]
    by auto
qed

text \<open>A match whose offset is zero, copied onto itself.\<close>

lemma copy_bytes_self: "mapped m d e \<Longrightarrow> copy_bytes m d d e = Some m"
proof -
  assume m: "mapped m d e"
  have "\<exists>r. cloop (copy_bytes_body e) (d, d, m) = Some r \<and> r = m"
  proof (rule cloop_total [where \<mu> = "\<lambda>(d1, s1, m1). nat (e - d1)" and
        I = "\<lambda>(d1, s1, m1). d \<le> d1 \<and> s1 = d1 \<and> m1 = m"])
    fix st assume I: "case st of (d1, s1, m1) \<Rightarrow> d \<le> d1 \<and> s1 = d1 \<and> m1 = m"
    obtain d1 s1 m1 where st: "st = (d1, s1, m1)" by (cases st)
    with I have "d \<le> d1" "st = (d1, d1, m)" by auto
    moreover have "copy_byte m d1 d1 = Some m" if "d \<le> d1" "d1 < e"
      using mappedD [OF m that] by (auto simp: copy_byte_def load8_def store8_def fun_upd_idem)
    ultimately show "(\<exists>s'. copy_bytes_body e st = Some (Inl s') \<and> (case s' of (d1, s1, m1) \<Rightarrow> d \<le> d1 \<and> s1 = d1 \<and> m1 = m) \<and>
          (case s' of (d1, s1, m1) \<Rightarrow> nat (e - d1)) < (case st of (d1, s1, m1) \<Rightarrow> nat (e - d1))) \<or>
        (\<exists>r. copy_bytes_body e st = Some (Inr r) \<and> r = m)"
      by (cases "d1 < e") auto
  qed simp
  then show ?thesis by (simp add: copy_bytes_def)
qed

section \<open>What the generic decoder is called with\<close>

text \<open>
  \<open>lo\<close> is the first byte of the history in front of the output: it is \<open>lowPrefix\<close>, except in
  \<open>withPrefix64k\<close> mode, where the code takes \<open>lowPrefix\<close> 64 KB below the output and only the 65535
  bytes a match can reach need to exist. No object may touch the last \<open>2 ^ 40\<close> addresses, which
  keeps the pointer sums of the code below the wrap-around.
\<close>

definition dec_ok :: "dargs \<Rightarrow> int \<Rightarrow> mem \<Rightarrow> bool" where
  "dec_ok a lo m \<longleftrightarrow>
     0 < a_src a \<and> 0 \<le> a_srcSize a \<and> a_srcSize a < 2 ^ 31 \<and> 0 \<le> a_outputSize a \<and> a_outputSize a < 2 ^ 31 \<and>
     a_iend a + 2 ^ 40 \<le> 2 ^ 64 \<and> a_oend a + 2 ^ 40 \<le> 2 ^ 64 \<and> 0 \<le> lo \<and> lo \<le> a_dst a \<and>
     mapped m (a_src a) (a_iend a) \<and> mapped m lo (a_oend a) \<and>
     (a_iend a \<le> a_dst a \<or> a_oend a \<le> a_src a) \<and>
     0 \<le> a_dictSize a \<and>
     (0 < a_dictSize a \<longrightarrow> a_dict a = usingExtDict \<and> 0 < a_dictStart a \<and>
        mapped m (a_dictStart a) (a_dictStart a + a_dictSize a) \<and>
        (a_dictStart a + a_dictSize a \<le> a_dst a \<or> a_oend a \<le> a_dictStart a)) \<and>
     (if a_dict a = withPrefix64k then a_lowPrefix a + 65536 \<le> a_dst a \<and> lo + 65535 \<le> a_dst a
      else lo = a_lowPrefix a)"

lemma dec_okD:
  assumes "dec_ok a lo m"
  shows "0 < a_src a" "0 \<le> a_srcSize a" "a_srcSize a < 2147483648" "0 \<le> a_outputSize a" "a_outputSize a < 2147483648"
    "a_src a + a_srcSize a \<le> 18446742974197923840" "a_dst a + a_outputSize a \<le> 18446742974197923840"
    "0 \<le> lo" "lo \<le> a_dst a" "mapped m (a_src a) (a_src a + a_srcSize a)" "mapped m lo (a_dst a + a_outputSize a)"
    "a_src a + a_srcSize a \<le> a_dst a \<or> a_dst a + a_outputSize a \<le> a_src a" "0 \<le> a_dictSize a"
    "0 < a_dictSize a \<Longrightarrow> a_dict a = usingExtDict"
    "0 < a_dictSize a \<Longrightarrow> 0 < a_dictStart a"
    "0 < a_dictSize a \<Longrightarrow> mapped m (a_dictStart a) (a_dictStart a + a_dictSize a)"
    "0 < a_dictSize a \<Longrightarrow> a_dictStart a + a_dictSize a \<le> a_dst a \<or> a_dst a + a_outputSize a \<le> a_dictStart a"
    "a_dict a = withPrefix64k \<Longrightarrow> a_lowPrefix a + 65536 \<le> a_dst a \<and> lo + 65535 \<le> a_dst a"
    "a_dict a \<noteq> withPrefix64k \<Longrightarrow> lo = a_lowPrefix a"
  using assms by (simp_all add: dec_ok_def a_iend_def a_oend_def)

definition hist :: "dargs \<Rightarrow> int \<Rightarrow> mem \<Rightarrow> int \<Rightarrow> byte list" where
  "hist a lo m op = bytes m (a_dictStart a) (a_dictStart a + a_dictSize a) @ bytes m lo op"

definition rp :: "dargs \<Rightarrow> int \<Rightarrow> mem \<Rightarrow> rparams" where
  "rp a lo m =
     \<lparr>r_src = bytes m (a_src a) (a_iend a), r_cap = nat (a_outputSize a),
      r_base = nat (a_dictSize a + (a_dst a - lo)), r_dl = nat (a_dictSize a), r_partial = a_partial a\<rparr>"

lemma rp_simps [simp]:
  "r_src (rp a lo m) = bytes m (a_src a) (a_src a + a_srcSize a)" "r_cap (rp a lo m) = nat (a_outputSize a)"
  "r_dl (rp a lo m) = nat (a_dictSize a)" "r_partial (rp a lo m) = a_partial a"
  by (simp_all add: rp_def a_iend_def)

lemma dec_ok_frame: "dec_ok a lo m \<Longrightarrow> frame m m' w e \<Longrightarrow> dec_ok a lo m'"
  by (simp add: dec_ok_def frame_mapped)

lemma rp_frame: "dec_ok a lo m \<Longrightarrow> frame m m' w e \<Longrightarrow> a_dst a \<le> w \<Longrightarrow> e \<le> a_oend a \<Longrightarrow> rp a lo m' = rp a lo m"
  using bytes_frame [of m m' w e "a_iend a" "a_src a"]
  by (auto simp: rp_def dec_ok_def)

lemma hist_frame:
  assumes "dec_ok a lo m" "frame m m' w e" "a_dst a \<le> w" "e \<le> a_oend a" "op \<le> w"
  shows "hist a lo m' op = hist a lo m op"
proof -
  have "bytes m' lo op = bytes m lo op" using assms by (intro bytes_frame) auto
  moreover have "bytes m' (a_dictStart a) (a_dictStart a + a_dictSize a) = bytes m (a_dictStart a) (a_dictStart a + a_dictSize a)"
    using assms bytes_frame [OF assms(2), of "a_dictStart a + a_dictSize a" "a_dictStart a"]
    by (cases "0 < a_dictSize a") (auto simp: dec_ok_def)
  ultimately show ?thesis by (simp add: hist_def)
qed

lemma length_hist: "dec_ok a lo m \<Longrightarrow> a_dst a \<le> op \<Longrightarrow> int (length (hist a lo m op)) = a_dictSize a + (op - lo)"
  by (auto simp: hist_def dest: dec_okD)

lemma r_out_hist: "dec_ok a lo m \<Longrightarrow> a_dst a \<le> op \<Longrightarrow> int (r_out (rp a lo m') (hist a lo m op)) = op - a_dst a"
  using length_hist [of a lo m op] dec_okD(9,13) [of a lo m] by (simp add: r_out_def rp_def)

text \<open>Literals and matches extend the history.\<close>

lemma hist_append: "lo \<le> op \<Longrightarrow> op \<le> e \<Longrightarrow> hist a lo m e = hist a lo m op @ bytes m op e"
  using bytes_append [of lo op e m] by (simp add: hist_def)

lemma bytes_segment:
  assumes "0 \<le> i" "i + n \<le> hi - lo" "0 \<le> n"
  shows "bytes m (lo + i) (lo + i + n) = segment (bytes m lo hi) (nat i) (nat n)"
  using assms by (intro nth_equalityI) (auto simp: nth_bytes segment_def algebra_simps)

lemma hist_lits:
  assumes ok: "dec_ok a lo m" and fr: "frame m m' op w" "w \<le> a_oend a" "a_dst a \<le> op"
    and bs: "bytes m' op (op + int n) = bytes m (a_src a + int i) (a_src a + int i + int n)"
    and i: "int i + int n \<le> a_srcSize a"
  shows "hist a lo m' (op + int n) = hist a lo m op @ segment (r_src (rp a lo m)) i n"
proof -
  have "hist a lo m' (op + int n) = hist a lo m' op @ bytes m' op (op + int n)"
    using dec_okD(9) [OF ok] fr by (intro hist_append) auto
  then show ?thesis
    using hist_frame [OF ok fr(1) fr(3) fr(2)] bs i
      bytes_segment [of "int i" "int n" "a_src a + a_srcSize a" "a_src a" m] by simp
qed

lemma hist_match:
  assumes ok: "dec_ok a lo m" and c: "lz_match m m' op (int off) (op + int n) w"
    and w: "w \<le> a_oend a" "a_dst a \<le> op" and off: "int off \<le> op - lo"
  shows "hist a lo m' (op + int n) = copy_match (hist a lo m op) off n"
proof -
  have "bytes m' lo (op + int n) = copy_match (bytes m lo op) off n"
    using lz_match_history [OF c, of lo] off by simp
  moreover have "hist a lo m' lo = hist a lo m lo"
    using hist_frame [OF ok lz_match_frame [OF c] w(2,1), of lo] dec_okD(9) [OF ok] w by simp
  ultimately show ?thesis
    using off by (simp add: hist_def copy_match_append)
qed

end
