(* ===== verification/Lz4_DecodeSteps.thy ===== *)
theory Lz4_DecodeSteps
  imports Lz4_DecodeCopies
begin

text \<open>
  Every stage of the decoder's two loops does what the corresponding stage of the reference parser
  does: no undefined behaviour, the same outcome, the same history, the same error position.
\<close>

section \<open>Simulation\<close>

definition dsim :: "dargs \<Rightarrow> int \<Rightarrow> mem \<Rightarrow> (int \<times> int \<times> mem + dexit) \<Rightarrow> rstep \<Rightarrow> bool" where
  "dsim a lo m r q = (case q of
     RCont i H \<Rightarrow> (\<exists>o' m'. r = Inl (a_src a + int i, a_dst a + int o', m') \<and> int o' \<le> a_outputSize a \<and>
        frame m m' (a_dst a) (a_oend a) \<and> H = hist a lo m' (a_dst a + int o'))
   | RDone H \<Rightarrow> (\<exists>o' m'. r = Inr (Decoded (a_dst a + int o') m') \<and> int o' \<le> a_outputSize a \<and>
        frame m m' (a_dst a) (a_oend a) \<and> H = hist a lo m' (a_dst a + int o'))
   | RErr e \<Rightarrow> (\<exists>m'. r = Inr (Output_error (a_src a + int e) m') \<and> frame m m' (a_dst a) (a_oend a)))"

text \<open>A computation that does not fail and agrees with the reference for some stale bytes.\<close>

definition agrees :: "dargs \<Rightarrow> int \<Rightarrow> mem \<Rightarrow> (int \<times> int \<times> mem + dexit) option \<Rightarrow> (byte list \<Rightarrow> rstep) \<Rightarrow> bool" where
  "agrees a lo m c q \<longleftrightarrow> (\<exists>r st. c = Some r \<and> dsim a lo m r (q st))"

lemma dsim_frame: "frame m m1 (a_dst a) (a_oend a) \<Longrightarrow> dsim a lo m1 r q \<Longrightarrow> dsim a lo m r q"
  by (auto simp: dsim_def split: rstep.splits intro: frame_trans)

lemma agrees_frame: "frame m m1 (a_dst a) (a_oend a) \<Longrightarrow> agrees a lo m1 c q \<Longrightarrow> agrees a lo m c q"
  by (auto simp: agrees_def intro: dsim_frame)

lemma agrees_Err: "c = Some (Inr (Output_error (a_src a + int e) m)) \<Longrightarrow> (\<And>st. q st = RErr e) \<Longrightarrow> agrees a lo m c q"
  by (auto simp: agrees_def dsim_def frame_refl)

lemma agrees_Err_at:
  "c = Some (Inr (Output_error (a_src a + int e) m')) \<Longrightarrow> frame m m' (a_dst a) (a_oend a) \<Longrightarrow> q st = RErr e \<Longrightarrow>
   agrees a lo m c q"
  unfolding agrees_def dsim_def
  by (intro exI [of _ "Inr (Output_error (a_src a + int e) m')"] exI [of _ st]) auto

section \<open>Matches that start in the external dictionary\<close>

lemma memmove_dict:
  assumes ok: "dec_ok a lo m" and op: "a_dst a \<le> op" "op + int n \<le> a_oend a"
    and off: "int n \<le> off - (op - lo)" "op - lo < off" "off \<le> a_dictSize a + (op - lo)"
  defines "s \<equiv> a_dictStart a + a_dictSize a - (off - (op - lo))"
  shows "\<exists>m'. memmove m op s (int n) = Some m' \<and> memcpy m op s (int n) = Some m' \<and>
           frame m m' op (op + int n) \<and>
           hist a lo m' (op + int n) = copy_match (hist a lo m op) (nat off) n"
proof -
  let ?D = "bytes m (a_dictStart a) (a_dictStart a + a_dictSize a)"
  have dict: "0 < a_dictSize a" using off by linarith
  note D = dec_okD(14-17) [OF ok dict] and B = dec_okD(8,9,11) [OF ok]
  have ms: "mapped m s (s + int n)" using off by (intro mapped_sub [OF D(3)]) (auto simp: s_def)
  have md: "mapped m op (op + int n)" using op B by (intro mapped_sub [OF B(3)]) (auto simp: a_oend_def)
  have apart: "s + int n \<le> op \<or> op + int n \<le> s"
    using D(4) op off by (auto simp: s_def a_oend_def)
  let ?m = "blit m op s (int n)"
  have mv: "memmove m op s (int n) = Some ?m" "memcpy m op s (int n) = Some ?m"
    using memmove_Some [OF _ ms md] memcpy_Some [OF _ ms md apart] by auto
  have fr: "frame m ?m op (op + int n)" by (rule frame_blit [OF ms md]) auto
  have new: "bytes ?m op (op + int n) = bytes m s (s + int n)"
    by (rule nth_equalityI) (auto simp: nth_bytes blit_def)
  have len: "length (hist a lo m op) = nat (a_dictSize a + (op - lo))"
    using length_hist [OF ok op(1)] by linarith
  have H: "hist a lo ?m (op + int n) = hist a lo m op @ bytes m s (s + int n)"
    using hist_append [of lo op "op + int n" a ?m] hist_frame [OF ok fr op(1,2), of op] new op B by simp
  have "take n (drop (length (hist a lo m op) - nat off) (hist a lo m op)) = bytes m s (s + int n)"
  proof -
    have d: "length (hist a lo m op) - nat off = nat (s - a_dictStart a)"
      using off length_hist [OF ok op(1)] op(1) B(2) unfolding s_def by linarith
    have n: "nat (s - a_dictStart a) + n \<le> length ?D" using off by (simp add: s_def)
    have "take n (drop (nat (s - a_dictStart a)) (hist a lo m op)) = take n (drop (nat (s - a_dictStart a)) ?D)"
      using n by (simp add: hist_def)
    also have "\<dots> = bytes m s (s + int n)"
    proof -
      have "bytes m (a_dictStart a + (s - a_dictStart a)) (a_dictStart a + (s - a_dictStart a) + int n) =
          segment ?D (nat (s - a_dictStart a)) (nat (int n))"
        by (rule bytes_segment) (use off in \<open>auto simp: s_def\<close>)
      moreover have "a_dictStart a + (s - a_dictStart a) = s" by simp
      ultimately show ?thesis by (simp only: segment_def nat_int)
    qed
    finally show ?thesis using d by simp
  qed
  then have "hist a lo ?m (op + int n) = copy_match (hist a lo m op) (nat off) n"
    using H copy_match_short [of n "nat off" "hist a lo m op"] off len op B by simp
  with mv fr show ?thesis by blast
qed

lemma ext_dict_copy_ok:
  assumes ok: "dec_ok a lo m" and op: "a_dst a \<le> op" "op + int n \<le> a_oend a"
    and off: "op - lo < off" "off \<le> a_dictSize a + (op - lo)"
  shows "\<exists>m'. ext_dict_copy a (int n) (op - off) op m = Some (op + int n, m') \<and> frame m m' op (op + int n) \<and>
           hist a lo m' (op + int n) = copy_match (hist a lo m op) (nat off) n"
proof -
  have dict: "0 < a_dictSize a" using off by linarith
  note D = dec_okD(14,15) [OF ok dict] and B = dec_okD(8,9,11) [OF ok]
  have low: "a_lowPrefix a = lo" using dec_okD(19) [OF ok] D by simp
  have de: "a_dictEnd a = a_dictStart a + a_dictSize a" using D by (simp add: a_dictEnd_def)
  define k where "k = nat (off - (op - lo))"
  have k: "int k = off - (op - lo)" "0 < k" using off by (auto simp: k_def)
  show ?thesis
  proof (cases "int n \<le> int k")
    case True
    then show ?thesis
      using memmove_dict [OF ok op, of off] off k by (auto simp: ext_dict_copy_def low de algebra_simps)
  next
    case False
    obtain m1 where m1: "memcpy m op (a_dictStart a + a_dictSize a - int k) (int k) = Some m1"
      and f1: "frame m m1 op (op + int k)"
      and h1: "hist a lo m1 (op + int k) = copy_match (hist a lo m op) (nat off) k"
      using memmove_dict [OF ok op(1), of k off] off k False op by auto
    let ?op = "op + int k" let ?e = "op + int n"
    have mp: "mapped m1 lo (a_oend a)" using B(3) frame_mapped [OF f1] by (simp add: a_oend_def)
    have c: "\<exists>m2. (if int n - int k > ?op - lo then copy_bytes m1 ?op lo ?e else memcpy m1 ?op lo (int n - int k)) = Some m2
        \<and> lz_copied m1 m2 ?op lo ?e ?e"
    proof (cases "int n - int k > ?op - lo")
      case True
      then show ?thesis
        using copy_bytes_ok [of ?op ?e lo m1] False k op B mapped_sub [OF mp, of lo "lo + (?e - ?op)"]
          mapped_sub [OF mp, of ?op ?e] by auto
    next
      case F: False
      have e: "?op + (int n - int k) = ?e" by simp
      have "mapped m1 lo (lo + (int n - int k))" "mapped m1 ?op ?e"
        using F False k op B by (auto intro!: mapped_sub [OF mp])
      then show ?thesis
        using memcpy_step [of lo "int n - int k" ?op m1] F False unfolding e by simp
    qed
    then obtain m2 where m2: "(if int n - int k > ?op - lo then copy_bytes m1 ?op lo ?e else memcpy m1 ?op lo (int n - int k)) = Some m2"
      and c2: "lz_copied m1 m2 ?op lo ?e ?e" by blast
    have ok1: "dec_ok a lo m1" using dec_ok_frame [OF ok f1] .
    have off_eq: "?op - off = lo" using k by simp
    have "lz_match m1 m2 ?op (int (nat off)) (?op + int (n - k)) ?e"
      using lz_match_copied [of m1 m2 ?op off ?e ?e] c2 False off op B off_eq by (simp add: of_nat_diff)
    then have "hist a lo m2 (?op + int (n - k)) = copy_match (hist a lo m1 ?op) (nat off) (n - k)"
      using hist_match [OF ok1, of m2 ?op "nat off" "n - k" ?e] op B k off by simp
    then have "hist a lo m2 ?e = copy_match (hist a lo m op) (nat off) n"
      using h1 copy_match_add [of "hist a lo m op" "nat off" k "n - k"] False by (simp add: of_nat_diff)
    moreover have "frame m m2 op ?e"
      using frame_trans [OF frame_widen [OF f1, of op ?e] frame_widen [OF lz_copied_frame [OF c2], of op ?e]] False by simp
    moreover have "ext_dict_copy a (int n) (op - off) op m = Some (?e, m2)"
    proof -
      have "lo - (op - off) = int k" using k by simp
      then show ?thesis
        using m1 m2 False by (simp add: ext_dict_copy_def low de Let_def split: if_splits)
    qed
    ultimately show ?thesis by blast
  qed
qed

text \<open>The reference's quantities, in terms of the pointers.\<close>

lemma r_out_at: "dec_ok a lo m \<Longrightarrow> r_out (rp a lo m') (hist a lo m (a_dst a + int k)) = k"
  using r_out_hist [of a lo m "a_dst a + int k" m'] by simp

lemma off_in_hist:
  "dec_ok a lo m \<Longrightarrow> (off \<le> length (hist a lo m (a_dst a + int k))) = (int off \<le> a_dictSize a + (a_dst a + int k - lo))"
  using length_hist [of a lo m "a_dst a + int k"] by (intro iffI) (linarith | simp)+

lemma off_in_prefix:
  "dec_ok a lo m \<Longrightarrow>
   (off \<le> length (hist a lo m (a_dst a + int k)) - nat (a_dictSize a)) = (int off \<le> a_dst a + int k - lo)"
  using length_hist [of a lo m "a_dst a + int k"] dec_okD(9,13) [of a lo m] by simp arith

lemmas ref_at = r_out_at off_in_hist off_in_prefix off_in_hist [THEN arg_cong [where f = Not], unfolded not_le]
  off_in_prefix [THEN arg_cong [where f = Not], unfolded not_le]

lemma cap_at: "dec_ok a lo m \<Longrightarrow> int (nat (a_outputSize a)) = a_outputSize a"
  by (simp add: dec_okD(4))

lemma cap_less:
  "dec_ok a lo m \<Longrightarrow> (nat (a_outputSize a) < x) = (a_outputSize a < int x)"
  "dec_ok a lo m \<Longrightarrow> (x \<le> nat (a_outputSize a)) = (int x \<le> a_outputSize a)"
  "dec_ok a lo m \<Longrightarrow> (x = nat (a_outputSize a)) = (int x = a_outputSize a)"
  using dec_okD(4) [of a lo m] by auto

lemma agrees_Cont:
  assumes "c = Some (Inl (a_src a + int i, a_dst a + int k, m'))" "int k \<le> a_outputSize a"
    "frame m m' (a_dst a) (a_oend a)" "q st = RCont i (hist a lo m' (a_dst a + int k))"
  shows "agrees a lo m c q"
  unfolding agrees_def dsim_def using assms by (intro exI [of _ "Inl (a_src a + int i, a_dst a + int k, m')"] exI [of _ st]) auto

lemma agrees_Done:
  assumes "c = Some (Inr (Decoded (a_dst a + int k) m'))" "int k \<le> a_outputSize a"
    "frame m m' (a_dst a) (a_oend a)" "q st = RDone (hist a lo m' (a_dst a + int k))"
  shows "agrees a lo m c q"
  unfolding agrees_def dsim_def using assms by (intro exI [of _ "Inr (Decoded (a_dst a + int k) m')"] exI [of _ st]) auto

lemma ext_dict_match_ok:
  assumes ok: "dec_ok a lo m" and k: "int k \<le> a_outputSize a"
    and off: "a_dst a + int k - lo < int off" "int off \<le> a_dictSize a + (a_dst a + int k - lo)"
  shows "agrees a lo m
      (ext_dict_match a (int ml) (a_dst a + int k - int off) (a_src a + int i) (a_dst a + int k) m)
      (\<lambda>st. ref_match (rp a lo m) st i (hist a lo m (a_dst a + int k)) off ml)"
proof -
  let ?op = "a_dst a + int k" let ?H = "hist a lo m ?op"
  note cap = cap_at [OF ok]
  have Q: "ref_match (rp a lo m) st i ?H off ml =
      (if int k + int ml + 5 > a_outputSize a then
         (if a_partial a then RCont i (copy_match ?H off (min ml (nat (a_outputSize a) - k))) else RErr i)
       else RCont i (copy_match ?H off ml))" for st
    using off cap by (auto simp: ref_match_def ref_at [OF ok])
  have copy: "\<exists>m'. ext_dict_copy a (int n) (?op - int off) ?op m = Some (a_dst a + int (k + n), m') \<and>
      frame m m' (a_dst a) (a_oend a) \<and> hist a lo m' (a_dst a + int (k + n)) = copy_match ?H off n"
    if "int (k + n) \<le> a_outputSize a" for n
    using ext_dict_copy_ok [OF ok, of ?op n "int off"] off that
    by (auto simp: a_oend_def add.assoc elim!: frame_widen)
  show ?thesis
  proof (cases "int k + int ml + 5 > a_outputSize a")
    case True
    then have T: "?op + int ml > a_oend a - LASTLITERALS" by (simp add: a_oend_def)
    show ?thesis
    proof (cases "a_partial a")
      case P: True
      let ?n = "min ml (nat (a_outputSize a) - k)"
      have n: "min (int ml) (a_oend a - ?op) = int ?n" "int (k + ?n) \<le> a_outputSize a"
        using k cap by (auto simp: a_oend_def)
      show ?thesis
        using copy [OF n(2)] True T P Q n by (auto simp: ext_dict_match_def intro!: agrees_Cont [of _ _ _ "k + ?n"])
    next
      case False
      with True T Q show ?thesis
        by (intro agrees_Err) (auto simp: ext_dict_match_def)
    qed
  next
    case False
    then have F: "\<not> ?op + int ml > a_oend a - LASTLITERALS" by (simp add: a_oend_def)
    have n: "int (k + ml) \<le> a_outputSize a" using False by simp
    show ?thesis
      using copy [OF n] False F Q n by (auto simp: ext_dict_match_def intro!: agrees_Cont [of _ _ _ "k + ml"])
  qed
qed

section \<open>Matches inside the prefix and the output\<close>

lemma in_block_clip_ok:
  assumes ok: "dec_ok a lo m" and k: "int k \<le> a_outputSize a" and off: "int off \<le> a_dst a + int k - lo"
    and clip: "a_partial a" "int k + int ml + 12 > a_outputSize a"
  shows "agrees a lo m
      (in_block_match a (int off) (a_dst a + int k - int off) (int ml) (a_src a + int i) (a_dst a + int k) m)
      (\<lambda>st. ref_match (rp a lo m) st i (hist a lo m (a_dst a + int k)) off ml)"
proof -
  let ?op = "a_dst a + int k" let ?H = "hist a lo m ?op"
  define n where "n = min ml (nat (a_outputSize a) - k)"
  note cap = cap_at [OF ok] and B = dec_okD(8,9,11) [OF ok]
  have n: "min (int ml) (a_oend a - ?op) = int n" "int (k + n) \<le> a_outputSize a"
    using k cap by (auto simp: a_oend_def n_def)
  have o1: "int off \<le> a_dictSize a + (?op - lo)" using off dec_okD(13) [OF ok] by linarith
  have Q: "ref_match (rp a lo m) st i ?H off ml =
      (let H' = (if off = 0 then ?H @ segment st 0 n else copy_match ?H off n)
       in if k + n = nat (a_outputSize a) then RDone H' else RCont i H')" for st
    using off o1 clip cap by (simp add: ref_match_def ref_at [OF ok] cap_less [OF ok] Let_def n_def del: min_less_iff_conj)
  let ?copy = "if ?op - int off + int n > ?op then copy_bytes m ?op (?op - int off) (?op + int n)
               else memcpy m ?op (?op - int off) (int n)"
  have copy: "\<exists>m' st. ?copy = Some m' \<and> frame m m' ?op (?op + int n) \<and>
      hist a lo m' (?op + int n) = (if off = 0 then ?H @ segment st 0 n else copy_match ?H off n)"
  proof (cases "off = 0")
    case True
    have "mapped m ?op (?op + int n)" using B n by (intro mapped_sub [OF B(3)]) auto
    then have "?copy = Some m"
      using True copy_bytes_self [of m ?op "?op + int n"]
      by (auto simp: memcpy_def memmove_def)
    moreover have "hist a lo m (?op + int n) = ?H @ segment (bytes m ?op (?op + int n)) 0 n"
      using hist_append [of lo ?op "?op + int n" a m] B by (simp add: segment_def)
    ultimately show ?thesis using True frame_refl by auto
  next
    case False
    let ?s = "?op - int off"
    have mp: "mapped m ?s (?s + int n)" "mapped m ?op (?op + int n)"
      using off n B False by (auto intro!: mapped_sub [OF B(3)])
    have "\<exists>m'. ?copy = Some m' \<and> lz_copied m m' ?op ?s (?op + int n) (?op + int n)"
      using copy_bytes_ok [of ?op "?op + int n" ?s m] memcpy_step [of ?s "int n" ?op m] mp False
      by (cases "?s + int n > ?op") auto
    then obtain m' where "?copy = Some m'" and c: "lz_match m m' ?op (int off) (?op + int n) (?op + int n)"
      using lz_match_copied False by (metis of_nat_0_less_iff neq0_conv)
    then show ?thesis
      using hist_match [OF ok c _ _ off] lz_match_frame [OF c] n False by (auto simp: a_oend_def)
  qed
  then obtain m' st where m': "?copy = Some m'" and fr: "frame m m' ?op (?op + int n)"
    and h: "hist a lo m' (?op + int n) = (if off = 0 then ?H @ segment st 0 n else copy_match ?H off n)"
    by blast
  have code: "in_block_match a (int off) (?op - int off) (int ml) (a_src a + int i) ?op m =
      Some (if ?op + int n = a_oend a then Inr (Decoded (?op + int n) m') else Inl (a_src a + int i, ?op + int n, m'))"
  proof -
    have "?op + int ml > a_oend a - MATCH_SAFEGUARD_DISTANCE" using clip by (simp add: a_oend_def)
    then show ?thesis using m' clip(1) n(1) by (simp add: in_block_match_def Let_def)
  qed
  have e: "a_dst a + int (k + n) = ?op + int n" by simp
  have wide: "frame m m' (a_dst a) (a_oend a)" using fr n by (auto simp: a_oend_def elim!: frame_widen)
  show ?thesis
  proof (cases "k + n = nat (a_outputSize a)")
    case True
    then have "?op + int n = a_oend a" using cap_less(3) [OF ok, of "k + n"] by (simp add: a_oend_def)
    with True code h n wide Q [of st] show ?thesis
      by (intro agrees_Done [of _ _ "k + n" m' _ _ st]) (auto simp: Let_def e a_oend_def)
  next
    case False
    then have "?op + int n \<noteq> a_oend a" using cap_less(3) [OF ok, of "k + n"] by (simp add: a_oend_def)
    with False code h n wide Q [of st] show ?thesis
      by (intro agrees_Cont [of _ _ i "k + n" m' _ _ st]) (auto simp: Let_def add.assoc)
  qed
qed

text \<open>The end of the output: eight bytes at a time up to the limit, then one at a time.\<close>

lemma careful_copy_ok:
  assumes m: "mapped m1 s oend" and s: "s < d" "d \<le> oend" "s + 8 \<le> d" and e: "e \<le> oend"
  shows "\<exists>m3. do { (m, mtch, op) \<leftarrow>
              (if d < oend - 7 then do { m \<leftarrow> LZ4_wildCopy8 m1 d s (oend - 7);
                 Some (m, s + (oend - 7 - d), oend - 7) }
               else Some (m1, s, d));
            copy_bytes m op mtch e } = Some m3 \<and> lz_copied m1 m3 d s e oend"
proof (cases "d < oend - 7")
  case True
  obtain m2 where m2: "LZ4_wildCopy8 m1 d s (oend - 7) = Some m2" "lz_copied m1 m2 d s (oend - 7) oend"
    using LZ4_wildCopy8_ok [OF True, of s m1] s mapped_sub [OF m, of s "s + (oend - 7 - d) + 7"] mapped_sub [OF m, of d oend]
    by auto
  have "mapped m2 s (max (oend - 7) e)"
    using m e frame_mapped [OF lz_copied_frame [OF m2(2)]] by (auto elim: mapped_sub)
  then show ?thesis
    using copy_bytes_rest [OF m2(2) s(1), of e] True e m2(1) by auto
next
  case False
  have "lz_copied m1 m1 d s d oend" using s by (auto intro: lz_copied_weaken [OF lz_copied_refl])
  moreover have "mapped m1 s (max d e)" using m s e by (auto elim: mapped_sub)
  ultimately show ?thesis
    using copy_bytes_rest [of m1 m1 d s d oend e] s e False by auto
qed

lemma roomy_copy_ok:
  assumes m: "mapped m1 s oend" and s: "s + 8 \<le> d" and len: "d - 8 + len + 12 \<le> oend" "4 \<le> len"
  shows "\<exists>m3. do { m \<leftarrow> memcpy m1 d s 8;
              (if len > 16 then LZ4_wildCopy8 m (d + 8) (s + 8) (d - 8 + len) else Some m) } = Some m3 \<and>
            lz_copied m1 m3 d s (d - 8 + len) oend"
proof -
  obtain m2 where m2: "memcpy m1 d s 8 = Some m2" "lz_copied m1 m2 d s (d + 8) (d + 8)"
    using memcpy_step [of s 8 d m1] s len mapped_sub [OF m, of s "s + 8"] mapped_sub [OF m, of d "d + 8"] by auto
  show ?thesis
  proof (cases "len > 16")
    case True
    have m': "mapped m2 s oend" using m frame_mapped [OF lz_copied_frame [OF m2(2)]] by simp
    obtain m3 where m3: "LZ4_wildCopy8 m2 (d + 8) (s + 8) (d - 8 + len) = Some m3"
      "lz_copied m2 m3 (d + 8) (s + 8) (d - 8 + len) (d - 8 + len + 7)"
      using LZ4_wildCopy8_ok [of "d + 8" "d - 8 + len" "s + 8" m2] True s len
        mapped_sub [OF m', of "s + 8" "s + 8 + (d - 8 + len - (d + 8)) + 7"]
        mapped_sub [OF m', of "d + 8" "d - 8 + len + 7"] by auto
    have "lz_copied m1 m3 d s (d - 8 + len) (d - 8 + len + 7)"
      using lz_copied_trans [OF m2(2), of m3 "d - 8 + len" "d - 8 + len + 7"] m3(2) s True by simp
    then show ?thesis using m2(1) m3(1) True len by (auto intro: lz_copied_weaken)
  next
    case False
    then show ?thesis using m2 len by (auto intro: lz_copied_weaken)
  qed
qed

lemma in_block_room_ok:
  assumes ok: "dec_ok a lo m" and k: "int k + 12 \<le> a_outputSize a" and off: "int off \<le> a_dst a + int k - lo"
    and ml: "4 \<le> ml" and room: "a_partial a \<Longrightarrow> int k + int ml + 12 \<le> a_outputSize a"
  shows "agrees a lo m
      (in_block_match a (int off) (a_dst a + int k - int off) (int ml) (a_src a + int i) (a_dst a + int k) m)
      (\<lambda>st. ref_match (rp a lo m) st i (hist a lo m (a_dst a + int k)) off ml)"
proof -
  let ?op = "a_dst a + int k" let ?H = "hist a lo m ?op" let ?oend = "a_dst a + a_outputSize a"
  let ?e = "a_dst a + int (k + ml)"
  note B = dec_okD(8,9,11) [OF ok]
  have o1: "int off \<le> a_dictSize a + (?op - lo)" using off dec_okD(13) [OF ok] by linarith
  have Q: "ref_match (rp a lo m) st i ?H off ml =
      (if int k + int ml + 5 > a_outputSize a then RErr i else RCont i (copy_match ?H off ml))" for st
    using off o1 room by (cases "a_partial a") (simp_all add: ref_match_def ref_at [OF ok] cap_less [OF ok])
  have "mapped m (?op - int off) (?op + 8)" using off k B by (auto intro!: mapped_sub [OF B(3)])
  then obtain m1 s1 where head: "(if int off < 8 then copy8_small_offset LZ4_isLittleEndian m ?op (?op - int off) (int off)
           else do { m \<leftarrow> memcpy m ?op (?op - int off) 8; Some (m, ?op - int off + 8) }) = Some (m1, s1)"
    and s1: "?op - int off \<le> s1" "s1 \<le> ?op" and f1: "frame m m1 ?op (?op + 8)"
    and rest: "\<And>m2 e w. lz_copied m1 m2 (?op + 8) s1 e w \<Longrightarrow> ?op + 8 \<le> w \<Longrightarrow> lz_match m m2 ?op (int off) e w"
    using match_head [of "int off" m ?op LZ4_isLittleEndian] by auto
  have mp1: "mapped m1 s1 ?oend" using off s1 by (auto simp: frame_mapped [OF f1] intro!: mapped_sub [OF B(3)])
  have noclip: "\<not> (a_partial a \<and> ?op + int ml > a_oend a - MATCH_SAFEGUARD_DISTANCE)"
    using room by (auto simp: a_oend_def)
  have cont: "agrees a lo m c (\<lambda>st. ref_match (rp a lo m) st i ?H off ml)"
    if c: "c = Some (Inl (a_src a + int i, ?e, m3))" and m3: "lz_copied m1 m3 (?op + 8) s1 ?e ?oend"
      and fits: "\<not> int k + int ml + 5 > a_outputSize a" for c m3
  proof -
    have lz: "lz_match m m3 ?op (int off) (?op + int ml) ?oend" using rest [OF m3] k by (simp add: add.assoc)
    have "hist a lo m3 ?e = copy_match ?H off ml"
      using hist_match [OF ok lz _ _ off] by (simp add: a_oend_def add.assoc)
    moreover have "frame m m3 (a_dst a) (a_oend a)"
      using lz_match_frame [OF lz] by (auto simp: a_oend_def elim!: frame_widen)
    ultimately show ?thesis
      using c fits Q by (intro agrees_Cont [of _ _ i "k + ml" m3]) auto
  qed
  show ?thesis
  proof (cases "int k + int ml + 12 > a_outputSize a")
    case True
    then have T: "?op + int ml > a_oend a - MATCH_SAFEGUARD_DISTANCE" "\<not> a_partial a" using room by (auto simp: a_oend_def)
    show ?thesis
    proof (cases "int k + int ml + 5 > a_outputSize a")
      case E: True
      then have "?op + int ml > a_oend a - LASTLITERALS" by (simp add: a_oend_def)
      moreover have "frame m m1 (a_dst a) (a_oend a)" using f1 k by (auto simp: a_oend_def elim!: frame_widen)
      ultimately show ?thesis
        using E T Q head by (intro agrees_Err_at [of _ _ i m1]) (simp_all add: in_block_match_def Let_def)
    next
      case F: False
      obtain m3 where m3: "do { (m, mtch, op) \<leftarrow>
              (if ?op + 8 < ?oend - 7 then do { m \<leftarrow> LZ4_wildCopy8 m1 (?op + 8) s1 (?oend - 7);
                 Some (m, s1 + (?oend - 7 - (?op + 8)), ?oend - 7) }
               else Some (m1, s1, ?op + 8));
            copy_bytes m op mtch ?e } = Some m3" and c3: "lz_copied m1 m3 (?op + 8) s1 ?e ?oend"
        using careful_copy_ok [OF mp1, of "?op + 8" ?e] s1 k F by auto
      have "\<not> ?op + int ml > a_oend a - LASTLITERALS" using F by (simp add: a_oend_def)
      then have "in_block_match a (int off) (?op - int off) (int ml) (a_src a + int i) ?op m =
          Some (Inl (a_src a + int i, ?e, m3))"
        using T head m3
        by (auto simp: in_block_match_def Let_def a_oend_def add.assoc split: if_splits Option.bind_splits)
      then show ?thesis using c3 F by (rule cont)
    qed
  next
    case False
    obtain m3 where m3: "do { m \<leftarrow> memcpy m1 (?op + 8) s1 8;
              (if int ml > 16 then LZ4_wildCopy8 m (?op + 8 + 8) (s1 + 8) (?op + 8 - 8 + int ml) else Some m) } = Some m3"
      and c3: "lz_copied m1 m3 (?op + 8) s1 (?op + 8 - 8 + int ml) ?oend"
      using roomy_copy_ok [OF mp1, of "?op + 8" "int ml"] s1 ml False by auto
    have "\<not> ?op + int ml > a_oend a - MATCH_SAFEGUARD_DISTANCE" using False by (simp add: a_oend_def)
    then have "in_block_match a (int off) (?op - int off) (int ml) (a_src a + int i) ?op m =
        Some (Inl (a_src a + int i, ?e, m3))"
      using noclip head m3 by (auto simp: in_block_match_def Let_def add.assoc split: if_splits Option.bind_splits)
    then show ?thesis using c3 False by (intro cont) (auto simp: add.assoc)
  qed
qed

section \<open>The match, from its distance on\<close>

lemma bad_offset:
  assumes ok: "dec_ok a lo m" and off: "off \<le> 65535"
  shows "(a_checkOffset a \<and> a_dst a + int k - int off + a_dictSize a < a_lowPrefix a) =
         (length (hist a lo m (a_dst a + int k)) < off)"
    and "(a_dict a = usingExtDict \<and> a_dst a + int k - int off < a_lowPrefix a) \<Longrightarrow> a_dst a + int k - lo < int off"
    and "\<not> (a_dict a = usingExtDict \<and> a_dst a + int k - int off < a_lowPrefix a) \<Longrightarrow>
         \<not> length (hist a lo m (a_dst a + int k)) < off \<Longrightarrow> int off \<le> a_dst a + int k - lo"
  using dec_okD(9,13,14,18,19) [OF ok] length_hist [OF ok, of "a_dst a + int k"] off
  by (cases "a_dict a = withPrefix64k"; force simp: a_checkOffset_def)+

lemma safe_match_copy_ok:
  assumes ok: "dec_ok a lo m" and k: "int k \<le> a_outputSize a" and off: "off \<le> 65535" and ml: "4 \<le> ml"
    and room: "a_partial a \<or> int k + 12 \<le> a_outputSize a"
  shows "agrees a lo m
      (safe_match_copy a (int off) (a_dst a + int k - int off) (int ml) (a_src a + int i) (a_dst a + int k) m)
      (\<lambda>st. ref_match (rp a lo m) st i (hist a lo m (a_dst a + int k)) off ml)"
proof (cases "length (hist a lo m (a_dst a + int k)) < off")
  case True
  then show ?thesis
    using bad_offset(1) [OF ok off, of k] by (intro agrees_Err) (auto simp: safe_match_copy_def ref_match_def)
next
  case good: False
  then have g: "int off \<le> a_dictSize a + (a_dst a + int k - lo)" using off_in_hist [OF ok, of off k] by simp
  show ?thesis
  proof (cases "a_dict a = usingExtDict \<and> a_dst a + int k - int off < a_lowPrefix a")
    case True
    then show ?thesis
      using ext_dict_match_ok [OF ok k bad_offset(2) [OF ok off True] g, of ml i] good bad_offset(1) [OF ok off, of k]
      by (auto simp: safe_match_copy_def)
  next
    case False
    have "agrees a lo m
      (in_block_match a (int off) (a_dst a + int k - int off) (int ml) (a_src a + int i) (a_dst a + int k) m)
      (\<lambda>st. ref_match (rp a lo m) st i (hist a lo m (a_dst a + int k)) off ml)"
      using in_block_clip_ok [OF ok k, of off ml i] in_block_room_ok [OF ok _ _ ml, of k off i]
        bad_offset(3) [OF ok off False good] room ml
      by (cases "a_partial a \<and> int k + int ml + 12 > a_outputSize a") auto
    then show ?thesis
      using False good bad_offset(1) [OF ok off, of k] by (auto simp: safe_match_copy_def)
  qed
qed

section \<open>Lengths\<close>

lemma src_at:
  assumes "dec_ok a lo m" "int i < a_srcSize a"
  shows "load8 m (a_src a + int i) = Some (uint (r_src (rp a lo m) ! i))"
  using load8_bytes [OF dec_okD(10) [OF assms(1)], of "a_src a + int i"] assms(2) by simp

lemma length_src [simp]: "length (r_src (rp a lo m)) = nat (a_srcSize a)"
  by simp

lemma rvl_ok:
  assumes ok: "dec_ok a lo m" and i: "int i < a_srcSize a" and acc: "acc \<le> 255 * i" and q: "0 < q"
  shows "cloop (rvl_body (a_src a + a_srcSize a - int q) m) (a_src a + int i, int acc) =
     Some (case ref_ext (r_src (rp a lo m)) q i acc of
         Inl e \<Rightarrow> (rvl_error, a_src a + int e) | Inr (x, i') \<Rightarrow> (int x, a_src a + int i'))"
  using i acc
proof (induction "nat (a_srcSize a) - i" arbitrary: i acc rule: less_induct)
  case less
  let ?S = "r_src (rp a lo m)"
  note B = dec_okD(2,3,6) [OF ok]
  have ld: "load8 m (a_src a + int i) = Some (uint (?S ! i))" using src_at [OF ok less.prems(1)] .
  have ub: "uint (?S ! i) \<le> 255" using uint_byte_range(2) [of "?S ! i"] by linarith
  have sum: "u64 (int acc + uint (?S ! i)) = int acc + uint (?S ! i)"
    using less.prems B ub uint_byte_range(1) [of "?S ! i"] by (intro u64_id) linarith+
  have lim: "(a_src a + int i + 1 > a_src a + a_srcSize a - int q) = (i + 1 + q > length ?S)"
    using B unfolding length_src by linarith
  have b255: "(uint (?S ! i) = 255) = (?S ! i = 255)"
    by (simp add: word_uint_eq_iff)
  show ?case
  proof (cases "i + 1 + q > length ?S")
    case True
    then show ?thesis
      using ld sum lim by (subst cloop_Inr) (auto simp: ref_ext.simps sizeof_ptr_def)
  next
    case F: False
    have body: "rvl_body (a_src a + a_srcSize a - int q) m (a_src a + int i, int acc) =
        Some (if ?S ! i = 255 then Inl (a_src a + int (i + 1), int (acc + 255))
              else Inr (int (acc + unat (?S ! i)), a_src a + int (i + 1)))"
      using ld sum lim F b255 by (simp add: sizeof_ptr_def add.assoc)
    show ?thesis
    proof (cases "?S ! i = 255")
      case True
      have "int (i + 1) < a_srcSize a" using F q B unfolding length_src by linarith
      then have "cloop (rvl_body (a_src a + a_srcSize a - int q) m) (a_src a + int (i + 1), int (acc + 255)) =
          Some (case ref_ext ?S q (i + 1) (acc + 255) of
            Inl e \<Rightarrow> (rvl_error, a_src a + int e) | Inr (x, i') \<Rightarrow> (int x, a_src a + int i'))"
        using less.prems by (intro less.hyps) auto
      moreover have "rvl_body (a_src a + a_srcSize a - int q) m (a_src a + int i, int acc) =
          Some (Inl (a_src a + int (i + 1), int (acc + 255)))"
        by (simp only: body True if_True refl)
      moreover have "ref_ext ?S q i acc = ref_ext ?S q (i + 1) (acc + 255)"
        by (subst ref_ext.simps) (simp only: F True if_True if_False refl)
      ultimately show ?thesis by (simp only: cloop_Inl)
    next
      case False
      then have "rvl_body (a_src a + a_srcSize a - int q) m (a_src a + int i, int acc) =
          Some (Inr (int (acc + unat (?S ! i)), a_src a + int (i + 1)))"
        by (simp only: body if_False)
      moreover have "ref_ext ?S q i acc = Inr (acc + unat (?S ! i), i + 1)"
        by (subst ref_ext.simps) (simp only: F False if_False)
      ultimately show ?thesis by (simp only: cloop_Inr sum.case prod.case)
    qed
  qed
qed

lemma ref_ext_small:
  assumes "dec_ok a lo m" "ref_ext (r_src (rp a lo m)) q i 0 = Inr (x, i')"
  shows "int x \<le> 547608330240" "i < i'" "int i' + int q \<le> a_srcSize a"
proof -
  have b: "i < i'" "i' + q \<le> length (r_src (rp a lo m))" "x \<le> 255 * (i' - i)"
    using ref_ext_bounds [OF assms(2)] by auto
  then show "i < i'" "int i' + int q \<le> a_srcSize a"
    using dec_okD(2) [OF assms(1)] unfolding length_src by linarith+
  have "i' - i \<le> 2147483648"
    using b dec_okD(2,3) [OF assms(1)] unfolding length_src by linarith
  with b show "int x \<le> 547608330240" by linarith
qed

lemma sum_no_wrap:
  assumes "0 \<le> p" "p \<le> 18446742974197923840" "0 \<le> len" "len \<le> 547608330300"
  shows "u64 (p + len) = p + len" "u64 p = p" "u64 len = len"
  using assms by (auto intro!: u64_id)

lemma copy_match_label_ok:
  assumes ok: "dec_ok a lo m" and k: "int k \<le> a_outputSize a" and off: "off \<le> 65535" and t: "t \<le> 15"
    and i: "int i < a_srcSize a" and room: "a_partial a \<or> int k + 12 \<le> a_outputSize a"
  shows "agrees a lo m
      (copy_match_label a (int off) (a_dst a + int k - int off) (int t) (a_src a + int i) (a_dst a + int k) m)
      (\<lambda>st. ref_ml (rp a lo m) st i (hist a lo m (a_dst a + int k)) off t)"
proof (cases "t = 15")
  case False
  then have "u64 (int t + MINMATCH) = int (t + 4)" using t by (simp add: u64_id)
  then show ?thesis
    using False safe_match_copy_ok [OF ok k off _ room, of "t + 4" i]
    by (simp add: copy_match_label_def ref_ml_def)
next
  case True
  let ?S = "r_src (rp a lo m)"
  note B = dec_okD(6,7,8,9) [OF ok]
  have lim: "a_iend a - LASTLITERALS + 1 = a_src a + a_srcSize a - int 4" by (simp add: a_iend_def)
  have rd: "read_variable_length m (a_src a + int i) (a_iend a - LASTLITERALS + 1) False =
      Some (case ref_ext ?S 4 i 0 of Inl e \<Rightarrow> (rvl_error, a_src a + int e) | Inr (x, i') \<Rightarrow> (int x, a_src a + int i'))"
    using rvl_ok [OF ok i, of 0 4] by (simp only: read_variable_length_def lim) simp
  show ?thesis
  proof (cases "ref_ext ?S 4 i 0")
    case (Inl e)
    then show ?thesis
      using True rd by (intro agrees_Err [of _ _ e]) (auto simp: copy_match_label_def ref_ml_def)
  next
    case (Inr r)
    then obtain x i' where r: "ref_ext ?S 4 i 0 = Inr (x, i')" by (cases r) auto
    note x = ref_ext_small [OF ok r]
    have w: "u64 (15 + int x) = 15 + int x" "u64 (15 + int x + MINMATCH) = int (x + 19)"
      "\<not> u64 (a_dst a + int k + (15 + int x)) < u64 (a_dst a + int k)" "int x \<noteq> rvl_error"
      using sum_no_wrap [of "a_dst a + int k" "15 + int x"] x(1) B k
      by (auto simp: rvl_error_def u64_def)
    have "copy_match_label a (int off) (a_dst a + int k - int off) (int t) (a_src a + int i) (a_dst a + int k) m =
        safe_match_copy a (int off) (a_dst a + int k - int off) (int (x + 19)) (a_src a + int i') (a_dst a + int k) m"
      using True rd r w by (simp add: copy_match_label_def Let_def)
    then show ?thesis
      using True r safe_match_copy_ok [OF ok k off _ room, of "x + 19" i'] by (simp add: ref_ml_def)
  qed
qed

section \<open>Literals, then the offset\<close>

lemma and_15: "int t AND 15 = int (t mod 16)"
  using take_bit_eq_mask [of 4 "int t"] by (simp add: mask_eq_exp_minus_1 take_bit_eq_mod zmod_int)

lemma drop_4: "drop_bit 4 (int t) = int (t div 16)"
  by (simp add: drop_bit_eq_div zdiv_int)

lemma read_offset:
  assumes ok: "dec_ok a lo m" and i: "int i + 2 \<le> a_srcSize a"
  shows "LZ4_readLE16 le m (a_src a + int i) = Some (int (le16_at (r_src (rp a lo m)) i))"
    and "le16_at (r_src (rp a lo m)) i \<le> 65535"
proof -
  note M = dec_okD(10) [OF ok]
  have "mapped m (a_src a + int i) (a_src a + int i + 2)" using i by (intro mapped_sub [OF M]) auto
  moreover have "the (m (a_src a + int i)) = r_src (rp a lo m) ! i" "the (m (a_src a + int i + 1)) = r_src (rp a lo m) ! (i + 1)"
    using i by (simp_all add: nth_bytes ac_simps)
  ultimately show "LZ4_readLE16 le m (a_src a + int i) = Some (int (le16_at (r_src (rp a lo m)) i))"
    using LZ4_readLE16_eq [of m "a_src a + int i" le] by (simp add: le16_at_def)
  show "le16_at (r_src (rp a lo m)) i \<le> 65535"
    using unat_byte_le [of "r_src (rp a lo m) ! i"] unat_byte_le [of "r_src (rp a lo m) ! (i + 1)"]
    unfolding le16_at_def by linarith
qed

lemma safe_offset_ok:
  assumes ok: "dec_ok a lo m" and k: "int k \<le> a_outputSize a" and i: "int i + 2 < a_srcSize a"
    and room: "a_partial a \<or> int k + 12 \<le> a_outputSize a"
  shows "agrees a lo m (safe_offset a (int t) (a_src a + int i) (a_dst a + int k) m)
      (\<lambda>st. ref_off (rp a lo m) st i (hist a lo m (a_dst a + int k)) t)"
proof -
  have "safe_offset a (int t) (a_src a + int i) (a_dst a + int k) m =
      copy_match_label a (int (le16_at (r_src (rp a lo m)) i)) (a_dst a + int k - int (le16_at (r_src (rp a lo m)) i))
        (int (t mod 16)) (a_src a + int (i + 2)) (a_dst a + int k) m"
    using read_offset(1) [OF ok, of i] i by (simp add: safe_offset_def Let_def and_15 ac_simps del: rp_simps)
  then show ?thesis
    using copy_match_label_ok [OF ok k read_offset(2) [OF ok, of i] _ _ room, of "t mod 16" "i + 2"] i
    by (simp add: ref_off_def del: rp_simps)
qed

text \<open>After a literal run of \<open>n\<close> bytes has been copied, the decoder continues from the longer history.\<close>

lemma after_lits:
  assumes ok: "dec_ok a lo m" and fr: "frame m m' (a_dst a + int k) w" "w \<le> a_oend a"
    and bs: "bytes m' (a_dst a + int k) (a_dst a + int k + int n) = bytes m (a_src a + int i) (a_src a + int i + int n)"
    and i: "int i + int n \<le> a_srcSize a"
  shows "dec_ok a lo m'" "rp a lo m' = rp a lo m" "frame m m' (a_dst a) (a_oend a)"
    "hist a lo m' (a_dst a + int (k + n)) = hist a lo m (a_dst a + int k) @ segment (r_src (rp a lo m)) i n"
proof -
  show "dec_ok a lo m'" using dec_ok_frame [OF ok fr(1)] .
  show "rp a lo m' = rp a lo m" using rp_frame [OF ok fr(1)] fr(2) by simp
  show "frame m m' (a_dst a) (a_oend a)" using fr by (auto elim!: frame_widen)
  show "hist a lo m' (a_dst a + int (k + n)) = hist a lo m (a_dst a + int k) @ segment (r_src (rp a lo m)) i n"
    using hist_lits [OF ok fr(1,2) _ bs i] by (simp add: add.assoc)
qed

lemma memmove_lits:
  assumes ok: "dec_ok a lo m" and k: "int k + int n \<le> a_outputSize a" and i: "int i + int n \<le> a_srcSize a"
  shows "\<exists>m'. memmove m (a_dst a + int k) (a_src a + int i) (int n) = Some m' \<and>
           memcpy m (a_dst a + int k) (a_src a + int i) (int n) = Some m' \<and>
           frame m m' (a_dst a + int k) (a_dst a + int k + int n) \<and>
           bytes m' (a_dst a + int k) (a_dst a + int k + int n) = bytes m (a_src a + int i) (a_src a + int i + int n)"
proof -
  let ?d = "a_dst a + int k" let ?s = "a_src a + int i"
  note B = dec_okD(9-12) [OF ok]
  have ms: "mapped m ?s (?s + int n)" using i by (intro mapped_sub [OF B(2)]) auto
  have md: "mapped m ?d (?d + int n)" using k B by (intro mapped_sub [OF B(3)]) auto
  have "bytes (blit m ?d ?s (int n)) ?d (?d + int n) = bytes m ?s (?s + int n)"
    by (rule nth_equalityI) (auto simp: nth_bytes blit_def)
  then show ?thesis
    using memmove_Some [OF _ ms md] memcpy_Some [OF _ ms md] B(4) k i frame_blit [OF ms md order_refl order_refl] by auto
qed

lemma wildCopy8_lits:
  assumes ok: "dec_ok a lo m" and k: "int k + int n + 8 \<le> a_outputSize a" and i: "int i + int n + 8 \<le> a_srcSize a"
  shows "\<exists>m'. LZ4_wildCopy8 m (a_dst a + int k) (a_src a + int i) (a_dst a + int k + int n) = Some m' \<and>
           frame m m' (a_dst a + int k) (a_oend a) \<and>
           bytes m' (a_dst a + int k) (a_dst a + int k + int n) = bytes m (a_src a + int i) (a_src a + int i + int n)"
proof (cases "n = 0")
  case True
  obtain m' where "memcpy m (a_dst a + int k) (a_src a + int i) (int 8) = Some m'"
    "frame m m' (a_dst a + int k) (a_dst a + int k + int 8)"
    using memmove_lits [OF ok, of k 8 i] k i True by auto
  then show ?thesis
    using True k LZ4_wildCopy8_once [of "a_dst a + int k" "a_dst a + int k" m "a_src a + int i"]
    by (auto simp: a_oend_def elim!: frame_widen)
next
  case False
  let ?d = "a_dst a + int k" let ?s = "a_src a + int i"
  note B = dec_okD(9-12) [OF ok]
  obtain m' where "LZ4_wildCopy8 m ?d ?s (?d + int n) = Some m'" "frame m m' ?d (?d + int n + 7)"
      "bytes m' ?d (?d + int n) = bytes m ?s (?s + int n)"
    using wildCopy8.copy_literals [of ?d "?d + int n" ?s m] False k i B(1,4)
      mapped_sub [OF B(2), of ?s "?s + int n + 7"] mapped_sub [OF B(3), of ?d "?d + int n + 7"]
    by auto
  then show ?thesis using k by (auto simp: a_oend_def elim!: frame_widen)
qed

text \<open>Literals near an end of the buffers: in full mode they must be the last of the block.\<close>

lemma near_end:
  assumes ok: "dec_ok a lo m" and i: "int i \<le> a_srcSize a"
  shows "(a_dst a + int k + int ll > a_oend a - MFLIMIT \<or> a_src a + int i + int ll > a_iend a - (2 + 1 + LASTLITERALS)) =
         (k + ll + 12 > r_cap (rp a lo m) \<or> i + ll + 8 > length (r_src (rp a lo m)))"
    and "(i + ll = length (r_src (rp a lo m)) \<and> k + ll \<le> r_cap (rp a lo m)) =
         (int i + int ll = a_srcSize a \<and> int k + int ll \<le> a_outputSize a)"
  using dec_okD(2,4) [OF ok] by (auto simp: a_oend_def a_iend_def nat_less_iff le_nat_iff)

lemma last_literals_ok:
  assumes ok: "dec_ok a lo m" and i: "int i \<le> a_srcSize a" and full: "\<not> a_partial a"
    and R: "k + ll + 12 > r_cap (rp a lo m) \<or> i + ll + 8 > length (r_src (rp a lo m))"
  shows "agrees a lo m (safe_literal_copy a (int t) (int ll) (a_src a + int i) (a_dst a + int k) m)
      (\<lambda>st. ref_lits (rp a lo m) st i (hist a lo m (a_dst a + int k)) t ll)"
proof -
  let ?P = "rp a lo m" let ?H = "hist a lo m (a_dst a + int k)"
  let ?op = "a_dst a + int k" let ?ip = "a_src a + int i"
  note C = R [folded near_end(1) [OF ok i, of k ll]]
  have Q: "ref_lits ?P st i ?H t ll =
      (if int i + int ll = a_srcSize a \<and> int k + int ll \<le> a_outputSize a then RDone (?H @ segment (r_src ?P) i ll) else RErr i)" for st
    using R full r_out_at [OF ok, of m k] near_end(2) [OF ok i, of ll k]
    by (simp only: ref_lits_def Let_def rp_simps(4) if_True not_False_eq_True)
  show ?thesis
  proof (cases "int i + int ll = a_srcSize a \<and> int k + int ll \<le> a_outputSize a")
    case fits: True
    obtain m' where m': "memmove m ?op ?ip (int ll) = Some m'" "frame m m' ?op (?op + int ll)"
        "bytes m' ?op (?op + int ll) = bytes m ?ip (?ip + int ll)"
      using memmove_lits [OF ok, of k ll i] fits by auto
    have w: "?op + int ll \<le> a_oend a" using fits by (simp add: a_oend_def)
    note after = after_lits [OF ok m'(2) w m'(3)]
    have "safe_literal_copy a (int t) (int ll) ?ip ?op m = Some (Inr (Decoded (a_dst a + int (k + ll)) m'))"
      using C full fits m'(1) w by (simp add: safe_literal_copy_def Let_def a_iend_def add.assoc)
    then show ?thesis using Q after(3,4) fits by (intro agrees_Done [of _ _ "k + ll" m']) auto
  next
    case bad: False
    then have "safe_literal_copy a (int t) (int ll) ?ip ?op m = Some (Inr (Output_error ?ip m))"
      using C full by (auto simp: safe_literal_copy_def Let_def a_iend_def a_oend_def)
    with bad Q show ?thesis by (intro agrees_Err) auto
  qed
qed

lemma partial_literals_ok:
  assumes ok: "dec_ok a lo m" and k: "int k \<le> a_outputSize a" and i: "int i \<le> a_srcSize a" and part: "a_partial a"
    and R: "k + ll + 12 > r_cap (rp a lo m) \<or> i + ll + 8 > length (r_src (rp a lo m))"
  shows "agrees a lo m (safe_literal_copy a (int t) (int ll) (a_src a + int i) (a_dst a + int k) m)
      (\<lambda>st. ref_lits (rp a lo m) st i (hist a lo m (a_dst a + int k)) t ll)"
proof -
  let ?P = "rp a lo m" let ?H = "hist a lo m (a_dst a + int k)"
  let ?op = "a_dst a + int k" let ?ip = "a_src a + int i"
  note C = R [folded near_end(1) [OF ok i, of k ll]]
  have n: "int (length (r_src ?P)) = a_srcSize a" using dec_okD(2) [OF ok] by simp
  define l where "l = min (min ll (length (r_src ?P) - i)) (r_cap ?P - k)"
  have l: "int l = min (min (int ll) (a_srcSize a - int i)) (a_outputSize a - int k)"
    using n i k dec_okD(4) [OF ok] unfolding l_def rp_simps(2) by linarith
  have lk: "int k + int l \<le> a_outputSize a" and il: "int i + int l \<le> a_srcSize a" using l by simp_all
  obtain m' where m': "memmove m ?op ?ip (int l) = Some m'" "frame m m' ?op (?op + int l)"
        "bytes m' ?op (?op + int l) = bytes m ?ip (?ip + int l)"
    using memmove_lits [OF ok lk il] by blast
  have w: "?op + int l \<le> a_oend a" using lk by (simp add: a_oend_def)
  note after = after_lits [OF ok m'(2) w m'(3) il]
  define stop where "stop \<longleftrightarrow> int k + int l = a_outputSize a \<or> a_srcSize a \<le> int i + int l + 2"
  have e: "(k + l = r_cap ?P \<or> length (r_src ?P) \<le> i + l + 2) = stop"
    using cap_less(3) [OF ok, of "k + l"] n by (auto simp: stop_def)
  have Q: "ref_lits ?P st i ?H t ll =
      (if stop then RDone (hist a lo m' (a_dst a + int (k + l)))
       else ref_off ?P st (i + l) (hist a lo m' (a_dst a + int (k + l))) t)" for st
    using R part after(4) r_out_at [OF ok, of m k] e
    by (simp add: ref_lits_def Let_def l_def [symmetric] del: length_bytes length_src rp_simps(1,2))
  have code: "safe_literal_copy a (int t) (int ll) ?ip ?op m =
      (if stop then Some (Inr (Decoded (a_dst a + int (k + l)) m'))
       else safe_offset a (int t) (a_src a + int (i + l)) (a_dst a + int (k + l)) m')"
    using C part m'(1) l i k
    by (auto simp: safe_literal_copy_def Let_def a_iend_def a_oend_def stop_def add.assoc min_def split: if_splits)
  show ?thesis
  proof (cases stop)
    case True
    then show ?thesis using code Q after(3) l by (intro agrees_Done [of _ _ "k + l" m']) auto
  next
    case False
    then have "agrees a lo m' (safe_offset a (int t) (a_src a + int (i + l)) (a_dst a + int (k + l)) m')
       (\<lambda>st. ref_off (rp a lo m') st (i + l) (hist a lo m' (a_dst a + int (k + l))) t)"
      using l part by (intro safe_offset_ok [OF after(1)]) (auto simp: stop_def)
    then show ?thesis using False code Q after(2) agrees_frame [OF after(3)] by simp
  qed
qed

lemma inner_literals_ok:
  assumes ok: "dec_ok a lo m" and i: "int i \<le> a_srcSize a"
    and R: "\<not> (k + ll + 12 > r_cap (rp a lo m) \<or> i + ll + 8 > length (r_src (rp a lo m)))"
  shows "agrees a lo m (safe_literal_copy a (int t) (int ll) (a_src a + int i) (a_dst a + int k) m)
      (\<lambda>st. ref_lits (rp a lo m) st i (hist a lo m (a_dst a + int k)) t ll)"
proof -
  let ?op = "a_dst a + int k" let ?ip = "a_src a + int i"
  note C = R [folded near_end(1) [OF ok i, of k ll]]
  then have room: "int k + int ll + 12 \<le> a_outputSize a" "int i + int ll + 8 \<le> a_srcSize a"
    by (auto simp: a_oend_def a_iend_def)
  obtain m' where m': "LZ4_wildCopy8 m ?op ?ip (?op + int ll) = Some m'" "frame m m' ?op (a_oend a)"
      "bytes m' ?op (?op + int ll) = bytes m ?ip (?ip + int ll)"
    using wildCopy8_lits [OF ok, of k ll i] room by auto
  note after = after_lits [OF ok m'(2) order_refl m'(3)]
  have "safe_literal_copy a (int t) (int ll) ?ip ?op m =
      safe_offset a (int t) (a_src a + int (i + ll)) (a_dst a + int (k + ll)) m'"
    using C m'(1) by (simp add: safe_literal_copy_def Let_def add.assoc)
  moreover have "ref_lits (rp a lo m) st i (hist a lo m ?op) t ll =
      ref_off (rp a lo m') st (i + ll) (hist a lo m' (a_dst a + int (k + ll))) t" for st
    using R after(2,4) r_out_at [OF ok, of m k] room
    by (simp add: ref_lits_def Let_def del: length_bytes length_src rp_simps)
  ultimately show ?thesis
    using safe_offset_ok [OF after(1), of "k + ll" "i + ll" t] room agrees_frame [OF after(3)] by simp
qed

lemma safe_literal_copy_ok:
  assumes ok: "dec_ok a lo m" and k: "int k \<le> a_outputSize a" and i: "int i \<le> a_srcSize a"
  shows "agrees a lo m (safe_literal_copy a (int t) (int ll) (a_src a + int i) (a_dst a + int k) m)
      (\<lambda>st. ref_lits (rp a lo m) st i (hist a lo m (a_dst a + int k)) t ll)"
  using last_literals_ok [OF ok i] partial_literals_ok [OF ok k i] inner_literals_ok [OF ok i] by blast

section \<open>The two loop bodies\<close>

lemma copy18:
  assumes m: "mapped m (d - off) (d + 18)" and off: "8 \<le> off"
  shows "\<exists>m'. do { m \<leftarrow> memcpy m d (d - off) 8; m \<leftarrow> memcpy m (d + 8) (d - off + 8) 8;
              memcpy m (d + 16) (d - off + 16) 2 } = Some m' \<and> lz_match m m' d off (d + 18) (d + 18)"
proof -
  let ?s = "d - off"
  obtain m1 where m1: "memcpy m d ?s 8 = Some m1" "lz_copied m m1 d ?s (d + 8) (d + 8)"
    using lz_copied_step [OF lz_copied_refl [of m d ?s], of 8] off
      mapped_sub [OF m, of ?s "?s + 8"] mapped_sub [OF m, of d "d + 8"] by auto
  obtain m2 where m2: "memcpy m1 (d + 8) (?s + 8) 8 = Some m2" "lz_copied m m2 d ?s (d + 16) (d + 16)"
    using lz_copied_step [OF m1(2), of 8] off
      mapped_sub [OF m, of "?s + 8" "?s + 16"] mapped_sub [OF m, of "d + 8" "d + 16"] by (auto simp: add.assoc)
  obtain m3 where m3: "memcpy m2 (d + 16) (?s + 16) 2 = Some m3" "lz_copied m m3 d ?s (d + 18) (d + 18)"
    using lz_copied_step [OF m2(2), of 2] off
      mapped_sub [OF m, of "?s + 16" "?s + 18"] mapped_sub [OF m, of "d + 16" "d + 18"] by (auto simp: add.assoc)
  show ?thesis using m1(1) m2(1) m3(1) lz_match_copied [OF m3(2)] off by auto
qed

lemma short_match_ok:
  assumes ok: "dec_ok a lo m" and k: "int k + 18 \<le> a_outputSize a" and t: "t mod 16 \<noteq> 15"
    and off: "8 \<le> off" "int off \<le> a_dst a + int k - lo"
  shows "\<exists>m'. do { m \<leftarrow> memcpy m (a_dst a + int k) (a_dst a + int k - int off) 8;
              m \<leftarrow> memcpy m (a_dst a + int k + 8) (a_dst a + int k - int off + 8) 8;
              memcpy m (a_dst a + int k + 16) (a_dst a + int k - int off + 16) 2 } = Some m' \<and>
         frame m m' (a_dst a) (a_oend a) \<and>
         hist a lo m' (a_dst a + int (k + (t mod 16 + 4))) = copy_match (hist a lo m (a_dst a + int k)) off (t mod 16 + 4)"
proof -
  let ?op = "a_dst a + int k" let ?n = "t mod 16 + 4"
  have n: "int ?n \<le> 18" using t by simp
  have "mapped m (?op - int off) (?op + 18)"
    using k off dec_okD(8,9) [OF ok] by (intro mapped_sub [OF dec_okD(11) [OF ok]]) auto
  then obtain m' where m': "do { m \<leftarrow> memcpy m ?op (?op - int off) 8;
      m \<leftarrow> memcpy m (?op + 8) (?op - int off + 8) 8; memcpy m (?op + 16) (?op - int off + 16) 2 } = Some m'"
    "lz_match m m' ?op (int off) (?op + 18) (?op + 18)"
    using copy18 [of m ?op "int off"] off by auto
  have lz: "lz_match m m' ?op (int off) (?op + int ?n) (a_oend a)"
    using n k by (intro lz_match_weaken [OF m'(2)]) (auto simp: a_oend_def)
  have "hist a lo m' (?op + int ?n) = copy_match (hist a lo m ?op) off ?n"
    using hist_match [OF ok lz order_refl _ off(2)] by simp
  moreover have "frame m m' (a_dst a) (a_oend a)"
    using lz_match_frame [OF m'(2)] k by (auto simp: a_oend_def elim!: frame_widen)
  ultimately show ?thesis using m'(1) by (auto simp: add.assoc)
qed

text \<open>The code's test for a match inside the prefix.\<close>

lemma in_prefix:
  assumes ok: "dec_ok a lo m" and off: "off \<le> 65535"
  shows "(a_dict a = withPrefix64k \<or> a_dst a + int k - int off \<ge> a_lowPrefix a) = (int off \<le> a_dst a + int k - lo)"
  using dec_okD(18,19) [OF ok] off by (cases "a_dict a = withPrefix64k") auto

lemma safe_shortcut_ok:
  assumes ok: "dec_ok a lo m" and k: "int k + 32 \<le> a_outputSize a" and i: "int i + 16 < a_srcSize a"
    and ll: "ll < 15"
  shows "agrees a lo m (safe_shortcut a (int t) (int ll) (a_src a + int i) (a_dst a + int k) m)
      (\<lambda>st. ref_short (rp a lo m) st (i + ll) (hist a lo m (a_dst a + int k) @ segment (r_src (rp a lo m)) i ll) t)"
proof -
  let ?P = "rp a lo m"
  obtain m1 where m1: "memcpy m (a_dst a + int k) (a_src a + int i) 16 = Some m1"
    and f1: "frame m m1 (a_dst a + int k) (a_dst a + int k + 16)"
    and b1: "bytes m1 (a_dst a + int k) (a_dst a + int k + 16) = bytes m (a_src a + int i) (a_src a + int i + 16)"
    using memmove_lits [OF ok, of k 16 i] k i by auto
  have "bytes m1 (a_dst a + int k) (a_dst a + int k + int ll) = bytes m (a_src a + int i) (a_src a + int i + int ll)"
    using arg_cong [OF b1, of "take ll"] ll
      bytes_append [of "a_dst a + int k" "a_dst a + int k + int ll" "a_dst a + int k + 16" m1]
      bytes_append [of "a_src a + int i" "a_src a + int i + int ll" "a_src a + int i + 16" m] by simp
  moreover have "a_dst a + int k + 16 \<le> a_oend a" using k by (simp add: a_oend_def)
  ultimately have after: "dec_ok a lo m1" "rp a lo m1 = ?P" "frame m m1 (a_dst a) (a_oend a)"
    "hist a lo m1 (a_dst a + int (k + ll)) = hist a lo m (a_dst a + int k) @ segment (r_src ?P) i ll"
    using after_lits [OF ok f1, of ll i] i ll by auto
  define off where "off = le16_at (r_src ?P) (i + ll)"
  let ?op = "a_dst a + int (k + ll)" let ?H = "hist a lo m1 ?op"
  have off: "LZ4_readLE16 LZ4_isLittleEndian m1 (a_src a + int (i + ll)) = Some (int off)" "off \<le> 65535"
    using read_offset [OF after(1), of "i + ll"] after(2) i ll by (auto simp: off_def)
  have near: "(off \<le> length ?H - r_dl ?P) = (a_dict a = withPrefix64k \<or> ?op - int off \<ge> a_lowPrefix a)"
    using off_in_prefix [OF after(1)] in_prefix [OF after(1) off(2)] by (simp only: rp_simps(3))
  have "agrees a lo m1 (safe_shortcut a (int t) (int ll) (a_src a + int i) (a_dst a + int k) m)
      (\<lambda>st. ref_short ?P st (i + ll) ?H t)"
  proof (cases "t mod 16 \<noteq> 15 \<and> 8 \<le> off \<and> off \<le> length ?H - r_dl ?P")
    case True
    then have "int off \<le> ?op - lo" using in_prefix [OF after(1) off(2)] near by blast
    then obtain m2 where m2: "do { m \<leftarrow> memcpy m1 ?op (?op - int off) 8;
              m \<leftarrow> memcpy m (?op + 8) (?op - int off + 8) 8;
              memcpy m (?op + 16) (?op - int off + 16) 2 } = Some m2"
      "frame m1 m2 (a_dst a) (a_oend a)"
      "hist a lo m2 (a_dst a + int (k + ll + (t mod 16 + 4))) = copy_match ?H off (t mod 16 + 4)"
      using short_match_ok [OF after(1), of "k + ll" t off] True k ll by auto
    have "t mod 16 < 16" by simp
    have "safe_shortcut a (int t) (int ll) (a_src a + int i) (a_dst a + int k) m =
        Some (Inl (a_src a + int (i + ll + 2), a_dst a + int (k + ll + (t mod 16 + 4)), m2))"
      using True m1 m2(1) off(1) near
      by (auto simp: safe_shortcut_def Let_def and_15 ac_simps split: Option.bind_splits)
    then show ?thesis
      using True m2 k ll by (intro agrees_Cont [of _ _ "i + ll + 2" "k + ll + (t mod 16 + 4)" m2]) (auto simp: ref_short_def Let_def off_def)
  next
    case False
    have "safe_shortcut a (int t) (int ll) (a_src a + int i) (a_dst a + int k) m =
        copy_match_label a (int off) (?op - int off) (int (t mod 16)) (a_src a + int (i + ll + 2)) ?op m1"
      using False m1 off(1) near
      by (auto simp: safe_shortcut_def Let_def and_15 ac_simps)
    moreover have "ref_short ?P st (i + ll) ?H t = ref_ml (rp a lo m1) st (i + ll + 2) ?H off (t mod 16)" for st
      using False after(2) by (auto simp: ref_short_def Let_def off_def)
    ultimately show ?thesis
      using copy_match_label_ok [OF after(1) _ off(2), of "k + ll" "t mod 16" "i + ll + 2"] k i ll by simp
  qed
  then show ?thesis using agrees_frame [OF after(3)] after(4) by simp
qed

text \<open>The length of a literal run, with its two overflow checks.\<close>

lemma literal_length:
  assumes ok: "dec_ok a lo m" and i: "int i + 15 < a_srcSize a" and k: "int k \<le> a_outputSize a"
    and r: "ref_ext (r_src (rp a lo m)) 15 i 0 = Inr (x, i')"
  shows "u64 (15 + int x) = int (15 + x)" "int x \<noteq> rvl_error"
    "\<not> u64 (a_dst a + int k + int (15 + x)) < u64 (a_dst a + int k)"
    "\<not> u64 (a_src a + int i' + int (15 + x)) < u64 (a_src a + int i')"
proof -
  note B = dec_okD(1,6,7,8,9) [OF ok]
  note x = ref_ext_small [OF ok r]
  have p: "0 \<le> a_dst a + int k" "a_dst a + int k \<le> 18446742974197923840"
    "0 \<le> a_src a + int i'" "a_src a + int i' \<le> 18446742974197923840" using B k x by auto
  have l: "0 \<le> int (15 + x)" "int (15 + x) \<le> 547608330300" using x by auto
  show "u64 (15 + int x) = int (15 + x)" using sum_no_wrap(3) [OF p(1,2) l] by simp
  show "int x \<noteq> rvl_error" using x(1) by (auto simp: rvl_error_def u64_def)
  show "\<not> u64 (a_dst a + int k + int (15 + x)) < u64 (a_dst a + int k)"
    using sum_no_wrap [OF p(1,2) l] by simp
  show "\<not> u64 (a_src a + int i' + int (15 + x)) < u64 (a_src a + int i')"
    using sum_no_wrap [OF p(3,4) l] by simp
qed

lemma read_literal_length:
  assumes ok: "dec_ok a lo m" and i: "int i \<le> a_srcSize a"
  shows "read_variable_length m (a_src a + int i) (a_iend a - RUN_MASK) True =
     Some (if i + 15 \<ge> length (r_src (rp a lo m)) then (rvl_error, a_src a + int i)
       else case ref_ext (r_src (rp a lo m)) 15 i 0 of
         Inl e \<Rightarrow> (rvl_error, a_src a + int e) | Inr (x, i') \<Rightarrow> (int x, a_src a + int i'))"
proof -
  have lim: "a_iend a - RUN_MASK = a_src a + a_srcSize a - int 15" by (simp add: a_iend_def)
  have c: "(a_src a + int i \<ge> a_src a + a_srcSize a - int 15) = (i + 15 \<ge> length (r_src (rp a lo m)))"
    using dec_okD(2) [OF ok] unfolding length_src by linarith
  show ?thesis
  proof (cases "i + 15 \<ge> length (r_src (rp a lo m))")
    case True
    then show ?thesis by (simp only: read_variable_length_def lim c if_True simp_thms)
  next
    case False
    then have "int i < a_srcSize a" using dec_okD(2) [OF ok] unfolding length_src by linarith
    then show ?thesis
      using rvl_ok [OF ok, of i 0 15] False by (simp only: read_variable_length_def lim c if_False simp_thms) simp
  qed
qed

lemma safe_body_ok:
  assumes ok: "dec_ok a lo m" and k: "int k \<le> a_outputSize a" and i: "int i < a_srcSize a"
  shows "agrees a lo m (safe_body a (a_src a + int i, a_dst a + int k, m))
      (\<lambda>st. ref_step (rp a lo m) st i (hist a lo m (a_dst a + int k)))"
proof -
  let ?P = "rp a lo m" let ?H = "hist a lo m (a_dst a + int k)"
  define t where "t = unat (r_src ?P ! i)"
  have n: "int (length (r_src ?P)) = a_srcSize a" using dec_okD(2) [OF ok] by simp
  have tok: "load8 m (a_src a + int i) = Some (int t)" using src_at [OF ok i] by (simp add: t_def)
  have far: "(a_src a + int (i + 1) < a_shortiend a \<and> a_dst a + int k \<le> a_shortoend a) =
      (i + 1 + 16 < length (r_src ?P) \<and> r_out ?P ?H + 32 \<le> r_cap ?P)"
    using n cap_less(2) [OF ok, of "k + 32"] r_out_at [OF ok, of m k]
    by (auto simp: a_shortiend_def a_shortoend_def a_iend_def a_oend_def)
  have tl: "t div 16 \<le> 15" using unat_byte_less [of "r_src ?P ! i"] unfolding t_def by linarith
  have i1: "int (i + 1) \<le> a_srcSize a" using i by simp
  consider (short) "t div 16 \<noteq> 15" "i + 1 + 16 < length (r_src ?P)" "r_out ?P ?H + 32 \<le> r_cap ?P"
    | (long) "t div 16 = 15"
    | (plain) "t div 16 \<noteq> 15" "\<not> (i + 1 + 16 < length (r_src ?P) \<and> r_out ?P ?H + 32 \<le> r_cap ?P)" by blast
  then show ?thesis
  proof cases
    case short
    then have "safe_body a (a_src a + int i, a_dst a + int k, m) =
        safe_shortcut a (int t) (int (t div 16)) (a_src a + int (i + 1)) (a_dst a + int k) m"
      using tok far by (simp add: safe_body.simps Let_def drop_4 ac_simps del: length_src length_bytes rp_simps)
    moreover have "ref_step ?P st i ?H =
        ref_short ?P st (i + 1 + t div 16) (?H @ segment (r_src ?P) (i + 1) (t div 16)) t" for st
      using short by (simp add: ref_step_def Let_def t_def [symmetric] del: length_src length_bytes rp_simps)
    ultimately show ?thesis
      using safe_shortcut_ok [OF ok, of k "i + 1" "t div 16" t] short tl n cap_less(2) [OF ok, of "k + 32"] r_out_at [OF ok, of m k]
      by simp
  next
    case plain
    then have "safe_body a (a_src a + int i, a_dst a + int k, m) =
        safe_literal_copy a (int t) (int (t div 16)) (a_src a + int (i + 1)) (a_dst a + int k) m"
      using tok far by (auto simp: safe_body.simps Let_def drop_4 ac_simps simp del: length_src length_bytes rp_simps)
    moreover have "ref_step ?P st i ?H = ref_lits ?P st (i + 1) ?H t (t div 16)" for st
      using plain by (auto simp: ref_step_def Let_def t_def [symmetric] simp del: length_src length_bytes rp_simps)
    ultimately show ?thesis using safe_literal_copy_ok [OF ok k i1, of t "t div 16"] by simp
  next
    case long
    note rd = read_literal_length [OF ok i1]
    show ?thesis
    proof (cases "i + 1 + 15 \<ge> length (r_src ?P)")
      case True
      have "safe_body a (a_src a + int i, a_dst a + int k, m) = Some (Inr (Output_error (a_src a + int (i + 1)) m))"
        using tok rd True long by (simp add: safe_body.simps Let_def drop_4 ac_simps del: length_src length_bytes rp_simps)
      moreover have "ref_step ?P st i ?H = RErr (i + 1)" for st
        using True long by (simp add: ref_step_def Let_def t_def [symmetric] del: length_src length_bytes rp_simps)
      ultimately show ?thesis by (intro agrees_Err) auto
    next
      case False
      then have i15: "int (i + 1) + 15 < a_srcSize a" using n by linarith
      show ?thesis
      proof (cases "ref_ext (r_src ?P) 15 (i + 1) 0")
        case (Inl e)
        have "safe_body a (a_src a + int i, a_dst a + int k, m) = Some (Inr (Output_error (a_src a + int e) m))"
          using tok rd False long Inl
          by (simp add: safe_body.simps Let_def drop_4 ac_simps del: length_src length_bytes rp_simps)
        moreover have "ref_step ?P st i ?H = RErr e" for st
          using False long Inl by (simp add: ref_step_def Let_def t_def [symmetric] del: length_src length_bytes rp_simps)
        ultimately show ?thesis by (intro agrees_Err) auto
      next
        case (Inr r)
        then obtain x i' where r: "ref_ext (r_src ?P) 15 (i + 1) 0 = Inr (x, i')" by (cases r) auto
        note len = literal_length [OF ok i15 k r]
        have "safe_body a (a_src a + int i, a_dst a + int k, m) =
            safe_literal_copy a (int t) (int (15 + x)) (a_src a + int i') (a_dst a + int k) m"
          using tok rd False long r len
          by (simp add: safe_body.simps Let_def drop_4 ac_simps del: length_src length_bytes rp_simps)
        moreover have "ref_step ?P st i ?H = ref_lits ?P st i' ?H t (15 + x)" for st
          using False long r by (simp add: ref_step_def Let_def t_def [symmetric] del: length_src length_bytes rp_simps)
        ultimately show ?thesis
          using safe_literal_copy_ok [OF ok k, of i' t "15 + x"] ref_ext_small [OF ok r] by simp
      qed
    qed
  qed
qed

end
