(* ===== verification/Lz4_DecodeLoops.thy ===== *)
theory Lz4_DecodeLoops
  imports Lz4_DecodeSteps
begin

text \<open>
  The fast loop refines the same reference step as the safe loop, the two loops with their jumps
  refine the reference run, and the generic decoder returns what the reference says.
\<close>

section \<open>The fast loop\<close>

text \<open>What the safe loop makes of the fast loop's outcome.\<close>

definition fcont :: "dargs \<Rightarrow> (int \<times> int \<times> mem + fexit) \<Rightarrow> (int \<times> int \<times> mem + dexit) option" where
  "fcont a r = (case r of
     Inl s \<Rightarrow> Some (Inl s)
   | Inr (Goto_safe_literal_copy token len ip op m) \<Rightarrow> safe_literal_copy a token len ip op m
   | Inr (Goto_safe_match_copy offset mtch len ip op m) \<Rightarrow> safe_match_copy a offset mtch len ip op m
   | Inr (Goto_output_error ip m) \<Rightarrow> Some (Inr (Output_error ip m)))"

definition fagrees :: "dargs \<Rightarrow> int \<Rightarrow> mem \<Rightarrow> (int \<times> int \<times> mem + fexit) option \<Rightarrow> (byte list \<Rightarrow> rstep) \<Rightarrow> bool" where
  "fagrees a lo m c q \<longleftrightarrow>
     (\<exists>r. c = Some r \<and> agrees a lo m (fcont a r) q \<and>
        (\<forall>ip op m'. r = Inl (ip, op, m') \<longrightarrow> op + FASTLOOP_SAFE_DISTANCE \<le> a_oend a))"

lemma fagrees_frame: "frame m m1 (a_dst a) (a_oend a) \<Longrightarrow> fagrees a lo m1 c q \<Longrightarrow> fagrees a lo m c q"
  by (auto simp: fagrees_def intro: agrees_frame)

lemma fagrees_exit: "c = Some (Inr x) \<Longrightarrow> agrees a lo m (fcont a (Inr x)) q \<Longrightarrow> fagrees a lo m c q"
  by (simp add: fagrees_def)

lemma fagrees_Err:
  "c = Some (Inr (Goto_output_error (a_src a + int e) m)) \<Longrightarrow> (\<And>st. q st = RErr e) \<Longrightarrow> fagrees a lo m c q"
  by (rule fagrees_exit) (auto simp: fcont_def intro: agrees_Err)

lemma fagrees_Cont:
  assumes "c = Some (Inl (a_src a + int i, a_dst a + int k, m'))" "int k + 64 \<le> a_outputSize a"
    "frame m m' (a_dst a) (a_oend a)" "q st = RCont i (hist a lo m' (a_dst a + int k))"
  shows "fagrees a lo m c q"
  unfolding fagrees_def
proof (intro exI conjI)
  show "agrees a lo m (fcont a (Inl (a_src a + int i, a_dst a + int k, m'))) q"
    using assms by (intro agrees_Cont [of _ _ i k m' _ _ st]) (auto simp: fcont_def)
qed (use assms in \<open>auto simp: a_oend_def\<close>)

lemma fast_copy_ok:
  assumes ok: "dec_ok a lo m" and room: "int k + int ml + 32 \<le> a_outputSize a"
    and off: "int off \<le> a_dst a + int k - lo" and ml: "4 \<le> ml"
  shows "\<exists>m'. (if int off < 16
            then LZ4_memcpy_using_offset LZ4_isLittleEndian m (a_dst a + int k) (a_dst a + int k - int off) (a_dst a + int k + int ml) (int off)
            else LZ4_wildCopy32 m (a_dst a + int k) (a_dst a + int k - int off) (a_dst a + int k + int ml)) = Some m' \<and>
          lz_match m m' (a_dst a + int k) (int off) (a_dst a + int k + int ml) (a_oend a)"
proof -
  let ?op = "a_dst a + int k" let ?e = "a_dst a + int k + int ml"
  have mp: "mapped m (?op - int off) (?e + 31)"
    using off room dec_okD(8,9) [OF ok] by (intro mapped_sub [OF dec_okD(11) [OF ok]]) auto
  consider "off = 0" | "0 < off" "off < 16" | "16 \<le> off" by linarith
  then show ?thesis
  proof cases
    case 1
    have "mapped m ?op (?e + 12)" using mp 1 by (auto elim: mapped_sub)
    then show ?thesis
      using LZ4_memcpy_using_offset_zero [of ?op ?e m LZ4_isLittleEndian] 1 ml room
      by (auto simp: lz_match_def a_oend_def elim!: frame_widen)
  next
    case 2
    have "mapped m (?op - int off) (?e + 12)" using mp by (auto elim: mapped_sub)
    then obtain m' where "LZ4_memcpy_using_offset LZ4_isLittleEndian m ?op (?op - int off) ?e (int off) = Some m'"
      "lz_copied m m' ?op (?op - int off) ?e (?e + 12)"
      using LZ4_memcpy_using_offset_ok [of "int off" "?op - int off" ?op ?e m LZ4_isLittleEndian] 2 ml by auto
    then show ?thesis
      using 2 room lz_match_weaken [OF lz_match_copied, of m m' ?op "int off" ?e "?e + 12" ?e "a_oend a"]
      by (auto simp: a_oend_def)
  next
    case 3
    have "mapped m (?op - int off) (?op - int off + int ml + 31)" "mapped m ?op (?e + 31)"
      using 3 by (auto intro!: mapped_sub [OF mp])
    then obtain m' where "LZ4_wildCopy32 m ?op (?op - int off) ?e = Some m'"
      "lz_copied m m' ?op (?op - int off) ?e (?e + 31)"
      using LZ4_wildCopy32_ok [of ?op ?e "?op - int off" m] 3 ml by auto
    then show ?thesis
      using 3 room lz_match_weaken [OF lz_match_copied, of m m' ?op "int off" ?e "?e + 31" ?e "a_oend a"]
      by (auto simp: a_oend_def)
  qed
qed

text \<open>Away from the end of the output, a match with a good distance is always copied.\<close>

lemma ref_match_room:
  assumes "off \<le> length H" "r_out P H + ml + 12 \<le> r_cap P"
  shows "ref_match P st i H off ml = RCont i (copy_match H off ml)"
  using assms by (auto simp: ref_match_def Let_def)

lemma fast_match_ok:
  assumes ok: "dec_ok a lo m" and room: "int k + int ml + 64 < a_outputSize a" and off: "off \<le> 65535" and ml: "4 \<le> ml"
  shows "fagrees a lo m (fast_match a (int off) (a_dst a + int k - int off) (int ml) (a_src a + int i) (a_dst a + int k) m)
      (\<lambda>st. ref_match (rp a lo m) st i (hist a lo m (a_dst a + int k)) off ml)"
proof (cases "length (hist a lo m (a_dst a + int k)) < off")
  case True
  then show ?thesis
    using bad_offset(1) [OF ok off, of k] by (intro fagrees_Err) (auto simp: fast_match_def ref_match_def)
next
  case good: False
  let ?op = "a_dst a + int k" let ?H = "hist a lo m ?op"
  have g: "int off \<le> a_dictSize a + (?op - lo)" using off_in_hist [OF ok, of off k] good by simp
  have Q: "ref_match (rp a lo m) st i ?H off ml = RCont i (copy_match ?H off ml)" for st
    using ref_match_room [of off ?H "rp a lo m" ml] good r_out_at [OF ok, of m k] cap_less(2) [OF ok, of "k + ml + 12"] room
    by simp
  have code: "\<exists>m'. fast_match a (int off) (?op - int off) (int ml) (a_src a + int i) ?op m =
        Some (Inl (a_src a + int i, a_dst a + int (k + ml), m')) \<and> frame m m' (a_dst a) (a_oend a) \<and>
      hist a lo m' (a_dst a + int (k + ml)) = copy_match ?H off ml"
  proof (cases "a_dict a = usingExtDict \<and> ?op - int off < a_lowPrefix a")
    case True
    have "\<not> ?op + int ml > a_oend a - LASTLITERALS" using room by (simp add: a_oend_def)
    then show ?thesis
      using ext_dict_copy_ok [OF ok, of ?op ml "int off"] bad_offset(2) [OF ok off True] g room True good bad_offset(1) [OF ok off, of k]
      by (auto simp: fast_match_def ext_dict_match_def a_oend_def add.assoc elim!: frame_widen)
  next
    case False
    note near = bad_offset(3) [OF ok off False good]
    obtain m' where m': "(if int off < 16
            then LZ4_memcpy_using_offset LZ4_isLittleEndian m ?op (?op - int off) (?op + int ml) (int off)
            else LZ4_wildCopy32 m ?op (?op - int off) (?op + int ml)) = Some m'"
      and lz: "lz_match m m' ?op (int off) (?op + int ml) (a_oend a)"
      using fast_copy_ok [OF ok _ near ml] room by auto
    have "frame m m' (a_dst a) (a_oend a)" using lz_match_frame [OF lz] by (auto elim!: frame_widen)
    then show ?thesis
      using hist_match [OF ok lz order_refl _ near] m' False good bad_offset(1) [OF ok off, of k]
      by (auto simp: fast_match_def Let_def add.assoc split: if_splits)
  qed
  then obtain m' where m': "fast_match a (int off) (?op - int off) (int ml) (a_src a + int i) ?op m =
        Some (Inl (a_src a + int i, a_dst a + int (k + ml), m'))" "frame m m' (a_dst a) (a_oend a)"
      "hist a lo m' (a_dst a + int (k + ml)) = copy_match ?H off ml" by blast
  then show ?thesis
    using Q room by (intro fagrees_Cont [of _ _ i "k + ml" m']) auto
qed

lemma fast_finish_ok:
  assumes ok: "dec_ok a lo m" and k: "int k + 12 \<le> a_outputSize a" and off: "off \<le> 65535" and ml: "4 \<le> ml"
  shows "fagrees a lo m
      (if a_dst a + int k + int ml \<ge> a_oend a - FASTLOOP_SAFE_DISTANCE
       then Some (Inr (Goto_safe_match_copy (int off) (a_dst a + int k - int off) (int ml) (a_src a + int i) (a_dst a + int k) m))
       else fast_match a (int off) (a_dst a + int k - int off) (int ml) (a_src a + int i) (a_dst a + int k) m)
      (\<lambda>st. ref_match (rp a lo m) st i (hist a lo m (a_dst a + int k)) off ml)"
proof (cases "a_dst a + int k + int ml \<ge> a_oend a - FASTLOOP_SAFE_DISTANCE")
  case True
  then show ?thesis
    using safe_match_copy_ok [OF ok _ off ml, of k i] k by (intro fagrees_exit) (auto simp: fcont_def)
next
  case False
  then show ?thesis using fast_match_ok [OF ok _ off ml, of k i] by (simp add: a_oend_def)
qed

lemma fast_offset_long:
  assumes ok: "dec_ok a lo m" and k: "int k + 12 \<le> a_outputSize a" and i: "int i + 2 < a_srcSize a"
    and True: "t mod 16 = 15"
  shows "fagrees a lo m (fast_offset a (int t) (a_src a + int i) (a_dst a + int k) m)
      (\<lambda>st. ref_off (rp a lo m) st i (hist a lo m (a_dst a + int k)) t)"
proof -
  let ?P = "rp a lo m" let ?op = "a_dst a + int k" let ?H = "hist a lo m ?op" let ?S = "r_src ?P"
  note B = dec_okD(6,7,8,9) [OF ok]
  define off where "off = le16_at ?S i"
  have off: "LZ4_readLE16 LZ4_isLittleEndian m (a_src a + int i) = Some (int off)" "off \<le> 65535"
    using read_offset [OF ok, of i] i by (auto simp: off_def)
  have i2: "a_src a + int i + 2 = a_src a + int (i + 2)" by simp
  have Q: "ref_off ?P st i ?H t = ref_ml ?P st (i + 2) ?H off (t mod 16)" for st
    by (simp add: ref_off_def off_def del: rp_simps)
  have i2n: "int (i + 2) < a_srcSize a" using i by simp
  have lim: "a_iend a - LASTLITERALS + 1 = a_src a + a_srcSize a - int 4" by (simp add: a_iend_def)
  have rd: "read_variable_length m (a_src a + int (i + 2)) (a_iend a - LASTLITERALS + 1) False =
      Some (case ref_ext ?S 4 (i + 2) 0 of Inl e \<Rightarrow> (rvl_error, a_src a + int e) | Inr (x, i') \<Rightarrow> (int x, a_src a + int i'))"
    using rvl_ok [OF ok i2n, of 0 4] by (simp only: read_variable_length_def lim) simp
  show ?thesis
  proof (cases "ref_ext ?S 4 (i + 2) 0")
    case (Inl e)
    then have "fast_offset a (int t) (a_src a + int i) ?op m = Some (Inr (Goto_output_error (a_src a + int e) m))"
      using rd True off(1) by (simp add: fast_offset_def Let_def and_15 i2 del: of_nat_add rp_simps)
    then show ?thesis using Inl True Q by (intro fagrees_Err) (auto simp: ref_ml_def)
  next
    case (Inr r)
    then obtain x i' where r: "ref_ext ?S 4 (i + 2) 0 = Inr (x, i')" by (cases r) auto
    note x = ref_ext_small [OF ok r]
    have w: "u64 (u64 (15 + int x) + MINMATCH) = int (x + 19)"
      "\<not> u64 (?op + int (x + 19)) < u64 ?op" "int x \<noteq> rvl_error"
      using sum_no_wrap [of ?op "int (x + 19)"] x(1) B k by (auto simp: rvl_error_def u64_def)
    have "fast_offset a (int t) (a_src a + int i) ?op m =
        (if ?op + int (x + 19) \<ge> a_oend a - FASTLOOP_SAFE_DISTANCE
         then Some (Inr (Goto_safe_match_copy (int off) (?op - int off) (int (x + 19)) (a_src a + int i') ?op m))
         else fast_match a (int off) (?op - int off) (int (x + 19)) (a_src a + int i') ?op m)"
      using rd True off(1) r w by (simp add: fast_offset_def Let_def and_15 i2 del: of_nat_add rp_simps)
    then show ?thesis
      using fast_finish_ok [OF ok k off(2), of "x + 19" i'] True r Q by (simp add: ref_ml_def del: of_nat_add)
  qed
qed

lemma fast_offset_short:
  assumes ok: "dec_ok a lo m" and k: "int k + 12 \<le> a_outputSize a" and i: "int i + 2 < a_srcSize a"
    and False: "t mod 16 \<noteq> 15"
  shows "fagrees a lo m (fast_offset a (int t) (a_src a + int i) (a_dst a + int k) m)
      (\<lambda>st. ref_off (rp a lo m) st i (hist a lo m (a_dst a + int k)) t)"
proof -
  let ?P = "rp a lo m" let ?op = "a_dst a + int k" let ?H = "hist a lo m ?op" let ?S = "r_src ?P"
  note B = dec_okD(6,7,8,9) [OF ok]
  define off where "off = le16_at ?S i"
  have off: "LZ4_readLE16 LZ4_isLittleEndian m (a_src a + int i) = Some (int off)" "off \<le> 65535"
    using read_offset [OF ok, of i] i by (auto simp: off_def)
  have i2: "a_src a + int i + 2 = a_src a + int (i + 2)" by simp
  have Q: "ref_off ?P st i ?H t = ref_ml ?P st (i + 2) ?H off (t mod 16)" for st
    by (simp add: ref_off_def off_def del: rp_simps)
  have t15: "t mod 16 \<le> 15" using mod_less_divisor [of 16 t] by linarith
  define ml where "ml = t mod 16 + 4"
  have ml: "u64 ((int t AND 15) + MINMATCH) = int ml" "int t AND ML_MASK \<noteq> ML_MASK" "4 \<le> ml" "ml \<le> 18"
    using t15 False by (auto simp: ml_def and_15 u64_id)
  have Q': "ref_off ?P st i ?H t = ref_match ?P st (i + 2) ?H off ml" for st
    using Q False by (simp add: ref_ml_def ml_def)
  show ?thesis
  proof (cases "?op + int ml < a_oend a - FASTLOOP_SAFE_DISTANCE \<and> 8 \<le> off \<and> int off \<le> ?op - lo")
    case True
    then have room: "int k + int ml + 64 < a_outputSize a" by (simp add: a_oend_def)
    obtain m' where m': "do { m \<leftarrow> memcpy m ?op (?op - int off) 8;
          m \<leftarrow> memcpy m (?op + 8) (?op - int off + 8) 8;
          memcpy m (?op + 16) (?op - int off + 16) 2 } = Some m'"
      "frame m m' (a_dst a) (a_oend a)" "hist a lo m' (a_dst a + int (k + ml)) = copy_match ?H off ml"
      using short_match_ok [OF ok, of k t off] True False room ml(3) by (auto simp: ml_def)
    have code: "fast_offset a (int t) (a_src a + int i) ?op m =
        Some (Inl (a_src a + int (i + 2), a_dst a + int (k + ml), m'))"
      using ml(1,2) off(1) True m'(1) in_prefix [OF ok off(2), of k]
      by (auto simp: fast_offset_def Let_def add.assoc split: Option.bind_splits)
    have "off \<le> length ?H" using True off_in_hist [OF ok, of off k] dec_okD(13) [OF ok] by linarith
    then have "ref_match ?P st (i + 2) ?H off ml = RCont (i + 2) (copy_match ?H off ml)" for st
      using ref_match_room [of off ?H ?P ml] r_out_at [OF ok, of m k] cap_less(2) [OF ok, of "k + ml + 12"] room by simp
    then show ?thesis using code Q' m' room by (intro fagrees_Cont [of _ _ "i + 2" "k + ml" m']) auto
  next
    case False
    have "fast_offset a (int t) (a_src a + int i) ?op m =
        (if ?op + int ml \<ge> a_oend a - FASTLOOP_SAFE_DISTANCE
         then Some (Inr (Goto_safe_match_copy (int off) (?op - int off) (int ml) (a_src a + int (i + 2)) ?op m))
         else fast_match a (int off) (?op - int off) (int ml) (a_src a + int (i + 2)) ?op m)"
      using ml(1,2) off(1) False in_prefix [OF ok off(2), of k]
      by (auto simp: fast_offset_def Let_def ac_simps)
    then show ?thesis using fast_finish_ok [OF ok k off(2) ml(3), of "i + 2"] Q' by simp
  qed
qed

lemma fast_offset_ok:
  assumes "dec_ok a lo m" "int k + 12 \<le> a_outputSize a" "int i + 2 < a_srcSize a"
  shows "fagrees a lo m (fast_offset a (int t) (a_src a + int i) (a_dst a + int k) m)
      (\<lambda>st. ref_off (rp a lo m) st i (hist a lo m (a_dst a + int k)) t)"
  using fast_offset_long [OF assms] fast_offset_short [OF assms] by blast

lemma ref_short_off:
  assumes "r_out P H + 32 \<le> r_cap P" shows "ref_short P st i H t = ref_off P st i H t"
proof -
  have "t mod 16 \<le> 15" using mod_less_divisor [of 16 t] by linarith
  then have "ref_match P st (i + 2) H off (t mod 16 + 4) = RCont (i + 2) (copy_match H off (t mod 16 + 4))"
    if "off \<le> length H - r_dl P" for off
    using that assms by (intro ref_match_room) auto
  then show ?thesis by (auto simp: ref_short_def ref_off_def ref_ml_def Let_def)
qed

lemma wildCopy32_lits:
  assumes ok: "dec_ok a lo m" and k: "int k + int n + 32 \<le> a_outputSize a" and i: "int i + int n + 32 \<le> a_srcSize a"
    and n: "0 < n"
  shows "\<exists>m'. LZ4_wildCopy32 m (a_dst a + int k) (a_src a + int i) (a_dst a + int k + int n) = Some m' \<and>
           frame m m' (a_dst a + int k) (a_oend a) \<and>
           bytes m' (a_dst a + int k) (a_dst a + int k + int n) = bytes m (a_src a + int i) (a_src a + int i + int n)"
proof -
  let ?d = "a_dst a + int k" let ?s = "a_src a + int i"
  note B = dec_okD(9-12) [OF ok]
  obtain m' where "LZ4_wildCopy32 m ?d ?s (?d + int n) = Some m'" "frame m m' ?d (?d + int n + 31)"
      "bytes m' ?d (?d + int n) = bytes m ?s (?s + int n)"
    using wildCopy32.copy_literals [of ?d "?d + int n" ?s m] k i n B(1,4)
      mapped_sub [OF B(2), of ?s "?s + int n + 31"] mapped_sub [OF B(3), of ?d "?d + int n + 31"]
    by auto
  then show ?thesis using k by (auto simp: a_oend_def elim!: frame_widen)
qed

lemma fast_long_ok:
  assumes ok: "dec_ok a lo m" and k: "int k + 64 \<le> a_outputSize a" and i: "int i < a_srcSize a"
    and tok: "load8 m (a_src a + int i) = Some (int t)" and long: "t div 16 = 15"
  shows "fagrees a lo m (fast_body a (a_src a + int i, a_dst a + int k, m))
      (\<lambda>st. if i + 1 + 15 \<ge> length (r_src (rp a lo m)) then RErr (i + 1)
         else case ref_ext (r_src (rp a lo m)) 15 (i + 1) 0 of Inl e \<Rightarrow> RErr e
              | Inr (x, i') \<Rightarrow> ref_lits (rp a lo m) st i' (hist a lo m (a_dst a + int k)) t (15 + x))"
proof -
  let ?P = "rp a lo m" let ?op = "a_dst a + int k" let ?H = "hist a lo m ?op" let ?S = "r_src ?P"
  have i1: "int (i + 1) \<le> a_srcSize a" using i by simp
  have ip: "a_src a + int i + 1 = a_src a + int (i + 1)" by simp
  note rd = read_literal_length [OF ok i1]
  consider "i + 1 + 15 \<ge> length ?S" | e where "\<not> i + 1 + 15 \<ge> length ?S" "ref_ext ?S 15 (i + 1) 0 = Inl e"
    | x i' where "\<not> i + 1 + 15 \<ge> length ?S" "ref_ext ?S 15 (i + 1) 0 = Inr (x, i')"
    by (cases "ref_ext ?S 15 (i + 1) 0") auto
  then show ?thesis
  proof cases
    case 1
    then have "fast_body a (a_src a + int i, ?op, m) = Some (Inr (Goto_output_error (a_src a + int (i + 1)) m))"
      using tok rd long by (simp add: fast_body.simps Let_def drop_4 ip del: of_nat_add length_src length_bytes rp_simps)
    then show ?thesis using 1 by (intro fagrees_Err) (auto simp del: length_src length_bytes rp_simps)
  next
    case 2
    then have "fast_body a (a_src a + int i, ?op, m) = Some (Inr (Goto_output_error (a_src a + int e) m))"
      using tok rd long by (simp add: fast_body.simps Let_def drop_4 ip del: of_nat_add length_src length_bytes rp_simps)
    then show ?thesis using 2 by (intro fagrees_Err) (auto simp del: length_src length_bytes rp_simps)
  next
    case 3
    then have i15: "int (i + 1) + 15 < a_srcSize a" using dec_okD(2) [OF ok] unfolding length_src by linarith
    define n where "n = 15 + x"
    note len = literal_length [OF ok i15 _ 3(2), of k, folded n_def]
    have i': "int i' \<le> a_srcSize a" using ref_ext_small [OF ok 3(2)] by simp
    define far where "far \<longleftrightarrow> ?op + int n > a_oend a - 32 \<or> a_src a + int i' + int n > a_iend a - 32"
    have code: "fast_body a (a_src a + int i, ?op, m) =
        (if far then Some (Inr (Goto_safe_literal_copy (int t) (int n) (a_src a + int i') ?op m))
         else do { m \<leftarrow> LZ4_wildCopy32 m ?op (a_src a + int i') (?op + int n);
                   fast_offset a (int t) (a_src a + int i' + int n) (?op + int n) m })"
      using tok rd long 3 len k
      by (simp add: fast_body.simps Let_def drop_4 ip far_def del: of_nat_add length_src length_bytes rp_simps)
    have "fagrees a lo m (fast_body a (a_src a + int i, ?op, m)) (\<lambda>st. ref_lits ?P st i' ?H t n)"
    proof (cases far)
      case True
      then show ?thesis
        using code k safe_literal_copy_ok [OF ok _ i', of k t n] by (intro fagrees_exit) (auto simp: fcont_def)
    next
      case False
      then have room: "int k + int n + 32 \<le> a_outputSize a" "int i' + int n + 32 \<le> a_srcSize a"
        by (auto simp: far_def a_oend_def a_iend_def)
      obtain m' where m': "LZ4_wildCopy32 m ?op (a_src a + int i') (?op + int n) = Some m'"
          "frame m m' ?op (a_oend a)" "bytes m' ?op (?op + int n) = bytes m (a_src a + int i') (a_src a + int i' + int n)"
        using wildCopy32_lits [OF ok room] by (auto simp: n_def)
      have il: "int i' + int n \<le> a_srcSize a" using room by simp
      note after = after_lits [OF ok m'(2) order_refl m'(3) il]
      have "\<not> (k + n + 12 > r_cap ?P \<or> i' + n + 8 > length ?S)"
        using room cap_less(1) [OF ok, of "k + n + 12"] dec_okD(2) [OF ok] by auto
      then have "ref_lits ?P st i' ?H t n = ref_off (rp a lo m') st (i' + n) (hist a lo m' (a_dst a + int (k + n))) t" for st
        using after(2,4) r_out_at [OF ok, of m k] by (simp add: ref_lits_def Let_def del: length_src length_bytes rp_simps)
      then show ?thesis
        using code False m'(1) fast_offset_ok [OF after(1), of "k + n" "i' + n" t] room fagrees_frame [OF after(3)]
        by (simp add: add.assoc)
    qed
    then show ?thesis using 3 by (simp add: n_def del: length_src length_bytes rp_simps)
  qed
qed

lemma fast_body_ok:
  assumes ok: "dec_ok a lo m" and k: "int k + 64 \<le> a_outputSize a" and i: "int i < a_srcSize a"
  shows "fagrees a lo m (fast_body a (a_src a + int i, a_dst a + int k, m))
      (\<lambda>st. ref_step (rp a lo m) st i (hist a lo m (a_dst a + int k)))"
proof -
  let ?P = "rp a lo m" let ?op = "a_dst a + int k" let ?H = "hist a lo m ?op" let ?S = "r_src ?P"
  define t where "t = unat (?S ! i)"
  have n: "int (length ?S) = a_srcSize a" using dec_okD(2) [OF ok] by simp
  have tok: "load8 m (a_src a + int i) = Some (int t)" using src_at [OF ok i] by (simp add: t_def)
  have ip: "a_src a + int i + 1 = a_src a + int (i + 1)" by simp
  have out: "r_out ?P ?H + 32 \<le> r_cap ?P" using cap_less(2) [OF ok, of "k + 32"] r_out_at [OF ok, of m k] k by simp
  have tl: "t div 16 \<le> 15" using unat_byte_less [of "?S ! i"] unfolding t_def by linarith
  consider (long) "t div 16 = 15" | (short) "t div 16 < 15" "i + 1 + 16 < length ?S"
    | (last) "t div 16 < 15" "\<not> i + 1 + 16 < length ?S" using tl by linarith
  then show ?thesis
  proof cases
    case long
    have "ref_step ?P st i ?H =
        (if i + 1 + 15 \<ge> length ?S then RErr (i + 1)
         else case ref_ext ?S 15 (i + 1) 0 of Inl e \<Rightarrow> RErr e | Inr (x, i') \<Rightarrow> ref_lits ?P st i' ?H t (15 + x))" for st
      using long by (simp add: ref_step_def Let_def t_def [symmetric] del: length_src length_bytes rp_simps)
    then show ?thesis using fast_long_ok [OF ok k i tok long] by (simp only:)
  next
    case last
    then have "\<not> a_src a + int (i + 1) \<le> a_iend a - (16 + 1)" using n by (simp add: a_iend_def del: length_src length_bytes)
    then have "fast_body a (a_src a + int i, ?op, m) =
        Some (Inr (Goto_safe_literal_copy (int t) (int (t div 16)) (a_src a + int (i + 1)) ?op m))"
      using tok last by (simp add: fast_body.simps Let_def drop_4 ip del: of_nat_add length_src length_bytes rp_simps)
    moreover have "ref_step ?P st i ?H = ref_lits ?P st (i + 1) ?H t (t div 16)" for st
      using last by (simp add: ref_step_def Let_def t_def [symmetric] del: length_src length_bytes rp_simps)
    ultimately show ?thesis
      using safe_literal_copy_ok [OF ok, of k "i + 1" t "t div 16"] k i by (intro fagrees_exit) (auto simp: fcont_def)
  next
    case short
    let ?ll = "t div 16"
    have i16: "int (i + 1) + int 16 \<le> a_srcSize a" using short n by linarith
    obtain m1 where m1: "memcpy m ?op (a_src a + int (i + 1)) 16 = Some m1"
      and f1: "frame m m1 ?op (?op + 16)"
      and b1: "bytes m1 ?op (?op + 16) = bytes m (a_src a + int (i + 1)) (a_src a + int (i + 1) + 16)"
      using memmove_lits [OF ok _ i16, of k] k by auto
    have bs: "bytes m1 ?op (?op + int ?ll) = bytes m (a_src a + int (i + 1)) (a_src a + int (i + 1) + int ?ll)"
      using arg_cong [OF b1, of "take ?ll"] short(1) bytes_append [of ?op "?op + int ?ll" "?op + 16" m1]
        bytes_append [of "a_src a + int (i + 1)" "a_src a + int (i + 1) + int ?ll" "a_src a + int (i + 1) + 16" m] by simp
    have w: "?op + 16 \<le> a_oend a" and il: "int (i + 1) + int ?ll \<le> a_srcSize a"
      using k i16 short(1) by (simp_all add: a_oend_def)
    note after = after_lits [OF ok f1 w bs il]
    have "a_src a + int (i + 1) \<le> a_iend a - (16 + 1)" using short(2) n by (simp add: a_iend_def del: length_src length_bytes)
    then have code: "fast_body a (a_src a + int i, ?op, m) =
        fast_offset a (int t) (a_src a + int (i + 1 + ?ll)) (a_dst a + int (k + ?ll)) m1"
      using tok short m1 by (simp add: fast_body.simps Let_def drop_4 ac_simps del: length_src length_bytes rp_simps)
    have "ref_step ?P st i ?H = ref_off ?P st (i + 1 + ?ll) (hist a lo m1 (a_dst a + int (k + ?ll))) t" for st
    proof -
      have "r_out ?P (hist a lo m1 (a_dst a + int (k + ?ll))) + 32 \<le> r_cap ?P"
        using cap_less(2) [OF ok, of "k + ?ll + 32"] r_out_at [OF after(1), of m "k + ?ll"] k short(1) by simp
      from ref_short_off [OF this] show ?thesis
        using short out after(4) by (simp add: ref_step_def Let_def t_def [symmetric] del: length_src length_bytes rp_simps)
    qed
    moreover have "fagrees a lo m1 (fast_offset a (int t) (a_src a + int (i + 1 + ?ll)) (a_dst a + int (k + ?ll)) m1)
        (\<lambda>st. ref_off ?P st (i + 1 + ?ll) (hist a lo m1 (a_dst a + int (k + ?ll))) t)"
      using fast_offset_ok [OF after(1), of "k + ?ll" "i + 1 + ?ll" t] after(2) k i16 short(1,2) n by simp
    ultimately show ?thesis using code fagrees_frame [OF after(3)] by simp
  qed
qed

section \<open>The loops\<close>

text \<open>What the end of the loops and the outcome of the reference run have in common.\<close>

definition dres :: "dargs \<Rightarrow> int \<Rightarrow> mem \<Rightarrow> dexit \<Rightarrow> nat + byte list \<Rightarrow> bool" where
  "dres a lo m e r = (case r of
     Inl p \<Rightarrow> (\<exists>m'. e = Output_error (a_src a + int p) m' \<and> frame m m' (a_dst a) (a_oend a))
   | Inr H \<Rightarrow> (\<exists>k m'. e = Decoded (a_dst a + int k) m' \<and> int k \<le> a_outputSize a \<and>
        frame m m' (a_dst a) (a_oend a) \<and> H = hist a lo m' (a_dst a + int k)))"

definition runs :: "dargs \<Rightarrow> int \<Rightarrow> mem \<Rightarrow> dexit option \<Rightarrow> nat \<Rightarrow> byte list \<Rightarrow> bool" where
  "runs a lo m c i H \<longleftrightarrow> (\<exists>e r. c = Some e \<and> ref_run (rp a lo m) i H r \<and> dres a lo m e r)"

lemma dres_frame: "frame m m1 (a_dst a) (a_oend a) \<Longrightarrow> dres a lo m1 e r \<Longrightarrow> dres a lo m e r"
  by (auto simp: dres_def split: sum.splits intro: frame_trans)

lemma runs_step:
  assumes ok: "dec_ok a lo m" and ag: "agrees a lo m c (\<lambda>st. ref_step (rp a lo m) st i H)"
    and rest: "\<And>i' k' m'. \<lbrakk>dec_ok a lo m'; int k' \<le> a_outputSize a; i < i'; int i' < a_srcSize a\<rbrakk> \<Longrightarrow>
      runs a lo m' (safe_decode a (a_src a + int i', a_dst a + int k', m')) i' (hist a lo m' (a_dst a + int k'))"
  shows "runs a lo m (resume_safe a c) i H"
proof -
  from ag obtain r st where c: "c = Some r" and d: "dsim a lo m r (ref_step (rp a lo m) st i H)"
    by (auto simp: agrees_def)
  show ?thesis
  proof (cases "ref_step (rp a lo m) st i H")
    case (RCont i' H')
    then obtain k' m' where r: "r = Inl (a_src a + int i', a_dst a + int k', m')" "int k' \<le> a_outputSize a"
      and fr: "frame m m' (a_dst a) (a_oend a)" and H': "H' = hist a lo m' (a_dst a + int k')"
      using d by (auto simp: dsim_def)
    have P: "rp a lo m' = rp a lo m" using rp_frame [OF ok fr] by simp
    have "i < i'" "int i' < a_srcSize a"
      using ref_step_pos [OF RCont] dec_okD(2) [OF ok] unfolding length_src by linarith+
    then have "runs a lo m' (resume_safe a c) i' H'"
      using rest [OF dec_ok_frame [OF ok fr] r(2), of i'] c r(1) H' by (simp add: resume_safe_def)
    then show ?thesis
      using run_cont [OF RCont] P dres_frame [OF fr, of lo] unfolding runs_def by metis
  next
    case (RDone H')
    then show ?thesis
      using c d by (fastforce simp: runs_def dres_def dsim_def resume_safe_def intro: run_done [OF RDone])
  next
    case (RErr e)
    then show ?thesis
      using c d by (fastforce simp: runs_def dres_def dsim_def resume_safe_def intro: run_err [OF RErr])
  qed
qed

lemma safe_decode_step: "safe_decode a s = resume_safe a (safe_body a s)"
  unfolding safe_decode_def resume_safe_def
  by (subst cloop.simps) (auto split: option.splits sum.splits)

lemma safe_decode_ok:
  assumes "dec_ok a lo m" "int k \<le> a_outputSize a" "int i < a_srcSize a"
  shows "runs a lo m (safe_decode a (a_src a + int i, a_dst a + int k, m)) i (hist a lo m (a_dst a + int k))"
  using assms
proof (induction "nat (a_srcSize a) - i" arbitrary: i k m rule: less_induct)
  case less
  have "agrees a lo m (safe_body a (a_src a + int i, a_dst a + int k, m))
      (\<lambda>st. ref_step (rp a lo m) st i (hist a lo m (a_dst a + int k)))"
    using less.prems by (rule safe_body_ok)
  then show ?case
    unfolding safe_decode_step [of a "(a_src a + int i, a_dst a + int k, m)"]
  proof (rule runs_step [OF less.prems(1)])
    fix i' k' m' assume "dec_ok a lo m'" "int k' \<le> a_outputSize a" "i < i'" "int i' < a_srcSize a"
    then show "runs a lo m' (safe_decode a (a_src a + int i', a_dst a + int k', m')) i' (hist a lo m' (a_dst a + int k'))"
      by (intro less.hyps) auto
  qed
qed

definition fast_exit :: "dargs \<Rightarrow> fexit option \<Rightarrow> dexit option" where
  "fast_exit a x = do { e \<leftarrow> x; resume_safe a (fcont a (Inr e)) }"

lemma fast_decode_ok:
  assumes "dec_ok a lo m" "int k + 64 \<le> a_outputSize a" "int i < a_srcSize a"
  shows "runs a lo m (fast_exit a (cloop (fast_body a) (a_src a + int i, a_dst a + int k, m))) i
           (hist a lo m (a_dst a + int k))"
  using assms
proof (induction "nat (a_srcSize a) - i" arbitrary: i k m rule: less_induct)
  case less
  let ?s = "(a_src a + int i, a_dst a + int k, m)" let ?H = "hist a lo m (a_dst a + int k)"
  obtain r where b: "fast_body a ?s = Some r" and ag: "agrees a lo m (fcont a r) (\<lambda>st. ref_step (rp a lo m) st i ?H)"
    and far: "\<And>ip op m'. r = Inl (ip, op, m') \<Longrightarrow> op + 64 \<le> a_oend a"
    using fast_body_ok [OF less.prems] by (auto simp: fagrees_def)
  show ?case
  proof (cases r)
    case (Inr x)
    then have "fast_exit a (cloop (fast_body a) ?s) = resume_safe a (fcont a r)"
      using b by (simp add: fast_exit_def cloop_Inr)
    moreover have "runs a lo m (resume_safe a (fcont a r)) i ?H"
      by (rule runs_step [OF less.prems(1) ag]) (rule safe_decode_ok)
    ultimately show ?thesis by simp
  next
    case (Inl s)
    then obtain st where d: "dsim a lo m (Inl s) (ref_step (rp a lo m) st i ?H)"
      using ag by (auto simp: agrees_def fcont_def)
    then obtain i' H' where c: "ref_step (rp a lo m) st i ?H = RCont i' H'"
      by (auto simp: dsim_def split: rstep.splits)
    with d obtain k' m' where s: "s = (a_src a + int i', a_dst a + int k', m')"
      and fr: "frame m m' (a_dst a) (a_oend a)" and H': "H' = hist a lo m' (a_dst a + int k')"
      by (auto simp: dsim_def)
    have P: "rp a lo m' = rp a lo m" using rp_frame [OF less.prems(1) fr] by simp
    have i': "i < i'" "int i' < a_srcSize a"
      using ref_step_pos [OF c] dec_okD(2) [OF less.prems(1)] unfolding length_src by linarith+
    have "int k' + 64 \<le> a_outputSize a" using far Inl s by (simp add: a_oend_def)
    then have "runs a lo m' (fast_exit a (cloop (fast_body a) s)) i' H'"
      unfolding s H' using i' less.prems(3) by (intro less.hyps dec_ok_frame [OF less.prems(1) fr]) auto
    moreover have "cloop (fast_body a) ?s = cloop (fast_body a) s"
      using b Inl by (simp add: cloop_Inl)
    ultimately show ?thesis
      using run_cont [OF c] P dres_frame [OF fr, of lo] unfolding runs_def by metis
  qed
qed

lemma decode_loops_ok:
  assumes ok: "dec_ok a lo m" and n: "0 < a_srcSize a"
  shows "runs a lo m (decode_loops a (a_src a) (a_dst a) m) 0 (hist a lo m (a_dst a))"
proof (cases "a_oend a - a_dst a < FASTLOOP_SAFE_DISTANCE")
  case True
  then show ?thesis using safe_decode_ok [OF ok, of 0 0] n dec_okD(4) [OF ok] by (simp add: decode_loops_def)
next
  case False
  have "decode_loops a (a_src a) (a_dst a) m = fast_exit a (cloop (fast_body a) (a_src a, a_dst a, m))"
    using False by (auto simp: decode_loops_def fast_exit_def fcont_def resume_safe_def split: fexit.splits
        intro!: arg_cong2 [where f = Option.bind])
  then show ?thesis using fast_decode_ok [OF ok, of 0 0] False n by (simp add: a_oend_def)
qed

end
