(* ===== verification/Lz4_DecodeProps.thy ===== *)
theory Lz4_DecodeProps
  imports Lz4_DecodeLoops
begin

text \<open>
  What the generic decoder and \<open>LZ4_decompress_safe\<close> promise for arbitrary input bytes: they return,
  without undefined behaviour, having written only inside the output buffer, and what they return is
  determined by the reference parser.
\<close>

section \<open>The generic decoder\<close>

lemma history_grows:
  assumes "dec_ok a lo m" "0 \<le> k" shows "int (length (hist a lo m (a_dst a + k))) = int (r_base (rp a lo m)) + k"
  using length_hist [OF assms(1), of "a_dst a + k"] dec_okD(9,13) [OF assms(1)] assms(2) by (simp add: rp_def)

lemma generic_run:
  assumes ok: "dec_ok a lo m" and "0 < a_srcSize a" "0 < a_outputSize a"
  shows "\<exists>v m' r. LZ4_decompress_generic a m = Some (v, m') \<and> frame m m' (a_dst a) (a_oend a) \<and>
           ref_run (rp a lo m) 0 (hist a lo m (a_dst a)) r \<and>
           (case r of Inl p \<Rightarrow> v = - int p - 1 \<and> int p \<le> a_srcSize a
            | Inr H \<Rightarrow> 0 \<le> v \<and> v \<le> a_outputSize a \<and> v = int (length H) - int (r_base (rp a lo m)) \<and>
                hist a lo m' (a_dst a + v) = H)"
proof -
  obtain e r where e: "decode_loops a (a_src a) (a_dst a) m = Some e"
    and r: "ref_run (rp a lo m) 0 (hist a lo m (a_dst a)) r" and d: "dres a lo m e r"
    using decode_loops_ok [OF ok assms(2)] by (auto simp: runs_def)
  have src: "a_src a \<noteq> 0" using dec_okD(1) [OF ok] by simp
  have code: "LZ4_decompress_generic a m = Some (case e of
      Decoded op m \<Rightarrow> (s32 (op - a_dst a), m) | Output_error ip m \<Rightarrow> (s32 (- (ip - a_src a)) - 1, m))"
    using assms src e by (simp add: LZ4_decompress_generic_def LZ4_decompress_generic_from_def)
  show ?thesis
  proof (cases r)
    case (Inl p)
    then obtain m' where m': "e = Output_error (a_src a + int p) m'" "frame m m' (a_dst a) (a_oend a)"
      using d by (auto simp: dres_def)
    have "p \<le> length (r_src (rp a lo m))" using ref_run_err [OF r _ Inl] assms(2) by simp
    then have p: "int p \<le> a_srcSize a" using assms(2) by simp
    then have "s32 (- int p) = - int p" using dec_okD(3) [OF ok] by (intro s32_id) auto
    then show ?thesis using code m' r Inl p by (intro exI [of _ "- int p - 1"] exI [of _ m'] exI [of _ r]) simp
  next
    case (Inr H)
    then obtain k m' where m': "e = Decoded (a_dst a + int k) m'" "int k \<le> a_outputSize a"
      "frame m m' (a_dst a) (a_oend a)" "H = hist a lo m' (a_dst a + int k)"
      using d by (auto simp: dres_def)
    have "s32 (int k) = int k" using dec_okD(5) [OF ok] m'(2) by (intro s32_id) auto
    moreover have "rp a lo m' = rp a lo m" using rp_frame [OF ok m'(3)] by simp
    ultimately show ?thesis
      using code m' r Inr history_grows [OF dec_ok_frame [OF ok m'(3)], of "int k"]
      by (intro exI [of _ "int k"] exI [of _ m'] exI [of _ r]) simp
  qed
qed

text \<open>The two degenerate sizes.\<close>

lemma generic_empty:
  assumes ok: "dec_ok a lo m" and "a_srcSize a = 0 \<or> a_outputSize a = 0"
  shows "LZ4_decompress_generic a m =
     Some (if a_outputSize a = 0 \<and> (a_partial a \<or> a_srcSize a = 1 \<and> bytes m (a_src a) (a_iend a) = [0]) then 0 else - 1, m)"
proof -
  have src: "a_src a \<noteq> 0" using dec_okD(1) [OF ok] by simp
  have ne: "bytes m (a_src a) (a_src a + 1) \<noteq> []" by (simp flip: length_greater_0_conv)
  have "load8 m (a_src a) = Some (uint (hd (bytes m (a_src a) (a_iend a))))" "length (bytes m (a_src a) (a_iend a)) = 1"
    if "a_srcSize a = 1"
    using load8_bytes [OF dec_okD(10) [OF ok], of "a_src a"] that ne by (auto simp: a_iend_def hd_conv_nth)
  moreover have "(uint (hd bs) = 0) = (bs = [0])" if "length bs = 1" for bs :: "byte list"
    using that by (cases bs) (auto simp: unsigned_eq_0_iff)
  ultimately show ?thesis
    using assms(2) src by (auto simp: LZ4_decompress_generic_def LZ4_decompress_generic_from_def dest: dec_okD(2,4))
qed

lemma generic_total:
  assumes ok: "dec_ok a lo m"
  shows "\<exists>v m'. LZ4_decompress_generic a m = Some (v, m') \<and> frame m m' (a_dst a) (a_oend a) \<and>
           - a_srcSize a - 1 \<le> v \<and> v \<le> a_outputSize a"
proof (cases "0 < a_srcSize a \<and> 0 < a_outputSize a")
  case True
  then show ?thesis using generic_run [OF ok] by (fastforce split: sum.splits)
next
  case False
  then show ?thesis
    using generic_empty [OF ok] dec_okD(2,4) [OF ok] frame_refl by fastforce
qed

end
