(* ===== verification/Lz4_RefFormat.thy ===== *)
theory Lz4_RefFormat
  imports Lz4_RefDecode
begin

text \<open>
  The reference parser against the format: a block that it accepts is a series of sequences whose
  expansion is the output, and it accepts and expands every block that respects the end-of-block
  rules.
\<close>

section \<open>Lengths and tokens\<close>

lemma drop_Cons_nth: "i < length S \<Longrightarrow> drop i S = S ! i # drop (i + 1) S"
  by (simp add: Cons_nth_drop_Suc)

lemma drop_append_len: "drop i S = xs @ ys \<Longrightarrow> drop (i + length xs) S = ys"
  by (metis add.commute append_eq_conv_conj drop_drop)

lemma drop_len: "drop i S = xs \<Longrightarrow> i \<le> length S \<Longrightarrow> length S = i + length xs"
  by auto

lemma unat_small_byte: "n < 256 \<Longrightarrow> unat (word_of_nat n :: byte) = n"
  by (simp add: unat_of_nat)

lemma byte_of_unat [simp]: "word_of_nat (unat (b :: byte)) = b"
  by simp

lemma ref_ext_fwd:
  assumes "drop i S = ext_len x @ R" "k \<le> length R" "i \<le> length S"
  shows "ref_ext S k i acc = Inr (acc + x, i + length (ext_len x))"
  using assms
proof (induction x arbitrary: i acc rule: ext_len.induct)
  case (1 x)
  show ?case
  proof (cases "x < 255")
    case True
    then have e: "ext_len x = [word_of_nat x]" by (simp add: ext_len.simps)
    have len: "length S = i + 1 + length R" using drop_len [OF 1(2)] 1(4) e by simp
    have b: "S ! i = word_of_nat x" using 1(2) e drop_Cons_nth [of i S] len by simp
    have u: "unat (S ! i) = x" using b True by (simp add: unat_small_byte)
    then have "S ! i \<noteq> 255" using True by auto
    then show ?thesis using len 1(3) u e by (subst ref_ext.simps) simp
  next
    case False
    then have e: "ext_len x = 255 # ext_len (x - 255)" by (subst ext_len.simps) simp
    have len: "length S = i + 1 + length (ext_len (x - 255)) + length R" using drop_len [OF 1(2)] 1(4) e by simp
    have b: "S ! i = 255" "drop (i + 1) S = ext_len (x - 255) @ R" using 1(2) e drop_Cons_nth [of i S] len by simp_all
    have "ref_ext S k (i + 1) (acc + 255) = Inr (acc + 255 + (x - 255), i + 1 + length (ext_len (x - 255)))"
      using 1(1) [OF False b(2) 1(3)] len by simp
    moreover have "ref_ext S k i acc = ref_ext S k (i + 1) (acc + 255)"
      using len 1(3) b(1) by (subst ref_ext.simps) simp
    ultimately show ?thesis using False e by simp
  qed
qed

lemma ref_ext_bwd:
  assumes "ref_ext S k i acc = Inr (y, i')"
  shows "\<exists>x. y = acc + x \<and> drop i S = ext_len x @ drop i' S \<and> i' = i + length (ext_len x) \<and> i' + k \<le> length S"
  using assms
proof (induction S k i acc rule: ref_ext.induct)
  case (1 S k i acc)
  have len: "\<not> i + 1 + k > length S" using 1(2) by (subst (asm) ref_ext.simps) (auto split: if_splits)
  have d: "drop i S = S ! i # drop (i + 1) S" using len by (intro drop_Cons_nth) simp
  show ?case
  proof (cases "S ! i = 255")
    case True
    have "ref_ext S k (i + 1) (acc + 255) = Inr (y, i')"
      using 1(2) len True by (subst (asm) ref_ext.simps) simp
    then obtain x where x: "y = acc + 255 + x" "drop (i + 1) S = ext_len x @ drop i' S"
        "i' = i + 1 + length (ext_len x)" "i' + k \<le> length S"
      using 1(1) [OF len True] by blast
    have "ext_len (x + 255) = 255 # ext_len x" by (subst ext_len.simps) simp
    then show ?thesis using x d True by (intro exI [of _ "x + 255"]) simp
  next
    case False
    then have r: "y = acc + unat (S ! i)" "i' = i + 1"
      using 1(2) len by (subst (asm) ref_ext.simps, simp)+
    have "unat (S ! i) \<noteq> 255"
    proof
      assume "unat (S ! i) = 255"
      then have "S ! i = word_of_nat 255" by (metis byte_of_unat)
      then show False using False by simp
    qed
    then have "unat (S ! i) < 255" using unat_byte_le [of "S ! i"] by linarith
    then have "ext_len (unat (S ! i)) = [S ! i]" by (simp add: ext_len.simps)
    then show ?thesis using r d len by (intro exI [of _ "unat (S ! i)"]) simp
  qed
qed

lemma token_byte_parts:
  "unat (token_byte ll ml) div 16 = min ll 15" "unat (token_byte ll ml) mod 16 = min ml 15"
proof -
  have "unat (token_byte ll ml) = 16 * min ll 15 + min ml 15"
    unfolding token_byte_def by (intro unat_small_byte) simp
  then show "unat (token_byte ll ml) div 16 = min ll 15" "unat (token_byte ll ml) mod 16 = min ml 15" by simp_all
qed

lemma token_byte_of:
  assumes "min ll 15 = unat b div 16" "min ml 15 = unat b mod 16"
  shows "token_byte ll ml = b"
proof -
  have "16 * (unat b div 16) + unat b mod 16 = unat b" by simp
  then show ?thesis unfolding token_byte_def assms by simp
qed

lemma le16_at_bytes:
  assumes "drop i S = le16 n @ R" "n \<le> 65535" "i \<le> length S"
  shows "le16_at S i = n"
proof -
  have "length S = i + 2 + length R" using drop_len [OF assms(1,3)] by (simp add: le16_def)
  then have "S ! i = word_of_nat n" "S ! (i + 1) = word_of_nat (n div 256)"
    using assms(1) drop_Cons_nth [of i S] drop_Cons_nth [of "i + 1" S] by (simp_all add: le16_def)
  moreover have "n mod 256 + 256 * (n div 256) = n" by simp
  ultimately show ?thesis
    using assms(2) by (simp add: le16_at_def unat_of_nat)
qed

lemma le16_at_bwd:
  assumes "i + 2 \<le> length S"
  shows "drop i S = le16 (le16_at S i) @ drop (i + 2) S" "le16_at S i \<le> 65535"
proof -
  have "word_of_nat (le16_at S i) = S ! i"
  proof -
    have "unat (word_of_nat (le16_at S i) :: byte) = le16_at S i mod 256" by (simp add: unat_of_nat)
    also have "\<dots> = unat (S ! i)" by (simp add: le16_at_def)
    finally show ?thesis by (rule unsigned_word_eqI)
  qed
  moreover have "le16_at S i div 256 = unat (S ! (i + 1))" by (simp add: le16_at_def)
  ultimately show "drop i S = le16 (le16_at S i) @ drop (i + 2) S"
    using assms drop_Cons_nth [of i S] drop_Cons_nth [of "i + 1" S] by (simp add: le16_def)
  show "le16_at S i \<le> 65535"
    using unat_byte_le [of "S ! i"] unat_byte_le [of "S ! (i + 1)"] unfolding le16_at_def by linarith
qed

section \<open>Soundness: what is accepted is a series of sequences\<close>

lemma segment_drop: "i + n \<le> length S \<Longrightarrow> drop i S = segment S i n @ drop (i + n) S"
  by (metis add.commute append_take_drop_id drop_drop segment_def)

lemma ref_match_bwd:
  assumes "ref_match P st i H off ml = RCont i' H'" "\<not> r_partial P"
  shows "off \<le> length H \<and> i' = i \<and> H' = copy_match H off ml"
  using assms by (auto simp: ref_match_def Let_def split: if_splits)

lemma ref_ml_bwd:
  assumes c: "ref_ml P st i H off t = RCont i' H'" "\<not> r_partial P" and t: "t \<le> 15"
  shows "\<exists>ml. 4 \<le> ml \<and> min (ml - 4) 15 = t \<and> drop i (r_src P) = len_ext (ml - 4) @ drop i' (r_src P) \<and>
           off \<le> length H \<and> H' = copy_match H off ml"
proof (cases "t = 15")
  case False
  then have "ref_match P st i H off (t + 4) = RCont i' H'" using c(1) by (simp add: ref_ml_def)
  from ref_match_bwd [OF this c(2)] show ?thesis
    using False t by (intro exI [of _ "t + 4"]) (simp add: len_ext_def)
next
  case True
  with c(1) obtain x j where x: "ref_ext (r_src P) 4 i 0 = Inr (x, j)" and m: "ref_match P st j H off (x + 19) = RCont i' H'"
    by (auto simp: ref_ml_def split: sum.splits)
  have "drop i (r_src P) = ext_len x @ drop j (r_src P)" using ref_ext_bwd [OF x] by auto
  then show ?thesis
    using ref_match_bwd [OF m c(2)] True by (intro exI [of _ "x + 19"]) (simp add: len_ext_def)
qed

lemma ref_off_bwd:
  assumes c: "ref_off P st i H t = RCont i' H'" "\<not> r_partial P" and i: "i + 2 \<le> length (r_src P)"
  shows "\<exists>off ml. 4 \<le> ml \<and> off \<le> 65535 \<and> min (ml - 4) 15 = t mod 16 \<and>
           drop i (r_src P) = le16 off @ len_ext (ml - 4) @ drop i' (r_src P) \<and>
           off \<le> length H \<and> H' = copy_match H off ml"
proof -
  have "t mod 16 \<le> 15" using mod_less_divisor [of 16 t] by linarith
  then obtain ml where "4 \<le> ml" "min (ml - 4) 15 = t mod 16"
      "drop (i + 2) (r_src P) = len_ext (ml - 4) @ drop i' (r_src P)"
      "le16_at (r_src P) i \<le> length H" "H' = copy_match H (le16_at (r_src P) i) ml"
    using ref_ml_bwd [of P st "i + 2" H "le16_at (r_src P) i" "t mod 16" i' H'] c by (auto simp: ref_off_def)
  then show ?thesis using le16_at_bwd [OF i] by auto
qed

text \<open>One accepted step, from its literals on: a sequence or the last literals.\<close>

definition seq_from :: "rparams \<Rightarrow> nat \<Rightarrow> byte list \<Rightarrow> nat \<Rightarrow> nat \<Rightarrow> rstep \<Rightarrow> bool" where
  "seq_from P i H t ll r = (case r of
     RCont i' H' \<Rightarrow> (\<exists>ls off ml. length ls = ll \<and> min (ml - 4) 15 = t mod 16 \<and> seq_fits H (LSeq ls off ml) \<and>
        drop i (r_src P) = ls @ le16 off @ len_ext (ml - 4) @ drop i' (r_src P) \<and> H' = expand_seq H (LSeq ls off ml))
   | RDone H' \<Rightarrow> length (drop i (r_src P)) = ll \<and> i \<le> length (r_src P) \<and> H' = H @ drop i (r_src P)
   | RErr e \<Rightarrow> True)"

lemma no_done_full:
  "\<not> r_partial P \<Longrightarrow> ref_match P st i H off ml \<noteq> RDone H'"
  "\<not> r_partial P \<Longrightarrow> ref_ml P st i H off t \<noteq> RDone H'"
  "\<not> r_partial P \<Longrightarrow> ref_off P st i H t \<noteq> RDone H'"
  "\<not> r_partial P \<Longrightarrow> ref_short P st i H t \<noteq> RDone H'"
  by (auto simp: ref_match_def ref_ml_def ref_off_def ref_short_def Let_def split: if_splits sum.splits)

lemma ref_off_seq_cont:
  assumes "\<not> r_partial P" "i + ll + 2 \<le> length (r_src P)"
    "ref_off P st (i + ll) (H @ segment (r_src P) i ll) t = RCont i' H'"
  shows "seq_from P i H t ll (RCont i' H')"
proof -
  obtain off ml where o: "4 \<le> ml" "off \<le> 65535" "min (ml - 4) 15 = t mod 16"
      "drop (i + ll) (r_src P) = le16 off @ len_ext (ml - 4) @ drop i' (r_src P)"
      "off \<le> length (H @ segment (r_src P) i ll)" "H' = copy_match (H @ segment (r_src P) i ll) off ml"
    using ref_off_bwd [OF assms(3,1)] assms(2) by blast
  then show ?thesis
    using segment_drop [of i ll "r_src P"] assms(2)
    unfolding seq_from_def rstep.case
    by (intro exI [of _ "segment (r_src P) i ll"] exI [of _ off] exI [of _ ml]) auto
qed

lemma ref_off_seq:
  assumes "\<not> r_partial P" "i + ll + 2 \<le> length (r_src P)"
  shows "seq_from P i H t ll (ref_off P st (i + ll) (H @ segment (r_src P) i ll) t)"
proof (cases "ref_off P st (i + ll) (H @ segment (r_src P) i ll) t")
  case (RCont i' H')
  then show ?thesis using ref_off_seq_cont [OF assms RCont] by simp
next
  case (RDone H')
  then show ?thesis using no_done_full(3) [OF assms(1)] by blast
next
  case (RErr e)
  then show ?thesis by (simp add: seq_from_def)
qed

lemma ref_lits_seq:
  assumes full: "\<not> r_partial P" and i: "i \<le> length (r_src P)"
  shows "seq_from P i H t ll (ref_lits P st i H t ll)"
proof (cases "r_out P H + ll + 12 > r_cap P \<or> i + ll + 8 > length (r_src P)")
  case True
  then show ?thesis
    using full i by (auto simp: ref_lits_def Let_def seq_from_def segment_def)
next
  case False
  then have c: "ref_lits P st i H t ll = ref_off P st (i + ll) (H @ segment (r_src P) i ll) t"
    by (auto simp: ref_lits_def Let_def)
  then show ?thesis
    using ref_off_seq [OF full, of i ll H t st] False by simp
qed

lemma ref_short_seq:
  assumes full: "\<not> r_partial P" and i: "i + ll + 2 \<le> length (r_src P)"
  shows "seq_from P i H t ll (ref_short P st (i + ll) (H @ segment (r_src P) i ll) t)"
proof -
  let ?H = "H @ segment (r_src P) i ll" let ?off = "le16_at (r_src P) (i + ll)"
  show ?thesis
  proof (cases "t mod 16 \<noteq> 15 \<and> 8 \<le> ?off \<and> ?off \<le> length ?H - r_dl P")
    case True
    have lt: "t mod 16 < 15" using True mod_less_divisor [of 16 t] by linarith
    have "drop i (r_src P) = segment (r_src P) i ll @ le16 ?off @ drop (i + ll + 2) (r_src P)"
      using segment_drop [of i ll "r_src P"] le16_at_bwd [of "i + ll" "r_src P"] i by simp
    then have "seq_from P i H t ll (RCont (i + ll + 2) (copy_match ?H ?off (t mod 16 + 4)))"
      using le16_at_bwd [of "i + ll" "r_src P"] i True lt
      unfolding seq_from_def rstep.case
      by (intro exI [of _ "segment (r_src P) i ll"] exI [of _ ?off] exI [of _ "t mod 16 + 4"]) (auto simp: len_ext_def)
    then show ?thesis using True by (simp add: ref_short_def Let_def)
  next
    case False
    then have "ref_short P st (i + ll) ?H t = ref_off P st (i + ll) ?H t"
      by (auto simp: ref_short_def ref_off_def Let_def)
    then show ?thesis
      using ref_off_seq [OF full i, of H t st] by simp
  qed
qed

lemma seq_from_sequence:
  assumes s: "seq_from P j H (unat (r_src P ! i)) ll r" and i: "i < length (r_src P)"
    and hd: "drop i (r_src P) = r_src P ! i # len_ext ll @ drop j (r_src P)" "min ll 15 = unat (r_src P ! i) div 16"
  shows "case r of
       RCont i' H' \<Rightarrow> \<exists>q. seq_fits H q \<and> drop i (r_src P) = encode_seq q @ drop i' (r_src P) \<and> H' = expand_seq H q
     | RDone H' \<Rightarrow> \<exists>ls x. x \<le> 15 \<and> drop i (r_src P) = encode_tail x ls \<and> H' = H @ ls
     | RErr e \<Rightarrow> True"
proof (cases r)
  case (RCont i' H')
  with s obtain ls off ml where q: "length ls = ll" "min (ml - 4) 15 = unat (r_src P ! i) mod 16" "seq_fits H (LSeq ls off ml)"
    "drop j (r_src P) = ls @ le16 off @ len_ext (ml - 4) @ drop i' (r_src P)" "H' = expand_seq H (LSeq ls off ml)"
    by (auto simp: seq_from_def)
  have "token_byte (length ls) (ml - 4) = r_src P ! i" using q(1,2) hd(2) by (intro token_byte_of) auto
  then show ?thesis using RCont q hd by (auto intro!: exI [of _ "LSeq ls off ml"])
next
  case (RDone H')
  with s have d: "length (drop j (r_src P)) = ll" "H' = H @ drop j (r_src P)"
    by (auto simp: seq_from_def)
  let ?x = "unat (r_src P ! i) mod 16"
  have x: "?x \<le> 15" using mod_less_divisor [of 16 "unat (r_src P ! i)"] by linarith
  have "token_byte (length (drop j (r_src P))) ?x = r_src P ! i" using d(1) hd(2) x by (intro token_byte_of) auto
  then show ?thesis
    using RDone d hd(1) x by (auto simp: encode_tail_def intro!: exI [of _ "drop j (r_src P)"] exI [of _ ?x])
next
  case (RErr e)
  then show ?thesis by simp
qed

lemma ref_step_bwd:
  assumes full: "\<not> r_partial P" and i: "i < length (r_src P)"
  shows "case ref_step P st i H of
       RCont i' H' \<Rightarrow> \<exists>q. seq_fits H q \<and> drop i (r_src P) = encode_seq q @ drop i' (r_src P) \<and> H' = expand_seq H q
     | RDone H' \<Rightarrow> \<exists>ls x. x \<le> 15 \<and> drop i (r_src P) = encode_tail x ls \<and> H' = H @ ls
     | RErr e \<Rightarrow> True"
proof -
  let ?S = "r_src P" let ?t = "unat (?S ! i)" let ?ll = "?t div 16"
  have tl: "?ll \<le> 15" using unat_byte_less [of "?S ! i"] by linarith
  have d: "drop i ?S = ?S ! i # drop (i + 1) ?S" using i by (rule drop_Cons_nth)
  consider (short) "?ll \<noteq> 15" "i + 1 + 16 < length ?S" "r_out P H + 32 \<le> r_cap P"
    | (plain) "?ll \<noteq> 15" "\<not> (i + 1 + 16 < length ?S \<and> r_out P H + 32 \<le> r_cap P)"
    | (err) "?ll = 15" "i + 1 + 15 < length ?S \<longrightarrow> (\<forall>r. ref_ext ?S 15 (i + 1) 0 \<noteq> Inr r)"
    | (long) x j where "?ll = 15" "i + 1 + 15 < length ?S" "ref_ext ?S 15 (i + 1) 0 = Inr (x, j)"
    by (metis surj_pair)
  then show ?thesis
  proof cases
    case short
    then have r: "ref_step P st i H = ref_short P st (i + 1 + ?ll) (H @ segment ?S (i + 1) ?ll) ?t"
      by (simp add: ref_step_def Let_def)
    have "seq_from P (i + 1) H ?t ?ll (ref_step P st i H)"
      unfolding r using short tl by (intro ref_short_seq [OF full]) simp
    then show ?thesis
      using d short tl by (intro seq_from_sequence [OF _ i]) (auto simp: len_ext_def)
  next
    case plain
    then have r: "ref_step P st i H = ref_lits P st (i + 1) H ?t ?ll"
      by (auto simp: ref_step_def Let_def)
    have "seq_from P (i + 1) H ?t ?ll (ref_step P st i H)"
      unfolding r using i by (intro ref_lits_seq [OF full]) simp
    then show ?thesis
      using d plain tl by (intro seq_from_sequence [OF _ i]) (auto simp: len_ext_def)
  next
    case err
    then have "\<exists>e. ref_step P st i H = RErr e"
      by (cases "ref_ext ?S 15 (i + 1) 0") (auto simp: ref_step_def Let_def)
    then show ?thesis by auto
  next
    case long
    then have r: "ref_step P st i H = ref_lits P st j H ?t (15 + x)"
      by (simp add: ref_step_def Let_def)
    have b: "drop (i + 1) ?S = ext_len x @ drop j ?S" "j + 15 \<le> length ?S"
      using ref_ext_bwd [OF long(3)] by auto
    have "seq_from P j H ?t (15 + x) (ref_step P st i H)"
      unfolding r using b by (intro ref_lits_seq [OF full]) simp
    then show ?thesis
      using d b long(1) by (intro seq_from_sequence [OF _ i]) (auto simp: len_ext_def)
  qed
qed

theorem ref_loop_sound:
  assumes "\<not> r_partial P" "i < length (r_src P)" "ref_loop P st i H = Inr H'"
  shows "\<exists>qs ls x. x \<le> 15 \<and> seqs_fit H qs \<and> drop i (r_src P) = concat (map encode_seq qs) @ encode_tail x ls \<and>
           H' = expand H qs ls"
  using assms
proof (induction P st i H rule: ref_loop.induct)
  case (1 P st i H)
  note step = ref_step_bwd [OF 1(2,3), of H st]
  show ?case
  proof (cases "ref_step P st i H")
    case (RCont i' G)
    with step obtain q where q: "seq_fits H q" "drop i (r_src P) = encode_seq q @ drop i' (r_src P)" "G = expand_seq H q"
      by auto
    have "ref_loop P st i' G = Inr H'" using 1(4) RCont by (subst (asm) ref_loop.simps) simp
    then obtain qs ls x where r: "x \<le> 15" "seqs_fit G qs" "drop i' (r_src P) = concat (map encode_seq qs) @ encode_tail x ls"
        "H' = expand G qs ls"
      using 1(1) [OF RCont 1(2)] ref_step_pos [OF RCont] by blast
    show ?thesis
      using q r by (intro exI [of _ "q # qs"] exI [of _ ls] exI [of _ x]) (simp add: expand_def)
  next
    case (RDone G)
    have "H' = G" using 1(4) RDone by (subst (asm) ref_loop.simps) simp
    moreover obtain ls x where "x \<le> 15" "drop i (r_src P) = encode_tail x ls" "G = H @ ls" using step RDone by auto
    ultimately show ?thesis
      by (intro exI [of _ "[]"] exI [of _ ls] exI [of _ x]) (simp add: expand_def)
  next
    case (RErr e)
    then show ?thesis using 1(4) by (subst (asm) ref_loop.simps) simp
  qed
qed

section \<open>Completeness: one sequence\<close>

lemma segment_at: "drop i S = xs @ ys \<Longrightarrow> segment S i (length xs) = xs"
  by (simp add: segment_def)

lemma ref_ml_fwd:
  assumes "drop i (r_src P) = len_ext (ml - 4) @ R" "4 \<le> length R" "4 \<le> ml" "i \<le> length (r_src P)"
  shows "ref_ml P st i H off (min (ml - 4) 15) = ref_match P st (i + length (len_ext (ml - 4))) H off ml"
proof (cases "ml - 4 < 15")
  case True
  then show ?thesis using assms(3) by (simp add: ref_ml_def len_ext_def)
next
  case False
  then have "drop i (r_src P) = ext_len (ml - 19) @ R" using assms(1) by (simp add: len_ext_def)
  from ref_ext_fwd [OF this assms(2,4)] show ?thesis using False by (simp add: ref_ml_def len_ext_def)
qed

lemma ref_off_fwd:
  assumes "drop i (r_src P) = le16 off @ len_ext (ml - 4) @ R" "4 \<le> length R" "4 \<le> ml" "off \<le> 65535"
    "t mod 16 = min (ml - 4) 15" "i \<le> length (r_src P)"
  shows "ref_off P st i H t = ref_match P st (i + 2 + length (len_ext (ml - 4))) H off ml"
    and "le16_at (r_src P) i = off" and "i + 2 \<le> length (r_src P)"
proof -
  show o: "le16_at (r_src P) i = off" using le16_at_bytes [OF assms(1,4,6)] .
  have d: "drop (i + 2) (r_src P) = len_ext (ml - 4) @ R"
    using drop_append_len [OF assms(1)] by (simp add: le16_def)
  show l: "i + 2 \<le> length (r_src P)" using drop_len [OF assms(1,6)] by (simp add: le16_def)
  show "ref_off P st i H t = ref_match P st (i + 2 + length (len_ext (ml - 4))) H off ml"
    using ref_ml_fwd [OF d assms(2,3) l, of st H off] assms(5) o by (simp add: ref_off_def)
qed

lemma ref_lits_fwd:
  assumes "drop i (r_src P) = ls @ le16 off @ len_ext (ml - 4) @ R" "6 \<le> length R" "i \<le> length (r_src P)"
    "r_out P H + length ls + 12 \<le> r_cap P"
  shows "ref_lits P st i H t (length ls) = ref_off P st (i + length ls) (H @ ls) t"
  using assms drop_len [OF assms(1,3)] segment_at [OF assms(1)] by (simp add: ref_lits_def Let_def le16_def)

text \<open>The token and the length of the literals lead to the literals.\<close>

lemma ref_step_token:
  assumes d: "drop i (r_src P) = token_byte ll x # len_ext ll @ R" and len: "ll \<le> length R" and i: "i \<le> length (r_src P)"
  defines "j \<equiv> i + 1 + length (len_ext ll)" and "t \<equiv> unat (token_byte ll x)"
  shows "ref_step P st i H =
      (if ll < 15 \<and> j + 16 < length (r_src P) \<and> r_out P H + 32 \<le> r_cap P
       then ref_short P st (j + ll) (H @ segment (r_src P) j ll) t else ref_lits P st j H t ll)"
    and "drop j (r_src P) = R" and "j \<le> length (r_src P)"
proof -
  let ?S = "r_src P"
  have n: "length ?S = i + 1 + length (len_ext ll) + length R" using drop_len [OF d i] by simp
  then have il: "i < length ?S" by simp
  have s: "?S ! i = token_byte ll x" "drop (i + 1) ?S = len_ext ll @ R"
    using d drop_Cons_nth [OF il] by simp_all
  show "drop j ?S = R" using drop_append_len [OF s(2)] by (simp add: j_def)
  show "j \<le> length ?S" using n by (simp add: j_def)
  show "ref_step P st i H =
      (if ll < 15 \<and> j + 16 < length ?S \<and> r_out P H + 32 \<le> r_cap P
       then ref_short P st (j + ll) (H @ segment ?S j ll) t else ref_lits P st j H t ll)"
  proof (cases "ll < 15")
    case True
    then show ?thesis
      using token_byte_parts(1) [of ll x] s by (auto simp: ref_step_def Let_def j_def t_def len_ext_def)
  next
    case False
    then have "drop (i + 1) ?S = ext_len (ll - 15) @ R" using s by (simp add: len_ext_def)
    then have "ref_ext ?S 15 (i + 1) 0 = Inr (ll - 15, j)"
      using ref_ext_fwd [of "i + 1" ?S "ll - 15" R 15 0] len False il by (simp add: j_def len_ext_def)
    moreover have "i + 1 + 15 < length ?S"
    proof -
      have "0 < length (len_ext ll)" using False by (simp add: len_ext_def)
      then show ?thesis using n len False by linarith
    qed
    ultimately show ?thesis
      using token_byte_parts(1) [of ll x] s False by (simp add: ref_step_def Let_def t_def)
  qed
qed

lemma ref_short_fwd:
  assumes d: "drop i (r_src P) = le16 off @ len_ext (ml - 4) @ R" and "4 \<le> length R" "4 \<le> ml" "off \<le> 65535"
    and t: "t mod 16 = min (ml - 4) 15" and i: "i \<le> length (r_src P)"
  shows "ref_short P st i H t =
      (if ml < 19 \<and> 8 \<le> off \<and> off \<le> length H - r_dl P
       then RCont (i + 2 + length (len_ext (ml - 4))) (copy_match H off ml)
       else ref_off P st i H t)"
proof -
  have o: "le16_at (r_src P) i = off" using ref_off_fwd(2) [OF assms] .
  have "t mod 16 \<noteq> 15 \<longleftrightarrow> ml < 19" using t assms(3) by (auto simp: min_def)
  moreover have "t mod 16 + 4 = ml" "len_ext (ml - 4) = []" if "ml < 19"
    using t assms(3) that by (auto simp: len_ext_def)
  ultimately show ?thesis
    using o by (auto simp: ref_short_def ref_off_def Let_def)
qed

text \<open>What a sequence of the block needs for its literals and its match to be copied in full.\<close>

definition seq_room :: "rparams \<Rightarrow> byte list \<Rightarrow> lz4_seq \<Rightarrow> bool" where
  "seq_room P H q \<longleftrightarrow>
     (let k = r_out P H + length (seq_lits q) in
      k + 12 \<le> r_cap P \<and> k + seq_mlen q + (if r_partial P then 12 else 5) \<le> r_cap P)"

definition seq_at :: "rparams \<Rightarrow> nat \<Rightarrow> lz4_seq \<Rightarrow> bool" where
  "seq_at P i q \<longleftrightarrow>
     (\<exists>R. drop i (r_src P) = encode_seq q @ R \<and> 6 \<le> length R) \<and> i \<le> length (r_src P)"

text \<open>The step on a sequence: a choice of the short path, then the literals, then the match.\<close>

lemma ref_step_seq:
  assumes at: "seq_at P i (LSeq ls off ml)" and fit: "seq_fits H (LSeq ls off ml)" and base: "r_base P \<le> length H"
  defines "i' \<equiv> i + length (encode_seq (LSeq ls off ml))"
  shows "ref_step P st i H = RCont i' (expand_seq H (LSeq ls off ml)) \<and> r_out P H + length ls + ml \<le> r_cap P \<or>
         (\<exists>j t. ref_step P st i H = ref_lits P st j H t (length ls) \<and> j \<le> length (r_src P) \<and>
            (\<exists>R. drop j (r_src P) = ls @ le16 off @ len_ext (ml - 4) @ R \<and> 6 \<le> length R) \<and>
            ref_off P st (j + length ls) (H @ ls) t = ref_match P st i' (H @ ls) off ml) \<or>
         ref_step P st i H = ref_match P st i' (H @ ls) off ml \<and> r_out P H + length ls + 12 \<le> r_cap P"
proof -
  let ?S = "r_src P" let ?ll = "length ls"
  obtain R where R: "drop i ?S = token_byte ?ll (ml - 4) # len_ext ?ll @ ls @ le16 off @ len_ext (ml - 4) @ R" "6 \<le> length R"
    and i: "i \<le> length ?S" using at by (auto simp: seq_at_def)
  define j where "j = i + 1 + length (len_ext ?ll)"
  define t where "t = unat (token_byte ?ll (ml - 4))"
  have len: "?ll \<le> length (ls @ le16 off @ len_ext (ml - 4) @ R)" by simp
  note tok = ref_step_token [OF R(1) len i, folded j_def t_def]
  have seg: "segment ?S j ?ll = ls" using segment_at [OF tok(2)] .
  have jl: "drop (j + ?ll) ?S = le16 off @ len_ext (ml - 4) @ R" using drop_append_len [OF tok(2)] .
  have jln: "j + ?ll \<le> length ?S" using drop_len [OF tok(2,3)] by simp
  have t: "t mod 16 = min (ml - 4) 15" unfolding t_def by (rule token_byte_parts(2))
  have f: "4 \<le> ml" "off \<le> 65535" using fit by auto
  have R4: "4 \<le> length R" using R(2) by simp
  have i': "j + ?ll + 2 + length (len_ext (ml - 4)) = i'" by (simp add: i'_def j_def le16_def)
  note o = ref_off_fwd(1) [OF jl R4 f t jln, unfolded i']
  note sh = ref_short_fwd [OF jl R4 f t jln, unfolded i' o]
  show ?thesis
  proof (cases "?ll < 15 \<and> j + 16 < length ?S \<and> r_out P H + 32 \<le> r_cap P")
    case True
    then have r: "ref_step P st i H = ref_short P st (j + ?ll) (H @ ls) t" using tok(1) seg by simp
    show ?thesis
    proof (cases "ml < 19 \<and> 8 \<le> off \<and> off \<le> length (H @ ls) - r_dl P")
      case short: True
      then show ?thesis using True sh r by simp
    next
      case False
      then have "ref_step P st i H = ref_match P st i' (H @ ls) off ml" using sh r by auto
      then show ?thesis using True by simp
    qed
  next
    case False
    then have "ref_step P st i H = ref_lits P st j H t ?ll" using tok(1) by auto
    then show ?thesis using tok(2,3) R(2) o by blast
  qed
qed

lemma ref_step_room:
  assumes at: "seq_at P i q" and fit: "seq_fits H q" and base: "r_base P \<le> length H" and room: "seq_room P H q"
  shows "ref_step P st i H = RCont (i + length (encode_seq q)) (expand_seq H q)"
proof -
  obtain ls off ml where q: "q = LSeq ls off ml" by (cases q)
  have out: "r_out P (H @ ls) = r_out P H + length ls" using base by (simp add: r_out_def)
  have m: "ref_match P st i' (H @ ls) off ml = RCont i' (expand_seq H q)" for i'
    using fit room out unfolding q by (auto simp: ref_match_def Let_def seq_room_def split: if_splits)
  have l: "ref_lits P st j H t (length ls) = ref_off P st (j + length ls) (H @ ls) t"
    if "drop j (r_src P) = ls @ le16 off @ len_ext (ml - 4) @ R" "6 \<le> length R" "j \<le> length (r_src P)" for j t R
    using ref_lits_fwd [OF that] room unfolding q by (simp add: seq_room_def Let_def)
  show ?thesis
    using ref_step_seq [OF at [unfolded q] fit [unfolded q] base, of st] l m unfolding q by auto
qed

section \<open>Completeness: blocks\<close>

definition total_len :: "lz4_seq list \<Rightarrow> byte list \<Rightarrow> nat" where
  "total_len qs ls = (\<Sum>q\<leftarrow>qs. length (seq_lits q) + seq_mlen q) + length ls"

lemma length_expand: "length (expand H qs ls) = length H + total_len qs ls"
  by (induction qs arbitrary: H) (auto simp: expand_def total_len_def)

lemma expand_Cons: "expand H (q # qs) ls = expand (expand_seq H q) qs ls"
  by (simp add: expand_def)

lemma seq_fits_mlen: "seq_fits h q \<Longrightarrow> 4 \<le> seq_mlen q"
  by (cases q) auto

lemma seqs_ok_fit: "seqs_ok h qs \<Longrightarrow> seqs_fit h qs"
proof (induction h qs rule: seqs_ok.induct)
  case (2 h q qs)
  then show ?case by (cases q) auto
qed simp

lemma block_end_Cons: "block_end_ok (q # qs) ls \<Longrightarrow> block_end_ok qs ls"
  by (auto simp: block_end_ok_def split: if_splits)

text \<open>The end rules bound what follows every match.\<close>

lemma block_end_bounds:
  "block_end_ok (q # qs) ls \<Longrightarrow> seqs_fit h (q # qs) \<Longrightarrow> 12 \<le> seq_mlen q + total_len qs ls \<and> 5 \<le> total_len qs ls"
proof (induction qs arbitrary: q h)
  case Nil
  then show ?case by (simp add: block_end_ok_def total_len_def)
next
  case (Cons q' qs)
  have "block_end_ok (q' # qs) ls" using Cons.prems(1) by (rule block_end_Cons)
  then have "12 \<le> seq_mlen q' + total_len qs ls" using Cons.IH Cons.prems(2) by auto
  then show ?case by (simp add: total_len_def)
qed

lemma encode_block_Cons: "encode_block (q # qs) ls = encode_seq q @ encode_block qs ls"
  by (simp add: encode_block_def)

lemma encode_seq_min: "3 \<le> length (encode_seq q)"
  by (cases q) (simp add: le16_def)

lemma encode_block_min: "5 \<le> length ls \<Longrightarrow> 6 \<le> length (encode_block qs ls)"
  using encode_seq_min by (cases qs) (auto simp: encode_block_def encode_last_def)

lemma block_seq_at:
  assumes "drop i (r_src P) = encode_block (q # qs) ls" "block_end_ok (q # qs) ls" "i \<le> length (r_src P)"
  shows "seq_at P i q" "drop (i + length (encode_seq q)) (r_src P) = encode_block qs ls"
    "i + length (encode_seq q) \<le> length (r_src P)"
proof -
  have l: "5 \<le> length ls" using assms(2) by (simp add: block_end_ok_def)
  have d: "drop i (r_src P) = encode_seq q @ encode_block qs ls" using assms(1) by (simp add: encode_block_Cons)
  show "seq_at P i q" using d assms(3) encode_block_min [OF l] by (auto simp: seq_at_def)
  show "drop (i + length (encode_seq q)) (r_src P) = encode_block qs ls" using drop_append_len [OF d] .
  show "i + length (encode_seq q) \<le> length (r_src P)" using drop_len [OF d assms(3)] by simp
qed

text \<open>The last literals, cut off at the capacity in partial mode.\<close>

lemma ref_step_last:
  assumes d: "drop i (r_src P) = encode_tail x ls" and i: "i \<le> length (r_src P)"
    and fit: "r_out P H + length ls \<le> r_cap P \<or> r_partial P" and out: "r_out P H \<le> r_cap P"
  shows "ref_step P st i H = RDone (H @ take (r_cap P - r_out P H) ls)"
proof -
  define j where "j = i + 1 + length (len_ext (length ls))"
  note tok = ref_step_token [OF d [unfolded encode_tail_def] order_refl i, folded j_def]
  have n: "length (r_src P) = j + length ls" using drop_len [OF tok(2,3)] .
  have seg: "segment (r_src P) j l = take l ls" for l using tok(2) by (simp add: segment_def)
  have "ref_step P st i H = ref_lits P st j H (unat (token_byte (length ls) x)) (length ls)"
    using tok(1) n by auto
  also have "\<dots> = RDone (H @ take (r_cap P - r_out P H) ls)"
  proof (cases "r_partial P")
    case True
    have "min (length ls) (r_cap P - r_out P H) = r_cap P - r_out P H \<or> min (length ls) (r_cap P - r_out P H) = length ls"
      by linarith
    then show ?thesis
      using True n out seg by (auto simp: ref_lits_def Let_def min_def)
  next
    case False
    then show ?thesis using n seg fit by (simp add: ref_lits_def Let_def)
  qed
  finally show ?thesis .
qed

theorem ref_loop_complete:
  assumes "\<not> r_partial P" "drop i (r_src P) = encode_block qs ls" "i \<le> length (r_src P)"
    "seqs_fit H qs" "block_end_ok qs ls" "r_out P H + total_len qs ls \<le> r_cap P" "r_base P \<le> length H"
  shows "ref_loop P st i H = Inr (expand H qs ls)"
  using assms
proof (induction qs arbitrary: i H)
  case Nil
  then have "drop i (r_src P) = encode_tail 0 ls" by (simp add: encode_block_def encode_last_def encode_tail_def)
  then have "ref_step P st i H = RDone (H @ take (r_cap P - r_out P H) ls)"
    using Nil by (intro ref_step_last) (auto simp: total_len_def)
  then show ?case
    using Nil by (subst ref_loop.simps) (simp add: expand_def total_len_def)
next
  case (Cons q qs)
  note at = block_seq_at [OF Cons.prems(2,5,3)]
  note bounds = block_end_bounds [OF Cons.prems(5,4)]
  have fit: "seq_fits H q" using Cons.prems(4) by simp
  have tot: "total_len (q # qs) ls = length (seq_lits q) + seq_mlen q + total_len qs ls" by (simp add: total_len_def)
  have "seq_room P H q"
    using bounds Cons.prems(1,6) tot by (simp add: seq_room_def Let_def)
  from ref_step_room [OF at(1) fit Cons.prems(7) this]
  have step: "ref_step P st i H = RCont (i + length (encode_seq q)) (expand_seq H q)" .
  have out: "r_out P (expand_seq H q) = r_out P H + length (seq_lits q) + seq_mlen q"
    using Cons.prems(7) by (simp add: r_out_def)
  have "ref_loop P st (i + length (encode_seq q)) (expand_seq H q) = Inr (expand (expand_seq H q) qs ls)"
    using Cons.prems at(2,3) out tot by (intro Cons.IH block_end_Cons [OF Cons.prems(5)]) auto
  then show ?case
    using step by (subst ref_loop.simps) (simp add: expand_Cons)
qed

section \<open>Partial decoding\<close>

lemma take_copy_match:
  assumes "n \<le> ml" shows "take (length h + n) (copy_match h off ml) = copy_match h off n"
proof -
  have "take (length (copy_match h off n)) (copy_match (copy_match h off n) off (ml - n)) = copy_match h off n"
    by (rule copy_match_prefix)
  moreover have "copy_match (copy_match h off n) off (ml - n) = copy_match h off ml"
    using assms copy_match_add [of h off n "ml - n"] by simp
  ultimately show ?thesis by simp
qed

lemma take_expand_seq: "n \<le> length ls \<Longrightarrow> take (length H + n) (expand_seq H (LSeq ls off ml)) = H @ take n ls"
proof -
  assume n: "n \<le> length ls"
  have "take (length H + n) (copy_match (H @ ls) off ml) = take (length H + n) (take (length (H @ ls)) (copy_match (H @ ls) off ml))"
    using n by simp
  also have "\<dots> = H @ take n ls" by (simp only: copy_match_prefix) simp
  finally show ?thesis by simp
qed

text \<open>A step in partial mode, without an external dictionary: the whole sequence, or the capacity is full.\<close>

lemma ref_match_partial:
  assumes "r_partial P" "r_dl P = 0" "0 < off" "off \<le> length h" "r_base P \<le> length h" "r_out P h \<le> r_cap P"
  shows "ref_match P st i h off ml = RCont i (copy_match h off ml) \<and> r_out P h + ml \<le> r_cap P \<or>
         ref_match P st i h off ml = RDone (take (r_base P + r_cap P) (copy_match h off ml)) \<and> r_cap P \<le> r_out P h + ml"
proof (cases "r_out P h + ml < r_cap P")
  case True
  then show ?thesis using assms by (auto simp: ref_match_def Let_def)
next
  case False
  define n where "n = r_cap P - r_out P h"
  have n: "r_base P + r_cap P = length h + n" "min ml n = n" "r_out P h + n = r_cap P"
    using assms False by (auto simp: n_def r_out_def)
  then show ?thesis
    using assms False take_copy_match [of n ml h off] by (auto simp: ref_match_def Let_def n_def [symmetric])
qed

lemma ref_step_partial:
  assumes at: "seq_at P i q" and fit: "seq_ok H q" and base: "r_base P \<le> length H"
    and part: "r_partial P" "r_dl P = 0" and out: "r_out P H \<le> r_cap P"
  defines "tot_out \<equiv> r_out P H + length (seq_lits q) + seq_mlen q"
  shows "ref_step P st i H = RCont (i + length (encode_seq q)) (expand_seq H q) \<and> tot_out \<le> r_cap P \<or>
         ref_step P st i H = RDone (take (r_base P + r_cap P) (expand_seq H q)) \<and> r_cap P \<le> tot_out"
proof -
  obtain ls off ml where q: "q = LSeq ls off ml" by (cases q)
  define i' where "i' = i + length (encode_seq q)"
  have f: "seq_fits H (LSeq ls off ml)" "0 < off" "off \<le> length (H @ ls)" using fit q by auto
  have o: "r_out P (H @ ls) = r_out P H + length ls" "r_base P \<le> length (H @ ls)" using base by (auto simp: r_out_def)
  have tot: "tot_out = r_out P (H @ ls) + ml" by (simp add: tot_out_def q o)
  let ?goal = "\<lambda>r. r = RCont i' (expand_seq H q) \<and> tot_out \<le> r_cap P \<or>
      r = RDone (take (r_base P + r_cap P) (expand_seq H q)) \<and> r_cap P \<le> tot_out"
  have m: "?goal (ref_match P st i' (H @ ls) off ml)" if "r_out P (H @ ls) \<le> r_cap P"
    using ref_match_partial [OF part f(2,3) o(2) that, of st i' ml] tot q by simp
  have l: "?goal (ref_lits P st j H t (length ls))"
    if j: "drop j (r_src P) = ls @ le16 off @ len_ext (ml - 4) @ R" "6 \<le> length R" "j \<le> length (r_src P)"
      and r: "ref_off P st (j + length ls) (H @ ls) t = ref_match P st i' (H @ ls) off ml" for j t R
  proof (cases "r_out P H + length ls < r_cap P")
    case True
    have n: "j + length ls + 8 \<le> length (r_src P)" using drop_len [OF j(1,3)] j(2) by (simp add: le16_def)
    have "min (min (length ls) (length (r_src P) - j)) (r_cap P - r_out P H) = length ls" using True n by simp
    then have "ref_lits P st j H t (length ls) = ref_off P st (j + length ls) (H @ ls) t"
      using True part(1) n segment_at [OF j(1)] by (simp add: ref_lits_def Let_def)
    then show ?thesis using m o r True by simp
  next
    case False
    define n where "n = r_cap P - r_out P H"
    have n: "n \<le> length ls" "r_out P H + n = r_cap P" "r_base P + r_cap P = length H + n"
      using False out base by (auto simp: n_def r_out_def)
    have len: "length ls \<le> length (r_src P) - j" using drop_len [OF j(1,3)] by simp
    have seg: "segment (r_src P) j n = take n ls" using j(1) n(1) by (simp add: segment_def)
    have "min (min (length ls) (length (r_src P) - j)) (r_cap P - r_out P H) = n"
      using n(1) len by (simp add: n_def)
    then have "ref_lits P st j H t (length ls) = RDone (H @ take n ls)"
      using False part(1) n(2) seg by (simp add: ref_lits_def Let_def)
    then show ?thesis using take_expand_seq [OF n(1), of H off ml] n False by (simp add: q tot_out_def)
  qed
  from ref_step_seq [OF at [unfolded q] f(1) base, of st] have "?goal (ref_step P st i H)"
  proof (elim disjE exE conjE)
    assume "ref_step P st i H = RCont (i + length (encode_seq (LSeq ls off ml))) (expand_seq H (LSeq ls off ml))"
      "r_out P H + length ls + ml \<le> r_cap P"
    then show ?thesis by (simp add: tot_out_def q i'_def)
  next
    fix j t R assume r: "ref_step P st i H = ref_lits P st j H t (length ls)" and j: "j \<le> length (r_src P)"
      "drop j (r_src P) = ls @ le16 off @ len_ext (ml - 4) @ R" "6 \<le> length R"
      and o: "ref_off P st (j + length ls) (H @ ls) t = ref_match P st (i + length (encode_seq (LSeq ls off ml))) (H @ ls) off ml"
    show ?thesis unfolding r by (rule l [OF j(2,3,1)]) (use o in \<open>simp only: i'_def q\<close>)
  next
    assume r: "ref_step P st i H = ref_match P st (i + length (encode_seq (LSeq ls off ml))) (H @ ls) off ml"
      and room: "r_out P H + length ls + 12 \<le> r_cap P"
    show ?thesis using m o(1) r room unfolding i'_def q by simp
  qed
  then show ?thesis by (simp only: i'_def)
qed

lemma take_expand: "n \<le> length G \<Longrightarrow> take n (expand G qs ls) = take n G"
proof (induction qs arbitrary: G)
  case Nil
  then show ?case by (simp add: expand_def)
next
  case (Cons q qs)
  have "take (length G) (expand_seq G q) = G"
    using take_expand_seq [of 0 "seq_lits q" G "seq_off q" "seq_mlen q"] by simp
  then have "take n (expand_seq G q) = take n G"
    using Cons.prems by (metis min.absorb1 take_take)
  then show ?case using Cons by (simp add: expand_Cons)
qed

theorem ref_run_partial:
  assumes "ref_run P i H r" "drop i (r_src P) = encode_block qs ls" "i \<le> length (r_src P)"
    "seqs_ok H qs" "block_end_ok qs ls" "r_partial P" "r_dl P = 0" "r_base P \<le> length H" "r_out P H \<le> r_cap P"
  shows "r = Inr (take (r_base P + r_cap P) (expand H qs ls))"
  using assms
proof (induction qs arbitrary: i H)
  case Nil
  then have "drop i (r_src P) = encode_tail 0 ls" by (simp add: encode_block_def encode_last_def encode_tail_def)
  then have "ref_step P st i H = RDone (H @ take (r_cap P - r_out P H) ls)" for st
    using Nil by (intro ref_step_last) auto
  moreover have "r_base P + r_cap P = length H + (r_cap P - r_out P H)" using Nil by (simp add: r_out_def)
  ultimately show ?case using Nil(1) by (auto elim: ref_run.cases simp: expand_def)
next
  case (Cons q qs)
  note at = block_seq_at [OF Cons.prems(2,5,3)]
  have ok: "seq_ok H q" "seqs_ok (expand_seq H q) qs" using Cons.prems(4) by auto
  let ?i = "i + length (encode_seq q)" let ?E = "expand_seq H q"
  have out: "r_out P ?E = r_out P H + length (seq_lits q) + seq_mlen q" "r_base P \<le> length ?E"
    using Cons.prems(8) by (auto simp: r_out_def)
  note step = ref_step_partial [OF at(1) ok(1) Cons.prems(8,6,7,9)]
  have whole: "take (r_base P + r_cap P) (expand H (q # qs) ls) = take (r_base P + r_cap P) ?E" if "r_cap P \<le> r_out P ?E"
  proof -
    have "r_base P + r_cap P \<le> length ?E" using that out(2) unfolding r_out_def by linarith
    then show ?thesis unfolding expand_Cons by (rule take_expand)
  qed
  from Cons.prems(1) show ?case
  proof cases
    case (run_cont st i1 H1)
    then have "i1 = ?i" "H1 = ?E" "r_out P ?E \<le> r_cap P" using step [of st] out by auto
    then show ?thesis
      unfolding expand_Cons
      using Cons.IH [OF _ at(2,3) ok(2) block_end_Cons [OF Cons.prems(5)] Cons.prems(6,7) out(2)] run_cont(2) by blast
  next
    case (run_done st H1)
    then show ?thesis using step [of st] whole out by auto
  next
    case (run_err st e)
    then show ?thesis using step [of st] by auto
  qed
qed

end
