(* ===== verification/Lz4_DecodeSpec.thy ===== *)
theory Lz4_DecodeSpec
  imports Lz4_DecodeProps Lz4_RefFormat Lz4_DecodeApi
begin

text \<open>
  The properties of the decoder's entry points: safety for arbitrary input, agreement with the
  reference parser, soundness and completeness for the block format, partial decoding, dictionaries,
  streaming and the assembler path. The lemmas are about the generic decoder; the numbered properties
  instantiate them.
\<close>

section \<open>Blocks of the format\<close>

lemma rp_out0: "dec_ok a lo m \<Longrightarrow> r_out (rp a lo m) (hist a lo m (a_dst a)) = 0"
  using r_out_at [of a lo m m 0] by simp

lemma rp_base0: "dec_ok a lo m \<Longrightarrow> r_base (rp a lo m) = length (hist a lo m (a_dst a))"
  using history_grows [of a lo m 0] by simp

lemma generic_run_loop:
  assumes "dec_ok a lo m" "0 < a_srcSize a" "0 < a_outputSize a" "\<not> a_partial a"
  shows "\<exists>v m'. LZ4_decompress_generic a m = Some (v, m') \<and> frame m m' (a_dst a) (a_oend a) \<and>
     (case ref_loop (rp a lo m) [] 0 (hist a lo m (a_dst a)) of
        Inl p \<Rightarrow> v = - int p - 1
      | Inr H \<Rightarrow> 0 \<le> v \<and> v \<le> a_outputSize a \<and> v = int (length H) - int (r_base (rp a lo m)) \<and> hist a lo m' (a_dst a + v) = H)"
proof -
  obtain v m' r where "LZ4_decompress_generic a m = Some (v, m')" "frame m m' (a_dst a) (a_oend a)"
    "ref_run (rp a lo m) 0 (hist a lo m (a_dst a)) r"
    "case r of Inl p \<Rightarrow> v = - int p - 1 \<and> int p \<le> a_srcSize a
      | Inr H \<Rightarrow> 0 \<le> v \<and> v \<le> a_outputSize a \<and> v = int (length H) - int (r_base (rp a lo m)) \<and> hist a lo m' (a_dst a + v) = H"
    using generic_run [OF assms(1-3)] by blast
  moreover have "r = ref_loop (rp a lo m) [] 0 (hist a lo m (a_dst a))"
    using ref_run_full calculation(3) assms(4) by simp
  ultimately show ?thesis by (auto split: sum.splits)
qed

lemma encode_block_nonempty: "encode_block qs ls \<noteq> []"
  by (cases qs) (auto simp: encode_block_def encode_last_def)

lemma encode_block_empty: "(encode_block qs ls = [0]) = (qs = [] \<and> ls = [])"
proof (cases qs)
  case (Cons q qs')
  have "1 < length (encode_block qs ls)"
    using encode_seq_min [of q] by (simp add: Cons encode_block_Cons)
  then show ?thesis using Cons by auto
next
  case Nil
  then show ?thesis
    by (cases ls) (auto simp: encode_block_def encode_last_def token_byte_def len_ext_def)
qed

text \<open>Every block of the format whose output fits is decoded to its expansion.\<close>

lemma generic_complete:
  assumes ok: "dec_ok a lo m" and full: "\<not> a_partial a"
    and blk: "bytes m (a_src a) (a_iend a) = encode_block qs ls"
    and wf: "seqs_fit (hist a lo m (a_dst a)) qs" "block_end_ok qs ls"
    and room: "int (total_len qs ls) \<le> a_outputSize a"
  shows "\<exists>m'. LZ4_decompress_generic a m = Some (int (total_len qs ls), m') \<and> frame m m' (a_dst a) (a_oend a) \<and>
     hist a lo m' (a_dst a + int (total_len qs ls)) = expand (hist a lo m (a_dst a)) qs ls"
proof -
  let ?P = "rp a lo m" let ?H = "hist a lo m (a_dst a)"
  have src: "r_src ?P = encode_block qs ls" using blk by (simp add: a_iend_def)
  have "length (encode_block qs ls) = nat (a_srcSize a)" using blk by (metis length_bytes a_iend_def add_diff_cancel_left')
  then have n: "0 < a_srcSize a" using encode_block_nonempty [of qs ls] by (cases "0 < a_srcSize a") auto
  show ?thesis
  proof (cases "a_outputSize a = 0")
    case True
    then have z: "qs = [] \<and> ls = []"
    proof (cases qs)
      case (Cons q qs')
      then have "4 \<le> seq_mlen q" using wf(1) by (auto intro: seq_fits_mlen)
      then show ?thesis using room True Cons by (simp add: total_len_def)
    qed (use room True in \<open>simp add: total_len_def\<close>)
    then have b: "bytes m (a_src a) (a_iend a) = [0]" using blk encode_block_empty by simp
    have "length (bytes m (a_src a) (a_iend a)) = 1" using b by simp
    then have "a_srcSize a = 1" using n by (simp add: a_iend_def)
    then show ?thesis
      using generic_empty [OF ok] True b z frame_refl by (auto simp: total_len_def expand_def)
  next
    case False
    then have cap: "0 < a_outputSize a" using dec_okD(4) [OF ok] by simp
    have "ref_loop ?P [] 0 ?H = Inr (expand ?H qs ls)"
      using full src wf room rp_out0 [OF ok] rp_base0 [OF ok] cap_less(2) [OF ok]
      by (intro ref_loop_complete) auto
    then show ?thesis
      using generic_run_loop [OF ok n cap full] rp_base0 [OF ok] by (auto simp: length_expand)
  qed
qed

text \<open>Whatever is accepted is a series of sequences, and the output is its expansion.\<close>

lemma generic_sound:
  assumes ok: "dec_ok a lo m" and full: "\<not> a_partial a" and c: "LZ4_decompress_generic a m = Some (v, m')" and v: "0 \<le> v"
  shows "\<exists>qs ls x. x \<le> 15 \<and> bytes m (a_src a) (a_iend a) = concat (map encode_seq qs) @ encode_tail x ls \<and>
     seqs_fit (hist a lo m (a_dst a)) qs \<and> v = int (total_len qs ls) \<and>
     hist a lo m' (a_dst a + v) = expand (hist a lo m (a_dst a)) qs ls"
proof (cases "0 < a_srcSize a \<and> 0 < a_outputSize a")
  case False
  then have z: "a_srcSize a = 0 \<or> a_outputSize a = 0" using dec_okD(2,4) [OF ok] by linarith
  then have b: "bytes m (a_src a) (a_iend a) = [0]" "v = 0" "m' = m"
    using generic_empty [OF ok z] c v full by (auto split: if_splits)
  then show ?thesis
    by (intro exI [of _ "[]"] exI [of _ 0]) (simp add: encode_tail_def token_byte_def len_ext_def total_len_def expand_def)
next
  case True
  let ?P = "rp a lo m" let ?H = "hist a lo m (a_dst a)"
  obtain H where H: "ref_loop ?P [] 0 ?H = Inr H" "v = int (length H) - int (r_base ?P)" "hist a lo m' (a_dst a + v) = H"
    using generic_run_loop [OF ok _ _ full] True c v by (auto split: sum.splits)
  obtain qs ls x where q: "x \<le> 15" "seqs_fit ?H qs" "drop 0 (r_src ?P) = concat (map encode_seq qs) @ encode_tail x ls"
    "H = expand ?H qs ls"
    using ref_loop_sound [OF _ _ H(1)] full True by auto
  then show ?thesis
    using H rp_base0 [OF ok] by (intro exI [of _ qs] exI [of _ ls] exI [of _ x]) (auto simp: length_expand a_iend_def)
qed

text \<open>Partial decoding of a block of the format gives a prefix of its expansion.\<close>

lemma generic_partial:
  assumes ok: "dec_ok a lo m" and part: "a_partial a" and dl: "a_dictSize a = 0"
    and blk: "bytes m (a_src a) (a_iend a) = encode_block qs ls"
    and wf: "seqs_ok (hist a lo m (a_dst a)) qs" "block_end_ok qs ls"
  defines "n \<equiv> min (a_outputSize a) (int (total_len qs ls))"
  shows "\<exists>m'. LZ4_decompress_generic a m = Some (n, m') \<and> frame m m' (a_dst a) (a_oend a) \<and>
     hist a lo m' (a_dst a + n) = take (length (hist a lo m (a_dst a)) + nat n) (expand (hist a lo m (a_dst a)) qs ls)"
proof -
  let ?P = "rp a lo m" let ?H = "hist a lo m (a_dst a)"
  have src: "r_src ?P = encode_block qs ls" using blk by (simp add: a_iend_def)
  have "length (encode_block qs ls) = nat (a_srcSize a)" using blk by (metis length_bytes a_iend_def add_diff_cancel_left')
  then have pos: "0 < a_srcSize a" using encode_block_nonempty [of qs ls] by (cases "0 < a_srcSize a") auto
  show ?thesis
  proof (cases "a_outputSize a = 0")
    case True
    have "take (length ?H) (expand ?H qs ls) = ?H" using take_expand [of "length ?H" ?H qs ls] by simp
    then show ?thesis
      using generic_empty [OF ok] True part frame_refl by (auto simp: n_def)
  next
    case False
    then have cap: "0 < a_outputSize a" using dec_okD(4) [OF ok] by simp
    obtain v m' r where r: "LZ4_decompress_generic a m = Some (v, m')" "frame m m' (a_dst a) (a_oend a)" "ref_run ?P 0 ?H r"
      "case r of Inl p \<Rightarrow> v = - int p - 1 \<and> int p \<le> a_srcSize a
        | Inr H \<Rightarrow> 0 \<le> v \<and> v \<le> a_outputSize a \<and> v = int (length H) - int (r_base ?P) \<and> hist a lo m' (a_dst a + v) = H"
      using generic_run [OF ok pos cap] by blast
    have "r = Inr (take (r_base ?P + r_cap ?P) (expand ?H qs ls))"
      using src wf part dl rp_base0 [OF ok] rp_out0 [OF ok] by (intro ref_run_partial [OF r(3)]) auto
    moreover have "r_base ?P + r_cap ?P = length ?H + nat (a_outputSize a)" using rp_base0 [OF ok] by simp
    moreover have "take (length ?H + nat (a_outputSize a)) (expand ?H qs ls) = take (length ?H + nat n) (expand ?H qs ls)"
      using cap by (auto simp: n_def min_def length_expand)
    moreover have "v = n" using r(4) calculation(1,2) rp_base0 [OF ok] cap by (auto simp: n_def length_expand)
    ultimately show ?thesis using r(1,2,4) by auto
  qed
qed

section \<open>The contract of the full-block decoders\<close>

text \<open>
  Source and destination buffers as every caller must provide them: mapped, apart from each other, of
  \<open>int\<close> size, below the last \<open>2 ^ 40\<close> addresses.
\<close>

definition buffers_ok :: "mem \<Rightarrow> int \<Rightarrow> int \<Rightarrow> int \<Rightarrow> int \<Rightarrow> bool" where
  "buffers_ok m s n d cap \<longleftrightarrow>
     0 < s \<and> 0 \<le> n \<and> n < 2 ^ 31 \<and> 0 \<le> d \<and> 0 \<le> cap \<and> cap < 2 ^ 31 \<and> s + n + 2 ^ 40 \<le> 2 ^ 64 \<and> d + cap + 2 ^ 40 \<le> 2 ^ 64 \<and>
     mapped m s (s + n) \<and> mapped m d (d + cap) \<and> (s + n \<le> d \<or> d + cap \<le> s)"

definition full_call :: "mem \<Rightarrow> int \<Rightarrow> int \<Rightarrow> int \<Rightarrow> int \<Rightarrow> byte list \<Rightarrow> (int \<times> mem) option \<Rightarrow> bool" where
  "full_call m s n d cap D c \<longleftrightarrow>
     (\<exists>a lo. c = LZ4_decompress_generic a m \<and> dec_ok a lo m \<and> \<not> a_partial a \<and> a_src a = s \<and> a_srcSize a = n \<and>
        a_dst a = d \<and> a_outputSize a = cap \<and> hist a lo m d = D)"

lemma hist_split:
  assumes "dec_ok a lo m" "frame m m' (a_dst a) (a_oend a)" "0 \<le> v"
  shows "hist a lo m' (a_dst a + v) = hist a lo m (a_dst a) @ bytes m' (a_dst a) (a_dst a + v)"
  using hist_append [of lo "a_dst a" "a_dst a + v" a m'] hist_frame [OF assms(1,2), of "a_dst a"] dec_okD(9) [OF assms(1)] assms(3)
  by simp

text \<open>
  The interface of a decoder of full blocks: \<open>ready\<close> is what the caller must provide, the history \<open>D\<close>
  included, and a call is then a call of the generic decoder on that history.
\<close>

locale full_decoder =
  fixes decode :: "mem \<Rightarrow> int \<Rightarrow> int \<Rightarrow> int \<Rightarrow> int \<Rightarrow> (int \<times> mem) option"
    and ready :: "mem \<Rightarrow> int \<Rightarrow> int \<Rightarrow> int \<Rightarrow> int \<Rightarrow> byte list \<Rightarrow> bool"
  assumes call: "ready m s n d cap D \<Longrightarrow> full_call m s n d cap D (decode m s n d cap)"
begin

lemma total:
  assumes "ready m s n d cap D"
  shows "\<exists>v m'. decode m s n d cap = Some (v, m') \<and> frame m m' d (d + cap) \<and> - n - 1 \<le> v \<and> v \<le> cap"
  using call [OF assms] generic_total by (fastforce simp: full_call_def a_oend_def)

lemma complete:
  assumes "ready m s n d cap D" and blk: "bytes m s (s + n) = encode_block qs ls"
    and wf: "seqs_fit D qs" "block_end_ok qs ls" and room: "int (total_len qs ls) \<le> cap"
  shows "\<exists>m'. decode m s n d cap = Some (int (total_len qs ls), m') \<and> frame m m' d (d + cap) \<and>
     D @ bytes m' d (d + int (total_len qs ls)) = expand D qs ls"
proof -
  obtain a lo where a: "decode m s n d cap = LZ4_decompress_generic a m" "dec_ok a lo m" "\<not> a_partial a"
    "a_src a = s" "a_srcSize a = n" "a_dst a = d" "a_outputSize a = cap" "hist a lo m d = D"
    using call [OF assms(1)] by (auto simp: full_call_def)
  have "bytes m (a_src a) (a_iend a) = encode_block qs ls" using blk a by (simp add: a_iend_def)
  from generic_complete [OF a(2,3) this] wf room a
  obtain m' where m': "decode m s n d cap = Some (int (total_len qs ls), m')" "frame m m' (a_dst a) (a_oend a)"
    "hist a lo m' (a_dst a + int (total_len qs ls)) = expand D qs ls" by auto
  then show ?thesis
    using hist_split [OF a(2) m'(2)] a by (auto simp: a_oend_def)
qed

lemma sound:
  assumes "ready m s n d cap D" "decode m s n d cap = Some (v, m')" "0 \<le> v"
  shows "\<exists>qs ls x. x \<le> 15 \<and> bytes m s (s + n) = concat (map encode_seq qs) @ encode_tail x ls \<and>
     seqs_fit D qs \<and> v = int (total_len qs ls) \<and> D @ bytes m' d (d + v) = expand D qs ls"
proof -
  obtain a lo where a: "decode m s n d cap = LZ4_decompress_generic a m" "dec_ok a lo m" "\<not> a_partial a"
    "a_src a = s" "a_srcSize a = n" "a_dst a = d" "a_outputSize a = cap" "hist a lo m d = D"
    using call [OF assms(1)] by (auto simp: full_call_def)
  have fr: "frame m m' (a_dst a) (a_oend a)" using generic_total [OF a(2)] assms(2) a(1) by auto
  have "LZ4_decompress_generic a m = Some (v, m')" using a(1) assms(2) by simp
  from generic_sound [OF a(2,3) this assms(3)] show ?thesis
    using hist_split [OF a(2) fr assms(3)] a(4-8) by (simp add: a_iend_def)
qed

end

text \<open>No history: the plain decoder.\<close>

definition no_history :: "mem \<Rightarrow> int \<Rightarrow> int \<Rightarrow> int \<Rightarrow> int \<Rightarrow> byte list \<Rightarrow> bool" where
  "no_history m s n d cap D \<longleftrightarrow> buffers_ok m s n d cap \<and> D = []"

lemma full_callI:
  assumes "c = LZ4_decompress_generic a m" "dec_ok a lo m" "\<not> a_partial a" "a_src a = s" "a_srcSize a = n"
    "a_dst a = d" "a_outputSize a = cap" "hist a lo m d = D"
  shows "full_call m s n d cap D c"
  using assms unfolding full_call_def by blast

lemma LZ4_decompress_safe_call:
  "no_history m s n d cap D \<Longrightarrow> full_call m s n d cap D (LZ4_decompress_safe m s d n cap)"
  by (rule full_callI [OF LZ4_decompress_safe_def, where lo = d]) (auto simp: no_history_def buffers_ok_def dec_ok_def a_iend_def a_oend_def hist_def a_partial_def)

interpretation safe_dec: full_decoder "\<lambda>m s n d cap. LZ4_decompress_safe m s d n cap" no_history
  by unfold_locales (rule LZ4_decompress_safe_call)

text \<open>
  A dictionary of at least one byte, in front of the output or elsewhere: the choice of the instance
  by \<open>LZ4_decompress_safe_usingDict\<close> does not change the history.
\<close>

definition dict_history :: "int \<Rightarrow> int \<Rightarrow> mem \<Rightarrow> int \<Rightarrow> int \<Rightarrow> int \<Rightarrow> int \<Rightarrow> byte list \<Rightarrow> bool" where
  "dict_history dict len m s n d cap D \<longleftrightarrow>
     buffers_ok m s n d cap \<and> 0 < dict \<and> 0 \<le> len \<and> len < 2 ^ 31 \<and> mapped m dict (dict + len) \<and>
     (dict + len \<le> d \<or> d + cap \<le> dict) \<and> D = bytes m dict (dict + len)"

lemma usingDict_call:
  assumes "dict_history dict len m s n d cap D"
  shows "full_call m s n d cap D (LZ4_decompress_safe_usingDict m s d n cap dict len)"
proof -
  note h = assms [unfolded dict_history_def buffers_ok_def]
  consider "len = 0" | "0 < len" "dict + len = d" "65535 \<le> len" | "0 < len" "dict + len = d" "len < 65535"
    | "0 < len" "dict + len \<noteq> d" using h by linarith
  then show ?thesis
  proof cases
    case 1
    then show ?thesis
      using LZ4_decompress_safe_call [of m s n d cap D] assms
      by (simp add: LZ4_decompress_safe_usingDict_def dict_history_def no_history_def)
  next
    case 2
    have mp: "mapped m dict (d + cap)" using h 2 mapped_join [of m dict d "d + cap"] by simp
    have c: "LZ4_decompress_safe_usingDict m s d n cap dict len = LZ4_decompress_safe_withPrefix64k m s d n cap"
      using 2 h by (simp add: LZ4_decompress_safe_usingDict_def u64_id)
    show ?thesis
      unfolding c
      using 2 h mp by (intro full_callI [OF LZ4_decompress_safe_withPrefix64k_def, where lo = dict])
        (auto simp: dec_ok_def a_iend_def a_oend_def hist_def a_partial_def)
  next
    case 3
    have mp: "mapped m dict (d + cap)" using h 3 mapped_join [of m dict d "d + cap"] by simp
    have c: "LZ4_decompress_safe_usingDict m s d n cap dict len = LZ4_decompress_safe_withSmallPrefix m s d n cap len"
      using 3 h by (simp add: LZ4_decompress_safe_usingDict_def u64_id)
    show ?thesis
      unfolding c
      using 3 h mp by (intro full_callI [OF LZ4_decompress_safe_withSmallPrefix_def, where lo = dict])
        (auto simp: dec_ok_def a_iend_def a_oend_def hist_def a_partial_def u64_id)
  next
    case 4
    have c: "LZ4_decompress_safe_usingDict m s d n cap dict len = LZ4_decompress_safe_forceExtDict m s d n cap dict len"
      using 4 h by (simp add: LZ4_decompress_safe_usingDict_def u64_id)
    show ?thesis
      unfolding c
      using 4 h by (intro full_callI [OF LZ4_decompress_safe_forceExtDict_def, where lo = d])
        (auto simp: dec_ok_def a_iend_def a_oend_def hist_def a_partial_def u64_id)
  qed
qed

interpretation dict_dec: full_decoder
  "\<lambda>m s n d cap. LZ4_decompress_safe_usingDict m s d n cap dict len" "dict_history dict len" for dict len
  by unfold_locales (rule usingDict_call)

end
