(* ===== verification/Lz4_UnsafeProofs.thy ===== *)
theory Lz4_UnsafeProofs
  imports Lz4_Unsafe Lz4_DecodeSpec
begin

text \<open>
  The unsafe decoder on well-formed blocks: told the exact size of the output, it decodes every block
  that respects the end-of-block rules to its expansion and returns the size of the block.
\<close>

section \<open>Its buffers\<close>

text \<open>The memory layout is described as for the safe decoder, by the arguments of a call on the same buffers.\<close>

definition unsafe_call :: "uargs \<Rightarrow> dargs \<Rightarrow> int \<Rightarrow> bool" where
  "unsafe_call u a lo \<longleftrightarrow>
     u_istart u = a_src a \<and> u_ostart u = a_dst a \<and> u_decompressedSize u = a_outputSize a \<and>
     u_prefixStart u = lo \<and> u_dictStart u = a_dictStart a \<and> u_dictSize u = a_dictSize a \<and> a_dictSize a < 2 ^ 32"

lemma unsafe_callD:
  assumes "unsafe_call u a lo"
  shows "u_istart u = a_src a" "u_oend u = a_dst a + a_outputSize a" "u_prefixStart u = lo"
    "u_dictStart u = a_dictStart a" "u_dictSize u = a_dictSize a" "a_dictSize a < 4294967296"
  using assms by (auto simp: unsafe_call_def u_oend_def)

lemma room_left:
  assumes "unsafe_call u a lo" "dec_ok a lo m" "int k \<le> a_outputSize a"
  shows "u64 (u_oend u - (a_dst a + int k)) = a_outputSize a - int k"
  using unsafe_callD [OF assms(1)] dec_okD [OF assms(2)] assms(3) by (simp add: u64_id)

section \<open>Lengths\<close>

lemma read_long_ok:
  assumes ok: "dec_ok a lo m" and d: "drop i (r_src (rp a lo m)) = ext_len x @ R"
    and i: "i \<le> length (r_src (rp a lo m))" and x: "acc + x < 4294967296"
  shows "cloop (read_long_length_body m) (a_src a + int i, int acc) =
     Some (int (acc + x), a_src a + int (i + length (ext_len x)))"
  using d i x
proof (induction x arbitrary: i acc rule: ext_len.induct)
  case (1 x)
  let ?S = "r_src (rp a lo m)"
  have e0: "ext_len x = (if x < 255 then [word_of_nat x] else 255 # ext_len (x - 255))" by (rule ext_len.simps)
  have len: "i < length ?S" using drop_len [OF 1(2,3)] e0 by (simp split: if_splits)
  have ld: "load8 m (a_src a + int i) = Some (uint (?S ! i))" using len by (intro src_at [OF ok]) simp
  have d1: "drop i ?S = ?S ! i # drop (i + 1) ?S" using drop_Cons_nth [OF len] .
  show ?case
  proof (cases "x < 255")
    case True
    have e: "ext_len x = [word_of_nat x]" using e0 True by simp
    have b: "?S ! i = word_of_nat x" using 1(2) d1 e by simp
    have u: "uint (?S ! i) = int x" unfolding b uint_nat using True unat_small_byte [of x] by simp
    have "u64 (int acc + int x) = int (acc + x)" using 1(4) by (simp add: u64_id)
    then have "read_long_length_body m (a_src a + int i, int acc) = Some (Inr (int (acc + x), a_src a + int (i + 1)))"
      using ld u True by simp
    then show ?thesis using e by (simp add: cloop_Inr)
  next
    case False
    have e: "ext_len x = 255 # ext_len (x - 255)" using e0 False by simp
    have b: "?S ! i = 255" "drop (i + 1) ?S = ext_len (x - 255) @ R" using 1(2) d1 e by simp_all
    have "u64 (int acc + 255) = int (acc + 255)" using 1(4) False by (simp add: u64_id)
    then have "read_long_length_body m (a_src a + int i, int acc) = Some (Inl (a_src a + int (i + 1), int (acc + 255)))"
      using ld b by simp
    moreover have "cloop (read_long_length_body m) (a_src a + int (i + 1), int (acc + 255)) =
        Some (int (acc + 255 + (x - 255)), a_src a + int (i + 1 + length (ext_len (x - 255))))"
      using 1(4) False len by (intro 1(1) [OF False b(2)]) auto
    ultimately show ?thesis using e False by (simp only: cloop_Inl) simp
  qed
qed

lemma extend_length_ok:
  assumes ok: "dec_ok a lo m" and d: "drop i (r_src (rp a lo m)) = len_ext n @ R"
    and i: "i \<le> length (r_src (rp a lo m))" and n: "n < 4294967296"
  shows "extend_length m (int (min n 15)) (a_src a + int i) = Some (int n, a_src a + int (i + length (len_ext n)))"
proof (cases "n < 15")
  case True
  then show ?thesis by (simp add: extend_length_def len_ext_def)
next
  case False
  have "cloop (read_long_length_body m) (a_src a + int i, int 0) =
      Some (int (0 + (n - 15)), a_src a + int (i + length (ext_len (n - 15))))"
    using False d i n by (intro read_long_ok [OF ok]) (auto simp: len_ext_def)
  moreover have "u64 (15 + int (n - 15)) = int n" using False n by (simp add: u64_id)
  ultimately show ?thesis using False by (simp add: extend_length_def read_long_length_no_check_def len_ext_def)
qed

section \<open>Copies\<close>

lemma unsafe_copy_copies: "cloop (unsafe_copy_body op mtch ml) (u, m) = copy_bytes m (op + u) (mtch + u) (op + ml)"
proof (induction "nat (ml - u)" arbitrary: u m rule: less_induct)
  case less
  show ?case
  proof (cases "u < ml")
    case True
    show ?thesis
    proof (cases "copy_byte m (op + u) (mtch + u)")
      case None
      then have "unsafe_copy_body op mtch ml (u, m) = None" using True
        by (auto simp: copy_byte_def split: option.splits bind_splits)
      then show ?thesis
        using None True by (simp add: copy_bytes_def cloop.simps [of "unsafe_copy_body op mtch ml"] cloop.simps [of "copy_bytes_body (op + ml)"])
    next
      case (Some m1)
      then have "unsafe_copy_body op mtch ml (u, m) = Some (Inl (u + 1, m1))" using True
        by (auto simp: copy_byte_def split: bind_splits)
      moreover have "copy_bytes_body (op + ml) (op + u, mtch + u, m) = Some (Inl (op + u + 1, mtch + u + 1, m1))"
        using Some True by simp
      moreover have "cloop (unsafe_copy_body op mtch ml) (u + 1, m1) = copy_bytes m1 (op + (u + 1)) (mtch + (u + 1)) (op + ml)"
        using True by (intro less) simp
      ultimately show ?thesis by (simp add: copy_bytes_def cloop_Inl algebra_simps)
    qed
  next
    case False
    then show ?thesis by (simp add: copy_bytes_none cloop_Inr)
  qed
qed

text \<open>Behind a first part copied from the dictionary, the rest is copied from the start of the prefix.\<close>

lemma rest_from_prefix:
  assumes ok: "dec_ok a lo m" and op: "a_dst a \<le> op" "op + int n \<le> a_oend a" and kn: "k \<le> n"
    and off: "off = int k + (op - lo)" "0 < k"
    and f1: "frame m m1 op (op + int k)"
    and h1: "hist a lo m1 (op + int k) = copy_match (hist a lo m op) (nat off) k"
  shows "\<exists>m2. copy_bytes m1 (op + int k) lo (op + int n) = Some m2 \<and> frame m m2 op (op + int n) \<and>
     hist a lo m2 (op + int n) = copy_match (hist a lo m op) (nat off) n"
proof -
  let ?op = "op + int k" let ?e = "op + int n"
  note B = dec_okD(8,9,11) [OF ok]
  have mp: "mapped m1 lo (a_oend a)" using B(3) frame_mapped [OF f1] by (simp add: a_oend_def)
  obtain m2 where m2: "copy_bytes m1 ?op lo ?e = Some m2" and c2: "lz_copied m1 m2 ?op lo ?e ?e"
    using copy_bytes_ok [of ?op ?e lo m1] kn off op B mapped_sub [OF mp, of lo "lo + (?e - ?op)"]
      mapped_sub [OF mp, of ?op ?e] by auto
  have ok1: "dec_ok a lo m1" using dec_ok_frame [OF ok f1] .
  have off_eq: "?op - off = lo" using off by simp
  have pos: "0 < off" "int (nat off) = off" using off op B by auto
  have "lz_match m1 m2 ?op (int (nat off)) (?op + int (n - k)) ?e"
    using lz_match_copied [of m1 m2 ?op off ?e ?e] c2 kn pos by (simp add: off_eq of_nat_diff)
  then have "hist a lo m2 (?op + int (n - k)) = copy_match (hist a lo m1 ?op) (nat off) (n - k)"
    using hist_match [OF ok1, of m2 ?op "nat off" "n - k" ?e] op B off kn by simp
  then have "hist a lo m2 ?e = copy_match (hist a lo m op) (nat off) n"
    using h1 copy_match_add [of "hist a lo m op" "nat off" k "n - k"] kn by (simp add: of_nat_diff)
  moreover have "frame m m2 op ?e"
    using frame_trans [OF frame_widen [OF f1, of op ?e] frame_widen [OF lz_copied_frame [OF c2], of op ?e]] kn by simp
  ultimately show ?thesis using m2 by blast
qed

section \<open>Literals\<close>

lemma unsafe_literals_ok:
  assumes ok: "dec_ok a lo m" and u: "unsafe_call u a lo"
    and d: "drop i (r_src (rp a lo m)) = len_ext (length ls) @ ls @ R" and i: "i \<le> length (r_src (rp a lo m))"
    and t: "t div 16 = min (length ls) 15" and room: "int (k + length ls) \<le> a_outputSize a"
  defines "j \<equiv> i + length (len_ext (length ls)) + length ls"
  shows "\<exists>m'. frame m m' (a_dst a) (a_oend a) \<and>
     hist a lo m' (a_dst a + int (k + length ls)) = hist a lo m (a_dst a + int k) @ ls \<and>
     unsafe_literals u (int t) (a_src a + int i) (a_dst a + int k) m =
       Some (if a_outputSize a - int (k + length ls) < 12
             then if int (k + length ls) = a_outputSize a then Inr (int j, m') else Inr (- 1, m')
             else Inl (a_src a + int j, a_dst a + int (k + length ls), m'))"
proof -
  let ?S = "r_src (rp a lo m)" let ?op = "a_dst a + int k" let ?n = "length ls"
  define j0 where "j0 = i + length (len_ext ?n)"
  note B = dec_okD(2-11) [OF ok]
  have tok: "drop_bit ML_BITS (int t) = int (min ?n 15)" using t by (simp add: drop_4)
  have n: "?n < 4294967296" using room B by linarith
  have ext: "extend_length m (int (min ?n 15)) (a_src a + int i) = Some (int ?n, a_src a + int j0)"
    using extend_length_ok [OF ok d i n] by (simp add: j0_def)
  have dj: "drop j0 ?S = ls @ R" unfolding j0_def using drop_append_len [OF d] .
  have lenS: "length ?S = j0 + ?n + length R" using drop_len [OF d i] by (simp add: j0_def)
  then have fit: "int j0 + int ?n \<le> a_srcSize a" unfolding length_src using B by linarith
  let ?s = "a_src a + int j0"
  have ms: "mapped m ?s (?s + int ?n)" using fit by (intro mapped_sub [OF B(9)]) auto
  have md: "mapped m ?op (?op + int ?n)" using room B by (intro mapped_sub [OF B(10)]) auto
  define m' where "m' = blit m ?op ?s (int ?n)"
  have mv: "memmove m ?op ?s (int ?n) = Some m'" unfolding m'_def using memmove_Some [OF _ ms md] by simp
  have fr: "frame m m' ?op (?op + int ?n)" unfolding m'_def by (rule frame_blit [OF ms md]) auto
  have new: "bytes m' ?op (?op + int ?n) = bytes m ?s (?s + int ?n)"
    by (rule nth_equalityI) (auto simp: nth_bytes blit_def m'_def)
  have "hist a lo m' (?op + int ?n) = hist a lo m ?op @ segment ?S j0 ?n"
    using room fit by (intro hist_lits [OF ok fr _ _ new]) (auto simp: a_oend_def)
  then have H: "hist a lo m' (a_dst a + int (k + ?n)) = hist a lo m ?op @ ls"
    using segment_at [OF dj] by (simp add: add.assoc)
  have left: "u64 (u_oend u - ?op) = a_outputSize a - int k"
    "u64 (u_oend u - (?op + int ?n)) = a_outputSize a - int (k + ?n)"
    using room_left [OF u ok, of k] room_left [OF u ok room] room by (simp_all add: add.assoc)
  have e: "?op + int ?n = u_oend u \<longleftrightarrow> int (k + ?n) = a_outputSize a" using unsafe_callD(2) [OF u] by auto
  have "s32 (int j) = int j" using fit B by (intro s32_id) (auto simp: j_def j0_def)
  then have ret: "s32 (?s + int ?n - u_istart u) = int j" using unsafe_callD(1) [OF u] by (simp add: j_def j0_def add.assoc)
  have "unsafe_literals u (int t) (a_src a + int i) ?op m =
       Some (if a_outputSize a - int (k + ?n) < 12
             then if int (k + ?n) = a_outputSize a then Inr (int j, m') else Inr (- 1, m')
             else Inl (a_src a + int j, a_dst a + int (k + ?n), m'))"
  proof -
    have lt: "\<not> a_outputSize a - int k < int ?n" using room by auto
    have at: "?s + int ?n = a_src a + int j" "?op + int ?n = a_dst a + int (k + ?n)" by (simp_all add: j_def j0_def)
    show ?thesis
      using left ret e unfolding unsafe_literals_def Let_def at
      by (simp only: tok ext mv lt at if_False prod.case Option.bind.bind_lunit MFLIMIT_def if_distrib [of Some] refl cong: if_cong)
  qed
  moreover have "frame m m' (a_dst a) (a_oend a)"
    using room by (intro frame_widen [OF fr]) (auto simp: a_oend_def)
  ultimately show ?thesis using H by blast
qed

section \<open>Matches\<close>

lemma unsafe_copy_ok:
  assumes ok: "dec_ok a lo m" and u: "unsafe_call u a lo" and off: "0 < off" "off \<le> 65535"
    and H: "off \<le> length (hist a lo m (a_dst a + int k))" and room: "int (k + ml) \<le> a_outputSize a"
  shows "\<exists>m1 m2 s l e. unsafe_source u (int off) (int ml) (a_dst a + int k) m = Some (s, l, e, m1) \<and>
     cloop (unsafe_copy_body e s l) (0, m1) = Some m2 \<and> e + l = a_dst a + int (k + ml) \<and>
     frame m m2 (a_dst a) (a_oend a) \<and>
     hist a lo m2 (a_dst a + int (k + ml)) = copy_match (hist a lo m (a_dst a + int k)) off ml"
proof -
  let ?op = "a_dst a + int k"
  note B = dec_okD(4-9,11) [OF ok] and U = unsafe_callD [OF u]
  have op: "a_dst a \<le> ?op" "?op + int ml \<le> a_oend a" using room by (auto simp: a_oend_def)
  have len: "int off \<le> a_dictSize a + (?op - lo)" using H length_hist [OF ok op(1)] by linarith
  have w: "u64 (?op - lo) = ?op - lo" using B room by (intro u64_id) auto
  have e: "?op + int ml = a_dst a + int (k + ml)" by simp
  have widen: "frame m m2 ?op (?op + int ml) \<Longrightarrow> frame m m2 (a_dst a) (a_oend a)" for m2
    using op by (elim frame_widen) auto
  show ?thesis
  proof (cases "int off > ?op - lo")
    case False
    have mp: "mapped m (?op - int off) (?op + int ml)"
      using False op B by (intro mapped_sub [OF B(7)]) (auto simp: a_oend_def)
    obtain m2 where m2: "copy_bytes m ?op (?op - int off) (?op + int ml) = Some m2"
      and c: "lz_copied m m2 ?op (?op - int off) (?op + int ml) (?op + int ml)"
      using copy_bytes_ok [of ?op "?op + int ml" "?op - int off" m] off
        mapped_sub [OF mp, of "?op - int off" "?op - int off + int ml"] mapped_sub [OF mp, of ?op "?op + int ml"]
      by auto
    have "hist a lo m2 (?op + int ml) = copy_match (hist a lo m ?op) off ml"
      using False op off by (intro hist_match [OF ok lz_match_copied [OF c]]) auto
    moreover have "unsafe_source u (int off) (int ml) ?op m = Some (?op - int off, int ml, ?op, m)"
      using False U(3) w by (simp add: unsafe_source_def)
    moreover have "cloop (unsafe_copy_body ?op (?op - int off) (int ml)) (0, m) = Some m2"
      using m2 by (simp add: unsafe_copy_copies)
    ultimately show ?thesis using widen [OF lz_copied_frame [OF c]] e by metis
  next
    case True
    define x where "x = nat (int off - (?op - lo))"
    have x: "int x = int off - (?op - lo)" "0 < x" using True by (auto simp: x_def)
    have xw: "u64 (int x) = int x" using x off op B by (intro u64_id) auto
    have code: "unsafe_source u (int off) (int ml) ?op m =
        (if int x > int ml
         then do { m \<leftarrow> memmove m ?op (a_dictStart a + a_dictSize a - int x) (int ml); Some (lo, 0, ?op + int ml, m) }
         else do { m \<leftarrow> memmove m ?op (a_dictStart a + a_dictSize a - int x) (int x); Some (lo, int ml - int x, ?op + int x, m) })"
    proof -
      have "int off > u64 (?op - lo)" "int off - u64 (?op - lo) = int x" "D - (D - int x) = int x" for D
        using True x(1) w by auto
      then show ?thesis unfolding unsafe_source_def Let_def U(3-5) by (simp only: if_True xw)
    qed
    show ?thesis
    proof (cases "ml < x")
      case T: True
      obtain m2 where m2: "memmove m ?op (a_dictStart a + a_dictSize a - int x) (int ml) = Some m2"
        "frame m m2 ?op (?op + int ml)" "hist a lo m2 (?op + int ml) = copy_match (hist a lo m ?op) off ml"
        using memmove_dict [OF ok op, of "int off"] T True len x by auto
      have "unsafe_source u (int off) (int ml) ?op m = Some (lo, 0, ?op + int ml, m2)"
        using T m2(1) by (simp add: code)
      moreover have "cloop (unsafe_copy_body (?op + int ml) lo 0) (0, m2) = Some m2"
        by (simp add: unsafe_copy_copies copy_bytes_none)
      ultimately show ?thesis using widen [OF m2(2)] m2(3) e by (metis add_0_right)
    next
      case F: False
      obtain m1 where m1: "memmove m ?op (a_dictStart a + a_dictSize a - int x) (int x) = Some m1"
        "frame m m1 ?op (?op + int x)" "hist a lo m1 (?op + int x) = copy_match (hist a lo m ?op) off x"
        using memmove_dict [OF ok op(1), of x "int off"] F True len x op(2) by auto
      obtain m2 where m2: "copy_bytes m1 (?op + int x) lo (?op + int ml) = Some m2"
        "frame m m2 ?op (?op + int ml)" "hist a lo m2 (?op + int ml) = copy_match (hist a lo m ?op) off ml"
        using rest_from_prefix [OF ok op, of x "int off" m1] F x m1 by auto
      have "unsafe_source u (int off) (int ml) ?op m = Some (lo, int ml - int x, ?op + int x, m1)"
        using F m1(1) by (simp add: code)
      moreover have "cloop (unsafe_copy_body (?op + int x) lo (int ml - int x)) (0, m1) = Some m2"
        using m2(1) unfolding e by (simp add: unsafe_copy_copies add.assoc)
      moreover have "?op + int x + (int ml - int x) = a_dst a + int (k + ml)" by simp
      ultimately show ?thesis using widen [OF m2(2)] m2(3) e by metis
    qed
  qed
qed

lemma unsafe_match_ok:
  assumes ok: "dec_ok a lo m" and u: "unsafe_call u a lo" and off: "0 < off" "off \<le> 65535" and ml: "4 \<le> ml"
    and d: "drop i (r_src (rp a lo m)) = le16 off @ len_ext (ml - 4) @ R" and i: "i \<le> length (r_src (rp a lo m))"
    and t: "t mod 16 = min (ml - 4) 15"
    and H: "off \<le> length (hist a lo m (a_dst a + int k))" and room: "int (k + ml) + 5 \<le> a_outputSize a"
  shows "\<exists>m'. unsafe_match u (int t) (a_src a + int i) (a_dst a + int k) m =
       Some (Inl (a_src a + int (i + 2 + length (len_ext (ml - 4))), a_dst a + int (k + ml), m')) \<and>
     frame m m' (a_dst a) (a_oend a) \<and>
     hist a lo m' (a_dst a + int (k + ml)) = copy_match (hist a lo m (a_dst a + int k)) off ml"
proof -
  let ?S = "r_src (rp a lo m)" let ?op = "a_dst a + int k"
  note B = dec_okD(2-9) [OF ok] and U = unsafe_callD [OF u]
  have lenS: "length ?S = i + 2 + length (len_ext (ml - 4) @ R)" using drop_len [OF d i] by (simp add: le16_def)
  then have i2: "int i + 2 \<le> a_srcSize a" unfolding length_src using B by linarith
  have rd: "LZ4_readLE16 LZ4_isLittleEndian m (a_src a + int i) = Some (int off)"
    using read_offset [OF ok i2] le16_at_bytes [OF d off(2) i] by simp
  have d2: "drop (i + 2) ?S = len_ext (ml - 4) @ R" using drop_append_len [OF d] by (simp add: le16_def)
  have tok: "int t AND 15 = int (min (ml - 4) 15)" using t by (simp add: and_15)
  have ext: "extend_length m (int (min (ml - 4) 15)) (a_src a + int (i + 2)) =
      Some (int (ml - 4), a_src a + int (i + 2 + length (len_ext (ml - 4))))"
    using room lenS B by (intro extend_length_ok [OF ok d2]) auto
  have mlw: "u64 (int (ml - 4) + MINMATCH) = int ml" using ml room B by (simp add: u64_id of_nat_diff)
  have room': "int (k + ml) \<le> a_outputSize a" "int k \<le> a_outputSize a" using room by auto
  have left: "u64 (u_oend u - ?op) = a_outputSize a - int k"
    "u64 (u_oend u - (a_dst a + int (k + ml))) = a_outputSize a - int (k + ml)"
    by (fact room_left [OF u ok room'(2)], fact room_left [OF u ok room'(1)])
  have range: "u64 (u64 (?op - u_prefixStart u) + u_dictSize u) = a_dictSize a + (?op - lo)"
    using U B dec_okD(13) [OF ok] room' by (simp add: u64_id)
  have len: "int off \<le> a_dictSize a + (?op - lo)" using H length_hist [OF ok, of ?op] by simp
  obtain m1 m2 s l e where c: "unsafe_source u (int off) (int ml) ?op m = Some (s, l, e, m1)"
     "cloop (unsafe_copy_body e s l) (0, m1) = Some m2" "e + l = a_dst a + int (k + ml)"
     "frame m m2 (a_dst a) (a_oend a)"
     "hist a lo m2 (a_dst a + int (k + ml)) = copy_match (hist a lo m ?op) off ml"
    using unsafe_copy_ok [OF ok u off H room'(1)] by blast
  have "unsafe_match u (int t) (a_src a + int i) ?op m =
      Some (Inl (a_src a + int (i + 2 + length (len_ext (ml - 4))), e + l, m2))"
  proof -
    have ip: "a_src a + int i + 2 = a_src a + int (i + 2)" by simp
    have lt: "\<not> a_outputSize a - int k < int ml" "\<not> int off > a_dictSize a + (?op - lo)"
      "\<not> a_outputSize a - int (k + ml) < LASTLITERALS" using room len by auto
    show ?thesis
      unfolding unsafe_match_def Let_def
      by (simp only: rd tok ip ext bind.bind_lunit prod.case mlw left range lt if_False c(1,2,3) Option.bind.bind_lunit)
  qed
  then show ?thesis using c by metis
qed

section \<open>Whole blocks\<close>

lemma unsafe_token:
  assumes ok: "dec_ok a lo m" and d: "drop i (r_src (rp a lo m)) = b # R" and i: "i \<le> length (r_src (rp a lo m))"
  shows "load8 m (a_src a + int i) = Some (int (unat b))" "drop (i + 1) (r_src (rp a lo m)) = R"
    "i + 1 \<le> length (r_src (rp a lo m))"
proof -
  have len: "length (r_src (rp a lo m)) = i + 1 + length R" using drop_len [OF d i] by simp
  then have lt: "i < length (r_src (rp a lo m))" by simp
  then have "r_src (rp a lo m) ! i = b" using drop_Cons_nth [OF lt] d by simp
  then show "load8 m (a_src a + int i) = Some (int (unat b))" using src_at [OF ok, of i] lt by simp
  show "drop (i + 1) (r_src (rp a lo m)) = R" using drop_append_len [of i _ "[b]" R] d by simp
  show "i + 1 \<le> length (r_src (rp a lo m))" using len by simp
qed

lemma unsafe_sequence:
  assumes ok: "dec_ok a lo m" and u: "unsafe_call u a lo"
    and d: "drop i (r_src (rp a lo m)) = encode_seq (LSeq ls off ml) @ R" and i: "i \<le> length (r_src (rp a lo m))"
    and q: "seq_ok (hist a lo m (a_dst a + int k)) (LSeq ls off ml)"
    and room: "int (k + length ls) + 12 \<le> a_outputSize a" "int (k + length ls + ml) + 5 \<le> a_outputSize a"
  shows "\<exists>m'. unsafe_body u (a_src a + int i, a_dst a + int k, m) =
       Some (Inl (a_src a + int (i + length (encode_seq (LSeq ls off ml))), a_dst a + int (k + length ls + ml), m')) \<and>
     frame m m' (a_dst a) (a_oend a) \<and>
     hist a lo m' (a_dst a + int (k + length ls + ml)) = expand_seq (hist a lo m (a_dst a + int k)) (LSeq ls off ml)"
proof -
  let ?S = "r_src (rp a lo m)" let ?b = "token_byte (length ls) (ml - 4)"
  define j where "j = i + 1 + length (len_ext (length ls)) + length ls"
  have d0: "drop i ?S = ?b # len_ext (length ls) @ ls @ le16 off @ len_ext (ml - 4) @ R" using d by simp
  note tok = unsafe_token [OF ok d0 i]
  have q4: "4 \<le> ml" "0 < off" "off \<le> 65535" using q by auto
  obtain m1 where m1: "frame m m1 (a_dst a) (a_oend a)"
     "hist a lo m1 (a_dst a + int (k + length ls)) = hist a lo m (a_dst a + int k) @ ls"
     "unsafe_literals u (int (unat ?b)) (a_src a + int (i + 1)) (a_dst a + int k) m =
       Some (Inl (a_src a + int j, a_dst a + int (k + length ls), m1))"
    using unsafe_literals_ok [OF ok u tok(2,3) token_byte_parts(1), of k] room by (auto simp: j_def)
  have ok1: "dec_ok a lo m1" using dec_ok_frame [OF ok m1(1)] .
  have rp1: "rp a lo m1 = rp a lo m" using rp_frame [OF ok m1(1)] by simp
  have dj: "drop j ?S = le16 off @ len_ext (ml - 4) @ R"
    using drop_append_len [OF drop_append_len [OF tok(2)]] by (simp add: j_def)
  have jS: "j \<le> length ?S" using drop_len [OF tok(2,3)] by (simp add: j_def)
  have off: "off \<le> length (hist a lo m1 (a_dst a + int (k + length ls)))" using q m1(2) by simp
  obtain m2 where m2: "unsafe_match u (int (unat ?b)) (a_src a + int j) (a_dst a + int (k + length ls)) m1 =
       Some (Inl (a_src a + int (j + 2 + length (len_ext (ml - 4))), a_dst a + int (k + length ls + ml), m2))"
     "frame m1 m2 (a_dst a) (a_oend a)"
     "hist a lo m2 (a_dst a + int (k + length ls + ml)) = copy_match (hist a lo m1 (a_dst a + int (k + length ls))) off ml"
    using unsafe_match_ok [OF ok1 u q4(2,3,1) dj [folded rp1] jS [folded rp1] token_byte_parts(2) off] room
    by (auto simp: add.assoc)
  have at: "a_src a + int i + 1 = a_src a + int (i + 1)" "i + length (encode_seq (LSeq ls off ml)) = j + 2 + length (len_ext (ml - 4))"
    by (simp_all add: j_def le16_def)
  have "unsafe_body u (a_src a + int i, a_dst a + int k, m) =
      Some (Inl (a_src a + int (j + 2 + length (len_ext (ml - 4))), a_dst a + int (k + length ls + ml), m2))"
    unfolding unsafe_body.simps by (simp only: tok(1) at m1(3) m2(1) Option.bind.bind_lunit sum.case prod.case)
  then show ?thesis
    unfolding at(2) using frame_trans [OF m1(1) m2(2)] m2(3) m1(2) by (intro exI [of _ m2]) simp
qed

lemma unsafe_loop_complete:
  assumes u: "unsafe_call u a lo" and ok: "dec_ok a lo m"
    and d: "drop i (r_src (rp a lo m)) = encode_block qs ls" and i: "i \<le> length (r_src (rp a lo m))"
    and wf: "seqs_ok (hist a lo m (a_dst a + int k)) qs" "block_end_ok qs ls"
    and room: "int (k + total_len qs ls) = a_outputSize a"
  shows "\<exists>m'. cloop (unsafe_body u) (a_src a + int i, a_dst a + int k, m) = Some (a_srcSize a, m') \<and>
     frame m m' (a_dst a) (a_oend a) \<and> hist a lo m' (a_oend a) = expand (hist a lo m (a_dst a + int k)) qs ls"
  using ok d i wf room
proof (induction qs arbitrary: i k m)
  case Nil
  let ?S = "r_src (rp a lo m)"
  have d0: "drop i ?S = token_byte (length ls) 0 # len_ext (length ls) @ ls @ []"
    using Nil(2) by (simp add: encode_block_def encode_last_def)
  note tok = unsafe_token [OF Nil(1) d0 Nil(3)]
  have end_eq: "int (k + length ls) = a_outputSize a" "a_dst a + int (k + length ls) = a_oend a"
    using Nil(6) by (auto simp: total_len_def a_oend_def)
  have "length ?S = i + 1 + length (len_ext (length ls)) + length ls" using drop_len [OF tok(2,3)] by simp
  then have n: "int (i + 1 + length (len_ext (length ls)) + length ls) = a_srcSize a"
    unfolding length_src using dec_okD(2) [OF Nil(1)] by linarith
  obtain m1 where m1: "frame m m1 (a_dst a) (a_oend a)"
     "hist a lo m1 (a_oend a) = hist a lo m (a_dst a + int k) @ ls"
     "unsafe_literals u (int (unat (token_byte (length ls) 0))) (a_src a + int (i + 1)) (a_dst a + int k) m =
       Some (Inr (a_srcSize a, m1))"
    using unsafe_literals_ok [OF Nil(1) u tok(2,3) token_byte_parts(1), of k] end_eq n by auto
  have at: "a_src a + int i + 1 = a_src a + int (i + 1)" by simp
  have "unsafe_body u (a_src a + int i, a_dst a + int k, m) = Some (Inr (a_srcSize a, m1))"
    unfolding unsafe_body.simps by (simp only: tok(1) at m1(3) Option.bind.bind_lunit sum.case)
  then show ?case using m1(1,2) by (auto simp: cloop_Inr expand_def)
next
  case (Cons q qs)
  obtain l off ml where q: "q = LSeq l off ml" by (cases q)
  have tot: "total_len (q # qs) ls = length l + ml + total_len qs ls" by (simp add: total_len_def q)
  note bounds = block_end_bounds [OF Cons.prems(5) seqs_ok_fit [OF Cons.prems(4)]]
  have d: "drop i (r_src (rp a lo m)) = encode_seq (LSeq l off ml) @ encode_block qs ls"
    using Cons.prems(2) by (simp add: encode_block_Cons q)
  have room: "int (k + length l) + 12 \<le> a_outputSize a" "int (k + length l + ml) + 5 \<le> a_outputSize a"
    using bounds Cons.prems(6) tot by (auto simp: q)
  have sq: "seq_ok (hist a lo m (a_dst a + int k)) (LSeq l off ml)" using Cons.prems(4) by (simp add: q)
  obtain m1 where m1: "unsafe_body u (a_src a + int i, a_dst a + int k, m) =
       Some (Inl (a_src a + int (i + length (encode_seq q)), a_dst a + int (k + length l + ml), m1))"
     "frame m m1 (a_dst a) (a_oend a)"
     "hist a lo m1 (a_dst a + int (k + length l + ml)) = expand_seq (hist a lo m (a_dst a + int k)) q"
    using unsafe_sequence [OF Cons.prems(1) u d Cons.prems(3) sq room] unfolding q by blast
  have rp1: "rp a lo m1 = rp a lo m" using rp_frame [OF Cons.prems(1) m1(2)] by simp
  have at: "drop (i + length (encode_seq q)) (r_src (rp a lo m)) = encode_block qs ls"
    "i + length (encode_seq q) \<le> length (r_src (rp a lo m))"
    using drop_append_len [OF d] drop_len [OF d Cons.prems(3)] unfolding q by auto
  obtain m2 where m2: "cloop (unsafe_body u) (a_src a + int (i + length (encode_seq q)), a_dst a + int (k + length l + ml), m1) =
       Some (a_srcSize a, m2)" "frame m1 m2 (a_dst a) (a_oend a)"
     "hist a lo m2 (a_oend a) = expand (hist a lo m1 (a_dst a + int (k + length l + ml))) qs ls"
    using Cons.IH [OF dec_ok_frame [OF Cons.prems(1) m1(2)], of "i + length (encode_seq q)" "k + length l + ml"]
      at rp1 m1(3) Cons.prems(4,6) tot block_end_Cons [OF Cons.prems(5)] by auto
  show ?case
    using m1 m2 frame_trans [OF m1(2) m2(2)] by (intro exI [of _ m2]) (simp add: cloop_Inl expand_Cons)
qed

lemma unsafe_generic_complete:
  assumes u: "unsafe_call u a lo" and ok: "dec_ok a lo m"
    and blk: "bytes m (a_src a) (a_iend a) = encode_block qs ls"
    and wf: "seqs_ok (hist a lo m (a_dst a)) qs" "block_end_ok qs ls" and size: "a_outputSize a = int (total_len qs ls)"
  shows "\<exists>m'. LZ4_decompress_unsafe_generic u m = Some (a_srcSize a, m') \<and> frame m m' (a_dst a) (a_oend a) \<and>
     hist a lo m (a_dst a) @ bytes m' (a_dst a) (a_oend a) = expand (hist a lo m (a_dst a)) qs ls"
proof -
  obtain m' where m': "cloop (unsafe_body u) (a_src a, a_dst a, m) = Some (a_srcSize a, m')"
     "frame m m' (a_dst a) (a_oend a)" "hist a lo m' (a_oend a) = expand (hist a lo m (a_dst a)) qs ls"
    using unsafe_loop_complete [OF u ok, of 0 qs ls 0] blk wf size by (auto simp: a_iend_def)
  have "hist a lo m' (a_oend a) = hist a lo m (a_dst a) @ bytes m' (a_dst a) (a_oend a)"
    using hist_split [OF ok m'(2), of "a_outputSize a"] dec_okD(4) [OF ok] by (simp add: a_oend_def)
  then show ?thesis
    using m' u by (simp add: LZ4_decompress_unsafe_generic_def unsafe_call_def)
qed

end
