(* ===== verification/Lz4_StreamDecode.thy ===== *)
theory Lz4_StreamDecode
  imports Lz4_DecodeSpec
begin

text \<open>
  The streaming decoder: its state is abstracted to the history that the next block may refer to, and
  every way of continuing a stream is a call of the generic decoder on that history. The first block
  takes the assembler path, for which the contract of the routine is a hypothesis.
\<close>

section \<open>Continuing in the middle of a block\<close>

lemma decode_loops_at:
  assumes ok: "dec_ok a lo m" and k: "int k \<le> a_outputSize a" "int i < a_srcSize a"
  shows "runs a lo m (decode_loops a (a_src a + int i) (a_dst a + int k) m) i (hist a lo m (a_dst a + int k))"
proof (cases "a_oend a - (a_dst a + int k) < FASTLOOP_SAFE_DISTANCE")
  case True
  then show ?thesis using safe_decode_ok [OF ok k] by (simp add: decode_loops_def)
next
  case False
  have "decode_loops a (a_src a + int i) (a_dst a + int k) m =
      fast_exit a (cloop (fast_body a) (a_src a + int i, a_dst a + int k, m))"
    using False by (auto simp: decode_loops_def fast_exit_def fcont_def resume_safe_def split: fexit.splits
        intro!: arg_cong2 [where f = Option.bind])
  then show ?thesis using fast_decode_ok [OF ok, of k i] False k by (simp add: a_oend_def)
qed

text \<open>The rest of a block of the format, after the output of its first sequences is in place.\<close>

lemma generic_from_complete:
  assumes ok: "dec_ok a lo m" and full: "\<not> a_partial a" and out: "0 < a_outputSize a"
    and blk: "drop i (bytes m (a_src a) (a_iend a)) = encode_block qs ls" "int i < a_srcSize a"
    and k: "int k + int (total_len qs ls) \<le> a_outputSize a"
    and wf: "seqs_fit (hist a lo m (a_dst a + int k)) qs" "block_end_ok qs ls"
  shows "\<exists>m'. LZ4_decompress_generic_from a (a_src a + int i) (a_dst a + int k) m = Some (int (k + total_len qs ls), m') \<and>
     frame m m' (a_dst a) (a_oend a) \<and>
     hist a lo m' (a_dst a + int (k + total_len qs ls)) = expand (hist a lo m (a_dst a + int k)) qs ls"
proof -
  let ?P = "rp a lo m" let ?H = "hist a lo m (a_dst a + int k)"
  have kc: "int k \<le> a_outputSize a" using k by simp
  obtain e r where e: "decode_loops a (a_src a + int i) (a_dst a + int k) m = Some e" "ref_run ?P i ?H r" "dres a lo m e r"
    using decode_loops_at [OF ok kc blk(2)] by (auto simp: runs_def)
  have len: "length ?H = r_base ?P + k" using history_grows [OF ok, of "int k"] by simp
  have "ref_loop ?P [] i ?H = Inr (expand ?H qs ls)"
    using full blk wf k len by (intro ref_loop_complete) (auto simp: a_iend_def r_out_def)
  then have r: "r = Inr (expand ?H qs ls)" using ref_run_full [OF e(2)] full by simp
  with e(3) obtain j m' where j: "e = Decoded (a_dst a + int j) m'" "int j \<le> a_outputSize a"
    "frame m m' (a_dst a) (a_oend a)" "expand ?H qs ls = hist a lo m' (a_dst a + int j)"
    by (auto simp: dres_def)
  have "rp a lo m' = ?P" using rp_frame [OF ok j(3)] by simp
  then have "length (hist a lo m' (a_dst a + int j)) = r_base ?P + j"
    using history_grows [OF dec_ok_frame [OF ok j(3)], of "int j"] by simp
  then have jk: "j = k + total_len qs ls" using j(4) len length_expand [of ?H qs ls] by simp
  have "s32 (int j) = int j" using dec_okD(5) [OF ok] j(2) by (intro s32_id) auto
  moreover have "a_src a \<noteq> 0" using dec_okD(1) [OF ok] by simp
  moreover have "a_srcSize a \<noteq> 0" using blk(2) by simp
  ultimately have "LZ4_decompress_generic_from a (a_src a + int i) (a_dst a + int k) m = Some (int j, m')"
    using e(1) j(1) out by (simp add: LZ4_decompress_generic_from_def)
  then show ?thesis using j(3,4) jk by auto
qed

section \<open>The assembler path\<close>

text \<open>
  The contract of the assembler routine on a block of the format, called without its last flag (decoding
  in place), as the decoders of the library call it: it decodes some of the leading sequences, reports
  the positions it reached, and writes only into the output buffer. It returns 0 on success. With the flag
  the routine can stop inside a sequence and rewrite its token in the source; nothing is assumed of it then.
\<close>

definition asm_contract :: "asm_code \<Rightarrow> bool" where
  "asm_contract code \<longleftrightarrow> (\<forall>m s n d cap qs ls.
     LZ4_FAST_MARGIN < n \<and> LZ4_FAST_MARGIN < cap \<and> buffers_ok m s n d cap \<and>
     bytes m s (s + n) = encode_block qs ls \<and> seqs_ok [] qs \<and> block_end_ok qs ls \<and> int (total_len qs ls) \<le> cap \<longrightarrow>
     (\<exists>j m'. j \<le> length qs \<and>
        code m d d (d + cap - LZ4_FAST_MARGIN) s (s + n - LZ4_FAST_MARGIN) False =
          Some (0, d + int (total_len (take j qs) []), s + int (length (concat (map encode_seq (take j qs)))), m') \<and>
        frame m m' d (d + cap) \<and> bytes m' d (d + int (total_len (take j qs) [])) = expand [] (take j qs) []))"

lemma expand_take: "expand H qs ls = expand (expand H (take j qs) []) (drop j qs) ls"
  unfolding expand_def by (simp add: foldl_append [symmetric] del: foldl_append)

lemma total_len_take: "total_len qs ls = total_len (take j qs) [] + total_len (drop j qs) ls"
proof (induction qs arbitrary: j)
  case (Cons q qs)
  then show ?case by (cases j) (simp_all add: total_len_def add.assoc)
qed (simp add: total_len_def)

lemma encode_block_take: "encode_block qs ls = concat (map encode_seq (take j qs)) @ encode_block (drop j qs) ls"
  unfolding encode_block_def append_assoc [symmetric] concat_append [symmetric] map_append [symmetric] append_take_drop_id ..

lemma seqs_fit_drop: "seqs_fit H qs \<Longrightarrow> seqs_fit (expand H (take j qs) []) (drop j qs)"
proof (induction qs arbitrary: H j)
  case (Cons q qs)
  then show ?case by (cases j) (simp_all add: expand_Cons, simp add: expand_def)
qed (simp add: expand_def)

lemma block_end_drop: "block_end_ok qs ls \<Longrightarrow> block_end_ok (drop j qs) ls"
  by (auto simp: block_end_ok_def)

text \<open>The table of routines only ever selects one of the two routines.\<close>

lemma decompress_asm_run:
  assumes "asm_contract (lz4_asm E)" "asm_contract (lz4_asm_noprfm E)"
  shows "\<exists>code fns'. asm_contract code \<and>
     (\<forall>m dp db de sp se dip. lz4_decompress_asm E fns m dp db de sp se dip =
        map_option (\<lambda>(ret, d, s, m). (fns', ret, d, s, m)) (code m dp db de sp se dip))"
proof -
  have bind: "(do { (ret, d, s, m) \<leftarrow> c; Some (f, ret, d, s, m) }) = map_option (\<lambda>(ret, d, s, m). (f, ret, d, s, m)) c"
    for c :: "(int \<times> int \<times> int \<times> mem) option" and f :: "nat \<Rightarrow> asm_fn"
    by (cases c) auto
  show ?thesis
  proof (cases "fns (smp_processor_id E) = Fn_asm_noprfm \<or> fns (smp_processor_id E) = Fn_select \<and> cpu_is_cortex_a53 E")
    case True
    show ?thesis
      using assms(2) True
      by (intro exI [of _ "lz4_asm_noprfm E"]
          exI [of _ "if fns (smp_processor_id E) = Fn_select then fns(smp_processor_id E := Fn_asm_noprfm) else fns"])
        (auto simp: lz4_decompress_asm_def lz4_decompress_asm_select_def bind Let_def)
  next
    case False
    then have "fns (smp_processor_id E) = Fn_asm \<or> fns (smp_processor_id E) = Fn_select \<and> \<not> cpu_is_cortex_a53 E"
      by (cases "fns (smp_processor_id E)") auto
    then show ?thesis
      using assms(1)
      by (intro exI [of _ "lz4_asm E"]
          exI [of _ "if fns (smp_processor_id E) = Fn_select then fns(smp_processor_id E := Fn_asm) else fns"])
        (auto simp: lz4_decompress_asm_def lz4_decompress_asm_select_def bind Let_def)
  qed
qed

definition whole_args :: "int \<Rightarrow> int \<Rightarrow> int \<Rightarrow> int \<Rightarrow> dargs" where
  "whole_args s n d cap = \<lparr>a_src = s, a_dst = d, a_srcSize = n, a_outputSize = cap, a_partialDecoding = decode_full_block,
     a_dict = noDict, a_lowPrefix = d, a_dictStart = 0, a_dictSize = 0\<rparr>"

lemma whole_args:
  "a_src (whole_args s n d cap) = s" "a_dst (whole_args s n d cap) = d" "a_srcSize (whole_args s n d cap) = n"
  "a_outputSize (whole_args s n d cap) = cap" "a_iend (whole_args s n d cap) = s + n" "a_oend (whole_args s n d cap) = d + cap"
  "hist (whole_args s n d cap) d m op = bytes m d op" "\<not> a_partial (whole_args s n d cap)"
  "buffers_ok m s n d cap \<Longrightarrow> dec_ok (whole_args s n d cap) d m"
  by (simp_all add: whole_args_def a_iend_def a_oend_def hist_def a_partial_def) (auto simp: buffers_ok_def dec_ok_def a_iend_def a_oend_def)

lemma arm64_complete:
  assumes asm: "asm_contract (lz4_asm E)" "asm_contract (lz4_asm_noprfm E)" and b: "buffers_ok m s n d cap"
    and blk: "bytes m s (s + n) = encode_block qs ls" "seqs_ok [] qs" "block_end_ok qs ls" and fit: "int (total_len qs ls) \<le> cap"
  shows "\<exists>fns' m'. LZ4_arm64_decompress_safe E fns m s d n cap False = Some (fns', int (total_len qs ls), m') \<and>
     frame m m' d (d + cap) \<and> bytes m' d (d + int (total_len qs ls)) = expand [] qs ls"
proof -
  let ?a = "whole_args s n d cap"
  have w: "s32 n = n" "s32 cap = cap" using b by (auto simp: buffers_ok_def intro!: s32_id)
  have a: "\<lparr>a_src = s, a_dst = d, a_srcSize = s32 n, a_outputSize = s32 cap, a_partialDecoding = decode_full_block,
      a_dict = noDict, a_lowPrefix = d, a_dictStart = 0, a_dictSize = 0\<rparr> = ?a" by (simp add: w whole_args_def)
  show ?thesis
  proof (cases "cap > LZ4_FAST_MARGIN \<and> n > LZ4_FAST_MARGIN \<and> may_use_simd E")
    case False
    obtain m' where m': "LZ4_decompress_safe m s d n cap = Some (int (total_len qs ls), m')" "frame m m' d (d + cap)"
      "bytes m' d (d + int (total_len qs ls)) = expand [] qs ls"
      using safe_dec.complete [of m s n d cap "[]", OF _ blk(1) seqs_ok_fit [OF blk(2)] blk(3) fit] b by (auto simp: no_history_def)
    have g: "LZ4_decompress_generic_from ?a s d m = Some (int (total_len qs ls), m')"
      using m'(1) by (simp add: LZ4_decompress_safe_def LZ4_decompress_generic_def whole_args_def)
    have "LZ4_arm64_decompress_safe E fns m s d n cap False = Some (fns, int (total_len qs ls), m')"
      unfolding LZ4_arm64_decompress_safe_def a if_not_P [OF False] by (simp add: g)
    then show ?thesis using m'(2,3) by blast
  next
    case True
    obtain code fns' where code: "asm_contract code"
      "\<And>m dp db de sp se dip. lz4_decompress_asm E fns m dp db de sp se dip =
        map_option (\<lambda>(ret, d, s, m). (fns', ret, d, s, m)) (code m dp db de sp se dip)"
      using decompress_asm_run [OF asm] by blast
    have pre: "LZ4_FAST_MARGIN < n \<and> LZ4_FAST_MARGIN < cap \<and> buffers_ok m s n d cap \<and>
      bytes m s (s + n) = encode_block qs ls \<and> seqs_ok [] qs \<and> block_end_ok qs ls \<and> int (total_len qs ls) \<le> cap"
      using True b blk fit by blast
    from code(1) [unfolded asm_contract_def, rule_format, OF this] obtain j m1 where j:
      "code m d d (d + cap - LZ4_FAST_MARGIN) s (s + n - LZ4_FAST_MARGIN) False =
        Some (0, d + int (total_len (take j qs) []), s + int (length (concat (map encode_seq (take j qs)))), m1)"
      "frame m m1 d (d + cap)" "bytes m1 d (d + int (total_len (take j qs) [])) = expand [] (take j qs) []" by blast
    let ?k = "total_len (take j qs) []" and ?i = "length (concat (map encode_seq (take j qs)))"
    have ok: "dec_ok ?a d m1" using dec_ok_frame [OF whole_args(9) [OF b] j(2)] .
    have "bytes m1 s (s + n) = bytes m s (s + n)" using b by (intro bytes_frame [OF j(2)]) (auto simp: buffers_ok_def)
    then have rest: "drop ?i (bytes m1 s (s + n)) = encode_block (drop j qs) ls"
      using blk(1) encode_block_take [of qs ls j] by simp
    have "0 < length (encode_block (drop j qs) ls)" using encode_block_nonempty by blast
    then have "?i < length (bytes m1 s (s + n))" unfolding rest [symmetric] by simp
    then have i: "int ?i < n" by simp
    have "int ?k + int (total_len (drop j qs) ls) \<le> cap" using fit total_len_take [of qs ls j] by simp
    moreover have "seqs_fit (bytes m1 d (d + int ?k)) (drop j qs)"
      using seqs_fit_drop [OF seqs_ok_fit [OF blk(2)]] j(3) by simp
    moreover have "0 < cap" using True by (simp add: LZ4_FAST_MARGIN_def)
    ultimately obtain m' where m': "LZ4_decompress_generic_from ?a (s + int ?i) (d + int ?k) m1 = Some (int (?k + total_len (drop j qs) ls), m')"
      "frame m1 m' d (d + cap)" "bytes m' d (d + int (?k + total_len (drop j qs) ls)) = expand (bytes m1 d (d + int ?k)) (drop j qs) ls"
      using generic_from_complete [OF ok whole_args(8), of ?i "drop j qs" ls ?k] rest i block_end_drop [OF blk(3)]
      by (auto simp: whole_args)
    have "LZ4_arm64_decompress_safe E fns m s d n cap False = Some (fns', int (total_len qs ls), m')"
      using True j(1) m'(1) total_len_take [of qs ls j] unfolding LZ4_arm64_decompress_safe_def a by (simp add: code(2))
    moreover have "bytes m' d (d + int (total_len qs ls)) = expand [] qs ls"
      using m'(3) j(3) total_len_take [of qs ls j] expand_take [of "[]" qs ls j] by simp
    ultimately show ?thesis using frame_trans [OF j(2) m'(2)] by blast
  qed
qed

section \<open>Streaming\<close>

text \<open>The history behind a stream state: the external dictionary, then the prefix.\<close>

definition sd_prefix :: "mem \<Rightarrow> LZ4_streamDecode_t_internal \<Rightarrow> byte list" where
  "sd_prefix m sd = bytes m (prefixEnd sd - prefixSize sd) (prefixEnd sd)"

definition sd_history :: "mem \<Rightarrow> LZ4_streamDecode_t_internal \<Rightarrow> byte list" where
  "sd_history m sd = bytes m (externalDict sd) (externalDict sd + extDictSize sd) @ sd_prefix m sd"

definition sd_ok :: "mem \<Rightarrow> LZ4_streamDecode_t_internal \<Rightarrow> bool" where
  "sd_ok m sd \<longleftrightarrow> 0 \<le> prefixSize sd \<and> 0 \<le> extDictSize sd \<and>
     (0 < prefixSize sd \<longrightarrow> 0 < prefixEnd sd - prefixSize sd \<and> mapped m (prefixEnd sd - prefixSize sd) (prefixEnd sd)) \<and>
     (0 < extDictSize sd \<longrightarrow> 0 < externalDict sd \<and> mapped m (externalDict sd) (externalDict sd + extDictSize sd))"

text \<open>
  The caller must keep the history it wants used: the dictionary is not in the way when the block
  continues the prefix, and the old prefix is not when the block goes elsewhere. \<open>D\<close> is the history
  that the block may refer to.
\<close>

definition stream_ready :: "LZ4_streamDecode_t_internal \<Rightarrow> mem \<Rightarrow> int \<Rightarrow> int \<Rightarrow> int \<Rightarrow> int \<Rightarrow> byte list \<Rightarrow> bool" where
  "stream_ready sd m s n d cap D \<longleftrightarrow> buffers_ok m s n d cap \<and> 0 < d \<and> sd_ok m sd \<and> 0 < prefixSize sd \<and>
     (if prefixEnd sd = d
      then (0 < extDictSize sd \<longrightarrow> externalDict sd + extDictSize sd \<le> d \<or> d + cap \<le> externalDict sd) \<and>
        D = (if 65535 \<le> prefixSize sd then sd_prefix m sd else sd_history m sd)
      else (prefixEnd sd \<le> d \<or> d + cap \<le> prefixEnd sd - prefixSize sd) \<and> D = sd_prefix m sd)"

text \<open>The state after a block of \<open>r\<close> bytes.\<close>

definition sd_after :: "LZ4_streamDecode_t_internal \<Rightarrow> int \<Rightarrow> int \<Rightarrow> LZ4_streamDecode_t_internal" where
  "sd_after sd d r =
     (if prefixEnd sd = d then sd\<lparr>prefixSize := prefixSize sd + r, prefixEnd := prefixEnd sd + r\<rparr>
      else sd\<lparr>extDictSize := prefixSize sd, externalDict := prefixEnd sd - prefixSize sd, prefixSize := r, prefixEnd := d + r\<rparr>)"

text \<open>The call of the decoder that a block leads to.\<close>

definition continue_call :: "LZ4_streamDecode_t_internal \<Rightarrow> mem \<Rightarrow> int \<Rightarrow> int \<Rightarrow> int \<Rightarrow> int \<Rightarrow> (int \<times> mem) option" where
  "continue_call sd m s n d cap =
     (if prefixEnd sd = d then
        (if prefixSize sd \<ge> 64 * KB - 1 then LZ4_decompress_safe_withPrefix64k m s d n cap
         else if extDictSize sd = 0 then LZ4_decompress_safe_withSmallPrefix m s d n cap (prefixSize sd)
         else LZ4_decompress_safe_doubleDict m s d n cap (prefixSize sd) (externalDict sd) (extDictSize sd))
      else LZ4_decompress_safe_forceExtDict m s d n cap (prefixEnd sd - prefixSize sd) (prefixSize sd))"

lemma continue_full_call:
  assumes "stream_ready sd m s n d cap D"
  shows "full_call m s n d cap D (continue_call sd m s n d cap)"
proof -
  note h = assms [unfolded stream_ready_def buffers_ok_def sd_ok_def]
  consider "prefixEnd sd = d" "65535 \<le> prefixSize sd" | "prefixEnd sd = d" "prefixSize sd < 65535" "extDictSize sd = 0"
    | "prefixEnd sd = d" "prefixSize sd < 65535" "0 < extDictSize sd" | "prefixEnd sd \<noteq> d" using h by linarith
  then show ?thesis
  proof cases
    case 1
    have mp: "mapped m (d - prefixSize sd) (d + cap)" using h 1 mapped_join [of m "d - prefixSize sd" d "d + cap"] by simp
    have c: "continue_call sd m s n d cap = LZ4_decompress_safe_withPrefix64k m s d n cap"
      using 1 by (simp add: continue_call_def)
    show ?thesis
      unfolding c using 1 h mp
      by (intro full_callI [OF LZ4_decompress_safe_withPrefix64k_def, where lo = "d - prefixSize sd"])
        (auto simp: dec_ok_def a_iend_def a_oend_def hist_def a_partial_def sd_prefix_def)
  next
    case 2
    have mp: "mapped m (d - prefixSize sd) (d + cap)" using h 2 mapped_join [of m "d - prefixSize sd" d "d + cap"] by simp
    have c: "continue_call sd m s n d cap = LZ4_decompress_safe_withSmallPrefix m s d n cap (prefixSize sd)"
      using 2 by (simp add: continue_call_def)
    show ?thesis
      unfolding c using 2 h mp
      by (intro full_callI [OF LZ4_decompress_safe_withSmallPrefix_def, where lo = "d - prefixSize sd"])
        (auto simp: dec_ok_def a_iend_def a_oend_def hist_def a_partial_def sd_history_def sd_prefix_def)
  next
    case 3
    have mp: "mapped m (d - prefixSize sd) (d + cap)" using h 3 mapped_join [of m "d - prefixSize sd" d "d + cap"] by simp
    have c: "continue_call sd m s n d cap = LZ4_decompress_safe_doubleDict m s d n cap (prefixSize sd) (externalDict sd) (extDictSize sd)"
      using 3 by (simp add: continue_call_def)
    show ?thesis
      unfolding c using 3 h mp
      by (intro full_callI [OF LZ4_decompress_safe_doubleDict_def, where lo = "d - prefixSize sd"])
        (auto simp: dec_ok_def a_iend_def a_oend_def hist_def a_partial_def sd_history_def sd_prefix_def)
  next
    case 4
    have c: "continue_call sd m s n d cap =
        LZ4_decompress_safe_forceExtDict m s d n cap (prefixEnd sd - prefixSize sd) (prefixSize sd)"
      using 4 by (simp add: continue_call_def)
    show ?thesis
      unfolding c using 4 h
      by (intro full_callI [OF LZ4_decompress_safe_forceExtDict_def, where lo = d])
        (auto simp: dec_ok_def a_iend_def a_oend_def hist_def a_partial_def sd_prefix_def)
  qed
qed

interpretation cont_dec: full_decoder "continue_call sd" "stream_ready sd" for sd
  by unfold_locales (rule continue_full_call)

text \<open>The code is that call and the update of the state.\<close>

lemma continue_eq:
  assumes "stream_ready sd m s n d cap D"
  shows "LZ4_decompress_safe_continue E fns m sd s d n cap =
     map_option (\<lambda>(r, m'). (fns, r, if r \<le> 0 then
       (if prefixEnd sd = d then sd else sd\<lparr>extDictSize := prefixSize sd, externalDict := prefixEnd sd - prefixSize sd\<rparr>)
       else sd_after sd d r, m')) (continue_call sd m s n d cap)"
proof -
  obtain v m' where v: "continue_call sd m s n d cap = Some (v, m')" "v \<le> cap" using cont_dec.total [OF assms] by blast
  have u: "0 < v \<Longrightarrow> u64 (prefixSize sd + v) = prefixSize sd + v" if "prefixEnd sd = d"
    using assms v(2) that by (intro u64_id) (auto simp: stream_ready_def sd_ok_def buffers_ok_def)
  have "prefixSize sd \<noteq> 0" using assms by (simp add: stream_ready_def)
  then show ?thesis
    using v u by (auto simp: LZ4_decompress_safe_continue_def continue_call_def sd_after_def Let_def split: if_splits)
qed

text \<open>After a block, the state stands for the old history and the new bytes.\<close>

lemma sd_after_ok:
  assumes r: "stream_ready sd m s n d cap D" and fr: "frame m m' d (d + cap)" and v: "0 < v" "v \<le> cap"
  shows "sd_ok m' (sd_after sd d v)"
    and "sd_history m' (sd_after sd d v) =
      (if prefixEnd sd = d then sd_history m sd else sd_prefix m sd) @ bytes m' d (d + v)"
proof -
  note h = r [unfolded stream_ready_def buffers_ok_def sd_ok_def]
  have dest: "mapped m d (d + v)" using h v mapped_sub [of m d "d + cap" d "d + v"] by simp
  have pre: "mapped m (prefixEnd sd - prefixSize sd) (d + v)" if "prefixEnd sd = d"
    using h that mapped_join [OF _ dest, of "d - prefixSize sd"] by simp
  show "sd_ok m' (sd_after sd d v)"
    using h v dest pre by (auto simp: sd_ok_def sd_after_def frame_mapped [OF fr])
  show "sd_history m' (sd_after sd d v) =
      (if prefixEnd sd = d then sd_history m sd else sd_prefix m sd) @ bytes m' d (d + v)"
  proof (cases "prefixEnd sd = d")
    case True
    have "bytes m' (d - prefixSize sd) (d + v) = bytes m' (d - prefixSize sd) d @ bytes m' d (d + v)"
      using h v by (intro bytes_append) auto
    moreover have "bytes m' (d - prefixSize sd) d = bytes m (d - prefixSize sd) d" by (rule bytes_frame [OF fr]) simp
    moreover have "bytes m' (externalDict sd) (externalDict sd + extDictSize sd) = bytes m (externalDict sd) (externalDict sd + extDictSize sd)"
      using h True by (cases "0 < extDictSize sd") (auto intro!: bytes_frame [OF fr])
    ultimately show ?thesis using True by (simp add: sd_history_def sd_prefix_def sd_after_def)
  next
    case False
    have "bytes m' (prefixEnd sd - prefixSize sd) (prefixEnd sd) = bytes m (prefixEnd sd - prefixSize sd) (prefixEnd sd)"
      using h False by (intro bytes_frame [OF fr]) auto
    then show ?thesis using False by (simp add: sd_history_def sd_prefix_def sd_after_def)
  qed
qed

end
