(* ===== verification/Lz4_DecodeTheorems.thy ===== *)
theory Lz4_DecodeTheorems
  imports Lz4_DecodeSpec
begin

text \<open>
  The properties of the decoder, each with a witness on a small concrete memory: a block of two
  sequences at address 1000, an output buffer at 5000 and a dictionary at 4000.
\<close>

section \<open>A concrete memory\<close>

definition demo_seqs :: "lz4_seq list" where
  "demo_seqs = [LSeq [1, 2, 3, 4] 4 8]"

definition demo_tail :: "byte list" where
  "demo_tail = [5, 6, 7, 8, 9]"

definition demo_block :: "byte list" where
  "demo_block = [68, 1, 2, 3, 4, 4, 0, 80, 5, 6, 7, 8, 9]"

definition demo_mem :: mem where
  "demo_mem = place 1000 demo_block (place 4000 [1, 2, 3, 4] (place 5000 (replicate 40 0) no_mem))"

lemma demo_encode: "encode_block demo_seqs demo_tail = demo_block"
  by (simp add: demo_seqs_def demo_tail_def demo_block_def encode_block_def encode_last_def token_byte_def len_ext_def le16_def)

lemma demo_expand: "expand [] demo_seqs demo_tail = [1, 2, 3, 4, 1, 2, 3, 4, 1, 2, 3, 4, 5, 6, 7, 8, 9]"
  by (simp add: demo_seqs_def demo_tail_def expand_def numeral_eq_Suc)

lemma demo_total: "total_len demo_seqs demo_tail = 17"
  by (simp add: demo_seqs_def demo_tail_def total_len_def)

lemma demo_wf: "seqs_ok [] demo_seqs" "block_end_ok demo_seqs demo_tail"
  by (simp_all add: demo_seqs_def demo_tail_def block_end_ok_def)

lemma demo_bytes: "bytes demo_mem 1000 1013 = demo_block" "bytes demo_mem 4000 4004 = [1, 2, 3, 4]"
  unfolding demo_mem_def by (simp_all add: bytes_place bytes_place_other demo_block_def)

lemma demo_mapped: "mapped demo_mem 1000 1013"
  unfolding demo_mem_def by (rule mapped_place) (simp_all add: demo_block_def)

lemma demo_mapped_dict: "mapped demo_mem 4000 4004"
  unfolding demo_mem_def by (rule mapped_place_other, rule mapped_place) simp_all

lemma demo_mapped_out: "cap \<le> 40 \<Longrightarrow> mapped demo_mem 5000 (5000 + cap)"
  unfolding demo_mem_def by (rule mapped_place_other, rule mapped_place_other, rule mapped_place) simp_all

lemma demo_buffers: "0 \<le> cap \<Longrightarrow> cap \<le> 40 \<Longrightarrow> buffers_ok demo_mem 1000 13 5000 cap"
  using demo_mapped demo_mapped_out by (simp add: buffers_ok_def)

section \<open>Properties\<close>

text \<open>
  C4: for arbitrary input bytes, \<open>LZ4_decompress_safe\<close> returns, without undefined behaviour (no access
  outside the two buffers, no overlapping \<open>memcpy\<close>, no endless loop), it changes nothing outside the
  output buffer, and its result is at most the capacity and at least \<open>- compressedSize - 1\<close>.
\<close>

theorem decompress_safe_total:
  assumes "buffers_ok m source compressedSize dest maxDecompressedSize"
  shows "\<exists>v m'. LZ4_decompress_safe m source dest compressedSize maxDecompressedSize = Some (v, m') \<and>
     frame m m' dest (dest + maxDecompressedSize) \<and> - compressedSize - 1 \<le> v \<and> v \<le> maxDecompressedSize"
  using safe_dec.total [of m source compressedSize dest maxDecompressedSize "[]"] assms by (simp add: no_history_def)

theorem decompress_safe_total_witness:
  "\<exists>v m'. LZ4_decompress_safe demo_mem 1000 5000 13 17 = Some (v, m') \<and>
     frame demo_mem m' 5000 5017 \<and> - 14 \<le> v \<and> v \<le> 17"
  using decompress_safe_total [OF demo_buffers [of 17]] by simp

text \<open>
  C3: a block of the format whose expansion fits is decoded to exactly its expansion, and the result is
  the length of it.
\<close>

theorem decompress_safe_complete:
  assumes "buffers_ok m source compressedSize dest maxDecompressedSize"
    and "bytes m source (source + compressedSize) = encode_block qs ls" "seqs_ok [] qs" "block_end_ok qs ls"
    and "int (total_len qs ls) \<le> maxDecompressedSize"
  shows "\<exists>m'. LZ4_decompress_safe m source dest compressedSize maxDecompressedSize = Some (int (total_len qs ls), m') \<and>
     frame m m' dest (dest + maxDecompressedSize) \<and>
     bytes m' dest (dest + int (total_len qs ls)) = expand [] qs ls"
  using safe_dec.complete [of m source compressedSize dest maxDecompressedSize "[]" qs ls] assms seqs_ok_fit
  by (simp add: no_history_def)

theorem decompress_safe_complete_witness:
  "\<exists>m'. LZ4_decompress_safe demo_mem 1000 5000 13 40 = Some (17, m') \<and>
     bytes m' 5000 5017 = [1, 2, 3, 4, 1, 2, 3, 4, 1, 2, 3, 4, 5, 6, 7, 8, 9]"
  using decompress_safe_complete [OF demo_buffers [of 40], of demo_seqs demo_tail] demo_bytes demo_wf
  by (auto simp: demo_encode demo_expand demo_total)

text \<open>
  C5: whatever is accepted is a series of sequences closed by literals, with every match inside the
  output decoded so far, and the output is its expansion. The decoder is laxer than the format in two
  places only: the low half of the last token is not looked at, and the offset zero passes (it stands
  for zero bytes).
\<close>

theorem decompress_safe_sound:
  assumes "buffers_ok m source compressedSize dest maxDecompressedSize"
    and "LZ4_decompress_safe m source dest compressedSize maxDecompressedSize = Some (v, m')" "0 \<le> v"
  shows "\<exists>qs ls x. x \<le> 15 \<and> bytes m source (source + compressedSize) = concat (map encode_seq qs) @ encode_tail x ls \<and>
     seqs_fit [] qs \<and> v = int (total_len qs ls) \<and> bytes m' dest (dest + v) = expand [] qs ls"
  using safe_dec.sound [of m source compressedSize dest maxDecompressedSize "[]" v m'] assms
  by (simp add: no_history_def)

theorem decompress_safe_sound_witness:
  "\<exists>m' qs ls. LZ4_decompress_safe demo_mem 1000 5000 13 40 = Some (17, m') \<and> 17 = int (total_len qs ls) \<and>
     bytes m' 5000 5017 = expand [] qs ls"
proof -
  obtain m' where m': "LZ4_decompress_safe demo_mem 1000 5000 13 40 = Some (17, m')"
    using safe_dec.complete [of demo_mem 1000 13 5000 40 "[]" demo_seqs demo_tail] demo_buffers [of 40] demo_bytes
      demo_wf seqs_ok_fit by (auto simp: no_history_def demo_encode demo_total)
  from decompress_safe_sound [OF demo_buffers [of 40] this] m' show ?thesis by auto
qed

text \<open>
  C23: refinement. On arbitrary input and with any history, the generic decoder (fast loop, safe loop,
  wild and overlapping copies, on memory) computes what the parser on byte lists computes: the same
  verdict, the same error position, the same output.
\<close>

theorem generic_refines_parser:
  assumes "dec_ok a lo m" "0 < a_srcSize a" "0 < a_outputSize a" "\<not> a_partial a"
  shows "\<exists>v m'. LZ4_decompress_generic a m = Some (v, m') \<and> frame m m' (a_dst a) (a_oend a) \<and>
     (case ref_loop (rp a lo m) [] 0 (hist a lo m (a_dst a)) of
        Inl p \<Rightarrow> v = - int p - 1
      | Inr H \<Rightarrow> 0 \<le> v \<and> v \<le> a_outputSize a \<and> v = int (length H) - int (r_base (rp a lo m)) \<and> hist a lo m' (a_dst a + v) = H)"
  by (rule generic_run_loop [OF assms])

definition demo_args :: dargs where
  "demo_args = \<lparr>a_src = 1000, a_dst = 5000, a_srcSize = 13, a_outputSize = 40, a_partialDecoding = decode_full_block,
     a_dict = noDict, a_lowPrefix = 5000, a_dictStart = 0, a_dictSize = 0\<rparr>"

theorem generic_refines_parser_witness:
  "\<exists>v m'. LZ4_decompress_generic demo_args demo_mem = Some (v, m') \<and> frame demo_mem m' 5000 5040"
proof -
  have "dec_ok demo_args 5000 demo_mem"
    using demo_buffers [of 40] by (simp add: demo_args_def buffers_ok_def dec_ok_def a_iend_def a_oend_def)
  from generic_refines_parser [OF this] show ?thesis
    by (auto simp: demo_args_def a_partial_def a_oend_def)
qed

end
