(* ===== verification/Lz4_StreamTheorems.thy ===== *)
theory Lz4_StreamTheorems
  imports Lz4_StreamDecode Lz4_DecodeTheorems
begin

text \<open>
  The properties of the decoders with a history, of partial decoding and of the assembler path, with
  witnesses on the memory of \<open>Lz4_DecodeTheorems\<close>.
\<close>

section \<open>Concrete blocks and states\<close>

text \<open>A block of one sequence that refers to the dictionary at address 4000.\<close>

definition dict_seqs :: "lz4_seq list" where
  "dict_seqs = [LSeq [] 4 8]"

definition dict_block :: "byte list" where
  "dict_block = [4, 4, 0, 80, 5, 6, 7, 8, 9]"

definition dict_mem :: mem where
  "dict_mem = place 1000 dict_block (place 4000 [1, 2, 3, 4] (place 5000 (replicate 40 0) no_mem))"

lemma dict_encode: "encode_block dict_seqs demo_tail = dict_block"
  by (simp add: dict_seqs_def demo_tail_def dict_block_def encode_block_def encode_last_def token_byte_def len_ext_def le16_def)

lemma dict_expand: "expand [1, 2, 3, 4] dict_seqs demo_tail = [1, 2, 3, 4] @ [1, 2, 3, 4, 1, 2, 3, 4, 5, 6, 7, 8, 9]"
  by (simp add: dict_seqs_def demo_tail_def expand_def numeral_eq_Suc)

lemma dict_total: "total_len dict_seqs demo_tail = 13"
  by (simp add: dict_seqs_def demo_tail_def total_len_def)

lemma dict_wf: "seqs_ok [1, 2, 3, 4] dict_seqs" "block_end_ok dict_seqs demo_tail"
  by (simp_all add: dict_seqs_def demo_tail_def block_end_ok_def)

lemma dict_bytes: "bytes dict_mem 1000 1009 = dict_block" "bytes dict_mem 4000 4004 = [1, 2, 3, 4]"
  unfolding dict_mem_def by (simp_all add: bytes_place bytes_place_other dict_block_def)

lemma dict_mapped: "mapped dict_mem 1000 1009" "mapped dict_mem 4000 4004" "mapped dict_mem 5000 5040"
proof -
  show "mapped dict_mem 1000 1009" unfolding dict_mem_def by (rule mapped_place) (simp_all add: dict_block_def)
  show "mapped dict_mem 4000 4004" unfolding dict_mem_def by (rule mapped_place_other, rule mapped_place) simp_all
  show "mapped dict_mem 5000 5040"
    unfolding dict_mem_def by (rule mapped_place_other, rule mapped_place_other, rule mapped_place) simp_all
qed

lemma dict_buffers: "buffers_ok dict_mem 1000 9 5000 40"
  using dict_mapped by (simp add: buffers_ok_def)

lemma dict_ready: "dict_history 4000 4 dict_mem 1000 9 5000 40 [1, 2, 3, 4]"
  using dict_buffers dict_mapped(2) dict_bytes(2) by (simp add: dict_history_def)

section \<open>Dictionaries\<close>

text \<open>
  C27: with a dictionary of up to two gigabytes, in front of the output or anywhere else,
  \<open>LZ4_decompress_safe_usingDict\<close> decodes a block whose matches may reach into the dictionary to its
  expansion after the dictionary, whichever instance of the decoder it selects.
\<close>

theorem usingDict_complete:
  assumes "dict_history dict len m s n d cap D"
    and "bytes m s (s + n) = encode_block qs ls" "seqs_ok D qs" "block_end_ok qs ls" "int (total_len qs ls) \<le> cap"
  shows "\<exists>m'. LZ4_decompress_safe_usingDict m s d n cap dict len = Some (int (total_len qs ls), m') \<and>
     frame m m' d (d + cap) \<and> D @ bytes m' d (d + int (total_len qs ls)) = expand D qs ls"
  using dict_dec.complete [OF assms(1,2) seqs_ok_fit [OF assms(3)] assms(4,5)] .

theorem usingDict_complete_witness:
  "\<exists>m'. LZ4_decompress_safe_usingDict dict_mem 1000 5000 9 40 4000 4 = Some (13, m') \<and>
     bytes m' 5000 5013 = [1, 2, 3, 4, 1, 2, 3, 4, 5, 6, 7, 8, 9]"
  using usingDict_complete [OF dict_ready, of dict_seqs demo_tail] dict_bytes dict_wf
  by (auto simp: dict_encode dict_expand dict_total)

text \<open>
  C28: for arbitrary input bytes and an arbitrary dictionary, \<open>LZ4_decompress_safe_usingDict\<close> returns
  without undefined behaviour and writes only to the output buffer.
\<close>

theorem usingDict_total:
  assumes "buffers_ok m s n d cap" "0 < dict" "0 \<le> len" "len < 2 ^ 31" "mapped m dict (dict + len)"
    "dict + len \<le> d \<or> d + cap \<le> dict"
  shows "\<exists>v m'. LZ4_decompress_safe_usingDict m s d n cap dict len = Some (v, m') \<and>
     frame m m' d (d + cap) \<and> - n - 1 \<le> v \<and> v \<le> cap"
proof -
  have "dict_history dict len m s n d cap (bytes m dict (dict + len))" using assms by (simp add: dict_history_def)
  then show ?thesis by (rule dict_dec.total)
qed

theorem usingDict_total_witness:
  "\<exists>v m'. LZ4_decompress_safe_usingDict dict_mem 1000 5000 9 40 4000 4 = Some (v, m') \<and> frame dict_mem m' 5000 5040"
  using usingDict_total [OF dict_buffers, of 4000 4] dict_mapped(2) by auto

section \<open>Partial decoding\<close>

text \<open>
  C29: \<open>LZ4_decompress_safe_partial\<close> on a block of the format decodes exactly the first bytes of its
  expansion, as many as were asked for and fit, or all of them.
\<close>

theorem decompress_safe_partial_prefix:
  fixes target cap :: int
  assumes "buffers_ok m s n d (min target cap)"
    and "bytes m s (s + n) = encode_block qs ls" "seqs_ok [] qs" "block_end_ok qs ls"
  defines "k \<equiv> min (min target cap) (int (total_len qs ls))"
  shows "\<exists>m'. LZ4_decompress_safe_partial m s d n target cap = Some (k, m') \<and> frame m m' d (d + min target cap) \<and>
     bytes m' d (d + k) = take (nat k) (expand [] qs ls)"
proof -
  let ?a = "\<lparr>a_src = s, a_dst = d, a_srcSize = n, a_outputSize = min target cap,
        a_partialDecoding = partial_decode, a_dict = noDict, a_lowPrefix = d, a_dictStart = 0, a_dictSize = 0\<rparr>"
  have ok: "dec_ok ?a d m" using assms(1) by (auto simp: buffers_ok_def dec_ok_def a_iend_def a_oend_def)
  have h: "hist ?a d m' op = bytes m' d op" for m' op by (simp add: hist_def)
  have "\<exists>m'. LZ4_decompress_generic ?a m = Some (k, m') \<and> frame m m' (a_dst ?a) (a_oend ?a) \<and>
     hist ?a d m' (a_dst ?a + k) = take (length (hist ?a d m (a_dst ?a)) + nat k) (expand (hist ?a d m (a_dst ?a)) qs ls)"
    using generic_partial [OF ok, of qs ls] assms(2-4) by (simp add: k_def h a_iend_def a_partial_def)
  then show ?thesis by (simp add: h LZ4_decompress_safe_partial_def Let_def a_oend_def)
qed

theorem decompress_safe_partial_prefix_witness:
  "\<exists>m'. LZ4_decompress_safe_partial demo_mem 1000 5000 13 10 40 = Some (10, m') \<and>
     bytes m' 5000 5010 = [1, 2, 3, 4, 1, 2, 3, 4, 1, 2]"
proof -
  have b: "buffers_ok demo_mem 1000 13 5000 (min 10 40)" using demo_buffers [of 10] by simp
  have e: "bytes demo_mem 1000 (1000 + 13) = encode_block demo_seqs demo_tail" using demo_bytes(1) by (simp add: demo_encode)
  from decompress_safe_partial_prefix [OF b e demo_wf] show ?thesis by (auto simp: demo_expand demo_total)
qed

section \<open>The assembler path\<close>

text \<open>
  C30: on ARM64, with assembler routines that decode leading sequences as described and both kinds of
  CPU, \<open>LZ4_arm64_decompress_safe\<close>, called as the library calls it (not for decoding in place), decodes a
  block of the format to the same bytes as the C decoder: the C code takes over at the positions the routine
  reached.
\<close>

theorem arm64_decompress_safe_complete:
  assumes "asm_contract (lz4_asm E)" "asm_contract (lz4_asm_noprfm E)" "buffers_ok m s n d cap"
    and "bytes m s (s + n) = encode_block qs ls" "seqs_ok [] qs" "block_end_ok qs ls" "int (total_len qs ls) \<le> cap"
  shows "\<exists>fns' m'. LZ4_arm64_decompress_safe E fns m s d n cap False = Some (fns', int (total_len qs ls), m') \<and>
     frame m m' d (d + cap) \<and> bytes m' d (d + int (total_len qs ls)) = expand [] qs ls"
  by (rule arm64_complete [OF assms])

text \<open>A routine that stops at once fulfils the contract.\<close>

definition lazy_asm :: asm_code where
  "lazy_asm m dp db de sp se dip = Some (0, dp, sp, m)"

definition lazy_env :: cpu_env where
  "lazy_env = \<lparr>may_use_simd = True, smp_processor_id = 0, cpu_is_cortex_a53 = False, lz4_asm = lazy_asm, lz4_asm_noprfm = lazy_asm\<rparr>"

lemma lazy_contract: "asm_contract lazy_asm"
  unfolding asm_contract_def
proof (intro allI impI exI [of _ "0 :: nat"])
  fix m s n d cap qs ls
  show "\<exists>m'. 0 \<le> length qs \<and>
     lazy_asm m d d (d + cap - LZ4_FAST_MARGIN) s (s + n - LZ4_FAST_MARGIN) False =
       Some (0, d + int (total_len (take 0 qs) []), s + int (length (concat (map encode_seq (take 0 qs)))), m') \<and>
     frame m m' d (d + cap) \<and> bytes m' d (d + int (total_len (take 0 qs) [])) = expand [] (take 0 qs) []"
    by (intro exI [of _ m]) (simp add: lazy_asm_def total_len_def expand_def frame_refl)
qed

theorem arm64_decompress_safe_complete_witness:
  "\<exists>fns' m'. LZ4_arm64_decompress_safe lazy_env initial_asm_fn demo_mem 1000 5000 13 40 False = Some (fns', 17, m') \<and>
     bytes m' 5000 5017 = [1, 2, 3, 4, 1, 2, 3, 4, 1, 2, 3, 4, 5, 6, 7, 8, 9]"
proof -
  have c: "asm_contract (lz4_asm lazy_env)" "asm_contract (lz4_asm_noprfm lazy_env)"
    using lazy_contract by (simp_all add: lazy_env_def)
  have e: "bytes demo_mem 1000 (1000 + 13) = encode_block demo_seqs demo_tail" using demo_bytes(1) by (simp add: demo_encode)
  from arm64_decompress_safe_complete [OF c demo_buffers [of 40] e demo_wf, of initial_asm_fn]
  show ?thesis by (auto simp: demo_expand demo_total)
qed

section \<open>Streaming\<close>

text \<open>
  C26: refinement of streaming decompression. A stream state stands for a history of bytes; a block that is
  valid after it is decoded, and the new state stands for that history (for the old prefix only, when
  the output moved) followed by the decoded bytes. So blocks can be decoded one after the other, in a
  linear or in a ring buffer.
\<close>

theorem safe_continue_refines:
  assumes r: "stream_ready sd m s n d cap D"
    and blk: "bytes m s (s + n) = encode_block qs ls" "seqs_ok D qs" "block_end_ok qs ls" "expand D qs ls = D @ X"
    and room: "X \<noteq> []" "int (length X) \<le> cap"
  shows "\<exists>sd' m'. LZ4_decompress_safe_continue E fns m sd s d n cap = Some (fns, int (length X), sd', m') \<and>
     frame m m' d (d + cap) \<and> bytes m' d (d + int (length X)) = X \<and> sd_ok m' sd' \<and>
     sd_history m' sd' = (if prefixEnd sd = d then sd_history m sd else sd_prefix m sd) @ X"
proof -
  have len: "total_len qs ls = length X" using length_expand [of D qs ls] blk(4) by simp
  from cont_dec.complete [OF r blk(1) seqs_ok_fit [OF blk(2)] blk(3)] room(2) len blk(4)
  obtain m' where m': "continue_call sd m s n d cap = Some (int (length X), m')" "frame m m' d (d + cap)"
    "bytes m' d (d + int (length X)) = X" by auto
  have "\<not> int (length X) \<le> 0" using room(1) by simp
  then have "LZ4_decompress_safe_continue E fns m sd s d n cap = Some (fns, int (length X), sd_after sd d (int (length X)), m')"
    using continue_eq [OF r] m'(1) by simp
  moreover have "0 < int (length X)" using room(1) by simp
  ultimately show ?thesis using sd_after_ok [OF r m'(2) _ room(2)] m'(2,3) by auto
qed

definition demo_sd :: LZ4_streamDecode_t_internal where
  "demo_sd = \<lparr>externalDict = 0, prefixEnd = 4004, extDictSize = 0, prefixSize = 4\<rparr>"

theorem safe_continue_refines_witness:
  "\<exists>sd' m'. LZ4_decompress_safe_continue lazy_env initial_asm_fn dict_mem demo_sd 1000 5000 9 40 = Some (initial_asm_fn, 13, sd', m') \<and>
     sd_ok m' sd' \<and> sd_history m' sd' = [1, 2, 3, 4] @ [1, 2, 3, 4, 1, 2, 3, 4, 5, 6, 7, 8, 9]"
proof -
  have p: "sd_prefix dict_mem demo_sd = [1, 2, 3, 4]" using dict_bytes(2) by (simp add: sd_prefix_def demo_sd_def)
  have r: "stream_ready demo_sd dict_mem 1000 9 5000 40 [1, 2, 3, 4]"
    using dict_buffers dict_mapped(2) dict_bytes(2) p by (simp add: stream_ready_def demo_sd_def sd_ok_def)
  have e: "bytes dict_mem 1000 (1000 + 9) = encode_block dict_seqs demo_tail" using dict_bytes(1) by (simp add: dict_encode)
  from safe_continue_refines [OF r e dict_wf dict_expand, of lazy_env initial_asm_fn] p
  show ?thesis by (auto simp: demo_sd_def)
qed

text \<open>
  A new stream. After \<open>LZ4_setStreamDecode\<close> without a dictionary, the first block (which may take the
  assembler path) is decoded to its expansion, and the state stands for exactly these bytes.
\<close>

theorem first_block_starts_stream:
  assumes asm: "asm_contract (lz4_asm E)" "asm_contract (lz4_asm_noprfm E)"
    and b: "buffers_ok m s n d cap" "0 < d"
    and blk: "bytes m s (s + n) = encode_block qs ls" "seqs_ok [] qs" "block_end_ok qs ls" "expand [] qs ls = X"
    and room: "X \<noteq> []" "int (length X) \<le> cap"
  shows "\<exists>fns' sd' m'.
     LZ4_decompress_safe_continue E fns m (fst (LZ4_setStreamDecode sd 0 0)) s d n cap = Some (fns', int (length X), sd', m') \<and>
     frame m m' d (d + cap) \<and> sd_ok m' sd' \<and> sd_history m' sd' = X"
proof -
  let ?sd = "fst (LZ4_setStreamDecode sd 0 0)"
  have st: "prefixSize ?sd = 0" "extDictSize ?sd = 0" "externalDict ?sd = 0"
    by (simp_all add: LZ4_setStreamDecode_def u64_def)
  have w: "u64 n = n" "u64 cap = cap" using b(1) by (auto simp: buffers_ok_def intro!: u64_id)
  have len: "total_len qs ls = length X" using length_expand [of "[]" qs ls] blk(4) by simp
  obtain fns' m' where m': "LZ4_arm64_decompress_safe E fns m s d n cap False = Some (fns', int (length X), m')"
    "frame m m' d (d + cap)" "bytes m' d (d + int (length X)) = X"
    using arm64_complete [OF asm b(1) blk(1-3), of fns] room(2) len blk(4) by auto
  let ?sd' = "?sd\<lparr>prefixSize := int (length X), prefixEnd := d + int (length X)\<rparr>"
  have "LZ4_decompress_safe_continue E fns m ?sd s d n cap = Some (fns', int (length X), ?sd', m')"
    using st(1) m'(1) room(1) w by (simp add: LZ4_decompress_safe_continue_def)
  moreover have "sd_history m' ?sd' = X" using m'(3) st(2) by (simp add: sd_history_def sd_prefix_def)
  moreover have "mapped m' d (d + int (length X))"
    using b(1) room(2) mapped_sub [of m d "d + cap" d "d + int (length X)"] by (simp add: buffers_ok_def frame_mapped [OF m'(2)])
  then have "sd_ok m' ?sd'" using st b(2) by (simp add: sd_ok_def)
  ultimately show ?thesis using m'(2) by blast
qed

theorem first_block_starts_stream_witness:
  "\<exists>fns' sd' m'. LZ4_decompress_safe_continue lazy_env initial_asm_fn demo_mem (fst (LZ4_setStreamDecode demo_sd 0 0)) 1000 5000 13 40 =
     Some (fns', 17, sd', m') \<and> sd_ok m' sd' \<and> sd_history m' sd' = [1, 2, 3, 4, 1, 2, 3, 4, 1, 2, 3, 4, 5, 6, 7, 8, 9]"
proof -
  have c: "asm_contract (lz4_asm lazy_env)" "asm_contract (lz4_asm_noprfm lazy_env)"
    using lazy_contract by (simp_all add: lazy_env_def)
  have e: "bytes demo_mem 1000 (1000 + 13) = encode_block demo_seqs demo_tail" using demo_bytes(1) by (simp add: demo_encode)
  have b: "buffers_ok demo_mem 1000 13 5000 40" by (rule demo_buffers) simp_all
  have d: "0 < (5000 :: int)" by simp
  from first_block_starts_stream [OF c b d e demo_wf demo_expand, of initial_asm_fn demo_sd] show ?thesis by auto
qed

end
