(* ===== verification/Lz4_UnsafeTheorems.thy ===== *)
theory Lz4_UnsafeTheorems
  imports Lz4_UnsafeProofs Lz4_StreamTheorems
begin

text \<open>
  The properties of the deprecated \<open>LZ4_decompress_fast*\<close> functions: on well-formed blocks they do what
  the safe decoders do, without and with a dictionary and in a stream.
\<close>

section \<open>The contract of the decoders that trust their input\<close>

definition exact_call :: "mem \<Rightarrow> int \<Rightarrow> int \<Rightarrow> int \<Rightarrow> int \<Rightarrow> byte list \<Rightarrow> (int \<times> mem) option \<Rightarrow> bool" where
  "exact_call m s n d osz D c \<longleftrightarrow>
     (\<exists>u a lo. c = LZ4_decompress_unsafe_generic u m \<and> unsafe_call u a lo \<and> dec_ok a lo m \<and> a_src a = s \<and> a_srcSize a = n \<and>
        a_dst a = d \<and> a_outputSize a = osz \<and> hist a lo m d = D)"

text \<open>
  The interface: told the size of the output, such a decoder is a call of the unsafe generic decoder
  on the history \<open>D\<close>; \<open>n\<close>, the size of the block, is known to the caller only.
\<close>

locale exact_decoder =
  fixes decode :: "mem \<Rightarrow> int \<Rightarrow> int \<Rightarrow> int \<Rightarrow> (int \<times> mem) option"
    and ready :: "mem \<Rightarrow> int \<Rightarrow> int \<Rightarrow> int \<Rightarrow> int \<Rightarrow> byte list \<Rightarrow> bool"
  assumes call: "ready m s n d osz D \<Longrightarrow> exact_call m s n d osz D (decode m s d osz)"
begin

lemma complete:
  assumes "ready m s n d (int (total_len qs ls)) D" and blk: "bytes m s (s + n) = encode_block qs ls"
    and wf: "seqs_ok D qs" "block_end_ok qs ls"
  shows "\<exists>m'. decode m s d (int (total_len qs ls)) = Some (n, m') \<and> frame m m' d (d + int (total_len qs ls)) \<and>
     D @ bytes m' d (d + int (total_len qs ls)) = expand D qs ls"
proof -
  obtain u a lo where a: "decode m s d (int (total_len qs ls)) = LZ4_decompress_unsafe_generic u m" "unsafe_call u a lo"
    "dec_ok a lo m" "a_src a = s" "a_srcSize a = n" "a_dst a = d" "a_outputSize a = int (total_len qs ls)" "hist a lo m d = D"
    using call [OF assms(1)] by (auto simp: exact_call_def)
  then show ?thesis
    using unsafe_generic_complete [OF a(2,3), of qs ls] blk wf by (auto simp: a_iend_def a_oend_def)
qed

end

lemma exact_callI:
  assumes "c = LZ4_decompress_unsafe_generic u m" "unsafe_call u a lo" "dec_ok a lo m" "a_src a = s" "a_srcSize a = n"
    "a_dst a = d" "a_outputSize a = osz" "hist a lo m d = D"
  shows "exact_call m s n d osz D c"
  using assms unfolding exact_call_def by blast

text \<open>The safe decoder's arguments for the same buffers.\<close>

definition as_args :: "int \<Rightarrow> int \<Rightarrow> int \<Rightarrow> int \<Rightarrow> int \<Rightarrow> int \<Rightarrow> int \<Rightarrow> dargs" where
  "as_args s n d osz lo dict len =
     \<lparr>a_src = s, a_dst = d, a_srcSize = n, a_outputSize = osz, a_partialDecoding = decode_full_block,
      a_dict = usingExtDict, a_lowPrefix = lo, a_dictStart = dict, a_dictSize = len\<rparr>"

lemma unsafe_args_call:
  assumes b: "buffers_ok m s n d osz" and lo: "0 \<le> psize" "0 \<le> d - psize" "mapped m (d - psize) d"
    and dict: "0 \<le> len" "len < 2 ^ 32"
      "0 < len \<Longrightarrow> 0 < dict \<and> mapped m dict (dict + len) \<and> (dict + len \<le> d \<or> d + osz \<le> dict)"
    and D: "D = bytes m dict (dict + len) @ bytes m (d - psize) d"
  shows "exact_call m s n d osz D (LZ4_decompress_unsafe_generic (unsafe_args s d osz psize dict len) m)"
proof -
  have "mapped m (d - psize) (d + osz)" using mapped_join [OF lo(3)] b by (simp add: buffers_ok_def)
  then have "dec_ok (as_args s n d osz (d - psize) dict len) (d - psize) m"
    using b lo dict by (auto simp: dec_ok_def buffers_ok_def as_args_def a_iend_def a_oend_def)
  then show ?thesis
    using dict D by (intro exact_callI [OF refl, where a = "as_args s n d osz (d - psize) dict len" and lo = "d - psize"])
      (auto simp: unsafe_call_def unsafe_args_def u_prefixStart_def as_args_def hist_def)
qed

lemma decompress_fast_call:
  assumes "no_history m s n d osz D" shows "exact_call m s n d osz D (LZ4_decompress_fast m s d osz)"
  using assms unfolding LZ4_decompress_fast_def no_history_def
  by (intro unsafe_args_call) (auto simp: buffers_ok_def mapped_def)

interpretation fast_dec: exact_decoder LZ4_decompress_fast no_history
  by unfold_locales (rule decompress_fast_call)

lemma fast_usingDict_call:
  assumes h: "dict_history dict len m s n d osz D"
  shows "exact_call m s n d osz D (LZ4_decompress_fast_usingDict m s d osz dict len)"
proof -
  note h' = h [unfolded dict_history_def]
  have w: "u64 len = len" using h' by (intro u64_id) auto
  show ?thesis
  proof (cases "len = 0 \<or> dict + len = d")
    case True
    then have c: "LZ4_decompress_fast_usingDict m s d osz dict len = LZ4_decompress_unsafe_generic (unsafe_args s d osz len 0 0) m"
      by (simp add: LZ4_decompress_fast_usingDict_def w)
    show ?thesis
      unfolding c using True h' by (intro unsafe_args_call) (auto simp: buffers_ok_def mapped_def)
  next
    case False
    then have c: "LZ4_decompress_fast_usingDict m s d osz dict len = LZ4_decompress_unsafe_generic (unsafe_args s d osz 0 dict len) m"
      by (simp add: LZ4_decompress_fast_usingDict_def LZ4_decompress_fast_extDict_def w)
    show ?thesis
      unfolding c using False h' by (intro unsafe_args_call) (auto simp: buffers_ok_def mapped_def)
  qed
qed

interpretation fast_dict_dec: exact_decoder "\<lambda>m s d osz. LZ4_decompress_fast_usingDict m s d osz dict len" "dict_history dict len"
  for dict len
  by unfold_locales (rule fast_usingDict_call)

text \<open>The call of a stream, whose history is not cut at 64 KB here.\<close>

definition fast_stream_ready :: "LZ4_streamDecode_t_internal \<Rightarrow> mem \<Rightarrow> int \<Rightarrow> int \<Rightarrow> int \<Rightarrow> int \<Rightarrow> byte list \<Rightarrow> bool" where
  "fast_stream_ready sd m s n d osz D \<longleftrightarrow> buffers_ok m s n d osz \<and> 0 < d \<and> sd_ok m sd \<and> 0 < prefixSize sd \<and>
     prefixSize sd < 2 ^ 32 \<and> extDictSize sd < 2 ^ 32 \<and>
     (if prefixEnd sd = d
      then (0 < extDictSize sd \<longrightarrow> externalDict sd + extDictSize sd \<le> d \<or> d + osz \<le> externalDict sd) \<and> D = sd_history m sd
      else (prefixEnd sd \<le> d \<or> d + osz \<le> prefixEnd sd - prefixSize sd) \<and> D = sd_prefix m sd)"

definition fast_continue_call :: "LZ4_streamDecode_t_internal \<Rightarrow> mem \<Rightarrow> int \<Rightarrow> int \<Rightarrow> int \<Rightarrow> (int \<times> mem) option" where
  "fast_continue_call sd m s d osz =
     (if prefixEnd sd = d
      then LZ4_decompress_unsafe_generic (unsafe_args s d osz (prefixSize sd) (externalDict sd) (extDictSize sd)) m
      else LZ4_decompress_fast_extDict m s d osz (prefixEnd sd - prefixSize sd) (prefixSize sd))"

lemma fast_continue_exact:
  assumes "fast_stream_ready sd m s n d osz D"
  shows "exact_call m s n d osz D (fast_continue_call sd m s d osz)"
proof -
  note h = assms [unfolded fast_stream_ready_def sd_ok_def]
  show ?thesis
  proof (cases "prefixEnd sd = d")
    case True
    then have c: "fast_continue_call sd m s d osz =
        LZ4_decompress_unsafe_generic (unsafe_args s d osz (prefixSize sd) (externalDict sd) (extDictSize sd)) m"
      by (simp add: fast_continue_call_def)
    show ?thesis
      unfolding c using True h by (intro unsafe_args_call) (auto simp: sd_history_def sd_prefix_def)
  next
    case False
    then have c: "fast_continue_call sd m s d osz =
        LZ4_decompress_unsafe_generic (unsafe_args s d osz 0 (prefixEnd sd - prefixSize sd) (prefixSize sd)) m"
      by (simp add: fast_continue_call_def LZ4_decompress_fast_extDict_def)
    show ?thesis
      unfolding c using False h by (intro unsafe_args_call) (auto simp: buffers_ok_def mapped_def sd_prefix_def)
  qed
qed

interpretation fast_cont_dec: exact_decoder "fast_continue_call sd" "fast_stream_ready sd" for sd
  by unfold_locales (rule fast_continue_exact)

lemma fast_continue_eq:
  assumes "fast_stream_ready sd m s n d osz D" "0 \<le> osz" "osz < 2 ^ 31"
  shows "LZ4_decompress_fast_continue m sd s d osz =
     map_option (\<lambda>(r, m'). (r, if r \<le> 0 then
       (if prefixEnd sd = d then sd else sd\<lparr>extDictSize := prefixSize sd, externalDict := prefixEnd sd - prefixSize sd\<rparr>)
       else sd_after sd d osz, m')) (fast_continue_call sd m s d osz)"
proof -
  have w: "u64 osz = osz" using assms by (intro u64_id) auto
  have u: "u64 (prefixSize sd + osz) = prefixSize sd + osz"
    using assms by (intro u64_id) (auto simp: fast_stream_ready_def)
  have ne: "prefixSize sd \<noteq> 0" using assms by (simp add: fast_stream_ready_def)
  show ?thesis
  proof (cases "fast_continue_call sd m s d osz")
    case None
    then show ?thesis
      using ne by (cases "prefixEnd sd = d") (simp_all add: LZ4_decompress_fast_continue_def fast_continue_call_def Let_def)
  next
    case (Some r)
    then show ?thesis
      using ne u w by (cases "prefixEnd sd = d"; cases r)
        (auto simp: LZ4_decompress_fast_continue_def fast_continue_call_def sd_after_def Let_def)
  qed
qed

section \<open>Properties\<close>

text \<open>
  C31: the two decoders agree on every block of the format. \<open>LZ4_decompress_fast\<close>, told the exact size of
  the output, returns the size of the block and \<open>LZ4_decompress_safe\<close>, told the size of the block, the
  size of the output, and both write the same bytes and nothing else.
\<close>

theorem decompress_fast_agrees:
  assumes b: "buffers_ok m s n d (int (total_len qs ls))" and blk: "bytes m s (s + n) = encode_block qs ls"
    and wf: "seqs_ok [] qs" "block_end_ok qs ls"
  shows "\<exists>m1 m2. LZ4_decompress_fast m s d (int (total_len qs ls)) = Some (n, m1) \<and>
     LZ4_decompress_safe m s d n (int (total_len qs ls)) = Some (int (total_len qs ls), m2) \<and> m1 = m2"
proof -
  let ?l = "int (total_len qs ls)"
  have h: "no_history m s n d ?l []" using b by (simp add: no_history_def)
  obtain m1 where m1: "LZ4_decompress_fast m s d ?l = Some (n, m1)" "frame m m1 d (d + ?l)" "bytes m1 d (d + ?l) = expand [] qs ls"
    using fast_dec.complete [OF h blk wf] by auto
  obtain m2 where m2: "LZ4_decompress_safe m s d n ?l = Some (?l, m2)" "frame m m2 d (d + ?l)" "bytes m2 d (d + ?l) = expand [] qs ls"
    using safe_dec.complete [OF h blk seqs_ok_fit [OF wf(1)] wf(2)] by auto
  have "m1 x = m2 x" for x
  proof (cases "d \<le> x \<and> x < d + ?l")
    case True
    have mp: "mapped m1 d (d + ?l)" "mapped m2 d (d + ?l)"
      using b frame_mapped [OF m1(2)] frame_mapped [OF m2(2)] by (simp_all add: buffers_ok_def)
    show ?thesis using mapped_Some_bytes [OF mp(1)] mapped_Some_bytes [OF mp(2)] True m1(3) m2(3) by simp
  next
    case False
    then have "x < d \<or> d + ?l \<le> x" by linarith
    then show ?thesis using frame_at [OF m1(2)] frame_at [OF m2(2)] by simp
  qed
  then show ?thesis using m1(1) m2(1) by blast
qed

theorem decompress_fast_agrees_witness:
  "\<exists>m'. LZ4_decompress_fast demo_mem 1000 5000 17 = Some (13, m') \<and> LZ4_decompress_safe demo_mem 1000 5000 13 17 = Some (17, m')"
proof -
  have e: "bytes demo_mem 1000 (1000 + 13) = encode_block demo_seqs demo_tail" using demo_bytes(1) by (simp add: demo_encode)
  have b: "buffers_ok demo_mem 1000 13 5000 (int (total_len demo_seqs demo_tail))"
    using demo_buffers [of 17] by (simp add: demo_total)
  from decompress_fast_agrees [OF b e demo_wf] show ?thesis by (simp add: demo_total)
qed

text \<open>
  C32: with a dictionary, in front of the output or elsewhere, \<open>LZ4_decompress_fast_usingDict\<close> decodes a
  block whose matches reach into it to its expansion after the dictionary, and returns the size of the
  block.
\<close>

theorem fast_usingDict_complete:
  assumes "dict_history dict len m s n d (int (total_len qs ls)) D" "bytes m s (s + n) = encode_block qs ls"
    "seqs_ok D qs" "block_end_ok qs ls"
  shows "\<exists>m'. LZ4_decompress_fast_usingDict m s d (int (total_len qs ls)) dict len = Some (n, m') \<and>
     frame m m' d (d + int (total_len qs ls)) \<and> D @ bytes m' d (d + int (total_len qs ls)) = expand D qs ls"
  using fast_dict_dec.complete [OF assms] .

theorem fast_usingDict_complete_witness:
  "\<exists>m'. LZ4_decompress_fast_usingDict dict_mem 1000 5000 13 4000 4 = Some (9, m') \<and>
     bytes m' 5000 5013 = [1, 2, 3, 4, 1, 2, 3, 4, 5, 6, 7, 8, 9]"
proof -
  have e: "bytes dict_mem 1000 (1000 + 9) = encode_block dict_seqs demo_tail" using dict_bytes(1) by (simp add: dict_encode)
  have "mapped dict_mem 5000 (5000 + 13)" using mapped_sub [OF dict_mapped(3)] by simp
  then have r: "dict_history 4000 4 dict_mem 1000 9 5000 (int (total_len dict_seqs demo_tail)) [1, 2, 3, 4]"
    using dict_ready by (simp add: dict_history_def buffers_ok_def dict_total)
  from fast_usingDict_complete [OF r e dict_wf] show ?thesis by (auto simp: dict_total dict_expand)
qed

text \<open>
  C33: refinement of the streaming variant: a block that is valid after the history of the stream is
  decoded, and the new state stands for the history and the decoded bytes.
\<close>

theorem fast_continue_refines:
  assumes r: "fast_stream_ready sd m s n d (int (length X)) D"
    and blk: "bytes m s (s + n) = encode_block qs ls" "seqs_ok D qs" "block_end_ok qs ls" "expand D qs ls = D @ X" and X: "X \<noteq> []"
  shows "\<exists>sd' m'. LZ4_decompress_fast_continue m sd s d (int (length X)) = Some (n, sd', m') \<and>
     frame m m' d (d + int (length X)) \<and> bytes m' d (d + int (length X)) = X \<and> sd_ok m' sd' \<and>
     sd_history m' sd' = (if prefixEnd sd = d then sd_history m sd else sd_prefix m sd) @ X"
proof -
  let ?l = "int (length X)"
  have len: "total_len qs ls = length X" using length_expand [of D qs ls] blk(4) by simp
  obtain m' where m': "fast_continue_call sd m s d ?l = Some (n, m')" "frame m m' d (d + ?l)" "bytes m' d (d + ?l) = X"
    using fast_cont_dec.complete [of sd m s n d qs ls D] r blk len by auto
  have "0 < length (encode_block qs ls)" using encode_block_nonempty by blast
  then have "0 < length (bytes m s (s + n))" using blk(1) by simp
  then have n: "\<not> n \<le> 0" by simp
  have sz: "0 \<le> ?l" "?l < 2 ^ 31" "0 < ?l" using r X by (auto simp: fast_stream_ready_def buffers_ok_def)
  have code: "LZ4_decompress_fast_continue m sd s d ?l = Some (n, sd_after sd d ?l, m')"
    using fast_continue_eq [OF r sz(1,2)] m'(1) n by simp
  have r': "stream_ready sd m s n d ?l
      (if prefixEnd sd = d then if 65535 \<le> prefixSize sd then sd_prefix m sd else sd_history m sd else sd_prefix m sd)"
    using r by (simp add: stream_ready_def fast_stream_ready_def)
  show ?thesis
    using code m'(2,3) sd_after_ok [OF r' m'(2) sz(3) order_refl] by auto
qed

theorem fast_continue_refines_witness:
  "\<exists>sd' m'. LZ4_decompress_fast_continue dict_mem demo_sd 1000 5000 13 = Some (9, sd', m') \<and>
     sd_ok m' sd' \<and> sd_history m' sd' = [1, 2, 3, 4] @ [1, 2, 3, 4, 1, 2, 3, 4, 5, 6, 7, 8, 9]"
proof -
  let ?X = "[1, 2, 3, 4, 1, 2, 3, 4, 5, 6, 7, 8, 9] :: byte list"
  have p: "sd_prefix dict_mem demo_sd = [1, 2, 3, 4]" using dict_bytes(2) by (simp add: sd_prefix_def demo_sd_def)
  have "mapped dict_mem 5000 (5000 + 13)" using mapped_sub [OF dict_mapped(3)] by simp
  then have r: "fast_stream_ready demo_sd dict_mem 1000 9 5000 (int (length ?X)) [1, 2, 3, 4]"
    using dict_buffers dict_mapped(2) dict_bytes(2) p
    by (simp add: fast_stream_ready_def buffers_ok_def demo_sd_def sd_ok_def)
  have e: "bytes dict_mem 1000 (1000 + 9) = encode_block dict_seqs demo_tail" using dict_bytes(1) by (simp add: dict_encode)
  from fast_continue_refines [OF r e dict_wf dict_expand] p show ?thesis by (auto simp: demo_sd_def)
qed

end
