(* ===== verification/Lz4_HashTable.thy ===== *)
theory Lz4_HashTable
  imports Lz4_Common
begin

unbundle bit_operations_syntax

text \<open>
  The state of the fast compressor of \<open>lib/lz4/lz4.c\<close>: the stream structure of \<open>lz4.h\<close>, its hash
  table and the operations on both. The table is the byte array that the code casts to an array of
  \<open>U32\<close>, \<open>U16\<close> or pointers, so that a table written in one type and read in another is modelled as
  the code behaves; an index past its end is undefined behaviour (\<open>None\<close>).
\<close>

section \<open>The stream structure\<close>

datatype tableType_t = clearedTable | byPtr | byU32 | byU16

datatype limitedOutput_directive = notLimited | limitedOutput | fillOutput

datatype dictIssue_directive = noDictIssue | dictSmall

definition LZ4_MEMORY_USAGE :: int where [simp]: "LZ4_MEMORY_USAGE = 14"
definition LZ4_HASHLOG :: nat where [simp]: "LZ4_HASHLOG = 12"
definition LZ4_HASHTABLESIZE :: int where [simp]: "LZ4_HASHTABLESIZE = 16384"
definition LZ4_HASH_SIZE_U32 :: int where [simp]: "LZ4_HASH_SIZE_U32 = 4096"
definition LZ4_64Klimit :: int where [simp]: "LZ4_64Klimit = 64 * KB + (MFLIMIT - 1)"
definition LZ4_skipTrigger :: nat where [simp]: "LZ4_skipTrigger = 6"
definition LZ4_ACCELERATION_DEFAULT :: int where [simp]: "LZ4_ACCELERATION_DEFAULT = 1"
definition LZ4_ACCELERATION_MAX :: int where [simp]: "LZ4_ACCELERATION_MAX = 65537"
definition LZ4_STREAM_MINSIZE :: int where [simp]: "LZ4_STREAM_MINSIZE = LZ4_HASHTABLESIZE + 32"

record LZ4_stream_t_internal =
  s_hashTable :: mem
  s_dictionary :: int
  s_dictCtx :: int
  s_currentOffset :: int
  s_tableType :: tableType_t
  s_dictSize :: int

text \<open>
  Streams live at addresses, as \<open>dictCtx\<close> points to one and a stream may be its own dictionary. The
  table is the first member, so its address is the stream's.
\<close>

type_synonym streams = "int \<Rightarrow> LZ4_stream_t_internal option"

definition sizeof_stream :: int where [simp]: "sizeof_stream = LZ4_STREAM_MINSIZE"

definition LZ4_sizeofState :: int where "LZ4_sizeofState = sizeof_stream"

text \<open>The version of the library.\<close>

definition LZ4_VERSION_MAJOR :: int where [simp]: "LZ4_VERSION_MAJOR = 1"
definition LZ4_VERSION_MINOR :: int where [simp]: "LZ4_VERSION_MINOR = 10"
definition LZ4_VERSION_RELEASE :: int where [simp]: "LZ4_VERSION_RELEASE = 0"

definition LZ4_VERSION_NUMBER :: int where
  "LZ4_VERSION_NUMBER = LZ4_VERSION_MAJOR * 100 * 100 + LZ4_VERSION_MINOR * 100 + LZ4_VERSION_RELEASE"

definition LZ4_VERSION_STRING :: string where
  "LZ4_VERSION_STRING = ''1.10.0''"

definition LZ4_versionNumber :: int where
  "LZ4_versionNumber = LZ4_VERSION_NUMBER"

definition LZ4_versionString :: string where
  "LZ4_versionString = LZ4_VERSION_STRING"

text \<open>\<open>MEM_INIT(hashTable, 0, LZ4_HASHTABLESIZE)\<close>.\<close>

definition zero_table :: mem where
  "zero_table = (\<lambda>a. if 0 \<le> a \<and> a < LZ4_HASHTABLESIZE then Some 0 else None)"

definition zero_stream :: LZ4_stream_t_internal where
  "zero_stream = \<lparr> s_hashTable = zero_table, s_dictionary = 0, s_dictCtx = 0, s_currentOffset = 0,
     s_tableType = clearedTable, s_dictSize = 0 \<rparr>"

definition LZ4_stream_t_alignment :: int where
  "LZ4_stream_t_alignment = sizeof_ptr"

definition LZ4_initStream :: "streams \<Rightarrow> int \<Rightarrow> int \<Rightarrow> (int \<times> streams) option" where
  "LZ4_initStream S buffer bufSize =
     (if buffer = 0 then Some (0, S)
      else if bufSize < sizeof_stream then Some (0, S)
      else if \<not> LZ4_isAligned buffer LZ4_stream_t_alignment then Some (0, S)
      else do { _ \<leftarrow> S buffer; Some (buffer, S(buffer \<mapsto> zero_stream)) })"

definition LZ4_resetStream :: "streams \<Rightarrow> int \<Rightarrow> streams option" where
  "LZ4_resetStream S s = do { _ \<leftarrow> S s; Some (S(s \<mapsto> zero_stream)) }"

section \<open>Hash functions\<close>

definition LZ4_hash4 :: "int \<Rightarrow> tableType_t \<Rightarrow> int" where
  "LZ4_hash4 sequence tableType =
     (if tableType = byU16 then drop_bit (4 * 8 - (LZ4_HASHLOG + 1)) (u32 (sequence * 2654435761))
      else drop_bit (4 * 8 - LZ4_HASHLOG) (u32 (sequence * 2654435761)))"

definition LZ4_hash5 :: "int \<Rightarrow> tableType_t \<Rightarrow> int" where
  "LZ4_hash5 sequence tableType =
     (let hashLog = (if tableType = byU16 then LZ4_HASHLOG + 1 else LZ4_HASHLOG) in
      if LZ4_isLittleEndian
      then u32 (drop_bit (64 - hashLog) (u64 (u64 (push_bit 24 sequence) * 889523592379)))
      else u32 (drop_bit (64 - hashLog) (u64 (drop_bit 24 sequence * 11400714785074694791))))"

definition LZ4_hashPosition :: "mem \<Rightarrow> int \<Rightarrow> tableType_t \<Rightarrow> int option" where
  "LZ4_hashPosition m p tableType =
     (if sizeof_ptr = 8 \<and> tableType \<noteq> byU16
      then map_option (\<lambda>v. LZ4_hash5 v tableType) (LZ4_read_ARCH LZ4_isLittleEndian m p)
      else map_option (\<lambda>v. LZ4_hash4 v tableType) (LZ4_read32 LZ4_isLittleEndian m p))"

section \<open>Access to the table\<close>

text \<open>Element \<open>h\<close> of the table at \<open>t\<close> seen as an array of elements of \<open>w\<close> bytes.\<close>

definition tbl_load :: "streams \<Rightarrow> int \<Rightarrow> nat \<Rightarrow> int \<Rightarrow> int option" where
  "tbl_load S t w h =
     do { s \<leftarrow> S t; bs \<leftarrow> loads (s_hashTable s) (int w * h) w; Some (le_val (native LZ4_isLittleEndian bs)) }"

definition tbl_store :: "streams \<Rightarrow> int \<Rightarrow> nat \<Rightarrow> int \<Rightarrow> int \<Rightarrow> streams option" where
  "tbl_store S t w h v =
     do { s \<leftarrow> S t;
          b \<leftarrow> stores (s_hashTable s) (int w * h) (native LZ4_isLittleEndian (le_bytes w v));
          Some (S(t \<mapsto> s\<lparr>s_hashTable := b\<rparr>)) }"

definition LZ4_clearHash :: "streams \<Rightarrow> int \<Rightarrow> int \<Rightarrow> tableType_t \<Rightarrow> streams option" where
  "LZ4_clearHash S h tableBase tableType =
     (case tableType of
        clearedTable \<Rightarrow> Some S
      | byPtr \<Rightarrow> tbl_store S tableBase 8 h 0
      | byU32 \<Rightarrow> tbl_store S tableBase 4 h 0
      | byU16 \<Rightarrow> tbl_store S tableBase 2 h 0)"

definition LZ4_putIndexOnHash :: "streams \<Rightarrow> int \<Rightarrow> int \<Rightarrow> int \<Rightarrow> tableType_t \<Rightarrow> streams option" where
  "LZ4_putIndexOnHash S idx h tableBase tableType =
     (case tableType of
        clearedTable \<Rightarrow> Some S
      | byPtr \<Rightarrow> Some S
      | byU32 \<Rightarrow> tbl_store S tableBase 4 h idx
      | byU16 \<Rightarrow> tbl_store S tableBase 2 h (u16 idx))"

definition LZ4_putPositionOnHash :: "streams \<Rightarrow> int \<Rightarrow> int \<Rightarrow> int \<Rightarrow> tableType_t \<Rightarrow> streams option" where
  "LZ4_putPositionOnHash S p h tableBase tableType = tbl_store S tableBase 8 h p"

definition LZ4_putPosition :: "mem \<Rightarrow> streams \<Rightarrow> int \<Rightarrow> int \<Rightarrow> tableType_t \<Rightarrow> streams option" where
  "LZ4_putPosition m S p tableBase tableType =
     do { h \<leftarrow> LZ4_hashPosition m p tableType; LZ4_putPositionOnHash S p h tableBase tableType }"

definition LZ4_getIndexOnHash :: "streams \<Rightarrow> int \<Rightarrow> int \<Rightarrow> tableType_t \<Rightarrow> int option" where
  "LZ4_getIndexOnHash S h tableBase tableType =
     (if tableType = byU32 then tbl_load S tableBase 4 h
      else if tableType = byU16 then tbl_load S tableBase 2 h
      else Some 0)"

definition LZ4_getPositionOnHash :: "streams \<Rightarrow> int \<Rightarrow> int \<Rightarrow> tableType_t \<Rightarrow> int option" where
  "LZ4_getPositionOnHash S h tableBase tableType = tbl_load S tableBase 8 h"

definition LZ4_getPosition :: "mem \<Rightarrow> streams \<Rightarrow> int \<Rightarrow> int \<Rightarrow> tableType_t \<Rightarrow> int option" where
  "LZ4_getPosition m S p tableBase tableType =
     do { h \<leftarrow> LZ4_hashPosition m p tableType; LZ4_getPositionOnHash S h tableBase tableType }"

section \<open>Reuse of a table\<close>

text \<open>\<open>LZ4_prepareTable\<close>: whether the old entries must go, the gap, and the forgotten history.\<close>

definition table_unusable :: "LZ4_stream_t_internal \<Rightarrow> int \<Rightarrow> tableType_t \<Rightarrow> bool" where
  "table_unusable s inputSize tableType \<longleftrightarrow>
     s_tableType s \<noteq> tableType \<or>
     tableType = byU16 \<and> u32 (s_currentOffset s + u32 inputSize) \<ge> 0xFFFF \<or>
     tableType = byU32 \<and> s_currentOffset s > 1 * GB \<or>
     tableType = byPtr \<or> inputSize \<ge> 4 * KB"

definition prepare_stream :: "LZ4_stream_t_internal \<Rightarrow> int \<Rightarrow> tableType_t \<Rightarrow> LZ4_stream_t_internal" where
  "prepare_stream s inputSize tableType =
     (let s = (if s_tableType s \<noteq> clearedTable \<and> table_unusable s inputSize tableType
               then s\<lparr>s_hashTable := zero_table, s_currentOffset := 0, s_tableType := clearedTable\<rparr>
               else s);
          s = (if s_currentOffset s \<noteq> 0 \<and> tableType = byU32
               then s\<lparr>s_currentOffset := u32 (s_currentOffset s + 64 * KB)\<rparr> else s)
      in s\<lparr>s_dictCtx := 0, s_dictionary := 0, s_dictSize := 0\<rparr>)"

definition LZ4_prepareTable :: "streams \<Rightarrow> int \<Rightarrow> int \<Rightarrow> tableType_t \<Rightarrow> streams option" where
  "LZ4_prepareTable S cctx inputSize tableType =
     do { s \<leftarrow> S cctx; Some (S(cctx \<mapsto> prepare_stream s inputSize tableType)) }"

definition LZ4_resetStream_fast :: "streams \<Rightarrow> int \<Rightarrow> streams option" where
  "LZ4_resetStream_fast S ctx = LZ4_prepareTable S ctx 0 byU32"

end
