(* ===== verification/Lz4_HcState.thy ===== *)
theory Lz4_HcState
  imports Lz4_HashTable
begin

unbundle bit_operations_syntax

text \<open>
  The state of the high-compression compressor of \<open>lib/lz4/lz4hc.c\<close>, its hash functions and tables,
  the levels, the routines that count equal bytes backwards and in repeated patterns, and the life of a
  stream: initialisation, reset, parameters.
\<close>

section \<open>The stream structure\<close>

definition LZ4HC_CLEVEL_DEFAULT :: int where [simp]: "LZ4HC_CLEVEL_DEFAULT = 9"
definition LZ4HC_CLEVEL_MAX :: int where [simp]: "LZ4HC_CLEVEL_MAX = 12"
definition LZ4HC_HASH_LOG :: nat where [simp]: "LZ4HC_HASH_LOG = 15"
definition LZ4HC_HASHTABLESIZE :: int where [simp]: "LZ4HC_HASHTABLESIZE = 32768"
definition LZ4_STREAMHC_MINSIZE :: int where [simp]: "LZ4_STREAMHC_MINSIZE = 262200"

text \<open>
  The tables are functions of the index; \<open>hc_hash\<close> checks the bounds of the first, and the index into
  the second is always reduced to sixteen bits, so it has none. \<open>prefixStart\<close> and \<open>end\<close> delimit the
  current prefix, indexes are relative to \<open>prefixStart\<close> and start at \<open>dictLimit\<close> there; below, down to
  \<open>lowLimit\<close>, they refer to the external dictionary.
\<close>

record LZ4HC_CCtx_internal =
  h_hashTable :: "int \<Rightarrow> int"
  h_chainTable :: "int \<Rightarrow> int"
  h_end :: int
  h_prefixStart :: int
  h_dictStart :: int
  h_dictLimit :: int
  h_lowLimit :: int
  h_nextToUpdate :: int
  h_compressionLevel :: int
  h_favorDecSpeed :: int
  h_dirty :: int
  h_dictCtx :: int

type_synonym hcstreams = "int \<Rightarrow> LZ4HC_CCtx_internal option"

definition sizeof_streamHC :: int where [simp]: "sizeof_streamHC = LZ4_STREAMHC_MINSIZE"

definition LZ4_sizeofStateHC :: int where "LZ4_sizeofStateHC = sizeof_streamHC"

definition hc_hash :: "LZ4HC_CCtx_internal \<Rightarrow> int \<Rightarrow> int option" where
  "hc_hash c i = (if 0 \<le> i \<and> i < LZ4HC_HASHTABLESIZE then Some (h_hashTable c i) else None)"

definition hc_set_hash :: "LZ4HC_CCtx_internal \<Rightarrow> int \<Rightarrow> int \<Rightarrow> LZ4HC_CCtx_internal option" where
  "hc_set_hash c i v =
     (if 0 \<le> i \<and> i < LZ4HC_HASHTABLESIZE then Some (c\<lparr>h_hashTable := (h_hashTable c)(i := v)\<rparr>) else None)"

text \<open>\<open>DELTANEXTU16\<close>.\<close>

definition hc_chain :: "LZ4HC_CCtx_internal \<Rightarrow> int \<Rightarrow> int" where
  "hc_chain c pos = h_chainTable c (u16 pos)"

definition hc_set_chain :: "LZ4HC_CCtx_internal \<Rightarrow> int \<Rightarrow> int \<Rightarrow> LZ4HC_CCtx_internal" where
  "hc_set_chain c pos v = c\<lparr>h_chainTable := (h_chainTable c)(u16 pos := v)\<rparr>"

section \<open>Levels\<close>

text \<open>The conversion to \<open>short\<close>.\<close>

definition s16 :: "int \<Rightarrow> int" where
  "s16 x = (x + 32768) mod 65536 - 32768"

datatype lz4hc_strat_e = lz4mid | lz4hc | lz4opt

datatype dictCtx_directive = noDictCtx | usingDictCtxHc

definition LZ4_OPT_NUM :: int where [simp]: "LZ4_OPT_NUM = 4096"
definition OPTIMAL_ML :: int where [simp]: "OPTIMAL_ML = (ML_MASK - 1) + MINMATCH"

record cParams_t =
  strat :: lz4hc_strat_e
  nbSearches :: int
  targetLength :: int

definition k_clTable :: "cParams_t list" where
  "k_clTable = map (\<lambda>(s, n, l). \<lparr>strat = s, nbSearches = n, targetLength = l\<rparr>)
     [(lz4mid, 2, 16), (lz4mid, 2, 16), (lz4mid, 2, 16), (lz4hc, 4, 16), (lz4hc, 8, 16), (lz4hc, 16, 16),
      (lz4hc, 32, 16), (lz4hc, 64, 16), (lz4hc, 128, 16), (lz4hc, 256, 16), (lz4opt, 96, 64),
      (lz4opt, 512, 128), (lz4opt, 16384, LZ4_OPT_NUM)]"

definition LZ4HC_getCLevelParams :: "int \<Rightarrow> cParams_t" where
  "LZ4HC_getCLevelParams cLevel =
     (let cLevel = (if cLevel < 1 then LZ4HC_CLEVEL_DEFAULT else cLevel);
          cLevel = min LZ4HC_CLEVEL_MAX cLevel
      in k_clTable ! nat cLevel)"

section \<open>Hashing\<close>

definition LZ4HC_HASHSIZE :: int where [simp]: "LZ4HC_HASHSIZE = 4"

definition HASH_FUNCTION :: "int \<Rightarrow> int" where
  "HASH_FUNCTION i = drop_bit (4 * 8 - LZ4HC_HASH_LOG) (u32 (i * 2654435761))"

definition LZ4HC_hashPtr :: "mem \<Rightarrow> int \<Rightarrow> int option" where
  "LZ4HC_hashPtr m p = map_option HASH_FUNCTION (LZ4_read32 LZ4_isLittleEndian m p)"

definition LZ4_read64 :: "bool \<Rightarrow> mem \<Rightarrow> int \<Rightarrow> int option" where
  "LZ4_read64 le m p = map_option (\<lambda>bs. le_val (native le bs)) (loads m p 8)"

definition LZ4_readLE64 :: "bool \<Rightarrow> mem \<Rightarrow> int \<Rightarrow> int option" where
  "LZ4_readLE64 le m p =
     (if le then LZ4_read64 le m p
      else do {
        b0 \<leftarrow> load8 m p; b1 \<leftarrow> load8 m (p + 1); b2 \<leftarrow> load8 m (p + 2); b3 \<leftarrow> load8 m (p + 3);
        b4 \<leftarrow> load8 m (p + 4); b5 \<leftarrow> load8 m (p + 5); b6 \<leftarrow> load8 m (p + 6); b7 \<leftarrow> load8 m (p + 7);
        Some (b0 OR push_bit 8 b1 OR push_bit 16 b2 OR push_bit 24 b3 OR
              push_bit 32 b4 OR push_bit 40 b5 OR push_bit 48 b6 OR push_bit 56 b7) })"

definition LZ4MID_HASHSIZE :: int where [simp]: "LZ4MID_HASHSIZE = 8"
definition LZ4MID_HASHLOG :: nat where [simp]: "LZ4MID_HASHLOG = LZ4HC_HASH_LOG - 1"
definition LZ4MID_HASHTABLESIZE :: int where [simp]: "LZ4MID_HASHTABLESIZE = 16384"

definition LZ4MID_hash4 :: "int \<Rightarrow> int" where
  "LZ4MID_hash4 v = drop_bit (32 - LZ4MID_HASHLOG) (u32 (v * 2654435761))"

definition LZ4MID_hash4Ptr :: "mem \<Rightarrow> int \<Rightarrow> int option" where
  "LZ4MID_hash4Ptr m p = map_option LZ4MID_hash4 (LZ4_read32 LZ4_isLittleEndian m p)"

definition LZ4MID_hash7 :: "int \<Rightarrow> int" where
  "LZ4MID_hash7 v = u32 (drop_bit (64 - LZ4MID_HASHLOG) (u64 (u64 (push_bit (64 - 56) v) * 58295818150454627)))"

definition LZ4MID_hash8Ptr :: "mem \<Rightarrow> int \<Rightarrow> int option" where
  "LZ4MID_hash8Ptr m p = map_option LZ4MID_hash7 (LZ4_readLE64 LZ4_isLittleEndian m p)"

section \<open>Counting equal bytes backwards\<close>

text \<open>The variant that the compiler selects, and the portable one.\<close>

definition LZ4HC_NbCommonBytes32 :: "bool \<Rightarrow> int \<Rightarrow> int option" where
  "LZ4HC_NbCommonBytes32 le val =
     (if le then map_option (drop_bit 3) (builtin_clz 32 val)
      else map_option (drop_bit 3) (builtin_ctz val))"

definition LZ4HC_NbCommonBytes32_sw :: "32 word \<Rightarrow> 32 word" where
  "LZ4HC_NbCommonBytes32_sw val =
     (let val = drop_bit 8 val;
          val = drop_bit 24 ((((val + 0x00FFFF00) OR 0x00FFFFFF) + val) OR (val + 0x00FF0000))
      in val XOR 3)"

text \<open>Four bytes at a time, then one by one; \<open>Inl\<close> is the early return.\<close>

fun count_back_body ::
    "mem \<Rightarrow> int \<Rightarrow> int \<Rightarrow> int \<Rightarrow> int \<Rightarrow> (int + (int + int)) option" where
  "count_back_body m ip mtch bmin back =
     (if back - bmin > 3 then do {
        x \<leftarrow> LZ4_read32 LZ4_isLittleEndian m (ip + back - 4);
        y \<leftarrow> LZ4_read32 LZ4_isLittleEndian m (mtch + back - 4);
        let v = x XOR y;
        if v \<noteq> 0 then do { k \<leftarrow> LZ4HC_NbCommonBytes32 LZ4_isLittleEndian v; Some (Inr (Inl (back - k))) }
        else Some (Inl (back - 4)) }
      else Some (Inr (Inr back)))"

fun count_back_rest_body :: "mem \<Rightarrow> int \<Rightarrow> int \<Rightarrow> int \<Rightarrow> int \<Rightarrow> (int + int) option" where
  "count_back_rest_body m ip mtch bmin back =
     (if back > bmin then do {
        x \<leftarrow> load8 m (ip + back - 1); y \<leftarrow> load8 m (mtch + back - 1);
        Some (if x = y then Inl (back - 1) else Inr back) }
      else Some (Inr back))"

definition LZ4HC_countBack :: "mem \<Rightarrow> int \<Rightarrow> int \<Rightarrow> int \<Rightarrow> int \<Rightarrow> int option" where
  "LZ4HC_countBack m ip mtch iMin mMin = do {
     let bmin = s32 (max (iMin - ip) (mMin - mtch));
     r \<leftarrow> cloop (count_back_body m ip mtch bmin) 0;
     (case r of Inl back \<Rightarrow> Some back | Inr back \<Rightarrow> cloop (count_back_rest_body m ip mtch bmin) back) }"

section \<open>Initialisation of the tables\<close>

definition LZ4HC_clearTables :: "LZ4HC_CCtx_internal \<Rightarrow> LZ4HC_CCtx_internal" where
  "LZ4HC_clearTables c = c\<lparr>h_hashTable := (\<lambda>_. 0), h_chainTable := (\<lambda>_. 0xFFFF)\<rparr>"

definition LZ4HC_init_internal :: "LZ4HC_CCtx_internal \<Rightarrow> int \<Rightarrow> LZ4HC_CCtx_internal" where
  "LZ4HC_init_internal c start =
     (let bufferSize = u64 (h_end c - h_prefixStart c);
          newStartingOffset = u64 (bufferSize + h_dictLimit c);
          (c, newStartingOffset) = (if newStartingOffset > 1 * GB then (LZ4HC_clearTables c, 0) else (c, newStartingOffset));
          newStartingOffset = u64 (newStartingOffset + 64 * KB)
      in c\<lparr>h_nextToUpdate := u32 newStartingOffset, h_prefixStart := start, h_end := start, h_dictStart := start,
           h_dictLimit := u32 newStartingOffset, h_lowLimit := u32 newStartingOffset\<rparr>)"

section \<open>Chain table updates\<close>

text \<open>\<open>LZ4HC_Insert\<close>: the positions from \<open>nextToUpdate\<close> up to \<open>ip\<close>, excluded, are linked into their chains.\<close>

fun insert_body ::
    "mem \<Rightarrow> int \<Rightarrow> int \<times> LZ4HC_CCtx_internal \<Rightarrow> (int \<times> LZ4HC_CCtx_internal + LZ4HC_CCtx_internal) option" where
  "insert_body m target (idx, c) =
     (if idx < target then do {
        h \<leftarrow> LZ4HC_hashPtr m (h_prefixStart c + idx - h_dictLimit c);
        last \<leftarrow> hc_hash c h;
        let delta = u32 (idx - last);
        let delta = (if delta > LZ4_DISTANCE_MAX then LZ4_DISTANCE_MAX else delta);
        let c = hc_set_chain c idx (u16 delta);
        c \<leftarrow> hc_set_hash c h idx;
        Some (Inl (u32 (idx + 1), c)) }
      else Some (Inr c))"

definition LZ4HC_Insert :: "mem \<Rightarrow> LZ4HC_CCtx_internal \<Rightarrow> int \<Rightarrow> LZ4HC_CCtx_internal option" where
  "LZ4HC_Insert m c ip = do {
     let target = u32 (u32 (ip - h_prefixStart c) + h_dictLimit c);
     c \<leftarrow> cloop (insert_body m target) (h_nextToUpdate c, c);
     Some (c\<lparr>h_nextToUpdate := target\<rparr>) }"

section \<open>Repeated patterns\<close>

definition LZ4HC_rotl32 :: "int \<Rightarrow> nat \<Rightarrow> int" where
  "LZ4HC_rotl32 x r = u32 (push_bit r x) OR drop_bit (32 - r) x"

definition LZ4HC_rotatePattern :: "int \<Rightarrow> int \<Rightarrow> int" where
  "LZ4HC_rotatePattern rot pattern =
     (let bitsToRotate = push_bit 3 (rot AND (4 - 1))
      in if bitsToRotate = 0 then pattern else LZ4HC_rotl32 pattern (nat bitsToRotate))"

fun count_pattern_body :: "mem \<Rightarrow> int \<Rightarrow> int \<Rightarrow> int \<Rightarrow> (int + (int + int)) option" where
  "count_pattern_body m iEnd pattern ip =
     (if ip < iEnd - (sizeof_ptr - 1) then do {
        x \<leftarrow> LZ4_read_ARCH LZ4_isLittleEndian m ip;
        let diff = x XOR pattern;
        if diff = 0 then Some (Inl (ip + sizeof_ptr))
        else do { k \<leftarrow> LZ4_NbCommonBytes LZ4_isLittleEndian diff; Some (Inr (Inl (ip + k))) } }
      else Some (Inr (Inr ip)))"

text \<open>The last bytes, in either byte order; the shift is undefined when it exceeds the width.\<close>

fun count_pattern_le_body :: "mem \<Rightarrow> int \<Rightarrow> int \<times> int \<Rightarrow> (int \<times> int + int) option" where
  "count_pattern_le_body m iEnd (ip, patternByte) =
     (if ip < iEnd then do {
        b \<leftarrow> load8 m ip;
        Some (if b = patternByte mod 256 then Inl (ip + 1, drop_bit 8 patternByte) else Inr ip) }
      else Some (Inr ip))"

fun count_pattern_be_body :: "mem \<Rightarrow> int \<Rightarrow> int \<Rightarrow> int \<times> int \<Rightarrow> (int \<times> int + int) option" where
  "count_pattern_be_body m iEnd pattern (ip, bitOffset) =
     (if ip < iEnd then
        (if bitOffset \<ge> 64 then None
         else do {
           b \<leftarrow> load8 m ip;
           Some (if b \<noteq> drop_bit (nat bitOffset) pattern mod 256 then Inr ip else Inl (ip + 1, u32 (bitOffset - 8))) })
      else Some (Inr ip))"

definition LZ4HC_countPattern :: "mem \<Rightarrow> int \<Rightarrow> int \<Rightarrow> int \<Rightarrow> int option" where
  "LZ4HC_countPattern m ip iEnd pattern32 = do {
     let pattern = u64 (pattern32 + u64 (push_bit 32 pattern32));
     r \<leftarrow> cloop (count_pattern_body m iEnd pattern) ip;
     e \<leftarrow> (case r of
        Inl e \<Rightarrow> Some e
      | Inr p \<Rightarrow> (if LZ4_isLittleEndian then cloop (count_pattern_le_body m iEnd) (p, pattern)
                  else cloop (count_pattern_be_body m iEnd pattern) (p, 8 * 8 - 8)));
     Some (u32 (e - ip)) }"

fun reverse_count_body :: "mem \<Rightarrow> int \<Rightarrow> int \<Rightarrow> int \<Rightarrow> (int + int) option" where
  "reverse_count_body m iLow pattern ip =
     (if ip \<ge> iLow + 4 then do {
        x \<leftarrow> LZ4_read32 LZ4_isLittleEndian m (ip - 4);
        Some (if x \<noteq> pattern then Inr ip else Inl (ip - 4)) }
      else Some (Inr ip))"

text \<open>\<open>bytePtr\<close> points into the four bytes of \<open>pattern\<close>, from the last one down.\<close>

definition pattern_byte :: "bool \<Rightarrow> int \<Rightarrow> int \<Rightarrow> int option" where
  "pattern_byte le pattern k =
     (if 0 \<le> k \<and> k < 4 then Some (drop_bit (nat (8 * (if le then k else 3 - k))) pattern mod 256) else None)"

fun reverse_rest_body :: "mem \<Rightarrow> int \<Rightarrow> int \<Rightarrow> int \<times> int \<Rightarrow> (int \<times> int + int) option" where
  "reverse_rest_body m iLow pattern (ip, bytePtr) =
     (if ip > iLow then do {
        x \<leftarrow> load8 m (ip - 1); y \<leftarrow> pattern_byte LZ4_isLittleEndian pattern bytePtr;
        Some (if x \<noteq> y then Inr ip else Inl (ip - 1, bytePtr - 1)) }
      else Some (Inr ip))"

definition LZ4HC_reverseCountPattern :: "mem \<Rightarrow> int \<Rightarrow> int \<Rightarrow> int \<Rightarrow> int option" where
  "LZ4HC_reverseCountPattern m ip iLow pattern = do {
     p \<leftarrow> cloop (reverse_count_body m iLow pattern) ip;
     e \<leftarrow> cloop (reverse_rest_body m iLow pattern) (p, 3);
     Some (u32 (ip - e)) }"

text \<open>Whether four bytes can be read at a match: its index is not one of the last three of the dictionary.\<close>

definition LZ4HC_protectDictEnd :: "int \<Rightarrow> int \<Rightarrow> bool" where
  "LZ4HC_protectDictEnd dictLimit matchIndex \<longleftrightarrow> u32 (u32 (dictLimit - 1) - matchIndex) \<ge> 3"

section \<open>The life of a stream\<close>

definition LZ4_setCompressionLevel :: "LZ4HC_CCtx_internal \<Rightarrow> int \<Rightarrow> LZ4HC_CCtx_internal" where
  "LZ4_setCompressionLevel s compressionLevel =
     (let l = (if compressionLevel < 1 then LZ4HC_CLEVEL_DEFAULT else compressionLevel);
          l = (if l > LZ4HC_CLEVEL_MAX then LZ4HC_CLEVEL_MAX else l)
      in s\<lparr>h_compressionLevel := l\<rparr>)"

definition LZ4_favorDecompressionSpeed :: "LZ4HC_CCtx_internal \<Rightarrow> int \<Rightarrow> LZ4HC_CCtx_internal" where
  "LZ4_favorDecompressionSpeed s favor = s\<lparr>h_favorDecSpeed := (if favor \<noteq> 0 then 1 else 0)\<rparr>"

definition zero_streamHC :: LZ4HC_CCtx_internal where
  "zero_streamHC = \<lparr> h_hashTable = (\<lambda>_. 0), h_chainTable = (\<lambda>_. 0), h_end = 0, h_prefixStart = 0, h_dictStart = 0,
     h_dictLimit = 0, h_lowLimit = 0, h_nextToUpdate = 0, h_compressionLevel = 0, h_favorDecSpeed = 0, h_dirty = 0,
     h_dictCtx = 0 \<rparr>"

text \<open>
  The alignment of \<open>LZ4_streamHC_t\<close>, whose widest members are pointers. \<open>lz4.c\<close>, which \<open>lz4hc.c\<close> includes, sets
  \<open>LZ4_ALIGN_TEST\<close> to 1, and nothing overrides it: a context at any other address is refused.
\<close>

definition LZ4_streamHC_t_alignment :: int where
  "LZ4_streamHC_t_alignment = sizeof_ptr"

definition LZ4_initStreamHC :: "hcstreams \<Rightarrow> int \<Rightarrow> int \<Rightarrow> (int \<times> hcstreams) option" where
  "LZ4_initStreamHC S buffer bufSize =
     (if buffer = 0 then Some (0, S)
      else if bufSize < sizeof_streamHC then Some (0, S)
      else if \<not> LZ4_isAligned buffer LZ4_streamHC_t_alignment then Some (0, S)
      else do { _ \<leftarrow> S buffer; Some (buffer, S(buffer \<mapsto> LZ4_setCompressionLevel zero_streamHC LZ4HC_CLEVEL_DEFAULT)) })"

definition LZ4_resetStreamHC :: "hcstreams \<Rightarrow> int \<Rightarrow> int \<Rightarrow> hcstreams option" where
  "LZ4_resetStreamHC S p compressionLevel = do {
     (_, S) \<leftarrow> LZ4_initStreamHC S p sizeof_streamHC;
     s \<leftarrow> S p;
     Some (S(p \<mapsto> LZ4_setCompressionLevel s compressionLevel)) }"

definition LZ4_resetStreamHC_fast :: "hcstreams \<Rightarrow> int \<Rightarrow> int \<Rightarrow> hcstreams option" where
  "LZ4_resetStreamHC_fast S p compressionLevel = do {
     s \<leftarrow> S p;
     S \<leftarrow> (if h_dirty s \<noteq> 0 then map_option snd (LZ4_initStreamHC S p sizeof_streamHC)
           else Some (S(p \<mapsto> s\<lparr>h_dictLimit := u32 (h_dictLimit s + u32 (h_end s - h_prefixStart s)),
                               h_prefixStart := 0, h_end := 0, h_dictCtx := 0\<rparr>)));
     s \<leftarrow> S p;
     Some (S(p \<mapsto> LZ4_setCompressionLevel s compressionLevel)) }"

definition LZ4_attach_HC_dictionary :: "hcstreams \<Rightarrow> int \<Rightarrow> int \<Rightarrow> hcstreams option" where
  "LZ4_attach_HC_dictionary S working_stream dictionary_stream = do {
     s \<leftarrow> S working_stream;
     Some (S(working_stream \<mapsto> s\<lparr>h_dictCtx := dictionary_stream\<rparr>)) }"

end
