(* ===== verification/Lz4_HcSearch.thy ===== *)
theory Lz4_HcSearch
  imports Lz4_HcState
begin

unbundle bit_operations_syntax

text \<open>
  The match search of \<open>lib/lz4/lz4hc.c\<close>: \<open>LZ4HC_InsertAndGetWiderMatch\<close> with its candidate tests, the
  choice of a better chain, the analysis of repeated patterns and the search in an attached dictionary.
  Inside the search loop the context does not change, so it is an argument of the parts.
\<close>

section \<open>Matches\<close>

record LZ4HC_match_t =
  md_off :: int
  md_len :: int
  md_back :: int

definition nomatch :: LZ4HC_match_t where
  "nomatch = \<lparr>md_off = 0, md_len = 0, md_back = 0\<rparr>"

section \<open>The attached dictionary\<close>

text \<open>
  One candidate in the context of the dictionary; \<open>lookBack\<close> says whether the match may be extended
  backwards. \<open>LZ4HC_searchExtDict\<close> and the end of the wider search share this loop.
\<close>

fun dict_search_body ::
    "mem \<Rightarrow> LZ4HC_CCtx_internal \<Rightarrow> int \<Rightarrow> int \<Rightarrow> int \<Rightarrow> int \<Rightarrow> int \<Rightarrow> bool \<Rightarrow>
     int \<times> int \<times> int \<times> LZ4HC_match_t \<Rightarrow> (int \<times> int \<times> int \<times> LZ4HC_match_t + LZ4HC_match_t) option" where
  "dict_search_body m d dictEndIndex ip ipIndex iLowLimit iHighLimit lookBack (dictMatchIndex, matchIndex, nbAttempts, md) =
     (if u32 (ipIndex - matchIndex) \<le> LZ4_DISTANCE_MAX \<and> nbAttempts \<noteq> 0 then do {
        let matchPtr = h_prefixStart d - h_dictLimit d + dictMatchIndex;
        x \<leftarrow> LZ4_read32 LZ4_isLittleEndian m matchPtr;
        y \<leftarrow> LZ4_read32 LZ4_isLittleEndian m ip;
        md \<leftarrow> (if x = y then do {
            let vLimit = ip + u64 (dictEndIndex - dictMatchIndex);
            let vLimit = (if vLimit > iHighLimit then iHighLimit else vLimit);
            n \<leftarrow> LZ4_count LZ4_isLittleEndian m (ip + MINMATCH) (matchPtr + MINMATCH) vLimit;
            back \<leftarrow> (if lookBack then LZ4HC_countBack m ip matchPtr iLowLimit (h_prefixStart d) else Some 0);
            let mlt = s32 n + MINMATCH - back;
            Some (if mlt > md_len md
                  then \<lparr>md_off = s32 (u32 (ipIndex - matchIndex)), md_len = mlt, md_back = back\<rparr> else md) }
          else Some md);
        let nextOffset = hc_chain d dictMatchIndex;
        Some (Inl (u32 (dictMatchIndex - nextOffset), u32 (matchIndex - nextOffset), nbAttempts - 1, md)) }
      else Some (Inr md))"

definition hc_endIndex :: "LZ4HC_CCtx_internal \<Rightarrow> int" where
  "hc_endIndex d = u64 (u64 (h_end d - h_prefixStart d) + h_dictLimit d)"

definition LZ4HC_searchExtDict ::
    "mem \<Rightarrow> int \<Rightarrow> int \<Rightarrow> int \<Rightarrow> int \<Rightarrow> LZ4HC_CCtx_internal \<Rightarrow> int \<Rightarrow> int \<Rightarrow> int \<Rightarrow> LZ4HC_match_t option" where
  "LZ4HC_searchExtDict m ip ipIndex iLowLimit iHighLimit dictCtx gDictEndIndex currentBestML nbAttempts = do {
     let lDictEndIndex = hc_endIndex dictCtx;
     h \<leftarrow> LZ4HC_hashPtr m ip;
     lDictMatchIndex \<leftarrow> hc_hash dictCtx h;
     let matchIndex = u32 (lDictMatchIndex + gDictEndIndex - u32 lDictEndIndex);
     cloop (dict_search_body m dictCtx lDictEndIndex ip ipIndex iLowLimit iHighLimit (ip > iLowLimit))
       (lDictMatchIndex, matchIndex, nbAttempts, \<lparr>md_off = 0, md_len = currentBestML, md_back = 0\<rparr>) }"

section \<open>The wider search: arguments and state\<close>

datatype HCfavor_e = favorCompressionRatio | favorDecompressionSpeed

datatype repeat_state_e = rep_untested | rep_not | rep_confirmed

record hcargs =
  w_ip :: int
  w_iLowLimit :: int
  w_iHighLimit :: int
  w_patternAnalysis :: bool
  w_chainSwap :: bool
  w_dict :: dictCtx_directive
  w_favorDecSpeed :: HCfavor_e

record hcsearch =
  w_matchIndex :: int
  w_nbAttempts :: int
  w_matchChainPos :: int
  w_repeat :: repeat_state_e
  w_srcPatternLength :: int
  w_longest :: int
  w_offset :: int
  w_sBack :: int

text \<open>How a part of the loop body is left: to the next part, \<open>continue\<close> or \<open>break\<close>.\<close>

datatype 's hcflow = Fall 's | Continue 's | Break 's

definition hw_ipIndex :: "LZ4HC_CCtx_internal \<Rightarrow> hcargs \<Rightarrow> int" where
  "hw_ipIndex c a = u32 (u32 (w_ip a - h_prefixStart c) + h_dictLimit c)"

definition hw_withinStart :: "LZ4HC_CCtx_internal \<Rightarrow> hcargs \<Rightarrow> bool" where
  "hw_withinStart c a \<longleftrightarrow> u32 (h_lowLimit c + (LZ4_DISTANCE_MAX + 1)) > hw_ipIndex c a"

definition hw_lowest :: "LZ4HC_CCtx_internal \<Rightarrow> hcargs \<Rightarrow> int" where
  "hw_lowest c a = (if hw_withinStart c a then h_lowLimit c else u32 (hw_ipIndex c a - LZ4_DISTANCE_MAX))"

definition hw_dictEnd :: "LZ4HC_CCtx_internal \<Rightarrow> int" where
  "hw_dictEnd c = h_dictStart c + h_dictLimit c - h_lowLimit c"

definition hw_lookBack :: "hcargs \<Rightarrow> int" where
  "hw_lookBack a = s32 (w_ip a - w_iLowLimit a)"

section \<open>A candidate of the chain\<close>

text \<open>A longer match is remembered.\<close>

definition keep_longer :: "LZ4HC_CCtx_internal \<Rightarrow> hcargs \<Rightarrow> hcsearch \<Rightarrow> int \<Rightarrow> int \<Rightarrow> hcsearch" where
  "keep_longer c a w matchLength back =
     (if matchLength > w_longest w
      then w\<lparr>w_longest := matchLength, w_offset := s32 (u32 (hw_ipIndex c a - w_matchIndex w)), w_sBack := back\<rparr> else w)"

definition in_prefix :: "mem \<Rightarrow> LZ4HC_CCtx_internal \<Rightarrow> hcargs \<Rightarrow> int \<Rightarrow> hcsearch \<Rightarrow> (int \<times> hcsearch) option" where
  "in_prefix m c a pattern w = do {
     let matchPtr = h_prefixStart c + (w_matchIndex w - h_dictLimit c);
     x \<leftarrow> LZ4_read16 LZ4_isLittleEndian m (w_iLowLimit a + w_longest w - 1);
     y \<leftarrow> LZ4_read16 LZ4_isLittleEndian m (matchPtr - hw_lookBack a + w_longest w - 1);
     if x = y then do {
       z \<leftarrow> LZ4_read32 LZ4_isLittleEndian m matchPtr;
       if z = pattern then do {
         back \<leftarrow> (if hw_lookBack a \<noteq> 0 then LZ4HC_countBack m (w_ip a) matchPtr (w_iLowLimit a) (h_prefixStart c) else Some 0);
         n \<leftarrow> LZ4_count LZ4_isLittleEndian m (w_ip a + MINMATCH) (matchPtr + MINMATCH) (w_iHighLimit a);
         let matchLength = MINMATCH + s32 n - back;
         Some (matchLength, keep_longer c a w matchLength back) }
       else Some (0, w) }
     else Some (0, w) }"

definition in_ext_dict :: "mem \<Rightarrow> LZ4HC_CCtx_internal \<Rightarrow> hcargs \<Rightarrow> int \<Rightarrow> hcsearch \<Rightarrow> (int \<times> hcsearch) option" where
  "in_ext_dict m c a pattern w =
     (let matchPtr = h_dictStart c + (w_matchIndex w - h_lowLimit c) in
      if w_matchIndex w \<le> u32 (h_dictLimit c - 4) then do {
        z \<leftarrow> LZ4_read32 LZ4_isLittleEndian m matchPtr;
        if z = pattern then do {
          let vLimit = w_ip a + (h_dictLimit c - w_matchIndex w);
          let vLimit = (if vLimit > w_iHighLimit a then w_iHighLimit a else vLimit);
          n \<leftarrow> LZ4_count LZ4_isLittleEndian m (w_ip a + MINMATCH) (matchPtr + MINMATCH) vLimit;
          let matchLength = s32 n + MINMATCH;
          matchLength \<leftarrow> (if w_ip a + matchLength = vLimit \<and> vLimit < w_iHighLimit a then do {
              n \<leftarrow> LZ4_count LZ4_isLittleEndian m (w_ip a + matchLength) (h_prefixStart c) (w_iHighLimit a);
              Some (s32 (matchLength + n)) }
            else Some matchLength);
          back \<leftarrow> (if hw_lookBack a \<noteq> 0 then LZ4HC_countBack m (w_ip a) matchPtr (w_iLowLimit a) (h_dictStart c) else Some 0);
          let matchLength = matchLength - back;
          Some (matchLength, keep_longer c a w matchLength back) }
        else Some (0, w) }
      else Some (0, w))"

definition test_candidate :: "mem \<Rightarrow> LZ4HC_CCtx_internal \<Rightarrow> hcargs \<Rightarrow> int \<Rightarrow> hcsearch \<Rightarrow> (int \<times> hcsearch) option" where
  "test_candidate m c a pattern w =
     (if w_favorDecSpeed a = favorDecompressionSpeed \<and> u32 (hw_ipIndex c a - w_matchIndex w) < 8 then Some (0, w)
      else if w_matchIndex w \<ge> h_dictLimit c then in_prefix m c a pattern w
      else in_ext_dict m c a pattern w)"

section \<open>A better chain\<close>

text \<open>
  Among the chains of the positions inside the match, the one with the farthest next candidate is
  followed: \<open>(pos, step, accel, distanceToNextMatch, matchChainPos)\<close>.
\<close>

fun swap_body ::
    "LZ4HC_CCtx_internal \<Rightarrow> int \<Rightarrow> int \<Rightarrow> int \<times> int \<times> int \<times> int \<times> int \<Rightarrow>
     (int \<times> int \<times> int \<times> int \<times> int + int \<times> int) option" where
  "swap_body c matchIndex pend (pos, step, accel, distanceToNextMatch, matchChainPos) =
     (if pos < pend then
        (let candidateDist = hc_chain c (u32 (matchIndex + u32 pos));
             step = drop_bit 4 accel; accel = s32 (accel + 1) in
         if candidateDist > distanceToNextMatch
         then Some (Inl (pos + step, step, push_bit 4 1, candidateDist, u32 pos))
         else Some (Inl (pos + step, step, accel, distanceToNextMatch, matchChainPos)))
      else Some (Inr (distanceToNextMatch, matchChainPos)))"

definition swap_chain :: "LZ4HC_CCtx_internal \<Rightarrow> hcargs \<Rightarrow> int \<Rightarrow> hcsearch \<Rightarrow> hcsearch hcflow option" where
  "swap_chain c a matchLength w =
     (if w_chainSwap a \<and> matchLength = w_longest w \<and> u32 (w_matchIndex w + u32 (w_longest w)) \<le> hw_ipIndex c a then do {
        (distanceToNextMatch, matchChainPos) \<leftarrow>
          cloop (swap_body c (w_matchIndex w) (w_longest w - MINMATCH + 1)) (0, 1, push_bit 4 1, 1, w_matchChainPos w);
        let w = w\<lparr>w_matchChainPos := matchChainPos\<rparr>;
        Some (if distanceToNextMatch > 1 then
                (if distanceToNextMatch > w_matchIndex w then Break w
                 else Continue (w\<lparr>w_matchIndex := u32 (w_matchIndex w - distanceToNextMatch)\<rparr>))
              else Fall w) }
      else Some (Fall w))"

section \<open>Repeated patterns\<close>

definition detect_repeat :: "mem \<Rightarrow> hcargs \<Rightarrow> int \<Rightarrow> hcsearch \<Rightarrow> hcsearch option" where
  "detect_repeat m a pattern w =
     (if w_repeat w = rep_untested then
        (if pattern AND 0xFFFF = drop_bit 16 pattern \<and> pattern AND 0xFF = drop_bit 24 pattern then do {
           n \<leftarrow> LZ4HC_countPattern m (w_ip a + 4) (w_iHighLimit a) pattern;
           Some (w\<lparr>w_repeat := rep_confirmed, w_srcPatternLength := n + 4\<rparr>) }
         else Some (w\<lparr>w_repeat := rep_not\<rparr>))
      else Some w)"

text \<open>How far the pattern reaches forwards and backwards from a candidate.\<close>

definition pattern_forward :: "mem \<Rightarrow> LZ4HC_CCtx_internal \<Rightarrow> hcargs \<Rightarrow> int \<Rightarrow> bool \<Rightarrow> int \<Rightarrow> int option" where
  "pattern_forward m c a pattern extDict matchPtr = do {
     let iLimit = (if extDict then hw_dictEnd c else w_iHighLimit a);
     n \<leftarrow> LZ4HC_countPattern m (matchPtr + 4) iLimit pattern;
     let forwardPatternLength = n + 4;
     if extDict \<and> matchPtr + forwardPatternLength = iLimit then do {
       k \<leftarrow> LZ4HC_countPattern m (h_prefixStart c) (w_iHighLimit a) (LZ4HC_rotatePattern forwardPatternLength pattern);
       Some (forwardPatternLength + k) }
     else Some forwardPatternLength }"

definition pattern_backward :: "mem \<Rightarrow> LZ4HC_CCtx_internal \<Rightarrow> hcargs \<Rightarrow> int \<Rightarrow> bool \<Rightarrow> int \<Rightarrow> int \<Rightarrow> int option" where
  "pattern_backward m c a pattern extDict matchPtr matchCandidateIdx = do {
     let lowestMatchPtr = (if extDict then h_dictStart c else h_prefixStart c);
     backLength \<leftarrow> LZ4HC_reverseCountPattern m matchPtr lowestMatchPtr pattern;
     backLength \<leftarrow>
       (if \<not> extDict \<and> matchPtr - backLength = h_prefixStart c \<and> h_lowLimit c < h_dictLimit c then do {
          k \<leftarrow> LZ4HC_reverseCountPattern m (hw_dictEnd c) (h_dictStart c)
                 (LZ4HC_rotatePattern (u32 (- s32 backLength)) pattern);
          Some (backLength + k) }
        else Some backLength);
     Some (u32 (matchCandidateIdx - max (u32 (matchCandidateIdx - u32 backLength)) (hw_lowest c a))) }"

text \<open>Where the search goes on inside the segment of the pattern.\<close>

definition pattern_move ::
    "LZ4HC_CCtx_internal \<Rightarrow> hcargs \<Rightarrow> int \<Rightarrow> int \<Rightarrow> int \<Rightarrow> hcsearch \<Rightarrow> hcsearch hcflow" where
  "pattern_move c a matchCandidateIdx forwardPatternLength backLength w =
     (let currentSegmentLength = backLength + forwardPatternLength;
          srcPatternLength = w_srcPatternLength w in
      if currentSegmentLength \<ge> srcPatternLength \<and> forwardPatternLength \<le> srcPatternLength then
        (let newMatchIndex = u32 (matchCandidateIdx + u32 forwardPatternLength - u32 srcPatternLength) in
         Continue (w\<lparr>w_matchIndex := (if LZ4HC_protectDictEnd (h_dictLimit c) newMatchIndex then newMatchIndex else h_dictLimit c)\<rparr>))
      else
        (let newMatchIndex = u32 (matchCandidateIdx - u32 backLength) in
         if \<not> LZ4HC_protectDictEnd (h_dictLimit c) newMatchIndex then Continue (w\<lparr>w_matchIndex := h_dictLimit c\<rparr>)
         else
           (let w = w\<lparr>w_matchIndex := newMatchIndex\<rparr> in
            if hw_lookBack a \<noteq> 0 then Continue w
            else
              (let maxML = min currentSegmentLength srcPatternLength in
               if u64 (w_longest w) < maxML \<and>
                  u64 (u64 (w_ip a - h_prefixStart c) + h_dictLimit c - w_matchIndex w) > LZ4_DISTANCE_MAX
               then Break w
               else
                 (let w = (if u64 (w_longest w) < maxML
                           then w\<lparr>w_longest := s32 maxML, w_offset := s32 (u32 (hw_ipIndex c a - w_matchIndex w))\<rparr> else w);
                      distToNextPattern = hc_chain c (w_matchIndex w) in
                  if distToNextPattern > w_matchIndex w then Break w
                  else Continue (w\<lparr>w_matchIndex := u32 (w_matchIndex w - distToNextPattern)\<rparr>))))))"

definition analyse_pattern :: "mem \<Rightarrow> LZ4HC_CCtx_internal \<Rightarrow> hcargs \<Rightarrow> int \<Rightarrow> hcsearch \<Rightarrow> hcsearch hcflow option" where
  "analyse_pattern m c a pattern w =
     (if w_patternAnalysis a \<and> hc_chain c (w_matchIndex w) = 1 \<and> w_matchChainPos w = 0 then do {
        let matchCandidateIdx = u32 (w_matchIndex w - 1);
        w \<leftarrow> detect_repeat m a pattern w;
        if w_repeat w = rep_confirmed \<and> matchCandidateIdx \<ge> hw_lowest c a \<and>
           LZ4HC_protectDictEnd (h_dictLimit c) matchCandidateIdx then do {
          let extDict = matchCandidateIdx < h_dictLimit c;
          let matchPtr = (if extDict then h_dictStart c + (matchCandidateIdx - h_lowLimit c)
                          else h_prefixStart c + (matchCandidateIdx - h_dictLimit c));
          x \<leftarrow> LZ4_read32 LZ4_isLittleEndian m matchPtr;
          if x = pattern then do {
            forwardPatternLength \<leftarrow> pattern_forward m c a pattern extDict matchPtr;
            backLength \<leftarrow> pattern_backward m c a pattern extDict matchPtr matchCandidateIdx;
            Some (pattern_move c a matchCandidateIdx forwardPatternLength backLength w) }
          else Some (Fall w) }
        else Some (Fall w) }
      else Some (Fall w))"

section \<open>The search\<close>

text \<open>\<open>/* follow current chain */\<close>\<close>

definition follow_chain :: "LZ4HC_CCtx_internal \<Rightarrow> hcsearch \<Rightarrow> hcsearch" where
  "follow_chain c w = w\<lparr>w_matchIndex := u32 (w_matchIndex w - hc_chain c (u32 (w_matchIndex w + w_matchChainPos w)))\<rparr>"

definition wider_body :: "mem \<Rightarrow> LZ4HC_CCtx_internal \<Rightarrow> hcargs \<Rightarrow> int \<Rightarrow> hcsearch \<Rightarrow> (hcsearch + hcsearch) option" where
  "wider_body m c a pattern w =
     (if w_matchIndex w \<ge> hw_lowest c a \<and> w_nbAttempts w > 0 then do {
        (matchLength, w) \<leftarrow> test_candidate m c a pattern (w\<lparr>w_nbAttempts := w_nbAttempts w - 1\<rparr>);
        r \<leftarrow> swap_chain c a matchLength w;
        (case r of
           Continue w \<Rightarrow> Some (Inl w)
         | Break w \<Rightarrow> Some (Inr w)
         | Fall w \<Rightarrow> do {
             r \<leftarrow> analyse_pattern m c a pattern w;
             Some (case r of Continue w \<Rightarrow> Inl w | Break w \<Rightarrow> Inr w | Fall w \<Rightarrow> Inl (follow_chain c w)) }) }
      else Some (Inr w))"

text \<open>The search in the attached dictionary \<open>D\<close>, the context that \<open>dictCtx\<close> points to.\<close>

definition search_attached ::
    "mem \<Rightarrow> LZ4HC_CCtx_internal \<Rightarrow> LZ4HC_CCtx_internal option \<Rightarrow> hcargs \<Rightarrow> hcsearch \<Rightarrow> LZ4HC_match_t option" where
  "search_attached m c D a w = do {
     let md = \<lparr>md_off = w_offset w, md_len = w_longest w, md_back = w_sBack w\<rparr>;
     if w_dict a = usingDictCtxHc \<and> w_nbAttempts w > 0 \<and> hw_withinStart c a then do {
       d \<leftarrow> D;
       h \<leftarrow> LZ4HC_hashPtr m (w_ip a);
       dictMatchIndex \<leftarrow> hc_hash d h;
       let matchIndex = u32 (dictMatchIndex + hw_lowest c a - u32 (hc_endIndex d));
       cloop (dict_search_body m d (hc_endIndex d) (w_ip a) (hw_ipIndex c a) (w_iLowLimit a) (w_iHighLimit a) (hw_lookBack a \<noteq> 0))
         (dictMatchIndex, matchIndex, w_nbAttempts w, md) }
     else Some md }"

definition LZ4HC_InsertAndGetWiderMatch ::
    "mem \<Rightarrow> LZ4HC_CCtx_internal \<Rightarrow> LZ4HC_CCtx_internal option \<Rightarrow> hcargs \<Rightarrow> int \<Rightarrow> int \<Rightarrow>
     (LZ4HC_match_t \<times> LZ4HC_CCtx_internal) option" where
  "LZ4HC_InsertAndGetWiderMatch m c D a longest maxNbAttempts = do {
     pattern \<leftarrow> LZ4_read32 LZ4_isLittleEndian m (w_ip a);
     c \<leftarrow> LZ4HC_Insert m c (w_ip a);
     h \<leftarrow> LZ4HC_hashPtr m (w_ip a);
     matchIndex \<leftarrow> hc_hash c h;
     w \<leftarrow> cloop (wider_body m c a pattern)
       \<lparr>w_matchIndex = matchIndex, w_nbAttempts = maxNbAttempts, w_matchChainPos = 0, w_repeat = rep_untested,
        w_srcPatternLength = 0, w_longest = longest, w_offset = 0, w_sBack = 0\<rparr>;
     md \<leftarrow> search_attached m c D a w;
     Some (md, c) }"

definition LZ4HC_InsertAndFindBestMatch ::
    "mem \<Rightarrow> LZ4HC_CCtx_internal \<Rightarrow> LZ4HC_CCtx_internal option \<Rightarrow> int \<Rightarrow> int \<Rightarrow> int \<Rightarrow> bool \<Rightarrow> dictCtx_directive \<Rightarrow>
     (LZ4HC_match_t \<times> LZ4HC_CCtx_internal) option" where
  "LZ4HC_InsertAndFindBestMatch m c D ip iLimit maxNbAttempts patternAnalysis dict =
     LZ4HC_InsertAndGetWiderMatch m c D
       \<lparr>w_ip = ip, w_iLowLimit = ip, w_iHighLimit = iLimit, w_patternAnalysis = patternAnalysis, w_chainSwap = False,
        w_dict = dict, w_favorDecSpeed = favorCompressionRatio\<rparr> (MINMATCH - 1) maxNbAttempts"

definition LZ4HC_FindLongerMatch ::
    "mem \<Rightarrow> LZ4HC_CCtx_internal \<Rightarrow> LZ4HC_CCtx_internal option \<Rightarrow> int \<Rightarrow> int \<Rightarrow> int \<Rightarrow> int \<Rightarrow> dictCtx_directive \<Rightarrow>
     HCfavor_e \<Rightarrow> (LZ4HC_match_t \<times> LZ4HC_CCtx_internal) option" where
  "LZ4HC_FindLongerMatch m c D ip iHighLimit minLen nbSearch dict favorDecSpeed = do {
     (md, c) \<leftarrow> LZ4HC_InsertAndGetWiderMatch m c D
       \<lparr>w_ip = ip, w_iLowLimit = ip, w_iHighLimit = iHighLimit, w_patternAnalysis = True, w_chainSwap = True,
        w_dict = dict, w_favorDecSpeed = favorDecSpeed\<rparr> minLen nbSearch;
     Some (if md_len md \<le> minLen then nomatch
           else if favorDecSpeed = favorDecompressionSpeed \<and> md_len md > 18 \<and> md_len md \<le> 36 then md\<lparr>md_len := 18\<rparr>
           else md, c) }"

end
