(* ===== verification/Lz4_Compress.thy ===== *)
theory Lz4_Compress
  imports Lz4_HashTable
begin

unbundle bit_operations_syntax

text \<open>
  The generic compressor of \<open>lib/lz4/lz4.c\<close>, \<open>LZ4_compress_generic_validated\<close> and
  \<open>LZ4_compress_generic\<close>, for all its output, table and dictionary modes. The body is cut where the
  code's comments cut it: find a match, catch up, encode literals, next match, test next position,
  last literals. \<open>assert\<close> is disabled in the build and has no effect here.
\<close>

section \<open>Arguments and local constants\<close>

text \<open>
  \<open>c_startIndex\<close> to \<open>c_dictOffset\<close> are what the function reads from the stream structures when it
  starts; \<open>c_dictOffset\<close> is \<open>dictCtx->currentOffset\<close>.
\<close>

record cargs =
  c_cctx :: int
  c_source :: int
  c_dest :: int
  c_inputSize :: int
  c_maxOutputSize :: int
  c_outputDirective :: limitedOutput_directive
  c_tableType :: tableType_t
  c_dictDirective :: dict_directive
  c_dictIssue :: dictIssue_directive
  c_acceleration :: int
  c_startIndex :: int
  c_dictCtx :: int
  c_dictionary :: int
  c_dictSize :: int
  c_dictOffset :: int

definition c_base :: "cargs \<Rightarrow> int" where
  "c_base a = c_source a - c_startIndex a"

definition c_dictDelta :: "cargs \<Rightarrow> int" where
  "c_dictDelta a = (if c_dictDirective a = usingDictCtx then u32 (c_startIndex a - c_dictOffset a) else 0)"

definition c_maybe_extMem :: "cargs \<Rightarrow> bool" where
  "c_maybe_extMem a \<longleftrightarrow> c_dictDirective a = usingExtDict \<or> c_dictDirective a = usingDictCtx"

definition c_prefixIdxLimit :: "cargs \<Rightarrow> int" where
  "c_prefixIdxLimit a = u32 (c_startIndex a - c_dictSize a)"

definition c_dictEnd :: "cargs \<Rightarrow> int" where
  "c_dictEnd a = (if c_dictionary a \<noteq> 0 then c_dictionary a + c_dictSize a else c_dictionary a)"

definition c_iend :: "cargs \<Rightarrow> int" where
  "c_iend a = c_source a + c_inputSize a"

definition c_mflimitPlusOne :: "cargs \<Rightarrow> int" where
  "c_mflimitPlusOne a = c_iend a - MFLIMIT + 1"

definition c_matchlimit :: "cargs \<Rightarrow> int" where
  "c_matchlimit a = c_iend a - LASTLITERALS"

definition c_dictBase :: "cargs \<Rightarrow> int" where
  "c_dictBase a =
     (if c_dictionary a = 0 then 0
      else if c_dictDirective a = usingDictCtx then c_dictionary a + c_dictSize a - c_dictOffset a
      else c_dictionary a + c_dictSize a - c_startIndex a)"

definition c_olimit :: "cargs \<Rightarrow> int" where
  "c_olimit a = c_dest a + c_maxOutputSize a"

text \<open>The local variables, the memory and the streams; how the labelled parts are left.\<close>

record cstate =
  v_ip :: int
  v_anchor :: int
  v_match :: int
  v_lowLimit :: int
  v_op :: int
  v_token :: int
  v_offset :: int
  v_forwardH :: int
  v_filledIp :: int
  v_mem :: mem
  v_strs :: streams

datatype cexit = Last_literals cstate | Return_0 cstate

section \<open>Find a match\<close>

text \<open>\<open>byPtr\<close>: one round of the search; \<open>step\<close> and \<open>searchMatchNb\<close> govern the acceleration.\<close>

fun find_ptr_body ::
    "cargs \<Rightarrow> int \<times> int \<times> int \<times> cstate \<Rightarrow> (int \<times> int \<times> int \<times> cstate + (cstate + cexit)) option" where
  "find_ptr_body a (forwardIp, step, searchMatchNb, v) =
     (let h = v_forwardH v; ip = forwardIp; forwardIp = forwardIp + step;
          step = drop_bit LZ4_skipTrigger searchMatchNb; searchMatchNb = s32 (searchMatchNb + 1);
          v = v\<lparr>v_ip := ip\<rparr> in
      if forwardIp > c_mflimitPlusOne a then Some (Inr (Inr (Last_literals v)))
      else do {
        mtch \<leftarrow> LZ4_getPositionOnHash (v_strs v) h (c_cctx a) (c_tableType a);
        forwardH \<leftarrow> LZ4_hashPosition (v_mem v) forwardIp (c_tableType a);
        strs \<leftarrow> LZ4_putPositionOnHash (v_strs v) ip h (c_cctx a) (c_tableType a);
        let v = v\<lparr>v_match := mtch, v_forwardH := forwardH, v_strs := strs\<rparr>;
        if mtch + LZ4_DISTANCE_MAX < ip then Some (Inl (forwardIp, step, searchMatchNb, v))
        else do {
          x \<leftarrow> LZ4_read32 LZ4_isLittleEndian (v_mem v) mtch;
          y \<leftarrow> LZ4_read32 LZ4_isLittleEndian (v_mem v) ip;
          Some (if x \<noteq> y then Inl (forwardIp, step, searchMatchNb, v) else Inr (Inl v)) } })"

text \<open>
  Where the table entry \<open>matchIndex\<close> for hash \<open>h\<close> points to: the match, the low limit of its segment
  and its index in the current context. The search and the test of the next position share these
  statements.
\<close>

definition candidate :: "cargs \<Rightarrow> streams \<Rightarrow> int \<Rightarrow> int \<Rightarrow> int \<Rightarrow> (int \<times> int \<times> int) option" where
  "candidate a S h matchIndex lowLimit =
     (if c_dictDirective a = usingDictCtx then
        (if matchIndex < c_startIndex a then do {
           matchIndex \<leftarrow> LZ4_getIndexOnHash S h (c_dictCtx a) byU32;
           Some (c_dictBase a + matchIndex, c_dictionary a, u32 (matchIndex + c_dictDelta a)) }
         else Some (c_base a + matchIndex, c_source a, matchIndex))
      else if c_dictDirective a = usingExtDict then
        (if matchIndex < c_startIndex a
         then Some (c_dictBase a + matchIndex, c_dictionary a, matchIndex)
         else Some (c_base a + matchIndex, c_source a, matchIndex))
      else Some (c_base a + matchIndex, lowLimit, matchIndex))"

text \<open>\<open>byU32\<close> and \<open>byU16\<close>.\<close>

fun find_index_body ::
    "cargs \<Rightarrow> int \<times> int \<times> int \<times> cstate \<Rightarrow> (int \<times> int \<times> int \<times> cstate + (cstate + cexit)) option" where
  "find_index_body a (forwardIp, step, searchMatchNb, v) = do {
     let h = v_forwardH v; let currentPos = u32 (forwardIp - c_base a);
     matchIndex \<leftarrow> LZ4_getIndexOnHash (v_strs v) h (c_cctx a) (c_tableType a);
     let ip = forwardIp; let forwardIp = forwardIp + step;
     let step = drop_bit LZ4_skipTrigger searchMatchNb; let searchMatchNb = s32 (searchMatchNb + 1);
     let v = v\<lparr>v_ip := ip\<rparr>;
     if forwardIp > c_mflimitPlusOne a then Some (Inr (Inr (Last_literals v)))
     else do {
       (mtch, lowLimit, matchIndex) \<leftarrow> candidate a (v_strs v) h matchIndex (v_lowLimit v);
       forwardH \<leftarrow> LZ4_hashPosition (v_mem v) forwardIp (c_tableType a);
       strs \<leftarrow> LZ4_putIndexOnHash (v_strs v) currentPos h (c_cctx a) (c_tableType a);
       let v = v\<lparr>v_match := mtch, v_lowLimit := lowLimit, v_forwardH := forwardH, v_strs := strs\<rparr>;
       if c_dictIssue a = dictSmall \<and> matchIndex < c_prefixIdxLimit a
       then Some (Inl (forwardIp, step, searchMatchNb, v))
       else if (c_tableType a \<noteq> byU16 \<or> LZ4_DISTANCE_MAX < LZ4_DISTANCE_ABSOLUTE_MAX) \<and>
               u32 (matchIndex + LZ4_DISTANCE_MAX) < currentPos
       then Some (Inl (forwardIp, step, searchMatchNb, v))
       else do {
         x \<leftarrow> LZ4_read32 LZ4_isLittleEndian (v_mem v) mtch;
         y \<leftarrow> LZ4_read32 LZ4_isLittleEndian (v_mem v) ip;
         Some (if x = y
               then Inr (Inl (if c_maybe_extMem a then v\<lparr>v_offset := u32 (currentPos - matchIndex)\<rparr> else v))
               else Inl (forwardIp, step, searchMatchNb, v)) } } }"

definition find_match :: "cargs \<Rightarrow> cstate \<Rightarrow> (cstate + cexit) option" where
  "find_match a v =
     (let forwardIp = v_ip v; step = 1; searchMatchNb = s32 (push_bit LZ4_skipTrigger (c_acceleration a)) in
      if c_tableType a = byPtr then cloop (find_ptr_body a) (forwardIp, step, searchMatchNb, v)
      else cloop (find_index_body a) (forwardIp, step, searchMatchNb, v))"

section \<open>Catch up\<close>

fun catch_up_body :: "int \<Rightarrow> int \<Rightarrow> mem \<Rightarrow> int \<times> int \<Rightarrow> (int \<times> int + int \<times> int) option" where
  "catch_up_body anchor lowLimit m (ip, mtch) =
     (let ip = ip - 1; mtch = mtch - 1 in
      if ip > anchor \<and> mtch > lowLimit then do {
        x \<leftarrow> load8 m (ip - 1); y \<leftarrow> load8 m (mtch - 1);
        Some (if x = y then Inl (ip, mtch) else Inr (ip, mtch)) }
      else Some (Inr (ip, mtch)))"

definition catch_up :: "cstate \<Rightarrow> cstate option" where
  "catch_up v =
     (let v = v\<lparr>v_filledIp := v_ip v\<rparr> in
      if v_match v > v_lowLimit v then do {
        x \<leftarrow> load8 (v_mem v) (v_ip v - 1); y \<leftarrow> load8 (v_mem v) (v_match v - 1);
        if x = y then do {
          (ip, mtch) \<leftarrow> cloop (catch_up_body (v_anchor v) (v_lowLimit v) (v_mem v)) (v_ip v, v_match v);
          Some (v\<lparr>v_ip := ip, v_match := mtch\<rparr>) }
        else Some v }
      else Some v)"

section \<open>Encode literals\<close>

text \<open>\<open>for (; len >= 255; len -= 255) *op++ = 255; *op++ = (BYTE)len;\<close>\<close>

fun put_len_body :: "int \<times> int \<times> mem \<Rightarrow> (int \<times> int \<times> mem + int \<times> mem) option" where
  "put_len_body (op, len, m) =
     (if len \<ge> 255 then do { m \<leftarrow> store8 m op 255; Some (Inl (op + 1, len - 255, m)) }
      else do { m \<leftarrow> store8 m op len; Some (Inr (op + 1, m)) })"

definition put_run_length :: "mem \<Rightarrow> int \<Rightarrow> int \<Rightarrow> int \<Rightarrow> (int \<times> mem) option" where
  "put_run_length m token op run =
     (if run \<ge> RUN_MASK then do {
        m \<leftarrow> store8 m token (push_bit ML_BITS RUN_MASK);
        cloop put_len_body (op, run - RUN_MASK, m) }
      else do { m \<leftarrow> store8 m token (push_bit ML_BITS run); Some (op, m) })"

definition encode_literals :: "cargs \<Rightarrow> cstate \<Rightarrow> (cstate + cexit) option" where
  "encode_literals a v =
     (let litLength = u32 (v_ip v - v_anchor v); v = v\<lparr>v_token := v_op v, v_op := v_op v + 1\<rparr> in
      if c_outputDirective a = limitedOutput \<and>
         v_op v + litLength + (2 + 1 + LASTLITERALS) + litLength div 255 > c_olimit a
      then Some (Inr (Return_0 v))
      else if c_outputDirective a = fillOutput \<and>
         v_op v + u32 (litLength + 240) div 255 + litLength + 2 + 1 + MFLIMIT - MINMATCH > c_olimit a
      then Some (Inr (Last_literals (v\<lparr>v_op := v_op v - 1\<rparr>)))
      else do {
        (op, m) \<leftarrow> put_run_length (v_mem v) (v_token v) (v_op v) litLength;
        m \<leftarrow> LZ4_wildCopy8 m op (v_anchor v) (op + litLength);
        Some (Inl (v\<lparr>v_op := op + litLength, v_mem := m\<rparr>)) })"

section \<open>Next match\<close>

definition encode_offset :: "cargs \<Rightarrow> cstate \<Rightarrow> cstate option" where
  "encode_offset a v = do {
     m \<leftarrow> LZ4_writeLE16 LZ4_isLittleEndian (v_mem v) (v_op v)
            (if c_maybe_extMem a then u16 (v_offset v) else u16 (v_ip v - v_match v));
     Some (v\<lparr>v_op := v_op v + 2, v_mem := m\<rparr>) }"

text \<open>The length of the match beyond \<open>MINMATCH\<close>, and the position after it.\<close>

definition match_length :: "cargs \<Rightarrow> cstate \<Rightarrow> (int \<times> int) option" where
  "match_length a v =
     (if (c_dictDirective a = usingExtDict \<or> c_dictDirective a = usingDictCtx) \<and>
         v_lowLimit v = c_dictionary a then do {
        let limit = v_ip v + (c_dictEnd a - v_match v);
        let limit = (if limit > c_matchlimit a then c_matchlimit a else limit);
        matchCode \<leftarrow> LZ4_count LZ4_isLittleEndian (v_mem v) (v_ip v + MINMATCH) (v_match v + MINMATCH) limit;
        let ip = v_ip v + (matchCode + MINMATCH);
        if ip = limit then do {
          more \<leftarrow> LZ4_count LZ4_isLittleEndian (v_mem v) limit (c_source a) (c_matchlimit a);
          Some (u32 (matchCode + more), ip + more) }
        else Some (matchCode, ip) }
      else do {
        matchCode \<leftarrow> LZ4_count LZ4_isLittleEndian (v_mem v) (v_ip v + MINMATCH) (v_match v + MINMATCH) (c_matchlimit a);
        Some (matchCode, v_ip v + (matchCode + MINMATCH)) })"

text \<open>\<open>for (ptr = ip; ptr <= filledIp; ++ptr)\<close>: the positions beyond a shortened match are forgotten.\<close>

fun clear_body :: "cargs \<Rightarrow> mem \<Rightarrow> int \<Rightarrow> int \<times> streams \<Rightarrow> (int \<times> streams + streams) option" where
  "clear_body a m filledIp (ptr, S) =
     (if ptr \<le> filledIp then do {
        h \<leftarrow> LZ4_hashPosition m ptr (c_tableType a);
        S \<leftarrow> LZ4_clearHash S h (c_cctx a) (c_tableType a);
        Some (Inl (ptr + 1, S)) }
      else Some (Inr S))"

text \<open>
  The output check: \<open>Inl\<close> is the match code to write, the new position and the streams, after
  shortening the match when the output is to be filled; \<open>Inr\<close> is \<open>return 0\<close>.
\<close>

definition fit_match :: "cargs \<Rightarrow> cstate \<Rightarrow> int \<Rightarrow> int \<Rightarrow> (int \<times> int \<times> streams + unit) option" where
  "fit_match a v matchCode ip =
     (if c_outputDirective a \<noteq> notLimited \<and>
         v_op v + (1 + LASTLITERALS) + u32 (matchCode + 240) div 255 > c_olimit a then
        (if c_outputDirective a = fillOutput then do {
           let newMatchCode = u32 (15 - 1 + (u32 (c_olimit a - v_op v) - 1 - LASTLITERALS) * 255);
           let ip = ip - u32 (matchCode - newMatchCode);
           S \<leftarrow> (if ip \<le> v_filledIp v then cloop (clear_body a (v_mem v) (v_filledIp v)) (ip, v_strs v)
                 else Some (v_strs v));
           Some (Inl (newMatchCode, ip, S)) }
         else Some (Inr ()))
      else Some (Inl (matchCode, ip, v_strs v)))"

text \<open>\<open>while (matchCode >= 4 * 255)\<close>: four bytes of 255 at a time, ahead of where they are needed.\<close>

fun put_match_body :: "int \<times> int \<times> mem \<Rightarrow> (int \<times> int \<times> mem + int \<times> int \<times> mem) option" where
  "put_match_body (op, matchCode, m) =
     (if matchCode \<ge> 4 * 255 then do {
        m \<leftarrow> LZ4_write32 LZ4_isLittleEndian m (op + 4) 0xFFFFFFFF;
        Some (Inl (op + 4, matchCode - 4 * 255, m)) }
      else Some (Inr (op, matchCode, m)))"

definition put_match_length :: "mem \<Rightarrow> int \<Rightarrow> int \<Rightarrow> int \<Rightarrow> (int \<times> mem) option" where
  "put_match_length m token op matchCode =
     (if matchCode \<ge> ML_MASK then do {
        t \<leftarrow> load8 m token;
        m \<leftarrow> store8 m token (t + ML_MASK);
        let matchCode = matchCode - ML_MASK;
        m \<leftarrow> LZ4_write32 LZ4_isLittleEndian m op 0xFFFFFFFF;
        (op, matchCode, m) \<leftarrow> cloop put_match_body (op, matchCode, m);
        let op = op + matchCode div 255;
        m \<leftarrow> store8 m op (matchCode mod 255);
        Some (op + 1, m) }
      else do { t \<leftarrow> load8 m token; m \<leftarrow> store8 m token (t + matchCode); Some (op, m) })"

text \<open>\<open>token = op++; *token = 0; goto _next_match\<close>.\<close>

definition start_match :: "cstate \<Rightarrow> cstate option" where
  "start_match v = do {
     m \<leftarrow> store8 (v_mem v) (v_op v) 0;
     Some (v\<lparr>v_token := v_op v, v_op := v_op v + 1, v_mem := m\<rparr>) }"

text \<open>
  Fill the table and test the next position. \<open>Inl\<close> is \<open>goto _next_match\<close>, \<open>Inr\<close> the next round of the
  main loop.
\<close>

definition test_next_ptr :: "cargs \<Rightarrow> cstate \<Rightarrow> (cstate + cstate) option" where
  "test_next_ptr a v = do {
     h \<leftarrow> LZ4_hashPosition (v_mem v) (v_ip v - 2) (c_tableType a);
     S \<leftarrow> LZ4_putPositionOnHash (v_strs v) (v_ip v - 2) h (c_cctx a) byPtr;
     mtch \<leftarrow> LZ4_getPosition (v_mem v) S (v_ip v) (c_cctx a) (c_tableType a);
     S \<leftarrow> LZ4_putPosition (v_mem v) S (v_ip v) (c_cctx a) (c_tableType a);
     let v = v\<lparr>v_match := mtch, v_strs := S\<rparr>;
     if mtch + LZ4_DISTANCE_MAX \<ge> v_ip v then do {
       x \<leftarrow> LZ4_read32 LZ4_isLittleEndian (v_mem v) mtch;
       y \<leftarrow> LZ4_read32 LZ4_isLittleEndian (v_mem v) (v_ip v);
       if x = y then map_option Inl (start_match v) else Some (Inr v) }
     else Some (Inr v) }"

definition test_next_index :: "cargs \<Rightarrow> cstate \<Rightarrow> (cstate + cstate) option" where
  "test_next_index a v = do {
     h \<leftarrow> LZ4_hashPosition (v_mem v) (v_ip v - 2) (c_tableType a);
     let idx = u32 (v_ip v - 2 - c_base a);
     S \<leftarrow> LZ4_putIndexOnHash (v_strs v) idx h (c_cctx a) (c_tableType a);
     h \<leftarrow> LZ4_hashPosition (v_mem v) (v_ip v) (c_tableType a);
     let currentPos = u32 (v_ip v - c_base a);
     matchIndex \<leftarrow> LZ4_getIndexOnHash S h (c_cctx a) (c_tableType a);
     (mtch, lowLimit, matchIndex) \<leftarrow> candidate a S h matchIndex (v_lowLimit v);
     S \<leftarrow> LZ4_putIndexOnHash S currentPos h (c_cctx a) (c_tableType a);
     let v = v\<lparr>v_match := mtch, v_lowLimit := lowLimit, v_strs := S\<rparr>;
     if (c_dictIssue a = dictSmall \<longrightarrow> matchIndex \<ge> c_prefixIdxLimit a) \<and>
        (c_tableType a = byU16 \<and> LZ4_DISTANCE_MAX = LZ4_DISTANCE_ABSOLUTE_MAX \<or>
         u32 (matchIndex + LZ4_DISTANCE_MAX) \<ge> currentPos) then do {
       x \<leftarrow> LZ4_read32 LZ4_isLittleEndian (v_mem v) mtch;
       y \<leftarrow> LZ4_read32 LZ4_isLittleEndian (v_mem v) (v_ip v);
       if x = y
       then map_option Inl (start_match (if c_maybe_extMem a then v\<lparr>v_offset := u32 (currentPos - matchIndex)\<rparr> else v))
       else Some (Inr v) }
     else Some (Inr v) }"

text \<open>From the label \<open>_next_match\<close> to the end of the main loop's body.\<close>

definition next_match :: "cargs \<Rightarrow> cstate \<Rightarrow> (cstate + (cstate + cexit)) option" where
  "next_match a v =
     (if c_outputDirective a = fillOutput \<and> v_op v + 2 + 1 + MFLIMIT - MINMATCH > c_olimit a
      then Some (Inr (Inr (Last_literals (v\<lparr>v_op := v_token v\<rparr>))))
      else do {
        v \<leftarrow> encode_offset a v;
        (matchCode, ip) \<leftarrow> match_length a v;
        fit \<leftarrow> fit_match a v matchCode ip;
        (case fit of
           Inr _ \<Rightarrow> Some (Inr (Inr (Return_0 (v\<lparr>v_ip := ip\<rparr>))))
         | Inl (matchCode, ip, S) \<Rightarrow> do {
             (op, m) \<leftarrow> put_match_length (v_mem v) (v_token v) (v_op v) matchCode;
             let v = v\<lparr>v_ip := ip, v_anchor := ip, v_op := op, v_mem := m, v_strs := S\<rparr>;
             if ip \<ge> c_mflimitPlusOne a then Some (Inr (Inr (Last_literals v)))
             else do {
               r \<leftarrow> (if c_tableType a = byPtr then test_next_ptr a v else test_next_index a v);
               (case r of
                  Inl v \<Rightarrow> Some (Inl v)
                | Inr v \<Rightarrow> do {
                    forwardH \<leftarrow> LZ4_hashPosition (v_mem v) (v_ip v + 1) (c_tableType a);
                    Some (Inr (Inl (v\<lparr>v_ip := v_ip v + 1, v_forwardH := forwardH\<rparr>))) }) } }) })"

section \<open>The main loop and the last literals\<close>

definition main_body :: "cargs \<Rightarrow> cstate \<Rightarrow> (cstate + cexit) option" where
  "main_body a v = do {
     r \<leftarrow> find_match a v;
     (case r of
        Inr e \<Rightarrow> Some (Inr e)
      | Inl v \<Rightarrow> do {
          v \<leftarrow> catch_up v;
          r \<leftarrow> encode_literals a v;
          (case r of
             Inr e \<Rightarrow> Some (Inr e)
           | Inl v \<Rightarrow> cloop (next_match a) v) }) }"

text \<open>
  \<open>_last_literals\<close>: the returned value, the consumed input (\<open>inputConsumed\<close> is only written when the
  output is to be filled), the memory and the streams.
\<close>

definition last_literals :: "cargs \<Rightarrow> cstate \<Rightarrow> (int \<times> int option \<times> mem \<times> streams) option" where
  "last_literals a v =
     (let lastRun = u64 (c_iend a - v_anchor v);
          full = c_outputDirective a \<noteq> notLimited \<and>
                 v_op v + lastRun + 1 + u64 (lastRun + 255 - RUN_MASK) div 255 > c_olimit a in
      if full \<and> c_outputDirective a = limitedOutput then Some (0, None, v_mem v, v_strs v)
      else do {
        let lastRun = (if full
                       then (let r = u64 (u64 (c_olimit a - v_op v) - 1)
                             in u64 (r - u64 (r + 256 - RUN_MASK) div 256))
                       else lastRun);
        (op, m) \<leftarrow> put_run_length (v_mem v) (v_op v) (v_op v + 1) lastRun;
        m \<leftarrow> memcpy m op (v_anchor v) lastRun;
        let ip = v_anchor v + lastRun; let op = op + lastRun;
        Some (s32 (op - c_dest a),
              if c_outputDirective a = fillOutput then Some (s32 (ip - c_source a)) else None,
              m, v_strs v) })"

section \<open>LZ4_compress_generic_validated\<close>

text \<open>The context's history is updated before anything is compressed.\<close>

definition update_context :: "cargs \<Rightarrow> streams \<Rightarrow> streams option" where
  "update_context a S = do {
     s \<leftarrow> S (c_cctx a);
     let s = (if c_dictDirective a = usingDictCtx
              then s\<lparr>s_dictCtx := 0, s_dictSize := u32 (c_inputSize a)\<rparr>
              else s\<lparr>s_dictSize := u32 (s_dictSize s + u32 (c_inputSize a))\<rparr>);
     Some (S(c_cctx a \<mapsto> s\<lparr>s_currentOffset := u32 (s_currentOffset s + u32 (c_inputSize a)),
                           s_tableType := c_tableType a\<rparr>)) }"

text \<open>What the function reads from the streams when it starts.\<close>

definition read_context :: "cargs \<Rightarrow> streams \<Rightarrow> cargs option" where
  "read_context a S = do {
     s \<leftarrow> S (c_cctx a);
     let a = a\<lparr>c_startIndex := s_currentOffset s, c_dictCtx := s_dictCtx s\<rparr>;
     if c_dictDirective a = usingDictCtx then do {
       d \<leftarrow> S (s_dictCtx s);
       Some (a\<lparr>c_dictionary := s_dictionary d, c_dictSize := s_dictSize d, c_dictOffset := s_currentOffset d\<rparr>) }
     else Some (a\<lparr>c_dictionary := s_dictionary s, c_dictSize := s_dictSize s\<rparr>) }"

text \<open>The first byte and the main loop.\<close>

definition first_byte :: "cargs \<Rightarrow> cstate \<Rightarrow> cstate option" where
  "first_byte a v = do {
     h \<leftarrow> LZ4_hashPosition (v_mem v) (v_ip v) (c_tableType a);
     S \<leftarrow> (if c_tableType a = byPtr then LZ4_putPositionOnHash (v_strs v) (v_ip v) h (c_cctx a) byPtr
           else LZ4_putIndexOnHash (v_strs v) (c_startIndex a) h (c_cctx a) (c_tableType a));
     forwardH \<leftarrow> LZ4_hashPosition (v_mem v) (v_ip v + 1) (c_tableType a);
     Some (v\<lparr>v_ip := v_ip v + 1, v_forwardH := forwardH, v_strs := S\<rparr>) }"

definition initial_state :: "cargs \<Rightarrow> mem \<Rightarrow> streams \<Rightarrow> cstate" where
  "initial_state a m S =
     \<lparr> v_ip = c_source a, v_anchor = c_source a, v_match = 0,
       v_lowLimit = c_source a - (if c_dictDirective a = withPrefix64k then c_dictSize a else 0),
       v_op = c_dest a, v_token = 0, v_offset = 0, v_forwardH = 0, v_filledIp = 0,
       v_mem = m, v_strs = S \<rparr>"

definition LZ4_compress_generic_validated ::
    "cargs \<Rightarrow> mem \<Rightarrow> streams \<Rightarrow> (int \<times> int option \<times> mem \<times> streams) option" where
  "LZ4_compress_generic_validated args m S = do {
     a \<leftarrow> read_context args S;
     if c_outputDirective a = fillOutput \<and> c_maxOutputSize a < 1 then Some (0, None, m, S)
     else do {
       S \<leftarrow> update_context a S;
       let v = initial_state a m S;
       if c_inputSize a < LZ4_minLength then last_literals a v
       else do {
         v \<leftarrow> first_byte a v;
         r \<leftarrow> cloop (main_body a) v;
         (case r of
            Last_literals v \<Rightarrow> last_literals a v
          | Return_0 v \<Rightarrow> Some (0, None, v_mem v, v_strs v)) } } }"

definition LZ4_compressBound :: "int \<Rightarrow> int" where
  "LZ4_compressBound isize =
     (if u32 isize > u32 LZ4_MAX_INPUT_SIZE then 0 else isize + isize div 255 + 16)"

definition LZ4_compress_generic ::
    "int \<Rightarrow> int \<Rightarrow> int \<Rightarrow> int \<Rightarrow> int \<Rightarrow> limitedOutput_directive \<Rightarrow> tableType_t \<Rightarrow> dict_directive \<Rightarrow>
     dictIssue_directive \<Rightarrow> int \<Rightarrow> mem \<Rightarrow> streams \<Rightarrow> (int \<times> int option \<times> mem \<times> streams) option" where
  "LZ4_compress_generic cctx src dst srcSize dstCapacity outputDirective tableType dictDirective dictIssue
     acceleration m S =
     (if u32 srcSize > u32 LZ4_MAX_INPUT_SIZE then Some (0, None, m, S)
      else if srcSize = 0 then
        (if outputDirective \<noteq> notLimited \<and> dstCapacity \<le> 0 then Some (0, None, m, S)
         else do {
           m \<leftarrow> store8 m dst 0;
           Some (1, if outputDirective = fillOutput then Some 0 else None, m, S) })
      else LZ4_compress_generic_validated
        \<lparr> c_cctx = cctx, c_source = src, c_dest = dst, c_inputSize = srcSize, c_maxOutputSize = dstCapacity,
          c_outputDirective = outputDirective, c_tableType = tableType, c_dictDirective = dictDirective,
          c_dictIssue = dictIssue, c_acceleration = acceleration, c_startIndex = 0, c_dictCtx = 0,
          c_dictionary = 0, c_dictSize = 0, c_dictOffset = 0 \<rparr> m S)"

end
