(* ===== verification/Lz4_HcEncode.thy ===== *)
theory Lz4_HcEncode
  imports Lz4_HcSearch Lz4_Compress
begin

unbundle bit_operations_syntax

text \<open>
  The output side of \<open>lib/lz4/lz4hc.c\<close>: \<open>LZ4HC_encodeSequence\<close>, and the two closing parts that the three
  compressors of the file repeat, \<open>_last_literals\<close> and \<open>_dest_overflow\<close>.
\<close>

section \<open>LZ4HC_encodeSequence\<close>

text \<open>\<open>for (; length >= 510; length -= 510)\<close>: two bytes of 255 at a time.\<close>

fun put_pairs_body :: "int \<times> int \<times> mem \<Rightarrow> (int \<times> int \<times> mem + int \<times> int \<times> mem) option" where
  "put_pairs_body (op, len, m) =
     (if len \<ge> 510 then do { m \<leftarrow> store8 m op 255; m \<leftarrow> store8 m (op + 1) 255; Some (Inl (op + 2, len - 510, m)) }
      else Some (Inr (op, len, m)))"

definition put_hc_match_length :: "mem \<Rightarrow> int \<Rightarrow> int \<Rightarrow> int \<Rightarrow> (int \<times> mem) option" where
  "put_hc_match_length m token op len =
     (if len \<ge> ML_MASK then do {
        t \<leftarrow> load8 m token;
        m \<leftarrow> store8 m token (t + ML_MASK);
        (op, len, m) \<leftarrow> cloop put_pairs_body (op, len - ML_MASK, m);
        (op, len, m) \<leftarrow> (if len \<ge> 255 then do { m \<leftarrow> store8 m op 255; Some (op + 1, len - 255, m) } else Some (op, len, m));
        m \<leftarrow> store8 m op len;
        Some (op + 1, m) }
      else do { t \<leftarrow> load8 m token; m \<leftarrow> store8 m token (t + len); Some (op, m) })"

text \<open>
  The result is 1 when the output limit is detected, and the updated \<open>ip\<close>, \<open>op\<close> and \<open>anchor\<close>; the bytes
  written up to then stay written.
\<close>

definition LZ4HC_encodeSequence ::
    "mem \<Rightarrow> int \<Rightarrow> int \<Rightarrow> int \<Rightarrow> int \<Rightarrow> int \<Rightarrow> limitedOutput_directive \<Rightarrow> int \<Rightarrow> (int \<times> int \<times> int \<times> int \<times> mem) option" where
  "LZ4HC_encodeSequence m ip op anchor matchLength offset limit oend =
     (let token = op; op = op + 1; len = u64 (ip - anchor) in
      if limit \<noteq> notLimited \<and> op + len div 255 + len + (2 + 1 + LASTLITERALS) > oend then Some (1, ip, op, anchor, m)
      else do {
        (op, m) \<leftarrow> put_run_length m token op len;
        m \<leftarrow> LZ4_wildCopy8 m op anchor (op + len);
        let op = op + len;
        m \<leftarrow> LZ4_writeLE16 LZ4_isLittleEndian m op (u16 offset);
        let op = op + 2;
        let len = u64 (u64 matchLength - MINMATCH);
        if limit \<noteq> notLimited \<and> op + len div 255 + (1 + LASTLITERALS) > oend then Some (1, ip, op, anchor, m)
        else do {
          (op, m) \<leftarrow> put_hc_match_length m token op len;
          Some (0, ip + matchLength, op, ip + matchLength, m) } })"

section \<open>The closing parts\<close>

text \<open>
  \<open>_last_literals\<close>: \<open>None\<close> inside is \<open>return 0\<close> in limited mode; otherwise the position up to which the
  input is encoded, the end of the output and the memory. \<open>oend\<close> is the value that the main loop uses,
  which is five bytes short when the output is to be filled.
\<close>

definition hc_last_literals ::
    "limitedOutput_directive \<Rightarrow> int \<Rightarrow> int \<Rightarrow> int \<Rightarrow> int \<Rightarrow> mem \<Rightarrow> (int \<times> int \<times> mem) option option" where
  "hc_last_literals limit iend oend anchor op m =
     (let lastRunSize = u64 (iend - anchor);
          llAdd = u64 (lastRunSize + 255 - RUN_MASK) div 255;
          totalSize = u64 (1 + llAdd + lastRunSize);
          oend = (if limit = fillOutput then oend + LASTLITERALS else oend);
          full = limit \<noteq> notLimited \<and> op + totalSize > oend in
      if full \<and> limit = limitedOutput then Some None
      else do {
        let lastRunSize = (if full
                           then (let r = u64 (u64 (oend - op) - 1) in u64 (r - u64 (r + 256 - RUN_MASK) div 256))
                           else lastRunSize);
        (op, m) \<leftarrow> put_run_length m op (op + 1) lastRunSize;
        m \<leftarrow> memcpy m op anchor lastRunSize;
        Some (Some (anchor + lastRunSize, op + lastRunSize, m)) })"

text \<open>
  \<open>_dest_overflow\<close> when the output is to be filled: the sequence that did not fit, with the match \<open>ml\<close>
  and \<open>off\<close>, is encoded with a shorter match when there is room for one. \<open>op\<close> is the restored output
  pointer; \<open>op\<close>, \<open>anchor\<close> and the memory go to \<open>_last_literals\<close>.
\<close>

definition hc_fit_last ::
    "int \<Rightarrow> int \<Rightarrow> int \<Rightarrow> int \<Rightarrow> int \<Rightarrow> int \<Rightarrow> mem \<Rightarrow> (int \<times> int \<times> mem) option" where
  "hc_fit_last oend ip anchor op ml off m =
     (let ll = u64 (ip - anchor);
          ll_addbytes = u64 (ll + 240) div 255;
          ll_totalCost = u64 (1 + ll_addbytes + ll);
          maxLitPos = oend - 3 in
      if op + ll_totalCost \<le> maxLitPos then
        (let bytesLeftForMl = u64 (maxLitPos - (op + ll_totalCost));
             maxMlSize = u64 (MINMATCH + (ML_MASK - 1) + u64 (bytesLeftForMl * 255));
             ml = (if u64 ml > maxMlSize then s32 maxMlSize else ml) in
         if (oend + LASTLITERALS) - (op + ll_totalCost + 2) - 1 + ml \<ge> MFLIMIT then do {
           (_, ip, op, anchor, m) \<leftarrow> LZ4HC_encodeSequence m ip op anchor ml off notLimited oend;
           Some (op, anchor, m) }
         else Some (op, anchor, m))
      else Some (op, anchor, m))"

section \<open>What the compressors share\<close>

text \<open>
  The variables of their main loops, and how the loops are left: to \<open>_last_literals\<close>, or to
  \<open>_dest_overflow\<close> with the output pointer restored and the match of the sequence that did not fit.
\<close>

record hcstate =
  x_ip :: int
  x_anchor :: int
  x_op :: int
  x_ctx :: LZ4HC_CCtx_internal
  x_mem :: mem

datatype hcexit = Hc_last hcstate | Hc_overflow hcstate int int

text \<open>
  The call of \<open>LZ4HC_encodeSequence\<close> with its check: \<open>Inr\<close> goes to \<open>_dest_overflow\<close>, where the callers
  use the output pointer saved before the call.
\<close>

definition hc_encode :: "limitedOutput_directive \<Rightarrow> int \<Rightarrow> int \<Rightarrow> int \<Rightarrow> hcstate \<Rightarrow> (hcstate + hcexit) option" where
  "hc_encode limit oend ml off s = do {
     (fail, ip, op, anchor, m) \<leftarrow> LZ4HC_encodeSequence (x_mem s) (x_ip s) (x_op s) (x_anchor s) ml off limit oend;
     Some (if fail \<noteq> 0 then Inr (Hc_overflow (s\<lparr>x_mem := m\<rparr>) ml off)
           else Inl (s\<lparr>x_ip := ip, x_op := op, x_anchor := anchor, x_mem := m\<rparr>)) }"

text \<open>
  From the exit of the main loop to the return: the result, \<open>*srcSizePtr\<close>, the context and the memory.
  \<open>unread\<close> is what \<open>*srcSizePtr\<close> holds when the function fails.
\<close>

definition hc_close ::
    "limitedOutput_directive \<Rightarrow> int \<Rightarrow> int \<Rightarrow> int \<Rightarrow> int \<Rightarrow> int \<Rightarrow> hcstate \<Rightarrow> (int \<times> int \<times> LZ4HC_CCtx_internal \<times> mem) option" where
  "hc_close limit src dst iend oend unread s = do {
     r \<leftarrow> hc_last_literals limit iend oend (x_anchor s) (x_op s) (x_mem s);
     (case r of
        None \<Rightarrow> Some (0, unread, x_ctx s, x_mem s)
      | Some (ip, op, m) \<Rightarrow> Some (s32 (op - dst), s32 (ip - src), x_ctx s, m)) }"

definition hc_finish ::
    "limitedOutput_directive \<Rightarrow> int \<Rightarrow> int \<Rightarrow> int \<Rightarrow> int \<Rightarrow> int \<Rightarrow> hcexit \<Rightarrow> (int \<times> int \<times> LZ4HC_CCtx_internal \<times> mem) option" where
  "hc_finish limit src dst iend oend unread e =
     (case e of
        Hc_last s \<Rightarrow> hc_close limit src dst iend oend unread s
      | Hc_overflow s ml off \<Rightarrow>
          (if limit = fillOutput then do {
             (op, anchor, m) \<leftarrow> hc_fit_last oend (x_ip s) (x_anchor s) (x_op s) ml off (x_mem s);
             hc_close limit src dst iend oend unread (s\<lparr>x_op := op, x_anchor := anchor, x_mem := m\<rparr>) }
           else Some (0, unread, x_ctx s, x_mem s)))"

end
