(* ===== verification/Lz4_HcMid.thy ===== *)
theory Lz4_HcMid
  imports Lz4_HcEncode
begin

unbundle bit_operations_syntax

text \<open>
  Level 2 of \<open>lib/lz4/lz4hc.c\<close>: \<open>LZ4MID_compress\<close>, with two tables of the hashes of four and of eight
  bytes in the two halves of the context's hash table, and the search in an attached dictionary.
\<close>

section \<open>The two tables\<close>

definition LZ4MID_addPosition :: "LZ4HC_CCtx_internal \<Rightarrow> int \<Rightarrow> int \<Rightarrow> int \<Rightarrow> LZ4HC_CCtx_internal option" where
  "LZ4MID_addPosition c hTable hValue index = hc_set_hash c (hTable + hValue) index"

definition ADDPOS8 :: "mem \<Rightarrow> int \<Rightarrow> int \<Rightarrow> LZ4HC_CCtx_internal \<Rightarrow> LZ4HC_CCtx_internal option" where
  "ADDPOS8 m p idx c = do { h \<leftarrow> LZ4MID_hash8Ptr m p; LZ4MID_addPosition c LZ4MID_HASHTABLESIZE h (u32 idx) }"

definition ADDPOS4 :: "mem \<Rightarrow> int \<Rightarrow> int \<Rightarrow> LZ4HC_CCtx_internal \<Rightarrow> LZ4HC_CCtx_internal option" where
  "ADDPOS4 m p idx c = do { h \<leftarrow> LZ4MID_hash4Ptr m p; LZ4MID_addPosition c 0 h (u32 idx) }"

text \<open>\<open>LZ4MID_fillHTable\<close> and its two loops.\<close>

fun fill_both_body ::
    "mem \<Rightarrow> int \<Rightarrow> int \<Rightarrow> int \<Rightarrow> int \<times> LZ4HC_CCtx_internal \<Rightarrow> (int \<times> LZ4HC_CCtx_internal + LZ4HC_CCtx_internal) option" where
  "fill_both_body m prefixPtr prefixIdx target (idx, c) =
     (if idx < target then do {
        c \<leftarrow> ADDPOS4 m (prefixPtr + idx - prefixIdx) idx c;
        c \<leftarrow> ADDPOS8 m (prefixPtr + idx + 1 - prefixIdx) (idx + 1) c;
        Some (Inl (u32 (idx + 3), c)) }
      else Some (Inr c))"

fun fill_long_body ::
    "mem \<Rightarrow> int \<Rightarrow> int \<Rightarrow> int \<Rightarrow> int \<times> LZ4HC_CCtx_internal \<Rightarrow> (int \<times> LZ4HC_CCtx_internal + LZ4HC_CCtx_internal) option" where
  "fill_long_body m prefixPtr prefixIdx target (idx, c) =
     (if idx < target then do {
        c \<leftarrow> ADDPOS8 m (prefixPtr + idx - prefixIdx) idx c;
        Some (Inl (u32 (idx + 1), c)) }
      else Some (Inr c))"

definition LZ4MID_fillHTable :: "mem \<Rightarrow> LZ4HC_CCtx_internal \<Rightarrow> int \<Rightarrow> int \<Rightarrow> LZ4HC_CCtx_internal option" where
  "LZ4MID_fillHTable m c dict dsize = do {
     let prefixIdx = h_dictLimit c;
     let target = u32 (prefixIdx + u32 dsize - LZ4MID_HASHSIZE);
     let next = h_nextToUpdate c;
     if dsize \<le> LZ4MID_HASHSIZE then Some c
     else do {
       c \<leftarrow> cloop (fill_both_body m dict prefixIdx target) (next, c);
       let idx = (if dsize > 32 * KB + LZ4MID_HASHSIZE then u32 (target - 32 * KB) else next);
       c \<leftarrow> cloop (fill_long_body m dict prefixIdx target) (idx, c);
       Some (c\<lparr>h_nextToUpdate := target\<rparr>) } }"

section \<open>The attached dictionary\<close>

definition LZ4MID_searchHCDict ::
    "mem \<Rightarrow> int \<Rightarrow> int \<Rightarrow> int \<Rightarrow> LZ4HC_CCtx_internal \<Rightarrow> int \<Rightarrow> LZ4HC_match_t option" where
  "LZ4MID_searchHCDict m ip ipIndex iHighLimit dictCtx gDictEndIndex =
     LZ4HC_searchExtDict m ip ipIndex ip iHighLimit dictCtx gDictEndIndex (MINMATCH - 1) 2"

text \<open>One of the two searches, for the entry of a table; a match of less than four bytes is none.\<close>

definition mid_dict_candidate ::
    "mem \<Rightarrow> int \<Rightarrow> int \<Rightarrow> int \<Rightarrow> LZ4HC_CCtx_internal \<Rightarrow> int \<Rightarrow> int \<Rightarrow> LZ4HC_match_t option option" where
  "mid_dict_candidate m ip ipIndex iHighLimit d gDictEndIndex dictMatchIndex =
     (let lDictEndIndex = hc_endIndex d; mIndex = u32 (dictMatchIndex + gDictEndIndex - u32 lDictEndIndex) in
      if u32 (ipIndex - mIndex) \<le> LZ4_DISTANCE_MAX then do {
        let matchPtr = h_prefixStart d - h_dictLimit d + dictMatchIndex;
        let safeLen = min (u64 (lDictEndIndex - dictMatchIndex)) (u64 (iHighLimit - ip));
        n \<leftarrow> LZ4_count LZ4_isLittleEndian m ip matchPtr (ip + safeLen);
        let mlt = s32 n;
        Some (if mlt \<ge> MINMATCH then Some \<lparr>md_off = s32 (u32 (ipIndex - mIndex)), md_len = mlt, md_back = 0\<rparr> else None) }
      else Some None)"

definition LZ4MID_searchExtDict ::
    "mem \<Rightarrow> int \<Rightarrow> int \<Rightarrow> int \<Rightarrow> LZ4HC_CCtx_internal \<Rightarrow> int \<Rightarrow> LZ4HC_match_t option" where
  "LZ4MID_searchExtDict m ip ipIndex iHighLimit dictCtx gDictEndIndex = do {
     h8 \<leftarrow> LZ4MID_hash8Ptr m ip;
     i8 \<leftarrow> hc_hash dictCtx (LZ4MID_HASHTABLESIZE + h8);
     r \<leftarrow> mid_dict_candidate m ip ipIndex iHighLimit dictCtx gDictEndIndex i8;
     (case r of
        Some md \<Rightarrow> Some md
      | None \<Rightarrow> do {
          h4 \<leftarrow> LZ4MID_hash4Ptr m ip;
          i4 \<leftarrow> hc_hash dictCtx h4;
          r \<leftarrow> mid_dict_candidate m ip ipIndex iHighLimit dictCtx gDictEndIndex i4;
          Some (case r of Some md \<Rightarrow> md | None \<Rightarrow> nomatch) }) }"

definition select_searchDict_function ::
    "LZ4HC_CCtx_internal option \<Rightarrow> (mem \<Rightarrow> int \<Rightarrow> int \<Rightarrow> int \<Rightarrow> LZ4HC_CCtx_internal \<Rightarrow> int \<Rightarrow> LZ4HC_match_t option) option" where
  "select_searchDict_function dictCtx =
     (case dictCtx of
        None \<Rightarrow> None
      | Some d \<Rightarrow> Some (if strat (LZ4HC_getCLevelParams (h_compressionLevel d)) = lz4mid
                       then LZ4MID_searchExtDict else LZ4MID_searchHCDict))"

section \<open>LZ4MID_compress\<close>

text \<open>
  The candidate \<open>pos\<close> of one table, in the prefix or in the external dictionary: the length and the
  distance of a match of at least four bytes.
\<close>

definition mid_candidate ::
    "mem \<Rightarrow> LZ4HC_CCtx_internal \<Rightarrow> int \<Rightarrow> int \<Rightarrow> int \<Rightarrow> int \<Rightarrow> (int \<times> int) option option" where
  "mid_candidate m c ip ipIndex matchlimit pos =
     (if u32 (ipIndex - pos) \<le> LZ4_DISTANCE_MAX then
        (if pos \<ge> h_dictLimit c then do {
           n \<leftarrow> LZ4_count LZ4_isLittleEndian m ip (h_prefixStart c + (pos - h_dictLimit c)) matchlimit;
           Some (if n \<ge> MINMATCH then Some (n, u32 (ipIndex - pos)) else None) }
         else if pos \<ge> h_lowLimit c then do {
           let safeLen = min (u32 (h_dictLimit c - pos)) (u64 (matchlimit - ip));
           n \<leftarrow> LZ4_count LZ4_isLittleEndian m ip (h_dictStart c + (pos - h_lowLimit c)) (ip + safeLen);
           Some (if n \<ge> MINMATCH then Some (n, u32 (ipIndex - pos)) else None) }
         else Some None)
      else Some None)"

text \<open>
  Whether a short match in the prefix is worth less than a long match one byte later: the position, the
  length and the distance to encode.
\<close>

definition mid_next_position ::
    "mem \<Rightarrow> int \<Rightarrow> int \<Rightarrow> int \<Rightarrow> int \<Rightarrow> LZ4HC_CCtx_internal \<Rightarrow> int \<Rightarrow> int \<Rightarrow>
     (int \<times> int \<times> int \<times> LZ4HC_CCtx_internal) option" where
  "mid_next_position m ip ipIndex mflimit matchlimit c matchLength matchDistance = do {
     h8 \<leftarrow> LZ4MID_hash8Ptr m (ip + 1);
     pos8 \<leftarrow> hc_hash c (LZ4MID_HASHTABLESIZE + h8);
     let m2Distance = u32 (ipIndex + 1 - pos8);
     if m2Distance \<le> LZ4_DISTANCE_MAX \<and> pos8 \<ge> h_dictLimit c \<and> ip < mflimit then do {
       ml2 \<leftarrow> LZ4_count LZ4_isLittleEndian m (ip + 1) (h_prefixStart c + (pos8 - h_dictLimit c)) matchlimit;
       if ml2 > matchLength then do {
         c \<leftarrow> LZ4MID_addPosition c LZ4MID_HASHTABLESIZE h8 (u32 (ipIndex + 1));
         Some (ip + 1, ml2, m2Distance, c) }
       else Some (ip, matchLength, matchDistance, c) }
     else Some (ip, matchLength, matchDistance, c) }"

text \<open>The searches at a position, up to \<open>_lz4mid_encode_sequence\<close>; the context is updated on the way.\<close>

definition mid_search ::
    "dictCtx_directive \<Rightarrow> LZ4HC_CCtx_internal option \<Rightarrow> mem \<Rightarrow> int \<Rightarrow> int \<Rightarrow> int \<Rightarrow> int \<Rightarrow> LZ4HC_CCtx_internal \<Rightarrow>
     ((int \<times> int \<times> int) option \<times> LZ4HC_CCtx_internal) option" where
  "mid_search dict D m mflimit matchlimit ip ipIndex c = do {
     h8 \<leftarrow> LZ4MID_hash8Ptr m ip;
     pos8 \<leftarrow> hc_hash c (LZ4MID_HASHTABLESIZE + h8);
     c \<leftarrow> LZ4MID_addPosition c LZ4MID_HASHTABLESIZE h8 ipIndex;
     r \<leftarrow> mid_candidate m c ip ipIndex matchlimit pos8;
     (case r of
        Some (ml, dist) \<Rightarrow> Some (Some (ip, ml, dist), c)
      | None \<Rightarrow> do {
          h4 \<leftarrow> LZ4MID_hash4Ptr m ip;
          pos4 \<leftarrow> hc_hash c h4;
          c \<leftarrow> LZ4MID_addPosition c 0 h4 ipIndex;
          r \<leftarrow> mid_candidate m c ip ipIndex matchlimit pos4;
          (case r of
             Some (ml, dist) \<Rightarrow>
               (if pos4 \<ge> h_dictLimit c then do {
                  (ip, ml, dist, c) \<leftarrow> mid_next_position m ip ipIndex mflimit matchlimit c ml dist;
                  Some (Some (ip, ml, dist), c) }
                else Some (Some (ip, ml, dist), c))
           | None \<Rightarrow>
               (if dict = usingDictCtxHc \<and> u32 (ipIndex - h_lowLimit c) < LZ4_DISTANCE_MAX - 8 then do {
                  f \<leftarrow> select_searchDict_function D;
                  d \<leftarrow> D;
                  md \<leftarrow> f m ip ipIndex matchlimit d (h_lowLimit c);
                  Some (if md_len md \<ge> MINMATCH then Some (ip, u32 (md_len md), u32 (md_off md)) else None, c) }
                else Some (None, c))) }) }"

fun mid_back_body :: "mem \<Rightarrow> int \<Rightarrow> int \<Rightarrow> int \<Rightarrow> int \<times> int \<Rightarrow> (int \<times> int + int \<times> int) option" where
  "mid_back_body m anchor prefixPtr matchDistance (ip, matchLength) =
     (if ip > anchor \<and> u32 (ip - prefixPtr) > matchDistance then do {
        x \<leftarrow> load8 m (ip - 1); y \<leftarrow> load8 m (ip - matchDistance - 1);
        Some (if x = y then Inl (ip - 1, u32 (matchLength + 1)) else Inr (ip, matchLength)) }
      else Some (Inr (ip, matchLength)))"

definition mid_fill_end :: "mem \<Rightarrow> int \<Rightarrow> int \<Rightarrow> LZ4HC_CCtx_internal \<Rightarrow> LZ4HC_CCtx_internal option" where
  "mid_fill_end m ip ilimitIdx c = do {
     let endMatchIdx = u32 (u32 (ip - h_prefixStart c) + h_dictLimit c);
     if u32 (endMatchIdx - 2) < ilimitIdx then do {
       c \<leftarrow> (if ip - h_prefixStart c > 5 then ADDPOS8 m (ip - 5) (endMatchIdx - 5) c else Some c);
       c \<leftarrow> ADDPOS8 m (ip - 3) (endMatchIdx - 3) c;
       c \<leftarrow> ADDPOS8 m (ip - 2) (endMatchIdx - 2) c;
       c \<leftarrow> ADDPOS4 m (ip - 2) (endMatchIdx - 2) c;
       ADDPOS4 m (ip - 1) (endMatchIdx - 1) c }
     else Some c }"

text \<open>One round of the main loop.\<close>

definition mid_body ::
    "dictCtx_directive \<Rightarrow> LZ4HC_CCtx_internal option \<Rightarrow> limitedOutput_directive \<Rightarrow> int \<Rightarrow> int \<Rightarrow> hcstate \<Rightarrow> (hcstate + hcexit) option" where
  "mid_body dict D limit iend oend s =
     (let ip = x_ip s; m = x_mem s; c = x_ctx s; mflimit = iend - MFLIMIT; matchlimit = iend - LASTLITERALS in
      if ip \<le> mflimit then do {
        let ipIndex = u32 (u32 (ip - h_prefixStart c) + h_dictLimit c);
        (r, c) \<leftarrow> mid_search dict D m mflimit matchlimit ip ipIndex c;
        (case r of
           None \<Rightarrow> Some (Inl (s\<lparr>x_ip := ip + (1 + drop_bit 9 (ip - x_anchor s)), x_ctx := c\<rparr>))
         | Some (ip, matchLength, matchDistance) \<Rightarrow> do {
             (ip, matchLength) \<leftarrow> cloop (mid_back_body m (x_anchor s) (h_prefixStart c) matchDistance) (ip, matchLength);
             c \<leftarrow> ADDPOS8 m (ip + 1) (ipIndex + 1) c;
             c \<leftarrow> ADDPOS8 m (ip + 2) (ipIndex + 2) c;
             c \<leftarrow> ADDPOS4 m (ip + 1) (ipIndex + 1) c;
             r \<leftarrow> hc_encode limit oend (s32 matchLength) (s32 matchDistance) (s\<lparr>x_ip := ip, x_ctx := c\<rparr>);
             (case r of
                Inr e \<Rightarrow> Some (Inr e)
              | Inl s \<Rightarrow> do {
                  c \<leftarrow> mid_fill_end (x_mem s) (x_ip s)
                    (u32 (u32 (iend - LZ4MID_HASHSIZE - h_prefixStart (x_ctx s)) + h_dictLimit (x_ctx s))) (x_ctx s);
                  Some (Inl (s\<lparr>x_ctx := c\<rparr>)) }) }) }
      else Some (Inr (Hc_last s)))"

text \<open>\<open>_lz4mid_last_literals\<close> and \<open>_lz4mid_dest_overflow\<close>: the copy of the closing parts in \<open>LZ4MID_compress\<close>.\<close>

definition mid_finish :: "limitedOutput_directive \<Rightarrow> int \<Rightarrow> int \<Rightarrow> int \<Rightarrow> int \<Rightarrow> int \<Rightarrow> hcexit \<Rightarrow>
    (int \<times> int \<times> LZ4HC_CCtx_internal \<times> mem) option" where
  "mid_finish limit src dst iend oend srcSize e = hc_finish limit src dst iend oend srcSize e"

definition LZ4MID_compress ::
    "mem \<Rightarrow> LZ4HC_CCtx_internal \<Rightarrow> LZ4HC_CCtx_internal option \<Rightarrow> int \<Rightarrow> int \<Rightarrow> int \<Rightarrow> int \<Rightarrow> limitedOutput_directive \<Rightarrow>
     dictCtx_directive \<Rightarrow> (int \<times> int \<times> LZ4HC_CCtx_internal \<times> mem) option" where
  "LZ4MID_compress m c D src dst srcSize maxOutputSize limit dict =
     (let iend = src + srcSize; oend = dst + maxOutputSize;
          oend = (if limit = fillOutput then oend - LASTLITERALS else oend);
          s = \<lparr>x_ip = src, x_anchor = src, x_op = dst, x_ctx = c, x_mem = m\<rparr> in
      if srcSize < 0 then Some (0, srcSize, c, m)
      else if maxOutputSize < 0 then Some (0, srcSize, c, m)
      else if srcSize > LZ4_MAX_INPUT_SIZE then Some (0, srcSize, c, m)
      else do {
        e \<leftarrow> (if srcSize < LZ4_minLength then Some (Hc_last s) else cloop (mid_body dict D limit iend oend) s);
        mid_finish limit src dst iend oend srcSize e })"

end
