(* ===== verification/Lz4_HcChain.thy ===== *)
theory Lz4_HcChain
  imports Lz4_HcEncode
begin

unbundle bit_operations_syntax

text \<open>
  Levels 3 to 9 of \<open>lib/lz4/lz4hc.c\<close>: \<open>LZ4HC_compress_hashChain\<close>. Its labels \<open>_Search2\<close> and \<open>_Search3\<close>
  and the head of its main loop are three states; one step runs from one of them to the next jump.
\<close>

section \<open>State\<close>

datatype hc_label = Main_loop | Search2 | Search3

record chstate = hcstate +
  y_start0 :: int
  y_start2 :: int
  y_start3 :: int
  y_m0 :: LZ4HC_match_t
  y_m1 :: LZ4HC_match_t
  y_m2 :: LZ4HC_match_t
  y_m3 :: LZ4HC_match_t

record chargs =
  z_iend :: int
  z_oend :: int
  z_maxNbAttempts :: int
  z_limit :: limitedOutput_directive
  z_dict :: dictCtx_directive
  z_attached :: "LZ4HC_CCtx_internal option"

definition z_mflimit :: "chargs \<Rightarrow> int" where
  "z_mflimit a = z_iend a - MFLIMIT"

definition z_matchlimit :: "chargs \<Rightarrow> int" where
  "z_matchlimit a = z_iend a - LASTLITERALS"

definition z_patternAnalysis :: "chargs \<Rightarrow> bool" where
  "z_patternAnalysis a \<longleftrightarrow> z_maxNbAttempts a > 128"

section \<open>Steps\<close>

text \<open>\<open>LZ4HC_encodeSequence\<close> on the state of this compressor.\<close>

definition ch_encode :: "chargs \<Rightarrow> LZ4HC_match_t \<Rightarrow> chstate \<Rightarrow> (chstate + hcexit) option" where
  "ch_encode a md s = do {
     r \<leftarrow> hc_encode (z_limit a) (z_oend a) (md_len md) (md_off md) (hcstate.truncate s);
     Some (case r of
        Inr e \<Rightarrow> Inr e
      | Inl t \<Rightarrow> Inl (s\<lparr>x_ip := x_ip t, x_anchor := x_anchor t, x_op := x_op t, x_mem := x_mem t\<rparr>)) }"

definition ch_wider :: "chargs \<Rightarrow> int \<Rightarrow> int \<Rightarrow> int \<Rightarrow> chstate \<Rightarrow> (LZ4HC_match_t \<times> LZ4HC_CCtx_internal) option" where
  "ch_wider a start low longest s =
     LZ4HC_InsertAndGetWiderMatch (x_mem s) (x_ctx s) (z_attached a)
       \<lparr>w_ip = start, w_iLowLimit = low, w_iHighLimit = z_matchlimit a, w_patternAnalysis = z_patternAnalysis a,
        w_chainSwap = False, w_dict = z_dict a, w_favorDecSpeed = favorCompressionRatio\<rparr>
       longest (z_maxNbAttempts a)"

text \<open>The head of the main loop: the first match at \<open>ip\<close>.\<close>

definition step_main :: "chargs \<Rightarrow> chstate \<Rightarrow> (hc_label \<times> chstate + hcexit) option" where
  "step_main a s =
     (if x_ip s \<le> z_mflimit a then do {
        (m1, c) \<leftarrow> LZ4HC_InsertAndFindBestMatch (x_mem s) (x_ctx s) (z_attached a) (x_ip s) (z_matchlimit a)
                     (z_maxNbAttempts a) (z_patternAnalysis a) (z_dict a);
        let s = s\<lparr>y_m1 := m1, x_ctx := c\<rparr>;
        Some (Inl (if md_len m1 < MINMATCH then (Main_loop, s\<lparr>x_ip := x_ip s + 1\<rparr>)
                   else (Search2, s\<lparr>y_start0 := x_ip s, y_m0 := m1\<rparr>))) }
      else Some (Inr (Hc_last (hcstate.truncate s))))"

text \<open>\<open>_Search2\<close>: a longer match that starts near the end of the first one.\<close>

definition search_2 :: "chargs \<Rightarrow> chstate \<Rightarrow> chstate option" where
  "search_2 a s =
     (if x_ip s + md_len (y_m1 s) \<le> z_mflimit a then do {
        let start2 = x_ip s + md_len (y_m1 s) - 2;
        (m2, c) \<leftarrow> ch_wider a start2 (x_ip s) (md_len (y_m1 s)) s;
        Some (s\<lparr>y_start2 := start2 + md_back m2, y_m2 := m2, x_ctx := c\<rparr>) }
      else Some (s\<lparr>y_m2 := nomatch\<rparr>))"

definition step_search2 :: "chargs \<Rightarrow> chstate \<Rightarrow> (hc_label \<times> chstate + hcexit) option" where
  "step_search2 a s = do {
     s \<leftarrow> search_2 a s;
     if md_len (y_m2 s) \<le> md_len (y_m1 s) then do {
       r \<leftarrow> ch_encode a (y_m1 s) s;
       Some (case r of Inr e \<Rightarrow> Inr e | Inl s \<Rightarrow> Inl (Main_loop, s)) }
     else do {
       let s = (if y_start0 s < x_ip s \<and> y_start2 s < x_ip s + md_len (y_m0 s)
                then s\<lparr>x_ip := y_start0 s, y_m1 := y_m0 s\<rparr> else s);
       Some (Inl (if y_start2 s - x_ip s < 3 then (Search2, s\<lparr>x_ip := y_start2 s, y_m1 := y_m2 s\<rparr>) else (Search3, s))) } }"

text \<open>\<open>start2 += correction; m2.len -= correction\<close>.\<close>

definition shift_m2 :: "int \<Rightarrow> chstate \<Rightarrow> chstate" where
  "shift_m2 correction s =
     s\<lparr>y_start2 := y_start2 s + correction, y_m2 := (y_m2 s)\<lparr>md_len := md_len (y_m2 s) - correction\<rparr>\<rparr>"

text \<open>\<open>_Search3\<close>: the second match gives way to the first, and a third one is searched near its end.\<close>

definition adjust_m2 :: "chstate \<Rightarrow> chstate" where
  "adjust_m2 s =
     (if y_start2 s - x_ip s < OPTIMAL_ML then
        (let new_ml = (if md_len (y_m1 s) > OPTIMAL_ML then OPTIMAL_ML else md_len (y_m1 s));
             new_ml = (if x_ip s + new_ml > y_start2 s + md_len (y_m2 s) - MINMATCH
                       then s32 (y_start2 s - x_ip s) + md_len (y_m2 s) - MINMATCH else new_ml);
             correction = new_ml - s32 (y_start2 s - x_ip s)
         in if correction > 0 then shift_m2 correction s else s)
      else s)"

definition search_3 :: "chargs \<Rightarrow> chstate \<Rightarrow> chstate option" where
  "search_3 a s =
     (if y_start2 s + md_len (y_m2 s) \<le> z_mflimit a then do {
        let start3 = y_start2 s + md_len (y_m2 s) - 3;
        (m3, c) \<leftarrow> ch_wider a start3 (y_start2 s) (md_len (y_m2 s)) s;
        Some (s\<lparr>y_start3 := start3 + md_back m3, y_m3 := m3, x_ctx := c\<rparr>) }
      else Some (s\<lparr>y_m3 := nomatch\<rparr>))"

text \<open>No better third match: both are encoded.\<close>

definition encode_two :: "chargs \<Rightarrow> chstate \<Rightarrow> (hc_label \<times> chstate + hcexit) option" where
  "encode_two a s = do {
     let s = (if y_start2 s < x_ip s + md_len (y_m1 s)
              then s\<lparr>y_m1 := (y_m1 s)\<lparr>md_len := s32 (y_start2 s - x_ip s)\<rparr>\<rparr> else s);
     r \<leftarrow> ch_encode a (y_m1 s) s;
     (case r of
        Inr e \<Rightarrow> Some (Inr e)
      | Inl s \<Rightarrow> do {
          r \<leftarrow> ch_encode a (y_m2 s) (s\<lparr>x_ip := y_start2 s\<rparr>);
          Some (case r of Inr e \<Rightarrow> Inr e | Inl s \<Rightarrow> Inl (Main_loop, s)) }) }"

text \<open>Not enough space for the second match: it is removed.\<close>

definition remove_m2 :: "chargs \<Rightarrow> chstate \<Rightarrow> (hc_label \<times> chstate + hcexit) option" where
  "remove_m2 a s =
     (if y_start3 s \<ge> x_ip s + md_len (y_m1 s) then do {
        let s = (if y_start2 s < x_ip s + md_len (y_m1 s) then
                   (let s = shift_m2 (s32 (x_ip s + md_len (y_m1 s) - y_start2 s)) s
                    in if md_len (y_m2 s) < MINMATCH then s\<lparr>y_start2 := y_start3 s, y_m2 := y_m3 s\<rparr> else s)
                 else s);
        r \<leftarrow> ch_encode a (y_m1 s) s;
        Some (case r of
           Inr e \<Rightarrow> Inr e
         | Inl s \<Rightarrow> Inl (Search2, s\<lparr>x_ip := y_start3 s, y_m1 := y_m3 s, y_start0 := y_start2 s, y_m0 := y_m2 s\<rparr>)) }
      else Some (Inl (Search3, s\<lparr>y_start2 := y_start3 s, y_m2 := y_m3 s\<rparr>)))"

text \<open>Three ascending matches: the first one is written.\<close>

definition shorten_m1 :: "chstate \<Rightarrow> chstate" where
  "shorten_m1 s =
     (if y_start2 s < x_ip s + md_len (y_m1 s) then
        (if y_start2 s - x_ip s < OPTIMAL_ML then
           (let l = (if md_len (y_m1 s) > OPTIMAL_ML then OPTIMAL_ML else md_len (y_m1 s));
                l = (if x_ip s + l > y_start2 s + md_len (y_m2 s) - MINMATCH
                     then s32 (y_start2 s - x_ip s) + md_len (y_m2 s) - MINMATCH else l);
                s = s\<lparr>y_m1 := (y_m1 s)\<lparr>md_len := l\<rparr>\<rparr>;
                correction = l - s32 (y_start2 s - x_ip s)
            in if correction > 0 then shift_m2 correction s else s)
         else s\<lparr>y_m1 := (y_m1 s)\<lparr>md_len := s32 (y_start2 s - x_ip s)\<rparr>\<rparr>)
      else s)"

definition encode_first :: "chargs \<Rightarrow> chstate \<Rightarrow> (hc_label \<times> chstate + hcexit) option" where
  "encode_first a s = do {
     let s = shorten_m1 s;
     r \<leftarrow> ch_encode a (y_m1 s) s;
     Some (case r of
        Inr e \<Rightarrow> Inr e
      | Inl s \<Rightarrow> Inl (Search3, s\<lparr>x_ip := y_start2 s, y_m1 := y_m2 s, y_start2 := y_start3 s, y_m2 := y_m3 s\<rparr>)) }"

definition step_search3 :: "chargs \<Rightarrow> chstate \<Rightarrow> (hc_label \<times> chstate + hcexit) option" where
  "step_search3 a s = do {
     s \<leftarrow> search_3 a (adjust_m2 s);
     if md_len (y_m3 s) \<le> md_len (y_m2 s) then encode_two a s
     else if y_start3 s < x_ip s + md_len (y_m1 s) + 3 then remove_m2 a s
     else encode_first a s }"

section \<open>LZ4HC_compress_hashChain\<close>

fun chain_body :: "chargs \<Rightarrow> hc_label \<times> chstate \<Rightarrow> (hc_label \<times> chstate + hcexit) option" where
  "chain_body a (l, s) =
     (case l of Main_loop \<Rightarrow> step_main a s | Search2 \<Rightarrow> step_search2 a s | Search3 \<Rightarrow> step_search3 a s)"

definition chain_init :: "mem \<Rightarrow> LZ4HC_CCtx_internal \<Rightarrow> int \<Rightarrow> int \<Rightarrow> chstate" where
  "chain_init m c src dst =
     \<lparr>x_ip = src, x_anchor = src, x_op = dst, x_ctx = c, x_mem = m, y_start0 = 0, y_start2 = 0, y_start3 = 0,
      y_m0 = nomatch, y_m1 = nomatch, y_m2 = nomatch, y_m3 = nomatch\<rparr>"

definition LZ4HC_compress_hashChain ::
    "mem \<Rightarrow> LZ4HC_CCtx_internal \<Rightarrow> LZ4HC_CCtx_internal option \<Rightarrow> int \<Rightarrow> int \<Rightarrow> int \<Rightarrow> int \<Rightarrow> int \<Rightarrow> limitedOutput_directive \<Rightarrow>
     dictCtx_directive \<Rightarrow> (int \<times> int \<times> LZ4HC_CCtx_internal \<times> mem) option" where
  "LZ4HC_compress_hashChain m c D source dest inputSize maxOutputSize maxNbAttempts limit dict = do {
     let iend = source + inputSize; let oend = dest + maxOutputSize;
     let oend = (if limit = fillOutput then oend - LASTLITERALS else oend);
     let a = \<lparr>z_iend = iend, z_oend = oend, z_maxNbAttempts = maxNbAttempts, z_limit = limit, z_dict = dict, z_attached = D\<rparr>;
     let s = chain_init m c source dest;
     e \<leftarrow> (if inputSize < LZ4_minLength then Some (Hc_last (hcstate.truncate s)) else cloop (chain_body a) (Main_loop, s));
     hc_finish limit source dest iend oend 0 e }"

end
