(* ===== verification/Lz4_HcOptimal.thy ===== *)
theory Lz4_HcOptimal
  imports Lz4_HcEncode
begin

unbundle bit_operations_syntax

text \<open>
  Levels 10 to 12 of \<open>lib/lz4/lz4hc.c\<close>: the optimal parser \<open>LZ4HC_compress_optimal\<close>. For a stretch of the
  input it keeps, in the array \<open>opt\<close>, the cheapest way found to reach each position; then it walks back
  from the last position and encodes the sequences it recorded.
\<close>

section \<open>Prices\<close>

record LZ4HC_optimal_t =
  price :: int
  off :: int
  mlen :: int
  litlen :: int

type_synonym opt_table = "int \<Rightarrow> LZ4HC_optimal_t"

definition TRAILING_LITERALS :: int where [simp]: "TRAILING_LITERALS = 3"

definition LZ4HC_literalsPrice :: "int \<Rightarrow> int" where
  "LZ4HC_literalsPrice ll = (if ll \<ge> RUN_MASK then ll + (1 + (ll - RUN_MASK) div 255) else ll)"

definition LZ4HC_sequencePrice :: "int \<Rightarrow> int \<Rightarrow> int" where
  "LZ4HC_sequencePrice ll ml =
     1 + 2 + LZ4HC_literalsPrice ll +
     (if ml \<ge> ML_MASK + MINMATCH then 1 + (ml - (ML_MASK + MINMATCH)) div 255 else 0)"

text \<open>The array has \<open>LZ4_OPT_NUM + TRAILING_LITERALS\<close> elements; \<open>kzalloc\<close> clears it.\<close>

definition opt_get :: "opt_table \<Rightarrow> int \<Rightarrow> LZ4HC_optimal_t option" where
  "opt_get t i = (if 0 \<le> i \<and> i < LZ4_OPT_NUM + TRAILING_LITERALS then Some (t i) else None)"

definition opt_set :: "opt_table \<Rightarrow> int \<Rightarrow> LZ4HC_optimal_t \<Rightarrow> opt_table option" where
  "opt_set t i e = (if 0 \<le> i \<and> i < LZ4_OPT_NUM + TRAILING_LITERALS then Some (t(i := e)) else None)"

definition opt_zero :: opt_table where
  "opt_zero = (\<lambda>_. \<lparr>price = 0, off = 0, mlen = 0, litlen = 0\<rparr>)"

section \<open>Setting prices\<close>

text \<open>The first positions as literals, the positions of the first match, the literals behind it.\<close>

fun first_literals_body :: "int \<Rightarrow> int \<times> opt_table \<Rightarrow> (int \<times> opt_table + opt_table) option" where
  "first_literals_body llen (rPos, t) =
     (if rPos < MINMATCH then do {
        t \<leftarrow> opt_set t rPos \<lparr>price = LZ4HC_literalsPrice (llen + rPos), off = 0, mlen = 1, litlen = llen + rPos\<rparr>;
        Some (Inl (rPos + 1, t)) }
      else Some (Inr t))"

fun first_match_body :: "int \<Rightarrow> int \<Rightarrow> int \<Rightarrow> int \<times> opt_table \<Rightarrow> (int \<times> opt_table + opt_table) option" where
  "first_match_body llen matchML offset (ml, t) =
     (if ml \<le> matchML then do {
        t \<leftarrow> opt_set t ml \<lparr>price = LZ4HC_sequencePrice llen ml, off = offset, mlen = ml, litlen = llen\<rparr>;
        Some (Inl (ml + 1, t)) }
      else Some (Inr t))"

fun trailing_body :: "int \<Rightarrow> int \<times> opt_table \<Rightarrow> (int \<times> opt_table + opt_table) option" where
  "trailing_body last_match_pos (addLit, t) =
     (if addLit \<le> TRAILING_LITERALS then do {
        e \<leftarrow> opt_get t last_match_pos;
        t \<leftarrow> opt_set t (last_match_pos + addLit)
               \<lparr>price = price e + LZ4HC_literalsPrice addLit, off = 0, mlen = 1, litlen = addLit\<rparr>;
        Some (Inl (addLit + 1, t)) }
      else Some (Inr t))"

definition initial_prices :: "int \<Rightarrow> LZ4HC_match_t \<Rightarrow> opt_table \<Rightarrow> opt_table option" where
  "initial_prices llen firstMatch t = do {
     t \<leftarrow> cloop (first_literals_body llen) (0, t);
     t \<leftarrow> cloop (first_match_body llen (md_len firstMatch) (md_off firstMatch)) (MINMATCH, t);
     cloop (trailing_body (md_len firstMatch)) (1, t) }"

text \<open>Literals before a new match at \<open>cur\<close>.\<close>

fun before_match_body :: "int \<Rightarrow> int \<Rightarrow> int \<times> opt_table \<Rightarrow> (int \<times> opt_table + opt_table) option" where
  "before_match_body cur baseLitlen (ll, t) =
     (if ll < MINMATCH then do {
        c \<leftarrow> opt_get t cur;
        let p = price c - LZ4HC_literalsPrice baseLitlen + LZ4HC_literalsPrice (baseLitlen + ll);
        e \<leftarrow> opt_get t (cur + ll);
        t \<leftarrow> (if p < price e then opt_set t (cur + ll) \<lparr>price = p, off = 0, mlen = 1, litlen = baseLitlen + ll\<rparr> else Some t);
        Some (Inl (ll + 1, t)) }
      else Some (Inr t))"

text \<open>Every length of a new match at \<open>cur\<close>: \<open>(ml, last_match_pos, opt)\<close>.\<close>

fun new_match_body ::
    "HCfavor_e \<Rightarrow> int \<Rightarrow> LZ4HC_match_t \<Rightarrow> int \<times> int \<times> opt_table \<Rightarrow> (int \<times> int \<times> opt_table + int \<times> opt_table) option" where
  "new_match_body favorDecSpeed cur newMatch (ml, last_match_pos, t) =
     (if ml \<le> md_len newMatch then do {
        let pos = cur + ml;
        c \<leftarrow> opt_get t cur;
        (ll, p) \<leftarrow>
          (if mlen c = 1 then do {
             base \<leftarrow> (if cur > litlen c then map_option price (opt_get t (cur - litlen c)) else Some 0);
             Some (litlen c, base + LZ4HC_sequencePrice (litlen c) ml) }
           else Some (0, price c + LZ4HC_sequencePrice 0 ml));
        better \<leftarrow>
          (if pos > last_match_pos + TRAILING_LITERALS then Some True
           else map_option (\<lambda>e. p \<le> price e - (if favorDecSpeed = favorDecompressionSpeed then 1 else 0)) (opt_get t pos));
        if better then do {
          let last_match_pos = (if ml = md_len newMatch \<and> last_match_pos < pos then pos else last_match_pos);
          t \<leftarrow> opt_set t pos \<lparr>price = p, off = md_off newMatch, mlen = ml, litlen = ll\<rparr>;
          Some (Inl (ml + 1, last_match_pos, t)) }
        else Some (Inl (ml + 1, last_match_pos, t)) }
      else Some (Inr (last_match_pos, t)))"

section \<open>Further positions\<close>

record optargs =
  p_iend :: int
  p_oend :: int
  p_nbSearches :: int
  p_sufficient_len :: int
  p_limit :: limitedOutput_directive
  p_fullUpdate :: bool
  p_dict :: dictCtx_directive
  p_attached :: "LZ4HC_CCtx_internal option"
  p_favorDecSpeed :: HCfavor_e

definition p_mflimit :: "optargs \<Rightarrow> int" where
  "p_mflimit a = p_iend a - MFLIMIT"

definition p_matchlimit :: "optargs \<Rightarrow> int" where
  "p_matchlimit a = p_iend a - LASTLITERALS"

text \<open>Not useful to search where the next position has the same or a lower cost.\<close>

definition skip_position :: "optargs \<Rightarrow> int \<Rightarrow> opt_table \<Rightarrow> bool option" where
  "skip_position a cur t = do {
     n \<leftarrow> opt_get t (cur + 1);
     c \<leftarrow> opt_get t cur;
     if p_fullUpdate a then
       (if price n \<le> price c then do { f \<leftarrow> opt_get t (cur + MINMATCH); Some (price f < price c + 3) } else Some False)
     else Some (price n \<le> price c) }"

text \<open>
  How the scan ends: the last position and the match that reaches it, which is the chosen last match or
  (\<open>goto encode\<close>) one that is encoded at once.
\<close>

record optpath =
  q_cur :: int
  q_last :: int
  q_mlen :: int
  q_off :: int

definition finish_scan :: "int \<Rightarrow> opt_table \<Rightarrow> optpath option" where
  "finish_scan last_match_pos t = do {
     e \<leftarrow> opt_get t last_match_pos;
     Some \<lparr>q_cur = last_match_pos - mlen e, q_last = last_match_pos, q_mlen = mlen e, q_off = off e\<rparr> }"

text \<open>One round of \<open>for (cur = 1; cur < last_match_pos; cur++)\<close>: \<open>(cur, last_match_pos, opt, context)\<close>.\<close>

fun scan_body ::
    "optargs \<Rightarrow> mem \<Rightarrow> int \<Rightarrow> int \<times> int \<times> opt_table \<times> LZ4HC_CCtx_internal \<Rightarrow>
     (int \<times> int \<times> opt_table \<times> LZ4HC_CCtx_internal + optpath \<times> opt_table \<times> LZ4HC_CCtx_internal) option" where
  "scan_body a m ip (cur, last_match_pos, t, c) =
     (let curPtr = ip + cur in
      if cur < last_match_pos \<and> curPtr \<le> p_mflimit a then do {
        skip \<leftarrow> skip_position a cur t;
        if skip then Some (Inl (cur + 1, last_match_pos, t, c))
        else do {
          (newMatch, c) \<leftarrow> LZ4HC_FindLongerMatch m c (p_attached a) curPtr (p_matchlimit a)
             (if p_fullUpdate a then MINMATCH - 1 else last_match_pos - cur) (p_nbSearches a) (p_dict a) (p_favorDecSpeed a);
          if md_len newMatch = 0 then Some (Inl (cur + 1, last_match_pos, t, c))
          else if u64 (md_len newMatch) > p_sufficient_len a \<or> md_len newMatch + cur \<ge> LZ4_OPT_NUM
          then Some (Inr (\<lparr>q_cur = cur, q_last = cur + 1, q_mlen = md_len newMatch, q_off = md_off newMatch\<rparr>, t, c))
          else do {
            e \<leftarrow> opt_get t cur;
            t \<leftarrow> cloop (before_match_body cur (litlen e)) (1, t);
            (last_match_pos, t) \<leftarrow> cloop (new_match_body (p_favorDecSpeed a) cur newMatch) (MINMATCH, last_match_pos, t);
            t \<leftarrow> cloop (trailing_body last_match_pos) (1, t);
            Some (Inl (cur + 1, last_match_pos, t, c)) } } }
      else do { q \<leftarrow> finish_scan last_match_pos t; Some (Inr (q, t, c)) })"

section \<open>The chosen path\<close>

text \<open>The reverse traversal: \<open>(candidate_pos, selected_matchLength, selected_offset, opt)\<close>.\<close>

fun reverse_body :: "int \<times> int \<times> int \<times> opt_table \<Rightarrow> (int \<times> int \<times> int \<times> opt_table + opt_table) option" where
  "reverse_body (candidate_pos, selected_matchLength, selected_offset, t) = do {
     e \<leftarrow> opt_get t candidate_pos;
     t \<leftarrow> opt_set t candidate_pos (e\<lparr>mlen := selected_matchLength, off := selected_offset\<rparr>);
     Some (if mlen e > candidate_pos then Inr t else Inl (candidate_pos - mlen e, mlen e, off e, t)) }"

text \<open>All recorded sequences are encoded in order; a literal only moves \<open>ip\<close>.\<close>

fun emit_body ::
    "optargs \<Rightarrow> int \<Rightarrow> opt_table \<Rightarrow> int \<times> hcstate \<Rightarrow> (int \<times> hcstate + (hcstate + hcexit)) option" where
  "emit_body a last_match_pos t (rPos, s) =
     (if rPos < last_match_pos then do {
        e \<leftarrow> opt_get t rPos;
        if mlen e = 1 then Some (Inl (rPos + 1, s\<lparr>x_ip := x_ip s + 1\<rparr>))
        else do {
          r \<leftarrow> hc_encode (p_limit a) (p_oend a) (mlen e) (off e) s;
          Some (case r of Inr e' \<Rightarrow> Inr (Inr e') | Inl s \<Rightarrow> Inl (rPos + mlen e, s)) } }
      else Some (Inr (Inl s)))"

section \<open>LZ4HC_compress_optimal\<close>

definition opt_body :: "optargs \<Rightarrow> hcstate \<times> opt_table \<Rightarrow> (hcstate \<times> opt_table + hcexit) option" where
  "opt_body a = (\<lambda>(s, t).
     if x_ip s \<le> p_mflimit a then do {
       let llen = s32 (x_ip s - x_anchor s);
       (firstMatch, c) \<leftarrow> LZ4HC_FindLongerMatch (x_mem s) (x_ctx s) (p_attached a) (x_ip s) (p_matchlimit a) (MINMATCH - 1)
          (p_nbSearches a) (p_dict a) (p_favorDecSpeed a);
       let s = s\<lparr>x_ctx := c\<rparr>;
       if md_len firstMatch = 0 then Some (Inl (s\<lparr>x_ip := x_ip s + 1\<rparr>, t))
       else if u64 (md_len firstMatch) > p_sufficient_len a then do {
         r \<leftarrow> hc_encode (p_limit a) (p_oend a) (md_len firstMatch) (md_off firstMatch) s;
         Some (case r of Inr e \<Rightarrow> Inr e | Inl s \<Rightarrow> Inl (s, t)) }
       else do {
         t \<leftarrow> initial_prices llen firstMatch t;
         (q, t, c) \<leftarrow> cloop (scan_body a (x_mem s) (x_ip s)) (1, md_len firstMatch, t, c);
         t \<leftarrow> cloop reverse_body (q_cur q, q_mlen q, q_off q, t);
         r \<leftarrow> cloop (emit_body a (q_last q) t) (0, s\<lparr>x_ctx := c\<rparr>);
         Some (case r of Inr e \<Rightarrow> Inr e | Inl s \<Rightarrow> Inl (s, t)) } }
     else Some (Inr (Hc_last s)))"

text \<open>
  \<open>alloc\<close> says whether \<open>kzalloc\<close> provides the array; when it does not, nothing is read or written and
  the result is 0.
\<close>

text \<open>
  \<open>_last_literals\<close>, \<open>_dest_overflow\<close> and \<open>_return_label\<close>: the copy of the closing parts in
  \<open>LZ4HC_compress_optimal\<close>, which also releases the table.
\<close>

definition opt_finish :: "limitedOutput_directive \<Rightarrow> int \<Rightarrow> int \<Rightarrow> int \<Rightarrow> int \<Rightarrow> int \<Rightarrow> hcexit \<Rightarrow>
    (int \<times> int \<times> LZ4HC_CCtx_internal \<times> mem) option" where
  "opt_finish limit source dst iend oend srcSize e = hc_finish limit source dst iend oend srcSize e"

definition LZ4HC_compress_optimal ::
    "bool \<Rightarrow> mem \<Rightarrow> LZ4HC_CCtx_internal \<Rightarrow> LZ4HC_CCtx_internal option \<Rightarrow> int \<Rightarrow> int \<Rightarrow> int \<Rightarrow> int \<Rightarrow> int \<Rightarrow> int \<Rightarrow>
     limitedOutput_directive \<Rightarrow> bool \<Rightarrow> dictCtx_directive \<Rightarrow> HCfavor_e \<Rightarrow>
     (int \<times> int \<times> LZ4HC_CCtx_internal \<times> mem) option" where
  "LZ4HC_compress_optimal alloc m c D source dst srcSize dstCapacity nbSearch sufficient_len limit fullUpdate dict favorDecSpeed =
     (if \<not> alloc then Some (0, srcSize, c, m)
      else do {
        let iend = source + srcSize; let oend = dst + dstCapacity;
        let oend = (if limit = fillOutput then oend - LASTLITERALS else oend);
        let a = \<lparr>p_iend = iend, p_oend = oend, p_nbSearches = nbSearch,
                 p_sufficient_len = (if sufficient_len \<ge> LZ4_OPT_NUM then LZ4_OPT_NUM - 1 else sufficient_len),
                 p_limit = limit, p_fullUpdate = fullUpdate, p_dict = dict, p_attached = D, p_favorDecSpeed = favorDecSpeed\<rparr>;
        e \<leftarrow> cloop (opt_body a) (\<lparr>x_ip = source, x_anchor = source, x_op = dst, x_ctx = c, x_mem = m\<rparr>, opt_zero);
        opt_finish limit source dst iend oend 0 e })"

end
