(* ===== verification/Lz4_HcApi.thy ===== *)
theory Lz4_HcApi
  imports Lz4_HcMid Lz4_HcChain Lz4_HcOptimal
begin

unbundle bit_operations_syntax

text \<open>
  The entry points of \<open>lib/lz4/lz4hc.c\<close>: the choice of the compressor by level, the one-shot functions,
  dictionaries and streaming. \<open>alloc\<close> says whether the optimal parser gets its array from \<open>kzalloc\<close>.

  Contexts live at addresses in \<open>S\<close>. The dictionary context that \<open>dictCtx\<close> points to is only read, and is
  passed to the searches as it is when the call starts; a stream that is its own dictionary would change
  it meanwhile, which the documentation of \<open>LZ4_attach_HC_dictionary\<close> forbids, and is undefined here.
\<close>

section \<open>Compression with a context\<close>

definition hc_attached :: "hcstreams \<Rightarrow> int \<Rightarrow> LZ4HC_CCtx_internal \<Rightarrow> LZ4HC_CCtx_internal option" where
  "hc_attached S ctx c = (if h_dictCtx c = 0 \<or> h_dictCtx c = ctx then None else S (h_dictCtx c))"

text \<open>The result, the new value of \<open>*srcSizePtr\<close>, the memory and the contexts.\<close>

definition LZ4HC_compress_generic_internal ::
    "bool \<Rightarrow> mem \<Rightarrow> hcstreams \<Rightarrow> int \<Rightarrow> int \<Rightarrow> int \<Rightarrow> int \<Rightarrow> int \<Rightarrow> int \<Rightarrow> limitedOutput_directive \<Rightarrow> dictCtx_directive \<Rightarrow>
     (int \<times> int \<times> mem \<times> hcstreams) option" where
  "LZ4HC_compress_generic_internal alloc m S ctx src dst srcSize dstCapacity cLevel limit dict =
     (if limit = fillOutput \<and> dstCapacity < 1 then Some (0, srcSize, m, S)
      else if u32 srcSize > u32 LZ4_MAX_INPUT_SIZE then Some (0, srcSize, m, S)
      else do {
        c \<leftarrow> S ctx;
        let D = hc_attached S ctx c;
        let c = c\<lparr>h_end := h_end c + srcSize\<rparr>;
        let cParam = LZ4HC_getCLevelParams cLevel;
        let favor = (if h_favorDecSpeed c \<noteq> 0 then favorDecompressionSpeed else favorCompressionRatio);
        (result, consumed, c, m) \<leftarrow>
          (case strat cParam of
             lz4mid \<Rightarrow> LZ4MID_compress m c D src dst srcSize dstCapacity limit dict
           | lz4hc \<Rightarrow> LZ4HC_compress_hashChain m c D src dst srcSize dstCapacity (nbSearches cParam) limit dict
           | lz4opt \<Rightarrow> LZ4HC_compress_optimal alloc m c D src dst srcSize dstCapacity (nbSearches cParam) (targetLength cParam)
               limit (cLevel \<ge> LZ4HC_CLEVEL_MAX) dict favor);
        let c = (if result \<le> 0 then c\<lparr>h_dirty := 1\<rparr> else c);
        Some (result, consumed, m, S(ctx \<mapsto> c)) })"

definition LZ4HC_compress_generic_noDictCtx ::
    "bool \<Rightarrow> mem \<Rightarrow> hcstreams \<Rightarrow> int \<Rightarrow> int \<Rightarrow> int \<Rightarrow> int \<Rightarrow> int \<Rightarrow> int \<Rightarrow> limitedOutput_directive \<Rightarrow>
     (int \<times> int \<times> mem \<times> hcstreams) option" where
  "LZ4HC_compress_generic_noDictCtx alloc m S ctx src dst srcSize dstCapacity cLevel limit =
     LZ4HC_compress_generic_internal alloc m S ctx src dst srcSize dstCapacity cLevel limit noDictCtx"

definition isStateCompatible :: "LZ4HC_CCtx_internal \<Rightarrow> LZ4HC_CCtx_internal \<Rightarrow> bool" where
  "isStateCompatible ctx1 ctx2 \<longleftrightarrow>
     (strat (LZ4HC_getCLevelParams (h_compressionLevel ctx1)) = lz4mid) =
     (strat (LZ4HC_getCLevelParams (h_compressionLevel ctx2)) = lz4mid)"

definition LZ4HC_setExternalDict :: "mem \<Rightarrow> LZ4HC_CCtx_internal \<Rightarrow> int \<Rightarrow> LZ4HC_CCtx_internal option" where
  "LZ4HC_setExternalDict m c newBlock = do {
     c \<leftarrow> (if h_end c \<ge> h_prefixStart c + 4 \<and> strat (LZ4HC_getCLevelParams (h_compressionLevel c)) \<noteq> lz4mid
           then LZ4HC_Insert m c (h_end c - 3) else Some c);
     let dictLimit = u32 (h_dictLimit c + u32 (h_end c - h_prefixStart c));
     Some (c\<lparr>h_lowLimit := h_dictLimit c, h_dictStart := h_prefixStart c, h_dictLimit := dictLimit,
             h_prefixStart := newBlock, h_end := newBlock, h_nextToUpdate := dictLimit, h_dictCtx := 0\<rparr>) }"

definition LZ4HC_compress_generic_dictCtx ::
    "bool \<Rightarrow> mem \<Rightarrow> hcstreams \<Rightarrow> int \<Rightarrow> int \<Rightarrow> int \<Rightarrow> int \<Rightarrow> int \<Rightarrow> int \<Rightarrow> limitedOutput_directive \<Rightarrow>
     (int \<times> int \<times> mem \<times> hcstreams) option" where
  "LZ4HC_compress_generic_dictCtx alloc m S ctx src dst srcSize dstCapacity cLevel limit = do {
     c \<leftarrow> S ctx;
     d \<leftarrow> S (h_dictCtx c);
     let position = u64 (u64 (h_end c - h_prefixStart c) + u32 (h_dictLimit c - h_lowLimit c));
     if position \<ge> 64 * KB then
       LZ4HC_compress_generic_noDictCtx alloc m (S(ctx \<mapsto> c\<lparr>h_dictCtx := 0\<rparr>)) ctx src dst srcSize dstCapacity cLevel limit
     else if position = 0 \<and> srcSize > 4 * KB \<and> isStateCompatible c d then do {
       c \<leftarrow> LZ4HC_setExternalDict m d src;
       LZ4HC_compress_generic_noDictCtx alloc m (S(ctx \<mapsto> c\<lparr>h_compressionLevel := s16 cLevel\<rparr>)) ctx src dst srcSize dstCapacity
         cLevel limit }
     else LZ4HC_compress_generic_internal alloc m S ctx src dst srcSize dstCapacity cLevel limit usingDictCtxHc }"

definition LZ4HC_compress_generic ::
    "bool \<Rightarrow> mem \<Rightarrow> hcstreams \<Rightarrow> int \<Rightarrow> int \<Rightarrow> int \<Rightarrow> int \<Rightarrow> int \<Rightarrow> int \<Rightarrow> limitedOutput_directive \<Rightarrow>
     (int \<times> int \<times> mem \<times> hcstreams) option" where
  "LZ4HC_compress_generic alloc m S ctx src dst srcSize dstCapacity cLevel limit = do {
     c \<leftarrow> S ctx;
     if h_dictCtx c = 0
     then LZ4HC_compress_generic_noDictCtx alloc m S ctx src dst srcSize dstCapacity cLevel limit
     else LZ4HC_compress_generic_dictCtx alloc m S ctx src dst srcSize dstCapacity cLevel limit }"

section \<open>One-shot functions\<close>

definition LZ4_compress_HC_extStateHC_fastReset ::
    "bool \<Rightarrow> mem \<Rightarrow> hcstreams \<Rightarrow> int \<Rightarrow> int \<Rightarrow> int \<Rightarrow> int \<Rightarrow> int \<Rightarrow> int \<Rightarrow> (int \<times> mem \<times> hcstreams) option" where
  "LZ4_compress_HC_extStateHC_fastReset alloc m S state src dst srcSize dstCapacity compressionLevel =
     (if \<not> LZ4_isAligned state LZ4_streamHC_t_alignment then Some (0, m, S)
      else do {
        S \<leftarrow> LZ4_resetStreamHC_fast S state compressionLevel;
        c \<leftarrow> S state;
        let S = S(state \<mapsto> LZ4HC_init_internal c src);
        (r, _, m, S) \<leftarrow> LZ4HC_compress_generic alloc m S state src dst srcSize dstCapacity compressionLevel
          (if dstCapacity < LZ4_compressBound srcSize then limitedOutput else notLimited);
        Some (r, m, S) })"

definition LZ4_compress_HC_extStateHC ::
    "bool \<Rightarrow> mem \<Rightarrow> hcstreams \<Rightarrow> int \<Rightarrow> int \<Rightarrow> int \<Rightarrow> int \<Rightarrow> int \<Rightarrow> int \<Rightarrow> (int \<times> mem \<times> hcstreams) option" where
  "LZ4_compress_HC_extStateHC alloc m S state src dst srcSize dstCapacity compressionLevel = do {
     (ctx, S) \<leftarrow> LZ4_initStreamHC S state sizeof_streamHC;
     if ctx = 0 then Some (0, m, S)
     else LZ4_compress_HC_extStateHC_fastReset alloc m S state src dst srcSize dstCapacity compressionLevel }"

definition LZ4_compress_HC ::
    "bool \<Rightarrow> mem \<Rightarrow> hcstreams \<Rightarrow> int \<Rightarrow> int \<Rightarrow> int \<Rightarrow> int \<Rightarrow> int \<Rightarrow> int \<Rightarrow> (int \<times> mem \<times> hcstreams) option" where
  "LZ4_compress_HC alloc m S src dst srcSize dstCapacity compressionLevel wrkmem =
     LZ4_compress_HC_extStateHC alloc m S wrkmem src dst srcSize dstCapacity compressionLevel"

definition LZ4_compress_HC_destSize ::
    "bool \<Rightarrow> mem \<Rightarrow> hcstreams \<Rightarrow> int \<Rightarrow> int \<Rightarrow> int \<Rightarrow> int \<Rightarrow> int \<Rightarrow> int \<Rightarrow> (int \<times> int \<times> mem \<times> hcstreams) option" where
  "LZ4_compress_HC_destSize alloc m S state source dest sourceSize targetDestSize cLevel = do {
     (ctx, S) \<leftarrow> LZ4_initStreamHC S state sizeof_streamHC;
     if ctx = 0 then Some (0, sourceSize, m, S)
     else do {
       c \<leftarrow> S ctx;
       let S = S(ctx \<mapsto> LZ4_setCompressionLevel (LZ4HC_init_internal c source) cLevel);
       LZ4HC_compress_generic alloc m S ctx source dest sourceSize targetDestSize cLevel fillOutput } }"

section \<open>Dictionaries and streaming\<close>

definition LZ4_loadDictHC :: "mem \<Rightarrow> hcstreams \<Rightarrow> int \<Rightarrow> int \<Rightarrow> int \<Rightarrow> (int \<times> hcstreams) option" where
  "LZ4_loadDictHC m S p dictionary dictSize = do {
     c \<leftarrow> S p;
     let dictionary = (if dictSize > 64 * KB then dictionary + (dictSize - 64 * KB) else dictionary);
     let dictSize = (if dictSize > 64 * KB then 64 * KB else dictSize);
     let cLevel = h_compressionLevel c;
     (_, S) \<leftarrow> LZ4_initStreamHC S p sizeof_streamHC;
     c \<leftarrow> S p;
     let c = LZ4_setCompressionLevel c cLevel;
     let cp = LZ4HC_getCLevelParams cLevel;
     let c = (LZ4HC_init_internal c dictionary)\<lparr>h_end := dictionary + dictSize\<rparr>;
     c \<leftarrow> (if strat cp = lz4mid then LZ4MID_fillHTable m c dictionary (u64 dictSize)
           else if dictSize \<ge> LZ4HC_HASHSIZE then LZ4HC_Insert m c (h_end c - 3) else Some c);
     Some (dictSize, S(p \<mapsto> c)) }"

text \<open>The part of the external dictionary that the new input overwrites is given up.\<close>

definition hc_drop_overlap :: "LZ4HC_CCtx_internal \<Rightarrow> int \<Rightarrow> int \<Rightarrow> LZ4HC_CCtx_internal" where
  "hc_drop_overlap c src srcSize =
     (let sourceEnd = src + srcSize; dictBegin = h_dictStart c;
          dictEnd = h_dictStart c + u32 (h_dictLimit c - h_lowLimit c) in
      if sourceEnd > dictBegin \<and> src < dictEnd then
        (let sourceEnd = (if sourceEnd > dictEnd then dictEnd else sourceEnd);
             c = c\<lparr>h_lowLimit := u32 (h_lowLimit c + u32 (sourceEnd - h_dictStart c)),
                   h_dictStart := h_dictStart c + u32 (sourceEnd - h_dictStart c)\<rparr>
         in if u32 (h_dictLimit c - h_lowLimit c) < LZ4HC_HASHSIZE
            then c\<lparr>h_lowLimit := h_dictLimit c, h_dictStart := h_prefixStart c\<rparr> else c)
      else c)"

definition LZ4_compressHC_continue_generic ::
    "bool \<Rightarrow> mem \<Rightarrow> hcstreams \<Rightarrow> int \<Rightarrow> int \<Rightarrow> int \<Rightarrow> int \<Rightarrow> int \<Rightarrow> limitedOutput_directive \<Rightarrow>
     (int \<times> int \<times> mem \<times> hcstreams) option" where
  "LZ4_compressHC_continue_generic alloc m S p src dst srcSize dstCapacity limit = do {
     c \<leftarrow> S p;
     let c = (if h_prefixStart c = 0 then LZ4HC_init_internal c src else c);
     let S = S(p \<mapsto> c);
     S \<leftarrow> (if u64 (u64 (h_end c - h_prefixStart c) + h_dictLimit c) > 2 * GB then do {
             let dictSize = u64 (h_end c - h_prefixStart c);
             let dictSize = (if dictSize > 64 * KB then 64 * KB else dictSize);
             map_option snd (LZ4_loadDictHC m S p (h_end c - dictSize) (s32 dictSize)) }
           else Some S);
     c \<leftarrow> S p;
     c \<leftarrow> (if src \<noteq> h_end c then LZ4HC_setExternalDict m c src else Some c);
     let c = hc_drop_overlap c src srcSize;
     LZ4HC_compress_generic alloc m (S(p \<mapsto> c)) p src dst srcSize dstCapacity (h_compressionLevel c) limit }"

definition LZ4_compress_HC_continue ::
    "bool \<Rightarrow> mem \<Rightarrow> hcstreams \<Rightarrow> int \<Rightarrow> int \<Rightarrow> int \<Rightarrow> int \<Rightarrow> int \<Rightarrow> (int \<times> mem \<times> hcstreams) option" where
  "LZ4_compress_HC_continue alloc m S p src dst srcSize dstCapacity = do {
     (r, _, m, S) \<leftarrow> LZ4_compressHC_continue_generic alloc m S p src dst srcSize dstCapacity
       (if dstCapacity < LZ4_compressBound srcSize then limitedOutput else notLimited);
     Some (r, m, S) }"

definition LZ4_compress_HC_continue_destSize ::
    "bool \<Rightarrow> mem \<Rightarrow> hcstreams \<Rightarrow> int \<Rightarrow> int \<Rightarrow> int \<Rightarrow> int \<Rightarrow> int \<Rightarrow> (int \<times> int \<times> mem \<times> hcstreams) option" where
  "LZ4_compress_HC_continue_destSize alloc m S p src dst srcSize targetDestSize =
     LZ4_compressHC_continue_generic alloc m S p src dst srcSize targetDestSize fillOutput"

definition LZ4_saveDictHC :: "mem \<Rightarrow> hcstreams \<Rightarrow> int \<Rightarrow> int \<Rightarrow> int \<Rightarrow> (int \<times> mem \<times> hcstreams) option" where
  "LZ4_saveDictHC m S p safeBuffer dictSize = do {
     s \<leftarrow> S p;
     let pSize = s32 (h_end s - h_prefixStart s);
     let dictSize = (if dictSize > 64 * KB then 64 * KB else dictSize);
     let dictSize = (if dictSize < 4 then 0 else dictSize);
     let dictSize = (if dictSize > pSize then pSize else dictSize);
     m \<leftarrow> (if dictSize > 0 then memmove m safeBuffer (h_end s - dictSize) dictSize else Some m);
     let endIndex = u32 (u32 (h_end s - h_prefixStart s) + h_dictLimit s);
     let limit = u32 (endIndex - u32 dictSize);
     let s = s\<lparr>h_end := (if safeBuffer = 0 then 0 else safeBuffer + dictSize), h_prefixStart := safeBuffer,
               h_dictLimit := limit, h_lowLimit := limit, h_dictStart := safeBuffer\<rparr>;
     let s = (if h_nextToUpdate s < h_dictLimit s then s\<lparr>h_nextToUpdate := h_dictLimit s\<rparr> else s);
     Some (dictSize, m, S(p \<mapsto> s)) }"

section \<open>Deprecated functions\<close>

definition LZ4_resetStreamStateHC :: "hcstreams \<Rightarrow> int \<Rightarrow> int \<Rightarrow> (int \<times> hcstreams) option" where
  "LZ4_resetStreamStateHC S state inputBuffer = do {
     (hc4, S) \<leftarrow> LZ4_initStreamHC S state sizeof_streamHC;
     if hc4 = 0 then Some (1, S)
     else do { c \<leftarrow> S hc4; Some (0, S(hc4 \<mapsto> LZ4HC_init_internal c inputBuffer)) } }"

definition LZ4_compressHC2_continue ::
    "bool \<Rightarrow> mem \<Rightarrow> hcstreams \<Rightarrow> int \<Rightarrow> int \<Rightarrow> int \<Rightarrow> int \<Rightarrow> int \<Rightarrow> (int \<times> mem \<times> hcstreams) option" where
  "LZ4_compressHC2_continue alloc m S p src dst srcSize cLevel = do {
     (r, _, m, S) \<leftarrow> LZ4HC_compress_generic alloc m S p src dst srcSize 0 cLevel notLimited;
     Some (r, m, S) }"

definition LZ4_compressHC2_limitedOutput_continue ::
    "bool \<Rightarrow> mem \<Rightarrow> hcstreams \<Rightarrow> int \<Rightarrow> int \<Rightarrow> int \<Rightarrow> int \<Rightarrow> int \<Rightarrow> int \<Rightarrow> (int \<times> mem \<times> hcstreams) option" where
  "LZ4_compressHC2_limitedOutput_continue alloc m S p src dst srcSize dstCapacity cLevel = do {
     (r, _, m, S) \<leftarrow> LZ4HC_compress_generic alloc m S p src dst srcSize dstCapacity cLevel limitedOutput;
     Some (r, m, S) }"

definition LZ4_slideInputBufferHC :: "hcstreams \<Rightarrow> int \<Rightarrow> (int \<times> hcstreams) option" where
  "LZ4_slideInputBufferHC S p = do {
     s \<leftarrow> S p;
     S \<leftarrow> LZ4_resetStreamHC_fast S p (h_compressionLevel s);
     Some (h_prefixStart s - h_dictLimit s + h_lowLimit s, S) }"

end
