(* ===== verification/Lz4_Count.thy ===== *)
theory Lz4_Count
  imports Lz4_Common
begin

unbundle bit_operations_syntax

text \<open>
  \<open>LZ4_count\<close> returns the number of equal bytes, eight at a time: the trailing zeros of the difference
  of two words name the first byte that differs.
\<close>

section \<open>The specification\<close>

text \<open>How many of the \<open>n\<close> bytes from \<open>q\<close> on equal those from \<open>p\<close> on.\<close>

primrec agree :: "mem \<Rightarrow> int \<Rightarrow> int \<Rightarrow> nat \<Rightarrow> nat" where
  "agree m p q 0 = 0"
| "agree m p q (Suc n) = (if m p = m q then Suc (agree m (p + 1) (q + 1) n) else 0)"

lemma agree_le: "agree m p q n \<le> n"
  by (induction n arbitrary: p q) auto

lemma agree_eq: "k < agree m p q n \<Longrightarrow> m (p + int k) = m (q + int k)"
proof (induction n arbitrary: p q k)
  case 0
  then show ?case by simp
next
  case (Suc n)
  then show ?case
    using Suc.IH [of "k - 1" "p + 1" "q + 1"]
    by (cases k) (auto simp: algebra_simps split: if_splits)
qed

lemma agree_maximal: "agree m p q n < n \<Longrightarrow> m (p + int (agree m p q n)) \<noteq> m (q + int (agree m p q n))"
proof (induction n arbitrary: p q)
  case 0
  then show ?case by simp
next
  case (Suc n)
  then show ?case
    using Suc.IH [of "p + 1" "q + 1"] by (auto simp: algebra_simps split: if_splits)
qed

lemma agree_skip:
  "(\<And>i. i < k \<Longrightarrow> m (p + int i) = m (q + int i)) \<Longrightarrow> k \<le> n \<Longrightarrow>
   agree m p q n = k + agree m (p + int k) (q + int k) (n - k)"
proof (induction k arbitrary: p q n)
  case 0
  then show ?case by simp
next
  case (Suc k)
  from Suc.prems(2) obtain n' where n: "n = Suc n'" "k \<le> n'" by (cases n) auto
  have eq: "m (p + 1 + int i) = m (q + 1 + int i)" if "i < k" for i
    using Suc.prems(1) [of "Suc i"] that by (simp add: algebra_simps)
  show ?case
    using Suc.prems(1) [of 0] Suc.IH [OF eq n(2)] by (simp add: n(1) algebra_simps)
qed

lemma agree_stop:
  "(\<And>i. i < k \<Longrightarrow> m (p + int i) = m (q + int i)) \<Longrightarrow> k < n \<Longrightarrow> m (p + int k) \<noteq> m (q + int k) \<Longrightarrow>
   agree m p q n = k"
  using agree_skip [of k m p q n] by (cases "n - k") auto

section \<open>Words of bytes\<close>

lemma le_val_Cons_or: "le_val (b # bs) = uint b OR push_bit 8 (le_val bs)"
proof -
  have "uint b AND push_bit 8 (le_val bs) = 0"
    by (rule bit_eqI) (auto simp: bit_simps bit_uint_iff dest: bit_imp_le_length)
  then show ?thesis
    by (simp add: disjunctive_add_eq_or [symmetric] push_bit_eq_mult)
qed

lemma le_val_xor:
  "length bs = length cs \<Longrightarrow> le_val bs XOR le_val cs = le_val (map2 (XOR) bs cs)"
proof (induction bs cs rule: list_induct2)
  case Nil
  then show ?case by simp
next
  case (Cons b bs c cs)
  have "(uint b OR push_bit 8 x) XOR (uint c OR push_bit 8 y) = uint (b XOR c) OR push_bit 8 (x XOR y)"
    for x y :: int
    by (rule bit_eqI) (auto simp: bit_simps bit_uint_iff dest: bit_imp_le_length)
  then show ?case
    by (simp only: le_val_Cons_or list.map zip_Cons_Cons prod.case Cons.IH [symmetric])
qed

lemma le_val_nonneg [simp]: "0 \<le> le_val bs"
  using le_val_bounds by blast

lemma le_val_eq_iff: "length bs = length cs \<Longrightarrow> le_val bs = le_val cs \<longleftrightarrow> bs = cs"
proof (induction bs cs rule: list_induct2)
  case Nil
  then show ?case by simp
next
  case (Cons b bs c cs)
  have "b = c \<and> le_val bs = le_val cs" if eq: "uint b + 256 * le_val bs = uint c + 256 * le_val cs"
  proof -
    have "(uint b + 256 * le_val bs) mod 256 = (uint c + 256 * le_val cs) mod 256" using eq by simp
    then have "uint b = uint c" by simp
    then show ?thesis using eq by (simp add: word_uint_eq_iff)
  qed
  then show ?case using Cons.IH by auto
qed

lemma le_val_zero_iff: "le_val bs = 0 \<longleftrightarrow> (\<forall>b \<in> set bs. b = 0)"
proof (induction bs)
  case Nil
  then show ?case by simp
next
  case (Cons b bs)
  have "uint b + 256 * le_val bs = 0 \<longleftrightarrow> uint b = 0 \<and> le_val bs = 0"
    using le_val_nonneg [of bs] uint_byte_range(1) [of b] by linarith
  then show ?case using Cons by (simp add: uint_0_iff)
qed

lemma byte_xor_zero: "b XOR c = 0 \<longleftrightarrow> b = c" for b c :: byte
  by (metis xor.assoc xor.right_neutral xor_self_eq)

lemma int_xor_zero: "a XOR b = 0 \<longleftrightarrow> a = b" for a b :: int
  by (metis xor.assoc xor.right_neutral xor_self_eq)

section \<open>Trailing zeros\<close>

lemma ctz_pow: "0 < x \<Longrightarrow> 2 ^ ctz x dvd x \<and> odd (x div 2 ^ ctz x)"
proof (induction x rule: ctz.induct)
  case (1 v)
  show ?case
  proof (cases "odd v")
    case True
    then show ?thesis using 1 by (subst (1 2) ctz.simps) simp
  next
    case False
    then have "0 < v div 2" "v = 2 * (v div 2)" using 1 by auto
    with 1 False have IH: "2 ^ ctz (v div 2) dvd v div 2" "odd (v div 2 div 2 ^ ctz (v div 2))" by auto
    have c: "ctz v = Suc (ctz (v div 2))" using False 1 by (subst ctz.simps) simp
    have "v div 2 ^ Suc (ctz (v div 2)) = v div 2 div 2 ^ ctz (v div 2)"
      by (simp add: zdiv_zmult2_eq)
    moreover have "2 ^ Suc (ctz (v div 2)) dvd v"
      using IH(1) \<open>v = 2 * (v div 2)\<close> by (metis dvd_triv_left mult_dvd_mono power_Suc dvd_refl)
    ultimately show ?thesis using IH(2) by (simp only: c) simp
  qed
qed

lemma ctz_unique:
  assumes "0 < x" "2 ^ k dvd x" "odd (x div 2 ^ k)"
  shows "ctz x = k"
proof (rule ccontr)
  assume ne: "ctz x \<noteq> k"
  have c: "2 ^ ctz x dvd x" "odd (x div 2 ^ ctz x)" using ctz_pow [OF \<open>0 < x\<close>] by auto
  have no: "\<not> j < i" if "2 ^ i dvd x" "odd (x div 2 ^ j)" for i j :: nat
  proof
    assume "j < i"
    then have "2 ^ Suc j dvd x" using that(1) by (meson Suc_leI le_imp_power_dvd dvd_trans)
    then have "2 dvd x div 2 ^ j" by (auto simp: elim!: dvdE)
    with that(2) show False by simp
  qed
  show False using no [OF c(1) assms(3)] no [OF assms(2) c(2)] ne by linarith
qed

lemma ctz_byte:
  fixes b :: byte
  assumes "b \<noteq> 0" "0 \<le> y"
  shows "ctz (uint b + 256 * y) div 8 = 0"
proof -
  have "uint b \<noteq> 0" using assms(1) by (simp add: uint_0_iff)
  then have pos: "0 < uint b" using uint_byte_range(1) [of b] by linarith
  let ?k = "ctz (uint b + 256 * y)"
  have "?k < 8"
  proof (rule ccontr)
    assume "\<not> ?k < 8"
    then have "(2::int) ^ 8 dvd 2 ^ ?k" by (intro le_imp_power_dvd) simp
    then have "2 ^ 8 dvd uint b + 256 * y"
      using ctz_pow [of "uint b + 256 * y"] pos assms(2) by (auto intro: dvd_trans)
    then have "256 dvd uint b" by (simp add: dvd_add_left_iff)
    then have "256 \<le> uint b" using pos by (rule zdvd_imp_le)
    then show False using uint_byte_range(2) [of b] by linarith
  qed
  then show ?thesis by simp
qed

lemma ctz_zero_byte: "0 < y \<Longrightarrow> ctz (256 * y) = 8 + ctz y"
proof (rule ctz_unique)
  assume y: "0 < y"
  then show "0 < 256 * y" by simp
  have c: "2 ^ ctz y dvd y" "odd (y div 2 ^ ctz y)" using ctz_pow [OF y] by auto
  have p: "(2::int) ^ (8 + ctz y) = 256 * 2 ^ ctz y" by (simp add: power_add)
  show "2 ^ (8 + ctz y) dvd 256 * y" unfolding p using c(1) by (simp add: mult_dvd_mono)
  show "odd (256 * y div 2 ^ (8 + ctz y))" unfolding p using c(2) by simp
qed

lemma ctz_le_val:
  "le_val ds \<noteq> 0 \<Longrightarrow> ctz (le_val ds) div 8 = length (takeWhile (\<lambda>d. d = 0) ds)"
proof (induction ds)
  case Nil
  then show ?case by simp
next
  case (Cons d ds)
  show ?case
  proof (cases "d = 0")
    case True
    then have "le_val ds \<noteq> 0" "0 < le_val ds"
      using Cons.prems le_val_nonneg [of ds] by (auto simp: less_le)
    then show ?thesis using True Cons.IH ctz_zero_byte [of "le_val ds"] by simp
  next
    case False
    then show ?thesis using ctz_byte [OF False, of "le_val ds"] by simp
  qed
qed

text \<open>The builtin variant on a little-endian word names the first byte that differs.\<close>

lemma LZ4_NbCommonBytes_le:
  assumes "length bs = length cs" "bs \<noteq> cs"
  shows "\<exists>k < length bs. LZ4_NbCommonBytes True (le_val bs XOR le_val cs) = Some (int k) \<and>
           (\<forall>i < k. bs ! i = cs ! i) \<and> bs ! k \<noteq> cs ! k"
proof -
  let ?ds = "map2 (XOR) bs cs" let ?k = "length (takeWhile (\<lambda>d. d = 0) ?ds)"
  have len: "length ?ds = length bs" using assms(1) by simp
  have nth: "?ds ! i = 0 \<longleftrightarrow> bs ! i = cs ! i" if "i < length bs" for i
    using that assms(1) by (simp add: byte_xor_zero)
  have nz: "le_val ?ds \<noteq> 0"
  proof
    assume "le_val ?ds = 0"
    then have "\<forall>d \<in> set ?ds. d = 0" by (simp add: le_val_zero_iff)
    then have "bs ! i = cs ! i" if "i < length bs" for i
      using nth [OF that] nth_mem [of i ?ds] that len by metis
    with assms show False by (simp add: nth_equalityI)
  qed
  have lt: "?k < length bs"
  proof (rule ccontr)
    assume "\<not> ?k < length bs"
    then have "takeWhile (\<lambda>d. d = 0) ?ds = ?ds"
      using len length_takeWhile_le [of "\<lambda>d. d = 0" ?ds] takeWhile_eq_take [of "\<lambda>d. d = 0" ?ds] by simp
    then have "\<forall>d \<in> set ?ds. d = 0" by (simp only: takeWhile_eq_all_conv)
    with nz show False by (simp add: le_val_zero_iff)
  qed
  have "drop_bit 3 (int (ctz (le_val ?ds))) = int (ctz (le_val ?ds) div 8)"
    by (simp add: drop_bit_eq_div zdiv_int)
  then have "LZ4_NbCommonBytes True (le_val bs XOR le_val cs) = Some (int ?k)"
    unfolding le_val_xor [OF assms(1)] ctz_le_val [OF nz]
    using nz by (simp add: LZ4_NbCommonBytes_def builtin_ctz_def)
  moreover have "bs ! i = cs ! i" if "i < ?k" for i
  proof -
    have "i < length bs" using that lt by simp
    have "?ds ! i = 0"
      using takeWhile_nth [OF that] nth_mem [OF that] set_takeWhileD by metis
    then show ?thesis using nth [OF \<open>i < length bs\<close>] by simp
  qed
  moreover have "bs ! ?k \<noteq> cs ! ?k"
    using nth_length_takeWhile [of "\<lambda>d. d = 0" ?ds] lt len nth [OF lt] by simp
  ultimately show ?thesis using lt by blast
qed

section \<open>LZ4_count\<close>

text \<open>A read of \<open>n\<close> bytes of a mapped range.\<close>

lemma read_le:
  "mapped m p (p + 2) \<Longrightarrow> LZ4_read16 True m p = Some (le_val (bytes m p (p + 2)))"
  "mapped m p (p + 4) \<Longrightarrow> LZ4_read32 True m p = Some (le_val (bytes m p (p + 4)))"
  "mapped m p (p + 8) \<Longrightarrow> LZ4_read_ARCH True m p = Some (le_val (bytes m p (p + 8)))"
  using loads_Some [of m p 2] loads_Some [of m p 4] loads_Some [of m p 8]
  by (simp_all add: LZ4_read16_def LZ4_read32_def LZ4_read_ARCH_def native_def)

lemma bytes_eq_iff:
  assumes "mapped m p (p + int n)" "mapped m q (q + int n)"
  shows "bytes m p (p + int n) = bytes m q (q + int n) \<longleftrightarrow> (\<forall>i < n. m (p + int i) = m (q + int i))"
proof -
  have "m (p + int i) = Some (bytes m p (p + int n) ! i)" "m (q + int i) = Some (bytes m q (q + int n) ! i)"
    if "i < n" for i
    using that mapped_Some_bytes [OF assms(1), of "p + int i"] mapped_Some_bytes [OF assms(2), of "q + int i"] by auto
  then show ?thesis
    by (auto simp: list_eq_iff_nth_eq)
qed

lemma read_eq_iff:
  assumes "mapped m p (p + int n)" "mapped m q (q + int n)"
  shows "le_val (bytes m p (p + int n)) = le_val (bytes m q (q + int n)) \<longleftrightarrow>
         (\<forall>i < n. m (p + int i) = m (q + int i))"
  using bytes_eq_iff [OF assms] by (simp add: le_val_eq_iff)

text \<open>
  One step of eight bytes: equal words advance by eight, and for different ones the count is complete.
\<close>

lemma count_word:
  assumes "mapped m p (p + 8)" "mapped m q (q + 8)" "8 \<le> n"
  shows "\<exists>a b. LZ4_read_ARCH True m p = Some a \<and> LZ4_read_ARCH True m q = Some b \<and>
     (a XOR b = 0 \<and> agree m p q n = 8 + agree m (p + 8) (q + 8) (n - 8) \<or>
      a XOR b \<noteq> 0 \<and> LZ4_NbCommonBytes True (a XOR b) = Some (int (agree m p q n)) \<and> agree m p q n < 8)"
proof -
  let ?bs = "bytes m p (p + 8)" let ?cs = "bytes m q (q + 8)"
  have iff: "?bs = ?cs \<longleftrightarrow> (\<forall>i < 8. m (p + int i) = m (q + int i))"
    using bytes_eq_iff [of m p 8 q] assms by simp
  have x: "le_val ?bs XOR le_val ?cs = 0 \<longleftrightarrow> ?bs = ?cs"
    using le_val_eq_iff [of ?bs ?cs] by (simp add: int_xor_zero)
  have at: "m (p + int i) = Some (?bs ! i)" "m (q + int i) = Some (?cs ! i)" if "i < 8" for i
    using that mapped_Some_bytes [OF assms(1), of "p + int i"] mapped_Some_bytes [OF assms(2), of "q + int i"] by auto
  show ?thesis
  proof (cases "?bs = ?cs")
    case True
    then have "agree m p q n = 8 + agree m (p + 8) (q + 8) (n - 8)"
      using agree_skip [of 8 m p q n] iff assms(3) by simp
    then show ?thesis using True x assms by (simp add: read_le)
  next
    case False
    then obtain k where k: "k < 8" "LZ4_NbCommonBytes True (le_val ?bs XOR le_val ?cs) = Some (int k)"
        "\<forall>i < k. ?bs ! i = ?cs ! i" "?bs ! k \<noteq> ?cs ! k"
      using LZ4_NbCommonBytes_le [of ?bs ?cs] by auto
    then have "agree m p q n = k"
      using at assms(3) by (intro agree_stop) auto
    then show ?thesis using False x k assms by (simp add: read_le)
  qed
qed

text \<open>The closing tests halve what can still agree.\<close>

lemma agree_less: "i < n \<Longrightarrow> m (p + int i) \<noteq> m (q + int i) \<Longrightarrow> agree m p q n \<le> i"
  using agree_eq [of i m p q n] by (meson not_less)

lemma count_halve:
  assumes "agree m p q n < 2 * k"
  shows "if k \<le> n \<and> (\<forall>i < k. m (p + int i) = m (q + int i))
         then agree m p q n = k + agree m (p + int k) (q + int k) (n - k) \<and>
              agree m (p + int k) (q + int k) (n - k) < k
         else agree m p q n < k"
proof (cases "k \<le> n \<and> (\<forall>i < k. m (p + int i) = m (q + int i))")
  case True
  then show ?thesis using agree_skip [of k m p q n] assms by simp
next
  case False
  then consider "n < k" | i where "k \<le> n" "i < k" "m (p + int i) \<noteq> m (q + int i)" by fastforce
  then have "agree m p q n < k"
  proof cases
    case 1
    then show ?thesis using agree_le [of m p q n] by simp
  next
    case 2
    then show ?thesis using agree_less [of i n m p q] by simp
  qed
  with False show ?thesis by simp
qed

lemma count_byte:
  assumes "agree m p q n < 2"
  shows "agree m p q n = (if 0 < n \<and> m p = m q then 1 else 0)"
  using assms by (cases n) (auto split: if_splits)

text \<open>One closing test on \<open>k\<close> bytes, from positions \<open>p\<close> and \<open>q\<close> with \<open>n\<close> bytes left.\<close>

lemma count_test:
  assumes m: "mapped m p (p + int n)" "mapped m q (q + int n)" and lt: "agree m p q n < 2 * k"
    and rd: "\<And>x. mapped m x (x + int k) \<Longrightarrow> rd m x = Some (le_val (bytes m x (x + int k)))"
  shows "\<exists>d. (if k \<le> n then do { a \<leftarrow> rd m p; b \<leftarrow> rd m q;
              Some (if a = b then (q + int k, p + int k) else (q, p)) } else Some (q, p)) =
            Some (q + int d, p + int d) \<and> d \<le> n \<and>
           agree m p q n = d + agree m (p + int d) (q + int d) (n - d) \<and>
           agree m (p + int d) (q + int d) (n - d) < k"
proof (cases "k \<le> n")
  case True
  have mk: "mapped m p (p + int k)" "mapped m q (q + int k)"
    using mapped_sub [OF m(1), of p "p + int k"] mapped_sub [OF m(2), of q "q + int k"] True by auto
  have eq: "le_val (bytes m p (p + int k)) = le_val (bytes m q (q + int k)) \<longleftrightarrow> (\<forall>i < k. m (p + int i) = m (q + int i))"
    by (rule read_eq_iff [OF mk])
  show ?thesis
  proof (cases "\<forall>i < k. m (p + int i) = m (q + int i)")
    case True
    then show ?thesis using count_halve [OF lt] \<open>k \<le> n\<close> rd [OF mk(1)] rd [OF mk(2)] eq
      by (intro exI [of _ k]) simp
  next
    case False
    then have "le_val (bytes m p (p + int k)) \<noteq> le_val (bytes m q (q + int k))" using eq by simp
    moreover have "agree m p q n < k" using count_halve [OF lt] False by (simp only: if_False) simp
    ultimately show ?thesis using \<open>k \<le> n\<close> rd [OF mk(1)] rd [OF mk(2)]
      by (intro exI [of _ 0]) simp
  qed
next
  case False
  then show ?thesis using count_halve [OF lt] by (intro exI [of _ 0]) simp
qed

lemma count_tail_ok:
  assumes m: "mapped m p (p + int n)" "mapped m q (q + int n)" and lt: "agree m p q n < 8"
  shows "LZ4_count_tail True (q + int n) m (q, p) = Some (q + int (agree m p q n))"
proof -
  obtain d where d: "(if 4 \<le> n then do { a \<leftarrow> LZ4_read32 True m p; b \<leftarrow> LZ4_read32 True m q;
              Some (if a = b then (q + int 4, p + int 4) else (q, p)) } else Some (q, p)) = Some (q + int d, p + int d)"
      "d \<le> n" "agree m p q n = d + agree m (p + int d) (q + int d) (n - d)"
      "agree m (p + int d) (q + int d) (n - d) < 4"
    using count_test [of m p n q 4 "LZ4_read32 True"] m lt read_le(2) by auto
  define p1 q1 n1 where [simp]: "p1 = p + int d" "q1 = q + int d" "n1 = n - d"
  have m1: "mapped m p1 (p1 + int n1)" "mapped m q1 (q1 + int n1)"
    using mapped_sub [OF m(1), of p1 "p1 + int n1"] mapped_sub [OF m(2), of q1 "q1 + int n1"] d(2) by auto
  obtain e where e: "(if 2 \<le> n1 then do { a \<leftarrow> LZ4_read16 True m p1; b \<leftarrow> LZ4_read16 True m q1;
              Some (if a = b then (q1 + int 2, p1 + int 2) else (q1, p1)) } else Some (q1, p1)) = Some (q1 + int e, p1 + int e)"
      "e \<le> n1" "agree m p1 q1 n1 = e + agree m (p1 + int e) (q1 + int e) (n1 - e)"
      "agree m (p1 + int e) (q1 + int e) (n1 - e) < 2"
    using count_test [OF m1, of 2 "LZ4_read16 True"] d(4) read_le(1) by auto
  define p2 q2 n2 where "p2 = p1 + int e" "q2 = q1 + int e" "n2 = n1 - e"
  have m2: "mapped m p2 (p2 + int n2)" "mapped m q2 (q2 + int n2)"
    using mapped_sub [OF m1(1), of p2 "p2 + int n2"] mapped_sub [OF m1(2), of q2 "q2 + int n2"] e(2)
    by (auto simp: p2_q2_n2_def simp del: p1_q1_n1_def)
  have last: "(if 0 < n2 then do { a \<leftarrow> load8 m p2; b \<leftarrow> load8 m q2; Some (if a = b then q2 + 1 else q2) }
              else Some q2) = Some (q2 + int (agree m p2 q2 n2))"
  proof (cases "0 < n2")
    case True
    then obtain a b where "m p2 = Some a" "m q2 = Some b"
      using mappedD [OF m2(1), of p2] mappedD [OF m2(2), of q2] by auto
    then show ?thesis
      using True count_byte [of m p2 q2 n2] e(4) by (simp add: load8_def p2_q2_n2_def word_uint_eq_iff)
  qed simp
  have c: "q < q + int n - 3 \<longleftrightarrow> 4 \<le> n" "q1 < q + int n - 1 \<longleftrightarrow> 2 \<le> n1" "q2 < q + int n \<longleftrightarrow> 0 < n2"
    using d(2) e(2) by (auto simp: p2_q2_n2_def)
  have "q + int (agree m p q n) = q2 + int (agree m p2 q2 n2)"
    using d(3) e(3) by (simp add: p2_q2_n2_def)
  note p1_q1_n1_def [simp del]
  have s1: "(if STEPSIZE = 8 \<and> q < q + int n - 3 then do { a \<leftarrow> LZ4_read32 True m p; b \<leftarrow> LZ4_read32 True m q;
      Some (if a = b then (q + 4, p + 4) else (q, p)) } else Some (q, p)) = Some (q1, p1)"
    unfolding c using d(1) [unfolded of_nat_numeral] by (simp add: p1_q1_n1_def sizeof_ptr_def)
  have s2: "(if q1 < q + int n - 1 then do { a \<leftarrow> LZ4_read16 True m p1; b \<leftarrow> LZ4_read16 True m q1;
      Some (if a = b then (q1 + 2, p1 + 2) else (q1, p1)) } else Some (q1, p1)) = Some (q2, p2)"
    unfolding c using e(1) [unfolded of_nat_numeral] by (simp add: p2_q2_n2_def)
  show ?thesis
    unfolding LZ4_count_tail_def prod.case s1 Option.bind.simps s2
    unfolding c last \<open>q + int (agree m p q n) = _\<close> ..
qed

text \<open>The loop: eight bytes at a time.\<close>

lemma LZ4_count_loop:
  assumes m: "mapped m p (p + int n)" "mapped m q (q + int n)"
  shows "\<exists>r. cloop (LZ4_count_body True s (q + int n) m) (q, p) = Some r \<and>
     (case r of Inl e \<Rightarrow> e = q + int (agree m p q n)
      | Inr (q', p') \<Rightarrow> \<exists>d. q' = q + int d \<and> p' = p + int d \<and> d \<le> n \<and> n - d < 8 \<and>
          agree m p q n = d + agree m p' q' (n - d))"
  using assms
proof (induction n arbitrary: p q rule: less_induct)
  case (less n)
  show ?case
  proof (cases "8 \<le> n")
    case True
    have m8: "mapped m p (p + 8)" "mapped m q (q + 8)"
      using mapped_sub [OF less.prems(1), of p "p + 8"] mapped_sub [OF less.prems(2), of q "q + 8"] True by auto
    obtain a b where ab: "LZ4_read_ARCH True m p = Some a" "LZ4_read_ARCH True m q = Some b"
      and c: "a XOR b = 0 \<and> agree m p q n = 8 + agree m (p + 8) (q + 8) (n - 8) \<or>
        a XOR b \<noteq> 0 \<and> LZ4_NbCommonBytes True (a XOR b) = Some (int (agree m p q n)) \<and> agree m p q n < 8"
      using count_word [OF m8 True] by blast
    show ?thesis
    proof (cases "a XOR b = 0")
      case eq: True
      have lim: "q + 8 + int (n - 8) = q + int n" using True by simp
      have body: "LZ4_count_body True s (q + int n) m (q, p) = Some (Inl (q + 8, p + 8))"
        using ab eq True by (simp add: sizeof_ptr_def)
      have "mapped m (p + 8) (p + 8 + int (n - 8))" "mapped m (q + 8) (q + 8 + int (n - 8))"
        using True by (auto intro: mapped_sub [OF less.prems(1)] mapped_sub [OF less.prems(2)])
      from less.IH [OF _ this] True obtain r where r: "cloop (LZ4_count_body True s (q + int n) m) (q + 8, p + 8) = Some r"
        "case r of Inl e \<Rightarrow> e = q + 8 + int (agree m (p + 8) (q + 8) (n - 8))
         | Inr (q', p') \<Rightarrow> \<exists>d. q' = q + 8 + int d \<and> p' = p + 8 + int d \<and> d \<le> n - 8 \<and> n - 8 - d < 8 \<and>
             agree m (p + 8) (q + 8) (n - 8) = d + agree m p' q' (n - 8 - d)"
        unfolding lim by auto
      have "case r of Inl e \<Rightarrow> e = q + int (agree m p q n)
         | Inr (q', p') \<Rightarrow> \<exists>d. q' = q + int d \<and> p' = p + int d \<and> d \<le> n \<and> n - d < 8 \<and>
             agree m p q n = d + agree m p' q' (n - d)"
        using r(2) c eq True by (auto split: sum.splits intro!: exI [of _ "8 + d" for d])
      moreover have "cloop (LZ4_count_body True s (q + int n) m) (q, p) = Some r"
        using r(1) cloop_Inl [where body = "LZ4_count_body True s (q + int n) m" and s = "(q, p)" and s' = "(q + 8, p + 8)"] body
        by simp
      ultimately show ?thesis by blast
    next
      case False
      then have "LZ4_count_body True s (q + int n) m (q, p) = Some (Inr (Inl (q + int (agree m p q n))))"
        using ab c True by (simp add: sizeof_ptr_def)
      then show ?thesis by (simp add: cloop_Inr)
    qed
  next
    case False
    then have "LZ4_count_body True s (q + int n) m (q, p) = Some (Inr (Inr (q, p)))"
      by (simp add: sizeof_ptr_def)
    then show ?thesis using False by (auto simp: cloop_Inr intro!: exI [of _ 0])
  qed
qed

lemma LZ4_count_rest_ok:
  assumes m: "mapped m p (p + int n)" "mapped m q (q + int n)"
  shows "LZ4_count_rest True m s (q, p) (q + int n) = Some (u32 (q + int (agree m p q n) - s))"
proof -
  obtain r where r: "cloop (LZ4_count_body True s (q + int n) m) (q, p) = Some r"
    "case r of Inl e \<Rightarrow> e = q + int (agree m p q n)
      | Inr (q', p') \<Rightarrow> \<exists>d. q' = q + int d \<and> p' = p + int d \<and> d \<le> n \<and> n - d < 8 \<and>
          agree m p q n = d + agree m p' q' (n - d)"
    using LZ4_count_loop [OF m] by blast
  show ?thesis
  proof (cases r)
    case (Inl e)
    then show ?thesis using r by (simp add: LZ4_count_rest_def)
  next
    case (Inr t)
    with r obtain d where t: "t = (q + int d, p + int d)" and d: "d \<le> n" "n - d < 8"
        "agree m p q n = d + agree m (p + int d) (q + int d) (n - d)"
      by (cases t) auto
    have lim: "q + int n = q + int d + int (n - d)" using d(1) by simp
    have m': "mapped m (p + int d) (p + int d + int (n - d))" "mapped m (q + int d) (q + int d + int (n - d))"
      using d(1) by (auto intro: mapped_sub [OF m(1)] mapped_sub [OF m(2)])
    have "LZ4_count_tail True (q + int n) m t = Some (q + int d + int (agree m (p + int d) (q + int d) (n - d)))"
      unfolding lim t using count_tail_ok [OF m'] agree_le [of m "p + int d" "q + int d" "n - d"] d(2) by simp
    then show ?thesis
      using r(1) Inr d(3) by (simp add: LZ4_count_rest_def algebra_simps)
  qed
qed

text \<open>The count is the length of the longest common prefix, cut at the limit.\<close>

theorem LZ4_count_agree:
  assumes m: "mapped m p (p + int n)" "mapped m q (q + int n)" and n: "n < 2 ^ 32"
  shows "LZ4_count True m q p (q + int n) = Some (int (agree m p q n))"
proof -
  have small: "u32 (int (agree m p q n)) = int (agree m p q n)"
    using agree_le [of m p q n] n by (intro u32_id) auto
  show ?thesis
  proof (cases "8 \<le> n")
    case True
    have m8: "mapped m p (p + 8)" "mapped m q (q + 8)"
      using mapped_sub [OF m(1), of p "p + 8"] mapped_sub [OF m(2), of q "q + 8"] True by auto
    obtain a b where ab: "LZ4_read_ARCH True m p = Some a" "LZ4_read_ARCH True m q = Some b"
      and c: "a XOR b = 0 \<and> agree m p q n = 8 + agree m (p + 8) (q + 8) (n - 8) \<or>
        a XOR b \<noteq> 0 \<and> LZ4_NbCommonBytes True (a XOR b) = Some (int (agree m p q n)) \<and> agree m p q n < 8"
      using count_word [OF m8 True] by blast
    have lim: "q + int n = q + 8 + int (n - 8)" using True by simp
    have m': "mapped m (p + 8) (p + 8 + int (n - 8))" "mapped m (q + 8) (q + 8 + int (n - 8))"
      using True by (auto intro: mapped_sub [OF m(1)] mapped_sub [OF m(2)])
    have "LZ4_count_rest True m q (q + 8, p + 8) (q + int n) = Some (u32 (8 + int (agree m (p + 8) (q + 8) (n - 8))))"
      unfolding lim using LZ4_count_rest_ok [OF m', of q] by (simp add: algebra_simps)
    then show ?thesis
      using ab c True small by (auto simp: LZ4_count_def sizeof_ptr_def)
  next
    case False
    then show ?thesis
      using LZ4_count_rest_ok [OF m, of q] small by (simp add: LZ4_count_def sizeof_ptr_def)
  qed
qed

section \<open>The portable bit tricks\<close>

text \<open>
  \<open>v XOR (v - 1)\<close> is a mask up to the lowest bit set; the multiplication counts its byte boundaries. What
  is left are 64 (32) masks, evaluated in the kernel.
\<close>

lemma xor_pred_mask: "0 < v \<Longrightarrow> v XOR (v - 1) = 2 * 2 ^ ctz v - (1 :: int)"
proof (induction v rule: ctz.induct)
  case (1 v)
  show ?case
  proof (cases "odd v")
    case True
    then obtain a where "v = 2 * a + 1" by (elim oddE)
    then show ?thesis using True by (subst xor_rec, subst ctz.simps) simp
  next
    case False
    then obtain a where a: "v = 2 * a" by blast
    have h: "(2 * a - 1) div 2 = a - 1" by linarith
    have "a XOR (a - 1) = 2 * 2 ^ ctz a - 1" using 1 False a by simp
    moreover have "ctz v = Suc (ctz a)" using 1(2) a by (subst ctz.simps) simp
    ultimately show ?thesis by (subst xor_rec) (simp add: a h)
  qed
qed

lemma sw64_masks: "\<forall>t \<in> set [0..<64]. uint (drop_bit 56 (((word_of_int (2 * 2 ^ t - 1) :: 64 word) AND (0x0101010101010101 - 1)) * 0x0101010101010101)) = int (t div 8)"
  by code_simp

lemma sw32_masks: "\<forall>t \<in> set [0..<32]. uint (drop_bit 24 (((word_of_int (2 * 2 ^ t - 1) :: 32 word) AND (0x01010101 - 1)) * 0x01010101)) = int (t div 8)"
  by code_simp

lemma uint_pos_iff: "0 < uint w \<longleftrightarrow> w \<noteq> 0"
  using uint_0_iff [of w] uint_ge_0 [of w] by linarith

lemma xor_pred_word:
  fixes w :: "'a :: len word"
  assumes "w \<noteq> 0"
  shows "w XOR (w - 1) = word_of_int (2 * 2 ^ ctz (uint w) - 1)"
proof -
  have p: "0 < uint w" using assms by (simp add: uint_pos_iff)
  have "w XOR (w - 1) = word_of_int (uint w) XOR word_of_int (uint w - 1)" by simp
  also have "\<dots> = word_of_int (uint w XOR (uint w - 1))" by (rule word_wi_log_defs)
  finally show ?thesis using xor_pred_mask [OF p] by simp
qed

lemma ctz_bound: "0 < v \<Longrightarrow> v < 2 ^ n \<Longrightarrow> ctz v < n"
proof -
  assume v: "0 < v" "v < 2 ^ n"
  have "2 ^ ctz v dvd v" using ctz_pow v(1) by blast
  then have "2 ^ ctz v \<le> v" using v(1) by (simp add: zdvd_imp_le)
  then have "(2 :: int) ^ ctz v < 2 ^ n" using v(2) by linarith
  then show ?thesis by simp
qed

lemma NbCommonBytes_ctz:
  fixes x :: "'a :: len word"
  shows "x \<noteq> 0 \<Longrightarrow> LZ4_NbCommonBytes True (uint x) = Some (int (ctz (uint x) div 8))"
  by (simp add: LZ4_NbCommonBytes_def builtin_ctz_def drop_bit_eq_div zdiv_int uint_0_iff)

lemma NbCommonBytes_sw64_ok:
  assumes "v \<noteq> 0"
  shows "LZ4_NbCommonBytes True (uint v) = Some (uint (LZ4_NbCommonBytes_sw64 v))"
proof -
  have "ctz (uint v) < 64" using ctz_bound [of "uint v" 64] uint_bounded [of v] assms by (simp add: uint_pos_iff)
  then have "uint (drop_bit 56 (((word_of_int (2 * 2 ^ ctz (uint v) - 1) :: 64 word) AND (0x0101010101010101 - 1)) * 0x0101010101010101)) =
      int (ctz (uint v) div 8)" using sw64_masks by (metis atLeastLessThan_iff le0 set_upt)
  then show ?thesis
    unfolding NbCommonBytes_ctz [OF assms] LZ4_NbCommonBytes_sw64_def Let_def xor_pred_word [OF assms] by simp
qed

lemma NbCommonBytes_sw32_ok:
  assumes "v \<noteq> 0"
  shows "LZ4_NbCommonBytes True (uint v) = Some (uint (LZ4_NbCommonBytes_sw32 v))"
proof -
  have "ctz (uint v) < 32" using ctz_bound [of "uint v" 32] uint_bounded [of v] assms by (simp add: uint_pos_iff)
  then have "uint (drop_bit 24 (((word_of_int (2 * 2 ^ ctz (uint v) - 1) :: 32 word) AND (0x01010101 - 1)) * 0x01010101)) =
      int (ctz (uint v) div 8)" using sw32_masks by (metis atLeastLessThan_iff le0 set_upt)
  then show ?thesis
    unfolding NbCommonBytes_ctz [OF assms] LZ4_NbCommonBytes_sw32_def Let_def xor.commute [of "v - 1"] xor_pred_word [OF assms]
    by simp
qed

end
