(* ===== verification/Lz4_HcCount.thy ===== *)
theory Lz4_HcCount
  imports Lz4_HcState Lz4_Count
begin

unbundle bit_operations_syntax

text \<open>
  The counting routines of \<open>lib/lz4/lz4hc.c\<close>: how many bytes before two positions are equal, four at a
  time, and how far a byte repeats forwards and backwards.
\<close>

section \<open>Leading zeros\<close>

lemma bit_len_bounds: "0 < v \<Longrightarrow> 0 < bit_len v \<and> 2 ^ (bit_len v - 1) \<le> v \<and> v < 2 ^ bit_len v"
proof (induction v rule: bit_len.induct)
  case (1 v)
  have b: "bit_len v = Suc (bit_len (v div 2))" using 1(2) by (subst bit_len.simps) simp
  show ?case
  proof (cases "v div 2 \<le> 0")
    case True
    then have "v = 1" "bit_len (v div 2) = 0" using 1(2) by (auto simp: bit_len.simps)
    then show ?thesis unfolding b by simp
  next
    case False
    then have "0 < bit_len (v div 2)" "2 ^ (bit_len (v div 2) - 1) \<le> v div 2" "v div 2 < 2 ^ bit_len (v div 2)"
      using 1 by auto
    moreover from this(1) obtain k where "bit_len (v div 2) = Suc k" by (cases "bit_len (v div 2)") auto
    ultimately show ?thesis unfolding b by auto
  qed
qed

lemma bit_len_between: "0 < v \<Longrightarrow> 2 ^ lo \<le> v \<Longrightarrow> v < 2 ^ hi \<Longrightarrow> lo < bit_len v \<and> bit_len v \<le> hi"
proof -
  assume v: "0 < v" "2 ^ lo \<le> v" "v < 2 ^ hi"
  note b = bit_len_bounds [OF v(1)]
  have "(2 :: int) ^ lo < 2 ^ bit_len v" "(2 :: int) ^ (bit_len v - 1) < 2 ^ hi" using b v by linarith+
  then have "lo < bit_len v" "bit_len v - 1 < hi" by simp_all
  then show ?thesis by simp
qed

text \<open>The number of leading zero bytes of a 32-bit value.\<close>

definition zero_bytes32 :: "int \<Rightarrow> int" where
  "zero_bytes32 v = (if v \<ge> 16777216 then 0 else if v \<ge> 65536 then 1 else if v \<ge> 256 then 2 else 3)"

lemma NbCommonBytes32_eq:
  assumes "0 < v" "v < 4294967296"
  shows "LZ4HC_NbCommonBytes32 True v = Some (zero_bytes32 v)"
proof -
  have "(32 - int (bit_len v)) div 8 = zero_bytes32 v"
  proof -
    consider "v \<ge> 16777216" | "v < 16777216" "v \<ge> 65536" | "v < 65536" "v \<ge> 256" | "v < 256" by linarith
    then show ?thesis
    proof cases
      case 1
      then have "24 < bit_len v \<and> bit_len v \<le> 32" using assms by (intro bit_len_between) auto
      then show ?thesis using 1 by (auto simp: zero_bytes32_def)
    next
      case 2
      then have "16 < bit_len v \<and> bit_len v \<le> 24" using assms by (intro bit_len_between) auto
      then have "(32 - int (bit_len v)) div 8 = 1" by linarith
      then show ?thesis using 2 by (simp add: zero_bytes32_def)
    next
      case 3
      then have "8 < bit_len v \<and> bit_len v \<le> 16" using assms by (intro bit_len_between) auto
      then have "(32 - int (bit_len v)) div 8 = 2" by linarith
      then show ?thesis using 3 by (simp add: zero_bytes32_def)
    next
      case 4
      then have "0 < bit_len v \<and> bit_len v \<le> 8" using assms by (intro bit_len_between) auto
      then have "(32 - int (bit_len v)) div 8 = 3" by linarith
      then show ?thesis using 4 by (simp add: zero_bytes32_def)
    qed
  qed
  then show ?thesis using assms by (simp add: LZ4HC_NbCommonBytes32_def builtin_clz_def drop_bit_eq_div)
qed

text \<open>The portable variant computes the same.\<close>

lemma uint32_small: "0 \<le> k \<Longrightarrow> k < 4294967296 \<Longrightarrow> uint (word_of_int k :: 32 word) = k"
  by (simp add: uint_word_of_int)

lemma word32_of_small: "(v :: 32 word) = word_of_int (uint v)" by simp

lemma int_or_mask: "a OR mask n = a div 2 ^ n * 2 ^ n + mask n" for a :: int
proof -
  have "a OR mask n = push_bit n (drop_bit n a) OR mask n"
    by (rule bit_eqI) (auto simp: bit_simps)
  also have "\<dots> = push_bit n (drop_bit n a) + mask n"
    by (rule disjunctive_add_eq_or [symmetric]) (rule bit_eqI, auto simp: bit_simps)
  finally show ?thesis by (simp add: push_bit_eq_mult drop_bit_eq_div)
qed

lemma NbCommonBytes32_sw_eq: "uint (LZ4HC_NbCommonBytes32_sw w) = zero_bytes32 (uint w)"
proof -
  define x where "x = uint w div 256"
  have x: "0 \<le> x" "x < 16777216" using uint_bounded [of w] by (auto simp: x_def pos_imp_zdiv_nonneg_iff)
  have d: "drop_bit 8 w = word_of_int x"
    by (rule word_uint_eqI) (use x in \<open>simp add: x_def uint_word_of_int unsigned_drop_bit_eq drop_bit_eq_div uint_div\<close>)
  define a where "a = (if x < 256 then 16777215 else 33554431 :: int)"
  have xa: "(x + 16776960) OR 16777215 = a"
    using int_or_mask [of "x + 16776960" 24] x by (auto simp: a_def mask_eq_exp_minus_1 div_pos_pos_trivial)
  have A: "(word_of_int x + 0x00FFFF00 :: 32 word) OR 0x00FFFFFF = word_of_int a"
  proof -
    have "(word_of_int (x + 16776960) OR word_of_int 16777215 :: 32 word) = word_of_int (x + 16776960 OR 16777215)"
      by (rule word_wi_log_defs)
    then show ?thesis using xa by simp
  qed
  have dr: "drop_bit 24 (word_of_int k :: 32 word) = word_of_int (k div 16777216)" if "0 \<le> k" "k < 4294967296" for k
    by (rule word_uint_eqI) (use that in \<open>simp add: uint_word_of_int unsigned_drop_bit_eq drop_bit_eq_div uint_div\<close>)
  have r: "drop_bit 24 (((word_of_int x + 0x00FFFF00 OR 0x00FFFFFF) + word_of_int x) OR (word_of_int x + 0x00FF0000)) =
      (word_of_int ((a + x) div 16777216) OR word_of_int ((x + 16711680) div 16777216) :: 32 word)"
    unfolding A drop_bit_or using dr [of "a + x"] dr [of "x + 16711680"] x by (simp add: a_def split: if_splits)
  have z: "zero_bytes32 (uint w) = (if x \<ge> 65536 then 0 else if x \<ge> 256 then 1 else if x \<ge> 1 then 2 else 3)"
    unfolding zero_bytes32_def x_def by auto
  consider "x \<ge> 65536" | "x < 65536" "x \<ge> 256" | "x < 256" "x \<ge> 1" | "x = 0" using x by linarith
  then have "uint ((word_of_int ((a + x) div 16777216) OR word_of_int ((x + 16711680) div 16777216)) XOR (3 :: 32 word)) =
      zero_bytes32 (uint w)"
  proof cases
    case 1
    then have "(a + x) div 16777216 = 2" "(x + 16711680) div 16777216 = 1" using x by (auto simp: a_def)
    then show ?thesis using 1 by (simp add: z)
  next
    case 2
    then have "(a + x) div 16777216 = 2" "(x + 16711680) div 16777216 = 0" using x by (auto simp: a_def)
    then show ?thesis using 2 by (simp add: z)
  next
    case 3
    then have "(a + x) div 16777216 = 1" "(x + 16711680) div 16777216 = 0" using x by (auto simp: a_def)
    then show ?thesis using 3 by (simp add: z)
  next
    case 4
    then show ?thesis by (simp add: z a_def)
  qed
  then show ?thesis unfolding LZ4HC_NbCommonBytes32_sw_def Let_def d r .
qed

section \<open>LZ4HC_countBack\<close>

text \<open>How many of the \<open>n\<close> bytes before \<open>q\<close> equal those before \<open>p\<close>: \<open>agree\<close> on the mirrored memory.\<close>

definition agree_back :: "mem \<Rightarrow> int \<Rightarrow> int \<Rightarrow> nat \<Rightarrow> nat" where
  "agree_back m p q n = agree (\<lambda>a. m (- a)) (1 - p) (1 - q) n"

lemma agree_back_le: "agree_back m p q n \<le> n"
  by (simp add: agree_back_def agree_le)

lemma agree_back_eq: "k < agree_back m p q n \<Longrightarrow> m (p - 1 - int k) = m (q - 1 - int k)"
  using agree_eq [of k "\<lambda>a. m (- a)" "1 - p" "1 - q" n] by (simp add: agree_back_def algebra_simps)

lemma agree_back_maximal:
  "agree_back m p q n < n \<Longrightarrow> m (p - 1 - int (agree_back m p q n)) \<noteq> m (q - 1 - int (agree_back m p q n))"
  using agree_maximal [of "\<lambda>a. m (- a)" "1 - p" "1 - q" n] by (simp add: agree_back_def algebra_simps)

lemma agree_back_skip:
  "(\<And>i. i < k \<Longrightarrow> m (p - 1 - int i) = m (q - 1 - int i)) \<Longrightarrow> k \<le> n \<Longrightarrow>
   agree_back m p q n = k + agree_back m (p - int k) (q - int k) (n - k)"
  using agree_skip [of k "\<lambda>a. m (- a)" "1 - p" "1 - q" n] by (simp add: agree_back_def algebra_simps)

lemma agree_back_stop:
  "(\<And>i. i < k \<Longrightarrow> m (p - 1 - int i) = m (q - 1 - int i)) \<Longrightarrow> k < n \<Longrightarrow> m (p - 1 - int k) \<noteq> m (q - 1 - int k) \<Longrightarrow>
   agree_back m p q n = k"
  using agree_stop [of k "\<lambda>a. m (- a)" "1 - p" "1 - q" n] by (simp add: agree_back_def algebra_simps)

text \<open>The leading zero bytes of a difference count the equal bytes at its end.\<close>

lemma le_val4_least:
  fixes a b c d :: int
  assumes "0 \<le> a" "0 \<le> b" "0 \<le> c" "0 \<le> d"
  shows "1 \<le> d \<Longrightarrow> 16777216 \<le> a + 256 * (b + 256 * (c + 256 * d))"
    "1 \<le> c \<Longrightarrow> 65536 \<le> a + 256 * (b + 256 * (c + 256 * d))"
    "1 \<le> b \<Longrightarrow> 256 \<le> a + 256 * (b + 256 * (c + 256 * d))"
  using assms by simp_all

lemma le_val4_greatest:
  fixes a b c d :: int
  assumes "a < 256" "b < 256" "c < 256"
  shows "a + 256 * (b + 256 * c) < 16777216" "a + 256 * b < 65536"
  using assms by simp_all

lemma zero_bytes32_le_val:
  assumes "length bs = 4" "\<exists>b \<in> set bs. b \<noteq> 0"
  shows "\<exists>k < 4. zero_bytes32 (le_val bs) = int k \<and> (\<forall>i < k. bs ! (3 - i) = 0) \<and> bs ! (3 - k) \<noteq> 0"
proof -
  obtain a b c d where bs: "bs = [a, b, c, d]" using assms(1) by (auto simp: numeral_eq_Suc length_Suc_conv)
  have v: "le_val bs = uint a + 256 * (uint b + 256 * (uint c + 256 * uint d))" by (simp add: bs)
  have r: "uint a < 256" "uint b < 256" "uint c < 256" "uint d < 256" "0 \<le> uint a" "0 \<le> uint b" "0 \<le> uint c" "0 \<le> uint d"
    by (rule uint_byte_range)+
  consider "d \<noteq> 0" | "d = 0" "c \<noteq> 0" | "d = 0" "c = 0" "b \<noteq> 0" | "d = 0" "c = 0" "b = 0" "a \<noteq> 0"
    using assms(2) by (auto simp: bs)
  then show ?thesis
  proof cases
    case 1
    then have "1 \<le> uint d" using r(8) uint_0_iff [of d] by linarith
    then have "16777216 \<le> le_val bs" unfolding v by (rule le_val4_least [OF r(5-8)])
    then have "zero_bytes32 (le_val bs) = 0" by (simp add: zero_bytes32_def)
    then show ?thesis using 1 by (intro exI [of _ 0]) (simp add: bs)
  next
    case 2
    then have "1 \<le> uint c" using r(7) uint_0_iff [of c] by linarith
    then have "65536 \<le> le_val bs" "le_val bs < 16777216" unfolding v using le_val4_least(2) [OF r(5-8)] le_val4_greatest(1) [OF r(1-3)] 2(1) by simp_all
    then have "zero_bytes32 (le_val bs) = 1" by (simp add: zero_bytes32_def)
    then show ?thesis using 2 by (intro exI [of _ 1]) (simp add: bs)
  next
    case 3
    then have "1 \<le> uint b" using r(6) uint_0_iff [of b] by linarith
    then have "256 \<le> le_val bs" "le_val bs < 65536" unfolding v using le_val4_least(3) [OF r(5-8)] le_val4_greatest(2) [OF r(1,2,3)] 3(1,2) by simp_all
    then have "zero_bytes32 (le_val bs) = 2" by (simp add: zero_bytes32_def)
    then show ?thesis using 3 by (intro exI [of _ 2]) (auto simp: bs less_2_cases_iff)
  next
    case 4
    then have "le_val bs < 256" unfolding v by simp
    then have "zero_bytes32 (le_val bs) = 3" by (simp add: zero_bytes32_def)
    then show ?thesis using 4 by (intro exI [of _ 3]) (auto simp: bs numeral_3_eq_3 less_Suc_eq)
  qed
qed

text \<open>Four bytes before two positions: equal, or the count is complete.\<close>

lemma back_word:
  assumes "mapped m (p - 4) p" "mapped m (q - 4) q" "4 \<le> n"
  shows "\<exists>a b. LZ4_read32 True m (p - 4) = Some a \<and> LZ4_read32 True m (q - 4) = Some b \<and>
     (a XOR b = 0 \<and> agree_back m p q n = 4 + agree_back m (p - 4) (q - 4) (n - 4) \<or>
      a XOR b \<noteq> 0 \<and> LZ4HC_NbCommonBytes32 True (a XOR b) = Some (int (agree_back m p q n)))"
proof -
  let ?bs = "bytes m (p - 4) p" let ?cs = "bytes m (q - 4) q"
  define x where "x = map2 (XOR) ?bs ?cs"
  have lx: "length x = 4" by (simp add: x_def)
  have r: "LZ4_read32 True m (p - 4) = Some (le_val ?bs)" "LZ4_read32 True m (q - 4) = Some (le_val ?cs)"
    using read_le(2) [of m "p - 4"] read_le(2) [of m "q - 4"] assms by simp_all
  have v: "le_val ?bs XOR le_val ?cs = le_val x" using le_val_xor [of ?bs ?cs] by (simp add: x_def)
  have at: "x ! (3 - i) = 0 \<longleftrightarrow> m (p - 1 - int i) = m (q - 1 - int i)" if "i < 4" for i
  proof -
    have e: "nat (p - 1 - int i - (p - 4)) = 3 - i" "nat (q - 1 - int i - (q - 4)) = 3 - i" using that by auto
    have "m (p - 1 - int i) = Some (?bs ! (3 - i))" "m (q - 1 - int i) = Some (?cs ! (3 - i))"
      using that mapped_Some_bytes [OF assms(1), of "p - 1 - int i"] mapped_Some_bytes [OF assms(2), of "q - 1 - int i"]
      unfolding e by auto
    then show ?thesis using that by (simp add: x_def byte_xor_zero)
  qed
  show ?thesis
  proof (cases "\<exists>b \<in> set x. b \<noteq> 0")
    case False
    then have "x ! (3 - i) = 0" if "i < 4" for i using lx nth_mem [of "3 - i" x] by auto
    then have "agree_back m p q n = 4 + agree_back m (p - 4) (q - 4) (n - 4)"
      using agree_back_skip [of 4 m p q n] at assms(3) by simp
    moreover have "le_val x = 0" using False by (simp add: le_val_zero_iff)
    ultimately show ?thesis using r v by simp
  next
    case True
    then obtain k where k: "k < 4" "zero_bytes32 (le_val x) = int k" "\<forall>i < k. x ! (3 - i) = 0" "x ! (3 - k) \<noteq> 0"
      using zero_bytes32_le_val [OF lx] by blast
    have "agree_back m p q n = k" using k at assms(3) by (intro agree_back_stop) auto
    moreover have "le_val x \<noteq> 0" using True by (simp add: le_val_zero_iff)
    moreover have "0 < le_val x" "le_val x < 4294967296" using calculation(2) le_val_bounds [of x] le_val_nonneg [of x] lx by (simp_all add: less_le)
    then have "LZ4HC_NbCommonBytes32 True (le_val x) = Some (int k)" using NbCommonBytes32_eq k(2) by simp
    ultimately show ?thesis using r v by simp
  qed
qed

lemma agree_back_Suc: "0 < n \<Longrightarrow> agree_back m p q n =
    (if m (p - 1) = m (q - 1) then 1 + agree_back m (p - 1) (q - 1) (n - 1) else 0)"
  using agree_back_skip [of 1 m p q n] agree_back_stop [of 0 m p q n] by auto

text \<open>The count is the length of the longest common suffix, cut at the lower limits.\<close>

lemma LZ4HC_countBack_agree:
  assumes n: "int n = min (ip - iMin) (mt - mMin)" "n < 2 ^ 31" and m: "mapped m (ip - int n) ip" "mapped m (mt - int n) mt"
  shows "LZ4HC_countBack m ip mt iMin mMin = Some (- int (agree_back m ip mt n))"
proof -
  have bmin: "s32 (max (iMin - ip) (mMin - mt)) = - int n" using n by (subst s32_id) auto
  define I where "I k bk \<longleftrightarrow> bk = - int k \<and> k \<le> n \<and>
    agree_back m ip mt n = k + agree_back m (ip - int k) (mt - int k) (n - k)" for k bk
  have "\<exists>r. cloop (count_back_body m ip mt (- int n)) 0 = Some r \<and>
      (case r of Inl bk \<Rightarrow> bk = - int (agree_back m ip mt n) | Inr bk \<Rightarrow> \<exists>k. I k bk)"
  proof (rule cloop_total [where \<mu> = "\<lambda>bk. nat (bk + int n)" and I = "\<lambda>bk. \<exists>k. I k bk"])
    show "\<exists>k. I k 0" by (intro exI [of _ 0]) (simp add: I_def)
  next
    fix bk assume "\<exists>k. I k bk"
    then obtain k where k: "bk = - int k" "k \<le> n" "agree_back m ip mt n = k + agree_back m (ip - int k) (mt - int k) (n - k)"
      by (auto simp: I_def)
    show "(\<exists>s'. count_back_body m ip mt (- int n) bk = Some (Inl s') \<and> (\<exists>k. I k s') \<and> nat (s' + int n) < nat (bk + int n)) \<or>
      (\<exists>r. count_back_body m ip mt (- int n) bk = Some (Inr r) \<and>
        (case r of Inl bk \<Rightarrow> bk = - int (agree_back m ip mt n) | Inr bk \<Rightarrow> \<exists>k. I k bk))"
    proof (cases "bk - (- int n) > 3")
      case True
      then have k4: "4 \<le> n - k" using k(1) by linarith
      have "mapped m (ip - int k - 4) (ip - int k)" "mapped m (mt - int k - 4) (mt - int k)"
        using k4 by (auto intro: mapped_sub [OF m(1)] mapped_sub [OF m(2)])
      from back_word [OF this k4] obtain a b where ab: "LZ4_read32 True m (ip + bk - 4) = Some a" "LZ4_read32 True m (mt + bk - 4) = Some b"
        and c: "a XOR b = 0 \<and> agree_back m (ip - int k) (mt - int k) (n - k) = 4 + agree_back m (ip - int k - 4) (mt - int k - 4) (n - k - 4) \<or>
          a XOR b \<noteq> 0 \<and> LZ4HC_NbCommonBytes32 True (a XOR b) = Some (int (agree_back m (ip - int k) (mt - int k) (n - k)))"
        using k(1) by auto
      from c show ?thesis
      proof
        assume e: "a XOR b = 0 \<and> agree_back m (ip - int k) (mt - int k) (n - k) = 4 + agree_back m (ip - int k - 4) (mt - int k - 4) (n - k - 4)"
        then have "I (k + 4) (bk - 4)" using k k4 unfolding I_def by (simp add: algebra_simps)
        then show ?thesis using True ab e by (auto simp: LZ4_isLittleEndian_def)
      next
        assume "a XOR b \<noteq> 0 \<and> LZ4HC_NbCommonBytes32 True (a XOR b) = Some (int (agree_back m (ip - int k) (mt - int k) (n - k)))"
        then show ?thesis using True ab k by (auto simp: LZ4_isLittleEndian_def)
      qed
    next
      case False
      then show ?thesis using k by (auto simp: I_def)
    qed
  qed
  then obtain r where r: "cloop (count_back_body m ip mt (- int n)) 0 = Some r"
    "case r of Inl bk \<Rightarrow> bk = - int (agree_back m ip mt n) | Inr bk \<Rightarrow> \<exists>k. I k bk" by blast
  have rest: "\<exists>r. cloop (count_back_rest_body m ip mt (- int n)) bk = Some r \<and> r = - int (agree_back m ip mt n)" if "\<exists>k. I k bk" for bk
  proof (rule cloop_total [where \<mu> = "\<lambda>bk. nat (bk + int n)" and I = "\<lambda>bk. \<exists>k. I k bk"])
    show "\<exists>k. I k bk" by (rule that)
  next
    fix bk assume "\<exists>k. I k bk"
    then obtain k where k: "bk = - int k" "k \<le> n" "agree_back m ip mt n = k + agree_back m (ip - int k) (mt - int k) (n - k)"
      by (auto simp: I_def)
    show "(\<exists>s'. count_back_rest_body m ip mt (- int n) bk = Some (Inl s') \<and> (\<exists>k. I k s') \<and> nat (s' + int n) < nat (bk + int n)) \<or>
      (\<exists>r. count_back_rest_body m ip mt (- int n) bk = Some (Inr r) \<and> r = - int (agree_back m ip mt n))"
    proof (cases "k < n")
      case True
      obtain a b where ab: "m (ip - int k - 1) = Some a" "m (mt - int k - 1) = Some b"
        using mappedD [OF m(1), of "ip - int k - 1"] mappedD [OF m(2), of "mt - int k - 1"] True by auto
      have s: "agree_back m (ip - int k) (mt - int k) (n - k) =
          (if a = b then 1 + agree_back m (ip - int k - 1) (mt - int k - 1) (n - k - 1) else 0)"
        using agree_back_Suc [of "n - k" m "ip - int k" "mt - int k"] True ab by simp
      have "a = b \<Longrightarrow> I (k + 1) (bk - 1)" using k s True unfolding I_def by (simp add: algebra_simps)
      moreover have "uint a = uint b \<longleftrightarrow> a = b" by (simp add: word_uint_eq_iff)
      ultimately show ?thesis using True ab k s by (auto simp: load8_def)
    next
      case False
      then show ?thesis using k by (auto simp: agree_back_def)
    qed
  qed
  show ?thesis
    using r rest by (auto simp: LZ4HC_countBack_def bmin split: sum.splits)
qed

section \<open>Repeated bytes\<close>

text \<open>How often the byte \<open>b\<close> is repeated at the head of a list.\<close>

definition run_of :: "byte \<Rightarrow> byte list \<Rightarrow> nat" where
  "run_of b xs = length (takeWhile (\<lambda>x. x = b) xs)"

lemma run_of_le: "run_of b xs \<le> length xs"
  by (simp add: run_of_def length_takeWhile_le)

lemma run_of_nth: "k < run_of b xs \<Longrightarrow> xs ! k = b"
  unfolding run_of_def using nth_mem [of k "takeWhile (\<lambda>x. x = b) xs"] set_takeWhileD takeWhile_nth by fastforce

lemma run_of_append: "\<forall>x \<in> set xs. x = b \<Longrightarrow> run_of b (xs @ ys) = length xs + run_of b ys"
  by (simp add: run_of_def takeWhile_append)

lemma run_of_Cons: "run_of b (x # xs) = (if x = b then Suc (run_of b xs) else 0)"
  by (simp add: run_of_def)

lemma run_of_stop: "\<forall>i < k. xs ! i = b \<Longrightarrow> k < length xs \<Longrightarrow> xs ! k \<noteq> b \<Longrightarrow> run_of b xs = k"
proof -
  assume a: "\<forall>i < k. xs ! i = b" "k < length xs" "xs ! k \<noteq> b"
  have "xs = take k xs @ xs ! k # drop (Suc k) xs" using a(2) by (rule id_take_nth_drop)
  moreover have "\<forall>x \<in> set (take k xs). x = b" using a(1,2) by (auto simp: in_set_conv_nth)
  ultimately show ?thesis using run_of_append [of "take k xs" b "xs ! k # drop (Suc k) xs"] a(2,3) by (simp add: run_of_Cons)
qed

lemma le_val_replicate_Suc:
  "le_val (replicate (Suc j) b) mod 256 = uint b" "le_val (replicate (Suc j) b) div 256 = le_val (replicate j b)"
  by simp_all

lemma pattern64: "u64 (le_val (replicate 4 b) + u64 (push_bit 32 (le_val (replicate 4 b)))) = le_val (replicate 8 b)"
proof -
  let ?v = "le_val (replicate 4 b)"
  have v: "0 \<le> ?v" "?v < 4294967296" using le_val_bounds [of "replicate 4 b"] by auto
  have "le_val (replicate 8 b) = ?v + 4294967296 * ?v" by (simp add: numeral_eq_Suc)
  then show ?thesis using v by (simp add: u64_id push_bit_eq_mult)
qed

text \<open>The run of a range of memory.\<close>

definition run_at :: "mem \<Rightarrow> byte \<Rightarrow> int \<Rightarrow> int \<Rightarrow> int" where
  "run_at m b lo hi = int (run_of b (bytes m lo hi))"

lemma run_at_bounds: "lo \<le> hi \<Longrightarrow> 0 \<le> run_at m b lo hi \<and> run_at m b lo hi \<le> hi - lo"
  using run_of_le [of b "bytes m lo hi"] by (auto simp: run_at_def)

lemma run_at_nth:
  assumes "mapped m lo hi" "0 \<le> k" "k < run_at m b lo hi"
  shows "m (lo + k) = Some b"
proof -
  have k: "nat k < run_of b (bytes m lo hi)" using assms(2,3) by (simp add: run_at_def)
  then have "k < hi - lo" using run_of_le [of b "bytes m lo hi"] by simp
  then show ?thesis
    using mapped_Some_bytes [OF assms(1), of "lo + k"] run_of_nth [OF k] assms(2) by simp
qed

lemma run_at_empty [simp]: "hi \<le> lo \<Longrightarrow> run_at m b lo hi = 0"
  by (simp add: run_at_def run_of_def)

lemma run_at_skip:
  assumes "lo \<le> mid" "mid \<le> hi" "\<forall>x \<in> set (bytes m lo mid). x = b"
  shows "run_at m b lo hi = mid - lo + run_at m b mid hi"
  using run_of_append [OF assms(3)] assms(1,2) by (simp add: run_at_def bytes_append [OF assms(1,2)])

lemma bytes_head: "lo < hi \<Longrightarrow> m lo = Some x \<Longrightarrow> bytes m lo hi = x # bytes m (lo + 1) hi"
  using bytes_append [of lo "lo + 1" hi m] by (simp add: bytes_def)

lemma run_at_step: "lo < hi \<Longrightarrow> m lo = Some x \<Longrightarrow> run_at m b lo hi = (if x = b then 1 + run_at m b (lo + 1) hi else 0)"
  by (simp add: run_at_def bytes_head run_of_Cons)

text \<open>Eight bytes at once.\<close>

lemma run_word:
  assumes "mapped m p (p + 8)" "p + 8 \<le> hi"
  shows "\<exists>a. LZ4_read_ARCH True m p = Some a \<and>
     (a XOR le_val (replicate 8 b) = 0 \<and> run_at m b p hi = 8 + run_at m b (p + 8) hi \<or>
      a XOR le_val (replicate 8 b) \<noteq> 0 \<and>
      LZ4_NbCommonBytes True (a XOR le_val (replicate 8 b)) = Some (run_at m b p hi))"
proof -
  let ?bs = "bytes m p (p + 8)" let ?cs = "replicate 8 b"
  have r: "LZ4_read_ARCH True m p = Some (le_val ?bs)" using read_le(3) [OF assms(1)] .
  have x: "le_val ?bs XOR le_val ?cs = 0 \<longleftrightarrow> ?bs = ?cs" using le_val_eq_iff [of ?bs ?cs] by (simp add: int_xor_zero)
  show ?thesis
  proof (cases "?bs = ?cs")
    case True
    then have "run_at m b p hi = 8 + run_at m b (p + 8) hi" using run_at_skip [of p "p + 8" hi m b] assms(2) by simp
    then show ?thesis using r x True by simp
  next
    case False
    then obtain k where k: "k < 8" "LZ4_NbCommonBytes True (le_val ?bs XOR le_val ?cs) = Some (int k)"
      "\<forall>i < k. ?bs ! i = ?cs ! i" "?bs ! k \<noteq> ?cs ! k" using LZ4_NbCommonBytes_le [of ?bs ?cs] by auto
    have "run_of b (?bs @ bytes m (p + 8) hi) = k"
      using k by (intro run_of_stop) (auto simp: nth_append)
    then have "run_at m b p hi = int k" using bytes_append [of p "p + 8" hi m] assms(2) by (simp add: run_at_def)
    then show ?thesis using r x False k by simp
  qed
qed

lemma LZ4HC_countPattern_run:
  assumes m: "mapped m ip hi" and n: "ip \<le> hi" "hi - ip < 4294967296"
  shows "LZ4HC_countPattern m ip hi (le_val (replicate 4 b)) = Some (run_at m b ip hi)"
proof -
  let ?P = "le_val (replicate 8 b)"
  define I where "I p \<longleftrightarrow> ip \<le> p \<and> p \<le> hi \<and> run_at m b ip hi = p - ip + run_at m b p hi" for p
  have "\<exists>r. cloop (count_pattern_body m hi ?P) ip = Some r \<and>
     (case r of Inl p \<Rightarrow> p = ip + run_at m b ip hi | Inr p \<Rightarrow> I p \<and> hi - p < 8)"
  proof (rule cloop_total [where \<mu> = "\<lambda>p. nat (hi - p)" and I = I])
    show "I ip" using n by (simp add: I_def)
  next
    fix p assume I: "I p"
    show "(\<exists>s'. count_pattern_body m hi ?P p = Some (Inl s') \<and> I s' \<and> nat (hi - s') < nat (hi - p)) \<or>
      (\<exists>r. count_pattern_body m hi ?P p = Some (Inr r) \<and>
        (case r of Inl p \<Rightarrow> p = ip + run_at m b ip hi | Inr p \<Rightarrow> I p \<and> hi - p < 8))"
    proof (cases "p + 8 \<le> hi")
      case True
      have "mapped m p (p + 8)" using I True by (intro mapped_sub [OF m]) (auto simp: I_def)
      from run_word [OF this True, of b] show ?thesis
        using I True by (auto simp: I_def LZ4_isLittleEndian_def sizeof_ptr_def)
    next
      case False
      then show ?thesis using I by (auto simp: sizeof_ptr_def)
    qed
  qed
  then obtain r where r: "cloop (count_pattern_body m hi ?P) ip = Some r"
    "case r of Inl p \<Rightarrow> p = ip + run_at m b ip hi | Inr p \<Rightarrow> I p \<and> hi - p < 8" by blast
  have rest: "\<exists>r. cloop (count_pattern_le_body m hi) (p, ?P) = Some r \<and> r = ip + run_at m b ip hi" if p: "I p" "hi - p < 8" for p
  proof (rule cloop_total [where \<mu> = "\<lambda>(p, _). nat (hi - p)" and
        I = "\<lambda>(p, w). I p \<and> (\<exists>j. hi - p \<le> int j \<and> w = le_val (replicate j b))"])
    show "case (p, ?P) of (p, w) \<Rightarrow> I p \<and> (\<exists>j. hi - p \<le> int j \<and> w = le_val (replicate j b))"
      using p by (auto intro: exI [of _ 8])
  next
    fix s assume "case s of (p, w) \<Rightarrow> I p \<and> (\<exists>j. hi - p \<le> int j \<and> w = le_val (replicate j b))"
    then obtain q w j where s: "s = (q, w)" "I q" "hi - q \<le> int j" "w = le_val (replicate j b)" by (cases s) auto
    show "(\<exists>s'. count_pattern_le_body m hi s = Some (Inl s') \<and>
        (case s' of (p, w) \<Rightarrow> I p \<and> (\<exists>j. hi - p \<le> int j \<and> w = le_val (replicate j b))) \<and>
        (case s' of (p, _) \<Rightarrow> nat (hi - p)) < (case s of (p, _) \<Rightarrow> nat (hi - p))) \<or>
      (\<exists>r. count_pattern_le_body m hi s = Some (Inr r) \<and> r = ip + run_at m b ip hi)"
    proof (cases "q < hi")
      case True
      then obtain x where x: "m q = Some x" using mappedD [OF m, of q] s(2) by (auto simp: I_def)
      obtain i where j: "j = Suc i" using True s(3) by (cases j) auto
      have st: "run_at m b q hi = (if x = b then 1 + run_at m b (q + 1) hi else 0)" by (rule run_at_step [of q hi m x b, OF True x])
      have w: "w mod 256 = uint b" "drop_bit 8 w = le_val (replicate i b)"
        using le_val_replicate_Suc [of i b] unfolding s(4) j by (simp_all add: drop_bit_eq_div)
      have u: "uint x = uint b \<longleftrightarrow> x = b" by (simp add: word_uint_eq_iff)
      show ?thesis
      proof (cases "x = b")
        case True
        have "I (q + 1)" using s(2) st True \<open>q < hi\<close> by (simp add: I_def)
        moreover have "\<exists>j. hi - (q + 1) \<le> int j \<and> le_val (replicate i b) = le_val (replicate j b)"
          using s(3) j by (intro exI [of _ i]) simp
        ultimately show ?thesis using True \<open>q < hi\<close> x w unfolding s(1) by (simp add: load8_def)
      next
        case False
        then show ?thesis using \<open>q < hi\<close> x w u st s(2) unfolding s(1) by (auto simp: load8_def I_def)
      qed
    next
      case False
      then show ?thesis using s(2) unfolding s(1) by (auto simp: I_def)
    qed
  qed
  have "\<exists>e. (case r of Inl e \<Rightarrow> Some e | Inr p \<Rightarrow> cloop (count_pattern_le_body m hi) (p, ?P)) = Some e \<and> e = ip + run_at m b ip hi"
    using r(2) rest by (cases r) auto
  then have e: "(case r of Inl e \<Rightarrow> Some e | Inr p \<Rightarrow> cloop (count_pattern_le_body m hi) (p, ?P)) = Some (ip + run_at m b ip hi)"
    by simp
  have "u32 (run_at m b ip hi) = run_at m b ip hi" using run_at_bounds [OF n(1), of m b] n(2) by (intro u32_id) auto
  then show ?thesis
    unfolding LZ4HC_countPattern_def pattern64 Let_def LZ4_isLittleEndian_def if_True r(1) Option.bind.bind_lunit e by simp
qed

text \<open>Backwards, four bytes at a time, then with a pointer into the pattern.\<close>

definition run_back :: "mem \<Rightarrow> byte \<Rightarrow> int \<Rightarrow> int \<Rightarrow> int" where
  "run_back m b lo hi = int (run_of b (rev (bytes m lo hi)))"

lemma run_back_bounds: "lo \<le> hi \<Longrightarrow> 0 \<le> run_back m b lo hi \<and> run_back m b lo hi \<le> hi - lo"
  using run_of_le [of b "rev (bytes m lo hi)"] by (auto simp: run_back_def)

lemma run_back_empty [simp]: "hi \<le> lo \<Longrightarrow> run_back m b lo hi = 0"
  by (simp add: run_back_def run_of_def)

lemma bytes_last: "lo < hi \<Longrightarrow> m (hi - 1) = Some x \<Longrightarrow> bytes m lo hi = bytes m lo (hi - 1) @ [x]"
  using bytes_append [of lo "hi - 1" hi m] by (simp add: bytes_def)

lemma run_back_step:
  "lo < hi \<Longrightarrow> m (hi - 1) = Some x \<Longrightarrow> run_back m b lo hi = (if x = b then 1 + run_back m b lo (hi - 1) else 0)"
  by (simp add: run_back_def bytes_last run_of_Cons)

lemma run_back_skip:
  assumes "lo \<le> mid" "mid \<le> hi" "\<forall>x \<in> set (bytes m mid hi). x = b"
  shows "run_back m b lo hi = hi - mid + run_back m b lo mid"
  using run_of_append [of "rev (bytes m mid hi)" b] assms by (simp add: run_back_def bytes_append [OF assms(1,2)])

lemma run_back_nth:
  assumes "mapped m lo hi" "0 < k" "k \<le> run_back m b lo hi"
  shows "m (hi - k) = Some b"
proof -
  have k: "nat (k - 1) < run_of b (rev (bytes m lo hi))" using assms(2,3) by (auto simp: run_back_def)
  have l: "k \<le> hi - lo" using k run_of_le [of b "rev (bytes m lo hi)"] by simp
  have "nat (hi - lo) - Suc (nat (k - 1)) = nat (hi - k - lo)" using l assms(2) by (auto simp: nat_diff_distrib)
  then show ?thesis
    using mapped_Some_bytes [OF assms(1), of "hi - k"] run_of_nth [OF k] l assms(2) by (simp add: rev_nth)
qed

lemma le_val_byte: "k < length bs \<Longrightarrow> drop_bit (8 * k) (le_val bs) mod 256 = uint (bs ! k)"
proof (induction bs arbitrary: k)
  case Nil
  then show ?case by simp
next
  case (Cons x bs)
  show ?case
  proof (cases k)
    case 0
    then show ?thesis by simp
  next
    case (Suc i)
    have "drop_bit (8 * k) (le_val (x # bs)) = drop_bit (8 * i) (drop_bit 8 (le_val (x # bs)))"
      by (simp add: Suc drop_bit_drop_bit add.commute)
    also have "drop_bit 8 (le_val (x # bs)) = le_val bs" by (simp add: drop_bit_eq_div)
    finally show ?thesis using Cons Suc by simp
  qed
qed

lemma pattern_byte_const: "0 \<le> k \<Longrightarrow> k < 4 \<Longrightarrow> pattern_byte True (le_val (replicate 4 b)) k = Some (uint b)"
  using le_val_byte [of "nat k" "replicate 4 b"] by (simp add: pattern_byte_def nat_mult_distrib)

lemma LZ4HC_reverseCountPattern_run:
  assumes m: "mapped m lo ip" and n: "lo \<le> ip" "ip - lo < 4294967296"
  shows "LZ4HC_reverseCountPattern m ip lo (le_val (replicate 4 b)) = Some (run_back m b lo ip)"
proof -
  let ?P = "le_val (replicate 4 b)"
  define I where "I p \<longleftrightarrow> lo \<le> p \<and> p \<le> ip \<and> run_back m b lo ip = ip - p + run_back m b lo p" for p
  have "\<exists>r. cloop (reverse_count_body m lo ?P) ip = Some r \<and> I r \<and> run_back m b lo r < 4"
  proof (rule cloop_total [where \<mu> = "\<lambda>p. nat (p - lo)" and I = I])
    show "I ip" using n by (simp add: I_def)
  next
    fix p assume I: "I p"
    show "(\<exists>s'. reverse_count_body m lo ?P p = Some (Inl s') \<and> I s' \<and> nat (s' - lo) < nat (p - lo)) \<or>
      (\<exists>r. reverse_count_body m lo ?P p = Some (Inr r) \<and> I r \<and> run_back m b lo r < 4)"
    proof (cases "p \<ge> lo + 4")
      case True
      let ?bs = "bytes m (p - 4) p"
      have mp: "mapped m (p - 4) p" using I True by (intro mapped_sub [OF m]) (auto simp: I_def)
      have r: "LZ4_read32 True m (p - 4) = Some (le_val ?bs)" using read_le(2) [of m "p - 4"] mp by simp
      have e: "le_val ?bs = ?P \<longleftrightarrow> ?bs = replicate 4 b" by (rule le_val_eq_iff) simp
      show ?thesis
      proof (cases "?bs = replicate 4 b")
        case eq: True
        have "run_back m b lo p = 4 + run_back m b lo (p - 4)"
          using run_back_skip [of lo "p - 4" p m b] True eq by simp
        then show ?thesis using I True r e eq by (auto simp: I_def LZ4_isLittleEndian_def)
      next
        case False
        have "run_back m b lo p < 4"
        proof (rule ccontr)
          assume "\<not> run_back m b lo p < 4"
          then have "m (p - k) = Some b" if "0 < k" "k \<le> 4" for k
            using that I by (intro run_back_nth [of m lo]) (auto intro: mapped_sub [OF m] simp: I_def)
          then have "?bs ! j = b" if "j < 4" for j
            using that by (simp add: nth_bytes) (metis (no_types) diff_add_eq diff_diff_eq2 of_nat_0_less_iff option.sel add_diff_cancel_left' diff_gt_0_iff_gt le_add_same_cancel1 of_nat_0_le_iff of_nat_less_numeral_iff diff_le_eq)
          then have "?bs = replicate 4 b" by (intro nth_equalityI) auto
          with False show False by simp
        qed
        then show ?thesis using I True r e False by (auto simp: LZ4_isLittleEndian_def)
      qed
    next
      case False
      then show ?thesis using I run_back_bounds [of lo p m b] by (auto simp: I_def)
    qed
  qed
  then obtain p where p: "cloop (reverse_count_body m lo ?P) ip = Some p" "I p" "run_back m b lo p < 4" by blast
  have "\<exists>r. cloop (reverse_rest_body m lo ?P) (p, 3) = Some r \<and> r = ip - run_back m b lo ip"
  proof (rule cloop_total [where \<mu> = "\<lambda>(p, _). nat (p - lo)" and I = "\<lambda>(p, k). I p \<and> run_back m b lo p \<le> k \<and> k < 4"])
    show "case (p, 3) of (p, k) \<Rightarrow> I p \<and> run_back m b lo p \<le> k \<and> k < 4" using p(2,3) by simp
  next
    fix s assume "case s of (p, k) \<Rightarrow> I p \<and> run_back m b lo p \<le> k \<and> k < 4"
    then obtain q k where s: "s = (q, k)" "I q" "run_back m b lo q \<le> k" "k < 4" by (cases s) auto
    show "(\<exists>s'. reverse_rest_body m lo ?P s = Some (Inl s') \<and> (case s' of (p, k) \<Rightarrow> I p \<and> run_back m b lo p \<le> k \<and> k < 4) \<and>
        (case s' of (p, _) \<Rightarrow> nat (p - lo)) < (case s of (p, _) \<Rightarrow> nat (p - lo))) \<or>
      (\<exists>r. reverse_rest_body m lo ?P s = Some (Inr r) \<and> r = ip - run_back m b lo ip)"
    proof (cases "q > lo")
      case True
      then obtain x where x: "m (q - 1) = Some x" using mappedD [OF m, of "q - 1"] s(2) by (auto simp: I_def)
      have k: "0 \<le> k" using run_back_bounds [of lo q m b] s(3) True by simp
      note pb = pattern_byte_const [OF k s(4), of b]
      have u: "uint x = uint b \<longleftrightarrow> x = b" by (simp add: word_uint_eq_iff)
      note st = run_back_step [of lo q m x b, OF True x]
      show ?thesis using s(2-4) True x pb u st unfolding s(1) by (auto simp: load8_def LZ4_isLittleEndian_def I_def)
    next
      case False
      then show ?thesis using s(2) unfolding s(1) by (auto simp: I_def)
    qed
  qed
  moreover have "u32 (run_back m b lo ip) = run_back m b lo ip"
    using run_back_bounds [OF n(1), of m b] n(2) by (intro u32_id) auto
  ultimately show ?thesis unfolding LZ4HC_reverseCountPattern_def using p(1) by auto
qed

end
