(* ===== verification/Lz4_HcTables.thy ===== *)
theory Lz4_HcTables
  imports Lz4_HcCount
begin

unbundle bit_operations_syntax

text \<open>
  The tables of the high-compression compressor for content in one segment: every entry of the hash
  table is the index of an earlier position, every entry of the chain table is a distance of at
  most 65535, and the indexes start late enough that such a distance never leads below zero.
\<close>

section \<open>The invariant\<close>

text \<open>The segment reaches from \<open>low\<close> to \<open>hi\<close>; the index of \<open>p\<close> is \<open>h_dictLimit c + (p - low)\<close>.\<close>

definition hc_ctx :: "int \<Rightarrow> int \<Rightarrow> LZ4HC_CCtx_internal \<Rightarrow> bool" where
  "hc_ctx low hi c \<longleftrightarrow> h_prefixStart c = low \<and> h_lowLimit c = h_dictLimit c \<and> 65536 \<le> h_dictLimit c \<and>
     h_dictLimit c \<le> 2147549184 \<and> low \<le> hi \<and> h_dictLimit c + (hi - low) < 4294967296"

definition hc_entries :: "int \<Rightarrow> LZ4HC_CCtx_internal \<Rightarrow> bool" where
  "hc_entries n c \<longleftrightarrow> (\<forall>i. 0 \<le> i \<and> i < LZ4HC_HASHTABLESIZE \<longrightarrow> 0 \<le> h_hashTable c i \<and> h_hashTable c i < n) \<and>
     (\<forall>i. 0 \<le> h_chainTable c i \<and> h_chainTable c i \<le> 65535)"

definition hc_index :: "LZ4HC_CCtx_internal \<Rightarrow> int \<Rightarrow> int" where
  "hc_index c p = h_dictLimit c + (p - h_prefixStart c)"

lemma hc_ctxD:
  assumes "hc_ctx low hi c"
  shows "h_prefixStart c = low" "h_lowLimit c = h_dictLimit c" "65536 \<le> h_dictLimit c" "h_dictLimit c \<le> 2147549184"
    "low \<le> hi" "h_dictLimit c + (hi - low) < 4294967296"
  using assms by (auto simp: hc_ctx_def)

lemma hc_entries_mono: "hc_entries n c \<Longrightarrow> n \<le> n' \<Longrightarrow> hc_entries n' c"
  unfolding hc_entries_def by force

lemma hc_index_u32:
  assumes "hc_ctx low hi c" "low \<le> p" "p \<le> hi"
  shows "u32 (u32 (p - h_prefixStart c) + h_dictLimit c) = hc_index c p" "0 \<le> hc_index c p" "hc_index c p < 4294967296"
    "65536 \<le> hc_index c p"
  using assms by (auto simp: hc_ctx_def hc_index_def u32_id)

text \<open>Only the tables change.\<close>

definition hc_same :: "LZ4HC_CCtx_internal \<Rightarrow> LZ4HC_CCtx_internal \<Rightarrow> bool" where
  "hc_same c c' \<longleftrightarrow> h_prefixStart c' = h_prefixStart c \<and> h_end c' = h_end c \<and> h_dictStart c' = h_dictStart c \<and>
     h_dictLimit c' = h_dictLimit c \<and> h_lowLimit c' = h_lowLimit c \<and> h_compressionLevel c' = h_compressionLevel c \<and>
     h_favorDecSpeed c' = h_favorDecSpeed c \<and> h_dirty c' = h_dirty c \<and> h_dictCtx c' = h_dictCtx c"

lemma hc_same_refl [intro, simp]: "hc_same c c"
  by (simp add: hc_same_def)

lemma hc_same_trans: "hc_same c c' \<Longrightarrow> hc_same c' c'' \<Longrightarrow> hc_same c c''"
  by (simp add: hc_same_def)

lemma hc_same_upd [simp]:
  "hc_same c (c'\<lparr>h_hashTable := h\<rparr>) = hc_same c c'" "hc_same c (c'\<lparr>h_chainTable := t\<rparr>) = hc_same c c'"
  "hc_same c (c'\<lparr>h_nextToUpdate := n\<rparr>) = hc_same c c'"
  by (simp_all add: hc_same_def)

lemma hc_sameD:
  assumes "hc_same c c'"
  shows "h_prefixStart c' = h_prefixStart c" "h_end c' = h_end c" "h_dictStart c' = h_dictStart c" "h_dictLimit c' = h_dictLimit c"
    "h_lowLimit c' = h_lowLimit c" "h_compressionLevel c' = h_compressionLevel c" "h_favorDecSpeed c' = h_favorDecSpeed c"
    "h_dirty c' = h_dirty c" "h_dictCtx c' = h_dictCtx c" "hc_index c' p = hc_index c p" "hc_ctx low hi c' = hc_ctx low hi c"
  using assms by (auto simp: hc_same_def hc_index_def hc_ctx_def)

section \<open>Hashes\<close>

lemma HASH_FUNCTION_range: "0 \<le> HASH_FUNCTION x" "HASH_FUNCTION x < LZ4HC_HASHTABLESIZE"
  using div_range [of "u32 (x * 2654435761)" 32768 131072] u32_range [of "x * 2654435761"]
  by (simp_all add: HASH_FUNCTION_def drop_bit_eq_div)

lemma LZ4HC_hashPtr_ok:
  assumes "mapped m p (p + 4)"
  shows "\<exists>h. LZ4HC_hashPtr m p = Some h \<and> 0 \<le> h \<and> h < LZ4HC_HASHTABLESIZE"
  using read_le(2) [OF assms] HASH_FUNCTION_range by (simp add: LZ4HC_hashPtr_def LZ4_isLittleEndian_def)

lemma hc_hash_ok: "0 \<le> i \<Longrightarrow> i < LZ4HC_HASHTABLESIZE \<Longrightarrow> hc_hash c i = Some (h_hashTable c i)"
  by (simp add: hc_hash_def)

lemma hc_chain_range:
  assumes "hc_entries n c"
  shows "0 \<le> hc_chain c i" "hc_chain c i \<le> 65535"
  using assms by (auto simp: hc_entries_def hc_chain_def)

section \<open>LZ4HC_Insert\<close>

lemma insert_step:
  assumes ctx: "hc_ctx low hi c" and e: "hc_entries target c" and m: "mapped m low hi"
    and i: "h_dictLimit c \<le> idx" "idx < target" "target + 3 \<le> hc_index c hi"
  shows "\<exists>c'. insert_body m target (idx, c) = Some (Inl (idx + 1, c')) \<and> hc_same c c' \<and> hc_entries target c'"
proof -
  note cd = hc_ctxD [OF ctx]
  let ?p = "low + idx - h_dictLimit c"
  have "mapped m ?p (?p + 4)" using i cd by (intro mapped_sub [OF m]) (auto simp: hc_index_def)
  then obtain h where h: "LZ4HC_hashPtr m ?p = Some h" "0 \<le> h" "h < LZ4HC_HASHTABLESIZE" using LZ4HC_hashPtr_ok by blast
  have b: "0 \<le> idx" "idx + 1 < 4294967296" using i cd by (auto simp: hc_index_def)
  define d where "d = u16 (let delta = u32 (idx - h_hashTable c h) in if delta > LZ4_DISTANCE_MAX then LZ4_DISTANCE_MAX else delta)"
  have d: "0 \<le> d" "d \<le> 65535" unfolding d_def u16_def using pos_mod_bound [of 65536] by (simp_all flip: zle_add1_eq_le)
  let ?c = "c\<lparr>h_hashTable := (h_hashTable c)(h := idx), h_chainTable := (h_chainTable c)(u16 idx := d)\<rparr>"
  have "insert_body m target (idx, c) = Some (Inl (idx + 1, ?c))"
    using i(2) h b cd(1) hc_hash_ok [OF h(2,3), of c]
    by (simp add: Let_def hc_set_chain_def hc_set_hash_def d_def u32_id)
  moreover have "hc_same c ?c" by simp
  moreover have "hc_entries target ?c" using e d b(1) i(2) unfolding hc_entries_def by auto
  ultimately show ?thesis by blast
qed

lemma LZ4HC_Insert_ok:
  assumes ctx: "hc_ctx low hi c" and e: "hc_entries (hc_index c ip) c" and m: "mapped m low hi"
    and p: "low \<le> ip" "ip + 3 \<le> hi" and n: "h_dictLimit c \<le> h_nextToUpdate c" "h_nextToUpdate c \<le> hc_index c ip"
  shows "\<exists>c'. LZ4HC_Insert m c ip = Some c' \<and> hc_same c c' \<and> hc_entries (hc_index c ip) c' \<and> h_nextToUpdate c' = hc_index c ip"
proof -
  let ?t = "hc_index c ip"
  have t: "u32 (u32 (ip - h_prefixStart c) + h_dictLimit c) = ?t" using hc_index_u32(1) [OF ctx, of ip] p by simp
  have "\<exists>r. cloop (insert_body m ?t) (h_nextToUpdate c, c) = Some r \<and> hc_same c r \<and> hc_entries ?t r"
  proof (rule cloop_total [where \<mu> = "\<lambda>(idx, _). nat (?t - idx)" and
        I = "\<lambda>(idx, c'). h_dictLimit c \<le> idx \<and> idx \<le> ?t \<and> hc_same c c' \<and> hc_entries ?t c'"])
    show "case (h_nextToUpdate c, c) of (idx, c') \<Rightarrow> h_dictLimit c \<le> idx \<and> idx \<le> ?t \<and> hc_same c c' \<and> hc_entries ?t c'"
      using n e by simp
  next
    fix s assume "case s of (idx, c') \<Rightarrow> h_dictLimit c \<le> idx \<and> idx \<le> ?t \<and> hc_same c c' \<and> hc_entries ?t c'"
    then obtain idx c1 where s: "s = (idx, c1)" "h_dictLimit c \<le> idx" "idx \<le> ?t" "hc_same c c1" "hc_entries ?t c1" by (cases s) auto
    show "(\<exists>s'. insert_body m ?t s = Some (Inl s') \<and>
        (case s' of (idx, c') \<Rightarrow> h_dictLimit c \<le> idx \<and> idx \<le> ?t \<and> hc_same c c' \<and> hc_entries ?t c') \<and>
        (case s' of (idx, _) \<Rightarrow> nat (?t - idx)) < (case s of (idx, _) \<Rightarrow> nat (?t - idx))) \<or>
      (\<exists>r. insert_body m ?t s = Some (Inr r) \<and> hc_same c r \<and> hc_entries ?t r)"
    proof (cases "idx < ?t")
      case True
      have "?t + 3 \<le> hc_index c1 hi" using p hc_sameD(10) [OF s(4), of hi] by (simp add: hc_index_def)
      moreover have "hc_ctx low hi c1" "h_dictLimit c1 \<le> idx" using ctx s(2) hc_sameD(4,11) [OF s(4)] by simp_all
      ultimately obtain c2 where "insert_body m ?t (idx, c1) = Some (Inl (idx + 1, c2))" "hc_same c1 c2" "hc_entries ?t c2"
        using insert_step [OF _ s(5) m _ True] by blast
      then show ?thesis using s True hc_same_trans [OF s(4)] by auto
    next
      case False
      then show ?thesis using s by auto
    qed
  qed
  then obtain r where r: "cloop (insert_body m ?t) (h_nextToUpdate c, c) = Some r" "hc_same c r" "hc_entries ?t r" by blast
  have "hc_same c (r\<lparr>h_nextToUpdate := ?t\<rparr>)" using r(2) by simp
  moreover have "hc_entries ?t (r\<lparr>h_nextToUpdate := ?t\<rparr>)" using r(3) by (simp add: hc_entries_def)
  ultimately show ?thesis using r(1) by (simp add: LZ4HC_Insert_def t)
qed

end
