(* ===== verification/Lz4_HcSearchProofs.thy ===== *)
theory Lz4_HcSearchProofs
  imports Lz4_HcTables Lz4_HcSearch
begin

unbundle bit_operations_syntax

text \<open>
  The wider search of the high-compression compressor, for content in one segment: whatever the tables
  hold, it ends within its number of attempts, stays in the buffers, and what it returns is a match.
\<close>

section \<open>Matches\<close>

text \<open>The \<open>n\<close> bytes from \<open>p\<close> on repeat those \<open>off\<close> bytes before.\<close>

definition hc_match :: "mem \<Rightarrow> int \<Rightarrow> int \<Rightarrow> int \<Rightarrow> int \<Rightarrow> bool" where
  "hc_match m low p off n \<longleftrightarrow> 1 \<le> off \<and> off \<le> 65535 \<and> low \<le> p - off \<and>
     (\<forall>k. 0 \<le> k \<and> k < n \<longrightarrow> m (p - off + k) = m (p + k))"

lemma hc_match_shorter: "hc_match m low p off n \<Longrightarrow> n' \<le> n \<Longrightarrow> hc_match m low p off n'"
  by (auto simp: hc_match_def)

lemma hc_match_later:
  assumes "hc_match m low p off n" "0 \<le> d"
  shows "hc_match m low (p + d) off (n - d)"
proof -
  have "m (p + d - off + k) = m (p + d + k)" if "0 \<le> k" "k < n - d" for k
  proof -
    have "m (p - off + (d + k)) = m (p + (d + k))" using assms that unfolding hc_match_def by auto
    then show ?thesis by (simp add: algebra_simps)
  qed
  then show ?thesis using assms unfolding hc_match_def by auto
qed

text \<open>Equal bytes forwards and backwards from two positions make one match.\<close>

lemma hc_match_around:
  assumes "1 \<le> off" "off \<le> 65535" "low \<le> p - off - int b"
    and f: "\<And>k. 0 \<le> k \<Longrightarrow> k < n \<Longrightarrow> m (p - off + k) = m (p + k)"
    and b: "\<And>k. k < b \<Longrightarrow> m (p - off - 1 - int k) = m (p - 1 - int k)"
  shows "hc_match m low (p - int b) off (n + int b)"
proof -
  have "m (p - int b - off + k) = m (p - int b + k)" if k: "0 \<le> k" "k < n + int b" for k
  proof (cases "k < int b")
    case True
    have e: "p - off - 1 - int (b - 1 - nat k) = p - int b - off + k" "p - 1 - int (b - 1 - nat k) = p - int b + k"
      using True k(1) by (simp_all add: of_nat_diff)
    show ?thesis using b [of "b - 1 - nat k"] True k(1) unfolding e by simp
  next
    case False
    then show ?thesis using f [of "k - int b"] k by (simp add: algebra_simps)
  qed
  then show ?thesis using assms(1-3) by (simp add: hc_match_def)
qed

section \<open>The call\<close>

definition search_ok :: "mem \<Rightarrow> LZ4HC_CCtx_internal \<Rightarrow> hcargs \<Rightarrow> int \<Rightarrow> int \<Rightarrow> bool" where
  "search_ok m c a low iend \<longleftrightarrow> hc_ctx low iend c \<and> mapped m low iend \<and> low \<le> w_iLowLimit a \<and> w_iLowLimit a \<le> w_ip a \<and>
     w_ip a + 12 \<le> iend \<and> w_iHighLimit a = iend - 5 \<and> iend - w_iLowLimit a \<le> 2113929216 \<and> w_dict a = noDictCtx"

text \<open>What has been found: nothing longer than \<open>l0\<close>, or a match that starts in the limits and covers four bytes at \<open>ip\<close>.\<close>

definition hc_found :: "mem \<Rightarrow> hcargs \<Rightarrow> int \<Rightarrow> int \<Rightarrow> int \<Rightarrow> int \<Rightarrow> int \<Rightarrow> bool" where
  "hc_found m a low l0 off len bk \<longleftrightarrow> len = l0 \<and> off = 0 \<and> bk = 0 \<or>
     l0 < len \<and> w_iLowLimit a \<le> w_ip a + bk \<and> bk \<le> 0 \<and> 4 \<le> bk + len \<and> w_ip a + bk + len \<le> w_iHighLimit a \<and>
     hc_match m low (w_ip a + bk) off len"

definition search_inv :: "mem \<Rightarrow> LZ4HC_CCtx_internal \<Rightarrow> hcargs \<Rightarrow> int \<Rightarrow> int \<Rightarrow> hcsearch \<Rightarrow> bool" where
  "search_inv m c a low l0 w \<longleftrightarrow> 0 \<le> w_matchIndex w \<and> w_matchIndex w < hc_index c (w_ip a) \<and> 0 \<le> w_matchChainPos w \<and>
     w_iLowLimit a + w_longest w \<le> w_iHighLimit a \<and> l0 \<le> w_longest w \<and>
     hc_found m a low l0 (w_offset w) (w_longest w) (w_sBack w) \<and>
     (w_repeat w = rep_confirmed \<longrightarrow> (\<exists>b. bytes m (w_ip a) (w_ip a + 4) = replicate 4 b \<and>
        w_srcPatternLength w = 4 + run_at m b (w_ip a + 4) (w_iHighLimit a)))"

lemma search_okD:
  assumes "search_ok m c a low iend"
  shows "hc_ctx low iend c" "mapped m low iend" "low \<le> w_iLowLimit a" "w_iLowLimit a \<le> w_ip a" "w_ip a + 12 \<le> iend"
    "w_iHighLimit a = iend - 5" "iend - w_iLowLimit a \<le> 2113929216" "w_dict a = noDictCtx"
    "h_prefixStart c = low" "h_lowLimit c = h_dictLimit c" "65536 \<le> h_dictLimit c" "h_dictLimit c \<le> 2147549184"
    "h_dictLimit c + (iend - low) < 4294967296" "hw_ipIndex c a = hc_index c (w_ip a)" "hw_lookBack a = w_ip a - w_iLowLimit a"
proof -
  show l: "hc_ctx low iend c" "mapped m low iend" "low \<le> w_iLowLimit a" "w_iLowLimit a \<le> w_ip a" "w_ip a + 12 \<le> iend"
    "w_iHighLimit a = iend - 5" "iend - w_iLowLimit a \<le> 2113929216" "w_dict a = noDictCtx"
    using assms by (simp_all add: search_ok_def)
  show "h_prefixStart c = low" "h_lowLimit c = h_dictLimit c" "65536 \<le> h_dictLimit c" "h_dictLimit c \<le> 2147549184"
    "h_dictLimit c + (iend - low) < 4294967296" using hc_ctxD [OF l(1)] by simp_all
  show "hw_ipIndex c a = hc_index c (w_ip a)" using hc_index_u32(1) [OF l(1), of "w_ip a"] l by (simp add: hw_ipIndex_def)
  show "hw_lookBack a = w_ip a - w_iLowLimit a" using l by (simp add: hw_lookBack_def s32_id)
qed

lemma index_range:
  assumes "search_ok m c a low iend"
  shows "hc_index c (w_ip a) = h_dictLimit c + (w_ip a - low)" "65536 \<le> hc_index c (w_ip a)" "hc_index c (w_ip a) < 4294967296"
  using search_okD [OF assms] by (simp_all add: hc_index_def)

text \<open>Indexes from the lowest one on are in the segment and near enough for an offset.\<close>

lemma lowest_range:
  assumes ok: "search_ok m c a low iend" and i: "hw_lowest c a \<le> i" "i < hc_index c (w_ip a)"
  shows "h_dictLimit c \<le> i" "hc_index c (w_ip a) - i \<le> 65535" "65536 \<le> i"
proof -
  note d = search_okD [OF ok] and x = index_range [OF ok]
  have l: "h_dictLimit c \<le> hw_lowest c a \<and> hc_index c (w_ip a) - 65535 \<le> hw_lowest c a"
  proof (cases "hw_withinStart c a")
    case True
    then have "h_dictLimit c + 65536 > hc_index c (w_ip a)" using d x by (simp add: hw_withinStart_def u32_id)
    then show ?thesis using True d by (simp add: hw_lowest_def)
  next
    case False
    then have "h_dictLimit c + 65536 \<le> hc_index c (w_ip a)" using d x by (simp add: hw_withinStart_def u32_id)
    then show ?thesis using False d x by (simp add: hw_lowest_def u32_id)
  qed
  then show "h_dictLimit c \<le> i" "hc_index c (w_ip a) - i \<le> 65535" "65536 \<le> i" using i d(11) by linarith+
qed

text \<open>An index as a position.\<close>

lemma match_position:
  assumes ok: "search_ok m c a low iend" and i: "hw_lowest c a \<le> i" "i < hc_index c (w_ip a)"
  defines "mp \<equiv> low + (i - h_dictLimit c)"
  shows "low \<le> mp" "mp < w_ip a" "w_ip a - mp = hc_index c (w_ip a) - i" "w_ip a - mp \<le> 65535"
    "s32 (u32 (hc_index c (w_ip a) - i)) = w_ip a - mp" "u32 (hc_index c (w_ip a) - i) = w_ip a - mp"
proof -
  note l = lowest_range [OF assms(1-3)] and x = index_range [OF ok]
  show e: "w_ip a - mp = hc_index c (w_ip a) - i" using x by (simp add: mp_def)
  show "low \<le> mp" using l by (simp add: mp_def)
  show "mp < w_ip a" "w_ip a - mp \<le> 65535" using e l i by linarith+
  show "u32 (hc_index c (w_ip a) - i) = w_ip a - mp" unfolding e using l i by (intro u32_id) auto
  then show "s32 (u32 (hc_index c (w_ip a) - i)) = w_ip a - mp" unfolding e using l i by (simp add: s32_id)
qed

section \<open>A candidate\<close>

lemma read16_in: "mapped m lo hi \<Longrightarrow> lo \<le> p \<Longrightarrow> p + 2 \<le> hi \<Longrightarrow> \<exists>x. LZ4_read16 LZ4_isLittleEndian m p = Some x"
  using read_le(1) [of m p] mapped_sub [of m lo hi p "p + 2"] by (simp add: LZ4_isLittleEndian_def)

lemma read32_in:
  "mapped m lo hi \<Longrightarrow> lo \<le> p \<Longrightarrow> p + 4 \<le> hi \<Longrightarrow> LZ4_read32 LZ4_isLittleEndian m p = Some (le_val (bytes m p (p + 4)))"
  using read_le(2) [of m p] mapped_sub [of m lo hi p "p + 4"] by (simp add: LZ4_isLittleEndian_def)

lemma keep_longer_inv:
  assumes inv: "search_inv m c a low l0 w" and idx: "hw_ipIndex c a = hc_index c (w_ip a)"
    and off: "s32 (u32 (hc_index c (w_ip a) - w_matchIndex w)) = off"
    and new: "w_iLowLimit a \<le> w_ip a + bk" "bk \<le> 0" "4 \<le> bk + len" "w_ip a + bk + len \<le> w_iHighLimit a" "hc_match m low (w_ip a + bk) off len"
  shows "search_inv m c a low l0 (keep_longer c a w len bk)"
  using assms unfolding search_inv_def keep_longer_def by (auto simp: hc_found_def)

lemma in_prefix_ok:
  assumes ok: "search_ok m c a low iend" and inv: "search_inv m c a low l0 w" and l0: "w_ip a - w_iLowLimit a < l0"
    and i: "hw_lowest c a \<le> w_matchIndex w" and pat: "LZ4_read32 LZ4_isLittleEndian m (w_ip a) = Some pattern"
  shows "\<exists>ml w'. in_prefix m c a pattern w = Some (ml, w') \<and> search_inv m c a low l0 w' \<and>
     w_nbAttempts w' = w_nbAttempts w \<and> w_matchIndex w' = w_matchIndex w \<and> w_matchChainPos w' = w_matchChainPos w"
proof -
  note d = search_okD [OF ok]
  define mp where "mp = low + (w_matchIndex w - h_dictLimit c)"
  have lt: "w_matchIndex w < hc_index c (w_ip a)" and lon: "w_iLowLimit a + w_longest w \<le> w_iHighLimit a" "l0 \<le> w_longest w"
    using inv by (simp_all add: search_inv_def)
  note mpp = match_position [OF ok i lt, folded mp_def]
  have mp: "h_prefixStart c + (w_matchIndex w - h_dictLimit c) = mp" by (simp add: mp_def d(9))
  let ?ip = "w_ip a" let ?lb = "w_ip a - w_iLowLimit a"
  obtain x where x: "LZ4_read16 LZ4_isLittleEndian m (w_iLowLimit a + w_longest w - 1) = Some x"
    using read16_in [OF d(2), of "w_iLowLimit a + w_longest w - 1"] d(3,4,6) lon l0 by auto
  obtain y where y: "LZ4_read16 LZ4_isLittleEndian m (mp - ?lb + w_longest w - 1) = Some y"
    using read16_in [OF d(2), of "mp - ?lb + w_longest w - 1"] d(6) lon l0 mpp(1,2) by auto
  have m4: "mapped m mp (mp + 4)" "mapped m ?ip (?ip + 4)" using d mpp by (auto intro!: mapped_sub [OF d(2)])
  obtain z where z: "LZ4_read32 LZ4_isLittleEndian m mp = Some z" "z = le_val (bytes m mp (mp + 4))"
    using read_le(2) [OF m4(1)] by (simp add: LZ4_isLittleEndian_def)
  have pv: "pattern = le_val (bytes m ?ip (?ip + 4))" using pat read_le(2) [OF m4(2)] by (simp add: LZ4_isLittleEndian_def)
  show ?thesis
  proof (cases "x = y \<and> z = pattern")
    case False
    then have "in_prefix m c a pattern w = Some (0, w)" by (auto simp: in_prefix_def mp x y z(1) d(15))
    then show ?thesis using inv by blast
  next
    case True
    have eq4: "m (mp + int k) = m (?ip + int k)" if "k < 4" for k
      using read_eq_iff [of m mp 4 ?ip] m4 True z(2) pv that by simp
    define nb where "nb = nat (min ?lb (mp - low))"
    define bk where "bk = agree_back m ?ip mp nb"
    have nbl: "int nb = min ?lb (mp - low)" "nb < 2 ^ 31" using d mpp by (auto simp: nb_def)
    have bkl: "int bk \<le> int nb" using agree_back_le by (simp add: bk_def)
    have bck: "(if hw_lookBack a \<noteq> 0 then LZ4HC_countBack m ?ip mp (w_iLowLimit a) (h_prefixStart c) else Some 0) = Some (- int bk)"
    proof (cases "?lb = 0")
      case True
      then have "nb = 0" using nbl(1) mpp(1) by auto
      then show ?thesis using True by (simp add: d(15) bk_def agree_back_def)
    next
      case False
      have "mapped m (?ip - int nb) ?ip" "mapped m (mp - int nb) mp"
        using nbl(1) d mpp by (auto intro!: mapped_sub [OF d(2)])
      then show ?thesis using LZ4HC_countBack_agree [of nb ?ip "w_iLowLimit a" mp low m] nbl False by (simp add: d bk_def)
    qed
    define N where "N = nat (w_iHighLimit a - (?ip + 4))"
    define n where "n = agree m (mp + 4) (?ip + 4) N"
    have N: "?ip + 4 + int N = w_iHighLimit a" "N < 2 ^ 32" using d by (auto simp: N_def)
    have "mapped m (mp + 4) (mp + 4 + int N)" "mapped m (?ip + 4) (?ip + 4 + int N)"
      using N(1) d mpp by (auto intro!: mapped_sub [OF d(2)])
    from LZ4_count_agree [OF this N(2)] have cnt: "LZ4_count LZ4_isLittleEndian m (?ip + 4) (mp + 4) (w_iHighLimit a) = Some (int n)"
      by (simp only: N(1) n_def LZ4_isLittleEndian_def)
    have nN: "int n \<le> int N" using agree_le by (simp add: n_def)
    have "s32 (int n) = int n" using nN N(1) d by (intro s32_id) auto
    then have res: "in_prefix m c a pattern w = Some (4 + int n + int bk, keep_longer c a w (4 + int n + int bk) (- int bk))"
      using True bck cnt by (simp add: in_prefix_def mp x y z(1) d(15) Let_def)
    have "hc_match m low (?ip - int bk) (?ip - mp) ((4 + int n) + int bk)"
    proof (rule hc_match_around)
      show "1 \<le> ?ip - mp" "?ip - mp \<le> 65535" "low \<le> ?ip - (?ip - mp) - int bk" using mpp bkl nbl(1) by auto
      show "m (?ip - (?ip - mp) + k) = m (?ip + k)" if "0 \<le> k" "k < 4 + int n" for k
      proof (cases "k < 4")
        case True
        then show ?thesis using eq4 [of "nat k"] that(1) by simp
      next
        case False
        then have "m (mp + 4 + int (nat (k - 4))) = m (?ip + 4 + int (nat (k - 4)))"
          using that by (intro agree_eq [of _ m _ _ N]) (simp add: n_def [symmetric])
        then show ?thesis using False by simp
      qed
      show "m (?ip - (?ip - mp) - 1 - int k) = m (?ip - 1 - int k)" if "k < bk" for k
        using agree_back_eq [of k m ?ip mp nb] that by (simp add: bk_def)
    qed
    then have "search_inv m c a low l0 (keep_longer c a w (4 + int n + int bk) (- int bk))"
      using nbl(1) bkl nN N(1) by (intro keep_longer_inv [OF inv d(14) mpp(5)]) auto
    then show ?thesis using res by (auto simp: keep_longer_def)
  qed
qed

lemma test_candidate_ok:
  assumes "search_ok m c a low iend" "search_inv m c a low l0 w" "w_ip a - w_iLowLimit a < l0"
    and "hw_lowest c a \<le> w_matchIndex w" "LZ4_read32 LZ4_isLittleEndian m (w_ip a) = Some pattern"
  shows "\<exists>ml w'. test_candidate m c a pattern w = Some (ml, w') \<and> search_inv m c a low l0 w' \<and>
     w_nbAttempts w' = w_nbAttempts w \<and> w_matchIndex w' = w_matchIndex w \<and> w_matchChainPos w' = w_matchChainPos w"
proof (cases "w_favorDecSpeed a = favorDecompressionSpeed \<and> u32 (hw_ipIndex c a - w_matchIndex w) < 8")
  case True
  then show ?thesis using assms(2) by (simp add: test_candidate_def)
next
  case False
  have "w_matchIndex w < hc_index c (w_ip a)" using assms(2) by (simp add: search_inv_def)
  then have "h_dictLimit c \<le> w_matchIndex w" using lowest_range(1) [OF assms(1,4)] by simp
  then have "test_candidate m c a pattern w = in_prefix m c a pattern w" using False by (auto simp: test_candidate_def)
  then show ?thesis using in_prefix_ok [OF assms] by simp
qed

section \<open>A better chain\<close>

text \<open>Moving to another index keeps what was found.\<close>

lemma search_inv_move:
  assumes "search_inv m c a low l0 w" "0 \<le> i" "i < hc_index c (w_ip a)" "0 \<le> j"
  shows "search_inv m c a low l0 (w\<lparr>w_matchIndex := i, w_matchChainPos := j\<rparr>)"
    "search_inv m c a low l0 (w\<lparr>w_matchIndex := i\<rparr>)" "search_inv m c a low l0 (w\<lparr>w_matchChainPos := j\<rparr>)"
  using assms by (simp_all add: search_inv_def)

definition flow_inv :: "mem \<Rightarrow> LZ4HC_CCtx_internal \<Rightarrow> hcargs \<Rightarrow> int \<Rightarrow> int \<Rightarrow> int \<Rightarrow> int \<Rightarrow> hcsearch hcflow \<Rightarrow> bool" where
  "flow_inv m c a low l0 n i r \<longleftrightarrow> (case r of
       Fall w \<Rightarrow> search_inv m c a low l0 w \<and> w_nbAttempts w = n \<and> w_matchIndex w = i
     | Continue w \<Rightarrow> search_inv m c a low l0 w \<and> w_nbAttempts w = n
     | Break w \<Rightarrow> search_inv m c a low l0 w)"

lemma swap_loop:
  assumes e: "hc_entries n c" and p: "0 \<le> pos" "pend < 2147483600"
  shows "\<exists>r. cloop (swap_body c i pend) (0, 1, 16, 1, pos) = Some r \<and> (case r of (d, q) \<Rightarrow> 1 \<le> d \<and> 0 \<le> q)"
proof (rule cloop_total [where \<mu> = "\<lambda>(q, _). nat (pend - q)" and
      I = "\<lambda>(q, step, accel, d, pos). 0 \<le> q \<and> 16 \<le> accel \<and> accel \<le> q + 16 \<and> 1 \<le> d \<and> 0 \<le> pos"])
  show "case (0, 1 :: int, 16 :: int, 1 :: int, pos) of (q, step, accel, d, pos) \<Rightarrow> 0 \<le> q \<and> 16 \<le> accel \<and> accel \<le> q + 16 \<and> 1 \<le> d \<and> 0 \<le> pos"
    using p by simp
next
  fix s :: "int \<times> int \<times> int \<times> int \<times> int" assume "case s of (q, step, accel, d, pos) \<Rightarrow> 0 \<le> q \<and> 16 \<le> accel \<and> accel \<le> q + 16 \<and> 1 \<le> d \<and> 0 \<le> pos"
  then obtain q st ac d ps where s: "s = (q, st, ac, d, ps)" "0 \<le> q" "16 \<le> ac" "ac \<le> q + 16" "1 \<le> d" "0 \<le> ps" by (cases s) auto
  show "(\<exists>s'. swap_body c i pend s = Some (Inl s') \<and>
      (case s' of (q, step, accel, d, pos) \<Rightarrow> 0 \<le> q \<and> 16 \<le> accel \<and> accel \<le> q + 16 \<and> 1 \<le> d \<and> 0 \<le> pos) \<and>
      (case s' of (q, _) \<Rightarrow> nat (pend - q)) < (case s of (q, _) \<Rightarrow> nat (pend - q))) \<or>
    (\<exists>r. swap_body c i pend s = Some (Inr r) \<and> (case r of (d, q) \<Rightarrow> 1 \<le> d \<and> 0 \<le> q))"
  proof (cases "q < pend")
    case True
    have dv: "1 \<le> ac div 16" using zdiv_mono1 [OF s(3), of 16] by simp
    have sm: "s32 (ac + 1) = ac + 1" using s p(2) True by (intro s32_id) auto
    show ?thesis using s True dv sm by (auto simp: drop_bit_eq_div Let_def)
  next
    case False
    then show ?thesis using s by auto
  qed
qed

lemma swap_chain_ok:
  assumes ok: "search_ok m c a low iend" and inv: "search_inv m c a low l0 w" and e: "hc_entries n c"
  shows "\<exists>r. swap_chain c a ml w = Some r \<and> flow_inv m c a low l0 (w_nbAttempts w) (w_matchIndex w) r"
proof (cases "w_chainSwap a \<and> ml = w_longest w \<and> u32 (w_matchIndex w + u32 (w_longest w)) \<le> hw_ipIndex c a")
  case False
  then show ?thesis using inv by (auto simp: swap_chain_def flow_inv_def)
next
  case True
  have p: "0 \<le> w_matchChainPos w" "w_longest w - MINMATCH + 1 < 2147483600"
    using inv search_okD [OF ok] by (auto simp: search_inv_def)
  from swap_loop [OF e p, of "w_matchIndex w"] obtain d q where
    r: "cloop (swap_body c (w_matchIndex w) (w_longest w - MINMATCH + 1)) (0, 1, 16, 1, w_matchChainPos w) = Some (d, q)" "1 \<le> d" "0 \<le> q" by auto
  have i: "0 \<le> w_matchIndex w" "w_matchIndex w < hc_index c (w_ip a)" using inv by (simp_all add: search_inv_def)
  have x: "hc_index c (w_ip a) < 4294967296" by (rule index_range [OF ok])
  have "swap_chain c a ml w = Some (if d > 1 then
      (if d > w_matchIndex w then Break (w\<lparr>w_matchChainPos := q\<rparr>)
       else Continue (w\<lparr>w_matchChainPos := q, w_matchIndex := w_matchIndex w - d\<rparr>))
      else Fall (w\<lparr>w_matchChainPos := q\<rparr>))"
    using True r i x by (auto simp: swap_chain_def push_bit_eq_mult Let_def u32_id)
  then show ?thesis
    using search_inv_move [OF inv, of "w_matchIndex w - d" q] search_inv_move(3) [OF inv i r(3)] i r(2,3)
    by (auto simp: flow_inv_def search_inv_def)
qed

section \<open>Repeated patterns\<close>

lemma replicate_four: "replicate 4 x = [x, x, x, x]"
  by (simp add: numeral_eq_Suc)

lemma second_byte: "v mod 65536 div 256 = v div 256 mod 256" for v :: int
proof -
  have "v mod 65536 = 256 * (v div 256 mod 256) + v mod 256" using zmod_zmult2_eq [of 256 v 256] by simp
  then show ?thesis by simp
qed

lemma repeated_byte:
  assumes "length bs = 4" "le_val bs AND 0xFFFF = drop_bit 16 (le_val bs)" "le_val bs AND 0xFF = drop_bit 24 (le_val bs)"
  shows "\<exists>b. bs = replicate 4 b"
proof -
  obtain a b c d where bs: "bs = [a, b, c, d]" using assms(1) by (auto simp: numeral_eq_Suc length_Suc_conv)
  let ?v = "le_val bs"
  have h: "?v mod 65536 = ?v div 65536" "?v mod 256 = ?v div 16777216"
    using assms(2,3) take_bit_eq_mod [of 16 ?v] take_bit_eq_mod [of 8 ?v]
    by (simp_all add: take_bit_eq_mask mask_eq_exp_minus_1 drop_bit_eq_div)
  have at: "?v div 2 ^ (8 * k) mod 256 = uint (bs ! k)" if "k < 4" for k
    using le_val_byte [of k bs] that by (simp add: bs drop_bit_eq_div del: le_val.simps)
  have at: "?v mod 256 = uint a" "?v div 256 mod 256 = uint b" "?v div 65536 mod 256 = uint c" "?v div 16777216 mod 256 = uint d"
    using at [of 0] at [of 1] at [of 2] at [of 3] unfolding bs by (simp_all del: le_val.simps)
  have "?v mod 65536 mod 256 = ?v mod 256" by (rule mod_mod_cancel) simp
  then have "uint a = uint c" using h(1) at(1,3) by simp
  note ac = this
  have "uint d = ?v mod 256 mod 256" unfolding h(2) by (rule at(4) [symmetric])
  then have d: "uint a = uint d" unfolding mod_mod_trivial at(1) by simp
  have "uint b = ?v mod 65536 div 256" unfolding at(2) [symmetric] by (rule second_byte [symmetric])
  also have "\<dots> = ?v div 16777216" unfolding h(1) using zdiv_zmult2_eq [of 256 ?v 65536] by simp
  also have "\<dots> = uint a" unfolding h(2) [symmetric] by (rule at(1))
  finally have "uint b = uint d" unfolding d .
  then have "a = c" "b = d" "a = d" using ac d by (auto simp: word_uint_eq_iff)
  then show ?thesis by (auto simp: bs replicate_four)
qed

text \<open>After the test, \<open>rep_confirmed\<close> means that \<open>ip\<close> starts a run of one byte of the recorded length.\<close>

lemma detect_repeat_ok:
  assumes ok: "search_ok m c a low iend" and inv: "search_inv m c a low l0 w"
    and pat: "LZ4_read32 LZ4_isLittleEndian m (w_ip a) = Some pattern"
  shows "\<exists>w'. detect_repeat m a pattern w = Some w' \<and> search_inv m c a low l0 w' \<and> w_nbAttempts w' = w_nbAttempts w \<and>
     w_matchIndex w' = w_matchIndex w \<and> w_matchChainPos w' = w_matchChainPos w"
proof (cases "w_repeat w = rep_untested")
  case False
  then show ?thesis using inv by (simp add: detect_repeat_def)
next
  case True
  note d = search_okD [OF ok]
  let ?bs = "bytes m (w_ip a) (w_ip a + 4)"
  have pv: "pattern = le_val ?bs" using read32_in [OF d(2), of "w_ip a"] pat d by simp
  show ?thesis
  proof (cases "pattern AND 0xFFFF = drop_bit 16 pattern \<and> pattern AND 0xFF = drop_bit 24 pattern")
    case False
    then have "detect_repeat m a pattern w = Some (w\<lparr>w_repeat := rep_not\<rparr>)" using True by (auto simp: detect_repeat_def)
    then show ?thesis using inv by (simp add: search_inv_def hc_found_def)
  next
    case rep: True
    then obtain b where b: "?bs = replicate 4 b" using repeated_byte [of ?bs] pv by auto
    have "mapped m (w_ip a + 4) (w_iHighLimit a)" using d by (intro mapped_sub [OF d(2)]) auto
    then have "LZ4HC_countPattern m (w_ip a + 4) (w_iHighLimit a) pattern = Some (run_at m b (w_ip a + 4) (w_iHighLimit a))"
      using d unfolding pv b by (intro LZ4HC_countPattern_run) auto
    then have "detect_repeat m a pattern w =
        Some (w\<lparr>w_repeat := rep_confirmed, w_srcPatternLength := run_at m b (w_ip a + 4) (w_iHighLimit a) + 4\<rparr>)"
      using True rep by (simp add: detect_repeat_def)
    then show ?thesis using inv b by (auto simp: search_inv_def hc_found_def)
  qed
qed

text \<open>A run through the candidate, from \<open>bl\<close> bytes before it to \<open>fl\<close> bytes behind its start.\<close>

lemma pattern_lengths:
  assumes ok: "search_ok m c a low iend" and i: "hw_lowest c a \<le> i" "i < hc_index c (w_ip a)"
    and b: "bytes m (low + (i - h_dictLimit c)) (low + (i - h_dictLimit c) + 4) = replicate 4 b"
  defines "mp \<equiv> low + (i - h_dictLimit c)"
  shows "\<exists>fl bl. pattern_forward m c a (le_val (replicate 4 b)) False mp = Some fl \<and>
     pattern_backward m c a (le_val (replicate 4 b)) False mp i = Some bl \<and>
     4 \<le> fl \<and> fl < 4294967296 \<and> 0 \<le> bl \<and> hw_lowest c a \<le> i - bl \<and>
     (\<forall>k. - bl \<le> k \<and> k < fl \<longrightarrow> m (mp + k) = Some b)"
proof -
  note d = search_okD [OF ok] and mpp = match_position [OF ok i, folded mp_def] and l = lowest_range [OF ok i] and x = index_range [OF ok]
  have m4: "mapped m mp (mp + 4)" "mapped m (mp + 4) (w_iHighLimit a)" "mapped m low mp"
    using d mpp by (auto intro!: mapped_sub [OF d(2)])
  define r where "r = run_at m b (mp + 4) (w_iHighLimit a)"
  define q where "q = run_back m b low mp"
  have fwd: "pattern_forward m c a (le_val (replicate 4 b)) False mp = Some (r + 4)"
    using LZ4HC_countPattern_run [OF m4(2), of b] d mpp by (simp add: pattern_forward_def r_def)
  have rb: "0 \<le> r" "r \<le> w_iHighLimit a - (mp + 4)" using run_at_bounds [of "mp + 4" "w_iHighLimit a" m b] d mpp by (auto simp: r_def)
  have qb: "0 \<le> q" "q \<le> mp - low" using run_back_bounds [of low mp m b] mpp by (auto simp: q_def)
  let ?bl = "i - max (i - q) (hw_lowest c a)"
  have ir: "0 \<le> i - q" "i < 4294967296" using qb l x i d(11) by (auto simp: mp_def)
  have low0: "0 \<le> hw_lowest c a" using d(10,11) x by (simp add: hw_lowest_def)
  have "LZ4HC_reverseCountPattern m mp low (le_val (replicate 4 b)) = Some q"
    unfolding q_def by (rule LZ4HC_reverseCountPattern_run [OF m4(3)]) (use mpp d in auto)
  then have bwd: "pattern_backward m c a (le_val (replicate 4 b)) False mp i = Some ?bl"
    using ir qb low0 i by (simp add: pattern_backward_def d(9,10) u32_id max_def)
  have "m (mp + k) = Some b" if k: "- ?bl \<le> k" "k < r + 4" for k
  proof -
    consider "k < 0" | "0 \<le> k" "k < 4" | "4 \<le> k" by linarith
    then show ?thesis
    proof cases
      case 1
      then show ?thesis using run_back_nth [OF m4(3), of "- k" b] k qb by (simp add: q_def)
    next
      case 2
      then show ?thesis using mapped_Some_bytes [OF m4(1), of "mp + k"] b by (simp add: mp_def)
    next
      case 3
      then show ?thesis using run_at_nth [OF m4(2), of "k - 4" b] k by (simp add: r_def algebra_simps)
    qed
  qed
  then show ?thesis using fwd bwd rb qb d mpp i by (intro exI [of _ "r + 4"] exI [of _ ?bl]) auto
qed

lemma search_inv_longer:
  assumes "search_inv m c a low l0 w" "w_iLowLimit a = w_ip a" "w_sBack w = 0"
    and "w_longest w < len" "4 \<le> len" "w_ip a + len \<le> w_iHighLimit a" "hc_match m low (w_ip a) off len"
  shows "search_inv m c a low l0 (w\<lparr>w_longest := len, w_offset := off\<rparr>)"
  using assms by (auto simp: search_inv_def hc_found_def)

lemma pattern_move_ok:
  assumes ok: "search_ok m c a low iend" and inv: "search_inv m c a low l0 w" and e: "hc_entries n c"
    and i: "hw_lowest c a \<le> i" "i < hc_index c (w_ip a)"
    and len: "4 \<le> fl" "fl < 4294967296" "0 \<le> bl" "hw_lowest c a \<le> i - bl"
    and run: "\<forall>k. - bl \<le> k \<and> k < fl \<longrightarrow> m (low + (i - h_dictLimit c) + k) = Some b"
    and src: "bytes m (w_ip a) (w_ip a + 4) = replicate 4 b" "w_srcPatternLength w = 4 + run_at m b (w_ip a + 4) (w_iHighLimit a)"
  shows "flow_inv m c a low l0 (w_nbAttempts w) j (pattern_move c a i fl bl w)"
proof -
  note d = search_okD [OF ok] and x = index_range [OF ok]
  have l: "h_dictLimit c \<le> i - bl" "65536 \<le> i - bl"
    using lowest_range [OF ok len(4)] i(2) len(3) by simp_all
  define s where "s = w_srcPatternLength w"
  have m4: "mapped m (w_ip a) (w_ip a + 4)" "mapped m (w_ip a + 4) (w_iHighLimit a)" using d by (auto intro!: mapped_sub [OF d(2)])
  have s: "4 \<le> s" "w_ip a + s \<le> w_iHighLimit a" "s \<le> 2113929216"
    using run_at_bounds [of "w_ip a + 4" "w_iHighLimit a" m b] d by (auto simp: s_def src(2))
  have ipb: "m (w_ip a + k) = Some b" if "0 \<le> k" "k < s" for k
  proof (cases "k < 4")
    case True
    then show ?thesis using mapped_Some_bytes [OF m4(1), of "w_ip a + k"] src(1) that(1) by simp
  next
    case False
    then show ?thesis using run_at_nth [OF m4(2), of "k - 4" b] that by (simp add: s_def src(2) algebra_simps)
  qed
  have dl: "h_dictLimit c < hc_index c (w_ip a)" "0 \<le> h_dictLimit c" using l len(3) i d(11) by linarith+
  have u: "u32 s = s" "u32 fl = fl" "u32 bl = bl" "u32 (i - bl) = i - bl"
    using s len l i x d(11) by (auto intro!: u32_id)
  note mv = search_inv_move(2) [OF inv]
  show ?thesis
  proof (cases "bl + fl \<ge> s \<and> fl \<le> s")
    case True
    then have "u32 (i + fl - s) = i + fl - s" "0 \<le> i + fl - s" "i + fl - s < hc_index c (w_ip a)"
      using l i x by (auto intro!: u32_id)
    then show ?thesis using True u dl mv by (simp add: pattern_move_def s_def [symmetric] Let_def flow_inv_def)
  next
    case B: False
    define ni where "ni = i - bl"
    have ni: "0 \<le> ni" "ni < hc_index c (w_ip a)" "hw_lowest c a \<le> ni" "65536 \<le> ni" using l i len by (auto simp: ni_def)
    note mpp = match_position [OF ok ni(3,2)]
    let ?w = "w\<lparr>w_matchIndex := ni\<rparr>"
    have w1: "search_inv m c a low l0 ?w" by (rule mv [OF ni(1,2) order_refl])
    show ?thesis
    proof (cases "LZ4HC_protectDictEnd (h_dictLimit c) ni \<and> hw_lookBack a = 0")
      case False
      then show ?thesis using B u dl mv w1 by (auto simp: pattern_move_def s_def [symmetric] Let_def flow_inv_def ni_def)
    next
      case P: True
      let ?ml = "min (bl + fl) s"
      have ml: "0 \<le> ?ml" "?ml \<le> s" "?ml \<le> bl + fl" "4 \<le> ?ml" using len s by auto
      have sb: "w_sBack w = 0" "0 \<le> w_longest w \<or> w_longest w < 0" using inv P d(15) by (auto simp: search_inv_def hc_found_def)
      have match: "hc_match m low (w_ip a) (hc_index c (w_ip a) - ni) ?ml"
      proof -
        have "m (w_ip a - (hc_index c (w_ip a) - ni) + k) = m (w_ip a + k)" if "0 \<le> k" "k < ?ml" for k
        proof -
          have p: "w_ip a - (hc_index c (w_ip a) - ni) + k = low + (i - h_dictLimit c) + (k - bl)"
            using x(1) by (simp add: ni_def)
          have "- bl \<le> k - bl \<and> k - bl < fl" using that ml(3) by simp
          then have "m (low + (i - h_dictLimit c) + (k - bl)) = Some b" using run by blast
          moreover have "m (w_ip a + k) = Some b" using ipb that ml(2) by simp
          ultimately show ?thesis unfolding p by simp
        qed
        then show ?thesis using mpp ni(2) by (simp add: hc_match_def)
      qed
      define w2 where "w2 = (if u64 (w_longest w) < ?ml
        then ?w\<lparr>w_longest := s32 ?ml, w_offset := s32 (u32 (hw_ipIndex c a - ni))\<rparr> else ?w)"
      have w2: "search_inv m c a low l0 w2" "w_nbAttempts w2 = w_nbAttempts w" "w_matchIndex w2 = ni"
      proof -
        show "w_nbAttempts w2 = w_nbAttempts w" "w_matchIndex w2 = ni" by (simp_all add: w2_def)
        show "search_inv m c a low l0 w2"
        proof (cases "u64 (w_longest w) < ?ml")
          case True
          have "w_longest w < ?ml"
          proof (cases "0 \<le> w_longest w")
            case True
            have "w_longest w \<le> 2113929216" using inv d by (simp add: search_inv_def)
            then have "u64 (w_longest w) = w_longest w" using True by (intro u64_id) auto
            then show ?thesis using \<open>u64 (w_longest w) < ?ml\<close> by simp
          qed (use ml in simp)
          moreover have "s32 ?ml = ?ml" using ml s(3) by (intro s32_id) auto
          moreover have "s32 (u32 (hw_ipIndex c a - ni)) = hc_index c (w_ip a) - ni" using mpp(3,5) d(14) by simp
          moreover have "w_iLowLimit a = w_ip a" using P d(15) by simp
          ultimately show ?thesis
            using True search_inv_longer [OF w1, of ?ml "hc_index c (w_ip a) - ni"] ml s(2) sb(1) match by (simp add: w2_def)
        next
          case False
          then show ?thesis unfolding w2_def using w1 by (simp only: if_False)
        qed
      qed
      have chain: "0 \<le> hc_chain c ni" "hc_chain c ni \<le> 65535" by (rule hc_chain_range [OF e])+
      have un: "u32 (ni - hc_chain c ni) = ni - hc_chain c ni" using chain ni x by (intro u32_id) auto
      have nx: "search_inv m c a low l0 (w2\<lparr>w_matchIndex := ni - hc_chain c ni\<rparr>)"
        using chain ni by (intro search_inv_move(2) [OF w2(1) _ _ order_refl]) auto
      have "pattern_move c a i fl bl w =
          (if u64 (w_longest w) < ?ml \<and> u64 (u64 (w_ip a - h_prefixStart c) + h_dictLimit c - ni) > LZ4_DISTANCE_MAX then Break ?w
           else if hc_chain c ni > ni then Break w2 else Continue (w2\<lparr>w_matchIndex := ni - hc_chain c ni\<rparr>))"
      proof -
        have B': "(s \<le> bl + fl \<and> fl \<le> s) = False" using B by blast
        have P': "LZ4HC_protectDictEnd (h_dictLimit c) ni = True" "hw_lookBack a = 0" using P by simp_all
        show ?thesis
          unfolding pattern_move_def Let_def s_def [symmetric] u ni_def [symmetric] B' if_False P' w2_def
          by (simp add: P' un u(4) [folded ni_def] Let_def del: min_less_iff_conj)
      qed
      then show ?thesis using w1 w2 nx by (auto simp: flow_inv_def)
    qed
  qed
qed

lemma analyse_pattern_ok:
  assumes ok: "search_ok m c a low iend" and inv: "search_inv m c a low l0 w" and e: "hc_entries n c"
    and i: "hw_lowest c a \<le> w_matchIndex w" and pat: "LZ4_read32 LZ4_isLittleEndian m (w_ip a) = Some pattern"
  shows "\<exists>r. analyse_pattern m c a pattern w = Some r \<and> flow_inv m c a low l0 (w_nbAttempts w) (w_matchIndex w) r"
proof (cases "w_patternAnalysis a \<and> hc_chain c (w_matchIndex w) = 1 \<and> w_matchChainPos w = 0")
  case False
  then have "analyse_pattern m c a pattern w = Some (Fall w)" by (auto simp: analyse_pattern_def)
  then show ?thesis using inv by (simp add: flow_inv_def)
next
  case True
  note d = search_okD [OF ok] and x = index_range [OF ok]
  obtain w1 where w1: "detect_repeat m a pattern w = Some w1" "search_inv m c a low l0 w1" "w_nbAttempts w1 = w_nbAttempts w"
    "w_matchIndex w1 = w_matchIndex w" using detect_repeat_ok [OF ok inv pat] by blast
  have fall: "flow_inv m c a low l0 (w_nbAttempts w) (w_matchIndex w) (Fall w1)" using w1 by (simp add: flow_inv_def)
  define ci where "ci = w_matchIndex w - 1"
  have lt: "w_matchIndex w < hc_index c (w_ip a)" using inv by (simp add: search_inv_def)
  have "65536 \<le> w_matchIndex w" using lowest_range(3) [OF ok i lt] .
  then have uci: "u32 (w_matchIndex w - 1) = ci" "ci < hc_index c (w_ip a)" using lt x(3) by (auto simp: ci_def u32_id)
  let ?cond = "w_repeat w1 = rep_confirmed \<and> ci \<ge> hw_lowest c a \<and> LZ4HC_protectDictEnd (h_dictLimit c) ci"
  have T: "(w_patternAnalysis a \<and> hc_chain c (w_matchIndex w) = 1 \<and> w_matchChainPos w = 0) = True" using True by blast
  show ?thesis
  proof (cases ?cond)
    case False
    have F: "?cond = False" using False by blast
    have "analyse_pattern m c a pattern w = Some (Fall w1)"
      unfolding analyse_pattern_def T if_True w1(1) Let_def uci(1) Option.bind.bind_lunit F if_False ..
    then show ?thesis using fall by blast
  next
    case C: True
    then have CT: "?cond = True" by blast
    have ci: "hw_lowest c a \<le> ci" using C by blast
    note mpp = match_position [OF ok ci uci(2)]
    let ?mp = "low + (ci - h_dictLimit c)"
    have X: "(ci < h_dictLimit c) = False" using lowest_range(1) [OF ok ci uci(2)] by simp
    have an: "analyse_pattern m c a pattern w = do {
        y \<leftarrow> LZ4_read32 LZ4_isLittleEndian m ?mp;
        if y = pattern then do {
          fl \<leftarrow> pattern_forward m c a pattern False ?mp;
          bl \<leftarrow> pattern_backward m c a pattern False ?mp ci;
          Some (pattern_move c a ci fl bl w1) } else Some (Fall w1) }"
      unfolding analyse_pattern_def T if_True w1(1) Let_def uci(1) Option.bind.bind_lunit CT X if_False d(9) ..
    have y: "LZ4_read32 LZ4_isLittleEndian m ?mp = Some (le_val (bytes m ?mp (?mp + 4)))"
      by (rule read32_in [OF d(2)]) (use mpp d in auto)
    have pv: "pattern = le_val (bytes m (w_ip a) (w_ip a + 4))" using read32_in [OF d(2), of "w_ip a"] pat d by simp
    obtain b where b: "bytes m (w_ip a) (w_ip a + 4) = replicate 4 b"
        "w_srcPatternLength w1 = 4 + run_at m b (w_ip a + 4) (w_iHighLimit a)"
      using w1(2) C by (auto simp: search_inv_def)
    show ?thesis
    proof (cases "le_val (bytes m ?mp (?mp + 4)) = pattern")
      case False
      then show ?thesis using an y fall by auto
    next
      case eq: True
      then have mb: "bytes m ?mp (?mp + 4) = replicate 4 b"
        using le_val_eq_iff [of "bytes m ?mp (?mp + 4)" "replicate 4 b"] pv b(1) by simp
      from pattern_lengths [OF ok ci uci(2) mb] obtain fl bl where
        f: "pattern_forward m c a pattern False ?mp = Some fl" "pattern_backward m c a pattern False ?mp ci = Some bl"
        "4 \<le> fl" "fl < 4294967296" "0 \<le> bl" "hw_lowest c a \<le> ci - bl" "\<forall>k. - bl \<le> k \<and> k < fl \<longrightarrow> m (?mp + k) = Some b"
        unfolding pv b(1) by blast
      have "analyse_pattern m c a pattern w = Some (pattern_move c a ci fl bl w1)"
        unfolding an y Option.bind.bind_lunit eq f(1,2) by simp
      then show ?thesis
        using pattern_move_ok [OF ok w1(2) e ci uci(2) f(3-7) b] w1(3) by auto
    qed
  qed
qed

section \<open>The search\<close>

lemma follow_chain_ok:
  assumes ok: "search_ok m c a low iend" and inv: "search_inv m c a low l0 w" and e: "hc_entries n c" and i: "hw_lowest c a \<le> w_matchIndex w"
  shows "search_inv m c a low l0 (follow_chain c w)" "w_nbAttempts (follow_chain c w) = w_nbAttempts w"
proof -
  let ?d = "hc_chain c (u32 (w_matchIndex w + w_matchChainPos w))"
  have lt: "w_matchIndex w < hc_index c (w_ip a)" using inv by (simp add: search_inv_def)
  have b: "65536 \<le> w_matchIndex w" using lowest_range(3) [OF ok i lt] .
  note ch = hc_chain_range [OF e, of "u32 (w_matchIndex w + w_matchChainPos w)"]
  have "u32 (w_matchIndex w - ?d) = w_matchIndex w - ?d" using b ch lt index_range(3) [OF ok] by (intro u32_id) linarith+
  then show "search_inv m c a low l0 (follow_chain c w)"
    using search_inv_move(2) [OF inv _ _ order_refl, of "w_matchIndex w - ?d"] b ch lt by (simp add: follow_chain_def)
  show "w_nbAttempts (follow_chain c w) = w_nbAttempts w" by (simp add: follow_chain_def)
qed

lemma wider_loop:
  assumes ok: "search_ok m c a low iend" and e: "hc_entries n c" and l0: "w_ip a - w_iLowLimit a < l0"
    and pat: "LZ4_read32 LZ4_isLittleEndian m (w_ip a) = Some pattern" and inv: "search_inv m c a low l0 w"
  shows "\<exists>w'. cloop (wider_body m c a pattern) w = Some w' \<and> search_inv m c a low l0 w'"
proof (rule cloop_total [where \<mu> = "\<lambda>w. nat (w_nbAttempts w)" and I = "search_inv m c a low l0"])
  show "search_inv m c a low l0 w" by (rule inv)
next
  fix w assume w: "search_inv m c a low l0 w"
  show "(\<exists>w'. wider_body m c a pattern w = Some (Inl w') \<and> search_inv m c a low l0 w' \<and> nat (w_nbAttempts w') < nat (w_nbAttempts w)) \<or>
    (\<exists>w'. wider_body m c a pattern w = Some (Inr w') \<and> search_inv m c a low l0 w')"
  proof (cases "w_matchIndex w \<ge> hw_lowest c a \<and> w_nbAttempts w > 0")
    case False
    have F: "(w_matchIndex w \<ge> hw_lowest c a \<and> w_nbAttempts w > 0) = False" using False by blast
    have "wider_body m c a pattern w = Some (Inr w)" unfolding wider_body_def F if_False ..
    then show ?thesis using w by blast
  next
    case True
    then have T: "(w_matchIndex w \<ge> hw_lowest c a \<and> w_nbAttempts w > 0) = True" "hw_lowest c a \<le> w_matchIndex w" by blast+
    let ?w = "w\<lparr>w_nbAttempts := w_nbAttempts w - 1\<rparr>"
    have w0: "search_inv m c a low l0 ?w" using w by (simp add: search_inv_def)
    obtain ml w1 where t: "test_candidate m c a pattern ?w = Some (ml, w1)" "search_inv m c a low l0 w1"
      "w_nbAttempts w1 = w_nbAttempts w - 1" "w_matchIndex w1 = w_matchIndex w"
      using test_candidate_ok [OF ok w0 l0 _ pat] T(2) by auto
    obtain r where r: "swap_chain c a ml w1 = Some r" "flow_inv m c a low l0 (w_nbAttempts w - 1) (w_matchIndex w) r"
      using swap_chain_ok [OF ok t(2) e] t(3,4) by metis
    have un: "wider_body m c a pattern w = (case r of
           Continue w \<Rightarrow> Some (Inl w)
         | Break w \<Rightarrow> Some (Inr w)
         | Fall w \<Rightarrow> do {
             r \<leftarrow> analyse_pattern m c a pattern w;
             Some (case r of Continue w \<Rightarrow> Inl w | Break w \<Rightarrow> Inr w | Fall w \<Rightarrow> Inl (follow_chain c w)) })"
      unfolding wider_body_def T if_True t(1) Option.bind.bind_lunit prod.case r(1) ..
    show ?thesis
    proof (cases r)
      case (Fall w2)
      then have w2: "search_inv m c a low l0 w2" "w_nbAttempts w2 = w_nbAttempts w - 1" "hw_lowest c a \<le> w_matchIndex w2"
        using r(2) T(2) by (simp_all add: flow_inv_def)
      obtain q where q: "analyse_pattern m c a pattern w2 = Some q" "flow_inv m c a low l0 (w_nbAttempts w - 1) (w_matchIndex w2) q"
        using analyse_pattern_ok [OF ok w2(1) e w2(3) pat] w2(2) by metis
      have "wider_body m c a pattern w = Some (case q of Continue w \<Rightarrow> Inl w | Break w \<Rightarrow> Inr w | Fall w \<Rightarrow> Inl (follow_chain c w))"
        unfolding un Fall hcflow.case q(1) by simp
      then show ?thesis
        using q(2) follow_chain_ok [OF ok _ e] w2(3) True by (cases q) (auto simp: flow_inv_def)
    next
      case (Continue w2)
      then show ?thesis using un r(2) True by (auto simp: flow_inv_def)
    next
      case (Break w2)
      then show ?thesis using un r(2) by (auto simp: flow_inv_def)
    qed
  qed
qed

text \<open>
  \<open>LZ4HC_InsertAndGetWiderMatch\<close>: for a position from which on nothing has been inserted yet, the tables
  grow up to it and the result is nothing longer than \<open>longest\<close>, or a match.
\<close>

lemma InsertAndGetWiderMatch_ok:
  assumes ok: "search_ok m c a low iend" and e: "hc_entries (hc_index c (w_ip a)) c"
    and n: "h_dictLimit c \<le> h_nextToUpdate c" "h_nextToUpdate c \<le> hc_index c (w_ip a)"
    and l0: "w_ip a - w_iLowLimit a < l0" "w_iLowLimit a + l0 \<le> w_iHighLimit a"
  shows "\<exists>md c'. LZ4HC_InsertAndGetWiderMatch m c D a l0 attempts = Some (md, c') \<and> hc_same c c' \<and>
     hc_entries (hc_index c (w_ip a)) c' \<and> h_nextToUpdate c' = hc_index c (w_ip a) \<and>
     hc_found m a low l0 (md_off md) (md_len md) (md_back md)"
proof -
  note d = search_okD [OF ok]
  obtain c1 where c1: "LZ4HC_Insert m c (w_ip a) = Some c1" "hc_same c c1" "hc_entries (hc_index c (w_ip a)) c1"
    "h_nextToUpdate c1 = hc_index c (w_ip a)"
    using LZ4HC_Insert_ok [OF d(1) e d(2)] n d by auto
  have ok1: "search_ok m c1 a low iend" using ok hc_sameD(11) [OF c1(2)] by (simp add: search_ok_def)
  have ix: "hc_index c1 (w_ip a) = hc_index c (w_ip a)" by (rule hc_sameD(10) [OF c1(2)])
  have pat: "LZ4_read32 LZ4_isLittleEndian m (w_ip a) = Some (le_val (bytes m (w_ip a) (w_ip a + 4)))"
    by (rule read32_in [OF d(2)]) (use d in auto)
  have "mapped m (w_ip a) (w_ip a + 4)" using d by (intro mapped_sub [OF d(2)]) auto
  then obtain h where h: "LZ4HC_hashPtr m (w_ip a) = Some h" "0 \<le> h" "h < LZ4HC_HASHTABLESIZE" using LZ4HC_hashPtr_ok by blast
  let ?w = "\<lparr>w_matchIndex = h_hashTable c1 h, w_nbAttempts = attempts, w_matchChainPos = 0, w_repeat = rep_untested,
        w_srcPatternLength = 0, w_longest = l0, w_offset = 0, w_sBack = 0\<rparr>"
  have "search_inv m c1 a low l0 ?w" using c1(3) h(2,3) l0(2) ix by (simp add: search_inv_def hc_found_def hc_entries_def)
  from wider_loop [OF ok1 c1(3) l0(1) pat this] obtain w' where
    w': "cloop (wider_body m c1 a (le_val (bytes m (w_ip a) (w_ip a + 4)))) ?w = Some w'" "search_inv m c1 a low l0 w'" by blast
  let ?md = "\<lparr>md_off = w_offset w', md_len = w_longest w', md_back = w_sBack w'\<rparr>"
  have "search_attached m c1 D a w' = Some ?md" using d(8) by (simp add: search_attached_def)
  then have "LZ4HC_InsertAndGetWiderMatch m c D a l0 attempts = Some (?md, c1)"
    unfolding LZ4HC_InsertAndGetWiderMatch_def pat c1(1) h(1) Option.bind.bind_lunit hc_hash_ok [OF h(2,3)] w'(1) by simp
  moreover have "hc_found m a low l0 (md_off ?md) (md_len ?md) (md_back ?md)" using w'(2) by (simp add: search_inv_def)
  ultimately show ?thesis using c1 by blast
qed

end
