(* ===== verification/Lz4_HashFacts.thy ===== *)
theory Lz4_HashFacts
  imports Lz4_HashTable Lz4_Count
begin

unbundle bit_operations_syntax

text \<open>
  The hash table as a finite map: hashes are valid slots, a slot read after a write returns the value
  written, other slots keep theirs. \<open>entries_ok\<close> states a property of every entry, which is how the
  compressor's invariant speaks about the table.
\<close>

section \<open>Slots\<close>

text \<open>The width in bytes of an entry, and how many there are.\<close>

definition slot_width :: "tableType_t \<Rightarrow> nat" where
  "slot_width tt = (case tt of byU16 \<Rightarrow> 2 | byU32 \<Rightarrow> 4 | _ \<Rightarrow> 8)"

definition slots :: "tableType_t \<Rightarrow> int" where
  "slots tt = LZ4_HASHTABLESIZE div int (slot_width tt)"

definition index_table :: "tableType_t \<Rightarrow> bool" where
  "index_table tt \<longleftrightarrow> tt = byU16 \<or> tt = byU32"

definition entry :: "LZ4_stream_t_internal \<Rightarrow> tableType_t \<Rightarrow> int \<Rightarrow> int" where
  "entry s tt h =
     le_val (bytes (s_hashTable s) (int (slot_width tt) * h) (int (slot_width tt) * h + int (slot_width tt)))"

definition entries_ok :: "(int \<Rightarrow> int \<Rightarrow> bool) \<Rightarrow> tableType_t \<Rightarrow> LZ4_stream_t_internal \<Rightarrow> bool" where
  "entries_ok P tt s \<longleftrightarrow> mapped (s_hashTable s) 0 LZ4_HASHTABLESIZE \<and>
     (\<forall>h. 0 \<le> h \<and> h < slots tt \<longrightarrow> P h (entry s tt h))"

lemma native_LE [simp]: "native LZ4_isLittleEndian bs = bs"
  by (simp add: native_def LZ4_isLittleEndian_def)

lemma le_val_le_bytes: "le_val (le_bytes w v) = v mod 256 ^ w"
proof (induction w arbitrary: v)
  case 0
  then show ?case by simp
next
  case (Suc w)
  show ?case by (simp add: Suc.IH zmod_zmult2_eq)
qed

lemma length_le_bytes [simp]: "length (le_bytes w v) = w"
  by (induction w arbitrary: v) auto

lemma slot_range:
  assumes "index_table tt" "0 \<le> h" "h < slots tt"
  shows "0 \<le> int (slot_width tt) * h" "int (slot_width tt) * h + int (slot_width tt) \<le> LZ4_HASHTABLESIZE"
  using assms by (auto simp: index_table_def slots_def slot_width_def)

lemma tbl_load_ok:
  assumes "S t = Some s" "mapped (s_hashTable s) 0 LZ4_HASHTABLESIZE" "index_table tt" "0 \<le> h" "h < slots tt"
  shows "tbl_load S t (slot_width tt) h = Some (entry s tt h)"
proof -
  have "mapped (s_hashTable s) (int (slot_width tt) * h) (int (slot_width tt) * h + int (slot_width tt))"
    using slot_range [OF assms(3-5)] by (intro mapped_sub [OF assms(2)])
  from loads_Some [OF this] assms(1) show ?thesis
    by (simp add: tbl_load_def entry_def)
qed

lemma tbl_store_ok:
  assumes "S t = Some s" "mapped (s_hashTable s) 0 LZ4_HASHTABLESIZE" "index_table tt" "0 \<le> h" "h < slots tt"
    and v: "0 \<le> v" "v < 256 ^ slot_width tt"
  shows "\<exists>b. tbl_store S t (slot_width tt) h v = Some (S(t \<mapsto> s\<lparr>s_hashTable := b\<rparr>)) \<and>
     mapped b 0 LZ4_HASHTABLESIZE \<and>
     (\<forall>h'. 0 \<le> h' \<and> h' < slots tt \<longrightarrow>
        entry (s\<lparr>s_hashTable := b\<rparr>) tt h' = (if h' = h then v else entry s tt h'))"
proof -
  let ?w = "int (slot_width tt)" let ?lo = "?w * h" let ?t = "s_hashTable s"
  have w: "0 < ?w" using assms(3) by (auto simp: index_table_def slot_width_def)
  have mp: "mapped ?t ?lo (?lo + int (length (le_bytes (slot_width tt) v)))"
    using slot_range [OF assms(3-5)] by (intro mapped_sub [OF assms(2)]) auto
  define b where "b = (\<lambda>x. if ?lo \<le> x \<and> x < ?lo + ?w then Some (le_bytes (slot_width tt) v ! nat (x - ?lo)) else ?t x)"
  have st: "stores ?t ?lo (le_bytes (slot_width tt) v) = Some b"
    using stores_Some [OF mp] by (simp add: b_def)
  have "mapped b 0 LZ4_HASHTABLESIZE"
    using assms(2) by (auto simp: mapped_def b_def)
  moreover have "entry (s\<lparr>s_hashTable := b\<rparr>) tt h = v"
  proof -
    have "bytes b ?lo (?lo + ?w) = le_bytes (slot_width tt) v"
      by (rule nth_equalityI) (auto simp: nth_bytes b_def)
    then show ?thesis using v by (simp add: entry_def le_val_le_bytes)
  qed
  moreover have "entry (s\<lparr>s_hashTable := b\<rparr>) tt h' = entry s tt h'" if "h' \<noteq> h" for h'
  proof -
    have "h' + 1 \<le> h \<or> h + 1 \<le> h'" using that by linarith
    then have "?w * (h' + 1) \<le> ?lo \<or> ?w * (h + 1) \<le> ?w * h'"
      using w by (auto intro: mult_left_mono)
    then have "bytes b (?w * h') (?w * h' + ?w) = bytes ?t (?w * h') (?w * h' + ?w)"
      by (intro bytes_cong) (auto simp: b_def algebra_simps)
    then show ?thesis by (simp add: entry_def)
  qed
  ultimately show ?thesis
    using st assms(1) by (auto simp: tbl_store_def)
qed

section \<open>Operations on indexes\<close>

lemma getIndex_eq: "index_table tt \<Longrightarrow> LZ4_getIndexOnHash S h t tt = tbl_load S t (slot_width tt) h"
  by (auto simp: LZ4_getIndexOnHash_def index_table_def slot_width_def)

lemma putIndex_eq:
  "index_table tt \<Longrightarrow> 0 \<le> v \<Longrightarrow> v < 256 ^ slot_width tt \<Longrightarrow>
   LZ4_putIndexOnHash S v h t tt = tbl_store S t (slot_width tt) h v"
  by (auto simp: LZ4_putIndexOnHash_def index_table_def slot_width_def u16_id)

lemma clearHash_eq: "index_table tt \<Longrightarrow> LZ4_clearHash S h t tt = tbl_store S t (slot_width tt) h 0"
  by (auto simp: LZ4_clearHash_def index_table_def slot_width_def)

lemma getIndex_ok:
  assumes "S t = Some s" "entries_ok P tt s" "index_table tt" "0 \<le> h" "h < slots tt"
  shows "\<exists>i. LZ4_getIndexOnHash S h t tt = Some i \<and> P h i \<and> 0 \<le> i"
  using assms tbl_load_ok [of S t s tt h] by (auto simp: getIndex_eq entries_ok_def entry_def)

lemma tbl_store_entries:
  assumes "S t = Some s" "entries_ok P tt s" "index_table tt" "0 \<le> h" "h < slots tt"
    and "0 \<le> v" "v < 256 ^ slot_width tt" and Q: "\<And>h' i. h' \<noteq> h \<Longrightarrow> P h' i \<Longrightarrow> Q h' i" "Q h v"
  shows "\<exists>b. tbl_store S t (slot_width tt) h v = Some (S(t \<mapsto> s\<lparr>s_hashTable := b\<rparr>)) \<and>
     entries_ok Q tt (s\<lparr>s_hashTable := b\<rparr>)"
proof -
  have "mapped (s_hashTable s) 0 LZ4_HASHTABLESIZE" using assms(2) by (simp add: entries_ok_def)
  from tbl_store_ok [of S t s tt h v, OF assms(1) this assms(3-7)] obtain b where b:
    "tbl_store S t (slot_width tt) h v = Some (S(t \<mapsto> s\<lparr>s_hashTable := b\<rparr>))" "mapped b 0 LZ4_HASHTABLESIZE"
    "\<forall>h'. 0 \<le> h' \<and> h' < slots tt \<longrightarrow> entry (s\<lparr>s_hashTable := b\<rparr>) tt h' = (if h' = h then v else entry s tt h')"
    by blast
  moreover have "entries_ok Q tt (s\<lparr>s_hashTable := b\<rparr>)"
    using b(2,3) assms(2) Q by (auto simp: entries_ok_def)
  ultimately show ?thesis by blast
qed

lemma putIndex_entries:
  assumes "S t = Some s" "entries_ok P tt s" "index_table tt" "0 \<le> h" "h < slots tt"
    and "0 \<le> v" "v < 256 ^ slot_width tt" and "\<And>h' i. h' \<noteq> h \<Longrightarrow> P h' i \<Longrightarrow> Q h' i" "Q h v"
  shows "\<exists>b. LZ4_putIndexOnHash S v h t tt = Some (S(t \<mapsto> s\<lparr>s_hashTable := b\<rparr>)) \<and>
     entries_ok Q tt (s\<lparr>s_hashTable := b\<rparr>)"
  using tbl_store_entries [of S t s P tt h v Q] assms putIndex_eq [OF assms(3,6,7)] by simp

lemma clearHash_entries:
  assumes "S t = Some s" "entries_ok P tt s" "index_table tt" "0 \<le> h" "h < slots tt"
    and "\<And>h' i. h' \<noteq> h \<Longrightarrow> P h' i \<Longrightarrow> Q h' i" "Q h 0"
  shows "\<exists>b. LZ4_clearHash S h t tt = Some (S(t \<mapsto> s\<lparr>s_hashTable := b\<rparr>)) \<and>
     entries_ok Q tt (s\<lparr>s_hashTable := b\<rparr>)"
  using tbl_store_entries [of S t s P tt h 0 Q] assms clearHash_eq [OF assms(3)] by simp

lemma entries_ok_mono: "entries_ok P tt s \<Longrightarrow> (\<And>h i. P h i \<Longrightarrow> Q h i) \<Longrightarrow> entries_ok Q tt s"
  by (auto simp: entries_ok_def)

lemma entries_ok_table: "s_hashTable s' = s_hashTable s \<Longrightarrow> entries_ok P tt s' = entries_ok P tt s"
  by (simp add: entries_ok_def entry_def)

lemma entries_ok_zero:
  assumes "index_table tt" "\<And>h. P h 0"
  shows "entries_ok P tt (s\<lparr>s_hashTable := zero_table\<rparr>)"
proof -
  have "entry (s\<lparr>s_hashTable := zero_table\<rparr>) tt h = 0" if "0 \<le> h" "h < slots tt" for h
    using slot_range [OF assms(1) that]
    by (auto simp: entry_def le_val_zero_iff in_set_conv_nth nth_bytes zero_table_def)
  then show ?thesis
    using assms(2) by (auto simp: entries_ok_def mapped_def zero_table_def)
qed

section \<open>Hashes are slots\<close>

lemma LZ4_hash4_range: "0 \<le> LZ4_hash4 v byU16" "LZ4_hash4 v byU16 < slots byU16"
  using u32_range [of "v * 2654435761"] div_range [of "u32 (v * 2654435761)" 8192 524288]
  by (simp_all add: LZ4_hash4_def drop_bit_eq_div slots_def slot_width_def)

lemma LZ4_hash5_range: "0 \<le> LZ4_hash5 v byU32" "LZ4_hash5 v byU32 < slots byU32"
proof -
  have r: "0 \<le> drop_bit 52 (u64 x)" "drop_bit 52 (u64 x) < 4096" for x
    using u64_range [of x] div_range [of "u64 x" 4096 4503599627370496] by (simp_all add: drop_bit_eq_div)
  have "u32 (drop_bit 52 (u64 x)) = drop_bit 52 (u64 x)" for x
    using r [of x] by (intro u32_id) linarith+
  with r show "0 \<le> LZ4_hash5 v byU32" "LZ4_hash5 v byU32 < slots byU32"
    by (auto simp: LZ4_hash5_def LZ4_isLittleEndian_def slots_def slot_width_def)
qed

lemma hashPosition_ok:
  assumes "mapped m p (p + 8)" "index_table tt"
  shows "\<exists>h. LZ4_hashPosition m p tt = Some h \<and> 0 \<le> h \<and> h < slots tt"
proof -
  have "mapped m p (p + 4)" using mapped_sub [OF assms(1), of p "p + 4"] by simp
  then show ?thesis
    using assms read_le(2,3) [of m p] LZ4_hash4_range LZ4_hash5_range
    by (auto simp: LZ4_hashPosition_def index_table_def sizeof_ptr_def LZ4_isLittleEndian_def)
qed

text \<open>A hash only depends on the bytes it reads.\<close>

lemma loads_cong: "(\<And>i. i < n \<Longrightarrow> m' (a + int i) = m (a + int i)) \<Longrightarrow> loads m' a n = loads m a n"
proof (induction n arbitrary: a)
  case 0
  then show ?case by simp
next
  case (Suc n)
  have "loads m' (a + 1) n = loads m (a + 1) n"
    using Suc.prems [of "Suc i" for i] by (intro Suc.IH) (simp add: algebra_simps)
  then show ?case using Suc.prems [of 0] by (simp split: option.splits)
qed

lemma hashPosition_cong:
  "(\<And>a. p \<le> a \<Longrightarrow> a < p + 8 \<Longrightarrow> m' a = m a) \<Longrightarrow> LZ4_hashPosition m' p tt = LZ4_hashPosition m p tt"
  using loads_cong [of 8 m' p m] loads_cong [of 4 m' p m]
  by (simp add: LZ4_hashPosition_def LZ4_read32_def LZ4_read_ARCH_def)

end
