(* ===== verification/Lz4_Emit.thy ===== *)
theory Lz4_Emit
  imports Lz4_Compress Lz4_HashFacts
begin

unbundle bit_operations_syntax

text \<open>
  The writes of the compressor append the pieces of a sequence to the output: the literal run's token
  and length bytes, the offset, the match length. Each lemma says that the write has no undefined
  behaviour when the bytes it touches are mapped, which bytes it appends and which it leaves alone.
\<close>

section \<open>Length bytes\<close>

text \<open>How many bytes follow the token for a length \<open>n\<close>.\<close>

definition ext_size :: "int \<Rightarrow> int" where
  "ext_size n = (if n < 15 then 0 else 1 + (n - 15) div 255)"

lemma ext_size_nonneg [simp]: "0 \<le> ext_size n"
  by (simp add: ext_size_def pos_imp_zdiv_nonneg_iff)

lemma ext_len_replicate: "ext_len n = replicate (n div 255) 255 @ [word_of_nat (n mod 255)]"
proof (induction n rule: ext_len.induct)
  case (1 n)
  show ?case
  proof (cases "n < 255")
    case True
    then show ?thesis by (subst ext_len.simps) simp
  next
    case False
    then have "n div 255 = Suc ((n - 255) div 255)" "n mod 255 = (n - 255) mod 255"
      by (simp_all add: le_div_geq le_mod_geq)
    then show ?thesis using 1 False by (subst ext_len.simps) simp
  qed
qed

lemma length_len_ext: "int (length (len_ext n)) = ext_size (int n)"
  by (simp add: len_ext_def ext_len_replicate ext_size_def zdiv_int of_nat_diff)

lemma length_len_ext_nat: "0 \<le> n \<Longrightarrow> int (length (len_ext (nat n))) = ext_size n"
  by (simp add: length_len_ext)

section \<open>Appending\<close>

lemma store8_append:
  assumes "mapped m op (op + 1)"
  shows "\<exists>m'. store8 m op v = Some m' \<and> frame m m' op (op + 1) \<and> bytes m' op (op + 1) = [word_of_int v]"
proof -
  obtain b where b: "m op = Some b" using mappedD [OF assms, of op] by auto
  show ?thesis
    using store8_Some [of m op b v] b by (auto simp: bytes_def intro!: frame_upd)
qed

lemma bytes_split: "lo \<le> mid \<Longrightarrow> mid \<le> hi \<Longrightarrow> bytes m lo mid = xs \<Longrightarrow> bytes m mid hi = ys \<Longrightarrow> bytes m lo hi = xs @ ys"
  using bytes_append by blast

text \<open>What a later write does not touch stays.\<close>

lemma append_after:
  assumes "bytes m lo mid = xs" "frame m m' mid w" "bytes m' mid hi = ys" "lo \<le> mid" "mid \<le> hi"
  shows "bytes m' lo hi = xs @ ys"
  using assms bytes_frame [of m m' mid w mid lo] by (intro bytes_split) auto

lemma put_len_ok:
  assumes "0 \<le> len" "mapped m op (op + (1 + len div 255))"
  shows "\<exists>m'. cloop put_len_body (op, len, m) = Some (op + (1 + len div 255), m') \<and>
           frame m m' op (op + (1 + len div 255)) \<and> bytes m' op (op + (1 + len div 255)) = ext_len (nat len)"
  using assms
proof (induction "nat len" arbitrary: len op m rule: less_induct)
  case (less len op m)
  show ?case
  proof (cases "len \<ge> 255")
    case True
    have d: "len div 255 = 1 + (len - 255) div 255" using True by linarith
    have q: "0 \<le> (len - 255) div 255" using True by (simp add: pos_imp_zdiv_nonneg_iff)
    have "mapped m op (op + 1)" using d q by (intro mapped_sub [OF less.prems(2)]) linarith+
    then obtain m1 where m1: "store8 m op 255 = Some m1" "frame m m1 op (op + 1)" "bytes m1 op (op + 1) = [255]"
      using store8_append [of m op 255] by auto
    have "mapped m1 (op + 1) (op + 1 + (1 + (len - 255) div 255))"
      unfolding frame_mapped [OF m1(2)] using d by (intro mapped_sub [OF less.prems(2)]) linarith+
    with less.hyps [of "len - 255" m1 "op + 1"] True obtain m2 where m2:
      "cloop put_len_body (op + 1, len - 255, m1) = Some (op + 1 + (1 + (len - 255) div 255), m2)"
      "frame m1 m2 (op + 1) (op + 1 + (1 + (len - 255) div 255))"
      "bytes m2 (op + 1) (op + 1 + (1 + (len - 255) div 255)) = ext_len (nat (len - 255))" by auto
    let ?e = "op + 1 + (1 + (len - 255) div 255)"
    have e: "?e = op + (1 + len div 255)" using d by simp
    have "frame m m2 op ?e"
      using frame_trans [OF frame_widen [OF m1(2), of op ?e] frame_widen [OF m2(2), of op ?e]] q by simp
    moreover have "bytes m2 op ?e = [255] @ ext_len (nat (len - 255))"
      using append_after [OF m1(3) m2(2) m2(3)] q by simp
    moreover have "ext_len (nat len) = 255 # ext_len (nat len - 255)"
      using True by (subst ext_len.simps) simp
    moreover have "nat (len - 255) = nat len - 255" using True by (simp add: nat_diff_distrib)
    moreover have "cloop put_len_body (op, len, m) = cloop put_len_body (op + 1, len - 255, m1)"
      using m1(1) True by (intro cloop_Inl) simp
    ultimately show ?thesis using m2(1) e by auto
  next
    case False
    then have d: "len div 255 = 0" using less.prems(1) by simp
    then have "mapped m op (op + 1)" using less.prems(2) by simp
    then obtain m1 where m1: "store8 m op len = Some m1" "frame m m1 op (op + 1)" "bytes m1 op (op + 1) = [word_of_int len]"
      using store8_append [of m op len] by auto
    have "cloop put_len_body (op, len, m) = Some (op + 1, m1)"
      using m1(1) False by (intro cloop_Inr) simp
    moreover have "ext_len (nat len) = [word_of_int len]"
      using False less.prems(1) by (subst ext_len.simps) simp
    ultimately show ?thesis using m1 d by simp
  qed
qed

lemma token_run: "0 \<le> run \<Longrightarrow> run < 15 \<Longrightarrow> word_of_int (push_bit 4 run) = token_byte (nat run) 0"
  by (simp add: token_byte_def push_bit_eq_mult min_def nat_less_iff nat_le_iff ac_simps)

lemma put_run_length_ok:
  assumes "0 \<le> run" "mapped m op (op + (1 + ext_size run))"
  shows "\<exists>m'. put_run_length m op (op + 1) run = Some (op + (1 + ext_size run), m') \<and>
           frame m m' op (op + (1 + ext_size run)) \<and>
           bytes m' op (op + (1 + ext_size run)) = token_byte (nat run) 0 # len_ext (nat run)"
proof (cases "run \<ge> 15")
  case True
  have es: "ext_size run = 1 + (run - 15) div 255" using True by (simp add: ext_size_def)
  have q: "0 \<le> (run - 15) div 255" using True by (simp add: pos_imp_zdiv_nonneg_iff)
  have "mapped m op (op + 1)" using es q by (intro mapped_sub [OF assms(2)]) linarith+
  then obtain m1 where m1: "store8 m op 240 = Some m1" "frame m m1 op (op + 1)" "bytes m1 op (op + 1) = [240]"
    using store8_append [of m op 240] by auto
  have "mapped m1 (op + 1) (op + 1 + (1 + (run - 15) div 255))"
    unfolding frame_mapped [OF m1(2)] using es by (intro mapped_sub [OF assms(2)]) linarith+
  then obtain m2 where m2: "cloop put_len_body (op + 1, run - 15, m1) = Some (op + 1 + (1 + (run - 15) div 255), m2)"
    "frame m1 m2 (op + 1) (op + 1 + (1 + (run - 15) div 255))"
    "bytes m2 (op + 1) (op + 1 + (1 + (run - 15) div 255)) = ext_len (nat (run - 15))"
    using put_len_ok [of "run - 15" m1 "op + 1"] True by auto
  let ?e = "op + 1 + (1 + (run - 15) div 255)"
  have e: "?e = op + (1 + ext_size run)" using es by simp
  have "frame m m2 op ?e"
    using frame_trans [OF frame_widen [OF m1(2), of op ?e] frame_widen [OF m2(2), of op ?e]] q by simp
  moreover have "bytes m2 op ?e = [240] @ ext_len (nat (run - 15))"
    using append_after [OF m1(3) m2(2) m2(3)] q by simp
  moreover have "15 \<le> nat run" "nat (run - 15) = nat run - 15" using True by (simp_all add: nat_diff_distrib)
  then have "len_ext (nat run) = ext_len (nat (run - 15))" "token_byte (nat run) 0 = 240"
    by (simp_all add: len_ext_def token_byte_def min_absorb2)
  moreover have "put_run_length m op (op + 1) run = Some (?e, m2)"
    using m1(1) m2(1) True by (simp add: put_run_length_def push_bit_eq_mult)
  ultimately show ?thesis unfolding e by simp
next
  case False
  then have es: "ext_size run = 0" by (simp add: ext_size_def)
  then obtain m1 where m1: "store8 m op (push_bit 4 run) = Some m1" "frame m m1 op (op + 1)"
      "bytes m1 op (op + 1) = [word_of_int (push_bit 4 run)]"
    using store8_append [of m op "push_bit 4 run"] assms(2) by auto
  have "put_run_length m op (op + 1) run = Some (op + 1, m1)"
    using m1(1) False by (simp add: put_run_length_def)
  moreover have "len_ext (nat run) = []" using False by (simp add: len_ext_def nat_less_iff assms(1))
  ultimately show ?thesis
    using m1 es False assms(1) token_run [of run] by simp
qed

section \<open>Offset\<close>

lemma le_bytes_two: "le_bytes 2 v = [word_of_int v, word_of_int (v div 256)]"
  by (simp add: numeral_2_eq_2)

lemma writeLE16_ok:
  assumes "0 \<le> off" "mapped m op (op + 2)"
  shows "\<exists>m'. LZ4_writeLE16 LZ4_isLittleEndian m op off = Some m' \<and> frame m m' op (op + 2) \<and>
           bytes m' op (op + 2) = le16 (nat off)"
proof -
  have "mapped m op (op + int (length (le_bytes 2 off)))" using assms(2) by simp
  from stores_ok [OF this] obtain m' where
    "stores m op (le_bytes 2 off) = Some m'" "frame m m' op (op + 2)" "bytes m' op (op + 2) = le_bytes 2 off"
    by auto
  moreover have "le_bytes 2 off = le16 (nat off)"
    using assms(1) nat_div_distrib [of off 256] by (simp add: le_bytes_two le16_def flip: of_nat_nat)
  ultimately show ?thesis
    by (simp add: LZ4_writeLE16_def LZ4_write16_def native_def LZ4_isLittleEndian_def)
qed

section \<open>Match length\<close>

lemma le_bytes_four:
  "le_bytes 4 v = [word_of_int v, word_of_int (v div 256), word_of_int (v div 256 div 256), word_of_int (v div 256 div 256 div 256)]"
  by (simp add: numeral_eq_Suc)

lemma le_bytes_ff: "le_bytes 4 0xFFFFFFFF = replicate 4 255"
proof -
  have "replicate 4 (255 :: byte) = [255, 255, 255, 255]" by (simp add: numeral_eq_Suc)
  then show ?thesis by (simp add: le_bytes_four)
qed

lemma write32_ff:
  assumes "mapped m p (p + 4)"
  shows "\<exists>m'. LZ4_write32 LZ4_isLittleEndian m p 0xFFFFFFFF = Some m' \<and> frame m m' p (p + 4) \<and>
           bytes m' p (p + 4) = replicate 4 255"
  using stores_ok [of m p "replicate 4 255"] assms unfolding LZ4_write32_def native_LE le_bytes_ff by simp

text \<open>The loop keeps four bytes of 255 written from \<open>op\<close> on.\<close>

lemma put_match_loop:
  assumes "0 \<le> mc" "mapped m op (op + 4 * (mc div 1020) + 4)" "bytes m op (op + 4) = replicate 4 255"
  shows "\<exists>m'. cloop put_match_body (op, mc, m) = Some (op + 4 * (mc div 1020), mc mod 1020, m') \<and>
     frame m m' op (op + 4 * (mc div 1020) + 4) \<and>
     bytes m' op (op + 4 * (mc div 1020) + 4) = replicate (nat (4 * (mc div 1020) + 4)) 255"
  using assms
proof (induction "nat mc" arbitrary: mc op m rule: less_induct)
  case (less mc op m)
  show ?case
  proof (cases "mc \<ge> 1020")
    case True
    define k where "k = (mc - 1020) div 1020"
    have d: "mc div 1020 = 1 + k" and r: "mc mod 1020 = (mc - 1020) mod 1020"
      using True div_add_self2 [of 1020 "mc - 1020"] mod_add_self2 [of "mc - 1020" 1020] by (simp_all add: k_def)
    have q: "0 \<le> k" using True by (simp add: k_def pos_imp_zdiv_nonneg_iff)
    have "mapped m (op + 4) (op + 4 + 4)" using d q by (intro mapped_sub [OF less.prems(2)]) auto
    then obtain m1 where m1: "LZ4_write32 LZ4_isLittleEndian m (op + 4) 0xFFFFFFFF = Some m1"
      "frame m m1 (op + 4) (op + 4 + 4)" "bytes m1 (op + 4) (op + 4 + 4) = replicate 4 255"
      using write32_ff by blast
    have e: "op + 4 + 4 * k + 4 = op + 4 * (mc div 1020) + 4" using d by simp
    have "mapped m1 (op + 4) (op + 4 + 4 * k + 4)"
      unfolding frame_mapped [OF m1(2)] e by (intro mapped_sub [OF less.prems(2)]) auto
    with less.hyps [of "mc - 1020" m1 "op + 4", folded k_def] True m1(3) obtain m2 where m2:
      "cloop put_match_body (op + 4, mc - 1020, m1) = Some (op + 4 + 4 * k, (mc - 1020) mod 1020, m2)"
      "frame m1 m2 (op + 4) (op + 4 + 4 * k + 4)"
      "bytes m2 (op + 4) (op + 4 + 4 * k + 4) = replicate (nat (4 * k + 4)) 255" by auto
    have fr: "frame m m2 (op + 4) (op + 4 + 4 * k + 4)"
      using frame_trans [OF frame_widen [OF m1(2), of "op + 4" "op + 4 + 4 * k + 4"] m2(2)] q by simp
    have "bytes m2 op (op + 4 + 4 * k + 4) = replicate 4 255 @ replicate (nat (4 * k + 4)) 255"
      using append_after [OF less.prems(3) fr m2(3)] q by simp
    also have "\<dots> = replicate (nat (4 * (mc div 1020) + 4)) 255"
    proof -
      have "nat (4 * (mc div 1020) + 4) = 4 + nat (4 * k + 4)" using d q by simp
      then show ?thesis by (simp only: replicate_add)
    qed
    finally have b: "bytes m2 op (op + 4 * (mc div 1020) + 4) = replicate (nat (4 * (mc div 1020) + 4)) 255"
      unfolding e .
    have "cloop put_match_body (op, mc, m) = cloop put_match_body (op + 4, mc - 1020, m1)"
      using m1(1) True by (intro cloop_Inl) simp
    then have c: "cloop put_match_body (op, mc, m) = Some (op + 4 * (mc div 1020), mc mod 1020, m2)"
      unfolding m2(1) r using d by simp
    have "frame m m2 op (op + 4 * (mc div 1020) + 4)" using frame_widen [OF fr, of op] unfolding e by simp
    with c b show ?thesis by blast
  next
    case False
    then have "cloop put_match_body (op, mc, m) = Some (op, mc, m)" by (intro cloop_Inr) simp
    then show ?thesis using False less.prems by (simp add: frame_refl)
  qed
qed

lemma token_add: "token_byte ll 0 + word_of_nat (min mc 15) = token_byte ll mc"
  by (simp add: token_byte_def)

lemma word_of_int_uint_add: "word_of_int (uint b + x) = (b + word_of_int x :: byte)"
  by simp

text \<open>The token byte is completed and the length bytes appended; three bytes after them are scratch.\<close>

lemma put_match_length_ok:
  assumes mc: "0 \<le> mc" and mp: "mapped m token (op + ext_size mc + 3)" and "token < op"
    and tok: "m token = Some (token_byte ll 0)"
  shows "\<exists>m'. put_match_length m token op mc = Some (op + ext_size mc, m') \<and>
     frame m m' token (op + ext_size mc + 3) \<and>
     bytes m' token (op + ext_size mc) = token_byte ll (nat mc) # bytes m (token + 1) op @ len_ext (nat mc)"
proof -
  define m1 where "m1 = m(token \<mapsto> token_byte ll (nat mc))"
  have st: "store8 m token (uint (token_byte ll 0) + min mc 15) = Some m1"
    using store8_Some [of m token "token_byte ll 0" "uint (token_byte ll 0) + min mc 15"] tok token_add [of ll "nat mc"] mc
    by (simp add: m1_def min_def nat_le_iff split: if_splits)
  have f1: "frame m m1 token (token + 1)" using tok by (auto simp: m1_def intro!: frame_upd)
  have b1: "bytes m1 token op = token_byte ll (nat mc) # bytes m (token + 1) op"
  proof -
    have "bytes m1 token (token + 1) = [token_byte ll (nat mc)]" by (simp add: bytes_def m1_def)
    moreover have "bytes m1 (token + 1) op = bytes m (token + 1) op" using f1 by (rule bytes_frame) simp
    ultimately show ?thesis using bytes_append [of token "token + 1" op m1] \<open>token < op\<close> by simp
  qed
  have mp1: "mapped m1 token (op + ext_size mc + 3)" using mp frame_mapped [OF f1] by simp
  show ?thesis
  proof (cases "mc \<ge> 15")
    case False
    then have "ext_size mc = 0" "len_ext (nat mc) = []" "min mc 15 = mc"
      using mc by (simp_all add: ext_size_def len_ext_def nat_less_iff)
    moreover from False have "put_match_length m token op mc = Some (op, m1)"
      using st tok mc by (simp add: put_match_length_def load8_def)
    ultimately show ?thesis
      using b1 f1 \<open>token < op\<close> by (auto intro: frame_widen)
  next
    case True
    define c where "c = mc - 15"
    have c: "0 \<le> c" using True by (simp add: c_def)
    have es: "ext_size mc = 1 + c div 255" using True by (simp add: ext_size_def c_def)
    define k where "k = c div 1020"
    define r where "r = c mod 1020"
    have k: "0 \<le> k" "0 \<le> r" "r < 1020" using c by (simp_all add: k_def r_def pos_imp_zdiv_nonneg_iff)
    have cd: "c div 255 = 4 * k + r div 255" "c mod 255 = r mod 255"
    proof -
      have c: "c = r + 255 * (4 * k)" by (simp add: k_def r_def)
      show "c div 255 = 4 * k + r div 255" unfolding c by (rule div_mult_self2) simp
      show "c mod 255 = r mod 255" unfolding c by (rule mod_mult_self2)
    qed
    have rd: "0 \<le> r div 255" "r div 255 < 4" using k div_range [of r 4 255] by simp_all
    have "mapped m1 op (op + 4)" using es cd rd k \<open>token < op\<close> by (intro mapped_sub [OF mp1]) linarith+
    then obtain m2 where m2: "LZ4_write32 LZ4_isLittleEndian m1 op 0xFFFFFFFF = Some m2"
      "frame m1 m2 op (op + 4)" "bytes m2 op (op + 4) = replicate 4 255"
      using write32_ff by blast
    have "mapped m2 op (op + 4 * k + 4)"
      unfolding frame_mapped [OF m2(2)] using es cd rd k \<open>token < op\<close> by (intro mapped_sub [OF mp1]) linarith+
    then obtain m3 where m3: "cloop put_match_body (op, c, m2) = Some (op + 4 * k, r, m3)"
      "frame m2 m3 op (op + 4 * k + 4)" "bytes m3 op (op + 4 * k + 4) = replicate (nat (4 * k + 4)) 255"
      using put_match_loop [of c m2 op] c m2(3) by (auto simp: k_def r_def)
    let ?e = "op + c div 255"
    have e: "?e = op + 4 * k + r div 255" using cd by simp
    have f13: "frame m1 m3 op (op + 4 * k + 4)"
      using frame_trans [OF frame_widen [OF m2(2), of op "op + 4 * k + 4"] m3(2)] k by simp
    have "mapped m3 ?e (?e + 1)"
      unfolding frame_mapped [OF f13] using es cd rd k \<open>token < op\<close> by (intro mapped_sub [OF mp1]) linarith+
    then obtain m4 where m4: "store8 m3 ?e (r mod 255) = Some m4" "frame m3 m4 ?e (?e + 1)"
      "bytes m4 ?e (?e + 1) = [word_of_int (r mod 255)]"
      using store8_append by blast
    have "put_match_length m token op mc = Some (?e + 1, m4)"
      using st True tok m2(1) m3(1) m4(1)
      by (simp add: put_match_length_def load8_def c_def [symmetric] e cd(1) ac_simps)
    moreover have w: "op + ext_size mc = ?e + 1" using es by simp
    moreover have "bytes m4 op (?e + 1) = len_ext (nat mc)"
    proof -
      have "bytes m3 op ?e = take (nat (c div 255)) (bytes m3 op (op + 4 * k + 4))"
        using bytes_append [of op ?e "op + 4 * k + 4" m3] e rd k cd by simp
      also have "\<dots> = replicate (nat (c div 255)) 255"
        unfolding m3(3) using cd rd k by (simp add: min_def nat_le_eq_zle)
      finally have "bytes m4 op (?e + 1) = replicate (nat (c div 255)) 255 @ [word_of_int (r mod 255)]"
        using append_after [OF _ m4(2) m4(3)] c by (simp add: pos_imp_zdiv_nonneg_iff)
      moreover have "15 \<le> nat mc" "nat c = nat mc - 15" using True by (simp_all add: c_def nat_diff_distrib)
      then have "len_ext (nat mc) = ext_len (nat c)" by (simp add: len_ext_def)
      moreover have "(word_of_int (r mod 255) :: byte) = word_of_nat (nat c mod 255)"
        using c cd(2) nat_mod_distrib [of c 255] by (simp flip: of_nat_nat)
      ultimately show ?thesis
        using c by (simp add: ext_len_replicate nat_div_distrib)
    qed
    moreover have f14: "frame m1 m4 op (?e + 4)"
      using frame_trans [OF frame_widen [OF f13, of op "?e + 4"] frame_widen [OF m4(2), of op "?e + 4"]] e rd k
      by (simp add: add.assoc)
    moreover have "frame m m4 token (op + ext_size mc + 3)"
      using frame_trans [OF frame_widen [OF f1, of token "?e + 4"] frame_widen [OF f14, of token "?e + 4"]]
        \<open>token < op\<close> w c by (simp add: pos_imp_zdiv_nonneg_iff add_increasing2 ac_simps)
    moreover have "bytes m4 token op = token_byte ll (nat mc) # bytes m (token + 1) op"
      using bytes_frame [OF f14, of op token] b1 by simp
    ultimately show ?thesis
      using bytes_append [of token op "?e + 1" m4] \<open>token < op\<close> c by (simp add: pos_imp_zdiv_nonneg_iff add.assoc)
  qed
qed

declare ext_size_nonneg [simp del]

end
