(* ===== verification/Lz4_CompressSpec.thy ===== *)
theory Lz4_CompressSpec
  imports Lz4_Emit
begin

text \<open>
  What the generic compressor maintains, for tables of indexes and wherever the dictionary is: the bytes
  written so far are the encoding of a list of sequences that expands to the input read so far, the output
  keeps enough room, and every entry of the hash table is a position before the current one. One invariant
  serves the three output modes and the four ways of using a dictionary.
\<close>

section \<open>The call\<close>

definition c_low :: "cargs \<Rightarrow> int" where
  "c_low a = c_source a - c_dictSize a"

definition c_hist :: "cargs \<Rightarrow> mem \<Rightarrow> byte list" where
  "c_hist a m0 = bytes m0 (c_low a) (c_source a)"

text \<open>
  With a dictionary elsewhere (\<open>usingExtDict\<close> and \<open>usingDictCtx\<close>) the indexes address one range all the
  same: the dictionary, then the source. A segment is a piece of that range that lies in one piece of
  memory, at the distance \<open>d\<close>; \<open>view\<close> is the memory with the dictionary in front of the source.
\<close>

definition view_segment :: "cargs \<Rightarrow> int \<Rightarrow> int \<Rightarrow> int \<Rightarrow> bool" where
  "view_segment a d lo hi \<longleftrightarrow>
     (if c_maybe_extMem a
      then d = 0 \<and> lo = c_source a \<and> hi = c_iend a \<or>
           c_dictSize a \<noteq> 0 \<and> d = c_dictionary a - c_low a \<and> lo = c_low a \<and> hi = c_source a
      else d = 0 \<and> lo = c_low a \<and> hi = c_iend a)"

definition view :: "cargs \<Rightarrow> mem \<Rightarrow> mem" where
  "view a m = (if c_maybe_extMem a then (\<lambda>x. if x < c_source a then m (x + (c_dictionary a - c_low a)) else m x) else m)"

text \<open>
  The buffers are mapped and apart, the destination has \<open>cap\<close> bytes: at least the compress bound when
  the output is not limited, else what the call says. The conditions on \<open>byU16\<close> and on \<open>fillOutput\<close>
  are those under which the entry points choose them.
\<close>

definition comp_ok :: "cargs \<Rightarrow> mem \<Rightarrow> int \<Rightarrow> bool" where
  "comp_ok a m0 cap \<longleftrightarrow>
     index_table (c_tableType a) \<and> (c_dictDirective a = noDict \<or> c_dictDirective a = withPrefix64k) \<and>
     (c_dictDirective a = noDict \<longrightarrow> c_dictSize a = 0) \<and>
     0 < c_inputSize a \<and> c_inputSize a \<le> LZ4_MAX_INPUT_SIZE \<and>
     1 \<le> c_acceleration a \<and> c_acceleration a \<le> LZ4_ACCELERATION_MAX \<and>
     0 \<le> c_startIndex a \<and> c_startIndex a + c_inputSize a < 4294967296 \<and> 0 \<le> c_dictSize a \<and>
     (c_dictIssue a = dictSmall \<longrightarrow> c_dictSize a \<le> c_startIndex a) \<and>
     (c_tableType a = byU16 \<longrightarrow> c_dictSize a = 0 \<and> c_inputSize a < LZ4_64Klimit \<and> c_startIndex a + c_inputSize a < 65548) \<and>
     (c_outputDirective a = fillOutput \<longrightarrow> c_startIndex a = 0) \<and>
     mapped m0 (c_low a) (c_iend a) \<and> mapped m0 (c_dest a) (c_dest a + cap) \<and>
     (c_iend a \<le> c_dest a \<or> c_dest a + cap \<le> c_low a) \<and>
     (if c_outputDirective a = notLimited then c_inputSize a + c_inputSize a div 255 + 16 \<le> cap
      else cap = c_maxOutputSize a \<and> cap < 2147483648)"

lemma comp_okD:
  assumes "comp_ok a m0 cap"
  shows "index_table (c_tableType a)" "c_dictDirective a = noDict \<or> c_dictDirective a = withPrefix64k"
    "c_dictDirective a = noDict \<Longrightarrow> c_dictSize a = 0" "0 < c_inputSize a" "c_inputSize a \<le> 2113929216"
    "1 \<le> c_acceleration a" "c_acceleration a \<le> 65537" "0 \<le> c_startIndex a"
    "c_startIndex a + c_inputSize a < 4294967296" "0 \<le> c_dictSize a"
    "c_dictIssue a = dictSmall \<Longrightarrow> c_dictSize a \<le> c_startIndex a"
    "c_tableType a = byU16 \<Longrightarrow> c_dictSize a = 0 \<and> c_inputSize a < 65547 \<and> c_startIndex a + c_inputSize a < 65548"
    "c_outputDirective a = fillOutput \<Longrightarrow> c_startIndex a = 0"
    "mapped m0 (c_low a) (c_iend a)" "mapped m0 (c_dest a) (c_dest a + cap)"
    "c_iend a \<le> c_dest a \<or> c_dest a + cap \<le> c_low a"
    "c_outputDirective a = notLimited \<Longrightarrow> c_inputSize a + c_inputSize a div 255 + 16 \<le> cap"
    "c_outputDirective a \<noteq> notLimited \<Longrightarrow> cap = c_maxOutputSize a"
    "\<not> c_maybe_extMem a" "c_outputDirective a \<noteq> notLimited \<Longrightarrow> cap < 2147483648"
  using assms by (auto simp: comp_ok_def c_maybe_extMem_def)

text \<open>
  The same for every way of using a dictionary. An external dictionary is not empty for the stream's
  callers, or its indexes are all below the limit; it must not start where the source starts, since the
  code tells the segments apart by where they start.
\<close>

definition call_ok :: "cargs \<Rightarrow> mem \<Rightarrow> int \<Rightarrow> bool" where
  "call_ok a m0 cap \<longleftrightarrow>
     index_table (c_tableType a) \<and> (c_dictDirective a = noDict \<longrightarrow> c_dictSize a = 0) \<and>
     0 < c_inputSize a \<and> c_inputSize a \<le> LZ4_MAX_INPUT_SIZE \<and>
     1 \<le> c_acceleration a \<and> c_acceleration a \<le> LZ4_ACCELERATION_MAX \<and>
     0 \<le> c_startIndex a \<and> c_startIndex a + c_inputSize a < 4294967296 \<and> 0 \<le> c_dictSize a \<and>
     (c_dictIssue a = dictSmall \<longrightarrow> c_dictSize a \<le> c_startIndex a) \<and>
     (c_tableType a = byU16 \<longrightarrow> c_dictSize a = 0 \<and> c_inputSize a < LZ4_64Klimit \<and> c_startIndex a + c_inputSize a < 65548) \<and>
     (c_outputDirective a = fillOutput \<longrightarrow> c_startIndex a = 0) \<and>
     (c_maybe_extMem a \<longrightarrow> c_tableType a = byU32 \<and> c_dictionary a \<noteq> 0 \<and> c_dictionary a \<noteq> c_source a \<and>
        (c_dictSize a = 0 \<or> 4 \<le> c_dictSize a) \<and> c_dictSize a \<le> c_startIndex a) \<and>
     (c_dictDirective a = usingDictCtx \<longrightarrow> c_dictOffset a \<le> c_startIndex a \<and> c_dictSize a \<le> c_dictOffset a) \<and>
     mapped m0 (c_dest a) (c_dest a + cap) \<and>
     (\<forall>d lo hi. view_segment a d lo hi \<longrightarrow> mapped m0 (lo + d) (hi + d) \<and> (hi + d \<le> c_dest a \<or> c_dest a + cap \<le> lo + d)) \<and>
     (if c_outputDirective a = notLimited then c_inputSize a + c_inputSize a div 255 + 16 \<le> cap
      else cap = c_maxOutputSize a \<and> cap < 2147483648)"

lemma comp_call: "comp_ok a m0 cap \<Longrightarrow> call_ok a m0 cap"
proof -
  assume ok: "comp_ok a m0 cap"
  note e = comp_okD(19) [OF ok]
  have d: "c_dictDirective a \<noteq> usingDictCtx" using comp_okD(2) [OF ok] by auto
  have "mapped m0 (lo + d) (hi + d) \<and> (hi + d \<le> c_dest a \<or> c_dest a + cap \<le> lo + d)" if "view_segment a d lo hi" for d lo hi
    using that comp_okD(14,16) [OF ok] unfolding view_segment_def if_not_P [OF e] by simp
  then show "call_ok a m0 cap" using ok e d unfolding comp_ok_def call_ok_def by blast
qed

lemma call_okD:
  assumes "call_ok a m0 cap"
  shows "index_table (c_tableType a)" "c_dictDirective a = noDict \<Longrightarrow> c_dictSize a = 0"
    "0 < c_inputSize a" "c_inputSize a \<le> 2113929216"
    "1 \<le> c_acceleration a" "c_acceleration a \<le> 65537" "0 \<le> c_startIndex a"
    "c_startIndex a + c_inputSize a < 4294967296" "0 \<le> c_dictSize a"
    "c_dictIssue a = dictSmall \<Longrightarrow> c_dictSize a \<le> c_startIndex a"
    "c_tableType a = byU16 \<Longrightarrow> c_dictSize a = 0 \<and> c_inputSize a < 65547 \<and> c_startIndex a + c_inputSize a < 65548"
    "c_outputDirective a = fillOutput \<Longrightarrow> c_startIndex a = 0"
    "mapped m0 (c_dest a) (c_dest a + cap)"
    "c_outputDirective a = notLimited \<Longrightarrow> c_inputSize a + c_inputSize a div 255 + 16 \<le> cap"
    "c_outputDirective a \<noteq> notLimited \<Longrightarrow> cap = c_maxOutputSize a"
    "c_outputDirective a \<noteq> notLimited \<Longrightarrow> cap < 2147483648"
  using assms by (simp_all add: call_ok_def)

text \<open>What the calls with a dictionary elsewhere add.\<close>

lemma call_ok_ext:
  assumes "call_ok a m0 cap" "c_maybe_extMem a"
  shows "c_tableType a = byU32" "c_dictionary a \<noteq> 0" "c_dictionary a \<noteq> c_source a" "c_dictSize a = 0 \<or> 4 \<le> c_dictSize a"
    "c_dictSize a \<le> c_startIndex a" "c_dictEnd a = c_dictionary a + c_dictSize a"
  using assms by (auto simp: call_ok_def c_dictEnd_def)

lemma call_ok_attached:
  assumes "call_ok a m0 cap" "c_dictDirective a = usingDictCtx"
  shows "c_dictOffset a \<le> c_startIndex a" "c_dictSize a \<le> c_dictOffset a"
  using assms by (simp_all add: call_ok_def)

lemmas c_limits = c_low_def c_iend_def c_mflimitPlusOne_def c_matchlimit_def c_olimit_def c_base_def

section \<open>The table\<close>

text \<open>
  An entry is a position before \<open>cur\<close>; it is inside the history, or one of the tests rejects it, or it
  stands for an entry of the attached dictionary. With a history, four bytes can be read at an entry
  without leaving the dictionary, nor the input. When the output is to be filled, entries are removed
  again, so it must be known which slot they are in.
\<close>

definition idx_ok :: "cargs \<Rightarrow> mem \<Rightarrow> int \<Rightarrow> int \<Rightarrow> int \<Rightarrow> bool" where
  "idx_ok a m0 cur h i \<longleftrightarrow> 0 \<le> i \<and> i < cur \<and>
     (i < c_startIndex a \<and> c_dictDirective a \<noteq> usingDictCtx \<longrightarrow>
        c_startIndex a - c_dictSize a \<le> i \<or> c_dictIssue a = dictSmall \<or>
        c_tableType a = byU32 \<and> i + LZ4_DISTANCE_MAX < c_startIndex a) \<and>
     (c_dictDirective a \<noteq> noDict \<and> i \<noteq> 0 \<longrightarrow> i + 4 \<le> (if i < c_startIndex a then c_startIndex a else c_iend a - c_base a)) \<and>
     (c_outputDirective a = fillOutput \<and> i \<noteq> 0 \<longrightarrow> LZ4_hashPosition m0 (c_base a + i) (c_tableType a) = Some h)"

text \<open>The table of the attached dictionary: entries inside it, or too far away.\<close>

definition dict_entry :: "cargs \<Rightarrow> int \<Rightarrow> bool" where
  "dict_entry a i \<longleftrightarrow> 0 \<le> i \<and>
     (c_dictOffset a - c_dictSize a \<le> i \<and> i + 4 \<le> c_dictOffset a \<or> i + LZ4_DISTANCE_MAX < c_dictOffset a)"

definition dict_table :: "cargs \<Rightarrow> streams \<Rightarrow> bool" where
  "dict_table a S \<longleftrightarrow> (c_dictDirective a = usingDictCtx \<longrightarrow>
     c_dictCtx a \<noteq> c_cctx a \<and> (\<exists>d. S (c_dictCtx a) = Some d \<and> entries_ok (\<lambda>h. dict_entry a) byU32 d))"

definition table_inv :: "cargs \<Rightarrow> mem \<Rightarrow> streams \<Rightarrow> int \<Rightarrow> streams \<Rightarrow> bool" where
  "table_inv a m0 S1 cur S \<longleftrightarrow> dict_table a S1 \<and>
     (\<exists>s b. S1 (c_cctx a) = Some s \<and> S = S1(c_cctx a \<mapsto> s\<lparr>s_hashTable := b\<rparr>) \<and>
       entries_ok (idx_ok a m0 cur) (c_tableType a) (s\<lparr>s_hashTable := b\<rparr>))"

lemma idx_ok_mono: "idx_ok a m0 cur h i \<Longrightarrow> cur \<le> cur' \<Longrightarrow> idx_ok a m0 cur' h i"
  by (auto simp: idx_ok_def)

lemma table_inv_mono:
  assumes "table_inv a m0 S1 cur S" "cur \<le> cur'"
  shows "table_inv a m0 S1 cur' S"
proof -
  obtain s b where s: "S1 (c_cctx a) = Some s" "S = S1(c_cctx a \<mapsto> s\<lparr>s_hashTable := b\<rparr>)"
    "entries_ok (idx_ok a m0 cur) (c_tableType a) (s\<lparr>s_hashTable := b\<rparr>)"
    using assms(1) unfolding table_inv_def by blast
  have "entries_ok (idx_ok a m0 cur') (c_tableType a) (s\<lparr>s_hashTable := b\<rparr>)"
    by (rule entries_ok_mono [OF s(3)]) (rule idx_ok_mono [OF _ assms(2)])
  with s(1,2) assms(1) show ?thesis unfolding table_inv_def by blast
qed

section \<open>The output\<close>

definition emitted :: "cargs \<Rightarrow> mem \<Rightarrow> lz4_seq list \<Rightarrow> int \<Rightarrow> int \<Rightarrow> mem \<Rightarrow> bool" where
  "emitted a m0 qs op anchor m \<longleftrightarrow>
     c_dest a \<le> op \<and> c_source a \<le> anchor \<and> anchor \<le> c_iend a \<and>
     bytes m (c_dest a) op = concat (map encode_seq qs) \<and>
     seqs_ok (c_hist a m0) qs \<and> foldl expand_seq (c_hist a m0) qs = bytes m0 (c_low a) anchor \<and>
     (qs \<noteq> [] \<longrightarrow> anchor \<le> c_matchlimit a \<and> anchor - int (seq_mlen (last qs)) < c_mflimitPlusOne a)"

text \<open>The room left: the worst expansion, and what the checks of the limited modes guarantee.\<close>

definition room :: "cargs \<Rightarrow> lz4_seq list \<Rightarrow> int \<Rightarrow> int \<Rightarrow> bool" where
  "room a qs op anchor \<longleftrightarrow> 255 * (op - c_dest a) \<le> 256 * (anchor - c_source a) \<and>
     (case c_outputDirective a of
        notLimited \<Rightarrow> True
      | limitedOutput \<Rightarrow> qs \<noteq> [] \<longrightarrow> op + 6 \<le> c_olimit a
      | fillOutput \<Rightarrow> qs \<noteq> [] \<longrightarrow> op + 6 \<le> c_olimit a \<and> 13 \<le> int (seq_mlen (last qs)) + (c_olimit a - op))"

definition written :: "cargs \<Rightarrow> mem \<Rightarrow> int \<Rightarrow> lz4_seq list \<Rightarrow> int \<Rightarrow> int \<Rightarrow> mem \<Rightarrow> bool" where
  "written a m0 cap qs op anchor m \<longleftrightarrow>
     frame m0 m (c_dest a) (c_dest a + cap) \<and> emitted a (view a m0) qs op anchor m \<and> room a qs op anchor"

text \<open>The bytes of the segments stay as they were.\<close>

lemma prefix_view: "\<not> c_maybe_extMem a \<Longrightarrow> view a m = m"
  by (simp add: view_def)

lemma comp_view: "comp_ok a m0 cap \<Longrightarrow> view a m0 = m0"
  by (rule prefix_view) (rule comp_okD(19))

lemma view_source: "c_source a \<le> x \<Longrightarrow> view a m x = m x"
  by (simp add: view_def)

lemma view_bytes: "c_source a \<le> x \<Longrightarrow> bytes (view a m) x y = bytes m x y"
  by (intro bytes_cong) (simp add: view_source)

lemma segment_range:
  assumes "call_ok a m0 cap" "view_segment a d lo hi"
  shows "c_low a \<le> lo" "lo \<le> hi" "hi \<le> c_iend a" "c_low a \<le> c_source a"
proof -
  have r: "c_low a \<le> c_source a" "c_source a \<le> c_iend a"
    using call_okD(3,9) [OF assms(1)] by (simp_all add: c_low_def c_iend_def)
  then show "c_low a \<le> lo" "lo \<le> hi" "hi \<le> c_iend a" "c_low a \<le> c_source a"
    using assms(2) unfolding view_segment_def by (cases "c_maybe_extMem a"; auto)+
qed

lemma segment_memory:
  assumes "call_ok a m0 cap" "view_segment a d lo hi" "frame m0 m (c_dest a) (c_dest a + cap)" "lo \<le> x" "x < hi"
  shows "m (x + d) = view a m0 x" "\<exists>b. view a m0 x = Some b"
proof -
  have s: "mapped m0 (lo + d) (hi + d)" "hi + d \<le> c_dest a \<or> c_dest a + cap \<le> lo + d"
    using assms(1,2) unfolding call_ok_def by blast+
  have v: "view a m0 x = m0 (x + d)" using assms(2,4,5) by (auto simp: view_segment_def view_def split: if_splits)
  show "m (x + d) = view a m0 x" using frame_at [OF assms(3), of "x + d"] s(2) assms(4,5) v by auto
  show "\<exists>b. view a m0 x = Some b" using mappedD [OF s(1), of "x + d"] assms(4,5) v by auto
qed

lemma segment_mapped:
  assumes "call_ok a m0 cap" "view_segment a d lo hi" "frame m0 m (c_dest a) (c_dest a + cap)" "lo \<le> x" "y \<le> hi"
  shows "mapped m (x + d) (y + d)"
proof -
  have "mapped m0 (lo + d) (hi + d)" using assms(1,2) unfolding call_ok_def by blast
  then show ?thesis using assms(4,5) unfolding frame_mapped [OF assms(3)] by (auto elim: mapped_sub)
qed

text \<open>The source is in a segment at distance zero, whose start is \<open>source\<close> or the start of the history.\<close>

lemma source_segment:
  assumes "call_ok a m0 cap"
  shows "\<exists>lo. view_segment a 0 lo (c_iend a) \<and> lo \<le> c_source a"
  using call_okD(9) [OF assms]
  by (intro exI [of _ "if c_maybe_extMem a then c_source a else c_low a"]) (simp add: view_segment_def c_low_def)

lemma source_apart:
  assumes "call_ok a m0 cap"
  shows "c_iend a \<le> c_dest a \<or> c_dest a + cap \<le> c_source a"
proof -
  obtain lo where lo: "view_segment a 0 lo (c_iend a)" "lo \<le> c_source a" using source_segment [OF assms] by blast
  have "c_iend a + 0 \<le> c_dest a \<or> c_dest a + cap \<le> lo + 0" using assms lo(1) unfolding call_ok_def by blast
  then show ?thesis using lo(2) by auto
qed

lemma source_at:
  assumes "call_ok a m0 cap" "frame m0 m (c_dest a) (c_dest a + cap)" "c_source a \<le> x" "x < c_iend a"
  shows "m x = m0 x" "\<exists>b. m0 x = Some b"
proof -
  obtain lo where lo: "view_segment a 0 lo (c_iend a)" "lo \<le> c_source a" using source_segment [OF assms(1)] by blast
  show "m x = m0 x" "\<exists>b. m0 x = Some b"
    using segment_memory [OF assms(1) lo(1) assms(2), of x] lo(2) assms(3,4) by (simp_all add: view_source)
qed

lemma source_bytes:
  assumes "call_ok a m0 cap" "frame m0 m (c_dest a) (c_dest a + cap)" "c_source a \<le> x" "y \<le> c_iend a"
  shows "bytes m x y = bytes m0 x y"
  using source_at(1) [OF assms(1,2)] assms(3,4) by (intro bytes_cong) auto

lemma source_mapped:
  assumes "call_ok a m0 cap" "frame m0 m (c_dest a) (c_dest a + cap)" "c_source a \<le> x" "y \<le> c_iend a"
  shows "mapped m x y"
proof -
  obtain lo where lo: "view_segment a 0 lo (c_iend a)" "lo \<le> c_source a" using source_segment [OF assms(1)] by blast
  show ?thesis using segment_mapped [OF assms(1) lo(1) assms(2), of x y] lo(2) assms(3,4) by simp
qed

text \<open>In one piece of memory this holds from the start of the history on.\<close>

lemma prefix_at:
  assumes "comp_ok a m0 cap" "frame m0 m (c_dest a) (c_dest a + cap)" "c_low a \<le> x" "x < c_iend a"
  shows "m x = m0 x"
  using comp_okD(16) [OF assms(1)] frame_at [OF assms(2), of x] assms(3,4) by auto

lemma prefix_mapped:
  assumes "comp_ok a m0 cap" "frame m0 m (c_dest a) (c_dest a + cap)" "c_low a \<le> x" "y \<le> c_iend a"
  shows "mapped m x y"
  using comp_okD(14) [OF assms(1)] assms(3,4) unfolding frame_mapped [OF assms(2)] by (auto elim: mapped_sub)

lemma dest_mapped:
  assumes "call_ok a m0 cap" "frame m0 m (c_dest a) (c_dest a + cap)" "c_dest a \<le> x" "y \<le> c_dest a + cap"
  shows "mapped m x y"
  using call_okD(13) [OF assms(1)] assms(3,4) unfolding frame_mapped [OF assms(2)] by (auto elim: mapped_sub)

lemma dest_frame:
  assumes "frame m0 m (c_dest a) (c_dest a + cap)" "frame m m' x y" "c_dest a \<le> x" "y \<le> c_dest a + cap"
  shows "frame m0 m' (c_dest a) (c_dest a + cap)"
  using frame_trans [OF assms(1) frame_widen [OF assms(2)]] assms(3,4) by simp

section \<open>Sizes\<close>

lemma ext_size_bound: "255 * ext_size n \<le> (if n < 15 then 0 else n + 240)"
  by (auto simp: ext_size_def)

text \<open>A sequence is never more than 256/255 of what it stands for.\<close>

lemma seq_size_bound:
  assumes "0 \<le> ll" "0 \<le> mc"
  shows "255 * (3 + ext_size ll + ll + ext_size mc) \<le> 256 * (ll + mc + 4)"
  using ext_size_bound [of ll] ext_size_bound [of mc] assms by (auto split: if_splits)

lemma capacity_bound:
  assumes "n + n div 255 + 16 \<le> (cap :: int)" "255 * x \<le> 256 * n + 3826"
  shows "x \<le> cap"
proof -
  have "255 * (n div 255) \<ge> n - 254" by linarith
  then show ?thesis using assms by linarith
qed

text \<open>A capacity below the compress bound: the only case in which a limited call may give up.\<close>

definition tight :: "cargs \<Rightarrow> int \<Rightarrow> bool" where
  "tight a cap \<longleftrightarrow> cap < c_inputSize a + c_inputSize a div 255 + 16"

lemma tightI: "255 * x \<le> 256 * c_inputSize a + 3826 \<Longrightarrow> cap < x \<Longrightarrow> tight a cap"
  using capacity_bound [of "c_inputSize a" cap x] unfolding tight_def by linarith

lemma length_encode_seq:
  "4 \<le> ml \<Longrightarrow> int (length (encode_seq (LSeq ls off ml))) =
     3 + ext_size (int (length ls)) + int (length ls) + ext_size (int ml - 4)"
  by (simp add: length_len_ext le16_def of_nat_diff)

section \<open>One more sequence\<close>

lemma seqs_ok_snoc: "seqs_ok h (qs @ [q]) \<longleftrightarrow> seqs_ok h qs \<and> seq_ok (foldl expand_seq h qs) q"
  by (induction qs arbitrary: h) auto

text \<open>The bytes from \<open>ip\<close> on repeat those from \<open>mt\<close> on, \<open>n\<close> of them, and the offset can be encoded.\<close>

definition match_at :: "cargs \<Rightarrow> mem \<Rightarrow> int \<Rightarrow> int \<Rightarrow> int \<Rightarrow> bool" where
  "match_at a m0 ip mt n \<longleftrightarrow> c_low a \<le> mt \<and> mt < ip \<and> ip - mt \<le> 65535 \<and>
     (\<forall>k. 0 \<le> k \<and> k < n \<longrightarrow> m0 (mt + k) = m0 (ip + k))"

lemma match_at_mono: "match_at a m0 ip mt n \<Longrightarrow> n' \<le> n \<Longrightarrow> match_at a m0 ip mt n'"
  by (auto simp: match_at_def)

lemma match_at_back:
  assumes "match_at a m0 ip mt n" "m0 (mt - 1) = m0 (ip - 1)" "c_low a < mt"
  shows "match_at a m0 (ip - 1) (mt - 1) (n + 1)"
proof -
  have "m0 (mt - 1 + k) = m0 (ip - 1 + k)" if "0 \<le> k" "k < n + 1" for k
  proof (cases "k = 0")
    case False
    have "m0 (mt + (k - 1)) = m0 (ip + (k - 1))"
      using assms(1) that False unfolding match_at_def by (metis add_0 diff_add_cancel less_diff_eq zle_diff1_eq zle_add1_eq_le order_le_less diff_less_eq)
    then show ?thesis by (simp add: algebra_simps)
  qed (use assms(2) in simp)
  then show ?thesis using assms unfolding match_at_def by simp
qed

text \<open>A match of the input is the match of the format.\<close>

lemma match_expands:
  assumes "match_at a m0 ip mt n" "0 \<le> n"
  shows "bytes m0 (c_low a) (ip + n) = copy_match (bytes m0 (c_low a) ip) (nat (ip - mt)) (nat n)"
proof -
  have "lz_copied m0 m0 ip mt (ip + n) (ip + n)"
    unfolding lz_copied_def
  proof (intro conjI allI impI frame_refl)
    fix x assume "ip \<le> x \<and> x < ip + n"
    then have "0 \<le> x - ip \<and> x - ip < n" by simp
    then have "m0 (mt + (x - ip)) = m0 (ip + (x - ip))" using assms(1) unfolding match_at_def by blast
    then show "m0 x = m0 (mt + (x - ip))" by simp
  qed
  from lz_copied_history [OF this, of "c_low a"] assms show ?thesis
    by (simp add: match_at_def)
qed

lemma emitted_snoc:
  assumes ok: "call_ok a m0' cap" and e: "emitted a m0 qs token anchor m" and "anchor \<le> ip" "4 \<le> ml"
    and mt: "match_at a m0 ip mt ml" and lim: "ip < c_mflimitPlusOne a" "ip + ml \<le> c_matchlimit a"
    and out: "token \<le> op" "bytes m token op = encode_seq (LSeq (bytes m0 anchor ip) (nat (ip - mt)) (nat ml))"
  shows "emitted a m0 (qs @ [LSeq (bytes m0 anchor ip) (nat (ip - mt)) (nat ml)]) op (ip + ml) m"
proof -
  let ?q = "LSeq (bytes m0 anchor ip) (nat (ip - mt)) (nat ml)" let ?h = "bytes m0 (c_low a) anchor"
  have e': "c_dest a \<le> token" "c_source a \<le> anchor" "bytes m (c_dest a) token = concat (map encode_seq qs)"
    "seqs_ok (c_hist a m0) qs" "foldl expand_seq (c_hist a m0) qs = ?h"
    using e by (simp_all add: emitted_def)
  have low: "c_low a \<le> anchor" using e'(2) call_okD(9) [OF ok] by (simp add: c_low_def)
  have m: "c_low a \<le> mt" "mt < ip" "ip - mt \<le> 65535" using mt by (simp_all add: match_at_def)
  have h: "bytes m0 (c_low a) ip = ?h @ bytes m0 anchor ip"
    using low \<open>anchor \<le> ip\<close> by (rule bytes_append)
  have "seq_ok ?h ?q"
    using m low \<open>4 \<le> ml\<close> \<open>anchor \<le> ip\<close> by (auto simp: nat_le_eq_zle nat_diff_distrib [symmetric] nat_add_distrib [symmetric])
  then have "seqs_ok (c_hist a m0) (qs @ [?q])" using e' by (simp add: seqs_ok_snoc)
  moreover have "foldl expand_seq (c_hist a m0) (qs @ [?q]) = bytes m0 (c_low a) (ip + ml)"
    using match_expands [OF mt] \<open>4 \<le> ml\<close> e'(5) by (simp add: h)
  moreover have "bytes m (c_dest a) op = concat (map encode_seq (qs @ [?q]))"
    using bytes_append [of "c_dest a" token op m] e' out by simp
  ultimately show ?thesis
    using e' out(1) lim \<open>4 \<le> ml\<close> \<open>anchor \<le> ip\<close> by (simp add: emitted_def c_limits)
qed

end
