(* ===== verification/Lz4_CompressFind.thy ===== *)
theory Lz4_CompressFind
  imports Lz4_CompressSpec
begin

unbundle bit_operations_syntax

text \<open>
  Finding a match: the search over the table ends, and what it finds is a match of at least four bytes
  that lies inside one segment and whose distance fits in sixteen bits. Catching up extends it backwards.
  Positions of matches are those of the view, in which the dictionary is in front of the source; the
  code's pointer is at the distance of its segment.
\<close>

section \<open>Reading through the table\<close>

text \<open>The index of a position, and its bounds in the type of an entry.\<close>

lemma position_index:
  assumes ok: "call_ok a m0 cap" and p: "c_source a \<le> p" "p \<le> c_mflimitPlusOne a"
  shows "u32 (p - c_base a) = p - c_base a" "0 \<le> p - c_base a"
    "p < c_mflimitPlusOne a \<Longrightarrow> p - c_base a < 256 ^ slot_width (c_tableType a)"
proof -
  show "0 \<le> p - c_base a" "u32 (p - c_base a) = p - c_base a"
    using p call_okD(7,8) [OF ok] by (auto simp: c_limits intro!: u32_id)
  assume "p < c_mflimitPlusOne a"
  then show "p - c_base a < 256 ^ slot_width (c_tableType a)"
    using call_okD(1,8,11) [OF ok] by (auto simp: c_limits index_table_def slot_width_def)
qed

lemma table_get:
  assumes "call_ok a m0 cap" "table_inv a m0 S1 cur S" "0 \<le> h" "h < slots (c_tableType a)"
  shows "\<exists>i. LZ4_getIndexOnHash S h (c_cctx a) (c_tableType a) = Some i \<and> idx_ok a m0 cur h i"
proof -
  obtain s b where s: "S = S1(c_cctx a \<mapsto> s\<lparr>s_hashTable := b\<rparr>)"
    "entries_ok (idx_ok a m0 cur) (c_tableType a) (s\<lparr>s_hashTable := b\<rparr>)"
    using assms(2) unfolding table_inv_def by blast
  then have "S (c_cctx a) = Some (s\<lparr>s_hashTable := b\<rparr>)" by simp
  from getIndex_ok [of S "c_cctx a" "s\<lparr>s_hashTable := b\<rparr>" "idx_ok a m0 cur" "c_tableType a" h, OF this s(2)
      call_okD(1) [OF assms(1)] assms(3,4)]
  show ?thesis by blast
qed

text \<open>Writing an index at its own hash.\<close>

lemma table_put:
  assumes ok: "call_ok a m0 cap" and t: "table_inv a m0 S1 cur S" and p: "c_source a \<le> p" "p < c_mflimitPlusOne a"
    and h: "LZ4_hashPosition m0 p (c_tableType a) = Some h" "0 \<le> h" "h < slots (c_tableType a)"
    and cur: "cur \<le> cur'" "p - c_base a < cur'"
  shows "\<exists>S'. LZ4_putIndexOnHash S (p - c_base a) h (c_cctx a) (c_tableType a) = Some S' \<and> table_inv a m0 S1 cur' S'"
proof -
  obtain s b where s: "S1 (c_cctx a) = Some s" "S = S1(c_cctx a \<mapsto> s\<lparr>s_hashTable := b\<rparr>)"
    "entries_ok (idx_ok a m0 cur) (c_tableType a) (s\<lparr>s_hashTable := b\<rparr>)"
    using t unfolding table_inv_def by blast
  have i: "0 \<le> p - c_base a" "p - c_base a < 256 ^ slot_width (c_tableType a)"
    using position_index [OF ok p(1)] p(2) by auto
  have own: "idx_ok a m0 cur' h (p - c_base a)"
    using i(1) cur(2) h(1) p call_okD(9) [OF ok] by (auto simp: idx_ok_def c_limits)
  have "S (c_cctx a) = Some (s\<lparr>s_hashTable := b\<rparr>)" using s(2) by simp
  from putIndex_entries [of S "c_cctx a" "s\<lparr>s_hashTable := b\<rparr>" "idx_ok a m0 cur" "c_tableType a" h
      "p - c_base a" "idx_ok a m0 cur'", OF this s(3) call_okD(1) [OF ok] h(2,3) i idx_ok_mono [OF _ cur(1)] own]
  obtain b' where "LZ4_putIndexOnHash S (p - c_base a) h (c_cctx a) (c_tableType a) =
      Some (S(c_cctx a \<mapsto> s\<lparr>s_hashTable := b, s_hashTable := b'\<rparr>))"
    "entries_ok (idx_ok a m0 cur') (c_tableType a) (s\<lparr>s_hashTable := b, s_hashTable := b'\<rparr>)" by blast
  then show ?thesis using s(1,2) t unfolding table_inv_def by auto
qed

text \<open>The hash of a position of the input.\<close>

lemma hash_source:
  assumes ok: "call_ok a m0 cap" and fr: "frame m0 m (c_dest a) (c_dest a + cap)"
    and p: "c_source a \<le> p" "p \<le> c_mflimitPlusOne a"
  shows "\<exists>h. LZ4_hashPosition m p (c_tableType a) = Some h \<and> LZ4_hashPosition m0 p (c_tableType a) = Some h \<and>
           0 \<le> h \<and> h < slots (c_tableType a)"
proof -
  have r: "p + 8 \<le> c_iend a" using p by (simp add: c_limits)
  have "mapped m0 p (p + 8)" using r p(1) by (intro source_mapped [OF ok frame_refl])
  from hashPosition_ok [OF this call_okD(1) [OF ok]]
  obtain h where "LZ4_hashPosition m0 p (c_tableType a) = Some h" "0 \<le> h" "h < slots (c_tableType a)" by blast
  moreover have "LZ4_hashPosition m p (c_tableType a) = LZ4_hashPosition m0 p (c_tableType a)"
    using source_at(1) [OF ok fr] r p(1) by (intro hashPosition_cong) auto
  ultimately show ?thesis by auto
qed

section \<open>Candidates\<close>

text \<open>
  Where a pointer \<open>mt\<close> with the low limit \<open>low\<close> is in the view: four bytes can be read there, and its segment
  starts at the low limit.
\<close>

definition located :: "cargs \<Rightarrow> int \<Rightarrow> int \<Rightarrow> int \<Rightarrow> bool" where
  "located a low mt v \<longleftrightarrow> (\<exists>d lo hi. view_segment a d lo hi \<and> low = lo + d \<and> mt = v + d \<and> lo \<le> v \<and> v + 4 \<le> hi)"

definition low_ok :: "cargs \<Rightarrow> int \<Rightarrow> bool" where
  "low_ok a low \<longleftrightarrow> c_maybe_extMem a \<or> low = c_low a"

lemma located_low: "located a low mt v \<Longrightarrow> low_ok a low"
  by (cases "c_maybe_extMem a") (auto simp: located_def low_ok_def view_segment_def)

lemma located_prefix: "located a low mt v \<Longrightarrow> \<not> c_maybe_extMem a \<Longrightarrow> v = mt"
  by (auto simp: located_def view_segment_def)

text \<open>A candidate that passes the tests on its index is in the history and in the window.\<close>

definition index_rejected :: "cargs \<Rightarrow> int \<Rightarrow> int \<Rightarrow> bool" where
  "index_rejected a i cp \<longleftrightarrow> c_dictIssue a = dictSmall \<and> i < c_prefixIdxLimit a \<or>
     (c_tableType a \<noteq> byU16 \<or> LZ4_DISTANCE_MAX < LZ4_DISTANCE_ABSOLUTE_MAX) \<and> u32 (i + LZ4_DISTANCE_MAX) < cp"

lemma candidate_window:
  assumes ok: "call_ok a m0 cap" and i: "0 \<le> i" "i < p - c_base a"
    and old: "c_startIndex a - c_dictSize a \<le> i \<or> c_dictIssue a = dictSmall \<or> c_tableType a = byU32 \<and> i + LZ4_DISTANCE_MAX < c_startIndex a"
    and nr: "\<not> index_rejected a i (p - c_base a)" and p: "c_source a \<le> p" "p < c_mflimitPlusOne a"
  shows "c_startIndex a - c_dictSize a \<le> i" "p - (c_base a + i) \<le> 65535"
proof -
  have cp: "p - c_base a < 4294967296" using p(2) call_okD(8) [OF ok] by (simp add: c_limits)
  have far: "p - c_base a \<le> i + 65535" if "c_tableType a \<noteq> byU16"
  proof -
    have "p - c_base a \<le> u32 (i + 65535)" using nr that by (simp add: index_rejected_def)
    moreover have "u32 (i + 65535) \<le> i + 65535"
      using i(1) by (simp add: u32_def zmod_le_nonneg_dividend)
    ultimately show ?thesis by simp
  qed
  show low: "c_startIndex a - c_dictSize a \<le> i"
  proof (rule ccontr)
    assume n: "\<not> c_startIndex a - c_dictSize a \<le> i"
    then consider "c_dictIssue a = dictSmall" | "c_tableType a = byU32" "i + 65535 < c_startIndex a"
      using old by auto
    then show False
    proof cases
      case 1
      then have "c_prefixIdxLimit a = c_startIndex a - c_dictSize a"
        using call_okD(3,7-10) [OF ok] by (simp add: c_prefixIdxLimit_def u32_id)
      with 1 n nr show False by (simp add: index_rejected_def)
    next
      case 2
      then show False using far p(1) by (simp add: c_base_def)
    qed
  qed
  show "p - (c_base a + i) \<le> 65535"
  proof (cases "c_tableType a = byU16")
    case True
    then show ?thesis using call_okD(11) [OF ok] low p(2) by (simp add: c_limits)
  qed (use far in simp)
qed

text \<open>The attached dictionary's entry for a hash, as an index of the current context.\<close>

lemma attached_index:
  assumes ok: "call_ok a m0 cap" and t: "table_inv a m0 S1 cur S" and dd: "c_dictDirective a = usingDictCtx"
    and h: "0 \<le> h" "h < slots byU32"
  shows "\<exists>i. LZ4_getIndexOnHash S h (c_dictCtx a) byU32 = Some i \<and> dict_entry a i \<and>
     u32 (i + c_dictDelta a) = i + (c_startIndex a - c_dictOffset a)"
proof -
  obtain d where d: "S1 (c_dictCtx a) = Some d" "entries_ok (\<lambda>h. dict_entry a) byU32 d" "c_dictCtx a \<noteq> c_cctx a"
    using t dd unfolding table_inv_def dict_table_def by blast
  have "S (c_dictCtx a) = Some d" using t d(1,3) unfolding table_inv_def by auto
  from getIndex_ok [of S "c_dictCtx a" d "\<lambda>h. dict_entry a" byU32 h, OF this d(2) _ h] obtain i where
    i: "LZ4_getIndexOnHash S h (c_dictCtx a) byU32 = Some i" "dict_entry a i" by (auto simp: index_table_def)
  have r: "0 \<le> i" "i < c_dictOffset a" "c_dictOffset a \<le> c_startIndex a" "c_startIndex a < 4294967296" "0 \<le> c_dictOffset a"
    using i(2) call_ok_attached [OF ok dd] call_okD(3,8,9) [OF ok] by (auto simp: dict_entry_def)
  have "c_dictDelta a = c_startIndex a - c_dictOffset a"
    using r dd by (simp add: c_dictDelta_def u32_id)
  then have "u32 (i + c_dictDelta a) = i + (c_startIndex a - c_dictOffset a)" using r by (simp add: u32_id)
  then show ?thesis using i by blast
qed

lemma dict_located:
  assumes ok: "call_ok a m0 cap" and ext: "c_maybe_extMem a"
    and i: "c_startIndex a - c_dictSize a \<le> i" "i + 4 \<le> c_startIndex a"
  shows "located a (c_dictionary a) (c_dictEnd a - c_startIndex a + i) (c_base a + i)"
proof -
  have "view_segment a (c_dictionary a - c_low a) (c_low a) (c_source a)"
    using ext i by (auto simp: view_segment_def)
  then show ?thesis
    using i call_ok_ext(6) [OF ok ext] unfolding located_def
    by (intro exI [of _ "c_dictionary a - c_low a"] exI [of _ "c_low a"] exI [of _ "c_source a"]) (simp add: c_limits)
qed

lemma source_located:
  assumes "c_maybe_extMem a" "c_startIndex a \<le> i" "c_base a + i + 4 \<le> c_iend a"
  shows "located a (c_source a) (c_base a + i) (c_base a + i)"
  using assms unfolding located_def
  by (intro exI [of _ 0] exI [of _ "c_source a"] exI [of _ "c_iend a"]) (simp add: view_segment_def c_base_def)

lemma candidate_ok:
  assumes ok: "call_ok a m0 cap" and t: "table_inv a m0 S1 cur S" and i: "idx_ok a m0 (p - c_base a) h i"
    and p: "c_source a \<le> p" "p < c_mflimitPlusOne a" and h: "0 \<le> h" "h < slots (c_tableType a)" and lw: "low_ok a low"
  shows "\<exists>mt low' j. candidate a S h i low = Some (mt, low', j) \<and> low_ok a low' \<and>
     (index_rejected a j (p - c_base a) \<or>
      located a low' mt (c_base a + j) \<and> c_base a + j < p \<and> p - (c_base a + j) \<le> 65535)"
proof -
  have r: "0 \<le> i" "i < p - c_base a" using i by (simp_all add: idx_ok_def)
  have pe: "c_base a + i + 4 \<le> c_iend a" using r(2) p(2) by (simp add: c_limits)
  have new: "c_startIndex a \<le> i \<Longrightarrow> c_startIndex a - c_dictSize a \<le> i" using call_okD(9) [OF ok] by simp
  consider (dict) "c_dictDirective a = usingDictCtx" "i < c_startIndex a"
    | (ext) "c_dictDirective a = usingExtDict" "i < c_startIndex a"
    | (src) "c_maybe_extMem a" "c_startIndex a \<le> i"
    | (pre) "\<not> c_maybe_extMem a"
    by (cases "c_dictDirective a"; cases "i < c_startIndex a") (auto simp: c_maybe_extMem_def)
  then show ?thesis
  proof cases
    case dict
    have em: "c_maybe_extMem a" using dict by (simp add: c_maybe_extMem_def)
    have tt: "c_tableType a = byU32" by (rule call_ok_ext(1) [OF ok em])
    from attached_index [OF ok t dict(1)] h tt obtain k where k: "LZ4_getIndexOnHash S h (c_dictCtx a) byU32 = Some k" "dict_entry a k"
      "u32 (k + c_dictDelta a) = k + (c_startIndex a - c_dictOffset a)" by auto
    define j where "j = k + (c_startIndex a - c_dictOffset a)"
    have cd: "candidate a S h i low = Some (c_dictEnd a - c_startIndex a + j, c_dictionary a, j)"
      using dict k(1,3) call_ok_ext(2,6) [OF ok em] by (simp add: candidate_def c_dictBase_def j_def)
    have jr: "0 \<le> j" "j < c_startIndex a" "j < p - c_base a"
      using k(2) call_ok_attached [OF ok dict(1)] call_okD(9) [OF ok] p(1) by (auto simp: dict_entry_def j_def c_base_def)
    have je: "c_startIndex a - c_dictSize a \<le> j \<and> j + 4 \<le> c_startIndex a \<or> j + 65535 < c_startIndex a"
      using k(2) by (auto simp: dict_entry_def j_def)
    show ?thesis
    proof (cases "index_rejected a j (p - c_base a)")
      case False
      have w: "c_startIndex a - c_dictSize a \<le> j" "p - (c_base a + j) \<le> 65535"
        using candidate_window [OF ok jr(1,3) _ False p] je tt by auto
      then have "j + 4 \<le> c_startIndex a" using je p(1) by (auto simp: c_base_def)
      then show ?thesis using cd w jr(3) dict_located [OF ok em w(1)] em by (simp add: low_ok_def)
    qed (use cd em in \<open>simp add: low_ok_def\<close>)
  next
    case ext
    have em: "c_maybe_extMem a" using ext by (simp add: c_maybe_extMem_def)
    have cd: "candidate a S h i low = Some (c_dictEnd a - c_startIndex a + i, c_dictionary a, i)"
      using ext call_ok_ext(2,6) [OF ok em] by (simp add: candidate_def c_dictBase_def)
    show ?thesis
    proof (cases "index_rejected a i (p - c_base a)")
      case False
      have w: "c_startIndex a - c_dictSize a \<le> i" "p - (c_base a + i) \<le> 65535"
        using candidate_window [OF ok r _ False p] i ext by (auto simp: idx_ok_def)
      have "i + 4 \<le> c_startIndex a"
        using i ext w(1) call_ok_ext(4,5) [OF ok em] r(1) by (cases "i = 0") (auto simp: idx_ok_def)
      then show ?thesis using cd w r(2) dict_located [OF ok em w(1)] em by (simp add: low_ok_def)
    qed (use cd em in \<open>simp add: low_ok_def\<close>)
  next
    case src
    then have cd: "candidate a S h i low = Some (c_base a + i, c_source a, i)"
      by (auto simp: candidate_def c_maybe_extMem_def)
    show ?thesis
    proof (cases "index_rejected a i (p - c_base a)")
      case False
      then show ?thesis
        using candidate_window [OF ok r _ False p] new src cd r(2) source_located [OF src pe] by (simp add: low_ok_def)
    qed (use cd src in \<open>simp add: low_ok_def\<close>)
  next
    case pre
    then have cd: "candidate a S h i low = Some (c_base a + i, c_low a, i)"
      using lw by (simp add: candidate_def c_maybe_extMem_def low_ok_def)
    show ?thesis
    proof (cases "index_rejected a i (p - c_base a)")
      case False
      have "c_dictDirective a \<noteq> usingDictCtx" using pre by (simp add: c_maybe_extMem_def)
      then have w: "c_startIndex a - c_dictSize a \<le> i" "p - (c_base a + i) \<le> 65535"
        using candidate_window [OF ok r _ False p] i new by (auto simp: idx_ok_def)
      have "located a (c_low a) (c_base a + i) (c_base a + i)"
        using pre w(1) pe unfolding located_def
        by (intro exI [of _ 0] exI [of _ "c_low a"] exI [of _ "c_iend a"]) (simp add: view_segment_def c_limits)
      then show ?thesis using cd w r(2) by (simp add: low_ok_def)
    qed (use cd in \<open>simp add: low_ok_def\<close>)
  qed
qed

text \<open>Four equal bytes.\<close>

lemma nat_range_all: "(\<forall>i < n. P (int i)) \<longleftrightarrow> (\<forall>k. 0 \<le> k \<and> k < int n \<longrightarrow> P k)"
  by (metis nat_less_iff of_nat_0_le_iff of_nat_less_iff zero_le_imp_eq_int)

lemma read32_pair:
  assumes ok: "call_ok a m0 cap" and fr: "frame m0 m (c_dest a) (c_dest a + cap)"
    and l: "located a low mt v" and p: "c_source a \<le> p" "p + 4 \<le> c_iend a"
  shows "\<exists>x y. LZ4_read32 LZ4_isLittleEndian m mt = Some x \<and> LZ4_read32 LZ4_isLittleEndian m p = Some y \<and>
           (x = y \<longleftrightarrow> (\<forall>k. 0 \<le> k \<and> k < 4 \<longrightarrow> view a m0 (v + k) = view a m0 (p + k)))"
proof -
  obtain d lo hi where s: "view_segment a d lo hi" "mt = v + d" "lo \<le> v" "v + 4 \<le> hi" using l unfolding located_def by blast
  have m: "mapped m mt (mt + int 4)" "mapped m p (p + int 4)"
    using segment_mapped [OF ok s(1) fr s(3,4)] source_mapped [OF ok fr p] by (simp_all add: s(2) ac_simps)
  have "m (mt + k) = view a m0 (v + k)" if "0 \<le> k" "k < 4" for k
    using segment_memory(1) [OF ok s(1) fr, of "v + k"] s(2-4) that by (simp add: ac_simps)
  moreover have "m (p + k) = view a m0 (p + k)" if "0 \<le> k" "k < 4" for k
    using source_at(1) [OF ok fr, of "p + k"] p that by (simp add: view_source)
  ultimately have "(\<forall>i < 4. m (mt + int i) = m (p + int i)) \<longleftrightarrow>
      (\<forall>k. 0 \<le> k \<and> k < 4 \<longrightarrow> view a m0 (v + k) = view a m0 (p + k))"
    using nat_range_all [of 4 "\<lambda>k. m (mt + k) = m (p + k)"] by simp
  then show ?thesis
    using read_le(2) [of m mt] read_le(2) [of m p] m read_eq_iff [OF m]
    by (simp add: LZ4_isLittleEndian_def)
qed

text \<open>The match of a state, at the position \<open>mt\<close> of the view.\<close>

definition matched :: "cargs \<Rightarrow> mem \<Rightarrow> cstate \<Rightarrow> int \<Rightarrow> int \<Rightarrow> bool" where
  "matched a m0 v mt n \<longleftrightarrow> located a (v_lowLimit v) (v_match v) mt \<and> match_at a (view a m0) (v_ip v) mt n \<and>
     (c_maybe_extMem a \<longrightarrow> v_offset v = v_ip v - mt)"

lemma match_found:
  assumes "call_ok a m0 cap" "located a low mt v" "v < p" "p - v \<le> 65535"
    "\<forall>k. 0 \<le> k \<and> k < 4 \<longrightarrow> view a m0 (v + k) = view a m0 (p + k)"
  shows "match_at a (view a m0) p v 4"
proof -
  have "c_low a \<le> v" using assms(2) segment_range(1) [OF assms(1)] unfolding located_def by (metis order_trans)
  then show ?thesis using assms(3-5) by (simp add: match_at_def)
qed

section \<open>The search\<close>

text \<open>The state in which the main loop starts.\<close>

definition at_head :: "cargs \<Rightarrow> mem \<Rightarrow> streams \<Rightarrow> cstate \<Rightarrow> bool" where
  "at_head a m0 S1 v \<longleftrightarrow> v_ip v = v_anchor v + 1 \<and> c_source a \<le> v_anchor v \<and> v_ip v \<le> c_mflimitPlusOne a \<and>
     LZ4_hashPosition m0 (v_ip v) (c_tableType a) = Some (v_forwardH v) \<and> low_ok a (v_lowLimit v) \<and>
     table_inv a m0 S1 (v_ip v - c_base a) (v_strs v)"

text \<open>What the search does not touch.\<close>

definition same_output :: "cstate \<Rightarrow> cstate \<Rightarrow> bool" where
  "same_output v v' \<longleftrightarrow> v_anchor v' = v_anchor v \<and> v_op v' = v_op v \<and> v_mem v' = v_mem v"

definition found :: "cargs \<Rightarrow> mem \<Rightarrow> streams \<Rightarrow> cstate \<Rightarrow> cstate \<Rightarrow> bool" where
  "found a m0 S1 v v' \<longleftrightarrow> same_output v v' \<and> v_ip v \<le> v_ip v' \<and> v_ip v' < c_mflimitPlusOne a \<and>
     (\<exists>mt. matched a m0 v' mt 4) \<and> table_inv a m0 S1 (v_ip v' + 1 - c_base a) (v_strs v')"

definition not_found :: "cargs \<Rightarrow> mem \<Rightarrow> streams \<Rightarrow> cstate \<Rightarrow> cexit \<Rightarrow> bool" where
  "not_found a m0 S1 v e \<longleftrightarrow> (\<exists>v'. e = Last_literals v' \<and> same_output v v' \<and> table_inv a m0 S1 (c_iend a - c_base a) (v_strs v'))"

text \<open>
  The invariant of the search: the next position is hashed and lies after every entry; \<open>searchMatchNb\<close>
  has grown by at most one for each byte passed, so that it cannot overflow.
\<close>

definition searching :: "cargs \<Rightarrow> mem \<Rightarrow> streams \<Rightarrow> cstate \<Rightarrow> int \<times> int \<times> int \<times> cstate \<Rightarrow> bool" where
  "searching a m0 S1 v = (\<lambda>(forwardIp, step, nb, w).
     same_output v w \<and> low_ok a (v_lowLimit w) \<and> v_ip v \<le> forwardIp \<and> forwardIp \<le> c_mflimitPlusOne a \<and> 1 \<le> step \<and>
     64 \<le> nb \<and> nb \<le> 64 * LZ4_ACCELERATION_MAX + (forwardIp - c_source a) \<and>
     LZ4_hashPosition m0 forwardIp (c_tableType a) = Some (v_forwardH w) \<and>
     table_inv a m0 S1 (forwardIp - c_base a) (v_strs w))"

text \<open>A candidate that agrees in four bytes is recorded as the match of the state.\<close>

lemma record_match:
  assumes ok: "call_ok a m0 cap" and l: "located a (v_lowLimit w) (v_match w) mt" and ip: "c_source a \<le> v_ip w" "v_ip w < c_mflimitPlusOne a"
    and d: "mt < v_ip w" "v_ip w - mt \<le> 65535"
    and eq: "\<forall>k. 0 \<le> k \<and> k < 4 \<longrightarrow> view a m0 (mt + k) = view a m0 (v_ip w + k)" and e: "e = v_ip w - mt"
  shows "matched a m0 (if c_maybe_extMem a then w\<lparr>v_offset := u32 e\<rparr> else w) mt 4"
  using l d match_found [OF ok l d eq] by (simp add: matched_def u32_id e)

lemma find_index_step:
  assumes ok: "call_ok a m0 cap" and fr: "frame m0 (v_mem v) (c_dest a) (c_dest a + cap)"
    and src: "c_source a \<le> v_ip v" and s: "searching a m0 S1 v (fwd, step, nb, w)"
  shows "\<exists>r. find_index_body a (fwd, step, nb, w) = Some r \<and>
     (case r of
        Inl (fwd', step', nb', w') \<Rightarrow> searching a m0 S1 v (fwd', step', nb', w') \<and> fwd < fwd'
      | Inr (Inl v') \<Rightarrow> found a m0 S1 v v'
      | Inr (Inr e) \<Rightarrow> not_found a m0 S1 v e)"
proof -
  have w: "same_output v w" "v_ip v \<le> fwd" "fwd \<le> c_mflimitPlusOne a" "1 \<le> step" "64 \<le> nb"
    "nb \<le> 64 * LZ4_ACCELERATION_MAX + (fwd - c_source a)"
    "LZ4_hashPosition m0 fwd (c_tableType a) = Some (v_forwardH w)"
    "table_inv a m0 S1 (fwd - c_base a) (v_strs w)" "low_ok a (v_lowLimit w)"
    using s by (simp_all add: searching_def)
  have wm: "v_mem w = v_mem v" using w(1) by (simp add: same_output_def)
  have fs: "c_source a \<le> fwd" using w(2) src by simp
  obtain h where h: "LZ4_hashPosition m0 fwd (c_tableType a) = Some h" "0 \<le> h" "h < slots (c_tableType a)"
    using hash_source [OF ok fr fs w(3)] by auto
  then have fh: "v_forwardH w = h" using w(7) by simp
  obtain i where get: "LZ4_getIndexOnHash (v_strs w) h (c_cctx a) (c_tableType a) = Some i"
    and i: "idx_ok a m0 (fwd - c_base a) h i"
    using table_get [OF ok w(8) h(2,3)] by blast
  have cp: "u32 (fwd - c_base a) = fwd - c_base a"
    using position_index [OF ok fs w(3)] by simp
  show ?thesis
  proof (cases "fwd + step > c_mflimitPlusOne a")
    case True
    let ?e = "Last_literals (w\<lparr>v_ip := fwd\<rparr>)"
    have "find_index_body a (fwd, step, nb, w) = Some (Inr (Inr ?e))"
      using True get fh by (simp add: Let_def)
    moreover have "table_inv a m0 S1 (c_iend a - c_base a) (v_strs w)"
      using w(3) by (intro table_inv_mono [OF w(8)]) (simp add: c_limits)
    then have "not_found a m0 S1 v ?e"
      using w(1) by (auto simp: not_found_def same_output_def)
    ultimately show ?thesis by auto
  next
    case False
    then have lt: "fwd < c_mflimitPlusOne a" using w(4) by simp
    obtain h' where h': "LZ4_hashPosition (v_mem v) (fwd + step) (c_tableType a) = Some h'"
      "LZ4_hashPosition m0 (fwd + step) (c_tableType a) = Some h'"
      using hash_source [OF ok fr, of "fwd + step"] False w(4) fs by auto
    obtain S' where put: "LZ4_putIndexOnHash (v_strs w) (fwd - c_base a) h (c_cctx a) (c_tableType a) = Some S'"
      and t': "table_inv a m0 S1 (fwd + 1 - c_base a) S'"
      using table_put [OF ok w(8) fs lt h, of "fwd + 1 - c_base a"] by auto
    obtain mt low j where cand: "candidate a (v_strs w) h i (v_lowLimit w) = Some (mt, low, j)" "low_ok a low"
      "index_rejected a j (fwd - c_base a) \<or>
       located a low mt (c_base a + j) \<and> c_base a + j < fwd \<and> fwd - (c_base a + j) \<le> 65535"
      using candidate_ok [OF ok w(8) i fs lt h(2,3) w(9)] by blast
    define w' where "w' = w\<lparr>v_ip := fwd, v_match := mt, v_lowLimit := low, v_forwardH := h', v_strs := S'\<rparr>"
    define w2 where "w2 = (if c_maybe_extMem a then w'\<lparr>v_offset := u32 (fwd - c_base a - j)\<rparr> else w')"
    have sel: "v_ip w' = fwd" "v_match w' = mt" "v_lowLimit w' = low" "v_strs w' = S'" by (simp_all add: w'_def)
    have so: "same_output v w'" "same_output v w2" using w(1) by (simp_all add: same_output_def w'_def w2_def)
    have nb: "s32 (nb + 1) = nb + 1"
      using w(3,5,6) call_okD(4) [OF ok] by (intro s32_id) (auto simp: c_limits)
    have st: "1 \<le> drop_bit 6 nb"
      using w(5) zdiv_mono1 [of 64 nb 64] by (simp add: drop_bit_eq_div)
    have again: "searching a m0 S1 v (fwd + step, drop_bit 6 nb, s32 (nb + 1), w')"
      using so(1) w(2,4-6) False st h'(2) cand(2) table_inv_mono [OF t', of "fwd + step - c_base a"] unfolding searching_def nb
      by (simp add: w'_def)
    have body: "find_index_body a (fwd, step, nb, w) =
        (if index_rejected a j (fwd - c_base a) then Some (Inl (fwd + step, drop_bit 6 nb, s32 (nb + 1), w'))
         else do {
           x \<leftarrow> LZ4_read32 LZ4_isLittleEndian (v_mem w) mt;
           y \<leftarrow> LZ4_read32 LZ4_isLittleEndian (v_mem w) fwd;
           Some (if x = y then Inr (Inl w2) else Inl (fwd + step, drop_bit 6 nb, s32 (nb + 1), w')) })"
      using False get put h'(1) fh cand(1)
      by (auto simp: Let_def cp index_rejected_def w'_def w2_def wm cong: if_cong)
    show ?thesis
    proof (cases "index_rejected a j (fwd - c_base a)")
      case True
      then show ?thesis unfolding body using again w(4) by simp
    next
      case nr: False
      then have win: "located a low mt (c_base a + j)" "c_base a + j < fwd" "fwd - (c_base a + j) \<le> 65535"
        using cand(3) by simp_all
      obtain x y where xy: "LZ4_read32 LZ4_isLittleEndian (v_mem v) mt = Some x"
        "LZ4_read32 LZ4_isLittleEndian (v_mem v) fwd = Some y"
        "x = y \<longleftrightarrow> (\<forall>k. 0 \<le> k \<and> k < 4 \<longrightarrow> view a m0 (c_base a + j + k) = view a m0 (fwd + k))"
        using read32_pair [OF ok fr win(1) fs] lt by (auto simp: c_limits)
      show ?thesis
      proof (cases "x = y")
        case True
        have "matched a m0 w2 (c_base a + j) 4"
          using win xy(3) True fs lt unfolding w2_def by (intro record_match [OF ok]) (simp_all add: sel)
        moreover have "v_ip w2 = fwd" "v_strs w2 = S'" by (simp_all add: w2_def sel)
        ultimately have "found a m0 S1 v w2" using so(2) w(2) lt t' by (auto simp: found_def)
        then show ?thesis unfolding body wm using nr xy(1,2) True by simp
      next
        case False
        then show ?thesis unfolding body wm using nr xy(1,2) again w(4) by simp
      qed
    qed
  qed
qed

lemma find_match_ok:
  assumes ok: "call_ok a m0 cap" and fr: "frame m0 (v_mem v) (c_dest a) (c_dest a + cap)" and hd: "at_head a m0 S1 v"
  shows "\<exists>r. find_match a v = Some r \<and>
     (case r of Inl v' \<Rightarrow> found a m0 S1 v v' | Inr e \<Rightarrow> not_found a m0 S1 v e)"
proof -
  have src: "c_source a \<le> v_ip v" using hd by (simp add: at_head_def)
  have acc: "s32 (push_bit 6 (c_acceleration a)) = 64 * c_acceleration a"
    using call_okD(5,6) [OF ok] by (simp add: push_bit_eq_mult s32_id)
  let ?s0 = "(v_ip v, 1, 64 * c_acceleration a, v)"
  have "\<exists>r. cloop (find_index_body a) ?s0 = Some r \<and>
     (case r of Inl v' \<Rightarrow> found a m0 S1 v v' | Inr e \<Rightarrow> not_found a m0 S1 v e)"
  proof (rule cloop_total [where I = "searching a m0 S1 v" and \<mu> = "\<lambda>(fwd, _). nat (c_mflimitPlusOne a - fwd)"])
    show "searching a m0 S1 v ?s0"
      using hd call_okD(5,6) [OF ok] by (auto simp: searching_def at_head_def same_output_def)
  next
    fix s assume s: "searching a m0 S1 v s"
    obtain fwd step nb w where sw: "s = (fwd, step, nb, w)" by (cases s) auto
    have le: "fwd' \<le> c_mflimitPlusOne a" if "searching a m0 S1 v (fwd', step', nb', w')" for fwd' step' nb' w'
      using that by (simp add: searching_def)
    from find_index_step [OF ok fr src s [unfolded sw]] obtain r where r: "find_index_body a s = Some r"
      "case r of Inl (fwd', step', nb', w') \<Rightarrow> searching a m0 S1 v (fwd', step', nb', w') \<and> fwd < fwd'
       | Inr (Inl v') \<Rightarrow> found a m0 S1 v v' | Inr (Inr e) \<Rightarrow> not_found a m0 S1 v e"
      unfolding sw by blast
    show "(\<exists>s'. find_index_body a s = Some (Inl s') \<and> searching a m0 S1 v s' \<and>
            (case s' of (fwd, _) \<Rightarrow> nat (c_mflimitPlusOne a - fwd)) < (case s of (fwd, _) \<Rightarrow> nat (c_mflimitPlusOne a - fwd))) \<or>
          (\<exists>r. find_index_body a s = Some (Inr r) \<and>
            (case r of Inl v' \<Rightarrow> found a m0 S1 v v' | Inr e \<Rightarrow> not_found a m0 S1 v e))"
    proof (cases r)
      case (Inl t)
      obtain fwd' step' nb' w' where t: "t = (fwd', step', nb', w')" by (cases t) auto
      have t': "searching a m0 S1 v (fwd', step', nb', w')" "fwd < fwd'" using r(2) Inl t by simp_all
      have "nat (c_mflimitPlusOne a - fwd') < nat (c_mflimitPlusOne a - fwd)" using t'(2) le [OF t'(1)] by simp
      then show ?thesis using r(1) Inl t' unfolding t sw by simp
    next
      case (Inr q)
      then show ?thesis using r by (cases q) simp_all
    qed
  qed
  moreover have "c_tableType a \<noteq> byPtr" using call_okD(1) [OF ok] by (auto simp: index_table_def)
  ultimately show ?thesis by (simp add: find_match_def acc)
qed

section \<open>Catching up\<close>

lemma load8_pair:
  assumes ok: "call_ok a m0 cap" and fr: "frame m0 m (c_dest a) (c_dest a + cap)" and sg: "view_segment a d lo hi"
    and "lo \<le> x" "x < hi" "c_source a \<le> y" "y < c_iend a"
  shows "\<exists>u w. load8 m (x + d) = Some u \<and> load8 m y = Some w \<and> (u = w \<longleftrightarrow> view a m0 x = view a m0 y)"
proof -
  obtain b c where "m (x + d) = Some b" "view a m0 x = Some b" "m y = Some c" "view a m0 y = Some c"
    using segment_memory [OF ok sg fr assms(4,5)] source_at [OF ok fr assms(6,7)] view_source [OF assms(6), of m0] by auto
  then show ?thesis by (simp add: load8_def word_uint_eq_iff)
qed

text \<open>Moving both positions back keeps the distance and lengthens the match.\<close>

definition caught_up :: "cargs \<Rightarrow> mem \<Rightarrow> int \<Rightarrow> int \<Rightarrow> int \<Rightarrow> int \<Rightarrow> int \<Rightarrow> int \<times> int \<Rightarrow> bool" where
  "caught_up a m0 anchor lo d ip0 n = (\<lambda>(ip, mt). anchor \<le> ip \<and> ip \<le> ip0 \<and> lo \<le> mt - d \<and>
     match_at a (view a m0) ip (mt - d) (n + (ip0 - ip)))"

text \<open>One more byte can be compared, and it agrees.\<close>

definition goes_back :: "cargs \<Rightarrow> mem \<Rightarrow> int \<Rightarrow> int \<Rightarrow> int \<Rightarrow> int \<times> int \<Rightarrow> bool" where
  "goes_back a m0 anchor lo d = (\<lambda>(ip, mt). anchor < ip \<and> lo < mt - d \<and> view a m0 (mt - d - 1) = view a m0 (ip - 1))"

lemma caught_up_step:
  assumes "caught_up a m0 anchor lo d ip0 n (ip, mt)" "goes_back a m0 anchor lo d (ip, mt)" "c_low a \<le> lo"
  shows "caught_up a m0 anchor lo d ip0 n (ip - 1, mt - 1)"
  using assms match_at_back [of a "view a m0" ip "mt - d" "n + (ip0 - ip)"]
  by (simp add: caught_up_def goes_back_def algebra_simps)

lemma catch_up_loop:
  assumes ok: "call_ok a m0 cap" and fr: "frame m0 m (c_dest a) (c_dest a + cap)" and anc: "c_source a \<le> anchor"
    and sg: "view_segment a d lo hi" and start: "caught_up a m0 anchor lo d ip0 n x" "goes_back a m0 anchor lo d x" "snd x - d < hi"
    and lim: "ip0 \<le> c_iend a"
  shows "\<exists>r. cloop (catch_up_body anchor (lo + d) m) x = Some r \<and> caught_up a m0 anchor lo d ip0 n r \<and> snd r - fst r = snd x - fst x"
proof (rule cloop_total [where \<mu> = "\<lambda>(ip, mt). nat (ip - anchor)" and
      I = "\<lambda>y. caught_up a m0 anchor lo d ip0 n y \<and> goes_back a m0 anchor lo d y \<and> snd y - d < hi \<and> snd y - fst y = snd x - fst x"])
  show "caught_up a m0 anchor lo d ip0 n x \<and> goes_back a m0 anchor lo d x \<and> snd x - d < hi \<and> snd x - fst x = snd x - fst x" using start by simp
next
  let ?I = "\<lambda>y. caught_up a m0 anchor lo d ip0 n y \<and> goes_back a m0 anchor lo d y \<and> snd y - d < hi \<and> snd y - fst y = snd x - fst x"
  fix s assume I: "?I s"
  obtain ip mt where s: "s = (ip, mt)" by (cases s) auto
  have c: "caught_up a m0 anchor lo d ip0 n (ip, mt)" "goes_back a m0 anchor lo d (ip, mt)" "mt - d < hi" "mt - ip = snd x - fst x"
    using I by (simp_all add: s)
  have c': "caught_up a m0 anchor lo d ip0 n (ip - 1, mt - 1)"
    using caught_up_step [OF c(1,2) segment_range(1) [OF ok sg]] .
  have gt: "anchor < ip" "ip \<le> ip0" using c(1,2) by (simp_all add: caught_up_def goes_back_def)
  let ?goal = "(\<exists>s'. catch_up_body anchor (lo + d) m s = Some (Inl s') \<and> ?I s' \<and>
      (case s' of (ip, mt) \<Rightarrow> nat (ip - anchor)) < (case s of (ip, mt) \<Rightarrow> nat (ip - anchor))) \<or>
    (\<exists>r. catch_up_body anchor (lo + d) m s = Some (Inr r) \<and> caught_up a m0 anchor lo d ip0 n r \<and> snd r - fst r = snd x - fst x)"
  show ?goal
  proof (cases "ip - 1 > anchor \<and> mt - 1 > lo + d")
    case True
    have "lo \<le> mt - d - 1 - 1" "mt - d - 1 - 1 < hi" "c_source a \<le> ip - 1 - 1" "ip - 1 - 1 < c_iend a"
      using True anc c(3) gt lim by auto
    from load8_pair [OF ok fr sg this] obtain u w where uw: "load8 m (mt - 1 - 1) = Some u" "load8 m (ip - 1 - 1) = Some w"
      "u = w \<longleftrightarrow> view a m0 (mt - d - 1 - 1) = view a m0 (ip - 1 - 1)"
      by (auto simp: algebra_simps)
    show ?thesis
    proof (cases "w = u")
      case eq: True
      then have "goes_back a m0 anchor lo d (ip - 1, mt - 1)" using uw(3) True by (simp add: goes_back_def algebra_simps)
      moreover have "catch_up_body anchor (lo + d) m s = Some (Inl (ip - 1, mt - 1))"
        using True uw(1,2) eq by (simp add: s Let_def)
      ultimately show ?thesis using c' c(3,4) gt(1) unfolding s by (intro disjI1 exI [of _ "(ip - 1, mt - 1)"]) simp
    next
      case False
      then have "catch_up_body anchor (lo + d) m s = Some (Inr (ip - 1, mt - 1))"
        using True uw(1,2) by (simp add: s Let_def)
      then show ?thesis using c' c(4) by auto
    qed
  next
    case False
    then have "catch_up_body anchor (lo + d) m s = Some (Inr (ip - 1, mt - 1))" by (auto simp: s Let_def)
    then show ?thesis using c' c(4) by auto
  qed
qed

lemma catch_up_ok:
  assumes ok: "call_ok a m0 cap" and fr: "frame m0 (v_mem v) (c_dest a) (c_dest a + cap)" and anc: "c_source a \<le> v_anchor v"
    and ip: "v_anchor v < v_ip v" "v_ip v \<le> c_iend a" and m: "matched a m0 v mt n"
  shows "\<exists>v' mt'. catch_up v = Some v' \<and> same_output v v' \<and> v_strs v' = v_strs v \<and> v_filledIp v' = v_ip v \<and>
     v_anchor v \<le> v_ip v' \<and> v_ip v' \<le> v_ip v \<and> matched a m0 v' mt' (n + (v_ip v - v_ip v'))"
proof -
  obtain d lo hi where sg: "view_segment a d lo hi" and l: "v_lowLimit v = lo + d" "v_match v = mt + d" "lo \<le> mt" "mt + 4 \<le> hi"
    using m unfolding matched_def located_def by blast
  have ma: "match_at a (view a m0) (v_ip v) mt n" "c_maybe_extMem a \<Longrightarrow> v_offset v = v_ip v - mt"
    using m by (simp_all add: matched_def)
  let ?same = "\<exists>v' mt'. Some (v\<lparr>v_filledIp := v_ip v\<rparr>) = Some v' \<and> same_output v v' \<and> v_strs v' = v_strs v \<and> v_filledIp v' = v_ip v \<and>
     v_anchor v \<le> v_ip v' \<and> v_ip v' \<le> v_ip v \<and> matched a m0 v' mt' (n + (v_ip v - v_ip v'))"
  have same: ?same
    using m ip by (intro exI [of _ "v\<lparr>v_filledIp := v_ip v\<rparr>"] exI [of _ mt]) (simp add: same_output_def matched_def)
  show ?thesis
  proof (cases "v_match v > v_lowLimit v")
    case True
    have "lo \<le> mt - 1" "mt - 1 < hi" "c_source a \<le> v_ip v - 1" "v_ip v - 1 < c_iend a"
      using True l ip anc by auto
    from load8_pair [OF ok fr sg this] obtain u w where
      uw: "load8 (v_mem v) (v_match v - 1) = Some u" "load8 (v_mem v) (v_ip v - 1) = Some w"
      "u = w \<longleftrightarrow> view a m0 (mt - 1) = view a m0 (v_ip v - 1)"
      by (auto simp: l(2) algebra_simps)
    show ?thesis
    proof (cases "w = u")
      case eq: True
      have c: "caught_up a m0 (v_anchor v) lo d (v_ip v) n (v_ip v, v_match v)"
        using ma(1) ip(1) l(2,3) by (simp add: caught_up_def)
      have g: "goes_back a m0 (v_anchor v) lo d (v_ip v, v_match v)" using uw(3) eq True ip(1) l(1,2) by (simp add: goes_back_def)
      have h: "snd (v_ip v, v_match v) - d < hi" using l(2,4) by simp
      from catch_up_loop [OF ok fr anc sg c g h ip(2)] obtain i x where
        r: "cloop (catch_up_body (v_anchor v) (lo + d) (v_mem v)) (v_ip v, v_match v) = Some (i, x)"
        "caught_up a m0 (v_anchor v) lo d (v_ip v) n (i, x)" "x - i = v_match v - v_ip v" by auto
      let ?v = "v\<lparr>v_filledIp := v_ip v, v_ip := i, v_match := x\<rparr>"
      have "catch_up v = Some ?v" using True uw(1,2) eq r(1) l(1) by (simp add: catch_up_def)
      moreover have cu: "v_anchor v \<le> i" "i \<le> v_ip v" "lo \<le> x - d" "match_at a (view a m0) i (x - d) (n + (v_ip v - i))"
        using r(2) by (simp_all add: caught_up_def)
      moreover have "matched a m0 ?v (x - d) (n + (v_ip v - i))"
        unfolding matched_def located_def
        using sg cu l ma(2) r(3) by (auto intro!: exI [of _ d] exI [of _ lo] exI [of _ hi])
      ultimately show ?thesis by (intro exI [of _ ?v] exI [of _ "x - d"]) (simp add: same_output_def)
    next
      case False
      then have "catch_up v = Some (v\<lparr>v_filledIp := v_ip v\<rparr>)" using True uw(1,2) by (simp add: catch_up_def)
      then show ?thesis using same by simp
    qed
  next
    case False
    then have "catch_up v = Some (v\<lparr>v_filledIp := v_ip v\<rparr>)" by (simp add: catch_up_def)
    then show ?thesis using same by simp
  qed
qed

end
