(* ===== verification/Lz4_CompressLits.thy ===== *)
theory Lz4_CompressLits
  imports Lz4_CompressFind
begin

unbundle bit_operations_syntax

text \<open>
  Literals: the check of the output buffer is strong enough for everything that is written before the
  next check, the copy that may run eight bytes over included, and what is written is the start of a
  sequence; the last literals close the block.
\<close>

section \<open>Frames and room\<close>

lemma emitted_frame: "emitted a m0 qs op anchor m \<Longrightarrow> frame m m' op w \<Longrightarrow> emitted a m0 qs op anchor m'"
  using bytes_frame [of m m' op w op "c_dest a"] by (simp add: emitted_def)

lemma emittedD:
  assumes "emitted a m0 qs op anchor m"
  shows "c_dest a \<le> op" "c_source a \<le> anchor" "anchor \<le> c_iend a" "bytes m (c_dest a) op = concat (map encode_seq qs)"
    "seqs_ok (c_hist a m0) qs" "foldl expand_seq (c_hist a m0) qs = bytes m0 (c_low a) anchor"
    "qs \<noteq> [] \<Longrightarrow> anchor \<le> c_matchlimit a" "qs \<noteq> [] \<Longrightarrow> anchor - int (seq_mlen (last qs)) < c_mflimitPlusOne a"
  using assms by (simp_all add: emitted_def)

lemma writtenD:
  assumes "written a m0 cap qs op anchor m"
  shows "frame m0 m (c_dest a) (c_dest a + cap)" "emitted a (view a m0) qs op anchor m" "room a qs op anchor"
  using assms by (simp_all add: written_def)

text \<open>The wild copy of literals, whatever their number.\<close>

definition overrun :: "int \<Rightarrow> int" where
  "overrun ll = (if ll = 0 then 8 else 7)"

lemma wildCopy8_run:
  assumes "0 \<le> ll" "mapped m s (s + ll + 8)" "mapped m d (d + ll + overrun ll)" "s + ll + 8 \<le> d \<or> d + ll + overrun ll \<le> s"
  shows "\<exists>m'. LZ4_wildCopy8 m d s (d + ll) = Some m' \<and> frame m m' d (d + ll + overrun ll) \<and>
           bytes m' d (d + ll) = bytes m s (s + ll)"
proof (cases "ll = 0")
  case True
  then have "memcpy m d s 8 = Some (blit m d s 8)" "frame m (blit m d s 8) d (d + 8)"
    using assms by (auto simp: overrun_def intro!: memcpy_Some frame_blit)
  then show ?thesis using True by (simp add: overrun_def LZ4_wildCopy8_once)
next
  case False
  then have o: "overrun ll = 7" by (simp add: overrun_def)
  show ?thesis
    using wildCopy8.copy_literals [of d "d + ll" s m] assms False mapped_sub [OF assms(2), of s "s + ll + 7"]
    unfolding o by auto
qed

lemma ext_size_le: "0 \<le> n \<Longrightarrow> ext_size n \<le> 1 + n div 255"
  using zdiv_mono1 [of "n - 15" n 255] by (simp add: ext_size_def)

lemma ext_size_exact: "15 \<le> n \<Longrightarrow> ext_size n = (n + 240) div 255"
proof -
  have "(n + 240) div 255 = (n - 15 + 255) div 255" by simp
  also have "\<dots> = (n - 15) div 255 + 1" by (rule div_add_self2) simp
  finally show "15 \<le> n \<Longrightarrow> ext_size n = (n + 240) div 255" by (simp add: ext_size_def)
qed

lemma ext_size_fill: "0 \<le> n \<Longrightarrow> ext_size n \<le> (n + 240) div 255"
  using ext_size_exact [of n] by (cases "15 \<le> n") (auto simp: ext_size_def pos_imp_zdiv_nonneg_iff)

section \<open>The start of a sequence\<close>

text \<open>
  At the label \<open>_next_match\<close>: the token holds the number of literals, which follow their length
  bytes, up to \<open>ip\<close>.
\<close>

definition pending :: "cargs \<Rightarrow> mem \<Rightarrow> int \<Rightarrow> lz4_seq list \<Rightarrow> cstate \<Rightarrow> bool" where
  "pending a m0 cap qs v \<longleftrightarrow>
     written a m0 cap qs (v_token v) (v_anchor v) (v_mem v) \<and> v_anchor v \<le> v_ip v \<and>
     v_op v = v_token v + (1 + ext_size (v_ip v - v_anchor v)) + (v_ip v - v_anchor v) \<and>
     bytes (v_mem v) (v_token v) (v_op v) =
       token_byte (nat (v_ip v - v_anchor v)) 0 # len_ext (nat (v_ip v - v_anchor v)) @ bytes m0 (v_anchor v) (v_ip v) \<and>
     (c_outputDirective a \<noteq> notLimited \<longrightarrow> v_op v + 5 \<le> c_olimit a)"

text \<open>The checks leave room for a run of literals and the overrun of its copy.\<close>

lemma literals_fit:
  assumes ok: "call_ok a m0 cap" and r: "room a qs op anchor" and ip: "anchor \<le> ip" "ip < c_mflimitPlusOne a"
    and lim: "c_outputDirective a = limitedOutput \<Longrightarrow> op + 1 + (ip - anchor) + 8 + (ip - anchor) div 255 \<le> c_olimit a"
    and fill: "c_outputDirective a = fillOutput \<Longrightarrow> op + 1 + (ip - anchor + 240) div 255 + (ip - anchor) + 11 \<le> c_olimit a"
  defines "new \<equiv> op + (1 + ext_size (ip - anchor)) + (ip - anchor)"
  shows "new + overrun (ip - anchor) \<le> c_dest a + cap" "c_outputDirective a \<noteq> notLimited \<Longrightarrow> new + 5 \<le> c_olimit a"
proof -
  let ?ll = "ip - anchor"
  have ll: "0 \<le> ?ll" using ip by simp
  have o: "overrun ?ll \<le> 8" "ext_size ?ll + overrun ?ll \<le> 8 + ?ll div 255"
    using ext_size_le [OF ll] ll by (auto simp: overrun_def ext_size_def pos_imp_zdiv_nonneg_iff)
  show "new + 5 \<le> c_olimit a" if "c_outputDirective a \<noteq> notLimited"
    using that lim fill ext_size_le [OF ll] ext_size_fill [OF ll]
    by (cases "c_outputDirective a") (auto simp: new_def)
  show "new + overrun ?ll \<le> c_dest a + cap"
  proof (cases "c_outputDirective a")
    case notLimited
    have "255 * ext_size ?ll \<le> ?ll + 240" using ext_size_bound [of ?ll] ll by (auto split: if_splits)
    moreover have "255 * (op - c_dest a) \<le> 256 * (anchor - c_source a)" using r by (simp add: room_def)
    ultimately have "255 * (new + overrun ?ll - c_dest a) \<le> 256 * c_inputSize a + 3826"
      using o(1) ip by (simp add: new_def c_limits)
    from capacity_bound [OF call_okD(14) [OF ok notLimited] this] show ?thesis by simp
  next
    case limitedOutput
    then show ?thesis using lim o call_okD(15) [OF ok] by (simp add: new_def c_limits)
  next
    case fillOutput
    then show ?thesis using fill o(1) ext_size_fill [OF ll] call_okD(15) [OF ok] by (simp add: new_def c_limits)
  qed
qed

text \<open>The token, the length bytes and the literals.\<close>

lemma write_literals:
  assumes ok: "call_ok a m0 cap" and fr: "frame m0 m (c_dest a) (c_dest a + cap)" and em: "emitted a M qs op anchor m"
    and ip: "anchor \<le> ip" "ip < c_mflimitPlusOne a"
    and fit: "op + (1 + ext_size (ip - anchor)) + (ip - anchor) + overrun (ip - anchor) \<le> c_dest a + cap"
  defines "mid \<equiv> op + (1 + ext_size (ip - anchor))"
  shows "\<exists>m1 m2. put_run_length m op (op + 1) (ip - anchor) = Some (mid, m1) \<and>
     LZ4_wildCopy8 m1 mid anchor (mid + (ip - anchor)) = Some m2 \<and> frame m0 m2 (c_dest a) (c_dest a + cap) \<and>
     emitted a M qs op anchor m2 \<and>
     bytes m2 op (mid + (ip - anchor)) = token_byte (nat (ip - anchor)) 0 # len_ext (nat (ip - anchor)) @ bytes m0 anchor ip"
proof -
  let ?ll = "ip - anchor"
  have ll: "0 \<le> ?ll" using ip by simp
  have op: "c_dest a \<le> op" "c_source a \<le> anchor" using emittedD(1,2) [OF em] by simp_all
  have ov: "0 \<le> overrun ?ll" "overrun ?ll \<le> 8" by (simp_all add: overrun_def)
  have ext: "0 \<le> ext_size ?ll" by (rule ext_size_nonneg)
  have "mapped m op mid"
    using op(1) fit ll ov(1) by (intro dest_mapped [OF ok fr]) (auto simp: mid_def)
  then obtain m1 where m1: "put_run_length m op (op + 1) ?ll = Some (mid, m1)" "frame m m1 op mid"
    "bytes m1 op mid = token_byte (nat ?ll) 0 # len_ext (nat ?ll)"
    using put_run_length_ok [OF ll, of m op] by (auto simp: mid_def)
  have fr1: "frame m0 m1 (c_dest a) (c_dest a + cap)"
    using op(1) fit ll ov(1) ext by (intro dest_frame [OF fr m1(2)]) (auto simp: mid_def)
  have src: "c_source a \<le> anchor" "anchor + ?ll + 8 \<le> c_iend a" using op(2) ip(2) by (auto simp: c_limits)
  have "mapped m1 anchor (anchor + ?ll + 8)" using src by (intro source_mapped [OF ok fr1])
  moreover have "mapped m1 mid (mid + ?ll + overrun ?ll)"
    using op(1) fit ext by (intro dest_mapped [OF ok fr1]) (auto simp: mid_def)
  moreover have "anchor + ?ll + 8 \<le> mid \<or> mid + ?ll + overrun ?ll \<le> anchor"
    using source_apart [OF ok] src op(1) fit ext by (auto simp: mid_def)
  ultimately obtain m2 where m2: "LZ4_wildCopy8 m1 mid anchor (mid + ?ll) = Some m2"
    "frame m1 m2 mid (mid + ?ll + overrun ?ll)" "bytes m2 mid (mid + ?ll) = bytes m1 anchor (anchor + ?ll)"
    using wildCopy8_run [OF ll] by blast
  have fr2: "frame m0 m2 (c_dest a) (c_dest a + cap)"
    using op(1) fit ext by (intro dest_frame [OF fr1 m2(2)]) (auto simp: mid_def)
  have "bytes m1 anchor (anchor + ?ll) = bytes m0 anchor ip"
    using source_bytes [OF ok fr1, of anchor ip] src by simp
  then have "bytes m2 op (mid + ?ll) = (token_byte (nat ?ll) 0 # len_ext (nat ?ll)) @ bytes m0 anchor ip"
    using append_after [OF m1(3) m2(2) m2(3)] ll ext by (simp add: mid_def)
  moreover have "frame m m2 op (mid + ?ll + overrun ?ll)"
    using frame_trans [OF frame_widen [OF m1(2), of op "mid + ?ll + overrun ?ll"]
        frame_widen [OF m2(2), of op "mid + ?ll + overrun ?ll"]] ll ov(1) ext by (simp add: mid_def)
  then have "emitted a M qs op anchor m2" using emitted_frame [OF em] by blast
  ultimately show ?thesis
    using m1(1) m2(1) fr2 by auto
qed

lemma encode_literals_ok:
  assumes ok: "call_ok a m0 cap" and w: "written a m0 cap qs (v_op v) (v_anchor v) (v_mem v)"
    and ip: "v_anchor v \<le> v_ip v" "v_ip v < c_mflimitPlusOne a"
  shows "\<exists>r. encode_literals a v = Some r \<and>
     (case r of
        Inl v' \<Rightarrow> pending a m0 cap qs v' \<and> v_ip v' = v_ip v \<and> v_match v' = v_match v \<and> v_anchor v' = v_anchor v \<and>
          v_lowLimit v' = v_lowLimit v \<and> v_strs v' = v_strs v \<and> v_filledIp v' = v_filledIp v \<and> v_offset v' = v_offset v
      | Inr (Last_literals v') \<Rightarrow> same_output v v' \<and> v_strs v' = v_strs v
      | Inr (Return_0 v') \<Rightarrow> c_outputDirective a = limitedOutput \<and> tight a cap \<and> v_mem v' = v_mem v \<and> v_strs v' = v_strs v)"
proof -
  let ?ll = "v_ip v - v_anchor v"
  have src: "c_source a \<le> v_anchor v" using emittedD(2) [OF writtenD(2) [OF w]] .
  have ll: "0 \<le> ?ll" "u32 ?ll = ?ll" "u32 (?ll + 240) = ?ll + 240"
    using ip src call_okD(4) [OF ok] by (auto simp: c_limits intro!: u32_id)
  consider (lim) "c_outputDirective a = limitedOutput" "v_op v + 1 + ?ll + 8 + ?ll div 255 > c_olimit a"
    | (fill) "c_outputDirective a = fillOutput" "v_op v + 1 + (?ll + 240) div 255 + ?ll + 11 > c_olimit a"
    | (fits) "c_outputDirective a = limitedOutput \<Longrightarrow> v_op v + 1 + ?ll + 8 + ?ll div 255 \<le> c_olimit a"
        "c_outputDirective a = fillOutput \<Longrightarrow> v_op v + 1 + (?ll + 240) div 255 + ?ll + 11 \<le> c_olimit a"
    by fastforce
  then show ?thesis
  proof cases
    case lim
    have "255 * (v_op v - c_dest a) \<le> 256 * (v_anchor v - c_source a)" using writtenD(3) [OF w] by (simp add: room_def)
    moreover have "255 * (?ll div 255) \<le> ?ll" by linarith
    ultimately have "255 * (v_op v + 1 + ?ll + 8 + ?ll div 255 - c_dest a) \<le> 256 * c_inputSize a + 3826"
      using ip by (simp add: c_limits)
    from tightI [OF this] have "tight a cap" using lim call_okD(15) [OF ok] by (simp add: c_limits)
    then show ?thesis using lim by (simp add: encode_literals_def Let_def ll)
  next
    case fill
    then show ?thesis by (simp add: encode_literals_def Let_def ll same_output_def)
  next
    case fits
    note fit = literals_fit [OF ok writtenD(3) [OF w] ip fits]
    from write_literals [OF ok writtenD(1,2) [OF w] ip fit(1)] obtain m1 m2 where m:
      "put_run_length (v_mem v) (v_op v) (v_op v + 1) ?ll = Some (v_op v + (1 + ext_size ?ll), m1)"
      "LZ4_wildCopy8 m1 (v_op v + (1 + ext_size ?ll)) (v_anchor v) (v_op v + (1 + ext_size ?ll) + ?ll) = Some m2"
      "frame m0 m2 (c_dest a) (c_dest a + cap)" "emitted a (view a m0) qs (v_op v) (v_anchor v) m2"
      "bytes m2 (v_op v) (v_op v + (1 + ext_size ?ll) + ?ll) =
         token_byte (nat ?ll) 0 # len_ext (nat ?ll) @ bytes m0 (v_anchor v) (v_ip v)" by blast
    let ?v = "v\<lparr>v_token := v_op v, v_op := v_op v + (1 + ext_size ?ll) + ?ll, v_mem := m2\<rparr>"
    have "encode_literals a v = Some (Inl ?v)"
      using fits m(1,2) by (auto simp: encode_literals_def Let_def ll)
    moreover have "pending a m0 cap qs ?v"
      using m(3-5) ip(1) fit(2) writtenD(3) [OF w] by (simp add: pending_def written_def)
    ultimately show ?thesis by auto
  qed
qed

end
