(* ===== verification/Lz4_CompressMatch.thy ===== *)
theory Lz4_CompressMatch
  imports Lz4_CompressLits
begin

unbundle bit_operations_syntax

text \<open>
  From \<open>_next_match\<close> to the end of the loop body: the offset, the length of the match, its shortening
  when the output is to be filled, the completed sequence, and the test of the next position.
\<close>

section \<open>The state at the label\<close>

text \<open>
  \<open>F\<close> is the last position in the table: the position where the match was found, which is past \<open>ip\<close>
  when catching up went back. The match is known to reach four bytes beyond it. After a match has been
  shortened \<open>filledIp\<close> may be stale, but then the output is full.
\<close>

definition at_match :: "cargs \<Rightarrow> mem \<Rightarrow> int \<Rightarrow> streams \<Rightarrow> lz4_seq list \<Rightarrow> int \<Rightarrow> cstate \<Rightarrow> bool" where
  "at_match a m0 cap S1 qs F v \<longleftrightarrow> pending a m0 cap qs v \<and>
     v_ip v \<le> F \<and> F < c_mflimitPlusOne a \<and> (\<exists>mt. matched a m0 v mt (F + 4 - v_ip v)) \<and>
     table_inv a m0 S1 (F + 1 - c_base a) (v_strs v) \<and>
     (F = max (v_filledIp v) (v_ip v) \<or> c_outputDirective a = fillOutput \<and> v_op v + 11 > c_olimit a)"

lemma at_matchD:
  assumes "at_match a m0 cap S1 qs F v"
  shows "pending a m0 cap qs v" "low_ok a (v_lowLimit v)" "v_ip v \<le> F" "F < c_mflimitPlusOne a"
    "\<exists>mt. matched a m0 v mt (F + 4 - v_ip v)" "table_inv a m0 S1 (F + 1 - c_base a) (v_strs v)"
    "F = max (v_filledIp v) (v_ip v) \<or> c_outputDirective a = fillOutput \<and> v_op v + 11 > c_olimit a"
  using assms by (auto simp: at_match_def matched_def dest: located_low)

lemma pendingD:
  assumes "pending a m0 cap qs v"
  shows "written a m0 cap qs (v_token v) (v_anchor v) (v_mem v)" "v_anchor v \<le> v_ip v"
    "v_op v = v_token v + (1 + ext_size (v_ip v - v_anchor v)) + (v_ip v - v_anchor v)"
    "bytes (v_mem v) (v_token v) (v_op v) =
       token_byte (nat (v_ip v - v_anchor v)) 0 # len_ext (nat (v_ip v - v_anchor v)) @ bytes m0 (v_anchor v) (v_ip v)"
    "c_outputDirective a \<noteq> notLimited \<Longrightarrow> v_op v + 5 \<le> c_olimit a" "v_token v < v_op v"
    "c_dest a \<le> v_token v" "c_source a \<le> v_anchor v"
  using assms ext_size_nonneg [of "v_ip v - v_anchor v"] by (auto simp: pending_def dest: writtenD emittedD)

section \<open>Clearing\<close>

definition table_has :: "cargs \<Rightarrow> streams \<Rightarrow> (int \<Rightarrow> int \<Rightarrow> bool) \<Rightarrow> streams \<Rightarrow> bool" where
  "table_has a S1 P S \<longleftrightarrow> (\<exists>s b. S1 (c_cctx a) = Some s \<and> S = S1(c_cctx a \<mapsto> s\<lparr>s_hashTable := b\<rparr>) \<and>
     entries_ok P (c_tableType a) (s\<lparr>s_hashTable := b\<rparr>))"

lemma table_inv_has: "table_inv a m0 S1 cur S \<longleftrightarrow> dict_table a S1 \<and> table_has a S1 (idx_ok a m0 cur) S"
  by (simp add: table_inv_def table_has_def)

lemma table_has_mono:
  assumes "table_has a S1 P S" "\<And>h i. P h i \<Longrightarrow> Q h i"
  shows "table_has a S1 Q S"
proof -
  obtain s b where s: "S1 (c_cctx a) = Some s" "S = S1(c_cctx a \<mapsto> s\<lparr>s_hashTable := b\<rparr>)"
    "entries_ok P (c_tableType a) (s\<lparr>s_hashTable := b\<rparr>)"
    using assms(1) unfolding table_has_def by blast
  have "entries_ok Q (c_tableType a) (s\<lparr>s_hashTable := b\<rparr>)" using entries_ok_mono [OF s(3)] assms(2) by blast
  with s(1,2) show ?thesis unfolding table_has_def by blast
qed

lemma table_clear:
  assumes ok: "call_ok a m0 cap" and t: "table_has a S1 P S" and h: "0 \<le> h" "h < slots (c_tableType a)"
    and Q: "\<And>h' i. h' \<noteq> h \<Longrightarrow> P h' i \<Longrightarrow> Q h' i" "Q h 0"
  shows "\<exists>S'. LZ4_clearHash S h (c_cctx a) (c_tableType a) = Some S' \<and> table_has a S1 Q S'"
proof -
  obtain s b where s: "S1 (c_cctx a) = Some s" "S = S1(c_cctx a \<mapsto> s\<lparr>s_hashTable := b\<rparr>)"
    "entries_ok P (c_tableType a) (s\<lparr>s_hashTable := b\<rparr>)"
    using t unfolding table_has_def by blast
  have "S (c_cctx a) = Some (s\<lparr>s_hashTable := b\<rparr>)" using s(2) by simp
  from clearHash_entries [of S "c_cctx a" "s\<lparr>s_hashTable := b\<rparr>" P "c_tableType a" h Q, OF this s(3)
      call_okD(1) [OF ok] h Q]
  obtain b' where "LZ4_clearHash S h (c_cctx a) (c_tableType a) =
      Some (S(c_cctx a \<mapsto> s\<lparr>s_hashTable := b, s_hashTable := b'\<rparr>))"
    "entries_ok Q (c_tableType a) (s\<lparr>s_hashTable := b, s_hashTable := b'\<rparr>)" by blast
  then show ?thesis using s(1,2) unfolding table_has_def by auto
qed

text \<open>Clearing the slots of the positions from \<open>lo\<close> to \<open>filled\<close> removes every entry from \<open>lo\<close> on.\<close>

lemma clear_ok:
  assumes ok: "call_ok a m0 cap" and fr: "frame m0 m (c_dest a) (c_dest a + cap)"
    and fill: "c_outputDirective a = fillOutput" and lo: "c_source a < lo" "filled < c_mflimitPlusOne a"
    and t: "table_inv a m0 S1 (filled + 1 - c_base a) S"
  shows "\<exists>S'. cloop (clear_body a m filled) (lo, S) = Some S' \<and> table_inv a m0 S1 (lo - c_base a) S'"
proof -
  define P where "P ptr h i \<longleftrightarrow> idx_ok a m0 (filled + 1 - c_base a) h i \<and> (i < lo - c_base a \<or> ptr - c_base a \<le> i)"
    for ptr h i
  have st: "c_startIndex a = 0" using call_okD(12) [OF ok fill] .
  show ?thesis
  proof (rule cloop_total [where \<mu> = "\<lambda>(ptr, S). nat (filled + 1 - ptr)" and
        I = "\<lambda>(ptr, S). lo \<le> ptr \<and> table_has a S1 (P ptr) S"])
    show "case (lo, S) of (ptr, S) \<Rightarrow> lo \<le> ptr \<and> table_has a S1 (P ptr) S"
      using t by (auto simp: table_inv_has P_def elim!: table_has_mono)
  next
    fix s assume "case s of (ptr, S) \<Rightarrow> lo \<le> ptr \<and> table_has a S1 (P ptr) S"
    then obtain ptr S where s: "s = (ptr, S)" "lo \<le> ptr" "table_has a S1 (P ptr) S" by (cases s) auto
    show "(\<exists>s'. clear_body a m filled s = Some (Inl s') \<and> (case s' of (ptr, S) \<Rightarrow> lo \<le> ptr \<and> table_has a S1 (P ptr) S) \<and>
        (case s' of (ptr, S) \<Rightarrow> nat (filled + 1 - ptr)) < (case s of (ptr, S) \<Rightarrow> nat (filled + 1 - ptr))) \<or>
      (\<exists>r. clear_body a m filled s = Some (Inr r) \<and> table_inv a m0 S1 (lo - c_base a) r)"
    proof (cases "ptr \<le> filled")
      case True
      then obtain h where h: "LZ4_hashPosition m ptr (c_tableType a) = Some h" "LZ4_hashPosition m0 ptr (c_tableType a) = Some h"
        "0 \<le> h" "h < slots (c_tableType a)"
        using hash_source [OF ok fr, of ptr] s(2) lo by auto
      have Q: "P (ptr + 1) h' i" if "h' \<noteq> h" "P ptr h' i" for h' i
      proof -
        have "i \<noteq> ptr - c_base a"
          using that h(2) fill s(2) lo(1) st by (auto simp: P_def idx_ok_def c_base_def)
        then show ?thesis using that(2) by (auto simp: P_def)
      qed
      have "P (ptr + 1) h 0"
        using st lo s(2) True by (auto simp: P_def idx_ok_def c_base_def)
      from table_clear [of a m0 cap S1 "P ptr" S h "P (ptr + 1)", OF ok s(3) h(3,4) Q this] obtain S' where
        "LZ4_clearHash S h (c_cctx a) (c_tableType a) = Some S'" "table_has a S1 (P (ptr + 1)) S'" by blast
      then show ?thesis using True h(1) s(2) unfolding s(1) by simp
    next
      case False
      have "table_has a S1 (idx_ok a m0 (lo - c_base a)) S"
        using False by (intro table_has_mono [OF s(3)]) (auto simp: P_def idx_ok_def)
      then show ?thesis using False t unfolding s(1) table_inv_has by simp
    qed
  qed
qed

section \<open>The offset\<close>

lemma offset_fits:
  assumes ok: "call_ok a m0 cap" and p: "pending a m0 cap qs v" and ip: "v_ip v < c_mflimitPlusOne a"
  shows "v_op v + 2 \<le> c_dest a + cap"
proof (cases "c_outputDirective a = notLimited")
  case True
  let ?ll = "v_ip v - v_anchor v"
  have "room a qs (v_token v) (v_anchor v)" using pendingD(1) [OF p] by (rule writtenD)
  then have "255 * (v_token v - c_dest a) \<le> 256 * (v_anchor v - c_source a)" by (simp add: room_def)
  moreover have "255 * ext_size ?ll \<le> ?ll + 240"
    using ext_size_bound [of ?ll] pendingD(2) [OF p] by (auto split: if_splits)
  ultimately have "255 * (v_op v + 2 - c_dest a) \<le> 256 * c_inputSize a + 3826"
    using pendingD(2,3) [OF p] ip by (simp add: c_limits)
  from capacity_bound [OF call_okD(14) [OF ok True] this] show ?thesis by simp
next
  case False
  then show ?thesis using pendingD(5) [OF p] call_okD(15) [OF ok] by (simp add: c_limits)
qed

lemma encode_offset_ok:
  assumes ok: "call_ok a m0 cap" and p: "pending a m0 cap qs v" and ip: "v_ip v < c_mflimitPlusOne a"
    and m: "matched a m0 v mt n"
  shows "\<exists>m'. encode_offset a v = Some (v\<lparr>v_op := v_op v + 2, v_mem := m'\<rparr>) \<and>
     frame (v_mem v) m' (v_op v) (v_op v + 2) \<and> written a m0 cap qs (v_token v) (v_anchor v) m' \<and>
     bytes m' (v_token v) (v_op v + 2) =
       token_byte (nat (v_ip v - v_anchor v)) 0 # len_ext (nat (v_ip v - v_anchor v)) @ bytes m0 (v_anchor v) (v_ip v) @
       le16 (nat (v_ip v - mt))"
proof -
  note w = pendingD(1) [OF p]
  have off: "0 \<le> v_ip v - mt" "u16 (v_ip v - mt) = v_ip v - mt"
    using m by (auto simp: matched_def match_at_def u16_id)
  have code: "(if c_maybe_extMem a then u16 (v_offset v) else u16 (v_ip v - v_match v)) = v_ip v - mt"
    using m off(2) located_prefix by (auto simp: matched_def)
  have "mapped (v_mem v) (v_op v) (v_op v + 2)"
    using pendingD(6,7) [OF p] offset_fits [OF ok p ip] by (intro dest_mapped [OF ok writtenD(1) [OF w]]) auto
  from writeLE16_ok [OF off(1) this] obtain m' where m':
    "LZ4_writeLE16 LZ4_isLittleEndian (v_mem v) (v_op v) (v_ip v - mt) = Some m'"
    "frame (v_mem v) m' (v_op v) (v_op v + 2)" "bytes m' (v_op v) (v_op v + 2) = le16 (nat (v_ip v - mt))" by blast
  have "encode_offset a v = Some (v\<lparr>v_op := v_op v + 2, v_mem := m'\<rparr>)"
    using m'(1) unfolding encode_offset_def code by simp
  moreover have "frame m0 m' (c_dest a) (c_dest a + cap)"
    using pendingD(6,7) [OF p] offset_fits [OF ok p ip] by (intro dest_frame [OF writtenD(1) [OF w] m'(2)]) auto
  moreover have "emitted a (view a m0) qs (v_token v) (v_anchor v) m'"
    using emitted_frame [OF writtenD(2) [OF w] frame_widen [OF m'(2)]] pendingD(6) [OF p] by auto
  moreover have "bytes m' (v_token v) (v_op v + 2) =
      (token_byte (nat (v_ip v - v_anchor v)) 0 # len_ext (nat (v_ip v - v_anchor v)) @ bytes m0 (v_anchor v) (v_ip v)) @
      le16 (nat (v_ip v - mt))"
    using pendingD(6) [OF p] by (intro append_after [OF pendingD(4) [OF p] m'(2,3)]) auto
  ultimately show ?thesis using m'(2) writtenD(3) [OF w] by (intro exI [of _ m']) (simp add: written_def)
qed

section \<open>The length of the match\<close>

text \<open>The count goes on to the first difference, so it passes the position where the match was found.\<close>

lemma agree_split: "agree m p q (k + n) = (if agree m p q k = k then k + agree m (p + int k) (q + int k) n else agree m p q k)"
  by (induction k arbitrary: p q) (simp_all add: ac_simps)

lemma agree_cong:
  "(\<And>k. k < n \<Longrightarrow> m (p + int k) = M (p' + int k) \<and> m (q + int k) = M (q' + int k)) \<Longrightarrow> agree m p q n = agree M p' q' n"
proof (induction n arbitrary: p p' q q')
  case (Suc n)
  have "agree m (p + 1) (q + 1) n = agree M (p' + 1) (q' + 1) n"
    using Suc.prems [of "Suc k" for k] by (intro Suc.IH) (simp add: ac_simps)
  then show ?case using Suc.prems [of 0] by simp
qed simp

text \<open>
  A count within a segment; and the count of the code, which goes on at the source when it reaches the
  end of the dictionary, computed in the view.
\<close>

lemma count_segment:
  assumes ok: "call_ok a m0 cap" and fr: "frame m0 m (c_dest a) (c_dest a + cap)" and sg: "view_segment a d lo hi"
    and p: "lo \<le> x" "x + int n \<le> hi" and q: "c_source a \<le> y" "y + int n \<le> c_iend a"
  shows "LZ4_count LZ4_isLittleEndian m y (x + d) (y + int n) = Some (int (agree (view a m0) x y n))"
proof -
  have mp: "mapped m (x + d) (x + d + int n)" "mapped m y (y + int n)"
    using segment_mapped [OF ok sg fr p] source_mapped [OF ok fr q] by (simp_all add: ac_simps)
  have "int n \<le> c_inputSize a" using q by (simp add: c_iend_def)
  then have n: "n < 2 ^ 32" using call_okD(4) [OF ok] by simp
  have "agree m (x + d) y n = agree (view a m0) x y n"
  proof (rule agree_cong)
    fix k assume k: "k < n"
    have "m (x + int k + d) = view a m0 (x + int k)" using segment_memory(1) [OF ok sg fr, of "x + int k"] p k by simp
    moreover have "m (y + int k) = view a m0 (y + int k)"
      using source_at(1) [OF ok fr, of "y + int k"] view_source [of a "y + int k" m0] q k by simp
    ultimately show "m (x + d + int k) = view a m0 (x + int k) \<and> m (y + int k) = view a m0 (y + int k)" by (simp add: ac_simps)
  qed
  then show ?thesis using LZ4_count_agree [OF mp n] by (simp add: LZ4_isLittleEndian_def)
qed

lemma match_length_agree:
  assumes ok: "call_ok a m0 cap" and fr: "frame m0 (v_mem v) (c_dest a) (c_dest a + cap)" and l: "located a (v_lowLimit v) (v_match v) mt"
    and ip: "c_source a \<le> v_ip v" "v_ip v + 4 + int n = c_matchlimit a" and mt: "mt < v_ip v"
  defines "k \<equiv> int (agree (view a m0) (mt + 4) (v_ip v + 4) n)"
  shows "match_length a v = Some (k, v_ip v + (k + 4))"
proof -
  obtain d lo hi where sg: "view_segment a d lo hi" "v_lowLimit v = lo + d" "v_match v = mt + d" "lo \<le> mt" "mt + 4 \<le> hi"
    using l unfolding located_def by blast
  have q: "c_source a \<le> v_ip v + 4" "v_ip v + 4 + int n \<le> c_iend a" using ip by (simp_all add: c_matchlimit_def)
  show ?thesis
  proof (cases "c_maybe_extMem a \<and> lo = c_low a \<and> hi = c_source a \<and> d = c_dictionary a - c_low a")
    case True
    then have ext: "c_dictDirective a = usingExtDict \<or> c_dictDirective a = usingDictCtx" "v_lowLimit v = c_dictionary a"
      using sg(2) by (simp_all add: c_maybe_extMem_def)
    have de: "c_dictEnd a - v_match v = c_source a - mt"
      using True call_ok_ext(6) [OF ok] sg(3) by (simp add: c_low_def)
    define n1 where "n1 = min n (nat (c_source a - mt - 4))"
    define n2 where "n2 = n - n1"
    have n: "n = n1 + n2" "int n1 \<le> c_source a - mt - 4" using sg(5) True by (auto simp: n1_def n2_def)
    define limit where "limit = v_ip v + 4 + int n1"
    have lim: "(if v_ip v + (c_dictEnd a - v_match v) > c_matchlimit a then c_matchlimit a else v_ip v + (c_dictEnd a - v_match v)) = limit"
      using ip(2) sg(5) True unfolding de by (auto simp: n1_def limit_def)
    let ?k1 = "agree (view a m0) (mt + 4) (v_ip v + 4) n1"
    have c1: "LZ4_count LZ4_isLittleEndian (v_mem v) (v_ip v + 4) (v_match v + 4) limit = Some (int ?k1)"
      using count_segment [OF ok fr sg(1), of "mt + 4" n1 "v_ip v + 4"] n sg(3,4) True q by (simp add: limit_def ac_simps)
    show ?thesis
    proof (cases "?k1 = n1")
      case True
      have "0 \<le> c_source a - mt - 4" using n(2) by simp
      then have sp: "int n1 = c_source a - mt - 4 \<or> n2 = 0" by (auto simp: n1_def n2_def)
      obtain so where so: "view_segment a 0 so (c_iend a)" "so \<le> c_source a" using source_segment [OF ok] by blast
      let ?k2 = "agree (view a m0) (c_source a) limit n2"
      have "c_source a + int n2 \<le> c_iend a" using q n(1) ip(1) by simp
      then have "LZ4_count LZ4_isLittleEndian (v_mem v) limit (c_source a) (limit + int n2) = Some (int ?k2)"
        using count_segment [OF ok fr so(1), of "c_source a" n2 limit] so(2) q n(1) ip(1) by (simp add: limit_def)
      moreover have "limit + int n2 = c_matchlimit a" using ip(2) n(1) by (simp add: limit_def)
      ultimately have c2: "LZ4_count LZ4_isLittleEndian (v_mem v) limit (c_source a) (c_matchlimit a) = Some (int ?k2)" by simp
      have "?k2 = agree (view a m0) (mt + 4 + int n1) (v_ip v + 4 + int n1) n2" using sp by (auto simp: limit_def)
      then have k: "k = int n1 + int ?k2" using True unfolding k_def n(1) agree_split by simp
      have "?k2 \<le> n2" by (rule agree_le)
      then have "0 \<le> k" "k < 4294967296" using k n(1) q(2) ip(1) call_okD(4) [OF ok] by (auto simp: c_iend_def)
      then have u: "u32 (int n1 + int ?k2) = k" unfolding k [symmetric] by (rule u32_id)
      have "v_ip v + (int n1 + MINMATCH) = limit" by (simp add: limit_def)
      then show ?thesis
        using ext c1 c2 True u k by (simp add: match_length_def lim MINMATCH_def Let_def)
    next
      case False
      then have k: "k = int ?k1" unfolding k_def n(1) agree_split by simp
      have "v_ip v + (int ?k1 + 4) \<noteq> limit" using False by (simp add: limit_def)
      then show ?thesis using ext c1 k by (simp add: match_length_def lim Let_def)
    qed
  next
    case False
    then have z: "d = 0" "hi = c_iend a" and nd: "c_maybe_extMem a \<Longrightarrow> lo = c_source a"
      using sg(1) unfolding view_segment_def by (auto split: if_splits)
    have "\<not> ((c_dictDirective a = usingExtDict \<or> c_dictDirective a = usingDictCtx) \<and> v_lowLimit v = c_dictionary a)"
      using nd call_ok_ext(3) [OF ok] sg(2) z(1) by (auto simp: c_maybe_extMem_def)
    moreover have "LZ4_count LZ4_isLittleEndian (v_mem v) (v_ip v + 4) (v_match v + 4) (c_matchlimit a) = Some k"
      using count_segment [OF ok fr sg(1), of "mt + 4" n "v_ip v + 4"] q sg(3,4) z ip(2) mt by (simp add: k_def)
    ultimately show ?thesis by (auto simp: match_length_def add.commute)
  qed
qed

lemma match_length_ok:
  assumes ok: "call_ok a m0 cap" and fr: "frame m0 (v_mem v) (c_dest a) (c_dest a + cap)"
    and ip: "c_source a \<le> v_ip v" "v_ip v \<le> F" "F < c_mflimitPlusOne a" and m: "matched a m0 v mt (F + 4 - v_ip v)"
  shows "\<exists>mc. match_length a v = Some (mc, v_ip v + (mc + 4)) \<and> 0 \<le> mc \<and> F + 4 \<le> v_ip v + (mc + 4) \<and>
     v_ip v + (mc + 4) \<le> c_matchlimit a \<and> match_at a (view a m0) (v_ip v) mt (mc + 4)"
proof -
  let ?M = "view a m0" let ?p = "mt + 4" let ?q = "v_ip v + 4"
  define n where "n = nat (c_matchlimit a - ?q)"
  have lim: "?q + int n = c_matchlimit a" "F - v_ip v \<le> int n" using ip(2,3) by (auto simp: n_def c_limits)
  have ma: "match_at a ?M (v_ip v) mt (F + 4 - v_ip v)" "located a (v_lowLimit v) (v_match v) mt" using m by (simp_all add: matched_def)
  let ?k = "agree ?M ?p ?q n"
  have kn: "int ?k \<le> int n" using agree_le by simp
  have m4: "?M (mt + k) = ?M (v_ip v + k)" if "0 \<le> k" "k < int ?k + 4" for k
  proof (cases "k < 4")
    case True
    then show ?thesis using ma(1) that ip(2) by (simp add: match_at_def)
  next
    case False
    then have "?M (?p + int (nat (k - 4))) = ?M (?q + int (nat (k - 4)))"
      using that by (intro agree_eq [where n = n]) simp
    then show ?thesis using False by (simp add: algebra_simps)
  qed
  have "F - v_ip v \<le> int ?k"
  proof (rule ccontr)
    assume c: "\<not> F - v_ip v \<le> int ?k"
    then have "?k < n" using lim(2) by simp
    then have "?M (?p + int ?k) \<noteq> ?M (?q + int ?k)" by (rule agree_maximal)
    moreover have "?M (mt + (4 + int ?k)) = ?M (v_ip v + (4 + int ?k))" using ma(1) c unfolding match_at_def by simp
    ultimately show False by (simp add: algebra_simps)
  qed
  moreover have "match_length a v = Some (int ?k, v_ip v + (int ?k + 4))"
    using match_length_agree [OF ok fr ma(2) ip(1) lim(1)] ma(1) by (simp add: match_at_def)
  moreover have "match_at a ?M (v_ip v) mt (int ?k + 4)"
    using ma(1) m4 by (simp add: match_at_def)
  ultimately show ?thesis using kn lim(1) by (intro exI [of _ "int ?k"]) auto
qed

section \<open>Fitting the match into the output\<close>

lemma fit_bound: "0 \<le> n \<Longrightarrow> n \<le> 2113929216 \<Longrightarrow> u32 (n + 240) = n + 240"
  by (rule u32_id) auto

text \<open>
  The shortened match: its length bytes end exactly six bytes before the end of the output, and it is
  shorter than the match that was found.
\<close>

lemma shortened:
  assumes d: "9 \<le> d" "d < 6 + (mc + 240) div 255" and mc: "0 \<le> mc" "mc \<le> 2113929216"
  defines "new \<equiv> u32 (15 - 1 + (u32 d - 1 - LASTLITERALS) * 255)"
  shows "new = 14 + (d - 6) * 255" "new < mc" "u32 (mc - new) = mc - new" "ext_size new = d - 6" "19 \<le> new"
proof -
  have "255 * ((mc + 240) div 255) \<le> mc + 240" by linarith
  moreover have "255 * (d - 5) \<le> 255 * ((mc + 240) div 255)" using d(2) by (intro mult_left_mono) linarith+
  ultimately have "255 * (d - 5) \<le> mc + 240" by (rule order_trans [rotated])
  then have le: "255 * (d - 6) + 15 \<le> mc" by (simp add: algebra_simps)
  have "u32 d = d" using d mc le by (intro u32_id) linarith+
  then show new: "new = 14 + (d - 6) * 255"
    using d(1) mc le unfolding new_def by (simp add: u32_id)
  have ge: "19 \<le> new" using d(1) unfolding new by presburger
  have lt: "new < mc" using le unfolding new by presburger
  show "19 \<le> new" "new < mc" by (rule ge, rule lt)
  show "u32 (mc - new) = mc - new" using ge lt mc by (intro u32_id) auto
  have "(14 + (d - 6) * 255 - 15) div 255 = d - 7" by simp
  then show "ext_size new = d - 6" using new d(1) by (simp add: ext_size_def)
qed

lemma fit_match_ok:
  assumes ok: "call_ok a m0 cap" and fr: "frame m0 (v_mem v) (c_dest a) (c_dest a + cap)"
    and ip: "c_source a \<le> v_ip v" "v_ip v \<le> F" "F < c_mflimitPlusOne a"
    and t: "table_inv a m0 S1 (F + 1 - c_base a) (v_strs v)"
    and F: "F = max (v_filledIp v) (v_ip v)" and nine: "c_outputDirective a = fillOutput \<Longrightarrow> v_op v + 9 \<le> c_olimit a"
    and mc: "0 \<le> mc" "F + 4 \<le> v_ip v + (mc + 4)" "v_ip v + (mc + 4) \<le> c_matchlimit a"
  shows "\<exists>r. fit_match a v mc (v_ip v + (mc + 4)) = Some r \<and>
     (case r of
        Inr _ \<Rightarrow> c_outputDirective a = limitedOutput \<and> v_op v + 6 + (mc + 240) div 255 > c_olimit a
      | Inl (mc', ip', S') \<Rightarrow> 0 \<le> mc' \<and> mc' \<le> mc \<and> ip' = v_ip v + (mc' + 4) \<and> table_inv a m0 S1 (ip' - c_base a) S' \<and>
          (c_outputDirective a \<noteq> notLimited \<longrightarrow> v_op v + ext_size mc' + 6 \<le> c_olimit a) \<and>
          (v_filledIp v < ip' \<or> c_outputDirective a = fillOutput \<and> v_op v + ext_size mc' + 6 = c_olimit a))"
proof -
  have small: "mc \<le> 2113929216" using mc(3) ip(1) call_okD(4) [OF ok] by (simp add: c_limits)
  have t': "table_inv a m0 S1 (v_ip v + (mc + 4) - c_base a) (v_strs v)"
    using mc(2) by (intro table_inv_mono [OF t]) simp
  let ?over = "v_op v + 6 + (mc + 240) div 255 > c_olimit a"
  consider (fits) "c_outputDirective a = notLimited \<or> \<not> ?over" | (lim) "c_outputDirective a = limitedOutput" ?over
    | (fill) "c_outputDirective a = fillOutput" ?over by (cases "c_outputDirective a") auto
  then show ?thesis
  proof cases
    case fits
    have "fit_match a v mc (v_ip v + (mc + 4)) = Some (Inl (mc, v_ip v + (mc + 4), v_strs v))"
      using fits by (auto simp: fit_match_def fit_bound [OF mc(1) small])
    moreover have "v_filledIp v < v_ip v + (mc + 4)" using F mc(2) by simp
    ultimately show ?thesis using fits mc(1) t' ext_size_fill [OF mc(1)] by auto
  next
    case lim
    then show ?thesis by (simp add: fit_match_def fit_bound [OF mc(1) small])
  next
    case fill
    let ?d = "c_olimit a - v_op v"
    define new where "new = u32 (15 - 1 + (u32 ?d - 1 - LASTLITERALS) * 255)"
    have d: "9 \<le> ?d" "?d < 6 + (mc + 240) div 255" using nine fill by auto
    note sh = shortened [OF d mc(1) small, folded new_def]
    let ?ip = "v_ip v + (new + 4)"
    have ip': "v_ip v + (mc + 4) - u32 (mc - new) = ?ip" using sh(3) by simp
    have "\<exists>S'. (if ?ip \<le> v_filledIp v then cloop (clear_body a (v_mem v) (v_filledIp v)) (?ip, v_strs v)
                else Some (v_strs v)) = Some S' \<and> table_inv a m0 S1 (?ip - c_base a) S'"
    proof (cases "?ip \<le> v_filledIp v")
      case True
      then have "F = v_filledIp v" using F sh(5) by auto
      then show ?thesis
        using True clear_ok [OF ok fr fill(1), of ?ip "v_filledIp v" S1 "v_strs v"] t ip sh(5) by simp
    next
      case False
      then have "F + 1 \<le> ?ip" using F sh(5) by auto
      then show ?thesis using False table_inv_mono [OF t, of "?ip - c_base a"] by simp
    qed
    then obtain S' where S': "(if ?ip \<le> v_filledIp v then cloop (clear_body a (v_mem v) (v_filledIp v)) (?ip, v_strs v)
                else Some (v_strs v)) = Some S'" "table_inv a m0 S1 (?ip - c_base a) S'" by blast
    have "u32 (u32 ?d * 255 - 1516) = new" by (simp add: new_def)
    then have "fit_match a v mc (v_ip v + (mc + 4)) = Some (Inl (new, ?ip, S'))"
      using fill S'(1) by (simp add: fit_match_def fit_bound [OF mc(1) small] Let_def sh(3) add.commute [of 4 new] split: if_splits)
    then show ?thesis using sh S'(2) fill by auto
  qed
qed

end
