(* ===== verification/Lz4_CompressLoop.thy ===== *)
theory Lz4_CompressLoop
  imports Lz4_CompressMatch
begin

unbundle bit_operations_syntax

text \<open>
  The parts of the loop body put together: a completed sequence, the test of the next position, the
  inner loop over adjacent matches, the main loop, the last literals, and the correctness of
  \<open>LZ4_compress_generic_validated\<close>.
\<close>

section \<open>Completing a sequence\<close>

lemma match_length_fits:
  assumes ok: "call_ok a m0 cap" and p: "pending a m0 cap qs v" and mc: "0 \<le> mc" "v_ip v + (mc + 4) \<le> c_matchlimit a"
    and lim: "c_outputDirective a \<noteq> notLimited \<Longrightarrow> v_op v + 2 + ext_size mc + 6 \<le> c_olimit a"
  shows "v_op v + 2 + ext_size mc + 3 \<le> c_dest a + cap"
proof (cases "c_outputDirective a = notLimited")
  case True
  let ?ll = "v_ip v - v_anchor v"
  have "room a qs (v_token v) (v_anchor v)" using pendingD(1) [OF p] by (rule writtenD)
  then have "255 * (v_token v - c_dest a) \<le> 256 * (v_anchor v - c_source a)" by (simp add: room_def)
  moreover have "255 * ext_size ?ll \<le> ?ll + 240" "255 * ext_size mc \<le> mc + 240"
    using ext_size_bound [of ?ll] ext_size_bound [of mc] pendingD(2) [OF p] mc(1) by (auto split: if_splits)
  ultimately have "255 * (v_op v + 2 + ext_size mc + 3 - c_dest a) \<le> 256 * c_inputSize a + 3826"
    using pendingD(2,3) [OF p] mc by (simp add: c_limits)
  from capacity_bound [OF call_okD(14) [OF ok True] this] show ?thesis by simp
next
  case False
  then show ?thesis using lim call_okD(15) [OF ok] by (simp add: c_limits)
qed

text \<open>The bound on the output survives a sequence.\<close>

lemma room_snoc:
  assumes r: "room a qs token anchor" and ip: "anchor \<le> ip" and mc: "0 \<le> mc"
    and op: "op = token + (3 + ext_size (ip - anchor) + (ip - anchor) + ext_size mc)"
    and lim: "c_outputDirective a \<noteq> notLimited \<Longrightarrow> op + 6 \<le> c_olimit a"
    and fill: "c_outputDirective a = fillOutput \<Longrightarrow> op - ext_size mc + 9 \<le> c_olimit a"
    and len: "seq_mlen q = nat (mc + 4)"
  shows "room a (qs @ [q]) op (ip + (mc + 4))"
proof -
  have "255 * (token - c_dest a) \<le> 256 * (anchor - c_source a)" using r by (simp add: room_def)
  moreover have "255 * (3 + ext_size (ip - anchor) + (ip - anchor) + ext_size mc) \<le> 256 * ((ip - anchor) + mc + 4)"
    using ip mc by (intro seq_size_bound) auto
  ultimately have bound: "255 * (op - c_dest a) \<le> 256 * (ip + (mc + 4) - c_source a)" by (simp add: op algebra_simps)
  have "13 \<le> int (nat (mc + 4)) + (c_olimit a - op)"
    if f: "c_outputDirective a = fillOutput"
  proof (cases "mc < 15")
    case True
    then have "ext_size mc = 0" by (simp add: ext_size_def)
    then show ?thesis using fill [OF f] mc by simp
  next
    case False
    then show ?thesis using lim f by simp
  qed
  then show ?thesis using bound lim by (auto simp: room_def len split: limitedOutput_directive.split)
qed

lemma close_sequence:
  assumes ok: "call_ok a m0 cap" and p: "pending a m0 cap qs v" and ip: "v_ip v < c_mflimitPlusOne a"
    and m: "match_at a (view a m0) (v_ip v) mt (mc + 4)" and mc: "0 \<le> mc" "v_ip v + (mc + 4) \<le> c_matchlimit a"
    and w: "written a m0 cap qs (v_token v) (v_anchor v) m'" "bytes m' (v_token v) (v_op v + 2) =
       token_byte (nat (v_ip v - v_anchor v)) 0 # len_ext (nat (v_ip v - v_anchor v)) @ bytes m0 (v_anchor v) (v_ip v) @
       le16 (nat (v_ip v - mt))"
    and lim: "c_outputDirective a \<noteq> notLimited \<Longrightarrow> v_op v + 2 + ext_size mc + 6 \<le> c_olimit a"
    and fill: "c_outputDirective a = fillOutput \<Longrightarrow> v_op v + 2 + 9 \<le> c_olimit a"
  shows "\<exists>m2 q. put_match_length m' (v_token v) (v_op v + 2) mc = Some (v_op v + 2 + ext_size mc, m2) \<and>
     written a m0 cap (qs @ [q]) (v_op v + 2 + ext_size mc) (v_ip v + (mc + 4)) m2"
proof -
  let ?ll = "v_ip v - v_anchor v" let ?lits = "bytes m0 (v_anchor v) (v_ip v)" let ?op = "v_op v + 2 + ext_size mc"
  let ?q = "LSeq ?lits (nat (v_ip v - mt)) (nat (mc + 4))"
  have lits: "bytes (view a m0) (v_anchor v) (v_ip v) = ?lits" using pendingD(8) [OF p] by (rule view_bytes)
  note fr = writtenD(1) [OF w(1)]
  have fit: "?op + 3 \<le> c_dest a + cap" by (rule match_length_fits [OF ok p mc lim])
  have ext: "0 \<le> ext_size mc" by (rule ext_size_nonneg)
  have tok: "v_token v < v_op v + 2" using pendingD(6) [OF p] by simp
  have mp: "mapped m' (v_token v) (?op + 3)"
    using pendingD(7) [OF p] fit by (intro dest_mapped [OF ok fr]) auto
  have tb: "bytes m' (v_token v) (v_token v + 1) @ bytes m' (v_token v + 1) (v_op v + 2) = bytes m' (v_token v) (v_op v + 2)"
    using tok by (intro bytes_append [symmetric]) auto
  obtain b where b: "m' (v_token v) = Some b" using mappedD [OF mp, of "v_token v"] tok ext by auto
  then have "bytes m' (v_token v) (v_token v + 1) = [b]" by (simp add: bytes_def)
  then have hd: "b = token_byte (nat ?ll) 0" and tl: "bytes m' (v_token v + 1) (v_op v + 2) =
      len_ext (nat ?ll) @ ?lits @ le16 (nat (v_ip v - mt))"
    using tb w(2) by simp_all
  from put_match_length_ok [OF mc(1) mp tok] b hd obtain m2 where m2:
    "put_match_length m' (v_token v) (v_op v + 2) mc = Some (?op, m2)" "frame m' m2 (v_token v) (?op + 3)"
    "bytes m2 (v_token v) ?op = token_byte (nat ?ll) (nat mc) # bytes m' (v_token v + 1) (v_op v + 2) @ len_ext (nat mc)"
    by blast
  have e: "emitted a (view a m0) qs (v_token v) (v_anchor v) m2"
    using emitted_frame [OF writtenD(2) [OF w(1)] m2(2)] .
  have out: "bytes m2 (v_token v) ?op = encode_seq ?q"
    using m2(3) tl pendingD(2) [OF p] mc(1) by (simp add: nat_diff_distrib nat_add_distrib)
  have "emitted a (view a m0) (qs @ [?q]) ?op (v_ip v + (mc + 4)) m2"
    using emitted_snoc [OF ok e pendingD(2) [OF p] _ m ip mc(2) _ out [folded lits]] mc(1) tok ext by (simp add: lits)
  moreover have "frame m0 m2 (c_dest a) (c_dest a + cap)"
    using dest_frame [OF fr m2(2)] pendingD(7) [OF p] fit by simp
  moreover have "room a (qs @ [?q]) ?op (v_ip v + (mc + 4))"
    using lim fill pendingD(3) [OF p]
    by (intro room_snoc [OF writtenD(3) [OF w(1)] pendingD(2) [OF p] mc(1)]) auto
  ultimately show ?thesis using m2(1) by (auto simp: written_def)
qed

section \<open>The next position\<close>

text \<open>There is room for one more token after every completed sequence.\<close>

lemma token_fits:
  assumes ok: "call_ok a m0 cap" and w: "written a m0 cap (qs @ [q]) op ip m" and ip: "ip < c_mflimitPlusOne a"
  shows "op + 1 \<le> c_dest a + cap" "c_outputDirective a \<noteq> notLimited \<Longrightarrow> op + 6 \<le> c_olimit a"
proof -
  have r: "room a (qs @ [q]) op ip" using w by (rule writtenD)
  show lim: "op + 6 \<le> c_olimit a" if "c_outputDirective a \<noteq> notLimited"
    using r that by (cases "c_outputDirective a") (auto simp: room_def)
  show "op + 1 \<le> c_dest a + cap"
  proof (cases "c_outputDirective a = notLimited")
    case True
    then have "255 * (op + 1 - c_dest a) \<le> 256 * c_inputSize a + 3826"
      using r ip by (simp add: room_def c_limits)
    from capacity_bound [OF call_okD(14) [OF ok True] this] show ?thesis by simp
  next
    case False
    then show ?thesis using lim call_okD(15) [OF ok] by (simp add: c_limits)
  qed
qed

lemma start_match_ok:
  assumes ok: "call_ok a m0 cap" and w: "written a m0 cap (qs @ [q]) (v_op v) (v_ip v) (v_mem v)" and anc: "v_anchor v = v_ip v"
    and ip: "v_ip v < c_mflimitPlusOne a"
  shows "\<exists>m'. start_match v = Some (v\<lparr>v_token := v_op v, v_op := v_op v + 1, v_mem := m'\<rparr>) \<and>
     pending a m0 cap (qs @ [q]) (v\<lparr>v_token := v_op v, v_op := v_op v + 1, v_mem := m'\<rparr>)"
proof -
  note fit = token_fits [OF ok w ip] and fr = writtenD(1) [OF w] and em = writtenD(2) [OF w]
  have "mapped (v_mem v) (v_op v) (v_op v + 1)"
    using emittedD(1) [OF em] fit(1) by (intro dest_mapped [OF ok fr]) auto
  then obtain m' where m': "store8 (v_mem v) (v_op v) 0 = Some m'" "frame (v_mem v) m' (v_op v) (v_op v + 1)"
    "bytes m' (v_op v) (v_op v + 1) = [0]"
    using store8_append [of "v_mem v" "v_op v" 0] by auto
  have "emitted a (view a m0) (qs @ [q]) (v_op v) (v_ip v) m'" using emitted_frame [OF em m'(2)] .
  moreover have "frame m0 m' (c_dest a) (c_dest a + cap)"
    using dest_frame [OF fr m'(2)] emittedD(1) [OF em] fit(1) by simp
  ultimately have "written a m0 cap (qs @ [q]) (v_op v) (v_ip v) m'"
    using writtenD(3) [OF w] by (simp add: written_def)
  then show ?thesis
    using m'(1,3) fit(2) anc by (auto simp: start_match_def pending_def ext_size_def token_byte_def len_ext_def)
qed

text \<open>
  The two outcomes of the test: a match at the next position, or the state in which the main loop
  continues once \<open>ip\<close> is advanced.
\<close>

lemma test_next_ok:
  assumes ok: "call_ok a m0 cap" and w: "written a m0 cap (qs @ [q]) (v_op v) (v_ip v) (v_mem v)" and anc: "v_anchor v = v_ip v"
    and ip: "c_source a + 2 \<le> v_ip v" "v_ip v < c_mflimitPlusOne a" and low: "low_ok a (v_lowLimit v)"
    and t: "table_inv a m0 S1 (v_ip v - c_base a) (v_strs v)"
    and filled: "v_filledIp v < v_ip v \<or> c_outputDirective a = fillOutput \<and> v_op v + 6 = c_olimit a"
  shows "\<exists>r. test_next_index a v = Some r \<and>
     (case r of
        Inl v' \<Rightarrow> at_match a m0 cap S1 (qs @ [q]) (v_ip v) v' \<and> v_ip v' = v_ip v
      | Inr v' \<Rightarrow> same_output v v' \<and> low_ok a (v_lowLimit v') \<and> v_ip v' = v_ip v \<and> table_inv a m0 S1 (v_ip v + 1 - c_base a) (v_strs v'))"
proof -
  let ?p = "v_ip v" let ?cp = "v_ip v - c_base a"
  note fr = writtenD(1) [OF w]
  obtain h2 where h2: "LZ4_hashPosition (v_mem v) (?p - 2) (c_tableType a) = Some h2"
    "LZ4_hashPosition m0 (?p - 2) (c_tableType a) = Some h2" "0 \<le> h2" "h2 < slots (c_tableType a)"
    using hash_source [OF ok fr, of "?p - 2"] ip by auto
  obtain h where h: "LZ4_hashPosition (v_mem v) ?p (c_tableType a) = Some h"
    "LZ4_hashPosition m0 ?p (c_tableType a) = Some h" "0 \<le> h" "h < slots (c_tableType a)"
    using hash_source [OF ok fr, of ?p] ip by auto
  have cp: "u32 ?cp = ?cp" "u32 (?p - 2 - c_base a) = ?p - 2 - c_base a"
    using position_index [OF ok, of ?p] position_index [OF ok, of "?p - 2"] ip by auto
  obtain Sa where put2: "LZ4_putIndexOnHash (v_strs v) (?p - 2 - c_base a) h2 (c_cctx a) (c_tableType a) = Some Sa"
    and ta: "table_inv a m0 S1 ?cp Sa"
    using table_put [OF ok t _ _ h2(2-4), of ?cp] ip by auto
  obtain i where get: "LZ4_getIndexOnHash Sa h (c_cctx a) (c_tableType a) = Some i" and i: "idx_ok a m0 ?cp h i"
    using table_get [OF ok ta h(3,4)] by blast
  obtain Sb where put: "LZ4_putIndexOnHash Sa ?cp h (c_cctx a) (c_tableType a) = Some Sb"
    and tb: "table_inv a m0 S1 (?p + 1 - c_base a) Sb"
    using table_put [OF ok ta _ ip(2) h(2-4), of "?p + 1 - c_base a"] ip by auto
  have src: "c_source a \<le> ?p" using ip(1) by simp
  obtain mt lw j where cand: "candidate a Sa h i (v_lowLimit v) = Some (mt, lw, j)" "low_ok a lw"
    "index_rejected a j ?cp \<or> located a lw mt (c_base a + j) \<and> c_base a + j < ?p \<and> ?p - (c_base a + j) \<le> 65535"
    using candidate_ok [OF ok ta i src ip(2) h(3,4) low] by blast
  define w' where "w' = v\<lparr>v_match := mt, v_lowLimit := lw, v_strs := Sb\<rparr>"
  define w2 where "w2 = (if c_maybe_extMem a then w'\<lparr>v_offset := u32 (?cp - j)\<rparr> else w')"
  have sel: "v_ip w' = ?p" "v_match w' = mt" "v_lowLimit w' = lw" "v_strs w' = Sb" "v_op w' = v_op v" "v_mem w' = v_mem v"
    "v_anchor w' = ?p" "v_filledIp w' = v_filledIp v"
    using anc by (simp_all add: w'_def)
  have sel2: "v_ip w2 = ?p" "v_strs w2 = Sb" "v_op w2 = v_op v" "v_mem w2 = v_mem v" "v_anchor w2 = ?p" "v_filledIp w2 = v_filledIp v"
    by (simp_all add: w2_def sel)
  have miss: "same_output v w' \<and> low_ok a (v_lowLimit w') \<and> v_ip w' = ?p \<and> table_inv a m0 S1 (?p + 1 - c_base a) (v_strs w')"
    using tb cand(2) by (simp add: w'_def same_output_def)
  have body: "test_next_index a v =
      (if index_rejected a j ?cp then Some (Inr w')
       else do {
         x \<leftarrow> LZ4_read32 LZ4_isLittleEndian (v_mem v) mt;
         y \<leftarrow> LZ4_read32 LZ4_isLittleEndian (v_mem v) ?p;
         if x = y then map_option Inl (start_match w2) else Some (Inr w') })"
    using h2(1) h(1) put2 put get cp cand(1)
    by (auto simp: test_next_index_def Let_def index_rejected_def w'_def w2_def cong: if_cong)
  show ?thesis
  proof (cases "index_rejected a j ?cp")
    case True
    then show ?thesis unfolding body using miss by simp
  next
    case nr: False
    then have win: "located a lw mt (c_base a + j)" "c_base a + j < ?p" "?p - (c_base a + j) \<le> 65535"
      using cand(3) by simp_all
    obtain x y where xy: "LZ4_read32 LZ4_isLittleEndian (v_mem v) mt = Some x"
      "LZ4_read32 LZ4_isLittleEndian (v_mem v) ?p = Some y"
      "x = y \<longleftrightarrow> (\<forall>k. 0 \<le> k \<and> k < 4 \<longrightarrow> view a m0 (c_base a + j + k) = view a m0 (?p + k))"
      using read32_pair [OF ok fr win(1) src] ip by (auto simp: c_limits)
    show ?thesis
    proof (cases "x = y")
      case True
      have m: "matched a m0 w2 (c_base a + j) 4"
        using win xy(3) True src ip(2) unfolding w2_def by (intro record_match [OF ok]) (simp_all add: sel)
      from start_match_ok [of a m0 cap qs q w2] ok w ip(2) obtain m' where m':
        "start_match w2 = Some (w2\<lparr>v_token := v_op v, v_op := v_op v + 1, v_mem := m'\<rparr>)"
        "pending a m0 cap (qs @ [q]) (w2\<lparr>v_token := v_op v, v_op := v_op v + 1, v_mem := m'\<rparr>)"
        by (auto simp: sel2)
      let ?w = "w2\<lparr>v_token := v_op v, v_op := v_op v + 1, v_mem := m'\<rparr>"
      have "matched a m0 ?w (c_base a + j) (?p + 4 - v_ip ?w)" using m by (simp add: matched_def sel2)
      then have "at_match a m0 cap S1 (qs @ [q]) ?p ?w"
        using m'(2) tb filled ip(2) unfolding at_match_def by (auto simp: sel2)
      then show ?thesis unfolding body using nr xy(1,2) True m'(1) by (simp add: sel2)
    next
      case False
      then show ?thesis unfolding body using nr xy(1,2) miss by simp
    qed
  qed
qed

end
