(* ===== verification/Lz4_CompressMain.thy ===== *)
theory Lz4_CompressMain
  imports Lz4_CompressLoop
begin

unbundle bit_operations_syntax

text \<open>
  The correctness of \<open>LZ4_compress_generic_validated\<close> for the tables of indexes: the loops end, nothing
  outside the destination changes, and the output is a block of the format that expands to the input,
  or to its consumed part when the output is to be filled.
\<close>

section \<open>One round from \<open>_next_match\<close>\<close>

definition main_inv :: "cargs \<Rightarrow> mem \<Rightarrow> int \<Rightarrow> streams \<Rightarrow> cstate \<Rightarrow> bool" where
  "main_inv a m0 cap S1 v \<longleftrightarrow> at_head a m0 S1 v \<and> (\<exists>qs. written a m0 cap qs (v_op v) (v_anchor v) (v_mem v))"

definition finished :: "cargs \<Rightarrow> mem \<Rightarrow> int \<Rightarrow> streams \<Rightarrow> cexit \<Rightarrow> bool" where
  "finished a m0 cap S1 e \<longleftrightarrow>
     (case e of
        Last_literals v \<Rightarrow> (\<exists>qs. written a m0 cap qs (v_op v) (v_anchor v) (v_mem v)) \<and>
          table_inv a m0 S1 (c_iend a - c_base a) (v_strs v)
      | Return_0 v \<Rightarrow> c_outputDirective a = limitedOutput \<and> tight a cap \<and> frame m0 (v_mem v) (c_dest a) (c_dest a + cap) \<and>
          table_inv a m0 S1 (c_iend a - c_base a) (v_strs v))"

text \<open>After the sequence is complete: the end of the input, an adjacent match, or the next search.\<close>

lemma after_sequence:
  assumes ok: "call_ok a m0 cap" and w: "written a m0 cap (qs @ [q]) (v_op v) (v_ip v) (v_mem v)" and anc: "v_anchor v = v_ip v"
    and ip: "c_source a + 2 \<le> v_ip v" and low: "low_ok a (v_lowLimit v)"
    and t: "table_inv a m0 S1 (v_ip v - c_base a) (v_strs v)"
    and filled: "v_filledIp v < v_ip v \<or> c_outputDirective a = fillOutput \<and> v_op v + 6 = c_olimit a"
  shows "\<exists>r. (if v_ip v \<ge> c_mflimitPlusOne a then Some (Inr (Inr (Last_literals v)))
      else do {
        r \<leftarrow> test_next_index a v;
        (case r of
           Inl v \<Rightarrow> Some (Inl v)
         | Inr v \<Rightarrow> do {
             forwardH \<leftarrow> LZ4_hashPosition (v_mem v) (v_ip v + 1) (c_tableType a);
             Some (Inr (Inl (v\<lparr>v_ip := v_ip v + 1, v_forwardH := forwardH\<rparr>))) }) }) = Some r \<and>
     (case r of
        Inl v' \<Rightarrow> (\<exists>qs F. at_match a m0 cap S1 qs F v') \<and> v_ip v' = v_ip v
      | Inr (Inl v') \<Rightarrow> main_inv a m0 cap S1 v' \<and> v_anchor v' = v_ip v
      | Inr (Inr e) \<Rightarrow> finished a m0 cap S1 e)"
proof (cases "v_ip v \<ge> c_mflimitPlusOne a")
  case True
  have "v_ip v \<le> c_iend a" using emittedD(3) [OF writtenD(2) [OF w]] .
  then have "table_inv a m0 S1 (c_iend a - c_base a) (v_strs v)" by (intro table_inv_mono [OF t]) simp
  then show ?thesis using True w anc by (auto simp: finished_def)
next
  case False
  then have lt: "v_ip v < c_mflimitPlusOne a" by simp
  from test_next_ok [OF ok w anc ip lt low t filled] obtain r where r: "test_next_index a v = Some r"
    "case r of Inl v' \<Rightarrow> at_match a m0 cap S1 (qs @ [q]) (v_ip v) v' \<and> v_ip v' = v_ip v
     | Inr v' \<Rightarrow> same_output v v' \<and> low_ok a (v_lowLimit v') \<and> v_ip v' = v_ip v \<and>
         table_inv a m0 S1 (v_ip v + 1 - c_base a) (v_strs v')" by blast
  show ?thesis
  proof (cases r)
    case (Inl v')
    then show ?thesis using r lt by auto
  next
    case (Inr v')
    then have v': "same_output v v'" "v_ip v' = v_ip v" "table_inv a m0 S1 (v_ip v + 1 - c_base a) (v_strs v')"
      "low_ok a (v_lowLimit v')"
      using r(2) by simp_all
    then have sm: "v_mem v' = v_mem v" "v_anchor v' = v_ip v" "v_op v' = v_op v"
      using anc by (simp_all add: same_output_def)
    obtain h where h: "LZ4_hashPosition (v_mem v) (v_ip v + 1) (c_tableType a) = Some h"
      "LZ4_hashPosition m0 (v_ip v + 1) (c_tableType a) = Some h"
      using hash_source [OF ok writtenD(1) [OF w], of "v_ip v + 1"] ip lt by auto
    have "main_inv a m0 cap S1 (v'\<lparr>v_ip := v_ip v + 1, v_forwardH := h\<rparr>)"
      using h(2) sm v' w lt ip by (auto simp: main_inv_def at_head_def)
    then show ?thesis using r(1) Inr lt sm v'(2) h(1) by simp
  qed
qed

text \<open>The output check fails only below the compress bound.\<close>

lemma gives_up:
  assumes ok: "call_ok a m0 cap" and p: "pending a m0 cap qs v" and mc: "0 \<le> mc" "v_ip v + (mc + 4) \<le> c_matchlimit a"
    and lim: "c_outputDirective a = limitedOutput" "v_op v + 2 + 6 + (mc + 240) div 255 > c_olimit a"
  shows "tight a cap"
proof -
  let ?ll = "v_ip v - v_anchor v"
  have "room a qs (v_token v) (v_anchor v)" using pendingD(1) [OF p] by (rule writtenD)
  then have "255 * (v_token v - c_dest a) \<le> 256 * (v_anchor v - c_source a)" by (simp add: room_def)
  moreover have "255 * ext_size ?ll \<le> ?ll + 240" using ext_size_bound [of ?ll] pendingD(2) [OF p] by (auto split: if_splits)
  moreover have "255 * ((mc + 240) div 255) \<le> mc + 240" by linarith
  ultimately have "255 * (v_op v + 2 + 6 + (mc + 240) div 255 - c_dest a) \<le> 256 * c_inputSize a + 3826"
    using pendingD(2,3) [OF p] mc by (simp add: c_limits)
  from tightI [OF this] show ?thesis using lim call_okD(15) [OF ok] by (simp add: c_limits)
qed

lemma next_match_ok:
  assumes ok: "call_ok a m0 cap" and am: "at_match a m0 cap S1 qs F v"
  shows "\<exists>r. next_match a v = Some r \<and>
     (case r of
        Inl v' \<Rightarrow> (\<exists>qs F. at_match a m0 cap S1 qs F v') \<and> v_ip v < v_ip v'
      | Inr (Inl v') \<Rightarrow> main_inv a m0 cap S1 v' \<and> v_ip v < v_anchor v'
      | Inr (Inr e) \<Rightarrow> finished a m0 cap S1 e)"
proof -
  note p = at_matchD(1) [OF am] and Fi = at_matchD(3,4) [OF am] and t = at_matchD(6) [OF am]
  obtain mt where m: "matched a m0 v mt (F + 4 - v_ip v)" using at_matchD(5) [OF am] by blast
  note w = pendingD(1) [OF p]
  have src: "c_source a \<le> v_ip v" using pendingD(2,8) [OF p] by simp
  have lt: "v_ip v < c_mflimitPlusOne a" using Fi by simp
  have tend: "table_inv a m0 S1 (c_iend a - c_base a) (v_strs v)"
    using Fi(2) by (intro table_inv_mono [OF t]) (simp add: c_limits)
  show ?thesis
  proof (cases "c_outputDirective a = fillOutput \<and> v_op v + 11 > c_olimit a")
    case True
    then have "next_match a v = Some (Inr (Inr (Last_literals (v\<lparr>v_op := v_token v\<rparr>))))"
      by (simp add: next_match_def)
    then show ?thesis using w tend by (auto simp: finished_def)
  next
    case False
    then have F: "F = max (v_filledIp v) (v_ip v)" using at_matchD(7) [OF am] by blast
    from encode_offset_ok [OF ok p lt m] obtain m' where m': "encode_offset a v = Some (v\<lparr>v_op := v_op v + 2, v_mem := m'\<rparr>)"
      "written a m0 cap qs (v_token v) (v_anchor v) m'"
      "bytes m' (v_token v) (v_op v + 2) = token_byte (nat (v_ip v - v_anchor v)) 0 # len_ext (nat (v_ip v - v_anchor v)) @
         bytes m0 (v_anchor v) (v_ip v) @ le16 (nat (v_ip v - mt))" by blast
    let ?v = "v\<lparr>v_op := v_op v + 2, v_mem := m'\<rparr>"
    have fr: "frame m0 (v_mem ?v) (c_dest a) (c_dest a + cap)" using writtenD(1) [OF m'(2)] by simp
    have mv: "matched a m0 ?v mt (F + 4 - v_ip ?v)" using m by (simp add: matched_def)
    from match_length_ok [OF ok fr _ _ Fi(2) mv] src Fi obtain mc where mc: "match_length a ?v = Some (mc, v_ip v + (mc + 4))"
      "0 \<le> mc" "F + 4 \<le> v_ip v + (mc + 4)" "v_ip v + (mc + 4) \<le> c_matchlimit a" "match_at a (view a m0) (v_ip v) mt (mc + 4)"
      by auto
    have pre: "c_source a \<le> v_ip ?v" "v_ip ?v \<le> F" "table_inv a m0 S1 (F + 1 - c_base a) (v_strs ?v)"
      "F = max (v_filledIp ?v) (v_ip ?v)" "c_outputDirective a = fillOutput \<Longrightarrow> v_op ?v + 9 \<le> c_olimit a"
      "F + 4 \<le> v_ip ?v + (mc + 4)" "v_ip ?v + (mc + 4) \<le> c_matchlimit a"
      using src Fi t F False mc(3,4) by auto
    from fit_match_ok [OF ok fr pre(1,2) Fi(2) pre(3-5) mc(2) pre(6,7)]
    obtain r where r0: "fit_match a ?v mc (v_ip ?v + (mc + 4)) = Some r"
      "case r of Inr _ \<Rightarrow> c_outputDirective a = limitedOutput \<and> v_op ?v + 6 + (mc + 240) div 255 > c_olimit a
       | Inl (mc', ip', S') \<Rightarrow> 0 \<le> mc' \<and> mc' \<le> mc \<and> ip' = v_ip ?v + (mc' + 4) \<and> table_inv a m0 S1 (ip' - c_base a) S' \<and>
          (c_outputDirective a \<noteq> notLimited \<longrightarrow> v_op ?v + ext_size mc' + 6 \<le> c_olimit a) \<and>
          (v_filledIp ?v < ip' \<or> c_outputDirective a = fillOutput \<and> v_op ?v + ext_size mc' + 6 = c_olimit a)"
      by blast
    have r: "fit_match a ?v mc (v_ip v + (mc + 4)) = Some r" using r0(1) by simp
    show ?thesis
    proof (cases r)
      case (Inr u)
      then have "next_match a v = Some (Inr (Inr (Return_0 (?v\<lparr>v_ip := v_ip v + (mc + 4)\<rparr>))))"
        using False m'(1) mc(1) r Inr by (auto simp: next_match_def)
      moreover have "tight a cap" using gives_up [OF ok p mc(2,4)] r0(2) Inr by simp
      ultimately show ?thesis using r0(2) Inr fr tend by (auto simp: finished_def)
    next
      case (Inl x)
      then obtain mc' S' where x: "x = (mc', v_ip v + (mc' + 4), S')" and mc': "0 \<le> mc'" "mc' \<le> mc"
        and t': "table_inv a m0 S1 (v_ip v + (mc' + 4) - c_base a) S'"
        and lim: "c_outputDirective a \<noteq> notLimited \<Longrightarrow> v_op v + 2 + ext_size mc' + 6 \<le> c_olimit a"
        and filled: "v_filledIp v < v_ip v + (mc' + 4) \<or>
          c_outputDirective a = fillOutput \<and> v_op v + 2 + ext_size mc' + 6 = c_olimit a"
        using r0(2) Inl by (cases x) auto
      have m4: "match_at a (view a m0) (v_ip v) mt (mc' + 4)" using match_at_mono [OF mc(5)] mc'(2) by simp
      from close_sequence [OF ok p lt m4 mc'(1) _ m'(2,3) lim] mc(4) mc'(2) False
      obtain m2 q where m2: "put_match_length m' (v_token v) (v_op v + 2) mc' = Some (v_op v + 2 + ext_size mc', m2)"
        "written a m0 cap (qs @ [q]) (v_op v + 2 + ext_size mc') (v_ip v + (mc' + 4)) m2" by fastforce
      define w' where "w' = ?v\<lparr>v_ip := v_ip v + (mc' + 4), v_anchor := v_ip v + (mc' + 4),
        v_op := v_op v + 2 + ext_size mc', v_mem := m2, v_strs := S'\<rparr>"
      have sel: "v_ip w' = v_ip v + (mc' + 4)" "v_anchor w' = v_ip w'" "v_op w' = v_op v + 2 + ext_size mc'" "v_mem w' = m2"
        "v_strs w' = S'" "low_ok a (v_lowLimit w')" "v_filledIp w' = v_filledIp v"
        using at_matchD(2) [OF am] by (simp_all add: w'_def)
      have bt: "c_tableType a \<noteq> byPtr" using call_okD(1) [OF ok] by (auto simp: index_table_def)
      have nm: "next_match a v =
         (if v_ip w' \<ge> c_mflimitPlusOne a then Some (Inr (Inr (Last_literals w')))
          else do {
            r \<leftarrow> test_next_index a w';
            (case r of
               Inl v \<Rightarrow> Some (Inl v)
             | Inr v \<Rightarrow> do {
                 forwardH \<leftarrow> LZ4_hashPosition (v_mem v) (v_ip v + 1) (c_tableType a);
                 Some (Inr (Inl (v\<lparr>v_ip := v_ip v + 1, v_forwardH := forwardH\<rparr>))) }) })"
        using False m'(1) mc(1) r Inl x m2(1) bt by (auto simp: next_match_def Let_def w'_def)
      have "written a m0 cap (qs @ [q]) (v_op w') (v_ip w') (v_mem w')" using m2(2) by (simp add: sel)
      moreover have "c_source a + 2 \<le> v_ip w'" using src mc'(1) by (simp add: sel)
      moreover have "table_inv a m0 S1 (v_ip w' - c_base a) (v_strs w')" using t' by (simp add: sel)
      moreover have "v_filledIp w' < v_ip w' \<or> c_outputDirective a = fillOutput \<and> v_op w' + 6 = c_olimit a"
        using filled by (simp add: sel)
      ultimately obtain r' where r': "next_match a v = Some r'"
        "case r' of
          Inl v' \<Rightarrow> (\<exists>qs F. at_match a m0 cap S1 qs F v') \<and> v_ip v' = v_ip w'
        | Inr (Inl v') \<Rightarrow> main_inv a m0 cap S1 v' \<and> v_anchor v' = v_ip w'
        | Inr (Inr e) \<Rightarrow> finished a m0 cap S1 e"
        unfolding nm using after_sequence [OF ok _ sel(2) _ sel(6)] by blast
      have "v_ip v < v_ip w'" using mc'(1) by (simp add: sel)
      then show ?thesis using r' by (auto split: sum.splits)
    qed
  qed
qed

section \<open>The loops\<close>

lemma next_match_loop:
  assumes ok: "call_ok a m0 cap" and am: "at_match a m0 cap S1 qs F v"
  shows "\<exists>r. cloop (next_match a) v = Some r \<and>
     (case r of Inl v' \<Rightarrow> main_inv a m0 cap S1 v' \<and> v_ip v < v_anchor v' | Inr e \<Rightarrow> finished a m0 cap S1 e)"
proof (rule cloop_total [where \<mu> = "\<lambda>w. nat (c_iend a - v_ip w)" and
      I = "\<lambda>w. (\<exists>qs F. at_match a m0 cap S1 qs F w) \<and> v_ip v \<le> v_ip w"])
  show "(\<exists>qs F. at_match a m0 cap S1 qs F v) \<and> v_ip v \<le> v_ip v" using am by blast
next
  fix w assume w: "(\<exists>qs F. at_match a m0 cap S1 qs F w) \<and> v_ip v \<le> v_ip w"
  then obtain qs F where am: "at_match a m0 cap S1 qs F w" by blast
  have lt: "v_ip w < c_iend a" using at_matchD(3,4) [OF am] by (simp add: c_limits)
  from next_match_ok [OF ok am] obtain r where r: "next_match a w = Some r"
    "case r of Inl v' \<Rightarrow> (\<exists>qs F. at_match a m0 cap S1 qs F v') \<and> v_ip w < v_ip v'
      | Inr (Inl v') \<Rightarrow> main_inv a m0 cap S1 v' \<and> v_ip w < v_anchor v' | Inr (Inr e) \<Rightarrow> finished a m0 cap S1 e" by blast
  show "(\<exists>s'. next_match a w = Some (Inl s') \<and> ((\<exists>qs F. at_match a m0 cap S1 qs F s') \<and> v_ip v \<le> v_ip s') \<and>
      nat (c_iend a - v_ip s') < nat (c_iend a - v_ip w)) \<or>
    (\<exists>r. next_match a w = Some (Inr r) \<and>
      (case r of Inl v' \<Rightarrow> main_inv a m0 cap S1 v' \<and> v_ip v < v_anchor v' | Inr e \<Rightarrow> finished a m0 cap S1 e))"
    using r w lt by (auto split: sum.splits)
qed

lemma main_body_ok:
  assumes ok: "call_ok a m0 cap" and mi: "main_inv a m0 cap S1 v"
  shows "\<exists>r. main_body a v = Some r \<and>
     (case r of Inl v' \<Rightarrow> main_inv a m0 cap S1 v' \<and> v_anchor v < v_anchor v' | Inr e \<Rightarrow> finished a m0 cap S1 e)"
proof -
  obtain qs where hd: "at_head a m0 S1 v" and w: "written a m0 cap qs (v_op v) (v_anchor v) (v_mem v)"
    using mi by (auto simp: main_inv_def)
  from find_match_ok [OF ok writtenD(1) [OF w] hd] obtain r where r: "find_match a v = Some r"
    "case r of Inl v' \<Rightarrow> found a m0 S1 v v' | Inr e \<Rightarrow> not_found a m0 S1 v e" by blast
  show ?thesis
  proof (cases r)
    case (Inr e)
    then obtain v' where "e = Last_literals v'" "same_output v v'" "table_inv a m0 S1 (c_iend a - c_base a) (v_strs v')"
      using r(2) by (auto simp: not_found_def)
    then have "finished a m0 cap S1 e" using w by (auto simp: finished_def same_output_def)
    then show ?thesis using r(1) Inr by (auto simp: main_body_def)
  next
    case (Inl v1)
    then have f: "same_output v v1" "v_ip v \<le> v_ip v1" "v_ip v1 < c_mflimitPlusOne a"
      "table_inv a m0 S1 (v_ip v1 + 1 - c_base a) (v_strs v1)"
      using r(2) by (simp_all add: found_def)
    obtain mt where mt: "matched a m0 v1 mt 4" using r(2) Inl by (auto simp: found_def)
    have s1: "v_anchor v1 = v_anchor v" "v_op v1 = v_op v" "v_mem v1 = v_mem v"
      "v_anchor v < v_ip v1" "c_source a \<le> v_anchor v"
      using f(1,2) hd by (auto simp: same_output_def at_head_def)
    from catch_up_ok [of a m0 cap v1 mt 4] ok writtenD(1) [OF w] s1 f(3) mt
    obtain v2 mt2 where v2: "catch_up v1 = Some v2" "same_output v1 v2" "v_strs v2 = v_strs v1" "v_filledIp v2 = v_ip v1"
      "v_anchor v \<le> v_ip v2" "v_ip v2 \<le> v_ip v1" "matched a m0 v2 mt2 (4 + (v_ip v1 - v_ip v2))"
      by (auto simp: c_limits)
    have s2: "v_anchor v2 = v_anchor v" "v_op v2 = v_op v" "v_mem v2 = v_mem v"
      using v2(2) s1 by (simp_all add: same_output_def)
    from encode_literals_ok [of a m0 cap qs v2] ok w s2 v2(5,6) f(3)
    obtain r2 where r2: "encode_literals a v2 = Some r2"
      "case r2 of
        Inl v' \<Rightarrow> pending a m0 cap qs v' \<and> v_ip v' = v_ip v2 \<and> v_match v' = v_match v2 \<and> v_anchor v' = v_anchor v2 \<and>
          v_lowLimit v' = v_lowLimit v2 \<and> v_strs v' = v_strs v2 \<and> v_filledIp v' = v_filledIp v2 \<and> v_offset v' = v_offset v2
      | Inr (Last_literals v') \<Rightarrow> same_output v2 v' \<and> v_strs v' = v_strs v2
      | Inr (Return_0 v') \<Rightarrow> c_outputDirective a = limitedOutput \<and> tight a cap \<and> v_mem v' = v_mem v2 \<and> v_strs v' = v_strs v2" by auto
    have tend: "table_inv a m0 S1 (c_iend a - c_base a) (v_strs v2)"
      using f(3) v2(3) by (auto intro!: table_inv_mono [OF f(4)] simp: c_limits)
    show ?thesis
    proof (cases r2)
      case (Inr e)
      then have "finished a m0 cap S1 e"
        using r2(2) tend w s2 writtenD(1) [OF w] by (cases e) (auto simp: finished_def same_output_def)
      then show ?thesis using r(1) Inl v2(1) r2(1) Inr by (auto simp: main_body_def)
    next
      case v3: (Inl v3)
      then have l3: "v_ip v3 = v_ip v2" "v_match v3 = v_match v2" "v_lowLimit v3 = v_lowLimit v2" "v_offset v3 = v_offset v2"
        "v_strs v3 = v_strs v2" "v_filledIp v3 = v_filledIp v2" "pending a m0 cap qs v3"
        using r2(2) by simp_all
      have "matched a m0 v3 mt2 (v_ip v1 + 4 - v_ip v3)" using v2(7) l3(1-4) by (simp add: matched_def algebra_simps)
      then have "at_match a m0 cap S1 qs (v_ip v1) v3"
        using l3 v2 s2 f(3,4) unfolding at_match_def by auto
      from next_match_loop [OF ok this] obtain r3 where r3: "cloop (next_match a) v3 = Some r3"
        "case r3 of Inl v' \<Rightarrow> main_inv a m0 cap S1 v' \<and> v_ip v3 < v_anchor v' | Inr e \<Rightarrow> finished a m0 cap S1 e" by blast
      have "v_anchor v \<le> v_ip v3" using r2(2) v3 v2(5) by simp
      then show ?thesis
        using r(1) Inl v2(1) r2(1) v3 r3 by (auto simp: main_body_def split: sum.splits)
    qed
  qed
qed

lemma main_loop_ok:
  assumes ok: "call_ok a m0 cap" and mi: "main_inv a m0 cap S1 v"
  shows "\<exists>e. cloop (main_body a) v = Some e \<and> finished a m0 cap S1 e"
proof (rule cloop_total [where \<mu> = "\<lambda>w. nat (c_iend a - v_anchor w)" and I = "main_inv a m0 cap S1"])
  fix w assume w: "main_inv a m0 cap S1 w"
  then have "v_anchor w < c_iend a" by (auto simp: main_inv_def at_head_def c_limits)
  then show "(\<exists>s'. main_body a w = Some (Inl s') \<and> main_inv a m0 cap S1 s' \<and>
      nat (c_iend a - v_anchor s') < nat (c_iend a - v_anchor w)) \<or>
    (\<exists>r. main_body a w = Some (Inr r) \<and> finished a m0 cap S1 r)"
    using main_body_ok [OF ok w] by (elim exE) (auto split: sum.splits)
qed (rule mi)

end
