(* ===== verification/Lz4_CompressResult.thy ===== *)
theory Lz4_CompressResult
  imports Lz4_CompressMain
begin

unbundle bit_operations_syntax

text \<open>
  The end of the block and the contract of the generic compressor.
\<close>

section \<open>The last literals\<close>

text \<open>What a call leaves: nothing, or a block that expands to the first \<open>n\<close> bytes of the input.\<close>

definition block_of :: "cargs \<Rightarrow> mem \<Rightarrow> int \<Rightarrow> int \<Rightarrow> mem \<Rightarrow> bool" where
  "block_of a m0 n r m' \<longleftrightarrow> (\<exists>qs ls. bytes m' (c_dest a) (c_dest a + r) = encode_block qs ls \<and>
     seqs_ok (c_hist a m0) qs \<and> block_end_ok qs ls \<and>
     expand (c_hist a m0) qs ls = c_hist a m0 @ bytes m0 (c_source a) (c_source a + n))"

definition comp_result :: "cargs \<Rightarrow> mem \<Rightarrow> int \<Rightarrow> int \<Rightarrow> int option \<Rightarrow> mem \<Rightarrow> bool" where
  "comp_result a m0 cap r consumed m' \<longleftrightarrow> frame m0 m' (c_dest a) (c_dest a + cap) \<and>
     (r = 0 \<and> consumed = None \<and> c_outputDirective a \<noteq> notLimited \<and>
        (c_outputDirective a = limitedOutput \<longrightarrow> tight a cap) \<and>
        (c_outputDirective a = fillOutput \<longrightarrow> c_maxOutputSize a < 1) \<or>
      0 < r \<and> r \<le> cap \<and> (c_outputDirective a = notLimited \<longrightarrow> r \<le> c_inputSize a + c_inputSize a div 255 + 16) \<and>
      (\<exists>n. 0 \<le> n \<and> n \<le> c_inputSize a \<and> consumed = (if c_outputDirective a = fillOutput then Some n else None) \<and>
        (c_outputDirective a \<noteq> fillOutput \<longrightarrow> n = c_inputSize a) \<and> block_of a (view a m0) n r m'))"

text \<open>The part of the input that fits when \<open>d\<close> bytes of output are left.\<close>

definition fill_run :: "int \<Rightarrow> int" where
  "fill_run d = d - 1 - (d + 240) div 256"

lemma fill_run_bounds:
  assumes "1 \<le> d"
  shows "0 \<le> fill_run d" "1 + ext_size (fill_run d) + fill_run d \<le> d" "fill_run d < d"
    "6 \<le> d \<Longrightarrow> 5 \<le> fill_run d" "fill_run d = d - 1 \<or> 14 \<le> fill_run d"
proof -
  define j where "j = (d - 16) div 256"
  define s where "s = (d - 16) mod 256"
  have ds: "d - 16 = 256 * j + s" "0 \<le> s" "s < 256" by (simp_all add: j_def s_def)
  have dj: "(d + 240) div 256 = 1 + j" unfolding j_def using div_add_self2 [of 256 "d - 16"] by simp
  have run: "fill_run d = 14 + 255 * j + s" unfolding fill_run_def dj using ds(1) by simp
  have ext: "0 \<le> fill_run d \<and> 1 + ext_size (fill_run d) + fill_run d \<le> d \<and> fill_run d < d \<and> (6 \<le> d \<longrightarrow> 5 \<le> fill_run d) \<and>
    (fill_run d = d - 1 \<or> 14 \<le> fill_run d)"
  proof (cases "d < 16")
    case True
    then have "j = - 1" using assms unfolding j_def by (simp add: div_eq_minus1)
    then have "fill_run d = d - 1" using run ds(1) by simp
    then show ?thesis using assms True by (simp add: ext_size_def)
  next
    case False
    then have j: "0 \<le> j" unfolding j_def by (simp add: pos_imp_zdiv_nonneg_iff)
    have "ext_size (14 + 255 * j + s) \<le> 1 + j"
    proof (cases "14 + 255 * j + s < 15")
      case True
      then show ?thesis using j by (simp add: ext_size_def)
    next
      case False
      have "(14 + 255 * j + s - 15) div 255 = ((s - 1) + 255 * j) div 255" by simp
      also have "\<dots> = j + (s - 1) div 255" by (rule div_mult_self2) simp
      also have "(s - 1) div 255 \<le> 0" using zdiv_mono1 [of "s - 1" 254 255] ds(3) by simp
      finally show ?thesis using False by (simp add: ext_size_def)
    qed
    then show ?thesis using run ds j by simp
  qed
  then show "0 \<le> fill_run d" "1 + ext_size (fill_run d) + fill_run d \<le> d" "fill_run d < d"
    "6 \<le> d \<Longrightarrow> 5 \<le> fill_run d" "fill_run d = d - 1 \<or> 14 \<le> fill_run d" by simp_all
qed

lemma ext_size_mono: "m \<le> n \<Longrightarrow> ext_size m \<le> ext_size n"
  using zdiv_mono1 [of "m - 15" "n - 15" 255] by (auto simp: ext_size_def pos_imp_zdiv_nonneg_iff)

lemma ext_size_round: "0 \<le> n \<Longrightarrow> (n + 240) div 255 = ext_size n"
  using ext_size_exact [of n] by (cases "15 \<le> n") (auto simp: ext_size_def)

text \<open>A literal run of \<open>n\<close> bytes closes the block.\<close>

lemma close_block:
  assumes ok: "call_ok a m0 cap" and fr: "frame m0 m (c_dest a) (c_dest a + cap)" and em: "emitted a (view a m0) qs op anchor m"
    and n: "0 \<le> n" "anchor + n \<le> c_iend a" and fit: "op + (1 + ext_size n) + n \<le> c_dest a + cap"
    and fin: "qs \<noteq> [] \<Longrightarrow> 5 \<le> n \<and> 12 \<le> int (seq_mlen (last qs)) + n"
  shows "\<exists>m1 m'. put_run_length m op (op + 1) n = Some (op + (1 + ext_size n), m1) \<and>
     memcpy m1 (op + (1 + ext_size n)) anchor n = Some m' \<and> frame m0 m' (c_dest a) (c_dest a + cap) \<and>
     block_of a (view a m0) (anchor + n - c_source a) (op + (1 + ext_size n) + n - c_dest a) m'"
proof -
  let ?mid = "op + (1 + ext_size n)"
  have op: "c_dest a \<le> op" "c_source a \<le> anchor" using emittedD(1,2) [OF em] by simp_all
  have low: "c_low a \<le> anchor" "c_low a \<le> c_source a" using op(2) call_okD(9) [OF ok] by (simp_all add: c_low_def)
  have ext: "0 \<le> ext_size n" by (rule ext_size_nonneg)
  have "mapped m op ?mid" using op(1) fit n(1) by (intro dest_mapped [OF ok fr]) auto
  then obtain m1 where m1: "put_run_length m op (op + 1) n = Some (?mid, m1)" "frame m m1 op ?mid"
    "bytes m1 op ?mid = token_byte (nat n) 0 # len_ext (nat n)"
    using put_run_length_ok [OF n(1), of m op] by auto
  have fr1: "frame m0 m1 (c_dest a) (c_dest a + cap)"
    using op(1) fit n(1) ext by (intro dest_frame [OF fr m1(2)]) auto
  let ?m' = "blit m1 ?mid anchor n"
  have mp: "mapped m1 anchor (anchor + n)" "mapped m1 ?mid (?mid + n)"
    using source_mapped [OF ok fr1 op(2) n(2)] dest_mapped [OF ok fr1, of ?mid "?mid + n"] op(1) ext fit by simp_all
  have "anchor + n \<le> ?mid \<or> ?mid + n \<le> anchor"
    using n source_apart [OF ok] op ext fit by linarith
  then have cp: "memcpy m1 ?mid anchor n = Some ?m'" "frame m1 ?m' ?mid (?mid + n)"
    by (rule memcpy_Some [OF n(1) mp]) (rule frame_blit [OF mp], simp_all)
  have fr2: "frame m0 ?m' (c_dest a) (c_dest a + cap)"
    using op(1) fit ext by (intro dest_frame [OF fr1 cp(2)]) auto
  let ?ls = "bytes m0 anchor (anchor + n)" let ?M = "view a m0" let ?h = "c_hist a (view a m0)"
  have lits: "bytes ?M anchor (anchor + n) = ?ls" "bytes ?M (c_source a) (anchor + n) = bytes m0 (c_source a) (anchor + n)"
    using op(2) by (simp_all add: view_bytes)
  have "bytes ?m' ?mid (?mid + n) = bytes m1 anchor (anchor + n)"
  proof (rule nth_equalityI)
    show "length (bytes ?m' ?mid (?mid + n)) = length (bytes m1 anchor (anchor + n))" by simp
    fix k assume "k < length (bytes ?m' ?mid (?mid + n))"
    then show "bytes ?m' ?mid (?mid + n) ! k = bytes m1 anchor (anchor + n) ! k"
      by (auto simp: nth_bytes blit_def)
  qed
  also have "\<dots> = ?ls" using op(2) n(2) by (intro source_bytes [OF ok fr1]) auto
  finally have "bytes ?m' op (?mid + n) = (token_byte (nat n) 0 # len_ext (nat n)) @ ?ls"
    using append_after [OF m1(3) cp(2)] n(1) ext by simp
  moreover have "bytes ?m' (c_dest a) op = concat (map encode_seq qs)"
  proof -
    have "frame m ?m' op (?mid + n)"
      using frame_trans [OF frame_widen [OF m1(2), of op "?mid + n"] frame_widen [OF cp(2), of op "?mid + n"]] n(1) ext by simp
    then show ?thesis using emittedD(4) [OF emitted_frame [OF em]] by blast
  qed
  ultimately have "bytes ?m' (c_dest a) (?mid + n) = encode_block qs ?ls"
    using bytes_append [of "c_dest a" op "?mid + n" ?m'] op(1) ext n(1) by (simp add: encode_block_def encode_last_def)
  moreover have "block_end_ok qs ?ls"
    using fin n(1) by (cases "qs = []") (auto simp: block_end_ok_def)
  moreover have "expand ?h qs ?ls = ?h @ bytes ?M (c_source a) (anchor + n)"
  proof -
    have "expand ?h qs ?ls = bytes ?M (c_low a) (anchor + n)"
      using emittedD(6) [OF em] bytes_append [of "c_low a" anchor "anchor + n" ?M] low n(1) by (simp add: expand_def lits)
    also have "\<dots> = ?h @ bytes ?M (c_source a) (anchor + n)"
      using bytes_append [of "c_low a" "c_source a" "anchor + n" ?M] low op(2) n(1) by (simp add: c_hist_def)
    finally show ?thesis .
  qed
  ultimately have "block_of a ?M (anchor + n - c_source a) (?mid + n - c_dest a) ?m'"
    using emittedD(5) [OF em] unfolding block_of_def
    by (intro exI [of _ qs] exI [of _ ?ls]) (simp only: diff_add_cancel add_diff_cancel_left' add.commute [of _ "_ - _"] simp_thms)
  then show ?thesis using m1(1) cp(1) fr2 by blast
qed

text \<open>The run chosen by the code closes a legal block.\<close>

text \<open>What the end of a block needs of the output; the room that the main loop keeps implies it.\<close>

definition end_room :: "cargs \<Rightarrow> lz4_seq list \<Rightarrow> int \<Rightarrow> int \<Rightarrow> bool" where
  "end_room a qs op anchor \<longleftrightarrow> 255 * (op - c_dest a) \<le> 256 * (anchor - c_source a) \<and>
     (c_outputDirective a = fillOutput \<and> qs \<noteq> [] \<longrightarrow> op + 6 \<le> c_olimit a \<and> 13 \<le> int (seq_mlen (last qs)) + (c_olimit a - op))"

lemma room_end: "room a qs op anchor \<Longrightarrow> end_room a qs op anchor"
  by (cases "c_outputDirective a") (auto simp: room_def end_room_def)

lemma fill_left:
  assumes "emitted a (view a m0) qs op anchor m" "end_room a qs op anchor" "c_outputDirective a = fillOutput" "1 \<le> c_maxOutputSize a"
  shows "1 \<le> c_olimit a - op"
proof (cases "qs = []")
  case True
  have e: "c_dest a \<le> op" "bytes m (c_dest a) op = concat (map encode_seq qs)" using emittedD(1,4) [OF assms(1)] by simp_all
  then have "length (bytes m (c_dest a) op) = 0" using True by simp
  then have "op = c_dest a" using e(1) by simp
  then show ?thesis using assms(4) by (simp add: c_olimit_def)
next
  case False
  then show ?thesis using assms(2,3) by (simp add: end_room_def)
qed

text \<open>The run of the last literals: all that is left of the input, or what fits.\<close>

definition last_full :: "cargs \<Rightarrow> int \<Rightarrow> int \<Rightarrow> bool" where
  "last_full a op anchor \<longleftrightarrow> c_outputDirective a \<noteq> notLimited \<and>
     op + (c_iend a - anchor) + 1 + ext_size (c_iend a - anchor) > c_olimit a"

definition last_run :: "cargs \<Rightarrow> int \<Rightarrow> int \<Rightarrow> int" where
  "last_run a op anchor = (if last_full a op anchor then fill_run (c_olimit a - op) else c_iend a - anchor)"

text \<open>What \<open>closes\<close> says of a run \<open>n\<close>: it can be written, and the result is a block.\<close>

definition closes :: "cargs \<Rightarrow> mem \<Rightarrow> int \<Rightarrow> int \<Rightarrow> int \<Rightarrow> mem \<Rightarrow> int \<Rightarrow> bool" where
  "closes a m0 cap op anchor m n \<longleftrightarrow> (\<exists>m1 m'. put_run_length m op (op + 1) n = Some (op + (1 + ext_size n), m1) \<and>
     memcpy m1 (op + (1 + ext_size n)) anchor n = Some m' \<and>
     s32 (op + (1 + ext_size n) + n - c_dest a) = op + (1 + ext_size n) + n - c_dest a \<and>
     s32 (anchor + n - c_source a) = anchor + n - c_source a \<and>
     comp_result a m0 cap (op + (1 + ext_size n) + n - c_dest a)
       (if c_outputDirective a = fillOutput then Some (anchor + n - c_source a) else None) m')"

lemma last_run_rest:
  assumes ok: "call_ok a m0 cap" and fr: "frame m0 m (c_dest a) (c_dest a + cap)" and em: "emitted a (view a m0) qs op anchor m"
    and rm: "end_room a qs op anchor" and nf: "\<not> last_full a op anchor"
  shows "closes a m0 cap op anchor m (c_iend a - anchor)"
proof -
  let ?l = "c_iend a - anchor"
  have l: "0 \<le> ?l" "?l \<le> c_inputSize a" using emittedD(2,3) [OF em] by (auto simp: c_limits)
  have op: "c_dest a \<le> op" using emittedD(1) [OF em] .
  have small: "op + (1 + ext_size ?l) + ?l - c_dest a \<le> c_inputSize a + c_inputSize a div 255 + 16"
    if "c_outputDirective a = notLimited"
  proof (rule capacity_bound [OF order_refl])
    have "255 * ext_size ?l \<le> ?l + 240" using ext_size_bound [of ?l] l(1) by (auto split: if_splits)
    then show "255 * (op + (1 + ext_size ?l) + ?l - c_dest a) \<le> 256 * c_inputSize a + 3826"
      using rm that by (simp add: end_room_def c_limits)
  qed
  have fit: "op + (1 + ext_size ?l) + ?l \<le> c_dest a + cap"
    using nf small call_okD(14,15) [OF ok] by (cases "c_outputDirective a = notLimited") (auto simp: c_limits last_full_def)
  have fin: "5 \<le> ?l \<and> 12 \<le> int (seq_mlen (last qs)) + ?l" if "qs \<noteq> []"
    using emittedD(7,8) [OF em that] by (simp add: c_limits)
  from close_block [OF ok fr em l(1) _ fit fin] obtain m1 m' where m':
    "put_run_length m op (op + 1) ?l = Some (op + (1 + ext_size ?l), m1)"
    "memcpy m1 (op + (1 + ext_size ?l)) anchor ?l = Some m'" "frame m0 m' (c_dest a) (c_dest a + cap)"
    "block_of a (view a m0) (anchor + ?l - c_source a) (op + (1 + ext_size ?l) + ?l - c_dest a) m'" by auto
  define r where "r = op + (1 + ext_size ?l) + ?l - c_dest a"
  have r: "0 < r" "r \<le> cap" "s32 r = r"
  proof -
    show "0 < r" using op l(1) ext_size_nonneg [of ?l] by (simp add: r_def)
    show "r \<le> cap" using fit by (simp add: r_def)
    have "r < 2147483648"
    proof (cases "c_outputDirective a = notLimited")
      case True
      have "c_inputSize a div 255 \<le> 2113929216 div 255" using call_okD(4) [OF ok] by (intro zdiv_mono1) auto
      then show ?thesis using small [OF True] call_okD(4) [OF ok] by (simp add: r_def)
    next
      case False
      then show ?thesis using call_okD(16) [OF ok] \<open>r \<le> cap\<close> by simp
    qed
    then show "s32 r = r" using \<open>0 < r\<close> by (intro s32_id) auto
  qed
  have n: "anchor + ?l - c_source a = c_inputSize a" by (simp add: c_iend_def)
  have "s32 (c_inputSize a) = c_inputSize a" using call_okD(3,4) [OF ok] by (intro s32_id) auto
  moreover have "comp_result a m0 cap r (if c_outputDirective a = fillOutput then Some (c_inputSize a) else None) m'"
    using m'(3,4) r small call_okD(3) [OF ok] unfolding n r_def [symmetric] by (auto simp: comp_result_def)
  ultimately show ?thesis using m'(1,2) r(3) unfolding closes_def n r_def [symmetric] by blast
qed

lemma last_run_fill:
  assumes ok: "call_ok a m0 cap" and fr: "frame m0 m (c_dest a) (c_dest a + cap)" and em: "emitted a (view a m0) qs op anchor m"
    and rm: "end_room a qs op anchor" and fl: "last_full a op anchor" and fill: "c_outputDirective a = fillOutput"
    and pos: "1 \<le> c_maxOutputSize a"
  defines "d \<equiv> c_olimit a - op"
  shows "closes a m0 cap op anchor m (fill_run d)"
    "u64 (u64 (u64 d - 1) - u64 (u64 (u64 d - 1) + 256 - RUN_MASK) div 256) = fill_run d"
proof -
  let ?l = "c_iend a - anchor" let ?n = "fill_run d"
  have l: "0 \<le> ?l" "?l \<le> c_inputSize a" using emittedD(2,3) [OF em] by (auto simp: c_limits)
  have op: "c_dest a \<le> op" using emittedD(1) [OF em] .
  have cap31: "cap < 2147483648" using fill call_okD(16) [OF ok] by simp
  have d: "1 \<le> d" unfolding d_def by (rule fill_left [OF em rm fill pos])
  have dm: "d < 2147483648" using op cap31 fill call_okD(15) [OF ok] by (simp add: c_limits d_def)
  note fb = fill_run_bounds [OF d]
  have lt: "?n < ?l"
  proof (rule ccontr)
    assume "\<not> ?n < ?l"
    then show False using ext_size_mono [of ?l ?n] fb(2) fl by (simp add: last_full_def d_def)
  qed
  have fit: "op + (1 + ext_size ?n) + ?n \<le> c_dest a + cap"
    using fb(2) call_okD(15) [OF ok] fill by (simp add: c_limits d_def)
  have fin: "5 \<le> ?n \<and> 12 \<le> int (seq_mlen (last qs)) + ?n" if "qs \<noteq> []"
    using rm fill that fb(4,5) by (auto simp: end_room_def d_def)
  have "anchor + ?n \<le> c_iend a" using lt by simp
  from close_block [OF ok fr em fb(1) this fit fin] obtain m1 m' where m':
    "put_run_length m op (op + 1) ?n = Some (op + (1 + ext_size ?n), m1)"
    "memcpy m1 (op + (1 + ext_size ?n)) anchor ?n = Some m'" "frame m0 m' (c_dest a) (c_dest a + cap)"
    "block_of a (view a m0) (anchor + ?n - c_source a) (op + (1 + ext_size ?n) + ?n - c_dest a) m'" by auto
  define r where "r = op + (1 + ext_size ?n) + ?n - c_dest a"
  define n where "n = anchor + ?n - c_source a"
  have r: "0 < r" "r \<le> cap" "s32 r = r"
    using op fit fb(1) ext_size_nonneg [of ?n] cap31 by (auto simp: r_def intro!: s32_id)
  have n: "0 \<le> n" "n \<le> c_inputSize a" "s32 n = n"
    using emittedD(2) [OF em] fb(1) lt call_okD(4) [OF ok] by (auto simp: n_def c_limits intro!: s32_id)
  have "comp_result a m0 cap r (Some n) m'"
    using m'(3,4) r n fill unfolding r_def [symmetric] n_def [symmetric] by (auto simp: comp_result_def)
  then show "closes a m0 cap op anchor m ?n"
    using m'(1,2) r(3) n(3) fill unfolding closes_def r_def [symmetric] n_def [symmetric] by simp
  have "u64 d = d" using d dm by (intro u64_id) auto
  moreover have "u64 (d - 1) = d - 1" using d dm by (intro u64_id) auto
  moreover have "u64 (d - 1 + 256 - RUN_MASK) = d + 240" using d dm by (subst u64_id) auto
  moreover have "u64 ?n = ?n" using fb(1,3) dm by (intro u64_id) auto
  ultimately show "u64 (u64 (u64 d - 1) - u64 (u64 (u64 d - 1) + 256 - RUN_MASK) div 256) = fill_run d"
    by (simp only: fill_run_def)
qed

text \<open>A call with limited output gives up only when the capacity is below the bound.\<close>

lemma last_run_tight:
  assumes ok: "call_ok a m0 cap" and em: "emitted a (view a m0) qs op anchor m" and rm: "end_room a qs op anchor" and fl: "last_full a op anchor"
  shows "tight a cap"
proof -
  let ?l = "c_iend a - anchor"
  have "0 \<le> ?l" using emittedD(2,3) [OF em] by simp
  then have "255 * ext_size ?l \<le> ?l + 240" using ext_size_bound [of ?l] by (auto split: if_splits)
  then have "255 * (op + ?l + 1 + ext_size ?l - c_dest a) \<le> 256 * c_inputSize a + 3826"
    using rm by (simp add: end_room_def c_limits)
  then show ?thesis by (rule tightI) (use fl call_okD(15) [OF ok] in \<open>simp add: c_limits last_full_def\<close>)
qed

text \<open>The sizes as the code computes them.\<close>

lemma last_sizes:
  assumes ok: "call_ok a m0 cap" and em: "emitted a (view a m0) qs op anchor m"
  shows "u64 (c_iend a - anchor) = c_iend a - anchor"
    "u64 (c_iend a - anchor + 255 - RUN_MASK) div 255 = ext_size (c_iend a - anchor)"
proof -
  let ?l = "c_iend a - anchor"
  have l: "0 \<le> ?l" "?l \<le> c_inputSize a" using emittedD(2,3) [OF em] by (auto simp: c_limits)
  have "?l + 255 - RUN_MASK = ?l + 240" by simp
  moreover have "u64 (?l + 240) = ?l + 240" using l call_okD(4) [OF ok] by (intro u64_id; simp)
  ultimately show "u64 (?l + 255 - RUN_MASK) div 255 = ext_size ?l" by (simp only: ext_size_round [OF l(1)])
  show "u64 ?l = ?l" using l call_okD(4) [OF ok] by (intro u64_id; simp)
qed

lemma last_run_ok:
  assumes ok: "call_ok a m0 cap" and w: "written a m0 cap qs (v_op v) (v_anchor v) (v_mem v)"
    and pos: "c_outputDirective a = fillOutput \<Longrightarrow> 1 \<le> c_maxOutputSize a"
  shows "\<exists>r consumed m'. last_literals a v = Some (r, consumed, m', v_strs v) \<and> comp_result a m0 cap r consumed m'"
proof -
  let ?op = "v_op v" let ?an = "v_anchor v"
  note fr = writtenD(1) [OF w] and em = writtenD(2) [OF w] and rm = room_end [OF writtenD(3) [OF w]]
  have full: "(c_outputDirective a \<noteq> notLimited \<and> ?op + (c_iend a - ?an) + 1 + ext_size (c_iend a - ?an) > c_olimit a) =
      last_full a ?op ?an" by (simp add: last_full_def)
  note un = last_literals_def Let_def last_sizes [OF ok em] full
  consider (rest) "\<not> last_full a ?op ?an" | (lim) "last_full a ?op ?an" "c_outputDirective a = limitedOutput"
    | (fill) "last_full a ?op ?an" "c_outputDirective a = fillOutput"
    by (cases "c_outputDirective a") (auto simp: last_full_def)
  then show ?thesis
  proof cases
    case rest
    then show ?thesis using last_run_rest [OF ok fr em rm] unfolding un closes_def by auto
  next
    case lim
    then show ?thesis
      using last_run_tight [OF ok em rm] fr unfolding un by (simp add: comp_result_def)
  next
    case fill
    then show ?thesis using last_run_fill [OF ok fr em rm _ _ pos] unfolding un closes_def by auto
  qed
qed

section \<open>The whole call\<close>

text \<open>Before the first byte, the table holds positions before the end of the history.\<close>

definition old_entries :: "cargs \<Rightarrow> mem \<Rightarrow> streams \<Rightarrow> bool" where
  "old_entries a m0 S \<longleftrightarrow> dict_table a S \<and> (\<exists>s. S (c_cctx a) = Some s \<and> entries_ok (idx_ok a m0 (c_startIndex a + 1)) (c_tableType a) s)"

lemma update_context_ok:
  assumes "old_entries a m0 S"
  shows "\<exists>S1. update_context a S = Some S1 \<and> table_inv a m0 S1 (c_startIndex a + 1) S1"
proof -
  obtain s where s: "S (c_cctx a) = Some s" "entries_ok (idx_ok a m0 (c_startIndex a + 1)) (c_tableType a) s"
    using assms unfolding old_entries_def by blast
  have dt: "dict_table a (S(c_cctx a \<mapsto> x))" for x using assms by (auto simp: old_entries_def dict_table_def)
  define s0 where "s0 = (if c_dictDirective a = usingDictCtx
              then s\<lparr>s_dictCtx := 0, s_dictSize := u32 (c_inputSize a)\<rparr>
              else s\<lparr>s_dictSize := u32 (s_dictSize s + u32 (c_inputSize a))\<rparr>)"
  define s1 where "s1 = s0\<lparr>s_currentOffset := u32 (s_currentOffset s + u32 (c_inputSize a)), s_tableType := c_tableType a\<rparr>"
  have off: "s_currentOffset s0 = s_currentOffset s" "s_hashTable s1 = s_hashTable s" by (simp_all add: s0_def s1_def)
  have up: "update_context a S = Some (S(c_cctx a \<mapsto> s1))"
    unfolding update_context_def s(1) Option.bind.simps Let_def s0_def [symmetric] s1_def off(1) ..
  let ?S = "S(c_cctx a \<mapsto> s1)"
  have "?S = ?S(c_cctx a \<mapsto> s1\<lparr>s_hashTable := s_hashTable s1\<rparr>)" by simp
  moreover have "entries_ok (idx_ok a m0 (c_startIndex a + 1)) (c_tableType a) (s1\<lparr>s_hashTable := s_hashTable s1\<rparr>)"
    using s(2) entries_ok_table [OF off(2)] by simp
  ultimately have "table_inv a m0 ?S (c_startIndex a + 1) ?S"
    unfolding table_inv_def by (intro conjI dt exI [of _ s1] exI [of _ "s_hashTable s1"]) simp_all
  then show ?thesis using up by blast
qed

lemma initial_written:
  assumes ok: "call_ok a m0 cap"
  shows "written a m0 cap [] (c_dest a) (c_source a) m0"
  using call_okD(3) [OF ok] by (auto simp: written_def emitted_def room_def c_limits c_hist_def frame_refl
      split: limitedOutput_directive.split)

lemma first_byte_ok:
  assumes ok: "call_ok a m0 cap" and big: "13 \<le> c_inputSize a" and t: "table_inv a m0 S1 (c_startIndex a + 1) S1"
  shows "\<exists>v. first_byte a (initial_state a m0 S1) = Some v \<and> main_inv a m0 cap S1 v"
proof -
  note fr = frame_refl [of m0 "c_dest a" "c_dest a + cap"]
  have src: "c_source a < c_mflimitPlusOne a" "c_source a + 1 \<le> c_mflimitPlusOne a" using big by (simp_all add: c_limits)
  obtain h where h: "LZ4_hashPosition m0 (c_source a) (c_tableType a) = Some h" "0 \<le> h" "h < slots (c_tableType a)"
    using hash_source [OF ok fr, of "c_source a"] src by auto
  obtain h1 where h1: "LZ4_hashPosition m0 (c_source a + 1) (c_tableType a) = Some h1"
    using hash_source [OF ok fr, of "c_source a + 1"] src by auto
  have base: "c_source a - c_base a = c_startIndex a" by (simp add: c_base_def)
  obtain S' where S': "LZ4_putIndexOnHash S1 (c_startIndex a) h (c_cctx a) (c_tableType a) = Some S'"
    "table_inv a m0 S1 (c_startIndex a + 1) S'"
    using table_put [OF ok t order_refl src(1) h order_refl] base by auto
  define v where "v = (initial_state a m0 S1)\<lparr>v_ip := c_source a + 1, v_forwardH := h1, v_strs := S'\<rparr>"
  have sel: "v_ip v = c_source a + 1" "v_anchor v = c_source a" "v_op v = c_dest a" "v_mem v = m0" "v_strs v = S'"
    "v_forwardH v = h1" by (simp_all add: v_def initial_state_def)
  have low: "low_ok a (v_lowLimit v)"
    using call_okD(2) [OF ok]
    by (cases "c_dictDirective a") (auto simp: v_def initial_state_def low_ok_def c_low_def c_maybe_extMem_def)
  have "c_tableType a \<noteq> byPtr" using call_okD(1) [OF ok] by (auto simp: index_table_def)
  then have "first_byte a (initial_state a m0 S1) = Some v"
    using h(1) h1 S'(1) by (simp add: first_byte_def v_def initial_state_def)
  moreover have "at_head a m0 S1 v"
    using h1 S'(2) src base low by (simp add: at_head_def sel c_base_def algebra_simps)
  moreover have "written a m0 cap [] (v_op v) (v_anchor v) (v_mem v)" using initial_written [OF ok] by (simp add: sel)
  ultimately show ?thesis unfolding main_inv_def by blast
qed

lemma validated_ok:
  assumes rd: "read_context args S = Some a" and ok: "call_ok a m0 cap" and old: "old_entries a m0 S"
  shows "\<exists>r consumed m' S'. LZ4_compress_generic_validated args m0 S = Some (r, consumed, m', S') \<and>
     comp_result a m0 cap r consumed m' \<and>
     (S' = S \<and> r = 0 \<and> c_outputDirective a = fillOutput \<or> (\<exists>S1. update_context a S = Some S1 \<and> table_inv a m0 S1 (c_iend a - c_base a) S'))"
proof (cases "c_outputDirective a = fillOutput \<and> c_maxOutputSize a < 1")
  case True
  then have "LZ4_compress_generic_validated args m0 S = Some (0, None, m0, S)"
    by (simp add: LZ4_compress_generic_validated_def rd)
  then show ?thesis using True by (auto simp: comp_result_def frame_refl)
next
  case False
  then have pos: "c_outputDirective a = fillOutput \<Longrightarrow> 1 \<le> c_maxOutputSize a" by simp
  obtain S1 where S1: "update_context a S = Some S1" "table_inv a m0 S1 (c_startIndex a + 1) S1"
    using update_context_ok [OF old] by blast
  have unf: "LZ4_compress_generic_validated args m0 S =
      (let v = initial_state a m0 S1 in
       if c_inputSize a < LZ4_minLength then last_literals a v
       else do {
         v \<leftarrow> first_byte a v;
         r \<leftarrow> cloop (main_body a) v;
         (case r of
            Last_literals v \<Rightarrow> last_literals a v
          | Return_0 v \<Rightarrow> Some (0, None, v_mem v, v_strs v)) })"
    using False S1(1) by (auto simp: LZ4_compress_generic_validated_def rd)
  show ?thesis
  proof (cases "c_inputSize a < LZ4_minLength")
    case True
    let ?v = "initial_state a m0 S1"
    have "written a m0 cap [] (v_op ?v) (v_anchor ?v) (v_mem ?v)" using initial_written [OF ok] by (simp add: initial_state_def)
    from last_run_ok [OF ok this pos] obtain r consumed m' where
      "last_literals a ?v = Some (r, consumed, m', v_strs ?v)" "comp_result a m0 cap r consumed m'" by blast
    moreover have "table_inv a m0 S1 (c_iend a - c_base a) S1"
      using call_okD(3) [OF ok] by (intro table_inv_mono [OF S1(2)]) (simp add: c_limits)
    ultimately show ?thesis using True S1(1) unf by (auto simp: initial_state_def)
  next
    case False
    then obtain v where v: "first_byte a (initial_state a m0 S1) = Some v" "main_inv a m0 cap S1 v"
      using first_byte_ok [OF ok _ S1(2)] by (auto simp: LZ4_minLength_def)
    from main_loop_ok [OF ok v(2)] obtain e where e: "cloop (main_body a) v = Some e" "finished a m0 cap S1 e" by blast
    show ?thesis
    proof (cases e)
      case (Last_literals w)
      then obtain qs where "written a m0 cap qs (v_op w) (v_anchor w) (v_mem w)"
        and t: "table_inv a m0 S1 (c_iend a - c_base a) (v_strs w)"
        using e(2) by (auto simp: finished_def)
      from last_run_ok [OF ok this(1) pos] obtain r consumed m' where
        "last_literals a w = Some (r, consumed, m', v_strs w)" "comp_result a m0 cap r consumed m'" by blast
      then show ?thesis using False S1(1) unf v(1) e(1) Last_literals t by auto
    next
      case (Return_0 w)
      then show ?thesis using False S1(1) unf v(1) e by (auto simp: finished_def comp_result_def)
    qed
  qed
qed

end
