(* ===== verification/Lz4_HcEncodeProofs.thy ===== *)
theory Lz4_HcEncodeProofs
  imports Lz4_HcEncode Lz4_HcSearchProofs Lz4_CompressResult
begin

unbundle bit_operations_syntax

text \<open>
  What \<open>LZ4HC_encodeSequence\<close> writes is the encoding of the sequence, and the closing parts end the
  block. The compressors of \<open>lib/lz4/lz4hc.c\<close> share the vocabulary of the fast compressor: the argument
  \<open>a\<close> names the buffers of a call.
\<close>

section \<open>The length of a match\<close>

lemma ext_len_step: "255 \<le> n \<Longrightarrow> ext_len n = 255 # ext_len (n - 255)"
  by (subst ext_len.simps) simp

lemma ext_len_pair: "510 \<le> n \<Longrightarrow> ext_len n = [255, 255] @ ext_len (n - 510)"
  using ext_len_step [of n] ext_len_step [of "n - 255"] by simp

lemma put_pairs_ok:
  assumes "0 \<le> len" "mapped m op (op + (1 + len div 255))"
  shows "\<exists>op1 len1 m1. cloop put_pairs_body (op, len, m) = Some (op1, len1, m1) \<and> 0 \<le> len1 \<and> len1 < 510 \<and> op \<le> op1 \<and>
     op1 + len1 div 255 = op + len div 255 \<and> frame m m1 op op1 \<and> bytes m1 op op1 @ ext_len (nat len1) = ext_len (nat len)"
  using assms
proof (induction "nat len" arbitrary: len op m rule: less_induct)
  case (less len op m)
  show ?case
  proof (cases "len \<ge> 510")
    case False
    then have "cloop put_pairs_body (op, len, m) = Some (op, len, m)" by (intro cloop_Inr) simp
    then show ?thesis using False less.prems by (auto simp: frame_refl)
  next
    case True
    have d: "len div 255 = 2 + (len - 510) div 255" using div_add_self2 [of 255 "len - 510"] div_add_self2 [of 255 "len - 255"] by simp
    have q: "0 \<le> (len - 510) div 255" using True by (simp add: pos_imp_zdiv_nonneg_iff)
    have "mapped m op (op + 1)" using d q by (intro mapped_sub [OF less.prems(2)]) linarith+
    then obtain m1 where m1: "store8 m op 255 = Some m1" "frame m m1 op (op + 1)" "bytes m1 op (op + 1) = [255]"
      using store8_append [of m op 255] by auto
    have "mapped m1 (op + 1) (op + 1 + 1)" using d q unfolding frame_mapped [OF m1(2)] by (intro mapped_sub [OF less.prems(2)]) linarith+
    then obtain m2 where m2: "store8 m1 (op + 1) 255 = Some m2" "frame m1 m2 (op + 1) (op + 2)" "bytes m2 (op + 1) (op + 2) = [255]"
      using store8_append [of m1 "op + 1" 255] by (auto simp: add.assoc)
    have b2: "bytes m2 op (op + 2) = [255, 255]" using append_after [OF m1(3) m2(2,3)] by simp
    have f2: "frame m m2 op (op + 2)" using frame_trans [OF frame_widen [OF m1(2)] frame_widen [OF m2(2)], of op "op + 2"] by simp
    have "mapped m2 (op + 2) (op + 2 + (1 + (len - 510) div 255))"
      using d unfolding frame_mapped [OF f2] by (intro mapped_sub [OF less.prems(2)]) linarith+
    with less.hyps [of "len - 510" m2 "op + 2"] True obtain op1 len1 m3 where r:
      "cloop put_pairs_body (op + 2, len - 510, m2) = Some (op1, len1, m3)" "0 \<le> len1" "len1 < 510" "op + 2 \<le> op1"
      "op1 + len1 div 255 = op + 2 + (len - 510) div 255" "frame m2 m3 (op + 2) op1"
      "bytes m3 (op + 2) op1 @ ext_len (nat len1) = ext_len (nat (len - 510))" by auto
    have "cloop put_pairs_body (op, len, m) = Some (op1, len1, m3)"
      using m1(1) m2(1) True r(1) by (simp add: cloop_Inl)
    moreover have "frame m m3 op op1"
      using frame_trans [OF frame_widen [OF f2, of op op1] frame_widen [OF r(6), of op op1]] r(4) by simp
    moreover have "bytes m3 op op1 = [255, 255] @ bytes m3 (op + 2) op1"
      using append_after [OF b2 r(6) refl] r(4) by simp
    moreover have "ext_len (nat len) = [255, 255] @ ext_len (nat (len - 510))"
      using ext_len_pair [of "nat len"] True by (simp add: nat_diff_distrib)
    ultimately show ?thesis using r d by auto
  qed
qed

lemma put_hc_match_length_ok:
  assumes mc: "0 \<le> mc" and mp: "mapped m token (op + ext_size mc)" and "token < op" and tok: "m token = Some (token_byte ll 0)"
  shows "\<exists>m'. put_hc_match_length m token op mc = Some (op + ext_size mc, m') \<and> frame m m' token (op + ext_size mc) \<and>
     bytes m' token (op + ext_size mc) = token_byte ll (nat mc) # bytes m (token + 1) op @ len_ext (nat mc)"
proof -
  define m1 where "m1 = m(token \<mapsto> token_byte ll (nat mc))"
  have st: "store8 m token (uint (token_byte ll 0) + min mc 15) = Some m1"
    using store8_Some [of m token "token_byte ll 0" "uint (token_byte ll 0) + min mc 15"] tok token_add [of ll "nat mc"] mc
    by (simp add: m1_def min_def nat_le_iff split: if_splits)
  have f1: "frame m m1 token (token + 1)" using tok by (auto simp: m1_def intro!: frame_upd)
  have b1: "bytes m1 token op = token_byte ll (nat mc) # bytes m (token + 1) op"
  proof -
    have "bytes m1 token (token + 1) = [token_byte ll (nat mc)]" by (simp add: bytes_def m1_def)
    moreover have "bytes m1 (token + 1) op = bytes m (token + 1) op" using f1 by (rule bytes_frame) simp
    ultimately show ?thesis using bytes_append [of token "token + 1" op m1] \<open>token < op\<close> by simp
  qed
  have t: "load8 m token = Some (uint (token_byte ll 0))" using tok by (simp add: load8_def)
  show ?thesis
  proof (cases "mc \<ge> 15")
    case False
    then have "ext_size mc = 0" "len_ext (nat mc) = []" "min mc 15 = mc"
      using mc by (simp_all add: ext_size_def len_ext_def nat_less_iff)
    moreover from this have "put_hc_match_length m token op mc = Some (op, m1)"
      using st t False by (simp add: put_hc_match_length_def)
    ultimately show ?thesis using b1 f1 \<open>token < op\<close> by (auto intro: frame_widen)
  next
    case True
    define c where "c = mc - 15"
    have c: "0 \<le> c" "ext_size mc = 1 + c div 255" "len_ext (nat mc) = ext_len (nat c)"
    proof -
      have "15 \<le> nat mc" "nat (mc - 15) = nat mc - 15" using True by (simp_all add: nat_diff_distrib)
      then show "len_ext (nat mc) = ext_len (nat c)" by (simp add: c_def len_ext_def)
      show "0 \<le> c" "ext_size mc = 1 + c div 255" using True by (simp_all add: c_def ext_size_def)
    qed
    have q: "0 \<le> c div 255" using c(1) by (simp add: pos_imp_zdiv_nonneg_iff)
    let ?e = "op + ext_size mc"
    have "mapped m1 op (op + (1 + c div 255))"
      using mp \<open>token < op\<close> c(2) unfolding frame_mapped [OF f1] by (auto elim: mapped_sub)
    from put_pairs_ok [OF c(1) this] obtain op1 len1 m2 where p: "cloop put_pairs_body (op, c, m1) = Some (op1, len1, m2)"
      "0 \<le> len1" "len1 < 510" "op \<le> op1" "op1 + len1 div 255 = op + c div 255" "frame m1 m2 op op1"
      "bytes m2 op op1 @ ext_len (nat len1) = ext_len (nat c)" by blast
    have mp2: "mapped m2 x y" if "token \<le> x" "y \<le> ?e" for x y
      unfolding frame_mapped [OF p(6)] frame_mapped [OF f1] using mp that by (auto elim: mapped_sub)
    have sm: "min mc 15 = 15" using True by simp
    have un: "put_hc_match_length m token op mc = do {
        (op, len, m) \<leftarrow> (if len1 \<ge> 255 then do { m \<leftarrow> store8 m2 op1 255; Some (op1 + 1, len1 - 255, m) } else Some (op1, len1, m2));
        m \<leftarrow> store8 m op len; Some (op + 1, m) }"
      using True st t p(1) by (simp add: put_hc_match_length_def sm c_def)
    have "\<exists>m'. put_hc_match_length m token op mc = Some (?e, m') \<and> frame m2 m' op1 ?e \<and> bytes m' op1 ?e = ext_len (nat len1)"
    proof (cases "len1 \<ge> 255")
      case big: True
      have e: "?e = op1 + 2" "len1 div 255 = 1" using p(3,5) big c(2) by linarith+
      have "mapped m2 op1 (op1 + 1)" using p(4) e \<open>token < op\<close> by (intro mp2) auto
      then obtain m3 where m3: "store8 m2 op1 255 = Some m3" "frame m2 m3 op1 (op1 + 1)" "bytes m3 op1 (op1 + 1) = [255]"
        using store8_append [of m2 op1 255] by auto
      have "mapped m3 (op1 + 1) (op1 + 1 + 1)" unfolding frame_mapped [OF m3(2)] using p(4) e \<open>token < op\<close> by (intro mp2) auto
      then obtain m4 where m4: "store8 m3 (op1 + 1) (len1 - 255) = Some m4" "frame m3 m4 (op1 + 1) (op1 + 2)"
        "bytes m4 (op1 + 1) (op1 + 2) = [word_of_int (len1 - 255)]" using store8_append [of m3 "op1 + 1" "len1 - 255"] by (auto simp: add.assoc)
      have "frame m2 m4 op1 (op1 + 2)" using frame_trans [OF frame_widen [OF m3(2)] frame_widen [OF m4(2)], of op1 "op1 + 2"] by simp
      moreover have "bytes m4 op1 (op1 + 2) = [255, word_of_int (len1 - 255)]" using append_after [OF m3(3) m4(2,3)] by simp
      moreover have "ext_len (nat len1) = [255, word_of_int (len1 - 255)]"
      proof -
        have "ext_len (nat len1 - 255) = [word_of_nat (nat len1 - 255)]" using p(3) by (subst ext_len.simps) simp
        then show ?thesis using ext_len_step [of "nat len1"] big by (simp add: of_nat_diff)
      qed
      moreover have "put_hc_match_length m token op mc = Some (op1 + 2, m4)"
        using big m3(1) m4(1) unfolding un by simp
      ultimately show ?thesis unfolding e(1) by auto
    next
      case small: False
      then have e: "?e = op1 + 1" "len1 div 255 = 0" using p(2,5) c(2) by simp_all
      have "mapped m2 op1 (op1 + 1)" using p(4) e \<open>token < op\<close> by (intro mp2) auto
      then obtain m3 where m3: "store8 m2 op1 len1 = Some m3" "frame m2 m3 op1 (op1 + 1)" "bytes m3 op1 (op1 + 1) = [word_of_int len1]"
        using store8_append [of m2 op1 len1] by auto
      moreover have "ext_len (nat len1) = [word_of_int len1]" using small p(2) by (subst ext_len.simps) simp
      moreover have "put_hc_match_length m token op mc = Some (op1 + 1, m3)" using small m3(1) unfolding un by simp
      ultimately show ?thesis unfolding e(1) by auto
    qed
    then obtain m' where m': "put_hc_match_length m token op mc = Some (?e, m')" "frame m2 m' op1 ?e" "bytes m' op1 ?e = ext_len (nat len1)" by blast
    have le: "op1 \<le> ?e" using p(2,5) c(2) pos_imp_zdiv_nonneg_iff [of 255 len1] by simp
    have f12: "frame m1 m' op ?e"
      using frame_trans [OF frame_widen [OF p(6), of op ?e] frame_widen [OF m'(2), of op ?e]] p(4) le by simp
    have "bytes m' op ?e = ext_len (nat c)"
      using append_after [OF refl m'(2,3), of op] p(4,7) le by simp
    moreover have "bytes m' token op = token_byte ll (nat mc) # bytes m (token + 1) op"
      using bytes_frame [OF f12, of op token] b1 by simp
    ultimately have "bytes m' token ?e = token_byte ll (nat mc) # bytes m (token + 1) op @ len_ext (nat mc)"
      using bytes_append [of token op ?e m'] \<open>token < op\<close> c q by simp
    moreover have "frame m m' token ?e"
      using frame_trans [OF frame_widen [OF f1, of token ?e] frame_widen [OF f12, of token ?e]] \<open>token < op\<close> c(2) q by simp
    ultimately show ?thesis using m'(1) by blast
  qed
qed

section \<open>A sequence\<close>

text \<open>A match that the search found is a match of the input.\<close>

lemma hc_match_at:
  assumes ok: "comp_ok a m0 cap" and fr: "frame m0 m (c_dest a) (c_dest a + cap)" and h: "hc_match m (c_low a) p off n"
    and p: "c_low a \<le> p" "p + n \<le> c_iend a"
  shows "match_at a m0 p (p - off) n"
proof -
  have "m0 (p - off + k) = m0 (p + k)" if "0 \<le> k" "k < n" for k
  proof -
    have "m (p - off + k) = m (p + k)" using h that by (simp add: hc_match_def)
    then show ?thesis using prefix_at [OF ok fr, of "p - off + k"] prefix_at [OF ok fr, of "p + k"] h p that by (simp add: hc_match_def)
  qed
  then show ?thesis using h by (simp add: match_at_def hc_match_def)
qed

text \<open>The literals and the offset; then the length of the match.\<close>

lemma literals_offset_ok:
  assumes ok: "comp_ok a m0 cap" and fr: "frame m0 m (c_dest a) (c_dest a + cap)" and em: "emitted a m0 qs op anchor m"
    and ip: "anchor \<le> ip" "ip < c_mflimitPlusOne a" and off: "1 \<le> off" "off \<le> 65535"
  defines "mid \<equiv> op + (1 + ext_size (ip - anchor))"
  assumes fit: "mid + (ip - anchor) + overrun (ip - anchor) \<le> c_dest a + cap"
  shows "\<exists>m1 m2 m3. put_run_length m op (op + 1) (ip - anchor) = Some (mid, m1) \<and>
     LZ4_wildCopy8 m1 mid anchor (mid + (ip - anchor)) = Some m2 \<and>
     LZ4_writeLE16 LZ4_isLittleEndian m2 (mid + (ip - anchor)) (u16 off) = Some m3 \<and>
     frame m0 m3 (c_dest a) (c_dest a + cap) \<and> emitted a m0 qs op anchor m3 \<and>
     bytes m3 op (mid + (ip - anchor) + 2) =
       token_byte (nat (ip - anchor)) 0 # len_ext (nat (ip - anchor)) @ bytes m0 anchor ip @ le16 (nat off)"
proof -
  let ?ll = "ip - anchor" let ?e = "mid + (ip - anchor)"
  have fit': "op + (1 + ext_size ?ll) + ?ll + overrun ?ll \<le> c_dest a + cap" using fit by (simp add: mid_def)
  from write_literals [OF comp_call [OF ok] fr em ip fit'] obtain m1 m2 where m: "put_run_length m op (op + 1) ?ll = Some (mid, m1)"
    "LZ4_wildCopy8 m1 mid anchor ?e = Some m2" "frame m0 m2 (c_dest a) (c_dest a + cap)" "emitted a m0 qs op anchor m2"
    "bytes m2 op ?e = token_byte (nat ?ll) 0 # len_ext (nat ?ll) @ bytes m0 anchor ip" unfolding mid_def by blast
  have op: "c_dest a \<le> op" using emittedD(1) [OF em] .
  have e: "op \<le> ?e" "?e + 2 \<le> c_dest a + cap" using fit ip ext_size_nonneg [of ?ll] by (auto simp: mid_def overrun_def split: if_splits)
  have o: "0 \<le> off" "u16 off = off" using off by (simp_all add: u16_id)
  have "mapped m2 ?e (?e + 2)" using op e by (intro dest_mapped [OF comp_call [OF ok] m(3)]) auto
  from writeLE16_ok [OF o(1) this] obtain m3 where m3: "LZ4_writeLE16 LZ4_isLittleEndian m2 ?e off = Some m3"
    "frame m2 m3 ?e (?e + 2)" "bytes m3 ?e (?e + 2) = le16 (nat off)" by blast
  have "frame m0 m3 (c_dest a) (c_dest a + cap)" using op e by (intro dest_frame [OF m(3) m3(2)]) auto
  moreover have "emitted a m0 qs op anchor m3" using emitted_frame [OF m(4) frame_widen [OF m3(2)]] e(1) by auto
  moreover have "bytes m3 op (?e + 2) = (token_byte (nat ?ll) 0 # len_ext (nat ?ll) @ bytes m0 anchor ip) @ le16 (nat off)"
    using e(1) by (intro append_after [OF m(5) m3(2,3)]) auto
  ultimately show ?thesis using m(1,2) m3(1) o(2) by auto
qed

lemma match_length_written:
  assumes ok: "comp_ok a m0 cap" and fr: "frame m0 m (c_dest a) (c_dest a + cap)" and em: "emitted a m0 qs op anchor m"
    and ip: "anchor \<le> ip" "ip < c_mflimitPlusOne a" and ml: "4 \<le> ml" "ip + ml \<le> c_matchlimit a"
    and mt: "match_at a m0 ip (ip - off) ml"
  defines "e \<equiv> op + (1 + ext_size (ip - anchor)) + (ip - anchor) + 2"
  assumes b: "bytes m op e = token_byte (nat (ip - anchor)) 0 # len_ext (nat (ip - anchor)) @ bytes m0 anchor ip @ le16 (nat off)"
    and fit: "e + ext_size (ml - 4) \<le> c_dest a + cap"
  shows "\<exists>m'. put_hc_match_length m op e (ml - 4) = Some (e + ext_size (ml - 4), m') \<and> frame m0 m' (c_dest a) (c_dest a + cap) \<and>
     emitted a m0 (qs @ [LSeq (bytes m0 anchor ip) (nat off) (nat ml)]) (e + ext_size (ml - 4)) (ip + ml) m'"
proof -
  let ?ll = "ip - anchor" let ?n = "e + ext_size (ml - 4)"
  have op: "c_dest a \<le> op" using emittedD(1) [OF em] .
  have lt: "op < e" using ip(1) ext_size_nonneg [of ?ll] by (simp add: e_def)
  have mp: "mapped m op ?n" using op fit by (intro dest_mapped [OF comp_call [OF ok] fr]) auto
  have tok: "m op = Some (token_byte (nat ?ll) 0)"
  proof -
    have "mapped m op e" using lt ext_size_nonneg [of "ml - 4"] by (intro mapped_sub [OF mp]) auto
    then show ?thesis using mapped_Some_bytes [of m op e op] lt b by simp
  qed
  from put_hc_match_length_ok [OF _ mp lt tok] ml(1) obtain m' where m': "put_hc_match_length m op e (ml - 4) = Some (?n, m')"
    "frame m m' op ?n" "bytes m' op ?n = token_byte (nat ?ll) (nat (ml - 4)) # bytes m (op + 1) e @ len_ext (nat (ml - 4))" by auto
  have "bytes m (op + 1) e = len_ext (nat ?ll) @ bytes m0 anchor ip @ le16 (nat off)"
    using bytes_append [of op "op + 1" e m] lt b by (simp add: bytes_def)
  moreover have "nat (ml - 4) = nat ml - 4" using ml(1) by (simp add: nat_diff_distrib)
  ultimately have bs: "bytes m' op ?n = encode_seq (LSeq (bytes m0 anchor ip) (nat (ip - (ip - off))) (nat ml))"
    using m'(3) by simp
  have "emitted a m0 qs op anchor m'" by (rule emitted_frame [OF em m'(2)])
  from emitted_snoc [OF comp_call [OF ok] this ip(1) ml(1) mt ip(2) ml(2) _ bs] lt ext_size_nonneg [of "ml - 4"]
  have "emitted a m0 (qs @ [LSeq (bytes m0 anchor ip) (nat off) (nat ml)]) ?n (ip + ml) m'" by simp
  moreover have "frame m0 m' (c_dest a) (c_dest a + cap)" using op fit by (intro dest_frame [OF fr m'(2)]) auto
  ultimately show ?thesis using m'(1) by blast
qed

section \<open>Room\<close>

text \<open>The end of the output as the main loops see it; filled outputs keep five bytes back.\<close>

definition hc_oend :: "cargs \<Rightarrow> int" where
  "hc_oend a = (if c_outputDirective a = fillOutput then c_olimit a - LASTLITERALS else c_olimit a)"

definition hc_room :: "cargs \<Rightarrow> lz4_seq list \<Rightarrow> int \<Rightarrow> int \<Rightarrow> bool" where
  "hc_room a qs op anchor \<longleftrightarrow> 255 * (op - c_dest a) \<le> 256 * (anchor - c_source a) \<and>
     (c_outputDirective a \<noteq> notLimited \<and> qs \<noteq> [] \<longrightarrow> op + 5 \<le> hc_oend a)"

definition hc_written :: "cargs \<Rightarrow> mem \<Rightarrow> int \<Rightarrow> lz4_seq list \<Rightarrow> int \<Rightarrow> int \<Rightarrow> mem \<Rightarrow> bool" where
  "hc_written a m0 cap qs op anchor m \<longleftrightarrow>
     frame m0 m (c_dest a) (c_dest a + cap) \<and> emitted a m0 qs op anchor m \<and> hc_room a qs op anchor"

lemma hc_writtenD:
  assumes "hc_written a m0 cap qs op anchor m"
  shows "frame m0 m (c_dest a) (c_dest a + cap)" "emitted a m0 qs op anchor m" "hc_room a qs op anchor"
  using assms by (simp_all add: hc_written_def)

lemma seqs_ok_last: "seqs_ok h qs \<Longrightarrow> qs \<noteq> [] \<Longrightarrow> 4 \<le> seq_mlen (last qs)"
  by (induction qs arbitrary: h rule: rev_induct) (auto simp: seqs_ok_snoc split: lz4_seq.splits elim: seq_ok.elims)

lemma hc_room_end:
  assumes "hc_written a m0 cap qs op anchor m"
  shows "end_room a qs op anchor"
  using hc_writtenD(3) [OF assms] seqs_ok_last [OF emittedD(5) [OF hc_writtenD(2) [OF assms]]]
  by (auto simp: hc_room_def end_room_def hc_oend_def)

lemma hc_written_start: "comp_ok a m0 cap \<Longrightarrow> hc_written a m0 cap [] (c_dest a) (c_source a) m0"
  using comp_okD(4) [of a m0 cap] by (auto simp: hc_written_def hc_room_def emitted_def frame_refl c_hist_def c_limits)

section \<open>LZ4HC_encodeSequence\<close>

lemma unlimited_fits:
  assumes "comp_ok a m0 cap" "c_outputDirective a = notLimited" "255 * (x - c_dest a) \<le> 256 * c_inputSize a + 3826"
  shows "x \<le> c_dest a + cap"
  using capacity_bound [OF comp_okD(17) [OF assms(1,2)] assms(3)] by simp

lemma limited_end: "comp_ok a m0 cap \<Longrightarrow> c_outputDirective a \<noteq> notLimited \<Longrightarrow> hc_oend a \<le> c_dest a + cap"
  using comp_okD(18) by (auto simp: hc_oend_def c_limits)

text \<open>The two checks, and what they leave.\<close>

definition full_literals :: "cargs \<Rightarrow> int \<Rightarrow> int \<Rightarrow> bool" where
  "full_literals a op ll \<longleftrightarrow> c_outputDirective a \<noteq> notLimited \<and> op + 1 + ll div 255 + ll + 8 > hc_oend a"

definition full_match :: "cargs \<Rightarrow> int \<Rightarrow> int \<Rightarrow> bool" where
  "full_match a op mc \<longleftrightarrow> c_outputDirective a \<noteq> notLimited \<and> op + mc div 255 + 6 > hc_oend a"

lemma literals_room:
  assumes ok: "comp_ok a m0 cap" and r: "255 * (op - c_dest a) \<le> 256 * (anchor - c_source a)"
    and ip: "anchor \<le> ip" "ip < c_mflimitPlusOne a"
  shows "\<not> full_literals a op (ip - anchor) \<Longrightarrow> op + (1 + ext_size (ip - anchor)) + (ip - anchor) + overrun (ip - anchor) \<le> c_dest a + cap"
    and "full_literals a op (ip - anchor) \<Longrightarrow> c_outputDirective a = limitedOutput \<Longrightarrow> tight a cap"
proof -
  let ?l = "ip - anchor"
  have l: "0 \<le> ?l" using ip by simp
  have o: "overrun ?l \<le> 8" "ext_size ?l + overrun ?l \<le> 8 + ?l div 255"
    using ext_size_le [OF l] l by (auto simp: overrun_def ext_size_def pos_imp_zdiv_nonneg_iff)
  have b: "255 * ext_size ?l \<le> ?l + 240" using ext_size_bound [of ?l] l by (auto split: if_splits)
  show "op + (1 + ext_size ?l) + ?l + overrun ?l \<le> c_dest a + cap" if "\<not> full_literals a op ?l"
  proof (cases "c_outputDirective a = notLimited")
    case True
    show ?thesis by (rule unlimited_fits [OF ok True]) (use r b o(1) ip in \<open>simp add: c_limits\<close>)
  next
    case False
    then show ?thesis using that o(2) limited_end [OF ok False] by (simp add: full_literals_def)
  qed
  show "tight a cap" if "full_literals a op ?l" "c_outputDirective a = limitedOutput"
  proof (rule tightI)
    have "255 * (?l div 255) \<le> ?l" by linarith
    then show "255 * (op + 1 + ?l div 255 + ?l + 8 - c_dest a) \<le> 256 * c_inputSize a + 3826" using r ip by (simp add: c_limits)
    show "cap < op + 1 + ?l div 255 + ?l + 8 - c_dest a"
      using that comp_okD(18) [OF ok] by (simp add: full_literals_def hc_oend_def c_limits)
  qed
qed

lemma match_room:
  assumes ok: "comp_ok a m0 cap" and r: "255 * (op - c_dest a) \<le> 256 * (anchor - c_source a)"
    and ip: "anchor \<le> ip" "4 \<le> ml" "ip + ml \<le> c_matchlimit a"
  defines "e \<equiv> op + (1 + ext_size (ip - anchor)) + (ip - anchor) + 2"
  shows "\<not> full_match a e (ml - 4) \<Longrightarrow> e + ext_size (ml - 4) \<le> c_dest a + cap"
    and "\<not> full_match a e (ml - 4) \<Longrightarrow> c_outputDirective a \<noteq> notLimited \<Longrightarrow> e + ext_size (ml - 4) + 5 \<le> hc_oend a"
    and "255 * (e + ext_size (ml - 4) - c_dest a) \<le> 256 * (ip + ml - c_source a)"
    and "full_match a e (ml - 4) \<Longrightarrow> c_outputDirective a = limitedOutput \<Longrightarrow> tight a cap"
proof -
  let ?l = "ip - anchor" let ?mc = "ml - 4"
  have mc: "0 \<le> ?mc" "0 \<le> ?l" using ip by simp_all
  note s = seq_size_bound [OF mc(2,1)]
  show b: "255 * (e + ext_size ?mc - c_dest a) \<le> 256 * (ip + ml - c_source a)" using r s by (simp add: e_def)
  show lim: "e + ext_size ?mc + 5 \<le> hc_oend a" if "\<not> full_match a e ?mc" "c_outputDirective a \<noteq> notLimited"
    using that ext_size_le [OF mc(1)] by (simp add: full_match_def)
  show "e + ext_size ?mc \<le> c_dest a + cap" if "\<not> full_match a e ?mc"
  proof (cases "c_outputDirective a = notLimited")
    case True
    show ?thesis by (rule unlimited_fits [OF ok True]) (use b ip in \<open>simp add: c_limits\<close>)
  next
    case False
    then show ?thesis using lim [OF that False] limited_end [OF ok False] by simp
  qed
  show "tight a cap" if "full_match a e ?mc" "c_outputDirective a = limitedOutput"
  proof (rule tightI)
    have "255 * (?mc div 255) \<le> ?mc" by linarith
    moreover have "255 * ext_size ?l \<le> ?l + 240" using ext_size_bound [of ?l] mc by (auto split: if_splits)
    ultimately show "255 * (e + ?mc div 255 + 6 - c_dest a) \<le> 256 * c_inputSize a + 3826" using r ip by (simp add: c_limits e_def)
    show "cap < e + ?mc div 255 + 6 - c_dest a"
      using that comp_okD(18) [OF ok] by (simp add: full_match_def hc_oend_def c_limits)
  qed
qed

definition seq_done :: "cargs \<Rightarrow> mem \<Rightarrow> int \<Rightarrow> lz4_seq list \<Rightarrow> int \<Rightarrow> int \<Rightarrow> int \<Rightarrow> int \<Rightarrow> (int \<times> int \<times> int \<times> int \<times> mem) \<Rightarrow> bool" where
  "seq_done a m0 cap qs op anchor ip ml r \<longleftrightarrow> (case r of (fail, ip', op', anchor', m') \<Rightarrow>
     if fail = 0 then ip' = ip + ml \<and> anchor' = ip + ml \<and> (\<exists>q. hc_written a m0 cap (qs @ [q]) op' anchor' m')
     else c_outputDirective a \<noteq> notLimited \<and> (c_outputDirective a = limitedOutput \<longrightarrow> tight a cap) \<and>
       hc_written a m0 cap qs op anchor m')"

lemma LZ4HC_encodeSequence_ok:
  assumes ok: "comp_ok a m0 cap" and w: "hc_written a m0 cap qs op anchor m"
    and ip: "anchor \<le> ip" "ip < c_mflimitPlusOne a" and ml: "4 \<le> ml" "ip + ml \<le> c_matchlimit a"
    and mt: "match_at a m0 ip (ip - off) ml"
  shows "\<exists>r. LZ4HC_encodeSequence m ip op anchor ml off (c_outputDirective a) (hc_oend a) = Some r \<and> seq_done a m0 cap qs op anchor ip ml r"
proof -
  note fr = hc_writtenD(1) [OF w] and em = hc_writtenD(2) [OF w]
  have r: "255 * (op - c_dest a) \<le> 256 * (anchor - c_source a)" using hc_writtenD(3) [OF w] by (simp add: hc_room_def)
  let ?l = "ip - anchor" let ?mid = "op + (1 + ext_size ?l)" let ?e = "?mid + ?l + 2"
  have src: "c_source a \<le> anchor" using emittedD(2) [OF em] .
  have u: "u64 ?l = ?l" "u64 (u64 ml - MINMATCH) = ml - 4"
    using ip ml src comp_okD(5) [OF ok] by (auto simp: c_limits u64_id)
  have off: "1 \<le> off" "off \<le> 65535" using mt by (auto simp: match_at_def)
  have c1: "(c_outputDirective a \<noteq> notLimited \<and> op + 1 + ?l div 255 + ?l + (2 + 1 + LASTLITERALS) > hc_oend a) = full_literals a op ?l"
    by (simp add: full_literals_def)
  have c2: "(c_outputDirective a \<noteq> notLimited \<and> ?e + (ml - 4) div 255 + (1 + LASTLITERALS) > hc_oend a) = full_match a ?e (ml - 4)"
    by (simp add: full_match_def)
  show ?thesis
  proof (cases "full_literals a op ?l")
    case True
    then have "LZ4HC_encodeSequence m ip op anchor ml off (c_outputDirective a) (hc_oend a) = Some (1, ip, op + 1, anchor, m)"
      unfolding LZ4HC_encodeSequence_def Let_def u c1 by simp
    then show ?thesis using True literals_room(2) [OF ok r ip True] w by (auto simp: seq_done_def full_literals_def)
  next
    case False
    from literals_offset_ok [OF ok fr em ip off literals_room(1) [OF ok r ip False]] obtain m1 m2 m3 where
      m: "put_run_length m op (op + 1) ?l = Some (?mid, m1)" "LZ4_wildCopy8 m1 ?mid anchor (?mid + ?l) = Some m2"
      "LZ4_writeLE16 LZ4_isLittleEndian m2 (?mid + ?l) (u16 off) = Some m3" "frame m0 m3 (c_dest a) (c_dest a + cap)"
      "emitted a m0 qs op anchor m3"
      "bytes m3 op ?e = token_byte (nat ?l) 0 # len_ext (nat ?l) @ bytes m0 anchor ip @ le16 (nat off)" by blast
    have un: "LZ4HC_encodeSequence m ip op anchor ml off (c_outputDirective a) (hc_oend a) =
        (if full_match a ?e (ml - 4) then Some (1, ip, ?e, anchor, m3)
         else do { (op, m) \<leftarrow> put_hc_match_length m3 op ?e (ml - 4); Some (0, ip + ml, op, ip + ml, m) })"
      unfolding LZ4HC_encodeSequence_def Let_def u c1 if_not_P [OF False] m(1-3) Option.bind.bind_lunit prod.case c2 ..
    show ?thesis
    proof (cases "full_match a ?e (ml - 4)")
      case True
      then show ?thesis
        using match_room(4) [OF ok r ip(1) ml True] m(4,5) hc_writtenD(3) [OF w] un
        by (auto simp: seq_done_def full_match_def hc_written_def)
    next
      case nf: False
      note mr = match_room(1-3) [OF ok r ip(1) ml]
      from match_length_written [OF ok m(4,5) ip ml mt m(6) mr(1) [OF nf]] obtain m' where
        m': "put_hc_match_length m3 op ?e (ml - 4) = Some (?e + ext_size (ml - 4), m')" "frame m0 m' (c_dest a) (c_dest a + cap)"
        "emitted a m0 (qs @ [LSeq (bytes m0 anchor ip) (nat off) (nat ml)]) (?e + ext_size (ml - 4)) (ip + ml) m'" by blast
      have "hc_room a (qs @ [LSeq (bytes m0 anchor ip) (nat off) (nat ml)]) (?e + ext_size (ml - 4)) (ip + ml)"
        using mr(2) [OF nf] mr(3) by (simp add: hc_room_def)
      then have "hc_written a m0 cap (qs @ [LSeq (bytes m0 anchor ip) (nat off) (nat ml)]) (?e + ext_size (ml - 4)) (ip + ml) m'"
        using m'(2,3) by (simp add: hc_written_def)
      then show ?thesis unfolding un if_not_P [OF nf] m'(1) by (auto simp: seq_done_def)
    qed
  qed
qed

section \<open>The states of the main loops\<close>

definition hc_state :: "cargs \<Rightarrow> mem \<Rightarrow> int \<Rightarrow> hcstate \<Rightarrow> bool" where
  "hc_state a m0 cap s \<longleftrightarrow> (\<exists>qs. hc_written a m0 cap qs (x_op s) (x_anchor s) (x_mem s))"

text \<open>A match at \<open>ip\<close> that can be encoded.\<close>

definition usable :: "cargs \<Rightarrow> mem \<Rightarrow> int \<Rightarrow> int \<Rightarrow> int \<Rightarrow> int \<Rightarrow> bool" where
  "usable a m0 anchor ip ml off \<longleftrightarrow> anchor \<le> ip \<and> ip < c_mflimitPlusOne a \<and> 4 \<le> ml \<and> ip + ml \<le> c_matchlimit a \<and>
     match_at a m0 ip (ip - off) ml"

definition hc_exit :: "cargs \<Rightarrow> mem \<Rightarrow> int \<Rightarrow> hcexit \<Rightarrow> bool" where
  "hc_exit a m0 cap e \<longleftrightarrow> (case e of
       Hc_last s \<Rightarrow> hc_state a m0 cap s
     | Hc_overflow s ml off \<Rightarrow> hc_state a m0 cap s \<and> usable a m0 (x_anchor s) (x_ip s) ml off \<and> c_outputDirective a \<noteq> notLimited \<and>
         (c_outputDirective a = limitedOutput \<longrightarrow> tight a cap))"

definition exit_ctx :: "hcexit \<Rightarrow> LZ4HC_CCtx_internal" where
  "exit_ctx e = (case e of Hc_last s \<Rightarrow> x_ctx s | Hc_overflow s _ _ \<Rightarrow> x_ctx s)"

lemma usable_later:
  assumes "usable a m0 anchor ip ml off" "0 \<le> d" "4 \<le> ml - d" "ip + d < c_mflimitPlusOne a"
  shows "usable a m0 anchor (ip + d) (ml - d) off"
proof -
  have m: "match_at a m0 ip (ip - off) ml" using assms(1) by (simp add: usable_def)
  have "m0 (ip + d - off + k) = m0 (ip + d + k)" if "0 \<le> k" "k < ml - d" for k
  proof -
    have "m0 (ip - off + (d + k)) = m0 (ip + (d + k))" using m that assms(2) unfolding match_at_def by simp
    then show ?thesis by (simp add: algebra_simps)
  qed
  then have "match_at a m0 (ip + d) (ip + d - off) (ml - d)" using m assms(2) by (simp add: match_at_def)
  then show ?thesis using assms by (simp add: usable_def)
qed

lemma usable_shorter: "usable a m0 anchor ip ml off \<Longrightarrow> 4 \<le> ml' \<Longrightarrow> ml' \<le> ml \<Longrightarrow> usable a m0 anchor ip ml' off"
  by (auto simp: usable_def elim: match_at_mono)

lemma usable_anchor: "usable a m0 anchor ip ml off \<Longrightarrow> anchor' \<le> ip \<Longrightarrow> usable a m0 anchor' ip ml off"
  by (simp add: usable_def)

lemma hc_encode_ok:
  assumes ok: "comp_ok a m0 cap" and st: "hc_state a m0 cap s" and u: "usable a m0 (x_anchor s) (x_ip s) ml off"
  shows "\<exists>r. hc_encode (c_outputDirective a) (hc_oend a) ml off s = Some r \<and>
     (case r of
        Inl s' \<Rightarrow> hc_state a m0 cap s' \<and> x_ip s' = x_ip s + ml \<and> x_anchor s' = x_ip s + ml \<and> x_ctx s' = x_ctx s
      | Inr e \<Rightarrow> hc_exit a m0 cap e \<and> exit_ctx e = x_ctx s)"
proof -
  obtain qs where w: "hc_written a m0 cap qs (x_op s) (x_anchor s) (x_mem s)" using st by (auto simp: hc_state_def)
  from LZ4HC_encodeSequence_ok [OF ok w] u obtain r where
    r: "LZ4HC_encodeSequence (x_mem s) (x_ip s) (x_op s) (x_anchor s) ml off (c_outputDirective a) (hc_oend a) = Some r"
    "seq_done a m0 cap qs (x_op s) (x_anchor s) (x_ip s) ml r" unfolding usable_def by blast
  obtain f ip op an m where rr: "r = (f, ip, op, an, m)" by (cases r)
  show ?thesis
  proof (cases "f = 0")
    case True
    then have "hc_encode (c_outputDirective a) (hc_oend a) ml off s = Some (Inl (s\<lparr>x_ip := ip, x_op := op, x_anchor := an, x_mem := m\<rparr>))"
      unfolding hc_encode_def r(1) rr by simp
    then show ?thesis using True r(2) unfolding rr by (auto simp: seq_done_def hc_state_def)
  next
    case False
    then have "hc_encode (c_outputDirective a) (hc_oend a) ml off s = Some (Inr (Hc_overflow (s\<lparr>x_mem := m\<rparr>) ml off))"
      unfolding hc_encode_def r(1) rr by simp
    then show ?thesis using False r(2) u unfolding rr by (auto simp: seq_done_def hc_state_def hc_exit_def exit_ctx_def)
  qed
qed

section \<open>The closing parts\<close>

text \<open>The result and \<open>*srcSizePtr\<close>, which is \<open>unread\<close> when the function fails.\<close>

definition hc_result :: "cargs \<Rightarrow> mem \<Rightarrow> int \<Rightarrow> int \<Rightarrow> int \<Rightarrow> int \<Rightarrow> mem \<Rightarrow> bool" where
  "hc_result a m0 cap unread r consumed m' \<longleftrightarrow> (\<exists>k. comp_result a m0 cap r k m' \<and>
     consumed = (case k of Some n \<Rightarrow> n | None \<Rightarrow> if r = 0 then unread else c_inputSize a))"

lemma hc_last_literals_ok:
  assumes ok: "comp_ok a m0 cap" and fr: "frame m0 m (c_dest a) (c_dest a + cap)" and em: "emitted a m0 qs op anchor m"
    and rm: "end_room a qs op anchor" and pos: "c_outputDirective a = fillOutput \<Longrightarrow> 1 \<le> c_maxOutputSize a"
  shows "\<exists>r. hc_last_literals (c_outputDirective a) (c_iend a) (hc_oend a) anchor op m = Some r \<and>
     (case r of
        None \<Rightarrow> comp_result a m0 cap 0 None m
      | Some (ip, op', m') \<Rightarrow> hc_result a m0 cap unread (s32 (op' - c_dest a)) (s32 (ip - c_source a)) m')"
proof -
  have em_view: "emitted a (view a m0) qs op anchor m" using em comp_view [OF ok] by simp
  let ?l = "c_iend a - anchor"
  have oe: "(if c_outputDirective a = fillOutput then hc_oend a + LASTLITERALS else hc_oend a) = c_olimit a"
    by (simp add: hc_oend_def)
  have t: "0 \<le> ?l" "?l \<le> c_inputSize a" using emittedD(2,3) [OF em] by (auto simp: c_limits)
  have tot: "u64 (1 + ext_size ?l + ?l) = 1 + ext_size ?l + ?l"
    using ext_size_nonneg [of ?l] ext_size_le [OF t(1)] t comp_okD(5) [OF ok] zdiv_mono1 [of ?l 2113929216 255] by (intro u64_id) auto
  have full: "(c_outputDirective a \<noteq> notLimited \<and> op + (1 + ext_size ?l + ?l) > c_olimit a) = last_full a op anchor"
    by (auto simp: last_full_def)
  note un = hc_last_literals_def Let_def last_sizes [OF comp_call [OF ok] em_view] oe tot full
  consider (rest) "\<not> last_full a op anchor" | (lim) "last_full a op anchor" "c_outputDirective a = limitedOutput"
    | (fill) "last_full a op anchor" "c_outputDirective a = fillOutput"
    by (cases "c_outputDirective a") (auto simp: last_full_def)
  then show ?thesis
  proof cases
    case rest
    from last_run_rest [OF comp_call [OF ok] fr em_view rm rest] obtain m1 m' where c: "put_run_length m op (op + 1) ?l = Some (op + (1 + ext_size ?l), m1)"
      "memcpy m1 (op + (1 + ext_size ?l)) anchor ?l = Some m'"
      "s32 (op + (1 + ext_size ?l) + ?l - c_dest a) = op + (1 + ext_size ?l) + ?l - c_dest a"
      "s32 (anchor + ?l - c_source a) = anchor + ?l - c_source a"
      "comp_result a m0 cap (op + (1 + ext_size ?l) + ?l - c_dest a) (if c_outputDirective a = fillOutput then Some (anchor + ?l - c_source a) else None) m'"
      unfolding closes_def by blast
    have "hc_last_literals (c_outputDirective a) (c_iend a) (hc_oend a) anchor op m = Some (Some (anchor + ?l, op + (1 + ext_size ?l) + ?l, m'))"
      using rest c(1,2) unfolding un by simp
    moreover have "op + (1 + ext_size ?l) + ?l - c_dest a \<noteq> 0" using emittedD(1) [OF em] ext_size_nonneg [of ?l] t by simp
    then have "hc_result a m0 cap unread (op + (1 + ext_size ?l) + ?l - c_dest a) (anchor + ?l - c_source a) m'"
      unfolding hc_result_def using c(5)
      by (intro exI [of _ "if c_outputDirective a = fillOutput then Some (anchor + ?l - c_source a) else None"]) (auto simp: c_iend_def)
    ultimately show ?thesis using c(3,4) by simp
  next
    case lim
    then show ?thesis using last_run_tight [OF comp_call [OF ok] em_view rm] fr unfolding un by (simp add: comp_result_def)
  next
    case fill
    define n where "n = fill_run (c_olimit a - op)"
    note lf = last_run_fill [OF comp_call [OF ok] fr em_view rm fill pos [OF fill(2)], folded n_def]
    from lf(1) obtain m1 m' where c: "put_run_length m op (op + 1) n = Some (op + (1 + ext_size n), m1)"
      "memcpy m1 (op + (1 + ext_size n)) anchor n = Some m'"
      "s32 (op + (1 + ext_size n) + n - c_dest a) = op + (1 + ext_size n) + n - c_dest a"
      "s32 (anchor + n - c_source a) = anchor + n - c_source a"
      "comp_result a m0 cap (op + (1 + ext_size n) + n - c_dest a) (Some (anchor + n - c_source a)) m'"
      unfolding closes_def fill(2) by auto
    have "hc_last_literals (c_outputDirective a) (c_iend a) (hc_oend a) anchor op m = Some (Some (anchor + n, op + (1 + ext_size n) + n, m'))"
      using fill c(1,2) lf(2) unfolding un by simp
    then show ?thesis using c(3-5) by (auto simp: hc_result_def)
  qed
qed

lemma hc_close_ok:
  assumes ok: "comp_ok a m0 cap" and fr: "frame m0 (x_mem s) (c_dest a) (c_dest a + cap)"
    and em: "emitted a m0 qs (x_op s) (x_anchor s) (x_mem s)" and rm: "end_room a qs (x_op s) (x_anchor s)"
    and pos: "c_outputDirective a = fillOutput \<Longrightarrow> 1 \<le> c_maxOutputSize a"
  shows "\<exists>r consumed m'. hc_close (c_outputDirective a) (c_source a) (c_dest a) (c_iend a) (hc_oend a) unread s =
     Some (r, consumed, x_ctx s, m') \<and> hc_result a m0 cap unread r consumed m'"
proof -
  from hc_last_literals_ok [OF ok fr em rm pos] obtain r where
    r: "hc_last_literals (c_outputDirective a) (c_iend a) (hc_oend a) (x_anchor s) (x_op s) (x_mem s) = Some r"
    "case r of None \<Rightarrow> comp_result a m0 cap 0 None (x_mem s)
      | Some (ip, op', m') \<Rightarrow> hc_result a m0 cap unread (s32 (op' - c_dest a)) (s32 (ip - c_source a)) m'" by blast
  show ?thesis
  proof (cases r)
    case None
    then show ?thesis using r by (auto simp: hc_close_def hc_result_def intro!: exI [of _ None])
  next
    case (Some x)
    then show ?thesis using r by (cases x) (auto simp: hc_close_def)
  qed
qed

text \<open>
  When the output is to be filled, the sequence that did not fit is written with a match as long as the
  output allows, if the block can still be ended by enough literals.
\<close>

lemma shortened_length: "0 \<le> b \<Longrightarrow> ml \<le> 18 + b * 255 \<Longrightarrow> ext_size (ml - 4) \<le> b" for b :: int
  using zdiv_mono1 [of "ml - 4 - 15" "255 * b - 1" 255] by (auto simp: ext_size_def)

definition fit_length :: "int \<Rightarrow> int \<Rightarrow> int" where
  "fit_length b ml = (if ml > 18 + b * 255 then 18 + b * 255 else ml)"

lemma fit_length_bounds:
  assumes "0 \<le> b" "4 \<le> ml"
  shows "4 \<le> fit_length b ml" "fit_length b ml \<le> ml" "ext_size (fit_length b ml - 4) \<le> b" "0 < ext_size (fit_length b ml - 4) \<Longrightarrow> 19 \<le> fit_length b ml"
proof -
  show "4 \<le> fit_length b ml" "fit_length b ml \<le> ml" using assms by (auto simp: fit_length_def)
  show "ext_size (fit_length b ml - 4) \<le> b" using assms by (intro shortened_length) (auto simp: fit_length_def)
  show "0 < ext_size (fit_length b ml - 4) \<Longrightarrow> 19 \<le> fit_length b ml" by (auto simp: ext_size_def split: if_splits)
qed

lemma hc_fit_last_ok:
  assumes ok: "comp_ok a m0 cap" and w: "hc_written a m0 cap qs op anchor m" and fill: "c_outputDirective a = fillOutput"
    and u: "usable a m0 anchor ip ml off"
  shows "\<exists>op' anchor' m' qs'. hc_fit_last (hc_oend a) ip anchor op ml off m = Some (op', anchor', m') \<and>
     frame m0 m' (c_dest a) (c_dest a + cap) \<and> emitted a m0 qs' op' anchor' m' \<and> end_room a qs' op' anchor'"
proof -
  note fr = hc_writtenD(1) [OF w] and em = hc_writtenD(2) [OF w]
  let ?l = "ip - anchor" let ?c = "op + (1 + ext_size ?l + ?l)"
  have ip: "anchor \<le> ip" "ip < c_mflimitPlusOne a" "4 \<le> ml" "ip + ml \<le> c_matchlimit a" "match_at a m0 ip (ip - off) ml"
    using u by (simp_all add: usable_def)
  have src: "c_source a \<le> anchor" and op: "c_dest a \<le> op" using emittedD(1,2) [OF em] by simp_all
  have l: "0 \<le> ?l" "?l \<le> 2113929216" using ip src comp_okD(5) [OF ok] by (auto simp: c_limits)
  have ext: "0 \<le> ext_size ?l" "ext_size ?l \<le> 2113929216"
    using ext_size_nonneg ext_size_le [OF l(1)] zdiv_mono1 [OF l(2), of 255] by (auto simp del: ext_size_nonneg)
  have cost: "u64 ?l = ?l" "u64 (?l + 240) div 255 = ext_size ?l" "u64 (1 + ext_size ?l + ?l) = 1 + ext_size ?l + ?l"
    using l ext by (simp_all add: u64_id ext_size_round)
  have oe: "hc_oend a = c_olimit a - 5" "cap = c_maxOutputSize a" "cap < 2147483648"
    using fill comp_okD(18,20) [OF ok] by (simp_all add: hc_oend_def)
  have same: "hc_fit_last (hc_oend a) ip anchor op ml off m = Some (op, anchor, m) \<Longrightarrow> ?thesis"
    using fr em hc_room_end [OF w] by blast
  show ?thesis
  proof (cases "?c \<le> hc_oend a - 3")
    case False
    have F: "(?c \<le> hc_oend a - 3) = False" using False by blast
    show ?thesis by (rule same) (unfold hc_fit_last_def Let_def cost F if_False, rule refl)
  next
    case True
    define b where "b = hc_oend a - 3 - ?c"
    have b: "0 \<le> b" "b < 2147483648" using True op oe l ext by (auto simp: b_def c_limits)
    define ml' where "ml' = fit_length b ml"
    note fl = fit_length_bounds [OF b(1) ip(3), folded ml'_def]
    have mls: "ml < 2147483648" using ip src comp_okD(5) [OF ok] by (simp add: c_limits)
    have mx: "u64 (MINMATCH + (ML_MASK - 1) + u64 (b * 255)) = 18 + b * 255" "u64 b = b" "u64 ml = ml"
      using b mls ip(3) by (simp_all add: u64_id)
    have sel: "(if ml > 18 + b * 255 then s32 (18 + b * 255) else ml) = ml'"
      using b mls by (auto simp: ml'_def fit_length_def intro!: s32_id)
    have T: "(?c \<le> hc_oend a - 3) = True" using True by blast
    have un: "hc_fit_last (hc_oend a) ip anchor op ml off m =
        (if hc_oend a + LASTLITERALS - (?c + 2) - 1 + ml' \<ge> MFLIMIT then do {
           (_, ip, op, anchor, m) \<leftarrow> LZ4HC_encodeSequence m ip op anchor ml' off notLimited (hc_oend a); Some (op, anchor, m) }
         else Some (op, anchor, m))"
      unfolding hc_fit_last_def Let_def cost T if_True b_def [symmetric] mx sel ..
    show ?thesis
    proof (cases "hc_oend a + LASTLITERALS - (?c + 2) - 1 + ml' \<ge> MFLIMIT")
      case False
      have F: "(hc_oend a + LASTLITERALS - (?c + 2) - 1 + ml' \<ge> MFLIMIT) = False" using False by blast
      show ?thesis by (rule same) (unfold un F if_False, rule refl)
    next
      case go: True
      have G: "(hc_oend a + LASTLITERALS - (?c + 2) - 1 + ml' \<ge> MFLIMIT) = True" using go by blast
      have off: "1 \<le> off" "off \<le> 65535" using ip(5) by (auto simp: match_at_def)
      have fit1: "op + (1 + ext_size ?l) + ?l + overrun ?l \<le> c_dest a + cap"
      proof -
        have "overrun ?l \<le> 8" by (simp add: overrun_def)
        then show ?thesis using True oe by (simp add: c_limits)
      qed
      from literals_offset_ok [OF ok fr em ip(1,2) off fit1] obtain m1 m2 m3 where
        m: "put_run_length m op (op + 1) ?l = Some (op + (1 + ext_size ?l), m1)"
        "LZ4_wildCopy8 m1 (op + (1 + ext_size ?l)) anchor (op + (1 + ext_size ?l) + ?l) = Some m2"
        "LZ4_writeLE16 LZ4_isLittleEndian m2 (op + (1 + ext_size ?l) + ?l) (u16 off) = Some m3" "frame m0 m3 (c_dest a) (c_dest a + cap)"
        "emitted a m0 qs op anchor m3"
        "bytes m3 op (op + (1 + ext_size ?l) + ?l + 2) = token_byte (nat ?l) 0 # len_ext (nat ?l) @ bytes m0 anchor ip @ le16 (nat off)" by blast
      let ?n = "op + (1 + ext_size ?l) + ?l + 2 + ext_size (ml' - 4)"
      have nb: "?n + 6 \<le> c_olimit a" using fl(3) oe unfolding b_def by simp
      have fit2: "?n \<le> c_dest a + cap" using nb oe by (simp add: c_limits)
      have lim: "ip + ml' \<le> c_matchlimit a" using fl(2) ip(4) by simp
      from match_length_written [OF ok m(4,5) ip(1,2) fl(1) lim match_at_mono [OF ip(5) fl(2)] m(6) fit2] obtain m' where
        m': "put_hc_match_length m3 op (op + (1 + ext_size ?l) + ?l + 2) (ml' - 4) = Some (?n, m')" "frame m0 m' (c_dest a) (c_dest a + cap)"
        "emitted a m0 (qs @ [LSeq (bytes m0 anchor ip) (nat off) (nat ml')]) ?n (ip + ml') m'" by blast
      have um: "u64 (u64 ml' - MINMATCH) = ml' - 4" using fl(1,2) mls by (simp add: u64_id)
      have "LZ4HC_encodeSequence m ip op anchor ml' off notLimited (hc_oend a) = Some (0, ip + ml', ?n, ip + ml', m')"
        unfolding LZ4HC_encodeSequence_def Let_def cost(1) um m(1-3) Option.bind.bind_lunit prod.case using m'(1) by simp
      then have res: "hc_fit_last (hc_oend a) ip anchor op ml off m = Some (?n, ip + ml', m')" unfolding un G if_True by simp
      have "end_room a (qs @ [LSeq (bytes m0 anchor ip) (nat off) (nat ml')]) ?n (ip + ml')"
      proof -
        have "0 \<le> ml' - 4" using fl(1) by simp
        from seq_size_bound [OF l(1) this] have "255 * (?n - c_dest a) \<le> 256 * (ip + ml' - c_source a)"
          using hc_writtenD(3) [OF w] by (simp add: hc_room_def)
        moreover have "13 \<le> int (nat ml') + (c_olimit a - ?n)"
          using go oe(1) nb fl(1,4) ext_size_nonneg [of "ml' - 4"] by (cases "ext_size (ml' - 4) = 0") auto
        ultimately show ?thesis using nb by (simp add: end_room_def)
      qed
      then show ?thesis using res m'(2,3) by blast
    qed
  qed
qed

lemma hc_finish_ok:
  assumes ok: "comp_ok a m0 cap" and e: "hc_exit a m0 cap e" and pos: "c_outputDirective a = fillOutput \<Longrightarrow> 1 \<le> c_maxOutputSize a"
  shows "\<exists>r consumed m'. hc_finish (c_outputDirective a) (c_source a) (c_dest a) (c_iend a) (hc_oend a) unread e =
     Some (r, consumed, exit_ctx e, m') \<and> hc_result a m0 cap unread r consumed m'"
proof (cases e)
  case (Hc_last s)
  then obtain qs where w: "hc_written a m0 cap qs (x_op s) (x_anchor s) (x_mem s)" using e by (auto simp: hc_exit_def hc_state_def)
  from hc_close_ok [OF ok hc_writtenD(1,2) [OF w] hc_room_end [OF w] pos] show ?thesis
    by (simp add: Hc_last hc_finish_def exit_ctx_def)
next
  case (Hc_overflow s ml off)
  then obtain qs where w: "hc_written a m0 cap qs (x_op s) (x_anchor s) (x_mem s)" and u: "usable a m0 (x_anchor s) (x_ip s) ml off"
    and lim: "c_outputDirective a \<noteq> notLimited" "c_outputDirective a = limitedOutput \<Longrightarrow> tight a cap"
    using e by (auto simp: hc_exit_def hc_state_def)
  show ?thesis
  proof (cases "c_outputDirective a = fillOutput")
    case False
    then show ?thesis using lim hc_writtenD(1) [OF w]
      by (auto simp: Hc_overflow hc_finish_def exit_ctx_def hc_result_def comp_result_def intro!: exI [of _ None])
  next
    case True
    from hc_fit_last_ok [OF ok w True u] obtain op anchor m qs' where
      f: "hc_fit_last (hc_oend a) (x_ip s) (x_anchor s) (x_op s) ml off (x_mem s) = Some (op, anchor, m)"
      "frame m0 m (c_dest a) (c_dest a + cap)" "emitted a m0 qs' op anchor m" "end_room a qs' op anchor" by blast
    let ?s = "s\<lparr>x_op := op, x_anchor := anchor, x_mem := m\<rparr>"
    from hc_close_ok [OF ok, of ?s qs' unread] f(2-4) pos obtain r consumed m' where
      "hc_close (c_outputDirective a) (c_source a) (c_dest a) (c_iend a) (hc_oend a) unread ?s = Some (r, consumed, x_ctx s, m')"
      "hc_result a m0 cap unread r consumed m'" by auto
    then show ?thesis using True f(1) by (simp add: Hc_overflow hc_finish_def exit_ctx_def)
  qed
qed

end
