(* ===== verification/Lz4_HcWider.thy ===== *)
theory Lz4_HcWider
  imports Lz4_HcEncodeProofs
begin

unbundle bit_operations_syntax

text \<open>
  The wider search as the compressors use it, in the vocabulary of a call: the context up to a position,
  and what a search may return there.
\<close>

section \<open>The context and the search\<close>

text \<open>
  The context of a call that began with \<open>c0\<close>: the tables hold only positions before \<open>p\<close>, and those up to
  \<open>p\<close> may be inserted.
\<close>

definition ctx_upto :: "cargs \<Rightarrow> LZ4HC_CCtx_internal \<Rightarrow> int \<Rightarrow> LZ4HC_CCtx_internal \<Rightarrow> bool" where
  "ctx_upto a c0 p c \<longleftrightarrow> hc_same c0 c \<and> hc_ctx (c_low a) (c_iend a) c \<and> hc_entries (hc_index c p) c \<and>
     h_dictLimit c \<le> h_nextToUpdate c \<and> h_nextToUpdate c \<le> hc_index c p"

lemma ctx_upto_mono: "ctx_upto a c0 p c \<Longrightarrow> p \<le> q \<Longrightarrow> ctx_upto a c0 q c"
  using hc_entries_mono by (auto simp: ctx_upto_def hc_index_def)

lemma ctx_uptoD:
  assumes "ctx_upto a c0 p c"
  shows "h_prefixStart c = c_low a" "h_lowLimit c = h_dictLimit c" "hc_index c q = hc_index c0 q" "hc_ctx (c_low a) (c_iend a) c"
    "hc_entries (hc_index c0 p) c" "h_dictLimit c = h_dictLimit c0" "hc_same c0 c"
  using assms hc_sameD by (auto simp: ctx_upto_def hc_ctx_def)

text \<open>The result of a search at \<open>start\<close> for more than \<open>longest\<close> bytes, from \<open>low\<close> on.\<close>

definition better :: "cargs \<Rightarrow> mem \<Rightarrow> int \<Rightarrow> int \<Rightarrow> int \<Rightarrow> LZ4HC_match_t \<Rightarrow> bool" where
  "better a m0 low start longest md \<longleftrightarrow> md_len md = longest \<and> md_back md = 0 \<or>
     longest < md_len md \<and> md_back md \<le> 0 \<and> 4 \<le> md_back md + md_len md \<and>
     usable a m0 low (start + md_back md) (md_len md) (md_off md)"

lemma wider_ok:
  assumes ok: "comp_ok a m0 cap" and fr: "frame m0 m (c_dest a) (c_dest a + cap)" and c: "ctx_upto a c0 (w_ip w) c"
    and w: "c_source a \<le> w_iLowLimit w" "w_iLowLimit w \<le> w_ip w" "w_ip w + 12 \<le> c_iend a" "w_iHighLimit w = c_matchlimit a"
      "w_dict w = noDictCtx"
    and l: "w_ip w - w_iLowLimit w < longest" "w_iLowLimit w + longest \<le> c_matchlimit a"
  shows "\<exists>md c'. LZ4HC_InsertAndGetWiderMatch m c D w longest attempts = Some (md, c') \<and> ctx_upto a c0 (w_ip w) c' \<and>
     better a m0 (w_iLowLimit w) (w_ip w) longest md"
proof -
  have low: "c_low a \<le> w_iLowLimit w" using w(1) comp_okD(10) [OF ok] by (simp add: c_low_def)
  have cd: "hc_ctx (c_low a) (c_iend a) c" "hc_entries (hc_index c (w_ip w)) c" "h_dictLimit c \<le> h_nextToUpdate c"
    "h_nextToUpdate c \<le> hc_index c (w_ip w)" "hc_same c0 c" using c by (simp_all add: ctx_upto_def)
  have "mapped m (c_low a) (c_iend a)" by (rule prefix_mapped [OF ok fr]) simp_all
  then have s: "search_ok m c w (c_low a) (c_iend a)"
    using cd(1) w low comp_okD(5) [OF ok] by (simp add: search_ok_def c_limits)
  have l2: "w_iLowLimit w + longest \<le> w_iHighLimit w" using l(2) w(4) by simp
  from InsertAndGetWiderMatch_ok [OF s cd(2-4) l(1) l2] obtain md c' where
    r: "LZ4HC_InsertAndGetWiderMatch m c D w longest attempts = Some (md, c')" "hc_same c c'" "hc_entries (hc_index c (w_ip w)) c'"
    "h_nextToUpdate c' = hc_index c (w_ip w)" "hc_found m w (c_low a) longest (md_off md) (md_len md) (md_back md)" by blast
  have "ctx_upto a c0 (w_ip w) c'"
    using r(2-4) cd hc_sameD [OF r(2)] hc_same_trans [OF cd(5) r(2)] by (simp add: ctx_upto_def)
  moreover have "better a m0 (w_iLowLimit w) (w_ip w) longest md"
    using r(5) hc_match_at [OF ok fr, of "w_ip w + md_back md" "md_off md" "md_len md"] w low
    by (auto simp: hc_found_def better_def usable_def c_limits)
  ultimately show ?thesis using r(1) by blast
qed

lemma ctx_upto_refl:
  assumes "hc_ctx (c_low a) (c_iend a) c" "hc_entries (hc_index c p) c" "h_dictLimit c \<le> h_nextToUpdate c" "h_nextToUpdate c \<le> hc_index c p"
  shows "ctx_upto a c p c"
  using assms by (simp add: ctx_upto_def hc_same_def)

text \<open>How a main loop is left.\<close>

definition upto_exit :: "cargs \<Rightarrow> mem \<Rightarrow> int \<Rightarrow> LZ4HC_CCtx_internal \<Rightarrow> hcexit \<Rightarrow> bool" where
  "upto_exit a m0 cap c0 e \<longleftrightarrow> hc_exit a m0 cap e \<and> ctx_upto a c0 (c_iend a) (exit_ctx e)"

end
