(* ===== verification/Lz4_HcMidProofs.thy ===== *)
theory Lz4_HcMidProofs
  imports Lz4_HcMid Lz4_HcWider
begin

unbundle bit_operations_syntax

text \<open>
  \<open>LZ4MID_compress\<close> on one segment: the entries of its two tables are positions before the current one,
  so that every candidate at a distance of at most 65535 is a match of the bytes that were counted.
\<close>

section \<open>The tables\<close>

lemma LZ4MID_hash4_range: "0 \<le> LZ4MID_hash4 v" "LZ4MID_hash4 v < LZ4MID_HASHTABLESIZE"
  using div_range [of "u32 (v * 2654435761)" 16384 262144] u32_range [of "v * 2654435761"]
  by (simp_all add: LZ4MID_hash4_def drop_bit_eq_div)

lemma LZ4MID_hash7_range: "0 \<le> LZ4MID_hash7 v" "LZ4MID_hash7 v < LZ4MID_HASHTABLESIZE"
proof -
  let ?x = "u64 (u64 (push_bit (64 - 56) v) * 58295818150454627)"
  have "0 \<le> ?x" "?x < 18446744073709551616" by (simp_all add: u64_def)
  then have "0 \<le> ?x div 1125899906842624" "?x div 1125899906842624 < 16384"
    using div_range [of ?x 16384 1125899906842624] by simp_all
  then show "0 \<le> LZ4MID_hash7 v" "LZ4MID_hash7 v < LZ4MID_HASHTABLESIZE"
    by (simp_all add: LZ4MID_hash7_def drop_bit_eq_div u32_id)
qed

lemma LZ4MID_hash4Ptr_ok:
  assumes "mapped m p (p + 4)"
  shows "\<exists>h. LZ4MID_hash4Ptr m p = Some h \<and> 0 \<le> h \<and> h < LZ4MID_HASHTABLESIZE"
  using read_le(2) [OF assms] LZ4MID_hash4_range by (simp add: LZ4MID_hash4Ptr_def LZ4_isLittleEndian_def)

lemma LZ4MID_hash8Ptr_ok:
  assumes "mapped m p (p + 8)"
  shows "\<exists>h. LZ4MID_hash8Ptr m p = Some h \<and> 0 \<le> h \<and> h < LZ4MID_HASHTABLESIZE"
  using loads_Some [of m p 8] assms LZ4MID_hash7_range
  by (auto simp: LZ4MID_hash8Ptr_def LZ4_isLittleEndian_def LZ4_readLE64_def LZ4_read64_def)

lemma addPosition_ok:
  assumes c: "ctx_upto a c0 p c" and h: "0 \<le> h" "h < LZ4MID_HASHTABLESIZE" and t: "t = 0 \<or> t = LZ4MID_HASHTABLESIZE"
    and i: "0 \<le> i" "i < hc_index c0 q" "p \<le> q"
  shows "\<exists>c'. LZ4MID_addPosition c t h i = Some c' \<and> ctx_upto a c0 q c' \<and> h_hashTable c' = (h_hashTable c)(t + h := i)"
proof -
  let ?c = "c\<lparr>h_hashTable := (h_hashTable c)(t + h := i)\<rparr>"
  have "hc_entries (hc_index c0 q) c" using ctx_uptoD(5) [OF ctx_upto_mono [OF c i(3)]] .
  then have "hc_entries (hc_index c0 q) ?c" using i by (simp add: hc_entries_def)
  moreover have "hc_index ?c q = hc_index c0 q" using ctx_uptoD(3) [OF c, of q] by (simp add: hc_index_def)
  moreover have "hc_same c0 ?c" "hc_ctx (c_low a) (c_iend a) ?c" "h_dictLimit ?c \<le> h_nextToUpdate ?c" "h_nextToUpdate ?c \<le> hc_index c q"
    using c ctx_upto_mono [OF c i(3)] by (simp_all add: ctx_upto_def hc_ctx_def)
  ultimately have "ctx_upto a c0 q ?c" using ctx_uptoD(3) [OF c, of q] by (simp add: ctx_upto_def)
  moreover have "LZ4MID_addPosition c t h i = Some ?c" using h t by (auto simp: LZ4MID_addPosition_def hc_set_hash_def)
  ultimately show ?thesis by simp
qed

lemma ADDPOS_ok:
  assumes c: "ctx_upto a c0 p c" and i: "0 \<le> i" "i < hc_index c0 q" "p \<le> q" "i < 4294967296"
  shows "mapped m x (x + 8) \<Longrightarrow> \<exists>c'. ADDPOS8 m x i c = Some c' \<and> ctx_upto a c0 q c'"
    and "mapped m x (x + 4) \<Longrightarrow> \<exists>c'. ADDPOS4 m x i c = Some c' \<and> ctx_upto a c0 q c'"
proof -
  have u: "u32 i = i" using i by (simp add: u32_id)
  show "\<exists>c'. ADDPOS8 m x i c = Some c' \<and> ctx_upto a c0 q c'" if mp: "mapped m x (x + 8)"
  proof -
    obtain h where h: "LZ4MID_hash8Ptr m x = Some h" "0 \<le> h" "h < LZ4MID_HASHTABLESIZE" using LZ4MID_hash8Ptr_ok [OF mp] by blast
    from addPosition_ok [OF c h(2,3) _ i(1-3), of LZ4MID_HASHTABLESIZE] show ?thesis unfolding ADDPOS8_def h(1) Option.bind.bind_lunit u by blast
  qed
  show "\<exists>c'. ADDPOS4 m x i c = Some c' \<and> ctx_upto a c0 q c'" if mp: "mapped m x (x + 4)"
  proof -
    obtain h where h: "LZ4MID_hash4Ptr m x = Some h" "0 \<le> h" "h < LZ4MID_HASHTABLESIZE" using LZ4MID_hash4Ptr_ok [OF mp] by blast
    from addPosition_ok [OF c h(2,3) _ i(1-3), of 0] show ?thesis unfolding ADDPOS4_def h(1) Option.bind.bind_lunit u by blast
  qed
qed

section \<open>Candidates\<close>

text \<open>A position before \<open>ip\<close>: counting from it gives a match.\<close>

lemma prefix_count:
  assumes m: "mapped m (c_low a) (c_iend a)" and c: "ctx_upto a c0 p c" and ip: "c_low a \<le> ip" "ip \<le> c_matchlimit a"
    and pos: "h_dictLimit c0 \<le> pos" "pos < hc_index c0 ip" "hc_index c0 ip - pos \<le> 65535"
    and n: "c_matchlimit a - ip < 4294967296"
  shows "\<exists>n. LZ4_count LZ4_isLittleEndian m ip (h_prefixStart c + (pos - h_dictLimit c)) (c_matchlimit a) = Some n \<and> 0 \<le> n \<and>
     ip + n \<le> c_matchlimit a \<and> hc_match m (c_low a) ip (hc_index c0 ip - pos) n"
proof -
  note d = ctx_uptoD [OF c]
  have pre: "h_prefixStart c0 = c_low a" using c d(1) hc_sameD(1) by (auto simp: ctx_upto_def)
  define q where "q = c_low a + (pos - h_dictLimit c0)"
  have q: "c_low a \<le> q" "ip - (hc_index c0 ip - pos) = q" "q < ip" using pos pre by (auto simp: q_def hc_index_def)
  have ptr: "h_prefixStart c + (pos - h_dictLimit c) = q" by (simp add: q_def d)
  define N where "N = nat (c_matchlimit a - ip)"
  have N: "ip + int N = c_matchlimit a" "N < 2 ^ 32" using ip n by (auto simp: N_def)
  have "mapped m q (q + int N)" "mapped m ip (ip + int N)" using N(1) q ip by (auto intro!: mapped_sub [OF m] simp: c_limits)
  from LZ4_count_agree [OF this N(2)] have cnt: "LZ4_count LZ4_isLittleEndian m ip q (c_matchlimit a) = Some (int (agree m q ip N))"
    by (simp add: N(1) LZ4_isLittleEndian_def)
  have "m (ip - (hc_index c0 ip - pos) + k) = m (ip + k)" if "0 \<le> k" "k < int (agree m q ip N)" for k
    using agree_eq [of "nat k" m q ip N] that unfolding q(2) by simp
  then have "hc_match m (c_low a) ip (hc_index c0 ip - pos) (int (agree m q ip N))"
    using pos q by (simp add: hc_match_def)
  then show ?thesis using cnt agree_le [of m q ip N] N(1) unfolding ptr by (intro exI [of _ "int (agree m q ip N)"]) auto
qed

text \<open>What a search may return: a position, a length and a distance.\<close>

definition mid_match :: "cargs \<Rightarrow> mem \<Rightarrow> int \<Rightarrow> int \<Rightarrow> int \<Rightarrow> bool" where
  "mid_match a m ip ml dist \<longleftrightarrow> 4 \<le> ml \<and> ip + ml \<le> c_matchlimit a \<and> hc_match m (c_low a) ip dist ml"

lemma mid_candidate_ok:
  assumes m: "mapped m (c_low a) (c_iend a)" and c: "ctx_upto a c0 p c" and ip: "c_low a \<le> ip" "ip \<le> c_matchlimit a"
    and pos: "0 \<le> pos" "pos < hc_index c0 ip" and n: "hc_index c0 ip < 4294967296" "c_matchlimit a - ip < 4294967296"
  shows "\<exists>r. mid_candidate m c ip (hc_index c0 ip) (c_matchlimit a) pos = Some r \<and>
     (case r of None \<Rightarrow> True | Some (ml, dist) \<Rightarrow> h_dictLimit c0 \<le> pos \<and> mid_match a m ip ml dist)"
proof -
  note d = ctx_uptoD [OF c]
  have u: "u32 (hc_index c0 ip - pos) = hc_index c0 ip - pos" using pos n by (simp add: u32_id)
  show ?thesis
  proof (cases "hc_index c0 ip - pos \<le> 65535 \<and> h_dictLimit c0 \<le> pos")
    case True
    with prefix_count [OF m c ip _ pos(2) _ n(2)] obtain n where
      "LZ4_count LZ4_isLittleEndian m ip (h_prefixStart c + (pos - h_dictLimit c)) (c_matchlimit a) = Some n" "0 \<le> n"
      "ip + n \<le> c_matchlimit a" "hc_match m (c_low a) ip (hc_index c0 ip - pos) n" by blast
    then show ?thesis using True d(6) by (simp add: mid_candidate_def u mid_match_def)
  next
    case False
    then show ?thesis using d(2,6) by (auto simp: mid_candidate_def u)
  qed
qed

text \<open>The longer match one byte later.\<close>

lemma mid_next_position_ok:
  assumes m: "mapped m (c_low a) (c_iend a)" and c: "ctx_upto a c0 (ip + 1) c" and ip: "c_low a \<le> ip" "ip \<le> c_iend a - 12"
    and n: "hc_index c0 (ip + 1) < 4294967296" "c_matchlimit a - ip < 4294967296" "0 \<le> hc_index c0 ip" and mt: "mid_match a m ip ml dist"
  shows "\<exists>ip' ml' dist' c'. mid_next_position m ip (hc_index c0 ip) (c_iend a - 12) (c_matchlimit a) c ml dist = Some (ip', ml', dist', c') \<and>
     ctx_upto a c0 (ip + 2) c' \<and> mid_match a m ip' ml' dist' \<and> ip \<le> ip' \<and> ip' \<le> ip + 1 \<and> ip' \<le> c_iend a - 12"
proof -
  note d = ctx_uptoD [OF c]
  have "mapped m (ip + 1) (ip + 1 + 8)" using ip by (intro mapped_sub [OF m]) auto
  then obtain h where h: "LZ4MID_hash8Ptr m (ip + 1) = Some h" "0 \<le> h" "h < LZ4MID_HASHTABLESIZE" using LZ4MID_hash8Ptr_ok by blast
  define pos where "pos = h_hashTable c (LZ4MID_HASHTABLESIZE + h)"
  have g: "hc_hash c (16384 + h) = Some pos" using h by (simp add: hc_hash_def pos_def)
  have pos: "0 \<le> pos" "pos < hc_index c0 (ip + 1)" using d(5) h by (simp_all add: hc_entries_def pos_def)
  have ix: "hc_index c0 ip + 1 = hc_index c0 (ip + 1)" by (simp add: hc_index_def)
  have u: "u32 (hc_index c0 (ip + 1) - pos) = hc_index c0 (ip + 1) - pos" using pos n by (simp add: u32_id)
  have keep: "ctx_upto a c0 (ip + 2) c" by (rule ctx_upto_mono [OF c]) simp
  show ?thesis
  proof (cases "hc_index c0 (ip + 1) - pos \<le> 65535 \<and> h_dictLimit c0 \<le> pos \<and> ip < c_iend a - 12")
    case False
    then have "mid_next_position m ip (hc_index c0 ip) (c_iend a - 12) (c_matchlimit a) c ml dist = Some (ip, ml, dist, c)"
      using d(6) by (auto simp: mid_next_position_def h(1) g ix u)
    then show ?thesis using keep mt ip by auto
  next
    case True
    have "c_low a \<le> ip + 1" "ip + 1 \<le> c_matchlimit a" "c_matchlimit a - (ip + 1) < 4294967296" using ip n by (auto simp: c_limits)
    with prefix_count [OF m c this(1,2) _ pos(2) _ this(3)] True obtain n where
      cnt: "LZ4_count LZ4_isLittleEndian m (ip + 1) (h_prefixStart c + (pos - h_dictLimit c)) (c_matchlimit a) = Some n" "0 \<le> n"
      "ip + 1 + n \<le> c_matchlimit a" "hc_match m (c_low a) (ip + 1) (hc_index c0 (ip + 1) - pos) n" by blast
    have u1: "u32 (hc_index c0 (ip + 1)) = hc_index c0 (ip + 1)" using n by (simp add: u32_id hc_index_def)
    have "hc_index c0 (ip + 1) < hc_index c0 (ip + 2)" "0 \<le> hc_index c0 (ip + 1)" using n(3) by (simp_all add: hc_index_def)
    with addPosition_ok [OF c h(2,3) _ this(2,1), of LZ4MID_HASHTABLESIZE] obtain c' where
      c': "LZ4MID_addPosition c 16384 h (hc_index c0 (ip + 1)) = Some c'" "ctx_upto a c0 (ip + 2) c'" by auto
    have un: "mid_next_position m ip (hc_index c0 ip) (c_iend a - 12) (c_matchlimit a) c ml dist =
        (if n > ml then Some (ip + 1, n, hc_index c0 (ip + 1) - pos, c') else Some (ip, ml, dist, c))"
      using True d(6) cnt(1) c'(1) by (simp add: mid_next_position_def h(1) g ix u u1)
    show ?thesis unfolding un using cnt c'(2) True keep mt ip by (auto simp: mid_match_def)
  qed
qed

text \<open>The searches at a position.\<close>

lemma mid_search_ok:
  assumes m: "mapped m (c_low a) (c_iend a)" and c: "ctx_upto a c0 ip c" and ip: "c_low a \<le> ip" "ip \<le> c_iend a - 12"
    and n: "hc_index c0 (c_iend a) < 4294967296" "c_matchlimit a - ip < 4294967296" "0 \<le> hc_index c0 ip"
  shows "\<exists>r c'. mid_search noDictCtx D m (c_iend a - 12) (c_matchlimit a) ip (hc_index c0 ip) c = Some (r, c') \<and>
     (case r of
        None \<Rightarrow> ctx_upto a c0 (ip + 1) c'
      | Some (ip', ml, dist) \<Rightarrow> ctx_upto a c0 (ip + 2) c' \<and> mid_match a m ip' ml dist \<and> ip \<le> ip' \<and> ip' \<le> ip + 1 \<and> ip' \<le> c_iend a - 12)"
proof -
  have ix: "hc_index c0 ip < hc_index c0 (ip + 1)" "hc_index c0 (ip + 1) < 4294967296" "hc_index c0 ip < 4294967296"
    using n(1) ip by (simp_all add: hc_index_def)
  have lim: "ip \<le> c_matchlimit a" using ip by (simp add: c_limits)
  have mp: "mapped m ip (ip + 8)" "mapped m ip (ip + 4)" using ip by (auto intro!: mapped_sub [OF m])
  obtain h8 where h8: "LZ4MID_hash8Ptr m ip = Some h8" "0 \<le> h8" "h8 < LZ4MID_HASHTABLESIZE" using LZ4MID_hash8Ptr_ok [OF mp(1)] by blast
  obtain h4 where h4: "LZ4MID_hash4Ptr m ip = Some h4" "0 \<le> h4" "h4 < LZ4MID_HASHTABLESIZE" using LZ4MID_hash4Ptr_ok [OF mp(2)] by blast
  define pos8 where "pos8 = h_hashTable c (LZ4MID_HASHTABLESIZE + h8)"
  define pos4 where "pos4 = h_hashTable c h4"
  have pos: "0 \<le> pos8" "pos8 < hc_index c0 ip" "0 \<le> pos4" "pos4 < hc_index c0 ip"
    using ctx_uptoD(5) [OF c] h8 h4 by (simp_all add: hc_entries_def pos8_def pos4_def)
  from addPosition_ok [OF c h8(2,3) _ n(3) ix(1), of LZ4MID_HASHTABLESIZE] obtain c1 where
    c1: "LZ4MID_addPosition c LZ4MID_HASHTABLESIZE h8 (hc_index c0 ip) = Some c1" "ctx_upto a c0 (ip + 1) c1"
    "h_hashTable c1 = (h_hashTable c)(LZ4MID_HASHTABLESIZE + h8 := hc_index c0 ip)" by auto
  from addPosition_ok [OF c1(2) h4(2,3) _ n(3) ix(1), of 0] obtain c2 where
    c2: "LZ4MID_addPosition c1 0 h4 (hc_index c0 ip) = Some c2" "ctx_upto a c0 (ip + 1) c2" by auto
  have g: "hc_hash c (LZ4MID_HASHTABLESIZE + h8) = Some pos8" "hc_hash c1 h4 = Some pos4"
    using h8 h4 c1(3) by (simp_all add: hc_hash_def pos8_def pos4_def)
  obtain r8 where r8: "mid_candidate m c1 ip (hc_index c0 ip) (c_matchlimit a) pos8 = Some r8"
    "case r8 of None \<Rightarrow> True | Some (ml, dist) \<Rightarrow> h_dictLimit c0 \<le> pos8 \<and> mid_match a m ip ml dist"
    using mid_candidate_ok [OF m c1(2) ip(1) lim pos(1,2) ix(3) n(2)] by blast
  obtain r4 where r4: "mid_candidate m c2 ip (hc_index c0 ip) (c_matchlimit a) pos4 = Some r4"
    "case r4 of None \<Rightarrow> True | Some (ml, dist) \<Rightarrow> h_dictLimit c0 \<le> pos4 \<and> mid_match a m ip ml dist"
    using mid_candidate_ok [OF m c2(2) ip(1) lim pos(3,4) ix(3) n(2)] by blast
  note un = mid_search_def h8(1) h4(1) Option.bind.bind_lunit g c1(1) r8(1) c2(1) r4(1)
  show ?thesis
  proof (cases r8)
    case (Some x)
    then show ?thesis using r8(2) ip ctx_upto_mono [OF c1(2), of "ip + 2"] unfolding un by (cases x) auto
  next
    case n8: None
    show ?thesis
    proof (cases r4)
      case None
      then show ?thesis using c2(2) unfolding un n8 by simp
    next
      case (Some x)
      obtain ml dist where x: "x = (ml, dist)" by (cases x)
      have mt: "h_dictLimit c0 \<le> pos4" "mid_match a m ip ml dist" using r4(2) Some x by simp_all
      from mid_next_position_ok [OF m c2(2) ip ix(2) n(2,3) mt(2)] obtain ip' ml' dist' c3 where
        r: "mid_next_position m ip (hc_index c0 ip) (c_iend a - 12) (c_matchlimit a) c2 ml dist = Some (ip', ml', dist', c3)"
        "ctx_upto a c0 (ip + 2) c3" "mid_match a m ip' ml' dist'" "ip \<le> ip'" "ip' \<le> ip + 1" "ip' \<le> c_iend a - 12" by blast
      have "pos4 \<ge> h_dictLimit c2" using mt(1) ctx_uptoD(6) [OF c2(2)] by simp
      then show ?thesis using r(2-6) unfolding un n8 Some x option.case prod.case by (simp add: r(1))
    qed
  qed
qed

section \<open>The match grows backwards\<close>

lemma mid_back_ok:
  assumes m: "mapped m (c_low a) (c_iend a)" and mt: "mid_match a m ip ml dist" and an: "c_low a \<le> anchor" "anchor \<le> ip"
    and n: "c_iend a - c_low a < 4294967296" and ip: "ip \<le> c_iend a"
  shows "\<exists>ip' ml'. cloop (mid_back_body m anchor (c_low a) dist) (ip, ml) = Some (ip', ml') \<and> mid_match a m ip' ml' dist \<and>
     anchor \<le> ip' \<and> ip' \<le> ip \<and> ip' + ml' = ip + ml"
proof -
  let ?I = "\<lambda>(i, l). mid_match a m i l dist \<and> anchor \<le> i \<and> i \<le> ip \<and> i + l = ip + ml"
  have "\<exists>r. cloop (mid_back_body m anchor (c_low a) dist) (ip, ml) = Some r \<and> ?I r"
  proof (rule cloop_total [where \<mu> = "\<lambda>(i, _). nat (i - anchor)" and I = ?I])
    show "?I (ip, ml)" using mt an by simp
  next
    fix s :: "int \<times> int" assume i: "?I s"
    obtain i l where s: "s = (i, l)" by (cases s)
    have il: "mid_match a m i l dist" "anchor \<le> i" "i \<le> ip" "i + l = ip + ml" using i s by simp_all
    have d: "1 \<le> dist" "c_low a \<le> i - dist" "4 \<le> l" "i + l \<le> c_matchlimit a" using il(1) by (auto simp: mid_match_def hc_match_def)
    have u: "u32 (i - c_low a) = i - c_low a" using il an n ip by (intro u32_id) auto
    show "(\<exists>s'. mid_back_body m anchor (c_low a) dist s = Some (Inl s') \<and> ?I s' \<and>
        (case s' of (i, _) \<Rightarrow> nat (i - anchor)) < (case s of (i, _) \<Rightarrow> nat (i - anchor))) \<or>
      (\<exists>r. mid_back_body m anchor (c_low a) dist s = Some (Inr r) \<and> ?I r)"
    proof (cases "i > anchor \<and> i - c_low a > dist")
      case False
      have F: "(i > anchor \<and> i - c_low a > dist) = False" using False by blast
      have "mid_back_body m anchor (c_low a) dist s = Some (Inr (i, l))" unfolding s mid_back_body.simps u F if_False ..
      then show ?thesis using i s by simp
    next
      case True
      have mp: "mapped m (i - 1) (i - 1 + 1)" "mapped m (i - dist - 1) (i - dist - 1 + 1)"
        using True il d ip an by (auto intro!: mapped_sub [OF m])
      obtain x where x: "m (i - 1) = Some x" using mapped_Some_bytes [OF mp(1), of "i - 1"] by auto
      obtain y where y: "m (i - dist - 1) = Some y" using mapped_Some_bytes [OF mp(2), of "i - dist - 1"] by auto
      have T: "(i > anchor \<and> i - c_low a > dist) = True" using True by blast
      have un: "mid_back_body m anchor (c_low a) dist s = Some (if x = y then Inl (i - 1, u32 (l + 1)) else Inr (i, l))"
        unfolding s mid_back_body.simps u T if_True using x y by (simp add: load8_def word_uint_eq_iff)
      show ?thesis
      proof (cases "x = y")
        case False
        then show ?thesis using un i s by simp
      next
        case eq: True
        have "u32 (l + 1) = l + 1" using d il an n ip by (intro u32_id) (auto simp: c_limits)
        moreover have "hc_match m (c_low a) (i - 1) dist (l + 1)"
        proof -
          have h: "hc_match m (c_low a) i dist l" using il(1) by (simp add: mid_match_def)
          have "m (i - 1 - dist + k) = m (i - 1 + k)" if "0 \<le> k" "k < l + 1" for k
          proof (cases "k = 0")
            case True
            then show ?thesis using x y eq by (simp add: algebra_simps)
          next
            case False
            have "m (i - dist + (k - 1)) = m (i + (k - 1))" using h that False unfolding hc_match_def by auto
            then show ?thesis by (simp add: algebra_simps)
          qed
          then show ?thesis using h True by (simp add: hc_match_def)
        qed
        ultimately show ?thesis using un eq True il d s by (auto simp: mid_match_def)
      qed
    qed
  qed
  then show ?thesis by auto
qed

section \<open>The main loop\<close>

lemma mid_fill_end_ok:
  assumes m: "mapped m (c_low a) (c_iend a)" and c: "ctx_upto a c0 ip c" and ip: "c_low a + 5 \<le> ip" "ip \<le> c_iend a"
    and n: "hc_index c0 (c_iend a) < 4294967296" "65536 \<le> h_dictLimit c0" "h_prefixStart c0 = c_low a" "c_low a + 13 \<le> c_iend a"
  shows "\<exists>c'. mid_fill_end m ip (u32 (u32 (c_iend a - LZ4MID_HASHSIZE - h_prefixStart c) + h_dictLimit c)) c = Some c' \<and> ctx_upto a c0 ip c'"
proof -
  note d = ctx_uptoD [OF c]
  have r: "hc_index c0 q = h_dictLimit c0 + (q - c_low a)" for q by (simp add: hc_index_def n(3))
  have ix: "u32 (u32 (q - h_prefixStart c) + h_dictLimit c) = hc_index c0 q" "0 \<le> hc_index c0 q" "hc_index c0 q < 4294967296"
    if "c_low a \<le> q" "q \<le> c_iend a" for q
    using that n d by (auto simp: hc_index_def u32_id)
  have eq: "u32 (u32 (ip - h_prefixStart c) + h_dictLimit c) = hc_index c0 ip"
    "u32 (u32 (c_iend a - LZ4MID_HASHSIZE - h_prefixStart c) + h_dictLimit c) = hc_index c0 (c_iend a - 8)"
    "u32 (hc_index c0 ip - 2) = hc_index c0 ip - 2"
    using ix(1) [of ip] ix(1) [of "c_iend a - 8"] ix(3) [of ip] ip n by (auto simp: r u32_id)
  show ?thesis
  proof (cases "hc_index c0 ip - 2 < hc_index c0 (c_iend a - 8)")
    case False
    then show ?thesis using c unfolding mid_fill_end_def eq Let_def by simp
  next
    case True
    then have le: "ip + 7 \<le> c_iend a" by (simp add: r)
    have add: "mapped m (ip - k) (ip - k + 8) \<Longrightarrow> ctx_upto a c0 ip c1 \<Longrightarrow> \<exists>c2. ADDPOS8 m (ip - k) (hc_index c0 ip - k) c1 = Some c2 \<and> ctx_upto a c0 ip c2"
      "mapped m (ip - k) (ip - k + 4) \<Longrightarrow> ctx_upto a c0 ip c1 \<Longrightarrow> \<exists>c2. ADDPOS4 m (ip - k) (hc_index c0 ip - k) c1 = Some c2 \<and> ctx_upto a c0 ip c2"
      if "1 \<le> k" "k \<le> 5" for k c1
      using ADDPOS_ok [of a c0 ip c1 "hc_index c0 ip - k" ip m "ip - k"] ip n that ix(3) [of ip] by (auto simp: r)
    have mp: "mapped m (ip - k) (ip - k + 8)" if "2 \<le> k" "k \<le> 5" for k using that le ip by (intro mapped_sub [OF m]) auto
    have mp4: "mapped m (ip - 2) (ip - 2 + 4)" "mapped m (ip - 1) (ip - 1 + 4)" using le ip by (auto intro!: mapped_sub [OF m])
    have "\<exists>c1. (if ip - h_prefixStart c > 5 then ADDPOS8 m (ip - 5) (hc_index c0 ip - 5) c else Some c) = Some c1 \<and> ctx_upto a c0 ip c1"
      using add(1) [OF _ _ mp c, of 5] c by auto
    then obtain c1 where c1: "(if ip - h_prefixStart c > 5 then ADDPOS8 m (ip - 5) (hc_index c0 ip - 5) c else Some c) = Some c1" "ctx_upto a c0 ip c1"
      by blast
    obtain c2 where c2: "ADDPOS8 m (ip - 3) (hc_index c0 ip - 3) c1 = Some c2" "ctx_upto a c0 ip c2" using add(1) [OF _ _ mp c1(2), of 3] by auto
    obtain c3 where c3: "ADDPOS8 m (ip - 2) (hc_index c0 ip - 2) c2 = Some c3" "ctx_upto a c0 ip c3" using add(1) [OF _ _ mp c2(2), of 2] by auto
    obtain c4 where c4: "ADDPOS4 m (ip - 2) (hc_index c0 ip - 2) c3 = Some c4" "ctx_upto a c0 ip c4" using add(2) [OF _ _ mp4(1) c3(2)] by auto
    obtain c5 where c5: "ADDPOS4 m (ip - 1) (hc_index c0 ip - 1) c4 = Some c5" "ctx_upto a c0 ip c5" using add(2) [OF _ _ mp4(2) c4(2)] by auto
    have T: "(hc_index c0 ip - 2 < hc_index c0 (c_iend a - 8)) = True" using True by blast
    show ?thesis unfolding mid_fill_end_def eq Let_def T if_True c1(1) Option.bind.bind_lunit c2(1) c3(1) c4(1) using c5 by blast
  qed
qed

definition mid_inv :: "cargs \<Rightarrow> mem \<Rightarrow> int \<Rightarrow> LZ4HC_CCtx_internal \<Rightarrow> hcstate \<Rightarrow> bool" where
  "mid_inv a m0 cap c0 s \<longleftrightarrow> hc_state a m0 cap s \<and> x_anchor s \<le> x_ip s \<and> ctx_upto a c0 (min (x_ip s) (c_iend a)) (x_ctx s)"

text \<open>From a match to the next round.\<close>

lemma mid_emit_ok:
  assumes ok: "comp_ok a m0 cap" and st: "hc_state a m0 cap s" and c: "ctx_upto a c0 (ip + 2) c" and low: "c_low a \<le> ip"
    and u: "x_anchor s \<le> ip2" "ip2 \<le> ip + 1" "ip2 + 1 \<le> c_mflimitPlusOne a" "ip + 4 \<le> ip2 + ml" "mid_match a (x_mem s) ip2 ml dist"
    and n: "hc_index c0 (c_iend a) < 4294967296" "65536 \<le> h_dictLimit c0" "h_prefixStart c0 = c_low a"
  shows "\<exists>r. (do {
      c \<leftarrow> ADDPOS8 (x_mem s) (ip2 + 1) (hc_index c0 ip + 1) c;
      c \<leftarrow> ADDPOS8 (x_mem s) (ip2 + 2) (hc_index c0 ip + 2) c;
      c \<leftarrow> ADDPOS4 (x_mem s) (ip2 + 1) (hc_index c0 ip + 1) c;
      r \<leftarrow> hc_encode (c_outputDirective a) (hc_oend a) (s32 ml) (s32 dist) (s\<lparr>x_ip := ip2, x_ctx := c\<rparr>);
      (case r of
         Inr e \<Rightarrow> Some (Inr e)
       | Inl s \<Rightarrow> do {
           c \<leftarrow> mid_fill_end (x_mem s) (x_ip s)
             (u32 (u32 (c_iend a - LZ4MID_HASHSIZE - h_prefixStart (x_ctx s)) + h_dictLimit (x_ctx s))) (x_ctx s);
           Some (Inl (s\<lparr>x_ctx := c\<rparr>)) }) }) = Some r \<and>
    (case r of Inl s' \<Rightarrow> mid_inv a m0 cap c0 s' \<and> ip < x_ip s' \<and> x_ip s' \<le> c_iend a | Inr e \<Rightarrow> upto_exit a m0 cap c0 e)"
proof -
  let ?m = "x_mem s"
  have fr: "frame m0 ?m (c_dest a) (c_dest a + cap)" and src: "c_source a \<le> x_anchor s"
    using st emittedD(2) by (auto simp: hc_state_def hc_written_def)
  have m: "mapped ?m (c_low a) (c_iend a)" by (rule prefix_mapped [OF ok fr]) simp_all
  have cl: "c_low a \<le> c_source a" using comp_okD(10) [OF ok] by (simp add: c_low_def)
  have mt: "4 \<le> ml" "ip2 + ml \<le> c_matchlimit a" "hc_match ?m (c_low a) ip2 dist ml" using u(5) by (simp_all add: mid_match_def)
  have dist: "1 \<le> dist" "dist \<le> 65535" "c_low a \<le> ip2 - dist" using mt(3) by (simp_all add: hc_match_def)
  have b: "ip2 + 12 \<le> c_iend a" "ip + 9 \<le> c_iend a" using u mt by (auto simp: c_limits)
  have ix: "0 \<le> hc_index c0 ip" "hc_index c0 ip + 2 < hc_index c0 (ip + 3)" "hc_index c0 (ip + 3) < 4294967296"
    using n low b by (simp_all add: hc_index_def)
  have mp: "mapped ?m (ip2 + 1) (ip2 + 1 + 8)" "mapped ?m (ip2 + 2) (ip2 + 2 + 8)" "mapped ?m (ip2 + 1) (ip2 + 1 + 4)"
    using b dist by (auto intro!: mapped_sub [OF m])
  have c': "ctx_upto a c0 (ip + 3) c" by (rule ctx_upto_mono [OF c]) simp
  obtain c1 where c1: "ADDPOS8 ?m (ip2 + 1) (hc_index c0 ip + 1) c = Some c1" "ctx_upto a c0 (ip + 3) c1"
    using ADDPOS_ok(1) [OF c' _ _ _ _ mp(1), of "hc_index c0 ip + 1" "ip + 3"] ix by auto
  obtain c2 where c2: "ADDPOS8 ?m (ip2 + 2) (hc_index c0 ip + 2) c1 = Some c2" "ctx_upto a c0 (ip + 3) c2"
    using ADDPOS_ok(1) [OF c1(2) _ _ _ _ mp(2), of "hc_index c0 ip + 2" "ip + 3"] ix by auto
  obtain c3 where c3: "ADDPOS4 ?m (ip2 + 1) (hc_index c0 ip + 1) c2 = Some c3" "ctx_upto a c0 (ip + 3) c3"
    using ADDPOS_ok(2) [OF c2(2) _ _ _ _ mp(3), of "hc_index c0 ip + 1" "ip + 3"] ix by auto
  let ?s = "s\<lparr>x_ip := ip2, x_ctx := c3\<rparr>"
  have w: "s32 ml = ml" "s32 dist = dist"
    using mt(1,2) dist u(1) src comp_okD(5) [OF ok] by (auto intro!: s32_id simp: c_limits)
  have us: "usable a m0 (x_anchor ?s) (x_ip ?s) ml dist"
    using u mt hc_match_at [OF ok fr mt(3)] dist by (simp add: usable_def c_limits)
  have "hc_state a m0 cap ?s" using st by (simp add: hc_state_def)
  from hc_encode_ok [OF ok this us] obtain r where e: "hc_encode (c_outputDirective a) (hc_oend a) ml dist ?s = Some r"
    "case r of Inl s' \<Rightarrow> hc_state a m0 cap s' \<and> x_ip s' = x_ip ?s + ml \<and> x_anchor s' = x_ip ?s + ml \<and> x_ctx s' = x_ctx ?s
      | Inr e \<Rightarrow> hc_exit a m0 cap e \<and> exit_ctx e = x_ctx ?s" by blast
  then have r: "hc_encode (c_outputDirective a) (hc_oend a) ml dist ?s = Some r"
    "case r of Inl s' \<Rightarrow> hc_state a m0 cap s' \<and> x_ip s' = ip2 + ml \<and> x_anchor s' = ip2 + ml \<and> x_ctx s' = c3
      | Inr e \<Rightarrow> hc_exit a m0 cap e \<and> exit_ctx e = c3" by (cases r; simp)+
  note un = c1(1) c2(1) c3(1) Option.bind.bind_lunit w r(1)
  show ?thesis
  proof (cases r)
    case (Inr e)
    then show ?thesis unfolding un using r(2) ctx_upto_mono [OF c3(2), of "c_iend a"] b by (simp add: upto_exit_def)
  next
    case (Inl t)
    then have t: "hc_state a m0 cap t" "x_ip t = ip2 + ml" "x_anchor t = ip2 + ml" "x_ctx t = c3" using r(2) by simp_all
    have frt: "frame m0 (x_mem t) (c_dest a) (c_dest a + cap)" using t(1) by (auto simp: hc_state_def hc_written_def)
    have mt': "mapped (x_mem t) (c_low a) (c_iend a)" by (rule prefix_mapped [OF ok frt]) simp_all
    have ct: "ctx_upto a c0 (x_ip t) (x_ctx t)" using ctx_upto_mono [OF c3(2), of "ip2 + ml"] u(4) t by simp
    have bt: "c_low a + 5 \<le> x_ip t" "x_ip t \<le> c_iend a" using t(2) dist mt by (auto simp: c_limits)
    have "c_low a + 13 \<le> c_iend a" using b dist by simp
    from mid_fill_end_ok [OF mt' ct bt n this] obtain c4 where c4:
      "mid_fill_end (x_mem t) (x_ip t) (u32 (u32 (c_iend a - LZ4MID_HASHSIZE - h_prefixStart (x_ctx t)) + h_dictLimit (x_ctx t))) (x_ctx t) = Some c4"
      "ctx_upto a c0 (x_ip t) c4" by blast
    have "mid_inv a m0 cap c0 (t\<lparr>x_ctx := c4\<rparr>)" using t c4(2) bt(2) by (simp add: mid_inv_def hc_state_def min_def)
    then show ?thesis unfolding un Inl sum.case c4(1) using t(2) u(4) bt(2) by simp
  qed
qed

lemma mid_body_ok:
  assumes ok: "comp_ok a m0 cap" and i: "mid_inv a m0 cap c0 s"
    and n: "hc_index c0 (c_iend a) < 4294967296" "65536 \<le> h_dictLimit c0" "h_prefixStart c0 = c_low a"
  shows "\<exists>r. mid_body noDictCtx D (c_outputDirective a) (c_iend a) (hc_oend a) s = Some r \<and>
    (case r of Inl s' \<Rightarrow> mid_inv a m0 cap c0 s' \<and> nat (c_iend a - x_ip s') < nat (c_iend a - x_ip s) | Inr e \<Rightarrow> upto_exit a m0 cap c0 e)"
proof -
  let ?m = "x_mem s" let ?c = "x_ctx s" let ?ip = "x_ip s"
  have st: "hc_state a m0 cap s" and an: "x_anchor s \<le> ?ip" and cb: "ctx_upto a c0 (min ?ip (c_iend a)) ?c"
    using i by (simp_all add: mid_inv_def)
  have fr: "frame m0 ?m (c_dest a) (c_dest a + cap)" and src: "c_source a \<le> x_anchor s"
    using st emittedD(2) by (auto simp: hc_state_def hc_written_def)
  have m: "mapped ?m (c_low a) (c_iend a)" by (rule prefix_mapped [OF ok fr]) simp_all
  have cl: "c_low a \<le> c_source a" using comp_okD(10) [OF ok] by (simp add: c_low_def)
  show ?thesis
  proof (cases "?ip \<le> c_iend a - 12")
    case False
    then have "mid_body noDictCtx D (c_outputDirective a) (c_iend a) (hc_oend a) s = Some (Inr (Hc_last s))"
      by (simp add: mid_body_def)
    then show ?thesis using st ctx_upto_mono [OF cb, of "c_iend a"] by (simp add: upto_exit_def hc_exit_def exit_ctx_def)
  next
    case True
    have c: "ctx_upto a c0 ?ip ?c" using cb True by (simp add: min_def split: if_splits)
    note d = ctx_uptoD [OF c]
    have low: "c_low a \<le> ?ip" using an src cl by simp
    have ix: "u32 (u32 (?ip - h_prefixStart ?c) + h_dictLimit ?c) = hc_index c0 ?ip" "0 \<le> hc_index c0 ?ip"
      using n d low True by (auto simp: hc_index_def u32_id)
    have len: "c_iend a - c_low a < 4294967296" using n by (simp add: hc_index_def)
    have lim: "c_matchlimit a - ?ip < 4294967296" using len low by (simp add: c_limits)
    from mid_search_ok [OF m c low True n(1) lim ix(2)] obtain r c1 where
      r: "mid_search noDictCtx D ?m (c_iend a - 12) (c_matchlimit a) ?ip (hc_index c0 ?ip) ?c = Some (r, c1)"
      "case r of None \<Rightarrow> ctx_upto a c0 (?ip + 1) c1
        | Some (ip', ml, dist) \<Rightarrow> ctx_upto a c0 (?ip + 2) c1 \<and> mid_match a ?m ip' ml dist \<and> ?ip \<le> ip' \<and> ip' \<le> ?ip + 1 \<and> ip' \<le> c_iend a - 12" by blast
    have T: "(?ip \<le> c_iend a - 12) = True" "c_iend a - MFLIMIT = c_iend a - 12" "c_iend a - LASTLITERALS = c_matchlimit a"
      using True by (simp_all add: c_matchlimit_def)
    note un = mid_body_def Let_def T(1) if_True T(2,3) ix(1) r(1) Option.bind.bind_lunit prod.case
    show ?thesis
    proof (cases r)
      case None
      let ?s = "s\<lparr>x_ip := ?ip + (1 + drop_bit 9 (?ip - x_anchor s)), x_ctx := c1\<rparr>"
      have sk: "0 \<le> drop_bit 9 (?ip - x_anchor s)" using an by (simp add: drop_bit_eq_div pos_imp_zdiv_nonneg_iff)
      have "ctx_upto a c0 (min (x_ip ?s) (c_iend a)) c1" using r(2) sk True by (auto simp: None intro: ctx_upto_mono)
      moreover have "x_anchor s \<le> ?ip + (1 + drop_bit 9 (?ip - x_anchor s))" using an sk by linarith
      ultimately have "mid_inv a m0 cap c0 ?s" using st by (simp add: mid_inv_def hc_state_def)
      moreover have "?ip < ?ip + (1 + drop_bit 9 (?ip - x_anchor s))" using sk by linarith
      then have "nat (c_iend a - x_ip ?s) < nat (c_iend a - ?ip)" using True by simp
      ultimately show ?thesis unfolding un None option.case by simp
    next
      case (Some x)
      obtain ip' ml dist where x: "x = (ip', ml, dist)" by (cases x)
      have f: "ctx_upto a c0 (?ip + 2) c1" "mid_match a ?m ip' ml dist" "?ip \<le> ip'" "ip' \<le> ?ip + 1" "ip' \<le> c_iend a - 12"
        using r(2) by (simp_all add: Some x)
      have "c_low a \<le> x_anchor s" "x_anchor s \<le> ip'" "ip' \<le> c_iend a" using src cl an f by simp_all
      from mid_back_ok [OF m f(2) this(1,2) len this(3)] obtain ip2 ml2 where
        b: "cloop (mid_back_body ?m (x_anchor s) (c_low a) dist) (ip', ml) = Some (ip2, ml2)" "mid_match a ?m ip2 ml2 dist"
        "x_anchor s \<le> ip2" "ip2 \<le> ip'" "ip2 + ml2 = ip' + ml" by blast
      have pre: "h_prefixStart c1 = c_low a" using ctx_uptoD(1) [OF f(1)] .
      have "ip2 \<le> ?ip + 1" "ip2 + 1 \<le> c_mflimitPlusOne a" "?ip + 4 \<le> ip2 + ml2"
        using b f by (auto simp: c_limits mid_match_def)
      from mid_emit_ok [OF ok st f(1) low b(3) this b(2) n] obtain q where
        q: "(do {
          c \<leftarrow> ADDPOS8 ?m (ip2 + 1) (hc_index c0 ?ip + 1) c1;
          c \<leftarrow> ADDPOS8 ?m (ip2 + 2) (hc_index c0 ?ip + 2) c;
          c \<leftarrow> ADDPOS4 ?m (ip2 + 1) (hc_index c0 ?ip + 1) c;
          r \<leftarrow> hc_encode (c_outputDirective a) (hc_oend a) (s32 ml2) (s32 dist) (s\<lparr>x_ip := ip2, x_ctx := c\<rparr>);
          (case r of
             Inr e \<Rightarrow> Some (Inr e)
           | Inl s \<Rightarrow> do {
               c \<leftarrow> mid_fill_end (x_mem s) (x_ip s)
                 (u32 (u32 (c_iend a - LZ4MID_HASHSIZE - h_prefixStart (x_ctx s)) + h_dictLimit (x_ctx s))) (x_ctx s);
               Some (Inl (s\<lparr>x_ctx := c\<rparr>)) }) }) = Some q"
        "case q of Inl s' \<Rightarrow> mid_inv a m0 cap c0 s' \<and> ?ip < x_ip s' \<and> x_ip s' \<le> c_iend a | Inr e \<Rightarrow> upto_exit a m0 cap c0 e" by blast
      have "mid_body noDictCtx D (c_outputDirective a) (c_iend a) (hc_oend a) s = Some q"
        unfolding un Some x option.case prod.case pre b(1) by (rule q(1))
      then show ?thesis using q(2) by (cases q) auto
    qed
  qed
qed

lemma LZ4MID_compress_ok:
  assumes ok: "comp_ok a m0 cap" and c: "ctx_upto a c (c_source a) c" and pos: "c_outputDirective a = fillOutput \<Longrightarrow> 1 \<le> c_maxOutputSize a"
    and max: "0 \<le> c_maxOutputSize a"
  shows "\<exists>r consumed c' m'. LZ4MID_compress m0 c D (c_source a) (c_dest a) (c_inputSize a) (c_maxOutputSize a)
       (c_outputDirective a) noDictCtx = Some (r, consumed, c', m') \<and>
     hc_result a m0 cap (c_inputSize a) r consumed m' \<and> ctx_upto a c (c_iend a) c'"
proof -
  let ?s = "\<lparr>x_ip = c_source a, x_anchor = c_source a, x_op = c_dest a, x_ctx = c, x_mem = m0\<rparr>"
  note d = ctx_uptoD [OF c] and h = hc_ctxD [OF ctx_uptoD(4) [OF c]]
  have n: "hc_index c (c_iend a) < 4294967296" "65536 \<le> h_dictLimit c" "h_prefixStart c = c_low a"
    using h d(1) by (simp_all add: hc_index_def)
  have le: "c_source a \<le> c_iend a" using comp_okD(4) [OF ok] by (simp add: c_limits)
  have st: "hc_state a m0 cap ?s" using hc_written_start [OF ok] by (auto simp: hc_state_def)
  have "\<exists>e. (if c_inputSize a < LZ4_minLength then Some (Hc_last ?s) else cloop (mid_body noDictCtx D (c_outputDirective a) (c_iend a) (hc_oend a)) ?s) = Some e \<and>
      upto_exit a m0 cap c e"
  proof (cases "c_inputSize a < LZ4_minLength")
    case True
    then show ?thesis using st ctx_upto_mono [OF c le] by (simp add: upto_exit_def hc_exit_def exit_ctx_def)
  next
    case False
    have i: "mid_inv a m0 cap c ?s" using st c le by (simp add: mid_inv_def min_def)
    have "\<exists>e. cloop (mid_body noDictCtx D (c_outputDirective a) (c_iend a) (hc_oend a)) ?s = Some e \<and> upto_exit a m0 cap c e"
    proof (rule cloop_total [where \<mu> = "\<lambda>s. nat (c_iend a - x_ip s)" and I = "mid_inv a m0 cap c"])
      show "mid_inv a m0 cap c ?s" by (rule i)
    next
      fix s assume "mid_inv a m0 cap c s"
      from mid_body_ok [OF ok this n, of D] obtain r where r: "mid_body noDictCtx D (c_outputDirective a) (c_iend a) (hc_oend a) s = Some r"
        "case r of Inl s' \<Rightarrow> mid_inv a m0 cap c s' \<and> nat (c_iend a - x_ip s') < nat (c_iend a - x_ip s) | Inr e \<Rightarrow> upto_exit a m0 cap c e" by blast
      then show "(\<exists>s'. mid_body noDictCtx D (c_outputDirective a) (c_iend a) (hc_oend a) s = Some (Inl s') \<and> mid_inv a m0 cap c s' \<and>
            nat (c_iend a - x_ip s') < nat (c_iend a - x_ip s)) \<or>
          (\<exists>e. mid_body noDictCtx D (c_outputDirective a) (c_iend a) (hc_oend a) s = Some (Inr e) \<and> upto_exit a m0 cap c e)"
        by (cases r) auto
    qed
    then show ?thesis using False by simp
  qed
  then obtain e where e: "(if c_inputSize a < LZ4_minLength then Some (Hc_last ?s) else cloop (mid_body noDictCtx D (c_outputDirective a) (c_iend a) (hc_oend a)) ?s) = Some e"
    "hc_exit a m0 cap e" "ctx_upto a c (c_iend a) (exit_ctx e)" by (auto simp: upto_exit_def)
  have lims: "c_source a + c_inputSize a = c_iend a"
    "(if c_outputDirective a = fillOutput then c_dest a + c_maxOutputSize a - LASTLITERALS else c_dest a + c_maxOutputSize a) = hc_oend a"
    by (simp_all add: c_iend_def hc_oend_def c_olimit_def)
  have legal: "(c_inputSize a < 0) = False" "(c_maxOutputSize a < 0) = False" "(c_inputSize a > LZ4_MAX_INPUT_SIZE) = False"
    using comp_okD(4,5) [OF ok] max by auto
  have "LZ4MID_compress m0 c D (c_source a) (c_dest a) (c_inputSize a) (c_maxOutputSize a) (c_outputDirective a) noDictCtx =
      hc_finish (c_outputDirective a) (c_source a) (c_dest a) (c_iend a) (hc_oend a) (c_inputSize a) e"
    unfolding LZ4MID_compress_def mid_finish_def Let_def lims legal if_False e(1) Option.bind.bind_lunit ..
  then show ?thesis using hc_finish_ok [OF ok e(2) pos, of "c_inputSize a"] e(3) by auto
qed

end
