(* ===== verification/Lz4_HcChainProofs.thy ===== *)
theory Lz4_HcChainProofs
  imports Lz4_HcWider Lz4_HcChain
begin

unbundle bit_operations_syntax

text \<open>
  \<open>LZ4HC_compress_hashChain\<close> on one segment: an invariant per label, which says how the up to three
  matches overlap, and an order in which every jump descends. The main loop ends and what it has
  written is the encoding of the input up to the anchor.
\<close>

section \<open>The call\<close>

definition chain_args :: "cargs \<Rightarrow> chargs \<Rightarrow> bool" where
  "chain_args a z \<longleftrightarrow> z_iend z = c_iend a \<and> z_oend z = hc_oend a \<and> z_limit z = c_outputDirective a \<and> z_dict z = noDictCtx"

lemma chain_argsD:
  assumes "chain_args a z"
  shows "z_mflimit z = c_iend a - 12" "z_matchlimit z = c_matchlimit a" "z_oend z = hc_oend a" "z_limit z = c_outputDirective a"
    "z_dict z = noDictCtx"
  using assms by (auto simp: chain_args_def z_mflimit_def z_matchlimit_def c_matchlimit_def)

abbreviation core :: "chstate \<Rightarrow> hcstate" where
  "core s \<equiv> hcstate.truncate s"

lemma core_simps [simp]:
  "x_ip (core s) = x_ip s" "x_anchor (core s) = x_anchor s" "x_op (core s) = x_op s" "x_ctx (core s) = x_ctx s" "x_mem (core s) = x_mem s"
  by (simp_all add: hcstate.truncate_def)

text \<open>What every label needs: the output, and the anchor in the input.\<close>

definition chain_base :: "cargs \<Rightarrow> mem \<Rightarrow> int \<Rightarrow> chstate \<Rightarrow> bool" where
  "chain_base a m0 cap s \<longleftrightarrow> hc_state a m0 cap (core s)"

lemma chain_base_simps [simp]:
  "chain_base a m0 cap (s\<lparr>x_ip := i\<rparr>) = chain_base a m0 cap s"
  "chain_base a m0 cap (s\<lparr>x_ctx := c\<rparr>) = chain_base a m0 cap s"
  "chain_base a m0 cap (s\<lparr>y_start0 := i\<rparr>) = chain_base a m0 cap s"
  "chain_base a m0 cap (s\<lparr>y_start2 := i\<rparr>) = chain_base a m0 cap s"
  "chain_base a m0 cap (s\<lparr>y_start3 := i\<rparr>) = chain_base a m0 cap s"
  "chain_base a m0 cap (s\<lparr>y_m0 := md\<rparr>) = chain_base a m0 cap s"
  "chain_base a m0 cap (s\<lparr>y_m1 := md\<rparr>) = chain_base a m0 cap s"
  "chain_base a m0 cap (s\<lparr>y_m2 := md\<rparr>) = chain_base a m0 cap s"
  "chain_base a m0 cap (s\<lparr>y_m3 := md\<rparr>) = chain_base a m0 cap s"
  by (simp_all add: chain_base_def hc_state_def)

lemma chain_baseD:
  assumes "chain_base a m0 cap s"
  shows "frame m0 (x_mem s) (c_dest a) (c_dest a + cap)" "c_source a \<le> x_anchor s"
  using assms emittedD(2) by (auto simp: chain_base_def hc_state_def hc_written_def)

text \<open>The state after a match of \<open>n\<close> bytes has been written.\<close>

definition moved :: "int \<Rightarrow> chstate \<Rightarrow> chstate \<Rightarrow> bool" where
  "moved n s s' \<longleftrightarrow> (\<exists>op m. s' = s\<lparr>x_ip := x_ip s + n, x_anchor := x_ip s + n, x_op := op, x_mem := m\<rparr>)"

lemma movedD:
  assumes "moved n s s'"
  shows "x_ip s' = x_ip s + n" "x_anchor s' = x_ip s + n" "x_ctx s' = x_ctx s" "y_start0 s' = y_start0 s" "y_start2 s' = y_start2 s"
    "y_start3 s' = y_start3 s" "y_m0 s' = y_m0 s" "y_m1 s' = y_m1 s" "y_m2 s' = y_m2 s" "y_m3 s' = y_m3 s"
  using assms by (auto simp: moved_def)

lemma ch_encode_ok:
  assumes ok: "comp_ok a m0 cap" and z: "chain_args a z" and b: "chain_base a m0 cap s" and c: "ctx_upto a c0 p (x_ctx s)" "p \<le> c_iend a"
    and u: "usable a m0 (x_anchor s) (x_ip s) (md_len md) (md_off md)"
  shows "\<exists>r. ch_encode z md s = Some r \<and>
     (case r of
        Inl s' \<Rightarrow> chain_base a m0 cap s' \<and> moved (md_len md) s s'
      | Inr e \<Rightarrow> upto_exit a m0 cap c0 e)"
proof -
  have "hc_state a m0 cap (core s)" using b by (simp add: chain_base_def)
  moreover have "usable a m0 (x_anchor (core s)) (x_ip (core s)) (md_len md) (md_off md)" using u by simp
  ultimately obtain r where
    r: "hc_encode (c_outputDirective a) (hc_oend a) (md_len md) (md_off md) (core s) = Some r"
    "case r of
        Inl s' \<Rightarrow> hc_state a m0 cap s' \<and> x_ip s' = x_ip s + md_len md \<and> x_anchor s' = x_ip s + md_len md \<and> x_ctx s' = x_ctx s
      | Inr e \<Rightarrow> hc_exit a m0 cap e \<and> exit_ctx e = x_ctx s"
    using hc_encode_ok [OF ok, of "core s" "md_len md" "md_off md"] unfolding core_simps by blast
  show ?thesis
  proof (cases r)
    case (Inl t)
    let ?s = "s\<lparr>x_ip := x_ip t, x_anchor := x_anchor t, x_op := x_op t, x_mem := x_mem t\<rparr>"
    have "ch_encode z md s = Some (Inl ?s)" using r(1) chain_argsD [OF z] by (simp add: ch_encode_def Inl)
    moreover have "chain_base a m0 cap ?s" using r(2) by (auto simp: Inl chain_base_def hc_state_def)
    ultimately show ?thesis using r(2) by (auto simp: Inl moved_def)
  next
    case (Inr e)
    then show ?thesis
      using r chain_argsD [OF z] ctx_upto_mono [OF c] by (simp add: ch_encode_def upto_exit_def)
  qed
qed

section \<open>The invariants of the labels\<close>

definition main_inv :: "cargs \<Rightarrow> mem \<Rightarrow> int \<Rightarrow> LZ4HC_CCtx_internal \<Rightarrow> chstate \<Rightarrow> bool" where
  "main_inv a m0 cap c0 s \<longleftrightarrow> chain_base a m0 cap s \<and> x_anchor s \<le> x_ip s \<and> x_ip s \<le> c_iend a \<and> ctx_upto a c0 (x_ip s) (x_ctx s)"

text \<open>The first match, and the one it may fall back to, which starts at most two bytes before.\<close>

definition search2_inv :: "cargs \<Rightarrow> mem \<Rightarrow> int \<Rightarrow> LZ4HC_CCtx_internal \<Rightarrow> chstate \<Rightarrow> bool" where
  "search2_inv a m0 cap c0 s \<longleftrightarrow> chain_base a m0 cap s \<and>
     usable a m0 (x_anchor s) (x_ip s) (md_len (y_m1 s)) (md_off (y_m1 s)) \<and>
     usable a m0 (x_anchor s) (y_start0 s) (md_len (y_m0 s)) (md_off (y_m0 s)) \<and>
     y_start0 s \<le> x_ip s \<and> x_ip s \<le> y_start0 s + 2 \<and> md_len (y_m0 s) \<le> md_len (y_m1 s) \<and>
     (y_start0 s < x_ip s \<longrightarrow> md_len (y_m0 s) < md_len (y_m1 s)) \<and>
     ctx_upto a c0 (x_ip s + md_len (y_m1 s) - 2) (x_ctx s)"

text \<open>Two matches: at most one byte between them, and together long enough to cut the first one.\<close>

definition two_matches :: "cargs \<Rightarrow> mem \<Rightarrow> int \<Rightarrow> LZ4HC_CCtx_internal \<Rightarrow> chstate \<Rightarrow> bool" where
  "two_matches a m0 cap c0 s \<longleftrightarrow> chain_base a m0 cap s \<and>
     usable a m0 (x_anchor s) (x_ip s) (md_len (y_m1 s)) (md_off (y_m1 s)) \<and>
     usable a m0 (x_anchor s) (y_start2 s) (md_len (y_m2 s)) (md_off (y_m2 s)) \<and>
     x_ip s \<le> y_start2 s \<and> x_ip s + md_len (y_m1 s) \<le> c_iend a - 12 \<and> 8 \<le> y_start2 s - x_ip s + md_len (y_m2 s) \<and>
     y_start2 s \<le> x_ip s + md_len (y_m1 s) + 1 \<and> (y_start2 s = x_ip s + md_len (y_m1 s) + 1 \<longrightarrow> 6 \<le> md_len (y_m2 s)) \<and>
     ctx_upto a c0 (y_start2 s + md_len (y_m2 s) - 3) (x_ctx s)"

definition search3_inv :: "cargs \<Rightarrow> mem \<Rightarrow> int \<Rightarrow> LZ4HC_CCtx_internal \<Rightarrow> chstate \<Rightarrow> bool" where
  "search3_inv a m0 cap c0 s \<longleftrightarrow> two_matches a m0 cap c0 s \<and> 5 \<le> md_len (y_m2 s)"

fun chain_inv :: "cargs \<Rightarrow> mem \<Rightarrow> int \<Rightarrow> LZ4HC_CCtx_internal \<Rightarrow> hc_label \<times> chstate \<Rightarrow> bool" where
  "chain_inv a m0 cap c0 (Main_loop, s) = main_inv a m0 cap c0 s"
| "chain_inv a m0 cap c0 (Search2, s) = search2_inv a m0 cap c0 s"
| "chain_inv a m0 cap c0 (Search3, s) = search3_inv a m0 cap c0 s"

text \<open>The order: the anchor moves on, or the next label is reached, or the position, the first match or
  the end of the second match grows.\<close>

fun chain_rank :: "cargs \<Rightarrow> hc_label \<times> chstate \<Rightarrow> nat \<times> nat \<times> nat" where
  "chain_rank a (l, s) = (nat (c_iend a - x_anchor s),
     (case l of Main_loop \<Rightarrow> (2, nat (c_iend a - x_ip s))
      | Search2 \<Rightarrow> (1, nat (c_inputSize a - md_len (y_m1 s)))
      | Search3 \<Rightarrow> (0, nat (c_iend a - (y_start2 s + md_len (y_m2 s))))))"

definition chain_order :: "cargs \<Rightarrow> ((hc_label \<times> chstate) \<times> (hc_label \<times> chstate)) set" where
  "chain_order a = inv_image (less_than <*lex*> less_than <*lex*> less_than) (chain_rank a)"

lemma chain_order_wf: "wf (chain_order a)"
  unfolding chain_order_def by (intro wf_inv_image wf_lex_prod wf_less_than)

lemma chain_order_iff:
  "((l', s'), (l, s)) \<in> chain_order a \<longleftrightarrow> (chain_rank a (l', s'), chain_rank a (l, s)) \<in> less_than <*lex*> less_than <*lex*> less_than"
  by (simp add: chain_order_def)

lemma anchor_advances: "x_anchor s < x_anchor s' \<Longrightarrow> x_anchor s' \<le> c_iend a \<Longrightarrow> ((l', s'), (l, s)) \<in> chain_order a"
  by (auto simp: chain_order_iff)

definition chain_post :: "cargs \<Rightarrow> mem \<Rightarrow> int \<Rightarrow> LZ4HC_CCtx_internal \<Rightarrow> hc_label \<times> chstate \<Rightarrow> (hc_label \<times> chstate + hcexit) option \<Rightarrow> bool" where
  "chain_post a m0 cap c0 x r \<longleftrightarrow> (\<exists>x'. r = Some (Inl x') \<and> chain_inv a m0 cap c0 x' \<and> (x', x) \<in> chain_order a) \<or>
     (\<exists>e. r = Some (Inr e) \<and> upto_exit a m0 cap c0 e)"

lemma usable_bounds:
  assumes "usable a m0 anchor ip ml off" "c_source a \<le> anchor"
  shows "anchor \<le> ip" "ip \<le> c_iend a - 12" "4 \<le> ml" "ip + ml \<le> c_iend a - 5" "ml < c_inputSize a"
  using assms by (auto simp: usable_def c_limits)

section \<open>The main label\<close>

lemma step_main_ok:
  assumes ok: "comp_ok a m0 cap" and z: "chain_args a z" and i: "main_inv a m0 cap c0 s"
  shows "chain_post a m0 cap c0 (Main_loop, s) (step_main z s)"
proof -
  note zd = chain_argsD [OF z]
  have b: "chain_base a m0 cap s" "x_anchor s \<le> x_ip s" "x_ip s \<le> c_iend a" "ctx_upto a c0 (x_ip s) (x_ctx s)"
    using i by (simp_all add: main_inv_def)
  note bd = chain_baseD [OF b(1)]
  show ?thesis
  proof (cases "x_ip s \<le> z_mflimit z")
    case False
    then have "step_main z s = Some (Inr (Hc_last (core s)))" by (simp add: step_main_def)
    then show ?thesis using b ctx_upto_mono [OF b(4,3)]
      by (simp add: chain_post_def upto_exit_def hc_exit_def exit_ctx_def chain_base_def)
  next
    case True
    let ?w = "\<lparr>w_ip = x_ip s, w_iLowLimit = x_ip s, w_iHighLimit = z_matchlimit z, w_patternAnalysis = z_patternAnalysis z,
        w_chainSwap = False, w_dict = z_dict z, w_favorDecSpeed = favorCompressionRatio\<rparr>"
    have "ctx_upto a c0 (w_ip ?w) (x_ctx s)" using b(4) by simp
    from wider_ok [OF ok bd(1) this, of 3 "z_attached z" "z_maxNbAttempts z"] b(2,3) bd(2) True zd
    obtain md c' where r: "LZ4HC_InsertAndGetWiderMatch (x_mem s) (x_ctx s) (z_attached z) ?w 3 (z_maxNbAttempts z) = Some (md, c')"
      "ctx_upto a c0 (x_ip s) c'" "better a m0 (x_ip s) (x_ip s) 3 md" by (auto simp: c_limits)
    then have un: "step_main z s = (let s = s\<lparr>y_m1 := md, x_ctx := c'\<rparr> in
        Some (Inl (if md_len md < MINMATCH then (Main_loop, s\<lparr>x_ip := x_ip s + 1\<rparr>) else (Search2, s\<lparr>y_start0 := x_ip s, y_m0 := md\<rparr>))))"
      using True by (simp add: step_main_def LZ4HC_InsertAndFindBestMatch_def)
    show ?thesis
    proof (cases "md_len md < MINMATCH")
      case short: True
      let ?s = "s\<lparr>y_m1 := md, x_ctx := c', x_ip := x_ip s + 1\<rparr>"
      have "chain_base a m0 cap ?s" using b(1) by simp
      then have "main_inv a m0 cap c0 ?s" using b True zd(1) ctx_upto_mono [OF r(2)] by (simp add: main_inv_def)
      moreover have "((Main_loop, ?s), (Main_loop, s)) \<in> chain_order a" using True zd(1) by (simp add: chain_order_iff)
      ultimately show ?thesis using un short by (auto simp: chain_post_def)
    next
      case False
      let ?s = "s\<lparr>y_m1 := md, x_ctx := c', y_start0 := x_ip s, y_m0 := md\<rparr>"
      have u: "usable a m0 (x_ip s) (x_ip s) (md_len md) (md_off md)"
        using r(3) False by (auto simp: better_def usable_def)
      have "chain_base a m0 cap ?s" using b(1) by simp
      then have "search2_inv a m0 cap c0 ?s"
        using usable_anchor [OF u b(2)] ctx_upto_mono [OF r(2)] False by (simp add: search2_inv_def)
      moreover have "((Search2, ?s), (Main_loop, s)) \<in> chain_order a" by (simp add: chain_order_iff)
      ultimately show ?thesis using un False by (auto simp: chain_post_def)
    qed
  qed
qed

section \<open>The label \<open>_Search2\<close>\<close>

text \<open>What the second search leaves: no longer match, or one that ends at least two bytes later.\<close>

definition second_ok :: "cargs \<Rightarrow> mem \<Rightarrow> chstate \<Rightarrow> bool" where
  "second_ok a m0 s \<longleftrightarrow> md_len (y_m2 s) \<le> md_len (y_m1 s) \<or>
     x_ip s + md_len (y_m1 s) \<le> c_iend a - 12 \<and> md_len (y_m1 s) < md_len (y_m2 s) \<and> x_ip s \<le> y_start2 s \<and>
     y_start2 s \<le> x_ip s + md_len (y_m1 s) - 2 \<and> x_ip s + md_len (y_m1 s) + 2 \<le> y_start2 s + md_len (y_m2 s) \<and>
     usable a m0 (x_anchor s) (y_start2 s) (md_len (y_m2 s)) (md_off (y_m2 s))"

lemma ch_wider_ok:
  assumes ok: "comp_ok a m0 cap" and z: "chain_args a z" and b: "chain_base a m0 cap s" and c: "ctx_upto a c0 start (x_ctx s)"
    and l: "c_source a \<le> low" "low \<le> start" "start + 12 \<le> c_iend a" "start - low < longest" "low + longest \<le> c_iend a - 5"
  shows "\<exists>md c'. ch_wider z start low longest s = Some (md, c') \<and> ctx_upto a c0 start c' \<and> better a m0 low start longest md"
proof -
  note zd = chain_argsD [OF z]
  let ?w = "\<lparr>w_ip = start, w_iLowLimit = low, w_iHighLimit = z_matchlimit z, w_patternAnalysis = z_patternAnalysis z,
        w_chainSwap = False, w_dict = z_dict z, w_favorDecSpeed = favorCompressionRatio\<rparr>"
  have "ctx_upto a c0 (w_ip ?w) (x_ctx s)" using c by simp
  from wider_ok [OF ok chain_baseD(1) [OF b] this, of longest "z_attached z" "z_maxNbAttempts z"] l zd
  show ?thesis by (auto simp: ch_wider_def c_limits)
qed

lemma search_2_ok:
  assumes ok: "comp_ok a m0 cap" and z: "chain_args a z" and i: "search2_inv a m0 cap c0 s"
  shows "\<exists>s'. search_2 z s = Some s' \<and> search2_inv a m0 cap c0 s' \<and> second_ok a m0 s' \<and> x_ip s' = x_ip s \<and> x_anchor s' = x_anchor s \<and>
     y_m1 s' = y_m1 s"
proof -
  note zd = chain_argsD [OF z]
  have b: "chain_base a m0 cap s" "ctx_upto a c0 (x_ip s + md_len (y_m1 s) - 2) (x_ctx s)"
    "usable a m0 (x_anchor s) (x_ip s) (md_len (y_m1 s)) (md_off (y_m1 s))"
    using i by (simp_all add: search2_inv_def)
  note bd = chain_baseD [OF b(1)] and u1 = usable_bounds [OF b(3) chain_baseD(2) [OF b(1)]]
  show ?thesis
  proof (cases "x_ip s + md_len (y_m1 s) \<le> z_mflimit z")
    case False
    let ?s = "s\<lparr>y_m2 := nomatch\<rparr>"
    have "search2_inv a m0 cap c0 ?s" using i by (simp add: search2_inv_def)
    moreover have "search_2 z s = Some ?s" using False by (simp add: search_2_def)
    ultimately show ?thesis using u1 by (auto simp: second_ok_def nomatch_def)
  next
    case True
    let ?start = "x_ip s + md_len (y_m1 s) - 2"
    from ch_wider_ok [OF ok z b(1,2), of "x_ip s" "md_len (y_m1 s)"] u1 bd True zd
    obtain md c' where r: "ch_wider z ?start (x_ip s) (md_len (y_m1 s)) s = Some (md, c')" "ctx_upto a c0 ?start c'"
      "better a m0 (x_ip s) ?start (md_len (y_m1 s)) md" by auto
    let ?s = "s\<lparr>y_start2 := ?start + md_back md, y_m2 := md, x_ctx := c'\<rparr>"
    have "search_2 z s = Some ?s" using True r(1) by (simp add: search_2_def)
    moreover have "search2_inv a m0 cap c0 ?s" using i r(2) by (simp add: search2_inv_def)
    moreover have "second_ok a m0 ?s"
      using r(3) u1 True zd(1) usable_anchor [of a m0 "x_ip s" _ _ _ "x_anchor s"] by (auto simp: better_def second_ok_def usable_def)
    ultimately show ?thesis by auto
  qed
qed

lemma encode_first_match_ok:
  assumes ok: "comp_ok a m0 cap" and z: "chain_args a z" and b: "chain_base a m0 cap s" and c: "ctx_upto a c0 p (x_ctx s)"
    and u: "usable a m0 (x_anchor s) (x_ip s) (md_len md) (md_off md)" and p: "p \<le> x_ip s + md_len md" and old: "x_anchor s0 \<le> x_anchor s"
  shows "\<exists>r. ch_encode z md s = Some r \<and>
     chain_post a m0 cap c0 (l, s0) (Some (case r of Inr e \<Rightarrow> Inr e | Inl s \<Rightarrow> Inl (Main_loop, s)))"
proof -
  note ub = usable_bounds [OF u chain_baseD(2) [OF b]]
  have "p \<le> c_iend a" using p ub(4) by simp
  from ch_encode_ok [OF ok z b c this u] obtain r where
    r: "ch_encode z md s = Some r" "case r of
        Inl s' \<Rightarrow> chain_base a m0 cap s' \<and> moved (md_len md) s s'
      | Inr e \<Rightarrow> upto_exit a m0 cap c0 e" by blast
  show ?thesis
  proof (cases r)
    case (Inl s')
    note mv = movedD [of "md_len md" s s']
    have "main_inv a m0 cap c0 s'" using r(2) ub ctx_upto_mono [OF c p] mv Inl by (simp add: main_inv_def)
    moreover have "((Main_loop, s'), (l, s0)) \<in> chain_order a" using r(2) Inl ub old mv by (intro anchor_advances) auto
    ultimately show ?thesis using r(1) Inl by (auto simp: chain_post_def)
  next
    case (Inr e)
    then show ?thesis using r by (auto simp: chain_post_def)
  qed
qed

lemma step_search2_ok:
  assumes ok: "comp_ok a m0 cap" and z: "chain_args a z" and i: "search2_inv a m0 cap c0 s"
  shows "chain_post a m0 cap c0 (Search2, s) (step_search2 z s)"
proof -
  obtain t where t: "search_2 z s = Some t" "search2_inv a m0 cap c0 t" "second_ok a m0 t" "x_ip t = x_ip s" "x_anchor t = x_anchor s"
    "y_m1 t = y_m1 s" using search_2_ok [OF ok z i] by blast
  have b: "chain_base a m0 cap t" "usable a m0 (x_anchor t) (x_ip t) (md_len (y_m1 t)) (md_off (y_m1 t))"
    "usable a m0 (x_anchor t) (y_start0 t) (md_len (y_m0 t)) (md_off (y_m0 t))" "y_start0 t \<le> x_ip t" "x_ip t \<le> y_start0 t + 2"
    "md_len (y_m0 t) \<le> md_len (y_m1 t)" "y_start0 t < x_ip t \<longrightarrow> md_len (y_m0 t) < md_len (y_m1 t)"
    "ctx_upto a c0 (x_ip t + md_len (y_m1 t) - 2) (x_ctx t)"
    using t(2) by (simp_all add: search2_inv_def)
  note src = chain_baseD(2) [OF b(1)]
  note u1 = usable_bounds [OF b(2) src] and u0 = usable_bounds [OF b(3) src]
  show ?thesis
  proof (cases "md_len (y_m2 t) \<le> md_len (y_m1 t)")
    case True
    have "step_search2 z s = do { r \<leftarrow> ch_encode z (y_m1 t) t; Some (case r of Inr e \<Rightarrow> Inr e | Inl s \<Rightarrow> Inl (Main_loop, s)) }"
      using t(1) True by (simp add: step_search2_def)
    then show ?thesis using encode_first_match_ok [OF ok z b(1,8,2) _ eq_refl [OF t(5) [symmetric]], of Search2] by auto
  next
    case False
    then have m2: "x_ip t + md_len (y_m1 t) \<le> c_iend a - 12" "md_len (y_m1 t) < md_len (y_m2 t)" "x_ip t \<le> y_start2 t"
      "y_start2 t \<le> x_ip t + md_len (y_m1 t) - 2" "x_ip t + md_len (y_m1 t) + 2 \<le> y_start2 t + md_len (y_m2 t)"
      "usable a m0 (x_anchor t) (y_start2 t) (md_len (y_m2 t)) (md_off (y_m2 t))" using t(3) by (auto simp: second_ok_def)
    note u2 = usable_bounds [OF m2(6) src]
    define r where "r = (if y_start0 t < x_ip t \<and> y_start2 t < x_ip t + md_len (y_m0 t) then t\<lparr>x_ip := y_start0 t, y_m1 := y_m0 t\<rparr> else t)"
    have keep: "y_start0 r = y_start0 t" "y_start2 r = y_start2 t" "y_m0 r = y_m0 t" "y_m2 r = y_m2 t" "x_ctx r = x_ctx t" "x_anchor r = x_anchor t"
      "chain_base a m0 cap r"
      using b(1) by (auto simp: r_def)
    have un: "step_search2 z s = Some (Inl (if y_start2 r - x_ip r < 3 then (Search2, r\<lparr>x_ip := y_start2 r, y_m1 := y_m2 r\<rparr>) else (Search3, r)))"
      using False unfolding step_search2_def t(1) Option.bind.bind_lunit if_not_P [OF False] r_def [symmetric] Let_def by simp
    show ?thesis
    proof (cases "y_start2 r - x_ip r < 3")
      case near: True
      let ?s = "r\<lparr>x_ip := y_start2 r, y_m1 := y_m2 r\<rparr>"
      have "y_start2 t \<le> y_start0 t + 2" using near b(4) u0(3) by (auto simp: r_def split: if_splits)
      then have "search2_inv a m0 cap c0 ?s"
        using keep m2 b(3-7) ctx_upto_mono [OF b(8), of "y_start2 t + md_len (y_m2 t) - 2"]
        by (simp add: search2_inv_def)
      moreover have "((Search2, ?s), (Search2, s)) \<in> chain_order a"
        using keep m2(2) t(5,6) u2(5) by (simp add: chain_order_iff)
      ultimately show ?thesis using un near by (auto simp: chain_post_def)
    next
      case far: False
      have "two_matches a m0 cap c0 r"
        using keep m2 b far u1 u0 ctx_upto_mono [OF b(8), of "y_start2 t + md_len (y_m2 t) - 3"]
        by (auto simp: two_matches_def r_def split: if_splits)
      then have "search3_inv a m0 cap c0 r" using keep m2(2) u1(3) by (simp add: search3_inv_def)
      moreover have "((Search3, r), (Search2, s)) \<in> chain_order a" using keep t(5) by (simp add: chain_order_iff)
      ultimately show ?thesis using un far by (auto simp: chain_post_def)
    qed
  qed
qed

section \<open>The label \<open>_Search3\<close>\<close>

text \<open>The second match gives way to the first one, its end stays; then it starts after the first one or four bytes into it.\<close>

definition given_way :: "cargs \<Rightarrow> mem \<Rightarrow> int \<Rightarrow> LZ4HC_CCtx_internal \<Rightarrow> chstate \<Rightarrow> bool" where
  "given_way a m0 cap c0 s \<longleftrightarrow> two_matches a m0 cap c0 s \<and>
     (y_start2 s < x_ip s + md_len (y_m1 s) \<longrightarrow> 4 \<le> y_start2 s - x_ip s)"

definition same_rest :: "chstate \<Rightarrow> chstate \<Rightarrow> bool" where
  "same_rest s t \<longleftrightarrow> x_ip t = x_ip s \<and> x_anchor t = x_anchor s \<and> y_m1 t = y_m1 s \<and>
     y_start2 t + md_len (y_m2 t) = y_start2 s + md_len (y_m2 s)"

lemma two_matchesD:
  assumes "two_matches a m0 cap c0 s"
  shows "chain_base a m0 cap s" "usable a m0 (x_anchor s) (x_ip s) (md_len (y_m1 s)) (md_off (y_m1 s))"
    "usable a m0 (x_anchor s) (y_start2 s) (md_len (y_m2 s)) (md_off (y_m2 s))" "x_ip s \<le> y_start2 s"
    "x_ip s + md_len (y_m1 s) \<le> c_iend a - 12" "8 \<le> y_start2 s - x_ip s + md_len (y_m2 s)" "y_start2 s \<le> x_ip s + md_len (y_m1 s) + 1"
    "y_start2 s = x_ip s + md_len (y_m1 s) + 1 \<Longrightarrow> 6 \<le> md_len (y_m2 s)"
    "ctx_upto a c0 (y_start2 s + md_len (y_m2 s) - 3) (x_ctx s)"
  using assms by (simp_all add: two_matches_def)

lemma shift_m2_ok:
  assumes t: "two_matches a m0 cap c0 s" and k: "0 \<le> k" "k \<le> md_len (y_m2 s) - 4" "y_start2 s + k \<le> x_ip s + md_len (y_m1 s)"
  shows "two_matches a m0 cap c0 (shift_m2 k s)" "same_rest s (shift_m2 k s)" "y_start2 (shift_m2 k s) = y_start2 s + k"
proof -
  note d = two_matchesD [OF t]
  have "usable a m0 (x_anchor s) (y_start2 s + k) (md_len (y_m2 s) - k) (md_off (y_m2 s))"
    using d(5) k by (intro usable_later [OF d(3)]) (auto simp: c_limits)
  then show "two_matches a m0 cap c0 (shift_m2 k s)" using d k by (simp add: two_matches_def shift_m2_def)
qed (simp_all add: same_rest_def shift_m2_def)

text \<open>The cut that \<open>_Search3\<close> and the last part of its step have in common.\<close>

definition new_ml :: "chstate \<Rightarrow> int" where
  "new_ml s = (let l = (if md_len (y_m1 s) > OPTIMAL_ML then OPTIMAL_ML else md_len (y_m1 s)) in
     if x_ip s + l > y_start2 s + md_len (y_m2 s) - MINMATCH then s32 (y_start2 s - x_ip s) + md_len (y_m2 s) - MINMATCH else l)"

lemma new_ml_bounds:
  assumes t: "two_matches a m0 cap c0 s" and n: "y_start2 s - x_ip s < 18"
  shows "4 \<le> new_ml s" "new_ml s \<le> md_len (y_m1 s)" "new_ml s - (y_start2 s - x_ip s) \<le> md_len (y_m2 s) - 4"
    "s32 (y_start2 s - x_ip s) = y_start2 s - x_ip s"
proof -
  note d = two_matchesD [OF t]
  note u = usable_bounds [OF d(2) chain_baseD(2) [OF d(1)]]
  show e: "s32 (y_start2 s - x_ip s) = y_start2 s - x_ip s" using d(4) n by (intro s32_id) auto
  show "4 \<le> new_ml s" "new_ml s \<le> md_len (y_m1 s)" "new_ml s - (y_start2 s - x_ip s) \<le> md_len (y_m2 s) - 4"
    using u d(4,6) n by (auto simp: new_ml_def e Let_def OPTIMAL_ML_def)
qed

lemma adjust_m2_ok:
  assumes i: "search3_inv a m0 cap c0 s"
  shows "given_way a m0 cap c0 (adjust_m2 s)" "same_rest s (adjust_m2 s)"
proof -
  have t: "two_matches a m0 cap c0 s" using i by (simp add: search3_inv_def)
  have "given_way a m0 cap c0 (adjust_m2 s) \<and> same_rest s (adjust_m2 s)"
  proof (cases "y_start2 s - x_ip s < 18")
    case False
    then show ?thesis using t by (simp add: adjust_m2_def given_way_def same_rest_def OPTIMAL_ML_def)
  next
    case True
    note n = new_ml_bounds [OF t True]
    let ?k = "new_ml s - (y_start2 s - x_ip s)"
    have un: "adjust_m2 s = (if ?k > 0 then shift_m2 ?k s else s)"
      using True unfolding adjust_m2_def by (simp add: new_ml_def n(4) Let_def OPTIMAL_ML_def)
    show ?thesis
    proof (cases "?k > 0")
      case True
      note sh = shift_m2_ok [OF t, of ?k]
      have "two_matches a m0 cap c0 (shift_m2 ?k s)" "same_rest s (shift_m2 ?k s)" "y_start2 (shift_m2 ?k s) = x_ip s + new_ml s"
        using sh n True by simp_all
      then show ?thesis using n(1) True unfolding un by (simp add: given_way_def same_rest_def)
    next
      case False
      then show ?thesis using t n(1) unfolding un by (simp add: given_way_def same_rest_def)
    qed
  qed
  then show "given_way a m0 cap c0 (adjust_m2 s)" "same_rest s (adjust_m2 s)" by simp_all
qed

text \<open>What the third search leaves: no longer match, or one that ends later.\<close>

definition third_ok :: "cargs \<Rightarrow> mem \<Rightarrow> chstate \<Rightarrow> bool" where
  "third_ok a m0 s \<longleftrightarrow> y_start2 s + md_len (y_m2 s) \<le> c_iend a - 12 \<and> md_len (y_m2 s) < md_len (y_m3 s) \<and>
     y_start2 s \<le> y_start3 s \<and> y_start3 s \<le> y_start2 s + md_len (y_m2 s) - 3 \<and>
     y_start2 s + md_len (y_m2 s) + 1 \<le> y_start3 s + md_len (y_m3 s) \<and>
     usable a m0 (x_anchor s) (y_start3 s) (md_len (y_m3 s)) (md_off (y_m3 s))"

lemma search_3_ok:
  assumes ok: "comp_ok a m0 cap" and z: "chain_args a z" and i: "given_way a m0 cap c0 s"
  shows "\<exists>s'. search_3 z s = Some s' \<and> given_way a m0 cap c0 s' \<and> same_rest s s' \<and> (md_len (y_m3 s') \<le> md_len (y_m2 s') \<or> third_ok a m0 s')"
proof -
  note zd = chain_argsD [OF z]
  note d = two_matchesD [OF conjunct1 [OF i [unfolded given_way_def]]]
  note src = chain_baseD(2) [OF d(1)]
  note u2 = usable_bounds [OF d(3) src]
  show ?thesis
  proof (cases "y_start2 s + md_len (y_m2 s) \<le> z_mflimit z")
    case False
    then show ?thesis using i u2 by (simp add: search_3_def given_way_def two_matches_def same_rest_def nomatch_def)
  next
    case True
    let ?start = "y_start2 s + md_len (y_m2 s) - 3"
    from ch_wider_ok [OF ok z d(1,9), of "y_start2 s" "md_len (y_m2 s)"] u2 src True zd
    obtain md c' where r: "ch_wider z ?start (y_start2 s) (md_len (y_m2 s)) s = Some (md, c')" "ctx_upto a c0 ?start c'"
      "better a m0 (y_start2 s) ?start (md_len (y_m2 s)) md" by auto
    let ?s = "s\<lparr>y_start3 := ?start + md_back md, y_m3 := md, x_ctx := c'\<rparr>"
    have "search_3 z s = Some ?s" using True r(1) by (simp add: search_3_def)
    moreover have "given_way a m0 cap c0 ?s" "same_rest s ?s" using i r(2) by (simp_all add: given_way_def two_matches_def same_rest_def)
    moreover have "md_len (y_m3 ?s) \<le> md_len (y_m2 ?s) \<or> third_ok a m0 ?s"
      using r(3) u2 True zd(1) usable_anchor [of a m0 "y_start2 s" _ _ _ "x_anchor s"] by (auto simp: better_def third_ok_def usable_def)
    ultimately show ?thesis by blast
  qed
qed

text \<open>Writing a match, and going on.\<close>

lemma ch_encode_next:
  assumes ok: "comp_ok a m0 cap" and z: "chain_args a z" and b: "chain_base a m0 cap s" and c: "ctx_upto a c0 p (x_ctx s)" "p \<le> c_iend a"
    and u: "usable a m0 (x_anchor s) (x_ip s) (md_len md) (md_off md)"
    and k: "\<And>s'. chain_base a m0 cap s' \<Longrightarrow> moved (md_len md) s s' \<Longrightarrow> chain_post a m0 cap c0 x (f s')"
  shows "chain_post a m0 cap c0 x (do { r \<leftarrow> ch_encode z md s; case r of Inr e \<Rightarrow> Some (Inr e) | Inl s \<Rightarrow> f s })"
proof -
  from ch_encode_ok [OF ok z b c u] obtain r where
    r: "ch_encode z md s = Some r" "case r of
        Inl s' \<Rightarrow> chain_base a m0 cap s' \<and> moved (md_len md) s s'
      | Inr e \<Rightarrow> upto_exit a m0 cap c0 e" by blast
  then show ?thesis using k by (cases r) (auto simp: chain_post_def)
qed

lemma ch_encode_jump:
  assumes "comp_ok a m0 cap" "chain_args a z" "chain_base a m0 cap s" "ctx_upto a c0 p (x_ctx s)" "p \<le> c_iend a"
    "usable a m0 (x_anchor s) (x_ip s) (md_len md) (md_off md)"
    "\<And>s'. chain_base a m0 cap s' \<Longrightarrow> moved (md_len md) s s' \<Longrightarrow> chain_post a m0 cap c0 x (Some (Inl (f s')))"
  shows "chain_post a m0 cap c0 x (do { r \<leftarrow> ch_encode z md s; Some (case r of Inr e \<Rightarrow> Inr e | Inl s \<Rightarrow> Inl (f s)) })"
proof -
  have "(do { r \<leftarrow> ch_encode z md s; Some (case r of Inr e \<Rightarrow> Inr e | Inl s \<Rightarrow> Inl (f s)) }) =
      (do { r \<leftarrow> ch_encode z md s; case r of Inr e \<Rightarrow> Some (Inr e) | Inl s \<Rightarrow> Some (Inl (f s)) })"
    by (cases "ch_encode z md s") (auto split: sum.splits)
  then show ?thesis using ch_encode_next [OF assms(1-6), where f = "\<lambda>s. Some (Inl (f s))", OF assms(7)] by simp
qed

lemma encode_two_ok:
  assumes ok: "comp_ok a m0 cap" and z: "chain_args a z" and i: "given_way a m0 cap c0 s" and old: "x_anchor s0 = x_anchor s"
  shows "chain_post a m0 cap c0 (l, s0) (encode_two z s)"
proof -
  have t: "two_matches a m0 cap c0 s" "y_start2 s < x_ip s + md_len (y_m1 s) \<Longrightarrow> 4 \<le> y_start2 s - x_ip s"
    using i by (simp_all add: given_way_def)
  note d = two_matchesD [OF t(1)]
  note src = chain_baseD(2) [OF d(1)]
  note u1 = usable_bounds [OF d(2) src] and u2 = usable_bounds [OF d(3) src]
  define n where "n = (if y_start2 s < x_ip s + md_len (y_m1 s) then y_start2 s - x_ip s else md_len (y_m1 s))"
  have n: "4 \<le> n" "n \<le> md_len (y_m1 s)" "x_ip s + n \<le> y_start2 s" using t(2) u1 by (auto simp: n_def)
  let ?s = "s\<lparr>y_m1 := (y_m1 s)\<lparr>md_len := n\<rparr>\<rparr>"
  have sh: "(if y_start2 s < x_ip s + md_len (y_m1 s) then s\<lparr>y_m1 := (y_m1 s)\<lparr>md_len := s32 (y_start2 s - x_ip s)\<rparr>\<rparr> else s) = ?s"
  proof (cases "y_start2 s < x_ip s + md_len (y_m1 s)")
    case True
    then have "s32 (y_start2 s - x_ip s) = y_start2 s - x_ip s" using d(4) u1(4,5) comp_okD(5) [OF ok] by (intro s32_id) auto
    then show ?thesis using True by (simp add: n_def)
  qed (simp add: n_def)
  have un: "encode_two z s = do {
     r \<leftarrow> ch_encode z (y_m1 ?s) ?s;
     (case r of
        Inr e \<Rightarrow> Some (Inr e)
      | Inl s \<Rightarrow> do {
          r \<leftarrow> ch_encode z (y_m2 s) (s\<lparr>x_ip := y_start2 s\<rparr>);
          Some (case r of Inr e \<Rightarrow> Inr e | Inl s \<Rightarrow> Inl (Main_loop, s)) }) }"
    unfolding encode_two_def sh Let_def ..
  have p: "y_start2 s + md_len (y_m2 s) - 3 \<le> c_iend a" using u2 by simp
  show ?thesis unfolding un
  proof (rule ch_encode_next [OF ok z, where p = "y_start2 s + md_len (y_m2 s) - 3"])
    show "usable a m0 (x_anchor ?s) (x_ip ?s) (md_len (y_m1 ?s)) (md_off (y_m1 ?s))" using usable_shorter [OF d(2) n(1,2)] by simp
  next
    fix s' assume b: "chain_base a m0 cap s'" and mv: "moved (md_len (y_m1 ?s)) ?s s'"
    let ?t = "s'\<lparr>x_ip := y_start2 s'\<rparr>"
    note mv' = movedD [OF mv, simplified]
    have ut: "usable a m0 (x_anchor ?t) (x_ip ?t) (md_len (y_m2 s')) (md_off (y_m2 s'))" using usable_anchor [OF d(3)] n mv' by simp
    have "x_anchor s0 \<le> x_anchor ?t" using old u1(1) n(1) mv' by simp
    moreover have "ctx_upto a c0 (y_start2 s + md_len (y_m2 s) - 3) (x_ctx ?t)" using d(9) mv' by simp
    moreover have "chain_base a m0 cap ?t" using b by simp
    ultimately obtain r where "ch_encode z (y_m2 s') ?t = Some r"
      "chain_post a m0 cap c0 (l, s0) (Some (case r of Inr e \<Rightarrow> Inr e | Inl s \<Rightarrow> Inl (Main_loop, s)))"
      using encode_first_match_ok [OF ok z _ _ ut, of c0 "y_start2 s + md_len (y_m2 s) - 3" s0 l] mv' by auto
    then show "chain_post a m0 cap c0 (l, s0) (do { r \<leftarrow> ch_encode z (y_m2 s') ?t; Some (case r of Inr e \<Rightarrow> Inr e | Inl s \<Rightarrow> Inl (Main_loop, s)) })"
      by simp
  qed (use d p in simp_all)
qed

text \<open>With a third match.\<close>

lemma third_okD:
  assumes "third_ok a m0 s"
  shows "y_start2 s + md_len (y_m2 s) \<le> c_iend a - 12" "md_len (y_m2 s) < md_len (y_m3 s)" "y_start2 s \<le> y_start3 s"
    "y_start3 s \<le> y_start2 s + md_len (y_m2 s) - 3" "y_start2 s + md_len (y_m2 s) + 1 \<le> y_start3 s + md_len (y_m3 s)"
    "usable a m0 (x_anchor s) (y_start3 s) (md_len (y_m3 s)) (md_off (y_m3 s))"
  using assms by (simp_all add: third_ok_def)

lemma chain_post_next:
  "chain_inv a m0 cap c0 x' \<Longrightarrow> (x', x) \<in> chain_order a \<Longrightarrow> chain_post a m0 cap c0 x (Some (Inl x'))"
  by (simp add: chain_post_def)

text \<open>Where the second match is after the first one is written: cut, or replaced by the third one.\<close>

lemma second_after_first:
  assumes ok: "comp_ok a m0 cap" and t: "two_matches a m0 cap c0 s" and th: "third_ok a m0 s"
    and near: "y_start3 s < x_ip s + md_len (y_m1 s) + 3" and after: "x_ip s + md_len (y_m1 s) \<le> y_start3 s"
  defines "r \<equiv> (if y_start2 s < x_ip s + md_len (y_m1 s) then
      (let s = shift_m2 (s32 (x_ip s + md_len (y_m1 s) - y_start2 s)) s
       in if md_len (y_m2 s) < MINMATCH then s\<lparr>y_start2 := y_start3 s, y_m2 := y_m3 s\<rparr> else s) else s)"
  shows "chain_base a m0 cap r" "x_ip r = x_ip s" "x_anchor r = x_anchor s" "x_ctx r = x_ctx s" "y_m1 r = y_m1 s" "y_m3 r = y_m3 s"
    "y_start3 r = y_start3 s" "x_ip s + md_len (y_m1 s) \<le> y_start2 r" "y_start2 r \<le> y_start3 s" "y_start3 s \<le> y_start2 r + 2"
    "md_len (y_m2 r) \<le> md_len (y_m3 s)" "y_start2 r < y_start3 s \<longrightarrow> md_len (y_m2 r) < md_len (y_m3 s)"
    "usable a m0 (x_anchor s) (y_start2 r) (md_len (y_m2 r)) (md_off (y_m2 r))"
proof -
  note d = two_matchesD [OF t] and e = third_okD [OF th]
  note u1 = usable_bounds [OF d(2) chain_baseD(2) [OF d(1)]]
  have "chain_base a m0 cap r \<and> x_ip r = x_ip s \<and> x_anchor r = x_anchor s \<and> x_ctx r = x_ctx s \<and> y_m1 r = y_m1 s \<and> y_m3 r = y_m3 s \<and>
    y_start3 r = y_start3 s \<and> x_ip s + md_len (y_m1 s) \<le> y_start2 r \<and> y_start2 r \<le> y_start3 s \<and> y_start3 s \<le> y_start2 r + 2 \<and>
    md_len (y_m2 r) \<le> md_len (y_m3 s) \<and> (y_start2 r < y_start3 s \<longrightarrow> md_len (y_m2 r) < md_len (y_m3 s)) \<and>
    usable a m0 (x_anchor s) (y_start2 r) (md_len (y_m2 r)) (md_off (y_m2 r))"
  proof (cases "y_start2 s < x_ip s + md_len (y_m1 s)")
    case False
    then show ?thesis using d(1,3) e(2,3) near by (simp add: r_def)
  next
    case True
    let ?k = "x_ip s + md_len (y_m1 s) - y_start2 s"
    have k: "s32 ?k = ?k" using True d(4) u1(5) comp_okD(5) [OF ok] by (intro s32_id) auto
    show ?thesis
    proof (cases "md_len (y_m2 s) - ?k < 4")
      case cut: True
      then show ?thesis using True d(1) e after unfolding r_def k by (simp add: Let_def shift_m2_def)
    next
      case False
      have "usable a m0 (x_anchor s) (y_start2 s + ?k) (md_len (y_m2 s) - ?k) (md_off (y_m2 s))"
        using True False d(5) by (intro usable_later [OF d(3)]) (auto simp: c_limits)
      then show ?thesis using True False d(1) e(2) near after unfolding r_def k by (simp add: Let_def shift_m2_def)
    qed
  qed
  then show "chain_base a m0 cap r" "x_ip r = x_ip s" "x_anchor r = x_anchor s" "x_ctx r = x_ctx s" "y_m1 r = y_m1 s" "y_m3 r = y_m3 s"
    "y_start3 r = y_start3 s" "x_ip s + md_len (y_m1 s) \<le> y_start2 r" "y_start2 r \<le> y_start3 s" "y_start3 s \<le> y_start2 r + 2"
    "md_len (y_m2 r) \<le> md_len (y_m3 s)" "y_start2 r < y_start3 s \<longrightarrow> md_len (y_m2 r) < md_len (y_m3 s)"
    "usable a m0 (x_anchor s) (y_start2 r) (md_len (y_m2 r)) (md_off (y_m2 r))" by simp_all
qed

lemma remove_m2_ok:
  assumes ok: "comp_ok a m0 cap" and z: "chain_args a z" and t: "two_matches a m0 cap c0 s" and th: "third_ok a m0 s"
    and near: "y_start3 s < x_ip s + md_len (y_m1 s) + 3"
    and old: "x_anchor s0 = x_anchor s" "y_start2 s0 + md_len (y_m2 s0) = y_start2 s + md_len (y_m2 s)"
  shows "chain_post a m0 cap c0 (Search3, s0) (remove_m2 z s)"
proof -
  note d = two_matchesD [OF t] and e = third_okD [OF th]
  note src = chain_baseD(2) [OF d(1)]
  note u1 = usable_bounds [OF d(2) src] and u2 = usable_bounds [OF d(3) src] and u3 = usable_bounds [OF e(6) src]
  show ?thesis
  proof (cases "y_start3 s \<ge> x_ip s + md_len (y_m1 s)")
    case False
    let ?s = "s\<lparr>y_start2 := y_start3 s, y_m2 := y_m3 s\<rparr>"
    have "search3_inv a m0 cap c0 ?s"
      using d e u2(3) False ctx_upto_mono [OF d(9), of "y_start3 s + md_len (y_m3 s) - 3"] by (simp add: search3_inv_def two_matches_def)
    moreover have "((Search3, ?s), (Search3, s0)) \<in> chain_order a" using old e(5) u3(4) by (simp add: chain_order_iff)
    ultimately show ?thesis using False by (simp add: remove_m2_def chain_post_next)
  next
    case True
    define r where "r = (if y_start2 s < x_ip s + md_len (y_m1 s) then
      (let s = shift_m2 (s32 (x_ip s + md_len (y_m1 s) - y_start2 s)) s
       in if md_len (y_m2 s) < MINMATCH then s\<lparr>y_start2 := y_start3 s, y_m2 := y_m3 s\<rparr> else s) else s)"
    note r = second_after_first [OF ok t th near True, folded r_def]
    have un: "remove_m2 z s = do {
        q \<leftarrow> ch_encode z (y_m1 r) r;
        Some (case q of
           Inr e \<Rightarrow> Inr e
         | Inl s \<Rightarrow> Inl (Search2, s\<lparr>x_ip := y_start3 s, y_m1 := y_m3 s, y_start0 := y_start2 s, y_m0 := y_m2 s\<rparr>)) }"
      using True unfolding remove_m2_def r_def Let_def by simp
    have p: "y_start2 s + md_len (y_m2 s) - 3 \<le> c_iend a" using u2 by simp
    show ?thesis unfolding un
    proof (rule ch_encode_jump [OF ok z r(1) _ p])
      show "ctx_upto a c0 (y_start2 s + md_len (y_m2 s) - 3) (x_ctx r)" using d(9) r(4) by simp
      show "usable a m0 (x_anchor r) (x_ip r) (md_len (y_m1 r)) (md_off (y_m1 r))" using d(2) r by simp
    next
      fix s' assume b: "chain_base a m0 cap s'" and mv: "moved (md_len (y_m1 r)) r s'"
      note mv' = movedD [OF mv]
      let ?s = "s'\<lparr>x_ip := y_start3 s', y_m1 := y_m3 s', y_start0 := y_start2 s', y_m0 := y_m2 s'\<rparr>"
      have "usable a m0 (x_anchor s') (y_start3 s) (md_len (y_m3 s)) (md_off (y_m3 s))"
        "usable a m0 (x_anchor s') (y_start2 r) (md_len (y_m2 r)) (md_off (y_m2 r))"
        using usable_anchor [OF e(6)] usable_anchor [OF r(13)] mv' r True by simp_all
      then have "search2_inv a m0 cap c0 ?s"
        using b mv' r ctx_upto_mono [OF d(9), of "y_start3 s + md_len (y_m3 s) - 2"] e(5) by (simp add: search2_inv_def)
      moreover have "((Search2, ?s), (Search3, s0)) \<in> chain_order a"
        using old(1) mv' r u1 u3 True by (intro anchor_advances) auto
      ultimately show "chain_post a m0 cap c0 (Search3, s0) (Some (Inl (Search2, ?s)))" by (simp add: chain_post_next)
    qed
  qed
qed

text \<open>The first match cut to where the second one begins.\<close>

lemma shorten_m1_ok:
  assumes ok: "comp_ok a m0 cap" and i: "given_way a m0 cap c0 s" and th: "third_ok a m0 s"
    and far: "x_ip s + md_len (y_m1 s) + 3 \<le> y_start3 s"
  defines "r \<equiv> shorten_m1 s"
  shows "chain_base a m0 cap r" "x_ip r = x_ip s" "x_anchor r = x_anchor s" "x_ctx r = x_ctx s" "y_m3 r = y_m3 s" "y_start3 r = y_start3 s"
    "usable a m0 (x_anchor s) (x_ip s) (md_len (y_m1 r)) (md_off (y_m1 r))" "x_ip s + md_len (y_m1 r) \<le> y_start2 r"
    "usable a m0 (x_anchor s) (y_start2 r) (md_len (y_m2 r)) (md_off (y_m2 r))"
    "y_start2 r + md_len (y_m2 r) = y_start2 s + md_len (y_m2 s)" "y_start2 r \<le> y_start3 s"
    "8 \<le> y_start3 s - y_start2 r + md_len (y_m3 s)"
proof -
  have t: "two_matches a m0 cap c0 s" "y_start2 s < x_ip s + md_len (y_m1 s) \<Longrightarrow> 4 \<le> y_start2 s - x_ip s"
    using i by (simp_all add: given_way_def)
  note d = two_matchesD [OF t(1)] and e = third_okD [OF th]
  note src = chain_baseD(2) [OF d(1)]
  note u1 = usable_bounds [OF d(2) src] and u2 = usable_bounds [OF d(3) src]
  let ?G = "\<lambda>r. chain_base a m0 cap r \<and> x_ip r = x_ip s \<and> x_anchor r = x_anchor s \<and> x_ctx r = x_ctx s \<and> y_m3 r = y_m3 s \<and> y_start3 r = y_start3 s \<and>
    usable a m0 (x_anchor s) (x_ip s) (md_len (y_m1 r)) (md_off (y_m1 r)) \<and> x_ip s + md_len (y_m1 r) \<le> y_start2 r \<and>
    usable a m0 (x_anchor s) (y_start2 r) (md_len (y_m2 r)) (md_off (y_m2 r)) \<and>
    y_start2 r + md_len (y_m2 r) = y_start2 s + md_len (y_m2 s) \<and> y_start2 r \<le> y_start3 s \<and> 8 \<le> y_start3 s - y_start2 r + md_len (y_m3 s)"
  have "?G r"
  proof (cases "y_start2 s < x_ip s + md_len (y_m1 s)")
    case False
    then have "r = s" by (simp add: r_def shorten_m1_def)
    moreover have "8 \<le> y_start3 s - y_start2 s + md_len (y_m3 s)"
      using d(7,8) e(2) far u2(3) by (cases "y_start2 s = x_ip s + md_len (y_m1 s) + 1") auto
    ultimately show ?thesis using d(1-3) e(3) False by simp
  next
    case over: True
    show ?thesis
    proof (cases "y_start2 s - x_ip s < 18")
      case False
      have k: "s32 (y_start2 s - x_ip s) = y_start2 s - x_ip s" using over d(4) u1(5) comp_okD(5) [OF ok] by (intro s32_id) auto
      have "r = s\<lparr>y_m1 := (y_m1 s)\<lparr>md_len := y_start2 s - x_ip s\<rparr>\<rparr>"
        using over False by (simp add: r_def shorten_m1_def k OPTIMAL_ML_def)
      then show ?thesis using d(1,3) e(2,3) far u2(3) over False usable_shorter [OF d(2), of "y_start2 s - x_ip s"] by simp
    next
      case True
      note n = new_ml_bounds [OF t(1) True]
      let ?k = "new_ml s - (y_start2 s - x_ip s)" let ?s = "s\<lparr>y_m1 := (y_m1 s)\<lparr>md_len := new_ml s\<rparr>\<rparr>"
      have "r = (let s = ?s in if ?k > 0 then shift_m2 ?k s else s)"
        using over True unfolding r_def shorten_m1_def by (simp add: new_ml_def n(4) Let_def OPTIMAL_ML_def)
      then have un: "r = (if ?k > 0 then shift_m2 ?k ?s else ?s)" by simp
      have us: "usable a m0 (x_anchor s) (x_ip s) (new_ml s) (md_off (y_m1 s))" by (rule usable_shorter [OF d(2) n(1,2)])
      show ?thesis
      proof (cases "?k > 0")
        case True
        have "usable a m0 (x_anchor s) (y_start2 s + ?k) (md_len (y_m2 s) - ?k) (md_off (y_m2 s))"
          using True n(2,3) d(5) by (intro usable_later [OF d(3)]) (auto simp: c_limits)
        then show ?thesis using True us d(1) n(2) e(2) far u2(3) unfolding un by (simp add: shift_m2_def)
      next
        case False
        then show ?thesis using us d(1,3) e(2,3) far u2(3) over unfolding un by simp
      qed
    qed
  qed
  then show "chain_base a m0 cap r" "x_ip r = x_ip s" "x_anchor r = x_anchor s" "x_ctx r = x_ctx s" "y_m3 r = y_m3 s" "y_start3 r = y_start3 s"
    "usable a m0 (x_anchor s) (x_ip s) (md_len (y_m1 r)) (md_off (y_m1 r))" "x_ip s + md_len (y_m1 r) \<le> y_start2 r"
    "usable a m0 (x_anchor s) (y_start2 r) (md_len (y_m2 r)) (md_off (y_m2 r))"
    "y_start2 r + md_len (y_m2 r) = y_start2 s + md_len (y_m2 s)" "y_start2 r \<le> y_start3 s"
    "8 \<le> y_start3 s - y_start2 r + md_len (y_m3 s)" by simp_all
qed

lemma encode_first_ok:
  assumes ok: "comp_ok a m0 cap" and z: "chain_args a z" and i: "given_way a m0 cap c0 s" and th: "third_ok a m0 s"
    and far: "x_ip s + md_len (y_m1 s) + 3 \<le> y_start3 s" and old: "x_anchor s0 = x_anchor s"
  shows "chain_post a m0 cap c0 (l, s0) (encode_first z s)"
proof -
  note r = shorten_m1_ok [OF ok i th far] and e = third_okD [OF th]
  note d = two_matchesD [OF conjunct1 [OF i [unfolded given_way_def]]]
  note src = chain_baseD(2) [OF d(1)]
  note u1 = usable_bounds [OF r(7) src] and u2 = usable_bounds [OF r(9) src]
  have u2': "4 \<le> md_len (y_m2 s)" using usable_bounds [OF d(3) src] by simp
  let ?r = "shorten_m1 s"
  have un: "encode_first z s = do {
     q \<leftarrow> ch_encode z (y_m1 ?r) ?r;
     Some (case q of
        Inr e \<Rightarrow> Inr e
      | Inl s \<Rightarrow> Inl (Search3, s\<lparr>x_ip := y_start2 s, y_m1 := y_m2 s, y_start2 := y_start3 s, y_m2 := y_m3 s\<rparr>)) }"
    unfolding encode_first_def Let_def ..
  have p: "y_start2 s + md_len (y_m2 s) - 3 \<le> c_iend a" using e(1) by simp
  show ?thesis unfolding un
  proof (rule ch_encode_jump [OF ok z r(1) _ p])
    show "ctx_upto a c0 (y_start2 s + md_len (y_m2 s) - 3) (x_ctx ?r)" using d(9) r(4) by simp
    show "usable a m0 (x_anchor ?r) (x_ip ?r) (md_len (y_m1 ?r)) (md_off (y_m1 ?r))" using r by simp
  next
    fix s' assume b: "chain_base a m0 cap s'" and mv: "moved (md_len (y_m1 ?r)) ?r s'"
    note mv' = movedD [OF mv]
    let ?s = "s'\<lparr>x_ip := y_start2 s', y_m1 := y_m2 s', y_start2 := y_start3 s', y_m2 := y_m3 s'\<rparr>"
    have "usable a m0 (x_anchor s') (y_start3 s) (md_len (y_m3 s)) (md_off (y_m3 s))"
      "usable a m0 (x_anchor s') (y_start2 ?r) (md_len (y_m2 ?r)) (md_off (y_m2 ?r))"
      using usable_anchor [OF e(6)] usable_anchor [OF r(9)] mv' r by simp_all
    then have "search3_inv a m0 cap c0 ?s"
      using b mv' r ctx_upto_mono [OF d(9), of "y_start3 s + md_len (y_m3 s) - 3"] e u2' by (simp add: search3_inv_def two_matches_def)
    moreover have "((Search3, ?s), (l, s0)) \<in> chain_order a"
      using old mv' r u1 u2 by (intro anchor_advances) auto
    ultimately show "chain_post a m0 cap c0 (l, s0) (Some (Inl (Search3, ?s)))" by (simp add: chain_post_next)
  qed
qed

lemma step_search3_ok:
  assumes ok: "comp_ok a m0 cap" and z: "chain_args a z" and i: "search3_inv a m0 cap c0 s"
  shows "chain_post a m0 cap c0 (Search3, s) (step_search3 z s)"
proof -
  note w = adjust_m2_ok [OF i]
  from search_3_ok [OF ok z w(1)] obtain t where t: "search_3 z (adjust_m2 s) = Some t" "given_way a m0 cap c0 t"
    "same_rest (adjust_m2 s) t" "md_len (y_m3 t) \<le> md_len (y_m2 t) \<or> third_ok a m0 t" by blast
  have old: "x_anchor s = x_anchor t" "y_start2 s + md_len (y_m2 s) = y_start2 t + md_len (y_m2 t)"
    using w(2) t(3) by (simp_all add: same_rest_def)
  have two: "two_matches a m0 cap c0 t" using t(2) by (simp add: given_way_def)
  have un: "step_search3 z s = (if md_len (y_m3 t) \<le> md_len (y_m2 t) then encode_two z t
     else if y_start3 t < x_ip t + md_len (y_m1 t) + 3 then remove_m2 z t else encode_first z t)"
    unfolding step_search3_def t(1) Option.bind.bind_lunit ..
  consider (none) "md_len (y_m3 t) \<le> md_len (y_m2 t)"
    | (near) "\<not> md_len (y_m3 t) \<le> md_len (y_m2 t)" "y_start3 t < x_ip t + md_len (y_m1 t) + 3"
    | (far) "\<not> md_len (y_m3 t) \<le> md_len (y_m2 t)" "\<not> y_start3 t < x_ip t + md_len (y_m1 t) + 3" by blast
  then show ?thesis
  proof cases
    case none
    then show ?thesis unfolding un using encode_two_ok [OF ok z t(2) old(1)] by simp
  next
    case near
    then have "third_ok a m0 t" using t(4) by blast
    then show ?thesis unfolding un using near remove_m2_ok [OF ok z two _ near(2) old] by simp
  next
    case far
    then have "third_ok a m0 t" "x_ip t + md_len (y_m1 t) + 3 \<le> y_start3 t" using t(4) by simp_all
    then show ?thesis unfolding un using far encode_first_ok [OF ok z t(2) _ _ old(1)] by simp
  qed
qed

section \<open>LZ4HC_compress_hashChain\<close>

lemma chain_body_ok:
  assumes ok: "comp_ok a m0 cap" and z: "chain_args a z" and i: "chain_inv a m0 cap c0 x"
  shows "chain_post a m0 cap c0 x (chain_body z x)"
proof -
  obtain l s where x: "x = (l, s)" by (cases x)
  show ?thesis using i step_main_ok [OF ok z] step_search2_ok [OF ok z] step_search3_ok [OF ok z] unfolding x by (cases l) simp_all
qed

lemma chain_loop_ok:
  assumes ok: "comp_ok a m0 cap" and z: "chain_args a z" and i: "chain_inv a m0 cap c0 x"
  shows "\<exists>e. cloop (chain_body z) x = Some e \<and> upto_exit a m0 cap c0 e"
proof (rule cloop_wf [where R = "chain_order a" and I = "chain_inv a m0 cap c0"])
  show "wf (chain_order a)" by (rule chain_order_wf)
  show "chain_inv a m0 cap c0 x" by (rule i)
next
  fix y assume "chain_inv a m0 cap c0 y"
  from chain_body_ok [OF ok z this] show
    "(\<exists>y'. chain_body z y = Some (Inl y') \<and> chain_inv a m0 cap c0 y' \<and> (y', y) \<in> chain_order a) \<or>
     (\<exists>e. chain_body z y = Some (Inr e) \<and> upto_exit a m0 cap c0 e)"
    by (simp add: chain_post_def)
qed

text \<open>
  \<open>LZ4HC_compress_hashChain\<close> for content in one segment: it returns, and the result is that of a
  correct compressor; the context keeps its invariant.
\<close>

lemma LZ4HC_compress_hashChain_ok:
  assumes ok: "comp_ok a m0 cap" and c: "ctx_upto a c (c_source a) c"
    and pos: "c_outputDirective a = fillOutput \<Longrightarrow> 1 \<le> c_maxOutputSize a"
  shows "\<exists>r consumed c' m'. LZ4HC_compress_hashChain m0 c D (c_source a) (c_dest a) (c_inputSize a) (c_maxOutputSize a) attempts
       (c_outputDirective a) noDictCtx = Some (r, consumed, c', m') \<and>
     hc_result a m0 cap 0 r consumed m' \<and> ctx_upto a c (c_iend a) c'"
proof -
  let ?z = "\<lparr>z_iend = c_iend a, z_oend = hc_oend a, z_maxNbAttempts = attempts, z_limit = c_outputDirective a, z_dict = noDictCtx, z_attached = D\<rparr>"
  let ?s = "chain_init m0 c (c_source a) (c_dest a)"
  have z: "chain_args a ?z" by (simp add: chain_args_def)
  have b: "chain_base a m0 cap ?s" using hc_written_start [OF ok] by (auto simp: chain_base_def hc_state_def chain_init_def)
  have le: "c_source a \<le> c_iend a" using comp_okD(4) [OF ok] by (simp add: c_limits)
  have "\<exists>e. (if c_inputSize a < LZ4_minLength then Some (Hc_last (core ?s)) else cloop (chain_body ?z) (Main_loop, ?s)) = Some e \<and>
      upto_exit a m0 cap c e"
  proof (cases "c_inputSize a < LZ4_minLength")
    case True
    then show ?thesis using b ctx_upto_mono [OF c le] by (simp add: upto_exit_def hc_exit_def exit_ctx_def chain_base_def chain_init_def)
  next
    case False
    have "chain_inv a m0 cap c (Main_loop, ?s)" using b c le by (simp add: main_inv_def chain_init_def)
    then show ?thesis using chain_loop_ok [OF ok z, of c "(Main_loop, ?s)"] False by simp
  qed
  then obtain e where e: "(if c_inputSize a < LZ4_minLength then Some (Hc_last (core ?s)) else cloop (chain_body ?z) (Main_loop, ?s)) = Some e"
    "hc_exit a m0 cap e" "ctx_upto a c (c_iend a) (exit_ctx e)" by (auto simp: upto_exit_def)
  have lims: "c_source a + c_inputSize a = c_iend a"
    "(if c_outputDirective a = fillOutput then c_dest a + c_maxOutputSize a - LASTLITERALS else c_dest a + c_maxOutputSize a) = hc_oend a"
    by (simp_all add: c_iend_def hc_oend_def c_olimit_def)
  have "LZ4HC_compress_hashChain m0 c D (c_source a) (c_dest a) (c_inputSize a) (c_maxOutputSize a) attempts (c_outputDirective a) noDictCtx =
      hc_finish (c_outputDirective a) (c_source a) (c_dest a) (c_iend a) (hc_oend a) 0 e"
    unfolding LZ4HC_compress_hashChain_def Let_def lims e(1) Option.bind.bind_lunit ..
  then show ?thesis using hc_finish_ok [OF ok e(2) pos, of 0] e(3) by auto
qed

end
