(* ===== verification/Lz4_HcOptimalProofs.thy ===== *)
theory Lz4_HcOptimalProofs
  imports Lz4_HcWider Lz4_HcOptimal
begin

unbundle bit_operations_syntax

text \<open>
  \<open>LZ4HC_compress_optimal\<close> on one segment: whatever the prices are, every element of the array that a pass
  reads names a literal or a match that ends at its position, the reverse traversal turns them into a
  path from the start of the pass, and the sequences that are encoded follow it.
\<close>

section \<open>The search\<close>

lemma FindLongerMatch_ok:
  assumes ok: "comp_ok a m0 cap" and fr: "frame m0 m (c_dest a) (c_dest a + cap)" and c: "ctx_upto a c0 ip c"
    and ip: "c_source a \<le> ip" "ip + 12 \<le> c_iend a" and n: "0 < minLen" "ip + minLen \<le> c_matchlimit a"
  shows "\<exists>md c'. LZ4HC_FindLongerMatch m c D ip (c_matchlimit a) minLen nbSearch noDictCtx favor = Some (md, c') \<and>
     ctx_upto a c0 ip c' \<and> (md_len md = 0 \<or> usable a m0 ip ip (md_len md) (md_off md))"
proof -
  let ?w = "\<lparr>w_ip = ip, w_iLowLimit = ip, w_iHighLimit = c_matchlimit a, w_patternAnalysis = True, w_chainSwap = True,
        w_dict = noDictCtx, w_favorDecSpeed = favor\<rparr>"
  have "ctx_upto a c0 (w_ip ?w) c" using c by simp
  from wider_ok [OF ok fr this, of minLen D nbSearch] ip n obtain md c' where
    r: "LZ4HC_InsertAndGetWiderMatch m c D ?w minLen nbSearch = Some (md, c')" "ctx_upto a c0 ip c'" "better a m0 ip ip minLen md" by auto
  let ?md = "if md_len md \<le> minLen then nomatch
           else if favor = favorDecompressionSpeed \<and> md_len md > 18 \<and> md_len md \<le> 36 then md\<lparr>md_len := 18\<rparr> else md"
  have "LZ4HC_FindLongerMatch m c D ip (c_matchlimit a) minLen nbSearch noDictCtx favor = Some (?md, c')"
    using r(1) by (simp add: LZ4HC_FindLongerMatch_def)
  moreover have "md_len ?md = 0 \<or> usable a m0 ip ip (md_len ?md) (md_off ?md)"
  proof (cases "md_len md \<le> minLen")
    case True
    then show ?thesis by (simp add: nomatch_def)
  next
    case False
    then have b: "md_back md \<le> 0" "usable a m0 ip (ip + md_back md) (md_len md) (md_off md)" using r(3) by (auto simp: better_def)
    then have "md_back md = 0" by (auto simp: usable_def)
    then have u: "usable a m0 ip ip (md_len md) (md_off md)" using b(2) by simp
    then show ?thesis using False usable_shorter [OF u, of 18] by auto
  qed
  ultimately show ?thesis using r(2) by blast
qed

section \<open>The array\<close>

text \<open>An element of the array is a literal or a match that ends at its position; the first one is a literal.\<close>

definition edge :: "cargs \<Rightarrow> mem \<Rightarrow> int \<Rightarrow> int \<Rightarrow> int \<Rightarrow> int \<Rightarrow> bool" where
  "edge a m0 ip k ml dist \<longleftrightarrow> ml = 1 \<or> usable a m0 ip (ip + k) ml dist"

definition entry_ok :: "cargs \<Rightarrow> mem \<Rightarrow> int \<Rightarrow> int \<Rightarrow> LZ4HC_optimal_t \<Rightarrow> bool" where
  "entry_ok a m0 ip k e \<longleftrightarrow> 0 \<le> litlen e \<and>
     (if k = 0 then mlen e = 1 else mlen e \<le> k \<and> edge a m0 ip (k - mlen e) (mlen e) (off e))"

definition table_ok :: "cargs \<Rightarrow> mem \<Rightarrow> int \<Rightarrow> int \<Rightarrow> opt_table \<Rightarrow> bool" where
  "table_ok a m0 ip n t \<longleftrightarrow> (\<forall>k. 0 \<le> k \<and> k < n \<longrightarrow> entry_ok a m0 ip k (t k))"

lemma edge_pos: "edge a m0 ip k ml dist \<Longrightarrow> 1 \<le> ml"
  by (auto simp: edge_def usable_def)

lemma literal_entry: "0 < k \<Longrightarrow> 0 \<le> l \<Longrightarrow> entry_ok a m0 ip k \<lparr>price = p, off = f, mlen = 1, litlen = l\<rparr>"
  by (simp add: entry_ok_def edge_def)

lemma match_entry:
  "usable a m0 ip (ip + cur) ml dist \<Longrightarrow> 0 \<le> cur \<Longrightarrow> 0 \<le> l \<Longrightarrow> entry_ok a m0 ip (cur + ml) \<lparr>price = p, off = dist, mlen = ml, litlen = l\<rparr>"
  by (auto simp: entry_ok_def edge_def usable_def)

lemma table_okD: "table_ok a m0 ip n t \<Longrightarrow> 0 \<le> k \<Longrightarrow> k < n \<Longrightarrow> entry_ok a m0 ip k (t k)"
  by (simp add: table_ok_def)

lemma table_mono: "table_ok a m0 ip n t \<Longrightarrow> n' \<le> n \<Longrightarrow> table_ok a m0 ip n' t"
  by (simp add: table_ok_def)

lemma table_upd: "table_ok a m0 ip n t \<Longrightarrow> entry_ok a m0 ip k e \<Longrightarrow> table_ok a m0 ip n (t(k := e))"
  by (simp add: table_ok_def)

lemma table_snoc: "table_ok a m0 ip n t \<Longrightarrow> entry_ok a m0 ip n e \<Longrightarrow> table_ok a m0 ip (n + 1) (t(n := e))"
  by (auto simp: table_ok_def)

lemma opt_range [simp]:
  "0 \<le> k \<Longrightarrow> k < 4099 \<Longrightarrow> opt_get t k = Some (t k)" "0 \<le> k \<Longrightarrow> k < 4099 \<Longrightarrow> opt_set t k e = Some (t(k := e))"
  by (simp_all add: opt_get_def opt_set_def)

section \<open>Setting prices\<close>

lemma first_literals_ok:
  assumes l: "0 \<le> llen"
  shows "\<exists>t'. cloop (first_literals_body llen) (0, t) = Some t' \<and> table_ok a m0 ip 4 t'"
proof (rule cloop_total [where \<mu> = "\<lambda>(r, _). nat (4 - r)" and I = "\<lambda>(r, t). 0 \<le> r \<and> r \<le> 4 \<and> table_ok a m0 ip r t"])
  show "case (0, t) of (r, t) \<Rightarrow> 0 \<le> r \<and> r \<le> 4 \<and> table_ok a m0 ip r t" by (auto simp: table_ok_def)
next
  fix s :: "int \<times> opt_table" assume "case s of (r, t) \<Rightarrow> 0 \<le> r \<and> r \<le> 4 \<and> table_ok a m0 ip r t"
  then obtain r t where s: "s = (r, t)" "0 \<le> r" "r \<le> 4" "table_ok a m0 ip r t" by (cases s) auto
  show "(\<exists>s'. first_literals_body llen s = Some (Inl s') \<and> (case s' of (r, t) \<Rightarrow> 0 \<le> r \<and> r \<le> 4 \<and> table_ok a m0 ip r t) \<and>
      (case s' of (r, _) \<Rightarrow> nat (4 - r)) < (case s of (r, _) \<Rightarrow> nat (4 - r))) \<or>
    (\<exists>t'. first_literals_body llen s = Some (Inr t') \<and> table_ok a m0 ip 4 t')"
  proof (cases "r < 4")
    case True
    let ?e = "\<lparr>price = LZ4HC_literalsPrice (llen + r), off = 0, mlen = 1, litlen = llen + r\<rparr>"
    have "entry_ok a m0 ip r ?e" using l s(2) by (simp add: entry_ok_def edge_def)
    then have "table_ok a m0 ip (r + 1) (t(r := ?e))" using s(4) by (rule table_snoc [rotated])
    then show ?thesis using s True by simp
  next
    case False
    then have "r = 4" using s(3) by simp
    then show ?thesis using s by simp
  qed
qed

lemma first_match_ok:
  assumes l: "0 \<le> llen" and u: "usable a m0 ip ip mx dist" "mx < 4096" and t: "table_ok a m0 ip 4 t"
  shows "\<exists>t'. cloop (first_match_body llen mx dist) (MINMATCH, t) = Some t' \<and> table_ok a m0 ip (mx + 1) t'"
proof -
  have ml: "4 \<le> mx" using u(1) by (simp add: usable_def)
  let ?I = "\<lambda>(ml, t). 4 \<le> ml \<and> ml \<le> mx + 1 \<and> table_ok a m0 ip ml t"
  show ?thesis
  proof (rule cloop_total [where \<mu> = "\<lambda>(ml, _). nat (mx + 1 - ml)" and I = ?I])
    show "?I (MINMATCH, t)" using t ml by simp
  next
    fix s :: "int \<times> opt_table" assume "?I s"
    then obtain ml t where s: "s = (ml, t)" "4 \<le> ml" "ml \<le> mx + 1" "table_ok a m0 ip ml t" by (cases s) auto
    show "(\<exists>s'. first_match_body llen mx dist s = Some (Inl s') \<and> ?I s' \<and>
        (case s' of (ml, _) \<Rightarrow> nat (mx + 1 - ml)) < (case s of (ml, _) \<Rightarrow> nat (mx + 1 - ml))) \<or>
      (\<exists>t'. first_match_body llen mx dist s = Some (Inr t') \<and> table_ok a m0 ip (mx + 1) t')"
    proof (cases "ml \<le> mx")
      case True
      let ?e = "\<lparr>price = LZ4HC_sequencePrice llen ml, off = dist, mlen = ml, litlen = llen\<rparr>"
      have "usable a m0 ip (ip + 0) ml dist" using usable_shorter [OF u(1) s(2) True] by simp
      from match_entry [OF this order_refl l] have "entry_ok a m0 ip ml ?e" by simp
      then have "table_ok a m0 ip (ml + 1) (t(ml := ?e))" using s(4) by (rule table_snoc [rotated])
      then show ?thesis using s True u(2) by simp
    next
      case False
      then have "ml = mx + 1" using s(3) by simp
      then show ?thesis using s by simp
    qed
  qed
qed

lemma trailing_ok:
  assumes L: "0 \<le> L" "L < 4096" and t: "table_ok a m0 ip (L + 1) t"
  shows "\<exists>t'. cloop (trailing_body L) (1, t) = Some t' \<and> table_ok a m0 ip (L + 4) t'"
proof -
  let ?I = "\<lambda>(r, t). 1 \<le> r \<and> r \<le> 4 \<and> table_ok a m0 ip (L + r) t"
  show ?thesis
  proof (rule cloop_total [where \<mu> = "\<lambda>(r, _). nat (4 - r)" and I = ?I])
    show "?I (1, t)" using t by simp
  next
    fix s :: "int \<times> opt_table" assume "?I s"
    then obtain r t where s: "s = (r, t)" "1 \<le> r" "r \<le> 4" "table_ok a m0 ip (L + r) t" by (cases s) auto
    show "(\<exists>s'. trailing_body L s = Some (Inl s') \<and> ?I s' \<and>
        (case s' of (r, _) \<Rightarrow> nat (4 - r)) < (case s of (r, _) \<Rightarrow> nat (4 - r))) \<or>
      (\<exists>t'. trailing_body L s = Some (Inr t') \<and> table_ok a m0 ip (L + 4) t')"
    proof (cases "r < 4")
      case True
      let ?e = "\<lparr>price = price (t L) + LZ4HC_literalsPrice r, off = 0, mlen = 1, litlen = r\<rparr>"
      have "entry_ok a m0 ip (L + r) ?e" using L s(2) by (intro literal_entry) auto
      then have "table_ok a m0 ip (L + r + 1) (t(L + r := ?e))" using s(4) by (rule table_snoc [rotated])
      then show ?thesis using s True L by (simp add: add.assoc)
    next
      case False
      then have "r = 4" using s(3) by simp
      then show ?thesis using s by simp
    qed
  qed
qed

lemma before_match_ok:
  assumes c: "0 < cur" "cur + 4 \<le> n" "n \<le> 4099" and l: "0 \<le> base" and t: "table_ok a m0 ip n t"
  shows "\<exists>t'. cloop (before_match_body cur base) (1, t) = Some t' \<and> table_ok a m0 ip n t'"
proof -
  let ?I = "\<lambda>(r :: int, t). 1 \<le> r \<and> r \<le> 4 \<and> table_ok a m0 ip n t"
  show ?thesis
  proof (rule cloop_total [where \<mu> = "\<lambda>(r, _). nat (4 - r)" and I = ?I])
    show "?I (1, t)" using t by simp
  next
    fix s :: "int \<times> opt_table" assume "?I s"
    then obtain r t where s: "s = (r, t)" "1 \<le> r" "r \<le> 4" "table_ok a m0 ip n t" by (cases s) auto
    show "(\<exists>s'. before_match_body cur base s = Some (Inl s') \<and> ?I s' \<and>
        (case s' of (r, _) \<Rightarrow> nat (4 - r)) < (case s of (r, _) \<Rightarrow> nat (4 - r))) \<or>
      (\<exists>t'. before_match_body cur base s = Some (Inr t') \<and> table_ok a m0 ip n t')"
    proof (cases "r < 4")
      case True
      have "table_ok a m0 ip n (t(cur + r := \<lparr>price = p, off = 0, mlen = 1, litlen = base + r\<rparr>))" for p
        using c l s(2) by (intro table_upd [OF s(4)] literal_entry) auto
      then show ?thesis using s True c by (simp add: Let_def)
    next
      case False
      then show ?thesis using s by simp
    qed
  qed
qed

text \<open>The lengths of a new match: the last position stays, or becomes the end of the match.\<close>

lemma new_match_ok:
  assumes c: "0 < cur" "cur < L" "L < 4096" and u: "usable a m0 ip (ip + cur) (md_len md) (md_off md)" "cur + md_len md < 4096"
    and t: "table_ok a m0 ip (L + 4) t"
  shows "\<exists>L' t'. cloop (new_match_body favor cur md) (MINMATCH, L, t) = Some (L', t') \<and> table_ok a m0 ip (L' + 1) t' \<and>
     (L' = L \<or> L < L' \<and> L' = cur + md_len md)"
proof -
  let ?mx = "md_len md"
  have mx: "4 \<le> ?mx" using u(1) by (simp add: usable_def)
  let ?I = "\<lambda>(ml, L', t). 4 \<le> ml \<and> ml \<le> ?mx + 1 \<and> (L' = L \<or> ml = ?mx + 1 \<and> L < L' \<and> L' = cur + ?mx) \<and>
     table_ok a m0 ip (max (L + 4) (cur + ml)) t"
  let ?Q = "\<lambda>(L', t'). table_ok a m0 ip (L' + 1) t' \<and> (L' = L \<or> L < L' \<and> L' = cur + ?mx)"
  have "\<exists>r. cloop (new_match_body favor cur md) (MINMATCH, L, t) = Some r \<and> ?Q r"
  proof (rule cloop_total [where \<mu> = "\<lambda>(ml, _). nat (?mx + 1 - ml)" and I = ?I])
    show "?I (MINMATCH, L, t)" using t mx c by (simp add: max_def)
  next
    fix s :: "int \<times> int \<times> opt_table" assume "?I s"
    then obtain ml L' t where s: "s = (ml, L', t)" "4 \<le> ml" "ml \<le> ?mx + 1" "L' = L \<or> ml = ?mx + 1 \<and> L < L' \<and> L' = cur + ?mx"
      "table_ok a m0 ip (max (L + 4) (cur + ml)) t" by (cases s) auto
    show "(\<exists>s'. new_match_body favor cur md s = Some (Inl s') \<and> ?I s' \<and>
        (case s' of (ml, _) \<Rightarrow> nat (?mx + 1 - ml)) < (case s of (ml, _) \<Rightarrow> nat (?mx + 1 - ml))) \<or>
      (\<exists>r. new_match_body favor cur md s = Some (Inr r) \<and> ?Q r)"
    proof (cases "ml \<le> ?mx")
      case False
      then have "new_match_body favor cur md s = Some (Inr (L', t))" by (simp add: s(1))
      moreover have "?Q (L', t)" using s False by (auto intro: table_mono)
      ultimately show ?thesis by blast
    next
      case True
      then have L': "L' = L" using s(4) by simp
      let ?pos = "cur + ml" and ?e = "t cur"
      have pos: "0 \<le> ?pos" "?pos < 4099" "0 < ?pos" using c s(2) True u(2) by simp_all
      have e: "0 \<le> litlen ?e" using table_okD [OF s(5), of cur] c by (simp add: entry_ok_def)
      have "\<exists>ll p. (if mlen ?e = 1 then do {
             base \<leftarrow> (if cur > litlen ?e then map_option price (opt_get t (cur - litlen ?e)) else Some 0);
             Some (litlen ?e, base + LZ4HC_sequencePrice (litlen ?e) ml) }
           else Some (0, price ?e + LZ4HC_sequencePrice 0 ml)) = Some (ll, p) \<and> 0 \<le> ll"
      proof (cases "litlen ?e < cur")
        case True
        then have "opt_get t (cur - litlen ?e) = Some (t (cur - litlen ?e))" using e c by simp
        then show ?thesis using e by simp
      qed (use e in simp)
      then obtain ll p where lp: "(if mlen ?e = 1 then do {
             base \<leftarrow> (if cur > litlen ?e then map_option price (opt_get t (cur - litlen ?e)) else Some 0);
             Some (litlen ?e, base + LZ4HC_sequencePrice (litlen ?e) ml) }
           else Some (0, price ?e + LZ4HC_sequencePrice 0 ml)) = Some (ll, p)" "0 \<le> ll" by blast
      have og: "opt_get t ?pos = Some (t ?pos)" using pos by simp
      define bt where "bt = (?pos > L + TRAILING_LITERALS \<or> p \<le> price (t ?pos) - (if favor = favorDecompressionSpeed then 1 else 0))"
      have bt: "(if ?pos > L + TRAILING_LITERALS then Some True
           else map_option (\<lambda>e. p \<le> price e - (if favor = favorDecompressionSpeed then 1 else 0)) (opt_get t ?pos)) = Some bt"
        unfolding og bt_def by simp
      let ?n = "\<lparr>price = p, off = md_off md, mlen = ml, litlen = ll\<rparr>"
      let ?L = "if ml = ?mx \<and> L < ?pos then ?pos else L"
      have cg: "opt_get t cur = Some ?e" using c by simp
      have un: "new_match_body favor cur md s = Some (Inl (if bt then (ml + 1, ?L, t(?pos := ?n)) else (ml + 1, L, t)))"
        unfolding s(1) L' new_match_body.simps if_P [OF True] Let_def cg Option.bind.bind_lunit lp(1) prod.case bt using pos by simp
      show ?thesis
      proof (cases bt)
        case False
        then have "?pos \<le> L + 3" by (simp add: bt_def)
        then have "max (L + 4) (cur + ml) = max (L + 4) (cur + (ml + 1))" by simp
        then have "?I (ml + 1, L, t)" using s(2,5) True by (simp add: add.assoc)
        then show ?thesis unfolding un using False True by (simp add: s(1))
      next
        case better: True
        have "entry_ok a m0 ip ?pos ?n" using usable_shorter [OF u(1) s(2) True] c lp(2) by (intro match_entry) auto
        then have "table_ok a m0 ip (max (L + 4) (cur + (ml + 1))) (t(?pos := ?n))"
          using s(5) by (cases "?pos < L + 4") (auto simp: table_ok_def max_def)
        then have "?I (ml + 1, ?L, t(?pos := ?n))" using s(2) True by simp
        then show ?thesis unfolding un using better True by (simp add: s(1))
      qed
    qed
  qed
  then show ?thesis by auto
qed

lemma initial_prices_ok:
  assumes "0 \<le> llen" "usable a m0 ip ip (md_len md) (md_off md)" "md_len md < 4096"
  shows "\<exists>t'. initial_prices llen md t = Some t' \<and> table_ok a m0 ip (md_len md + 4) t'"
proof -
  obtain t1 where t1: "cloop (first_literals_body llen) (0, t) = Some t1" "table_ok a m0 ip 4 t1" using first_literals_ok [OF assms(1)] by blast
  obtain t2 where t2: "cloop (first_match_body llen (md_len md) (md_off md)) (MINMATCH, t1) = Some t2" "table_ok a m0 ip (md_len md + 1) t2"
    using first_match_ok [OF assms t1(2)] by blast
  have "0 \<le> md_len md" using assms(2) by (simp add: usable_def)
  from trailing_ok [OF this assms(3) t2(2)] show ?thesis
    unfolding initial_prices_def t1(1) t2(1) Option.bind.bind_lunit by blast
qed

section \<open>Further positions\<close>

definition opt_args :: "cargs \<Rightarrow> optargs \<Rightarrow> bool" where
  "opt_args a p \<longleftrightarrow> p_iend p = c_iend a \<and> p_oend p = hc_oend a \<and> p_limit p = c_outputDirective a \<and> p_dict p = noDictCtx \<and>
     p_sufficient_len p < 4096"

lemma opt_argsD:
  assumes "opt_args a p"
  shows "p_mflimit p = c_iend a - 12" "p_matchlimit p = c_matchlimit a" "p_oend p = hc_oend a" "p_limit p = c_outputDirective a"
    "p_dict p = noDictCtx" "p_sufficient_len p < 4096"
  using assms by (auto simp: opt_args_def p_mflimit_def p_matchlimit_def c_matchlimit_def)

text \<open>The end of the scan: the chosen last edge, and everything before it.\<close>

definition scanned :: "cargs \<Rightarrow> mem \<Rightarrow> LZ4HC_CCtx_internal \<Rightarrow> int \<Rightarrow> optpath \<times> opt_table \<times> LZ4HC_CCtx_internal \<Rightarrow> bool" where
  "scanned a m0 c0 ip r \<longleftrightarrow> (case r of (q, t, c) \<Rightarrow>
     0 \<le> q_cur q \<and> q_cur q < 4096 \<and> 1 \<le> q_last q \<and> q_last q \<le> q_cur q + q_mlen q \<and> q_last q \<le> 4096 \<and> ip + q_last q \<le> c_iend a \<and>
     table_ok a m0 ip (q_cur q + 1) t \<and> edge a m0 ip (q_cur q) (q_mlen q) (q_off q) \<and> ctx_upto a c0 (ip + q_last q - 1) c)"

definition scan_inv :: "cargs \<Rightarrow> mem \<Rightarrow> LZ4HC_CCtx_internal \<Rightarrow> int \<Rightarrow> int \<times> int \<times> opt_table \<times> LZ4HC_CCtx_internal \<Rightarrow> bool" where
  "scan_inv a m0 c0 ip r \<longleftrightarrow> (case r of (cur, L, t, c) \<Rightarrow>
     1 \<le> cur \<and> cur \<le> L \<and> 4 \<le> L \<and> L < 4096 \<and> ip + L \<le> c_matchlimit a \<and> table_ok a m0 ip (L + 4) t \<and> ctx_upto a c0 (ip + cur - 1) c)"

lemma scan_end:
  assumes "scan_inv a m0 c0 ip (cur, L, t, c)"
  shows "\<exists>q. finish_scan L t = Some q \<and> scanned a m0 c0 ip (q, t, c)"
proof -
  have i: "1 \<le> cur" "cur \<le> L" "4 \<le> L" "L < 4096" "ip + L \<le> c_matchlimit a" "table_ok a m0 ip (L + 4) t" "ctx_upto a c0 (ip + cur - 1) c"
    using assms by (simp_all add: scan_inv_def)
  have e: "mlen (t L) \<le> L" "edge a m0 ip (L - mlen (t L)) (mlen (t L)) (off (t L))"
    using table_okD [OF i(6), of L] i(3) by (simp_all add: entry_ok_def)
  have "finish_scan L t = Some \<lparr>q_cur = L - mlen (t L), q_last = L, q_mlen = mlen (t L), q_off = off (t L)\<rparr>"
    using i by (simp add: finish_scan_def)
  moreover have "ctx_upto a c0 (ip + L - 1) c" by (rule ctx_upto_mono [OF i(7)]) (use i in simp)
  ultimately show ?thesis
    using e i edge_pos [OF e(2)] table_mono [OF i(6), of "L - mlen (t L) + 1"] by (simp add: scanned_def c_limits)
qed

lemma scan_body_ok:
  assumes ok: "comp_ok a m0 cap" and fr: "frame m0 m (c_dest a) (c_dest a + cap)" and p: "opt_args a p"
    and ip: "c_source a \<le> ip" and i: "scan_inv a m0 c0 ip s"
  shows "\<exists>r. scan_body p m ip s = Some r \<and>
    (case r of Inl s' \<Rightarrow> scan_inv a m0 c0 ip s' \<and> fst s < fst s' | Inr q \<Rightarrow> scanned a m0 c0 ip q)"
proof -
  obtain cur L t c where s: "s = (cur, L, t, c)" by (cases s)
  have i': "1 \<le> cur" "cur \<le> L" "4 \<le> L" "L < 4096" "ip + L \<le> c_matchlimit a" "table_ok a m0 ip (L + 4) t" "ctx_upto a c0 (ip + cur - 1) c"
    using i unfolding s by (simp_all add: scan_inv_def)
  note pd = opt_argsD [OF p]
  show ?thesis
  proof (cases "cur < L \<and> ip + cur \<le> p_mflimit p")
    case False
    have F: "(cur < L \<and> ip + cur \<le> p_mflimit p) = False" using False by blast
    from scan_end [OF i [unfolded s]] show ?thesis unfolding s scan_body.simps Let_def F if_False by auto
  next
    case True
    then have T: "(cur < L \<and> ip + cur \<le> p_mflimit p) = True" and lt: "cur < L" "ip + cur + 12 \<le> c_iend a" using pd(1) by auto
    have g: "opt_get t (cur + 1) = Some (t (cur + 1))" "opt_get t cur = Some (t cur)"
      "opt_get t (cur + MINMATCH) = Some (t (cur + MINMATCH))" using i' lt by simp_all
    have "\<exists>sk. skip_position p cur t = Some sk" unfolding skip_position_def g Option.bind.bind_lunit by auto
    then obtain sk where sk: "skip_position p cur t = Some sk" by blast
    show ?thesis
    proof (cases sk)
      case True
      then have "scan_body p m ip s = Some (Inl (cur + 1, L, t, c))" unfolding s scan_body.simps Let_def T if_True sk by simp
      moreover have "scan_inv a m0 c0 ip (cur + 1, L, t, c)"
        using i' lt ctx_upto_mono [OF i'(7), of "ip + cur"] by (simp add: scan_inv_def)
      ultimately show ?thesis by (simp add: s)
    next
      case False
      let ?min = "if p_fullUpdate p then MINMATCH - 1 else L - cur"
      have c: "ctx_upto a c0 (ip + cur) c" by (rule ctx_upto_mono [OF i'(7)]) simp
      have "c_source a \<le> ip + cur" "0 < ?min" "ip + cur + ?min \<le> c_matchlimit a" using ip i' lt by (auto simp: c_limits)
      from FindLongerMatch_ok [OF ok fr c this(1) lt(2) this(2,3)] obtain md c1 where
        md: "LZ4HC_FindLongerMatch m c (p_attached p) (ip + cur) (c_matchlimit a) ?min (p_nbSearches p) noDictCtx (p_favorDecSpeed p) = Some (md, c1)"
        "ctx_upto a c0 (ip + cur) c1" "md_len md = 0 \<or> usable a m0 (ip + cur) (ip + cur) (md_len md) (md_off md)" by blast
      note un = s scan_body.simps Let_def T if_True sk Option.bind.bind_lunit if_not_P [OF False] pd(2,5) md(1) prod.case
      show ?thesis
      proof (cases "md_len md = 0")
        case True
        then have "scan_body p m ip s = Some (Inl (cur + 1, L, t, c1))" unfolding un by simp
        moreover have "scan_inv a m0 c0 ip (cur + 1, L, t, c1)" using i' lt md(2) by (simp add: scan_inv_def)
        ultimately show ?thesis by (simp add: s)
      next
        case len: False
        then have u: "usable a m0 ip (ip + cur) (md_len md) (md_off md)" using md(3) usable_anchor i'(1) by auto
        have ml: "4 \<le> md_len md" "ip + cur + md_len md \<le> c_matchlimit a" using u by (simp_all add: usable_def)
        show ?thesis
        proof (cases "u64 (md_len md) > p_sufficient_len p \<or> md_len md + cur \<ge> LZ4_OPT_NUM")
          case True
          have X: "(u64 (md_len md) > p_sufficient_len p \<or> md_len md + cur \<ge> LZ4_OPT_NUM) = True" using True by blast
          have "scan_body p m ip s = Some (Inr (\<lparr>q_cur = cur, q_last = cur + 1, q_mlen = md_len md, q_off = md_off md\<rparr>, t, c1))"
            unfolding un X using len by simp
          moreover have "scanned a m0 c0 ip (\<lparr>q_cur = cur, q_last = cur + 1, q_mlen = md_len md, q_off = md_off md\<rparr>, t, c1)"
            using i' lt ml md(2) u table_mono [OF i'(6), of "cur + 1"] by (simp add: scanned_def edge_def)
          ultimately show ?thesis by simp
        next
          case go: False
          then have G: "(u64 (md_len md) > p_sufficient_len p \<or> md_len md + cur \<ge> LZ4_OPT_NUM) = False" by blast
          have e: "0 \<le> litlen (t cur)" using table_okD [OF i'(6), of cur] i' by (simp add: entry_ok_def)
          obtain t1 where t1: "cloop (before_match_body cur (litlen (t cur))) (1, t) = Some t1" "table_ok a m0 ip (L + 4) t1"
            using before_match_ok [OF _ _ _ e i'(6), of cur] i' lt by auto
          have "cur + md_len md < 4096" using go by simp
          with new_match_ok [OF _ lt(1) i'(4) u _ t1(2), of "p_favorDecSpeed p"] i'(1) obtain L' t2 where
            t2: "cloop (new_match_body (p_favorDecSpeed p) cur md) (MINMATCH, L, t1) = Some (L', t2)" "table_ok a m0 ip (L' + 1) t2"
            "L' = L \<or> L < L' \<and> L' = cur + md_len md" by auto
          have L': "L \<le> L'" "L' < 4096" "ip + L' \<le> c_matchlimit a" using t2(3) i' go ml by auto
          obtain t3 where t3: "cloop (trailing_body L') (1, t2) = Some t3" "table_ok a m0 ip (L' + 4) t3"
            using trailing_ok [OF _ L'(2) t2(2)] L'(1) i' by auto
          have g: "opt_get t cur = Some (t cur)" using i' by simp
          have "scan_body p m ip s = Some (Inl (cur + 1, L', t3, c1))"
            unfolding un if_not_P [OF len] G if_False g t1(1) t2(1) t3(1) ..
          moreover have "scan_inv a m0 c0 ip (cur + 1, L', t3, c1)" using i' lt L' t3(2) md(2) by (simp add: scan_inv_def)
          ultimately show ?thesis by (simp add: s)
        qed
      qed
    qed
  qed
qed

lemma scan_ok:
  assumes ok: "comp_ok a m0 cap" and fr: "frame m0 m (c_dest a) (c_dest a + cap)" and p: "opt_args a p"
    and ip: "c_source a \<le> ip" and i: "scan_inv a m0 c0 ip s"
  shows "\<exists>q. cloop (scan_body p m ip) s = Some q \<and> scanned a m0 c0 ip q"
proof (rule cloop_total [where \<mu> = "\<lambda>s. nat (4096 - fst s)" and I = "scan_inv a m0 c0 ip"])
  show "scan_inv a m0 c0 ip s" by (rule i)
next
  fix s assume i: "scan_inv a m0 c0 ip s"
  from scan_body_ok [OF ok fr p ip i] obtain r where r: "scan_body p m ip s = Some r"
    "case r of Inl s' \<Rightarrow> scan_inv a m0 c0 ip s' \<and> fst s < fst s' | Inr q \<Rightarrow> scanned a m0 c0 ip q" by blast
  show "(\<exists>s'. scan_body p m ip s = Some (Inl s') \<and> scan_inv a m0 c0 ip s' \<and> nat (4096 - fst s') < nat (4096 - fst s)) \<or>
    (\<exists>q. scan_body p m ip s = Some (Inr q) \<and> scanned a m0 c0 ip q)"
    using r i by (cases r) (auto simp: scan_inv_def split: prod.splits)
qed

section \<open>The chosen path\<close>

text \<open>From \<open>r\<close> on, the elements name edges that lead to \<open>last\<close> or beyond.\<close>

inductive opt_path :: "cargs \<Rightarrow> mem \<Rightarrow> int \<Rightarrow> int \<Rightarrow> opt_table \<Rightarrow> int \<Rightarrow> bool" for a m0 ip L t where
  path_end: "L \<le> r \<Longrightarrow> opt_path a m0 ip L t r"
| path_edge: "0 \<le> r \<Longrightarrow> r < 4099 \<Longrightarrow> edge a m0 ip r (mlen (t r)) (off (t r)) \<Longrightarrow> opt_path a m0 ip L t (r + mlen (t r)) \<Longrightarrow>
    opt_path a m0 ip L t r"

lemma path_upd:
  assumes "opt_path a m0 ip L t r" "k < r"
  shows "opt_path a m0 ip L (t(k := e)) r"
  using assms
proof (induction r rule: opt_path.induct)
  case (path_end r)
  then show ?case by (intro opt_path.path_end)
next
  case (path_edge r)
  have "1 \<le> mlen (t r)" using edge_pos path_edge by blast
  then have "k < r + mlen (t r)" "r \<noteq> k" using path_edge.prems by simp_all
  then show ?case using path_edge.hyps(1-3) path_edge.IH by (intro opt_path.path_edge [of r]) simp_all
qed

lemma path_cases:
  assumes "opt_path a m0 ip L t r" "r < L"
  shows "0 \<le> r" "r < 4099" "edge a m0 ip r (mlen (t r)) (off (t r))" "opt_path a m0 ip L t (r + mlen (t r))"
  using assms by (cases rule: opt_path.cases; simp)+

lemma reverse_ok:
  assumes k: "0 \<le> k" "k < 4096" and e: "edge a m0 ip k ml dist" and t: "table_ok a m0 ip (k + 1) t" and p: "opt_path a m0 ip L t (k + ml)"
  shows "\<exists>t'. cloop reverse_body (k, ml, dist, t) = Some t' \<and> opt_path a m0 ip L t' 0"
proof -
  let ?I = "\<lambda>(k, ml, dist, t). 0 \<le> k \<and> k < 4096 \<and> edge a m0 ip k ml dist \<and> table_ok a m0 ip (k + 1) t \<and> opt_path a m0 ip L t (k + ml)"
  show ?thesis
  proof (rule cloop_total [where \<mu> = "\<lambda>(k, _). nat k" and I = ?I])
    show "?I (k, ml, dist, t)" using assms by simp
  next
    fix s :: "int \<times> int \<times> int \<times> opt_table" assume "?I s"
    then obtain k ml dist t where s: "s = (k, ml, dist, t)" "0 \<le> k" "k < 4096" "edge a m0 ip k ml dist" "table_ok a m0 ip (k + 1) t"
      "opt_path a m0 ip L t (k + ml)" by (cases s) auto
    let ?e = "t k" let ?t = "t(k := ?e\<lparr>mlen := ml, off := dist\<rparr>)"
    have un: "reverse_body s = Some (if mlen ?e > k then Inr ?t else Inl (k - mlen ?e, mlen ?e, off ?e, ?t))"
      using s(2,3) by (simp add: s(1))
    have "k < k + ml" using edge_pos [OF s(4)] by simp
    from path_upd [OF s(6) this] have path: "opt_path a m0 ip L ?t k" using s(2-4) by (intro path_edge [of k]) simp_all
    have ent: "entry_ok a m0 ip k ?e" using table_okD [OF s(5), of k] s(2) by simp
    show "(\<exists>s'. reverse_body s = Some (Inl s') \<and> ?I s' \<and> (case s' of (k, _) \<Rightarrow> nat k) < (case s of (k, _) \<Rightarrow> nat k)) \<or>
      (\<exists>t'. reverse_body s = Some (Inr t') \<and> opt_path a m0 ip L t' 0)"
    proof (cases "k = 0")
      case True
      then show ?thesis using ent path unfolding un by (simp add: entry_ok_def)
    next
      case False
      then have d: "mlen ?e \<le> k" "edge a m0 ip (k - mlen ?e) (mlen ?e) (off ?e)" using ent by (simp_all add: entry_ok_def)
      note pos = edge_pos [OF d(2)]
      have "table_ok a m0 ip (k - mlen ?e + 1) ?t" using s(5) pos by (auto simp: table_ok_def)
      then show ?thesis using d pos s(2,3) path unfolding un by (simp add: s(1))
    qed
  qed
qed

lemma emit_ok:
  assumes ok: "comp_ok a m0 cap" and p: "opt_args a p" and pa: "opt_path a m0 ip L t 0" and L: "L \<le> 4096"
    and st: "hc_state a m0 cap s" "x_anchor s \<le> x_ip s" "x_ip s = ip" "x_ctx s = c"
  shows "\<exists>r. cloop (emit_body p L t) (0, s) = Some r \<and>
    (case r of
       Inl s' \<Rightarrow> hc_state a m0 cap s' \<and> x_anchor s' \<le> x_ip s' \<and> ip + L \<le> x_ip s' \<and> x_ctx s' = c
     | Inr e \<Rightarrow> hc_exit a m0 cap e \<and> exit_ctx e = c)"
proof -
  note pd = opt_argsD [OF p]
  let ?I = "\<lambda>(r, s). opt_path a m0 ip L t r \<and> 0 \<le> r \<and> hc_state a m0 cap s \<and> x_anchor s \<le> x_ip s \<and> x_ip s = ip + r \<and> x_ctx s = c"
  show ?thesis
  proof (rule cloop_total [where \<mu> = "\<lambda>(r, _). nat (L - r)" and I = ?I])
    show "?I (0, s)" using pa st by simp
  next
    fix x :: "int \<times> hcstate" assume "?I x"
    then obtain r s where x: "x = (r, s)" "opt_path a m0 ip L t r" "0 \<le> r" "hc_state a m0 cap s" "x_anchor s \<le> x_ip s" "x_ip s = ip + r" "x_ctx s = c"
      by (cases x) auto
    show "(\<exists>x'. emit_body p L t x = Some (Inl x') \<and> ?I x' \<and> (case x' of (r, _) \<Rightarrow> nat (L - r)) < (case x of (r, _) \<Rightarrow> nat (L - r))) \<or>
      (\<exists>y. emit_body p L t x = Some (Inr y) \<and>
        (case y of
           Inl s' \<Rightarrow> hc_state a m0 cap s' \<and> x_anchor s' \<le> x_ip s' \<and> ip + L \<le> x_ip s' \<and> x_ctx s' = c
         | Inr e \<Rightarrow> hc_exit a m0 cap e \<and> exit_ctx e = c))"
    proof (cases "r < L")
      case False
      then show ?thesis using x by simp
    next
      case True
      note d = path_cases [OF x(2) True]
      show ?thesis
      proof (cases "mlen (t r) = 1")
        case lit: True
        have "opt_path a m0 ip L t (r + 1)" using d(4) lit by simp
        then show ?thesis using x True lit d(1,2) by (simp add: hc_state_def)
      next
        case False
        then have u: "usable a m0 ip (ip + r) (mlen (t r)) (off (t r))" using d(3) by (simp add: edge_def)
        have "usable a m0 (x_anchor s) (x_ip s) (mlen (t r)) (off (t r))" using usable_anchor [OF u] x(5,6) by simp
        from hc_encode_ok [OF ok x(4) this] obtain q where q: "hc_encode (c_outputDirective a) (hc_oend a) (mlen (t r)) (off (t r)) s = Some q"
          "case q of
             Inl s' \<Rightarrow> hc_state a m0 cap s' \<and> x_ip s' = x_ip s + mlen (t r) \<and> x_anchor s' = x_ip s + mlen (t r) \<and> x_ctx s' = x_ctx s
           | Inr e \<Rightarrow> hc_exit a m0 cap e \<and> exit_ctx e = x_ctx s" by blast
        have "emit_body p L t x = Some (case q of Inr e' \<Rightarrow> Inr (Inr e') | Inl s \<Rightarrow> Inl (r + mlen (t r), s))"
          using True False d(1,2) q(1) pd(3,4) by (simp add: x(1))
        then show ?thesis using q(2) x(1,3,6,7) d(4) edge_pos [OF d(3)] True by (cases q) auto
      qed
    qed
  qed
qed

section \<open>LZ4HC_compress_optimal\<close>

definition opt_inv :: "cargs \<Rightarrow> mem \<Rightarrow> int \<Rightarrow> LZ4HC_CCtx_internal \<Rightarrow> hcstate \<times> opt_table \<Rightarrow> bool" where
  "opt_inv a m0 cap c0 x \<longleftrightarrow> (case x of (s, t) \<Rightarrow>
     hc_state a m0 cap s \<and> x_anchor s \<le> x_ip s \<and> ctx_upto a c0 (min (x_ip s) (c_iend a)) (x_ctx s))"

lemma opt_body_ok:
  assumes ok: "comp_ok a m0 cap" and p: "opt_args a p" and i: "opt_inv a m0 cap c0 x"
  shows "\<exists>r. opt_body p x = Some r \<and>
    (case r of
       Inl x' \<Rightarrow> opt_inv a m0 cap c0 x' \<and> nat (c_iend a - x_ip (fst x')) < nat (c_iend a - x_ip (fst x))
     | Inr e \<Rightarrow> upto_exit a m0 cap c0 e)"
proof -
  obtain s t where x: "x = (s, t)" by (cases x)
  have st: "hc_state a m0 cap s" "x_anchor s \<le> x_ip s" "ctx_upto a c0 (min (x_ip s) (c_iend a)) (x_ctx s)"
    using i by (simp_all add: x opt_inv_def)
  have fr: "frame m0 (x_mem s) (c_dest a) (c_dest a + cap)" and src: "c_source a \<le> x_anchor s"
    using st(1) emittedD(2) by (auto simp: hc_state_def hc_written_def)
  note pd = opt_argsD [OF p]
  show ?thesis
  proof (cases "x_ip s \<le> p_mflimit p")
    case False
    then have "opt_body p x = Some (Inr (Hc_last s))" by (simp add: x opt_body_def)
    then show ?thesis using st(1) ctx_upto_mono [OF st(3), of "c_iend a"] by (simp add: upto_exit_def hc_exit_def exit_ctx_def)
  next
    case True
    then have lim: "x_ip s + 12 \<le> c_iend a" using pd(1) by simp
    have c: "ctx_upto a c0 (x_ip s) (x_ctx s)" using st(3) lim by (simp add: min_def)
    have ips: "c_source a \<le> x_ip s" "x_ip s + (MINMATCH - 1) \<le> c_matchlimit a" "0 < MINMATCH - 1" using st(2) src lim by (simp_all add: c_limits)
    from FindLongerMatch_ok [OF ok fr c ips(1) lim ips(3,2)] obtain md c1 where
      md: "LZ4HC_FindLongerMatch (x_mem s) (x_ctx s) (p_attached p) (x_ip s) (c_matchlimit a) (MINMATCH - 1) (p_nbSearches p) noDictCtx (p_favorDecSpeed p) = Some (md, c1)"
      "ctx_upto a c0 (x_ip s) c1" "md_len md = 0 \<or> usable a m0 (x_ip s) (x_ip s) (md_len md) (md_off md)" by blast
    note un = x opt_body_def prod.case if_P [OF True] Let_def pd(2,5) md(1) Option.bind.bind_lunit
    show ?thesis
    proof (cases "md_len md = 0")
      case True
      let ?s = "s\<lparr>x_ctx := c1, x_ip := x_ip s + 1\<rparr>"
      have "opt_body p x = Some (Inl (?s, t))" unfolding un using True by simp
      moreover have "opt_inv a m0 cap c0 (?s, t)" using st lim ctx_upto_mono [OF md(2), of "x_ip s + 1"] by (simp add: opt_inv_def hc_state_def min_def)
      ultimately show ?thesis using lim by (simp add: x)
    next
      case False
      then have u: "usable a m0 (x_ip s) (x_ip s) (md_len md) (md_off md)" using md(3) by simp
      have ml: "4 \<le> md_len md" "x_ip s + md_len md \<le> c_matchlimit a" using u by (simp_all add: usable_def)
      have um: "u64 (md_len md) = md_len md" using ml ips comp_okD(5) [OF ok] by (intro u64_id) (auto simp: c_limits)
      let ?s = "s\<lparr>x_ctx := c1\<rparr>"
      have st1: "hc_state a m0 cap ?s" using st(1) by (simp add: hc_state_def)
      show ?thesis
      proof (cases "md_len md > p_sufficient_len p")
        case True
        have T: "(md_len md > p_sufficient_len p) = True" using True by simp
        have us: "usable a m0 (x_anchor ?s) (x_ip ?s) (md_len md) (md_off md)" using usable_anchor [OF u] st(2) by simp
        from hc_encode_ok [OF ok st1 us] obtain q where
          q: "hc_encode (c_outputDirective a) (hc_oend a) (md_len md) (md_off md) ?s = Some q"
          "case q of
             Inl s' \<Rightarrow> hc_state a m0 cap s' \<and> x_ip s' = x_ip ?s + md_len md \<and> x_anchor s' = x_ip ?s + md_len md \<and> x_ctx s' = x_ctx ?s
           | Inr e \<Rightarrow> hc_exit a m0 cap e \<and> exit_ctx e = x_ctx ?s" by blast
        have "opt_body p x = Some (case q of Inr e \<Rightarrow> Inr e | Inl s \<Rightarrow> Inl (s, t))"
          unfolding un if_not_P [OF False] um T if_True pd(3,4) q(1) ..
        then show ?thesis
          using q(2) ml lim ctx_upto_mono [OF md(2), of "x_ip s + md_len md"] ctx_upto_mono [OF md(2), of "c_iend a"]
          by (cases q) (auto simp: x opt_inv_def upto_exit_def min_def c_limits)
      next
        case small: False
        have S: "(md_len md > p_sufficient_len p) = False" using small by simp
        let ?ll = "s32 (x_ip s - x_anchor s)"
        have ll: "0 \<le> ?ll" using st(2) src lim comp_okD(5) [OF ok] s32_id [of "x_ip s - x_anchor s"] by (simp add: c_limits)
        have big: "md_len md < 4096" using small pd(6) by simp
        obtain t1 where t1: "initial_prices ?ll md t = Some t1" "table_ok a m0 (x_ip s) (md_len md + 4) t1"
          using initial_prices_ok [OF ll u big] by blast
        have "scan_inv a m0 c0 (x_ip s) (1, md_len md, t1, c1)" using ml big t1(2) md(2) by (simp add: scan_inv_def)
        from scan_ok [OF ok fr p ips(1) this] obtain q t2 c2 where
          sc: "cloop (scan_body p (x_mem s) (x_ip s)) (1, md_len md, t1, c1) = Some (q, t2, c2)" "scanned a m0 c0 (x_ip s) (q, t2, c2)" by auto
        have qd: "0 \<le> q_cur q" "q_cur q < 4096" "1 \<le> q_last q" "q_last q \<le> q_cur q + q_mlen q" "q_last q \<le> 4096" "x_ip s + q_last q \<le> c_iend a"
          "table_ok a m0 (x_ip s) (q_cur q + 1) t2" "edge a m0 (x_ip s) (q_cur q) (q_mlen q) (q_off q)" "ctx_upto a c0 (x_ip s + q_last q - 1) c2"
          using sc(2) by (simp_all add: scanned_def)
        obtain t3 where t3: "cloop reverse_body (q_cur q, q_mlen q, q_off q, t2) = Some t3" "opt_path a m0 (x_ip s) (q_last q) t3 0"
          using reverse_ok [OF qd(1,2,8,7) path_end [OF qd(4)]] by blast
        let ?s2 = "s\<lparr>x_ctx := c1, x_ctx := c2\<rparr>"
        have "hc_state a m0 cap ?s2" "x_anchor ?s2 \<le> x_ip ?s2" "x_ip ?s2 = x_ip s" "x_ctx ?s2 = c2" using st by (simp_all add: hc_state_def)
        from emit_ok [OF ok p t3(2) qd(5) this] obtain r where r: "cloop (emit_body p (q_last q) t3) (0, ?s2) = Some r"
          "case r of
             Inl s' \<Rightarrow> hc_state a m0 cap s' \<and> x_anchor s' \<le> x_ip s' \<and> x_ip s + q_last q \<le> x_ip s' \<and> x_ctx s' = c2
           | Inr e \<Rightarrow> hc_exit a m0 cap e \<and> exit_ctx e = c2" by blast
        have "opt_body p x = Some (case r of Inr e \<Rightarrow> Inr e | Inl s \<Rightarrow> Inl (s, t3))"
          unfolding un if_not_P [OF False] um S if_False t1(1) using sc(1) t3(1) r(1) by simp
        then show ?thesis
          using r(2) qd(3,6) lim ctx_upto_mono [OF qd(9), of "c_iend a"] ctx_upto_mono [OF qd(9)]
          by (cases r) (auto simp: x opt_inv_def upto_exit_def min_def)
      qed
    qed
  qed
qed

lemma LZ4HC_compress_optimal_ok:
  assumes ok: "comp_ok a m0 cap" and c: "ctx_upto a c (c_source a) c" and pos: "c_outputDirective a = fillOutput \<Longrightarrow> 1 \<le> c_maxOutputSize a"
  shows "\<exists>r consumed c' m'. LZ4HC_compress_optimal True m0 c D (c_source a) (c_dest a) (c_inputSize a) (c_maxOutputSize a) nbSearch suff
       (c_outputDirective a) full noDictCtx favor = Some (r, consumed, c', m') \<and>
     hc_result a m0 cap 0 r consumed m' \<and> ctx_upto a c (c_iend a) c'"
proof -
  let ?p = "\<lparr>p_iend = c_iend a, p_oend = hc_oend a, p_nbSearches = nbSearch,
                 p_sufficient_len = (if suff \<ge> LZ4_OPT_NUM then LZ4_OPT_NUM - 1 else suff),
                 p_limit = c_outputDirective a, p_fullUpdate = full, p_dict = noDictCtx, p_attached = D, p_favorDecSpeed = favor\<rparr>"
  let ?x = "(\<lparr>x_ip = c_source a, x_anchor = c_source a, x_op = c_dest a, x_ctx = c, x_mem = m0\<rparr>, opt_zero)"
  have p: "opt_args a ?p" by (simp add: opt_args_def)
  have "c_source a \<le> c_iend a" using comp_okD(4) [OF ok] by (simp add: c_limits)
  then have i: "opt_inv a m0 cap c ?x" using c hc_written_start [OF ok] by (auto simp: opt_inv_def hc_state_def min_def)
  have "\<exists>e. cloop (opt_body ?p) ?x = Some e \<and> upto_exit a m0 cap c e"
  proof (rule cloop_total [where \<mu> = "\<lambda>x. nat (c_iend a - x_ip (fst x))" and I = "opt_inv a m0 cap c"])
    show "opt_inv a m0 cap c ?x" by (rule i)
  next
    fix x assume "opt_inv a m0 cap c x"
    from opt_body_ok [OF ok p this] obtain r where r: "opt_body ?p x = Some r"
      "case r of
         Inl x' \<Rightarrow> opt_inv a m0 cap c x' \<and> nat (c_iend a - x_ip (fst x')) < nat (c_iend a - x_ip (fst x))
       | Inr e \<Rightarrow> upto_exit a m0 cap c e" by blast
    show "(\<exists>x'. opt_body ?p x = Some (Inl x') \<and> opt_inv a m0 cap c x' \<and> nat (c_iend a - x_ip (fst x')) < nat (c_iend a - x_ip (fst x))) \<or>
      (\<exists>e. opt_body ?p x = Some (Inr e) \<and> upto_exit a m0 cap c e)"
      using r by (cases r) auto
  qed
  then obtain e where e: "cloop (opt_body ?p) ?x = Some e" "hc_exit a m0 cap e" "ctx_upto a c (c_iend a) (exit_ctx e)" by (auto simp: upto_exit_def)
  have lims: "c_source a + c_inputSize a = c_iend a"
    "(if c_outputDirective a = fillOutput then c_dest a + c_maxOutputSize a - LASTLITERALS else c_dest a + c_maxOutputSize a) = hc_oend a"
    by (simp_all add: c_iend_def hc_oend_def c_olimit_def)
  have "LZ4HC_compress_optimal True m0 c D (c_source a) (c_dest a) (c_inputSize a) (c_maxOutputSize a) nbSearch suff (c_outputDirective a) full noDictCtx favor =
      hc_finish (c_outputDirective a) (c_source a) (c_dest a) (c_iend a) (hc_oend a) 0 e"
    unfolding LZ4HC_compress_optimal_def opt_finish_def Let_def lims not_True_eq_False if_False e(1) Option.bind.bind_lunit ..
  then show ?thesis using hc_finish_ok [OF ok e(2) pos, of 0] e(3) by auto
qed

end
