(* ===== verification/Lz4_CompressApi.thy ===== *)
theory Lz4_CompressApi
  imports Lz4_Compress
begin

unbundle bit_operations_syntax

text \<open>
  The entry points of the fast compressor in \<open>lib/lz4/lz4.c\<close>: the one-shot functions, the
  destination-size variant, the dictionary and streaming functions. A call returns the C result, the
  memory and the streams.
\<close>

type_synonym compressed = "(int \<times> mem \<times> streams) option"

section \<open>One-shot compression\<close>

text \<open>The clamp that the entry points apply to \<open>acceleration\<close>.\<close>

definition clamp_acceleration :: "int \<Rightarrow> int" where
  "clamp_acceleration acceleration =
     (let acceleration = (if acceleration < 1 then LZ4_ACCELERATION_DEFAULT else acceleration)
      in if acceleration > LZ4_ACCELERATION_MAX then LZ4_ACCELERATION_MAX else acceleration)"

text \<open>\<open>byPtr\<close> is only chosen where pointers have 32 bits.\<close>

definition large_input_table :: "int \<Rightarrow> tableType_t" where
  "large_input_table source = (if sizeof_ptr = 4 \<and> u64 source > LZ4_DISTANCE_MAX then byPtr else byU32)"

text \<open>A call with \<open>inputConsumed == NULL\<close>.\<close>

definition compress_plain ::
    "int \<Rightarrow> int \<Rightarrow> int \<Rightarrow> int \<Rightarrow> int \<Rightarrow> limitedOutput_directive \<Rightarrow> tableType_t \<Rightarrow> dict_directive \<Rightarrow>
     dictIssue_directive \<Rightarrow> int \<Rightarrow> mem \<Rightarrow> streams \<Rightarrow> compressed" where
  "compress_plain cctx src dst srcSize dstCapacity outputDirective tableType dictDirective dictIssue acceleration m S =
     map_option (\<lambda>(r, consumed, m, S). (r, m, S))
       (LZ4_compress_generic cctx src dst srcSize dstCapacity outputDirective tableType dictDirective dictIssue
          acceleration m S)"

definition LZ4_compress_fast_extState ::
    "int \<Rightarrow> int \<Rightarrow> int \<Rightarrow> int \<Rightarrow> int \<Rightarrow> int \<Rightarrow> mem \<Rightarrow> streams \<Rightarrow> compressed" where
  "LZ4_compress_fast_extState state source dest inputSize maxOutputSize acceleration m S = do {
     (ctx, S) \<leftarrow> LZ4_initStream S state sizeof_stream;
     let acceleration = clamp_acceleration acceleration;
     if maxOutputSize \<ge> LZ4_compressBound inputSize then
       (if inputSize < LZ4_64Klimit
        then compress_plain ctx source dest inputSize 0 notLimited byU16 noDict noDictIssue acceleration m S
        else compress_plain ctx source dest inputSize 0 notLimited (large_input_table source) noDict noDictIssue
               acceleration m S)
     else
       (if inputSize < LZ4_64Klimit
        then compress_plain ctx source dest inputSize maxOutputSize limitedOutput byU16 noDict noDictIssue
               acceleration m S
        else compress_plain ctx source dest inputSize maxOutputSize limitedOutput (large_input_table source) noDict
               noDictIssue acceleration m S) }"

definition LZ4_compress_fast_extState_fastReset ::
    "int \<Rightarrow> int \<Rightarrow> int \<Rightarrow> int \<Rightarrow> int \<Rightarrow> int \<Rightarrow> mem \<Rightarrow> streams \<Rightarrow> compressed" where
  "LZ4_compress_fast_extState_fastReset ctx src dst srcSize dstCapacity acceleration m S = do {
     let acceleration = clamp_acceleration acceleration;
     if dstCapacity \<ge> LZ4_compressBound srcSize then
       (if srcSize < LZ4_64Klimit then do {
          S \<leftarrow> LZ4_prepareTable S ctx srcSize byU16;
          s \<leftarrow> S ctx;
          if s_currentOffset s \<noteq> 0
          then compress_plain ctx src dst srcSize 0 notLimited byU16 noDict dictSmall acceleration m S
          else compress_plain ctx src dst srcSize 0 notLimited byU16 noDict noDictIssue acceleration m S }
        else do {
          S \<leftarrow> LZ4_prepareTable S ctx srcSize (large_input_table src);
          compress_plain ctx src dst srcSize 0 notLimited (large_input_table src) noDict noDictIssue acceleration m S })
     else
       (if srcSize < LZ4_64Klimit then do {
          S \<leftarrow> LZ4_prepareTable S ctx srcSize byU16;
          s \<leftarrow> S ctx;
          if s_currentOffset s \<noteq> 0
          then compress_plain ctx src dst srcSize dstCapacity limitedOutput byU16 noDict dictSmall acceleration m S
          else compress_plain ctx src dst srcSize dstCapacity limitedOutput byU16 noDict noDictIssue acceleration m S }
        else do {
          S \<leftarrow> LZ4_prepareTable S ctx srcSize (large_input_table src);
          compress_plain ctx src dst srcSize dstCapacity limitedOutput (large_input_table src) noDict noDictIssue
            acceleration m S }) }"

definition LZ4_compress_fast :: "int \<Rightarrow> int \<Rightarrow> int \<Rightarrow> int \<Rightarrow> int \<Rightarrow> int \<Rightarrow> mem \<Rightarrow> streams \<Rightarrow> compressed" where
  "LZ4_compress_fast src dest srcSize dstCapacity acceleration wrkmem m S =
     LZ4_compress_fast_extState wrkmem src dest srcSize dstCapacity acceleration m S"

definition LZ4_compress_default :: "int \<Rightarrow> int \<Rightarrow> int \<Rightarrow> int \<Rightarrow> int \<Rightarrow> mem \<Rightarrow> streams \<Rightarrow> compressed" where
  "LZ4_compress_default src dst srcSize dstCapacity wrkmem m S =
     LZ4_compress_fast_extState wrkmem src dst srcSize dstCapacity 1 m S"

text \<open>
  \<open>srcSizePtr\<close> is passed by its value and its new value is returned: the part of the input that the
  output holds.
\<close>

definition LZ4_compress_destSize_extState_internal ::
    "int \<Rightarrow> int \<Rightarrow> int \<Rightarrow> int \<Rightarrow> int \<Rightarrow> int \<Rightarrow> mem \<Rightarrow> streams \<Rightarrow> (int \<times> int \<times> mem \<times> streams) option" where
  "LZ4_compress_destSize_extState_internal state src dst srcSize targetDstSize acceleration m S = do {
     (s, S) \<leftarrow> LZ4_initStream S state sizeof_stream;
     if targetDstSize \<ge> LZ4_compressBound srcSize then do {
       (r, m, S) \<leftarrow> LZ4_compress_fast_extState state src dst srcSize targetDstSize acceleration m S;
       Some (r, srcSize, m, S) }
     else do {
       (r, consumed, m, S) \<leftarrow>
         (if srcSize < LZ4_64Klimit
          then LZ4_compress_generic state src dst srcSize targetDstSize fillOutput byU16 noDict noDictIssue
                 acceleration m S
          else LZ4_compress_generic state src dst srcSize targetDstSize fillOutput (large_input_table src) noDict
                 noDictIssue acceleration m S);
       Some (r, case consumed of None \<Rightarrow> srcSize | Some n \<Rightarrow> n, m, S) } }"

definition LZ4_compress_destSize_extState ::
    "int \<Rightarrow> int \<Rightarrow> int \<Rightarrow> int \<Rightarrow> int \<Rightarrow> int \<Rightarrow> mem \<Rightarrow> streams \<Rightarrow> (int \<times> int \<times> mem \<times> streams) option" where
  "LZ4_compress_destSize_extState state src dst srcSize targetDstSize acceleration m S = do {
     (r, srcSize, m, S) \<leftarrow>
       LZ4_compress_destSize_extState_internal state src dst srcSize targetDstSize acceleration m S;
     (_, S) \<leftarrow> LZ4_initStream S state sizeof_stream;
     Some (r, srcSize, m, S) }"

definition LZ4_compress_destSize ::
    "int \<Rightarrow> int \<Rightarrow> int \<Rightarrow> int \<Rightarrow> int \<Rightarrow> mem \<Rightarrow> streams \<Rightarrow> (int \<times> int \<times> mem \<times> streams) option" where
  "LZ4_compress_destSize src dst srcSize targetDstSize wrkmem m S =
     LZ4_compress_destSize_extState_internal wrkmem src dst srcSize targetDstSize 1 m S"

section \<open>Dictionaries\<close>

datatype LoadDict_mode_e = ld_fast | ld_slow

definition HASH_UNIT :: int where [simp]: "HASH_UNIT = sizeof_ptr"

text \<open>Every third position of the dictionary; the later overwrite the earlier.\<close>

fun load_fast_body :: "mem \<Rightarrow> int \<Rightarrow> int \<Rightarrow> int \<times> int \<times> streams \<Rightarrow> (int \<times> int \<times> streams + streams) option" where
  "load_fast_body m dict dictEnd (p, idx32, S) =
     (if p \<le> dictEnd - HASH_UNIT then do {
        h \<leftarrow> LZ4_hashPosition m p byU32;
        S \<leftarrow> LZ4_putIndexOnHash S idx32 h dict byU32;
        Some (Inl (p + 3, u32 (idx32 + 3), S)) }
      else Some (Inr S))"

text \<open>Every position, where the table is still free.\<close>

fun load_slow_body :: "mem \<Rightarrow> int \<Rightarrow> int \<Rightarrow> int \<times> int \<times> streams \<Rightarrow> (int \<times> int \<times> streams + streams) option" where
  "load_slow_body m dict dictEnd (p, idx32, S) =
     (if p \<le> dictEnd - HASH_UNIT then do {
        h \<leftarrow> LZ4_hashPosition m p byU32;
        s \<leftarrow> S dict;
        let limit = u32 (s_currentOffset s - 64 * KB);
        i \<leftarrow> LZ4_getIndexOnHash S h dict byU32;
        S \<leftarrow> (if i \<le> limit then LZ4_putIndexOnHash S idx32 h dict byU32 else Some S);
        Some (Inl (p + 1, u32 (idx32 + 1), S)) }
      else Some (Inr S))"

definition LZ4_loadDict_internal ::
    "int \<Rightarrow> int \<Rightarrow> int \<Rightarrow> LoadDict_mode_e \<Rightarrow> mem \<Rightarrow> streams \<Rightarrow> (int \<times> streams) option" where
  "LZ4_loadDict_internal LZ4_dict dictionary dictSize ld m S = do {
     let p = dictionary; let dictEnd = p + dictSize;
     S \<leftarrow> LZ4_resetStream S LZ4_dict;
     s \<leftarrow> S LZ4_dict;
     let s = s\<lparr>s_currentOffset := u32 (s_currentOffset s + 64 * KB)\<rparr>;
     if dictSize < HASH_UNIT then Some (0, S(LZ4_dict \<mapsto> s))
     else do {
       let p = (if dictEnd - p > 64 * KB then dictEnd - 64 * KB else p);
       let s = s\<lparr>s_dictionary := p, s_dictSize := u32 (dictEnd - p), s_tableType := byU32\<rparr>;
       let idx32 = u32 (s_currentOffset s - s_dictSize s);
       S \<leftarrow> cloop (load_fast_body m LZ4_dict dictEnd) (p, idx32, S(LZ4_dict \<mapsto> s));
       S \<leftarrow> (if ld = ld_slow then cloop (load_slow_body m LZ4_dict dictEnd) (p, idx32, S) else Some S);
       Some (s32 (s_dictSize s), S) } }"

definition LZ4_loadDict :: "int \<Rightarrow> int \<Rightarrow> int \<Rightarrow> mem \<Rightarrow> streams \<Rightarrow> (int \<times> streams) option" where
  "LZ4_loadDict LZ4_dict dictionary dictSize m S = LZ4_loadDict_internal LZ4_dict dictionary dictSize ld_fast m S"

definition LZ4_loadDictSlow :: "int \<Rightarrow> int \<Rightarrow> int \<Rightarrow> mem \<Rightarrow> streams \<Rightarrow> (int \<times> streams) option" where
  "LZ4_loadDictSlow LZ4_dict dictionary dictSize m S = LZ4_loadDict_internal LZ4_dict dictionary dictSize ld_slow m S"

definition LZ4_attach_dictionary :: "int \<Rightarrow> int \<Rightarrow> streams \<Rightarrow> streams option" where
  "LZ4_attach_dictionary workingStream dictionaryStream S = do {
     w \<leftarrow> S workingStream;
     if dictionaryStream \<noteq> 0 then do {
       let w = (if s_currentOffset w = 0 then w\<lparr>s_currentOffset := 64 * KB\<rparr> else w);
       let S = S(workingStream \<mapsto> w);
       d \<leftarrow> S dictionaryStream;
       Some (S(workingStream \<mapsto> w\<lparr>s_dictCtx := (if s_dictSize d = 0 then 0 else dictionaryStream)\<rparr>)) }
     else Some (S(workingStream \<mapsto> w\<lparr>s_dictCtx := 0\<rparr>)) }"

definition LZ4_saveDict :: "int \<Rightarrow> int \<Rightarrow> int \<Rightarrow> mem \<Rightarrow> streams \<Rightarrow> compressed" where
  "LZ4_saveDict LZ4_dict safeBuffer dictSize m S = do {
     s \<leftarrow> S LZ4_dict;
     let dictSize = (if u32 dictSize > 64 * KB then 64 * KB else dictSize);
     let dictSize = (if u32 dictSize > s_dictSize s then s32 (s_dictSize s) else dictSize);
     m \<leftarrow> (if dictSize > 0
           then memmove m safeBuffer (s_dictionary s + s_dictSize s - dictSize) dictSize
           else Some m);
     Some (dictSize, m, S(LZ4_dict \<mapsto> s\<lparr>s_dictionary := safeBuffer, s_dictSize := u32 dictSize\<rparr>)) }"

section \<open>Streaming compression\<close>

fun renorm_body :: "int \<Rightarrow> int \<Rightarrow> int \<times> streams \<Rightarrow> (int \<times> streams + streams) option" where
  "renorm_body dict delta (i, S) =
     (if i < LZ4_HASH_SIZE_U32 then do {
        x \<leftarrow> tbl_load S dict 4 i;
        S \<leftarrow> tbl_store S dict 4 i (if x < delta then 0 else x - delta);
        Some (Inl (i + 1, S)) }
      else Some (Inr S))"

definition LZ4_renormDictT :: "int \<Rightarrow> int \<Rightarrow> streams \<Rightarrow> streams option" where
  "LZ4_renormDictT LZ4_dict nextSize S = do {
     s \<leftarrow> S LZ4_dict;
     if u32 (s_currentOffset s + u32 nextSize) > 0x80000000 then do {
       let delta = u32 (s_currentOffset s - 64 * KB);
       let dictEnd = s_dictionary s + s_dictSize s;
       S \<leftarrow> cloop (renorm_body LZ4_dict delta) (0, S);
       s \<leftarrow> S LZ4_dict;
       let dictSize = (if s_dictSize s > 64 * KB then 64 * KB else s_dictSize s);
       Some (S(LZ4_dict \<mapsto> s\<lparr>s_currentOffset := 64 * KB, s_dictSize := dictSize, s_dictionary := dictEnd - dictSize\<rparr>)) }
     else Some S }"

text \<open>The adjustments of \<open>LZ4_compress_fast_continue\<close> to the remembered history, and its \<open>dictEnd\<close>.\<close>

definition drop_tiny_dictionary ::
    "LZ4_stream_t_internal \<Rightarrow> int \<Rightarrow> int \<Rightarrow> int \<Rightarrow> LZ4_stream_t_internal \<times> int" where
  "drop_tiny_dictionary s dictEnd source inputSize =
     (if s_dictSize s < 4 \<and> dictEnd \<noteq> source \<and> inputSize > 0 \<and> s_dictCtx s = 0
      then (s\<lparr>s_dictSize := 0, s_dictionary := source\<rparr>, source) else (s, dictEnd))"

definition drop_overlapped_dictionary ::
    "LZ4_stream_t_internal \<Rightarrow> int \<Rightarrow> int \<Rightarrow> int \<Rightarrow> LZ4_stream_t_internal" where
  "drop_overlapped_dictionary s dictEnd source inputSize =
     (let sourceEnd = source + inputSize in
      if sourceEnd > s_dictionary s \<and> sourceEnd < dictEnd then
        (let n = u32 (dictEnd - sourceEnd); n = (if n > 64 * KB then 64 * KB else n); n = (if n < 4 then 0 else n)
         in s\<lparr>s_dictSize := n, s_dictionary := dictEnd - n\<rparr>)
      else s)"

definition history_issue :: "LZ4_stream_t_internal \<Rightarrow> dictIssue_directive" where
  "history_issue s =
     (if s_dictSize s < 64 * KB \<and> s_dictSize s < s_currentOffset s then dictSmall else noDictIssue)"

text \<open>The block just compressed becomes the dictionary.\<close>

definition remember_source :: "int \<Rightarrow> int \<Rightarrow> int \<Rightarrow> streams \<Rightarrow> streams option" where
  "remember_source p source inputSize S =
     do { s \<leftarrow> S p; Some (S(p \<mapsto> s\<lparr>s_dictionary := source, s_dictSize := u32 inputSize\<rparr>)) }"

definition LZ4_compress_fast_continue ::
    "int \<Rightarrow> int \<Rightarrow> int \<Rightarrow> int \<Rightarrow> int \<Rightarrow> int \<Rightarrow> mem \<Rightarrow> streams \<Rightarrow> compressed" where
  "LZ4_compress_fast_continue p source dest inputSize maxOutputSize acceleration m S = do {
     s0 \<leftarrow> S p;
     let dictEnd = (if s_dictSize s0 \<noteq> 0 then s_dictionary s0 + s_dictSize s0 else 0);
     S \<leftarrow> LZ4_renormDictT p inputSize S;
     let acceleration = clamp_acceleration acceleration;
     s \<leftarrow> S p;
     let (s, dictEnd) = drop_tiny_dictionary s dictEnd source inputSize;
     let s = drop_overlapped_dictionary s dictEnd source inputSize;
     let S = S(p \<mapsto> s);
     if dictEnd = source
     then compress_plain p source dest inputSize maxOutputSize limitedOutput byU32 withPrefix64k (history_issue s)
            acceleration m S
     else do {
       (r, m, S) \<leftarrow>
         (if s_dictCtx s \<noteq> 0 then
            (if inputSize > 4 * KB then do {
               d \<leftarrow> S (s_dictCtx s);
               compress_plain p source dest inputSize maxOutputSize limitedOutput byU32 usingExtDict noDictIssue
                 acceleration m (S(p \<mapsto> d)) }
             else compress_plain p source dest inputSize maxOutputSize limitedOutput byU32 usingDictCtx noDictIssue
                    acceleration m S)
          else compress_plain p source dest inputSize maxOutputSize limitedOutput byU32 usingExtDict (history_issue s)
                 acceleration m S);
       S \<leftarrow> remember_source p source inputSize S;
       Some (r, m, S) } }"

definition LZ4_compress_forceExtDict :: "int \<Rightarrow> int \<Rightarrow> int \<Rightarrow> int \<Rightarrow> mem \<Rightarrow> streams \<Rightarrow> compressed" where
  "LZ4_compress_forceExtDict p source dest srcSize m S = do {
     S \<leftarrow> LZ4_renormDictT p srcSize S;
     s \<leftarrow> S p;
     (r, m, S) \<leftarrow> compress_plain p source dest srcSize 0 notLimited byU32 usingExtDict (history_issue s) 1 m S;
     S \<leftarrow> remember_source p source srcSize S;
     Some (r, m, S) }"

section \<open>Obsolete streaming functions\<close>

definition LZ4_sizeofStreamState :: int where
  "LZ4_sizeofStreamState = sizeof_stream"

definition LZ4_resetStreamState :: "int \<Rightarrow> int \<Rightarrow> streams \<Rightarrow> (int \<times> streams) option" where
  "LZ4_resetStreamState state inputBuffer S = do { S \<leftarrow> LZ4_resetStream S state; Some (0, S) }"

definition LZ4_slideInputBuffer :: "int \<Rightarrow> streams \<Rightarrow> int option" where
  "LZ4_slideInputBuffer state S = map_option s_dictionary (S state)"

end
