(* ===== verification/Lz4_CompressCalls.thy ===== *)
theory Lz4_CompressCalls
  imports Lz4_CompressResult Lz4_CompressApi
begin

unbundle bit_operations_syntax

text \<open>
  From the generic compressor to its callers: the stream invariant between two calls, the contract that
  every one-shot entry point fulfils, and its consequences for whoever calls through that contract.
\<close>

section \<open>The stream between two calls\<close>

text \<open>
  A cleared table is all zero and has no history; the entries of the other index tables are positions
  before the current offset.
\<close>

definition stream_inv :: "LZ4_stream_t_internal \<Rightarrow> bool" where
  "stream_inv s \<longleftrightarrow> 0 \<le> s_currentOffset s \<and> s_currentOffset s < 4294967296 \<and> 0 \<le> s_dictSize s \<and>
     (s_tableType s = byU16 \<longrightarrow> s_currentOffset s < 65548) \<and>
     (if s_tableType s = clearedTable then s_hashTable s = zero_table \<and> s_currentOffset s = 0
      else index_table (s_tableType s) \<longrightarrow> entries_ok (\<lambda>h i. 0 \<le> i \<and> i < s_currentOffset s) (s_tableType s) s)"

lemma zero_stream_inv: "stream_inv zero_stream"
  by (simp add: stream_inv_def zero_stream_def)

lemma cleared_entries:
  assumes "s_hashTable s = zero_table" "index_table tt" "\<And>h. P h 0"
  shows "entries_ok P tt s"
  using entries_ok_zero [of tt P s, OF assms(2,3)] entries_ok_table [of "s\<lparr>s_hashTable := zero_table\<rparr>" s P tt] assms(1)
  by simp

text \<open>What \<open>LZ4_prepareTable\<close> guarantees for the next call on the same kind of table.\<close>

lemma prepare_stream_inv:
  assumes "stream_inv s" "index_table tt"
  shows "stream_inv (prepare_stream s n tt)"
    and "s_tableType (prepare_stream s n tt) = clearedTable \<or> s_tableType (prepare_stream s n tt) = tt"
    and "s_dictSize (prepare_stream s n tt) = 0"
proof -
  define s1 where "s1 = (if s_tableType s \<noteq> clearedTable \<and> table_unusable s n tt
    then s\<lparr>s_hashTable := zero_table, s_currentOffset := 0, s_tableType := clearedTable\<rparr> else s)"
  define s2 where "s2 = (if s_currentOffset s1 \<noteq> 0 \<and> tt = byU32
    then s1\<lparr>s_currentOffset := u32 (s_currentOffset s1 + 64 * KB)\<rparr> else s1)"
  have p: "prepare_stream s n tt = s2\<lparr>s_dictCtx := 0, s_dictionary := 0, s_dictSize := 0\<rparr>"
    unfolding prepare_stream_def Let_def s1_def [symmetric] s2_def [symmetric] ..
  show "s_dictSize (prepare_stream s n tt) = 0" by (simp add: p)
  have t1: "s_tableType s1 = clearedTable \<or> s_tableType s1 = tt"
    by (auto simp: s1_def table_unusable_def)
  then show "s_tableType (prepare_stream s n tt) = clearedTable \<or> s_tableType (prepare_stream s n tt) = tt"
    by (auto simp: p s2_def)
  have i1: "stream_inv s1" using assms(1) by (simp add: s1_def stream_inv_def)
  have "stream_inv s2"
  proof (cases "s_currentOffset s1 \<noteq> 0 \<and> tt = byU32")
    case False
    then have "s2 = s1" by (simp only: s2_def if_False)
    then show ?thesis using i1 by simp
  next
    case True
    then have k: "s_tableType s1 = byU32" "s_tableType s1 \<noteq> clearedTable" using t1 i1 by (auto simp: stream_inv_def)
    then have keep: "\<not> (s_tableType s \<noteq> clearedTable \<and> table_unusable s n tt)"
      by (auto simp: s1_def split: if_splits)
    then have same: "s1 = s" by (simp only: s1_def if_False)
    have "s_currentOffset s \<le> 1 * GB"
      using keep k(2) True unfolding same by (auto simp: table_unusable_def)
    moreover have "0 \<le> s_currentOffset s" using i1 same by (simp add: stream_inv_def)
    ultimately have u: "u32 (s_currentOffset s1 + 64 * KB) = s_currentOffset s1 + 65536"
      unfolding same by (subst u32_id) auto
    have e: "entries_ok (\<lambda>h i. 0 \<le> i \<and> i < s_currentOffset s1) byU32 s1"
      using i1 k by (simp add: stream_inv_def index_table_def)
    have "entries_ok (\<lambda>h i. 0 \<le> i \<and> i < s_currentOffset s1 + 65536) byU32 (s1\<lparr>s_currentOffset := s_currentOffset s1 + 65536\<rparr>)"
      using entries_ok_mono [OF e] by (subst entries_ok_table [of _ s1]) auto
    then show ?thesis
      using True u i1 k \<open>s_currentOffset s \<le> 1 * GB\<close> same by (simp add: s2_def stream_inv_def)
  qed
  then show "stream_inv (prepare_stream s n tt)"
    unfolding p stream_inv_def by (simp add: entries_ok_table [of "s2\<lparr>s_dictCtx := 0, s_dictionary := 0, s_dictSize := 0\<rparr>" s2])
qed

section \<open>A call of the generic compressor\<close>

text \<open>The local constants of a call, read from the stream \<open>s\<close>.\<close>

definition segment_args ::
    "int \<Rightarrow> int \<Rightarrow> int \<Rightarrow> int \<Rightarrow> int \<Rightarrow> limitedOutput_directive \<Rightarrow> tableType_t \<Rightarrow> dict_directive \<Rightarrow>
     dictIssue_directive \<Rightarrow> int \<Rightarrow> LZ4_stream_t_internal \<Rightarrow> cargs" where
  "segment_args ctx src dst n out dir tt dd issue acc s =
     \<lparr> c_cctx = ctx, c_source = src, c_dest = dst, c_inputSize = n, c_maxOutputSize = out, c_outputDirective = dir,
       c_tableType = tt, c_dictDirective = dd, c_dictIssue = issue, c_acceleration = acc,
       c_startIndex = s_currentOffset s, c_dictCtx = s_dictCtx s, c_dictionary = s_dictionary s,
       c_dictSize = s_dictSize s, c_dictOffset = 0 \<rparr>"

text \<open>What a call leaves of the stream: the index table and its offset fit together again.\<close>

definition stream_after :: "int \<Rightarrow> streams \<Rightarrow> streams \<Rightarrow> bool" where
  "stream_after ctx S S' \<longleftrightarrow> (\<forall>t. t \<noteq> ctx \<longrightarrow> S' t = S t) \<and> (\<exists>s'. S' ctx = Some s' \<and> stream_inv s')"

lemma stream_afterI:
  assumes "table_inv a m0 S1 (c_iend a - c_base a) S'" "update_context a S = Some S1" "call_ok a m0 cap"
    and "S (c_cctx a) = Some s" "c_startIndex a = s_currentOffset s"
  shows "stream_after (c_cctx a) S S'"
proof -
  obtain s1 b where s1: "S1 (c_cctx a) = Some s1" "S' = S1(c_cctx a \<mapsto> s1\<lparr>s_hashTable := b\<rparr>)"
    "entries_ok (idx_ok a m0 (c_iend a - c_base a)) (c_tableType a) (s1\<lparr>s_hashTable := b\<rparr>)"
    using assms(1) unfolding table_inv_def by blast
  have cur: "c_iend a - c_base a = s_currentOffset s + c_inputSize a" using assms(5) by (simp add: c_limits)
  have u: "u32 (s_currentOffset s + u32 (c_inputSize a)) = s_currentOffset s + c_inputSize a"
    using call_okD(3,4,7,8) [OF assms(3)] assms(5) by (simp add: u32_id)
  have S1: "S1 (c_cctx a) = Some s1 \<and> s_currentOffset s1 = s_currentOffset s + c_inputSize a \<and> s_tableType s1 = c_tableType a \<and>
      0 \<le> s_dictSize s1 \<and> (\<forall>t. t \<noteq> c_cctx a \<longrightarrow> S1 t = S t)"
    using assms(2,4) s1(1) u by (cases "c_dictDirective a = usingDictCtx") (auto simp: update_context_def Let_def)
  have it: "index_table (c_tableType a)" "c_tableType a \<noteq> clearedTable"
    using call_okD(1) [OF assms(3)] by (auto simp: index_table_def)
  have "entries_ok (\<lambda>h i. 0 \<le> i \<and> i < s_currentOffset s + c_inputSize a) (c_tableType a) (s1\<lparr>s_hashTable := b\<rparr>)"
    using entries_ok_mono [OF s1(3)] cur by (auto simp: idx_ok_def)
  then have "stream_inv (s1\<lparr>s_hashTable := b\<rparr>)"
    using S1 it call_okD(3,7,8,11) [OF assms(3)] assms(5) by (simp add: stream_inv_def)
  then show ?thesis using s1(2) S1 by (auto simp: stream_after_def)
qed

text \<open>
  The result of a call on \<open>n\<close> bytes: at most the capacity; zero, or the size of a block that expands to
  the input, resp. to the reported part of it when the output was to be filled.
\<close>

lemma generic_segment:
  assumes s: "S ctx = Some s" "stream_inv s" and n: "0 \<le> n" "n \<le> LZ4_MAX_INPUT_SIZE"
    and dd: "dd \<noteq> usingDictCtx" and cap: "mapped m dst (dst + cap)"
    and zero: "n = 0 \<Longrightarrow> if dir = notLimited then 1 \<le> cap else cap = out"
    and pos: "0 < n \<Longrightarrow> call_ok (segment_args ctx src dst n out dir tt dd issue acc s) m cap \<and>
      old_entries (segment_args ctx src dst n out dir tt dd issue acc s) m S"
  shows "\<exists>r consumed m' S'. LZ4_compress_generic ctx src dst n out dir tt dd issue acc m S = Some (r, consumed, m', S') \<and>
     comp_result (segment_args ctx src dst n out dir tt dd issue acc s) m cap r consumed m' \<and> stream_after ctx S S'"
proof (cases "n = 0")
  case True
  let ?a = "segment_args ctx src dst n out dir tt dd issue acc s"
  have same: "stream_after ctx S S" using s by (simp add: stream_after_def)
  show ?thesis
  proof (cases "dir \<noteq> notLimited \<and> out \<le> 0")
    case True
    then have "comp_result ?a m cap 0 None m"
      using zero [OF \<open>n = 0\<close>] \<open>n = 0\<close> by (auto simp: comp_result_def segment_args_def frame_refl tight_def)
    then show ?thesis using True \<open>n = 0\<close> same by (auto simp: LZ4_compress_generic_def u32_def)
  next
    case False
    then have c1: "1 \<le> cap" using zero [OF True] by (auto split: if_splits)
    then obtain b where b: "m dst = Some b" using mappedD [OF cap, of dst] by auto
    let ?m = "m(dst \<mapsto> 0)"
    have "frame m ?m dst (dst + cap)" using b c1 by (intro frame_upd) auto
    moreover have "bytes ?m dst (dst + 1) = encode_block [] []"
      by (simp add: encode_block_def encode_last_def len_ext_def token_byte_def bytes_def)
    then have "block_of ?a (view ?a m) 0 1 ?m"
      unfolding block_of_def by (intro exI [of _ "[]"]) (simp add: segment_args_def block_end_ok_def expand_def)
    ultimately have "comp_result ?a m cap 1 (if dir = fillOutput then Some 0 else None) ?m"
      using c1 True by (auto simp: comp_result_def segment_args_def)
    then show ?thesis using False True b same by (auto simp: LZ4_compress_generic_def u32_def store8_Some)
  qed
next
  case False
  let ?a = "segment_args ctx src dst n out dir tt dd issue acc s"
  let ?args = "\<lparr> c_cctx = ctx, c_source = src, c_dest = dst, c_inputSize = n, c_maxOutputSize = out,
          c_outputDirective = dir, c_tableType = tt, c_dictDirective = dd,
          c_dictIssue = issue, c_acceleration = acc, c_startIndex = 0, c_dictCtx = 0,
          c_dictionary = 0, c_dictSize = 0, c_dictOffset = 0 \<rparr>"
  have ok: "call_ok ?a m cap" "old_entries ?a m S" using pos n(1) False by auto
  have rd: "read_context ?args S = Some ?a"
    using s(1) dd by (auto simp: read_context_def segment_args_def)
  have small: "u32 n = n" "u32 LZ4_MAX_INPUT_SIZE = LZ4_MAX_INPUT_SIZE" using n by (simp_all add: u32_id)
  have gen: "LZ4_compress_generic ctx src dst n out dir tt dd issue acc m S = LZ4_compress_generic_validated ?args m S"
    using False n small by (simp add: LZ4_compress_generic_def)
  have sel: "c_cctx ?a = ctx" "c_startIndex ?a = s_currentOffset s" by (simp_all add: segment_args_def)
  from validated_ok [OF rd ok] obtain r consumed m' S' where v:
    "LZ4_compress_generic_validated ?args m S = Some (r, consumed, m', S')" "comp_result ?a m cap r consumed m'"
    "S' = S \<and> r = 0 \<and> c_outputDirective ?a = fillOutput \<or> (\<exists>S1. update_context ?a S = Some S1 \<and> table_inv ?a m S1 (c_iend ?a - c_base ?a) S')" by blast
  have "stream_after ctx S S'"
    using v(3) stream_afterI [OF _ _ ok(1), of _ S' S s] s sel by (auto simp: stream_after_def)
  then show ?thesis using v(1,2) gen by auto
qed

end
