(* ===== verification/Lz4_CompressContract.thy ===== *)
theory Lz4_CompressContract
  imports Lz4_CompressCalls Lz4_DecodeSpec
begin

text \<open>
  The contract of the block compressors, as a locale that every one-shot entry point interprets, and the
  round trip through \<open>LZ4_decompress_safe\<close>, proved once inside it.
\<close>

section \<open>The contract\<close>

text \<open>The bytes \<open>B\<close> are a block of the format that stands for \<open>X\<close> after the history \<open>D\<close>.\<close>

definition block_for :: "byte list \<Rightarrow> byte list \<Rightarrow> byte list \<Rightarrow> bool" where
  "block_for D X B \<longleftrightarrow> (\<exists>qs ls. B = encode_block qs ls \<and> seqs_ok D qs \<and> block_end_ok qs ls \<and> expand D qs ls = D @ X)"

definition comp_buffers :: "mem \<Rightarrow> int \<Rightarrow> int \<Rightarrow> int \<Rightarrow> int \<Rightarrow> bool" where
  "comp_buffers m s n d cap \<longleftrightarrow> - 2147483648 \<le> n \<and> n < 2147483648 \<and> 0 \<le> cap \<and> cap < 2147483648 \<and>
     mapped m s (s + n) \<and> mapped m d (d + cap) \<and> (s + n \<le> d \<or> d + cap \<le> s)"

text \<open>
  A result \<open>r\<close>: zero, or the size of a block for the input. With a capacity of at least the compress
  bound, an input of a legal size never fails.
\<close>

definition compressed_as :: "mem \<Rightarrow> int \<Rightarrow> int \<Rightarrow> int \<Rightarrow> int \<Rightarrow> int \<Rightarrow> mem \<Rightarrow> bool" where
  "compressed_as m s n d cap r m' \<longleftrightarrow> frame m m' d (d + cap) \<and> 0 \<le> r \<and> r \<le> cap \<and>
     (0 < r \<longrightarrow> 0 \<le> n \<and> n \<le> LZ4_MAX_INPUT_SIZE \<and> block_for [] (bytes m s (s + n)) (bytes m' d (d + r))) \<and>
     (0 \<le> n \<and> n \<le> LZ4_MAX_INPUT_SIZE \<and> LZ4_compressBound n \<le> cap \<longrightarrow> 0 < r \<and> r \<le> LZ4_compressBound n)"

lemma compressBound_eq: "0 \<le> n \<Longrightarrow> n \<le> LZ4_MAX_INPUT_SIZE \<Longrightarrow> LZ4_compressBound n = n + n div 255 + 16"
  by (simp add: LZ4_compressBound_def u32_id)

lemma compressBound_illegal:
  assumes "- 2147483648 \<le> n" "n < 2147483648" "\<not> (0 \<le> n \<and> n \<le> LZ4_MAX_INPUT_SIZE)"
  shows "u32 n > u32 LZ4_MAX_INPUT_SIZE" "LZ4_compressBound n = 0"
proof -
  have m: "u32 LZ4_MAX_INPUT_SIZE = LZ4_MAX_INPUT_SIZE" by (simp add: u32_id)
  show "u32 n > u32 LZ4_MAX_INPUT_SIZE"
  proof (cases "0 \<le> n")
    case True
    then show ?thesis using assms m by (simp add: u32_id)
  next
    case False
    have "n mod 4294967296 = (n + 4294967296) mod 4294967296" by simp
    also have "\<dots> = n + 4294967296" using False assms(1) by (intro mod_pos_pos_trivial) auto
    finally have "u32 n = n + 4294967296" by (simp add: u32_def)
    then show ?thesis using assms(1) m by simp
  qed
  then show "LZ4_compressBound n = 0" by (simp add: LZ4_compressBound_def)
qed

text \<open>A block for \<open>X\<close> is decoded back to \<open>X\<close>.\<close>

lemma block_for_decodes:
  assumes "block_for [] X (bytes m d (d + r))" "buffers_ok m d r e cap" "int (length X) \<le> cap"
  shows "\<exists>m'. LZ4_decompress_safe m d e r cap = Some (int (length X), m') \<and> frame m m' e (e + cap) \<and>
     bytes m' e (e + int (length X)) = X"
proof -
  obtain qs ls where q: "bytes m d (d + r) = encode_block qs ls" "seqs_ok [] qs" "block_end_ok qs ls" "expand [] qs ls = X"
    using assms(1) unfolding block_for_def by auto
  have len: "total_len qs ls = length X" using length_expand [of "[]" qs ls] q(4) by simp
  have "no_history m d r e cap []" using assms(2) by (simp add: no_history_def)
  from safe_dec.complete [OF this q(1) seqs_ok_fit [OF q(2)] q(3)] assms(3) len q(4)
  show ?thesis by auto
qed

locale block_compressor =
  fixes compress :: "int \<Rightarrow> int \<Rightarrow> int \<Rightarrow> int \<Rightarrow> mem \<Rightarrow> 's \<Rightarrow> (int \<times> mem \<times> 's) option"
    and ready :: "'s \<Rightarrow> bool"
  assumes call: "ready S \<Longrightarrow> comp_buffers m s n d cap \<Longrightarrow>
    \<exists>r m' S'. compress s d n cap m S = Some (r, m', S') \<and> compressed_as m s n d cap r m' \<and> ready S'"
begin

lemma contract:
  assumes "ready S" "comp_buffers m s n d cap" "compress s d n cap m S = Some (r, m', S')"
  shows "compressed_as m s n d cap r m'" "ready S'"
  using call [OF assms(1,2)] assms(3) by auto

lemma total:
  assumes "ready S" "comp_buffers m s n d cap"
  shows "\<exists>r m' S'. compress s d n cap m S = Some (r, m', S') \<and> frame m m' d (d + cap) \<and> 0 \<le> r \<and> r \<le> cap \<and> ready S'"
  using call [OF assms] by (auto simp: compressed_as_def)

lemma bounded:
  assumes "ready S" "comp_buffers m s n d cap" "0 \<le> n" "n \<le> LZ4_MAX_INPUT_SIZE" "LZ4_compressBound n \<le> cap"
  shows "\<exists>r m' S'. compress s d n cap m S = Some (r, m', S') \<and> 0 < r \<and> r \<le> LZ4_compressBound n"
  using call [OF assms(1,2)] assms(3-5) by (auto simp: compressed_as_def)

lemma illegal:
  assumes "ready S" "comp_buffers m s n d cap" "n < 0 \<or> LZ4_MAX_INPUT_SIZE < n"
  shows "\<exists>m' S'. compress s d n cap m S = Some (0, m', S')"
  using call [OF assms(1,2)] assms(3) by (fastforce simp: compressed_as_def)

lemma roundtrip:
  assumes "ready S" "comp_buffers m s n d cap" "compress s d n cap m S = Some (r, m', S')" "0 < r"
    and "buffers_ok m' d r e ecap" "n \<le> ecap"
  shows "\<exists>m''. LZ4_decompress_safe m' d e r ecap = Some (n, m'') \<and> bytes m'' e (e + n) = bytes m s (s + n)"
proof -
  have "0 \<le> n" "block_for [] (bytes m s (s + n)) (bytes m' d (d + r))"
    using contract(1) [OF assms(1-3)] assms(4) by (auto simp: compressed_as_def)
  from block_for_decodes [OF this(2) assms(5)] assms(6) \<open>0 \<le> n\<close> show ?thesis by auto
qed

end

section \<open>One call without history\<close>

text \<open>What the entry points check of the stream before they compress without a dictionary.\<close>

definition plain_stream :: "LZ4_stream_t_internal \<Rightarrow> int \<Rightarrow> limitedOutput_directive \<Rightarrow> tableType_t \<Rightarrow> dictIssue_directive \<Rightarrow> bool" where
  "plain_stream s n dir tt issue \<longleftrightarrow>
     stream_inv s \<and> s_dictSize s = 0 \<and> index_table tt \<and> (s_tableType s = clearedTable \<or> s_tableType s = tt) \<and>
     (issue = dictSmall \<or> s_currentOffset s = 0) \<and> (dir = fillOutput \<longrightarrow> s_currentOffset s = 0) \<and>
     s_currentOffset s + n < 4294967296 \<and> (tt = byU16 \<longrightarrow> n < LZ4_64Klimit \<and> s_currentOffset s + n < 65548)"

lemma plain_entries:
  assumes s: "S ctx = Some s" "plain_stream s n dir tt issue"
  shows "old_entries (segment_args ctx src dst n out dir tt noDict issue acc s) m S"
proof -
  let ?a = "segment_args ctx src dst n out dir tt noDict issue acc s"
  have inv: "stream_inv s" and tt: "index_table tt" "s_tableType s = clearedTable \<or> s_tableType s = tt"
    and d: "s_dictSize s = 0" "issue = dictSmall \<or> s_currentOffset s = 0" "dir = fillOutput \<Longrightarrow> s_currentOffset s = 0"
    using s(2) by (auto simp: plain_stream_def)
  have "entries_ok (idx_ok ?a m (s_currentOffset s + 1)) tt s"
  proof (cases "s_tableType s = clearedTable")
    case True
    then show ?thesis using inv d by (intro cleared_entries [OF _ tt(1)]) (auto simp: stream_inv_def idx_ok_def segment_args_def)
  next
    case False
    then have "entries_ok (\<lambda>h i. 0 \<le> i \<and> i < s_currentOffset s) tt s"
      using inv tt by (auto simp: stream_inv_def)
    then show ?thesis
      by (rule entries_ok_mono) (use d in \<open>auto simp: idx_ok_def segment_args_def\<close>)
  qed
  then show ?thesis using s(1) by (auto simp: old_entries_def dict_table_def segment_args_def)
qed

lemma plain_comp_ok:
  assumes "plain_stream s n dir tt issue" "comp_buffers m src n dst cap" "0 < n" "n \<le> LZ4_MAX_INPUT_SIZE"
    and "1 \<le> acc" "acc \<le> LZ4_ACCELERATION_MAX"
    and "if dir = notLimited then LZ4_compressBound n \<le> cap else cap = out"
  shows "comp_ok (segment_args ctx src dst n out dir tt noDict issue acc s) m cap"
proof -
  have "dir = notLimited \<Longrightarrow> n + n div 255 + 16 \<le> cap" using assms(3,4,7) compressBound_eq [of n] by simp
  then show ?thesis
    using assms unfolding comp_ok_def
    by (auto simp: segment_args_def plain_stream_def comp_buffers_def stream_inv_def c_low_def c_iend_def split: if_splits)
qed

text \<open>The call in the terms of the format.\<close>

definition filled_as :: "mem \<Rightarrow> int \<Rightarrow> int \<Rightarrow> int \<Rightarrow> int \<Rightarrow> int option \<Rightarrow> mem \<Rightarrow> bool" where
  "filled_as m s d cap r consumed m' \<longleftrightarrow> frame m m' d (d + cap) \<and> 0 \<le> r \<and> r \<le> cap \<and>
     (\<forall>k. consumed = Some k \<longrightarrow> 0 < r \<and> 0 \<le> k \<and> block_for [] (bytes m s (s + k)) (bytes m' d (d + r)))"

lemma plain_result:
  assumes res: "comp_result (segment_args ctx src dst n out dir tt noDict issue acc s) m cap r consumed m'"
    and ps: "plain_stream s n dir tt issue" and n: "0 \<le> n" "n \<le> LZ4_MAX_INPUT_SIZE" and cap: "0 \<le> cap"
  shows "dir \<noteq> fillOutput \<Longrightarrow> (dir = notLimited \<longleftrightarrow> LZ4_compressBound n \<le> cap) \<Longrightarrow> compressed_as m src n dst cap r m'"
    and "dir = fillOutput \<Longrightarrow> filled_as m src dst cap r consumed m' \<and>
      (\<forall>k. consumed = Some k \<longrightarrow> k \<le> n) \<and> (r = 0 \<longleftrightarrow> consumed = None) \<and> (1 \<le> out \<longrightarrow> 0 < r)"
proof -
  let ?a = "segment_args ctx src dst n out dir tt noDict issue acc s"
  have vw: "view ?a m = m" by (rule prefix_view) (simp add: c_maybe_extMem_def segment_args_def)
  have hist: "c_hist ?a m = []" using ps by (simp add: c_hist_def c_low_def plain_stream_def segment_args_def)
  have blk: "block_for [] (bytes m src (src + k)) (bytes m' dst (dst + r))" if "block_of ?a m k r m'" for k
    using that unfolding block_of_def block_for_def hist by (simp add: segment_args_def)
  note bd = compressBound_eq [OF n]
  show "compressed_as m src n dst cap r m'" if "dir \<noteq> fillOutput" "dir = notLimited \<longleftrightarrow> LZ4_compressBound n \<le> cap"
    using res that blk n cap unfolding comp_result_def compressed_as_def bd vw by (auto simp: segment_args_def)
  show "filled_as m src dst cap r consumed m' \<and> (\<forall>k. consumed = Some k \<longrightarrow> k \<le> n) \<and> (r = 0 \<longleftrightarrow> consumed = None) \<and>
      (1 \<le> out \<longrightarrow> 0 < r)" if "dir = fillOutput"
    using res that blk n cap unfolding comp_result_def filled_as_def vw by (auto simp: segment_args_def)
qed

lemma plain_call:
  assumes s: "S ctx = Some s" "plain_stream s n dir tt issue" and b: "comp_buffers m src n dst cap"
    and n: "0 \<le> n" "n \<le> LZ4_MAX_INPUT_SIZE" and acc: "1 \<le> acc" "acc \<le> LZ4_ACCELERATION_MAX"
    and out: "if dir = notLimited then LZ4_compressBound n \<le> cap else cap = out"
  shows "\<exists>r consumed m' S'. LZ4_compress_generic ctx src dst n out dir tt noDict issue acc m S = Some (r, consumed, m', S') \<and>
     comp_result (segment_args ctx src dst n out dir tt noDict issue acc s) m cap r consumed m' \<and> stream_after ctx S S'"
proof (rule generic_segment)
  show "S ctx = Some s" by (rule s(1))
  show "stream_inv s" using s(2) by (simp add: plain_stream_def)
  show "mapped m dst (dst + cap)" using b by (simp add: comp_buffers_def)
  show "if dir = notLimited then 1 \<le> cap else cap = out" if "n = 0"
    using out compressBound_eq [OF n] that by (simp split: if_splits)
  show "call_ok (segment_args ctx src dst n out dir tt noDict issue acc s) m cap \<and>
      old_entries (segment_args ctx src dst n out dir tt noDict issue acc s) m S" if "0 < n"
    using comp_call [OF plain_comp_ok [OF s(2) b that n(2) acc out]] plain_entries [where S = S and ctx = ctx, OF s] by simp
qed (use n in auto)

text \<open>A size outside of the legal range is refused.\<close>

lemma illegal_call:
  assumes "comp_buffers m src n dst cap" "\<not> (0 \<le> n \<and> n \<le> LZ4_MAX_INPUT_SIZE)"
  shows "LZ4_compress_generic ctx src dst n out dir tt dd issue acc m S = Some (0, None, m, S)"
    "compressed_as m src n dst cap 0 m"
  using compressBound_illegal(1) [of n] assms
  by (auto simp: LZ4_compress_generic_def compressed_as_def comp_buffers_def frame_refl)

text \<open>A call that returns only the size.\<close>

lemma plain_compresses:
  assumes s: "S ctx = Some s" "0 \<le> n \<Longrightarrow> n \<le> LZ4_MAX_INPUT_SIZE \<Longrightarrow> plain_stream s n dir tt issue" "stream_inv s"
    and b: "comp_buffers m src n dst cap" and acc: "1 \<le> acc" "acc \<le> LZ4_ACCELERATION_MAX"
    and dir: "dir = (if LZ4_compressBound n \<le> cap then notLimited else limitedOutput)" "dir = limitedOutput \<Longrightarrow> out = cap"
  shows "\<exists>r m' S'. compress_plain ctx src dst n out dir tt noDict issue acc m S = Some (r, m', S') \<and>
     compressed_as m src n dst cap r m' \<and> stream_after ctx S S'"
proof (cases "0 \<le> n \<and> n \<le> LZ4_MAX_INPUT_SIZE")
  case True
  then have ps: "plain_stream s n dir tt issue" and n: "0 \<le> n" "n \<le> LZ4_MAX_INPUT_SIZE" using s(2) by simp_all
  have out: "if dir = notLimited then LZ4_compressBound n \<le> cap else cap = out"
    using dir by (auto split: if_splits)
  from plain_call [where S = S and ctx = ctx, OF s(1) ps b n acc out] obtain r consumed m' S' where
    c: "LZ4_compress_generic ctx src dst n out dir tt noDict issue acc m S = Some (r, consumed, m', S')"
    "comp_result (segment_args ctx src dst n out dir tt noDict issue acc s) m cap r consumed m'" "stream_after ctx S S'" by blast
  have "compressed_as m src n dst cap r m'"
    using plain_result(1) [OF c(2) ps n] b dir by (auto simp: comp_buffers_def split: if_splits)
  then show ?thesis using c by (auto simp: compress_plain_def)
next
  case False
  then show ?thesis
    using illegal_call [OF b] s(1,3) by (auto simp: compress_plain_def stream_after_def)
qed

section \<open>The entry points fulfil the contract\<close>

lemma clamp_range: "1 \<le> clamp_acceleration acc" "clamp_acceleration acc \<le> LZ4_ACCELERATION_MAX"
  by (simp_all add: clamp_acceleration_def)

lemma large_input_table [simp]: "large_input_table src = byU32"
  by (simp add: large_input_table_def sizeof_ptr_def)

text \<open>A state that is aligned memory of the right size; the functions that initialise it need no more.\<close>

definition state_ready :: "int \<Rightarrow> streams \<Rightarrow> bool" where
  "state_ready state S \<longleftrightarrow> state \<noteq> 0 \<and> LZ4_isAligned state LZ4_stream_t_alignment \<and> S state \<noteq> None"

lemma initStream_ready:
  "state_ready state S \<Longrightarrow> LZ4_initStream S state sizeof_stream = Some (state, S(state \<mapsto> zero_stream))"
  by (auto simp: state_ready_def LZ4_initStream_def)

lemma zero_plain:
  assumes "0 \<le> n" "n \<le> LZ4_MAX_INPUT_SIZE" "n < LZ4_64Klimit \<longrightarrow> tt = byU16" "\<not> n < LZ4_64Klimit \<longrightarrow> tt = byU32"
  shows "plain_stream zero_stream n dir tt issue"
  using assms zero_stream_inv by (auto simp: plain_stream_def zero_stream_def index_table_def)

lemma stream_after_ready: "stream_after state S S' \<Longrightarrow> state_ready state S \<Longrightarrow> state_ready state S'"
  by (auto simp: stream_after_def state_ready_def)

lemma fast_extState_call:
  assumes r: "state_ready state S" and b: "comp_buffers m src n dst cap"
  shows "\<exists>r m' S'. LZ4_compress_fast_extState state src dst n cap acc m S = Some (r, m', S') \<and>
     compressed_as m src n dst cap r m' \<and> state_ready state S' \<and> stream_after state S S'"
proof -
  let ?S = "S(state \<mapsto> zero_stream)"
  define tt where "tt = (if n < LZ4_64Klimit then byU16 else byU32)"
  define dir where "dir = (if LZ4_compressBound n \<le> cap then notLimited else limitedOutput)"
  define out where "out = (if LZ4_compressBound n \<le> cap then 0 else cap)"
  have c: "LZ4_compress_fast_extState state src dst n cap acc m S =
      compress_plain state src dst n out dir tt noDict noDictIssue (clamp_acceleration acc) m ?S"
    unfolding LZ4_compress_fast_extState_def initStream_ready [OF r] Option.bind.simps Let_def
    by (simp add: tt_def dir_def out_def)
  have "?S state = Some zero_stream" by simp
  moreover have "plain_stream zero_stream n dir tt noDictIssue" if "0 \<le> n" "n \<le> LZ4_MAX_INPUT_SIZE"
    by (rule zero_plain [OF that]) (simp_all add: tt_def)
  moreover have "dir = limitedOutput \<Longrightarrow> out = cap" by (auto simp: dir_def out_def split: if_splits)
  ultimately obtain x m' S' where k: "compress_plain state src dst n out dir tt noDict noDictIssue (clamp_acceleration acc) m ?S = Some (x, m', S')"
    "compressed_as m src n dst cap x m'" "stream_after state ?S S'"
    using plain_compresses [of ?S state zero_stream n dir tt noDictIssue m src dst cap "clamp_acceleration acc" out]
      zero_stream_inv b clamp_range dir_def by blast
  have "stream_after state S S'" using k(3) by (auto simp: stream_after_def)
  then show ?thesis using c k(1,2) stream_after_ready [OF _ r] by auto
qed

interpretation extState: block_compressor
  "\<lambda>s d n cap m S. LZ4_compress_fast_extState state s d n cap acc m S" "state_ready state" for state acc
  using fast_extState_call by unfold_locales blast

interpretation fast: block_compressor
  "\<lambda>s d n cap m S. LZ4_compress_fast s d n cap acc wrkmem m S" "state_ready wrkmem" for wrkmem acc
  unfolding LZ4_compress_fast_def using fast_extState_call by unfold_locales blast

interpretation default: block_compressor
  "\<lambda>s d n cap m S. LZ4_compress_default s d n cap wrkmem m S" "state_ready wrkmem" for wrkmem
  unfolding LZ4_compress_default_def using fast_extState_call by unfold_locales blast

text \<open>The variant that reuses the table of earlier calls, under the invariant between calls.\<close>

definition reusable :: "int \<Rightarrow> streams \<Rightarrow> bool" where
  "reusable ctx S \<longleftrightarrow> (\<exists>s. S ctx = Some s \<and> stream_inv s)"

lemma stream_after_reusable: "stream_after ctx S S' \<Longrightarrow> reusable ctx S'"
  by (auto simp: stream_after_def reusable_def)

lemma prepared_offset:
  assumes "stream_inv s"
  shows "prepare_stream s n byU16 = p \<Longrightarrow> 0 \<le> n \<Longrightarrow> n < LZ4_64Klimit \<Longrightarrow> s_currentOffset p + n < 65548"
    and "\<not> n < LZ4_64Klimit \<Longrightarrow> s_currentOffset (prepare_stream s n byU32) = 0"
proof -
  have range: "0 \<le> s_currentOffset s" using assms by (simp add: stream_inv_def)
  have clear: "s_tableType s = clearedTable \<Longrightarrow> s_currentOffset s = 0" using assms by (simp add: stream_inv_def)
  show "s_currentOffset (prepare_stream s n byU32) = 0" if "\<not> n < LZ4_64Klimit"
    using that clear by (auto simp: prepare_stream_def table_unusable_def Let_def)
  show "s_currentOffset p + n < 65548" if p: "prepare_stream s n byU16 = p" "0 \<le> n" "n < LZ4_64Klimit"
  proof (cases "s_tableType s \<noteq> clearedTable \<and> table_unusable s n byU16")
    case True
    then show ?thesis using p by (auto simp: prepare_stream_def Let_def)
  next
    case False
    then consider "s_tableType s = clearedTable" | "u32 (s_currentOffset s + u32 n) < 65535" "s_tableType s = byU16"
      by (auto simp: table_unusable_def)
    then show ?thesis
    proof cases
      case 1
      then show ?thesis using p clear by (auto simp: prepare_stream_def Let_def)
    next
      case 2
      have "s_currentOffset p = s_currentOffset s" using False p by (auto simp: prepare_stream_def Let_def)
      moreover have "s_currentOffset s < 65548" using assms 2(2) by (simp add: stream_inv_def)
      moreover have "u32 (s_currentOffset s + u32 n) = s_currentOffset s + n"
        using range p calculation(2) by (simp add: u32_id)
      ultimately show ?thesis using 2(1) by simp
    qed
  qed
qed

lemma fastReset_call:
  assumes r: "reusable ctx S" and b: "comp_buffers m src n dst cap"
  shows "\<exists>r m' S'. LZ4_compress_fast_extState_fastReset ctx src dst n cap acc m S = Some (r, m', S') \<and>
     compressed_as m src n dst cap r m' \<and> stream_after ctx S S'"
proof -
  obtain s where s: "S ctx = Some s" "stream_inv s" using r by (auto simp: reusable_def)
  define tt where "tt = (if n < LZ4_64Klimit then byU16 else byU32)"
  define p where "p = prepare_stream s n tt"
  define issue where "issue = (if n < LZ4_64Klimit \<and> s_currentOffset p \<noteq> 0 then dictSmall else noDictIssue)"
  define dir where "dir = (if LZ4_compressBound n \<le> cap then notLimited else limitedOutput)"
  define out where "out = (if LZ4_compressBound n \<le> cap then 0 else cap)"
  let ?S = "S(ctx \<mapsto> p)"
  have prep: "LZ4_prepareTable S ctx n tt = Some ?S" using s(1) by (simp add: LZ4_prepareTable_def p_def)
  have it: "index_table tt" by (simp add: tt_def index_table_def)
  note inv = prepare_stream_inv [OF s(2) it, of n, folded p_def]
  have c: "LZ4_compress_fast_extState_fastReset ctx src dst n cap acc m S =
      compress_plain ctx src dst n out dir tt noDict issue (clamp_acceleration acc) m ?S"
  proof (cases "n < LZ4_64Klimit")
    case True
    then have "LZ4_prepareTable S ctx n byU16 = Some ?S" using prep by (simp only: tt_def if_True)
    then show ?thesis
      unfolding LZ4_compress_fast_extState_fastReset_def Let_def tt_def dir_def out_def issue_def
      by (simp only: True if_True Option.bind.simps map_upd_Some_unfold fun_upd_same simp_thms split: if_split) simp
  next
    case False
    then have "LZ4_prepareTable S ctx n byU32 = Some ?S" using prep by (simp only: tt_def if_False)
    then show ?thesis
      unfolding LZ4_compress_fast_extState_fastReset_def Let_def tt_def dir_def out_def issue_def
      by (simp only: False if_False Option.bind.simps large_input_table simp_thms split: if_split) simp
  qed
  have off: "s_currentOffset p = 0" if "\<not> n < LZ4_64Klimit"
    using prepared_offset(2) [OF s(2) that] that by (simp add: p_def tt_def)
  have u16: "s_currentOffset p + n < 65548" if "0 \<le> n" "n < LZ4_64Klimit"
    using prepared_offset(1) [OF s(2) _ that, of p] that by (simp add: p_def tt_def)
  have ps: "plain_stream p n dir tt issue" if "0 \<le> n" "n \<le> LZ4_MAX_INPUT_SIZE"
    using inv it off u16 that by (auto simp: plain_stream_def issue_def dir_def tt_def)
  have "dir = limitedOutput \<Longrightarrow> out = cap" by (auto simp: dir_def out_def split: if_splits)
  then obtain x m' S' where k: "compress_plain ctx src dst n out dir tt noDict issue (clamp_acceleration acc) m ?S = Some (x, m', S')"
    "compressed_as m src n dst cap x m'" "stream_after ctx ?S S'"
    using plain_compresses [of ?S ctx p n dir tt issue m src dst cap "clamp_acceleration acc" out] ps inv(1) b clamp_range dir_def
    by auto
  have "stream_after ctx S S'" using k(3) by (auto simp: stream_after_def)
  then show ?thesis using c k(1,2) by auto
qed

interpretation fastReset: block_compressor
  "\<lambda>s d n cap m S. LZ4_compress_fast_extState_fastReset ctx s d n cap acc m S" "reusable ctx" for ctx acc
  using fastReset_call stream_after_reusable by unfold_locales blast

section \<open>Filling the output\<close>

text \<open>
  \<open>LZ4_compress_destSize\<close>: with room for the bound it is the plain compressor, else the output is filled
  with a block for a prefix of the input, whose length is the new \<open>*srcSizePtr\<close>. Both entry points
  are stated for an acceleration in range, as this path does not clamp it.
\<close>

lemma destSize_call:
  assumes r: "state_ready state S" and b: "comp_buffers m src n dst cap" and acc: "1 \<le> acc" "acc \<le> LZ4_ACCELERATION_MAX"
  shows "\<exists>x k m' S'. LZ4_compress_destSize_extState_internal state src dst n cap acc m S = Some (x, k, m', S') \<and>
     frame m m' dst (dst + cap) \<and> 0 \<le> x \<and> x \<le> cap \<and> state_ready state S' \<and>
     (0 \<le> n \<and> n \<le> LZ4_MAX_INPUT_SIZE \<and> 1 \<le> cap \<longrightarrow> 0 < x) \<and> (x = 0 \<longrightarrow> k = n) \<and>
     (0 < x \<longrightarrow> 0 \<le> k \<and> k \<le> n \<and> (LZ4_compressBound n \<le> cap \<longrightarrow> k = n) \<and>
        block_for [] (bytes m src (src + k)) (bytes m' dst (dst + x)))"
proof -
  let ?S = "S(state \<mapsto> zero_stream)"
  note un = LZ4_compress_destSize_extState_internal_def initStream_ready [OF r] Option.bind.simps Let_def
  have r0: "state_ready state ?S" using r by (simp add: state_ready_def)
  show ?thesis
  proof (cases "LZ4_compressBound n \<le> cap")
    case True
    from fast_extState_call [OF r0 b, of acc] obtain x m' S' where c:
      "LZ4_compress_fast_extState state src dst n cap acc m ?S = Some (x, m', S')" "compressed_as m src n dst cap x m'"
      "state_ready state S'" by blast
    have eq: "LZ4_compress_destSize_extState_internal state src dst n cap acc m S = Some (x, n, m', S')"
      unfolding un using True c(1) by simp
    have z: "0 < x \<Longrightarrow> 0 \<le> n \<and> n \<le> LZ4_MAX_INPUT_SIZE \<and> block_for [] (bytes m src (src + n)) (bytes m' dst (dst + x))"
      "0 \<le> n \<Longrightarrow> n \<le> LZ4_MAX_INPUT_SIZE \<Longrightarrow> 0 < x" "frame m m' dst (dst + cap)" "0 \<le> x" "x \<le> cap"
      using c(2) True unfolding compressed_as_def by blast+
    show ?thesis unfolding eq using c(3) z by blast
  next
    case False
    have legal: "0 \<le> n" "n \<le> LZ4_MAX_INPUT_SIZE"
      using False compressBound_illegal(2) [of n] b by (auto simp: comp_buffers_def)
    define tt where "tt = (if n < LZ4_64Klimit then byU16 else byU32)"
    have ps: "plain_stream zero_stream n fillOutput tt noDictIssue" by (rule zero_plain [OF legal]) (simp_all add: tt_def)
    have "?S state = Some zero_stream" by simp
    from plain_call [of ?S state, OF this ps b legal acc, of cap] obtain x consumed m' S' where c:
      "LZ4_compress_generic state src dst n cap fillOutput tt noDict noDictIssue acc m ?S = Some (x, consumed, m', S')"
      "comp_result (segment_args state src dst n cap fillOutput tt noDict noDictIssue acc zero_stream) m cap x consumed m'"
      "stream_after state ?S S'" by auto
    have cap: "0 \<le> cap" using b by (simp add: comp_buffers_def)
    have f: "filled_as m src dst cap x consumed m'" "\<forall>k. consumed = Some k \<longrightarrow> k \<le> n" "x = 0 \<longleftrightarrow> consumed = None" "1 \<le> cap \<Longrightarrow> 0 < x"
      using plain_result(2) [OF c(2) ps legal cap] by auto
    have eq: "LZ4_compress_destSize_extState_internal state src dst n cap acc m S =
        Some (x, case consumed of None \<Rightarrow> n | Some k \<Rightarrow> k, m', S')"
      unfolding un using False c(1) by (cases "n < LZ4_64Klimit") (simp_all add: tt_def)
    have "state_ready state S'" using c(3) stream_after_ready [OF _ r0] by blast
    then show ?thesis unfolding eq using f False by (cases consumed) (auto simp: filled_as_def)
  qed
qed

end
