(* ===== verification/Lz4_HcContract.thy ===== *)
theory Lz4_HcContract
  imports Lz4_HcApi Lz4_HcMidProofs Lz4_HcChainProofs Lz4_HcOptimalProofs Lz4_CompressContract
begin

unbundle bit_operations_syntax

text \<open>
  The three compressors of \<open>lib/lz4/lz4hc.c\<close> fulfil one contract, stated as a locale; the choice by level
  and the entry points rest on it. The entry points in turn fulfil the contract of the block compressors.
\<close>

section \<open>A call\<close>

text \<open>A call with the context \<open>c\<close>, whose prefix reaches up to the source.\<close>

definition hc_args :: "int \<Rightarrow> int \<Rightarrow> int \<Rightarrow> int \<Rightarrow> limitedOutput_directive \<Rightarrow> LZ4HC_CCtx_internal \<Rightarrow> cargs" where
  "hc_args src dst n out dir c =
     \<lparr> c_cctx = 0, c_source = src, c_dest = dst, c_inputSize = n, c_maxOutputSize = out, c_outputDirective = dir,
       c_tableType = byU32, c_dictDirective = withPrefix64k, c_dictIssue = noDictIssue, c_acceleration = 1,
       c_startIndex = 0, c_dictCtx = 0, c_dictionary = 0, c_dictSize = src - h_prefixStart c, c_dictOffset = 0 \<rparr>"

lemma hc_args_simps [simp]:
  "c_source (hc_args src dst n out dir c) = src" "c_dest (hc_args src dst n out dir c) = dst"
  "c_inputSize (hc_args src dst n out dir c) = n" "c_maxOutputSize (hc_args src dst n out dir c) = out"
  "c_outputDirective (hc_args src dst n out dir c) = dir" "c_iend (hc_args src dst n out dir c) = src + n"
  "c_low (hc_args src dst n out dir c) = h_prefixStart c" "c_hist (hc_args src dst n out dir c) m = bytes m (h_prefixStart c) src"
  "view (hc_args src dst n out dir c) m = m"
  by (simp_all add: hc_args_def c_iend_def c_low_def c_hist_def view_def c_maybe_extMem_def)

text \<open>The context: its tables hold positions before the source, and \<open>n\<close> more bytes have indexes.\<close>

definition hc_before :: "LZ4HC_CCtx_internal \<Rightarrow> int \<Rightarrow> int \<Rightarrow> bool" where
  "hc_before c src n \<longleftrightarrow> h_prefixStart c \<le> src \<and> h_end c = src \<and> hc_ctx (h_prefixStart c) (src + n) c \<and>
     hc_entries (hc_index c src) c \<and> h_dictLimit c \<le> h_nextToUpdate c \<and> h_nextToUpdate c \<le> hc_index c src"

definition hc_buffers :: "mem \<Rightarrow> LZ4HC_CCtx_internal \<Rightarrow> int \<Rightarrow> int \<Rightarrow> int \<Rightarrow> int \<Rightarrow> limitedOutput_directive \<Rightarrow> int \<Rightarrow> bool" where
  "hc_buffers m c src dst n out dir cap \<longleftrightarrow> 0 \<le> n \<and> n \<le> LZ4_MAX_INPUT_SIZE \<and> 0 \<le> out \<and>
     mapped m (h_prefixStart c) (src + n) \<and> mapped m dst (dst + cap) \<and> (src + n \<le> dst \<or> dst + cap \<le> h_prefixStart c) \<and>
     (if dir = notLimited then LZ4_compressBound n \<le> cap else cap = out \<and> cap < 2147483648) \<and> (dir = fillOutput \<longrightarrow> 1 \<le> out)"

lemma hc_comp_ok:
  assumes "hc_before c src n" "hc_buffers m c src dst n out dir cap" "0 < n"
  shows "comp_ok (hc_args src dst n out dir c) m cap"
proof -
  let ?a = "hc_args src dst n out dir c"
  have "dir = notLimited \<Longrightarrow> n + n div 255 + 16 \<le> cap" using assms(2,3) compressBound_eq [of n] by (simp add: hc_buffers_def)
  moreover have "index_table (c_tableType ?a)" "c_dictDirective ?a = withPrefix64k" "c_acceleration ?a = 1" "c_startIndex ?a = 0"
    "c_dictIssue ?a = noDictIssue" "c_tableType ?a = byU32" "0 \<le> c_dictSize ?a"
    using assms(1) by (simp_all add: hc_args_def index_table_def hc_before_def)
  ultimately show ?thesis
    using assms by (auto simp: comp_ok_def hc_buffers_def split: if_splits)
qed

lemma hc_ctx_upto:
  assumes "hc_before c src n"
  shows "ctx_upto (hc_args src dst n out dir c) c src c"
  using assms by (intro ctx_upto_refl) (simp_all add: hc_before_def)

text \<open>The context after the call: the block is part of the prefix.\<close>

definition hc_after :: "LZ4HC_CCtx_internal \<Rightarrow> int \<Rightarrow> LZ4HC_CCtx_internal \<Rightarrow> bool" where
  "hc_after c e c' \<longleftrightarrow> h_prefixStart c' = h_prefixStart c \<and> h_dictLimit c' = h_dictLimit c \<and> h_lowLimit c' = h_lowLimit c \<and>
     h_dictStart c' = h_dictStart c \<and> h_dictCtx c' = h_dictCtx c \<and> h_compressionLevel c' = h_compressionLevel c \<and>
     h_favorDecSpeed c' = h_favorDecSpeed c \<and> hc_before c' e 0"

lemma hc_dirty [simp]:
  "hc_before (c\<lparr>h_dirty := x\<rparr>) src n = hc_before c src n" "hc_after c e (c'\<lparr>h_dirty := x\<rparr>) = hc_after c e c'"
proof -
  show b: "hc_before (c\<lparr>h_dirty := x\<rparr>) src n = hc_before c src n" for c src n
    by (simp add: hc_before_def hc_ctx_def hc_entries_def hc_index_def)
  show "hc_after c e (c'\<lparr>h_dirty := x\<rparr>) = hc_after c e c'" by (simp add: hc_after_def b)
qed

text \<open>An empty input is one token, if there is room for it.\<close>

definition empty_block :: "mem \<Rightarrow> int \<Rightarrow> mem" where
  "empty_block m dst = m(dst \<mapsto> 0)"

lemma empty_block_ok:
  assumes "mapped m dst (dst + cap)" "1 \<le> cap"
  shows "frame m (empty_block m dst) dst (dst + cap)" "store8 m dst 0 = Some (empty_block m dst)"
    "bytes (empty_block m dst) dst (dst + 1) = encode_block [] []"
proof -
  obtain b where b: "m dst = Some b" using mappedD [OF assms(1), of dst] assms(2) by auto
  show "frame m (empty_block m dst) dst (dst + cap)" unfolding empty_block_def using b assms(2) by (intro frame_upd) auto
  show "store8 m dst 0 = Some (empty_block m dst)" using b by (simp add: empty_block_def store8_Some)
  show "bytes (empty_block m dst) dst (dst + 1) = encode_block [] []"
    by (simp add: encode_block_def encode_last_def len_ext_def token_byte_def bytes_def empty_block_def)
qed

lemma hc_finish_empty:
  assumes s: "x_anchor s = src" "x_op s = dst" and m: "mapped (x_mem s) dst (dst + cap)" and out: "0 \<le> out"
    and cap: "if dir = notLimited then 1 \<le> cap else cap = out" and pos: "dir = fillOutput \<Longrightarrow> 1 \<le> out"
  shows "hc_finish dir src dst src (if dir = fillOutput then dst + out - LASTLITERALS else dst + out) 0 (Hc_last s) =
     Some (if dir = limitedOutput \<and> out < 1 then (0, 0, x_ctx s, x_mem s) else (1, 0, x_ctx s, empty_block (x_mem s) dst))"
proof -
  have oe: "(if dir = fillOutput then (if dir = fillOutput then dst + out - LASTLITERALS else dst + out) + LASTLITERALS
      else (if dir = fillOutput then dst + out - LASTLITERALS else dst + out)) = dst + out" by simp
  have z: "u64 (src - src) = 0" "u64 (0 + 255 - RUN_MASK) div 255 = 0" "u64 (1 + 0 + 0) = 1" by (simp_all add: u64_id)
  let ?full = "dir \<noteq> notLimited \<and> dst + 1 > dst + out"
  show ?thesis
  proof (cases "dir = limitedOutput \<and> out < 1")
    case True
    then have T: "(?full \<and> dir = limitedOutput) = True" by auto
    show ?thesis
      unfolding hc_finish_def hcexit.case hc_close_def hc_last_literals_def Let_def s z oe T if_True using True by simp
  next
    case False
    then have f: "?full = False" using pos by (cases dir) auto
    have "1 \<le> cap" using cap False pos by (cases dir) auto
    note e = empty_block_ok [OF m this]
    have G: "(dir = limitedOutput \<and> out < 1) = False" using False by blast
    have mv: "memmove x d t 0 = Some x" for x d t by (simp add: memmove_def)
    show ?thesis
      unfolding hc_finish_def hcexit.case hc_close_def hc_last_literals_def Let_def s z oe f G if_False simp_thms
      using e(2) by (simp add: put_run_length_def memcpy_def s32_id mv)
  qed
qed

section \<open>The contract of the three compressors\<close>

locale segment_strategy =
  fixes run :: "mem \<Rightarrow> LZ4HC_CCtx_internal \<Rightarrow> LZ4HC_CCtx_internal option \<Rightarrow> int \<Rightarrow> int \<Rightarrow> int \<Rightarrow> int \<Rightarrow> limitedOutput_directive \<Rightarrow>
    (int \<times> int \<times> LZ4HC_CCtx_internal \<times> mem) option"
  assumes compresses: "comp_ok a m cap \<Longrightarrow> ctx_upto a c (c_source a) c \<Longrightarrow> (c_outputDirective a = fillOutput \<Longrightarrow> 1 \<le> c_maxOutputSize a) \<Longrightarrow>
      0 \<le> c_maxOutputSize a \<Longrightarrow>
      \<exists>r consumed u c' m'. run m c D (c_source a) (c_dest a) (c_inputSize a) (c_maxOutputSize a) (c_outputDirective a) =
        Some (r, consumed, c', m') \<and> hc_result a m cap u r consumed m' \<and> ctx_upto a c (c_iend a) c'"
    and empty: "mapped m dst (dst + cap) \<Longrightarrow> 0 \<le> out \<Longrightarrow> (if dir = notLimited then 1 \<le> cap else cap = out) \<Longrightarrow>
      (dir = fillOutput \<Longrightarrow> 1 \<le> out) \<Longrightarrow>
      run m c D src dst 0 out dir = Some (if dir = limitedOutput \<and> out < 1 then (0, 0, c, m) else (1, 0, c, empty_block m dst))"
begin

lemma segment_empty:
  assumes "hc_before c src 0" "hc_buffers m c src dst 0 out dir cap"
  shows "\<exists>r consumed c' m'. run m c D src dst 0 out dir = Some (r, consumed, c', m') \<and>
     hc_result (hc_args src dst 0 out dir c) m cap 0 r consumed m' \<and> hc_after c src c'"
proof -
  let ?a = "hc_args src dst 0 out dir c"
  have m: "mapped m dst (dst + cap)" and out: "0 \<le> out" and cap: "if dir = notLimited then 1 \<le> cap else cap = out"
    and pos: "dir = fillOutput \<Longrightarrow> 1 \<le> out"
    using assms(2) compressBound_eq [of 0] by (auto simp: hc_buffers_def split: if_splits)
  have af: "hc_after c src c" using assms(1) by (simp add: hc_after_def)
  have e: "run m c D src dst 0 out dir = Some (if dir = limitedOutput \<and> out < 1 then (0, 0, c, m) else (1, 0, c, empty_block m dst))"
    by (rule empty [OF m out cap pos])
  show ?thesis
  proof (cases "dir = limitedOutput \<and> out < 1")
    case True
    then have "comp_result ?a m cap 0 None m" using cap by (auto simp: comp_result_def frame_refl tight_def)
    then have "hc_result ?a m cap 0 0 0 m" by (auto simp: hc_result_def intro!: exI [of _ None])
    then show ?thesis unfolding e if_P [OF True] using af by blast
  next
    case False
    then have c1: "1 \<le> cap" using cap pos by (cases dir) auto
    note eb = empty_block_ok [OF m c1]
    have "block_of ?a m 0 1 (empty_block m dst)"
      unfolding block_of_def using eb(3) by (intro exI [of _ "[]"]) (simp add: block_end_ok_def expand_def)
    then have "comp_result ?a m cap 1 (if dir = fillOutput then Some 0 else None) (empty_block m dst)"
      using eb(1) c1 by (auto simp: comp_result_def)
    then have "hc_result ?a m cap 0 1 0 (empty_block m dst)"
      unfolding hc_result_def by (intro exI [of _ "if dir = fillOutput then Some 0 else None"]) simp
    then show ?thesis unfolding e if_not_P [OF False] using af by blast
  qed
qed

lemma segment:
  assumes b: "hc_before c src n" and u: "hc_buffers m c src dst n out dir cap"
  shows "\<exists>r consumed u c' m'. run m (c\<lparr>h_end := src + n\<rparr>) D src dst n out dir = Some (r, consumed, c', m') \<and>
     hc_result (hc_args src dst n out dir c) m cap u r consumed m' \<and> hc_after c (src + n) c'"
proof (cases "n = 0")
  case True
  have c: "c\<lparr>h_end := src + 0\<rparr> = c" using b by (simp add: hc_before_def)
  have b': "hc_before c src 0" "hc_buffers m c src dst 0 out dir cap" using b u True by simp_all
  show ?thesis unfolding True c using segment_empty [OF b', of D] by auto
next
  case False
  let ?a = "hc_args src dst n out dir c" let ?c = "c\<lparr>h_end := src + n\<rparr>"
  have n: "0 < n" using False u by (simp add: hc_buffers_def)
  have "ctx_upto ?a ?c (c_source ?a) ?c" using b by (simp add: ctx_upto_def hc_before_def hc_ctx_def hc_entries_def hc_index_def)
  moreover have "c_outputDirective ?a = fillOutput \<Longrightarrow> 1 \<le> c_maxOutputSize ?a" "0 \<le> c_maxOutputSize ?a" using u by (simp_all add: hc_buffers_def)
  ultimately obtain r consumed u c' m' where r: "run m ?c D src dst n out dir = Some (r, consumed, c', m')"
    "hc_result ?a m cap u r consumed m'" "ctx_upto ?a ?c (src + n) c'"
    using compresses [OF hc_comp_ok [OF b u n], of ?c D] by auto
  have same: "hc_same ?c c'" using ctx_uptoD(7) [OF r(3)] .
  have "hc_after c (src + n) c'"
    using r(3) hc_sameD [OF same] b n by (simp add: hc_after_def hc_before_def ctx_upto_def)
  then show ?thesis using r(1,2) by blast
qed

end

interpretation hashChain: segment_strategy
  "\<lambda>m c D src dst n out dir. LZ4HC_compress_hashChain m c D src dst n out attempts dir noDictCtx" for attempts
proof unfold_locales
  fix a :: cargs and m cap c D
  assume "comp_ok a m cap" "ctx_upto a c (c_source a) c" "c_outputDirective a = fillOutput \<Longrightarrow> 1 \<le> c_maxOutputSize a"
  from LZ4HC_compress_hashChain_ok [OF this, of D attempts] show "\<exists>r consumed u c' m'.
      LZ4HC_compress_hashChain m c D (c_source a) (c_dest a) (c_inputSize a) (c_maxOutputSize a) attempts (c_outputDirective a) noDictCtx =
        Some (r, consumed, c', m') \<and> hc_result a m cap u r consumed m' \<and> ctx_upto a c (c_iend a) c'" by blast
next
  fix m :: mem and dst cap out :: int and dir c D src
  assume "mapped m dst (dst + cap)" "0 \<le> out" "if dir = notLimited then 1 \<le> cap else cap = out" "dir = fillOutput \<Longrightarrow> 1 \<le> out"
  with hc_finish_empty [of "core (chain_init m c src dst)" src dst cap out dir]
  show "LZ4HC_compress_hashChain m c D src dst 0 out attempts dir noDictCtx =
      Some (if dir = limitedOutput \<and> out < 1 then (0, 0, c, m) else (1, 0, c, empty_block m dst))"
    by (simp add: LZ4HC_compress_hashChain_def Let_def chain_init_def)
qed

interpretation mid: segment_strategy
  "\<lambda>m c D src dst n out dir. LZ4MID_compress m c D src dst n out dir noDictCtx"
proof unfold_locales
  fix a :: cargs and m cap c D
  assume "comp_ok a m cap" "ctx_upto a c (c_source a) c" "c_outputDirective a = fillOutput \<Longrightarrow> 1 \<le> c_maxOutputSize a"
    "0 \<le> c_maxOutputSize a"
  from LZ4MID_compress_ok [OF this, of D] show "\<exists>r consumed u c' m'.
      LZ4MID_compress m c D (c_source a) (c_dest a) (c_inputSize a) (c_maxOutputSize a) (c_outputDirective a) noDictCtx =
        Some (r, consumed, c', m') \<and> hc_result a m cap u r consumed m' \<and> ctx_upto a c (c_iend a) c'" by blast
next
  fix m :: mem and dst cap out :: int and dir c D src
  assume "mapped m dst (dst + cap)" "0 \<le> out" "if dir = notLimited then 1 \<le> cap else cap = out" "dir = fillOutput \<Longrightarrow> 1 \<le> out"
  with hc_finish_empty [of "\<lparr>x_ip = src, x_anchor = src, x_op = dst, x_ctx = c, x_mem = m\<rparr>" src dst cap out dir]
  show "LZ4MID_compress m c D src dst 0 out dir noDictCtx =
      Some (if dir = limitedOutput \<and> out < 1 then (0, 0, c, m) else (1, 0, c, empty_block m dst))"
    by (simp add: LZ4MID_compress_def mid_finish_def Let_def)
qed

interpretation optimal: segment_strategy
  "\<lambda>m c D src dst n out dir. LZ4HC_compress_optimal True m c D src dst n out nbSearch suff dir full noDictCtx favor" for nbSearch suff full favor
proof unfold_locales
  fix a :: cargs and m cap c D
  assume "comp_ok a m cap" "ctx_upto a c (c_source a) c" "c_outputDirective a = fillOutput \<Longrightarrow> 1 \<le> c_maxOutputSize a"
  from LZ4HC_compress_optimal_ok [OF this, of D nbSearch suff full favor] show "\<exists>r consumed u c' m'.
      LZ4HC_compress_optimal True m c D (c_source a) (c_dest a) (c_inputSize a) (c_maxOutputSize a) nbSearch suff (c_outputDirective a)
        full noDictCtx favor = Some (r, consumed, c', m') \<and> hc_result a m cap u r consumed m' \<and> ctx_upto a c (c_iend a) c'" by blast
next
  fix m :: mem and dst cap out :: int and dir c D src
  assume "mapped m dst (dst + cap)" "0 \<le> out" "if dir = notLimited then 1 \<le> cap else cap = out" "dir = fillOutput \<Longrightarrow> 1 \<le> out"
  with hc_finish_empty [of "\<lparr>x_ip = src, x_anchor = src, x_op = dst, x_ctx = c, x_mem = m\<rparr>" src dst cap out dir]
  show "LZ4HC_compress_optimal True m c D src dst 0 out nbSearch suff dir full noDictCtx favor =
      Some (if dir = limitedOutput \<and> out < 1 then (0, 0, c, m) else (1, 0, c, empty_block m dst))"
    by (simp add: LZ4HC_compress_optimal_def opt_finish_def Let_def cloop_Inr opt_body_def p_mflimit_def)
qed

section \<open>The choice by level\<close>

lemma getCLevelParams_range:
  "LZ4HC_getCLevelParams l = k_clTable ! nat (min 12 (if l < 1 then 9 else l))"
  by (simp add: LZ4HC_getCLevelParams_def Let_def min_def)

lemma internal_segment:
  assumes c: "S ctx = Some c" "hc_before c src n" and u: "hc_buffers m c src dst n out dir cap"
  shows "\<exists>r consumed u c' m'. LZ4HC_compress_generic_internal True m S ctx src dst n out level dir noDictCtx =
       Some (r, consumed, m', S(ctx \<mapsto> c')) \<and> hc_result (hc_args src dst n out dir c) m cap u r consumed m' \<and>
     hc_after c (src + n) c' \<and> (r = 0 \<longrightarrow> h_dirty c' \<noteq> 0)"
proof -
  let ?c = "c\<lparr>h_end := src + n\<rparr>" let ?p = "LZ4HC_getCLevelParams level" let ?D = "hc_attached S ctx c"
  let ?run = "case strat ?p of
             lz4mid \<Rightarrow> LZ4MID_compress m ?c ?D src dst n out dir noDictCtx
           | lz4hc \<Rightarrow> LZ4HC_compress_hashChain m ?c ?D src dst n out (nbSearches ?p) dir noDictCtx
           | lz4opt \<Rightarrow> LZ4HC_compress_optimal True m ?c ?D src dst n out (nbSearches ?p) (targetLength ?p)
               dir (level \<ge> LZ4HC_CLEVEL_MAX) noDictCtx (if h_favorDecSpeed c \<noteq> 0 then favorDecompressionSpeed else favorCompressionRatio)"
  have "\<exists>r consumed u c' m'. ?run = Some (r, consumed, c', m') \<and> hc_result (hc_args src dst n out dir c) m cap u r consumed m' \<and>
      hc_after c (src + n) c'"
    using hashChain.segment [OF c(2) u, of ?D "nbSearches ?p"] mid.segment [OF c(2) u, of ?D]
      optimal.segment [OF c(2) u, of ?D "nbSearches ?p" "targetLength ?p" "level \<ge> LZ4HC_CLEVEL_MAX"
        "if h_favorDecSpeed c \<noteq> 0 then favorDecompressionSpeed else favorCompressionRatio"]
    by (cases "strat ?p") simp_all
  then obtain r consumed w c' m' where r: "?run = Some (r, consumed, c', m')" "hc_result (hc_args src dst n out dir c) m cap w r consumed m'"
    "hc_after c (src + n) c'" by blast
  have legal: "(dir = fillOutput \<and> out < 1) = False" "(u32 n > u32 LZ4_MAX_INPUT_SIZE) = False"
    using u by (auto simp: hc_buffers_def u32_id)
  have e: "h_end c + n = src + n" "h_favorDecSpeed ?c = h_favorDecSpeed c" using c(2) by (simp_all add: hc_before_def)
  let ?c' = "if r \<le> 0 then c'\<lparr>h_dirty := 1\<rparr> else c'"
  have "LZ4HC_compress_generic_internal True m S ctx src dst n out level dir noDictCtx = Some (r, consumed, m', S(ctx \<mapsto> ?c'))"
    unfolding LZ4HC_compress_generic_internal_def legal if_False c(1) Option.bind.bind_lunit Let_def e r(1) prod.case ..
  moreover have "hc_after c (src + n) ?c'"
    using r(3) by simp
  moreover have "r = 0 \<longrightarrow> h_dirty ?c' \<noteq> 0" by simp
  ultimately show ?thesis using r(2) by blast
qed

lemma generic_segment_hc:
  assumes c: "S ctx = Some c" "hc_before c src n" "h_dictCtx c = 0" and u: "hc_buffers m c src dst n out dir cap"
  shows "\<exists>r consumed u c' m'. LZ4HC_compress_generic True m S ctx src dst n out level dir = Some (r, consumed, m', S(ctx \<mapsto> c')) \<and>
     hc_result (hc_args src dst n out dir c) m cap u r consumed m' \<and> hc_after c (src + n) c' \<and> (r = 0 \<longrightarrow> h_dirty c' \<noteq> 0)"
  using internal_segment [where S = S and ctx = ctx, OF c(1,2) u, of level] c(1,3)
  by (simp add: LZ4HC_compress_generic_def LZ4HC_compress_generic_noDictCtx_def)

text \<open>The result in the terms of the format.\<close>

lemma hc_result_plain:
  assumes r: "hc_result (hc_args src dst n out dir c) m cap u r consumed m'" and c: "h_prefixStart c = src"
    and b: "0 \<le> n" "n \<le> LZ4_MAX_INPUT_SIZE" and cap: "0 \<le> cap" and dir: "dir = (if cap < LZ4_compressBound n then limitedOutput else notLimited)"
  shows "compressed_as m src n dst cap r m'"
proof -
  let ?a = "hc_args src dst n out dir c"
  have blk: "block_for [] (bytes m src (src + k)) (bytes m' dst (dst + r))" if "block_of ?a m k r m'" for k
    using that c unfolding block_of_def block_for_def by simp
  note bd = compressBound_eq [OF b]
  obtain k where k: "comp_result ?a m cap r k m'" using r by (auto simp: hc_result_def)
  show ?thesis using k dir blk b cap unfolding comp_result_def compressed_as_def bd by (auto simp: tight_def bd split: if_splits)
qed

section \<open>The context between calls\<close>

text \<open>A context that is not marked dirty has tables whose entries are positions that were indexed.\<close>

definition hc_idle :: "LZ4HC_CCtx_internal \<Rightarrow> bool" where
  "hc_idle c \<longleftrightarrow> h_dirty c \<noteq> 0 \<or>
     0 \<le> h_dictLimit c \<and> h_prefixStart c \<le> h_end c \<and> h_dictLimit c + (h_end c - h_prefixStart c) < 4294967296 \<and>
     hc_entries (h_dictLimit c + (h_end c - h_prefixStart c) + 1) c"

definition hc_ready :: "int \<Rightarrow> hcstreams \<Rightarrow> bool" where
  "hc_ready state S \<longleftrightarrow> state \<noteq> 0 \<and> LZ4_isAligned state LZ4_streamHC_t_alignment \<and> (\<exists>c. S state = Some c \<and> hc_idle c)"

lemma zero_idle: "hc_idle zero_streamHC"
  by (simp add: hc_idle_def zero_streamHC_def hc_entries_def)

lemma after_idle:
  assumes "hc_after c e c'" "hc_before c src n"
  shows "hc_idle c'"
  using assms by (auto simp: hc_idle_def hc_after_def hc_before_def hc_ctx_def hc_index_def elim: hc_entries_mono)

text \<open>\<open>LZ4HC_init_internal\<close> makes room below the new prefix, and starts over before the indexes run out.\<close>

lemma init_before:
  assumes p: "h_prefixStart c = 0" "h_end c = 0" and l: "0 \<le> h_dictLimit c" "h_dictLimit c < 4294967296" and e: "hc_entries (h_dictLimit c + 1) c"
    and n: "0 \<le> n" "n \<le> LZ4_MAX_INPUT_SIZE"
  shows "hc_before (LZ4HC_init_internal c src) src n" "h_prefixStart (LZ4HC_init_internal c src) = src"
    "h_dictCtx (LZ4HC_init_internal c src) = h_dictCtx c"
proof -
  have u: "u64 (h_end c - h_prefixStart c) = 0" "u64 (0 + h_dictLimit c) = h_dictLimit c" using p l by (simp_all add: u64_id)
  define c1 where "c1 = (if h_dictLimit c > 1 * GB then LZ4HC_clearTables c else c)"
  define b where "b = (if h_dictLimit c > 1 * GB then 0 else h_dictLimit c)"
  have b: "0 \<le> b" "b \<le> 1073741824" using l by (simp_all add: b_def)
  have w: "u64 (b + 64 * KB) = b + 65536" "u32 (b + 65536) = b + 65536" using b by (simp_all add: u64_id u32_id)
  have "hc_entries 65536 (LZ4HC_clearTables c)" by (simp add: LZ4HC_clearTables_def hc_entries_def)
  then have en: "hc_entries (b + 65536) c1" using hc_entries_mono [OF e, of "h_dictLimit c + 65536"] by (simp add: c1_def b_def)
  have same: "h_dictCtx c1 = h_dictCtx c" by (simp add: c1_def LZ4HC_clearTables_def)
  have un: "LZ4HC_init_internal c src = c1\<lparr>h_nextToUpdate := b + 65536, h_prefixStart := src, h_end := src, h_dictStart := src,
           h_dictLimit := b + 65536, h_lowLimit := b + 65536\<rparr>"
  proof (cases "h_dictLimit c > 1 * GB")
    case True
    then show ?thesis using w unfolding LZ4HC_init_internal_def Let_def u c1_def b_def if_P [OF True] prod.case by simp
  next
    case False
    then show ?thesis using w unfolding LZ4HC_init_internal_def Let_def u c1_def b_def if_not_P [OF False] prod.case by simp
  qed
  show "hc_before (LZ4HC_init_internal c src) src n"
    unfolding un using b n en by (simp add: hc_before_def hc_ctx_def hc_index_def hc_entries_def)
  show "h_prefixStart (LZ4HC_init_internal c src) = src" "h_dictCtx (LZ4HC_init_internal c src) = h_dictCtx c"
    unfolding un by (simp_all add: same)
qed

section \<open>The entry points fulfil the contract of the block compressors\<close>

lemma initStreamHC_ok:
  "p \<noteq> 0 \<Longrightarrow> LZ4_isAligned p LZ4_streamHC_t_alignment \<Longrightarrow> S p = Some c \<Longrightarrow>
   LZ4_initStreamHC S p sizeof_streamHC = Some (p, S(p \<mapsto> LZ4_setCompressionLevel zero_streamHC LZ4HC_CLEVEL_DEFAULT))"
  by (simp add: LZ4_initStreamHC_def)

text \<open>No memory at all, or memory that is not aligned, is refused and left alone.\<close>

lemma initStreamHC_refused:
  "p = 0 \<or> \<not> LZ4_isAligned p LZ4_streamHC_t_alignment \<Longrightarrow> LZ4_initStreamHC S p sizeof_streamHC = Some (0, S)"
  by (auto simp: LZ4_initStreamHC_def)

lemma setLevel_simps [simp]:
  "h_prefixStart (LZ4_setCompressionLevel c l) = h_prefixStart c" "h_end (LZ4_setCompressionLevel c l) = h_end c"
  "h_dictLimit (LZ4_setCompressionLevel c l) = h_dictLimit c" "h_dictCtx (LZ4_setCompressionLevel c l) = h_dictCtx c"
  "h_dirty (LZ4_setCompressionLevel c l) = h_dirty c" "hc_entries k (LZ4_setCompressionLevel c l) = hc_entries k c"
  "hc_before (LZ4_setCompressionLevel c l) src n = hc_before c src n"
  by (simp_all add: LZ4_setCompressionLevel_def Let_def hc_entries_def hc_before_def hc_ctx_def hc_index_def)

lemma reset_fast_ok:
  assumes "hc_ready p S"
  shows "\<exists>c. LZ4_resetStreamHC_fast S p level = Some (S(p \<mapsto> c)) \<and> h_prefixStart c = 0 \<and> h_end c = 0 \<and> h_dictCtx c = 0 \<and>
     0 \<le> h_dictLimit c \<and> h_dictLimit c < 4294967296 \<and> hc_entries (h_dictLimit c + 1) c"
proof -
  obtain c where c: "p \<noteq> 0" "S p = Some c" "hc_idle c" and al: "LZ4_isAligned p LZ4_streamHC_t_alignment"
    using assms by (auto simp: hc_ready_def)
  show ?thesis
  proof (cases "h_dirty c \<noteq> 0")
    case True
    let ?z = "LZ4_setCompressionLevel (LZ4_setCompressionLevel zero_streamHC LZ4HC_CLEVEL_DEFAULT) level"
    have "hc_entries 1 zero_streamHC" by (simp add: hc_entries_def zero_streamHC_def)
    then have "hc_entries (h_dictLimit ?z + 1) ?z" by (simp add: zero_streamHC_def)
    moreover have "LZ4_resetStreamHC_fast S p level = Some (S(p \<mapsto> ?z))"
      unfolding LZ4_resetStreamHC_fast_def c(2) initStreamHC_ok [where S = S and p = p, OF c(1) al c(2)] if_P [OF True] Option.bind.bind_lunit option.map snd_conv by simp
    ultimately show ?thesis by (intro exI [of _ ?z]) (simp add: zero_streamHC_def)
  next
    case False
    let ?l = "h_dictLimit c + (h_end c - h_prefixStart c)"
    have i: "0 \<le> h_dictLimit c" "h_prefixStart c \<le> h_end c" "?l < 4294967296" "hc_entries (?l + 1) c"
      using c(3) False by (simp_all add: hc_idle_def)
    have w: "u32 (h_dictLimit c + u32 (h_end c - h_prefixStart c)) = ?l" using i by (simp add: u32_id)
    let ?z = "LZ4_setCompressionLevel (c\<lparr>h_dictLimit := ?l, h_prefixStart := 0, h_end := 0, h_dictCtx := 0\<rparr>) level"
    have "hc_entries (?l + 1) (c\<lparr>h_dictLimit := ?l, h_prefixStart := 0, h_end := 0, h_dictCtx := 0\<rparr>)"
      using i(4) by (simp add: hc_entries_def)
    then have "hc_entries (h_dictLimit ?z + 1) ?z" by simp
    moreover have "LZ4_resetStreamHC_fast S p level = Some (S(p \<mapsto> ?z))"
      unfolding LZ4_resetStreamHC_fast_def c(2) if_not_P [OF False] Option.bind.bind_lunit w by simp
    ultimately show ?thesis using i by (intro exI [of _ ?z]) simp
  qed
qed

lemma fastReset_hc_call:
  assumes r: "hc_ready state S" and b: "comp_buffers m src n dst cap"
  shows "\<exists>r m' c'. LZ4_compress_HC_extStateHC_fastReset True m S state src dst n cap level = Some (r, m', S(state \<mapsto> c')) \<and>
     compressed_as m src n dst cap r m' \<and> hc_idle c'"
proof -
  from reset_fast_ok [OF r] obtain c where c: "LZ4_resetStreamHC_fast S state level = Some (S(state \<mapsto> c))" "h_prefixStart c = 0" "h_end c = 0"
    "h_dictCtx c = 0" "0 \<le> h_dictLimit c" "h_dictLimit c < 4294967296" "hc_entries (h_dictLimit c + 1) c" by blast
  let ?c = "LZ4HC_init_internal c src"
  define dir where "dir = (if cap < LZ4_compressBound n then limitedOutput else notLimited)"
  have un: "LZ4_compress_HC_extStateHC_fastReset True m S state src dst n cap level =
      (do { (r, _, m, S) \<leftarrow> LZ4HC_compress_generic True m (S(state \<mapsto> ?c)) state src dst n cap level dir; Some (r, m, S) })"
    unfolding LZ4_compress_HC_extStateHC_fastReset_def c(1) Let_def dir_def using r by (simp add: hc_ready_def)
  have at: "(S(state \<mapsto> ?c)) state = Some ?c" by simp
  show ?thesis
  proof (cases "0 \<le> n \<and> n \<le> LZ4_MAX_INPUT_SIZE")
    case True
    then have n: "0 \<le> n" "n \<le> LZ4_MAX_INPUT_SIZE" by simp_all
    note i = init_before [OF c(2,3,5-7) n, of src]
    have cap: "0 \<le> cap" using b by (simp add: comp_buffers_def)
    have u: "hc_buffers m ?c src dst n cap dir cap" using b n i(2) by (auto simp: hc_buffers_def comp_buffers_def dir_def)
    have dc: "h_dictCtx ?c = 0" using i(3) c(4) by simp
    from generic_segment_hc [where S = "S(state \<mapsto> ?c)" and ctx = state, OF at i(1) dc u, of level] obtain r consumed w c' m' where
      g: "LZ4HC_compress_generic True m (S(state \<mapsto> ?c)) state src dst n cap level dir = Some (r, consumed, m', S(state \<mapsto> ?c, state \<mapsto> c'))"
      "hc_result (hc_args src dst n cap dir ?c) m cap w r consumed m'" "hc_after ?c (src + n) c'" by blast
    have "compressed_as m src n dst cap r m'" by (rule hc_result_plain [OF g(2) i(2) n cap]) (simp add: dir_def)
    moreover have "hc_idle c'" by (rule after_idle [OF g(3) i(1)])
    ultimately show ?thesis unfolding un g(1) by auto
  next
    case False
    have ill: "u32 n > u32 LZ4_MAX_INPUT_SIZE" "compressed_as m src n dst cap 0 m" "LZ4_compressBound n = 0"
      using compressBound_illegal [of n] illegal_call(2) [OF b False] b False by (auto simp: comp_buffers_def)
    have dn: "dir = notLimited" using ill(3) b by (simp add: dir_def comp_buffers_def)
    note i = init_before [OF c(2,3,5-7), of 0 src]
    have dc: "h_dictCtx ?c = 0" using i(3) c(4) by simp
    have "LZ4HC_compress_generic True m (S(state \<mapsto> ?c)) state src dst n cap level dir = Some (0, n, m, S(state \<mapsto> ?c))"
      unfolding LZ4HC_compress_generic_def LZ4HC_compress_generic_noDictCtx_def LZ4HC_compress_generic_internal_def dn
      using ill(1) dc by simp
    moreover have "hc_idle ?c" by (rule after_idle [of ?c src ?c src 0]) (use i(1) in \<open>simp_all add: hc_after_def\<close>)
    ultimately show ?thesis unfolding un using ill(2) by auto
  qed
qed

lemma hc_ready_put: "hc_ready state S \<Longrightarrow> hc_idle c' \<Longrightarrow> hc_ready state (S(state \<mapsto> c'))"
  by (simp add: hc_ready_def)

interpretation hcFastReset: block_compressor
  "\<lambda>s d n cap m S. LZ4_compress_HC_extStateHC_fastReset True m S state s d n cap level" "hc_ready state" for state level
  using fastReset_hc_call hc_ready_put by unfold_locales blast

text \<open>The functions that initialise the state need only aligned memory of the right size.\<close>

definition hc_state_ready :: "int \<Rightarrow> hcstreams \<Rightarrow> bool" where
  "hc_state_ready state S \<longleftrightarrow> state \<noteq> 0 \<and> LZ4_isAligned state LZ4_streamHC_t_alignment \<and> S state \<noteq> None"

lemma initStreamHC_ready:
  assumes "hc_state_ready state S"
  shows "\<exists>c. LZ4_initStreamHC S state sizeof_streamHC = Some (state, S(state \<mapsto> c)) \<and> hc_ready state (S(state \<mapsto> c)) \<and>
     h_prefixStart c = 0 \<and> h_end c = 0 \<and> h_dictCtx c = 0 \<and> h_dictLimit c = 0 \<and> hc_entries 1 c"
proof -
  obtain c where c: "state \<noteq> 0" "LZ4_isAligned state LZ4_streamHC_t_alignment" "S state = Some c"
    using assms by (auto simp: hc_state_ready_def)
  let ?z = "LZ4_setCompressionLevel zero_streamHC LZ4HC_CLEVEL_DEFAULT"
  have "hc_entries 1 zero_streamHC" by (simp add: hc_entries_def zero_streamHC_def)
  then have "hc_idle ?z" by (simp add: hc_idle_def zero_streamHC_def)
  then show ?thesis using initStreamHC_ok [where S = S and p = state, OF c] c(1,2) \<open>hc_entries 1 zero_streamHC\<close>
    by (intro exI [of _ ?z]) (simp add: hc_ready_def zero_streamHC_def)
qed

lemma extStateHC_call:
  assumes r: "hc_state_ready state S" and b: "comp_buffers m src n dst cap"
  shows "\<exists>r m' c'. LZ4_compress_HC_extStateHC True m S state src dst n cap level = Some (r, m', S(state \<mapsto> c')) \<and>
     compressed_as m src n dst cap r m' \<and> hc_idle c'"
proof -
  obtain c where c: "LZ4_initStreamHC S state sizeof_streamHC = Some (state, S(state \<mapsto> c))" "hc_ready state (S(state \<mapsto> c))"
    using initStreamHC_ready [OF r] by blast
  have "state \<noteq> 0" using r by (simp add: hc_state_ready_def)
  then have "LZ4_compress_HC_extStateHC True m S state src dst n cap level =
      LZ4_compress_HC_extStateHC_fastReset True m (S(state \<mapsto> c)) state src dst n cap level"
    unfolding LZ4_compress_HC_extStateHC_def c(1) by simp
  then show ?thesis using fastReset_hc_call [OF c(2) b, of level] by auto
qed

lemma extStateHC_keeps:
  assumes "hc_state_ready state S" "comp_buffers m src n dst cap"
  shows "\<exists>r m' S'. LZ4_compress_HC_extStateHC True m S state src dst n cap level = Some (r, m', S') \<and>
     compressed_as m src n dst cap r m' \<and> hc_state_ready state S'"
proof -
  obtain r m' c' where "LZ4_compress_HC_extStateHC True m S state src dst n cap level = Some (r, m', S(state \<mapsto> c'))"
    "compressed_as m src n dst cap r m'" using extStateHC_call [OF assms, of level] by blast
  moreover have "hc_state_ready state (S(state \<mapsto> c'))" using assms(1) by (simp add: hc_state_ready_def)
  ultimately show ?thesis by blast
qed

lemma extStateHC_refused:
  assumes "state = 0 \<or> \<not> LZ4_isAligned state LZ4_streamHC_t_alignment"
  shows "LZ4_compress_HC_extStateHC A m S state src dst n cap level = Some (0, m, S)"
  unfolding LZ4_compress_HC_extStateHC_def initStreamHC_refused [OF assms] by simp

interpretation hcExtState: block_compressor
  "\<lambda>s d n cap m S. LZ4_compress_HC_extStateHC True m S state s d n cap level" "hc_state_ready state" for state level
  by unfold_locales (rule extStateHC_keeps)

interpretation hc: block_compressor
  "\<lambda>s d n cap m S. LZ4_compress_HC True m S s d n cap level wrkmem" "hc_state_ready wrkmem" for level wrkmem
  unfolding LZ4_compress_HC_def by unfold_locales (rule extStateHC_keeps)

section \<open>Filling the output\<close>

lemma hc_destSize_call:
  assumes r: "hc_state_ready state S" and b: "comp_buffers m src n dst cap" and n: "0 \<le> n" "n \<le> LZ4_MAX_INPUT_SIZE" and cap: "1 \<le> cap"
  shows "\<exists>x k m' S'. LZ4_compress_HC_destSize True m S state src dst n cap level = Some (x, k, m', S') \<and>
     filled_as m src dst cap x (Some k) m' \<and> 0 < x \<and> k \<le> n \<and> hc_state_ready state S'"
proof -
  obtain c where c: "LZ4_initStreamHC S state sizeof_streamHC = Some (state, S(state \<mapsto> c))" "h_prefixStart c = 0" "h_end c = 0"
    "h_dictCtx c = 0" "h_dictLimit c = 0" "hc_entries 1 c" using initStreamHC_ready [OF r] by blast
  have st: "state \<noteq> 0" "LZ4_isAligned state LZ4_streamHC_t_alignment" using r by (simp_all add: hc_state_ready_def)
  let ?c = "LZ4_setCompressionLevel (LZ4HC_init_internal c src) level"
  have z: "0 \<le> h_dictLimit c" "h_dictLimit c < 4294967296" "hc_entries (h_dictLimit c + 1) c" using c(5,6) by simp_all
  note i = init_before [OF c(2,3) z n, of src]
  have bf: "hc_before ?c src n" and dc: "h_dictCtx ?c = 0" and pre: "h_prefixStart ?c = src" using i c(4) by simp_all
  have u: "hc_buffers m ?c src dst n cap fillOutput cap" using b n pre cap by (auto simp: hc_buffers_def comp_buffers_def)
  have un: "LZ4_compress_HC_destSize True m S state src dst n cap level =
      LZ4HC_compress_generic True m (S(state \<mapsto> ?c)) state src dst n cap level fillOutput"
    unfolding LZ4_compress_HC_destSize_def c(1) using st by simp
  have at: "(S(state \<mapsto> ?c)) state = Some ?c" by simp
  from generic_segment_hc [where S = "S(state \<mapsto> ?c)" and ctx = state, OF at bf dc u, of level] obtain x k w c' m' where
    g: "LZ4HC_compress_generic True m (S(state \<mapsto> ?c)) state src dst n cap level fillOutput = Some (x, k, m', S(state \<mapsto> ?c, state \<mapsto> c'))"
    "hc_result (hc_args src dst n cap fillOutput ?c) m cap w x k m'" by blast
  let ?a = "hc_args src dst n cap fillOutput ?c"
  have blk: "block_for [] (bytes m src (src + j)) (bytes m' dst (dst + x))" if "block_of ?a m j x m'" for j
    using that pre unfolding block_of_def block_for_def by simp
  obtain o' where o': "comp_result ?a m cap x o' m'" "k = (case o' of Some n \<Rightarrow> n | None \<Rightarrow> if x = 0 then w else n)"
    using g(2) unfolding hc_result_def hc_args_simps by blast
  have res: "frame m m' dst (dst + cap)" "0 < x" "x \<le> cap" "0 \<le> k" "k \<le> n" "block_of ?a m k x m'"
    using o' cap unfolding comp_result_def by auto
  have "filled_as m src dst cap x (Some k) m'" using res blk [OF res(6)] by (simp add: filled_as_def)
  moreover have "hc_state_ready state (S(state \<mapsto> ?c, state \<mapsto> c'))" using st by (simp add: hc_state_ready_def)
  ultimately show ?thesis unfolding un g(1) using res(2,5) by blast
qed

section \<open>Streaming\<close>

text \<open>
  A stream between contiguous blocks: the prefix reaches up to \<open>h_end\<close>, there is no external dictionary
  and none is attached.
\<close>

definition hc_linked :: "LZ4HC_CCtx_internal \<Rightarrow> bool" where
  "hc_linked c \<longleftrightarrow> h_prefixStart c \<noteq> 0 \<and> h_dictCtx c = 0 \<and> h_dictStart c = h_prefixStart c \<and> hc_before c (h_end c) 0"

lemma hc_continue_block:
  assumes s: "S p = Some c" "hc_linked c" and n: "0 \<le> n" "n \<le> LZ4_MAX_INPUT_SIZE"
    and room: "h_dictLimit c + (h_end c - h_prefixStart c) \<le> 2147483648"
    and m: "mapped m (h_prefixStart c) (h_end c + n)" "mapped m dst (dst + cap)" "0 \<le> cap" "cap < 2147483648"
      "h_end c + n \<le> dst \<or> dst + cap \<le> h_prefixStart c"
  shows "\<exists>r m' c'. LZ4_compress_HC_continue True m S p (h_end c) dst n cap = Some (r, m', S(p \<mapsto> c')) \<and>
     frame m m' dst (dst + cap) \<and> 0 \<le> r \<and> r \<le> cap \<and> (LZ4_compressBound n \<le> cap \<longrightarrow> 0 < r) \<and>
     (0 < r \<longrightarrow> block_for (bytes m (h_prefixStart c) (h_end c)) (bytes m (h_end c) (h_end c + n)) (bytes m' dst (dst + r))) \<and>
     hc_linked c' \<and> h_prefixStart c' = h_prefixStart c \<and> h_end c' = h_end c + n"
proof -
  let ?src = "h_end c"
  have d: "h_prefixStart c \<noteq> 0" "h_dictCtx c = 0" "h_dictStart c = h_prefixStart c" "h_lowLimit c = h_dictLimit c" "h_prefixStart c \<le> ?src"
    "hc_entries (hc_index c ?src) c" "h_dictLimit c \<le> h_nextToUpdate c" "h_nextToUpdate c \<le> hc_index c ?src"
    "65536 \<le> h_dictLimit c"
    using s(2) by (simp_all add: hc_linked_def hc_before_def hc_ctx_def)
  have bf: "hc_before c ?src n" using d room n by (simp add: hc_before_def hc_ctx_def)
  define dir where "dir = (if cap < LZ4_compressBound n then limitedOutput else notLimited)"
  have u: "hc_buffers m c ?src dst n cap dir cap" using n m by (auto simp: hc_buffers_def dir_def)
  have sz: "u64 (?src - h_prefixStart c) = ?src - h_prefixStart c" "u64 (?src - h_prefixStart c + h_dictLimit c) = ?src - h_prefixStart c + h_dictLimit c"
    using room d by (auto intro!: u64_id)
  have F1: "(h_prefixStart c = 0) = False" "(?src - h_prefixStart c + h_dictLimit c > 2 * GB) = False" "(?src \<noteq> ?src) = False"
    using d room by simp_all
  have drop: "hc_drop_overlap c ?src n = c" using d by (simp add: hc_drop_overlap_def u32_def)
  have S: "S(p \<mapsto> c) = S" using s(1) by auto
  have un: "LZ4_compressHC_continue_generic True m S p ?src dst n cap dir = LZ4HC_compress_generic True m S p ?src dst n cap (h_compressionLevel c) dir"
    unfolding LZ4_compressHC_continue_generic_def s(1) Option.bind.bind_lunit Let_def F1(1) if_False sz F1(2,3) S drop ..
  from generic_segment_hc [where S = S and ctx = p, OF s(1) bf d(2) u, of "h_compressionLevel c"] obtain r consumed w c' m' where
    g: "LZ4HC_compress_generic True m S p ?src dst n cap (h_compressionLevel c) dir = Some (r, consumed, m', S(p \<mapsto> c'))"
    "hc_result (hc_args ?src dst n cap dir c) m cap w r consumed m'" "hc_after c (?src + n) c'" by blast
  let ?a = "hc_args ?src dst n cap dir c"
  have call: "LZ4_compress_HC_continue True m S p ?src dst n cap = Some (r, m', S(p \<mapsto> c'))"
    unfolding LZ4_compress_HC_continue_def dir_def [symmetric] un g(1) by simp
  have blk: "block_for (bytes m (h_prefixStart c) ?src) (bytes m ?src (?src + k)) (bytes m' dst (dst + r))" if "block_of ?a m k r m'" for k
    using that unfolding block_of_def block_for_def by simp
  note bd = compressBound_eq [OF n]
  obtain k where k: "comp_result ?a m cap r k m'" using g(2) by (auto simp: hc_result_def)
  have res: "frame m m' dst (dst + cap)" "0 \<le> r" "r \<le> cap" "LZ4_compressBound n \<le> cap \<longrightarrow> 0 < r" "0 < r \<longrightarrow> block_of ?a m n r m'"
    using k m(3) unfolding comp_result_def by (auto simp: tight_def bd dir_def split: if_splits)
  have "h_end c' = ?src + n" using g(3) by (simp add: hc_after_def hc_before_def)
  moreover have "hc_linked c'" using g(3) d calculation by (simp add: hc_linked_def hc_after_def)
  ultimately show ?thesis using call res blk g(3) by (auto simp: hc_after_def)
qed

end
