(* ===== verification/Lz4_HcLoadDict.thy ===== *)
theory Lz4_HcLoadDict
  imports Lz4_HcContract
begin

text \<open>
  \<open>LZ4_loadDictHC\<close> of \<open>lib/lz4/lz4hc.c\<close>: whichever strategy the level selects, the tables are filled with
  positions of the dictionary and the stream is left as if the dictionary were its first block. With
  it, \<open>LZ4_compress_HC_continue\<close> on contiguous blocks works without a bound on the length of the stream.
\<close>

section \<open>LZ4MID_fillHTable\<close>

lemma fill_both_ok:
  assumes c: "ctx_upto a c0 q c" and m: "mapped m (c_low a) (c_iend a)" and q: "q = c_iend a" and i: "h_dictLimit c0 \<le> idx"
    and t: "target + 8 = hc_index c0 q" "hc_index c0 q < 4294967296 - 8" and l: "0 \<le> h_dictLimit c0" "h_prefixStart c0 = c_low a"
  shows "\<exists>c'. cloop (fill_both_body m (c_low a) (h_dictLimit c0) target) (idx, c) = Some c' \<and> ctx_upto a c0 q c'"
proof (rule cloop_total [where \<mu> = "\<lambda>(idx, _). nat (target - idx)" and I = "\<lambda>(idx, c). h_dictLimit c0 \<le> idx \<and> ctx_upto a c0 q c"])
  show "case (idx, c) of (idx, c) \<Rightarrow> h_dictLimit c0 \<le> idx \<and> ctx_upto a c0 q c" using c i by simp
next
  fix s assume "case s of (idx, c) \<Rightarrow> h_dictLimit c0 \<le> idx \<and> ctx_upto a c0 q c"
  then obtain idx c where s: "s = (idx, c)" "h_dictLimit c0 \<le> idx" "ctx_upto a c0 q c" by (cases s) auto
  show "(\<exists>s'. fill_both_body m (c_low a) (h_dictLimit c0) target s = Some (Inl s') \<and>
      (case s' of (idx, c) \<Rightarrow> h_dictLimit c0 \<le> idx \<and> ctx_upto a c0 q c) \<and>
      (case s' of (idx, _) \<Rightarrow> nat (target - idx)) < (case s of (idx, _) \<Rightarrow> nat (target - idx))) \<or>
    (\<exists>r. fill_both_body m (c_low a) (h_dictLimit c0) target s = Some (Inr r) \<and> ctx_upto a c0 q r)"
  proof (cases "idx < target")
    case True
    let ?p = "c_low a + idx - h_dictLimit c0" let ?p' = "c_low a + idx + 1 - h_dictLimit c0"
    have e: "hc_index c0 q = h_dictLimit c0 + (c_iend a - c_low a)" using l q by (simp add: hc_index_def)
    have mp: "mapped m ?p (?p + 4)" "mapped m ?p' (?p' + 8)" using s(2) True t(1) e by (auto intro!: mapped_sub [OF m])
    have r: "0 \<le> idx" "idx < hc_index c0 q" "0 \<le> idx + 1" "idx + 1 < hc_index c0 q" "idx + 1 < 4294967296" "idx < 4294967296"
      "u32 (idx + 3) = idx + 3" using s(2) True t l(1) by (auto simp: u32_id)
    obtain c1 where c1: "ADDPOS4 m ?p idx c = Some c1" "ctx_upto a c0 q c1"
      using ADDPOS_ok(2) [OF s(3) r(1,2) order.refl r(6) mp(1)] by blast
    obtain c2 where c2: "ADDPOS8 m ?p' (idx + 1) c1 = Some c2" "ctx_upto a c0 q c2"
      using ADDPOS_ok(1) [OF c1(2) r(3,4) order.refl r(5) mp(2)] by blast
    have "fill_both_body m (c_low a) (h_dictLimit c0) target s = Some (Inl (idx + 3, c2))"
      using True c1(1) c2(1) r(7) by (simp add: s(1))
    then show ?thesis using c2(2) s True by auto
  qed (use s in simp)
qed

lemma fill_long_ok:
  assumes c: "ctx_upto a c0 q c" and m: "mapped m (c_low a) (c_iend a)" and q: "q = c_iend a" and i: "h_dictLimit c0 \<le> idx"
    and t: "target + 8 = hc_index c0 q" "hc_index c0 q < 4294967296 - 8" and l: "0 \<le> h_dictLimit c0" "h_prefixStart c0 = c_low a"
  shows "\<exists>c'. cloop (fill_long_body m (c_low a) (h_dictLimit c0) target) (idx, c) = Some c' \<and> ctx_upto a c0 q c'"
proof (rule cloop_total [where \<mu> = "\<lambda>(idx, _). nat (target - idx)" and I = "\<lambda>(idx, c). h_dictLimit c0 \<le> idx \<and> ctx_upto a c0 q c"])
  show "case (idx, c) of (idx, c) \<Rightarrow> h_dictLimit c0 \<le> idx \<and> ctx_upto a c0 q c" using c i by simp
next
  fix s assume "case s of (idx, c) \<Rightarrow> h_dictLimit c0 \<le> idx \<and> ctx_upto a c0 q c"
  then obtain idx c where s: "s = (idx, c)" "h_dictLimit c0 \<le> idx" "ctx_upto a c0 q c" by (cases s) auto
  show "(\<exists>s'. fill_long_body m (c_low a) (h_dictLimit c0) target s = Some (Inl s') \<and>
      (case s' of (idx, c) \<Rightarrow> h_dictLimit c0 \<le> idx \<and> ctx_upto a c0 q c) \<and>
      (case s' of (idx, _) \<Rightarrow> nat (target - idx)) < (case s of (idx, _) \<Rightarrow> nat (target - idx))) \<or>
    (\<exists>r. fill_long_body m (c_low a) (h_dictLimit c0) target s = Some (Inr r) \<and> ctx_upto a c0 q r)"
  proof (cases "idx < target")
    case True
    let ?p = "c_low a + idx - h_dictLimit c0"
    have e: "hc_index c0 q = h_dictLimit c0 + (c_iend a - c_low a)" using l q by (simp add: hc_index_def)
    have mp: "mapped m ?p (?p + 8)" using s(2) True t(1) e by (auto intro!: mapped_sub [OF m])
    have r: "0 \<le> idx" "idx < hc_index c0 q" "idx < 4294967296" "u32 (idx + 1) = idx + 1"
      using s(2) True t l(1) by (auto simp: u32_id)
    obtain c1 where c1: "ADDPOS8 m ?p idx c = Some c1" "ctx_upto a c0 q c1"
      using ADDPOS_ok(1) [OF s(3) r(1,2) order.refl r(3) mp] by blast
    have "fill_long_body m (c_low a) (h_dictLimit c0) target s = Some (Inl (idx + 1, c1))"
      using True c1(1) r(4) by (simp add: s(1))
    then show ?thesis using c1(2) s True by auto
  qed (use s in simp)
qed

lemma LZ4MID_fillHTable_ok:
  assumes c: "ctx_upto a c0 q c0" and m: "mapped m (c_low a) (c_iend a)" and q: "q = c_iend a"
    and n: "c_iend a - c_low a \<le> 65536" "h_dictLimit c0 = 65536"
  shows "\<exists>c'. LZ4MID_fillHTable m c0 (c_low a) (c_iend a - c_low a) = Some c' \<and> ctx_upto a c0 q c'"
proof -
  note d = ctx_uptoD [OF c]
  let ?k = "c_iend a - c_low a" let ?t = "h_dictLimit c0 + ?k - 8"
  have k: "0 \<le> ?k" using hc_ctxD(5) [OF d(4)] by simp
  have ix: "hc_index c0 q = h_dictLimit c0 + ?k" using d(1) q by (simp add: hc_index_def)
  have nx: "h_dictLimit c0 \<le> h_nextToUpdate c0" using c by (simp add: ctx_upto_def)
  show ?thesis
  proof (cases "?k \<le> 8")
    case True
    then show ?thesis using c by (simp add: LZ4MID_fillHTable_def)
  next
    case False
    have w: "u32 ?k = ?k" "u32 (h_dictLimit c0 + ?k - LZ4MID_HASHSIZE) = ?t" "u32 (?t - 32 * KB) = ?t - 32 * KB" using n k False by (simp_all add: u32_id)
    have b: "?t + 8 = hc_index c0 q" "hc_index c0 q < 4294967296 - 8" "0 \<le> h_dictLimit c0" using ix n by simp_all
    obtain c1 where c1: "cloop (fill_both_body m (c_low a) (h_dictLimit c0) ?t) (h_nextToUpdate c0, c0) = Some c1" "ctx_upto a c0 q c1"
      using fill_both_ok [OF c m q nx b d(1)] by blast
    have F: "(?k \<le> LZ4MID_HASHSIZE) = False" using False by simp
    define idx where "idx = (if ?k > 32 * KB + LZ4MID_HASHSIZE then ?t - 32 * KB else h_nextToUpdate c0)"
    have i: "h_dictLimit c0 \<le> idx" using nx by (simp add: idx_def)
    obtain c2 where c2: "cloop (fill_long_body m (c_low a) (h_dictLimit c0) ?t) (idx, c1) = Some c2" "ctx_upto a c0 q c2"
      using fill_long_ok [OF c1(2) m q i b d(1)] by blast
    have "LZ4MID_fillHTable m c0 (c_low a) ?k = Some (c2\<lparr>h_nextToUpdate := ?t\<rparr>)"
      unfolding LZ4MID_fillHTable_def Let_def w F if_False c1(1) Option.bind.bind_lunit idx_def [symmetric] c2(1) ..
    moreover have "ctx_upto a c0 q (c2\<lparr>h_nextToUpdate := ?t\<rparr>)"
      using c2(2) ctx_uptoD(1,3,6) [OF c2(2)] ctx_uptoD(1) [OF c] ix False by (simp add: ctx_upto_def hc_ctx_def hc_entries_def hc_index_def)
    ultimately show ?thesis by blast
  qed
qed

section \<open>LZ4_loadDictHC\<close>

lemma fill_tables_ok:
  assumes b: "hc_before c (dict + k) 0" "h_prefixStart c = dict" "h_dictLimit c = 65536" "h_nextToUpdate c = 65536"
    and k: "0 \<le> k" "k \<le> 65536" and m: "mapped m dict (dict + k)"
    and e: "hc_entries 65536 c"
  shows "\<exists>c'. (if midlevel then LZ4MID_fillHTable m c dict k else if k \<ge> LZ4HC_HASHSIZE then LZ4HC_Insert m c (h_end c - 3) else Some c) = Some c' \<and>
     hc_same c c' \<and> hc_before c' (dict + k) 0"
proof -
  let ?a = "hc_args (dict + k) 0 0 0 notLimited c"
  have fin: "h_end c = dict + k" using b(1) by (simp add: hc_before_def)
  have up: "ctx_upto ?a c (dict + k) c" using hc_ctx_upto [OF b(1), of 0 0 notLimited] by simp
  have keep: "hc_before c' (dict + k) 0" if "ctx_upto ?a c (dict + k) c'" for c'
  proof -
    have u: "hc_same c c'" "hc_ctx (h_prefixStart c) (dict + k) c'" "hc_entries (hc_index c' (dict + k)) c'"
      "h_dictLimit c' \<le> h_nextToUpdate c'" "h_nextToUpdate c' \<le> hc_index c' (dict + k)" using that by (simp_all add: ctx_upto_def)
    have "h_prefixStart c' = h_prefixStart c" "h_end c' = dict + k" using hc_sameD(1,2) [OF u(1)] fin by simp_all
    then show ?thesis using u(2-5) b(2) k(1) by (simp add: hc_before_def)
  qed
  show ?thesis
  proof (cases midlevel)
    case True
    from LZ4MID_fillHTable_ok [OF up, of m] m k b
    obtain c' where "LZ4MID_fillHTable m c dict k = Some c'" "ctx_upto ?a c (dict + k) c'" by auto
    then show ?thesis using True keep [of c'] by (simp add: ctx_upto_def)
  next
    case False
    show ?thesis
    proof (cases "k \<ge> LZ4HC_HASHSIZE")
      case True
      have ctx: "hc_ctx dict (dict + k) c" using b by (simp add: hc_before_def)
      have ix: "hc_index c p = 65536 + (p - dict)" for p using b by (simp add: hc_index_def)
      have "hc_entries (hc_index c (dict + k - 3)) c" using e ix True by (auto elim: hc_entries_mono)
      from LZ4HC_Insert_ok [OF ctx this m] True b ix
      obtain c' where c': "LZ4HC_Insert m c (dict + k - 3) = Some c'" "hc_same c c'" "hc_entries (hc_index c (dict + k - 3)) c'"
        "h_nextToUpdate c' = hc_index c (dict + k - 3)" by auto
      have "hc_entries (hc_index c (dict + k)) c'" using c'(3) by (rule hc_entries_mono) (simp add: ix)
      then have "ctx_upto ?a c (dict + k) c'"
        using c' ctx ix True b by (simp add: ctx_upto_def hc_sameD(4,10,11) [OF c'(2)])
      then show ?thesis using \<open>\<not> midlevel\<close> True c'(1,2) keep [of c'] by (simp add: fin)
    qed (use False b(1) in simp)
  qed
qed

text \<open>
  Contexts from which \<open>LZ4HC_init_internal\<close> starts over with index 64 KB: a zeroed one, and one whose
  indexes have passed one gigabyte, whose tables it clears.
\<close>

definition restarts :: "LZ4HC_CCtx_internal \<Rightarrow> bool" where
  "restarts c \<longleftrightarrow> h_dictCtx c = 0 \<and>
     (h_prefixStart c = 0 \<and> h_end c = 0 \<and> h_dictLimit c = 0 \<and> hc_entries 1 c \<or>
      u64 (u64 (h_end c - h_prefixStart c) + h_dictLimit c) > 1 * GB)"

lemma restarts_init:
  assumes "restarts c"
  shows "\<exists>z. LZ4HC_init_internal c d = z\<lparr>h_nextToUpdate := 65536, h_prefixStart := d, h_end := d, h_dictStart := d,
       h_dictLimit := 65536, h_lowLimit := 65536\<rparr> \<and> hc_entries 65536 z \<and> h_dictCtx z = 0 \<and> h_dirty z = h_dirty c"
proof (cases "u64 (u64 (h_end c - h_prefixStart c) + h_dictLimit c) > 1 * GB")
  case True
  have "hc_entries 65536 (LZ4HC_clearTables c)" by (simp add: LZ4HC_clearTables_def hc_entries_def)
  moreover have "h_dictCtx (LZ4HC_clearTables c) = 0" "h_dirty (LZ4HC_clearTables c) = h_dirty c"
    using assms by (simp_all add: restarts_def LZ4HC_clearTables_def)
  moreover have "u64 (0 + 64 * KB) = 65536" "u32 65536 = 65536" by (simp_all add: u64_id u32_id)
  ultimately show ?thesis
    unfolding LZ4HC_init_internal_def Let_def if_P [OF True] prod.case by (intro exI [of _ "LZ4HC_clearTables c"]) simp
next
  case False
  then have z: "h_prefixStart c = 0" "h_end c = 0" "h_dictLimit c = 0" "hc_entries 1 c" "h_dictCtx c = 0"
    using assms by (simp_all add: restarts_def)
  have "hc_entries 65536 c" using hc_entries_mono [OF z(4), of 65536] by simp
  then show ?thesis using z by (intro exI [of _ c]) (simp add: LZ4HC_init_internal_def Let_def u64_id u32_id)
qed

lemma restarts_setLevel [simp]: "restarts (LZ4_setCompressionLevel c l) = restarts c"
  by (simp add: restarts_def)

lemma loadDictHC_restarts:
  assumes s: "S p = Some c" "LZ4_initStreamHC S p sizeof_streamHC = Some (x, S(p \<mapsto> c0))" "restarts c0"
    and d: "0 < dict" "0 \<le> k" "k < 2147483648" "mapped m dict (dict + k)"
  shows "\<exists>c'. LZ4_loadDictHC m S p dict k = Some (min k 65536, S(p \<mapsto> c')) \<and> hc_linked c' \<and>
     h_prefixStart c' = dict + max 0 (k - 65536) \<and> h_end c' = dict + k \<and> h_dictLimit c' = 65536 \<and> h_dirty c' = h_dirty c0"
proof -
  define d0 where "d0 = dict + max 0 (k - 65536)"
  define k0 where "k0 = min k 65536"
  have k0: "0 \<le> k0" "k0 \<le> 65536" "d0 + k0 = dict + k" "0 < d0" "mapped m d0 (d0 + k0)"
    using d by (auto simp: d0_def k0_def intro!: mapped_sub [OF d(4)])
  let ?z1 = "LZ4_setCompressionLevel c0 (h_compressionLevel c)"
  define c1 where "c1 = (LZ4HC_init_internal ?z1 d0)\<lparr>h_end := d0 + k0\<rparr>"
  obtain z where z: "LZ4HC_init_internal ?z1 d0 = z\<lparr>h_nextToUpdate := 65536, h_prefixStart := d0, h_end := d0, h_dictStart := d0,
       h_dictLimit := 65536, h_lowLimit := 65536\<rparr>" "hc_entries 65536 z" "h_dictCtx z = 0" "h_dirty z = h_dirty c0"
    using restarts_init [of ?z1 d0] s(3) by auto
  have en: "hc_entries 65536 c1" using z(2) unfolding c1_def z(1) by (simp add: hc_entries_def)
  have cf: "h_prefixStart c1 = d0" "h_dictLimit c1 = 65536" "h_nextToUpdate c1 = 65536" "h_dictStart c1 = d0" "h_dictCtx c1 = 0"
    "h_dirty c1 = h_dirty c0" "h_end c1 = d0 + k0" "h_lowLimit c1 = 65536"
    unfolding c1_def z(1) using z(3,4) by simp_all
  have "hc_entries (hc_index c1 (d0 + k0)) c1" using en k0 cf by (auto simp: hc_index_def elim: hc_entries_mono)
  then have bf: "hc_before c1 (d0 + k0) 0" using k0 cf unfolding hc_before_def hc_ctx_def hc_index_def by simp
  obtain c' where c': "(if strat (LZ4HC_getCLevelParams (h_compressionLevel c)) = lz4mid then LZ4MID_fillHTable m c1 d0 k0
      else if k0 \<ge> LZ4HC_HASHSIZE then LZ4HC_Insert m c1 (h_end c1 - 3) else Some c1) = Some c'" "hc_same c1 c'" "hc_before c' (d0 + k0) 0"
    using fill_tables_ok [OF bf cf(1-3) k0(1,2,5) en] by blast
  have w: "u64 k0 = k0" "(if k > 64 * KB then dict + (k - 64 * KB) else dict) = d0" "(if k > 64 * KB then 64 * KB else k) = k0"
    using k0 by (simp_all add: d0_def k0_def u64_id)
  have "LZ4_loadDictHC m S p dict k = Some (k0, S(p \<mapsto> c'))"
    unfolding LZ4_loadDictHC_def s(1) Let_def w(2,3) s(2) Option.bind.bind_lunit prod.case
      fun_upd_same c1_def [symmetric] w(1) c'(1) by simp
  moreover have "hc_linked c'" using c'(3) cf k0(4) unfolding hc_linked_def by (simp add: hc_sameD [OF c'(2)])
  moreover have "h_prefixStart c' = d0" "h_end c' = dict + k" "h_dictLimit c' = 65536" "h_dirty c' = h_dirty c0"
    using hc_sameD(1,2,4,8) [OF c'(2)] cf k0(3) by simp_all
  ultimately show ?thesis unfolding d0_def k0_def by blast
qed

lemma LZ4_loadDictHC_ok:
  assumes s: "S p = Some c" "p \<noteq> 0" "LZ4_isAligned p LZ4_streamHC_t_alignment"
    and d: "0 < dict" "0 \<le> k" "k < 2147483648" "mapped m dict (dict + k)"
  shows "\<exists>c'. LZ4_loadDictHC m S p dict k = Some (min k 65536, S(p \<mapsto> c')) \<and> hc_linked c' \<and>
     h_prefixStart c' = dict + max 0 (k - 65536) \<and> h_end c' = dict + k \<and> h_dictLimit c' = 65536 \<and> h_dirty c' = 0"
proof -
  let ?z = "LZ4_setCompressionLevel zero_streamHC LZ4HC_CLEVEL_DEFAULT"
  have "hc_entries 1 zero_streamHC" by (simp add: zero_streamHC_def hc_entries_def)
  then have "restarts zero_streamHC" by (simp add: restarts_def) (simp add: zero_streamHC_def)
  then have r: "restarts ?z" "h_dirty ?z = 0" by (simp_all add: zero_streamHC_def)
  show ?thesis using loadDictHC_restarts [where S = S and p = p, OF s(1) initStreamHC_ok [where S = S and p = p, OF s(2,3,1)] r(1) d] r(2) by simp
qed

text \<open>
  On a context that is not aligned the initialisation is refused, but \<open>LZ4_loadDictHC\<close> does not look at that. When
  the indexes are large, as they are when a stream reloads its own history, the result is the same but for \<open>dirty\<close>.
\<close>

lemma loadDictHC_reload:
  assumes s: "S p = Some c" "p \<noteq> 0" "restarts c" and d: "0 < dict" "0 \<le> k" "k < 2147483648" "mapped m dict (dict + k)"
  shows "\<exists>c'. LZ4_loadDictHC m S p dict k = Some (min k 65536, S(p \<mapsto> c')) \<and> hc_linked c' \<and>
     h_prefixStart c' = dict + max 0 (k - 65536) \<and> h_end c' = dict + k \<and> h_dictLimit c' = 65536"
proof (cases "LZ4_isAligned p LZ4_streamHC_t_alignment")
  case True
  then show ?thesis using LZ4_loadDictHC_ok [where S = S and p = p, OF s(1,2) _ d] by blast
next
  case False
  have "S(p \<mapsto> c) = S" using s(1) by auto
  then have "LZ4_initStreamHC S p sizeof_streamHC = Some (0, S(p \<mapsto> c))" using initStreamHC_refused [of p S] False by metis
  then show ?thesis using loadDictHC_restarts [where S = S and p = p, OF s(1) _ s(3) d] by blast
qed

section \<open>Streams of contiguous blocks\<close>

text \<open>A stream that has seen nothing yet; its tables may hold positions of an earlier use.\<close>

definition hc_fresh :: "LZ4HC_CCtx_internal \<Rightarrow> bool" where
  "hc_fresh c \<longleftrightarrow> h_prefixStart c = 0 \<and> h_end c = 0 \<and> h_dictCtx c = 0 \<and> 0 \<le> h_dictLimit c \<and> h_dictLimit c < 4294967296 \<and>
     hc_entries (h_dictLimit c + 1) c"

lemma fresh_linked:
  assumes "hc_fresh c" "0 < src"
  shows "hc_linked (LZ4HC_init_internal c src)" "h_prefixStart (LZ4HC_init_internal c src) = src" "h_end (LZ4HC_init_internal c src) = src"
proof -
  have f: "h_prefixStart c = 0" "h_end c = 0" "0 \<le> h_dictLimit c" "h_dictLimit c < 4294967296" "hc_entries (h_dictLimit c + 1) c" "h_dictCtx c = 0"
    using assms(1) by (simp_all add: hc_fresh_def)
  have "h_dictStart (LZ4HC_init_internal c src) = src" by (simp add: LZ4HC_init_internal_def Let_def split: prod.splits)
  moreover show e: "h_end (LZ4HC_init_internal c src) = src" by (simp add: LZ4HC_init_internal_def Let_def split: prod.splits)
  moreover note init_before [OF f(1-5) order.refl, of src]
  ultimately show "hc_linked (LZ4HC_init_internal c src)" "h_prefixStart (LZ4HC_init_internal c src) = src"
    using f assms(2) by (simp_all add: hc_linked_def)
qed

lemma fresh_call:
  assumes "S p = Some c" "hc_fresh c" "0 < src"
  shows "LZ4_compressHC_continue_generic A m S p src dst n cap dir =
    LZ4_compressHC_continue_generic A m (S(p \<mapsto> LZ4HC_init_internal c src)) p src dst n cap dir"
proof -
  have "h_prefixStart c = 0" "h_prefixStart (LZ4HC_init_internal c src) \<noteq> 0" using assms(2,3) fresh_linked(2) [OF assms(2,3)] by (auto simp: hc_fresh_def)
  then show ?thesis unfolding LZ4_compressHC_continue_generic_def assms(1) by simp
qed

text \<open>When the indexes exceed two gigabytes, the last 64 KB are loaded as a dictionary, and the call goes on.\<close>

lemma overflow_call:
  assumes s: "S p = Some c" "hc_linked c" "p \<noteq> 0" and pre: "0 < h_prefixStart c"
    and big: "h_dictLimit c + (h_end c - h_prefixStart c) > 2147483648" and m: "mapped m (h_prefixStart c) (h_end c)"
  shows "\<exists>c'. LZ4_compressHC_continue_generic A m S p src dst n cap dir =
      LZ4_compressHC_continue_generic A m (S(p \<mapsto> c')) p src dst n cap dir \<and>
    hc_linked c' \<and> h_prefixStart c \<le> h_prefixStart c' \<and> h_end c' = h_end c \<and> h_dictLimit c' + (h_end c' - h_prefixStart c') \<le> 2147483648"
proof -
  have d: "h_prefixStart c \<le> h_end c" "h_dictLimit c + (h_end c - h_prefixStart c) < 4294967296" "0 \<le> h_dictLimit c"
    using s(2) by (simp_all add: hc_linked_def hc_before_def hc_ctx_def)
  define k where "k = min (h_end c - h_prefixStart c) 65536"
  have k: "0 \<le> k" "k \<le> 65536" "mapped m (h_end c - k) (h_end c)" "h_prefixStart c \<le> h_end c - k"
    using d(1) mapped_sub [OF m, of "h_end c - k" "h_end c"] by (auto simp: k_def)
  have w: "u64 (h_end c - h_prefixStart c) = h_end c - h_prefixStart c" "s32 k = k"
    "u64 (h_end c - h_prefixStart c + h_dictLimit c) = h_end c - h_prefixStart c + h_dictLimit c"
    using d k by (simp_all add: u64_id s32_id)
  have kk: "(if h_end c - h_prefixStart c > 64 * KB then 64 * KB else h_end c - h_prefixStart c) = k" by (simp add: k_def)
  have rs: "restarts c" using s(2) big d by (simp add: restarts_def hc_linked_def w(1,3))
  obtain c' where c': "LZ4_loadDictHC m S p (h_end c - k) k = Some (min k 65536, S(p \<mapsto> c'))" "hc_linked c'"
    "h_prefixStart c' = h_end c - k + max 0 (k - 65536)" "h_end c' = h_end c - k + k" "h_dictLimit c' = 65536"
    using loadDictHC_reload [where S = S and p = p, OF s(1,3) rs, of "h_end c - k" k m] k pre by auto
  have pc: "h_prefixStart c' = h_end c - k" "h_end c' = h_end c" using c'(3,4) k by simp_all
  have F: "(h_prefixStart c = 0) = False" "(h_end c - h_prefixStart c + h_dictLimit c > 2 * GB) = True"
    "(h_prefixStart c' = 0) = False" "u64 (u64 (h_end c' - h_prefixStart c') + h_dictLimit c') > 2 * GB \<longleftrightarrow> False"
    using pre big k pc c'(5) by (simp_all add: u64_id)
  have S: "S(p \<mapsto> c) = S" using s(1) by auto
  have "LZ4_compressHC_continue_generic A m S p src dst n cap dir = LZ4_compressHC_continue_generic A m (S(p \<mapsto> c')) p src dst n cap dir"
    unfolding LZ4_compressHC_continue_generic_def s(1) Option.bind.bind_lunit Let_def F(1) if_False w F(2) if_True S kk c'(1)
      option.map snd_conv fun_upd_same F(3,4) fun_upd_upd ..
  then show ?thesis using c'(2,5) pc k by auto
qed

lemma hc_stream_block:
  assumes s: "S p = Some c" "p \<noteq> 0" "hc_linked c \<and> h_prefixStart c = lo \<and> h_end c = src \<or> hc_fresh c \<and> lo = src" and lo: "0 < lo"
    and n: "0 \<le> n" "n \<le> LZ4_MAX_INPUT_SIZE" and m: "mapped m lo (src + n)" "mapped m dst (dst + cap)" "0 \<le> cap" "cap < 2147483648"
      "src + n \<le> dst \<or> dst + cap \<le> lo"
  shows "\<exists>r m' c' lo'. LZ4_compress_HC_continue True m S p src dst n cap = Some (r, m', S(p \<mapsto> c')) \<and>
     frame m m' dst (dst + cap) \<and> 0 \<le> r \<and> r \<le> cap \<and> (LZ4_compressBound n \<le> cap \<longrightarrow> 0 < r) \<and>
     (0 < r \<longrightarrow> block_for (bytes m lo' src) (bytes m src (src + n)) (bytes m' dst (dst + r))) \<and>
     hc_linked c' \<and> h_prefixStart c' = lo' \<and> h_end c' = src + n \<and> lo \<le> lo' \<and> lo' \<le> src"
proof -
  obtain S1 c1 where c1: "LZ4_compress_HC_continue True m S p src dst n cap = LZ4_compress_HC_continue True m S1 p src dst n cap"
    "S1 = S(p \<mapsto> c1)" "hc_linked c1" "h_prefixStart c1 = lo" "h_end c1 = src"
  proof (cases "hc_fresh c \<and> lo = src")
    case True
    then have f: "hc_fresh c" "0 < src" "lo = src" using lo by simp_all
    show ?thesis
      by (rule that [of "S(p \<mapsto> LZ4HC_init_internal c src)" "LZ4HC_init_internal c src"])
        (use fresh_linked [OF f(1,2)] f(3) in \<open>simp_all add: LZ4_compress_HC_continue_def fresh_call [where S = S and p = p, OF s(1) f(1,2)]\<close>)
  next
    case False
    have "S(p \<mapsto> c) = S" using s(1) by auto
    then show ?thesis using that [of S c] s(3) False by simp
  qed
  have le: "lo \<le> src" using c1(3-5) by (simp add: hc_linked_def hc_before_def)
  obtain S2 c2 where c2: "LZ4_compress_HC_continue True m S1 p src dst n cap = LZ4_compress_HC_continue True m S2 p src dst n cap"
    "S2 = S(p \<mapsto> c2)" "hc_linked c2" "lo \<le> h_prefixStart c2" "h_end c2 = src" "h_dictLimit c2 + (h_end c2 - h_prefixStart c2) \<le> 2147483648"
  proof (cases "h_dictLimit c1 + (h_end c1 - h_prefixStart c1) > 2147483648")
    case True
    have at: "S1 p = Some c1" "0 < h_prefixStart c1" "mapped m (h_prefixStart c1) (h_end c1)"
      using c1(2,4,5) lo m(1) n(1) le by (auto elim: mapped_sub)
    from overflow_call [where S = S1 and p = p, OF at(1) c1(3) s(2) at(2) True at(3), of True src dst n cap]
    obtain c' where "LZ4_compressHC_continue_generic True m S1 p src dst n cap (if cap < LZ4_compressBound n then limitedOutput else notLimited) =
        LZ4_compressHC_continue_generic True m (S1(p \<mapsto> c')) p src dst n cap (if cap < LZ4_compressBound n then limitedOutput else notLimited)"
      "hc_linked c'" "h_prefixStart c1 \<le> h_prefixStart c'" "h_end c' = h_end c1" "h_dictLimit c' + (h_end c' - h_prefixStart c') \<le> 2147483648" by blast
    then show ?thesis using that [of "S1(p \<mapsto> c')" c'] c1(2,4,5) by (simp add: LZ4_compress_HC_continue_def)
  next
    case False
    then show ?thesis using that [of S1 c1] c1 by simp
  qed
  have at: "S2 p = Some c2" using c2(2) by simp
  have b: "mapped m (h_prefixStart c2) (h_end c2 + n)" "h_end c2 + n \<le> dst \<or> dst + cap \<le> h_prefixStart c2"
    using c2(4,5) m(5) mapped_sub [OF m(1), of "h_prefixStart c2" "src + n"] by auto
  have "h_prefixStart c2 \<le> src" using c2(3,5) by (simp add: hc_linked_def hc_before_def)
  with hc_continue_block [where S = S2 and p = p, OF at c2(3) n c2(6) b(1) m(2-4) b(2)] show ?thesis
    unfolding c1(1) c2(1) c2(2,5) fun_upd_upd using c2(4) by blast
qed

end
