(* ===== verification/Lz4_CompressStream.thy ===== *)
theory Lz4_CompressStream
  imports Lz4_CompressContract
begin

unbundle bit_operations_syntax

text \<open>
  Streaming compression of contiguous blocks: \<open>LZ4_loadDict\<close>, \<open>LZ4_renormDictT\<close> and
  \<open>LZ4_compress_fast_continue\<close> when the source follows the history in memory (or starts a new one). The
  dictionary elsewhere and the attached dictionary are in \<open>Lz4_CompressExtDict\<close>.
\<close>

section \<open>A longer history does no harm\<close>

lemma seqs_ok_prepend:
  "seqs_ok h qs \<Longrightarrow> seqs_ok (g @ h) qs \<and> foldl expand_seq (g @ h) qs = g @ foldl expand_seq h qs"
proof (induction qs arbitrary: h)
  case (Cons q qs)
  obtain ls off ml where q: "q = LSeq ls off ml" by (cases q)
  have "expand_seq (g @ h) q = g @ expand_seq h q"
    using Cons.prems copy_match_append [of off "h @ ls" g ml] by (simp add: q)
  then show ?case using Cons.IH [of "expand_seq h q"] Cons.prems by (simp add: q)
qed simp

lemma block_for_prepend: "block_for D X B \<Longrightarrow> block_for (G @ D) X B"
  unfolding block_for_def expand_def using seqs_ok_prepend by fastforce

section \<open>The stream\<close>

text \<open>
  The invariant of a stream that is only used with tables of 32-bit indexes: every entry is zero or a
  position with four bytes before the offset, and the remembered history is not longer than what was
  indexed. No dictionary is attached to a linked stream.
\<close>

definition past_index :: "int \<Rightarrow> int \<Rightarrow> bool" where
  "past_index off i \<longleftrightarrow> 0 \<le> i \<and> (i + 4 \<le> off \<or> i = 0)"

definition indexed :: "LZ4_stream_t_internal \<Rightarrow> bool" where
  "indexed s \<longleftrightarrow> 0 \<le> s_currentOffset s \<and> s_currentOffset s \<le> 2147483648 \<and> 0 \<le> s_dictSize s \<and>
     s_dictSize s \<le> s_currentOffset s \<and> entries_ok (\<lambda>h. past_index (s_currentOffset s)) byU32 s"

definition linked :: "LZ4_stream_t_internal \<Rightarrow> bool" where
  "linked s \<longleftrightarrow> indexed s \<and> s_dictCtx s = 0"

lemma zero_linked: "linked zero_stream"
  using cleared_entries [of zero_stream byU32] by (simp add: linked_def indexed_def zero_stream_def index_table_def past_index_def)

lemma linked_entries: "linked s \<Longrightarrow> entries_ok (\<lambda>h. past_index (s_currentOffset s)) byU32 s"
  by (simp add: linked_def indexed_def)

lemma indexed_linked: "indexed s \<Longrightarrow> linked (s\<lparr>s_dictCtx := 0\<rparr>)"
  using entries_ok_table [of "s\<lparr>s_dictCtx := 0\<rparr>" s] by (simp add: linked_def indexed_def)

text \<open>Renormalisation: old entries move down by \<open>delta\<close>, or are forgotten.\<close>

lemma renorm_loop:
  assumes s: "S p = Some s" "indexed s" and d: "0 \<le> delta" "delta \<le> s_currentOffset s"
  shows "\<exists>b. cloop (renorm_body p delta) (0, S) = Some (S(p \<mapsto> s\<lparr>s_hashTable := b\<rparr>)) \<and>
     entries_ok (\<lambda>h. past_index (s_currentOffset s - delta)) byU32 (s\<lparr>s_hashTable := b\<rparr>)"
proof -
  define Q where "Q = (\<lambda>(i :: int) h. past_index (if h < i then s_currentOffset s - delta else s_currentOffset s))"
  define I where "I = (\<lambda>(i, S'). 0 \<le> i \<and> i \<le> 4096 \<and> (\<exists>b. S' = S(p \<mapsto> s\<lparr>s_hashTable := b\<rparr>) \<and>
    entries_ok (Q i) byU32 (s\<lparr>s_hashTable := b\<rparr>)))"
  have slots: "slots byU32 = 4096" by (simp add: slots_def slot_width_def)
  have it: "index_table byU32" by (simp add: index_table_def)
  have "\<exists>r. cloop (renorm_body p delta) (0, S) = Some r \<and> (\<exists>b. r = S(p \<mapsto> s\<lparr>s_hashTable := b\<rparr>) \<and>
    entries_ok (Q 4096) byU32 (s\<lparr>s_hashTable := b\<rparr>))"
  proof (rule cloop_total [where \<mu> = "\<lambda>(i, S'). nat (4096 - i)" and I = I])
    have "s = s\<lparr>s_hashTable := s_hashTable s\<rparr>" "S = S(p \<mapsto> s)" using s(1) by auto
    moreover have "entries_ok (Q 0) byU32 s"
      using s(2) unfolding Q_def entries_ok_def indexed_def by auto
    ultimately have "\<exists>b. S = S(p \<mapsto> s\<lparr>s_hashTable := b\<rparr>) \<and> entries_ok (Q 0) byU32 (s\<lparr>s_hashTable := b\<rparr>)"
      by (intro exI [of _ "s_hashTable s"]) simp
    then show "I (0, S)" unfolding I_def by simp
  next
    fix t assume "I t"
    then obtain i b where t: "t = (i, S(p \<mapsto> s\<lparr>s_hashTable := b\<rparr>))" "0 \<le> i" "i \<le> 4096"
      and e: "entries_ok (Q i) byU32 (s\<lparr>s_hashTable := b\<rparr>)"
      unfolding I_def by (cases t) auto
    let ?S = "S(p \<mapsto> s\<lparr>s_hashTable := b\<rparr>)"
    have at: "?S p = Some (s\<lparr>s_hashTable := b\<rparr>)" by simp
    show "(\<exists>s'. renorm_body p delta t = Some (Inl s') \<and> I s' \<and> (case s' of (i, S') \<Rightarrow> nat (4096 - i)) < (case t of (i, S') \<Rightarrow> nat (4096 - i))) \<or>
      (\<exists>r. renorm_body p delta t = Some (Inr r) \<and> (\<exists>b. r = S(p \<mapsto> s\<lparr>s_hashTable := b\<rparr>) \<and> entries_ok (Q 4096) byU32 (s\<lparr>s_hashTable := b\<rparr>)))"
    proof (cases "i < 4096")
      case True
      let ?x = "entry (s\<lparr>s_hashTable := b\<rparr>) byU32 i"
      define y where "y = (if ?x < delta then 0 else ?x - delta)"
      have x: "0 \<le> ?x" "?x + 4 \<le> s_currentOffset s \<or> ?x = 0"
        using e t(2) True slots unfolding entries_ok_def Q_def past_index_def by auto
      have ld: "tbl_load ?S p 4 i = Some ?x"
        using tbl_load_ok [of ?S p "s\<lparr>s_hashTable := b\<rparr>" byU32 i] e t(2) True slots it at
        by (simp add: entries_ok_def slot_width_def)
      have y: "0 \<le> y" "y < 256 ^ slot_width byU32" "Q (i + 1) i y"
        using x d s(2) by (auto simp: Q_def past_index_def slot_width_def indexed_def y_def)
      have keep: "\<And>h' x. h' \<noteq> i \<Longrightarrow> Q i h' x \<Longrightarrow> Q (i + 1) h' x" by (auto simp: Q_def split: if_splits)
      have i: "i < slots byU32" using True slots by simp
      from tbl_store_entries [of ?S p "s\<lparr>s_hashTable := b\<rparr>" "Q i" byU32 i y "Q (i + 1)", OF at e it t(2) i y(1,2) keep y(3)]
      obtain b' where b': "tbl_store ?S p 4 i y = Some (?S(p \<mapsto> s\<lparr>s_hashTable := b'\<rparr>))" "entries_ok (Q (i + 1)) byU32 (s\<lparr>s_hashTable := b'\<rparr>)"
        by (auto simp: slot_width_def)
      have "renorm_body p delta t = Some (Inl (i + 1, S(p \<mapsto> s\<lparr>s_hashTable := b'\<rparr>)))"
        using True ld b'(1) by (simp add: t(1) y_def)
      moreover have "I (i + 1, S(p \<mapsto> s\<lparr>s_hashTable := b'\<rparr>))" using t(2) True b'(2) by (auto simp: I_def)
      ultimately show ?thesis using t(1) True by auto
    next
      case False
      then have "i = 4096" using t(3) by simp
      then show ?thesis using e by (auto simp: t(1))
    qed
  qed
  then obtain b where "cloop (renorm_body p delta) (0, S) = Some (S(p \<mapsto> s\<lparr>s_hashTable := b\<rparr>))"
    "entries_ok (Q 4096) byU32 (s\<lparr>s_hashTable := b\<rparr>)" by blast
  moreover then have "entries_ok (\<lambda>h. past_index (s_currentOffset s - delta)) byU32 (s\<lparr>s_hashTable := b\<rparr>)"
    using slots by (simp add: entries_ok_def Q_def past_index_def)
  ultimately show ?thesis by blast
qed

text \<open>
  After \<open>LZ4_renormDictT\<close> the next block cannot overflow the offset; the end of the history is where it was
  and at least its last 64 KB are kept.
\<close>

definition shorter_history :: "LZ4_stream_t_internal \<Rightarrow> LZ4_stream_t_internal \<Rightarrow> bool" where
  "shorter_history s s' \<longleftrightarrow> s_dictSize s' \<le> s_dictSize s \<and>
     s_dictionary s' + s_dictSize s' = s_dictionary s + s_dictSize s \<and> (s_dictSize s' = 0 \<longleftrightarrow> s_dictSize s = 0) \<and>
     (s_dictSize s' < s_dictSize s \<longrightarrow> 65536 \<le> s_dictSize s')"

lemma renorm_indexed:
  assumes s: "S p = Some s" "indexed s" and n: "0 \<le> n" "n \<le> LZ4_MAX_INPUT_SIZE"
  shows "\<exists>s'. LZ4_renormDictT p n S = Some (S(p \<mapsto> s')) \<and> indexed s' \<and> s_dictCtx s' = s_dictCtx s \<and>
     shorter_history s s' \<and> s_currentOffset s' + n \<le> 2147483648 \<and> (s_currentOffset s' = s_currentOffset s \<or> s_currentOffset s' = 65536)"
proof -
  have off: "0 \<le> s_currentOffset s" "s_currentOffset s \<le> 2147483648" using s(2) by (simp_all add: indexed_def)
  have u: "u32 (s_currentOffset s + u32 n) = s_currentOffset s + n" using off n by (simp add: u32_id)
  show ?thesis
  proof (cases "s_currentOffset s + n > 2147483648")
    case False
    then have "LZ4_renormDictT p n S = Some (S(p \<mapsto> s))" using s(1) u by (auto simp: LZ4_renormDictT_def)
    then show ?thesis using False s(2) by (auto simp: shorter_history_def)
  next
    case True
    define delta where "delta = s_currentOffset s - 65536"
    have d: "0 \<le> delta" "delta \<le> s_currentOffset s" using True n by (simp_all add: delta_def)
    have ud: "u32 (s_currentOffset s - 64 * KB) = delta" using d off by (simp add: delta_def u32_id)
    obtain b where b: "cloop (renorm_body p delta) (0, S) = Some (S(p \<mapsto> s\<lparr>s_hashTable := b\<rparr>))"
      "entries_ok (\<lambda>h. past_index (s_currentOffset s - delta)) byU32 (s\<lparr>s_hashTable := b\<rparr>)"
      using renorm_loop [of S p s delta, OF s d] by blast
    define k where "k = (if s_dictSize s > 64 * KB then 64 * KB else s_dictSize s)"
    define s' where "s' = s\<lparr>s_hashTable := b, s_currentOffset := 64 * KB, s_dictSize := k,
      s_dictionary := s_dictionary s + s_dictSize s - k\<rparr>"
    have "LZ4_renormDictT p n S = Some (S(p \<mapsto> s'))"
      using True s(1) u ud b(1) by (simp add: LZ4_renormDictT_def s'_def k_def Let_def)
    moreover have "entries_ok (\<lambda>h. past_index 65536) byU32 s'"
      using b(2) entries_ok_table [of s' "s\<lparr>s_hashTable := b\<rparr>"] by (simp add: s'_def delta_def)
    then have "indexed s'" using s(2) by (auto simp: indexed_def s'_def k_def)
    moreover have "shorter_history s s'" using s(2) by (auto simp: shorter_history_def s'_def k_def indexed_def)
    moreover have "s_dictCtx s' = s_dictCtx s" by (simp add: s'_def)
    ultimately show ?thesis using n by (intro exI [of _ s']) (simp add: s'_def)
  qed
qed

lemma renorm_ok:
  assumes "S p = Some s" "linked s" "0 \<le> n" "n \<le> LZ4_MAX_INPUT_SIZE"
  shows "\<exists>s'. LZ4_renormDictT p n S = Some (S(p \<mapsto> s')) \<and> linked s' \<and> shorter_history s s' \<and> s_currentOffset s' + n \<le> 2147483648"
  using renorm_indexed [of S p s n] assms by (auto simp: linked_def)

section \<open>One block\<close>

text \<open>The arguments of a call with limited output and 32-bit indexes, before the context is read.\<close>

definition stream_args :: "int \<Rightarrow> int \<Rightarrow> int \<Rightarrow> int \<Rightarrow> int \<Rightarrow> dict_directive \<Rightarrow> dictIssue_directive \<Rightarrow> int \<Rightarrow> cargs" where
  "stream_args p src dst n cap dd issue acc =
     \<lparr> c_cctx = p, c_source = src, c_dest = dst, c_inputSize = n, c_maxOutputSize = cap,
       c_outputDirective = limitedOutput, c_tableType = byU32, c_dictDirective = dd, c_dictIssue = issue,
       c_acceleration = acc, c_startIndex = 0, c_dictCtx = 0, c_dictionary = 0, c_dictSize = 0, c_dictOffset = 0 \<rparr>"

text \<open>
  A call in any of the modes with a history, on a stream of this kind: what is compressed expands after
  that history, and the entries fit the new offset.
\<close>

lemma stream_block:
  assumes s: "S p = Some s" "0 \<le> s_currentOffset s" "s_currentOffset s + n \<le> 2147483648" "0 \<le> s_dictSize s"
      "s_dictSize s \<le> s_currentOffset s" and cc: "s_dictCtx s = 0 \<or> dd = usingDictCtx" and dd: "dd \<noteq> noDict"
    and rd: "read_context (stream_args p src dst n cap dd issue acc) S = Some a"
    and ok: "call_ok a m cap" and old: "old_entries a m S" and n: "0 < n" "n \<le> LZ4_MAX_INPUT_SIZE" and cap: "0 \<le> cap"
  shows "\<exists>r m' s'. compress_plain p src dst n cap limitedOutput byU32 dd issue acc m S = Some (r, m', S(p \<mapsto> s')) \<and>
     frame m m' dst (dst + cap) \<and> 0 \<le> r \<and> r \<le> cap \<and>
     (0 < r \<longrightarrow> block_for (c_hist a (view a m)) (bytes m src (src + n)) (bytes m' dst (dst + r))) \<and>
     (LZ4_compressBound n \<le> cap \<longrightarrow> 0 < r) \<and>
     linked s' \<and> s_dictionary s' = s_dictionary s \<and> s_dictSize s' = (if dd = usingDictCtx then n else s_dictSize s + n)"
proof -
  have sel: "c_cctx a = p" "c_source a = src" "c_dest a = dst" "c_tableType a = byU32" "c_inputSize a = n"
    "c_outputDirective a = limitedOutput" "c_dictDirective a = dd" "c_startIndex a = s_currentOffset s"
    using rd s(1) by (auto simp: read_context_def stream_args_def Let_def split: if_splits bind_splits)
  have cur: "c_iend a - c_base a = s_currentOffset s + n" by (simp add: c_iend_def c_base_def sel)
  have small: "u32 n = n" "u32 LZ4_MAX_INPUT_SIZE = LZ4_MAX_INPUT_SIZE" using n by (simp_all add: u32_id)
  have gen: "LZ4_compress_generic p src dst n cap limitedOutput byU32 dd issue acc m S =
      LZ4_compress_generic_validated (stream_args p src dst n cap dd issue acc) m S"
    using n small by (simp add: LZ4_compress_generic_def stream_args_def)
  from validated_ok [OF rd ok old] obtain r consumed m' S' S1 where v:
    "LZ4_compress_generic_validated (stream_args p src dst n cap dd issue acc) m S = Some (r, consumed, m', S')"
    "comp_result a m cap r consumed m'" "update_context a S = Some S1" "table_inv a m S1 (s_currentOffset s + n) S'"
    unfolding cur sel by auto
  define s1 where "s1 = s\<lparr>s_dictCtx := 0, s_dictSize := (if dd = usingDictCtx then n else s_dictSize s + n),
    s_currentOffset := s_currentOffset s + n, s_tableType := byU32\<rparr>"
  have "u32 (s_dictSize s + n) = s_dictSize s + n" "u32 (s_currentOffset s + n) = s_currentOffset s + n"
    using s(2-5) n by (simp_all add: u32_id)
  then have S1: "S1 = S(p \<mapsto> s1)"
    using v(3) s(1) small(1) cc unfolding update_context_def sel
    by (cases "dd = usingDictCtx") (auto simp: s1_def Let_def)
  obtain b' where S': "S' = S(p \<mapsto> s1\<lparr>s_hashTable := b'\<rparr>)"
    and e: "entries_ok (idx_ok a m (s_currentOffset s + n)) byU32 (s1\<lparr>s_hashTable := b'\<rparr>)"
    using v(4) unfolding table_inv_def sel S1 by auto
  let ?s = "s1\<lparr>s_hashTable := b'\<rparr>"
  have "entries_ok (\<lambda>h. past_index (s_currentOffset ?s)) byU32 ?s"
    by (rule entries_ok_mono [OF e]) (use dd n in \<open>auto simp: idx_ok_def past_index_def s1_def sel cur split: if_splits\<close>)
  then have "linked ?s" using s n by (simp add: linked_def indexed_def s1_def)
  moreover have "frame m m' dst (dst + cap) \<and> 0 \<le> r \<and> r \<le> cap \<and>
     (0 < r \<longrightarrow> block_for (c_hist a (view a m)) (bytes m src (src + n)) (bytes m' dst (dst + r))) \<and>
     (LZ4_compressBound n \<le> cap \<longrightarrow> 0 < r)"
    using v(2) cap compressBound_eq [of n] n view_bytes [of a src m "src + n"]
    unfolding comp_result_def block_of_def block_for_def tight_def sel by auto
  moreover have "compress_plain p src dst n cap limitedOutput byU32 dd issue acc m S = Some (r, m', S(p \<mapsto> ?s))"
    using gen v(1) S' by (simp add: compress_plain_def)
  ultimately show ?thesis
    by (intro exI [of _ r] exI [of _ m'] exI [of _ ?s]) (simp add: s1_def)
qed

text \<open>The old entries, when the history is the one of the stream.\<close>

lemma linked_old_entries:
  assumes s: "S p = Some s" "linked s" and dd: "dd = withPrefix64k \<or> dd = usingExtDict"
  shows "old_entries (segment_args p src dst n cap limitedOutput byU32 dd (history_issue s) acc s) m S"
proof -
  let ?a = "segment_args p src dst n cap limitedOutput byU32 dd (history_issue s) acc s"
  have "entries_ok (idx_ok ?a m (s_currentOffset s + 1)) byU32 s"
  proof (rule entries_ok_mono [OF linked_entries [OF s(2)]])
    fix h i assume "past_index (s_currentOffset s) i"
    then show "idx_ok ?a m (s_currentOffset s + 1) h i"
      using s(2) by (auto simp: idx_ok_def past_index_def segment_args_def history_issue_def linked_def indexed_def)
  qed
  then show ?thesis using s(1) dd by (auto simp: old_entries_def dict_table_def segment_args_def)
qed

lemma linked_context:
  assumes "S p = Some s" "dd \<noteq> usingDictCtx"
  shows "read_context (stream_args p src dst n cap dd issue acc) S =
    Some (segment_args p src dst n cap limitedOutput byU32 dd issue acc s)"
  using assms by (simp add: read_context_def stream_args_def segment_args_def)

text \<open>
  The call of the generic compressor in prefix mode, on a history that ends where the source starts.
\<close>

lemma prefix_block:
  assumes s: "S p = Some s" "linked s" and off: "s_currentOffset s + n \<le> 2147483648"
    and n: "0 < n" "n \<le> LZ4_MAX_INPUT_SIZE" and acc: "1 \<le> acc" "acc \<le> LZ4_ACCELERATION_MAX"
    and b: "mapped m (src - s_dictSize s) (src + n)" "mapped m dst (dst + cap)" "0 \<le> cap" "cap < 2147483648"
      "src + n \<le> dst \<or> dst + cap \<le> src - s_dictSize s"
  shows "\<exists>r m' s'. compress_plain p src dst n cap limitedOutput byU32 withPrefix64k (history_issue s) acc m S = Some (r, m', S(p \<mapsto> s')) \<and>
     frame m m' dst (dst + cap) \<and> 0 \<le> r \<and> r \<le> cap \<and>
     (0 < r \<longrightarrow> block_for (bytes m (src - s_dictSize s) src) (bytes m src (src + n)) (bytes m' dst (dst + r))) \<and>
     (LZ4_compressBound n \<le> cap \<longrightarrow> 0 < r) \<and>
     linked s' \<and> s_dictionary s' = s_dictionary s \<and> s_dictSize s' = s_dictSize s + n"
proof -
  let ?a = "segment_args p src dst n cap limitedOutput byU32 withPrefix64k (history_issue s) acc s"
  have l: "0 \<le> s_currentOffset s" "0 \<le> s_dictSize s" "s_dictSize s \<le> s_currentOffset s" "s_dictCtx s = 0"
    using s(2) by (simp_all add: linked_def indexed_def)
  have ok: "comp_ok ?a m cap"
    using l off n acc b unfolding comp_ok_def
    by (auto simp: segment_args_def c_low_def c_iend_def index_table_def history_issue_def)
  have "view ?a m = m" by (rule prefix_view) (rule comp_okD(19) [OF ok])
  then have "c_hist ?a (view ?a m) = bytes m (src - s_dictSize s) src"
    by (simp add: segment_args_def c_hist_def c_low_def)
  moreover have rd: "read_context (stream_args p src dst n cap withPrefix64k (history_issue s) acc) S = Some ?a"
    by (rule linked_context [where S = S, OF s(1)]) simp
  have old: "old_entries ?a m S" by (rule linked_old_entries [where S = S, OF s]) simp
  note stream_block [where S = S and p = p and dd = withPrefix64k, OF s(1) l(1) off l(2,3) disjI1 [OF l(4)] _ rd comp_call [OF ok] old n b(3)]
  ultimately show ?thesis by simp
qed

section \<open>LZ4\_compress\_fast\_continue\<close>

text \<open>
  Where the history that the next block may use begins, when the block follows it in memory or the
  remembered history is too small to be kept; \<open>None\<close> for the other ways of continuing.
\<close>

definition history_start :: "LZ4_stream_t_internal \<Rightarrow> int \<Rightarrow> int option" where
  "history_start s src =
     (if s_dictSize s \<noteq> 0 \<and> s_dictionary s + s_dictSize s = src then Some (s_dictionary s)
      else if s_dictSize s < 4 then Some src
      else None)"

lemma continue_eq_prefix:
  assumes s: "S p = Some s" "linked s" and n: "0 < n" "n \<le> LZ4_MAX_INPUT_SIZE" and src: "0 < src"
    and lo: "history_start s src = Some lo"
  shows "\<exists>s'. LZ4_compress_fast_continue p src dst n cap acc m S =
       compress_plain p src dst n cap limitedOutput byU32 withPrefix64k (history_issue s') (clamp_acceleration acc) m (S(p \<mapsto> s')) \<and>
     linked s' \<and> s_currentOffset s' + n \<le> 2147483648 \<and> s_dictionary s' + s_dictSize s' = src \<and> lo \<le> s_dictionary s'"
proof -
  have n0: "0 \<le> n" using n(1) by simp
  obtain s1 where s1: "LZ4_renormDictT p n S = Some (S(p \<mapsto> s1))" "linked s1" "shorter_history s s1"
    "s_currentOffset s1 + n \<le> 2147483648"
    using renorm_ok [of S p s n, OF s n0 n(2)] by blast
  have l: "0 \<le> s_dictSize s1" "0 \<le> s_dictSize s" "s_dictCtx s1 = 0" using s1(2) s(2) by (simp_all add: linked_def indexed_def)
  define dictEnd where "dictEnd = (if s_dictSize s \<noteq> 0 then s_dictionary s + s_dictSize s else 0)"
  define s' where "s' = (if dictEnd = src then s1 else s1\<lparr>s_dictSize := 0, s_dictionary := src\<rparr>)"
  have tiny: "s_dictSize s1 < 4" if "dictEnd \<noteq> src"
    using that lo s1(3) l by (auto simp: history_start_def dictEnd_def shorter_history_def split: if_splits)
  have e1: "drop_tiny_dictionary s1 dictEnd src n = (s', src)"
    using tiny n(1) l(3) by (auto simp: drop_tiny_dictionary_def s'_def)
  have e2: "drop_overlapped_dictionary s' src src n = s'"
    using n(1) by (simp add: drop_overlapped_dictionary_def)
  have "LZ4_compress_fast_continue p src dst n cap acc m S =
      compress_plain p src dst n cap limitedOutput byU32 withPrefix64k (history_issue s') (clamp_acceleration acc) m (S(p \<mapsto> s'))"
    unfolding LZ4_compress_fast_continue_def s(1) Option.bind.simps Let_def s1(1) dictEnd_def [symmetric] fun_upd_same e1
      prod.case e2 fun_upd_upd if_P [OF refl] ..
  moreover have "linked s'"
  proof (cases "dictEnd = src")
    case False
    have "entries_ok (\<lambda>h. past_index (s_currentOffset s1)) byU32 s'"
      using linked_entries [OF s1(2)] entries_ok_table [of s' s1] by (simp add: s'_def)
    then show ?thesis using s1(2) False by (simp add: linked_def indexed_def s'_def)
  qed (use s1(2) in \<open>simp add: s'_def\<close>)
  moreover have "s_dictionary s' + s_dictSize s' = src \<and> lo \<le> s_dictionary s'"
  proof (cases "dictEnd = src")
    case True
    then have d: "s_dictSize s \<noteq> 0" "s_dictionary s + s_dictSize s = src" using src by (auto simp: dictEnd_def split: if_splits)
    then have "lo = s_dictionary s" using lo by (simp add: history_start_def)
    then show ?thesis using True d s1(3) by (simp add: s'_def shorter_history_def)
  next
    case False
    then have "lo = src" using lo by (auto simp: history_start_def dictEnd_def split: if_splits)
    then show ?thesis using False by (simp add: s'_def)
  qed
  moreover have "s_currentOffset s' = s_currentOffset s1" by (simp add: s'_def)
  ultimately show ?thesis using s1(4) by auto
qed

lemma continue_block:
  assumes s: "S p = Some s" "linked s" and n: "0 < n" "n \<le> LZ4_MAX_INPUT_SIZE" and src: "0 < src"
    and lo: "history_start s src = Some lo"
    and b: "mapped m lo (src + n)" "mapped m dst (dst + cap)" "0 \<le> cap" "cap < 2147483648" "src + n \<le> dst \<or> dst + cap \<le> lo"
  shows "\<exists>r m' s'. LZ4_compress_fast_continue p src dst n cap acc m S = Some (r, m', S(p \<mapsto> s')) \<and>
     frame m m' dst (dst + cap) \<and> 0 \<le> r \<and> r \<le> cap \<and>
     (0 < r \<longrightarrow> block_for (bytes m lo src) (bytes m src (src + n)) (bytes m' dst (dst + r))) \<and>
     (LZ4_compressBound n \<le> cap \<longrightarrow> 0 < r) \<and> linked s' \<and> 0 < s_dictSize s' \<and> s_dictionary s' + s_dictSize s' = src + n \<and> lo \<le> s_dictionary s'"
proof -
  obtain s1 where s1: "LZ4_compress_fast_continue p src dst n cap acc m S =
       compress_plain p src dst n cap limitedOutput byU32 withPrefix64k (history_issue s1) (clamp_acceleration acc) m (S(p \<mapsto> s1))"
    "linked s1" "s_currentOffset s1 + n \<le> 2147483648" "s_dictionary s1 + s_dictSize s1 = src" "lo \<le> s_dictionary s1"
    using continue_eq_prefix [of S p s n src lo, OF s n src lo] by blast
  have d: "src - s_dictSize s1 = s_dictionary s1" "0 \<le> s_dictSize s1" using s1(2,4) by (simp_all add: linked_def indexed_def)
  have m1: "mapped m (src - s_dictSize s1) (src + n)" "src + n \<le> dst \<or> dst + cap \<le> src - s_dictSize s1"
    using mapped_sub [OF b(1)] s1(5) b(5) d by auto
  have "(S(p \<mapsto> s1)) p = Some s1" by simp
  from prefix_block [of "S(p \<mapsto> s1)" p s1 n "clamp_acceleration acc" m src dst cap, OF this s1(2,3) n clamp_range m1(1) b(2-4) m1(2)]
  obtain r m' s' where c: "LZ4_compress_fast_continue p src dst n cap acc m S = Some (r, m', S(p \<mapsto> s'))"
    "frame m m' dst (dst + cap)" "0 \<le> r" "r \<le> cap"
    "0 < r \<longrightarrow> block_for (bytes m (src - s_dictSize s1) src) (bytes m src (src + n)) (bytes m' dst (dst + r))"
    "linked s'" "s_dictionary s' = s_dictionary s1" "s_dictSize s' = s_dictSize s1 + n" "LZ4_compressBound n \<le> cap \<longrightarrow> 0 < r"
    unfolding s1(1) fun_upd_upd by blast
  have "bytes m lo src = bytes m lo (src - s_dictSize s1) @ bytes m (src - s_dictSize s1) src"
    using d s1(5) by (intro bytes_append) auto
  then have "0 < r \<longrightarrow> block_for (bytes m lo src) (bytes m src (src + n)) (bytes m' dst (dst + r))"
    using c(5) block_for_prepend by metis
  moreover have "0 < s_dictSize s'" "s_dictionary s' + s_dictSize s' = src + n" "lo \<le> s_dictionary s'"
    using c(7,8) d n(1) s1(4,5) by simp_all
  ultimately show ?thesis using c(1-4,6,9) by blast
qed

section \<open>Loading a dictionary\<close>

text \<open>While a dictionary of \<open>s_dictSize s\<close> bytes is loaded its positions are those that end at 64 KB.\<close>

definition loaded_index :: "int \<Rightarrow> int \<Rightarrow> bool" where
  "loaded_index k i \<longleftrightarrow> 0 \<le> i \<and> (65536 - k \<le> i \<and> i + 8 \<le> 65536 \<or> i = 0)"

definition loading :: "streams \<Rightarrow> int \<Rightarrow> LZ4_stream_t_internal \<Rightarrow> streams \<Rightarrow> bool" where
  "loading S t s S' \<longleftrightarrow> (\<exists>b. S' = S(t \<mapsto> s\<lparr>s_hashTable := b\<rparr>) \<and>
     entries_ok (\<lambda>h. loaded_index (s_dictSize s)) byU32 (s\<lparr>s_hashTable := b\<rparr>))"

lemma loading_put:
  assumes l: "loading S t s S'" and m: "mapped m q (q + 8)" and i: "0 \<le> i" "65536 - s_dictSize s \<le> i" "i + 8 \<le> 65536"
  shows "\<exists>h S''. LZ4_hashPosition m q byU32 = Some h \<and> 0 \<le> h \<and> h < slots byU32 \<and>
     LZ4_putIndexOnHash S' i h t byU32 = Some S'' \<and> loading S t s S''"
proof -
  have it: "index_table byU32" by (simp add: index_table_def)
  obtain h where h: "LZ4_hashPosition m q byU32 = Some h" "0 \<le> h" "h < slots byU32"
    using hashPosition_ok [OF m it] by blast
  obtain b where b: "S' = S(t \<mapsto> s\<lparr>s_hashTable := b\<rparr>)"
    "entries_ok (\<lambda>h. loaded_index (s_dictSize s)) byU32 (s\<lparr>s_hashTable := b\<rparr>)"
    using l unfolding loading_def by blast
  have at: "S' t = Some (s\<lparr>s_hashTable := b\<rparr>)" using b(1) by simp
  have v: "i < 256 ^ slot_width byU32" using i by (simp add: slot_width_def)
  from putIndex_entries [of S' t "s\<lparr>s_hashTable := b\<rparr>" "\<lambda>h. loaded_index (s_dictSize s)" byU32 h i
      "\<lambda>h. loaded_index (s_dictSize s)", OF at b(2) it h(2,3) i(1) v] i loaded_index_def [of "s_dictSize s" i]
  obtain b' where "LZ4_putIndexOnHash S' i h t byU32 = Some (S'(t \<mapsto> s\<lparr>s_hashTable := b'\<rparr>))"
    "entries_ok (\<lambda>h. loaded_index (s_dictSize s)) byU32 (s\<lparr>s_hashTable := b'\<rparr>)" by auto
  then have "LZ4_putIndexOnHash S' i h t byU32 = Some (S(t \<mapsto> s\<lparr>s_hashTable := b'\<rparr>)) \<and> loading S t s (S(t \<mapsto> s\<lparr>s_hashTable := b'\<rparr>))"
    using b(1) unfolding loading_def by auto
  then show ?thesis using h by blast
qed

text \<open>Both loops index positions of the dictionary only.\<close>

lemma load_fast_loop:
  assumes l: "loading S t s S'" and m: "mapped m p dictEnd" and k: "0 \<le> idx" "65536 - s_dictSize s \<le> idx" "idx + (dictEnd - p) \<le> 65536"
  shows "\<exists>S''. cloop (load_fast_body m t dictEnd) (p, idx, S') = Some S'' \<and> loading S t s S''"
proof (rule cloop_total [where \<mu> = "\<lambda>(q, i, S'). nat (dictEnd - q)" and
      I = "\<lambda>(q, i, S'). p \<le> q \<and> 0 \<le> i \<and> 65536 - s_dictSize s \<le> i \<and> i + (dictEnd - q) \<le> 65536 \<and> loading S t s S'"])
  show "case (p, idx, S') of (q, i, S') \<Rightarrow> p \<le> q \<and> 0 \<le> i \<and> 65536 - s_dictSize s \<le> i \<and> i + (dictEnd - q) \<le> 65536 \<and> loading S t s S'"
    using l k by simp
next
  fix x assume "case x of (q, i, S') \<Rightarrow> p \<le> q \<and> 0 \<le> i \<and> 65536 - s_dictSize s \<le> i \<and> i + (dictEnd - q) \<le> 65536 \<and> loading S t s S'"
  then obtain q i T where x: "x = (q, i, T)" "p \<le> q" "0 \<le> i" "i + (dictEnd - q) \<le> 65536" "loading S t s T"
    "65536 - s_dictSize s \<le> i" by (cases x) auto
  show "(\<exists>s'. load_fast_body m t dictEnd x = Some (Inl s') \<and>
        (case s' of (q, i, S') \<Rightarrow> p \<le> q \<and> 0 \<le> i \<and> 65536 - s_dictSize s \<le> i \<and> i + (dictEnd - q) \<le> 65536 \<and> loading S t s S') \<and>
        (case s' of (q, i, S') \<Rightarrow> nat (dictEnd - q)) < (case x of (q, i, S') \<Rightarrow> nat (dictEnd - q))) \<or>
     (\<exists>r. load_fast_body m t dictEnd x = Some (Inr r) \<and> loading S t s r)"
  proof (cases "q \<le> dictEnd - HASH_UNIT")
    case True
    then have q: "q + 8 \<le> dictEnd" by (simp add: sizeof_ptr_def)
    have "mapped m q (q + 8)" using mapped_sub [OF m x(2) q] .
    from loading_put [OF x(5) this x(3,6)] q x(4) obtain h T' where
      h: "LZ4_hashPosition m q byU32 = Some h" "LZ4_putIndexOnHash T i h t byU32 = Some T'" "loading S t s T'" by auto
    have "u32 (i + 3) = i + 3" using x(3,4) q by (intro u32_id) auto
    then show ?thesis using True q h x by auto
  next
    case False
    then show ?thesis using x by simp
  qed
qed

lemma load_slow_loop:
  assumes l: "loading S t s S'" and m: "mapped m p dictEnd" and k: "0 \<le> idx" "65536 - s_dictSize s \<le> idx" "idx + (dictEnd - p) \<le> 65536"
  shows "\<exists>S''. cloop (load_slow_body m t dictEnd) (p, idx, S') = Some S'' \<and> loading S t s S''"
proof (rule cloop_total [where \<mu> = "\<lambda>(q, i, S'). nat (dictEnd - q)" and
      I = "\<lambda>(q, i, S'). p \<le> q \<and> 0 \<le> i \<and> 65536 - s_dictSize s \<le> i \<and> i + (dictEnd - q) \<le> 65536 \<and> loading S t s S'"])
  show "case (p, idx, S') of (q, i, S') \<Rightarrow> p \<le> q \<and> 0 \<le> i \<and> 65536 - s_dictSize s \<le> i \<and> i + (dictEnd - q) \<le> 65536 \<and> loading S t s S'"
    using l k by simp
next
  fix x assume "case x of (q, i, S') \<Rightarrow> p \<le> q \<and> 0 \<le> i \<and> 65536 - s_dictSize s \<le> i \<and> i + (dictEnd - q) \<le> 65536 \<and> loading S t s S'"
  then obtain q i T where x: "x = (q, i, T)" "p \<le> q" "0 \<le> i" "i + (dictEnd - q) \<le> 65536" "loading S t s T"
    "65536 - s_dictSize s \<le> i" by (cases x) auto
  show "(\<exists>s'. load_slow_body m t dictEnd x = Some (Inl s') \<and>
        (case s' of (q, i, S') \<Rightarrow> p \<le> q \<and> 0 \<le> i \<and> 65536 - s_dictSize s \<le> i \<and> i + (dictEnd - q) \<le> 65536 \<and> loading S t s S') \<and>
        (case s' of (q, i, S') \<Rightarrow> nat (dictEnd - q)) < (case x of (q, i, S') \<Rightarrow> nat (dictEnd - q))) \<or>
     (\<exists>r. load_slow_body m t dictEnd x = Some (Inr r) \<and> loading S t s r)"
  proof (cases "q \<le> dictEnd - HASH_UNIT")
    case True
    then have q: "q + 8 \<le> dictEnd" by (simp add: sizeof_ptr_def)
    have "mapped m q (q + 8)" using mapped_sub [OF m x(2) q] .
    from loading_put [OF x(5) this x(3,6)] q x(4) obtain h T' where
      h: "LZ4_hashPosition m q byU32 = Some h" "0 \<le> h" "h < slots byU32" "LZ4_putIndexOnHash T i h t byU32 = Some T'" "loading S t s T'"
      by auto
    obtain b where b: "T = S(t \<mapsto> s\<lparr>s_hashTable := b\<rparr>)"
      "entries_ok (\<lambda>h. loaded_index (s_dictSize s)) byU32 (s\<lparr>s_hashTable := b\<rparr>)"
      using x(5) unfolding loading_def by blast
    have at: "T t = Some (s\<lparr>s_hashTable := b\<rparr>)" using b(1) by simp
    obtain j where j: "LZ4_getIndexOnHash T h t byU32 = Some j"
      using getIndex_ok [of T t "s\<lparr>s_hashTable := b\<rparr>", OF at b(2) _ h(2,3)] by (auto simp: index_table_def)
    have "u32 (i + 1) = i + 1" using x(3,4) q by (intro u32_id) auto
    then show ?thesis
      using True q h x j at by (cases "j \<le> u32 (s_currentOffset s - 64 * KB)") auto
  next
    case False
    then show ?thesis using x by simp
  qed
qed

text \<open>
  What is loaded: at most the last 64 KB, nothing of a dictionary below 8 bytes. A stream with a loaded
  dictionary can also be attached to another one, since its entries are all inside the dictionary or zero.
\<close>

definition loaded :: "LZ4_stream_t_internal \<Rightarrow> bool" where
  "loaded d \<longleftrightarrow> s_currentOffset d = 65536 \<and> 8 \<le> s_dictSize d \<and> s_dictSize d \<le> 65536 \<and> s_dictCtx d = 0 \<and>
     entries_ok (\<lambda>h. loaded_index (s_dictSize d)) byU32 d"

lemma loaded_linked: "loaded d \<Longrightarrow> linked d"
  unfolding loaded_def linked_def indexed_def by (auto elim!: entries_ok_mono simp: loaded_index_def past_index_def)

lemma loadDict_ok:
  assumes t: "S t \<noteq> None" and d: "0 \<le> dictSize" "mapped m dictionary (dictionary + dictSize)"
  defines "k \<equiv> (if dictSize < 8 then 0 else min dictSize 65536)"
  shows "\<exists>s'. LZ4_loadDict_internal t dictionary dictSize ld m S = Some (k, S(t \<mapsto> s')) \<and> linked s' \<and> s_dictSize s' = k \<and>
     (0 < k \<longrightarrow> s_dictionary s' = dictionary + dictSize - k \<and> loaded s')"
proof -
  have r: "LZ4_resetStream S t = Some (S(t \<mapsto> zero_stream))" using t by (auto simp: LZ4_resetStream_def)
  have z: "s_currentOffset zero_stream = 0" by (simp add: zero_stream_def)
  have off: "u32 (s_currentOffset zero_stream + 64 * KB) = 65536" by (simp add: z u32_id)
  show ?thesis
  proof (cases "dictSize < 8")
    case True
    let ?s = "zero_stream\<lparr>s_currentOffset := 65536\<rparr>"
    have "LZ4_loadDict_internal t dictionary dictSize ld m S = Some (0, S(t \<mapsto> ?s))"
      using r True off by (simp add: LZ4_loadDict_internal_def sizeof_ptr_def Let_def)
    moreover have "entries_ok (\<lambda>h. past_index 65536) byU32 ?s"
      by (rule cleared_entries) (simp_all add: zero_stream_def index_table_def past_index_def)
    then have "linked ?s" by (simp add: linked_def indexed_def zero_stream_def)
    ultimately show ?thesis using True by (auto simp: k_def zero_stream_def)
  next
    case False
    define p where "p = dictionary + dictSize - k"
    have k: "8 \<le> k" "k \<le> dictSize" "k \<le> 65536" using False by (auto simp: k_def)
    have pc: "(if dictionary + dictSize - dictionary > 64 * KB then dictionary + dictSize - 64 * KB else dictionary) = p"
      using False by (auto simp: p_def k_def)
    have len: "dictionary + dictSize - p = k" by (simp add: p_def)
    have uk: "u32 k = k" "u32 (65536 - k) = 65536 - k" "s32 k = k" using k by (auto intro!: u32_id s32_id)
    define s where "s = zero_stream\<lparr>s_currentOffset := 65536, s_dictionary := p, s_dictSize := k, s_tableType := byU32\<rparr>"
    have mp: "mapped m p (dictionary + dictSize)" using mapped_sub [OF d(2)] k by (simp add: p_def)
    have idx: "0 \<le> 65536 - k" "65536 - s_dictSize s \<le> 65536 - k" "65536 - k + (dictionary + dictSize - p) \<le> 65536"
      using k len by (simp_all add: s_def)
    have "entries_ok (\<lambda>h. loaded_index (s_dictSize s)) byU32 (s\<lparr>s_hashTable := zero_table\<rparr>)"
      by (rule cleared_entries) (simp_all add: index_table_def loaded_index_def)
    moreover have "s\<lparr>s_hashTable := zero_table\<rparr> = s" by (simp add: s_def zero_stream_def)
    ultimately have l0: "loading S t s (S(t \<mapsto> s))" unfolding loading_def by (intro exI [of _ zero_table]) simp
    obtain S1 where S1: "cloop (load_fast_body m t (dictionary + dictSize)) (p, 65536 - k, S(t \<mapsto> s)) = Some S1" "loading S t s S1"
      using load_fast_loop [OF l0 mp idx] by blast
    obtain S2 where S2: "(if ld = ld_slow then cloop (load_slow_body m t (dictionary + dictSize)) (p, 65536 - k, S1) else Some S1) = Some S2"
      "loading S t s S2"
      using load_slow_loop [OF S1(2) mp idx] S1(2) by (cases "ld = ld_slow") auto
    obtain b where b: "S2 = S(t \<mapsto> s\<lparr>s_hashTable := b\<rparr>)"
      "entries_ok (\<lambda>h. loaded_index (s_dictSize s)) byU32 (s\<lparr>s_hashTable := b\<rparr>)"
      using S2(2) unfolding loading_def by blast
    have nl: "\<not> dictSize < HASH_UNIT" using False by (simp add: sizeof_ptr_def)
    have "LZ4_loadDict_internal t dictionary dictSize ld m S = Some (k, S2)"
      unfolding LZ4_loadDict_internal_def Let_def r Option.bind.simps fun_upd_same if_not_P [OF nl] pc off len uk
      using S1(1) S2(1) uk by (cases "ld = ld_slow") (simp_all add: s_def off)
    moreover have "loaded (s\<lparr>s_hashTable := b\<rparr>)" using b(2) k by (simp add: loaded_def s_def zero_stream_def)
    ultimately show ?thesis using b(1) loaded_linked by (auto simp: s_def p_def)
  qed
qed

end
