(* ===== verification/Lz4_StreamPipe.thy ===== *)
theory Lz4_StreamPipe
  imports Lz4_HcLoadDict Lz4_CompressStream Lz4_StreamDecode
begin

text \<open>
  Streams from end to end: an encoder that takes contiguous blocks of an input, one buffer that each
  compressed block passes through, and the streaming decoder, which appends to its output. What an
  encoder must promise is a locale, interpreted on \<open>LZ4_compress_fast_continue\<close> and on
  \<open>LZ4_compress_HC_continue\<close>.
\<close>

section \<open>A longer history does no harm\<close>

lemma expand_seq_append: "seq_ok h q \<Longrightarrow> expand_seq (P @ h) q = P @ expand_seq h q"
  by (cases q) (use copy_match_append [of "seq_off q" "h @ seq_lits q" P "seq_mlen q"] in simp)

lemma seqs_ok_append: "seqs_ok h qs \<Longrightarrow> seqs_ok (P @ h) qs \<and> foldl expand_seq (P @ h) qs = P @ foldl expand_seq h qs"
proof (induction qs arbitrary: h)
  case (Cons q qs)
  then have "seq_ok (P @ h) q" by (cases q) auto
  then show ?case using Cons.IH [of "expand_seq h q"] Cons.prems expand_seq_append [of h q P] by simp
qed simp

lemma block_for_longer:
  assumes "block_for D X B"
  shows "block_for (P @ D) X B"
proof -
  obtain qs ls where q: "B = encode_block qs ls" "seqs_ok D qs" "block_end_ok qs ls" "expand D qs ls = D @ X"
    using assms by (auto simp: block_for_def)
  then show ?thesis using seqs_ok_append [OF q(2), of P] unfolding block_for_def expand_def by fastforce
qed

section \<open>The decoder's end\<close>

text \<open>The decoder has written \<open>e0 .. e\<close>, in one piece, since the stream was set up.\<close>

definition decoder_at :: "LZ4_streamDecode_t_internal \<Rightarrow> int \<Rightarrow> int \<Rightarrow> bool" where
  "decoder_at sd e0 e \<longleftrightarrow> extDictSize sd = 0 \<and>
     (if e0 = e then prefixSize sd = 0 else e0 < e \<and> prefixEnd sd = e \<and> prefixSize sd = e - e0)"

lemma decoder_step:
  assumes asm: "asm_contract (lz4_asm E)" "asm_contract (lz4_asm_noprfm E)"
    and d: "decoder_at sd e0 e" "0 < e0" "e0 \<le> e" "mapped m e0 e" and b: "buffers_ok m s r e ecap"
    and blk: "block_for (bytes m e0 e) X (bytes m s (s + r))" and X: "X \<noteq> []" "int (length X) \<le> ecap"
  shows "\<exists>fns' sd' m'. LZ4_decompress_safe_continue E fns m sd s e r ecap = Some (fns', int (length X), sd', m') \<and>
     frame m m' e (e + ecap) \<and> bytes m' e (e + int (length X)) = X \<and> decoder_at sd' e0 (e + int (length X))"
proof -
  obtain qs ls where q: "bytes m s (s + r) = encode_block qs ls" "seqs_ok (bytes m e0 e) qs" "block_end_ok qs ls"
    "expand (bytes m e0 e) qs ls = bytes m e0 e @ X"
    using blk unfolding block_for_def by blast
  have len: "total_len qs ls = length X" using length_expand [of "bytes m e0 e" qs ls] q(4) by simp
  show ?thesis
  proof (cases "e0 = e")
    case True
    then have h: "bytes m e0 e = []" and sd: "prefixSize sd = 0" "extDictSize sd = 0" using d(1) by (simp_all add: decoder_at_def)
    have w: "u64 r = r" "u64 ecap = ecap" using b by (auto simp: buffers_ok_def intro!: u64_id)
    obtain fns' m' where m': "LZ4_arm64_decompress_safe E fns m s e r ecap False = Some (fns', int (length X), m')"
      "frame m m' e (e + ecap)" "bytes m' e (e + int (length X)) = X"
      using arm64_complete [OF asm b q(1) q(2) [unfolded h] q(3), of fns] X(2) q(4) unfolding len h by auto
    let ?sd = "sd\<lparr>prefixSize := int (length X), prefixEnd := e + int (length X)\<rparr>"
    have "LZ4_decompress_safe_continue E fns m sd s e r ecap = Some (fns', int (length X), ?sd, m')"
      using sd(1) m'(1) X(1) w by (simp add: LZ4_decompress_safe_continue_def)
    moreover have "decoder_at ?sd e0 (e + int (length X))" using True sd(2) X(1) by (simp add: decoder_at_def)
    ultimately show ?thesis using m'(2,3) by blast
  next
    case False
    then have sd: "extDictSize sd = 0" "e0 < e" "prefixEnd sd = e" "prefixSize sd = e - e0" using d(1) by (simp_all add: decoder_at_def)
    have "sd_prefix m sd = bytes m e0 e" "sd_history m sd = bytes m e0 e" using sd by (simp_all add: sd_prefix_def sd_history_def)
    then have r: "stream_ready sd m s r e ecap (bytes m e0 e)" using b d sd by (simp add: stream_ready_def sd_ok_def)
    from cont_dec.complete [OF r q(1) seqs_ok_fit [OF q(2)] q(3)] X(2) q(4)
    obtain m' where m': "continue_call sd m s r e ecap = Some (int (length X), m')" "frame m m' e (e + ecap)" "bytes m' e (e + int (length X)) = X"
      unfolding len by auto
    have "LZ4_decompress_safe_continue E fns m sd s e r ecap = Some (fns, int (length X), sd_after sd e (int (length X)), m')"
      using continue_eq [OF r] m'(1) X(1) by simp
    moreover have "decoder_at (sd_after sd e (int (length X))) e0 (e + int (length X))"
      using sd X(1) by (simp add: decoder_at_def sd_after_def)
    ultimately show ?thesis using m'(2,3) by blast
  qed
qed

section \<open>A stream\<close>

text \<open>
  The use of the two interfaces that their documentation describes: each block is compressed to \<open>dst\<close>, and
  from there decoded behind the blocks before it. A block of size \<open>bs\<close> is the largest one expected.
\<close>

fun stream_blocks ::
    "(int \<Rightarrow> int \<Rightarrow> int \<Rightarrow> int \<Rightarrow> mem \<Rightarrow> 's \<Rightarrow> (int \<times> mem \<times> 's) option) \<Rightarrow> cpu_env \<Rightarrow> int \<Rightarrow> int \<Rightarrow> int \<Rightarrow> int \<Rightarrow> int list \<Rightarrow>
     int \<times> int \<times> mem \<times> 's \<times> (nat \<Rightarrow> asm_fn) \<times> LZ4_streamDecode_t_internal \<Rightarrow>
     (int \<times> int \<times> mem \<times> 's \<times> (nat \<Rightarrow> asm_fn) \<times> LZ4_streamDecode_t_internal) option" where
  "stream_blocks enc E dst cap bs e_end [] st = Some st"
| "stream_blocks enc E dst cap bs e_end (n # ns) (src, e, m, S, fns, sd) = do {
     (r, m, S) \<leftarrow> enc src dst n cap m S;
     if r \<le> 0 then None
     else do {
       (fns, v, sd, m) \<leftarrow> LZ4_decompress_safe_continue E fns m sd dst e r (min bs (e_end - e));
       if v < 0 then None
       else stream_blocks enc E dst cap bs e_end ns (src + n, e + v, m, S, fns, sd) } }"

text \<open>Input, output and the buffer between them are apart.\<close>

definition pipe_layout :: "mem \<Rightarrow> int \<Rightarrow> int \<Rightarrow> int \<Rightarrow> int \<Rightarrow> int \<Rightarrow> int \<Rightarrow> bool" where
  "pipe_layout m s0 s_end e0 e_end dst cap \<longleftrightarrow> 0 < s0 \<and> 0 < e0 \<and> 0 < dst \<and> 0 \<le> cap \<and> cap < 2147483648 \<and>
     dst + cap + 2 ^ 40 \<le> 2 ^ 64 \<and> e_end + 2 ^ 40 \<le> 2 ^ 64 \<and>
     mapped m s0 s_end \<and> mapped m e0 e_end \<and> mapped m dst (dst + cap) \<and>
     (s_end \<le> dst \<or> dst + cap \<le> s0) \<and> (e_end \<le> dst \<or> dst + cap \<le> e0) \<and> (s_end \<le> e0 \<or> e_end \<le> s0)"

lemma pipe_layout_frame: "frame m m' lo hi \<Longrightarrow> pipe_layout m' s0 s_end e0 e_end dst cap = pipe_layout m s0 s_end e0 e_end dst cap"
  by (simp add: pipe_layout_def frame_mapped)

locale stream_encoder =
  fixes encode :: "int \<Rightarrow> int \<Rightarrow> int \<Rightarrow> int \<Rightarrow> mem \<Rightarrow> 's \<Rightarrow> (int \<times> mem \<times> 's) option"
    and at :: "'s \<Rightarrow> int \<Rightarrow> int \<Rightarrow> bool"
  assumes start: "at S lo src \<Longrightarrow> lo \<le> src"
    and block: "at S lo src \<Longrightarrow> 0 < lo \<Longrightarrow> 0 < n \<Longrightarrow> n \<le> LZ4_MAX_INPUT_SIZE \<Longrightarrow> mapped m lo (src + n) \<Longrightarrow> mapped m dst (dst + cap) \<Longrightarrow>
      0 \<le> cap \<Longrightarrow> cap < 2147483648 \<Longrightarrow> src + n \<le> dst \<or> dst + cap \<le> lo \<Longrightarrow>
      \<exists>r m' S' lo'. encode src dst n cap m S = Some (r, m', S') \<and> frame m m' dst (dst + cap) \<and> 0 \<le> r \<and> r \<le> cap \<and>
        (LZ4_compressBound n \<le> cap \<longrightarrow> 0 < r) \<and>
        (0 < r \<longrightarrow> block_for (bytes m lo src) (bytes m src (src + n)) (bytes m' dst (dst + r))) \<and> at S' lo' (src + n) \<and> lo \<le> lo'"
begin

text \<open>One block: its bytes reach the output, and both ends are ready for the next one.\<close>

lemma step:
  assumes asm: "asm_contract (lz4_asm E)" "asm_contract (lz4_asm_noprfm E)"
    and p: "pipe_layout m s0 s_end e0 e_end dst cap" and enc: "at S lo src" "s0 \<le> lo" and dec: "decoder_at sd e0 e" "e0 \<le> e"
    and same: "bytes m e0 e = bytes m s0 src"
    and n: "0 < n" "n \<le> bs" "bs \<le> LZ4_MAX_INPUT_SIZE" "src + n \<le> s_end" "e + n \<le> e_end" "LZ4_compressBound n \<le> cap"
  shows "\<exists>r m1 S' fns' sd' m' lo'. encode src dst n cap m S = Some (r, m1, S') \<and> 0 < r \<and>
     LZ4_decompress_safe_continue E fns m1 sd dst e r (min bs (e_end - e)) = Some (fns', n, sd', m') \<and>
     pipe_layout m' s0 s_end e0 e_end dst cap \<and> at S' lo' (src + n) \<and> s0 \<le> lo' \<and> decoder_at sd' e0 (e + n) \<and>
     bytes m' e0 (e + n) = bytes m' s0 (src + n) \<and> bytes m' s0 s_end = bytes m s0 s_end"
proof -
  note l = p [unfolded pipe_layout_def]
  have lo: "lo \<le> src" "0 < lo" using start [OF enc(1)] enc(2) l by simp_all
  have "mapped m s0 s_end" using l by simp
  then have "mapped m lo (src + n)" by (rule mapped_sub) (use enc(2) n(4) in auto)
  moreover have "src + n \<le> dst \<or> dst + cap \<le> lo" using l enc(2) n(4) by auto
  ultimately obtain r m1 S' lo' where c: "encode src dst n cap m S = Some (r, m1, S')" "frame m m1 dst (dst + cap)" "r \<le> cap" "0 < r"
    "block_for (bytes m lo src) (bytes m src (src + n)) (bytes m1 dst (dst + r))" "at S' lo' (src + n)" "lo \<le> lo'"
    using block [OF enc(1) lo(2) n(1), of m dst cap] l n(2,3,6) by auto
  let ?X = "bytes m src (src + n)" let ?k = "min bs (e_end - e)"
  have src0: "bytes m s0 src = bytes m s0 lo @ bytes m lo src" using enc(2) lo by (intro bytes_append) auto
  have "bytes m1 e0 e = bytes m e0 e" using l n(1,5) by (intro bytes_frame [OF c(2)]) auto
  then have blk: "block_for (bytes m1 e0 e) ?X (bytes m1 dst (dst + r))"
    using block_for_longer [OF c(5), of "bytes m s0 lo"] same src0 by simp
  have mp: "mapped m1 e0 e" "mapped m1 e (e + ?k)" "mapped m1 dst (dst + r)"
    using l dec(2) n(1,5) c(3) by (auto simp: frame_mapped [OF c(2)] intro: mapped_sub)
  have "buffers_ok m1 dst r e ?k" using mp(2,3) l dec(2) n c(3,4) by (auto simp: buffers_ok_def)
  moreover have X: "?X \<noteq> []" "int (length ?X) = n" using n(1) by (simp_all add: bytes_def)
  moreover have "0 < e0" using l by simp
  ultimately obtain fns' sd' m' where d: "LZ4_decompress_safe_continue E fns m1 sd dst e r ?k = Some (fns', n, sd', m')"
    "frame m1 m' e (e + ?k)" "bytes m' e (e + n) = ?X" "decoder_at sd' e0 (e + n)"
    using decoder_step [OF asm dec(1) _ dec(2) mp(1) _ blk X(1), of ?k fns] n(2,5) by auto
  have out: "bytes m' s0 s_end = bytes m s0 s_end"
  proof -
    have "bytes m' s0 s_end = bytes m1 s0 s_end" using l dec(2) n(1,5) by (intro bytes_frame [OF d(2)]) auto
    also have "\<dots> = bytes m s0 s_end" using l by (intro bytes_frame [OF c(2)]) auto
    finally show ?thesis .
  qed
  have prefix: "bytes m' s0 (src + n) = bytes m s0 (src + n)"
  proof -
    have "bytes m' s0 (src + n) = bytes m1 s0 (src + n)" using l dec(2) n(1,4,5) by (intro bytes_frame [OF d(2)]) auto
    also have "\<dots> = bytes m s0 (src + n)" using l n(4) by (intro bytes_frame [OF c(2)]) auto
    finally show ?thesis .
  qed
  have "bytes m' e0 (e + n) = bytes m' e0 e @ bytes m' e (e + n)" using dec(2) n(1) by (intro bytes_append) auto
  also have "bytes m' e0 e = bytes m1 e0 e" by (rule bytes_frame [OF d(2)]) simp
  also have "\<dots> = bytes m s0 src" using same \<open>bytes m1 e0 e = bytes m e0 e\<close> by simp
  also have "bytes m s0 src @ bytes m' e (e + n) = bytes m s0 (src + n)"
    unfolding d(3) using enc(2) lo(1) n(1) by (intro bytes_append [symmetric]) auto
  finally have "bytes m' e0 (e + n) = bytes m' s0 (src + n)" using prefix by simp
  moreover have "pipe_layout m' s0 s_end e0 e_end dst cap" using p by (simp add: pipe_layout_frame [OF d(2)] pipe_layout_frame [OF c(2)])
  moreover have "s0 \<le> lo'" using enc(2) c(7) by simp
  ultimately show ?thesis using c(1,4,6) d(1,4) out by blast
qed

text \<open>Any number of blocks.\<close>

lemma run:
  assumes asm: "asm_contract (lz4_asm E)" "asm_contract (lz4_asm_noprfm E)"
    and ns: "\<forall>n \<in> set ns. 0 < n \<and> n \<le> bs \<and> LZ4_compressBound n \<le> cap" "bs \<le> LZ4_MAX_INPUT_SIZE"
  shows "pipe_layout m s0 s_end e0 e_end dst cap \<Longrightarrow> at S lo src \<Longrightarrow> s0 \<le> lo \<Longrightarrow> decoder_at sd e0 e \<Longrightarrow> e0 \<le> e \<Longrightarrow>
     bytes m e0 e = bytes m s0 src \<Longrightarrow> src + sum_list ns \<le> s_end \<Longrightarrow> e + sum_list ns \<le> e_end \<Longrightarrow>
     \<exists>m' S' fns' sd'. stream_blocks encode E dst cap bs e_end ns (src, e, m, S, fns, sd) =
         Some (src + sum_list ns, e + sum_list ns, m', S', fns', sd') \<and>
       bytes m' e0 (e + sum_list ns) = bytes m' s0 (src + sum_list ns) \<and> bytes m' s0 s_end = bytes m s0 s_end"
  using ns(1)
proof (induction ns arbitrary: src e m S fns sd lo)
  case Nil
  then show ?case by simp
next
  case (Cons n ns)
  have n: "0 < n" "n \<le> bs" "LZ4_compressBound n \<le> cap" using Cons.prems(9) by simp_all
  have "0 \<le> sum_list ns" using Cons.prems(9) by (intro sum_list_nonneg) auto
  then have fits: "src + n \<le> s_end" "e + n \<le> e_end" using Cons.prems(7,8) by simp_all
  from step [OF asm Cons.prems(1-6) n(1,2) ns(2) fits n(3), of fns] obtain r m1 S1 fns1 sd1 m2 lo1 where
    s: "encode src dst n cap m S = Some (r, m1, S1)" "0 < r"
      "LZ4_decompress_safe_continue E fns m1 sd dst e r (min bs (e_end - e)) = Some (fns1, n, sd1, m2)"
    and i: "pipe_layout m2 s0 s_end e0 e_end dst cap" "at S1 lo1 (src + n)" "s0 \<le> lo1" "decoder_at sd1 e0 (e + n)"
      "bytes m2 e0 (e + n) = bytes m2 s0 (src + n)" and out: "bytes m2 s0 s_end = bytes m s0 s_end" by blast
  have "\<exists>m' S' fns' sd'. stream_blocks encode E dst cap bs e_end ns (src + n, e + n, m2, S1, fns1, sd1) =
       Some (src + n + sum_list ns, e + n + sum_list ns, m', S', fns', sd') \<and>
     bytes m' e0 (e + n + sum_list ns) = bytes m' s0 (src + n + sum_list ns) \<and> bytes m' s0 s_end = bytes m2 s0 s_end"
    by (rule Cons.IH [OF i(1-4) _ i(5)]) (use n(1) Cons.prems(5,7-9) in simp_all)
  then obtain m' S' fns' sd' where
    "stream_blocks encode E dst cap bs e_end ns (src + n, e + n, m2, S1, fns1, sd1) =
       Some (src + n + sum_list ns, e + n + sum_list ns, m', S', fns', sd')"
    "bytes m' e0 (e + n + sum_list ns) = bytes m' s0 (src + n + sum_list ns)" "bytes m' s0 s_end = bytes m2 s0 s_end" by blast
  moreover have "(r \<le> 0) = False" "(n < 0) = False" using s(2) n(1) by simp_all
  ultimately show ?case using s(1,3) out by (simp add: add.assoc)
qed

text \<open>From the first block on.\<close>

lemma whole:
  assumes "asm_contract (lz4_asm E)" "asm_contract (lz4_asm_noprfm E)" "pipe_layout m s0 s_end e0 e_end dst cap" "at S s0 s0"
    and "\<forall>n \<in> set ns. 0 < n \<and> n \<le> bs \<and> LZ4_compressBound n \<le> cap" "bs \<le> LZ4_MAX_INPUT_SIZE"
    and "s0 + sum_list ns \<le> s_end" "e0 + sum_list ns \<le> e_end"
  shows "\<exists>m' S' fns' sd'. stream_blocks encode E dst cap bs e_end ns (s0, e0, m, S, fns, fst (LZ4_setStreamDecode sd 0 0)) =
         Some (s0 + sum_list ns, e0 + sum_list ns, m', S', fns', sd') \<and>
       bytes m' e0 (e0 + sum_list ns) = bytes m s0 (s0 + sum_list ns)"
proof -
  have "decoder_at (fst (LZ4_setStreamDecode sd 0 0)) e0 e0" by (simp add: decoder_at_def LZ4_setStreamDecode_def u64_def)
  from run [OF assms(1,2,5,6,3,4) order.refl this order.refl _ assms(7,8), of fns] obtain m' S' fns' sd' where
    r: "stream_blocks encode E dst cap bs e_end ns (s0, e0, m, S, fns, fst (LZ4_setStreamDecode sd 0 0)) =
       Some (s0 + sum_list ns, e0 + sum_list ns, m', S', fns', sd')"
     "bytes m' e0 (e0 + sum_list ns) = bytes m' s0 (s0 + sum_list ns)" "bytes m' s0 s_end = bytes m s0 s_end" by auto
  have k: "0 \<le> sum_list ns" using assms(5) by (intro sum_list_nonneg) auto
  have "take (nat (sum_list ns)) (bytes m' s0 s_end) = bytes m' s0 (s0 + sum_list ns)" for m'
    using k assms(7) by (simp add: bytes_def take_map take_upt min_def)
  then have "bytes m' s0 (s0 + sum_list ns) = bytes m s0 (s0 + sum_list ns)" using r(3) by metis
  then show ?thesis using r by auto
qed

end

section \<open>The two encoders\<close>

definition fast_at :: "int \<Rightarrow> streams \<Rightarrow> int \<Rightarrow> int \<Rightarrow> bool" where
  "fast_at p S lo src \<longleftrightarrow> (\<exists>s. S p = Some s \<and> linked s \<and> history_start s src = Some lo)"

interpretation fast_stream: stream_encoder
  "\<lambda>src dst n cap m S. LZ4_compress_fast_continue p src dst n cap acceleration m S" "fast_at p" for p acceleration
proof
  show le: "lo \<le> src" if "fast_at p S lo src" for S lo src
    using that by (auto simp: fast_at_def linked_def indexed_def history_start_def split: if_splits)
  show "\<exists>r m' S' lo'. LZ4_compress_fast_continue p src dst n cap acceleration m S = Some (r, m', S') \<and> frame m m' dst (dst + cap) \<and>
      0 \<le> r \<and> r \<le> cap \<and> (LZ4_compressBound n \<le> cap \<longrightarrow> 0 < r) \<and>
      (0 < r \<longrightarrow> block_for (bytes m lo src) (bytes m src (src + n)) (bytes m' dst (dst + r))) \<and> fast_at p S' lo' (src + n) \<and> lo \<le> lo'"
    if a: "fast_at p S lo src" "0 < lo" "0 < n" "n \<le> LZ4_MAX_INPUT_SIZE" "mapped m lo (src + n)" "mapped m dst (dst + cap)" "0 \<le> cap"
      "cap < 2147483648" "src + n \<le> dst \<or> dst + cap \<le> lo" for S lo src n m dst cap
  proof -
    obtain s where s: "S p = Some s" "linked s" "history_start s src = Some lo" using a(1) by (auto simp: fast_at_def)
    have "0 < src" using a(1,2) le by fastforce
    from continue_block [where S = S and p = p and acc = acceleration, OF s(1,2) a(3,4) this s(3) a(5-9)] show ?thesis
      by (fastforce simp: fast_at_def history_start_def)
  qed
qed

definition hc_at :: "int \<Rightarrow> hcstreams \<Rightarrow> int \<Rightarrow> int \<Rightarrow> bool" where
  "hc_at p S lo src \<longleftrightarrow> p \<noteq> 0 \<and> (\<exists>c. S p = Some c \<and>
     (hc_linked c \<and> h_prefixStart c = lo \<and> h_end c = src \<or> hc_fresh c \<and> lo = src))"

interpretation hc_stream: stream_encoder
  "\<lambda>src dst n cap m S. LZ4_compress_HC_continue True m S p src dst n cap" "hc_at p" for p
proof
  show "lo \<le> src" if "hc_at p S lo src" for S lo src
    using that by (auto simp: hc_at_def hc_linked_def hc_before_def)
  show "\<exists>r m' S' lo'. LZ4_compress_HC_continue True m S p src dst n cap = Some (r, m', S') \<and> frame m m' dst (dst + cap) \<and>
      0 \<le> r \<and> r \<le> cap \<and> (LZ4_compressBound n \<le> cap \<longrightarrow> 0 < r) \<and>
      (0 < r \<longrightarrow> block_for (bytes m lo src) (bytes m src (src + n)) (bytes m' dst (dst + r))) \<and> hc_at p S' lo' (src + n) \<and> lo \<le> lo'"
    if a: "hc_at p S lo src" "0 < lo" "0 < n" "n \<le> LZ4_MAX_INPUT_SIZE" "mapped m lo (src + n)" "mapped m dst (dst + cap)" "0 \<le> cap"
      "cap < 2147483648" "src + n \<le> dst \<or> dst + cap \<le> lo" for S lo src n m dst cap
  proof -
    obtain c where c: "S p = Some c" "p \<noteq> 0" "hc_linked c \<and> h_prefixStart c = lo \<and> h_end c = src \<or> hc_fresh c \<and> lo = src"
      using a(1) by (auto simp: hc_at_def)
    have n: "0 \<le> n" using a(3) by simp
    from hc_stream_block [where S = S and p = p, OF c a(2) n a(4-9)] obtain r m' c' lo' where
      r: "LZ4_compress_HC_continue True m S p src dst n cap = Some (r, m', S(p \<mapsto> c'))" "frame m m' dst (dst + cap)" "0 \<le> r" "r \<le> cap"
      "LZ4_compressBound n \<le> cap \<longrightarrow> 0 < r" and b: "0 < r \<longrightarrow> block_for (bytes m lo' src) (bytes m src (src + n)) (bytes m' dst (dst + r))"
      and l: "hc_linked c'" "h_prefixStart c' = lo'" "h_end c' = src + n" "lo \<le> lo'" "lo' \<le> src" by blast
    have "bytes m lo src = bytes m lo lo' @ bytes m lo' src" using l(4,5) by (intro bytes_append) auto
    then have "0 < r \<longrightarrow> block_for (bytes m lo src) (bytes m src (src + n)) (bytes m' dst (dst + r))"
      using b block_for_longer by metis
    moreover have "hc_at p (S(p \<mapsto> c')) lo' (src + n)" using c(2) l(1-3) by (simp add: hc_at_def)
    ultimately show ?thesis using r l(4) by blast
  qed
qed

end
