(* ===== verification/Lz4_CompressTheorems.thy ===== *)
theory Lz4_CompressTheorems
  imports Lz4_CompressContract
begin

text \<open>
  The properties of the fast compressor, each with a witness on a small memory: twenty bytes of input
  at address 1000, a destination at 5000, a buffer for the decoded bytes at 7000, and a stream
  structure at address 8.
\<close>

section \<open>A concrete memory\<close>

definition text_bytes :: "byte list" where
  "text_bytes = [1, 2, 3, 4, 1, 2, 3, 4, 1, 2, 3, 4, 1, 2, 3, 4, 5, 6, 7, 8]"

definition text_mem :: mem where
  "text_mem = place 1000 text_bytes (place 5000 (replicate 60 0) (place 7000 (replicate 60 0) no_mem))"

definition text_streams :: streams where
  "text_streams = Map.empty(8 \<mapsto> zero_stream)"

lemma text_source: "bytes text_mem 1000 1020 = text_bytes"
  unfolding text_mem_def by (rule bytes_place) (simp add: text_bytes_def)

lemma text_mapped:
  assumes "n \<le> 20" "cap \<le> 60"
  shows "mapped text_mem 1000 (1000 + n)" "mapped text_mem 5000 (5000 + cap)" "mapped text_mem 7000 (7000 + cap)"
proof -
  show "mapped text_mem 1000 (1000 + n)"
    unfolding text_mem_def using assms by (intro mapped_place) (simp_all add: text_bytes_def)
  show "mapped text_mem 5000 (5000 + cap)"
    unfolding text_mem_def using assms by (intro mapped_place_other [OF mapped_place]) simp_all
  show "mapped text_mem 7000 (7000 + cap)"
    unfolding text_mem_def using assms by (intro mapped_place_other [OF mapped_place_other [OF mapped_place]]) simp_all
qed

lemma text_buffers: "0 \<le> n \<Longrightarrow> n \<le> 20 \<Longrightarrow> 0 \<le> cap \<Longrightarrow> cap \<le> 60 \<Longrightarrow> comp_buffers text_mem 1000 n 5000 cap"
  using text_mapped [of n cap] by (simp add: comp_buffers_def)

lemma text_decode_buffers: "0 \<le> cap \<Longrightarrow> cap \<le> 60 \<Longrightarrow> 0 \<le> e \<Longrightarrow> e \<le> 60 \<Longrightarrow> buffers_ok text_mem 5000 cap 7000 e"
  using text_mapped [of 0 cap] text_mapped [of 0 e] by (simp add: buffers_ok_def)

lemma text_ready: "state_ready 8 text_streams" "reusable 8 text_streams"
  using zero_stream_inv
  by (simp_all add: state_ready_def reusable_def text_streams_def LZ4_isAligned_def LZ4_stream_t_alignment_def sizeof_ptr_def u64_def)

lemma text_bound: "LZ4_compressBound 20 = 36"
  by (simp add: compressBound_eq)

section \<open>Round trips\<close>

text \<open>The block that a call left in the destination can be decoded from there.\<close>

lemma buffers_after:
  assumes "buffers_ok m d cap e ecap" "frame m m' d (d + cap)" "0 \<le> r" "r \<le> cap"
  shows "buffers_ok m' d r e ecap"
  using assms mapped_sub [of m d "d + cap" d "d + r"] by (auto simp: buffers_ok_def frame_mapped [OF assms(2)])

text \<open>
  C1: what \<open>LZ4_compress_fast\<close> produces, with any acceleration and whether or not the output is limited,
  is decoded by \<open>LZ4_decompress_safe\<close> to exactly the input. The call always returns; its result is
  zero only if the destination is below the compress bound.
\<close>

theorem compress_fast_roundtrip:
  assumes "state_ready wrkmem S" "comp_buffers m src n dst cap" "buffers_ok m dst cap e ecap"
    and "0 \<le> n" "n \<le> LZ4_MAX_INPUT_SIZE" "n \<le> ecap"
  shows "\<exists>r m' S'. LZ4_compress_fast src dst n cap acceleration wrkmem m S = Some (r, m', S') \<and> 0 \<le> r \<and> r \<le> cap \<and>
     (LZ4_compressBound n \<le> cap \<longrightarrow> 0 < r) \<and>
     (0 < r \<longrightarrow> (\<exists>m''. LZ4_decompress_safe m' dst e r ecap = Some (n, m'') \<and> bytes m'' e (e + n) = bytes m src (src + n)))"
proof -
  from fast.call [OF assms(1,2)] obtain r m' S' where c: "LZ4_compress_fast src dst n cap acceleration wrkmem m S = Some (r, m', S')"
    "compressed_as m src n dst cap r m'" by blast
  then have r: "0 \<le> r" "r \<le> cap" "frame m m' dst (dst + cap)" "LZ4_compressBound n \<le> cap \<Longrightarrow> 0 < r"
    using assms(4,5) by (simp_all add: compressed_as_def)
  have "0 < r \<Longrightarrow> \<exists>m''. LZ4_decompress_safe m' dst e r ecap = Some (n, m'') \<and> bytes m'' e (e + n) = bytes m src (src + n)"
    using fast.roundtrip [OF assms(1,2) c(1) _ buffers_after [OF assms(3) r(3,1,2)] assms(6)] by blast
  then show ?thesis using c(1) r by blast
qed

theorem compress_fast_roundtrip_witness:
  "\<exists>r m' S' m''. LZ4_compress_fast 1000 5000 20 40 3 8 text_mem text_streams = Some (r, m', S') \<and>
     LZ4_decompress_safe m' 5000 7000 r 60 = Some (20, m'') \<and> bytes m'' 7000 7020 = text_bytes"
  using compress_fast_roundtrip [OF text_ready(1) text_buffers [of 20 40] text_decode_buffers [of 40 60], of 3]
  by (auto simp: text_bound text_source)

text \<open>
  C11: with a destination of \<open>LZ4_compressBound\<close> bytes, \<open>LZ4_compress_default\<close> never fails and never
  needs more than the bound.
\<close>

theorem compress_default_bound:
  assumes "state_ready wrkmem S" "comp_buffers m src n dst cap" "0 \<le> n" "n \<le> LZ4_MAX_INPUT_SIZE" "LZ4_compressBound n \<le> cap"
  shows "\<exists>r m' S'. LZ4_compress_default src dst n cap wrkmem m S = Some (r, m', S') \<and> 0 < r \<and>
     r \<le> LZ4_compressBound n \<and> LZ4_compressBound n = n + n div 255 + 16"
  using default.bounded [OF assms] compressBound_eq [OF assms(3,4)] by simp

theorem compress_default_bound_witness:
  "\<exists>r m' S'. LZ4_compress_default 1000 5000 20 36 8 text_mem text_streams = Some (r, m', S') \<and> 0 < r \<and> r \<le> 36"
  using compress_default_bound [OF text_ready(1) text_buffers [of 20 36]] by (simp add: text_bound)

text \<open>
  C10: for every size and every capacity from 0 on that an \<open>int\<close> holds, and every acceleration, \<open>LZ4_compress_fast\<close>
  terminates without undefined behaviour (no access outside the buffers or the table, no overlapping
  \<open>memcpy\<close>), changes nothing outside the destination, and the state can be used again.
\<close>

theorem compress_fast_total:
  assumes "state_ready wrkmem S" "comp_buffers m src n dst cap"
  shows "\<exists>r m' S'. LZ4_compress_fast src dst n cap acceleration wrkmem m S = Some (r, m', S') \<and>
     frame m m' dst (dst + cap) \<and> 0 \<le> r \<and> r \<le> cap \<and> state_ready wrkmem S'"
  by (rule fast.total [OF assms])

theorem compress_fast_total_witness:
  "\<exists>r m' S'. LZ4_compress_fast 1000 5000 20 7 (- 5) 8 text_mem text_streams = Some (r, m', S') \<and>
     frame text_mem m' 5000 5007 \<and> 0 \<le> r \<and> r \<le> 7"
  using compress_fast_total [OF text_ready(1) text_buffers [of 20 7], of "- 5"] by auto

text \<open>
  C14: a negative size, or one above \<open>LZ4_MAX_INPUT_SIZE\<close>, is refused: the result is 0 and the memory is
  left as it was.
\<close>

theorem compress_fast_illegal_size:
  assumes "state_ready wrkmem S" "- 2147483648 \<le> n" "n < 2147483648" "n < 0 \<or> LZ4_MAX_INPUT_SIZE < n"
  shows "LZ4_compress_fast src dst n cap acceleration wrkmem m S = Some (0, m, S(wrkmem \<mapsto> zero_stream))"
proof -
  have "u32 n > u32 LZ4_MAX_INPUT_SIZE" using assms compressBound_illegal(1) [of n] by auto
  then have "compress_plain wrkmem src dst n out dir tt dd issue acc m S' = Some (0, m, S')" for out dir tt dd issue acc S'
    by (simp add: compress_plain_def LZ4_compress_generic_def)
  then show ?thesis
    unfolding LZ4_compress_fast_def LZ4_compress_fast_extState_def initStream_ready [OF assms(1)] by (simp add: Let_def)
qed

theorem compress_fast_illegal_size_witness:
  "LZ4_compress_fast 1000 5000 (- 1) 40 1 8 text_mem text_streams = Some (0, text_mem, text_streams(8 \<mapsto> zero_stream))"
  by (rule compress_fast_illegal_size [OF text_ready(1)]) simp_all

text \<open>
  C12: \<open>LZ4_compress_fast_extState_fastReset\<close>, which keeps the table of earlier calls, preserves the
  invariant of the stream (entries point before the current offset, a cleared table is zero) and its
  block expands to the input whatever the old entries are.
\<close>

theorem fastReset_invariant:
  assumes "S ctx = Some s" "stream_inv s" "comp_buffers m src n dst cap" "0 \<le> n" "n \<le> LZ4_MAX_INPUT_SIZE"
  shows "\<exists>r m' S' s'. LZ4_compress_fast_extState_fastReset ctx src dst n cap acceleration m S = Some (r, m', S') \<and>
     S' ctx = Some s' \<and> stream_inv s' \<and> (\<forall>t. t \<noteq> ctx \<longrightarrow> S' t = S t) \<and> frame m m' dst (dst + cap) \<and>
     (LZ4_compressBound n \<le> cap \<longrightarrow> 0 < r) \<and>
     (0 < r \<longrightarrow> block_for [] (bytes m src (src + n)) (bytes m' dst (dst + r)))"
proof -
  have "reusable ctx S" using assms(1,2) by (auto simp: reusable_def)
  from fastReset_call [OF this assms(3)] obtain r m' S' where
    c: "LZ4_compress_fast_extState_fastReset ctx src dst n cap acceleration m S = Some (r, m', S')"
    "compressed_as m src n dst cap r m'" "stream_after ctx S S'" by blast
  have "frame m m' dst (dst + cap)" "LZ4_compressBound n \<le> cap \<longrightarrow> 0 < r"
    "0 < r \<longrightarrow> block_for [] (bytes m src (src + n)) (bytes m' dst (dst + r))"
    using c(2) assms(4,5) by (simp_all add: compressed_as_def)
  then show ?thesis using c(1,3) by (auto simp: stream_after_def)
qed

theorem fastReset_invariant_witness:
  "\<exists>r m' S' s'. LZ4_compress_fast_extState_fastReset 8 1000 5000 20 40 1 text_mem text_streams = Some (r, m', S') \<and>
     S' 8 = Some s' \<and> stream_inv s' \<and> 0 < r \<and> block_for [] text_bytes (bytes m' 5000 (5000 + r))"
proof -
  have s: "text_streams 8 = Some zero_stream" by (simp add: text_streams_def)
  have b: "comp_buffers text_mem 1000 20 5000 40" by (rule text_buffers) simp_all
  have n: "0 \<le> (20 :: int)" "20 \<le> LZ4_MAX_INPUT_SIZE" by simp_all
  from fastReset_invariant [where S = text_streams and ctx = 8, OF s zero_stream_inv b n, of 1] show ?thesis by (auto simp: text_bound text_source)
qed

text \<open>
  C13: \<open>LZ4_compress_destSize\<close> fills the destination: whatever its capacity of at least one byte, it
  succeeds with a block for a prefix of the input, and that prefix has the length reported in
  \<open>*srcSizePtr\<close>; the whole input is consumed when the capacity reaches the bound. Decoding gives the
  prefix back.
\<close>

theorem compress_destSize_prefix:
  assumes "state_ready wrkmem S" "comp_buffers m src n dst cap" "buffers_ok m dst cap e ecap"
    and "0 \<le> n" "n \<le> LZ4_MAX_INPUT_SIZE" "1 \<le> cap" "n \<le> ecap"
  shows "\<exists>r k m' S' m''. LZ4_compress_destSize src dst n cap wrkmem m S = Some (r, k, m', S') \<and> frame m m' dst (dst + cap) \<and>
     0 < r \<and> r \<le> cap \<and> 0 \<le> k \<and> k \<le> n \<and> (LZ4_compressBound n \<le> cap \<longrightarrow> k = n) \<and>
     LZ4_decompress_safe m' dst e r ecap = Some (k, m'') \<and> bytes m'' e (e + k) = bytes m src (src + k)"
proof -
  from destSize_call [OF assms(1,2), of 1] obtain r k m' S' where
    c: "LZ4_compress_destSize src dst n cap wrkmem m S = Some (r, k, m', S')" and fr: "frame m m' dst (dst + cap)"
    and r: "0 < r" "r \<le> cap" and k: "0 \<le> k" "k \<le> n" "LZ4_compressBound n \<le> cap \<longrightarrow> k = n"
    and b: "block_for [] (bytes m src (src + k)) (bytes m' dst (dst + r))"
    using assms(4-6) unfolding LZ4_compress_destSize_def by auto
  have "buffers_ok m' dst r e ecap" using buffers_after [OF assms(3) fr] r by simp
  from block_for_decodes [OF b this] k assms(7) obtain m'' where
    "LZ4_decompress_safe m' dst e r ecap = Some (k, m'')" "bytes m'' e (e + k) = bytes m src (src + k)" by auto
  then show ?thesis using c fr r k by blast
qed

theorem compress_destSize_prefix_witness:
  "\<exists>r k m' S' m''. LZ4_compress_destSize 1000 5000 20 9 8 text_mem text_streams = Some (r, k, m', S') \<and> 0 < r \<and> r \<le> 9 \<and>
     LZ4_decompress_safe m' 5000 7000 r 60 = Some (k, m'') \<and> bytes m'' 7000 (7000 + k) = bytes text_mem 1000 (1000 + k)"
proof -
  have b: "comp_buffers text_mem 1000 20 5000 9" "buffers_ok text_mem 5000 9 7000 60"
    by (rule text_buffers; simp) (rule text_decode_buffers; simp)
  have n: "0 \<le> (20 :: int)" "20 \<le> LZ4_MAX_INPUT_SIZE" "1 \<le> (9 :: int)" "(20 :: int) \<le> 60" by simp_all
  from compress_destSize_prefix [OF text_ready(1) b n] show ?thesis by blast
qed

end
