(* ===== verification/Lz4_CompressStreamTheorems.thy ===== *)
theory Lz4_CompressStreamTheorems
  imports Lz4_CompressStream Lz4_CompressTheorems Lz4_StreamTheorems
begin

text \<open>
  The properties of streaming compression and of the routines under the compressor: counting of common
  bytes, the table, loading of a dictionary.
\<close>

section \<open>Streams\<close>

text \<open>
  C24: a stream of contiguous blocks. Whatever the table holds (its entries being positions before the
  offset), \<open>LZ4_compress_fast_continue\<close> returns, it succeeds when the capacity reaches the compress
  bound, its block expands to the input after the history in memory, and the stream it leaves fulfils the same invariant with the block added to its
  history, so any number of blocks can follow.
\<close>

theorem fast_continue_block:
  assumes "S p = Some s" "linked s" "0 < n" "n \<le> LZ4_MAX_INPUT_SIZE" "0 < src" "history_start s src = Some lo"
    and "mapped m lo (src + n)" "mapped m dst (dst + cap)" "0 \<le> cap" "cap < 2147483648" "src + n \<le> dst \<or> dst + cap \<le> lo"
  shows "\<exists>r m' s'. LZ4_compress_fast_continue p src dst n cap acceleration m S = Some (r, m', S(p \<mapsto> s')) \<and>
     frame m m' dst (dst + cap) \<and> 0 \<le> r \<and> r \<le> cap \<and>
     (0 < r \<longrightarrow> block_for (bytes m lo src) (bytes m src (src + n)) (bytes m' dst (dst + r))) \<and>
     (LZ4_compressBound n \<le> cap \<longrightarrow> 0 < r) \<and> linked s' \<and> history_start s' (src + n) = Some (s_dictionary s') \<and> lo \<le> s_dictionary s'"
proof -
  obtain r m' s' where c: "LZ4_compress_fast_continue p src dst n cap acceleration m S = Some (r, m', S(p \<mapsto> s'))"
    "frame m m' dst (dst + cap)" "0 \<le> r" "r \<le> cap"
    "0 < r \<longrightarrow> block_for (bytes m lo src) (bytes m src (src + n)) (bytes m' dst (dst + r))"
    "linked s'" "0 < s_dictSize s'" "s_dictionary s' + s_dictSize s' = src + n" "lo \<le> s_dictionary s'"
    "LZ4_compressBound n \<le> cap \<longrightarrow> 0 < r"
    using continue_block [of S p s n src lo m dst cap acceleration, OF assms] by blast
  have "history_start s' (src + n) = Some (s_dictionary s')" using c(7,8) by (simp add: history_start_def)
  then show ?thesis using c by blast
qed

theorem fast_continue_block_witness:
  "\<exists>r m' s'. LZ4_compress_fast_continue 8 1000 5000 20 40 1 text_mem text_streams = Some (r, m', text_streams(8 \<mapsto> s')) \<and>
     0 < r \<and> block_for [] text_bytes (bytes m' 5000 (5000 + r)) \<and> linked s'"
proof -
  have s: "text_streams 8 = Some zero_stream" by (simp add: text_streams_def)
  have h: "history_start zero_stream 1000 = Some 1000" by (simp add: history_start_def zero_stream_def)
  have mp: "mapped text_mem 1000 (1000 + 20)" "mapped text_mem 5000 (5000 + 40)" using text_mapped [of 20 40] by simp_all
  have n: "0 < (20 :: int)" "20 \<le> LZ4_MAX_INPUT_SIZE" "0 < (1000 :: int)" "0 \<le> (40 :: int)" "(40 :: int) < 2147483648"
    "1000 + 20 \<le> (5000 :: int) \<or> 5000 + 40 \<le> (1000 :: int)" by simp_all
  from fast_continue_block [of text_streams 8 zero_stream 20 1000 1000 text_mem 5000 40 1, OF s zero_linked n(1-3) h mp n(4-6)]
  show ?thesis by (auto simp: text_source text_bound)
qed

text \<open>
  C25: streaming round trip. The decoder's state stands for the history the encoder used; then the block
  produced by \<open>LZ4_compress_fast_continue\<close> is decoded by \<open>LZ4_decompress_safe_continue\<close> to the input,
  and the decoder's history has grown by it.
\<close>

theorem stream_roundtrip:
  assumes enc: "S p = Some s" "linked s" "0 < n" "n \<le> LZ4_MAX_INPUT_SIZE" "0 < src" "history_start s src = Some lo"
    and mem: "mapped m lo (src + n)" "mapped m dst (dst + cap)" "0 \<le> cap" "cap < 2147483648" "src + n \<le> dst \<or> dst + cap \<le> lo"
    and c: "LZ4_compress_fast_continue p src dst n cap acceleration m S = Some (r, m', S')" "0 < r"
    and dec: "stream_ready sd m' dst r e ecap (bytes m lo src)" "n \<le> ecap"
  shows "\<exists>sd' m''. LZ4_decompress_safe_continue E fns m' sd dst e r ecap = Some (fns, n, sd', m'') \<and>
     bytes m'' e (e + n) = bytes m src (src + n) \<and> sd_ok m'' sd' \<and>
     sd_history m'' sd' = (if prefixEnd sd = e then sd_history m' sd else sd_prefix m' sd) @ bytes m src (src + n)"
proof -
  let ?X = "bytes m src (src + n)" let ?D = "bytes m lo src"
  have "block_for ?D ?X (bytes m' dst (dst + r))"
    using continue_block [of S p s n src lo m dst cap acceleration, OF enc mem] c by auto
  then obtain qs ls where q: "bytes m' dst (dst + r) = encode_block qs ls" "seqs_ok ?D qs" "block_end_ok qs ls" "expand ?D qs ls = ?D @ ?X"
    unfolding block_for_def by blast
  have len: "int (length ?X) = n" using enc(3) by simp
  have "total_len qs ls = length ?X" using length_expand [of ?D qs ls] q(4) by simp
  with cont_dec.complete [OF dec(1) q(1) seqs_ok_fit [OF q(2)] q(3)] dec(2) len q(4)
  obtain m'' where m'': "continue_call sd m' dst r e ecap = Some (n, m'')" "frame m' m'' e (e + ecap)" "bytes m'' e (e + n) = ?X" by auto
  have "LZ4_decompress_safe_continue E fns m' sd dst e r ecap = Some (fns, n, sd_after sd e n, m'')"
    using continue_eq [OF dec(1)] m''(1) enc(3) by simp
  then show ?thesis using sd_after_ok [OF dec(1) m''(2) enc(3) dec(2)] m''(3) by auto
qed

text \<open>A stream whose history is the first four bytes of the text, and a decoder that has them as its prefix.\<close>

definition text_stream :: LZ4_stream_t_internal where
  "text_stream = zero_stream\<lparr>s_dictionary := 1000, s_dictSize := 4, s_currentOffset := 4\<rparr>"

definition text_sd :: LZ4_streamDecode_t_internal where
  "text_sd = \<lparr>externalDict = 0, prefixEnd = 1004, extDictSize = 0, prefixSize = 4\<rparr>"

lemma text_linked: "linked text_stream"
proof -
  have "entries_ok (\<lambda>h. past_index 4) byU32 text_stream"
    by (rule cleared_entries) (simp_all add: text_stream_def zero_stream_def index_table_def past_index_def)
  then show ?thesis by (simp add: linked_def indexed_def text_stream_def zero_stream_def)
qed

theorem stream_roundtrip_witness:
  "\<exists>r m' S' sd' m''. LZ4_compress_fast_continue 8 1004 5000 16 60 1 text_mem (Map.empty(8 \<mapsto> text_stream)) = Some (r, m', S') \<and>
     LZ4_decompress_safe_continue lazy_env initial_asm_fn m' text_sd 5000 7000 r 60 = Some (initial_asm_fn, 16, sd', m'') \<and>
     bytes m'' 7000 7016 = bytes text_mem 1004 1020"
proof -
  let ?S = "Map.empty(8 \<mapsto> text_stream)"
  have s: "?S 8 = Some text_stream" by simp
  have h: "history_start text_stream 1004 = Some 1000" by (simp add: history_start_def text_stream_def)
  have mp: "mapped text_mem 1000 (1004 + 16)" "mapped text_mem 5000 (5000 + 60)" using text_mapped [of 20 60] by simp_all
  have n: "0 < (16 :: int)" "16 \<le> LZ4_MAX_INPUT_SIZE" "0 < (1004 :: int)" "0 \<le> (60 :: int)" "(60 :: int) < 2147483648"
    "1004 + 16 \<le> (5000 :: int) \<or> 5000 + 60 \<le> (1000 :: int)" "(16 :: int) \<le> 60" by simp_all
  have bd: "LZ4_compressBound 16 = 32" by (simp add: compressBound_eq)
  obtain r m' s' where c: "LZ4_compress_fast_continue 8 1004 5000 16 60 1 text_mem ?S = Some (r, m', ?S(8 \<mapsto> s'))"
    and fr: "frame text_mem m' 5000 (5000 + 60)" and r: "0 \<le> r" "r \<le> 60" "0 < r"
    using continue_block [of ?S 8 text_stream 16 1004 1000 text_mem 5000 60 1, OF s text_linked n(1-3) h mp n(4-6)]
    by (auto simp: bd)
  have b: "buffers_ok m' 5000 r 7000 60"
    using buffers_after [OF text_decode_buffers [of 60 60] fr r(1,2)] by simp
  have pre: "bytes m' 1000 1004 = bytes text_mem 1000 1004" by (rule bytes_frame [OF fr]) simp
  have "mapped m' 1000 1004" using text_mapped [of 4 0] by (simp add: frame_mapped [OF fr])
  then have d: "stream_ready text_sd m' 5000 r 7000 60 (bytes text_mem 1000 1004)"
    using b pre by (simp add: stream_ready_def text_sd_def sd_ok_def sd_prefix_def)
  from stream_roundtrip [of ?S 8 text_stream 16 1004 1000 text_mem 5000 60 1, OF s text_linked n(1-3) h mp n(4-6) c r(3) d n(7),
      of lazy_env initial_asm_fn] c
  show ?thesis by auto
qed

text \<open>
  C34: \<open>LZ4_renormDictT\<close> keeps the offset from overflowing: after it, the next block fits below \<open>2 ^ 31\<close>,
  the entries of the table still are positions before the offset, the history ends where it did, and at
  least its last 64 KB (all that a match can reach) are kept.
\<close>

theorem renormDictT_bounds:
  assumes "S p = Some s" "linked s" "0 \<le> n" "n \<le> LZ4_MAX_INPUT_SIZE"
  shows "\<exists>s'. LZ4_renormDictT p n S = Some (S(p \<mapsto> s')) \<and> linked s' \<and> s_currentOffset s' + n \<le> 2 ^ 31 \<and>
     s_dictionary s' + s_dictSize s' = s_dictionary s + s_dictSize s \<and> min 65536 (s_dictSize s) \<le> s_dictSize s'"
proof -
  obtain s' where "LZ4_renormDictT p n S = Some (S(p \<mapsto> s'))" "linked s'" "shorter_history s s'" "s_currentOffset s' + n \<le> 2147483648"
    using renorm_ok [of S p s n, OF assms] by blast
  then show ?thesis by (intro exI [of _ s']) (auto simp: shorter_history_def)
qed

theorem renormDictT_bounds_witness:
  "\<exists>s'. LZ4_renormDictT 8 100 (Map.empty(8 \<mapsto> text_stream\<lparr>s_currentOffset := 2147483640\<rparr>)) = Some (Map.empty(8 \<mapsto> s')) \<and>
     s_currentOffset s' + 100 \<le> 2 ^ 31"
proof -
  let ?s = "text_stream\<lparr>s_currentOffset := 2147483640\<rparr>" let ?S = "Map.empty(8 \<mapsto> ?s)"
  have "entries_ok (\<lambda>h. past_index (s_currentOffset ?s)) byU32 ?s"
    by (rule cleared_entries) (simp_all add: text_stream_def zero_stream_def index_table_def past_index_def)
  then have l: "linked ?s" by (simp add: linked_def indexed_def text_stream_def zero_stream_def)
  have s: "?S 8 = Some ?s" by simp
  from renormDictT_bounds [of ?S 8 ?s 100, OF s l] show ?thesis by auto
qed

text \<open>
  C35: \<open>LZ4_loadDict\<close> and \<open>LZ4_loadDictSlow\<close> keep the last 64 KB of a dictionary of at least 8 bytes, report
  how much they keep, and leave a stream that fulfils the invariant of streaming compression.
\<close>

theorem loadDict_linked:
  assumes "S t \<noteq> None" "0 \<le> dictSize" "mapped m dictionary (dictionary + dictSize)"
  shows "\<exists>k s'. LZ4_loadDict_internal t dictionary dictSize ld m S = Some (k, S(t \<mapsto> s')) \<and>
     k = (if dictSize < 8 then 0 else min dictSize 65536) \<and> linked s' \<and> s_dictSize s' = k \<and>
     (0 < k \<longrightarrow> s_dictionary s' + k = dictionary + dictSize)"
proof -
  obtain s' where s': "LZ4_loadDict_internal t dictionary dictSize ld m S = Some (if dictSize < 8 then 0 else min dictSize 65536, S(t \<mapsto> s'))"
    "linked s'" "s_dictSize s' = (if dictSize < 8 then 0 else min dictSize 65536)"
    "0 < (if dictSize < 8 then 0 else min dictSize 65536) \<longrightarrow>
       s_dictionary s' = dictionary + dictSize - (if dictSize < 8 then 0 else min dictSize 65536)"
    using loadDict_ok [of S t dictSize m dictionary ld, OF assms] by blast
  then show ?thesis by (auto split: if_splits)
qed

theorem loadDict_linked_witness:
  "\<exists>s'. LZ4_loadDict_internal 8 1000 20 ld_slow text_mem text_streams = Some (20, text_streams(8 \<mapsto> s')) \<and> linked s' \<and>
     s_dictionary s' = 1000"
proof -
  have t: "text_streams 8 \<noteq> None" "0 \<le> (20 :: int)" "mapped text_mem 1000 (1000 + 20)"
    using text_mapped [of 20 0] by (simp_all add: text_streams_def)
  from loadDict_linked [of text_streams 8 20 text_mem 1000 ld_slow, OF t] show ?thesis by auto
qed

section \<open>The routines below\<close>

text \<open>
  C37: \<open>LZ4_count\<close>, which compares eight bytes at a time and finds the first difference with a bit trick,
  counts exactly the common prefix of the two ranges, up to the limit.
\<close>

theorem count_common_prefix:
  assumes "mapped m p (p + int n)" "mapped m q (q + int n)" "n < 2 ^ 32"
  shows "\<exists>k. LZ4_count LZ4_isLittleEndian m q p (q + int n) = Some (int k) \<and> k \<le> n \<and>
     (\<forall>i < k. m (p + int i) = m (q + int i)) \<and> (k < n \<longrightarrow> m (p + int k) \<noteq> m (q + int k))"
proof -
  have "LZ4_count LZ4_isLittleEndian m q p (q + int n) = Some (int (agree m p q n))"
    using LZ4_count_agree [OF assms] by (simp add: LZ4_isLittleEndian_def)
  then show ?thesis using agree_le [of m p q n] agree_eq [of _ m p q n] agree_maximal [of m p q n] by blast
qed

theorem count_common_prefix_witness:
  "\<exists>k. LZ4_count LZ4_isLittleEndian text_mem 1004 1000 1020 = Some (int k) \<and> k \<le> 16"
proof -
  have m: "mapped text_mem 1000 (1000 + int 16)" "mapped text_mem 1004 (1004 + int 16)"
    using text_mapped [of 20 0] mapped_sub [of text_mem 1000 1020] by simp_all
  from count_common_prefix [OF m] show ?thesis by auto
qed

text \<open>
  The table behaves as an array: after \<open>LZ4_putIndexOnHash\<close>, \<open>LZ4_getIndexOnHash\<close> returns the index
  at its own hash and what it returned before at every other, for both widths of entries.
\<close>

theorem table_put_get:
  assumes "S t = Some s" "mapped (s_hashTable s) 0 LZ4_HASHTABLESIZE" "index_table tt" "0 \<le> h" "h < slots tt"
    "0 \<le> v" "v < 256 ^ slot_width tt"
  shows "\<exists>S'. LZ4_putIndexOnHash S v h t tt = Some S' \<and>
     (\<forall>h'. 0 \<le> h' \<and> h' < slots tt \<longrightarrow>
        LZ4_getIndexOnHash S' h' t tt = (if h' = h then Some v else LZ4_getIndexOnHash S h' t tt))"
proof -
  obtain b where b: "tbl_store S t (slot_width tt) h v = Some (S(t \<mapsto> s\<lparr>s_hashTable := b\<rparr>))" "mapped b 0 LZ4_HASHTABLESIZE"
    "\<forall>h'. 0 \<le> h' \<and> h' < slots tt \<longrightarrow> entry (s\<lparr>s_hashTable := b\<rparr>) tt h' = (if h' = h then v else entry s tt h')"
    using tbl_store_ok [of S t s tt h v, OF assms] by blast
  let ?S = "S(t \<mapsto> s\<lparr>s_hashTable := b\<rparr>)"
  have at: "?S t = Some (s\<lparr>s_hashTable := b\<rparr>)" "mapped (s_hashTable (s\<lparr>s_hashTable := b\<rparr>)) 0 LZ4_HASHTABLESIZE"
    using b(2) by simp_all
  have "LZ4_getIndexOnHash ?S h' t tt = (if h' = h then Some v else LZ4_getIndexOnHash S h' t tt)"
    if "0 \<le> h' \<and> h' < slots tt" for h'
    using that b(3) tbl_load_ok [of ?S t "s\<lparr>s_hashTable := b\<rparr>" tt h', OF at assms(3)]
      tbl_load_ok [of S t s tt h', OF assms(1-3)] by (simp add: getIndex_eq [OF assms(3)])
  then show ?thesis using b(1) by (simp add: putIndex_eq [OF assms(3,6,7)])
qed

theorem table_put_get_witness:
  "\<exists>S'. LZ4_putIndexOnHash text_streams 77 5 8 byU32 = Some S' \<and> LZ4_getIndexOnHash S' 5 8 byU32 = Some 77"
proof -
  have s: "text_streams 8 = Some zero_stream" by (simp add: text_streams_def)
  have m: "mapped (s_hashTable zero_stream) 0 LZ4_HASHTABLESIZE" by (simp add: zero_stream_def zero_table_def mapped_def)
  have h: "index_table byU32" "0 \<le> (5 :: int)" "5 < slots byU32" "0 \<le> (77 :: int)" "(77 :: int) < 256 ^ slot_width byU32"
    by (simp_all add: index_table_def slots_def slot_width_def)
  from table_put_get [of text_streams 8 zero_stream byU32 5 77, OF s m h] h show ?thesis by auto
qed

text \<open>
  The portable variants of \<open>LZ4_NbCommonBytes\<close>, a mask and a multiplication on 64 and on 32 bits,
  agree with the builtin that the target uses, on every word but zero.
\<close>

theorem NbCommonBytes_portable:
  assumes "v \<noteq> 0" "w \<noteq> 0"
  shows "LZ4_NbCommonBytes True (uint v) = Some (uint (LZ4_NbCommonBytes_sw64 v)) \<and>
     LZ4_NbCommonBytes True (uint w) = Some (uint (LZ4_NbCommonBytes_sw32 w))"
  using NbCommonBytes_sw64_ok [OF assms(1)] NbCommonBytes_sw32_ok [OF assms(2)] ..

theorem NbCommonBytes_portable_witness:
  "LZ4_NbCommonBytes True 0x500000000 = Some (uint (LZ4_NbCommonBytes_sw64 0x500000000)) \<and>
   LZ4_NbCommonBytes True 0x70000 = Some (uint (LZ4_NbCommonBytes_sw32 0x70000))"
  using NbCommonBytes_portable [of "0x500000000" "0x70000"] by simp

end
