(* ===== verification/Lz4_HcTheorems.thy ===== *)
theory Lz4_HcTheorems
  imports Lz4_StreamPipe Lz4_CompressStreamTheorems
begin

text \<open>
  The properties of the HC compressor and of whole streams, with witnesses on the memory of
  \<open>Lz4_CompressTheorems\<close>. The HC compressor allocates a table in its optimal parser; the first argument of its
  functions says whether the allocator delivers it.
\<close>

section \<open>A concrete state\<close>

definition text_hc :: hcstreams where
  "text_hc = Map.empty(8 \<mapsto> zero_streamHC)"

lemma text_hc_aligned: "LZ4_isAligned 8 LZ4_streamHC_t_alignment" "\<not> LZ4_isAligned 9 LZ4_streamHC_t_alignment"
  by (simp_all add: LZ4_isAligned_def LZ4_streamHC_t_alignment_def sizeof_ptr_def u64_def)

lemma text_hc_ready: "hc_state_ready 8 text_hc" "hc_ready 8 text_hc"
  using text_hc_aligned zero_idle by (simp_all add: hc_state_ready_def hc_ready_def text_hc_def)

lemma text_hc_fresh: "hc_fresh zero_streamHC"
  by (simp add: hc_fresh_def zero_streamHC_def hc_entries_def)

section \<open>One block\<close>

text \<open>
  C2: with aligned working memory, whatever the level, what \<open>LZ4_compress_HC\<close> produces is decoded by
  \<open>LZ4_decompress_safe\<close> to exactly the input. The call always returns, and its result is zero only if the destination is below the
  compress bound.
\<close>

theorem compress_HC_roundtrip:
  assumes "hc_state_ready wrkmem S" "comp_buffers m src n dst cap" "buffers_ok m dst cap e ecap"
    and "0 \<le> n" "n \<le> LZ4_MAX_INPUT_SIZE" "n \<le> ecap"
  shows "\<exists>r m' S'. LZ4_compress_HC True m S src dst n cap level wrkmem = Some (r, m', S') \<and> 0 \<le> r \<and> r \<le> cap \<and>
     (LZ4_compressBound n \<le> cap \<longrightarrow> 0 < r) \<and>
     (0 < r \<longrightarrow> (\<exists>m''. LZ4_decompress_safe m' dst e r ecap = Some (n, m'') \<and> bytes m'' e (e + n) = bytes m src (src + n)))"
proof -
  from hc.call [OF assms(1,2)] obtain r m' S' where c: "LZ4_compress_HC True m S src dst n cap level wrkmem = Some (r, m', S')"
    "compressed_as m src n dst cap r m'" by blast
  then have r: "0 \<le> r" "r \<le> cap" "frame m m' dst (dst + cap)" "LZ4_compressBound n \<le> cap \<Longrightarrow> 0 < r"
    using assms(4,5) by (simp_all add: compressed_as_def)
  have "0 < r \<Longrightarrow> \<exists>m''. LZ4_decompress_safe m' dst e r ecap = Some (n, m'') \<and> bytes m'' e (e + n) = bytes m src (src + n)"
    using hc.roundtrip [OF assms(1,2) c(1) _ buffers_after [OF assms(3) r(3,1,2)] assms(6)] by blast
  then show ?thesis using c(1) r by blast
qed

theorem compress_HC_roundtrip_witness:
  "\<exists>r m' S' m''. LZ4_compress_HC True text_mem text_hc 1000 5000 20 40 12 8 = Some (r, m', S') \<and>
     LZ4_decompress_safe m' 5000 7000 r 60 = Some (20, m'') \<and> bytes m'' 7000 7020 = text_bytes"
  using compress_HC_roundtrip [OF text_hc_ready(1) text_buffers [of 20 40] text_decode_buffers [of 40 60], of 12]
  by (auto simp: text_bound text_source)

text \<open>
  C21: the levels from 10 on need a table from the allocator. When it fails, \<open>LZ4_compress_HC\<close>, with aligned
  working memory, returns 0 whatever the capacity, leaves the memory as it was, and marks the context dirty, so that no later call
  relies on its tables.
\<close>

theorem compress_HC_no_memory:
  assumes "hc_state_ready wrkmem S" "10 \<le> level" "0 \<le> n" "n \<le> LZ4_MAX_INPUT_SIZE"
  shows "\<exists>c'. LZ4_compress_HC False m S src dst n cap level wrkmem = Some (0, m, S(wrkmem \<mapsto> c')) \<and> h_dirty c' = 1"
proof -
  obtain c where c: "LZ4_initStreamHC S wrkmem sizeof_streamHC = Some (wrkmem, S(wrkmem \<mapsto> c))" "hc_ready wrkmem (S(wrkmem \<mapsto> c))"
    using initStreamHC_ready [OF assms(1)] by blast
  from reset_fast_ok [OF c(2), of level] obtain c1 where c1: "LZ4_resetStreamHC_fast (S(wrkmem \<mapsto> c)) wrkmem level = Some (S(wrkmem \<mapsto> c, wrkmem \<mapsto> c1))"
    "h_prefixStart c1 = 0" "h_end c1 = 0" "h_dictCtx c1 = 0" "0 \<le> h_dictLimit c1" "h_dictLimit c1 < 4294967296" "hc_entries (h_dictLimit c1 + 1) c1" by blast
  have z: "wrkmem \<noteq> 0" "LZ4_isAligned wrkmem LZ4_streamHC_t_alignment" using assms(1) by (simp_all add: hc_state_ready_def)
  note i = init_before(3) [OF c1(2,3,5-7) assms(3,4), of src]
  have st: "strat (LZ4HC_getCLevelParams level) = lz4opt"
  proof -
    have "min 12 level = 10 \<or> min 12 level = 11 \<or> min 12 level = 12" using assms(2) by linarith
    then show ?thesis using assms(2) unfolding getCLevelParams_range by (auto simp: k_clTable_def)
  qed
  have u: "(u32 n > u32 LZ4_MAX_INPUT_SIZE) = False" using assms(3,4) by (simp add: u32_id)
  have gen: "LZ4HC_compress_generic False m S' wrkmem src dst n cap level dir =
      Some (0, n, m, S'(wrkmem \<mapsto> c\<lparr>h_end := h_end c + n, h_dirty := 1\<rparr>))"
    if "S' wrkmem = Some c" "h_dictCtx c = 0" "dir \<noteq> fillOutput" for S' c dir
    using that(2,3) unfolding LZ4HC_compress_generic_def LZ4HC_compress_generic_noDictCtx_def LZ4HC_compress_generic_internal_def that(1) u
    by (simp add: Let_def st LZ4HC_compress_optimal_def)
  let ?c = "LZ4HC_init_internal c1 src"
  have "LZ4_compress_HC False m S src dst n cap level wrkmem = Some (0, m, S(wrkmem \<mapsto> ?c\<lparr>h_end := h_end ?c + n, h_dirty := 1\<rparr>))"
    unfolding LZ4_compress_HC_def LZ4_compress_HC_extStateHC_def LZ4_compress_HC_extStateHC_fastReset_def c(1)
    using z c1(1,4) i by (simp add: gen)
  then show ?thesis by (rule exI [where x = "?c\<lparr>h_end := h_end ?c + n, h_dirty := 1\<rparr>", OF conjI]) simp
qed

theorem compress_HC_no_memory_witness:
  "\<exists>c'. LZ4_compress_HC False text_mem text_hc 1000 5000 20 60 12 8 = Some (0, text_mem, text_hc(8 \<mapsto> c')) \<and> h_dirty c' = 1"
  by (rule compress_HC_no_memory [OF text_hc_ready(1)]) simp_all

text \<open>
  C15: for every size and every capacity from 0 on that an \<open>int\<close> holds, and every level, \<open>LZ4_compress_HC\<close> terminates
  without undefined behaviour (no access outside the buffers, the tables or the price table), changes nothing
  outside the destination, and the state can be used again. Working memory that is \<open>NULL\<close> or not aligned
  for a context is refused: the result is 0 and nothing is changed.
\<close>

theorem compress_HC_total:
  assumes "wrkmem = 0 \<or> \<not> LZ4_isAligned wrkmem LZ4_streamHC_t_alignment \<or> S wrkmem \<noteq> None" "comp_buffers m src n dst cap"
  shows "\<exists>r m' S'. LZ4_compress_HC True m S src dst n cap level wrkmem = Some (r, m', S') \<and>
     frame m m' dst (dst + cap) \<and> 0 \<le> r \<and> r \<le> cap \<and>
     (if wrkmem = 0 \<or> \<not> LZ4_isAligned wrkmem LZ4_streamHC_t_alignment then r = 0 \<and> m' = m \<and> S' = S
      else hc_state_ready wrkmem S')"
proof (cases "wrkmem = 0 \<or> \<not> LZ4_isAligned wrkmem LZ4_streamHC_t_alignment")
  case True
  moreover have "0 \<le> cap" using assms(2) by (simp add: comp_buffers_def)
  ultimately show ?thesis by (simp add: LZ4_compress_HC_def extStateHC_refused frame_refl)
next
  case False
  then have "hc_state_ready wrkmem S" using assms(1) by (simp add: hc_state_ready_def)
  from hc.total [OF this assms(2)] False show ?thesis by simp
qed

theorem compress_HC_total_witness:
  "(\<exists>r m' S'. LZ4_compress_HC True text_mem text_hc 1000 5000 20 7 9 8 = Some (r, m', S') \<and>
      frame text_mem m' 5000 5007 \<and> 0 \<le> r \<and> r \<le> 7 \<and> hc_state_ready 8 S') \<and>
   LZ4_compress_HC True text_mem text_hc 1000 5000 20 7 9 9 = Some (0, text_mem, text_hc)"
  using compress_HC_total [of 8 text_hc, OF _ text_buffers [of 20 7], of 9]
    compress_HC_total [of 9 text_hc, OF _ text_buffers [of 20 7], of 9] text_hc_aligned by (auto simp: text_hc_def)

text \<open>
  C16: \<open>LZ4_compress_HC_extStateHC_fastReset\<close>, which keeps the tables of earlier calls at whatever levels in an
  aligned state, preserves the invariant of the context (a context that is not dirty holds only positions that were
  indexed), and its block expands to the input whatever the old entries are.
\<close>

theorem hc_fastReset_invariant:
  assumes "state \<noteq> 0" "LZ4_isAligned state LZ4_streamHC_t_alignment" "S state = Some c" "hc_idle c"
    and "comp_buffers m src n dst cap" "0 \<le> n" "n \<le> LZ4_MAX_INPUT_SIZE"
  shows "\<exists>r m' c'. LZ4_compress_HC_extStateHC_fastReset True m S state src dst n cap level = Some (r, m', S(state \<mapsto> c')) \<and>
     hc_idle c' \<and> frame m m' dst (dst + cap) \<and> (LZ4_compressBound n \<le> cap \<longrightarrow> 0 < r) \<and>
     (0 < r \<longrightarrow> block_for [] (bytes m src (src + n)) (bytes m' dst (dst + r)))"
proof -
  have "hc_ready state S" using assms(1-4) by (simp add: hc_ready_def)
  from fastReset_hc_call [OF this assms(5), of level] show ?thesis using assms(6,7) by (auto simp: compressed_as_def)
qed

theorem hc_fastReset_invariant_witness:
  "\<exists>r m' c'. LZ4_compress_HC_extStateHC_fastReset True text_mem text_hc 8 1000 5000 20 40 5 = Some (r, m', text_hc(8 \<mapsto> c')) \<and>
     hc_idle c' \<and> 0 < r \<and> block_for [] text_bytes (bytes m' 5000 (5000 + r))"
proof -
  have s: "(8 :: int) \<noteq> 0" "LZ4_isAligned 8 LZ4_streamHC_t_alignment" "text_hc 8 = Some zero_streamHC"
    using text_hc_aligned by (simp_all add: text_hc_def)
  have b: "comp_buffers text_mem 1000 20 5000 40" by (rule text_buffers) simp_all
  have n: "0 \<le> (20 :: int)" "20 \<le> LZ4_MAX_INPUT_SIZE" by simp_all
  from hc_fastReset_invariant [where S = text_hc and state = 8, OF s zero_idle b n, of 5] show ?thesis by (auto simp: text_bound text_source)
qed

text \<open>
  C17: \<open>LZ4_compress_HC_destSize\<close>, with an aligned state, fills the destination: whatever its capacity of at least one byte and the
  level, it succeeds with a block for a prefix of the input, whose length it reports. Decoding gives the
  prefix back.
\<close>

theorem compress_HC_destSize_prefix:
  assumes "hc_state_ready state S" "comp_buffers m src n dst cap" "buffers_ok m dst cap e ecap"
    and "0 \<le> n" "n \<le> LZ4_MAX_INPUT_SIZE" "1 \<le> cap" "n \<le> ecap"
  shows "\<exists>r k m' S' m''. LZ4_compress_HC_destSize True m S state src dst n cap level = Some (r, k, m', S') \<and>
     frame m m' dst (dst + cap) \<and> 0 < r \<and> r \<le> cap \<and> 0 \<le> k \<and> k \<le> n \<and>
     LZ4_decompress_safe m' dst e r ecap = Some (k, m'') \<and> bytes m'' e (e + k) = bytes m src (src + k)"
proof -
  from hc_destSize_call [OF assms(1,2,4-6), of level] obtain r k m' S' where
    c: "LZ4_compress_HC_destSize True m S state src dst n cap level = Some (r, k, m', S')" "filled_as m src dst cap r (Some k) m'" "0 < r" "k \<le> n"
    by blast
  have f: "frame m m' dst (dst + cap)" "r \<le> cap" "0 \<le> k" "block_for [] (bytes m src (src + k)) (bytes m' dst (dst + r))"
    using c(2,3) by (simp_all add: filled_as_def)
  have "buffers_ok m' dst r e ecap" using buffers_after [OF assms(3) f(1)] c(3) f(2) by simp
  from block_for_decodes [OF f(4) this] f(3) c(4) assms(7) obtain m'' where
    "LZ4_decompress_safe m' dst e r ecap = Some (k, m'')" "bytes m'' e (e + k) = bytes m src (src + k)" by auto
  then show ?thesis using c(1,3,4) f(1-3) by blast
qed

theorem compress_HC_destSize_prefix_witness:
  "\<exists>r k m' S' m''. LZ4_compress_HC_destSize True text_mem text_hc 8 1000 5000 20 9 10 = Some (r, k, m', S') \<and> 0 < r \<and> r \<le> 9 \<and>
     LZ4_decompress_safe m' 5000 7000 r 60 = Some (k, m'') \<and> bytes m'' 7000 (7000 + k) = bytes text_mem 1000 (1000 + k)"
proof -
  have b: "comp_buffers text_mem 1000 20 5000 9" "buffers_ok text_mem 5000 9 7000 60"
    by (rule text_buffers; simp) (rule text_decode_buffers; simp)
  have n: "0 \<le> (20 :: int)" "20 \<le> LZ4_MAX_INPUT_SIZE" "1 \<le> (9 :: int)" "(20 :: int) \<le> 60" by simp_all
  from compress_HC_destSize_prefix [OF text_hc_ready(1) b n, of 10] show ?thesis by blast
qed

section \<open>Streams\<close>

text \<open>
  C18: a stream of contiguous blocks at any level. A block that continues the stream, or is its first, is
  compressed with a history that ends at it, and the context fulfils the invariant again, so any number of
  blocks can follow: before the 32-bit indexes run out, the context is rebuilt from the last 64 KB.
\<close>

theorem HC_continue_block:
  assumes "S p = Some c" "p \<noteq> 0" "hc_linked c \<and> h_prefixStart c = lo \<and> h_end c = src \<or> hc_fresh c \<and> lo = src" "0 < lo"
    and "0 \<le> n" "n \<le> LZ4_MAX_INPUT_SIZE" "mapped m lo (src + n)" "mapped m dst (dst + cap)" "0 \<le> cap" "cap < 2147483648"
      "src + n \<le> dst \<or> dst + cap \<le> lo"
  shows "\<exists>r m' c'. LZ4_compress_HC_continue True m S p src dst n cap = Some (r, m', S(p \<mapsto> c')) \<and>
     frame m m' dst (dst + cap) \<and> 0 \<le> r \<and> r \<le> cap \<and> (LZ4_compressBound n \<le> cap \<longrightarrow> 0 < r) \<and>
     (0 < r \<longrightarrow> block_for (bytes m (h_prefixStart c') src) (bytes m src (src + n)) (bytes m' dst (dst + r))) \<and>
     hc_linked c' \<and> lo \<le> h_prefixStart c' \<and> h_prefixStart c' \<le> src \<and> h_end c' = src + n"
  using hc_stream_block [where S = S and p = p, OF assms] by blast

theorem HC_continue_block_witness:
  "\<exists>r m' c'. LZ4_compress_HC_continue True text_mem text_hc 8 1000 5000 20 40 = Some (r, m', text_hc(8 \<mapsto> c')) \<and>
     0 < r \<and> block_for (bytes text_mem (h_prefixStart c') 1000) text_bytes (bytes m' 5000 (5000 + r)) \<and> hc_linked c' \<and> h_end c' = 1020"
proof -
  have s: "text_hc 8 = Some zero_streamHC" "(8 :: int) \<noteq> 0" by (simp_all add: text_hc_def)
  have h: "hc_linked zero_streamHC \<and> h_prefixStart zero_streamHC = 1000 \<and> h_end zero_streamHC = 1000 \<or> hc_fresh zero_streamHC \<and> (1000 :: int) = 1000"
    using text_hc_fresh by simp
  have mp: "mapped text_mem 1000 (1000 + 20)" "mapped text_mem 5000 (5000 + 40)" using text_mapped [of 20 40] by simp_all
  have n: "0 < (1000 :: int)" "0 \<le> (20 :: int)" "20 \<le> LZ4_MAX_INPUT_SIZE" "0 \<le> (40 :: int)" "(40 :: int) < 2147483648"
    "1000 + 20 \<le> (5000 :: int) \<or> 5000 + 40 \<le> (1000 :: int)" by simp_all
  from HC_continue_block [where S = text_hc and p = 8, OF s h n(1-3) mp n(4-6)] show ?thesis by (auto simp: text_source text_bound)
qed

text \<open>
  C6: whole streams. A new encoder, one buffer between the two, and a new decoder: whatever the input and however
  it is cut into blocks, every call of \<open>LZ4_compress_fast_continue\<close> and of \<open>LZ4_decompress_safe_continue\<close>
  succeeds, and in the end all of the input has arrived in the output. There is no bound on the number of
  blocks; the buffer needs the compress bound of a block. The decoder may take its first block by the assembler
  path, whose two routines are assumed to keep \<open>asm_contract\<close>.
\<close>

theorem fast_stream_delivers:
  assumes "asm_contract (lz4_asm E)" "asm_contract (lz4_asm_noprfm E)" "pipe_layout m s0 s_end e0 e_end dst cap"
    and "S p = Some s" "linked s" "s_dictSize s = 0"
    and "\<forall>n \<in> set ns. 0 < n \<and> n \<le> bs \<and> LZ4_compressBound n \<le> cap" "bs \<le> LZ4_MAX_INPUT_SIZE"
    and "s0 + sum_list ns \<le> s_end" "e0 + sum_list ns \<le> e_end"
  shows "\<exists>m' S' fns' sd'. stream_blocks (\<lambda>src dst n cap m S. LZ4_compress_fast_continue p src dst n cap acceleration m S) E dst cap bs e_end ns
         (s0, e0, m, S, fns, fst (LZ4_setStreamDecode sd 0 0)) = Some (s0 + sum_list ns, e0 + sum_list ns, m', S', fns', sd') \<and>
       bytes m' e0 (e0 + sum_list ns) = bytes m s0 (s0 + sum_list ns)"
proof (rule fast_stream.whole [OF assms(1-3) _ assms(7-10)])
  show "fast_at p S s0 s0" using assms(4-6) by (simp add: fast_at_def history_start_def)
qed

lemma text_layout: "pipe_layout text_mem 1000 1020 7000 7060 5000 60"
  using text_mapped [of 20 60] by (simp add: pipe_layout_def)

lemma lazy_env_contract: "asm_contract (lz4_asm lazy_env)" "asm_contract (lz4_asm_noprfm lazy_env)"
  using lazy_contract by (simp_all add: lazy_env_def)

theorem fast_stream_delivers_witness:
  "\<exists>m' S' fns' sd'. stream_blocks (\<lambda>src dst n cap m S. LZ4_compress_fast_continue 8 src dst n cap 1 m S) lazy_env 5000 60 16 7060 [8, 12]
       (1000, 7000, text_mem, text_streams, initial_asm_fn, fst (LZ4_setStreamDecode text_sd 0 0)) = Some (1020, 7020, m', S', fns', sd') \<and>
     bytes m' 7000 7020 = text_bytes"
proof -
  have s: "text_streams 8 = Some zero_stream" "s_dictSize zero_stream = 0" by (simp_all add: text_streams_def zero_stream_def)
  have n: "\<forall>n \<in> set [8, 12]. 0 < n \<and> n \<le> 16 \<and> LZ4_compressBound n \<le> 60" "(16 :: int) \<le> LZ4_MAX_INPUT_SIZE"
    "1000 + sum_list [8, 12] \<le> (1020 :: int)" "7000 + sum_list [8, 12] \<le> (7060 :: int)" by (simp_all add: compressBound_eq)
  from fast_stream_delivers [where S = text_streams and p = 8, OF lazy_env_contract text_layout s(1) zero_linked s(2) n, of 1 initial_asm_fn text_sd]
  show ?thesis by (simp add: text_source)
qed

text \<open>
  C7: the same for \<open>LZ4_compress_HC_continue\<close> at any level: every block of the stream is delivered, under the
  same assumption on the assembler routines.
\<close>

theorem hc_stream_delivers:
  assumes "asm_contract (lz4_asm E)" "asm_contract (lz4_asm_noprfm E)" "pipe_layout m s0 s_end e0 e_end dst cap"
    and "p \<noteq> 0" "S p = Some c" "hc_fresh c"
    and "\<forall>n \<in> set ns. 0 < n \<and> n \<le> bs \<and> LZ4_compressBound n \<le> cap" "bs \<le> LZ4_MAX_INPUT_SIZE"
    and "s0 + sum_list ns \<le> s_end" "e0 + sum_list ns \<le> e_end"
  shows "\<exists>m' S' fns' sd'. stream_blocks (\<lambda>src dst n cap m S. LZ4_compress_HC_continue True m S p src dst n cap) E dst cap bs e_end ns
         (s0, e0, m, S, fns, fst (LZ4_setStreamDecode sd 0 0)) = Some (s0 + sum_list ns, e0 + sum_list ns, m', S', fns', sd') \<and>
       bytes m' e0 (e0 + sum_list ns) = bytes m s0 (s0 + sum_list ns)"
proof (rule hc_stream.whole [OF assms(1-3) _ assms(7-10)])
  show "hc_at p S s0 s0" using assms(4-6) by (simp add: hc_at_def)
qed

theorem hc_stream_delivers_witness:
  "\<exists>m' S' fns' sd'. stream_blocks (\<lambda>src dst n cap m S. LZ4_compress_HC_continue True m S 8 src dst n cap) lazy_env 5000 60 16 7060 [4, 16]
       (1000, 7000, text_mem, text_hc, initial_asm_fn, fst (LZ4_setStreamDecode text_sd 0 0)) = Some (1020, 7020, m', S', fns', sd') \<and>
     bytes m' 7000 7020 = text_bytes"
proof -
  have s: "(8 :: int) \<noteq> 0" "text_hc 8 = Some zero_streamHC" by (simp_all add: text_hc_def)
  have n: "\<forall>n \<in> set [4, 16]. 0 < n \<and> n \<le> 16 \<and> LZ4_compressBound n \<le> 60" "(16 :: int) \<le> LZ4_MAX_INPUT_SIZE"
    "1000 + sum_list [4, 16] \<le> (1020 :: int)" "7000 + sum_list [4, 16] \<le> (7060 :: int)" by (simp_all add: compressBound_eq)
  from hc_stream_delivers [where S = text_hc and p = 8, OF lazy_env_contract text_layout s text_hc_fresh n, of initial_asm_fn text_sd]
  show ?thesis by (simp add: text_source)
qed

text \<open>
  C22: \<open>LZ4_loadDictHC\<close> resets an aligned context, whatever it holds, keeps the last 64 KB of the dictionary,
  whichever tables the level needs, and establishes the invariant of the stream: the next block can follow the
  dictionary.
\<close>

theorem loadDictHC_linked:
  assumes "S p = Some c" "p \<noteq> 0" "LZ4_isAligned p LZ4_streamHC_t_alignment"
    and "0 < dictionary" "0 \<le> n" "n < 2147483648" "mapped m dictionary (dictionary + n)"
  shows "\<exists>c'. LZ4_loadDictHC m S p dictionary n = Some (min n 65536, S(p \<mapsto> c')) \<and> hc_linked c' \<and> h_dirty c' = 0 \<and>
     h_prefixStart c' = dictionary + max 0 (n - 65536) \<and> h_end c' = dictionary + n"
  using LZ4_loadDictHC_ok [where S = S and p = p, OF assms] by blast

theorem loadDictHC_linked_witness:
  "\<exists>c'. LZ4_loadDictHC text_mem text_hc 8 1000 20 = Some (20, text_hc(8 \<mapsto> c')) \<and> hc_linked c' \<and> h_end c' = 1020"
proof -
  have s: "text_hc 8 = Some zero_streamHC" "(8 :: int) \<noteq> 0" "LZ4_isAligned 8 LZ4_streamHC_t_alignment" "0 < (1000 :: int)" "0 \<le> (20 :: int)" "(20 :: int) < 2147483648"
    "mapped text_mem 1000 (1000 + 20)" using text_mapped [of 20 0] text_hc_aligned by (simp_all add: text_hc_def)
  from loadDictHC_linked [where S = text_hc and p = 8, OF s] show ?thesis by auto
qed

end
