(* ===== verification/Lz4_HcRoutineTheorems.thy ===== *)
theory Lz4_HcRoutineTheorems
  imports Lz4_HcTheorems
begin

text \<open>
  The properties of the routines that the three HC compressors share: encoding of a sequence, the search of
  the chains, insertion into the tables, counting backwards, prices.
\<close>

section \<open>Encoding\<close>

text \<open>
  C20: \<open>LZ4HC_encodeSequence\<close> refines the format. When what has been written stands for the input up to
  \<open>anchor\<close>, and \<open>ip\<close> has a match of \<open>ml\<close> bytes, the call either writes one more sequence, after which the output
  stands for the input up to the end of the match, or it reports that the output is full and what was
  written before still stands. It never fails on an output that is large enough.
\<close>

theorem encodeSequence_refines:
  assumes "comp_ok a m0 cap" "hc_written a m0 cap qs op anchor m" "anchor \<le> ip" "ip < c_mflimitPlusOne a" "4 \<le> ml" "ip + ml \<le> c_matchlimit a"
    and "match_at a m0 ip (ip - d) ml"
  shows "\<exists>fail ip' op' anchor' m'. LZ4HC_encodeSequence m ip op anchor ml d (c_outputDirective a) (hc_oend a) = Some (fail, ip', op', anchor', m') \<and>
     (if fail = 0 then ip' = ip + ml \<and> anchor' = ip + ml \<and> (\<exists>q. hc_written a m0 cap (qs @ [q]) op' anchor' m')
      else c_outputDirective a \<noteq> notLimited \<and> (c_outputDirective a = limitedOutput \<longrightarrow> tight a cap) \<and> hc_written a m0 cap qs op anchor m')"
  using LZ4HC_encodeSequence_ok [OF assms] by (fastforce simp: seq_done_def)

definition text_ctx :: LZ4HC_CCtx_internal where
  "text_ctx = LZ4HC_init_internal zero_streamHC 1000"

lemma text_ctx_before: "hc_before text_ctx 1000 20" "h_prefixStart text_ctx = 1000"
proof -
  have z: "h_prefixStart zero_streamHC = 0" "h_end zero_streamHC = 0" "0 \<le> h_dictLimit zero_streamHC" "h_dictLimit zero_streamHC < 4294967296"
    "hc_entries (h_dictLimit zero_streamHC + 1) zero_streamHC" using text_hc_fresh by (simp_all add: hc_fresh_def)
  note i = init_before [OF z, of 20 1000]
  show "hc_before text_ctx 1000 20" "h_prefixStart text_ctx = 1000" unfolding text_ctx_def by (rule i; simp)+
qed

definition text_args :: cargs where
  "text_args = hc_args 1000 5000 20 60 notLimited text_ctx"

lemma text_comp_ok: "comp_ok text_args text_mem 60"
  unfolding text_args_def
proof (rule hc_comp_ok [OF text_ctx_before(1)])
  show "hc_buffers text_mem text_ctx 1000 5000 20 60 notLimited 60"
    using text_mapped [of 20 60] text_ctx_before(2) by (simp add: hc_buffers_def text_bound)
qed simp

lemma text_repeats: "0 \<le> k \<Longrightarrow> k < 8 \<Longrightarrow> text_mem (1000 + k) = text_mem (1004 + k)"
proof -
  assume k: "0 \<le> k" "k < 8"
  have b: "the (text_mem (1000 + int i)) = text_bytes ! i" if "i < 20" for i
    using arg_cong [OF text_source, of "\<lambda>xs. xs ! i"] that by (simp add: bytes_def)
  have d: "text_mem (1000 + int i) \<noteq> None" if "i < 20" for i using mappedD [OF text_mapped(1) [of 20 0], of "1000 + int i"] that by auto
  have "text_bytes ! nat k = text_bytes ! (nat k + 4)"
  proof -
    have "nat k = 0 \<or> nat k = 1 \<or> nat k = 2 \<or> nat k = 3 \<or> nat k = 4 \<or> nat k = 5 \<or> nat k = 6 \<or> nat k = 7" using k by linarith
    then show ?thesis by (elim disjE) (simp_all add: text_bytes_def)
  qed
  then have "the (text_mem (1000 + int (nat k))) = the (text_mem (1000 + int (nat k + 4)))" using b [of "nat k"] b [of "nat k + 4"] k by simp
  moreover have "text_mem (1000 + k) \<noteq> None" "text_mem (1004 + k) \<noteq> None" using d [of "nat k"] d [of "nat k + 4"] k by auto
  ultimately show "text_mem (1000 + k) = text_mem (1004 + k)" using k by auto
qed

theorem encodeSequence_refines_witness:
  "\<exists>op' m' q. LZ4HC_encodeSequence text_mem 1004 5000 1000 8 4 notLimited 5060 = Some (0, 1012, op', 1012, m') \<and>
     hc_written text_args text_mem 60 [q] op' 1012 m'"
proof -
  have f: "c_outputDirective text_args = notLimited" "hc_oend text_args = 5060" "c_dest text_args = 5000" "c_source text_args = 1000" "c_iend text_args = 1020"
    "c_low text_args = 1000"
    using text_ctx_before(2) by (simp_all add: text_args_def hc_oend_def c_olimit_def)
  have w: "hc_written text_args text_mem 60 [] 5000 1000 text_mem" using hc_written_start [OF text_comp_ok] by (simp add: f)
  have mt: "match_at text_args text_mem 1004 (1004 - 4) 8" using text_repeats by (simp add: match_at_def f)
  from encodeSequence_refines [OF text_comp_ok w _ _ _ _ mt] show ?thesis
    by (auto simp: f c_mflimitPlusOne_def c_matchlimit_def split: if_splits)
qed

section \<open>Searching\<close>

text \<open>
  C19: \<open>LZ4HC_InsertAndGetWiderMatch\<close> reports only true matches. For every content of the tables (positions
  that were indexed), every number of attempts and with or without pattern analysis and chain swapping, it
  stays in the window; and if it reports more than the \<open>longest\<close> bytes asked for, they lie inside
  the limits, the distance fits into 16 bits, and the bytes at that distance are equal.
\<close>

theorem wider_match_sound:
  assumes "search_ok m c a low iend" "hc_entries (hc_index c (w_ip a)) c"
    and "h_dictLimit c \<le> h_nextToUpdate c" "h_nextToUpdate c \<le> hc_index c (w_ip a)"
    and "w_ip a - w_iLowLimit a < longest" "w_iLowLimit a + longest \<le> w_iHighLimit a"
  shows "\<exists>md c'. LZ4HC_InsertAndGetWiderMatch m c D a longest attempts = Some (md, c') \<and>
     hc_same c c' \<and> hc_entries (hc_index c (w_ip a)) c' \<and> h_nextToUpdate c' = hc_index c (w_ip a) \<and>
     (md_len md = longest \<and> md_off md = 0 \<and> md_back md = 0 \<or>
      longest < md_len md \<and> md_back md \<le> 0 \<and> w_iLowLimit a \<le> w_ip a + md_back md \<and>
      w_ip a + md_back md + md_len md \<le> w_iHighLimit a \<and> 1 \<le> md_off md \<and> md_off md \<le> 65535 \<and>
      low \<le> w_ip a + md_back md - md_off md \<and>
      (\<forall>k. 0 \<le> k \<and> k < md_len md \<longrightarrow> m (w_ip a + md_back md - md_off md + k) = m (w_ip a + md_back md + k)))"
  using InsertAndGetWiderMatch_ok [OF assms, of D attempts] unfolding hc_found_def hc_match_def by blast

definition text_search :: hcargs where
  "text_search = \<lparr>w_ip = 1004, w_iLowLimit = 1004, w_iHighLimit = 1015, w_patternAnalysis = True, w_chainSwap = True, w_dict = noDictCtx,
     w_favorDecSpeed = favorCompressionRatio\<rparr>"

theorem wider_match_sound_witness:
  "\<exists>md c'. LZ4HC_InsertAndGetWiderMatch text_mem text_ctx None text_search 3 4 = Some (md, c') \<and>
     (md_len md = 3 \<or> 3 < md_len md \<and> (\<forall>k. 0 \<le> k \<and> k < md_len md \<longrightarrow> text_mem (1004 + md_back md - md_off md + k) = text_mem (1004 + md_back md + k)))"
proof -
  have c: "hc_ctx 1000 1020 text_ctx" "hc_entries (hc_index text_ctx 1000) text_ctx" "h_dictLimit text_ctx \<le> h_nextToUpdate text_ctx"
    "h_nextToUpdate text_ctx \<le> hc_index text_ctx 1000" using text_ctx_before by (simp_all add: hc_before_def)
  have f: "w_ip text_search = 1004" "w_iLowLimit text_search = 1004" "w_iHighLimit text_search = 1015" "w_dict text_search = noDictCtx"
    by (simp_all add: text_search_def)
  have s: "search_ok text_mem text_ctx text_search 1000 1020" using c(1) text_mapped(1) [of 20 0] by (simp add: search_ok_def f)
  have e: "hc_entries (hc_index text_ctx (w_ip text_search)) text_ctx" using c(2) by (rule hc_entries_mono) (simp add: hc_index_def f)
  have n: "h_nextToUpdate text_ctx \<le> hc_index text_ctx (w_ip text_search)" using c(4) by (simp add: hc_index_def f)
  have l: "w_ip text_search - w_iLowLimit text_search < 3" "w_iLowLimit text_search + 3 \<le> w_iHighLimit text_search" by (simp_all add: f)
  from wider_match_sound [OF s e c(3) n l, of None 4] show ?thesis unfolding f by blast
qed

text \<open>
  C38: \<open>LZ4HC_countBack\<close>, which compares four bytes at a time and then single bytes, finds exactly the longest
  common end of the two ranges, cut at both lower limits.
\<close>

theorem countBack_suffix:
  assumes "int n = min (ip - iMin) (mtch - mMin)" "n < 2 ^ 31" "mapped m (ip - int n) ip" "mapped m (mtch - int n) mtch"
  shows "\<exists>k. LZ4HC_countBack m ip mtch iMin mMin = Some (- int k) \<and> k \<le> n \<and>
     (\<forall>i < k. m (ip - 1 - int i) = m (mtch - 1 - int i)) \<and> (k < n \<longrightarrow> m (ip - 1 - int k) \<noteq> m (mtch - 1 - int k))"
  using LZ4HC_countBack_agree [OF assms] agree_back_le [of m ip mtch n] agree_back_eq [of _ m ip mtch n] agree_back_maximal [of m ip mtch n]
  by blast

theorem countBack_suffix_witness:
  "\<exists>k. LZ4HC_countBack text_mem 1012 1008 1000 1000 = Some (- int k) \<and> k \<le> 8 \<and>
     (\<forall>i < k. text_mem (1012 - 1 - int i) = text_mem (1008 - 1 - int i))"
proof -
  have h: "int 8 = min (1012 - 1000) (1008 - 1000 :: int)" "(8 :: nat) < 2 ^ 31" "mapped text_mem (1012 - int 8) 1012" "mapped text_mem (1008 - int 8) 1008"
    using mapped_sub [OF text_mapped(1) [of 20 0]] by simp_all
  from countBack_suffix [OF h] show ?thesis by blast
qed

section \<open>Tables and prices\<close>

text \<open>
  C39: the types of the tables. \<open>LZ4HC_Insert\<close> keeps every entry of the hash table a 32-bit index below the
  position up to which it inserts, and every element of the chain table a 16-bit distance, and changes nothing else
  but \<open>nextToUpdate\<close>.
\<close>

theorem Insert_types:
  assumes "hc_ctx low hi c" "hc_entries (hc_index c ip) c" "mapped m low hi" "low \<le> ip" "ip + 3 \<le> hi"
    and "h_dictLimit c \<le> h_nextToUpdate c" "h_nextToUpdate c \<le> hc_index c ip"
  shows "\<exists>c'. LZ4HC_Insert m c ip = Some c' \<and> h_nextToUpdate c' = hc_index c ip \<and> hc_same c c' \<and>
     (\<forall>h. 0 \<le> h \<and> h < LZ4HC_HASHTABLESIZE \<longrightarrow> 0 \<le> h_hashTable c' h \<and> h_hashTable c' h < hc_index c ip \<and> h_hashTable c' h < 2 ^ 32) \<and>
     (\<forall>i. 0 \<le> h_chainTable c' i \<and> h_chainTable c' i < 2 ^ 16)"
proof -
  from LZ4HC_Insert_ok [OF assms] obtain c' where c: "LZ4HC_Insert m c ip = Some c'" "hc_same c c'" "hc_entries (hc_index c ip) c'"
    "h_nextToUpdate c' = hc_index c ip" by blast
  have "hc_index c ip < 4294967296" using hc_index_u32(3) [OF assms(1,4)] assms(5) by simp
  then have "\<forall>h. 0 \<le> h \<and> h < LZ4HC_HASHTABLESIZE \<longrightarrow> 0 \<le> h_hashTable c' h \<and> h_hashTable c' h < hc_index c ip \<and> h_hashTable c' h < 2 ^ 32"
    using c(3) unfolding hc_entries_def by fastforce
  moreover have "\<forall>i. 0 \<le> h_chainTable c' i \<and> h_chainTable c' i < 2 ^ 16" using c(3) unfolding hc_entries_def by (simp flip: zle_add1_eq_le)
  ultimately show ?thesis using c(1,2,4) by blast
qed

theorem Insert_types_witness:
  "\<exists>c'. LZ4HC_Insert text_mem text_ctx 1010 = Some c' \<and> h_nextToUpdate c' = hc_index text_ctx 1010 \<and> (\<forall>i. h_chainTable c' i < 2 ^ 16)"
proof -
  have c: "hc_ctx 1000 1020 text_ctx" "hc_entries (hc_index text_ctx 1000) text_ctx" "h_dictLimit text_ctx \<le> h_nextToUpdate text_ctx"
    "h_nextToUpdate text_ctx \<le> hc_index text_ctx 1000" using text_ctx_before by (simp_all add: hc_before_def)
  have e: "hc_entries (hc_index text_ctx 1010) text_ctx" using c(2) by (rule hc_entries_mono) (simp add: hc_index_def)
  have n: "h_nextToUpdate text_ctx \<le> hc_index text_ctx 1010" using c(4) by (simp add: hc_index_def)
  have p: "mapped text_mem 1000 1020" "(1000 :: int) \<le> 1010" "1010 + 3 \<le> (1020 :: int)" using text_mapped(1) [of 20 0] by simp_all
  from Insert_types [OF c(1) e p c(3) n] show ?thesis by blast
qed

text \<open>
  C40: the prices of the optimal parser are sizes. The price of a sequence is the number of bytes the format
  needs for it, and the price of a literal run what it adds to a token.
\<close>

theorem sequencePrice_size:
  assumes "4 \<le> ml"
  shows "LZ4HC_sequencePrice (int (length ls)) (int ml) = int (length (encode_seq (LSeq ls d ml))) \<and>
     LZ4HC_literalsPrice (int (length ls)) = int (length (encode_last ls)) - 1"
proof -
  have "int (length (len_ext (ml - 4))) = ext_size (int ml - 4)" using assms length_len_ext [of "ml - 4"] by simp
  then show ?thesis
    using length_len_ext [of "length ls"]
    by (simp add: LZ4HC_sequencePrice_def LZ4HC_literalsPrice_def encode_last_def le16_def ext_size_def)
qed

theorem sequencePrice_size_witness: "LZ4HC_sequencePrice 2 300 = int (length (encode_seq (LSeq [1, 2] 7 300)))"
  using sequencePrice_size [of 300 "[1, 2]" 7] by simp

end
