(* ===== verification/Lz4_CompressExtDict.thy ===== *)
theory Lz4_CompressExtDict
  imports Lz4_CompressStream
begin

unbundle bit_operations_syntax

text \<open>
  Streaming compression away from the history: \<open>LZ4_compress_fast_continue\<close> with the dictionary elsewhere in
  memory, possibly overwritten from its start by the source, and with an attached dictionary; and
  \<open>LZ4_saveDict\<close>, which moves the history.
\<close>

section \<open>The history in the view\<close>

lemma bytes_shift: "(\<And>x. a \<le> x \<Longrightarrow> x < b \<Longrightarrow> m' x = m (x + d)) \<Longrightarrow> bytes m' a b = bytes m (a + d) (b + d)"
  by (rule nth_equalityI) (auto simp: nth_bytes ac_simps)

lemma ext_history:
  assumes "c_maybe_extMem a" "0 \<le> c_dictSize a"
  shows "c_hist a (view a m) = bytes m (c_dictionary a) (c_dictionary a + c_dictSize a)"
proof -
  have "c_hist a (view a m) = bytes m (c_low a + (c_dictionary a - c_low a)) (c_source a + (c_dictionary a - c_low a))"
    unfolding c_hist_def using assms(1) by (intro bytes_shift) (simp add: view_def)
  then show ?thesis by (simp add: c_low_def algebra_simps)
qed

text \<open>The source, the destination and a dictionary somewhere else.\<close>

definition ext_buffers :: "mem \<Rightarrow> int \<Rightarrow> int \<Rightarrow> int \<Rightarrow> int \<Rightarrow> int \<Rightarrow> int \<Rightarrow> bool" where
  "ext_buffers m src n dst cap dict k \<longleftrightarrow>
     mapped m src (src + n) \<and> mapped m dst (dst + cap) \<and> mapped m dict (dict + k) \<and> 0 \<le> cap \<and> cap < 2147483648 \<and>
     (src + n \<le> dst \<or> dst + cap \<le> src) \<and> (k = 0 \<or> dict + k \<le> dst \<or> dst + cap \<le> dict) \<and>
     dict \<noteq> 0 \<and> dict \<noteq> src \<and> (k = 0 \<or> 4 \<le> k)"

lemma ext_call_ok:
  assumes b: "ext_buffers m (c_source a) (c_inputSize a) (c_dest a) (c_maxOutputSize a) (c_dictionary a) (c_dictSize a)"
    and n: "0 < c_inputSize a" "c_inputSize a \<le> LZ4_MAX_INPUT_SIZE" and acc: "1 \<le> c_acceleration a" "c_acceleration a \<le> LZ4_ACCELERATION_MAX"
    and i: "0 \<le> c_startIndex a" "c_startIndex a + c_inputSize a \<le> 2147483648" "0 \<le> c_dictSize a" "c_dictSize a \<le> c_startIndex a"
    and a: "c_maybe_extMem a" "c_tableType a = byU32" "c_outputDirective a = limitedOutput"
    and dc: "c_dictDirective a = usingDictCtx \<Longrightarrow> c_dictOffset a \<le> c_startIndex a \<and> c_dictSize a \<le> c_dictOffset a"
  shows "call_ok a m (c_maxOutputSize a)"
proof -
  have "mapped m (lo + d) (hi + d) \<and> (hi + d \<le> c_dest a \<or> c_dest a + c_maxOutputSize a \<le> lo + d)" if "view_segment a d lo hi" for d lo hi
    using that b i(3) unfolding view_segment_def if_P [OF a(1)] ext_buffers_def
    by (elim disjE conjE) (simp_all add: c_low_def c_iend_def)
  then show ?thesis
    using assms by (auto simp: call_ok_def index_table_def ext_buffers_def c_maybe_extMem_def)
qed

section \<open>One block with the dictionary elsewhere\<close>

lemma ext_block:
  assumes s: "S p = Some s" "linked s" and off: "s_currentOffset s + n \<le> 2147483648"
    and n: "0 < n" "n \<le> LZ4_MAX_INPUT_SIZE" and acc: "1 \<le> acc" "acc \<le> LZ4_ACCELERATION_MAX"
    and b: "ext_buffers m src n dst cap (s_dictionary s) (s_dictSize s)"
    and old: "old_entries (segment_args p src dst n cap limitedOutput byU32 usingExtDict issue acc s) m S"
  shows "\<exists>r m' s'. compress_plain p src dst n cap limitedOutput byU32 usingExtDict issue acc m S = Some (r, m', S(p \<mapsto> s')) \<and>
     frame m m' dst (dst + cap) \<and> 0 \<le> r \<and> r \<le> cap \<and>
     (0 < r \<longrightarrow> block_for (bytes m (s_dictionary s) (s_dictionary s + s_dictSize s)) (bytes m src (src + n)) (bytes m' dst (dst + r))) \<and>
     (LZ4_compressBound n \<le> cap \<longrightarrow> 0 < r) \<and> linked s' \<and> n \<le> s_currentOffset s'"
proof -
  let ?a = "segment_args p src dst n cap limitedOutput byU32 usingExtDict issue acc s"
  have l: "0 \<le> s_currentOffset s" "0 \<le> s_dictSize s" "s_dictSize s \<le> s_currentOffset s" "s_dictCtx s = 0"
    using s(2) by (simp_all add: linked_def indexed_def)
  have sel: "c_source ?a = src" "c_inputSize ?a = n" "c_dest ?a = dst" "c_maxOutputSize ?a = cap" "c_dictionary ?a = s_dictionary s"
    "c_dictSize ?a = s_dictSize s" "c_acceleration ?a = acc" "c_startIndex ?a = s_currentOffset s" "c_tableType ?a = byU32"
    "c_outputDirective ?a = limitedOutput" "c_dictDirective ?a = usingExtDict"
    by (simp_all add: segment_args_def)
  have ext: "c_maybe_extMem ?a" by (simp add: sel c_maybe_extMem_def)
  have ok: "call_ok ?a m cap"
    using ext_call_ok [OF _ _ _ _ _ _ _ _ _ ext, of m] b n acc l off unfolding sel by simp
  have h: "c_hist ?a (view ?a m) = bytes m (s_dictionary s) (s_dictionary s + s_dictSize s)"
    using ext_history [OF ext, of m] l(2) unfolding sel by simp
  have rd: "read_context (stream_args p src dst n cap usingExtDict issue acc) S = Some ?a"
    by (rule linked_context [where S = S, OF s(1)]) simp
  have cap: "0 \<le> cap" using b by (simp add: ext_buffers_def)
  from stream_block [where S = S and p = p and dd = usingExtDict, OF s(1) l(1) off l(2,3) disjI1 [OF l(4)] _ rd ok old n cap]
  obtain r m' s' where
    c: "compress_plain p src dst n cap limitedOutput byU32 usingExtDict issue acc m S = Some (r, m', S(p \<mapsto> s'))"
    "frame m m' dst (dst + cap)" "0 \<le> r" "r \<le> cap"
    "0 < r \<longrightarrow> block_for (c_hist ?a (view ?a m)) (bytes m src (src + n)) (bytes m' dst (dst + r))"
    "LZ4_compressBound n \<le> cap \<longrightarrow> 0 < r" "linked s'" "s_dictSize s' = s_dictSize s + n" by auto
  have "n \<le> s_currentOffset s'" using c(7,8) l(2) by (simp add: linked_def indexed_def)
  then show ?thesis using c h by auto
qed

text \<open>The block becomes the history of the next one.\<close>

lemma remember_ok:
  assumes "linked s" "0 < n" "n \<le> LZ4_MAX_INPUT_SIZE" "n \<le> s_currentOffset s"
  shows "\<exists>s'. remember_source p src n (S(p \<mapsto> s)) = Some (S(p \<mapsto> s')) \<and> linked s' \<and> s_dictionary s' = src \<and> s_dictSize s' = n"
proof -
  let ?s = "s\<lparr>s_dictionary := src, s_dictSize := n\<rparr>"
  have "u32 n = n" using assms(2,3) by (simp add: u32_id)
  moreover have "entries_ok (\<lambda>h. past_index (s_currentOffset s)) byU32 ?s"
    using linked_entries [OF assms(1)] entries_ok_table [of ?s s] by simp
  then have "linked ?s" using assms by (simp add: linked_def indexed_def)
  ultimately show ?thesis by (intro exI [of _ ?s]) (simp add: remember_source_def)
qed

section \<open>LZ4\_compress\_fast\_continue away from the history\<close>

text \<open>
  What is left of the history when the source overwrites its beginning: it starts at the end of the
  source. The end of the history must not be overwritten.
\<close>

definition kept_start :: "LZ4_stream_t_internal \<Rightarrow> int \<Rightarrow> int \<Rightarrow> int" where
  "kept_start s src n = (if src + n < s_dictionary s + s_dictSize s then max (s_dictionary s) (src + n) else s_dictionary s)"

definition away :: "LZ4_stream_t_internal \<Rightarrow> int \<Rightarrow> int \<Rightarrow> bool" where
  "away s src n \<longleftrightarrow> 4 \<le> s_dictSize s \<and> 0 < s_dictionary s \<and>
     (s_dictionary s + s_dictSize s < src \<or> src + n < s_dictionary s + s_dictSize s)"

lemma overlapped_ok:
  assumes l: "linked s" and k: "4 \<le> s_dictSize s" and e: "e = s_dictionary s + s_dictSize s" "0 < s_dictionary s" "e < src \<or> src + n < e"
    and n: "0 < n" "n \<le> LZ4_MAX_INPUT_SIZE"
  defines "s' \<equiv> drop_overlapped_dictionary s e src n"
  shows "linked s'" "s_currentOffset s' = s_currentOffset s" "s_dictionary s' + s_dictSize s' = e" "kept_start s src n \<le> s_dictionary s'"
    "s_dictSize s' = 0 \<or> 4 \<le> s_dictSize s'" "0 < s_dictionary s'" "s_dictionary s' \<noteq> src" "s_dictCtx s' = 0"
proof -
  have d: "s_dictSize s \<le> s_currentOffset s" "s_dictCtx s = 0" "s_currentOffset s \<le> 2147483648" using l by (simp_all add: linked_def indexed_def)
  have "linked s' \<and> s_currentOffset s' = s_currentOffset s \<and> s_dictionary s' + s_dictSize s' = e \<and>
    kept_start s src n \<le> s_dictionary s' \<and> (s_dictSize s' = 0 \<or> 4 \<le> s_dictSize s') \<and> 0 < s_dictionary s' \<and> s_dictionary s' \<noteq> src \<and> s_dictCtx s' = 0"
  proof (cases "src + n > s_dictionary s \<and> src + n < e")
    case False
    then have "s' = s" by (auto simp: s'_def drop_overlapped_dictionary_def Let_def)
    then show ?thesis using l k e d False n(1) by (auto simp: kept_start_def)
  next
    case True
    have u: "u32 (e - (src + n)) = e - (src + n)" using True e(1) d k by (intro u32_id) auto
    define j where "j = (let i = (if e - (src + n) > 64 * KB then 64 * KB else e - (src + n)) in if i < 4 then 0 else i)"
    have j: "0 \<le> j" "j \<le> e - (src + n)" "j = 0 \<or> 4 \<le> j" using True by (auto simp: j_def Let_def)
    have s': "s' = s\<lparr>s_dictSize := j, s_dictionary := e - j\<rparr>"
      using True u by (simp add: s'_def drop_overlapped_dictionary_def j_def Let_def)
    have "entries_ok (\<lambda>h. past_index (s_currentOffset s)) byU32 s'"
      using linked_entries [OF l] entries_ok_table [of s' s] by (simp add: s')
    then have "linked s'" using l j True e(1) by (simp add: linked_def indexed_def s')
    then show ?thesis using j True e n(1) k d by (auto simp: s' kept_start_def)
  qed
  then show "linked s'" "s_currentOffset s' = s_currentOffset s" "s_dictionary s' + s_dictSize s' = e" "kept_start s src n \<le> s_dictionary s'"
    "s_dictSize s' = 0 \<or> 4 \<le> s_dictSize s'" "0 < s_dictionary s'" "s_dictionary s' \<noteq> src" "s_dictCtx s' = 0" by blast+
qed

lemma continue_eq_ext:
  assumes s: "S p = Some s" "linked s" and n: "0 < n" "n \<le> LZ4_MAX_INPUT_SIZE" and aw: "away s src n"
  shows "\<exists>s'. LZ4_compress_fast_continue p src dst n cap acc m S =
       do { (r, m, S) \<leftarrow> compress_plain p src dst n cap limitedOutput byU32 usingExtDict (history_issue s') (clamp_acceleration acc) m (S(p \<mapsto> s'));
            S \<leftarrow> remember_source p src n S;
            Some (r, m, S) } \<and>
     linked s' \<and> s_currentOffset s' + n \<le> 2147483648 \<and> s_dictionary s' + s_dictSize s' = s_dictionary s + s_dictSize s \<and>
     kept_start s src n \<le> s_dictionary s' \<and> (s_dictSize s' = 0 \<or> 4 \<le> s_dictSize s') \<and> 0 < s_dictionary s' \<and> s_dictionary s' \<noteq> src"
proof -
  have n0: "0 \<le> n" using n(1) by simp
  obtain s1 where s1: "LZ4_renormDictT p n S = Some (S(p \<mapsto> s1))" "linked s1" "shorter_history s s1"
    "s_currentOffset s1 + n \<le> 2147483648"
    using renorm_ok [of S p s n, OF s n0 n(2)] by blast
  define e where "e = s_dictionary s + s_dictSize s"
  have a: "4 \<le> s_dictSize s" "0 < s_dictionary s" "e < src \<or> src + n < e" using aw by (auto simp: away_def e_def)
  have k1: "4 \<le> s_dictSize s1" "s_dictionary s \<le> s_dictionary s1" "e = s_dictionary s1 + s_dictSize s1"
    using s1(3) a(1) by (auto simp: shorter_history_def e_def)
  define s' where "s' = drop_overlapped_dictionary s1 e src n"
  have p1: "0 < s_dictionary s1" using k1(2) a(2) by simp
  note ov = overlapped_ok [OF s1(2) k1(1,3) p1 a(3) n, folded s'_def]
  have ne: "e \<noteq> src" using a(3) n(1) by auto
  have de: "(if s_dictSize s \<noteq> 0 then s_dictionary s + s_dictSize s else 0) = e" using a(1) by (simp add: e_def)
  have e1: "drop_tiny_dictionary s1 e src n = (s1, e)" using k1(1) by (simp add: drop_tiny_dictionary_def)
  have "LZ4_compress_fast_continue p src dst n cap acc m S =
       do { (r, m, S) \<leftarrow> compress_plain p src dst n cap limitedOutput byU32 usingExtDict (history_issue s') (clamp_acceleration acc) m (S(p \<mapsto> s'));
            S \<leftarrow> remember_source p src n S;
            Some (r, m, S) }"
    unfolding LZ4_compress_fast_continue_def s(1) Option.bind.simps Let_def s1(1) de fun_upd_same e1
      prod.case s'_def [symmetric] fun_upd_upd if_not_P [OF ne] using ov(8) by simp
  moreover have "kept_start s src n \<le> kept_start s1 src n" using k1(2,3) by (auto simp: kept_start_def e_def)
  ultimately show ?thesis using ov s1(4) by (auto simp: e_def)
qed

lemma continue_ext:
  assumes s: "S p = Some s" "linked s" and n: "0 < n" "n \<le> LZ4_MAX_INPUT_SIZE" and aw: "away s src n"
    and lo: "lo = kept_start s src n" "hi = s_dictionary s + s_dictSize s"
    and b: "mapped m src (src + n)" "mapped m dst (dst + cap)" "mapped m lo hi" "0 \<le> cap" "cap < 2147483648"
      "src + n \<le> dst \<or> dst + cap \<le> src" "hi \<le> dst \<or> dst + cap \<le> lo"
  shows "\<exists>r m' s'. LZ4_compress_fast_continue p src dst n cap acc m S = Some (r, m', S(p \<mapsto> s')) \<and>
     frame m m' dst (dst + cap) \<and> 0 \<le> r \<and> r \<le> cap \<and>
     (0 < r \<longrightarrow> block_for (bytes m lo hi) (bytes m src (src + n)) (bytes m' dst (dst + r))) \<and>
     (LZ4_compressBound n \<le> cap \<longrightarrow> 0 < r) \<and> linked s' \<and> s_dictionary s' = src \<and> s_dictSize s' = n"
proof -
  obtain s1 where s1: "LZ4_compress_fast_continue p src dst n cap acc m S =
       do { (r, m, S) \<leftarrow> compress_plain p src dst n cap limitedOutput byU32 usingExtDict (history_issue s1) (clamp_acceleration acc) m (S(p \<mapsto> s1));
            S \<leftarrow> remember_source p src n S;
            Some (r, m, S) }"
    "linked s1" "s_currentOffset s1 + n \<le> 2147483648" "s_dictionary s1 + s_dictSize s1 = hi" "lo \<le> s_dictionary s1"
    "s_dictSize s1 = 0 \<or> 4 \<le> s_dictSize s1" "0 < s_dictionary s1" "s_dictionary s1 \<noteq> src"
    using continue_eq_ext [of S p s n src dst cap acc m, OF s n aw] unfolding lo by blast
  have k: "0 \<le> s_dictSize s1" using s1(2) by (simp add: linked_def indexed_def)
  have eb: "ext_buffers m src n dst cap (s_dictionary s1) (s_dictSize s1)"
    using b s1(4-8) mapped_sub [OF b(3)] by (auto simp: ext_buffers_def)
  have at: "(S(p \<mapsto> s1)) p = Some s1" by simp
  have old: "old_entries (segment_args p src dst n cap limitedOutput byU32 usingExtDict (history_issue s1) (clamp_acceleration acc) s1) m (S(p \<mapsto> s1))"
    by (rule linked_old_entries [where S = "S(p \<mapsto> s1)", OF at s1(2)]) simp
  from ext_block [where S = "S(p \<mapsto> s1)", OF at s1(2,3) n clamp_range eb old] obtain r m' s2 where
    c: "compress_plain p src dst n cap limitedOutput byU32 usingExtDict (history_issue s1) (clamp_acceleration acc) m (S(p \<mapsto> s1)) =
       Some (r, m', S(p \<mapsto> s2))" "frame m m' dst (dst + cap)" "0 \<le> r" "r \<le> cap"
    "0 < r \<longrightarrow> block_for (bytes m (s_dictionary s1) hi) (bytes m src (src + n)) (bytes m' dst (dst + r))"
    "LZ4_compressBound n \<le> cap \<longrightarrow> 0 < r" "linked s2" "n \<le> s_currentOffset s2" unfolding s1(4) fun_upd_upd by blast
  obtain s3 where s3: "remember_source p src n (S(p \<mapsto> s2)) = Some (S(p \<mapsto> s3))" "linked s3" "s_dictionary s3 = src" "s_dictSize s3 = n"
    using remember_ok [OF c(7) n c(8)] by blast
  have "bytes m lo hi = bytes m lo (s_dictionary s1) @ bytes m (s_dictionary s1) hi"
    using s1(4,5) k by (intro bytes_append) auto
  then have "0 < r \<longrightarrow> block_for (bytes m lo hi) (bytes m src (src + n)) (bytes m' dst (dst + r))"
    using c(5) block_for_prepend by metis
  moreover have "LZ4_compress_fast_continue p src dst n cap acc m S = Some (r, m', S(p \<mapsto> s3))"
    unfolding s1(1) c(1) Option.bind.simps prod.case s3(1) ..
  ultimately show ?thesis using c(2-4,6) s3 by blast
qed

section \<open>An attached dictionary\<close>

text \<open>
  A stream without a history of its own to which the stream \<open>t\<close> is attached. Its offset leaves the space
  below for the indexes of the dictionary.
\<close>

definition attached :: "LZ4_stream_t_internal \<Rightarrow> int \<Rightarrow> bool" where
  "attached s t \<longleftrightarrow> indexed s \<and> 65536 \<le> s_currentOffset s \<and> s_dictSize s = 0 \<and> s_dictCtx s = t \<and> t \<noteq> 0"

lemma attach_ok:
  assumes w: "S p = Some w" "linked w" "s_dictSize w = 0" "s_currentOffset w = 0 \<or> 65536 \<le> s_currentOffset w"
    and d: "S t = Some d" "loaded d" and t: "t \<noteq> 0" "t \<noteq> p"
  shows "\<exists>w'. LZ4_attach_dictionary p t S = Some (S(p \<mapsto> w')) \<and> attached w' t"
proof -
  define w1 where "w1 = (if s_currentOffset w = 0 then w\<lparr>s_currentOffset := 64 * KB\<rparr> else w)"
  have k: "s_dictSize d \<noteq> 0" using d(2) by (simp add: loaded_def)
  have e: "entries_ok (\<lambda>h. past_index (s_currentOffset w1)) byU32 (w1\<lparr>s_dictCtx := t\<rparr>)"
    using linked_entries [OF w(2)] entries_ok_table [of "w1\<lparr>s_dictCtx := t\<rparr>" w]
    by (auto simp: w1_def past_index_def elim!: entries_ok_mono)
  have "indexed (w1\<lparr>s_dictCtx := t\<rparr>)"
    using e w by (auto simp: w1_def linked_def indexed_def)
  then have "attached (w1\<lparr>s_dictCtx := t\<rparr>) t" using w(3,4) t(1) by (auto simp: attached_def w1_def)
  moreover have "LZ4_attach_dictionary p t S = Some (S(p \<mapsto> w1\<lparr>s_dictCtx := t\<rparr>))"
    using w(1) d(1) t k by (simp add: LZ4_attach_dictionary_def w1_def [symmetric] Let_def)
  ultimately show ?thesis by blast
qed

text \<open>A small block looks up the tables of both streams.\<close>

lemma attached_block:
  assumes s: "S p = Some s" "attached s t" and d: "S t = Some d" "loaded d" "t \<noteq> p" and off: "s_currentOffset s + n \<le> 2147483648"
    and n: "0 < n" "n \<le> LZ4_MAX_INPUT_SIZE" and acc: "1 \<le> acc" "acc \<le> LZ4_ACCELERATION_MAX"
    and b: "ext_buffers m src n dst cap (s_dictionary d) (s_dictSize d)"
  shows "\<exists>r m' s'. compress_plain p src dst n cap limitedOutput byU32 usingDictCtx noDictIssue acc m S = Some (r, m', S(p \<mapsto> s')) \<and>
     frame m m' dst (dst + cap) \<and> 0 \<le> r \<and> r \<le> cap \<and>
     (0 < r \<longrightarrow> block_for (bytes m (s_dictionary d) (s_dictionary d + s_dictSize d)) (bytes m src (src + n)) (bytes m' dst (dst + r))) \<and>
     (LZ4_compressBound n \<le> cap \<longrightarrow> 0 < r) \<and> linked s' \<and> n \<le> s_currentOffset s'"
proof -
  let ?a = "(segment_args p src dst n cap limitedOutput byU32 usingDictCtx noDictIssue acc s)
    \<lparr>c_dictionary := s_dictionary d, c_dictSize := s_dictSize d, c_dictOffset := s_currentOffset d\<rparr>"
  have l: "0 \<le> s_currentOffset s" "s_dictSize s = 0" "65536 \<le> s_currentOffset s" "s_dictCtx s = t" "indexed s"
    using s(2) by (simp_all add: attached_def)
  have k: "s_currentOffset d = 65536" "8 \<le> s_dictSize d" "s_dictSize d \<le> 65536" using d(2) by (simp_all add: loaded_def)
  have sel: "c_cctx ?a = p" "c_source ?a = src" "c_inputSize ?a = n" "c_dest ?a = dst" "c_maxOutputSize ?a = cap"
    "c_dictionary ?a = s_dictionary d" "c_dictSize ?a = s_dictSize d" "c_acceleration ?a = acc" "c_startIndex ?a = s_currentOffset s"
    "c_tableType ?a = byU32" "c_outputDirective ?a = limitedOutput" "c_dictDirective ?a = usingDictCtx" "c_dictOffset ?a = 65536"
    "c_dictCtx ?a = t" "c_dictIssue ?a = noDictIssue"
    using k(1) l(4) by (simp_all add: segment_args_def)
  have ext: "c_maybe_extMem ?a" by (simp add: sel c_maybe_extMem_def)
  have ok: "call_ok ?a m cap"
    using ext_call_ok [OF _ _ _ _ _ _ _ _ _ ext, of m] b n acc l k off unfolding sel by simp
  have h: "c_hist ?a (view ?a m) = bytes m (s_dictionary d) (s_dictionary d + s_dictSize d)"
    using ext_history [OF ext, of m] k(2) unfolding sel by simp
  have rd: "read_context (stream_args p src dst n cap usingDictCtx noDictIssue acc) S = Some ?a"
    using s(1) d(1) l(4) by (simp add: read_context_def stream_args_def segment_args_def)
  have own: "entries_ok (idx_ok ?a m (s_currentOffset s + 1)) byU32 s"
  proof (rule entries_ok_mono)
    show "entries_ok (\<lambda>h. past_index (s_currentOffset s)) byU32 s" using l(5) by (simp add: indexed_def)
    fix h i assume "past_index (s_currentOffset s) i"
    then show "idx_ok ?a m (s_currentOffset s + 1) h i"
      using l(3) unfolding idx_ok_def sel by (auto simp: past_index_def)
  qed
  have "entries_ok (\<lambda>h. dict_entry ?a) byU32 d"
  proof (rule entries_ok_mono)
    show "entries_ok (\<lambda>h. loaded_index (s_dictSize d)) byU32 d" using d(2) by (simp add: loaded_def)
    fix h i assume "loaded_index (s_dictSize d) i"
    then show "dict_entry ?a i" unfolding dict_entry_def sel by (auto simp: loaded_index_def)
  qed
  then have "dict_table ?a S" unfolding dict_table_def sel using d(1,3) by auto
  then have old: "old_entries ?a m S" using own s(1) unfolding old_entries_def sel by blast
  have cap: "0 \<le> cap" using b by (simp add: ext_buffers_def)
  have z: "0 \<le> s_dictSize s" "s_dictSize s \<le> s_currentOffset s" using l by simp_all
  from stream_block [where S = S and p = p and dd = usingDictCtx, OF s(1) l(1) off z disjI2 [OF refl] _ rd ok old n cap]
  obtain r m' s' where
    c: "compress_plain p src dst n cap limitedOutput byU32 usingDictCtx noDictIssue acc m S = Some (r, m', S(p \<mapsto> s'))"
    "frame m m' dst (dst + cap)" "0 \<le> r" "r \<le> cap"
    "0 < r \<longrightarrow> block_for (c_hist ?a (view ?a m)) (bytes m src (src + n)) (bytes m' dst (dst + r))"
    "LZ4_compressBound n \<le> cap \<longrightarrow> 0 < r" "linked s'" "s_dictSize s' = n" by auto
  have "n \<le> s_currentOffset s'" using c(7,8) by (simp add: linked_def indexed_def)
  then show ?thesis using c h by auto
qed

text \<open>The stream of the dictionary itself, when it is copied for a large block.\<close>

lemma loaded_old_entries:
  assumes "S p = Some d" "loaded d"
  shows "old_entries (segment_args p src dst n cap limitedOutput byU32 usingExtDict noDictIssue acc d) m S"
proof -
  let ?a = "segment_args p src dst n cap limitedOutput byU32 usingExtDict noDictIssue acc d"
  have "entries_ok (idx_ok ?a m (s_currentOffset d + 1)) byU32 d"
  proof (rule entries_ok_mono)
    show "entries_ok (\<lambda>h. loaded_index (s_dictSize d)) byU32 d" using assms(2) by (simp add: loaded_def)
    fix h i assume "loaded_index (s_dictSize d) i"
    then show "idx_ok ?a m (s_currentOffset d + 1) h i"
      using assms(2) by (auto simp: idx_ok_def loaded_index_def loaded_def segment_args_def)
  qed
  then show ?thesis using assms(1) by (auto simp: old_entries_def dict_table_def segment_args_def)
qed

lemma continue_attached:
  assumes s: "S p = Some s" "attached s t" and d: "S t = Some d" "loaded d" "t \<noteq> p" and n: "0 < n" "n \<le> LZ4_MAX_INPUT_SIZE" and src: "0 < src"
    and b: "ext_buffers m src n dst cap (s_dictionary d) (s_dictSize d)"
  shows "\<exists>r m' s'. LZ4_compress_fast_continue p src dst n cap acc m S = Some (r, m', S(p \<mapsto> s')) \<and>
     frame m m' dst (dst + cap) \<and> 0 \<le> r \<and> r \<le> cap \<and>
     (0 < r \<longrightarrow> block_for (bytes m (s_dictionary d) (s_dictionary d + s_dictSize d)) (bytes m src (src + n)) (bytes m' dst (dst + r))) \<and>
     (LZ4_compressBound n \<le> cap \<longrightarrow> 0 < r) \<and> linked s' \<and> s_dictionary s' = src \<and> s_dictSize s' = n"
proof -
  have n0: "0 \<le> n" using n(1) by simp
  have a: "indexed s" "s_dictSize s = 0" "s_dictCtx s = t" "t \<noteq> 0" "65536 \<le> s_currentOffset s" using s(2) by (simp_all add: attached_def)
  obtain s1 where s1: "LZ4_renormDictT p n S = Some (S(p \<mapsto> s1))" "indexed s1" "s_dictCtx s1 = t" "shorter_history s s1"
    "s_currentOffset s1 + n \<le> 2147483648" "s_currentOffset s1 = s_currentOffset s \<or> s_currentOffset s1 = 65536"
    using renorm_indexed [of S p s n, OF s(1) a(1) n0 n(2)] a(3) by blast
  have at1: "attached s1 t"
    using s1(2-4,6) a(2,4,5) by (auto simp: attached_def shorter_history_def)
  have e1: "drop_tiny_dictionary s1 0 src n = (s1, 0)" using s1(3) a(4) by (simp add: drop_tiny_dictionary_def)
  have e2: "drop_overlapped_dictionary s1 0 src n = s1" using src n(1) by (simp add: drop_overlapped_dictionary_def)
  have ne: "\<not> 0 = src" using src by simp
  let ?k = "if n > 4 * KB
    then compress_plain p src dst n cap limitedOutput byU32 usingExtDict noDictIssue (clamp_acceleration acc) m (S(p \<mapsto> d))
    else compress_plain p src dst n cap limitedOutput byU32 usingDictCtx noDictIssue (clamp_acceleration acc) m (S(p \<mapsto> s1))"
  have call: "LZ4_compress_fast_continue p src dst n cap acc m S =
     do { (r, m, S) \<leftarrow> ?k; S \<leftarrow> remember_source p src n S; Some (r, m, S) }"
    unfolding LZ4_compress_fast_continue_def s(1) Option.bind.simps Let_def s1(1) a(2) fun_upd_same e1 prod.case e2 fun_upd_upd if_not_P [OF ne]
    using s1(3) a(2,4) d(1,3) e1 e2 ne by simp
  have "\<exists>r m' s'. ?k = Some (r, m', S(p \<mapsto> s')) \<and>
     frame m m' dst (dst + cap) \<and> 0 \<le> r \<and> r \<le> cap \<and>
     (0 < r \<longrightarrow> block_for (bytes m (s_dictionary d) (s_dictionary d + s_dictSize d)) (bytes m src (src + n)) (bytes m' dst (dst + r))) \<and>
     (LZ4_compressBound n \<le> cap \<longrightarrow> 0 < r) \<and> linked s' \<and> n \<le> s_currentOffset s'"
  proof (cases "n > 4 * KB")
    case True
    have at: "(S(p \<mapsto> d)) p = Some d" by simp
    have off: "s_currentOffset d + n \<le> 2147483648" using d(2) n(2) by (simp add: loaded_def)
    have old: "old_entries (segment_args p src dst n cap limitedOutput byU32 usingExtDict noDictIssue (clamp_acceleration acc) d) m (S(p \<mapsto> d))"
      by (rule loaded_old_entries [where S = "S(p \<mapsto> d)", OF at d(2)])
    show ?thesis
      using ext_block [where S = "S(p \<mapsto> d)", OF at loaded_linked [OF d(2)] off n clamp_range b old] True by simp
  next
    case False
    have at: "(S(p \<mapsto> s1)) p = Some s1" "(S(p \<mapsto> s1)) t = Some d" using d(1,3) by simp_all
    show ?thesis
      using attached_block [where S = "S(p \<mapsto> s1)", OF at(1) at1 at(2) d(2,3) s1(5) n clamp_range b] False by simp
  qed
  then obtain r m' s2 where c: "?k = Some (r, m', S(p \<mapsto> s2))"
    "frame m m' dst (dst + cap)" "0 \<le> r" "r \<le> cap"
    "0 < r \<longrightarrow> block_for (bytes m (s_dictionary d) (s_dictionary d + s_dictSize d)) (bytes m src (src + n)) (bytes m' dst (dst + r))"
    "LZ4_compressBound n \<le> cap \<longrightarrow> 0 < r" "linked s2" "n \<le> s_currentOffset s2" by blast
  obtain s3 where s3: "remember_source p src n (S(p \<mapsto> s2)) = Some (S(p \<mapsto> s3))" "linked s3" "s_dictionary s3 = src" "s_dictSize s3 = n"
    using remember_ok [OF c(7) n c(8)] by blast
  have "LZ4_compress_fast_continue p src dst n cap acc m S = Some (r, m', S(p \<mapsto> s3))"
    unfolding call c(1) Option.bind.simps prod.case s3(1) ..
  then show ?thesis using c(2-6) s3 by blast
qed

section \<open>LZ4\_saveDict\<close>

text \<open>The end of the history moves to the safe buffer, and stays the history of the stream.\<close>

lemma saveDict_ok:
  assumes s: "S p = Some s" "linked s" and k: "0 \<le> dictSize" "dictSize < 2147483648" "k = min (min dictSize 65536) (s_dictSize s)"
    and hi: "hi = s_dictionary s + s_dictSize s" and m: "mapped m (hi - k) hi" "mapped m safe (safe + k)"
  shows "\<exists>m' s'. LZ4_saveDict p safe dictSize m S = Some (k, m', S(p \<mapsto> s')) \<and> frame m m' safe (safe + k) \<and>
     bytes m' safe (safe + k) = bytes m (hi - k) hi \<and> linked s' \<and> s_dictionary s' = safe \<and> s_dictSize s' = k"
proof -
  have l: "0 \<le> s_dictSize s" "s_dictSize s \<le> s_currentOffset s" using s(2) by (simp_all add: linked_def indexed_def)
  have k0: "0 \<le> k" "k \<le> 65536" "k \<le> s_dictSize s" using k l(1) by auto
  have u: "u32 dictSize = dictSize" "u32 65536 = 65536" "u32 k = k" using k(1,2) k0 by (simp_all add: u32_id)
  have sz: "(let n = (if u32 dictSize > 64 * KB then 64 * KB else dictSize) in
      if u32 n > s_dictSize s then s32 (s_dictSize s) else n) = k"
  proof -
    have "s32 (s_dictSize s) = s_dictSize s" if "s_dictSize s < 65536" using that l(1) by (intro s32_id) auto
    then show ?thesis using u k(3) by (auto simp: Let_def min_def)
  qed
  let ?s = "s\<lparr>s_dictionary := safe, s_dictSize := k\<rparr>" let ?m = "blit m safe (hi - k) k"
  have call: "LZ4_saveDict p safe dictSize m S =
      do { m \<leftarrow> (if k > 0 then memmove m safe (hi - k) k else Some m); Some (k, m, S(p \<mapsto> ?s)) }"
    unfolding LZ4_saveDict_def s(1) Option.bind.simps using sz u(3) by (simp add: Let_def hi)
  have mv: "(if k > 0 then memmove m safe (hi - k) k else Some m) = Some ?m"
  proof (cases "k > 0")
    case True
    then show ?thesis using memmove_Some [of k m "hi - k" safe] m by simp
  next
    case False
    then have "k = 0" using k0(1) by simp
    then show ?thesis by (auto simp: blit_def fun_eq_iff)
  qed
  have "frame m ?m safe (safe + k)" using frame_blit [of m "hi - k" k safe] m by simp
  moreover have "bytes ?m safe (safe + k) = bytes m (hi - k) hi"
    by (rule nth_equalityI) (auto simp: nth_bytes blit_def)
  moreover have "entries_ok (\<lambda>h. past_index (s_currentOffset s)) byU32 ?s"
    using linked_entries [OF s(2)] entries_ok_table [of ?s s] by simp
  then have "linked ?s" using s(2) k0 by (simp add: linked_def indexed_def)
  ultimately show ?thesis using call mv by (intro exI [of _ ?m] exI [of _ ?s]) simp
qed

end
