(* ===== verification/Lz4_DictTheorems.thy ===== *)
theory Lz4_DictTheorems
  imports Lz4_CompressExtDict Lz4_CompressStreamTheorems
begin

text \<open>
  The properties of streaming compression with the history elsewhere in memory, with an attached
  dictionary, and after \<open>LZ4_saveDict\<close>.
\<close>

section \<open>The history elsewhere\<close>

text \<open>
  C9: when the next block is not behind the history, \<open>LZ4_compress_fast_continue\<close> uses the history as an
  external dictionary. The source may overwrite the beginning of the history (a ring buffer), but not its
  end: the block expands to the input after what is left of the history, the call succeeds when the
  capacity reaches the compress bound, and the stream is linked again with the block as its history.
\<close>

theorem fast_continue_elsewhere:
  assumes "S p = Some s" "linked s" "0 < n" "n \<le> LZ4_MAX_INPUT_SIZE" "away s src n"
    and "lo = kept_start s src n" "hi = s_dictionary s + s_dictSize s"
    and "mapped m src (src + n)" "mapped m dst (dst + cap)" "mapped m lo hi" "0 \<le> cap" "cap < 2147483648"
    and "src + n \<le> dst \<or> dst + cap \<le> src" "hi \<le> dst \<or> dst + cap \<le> lo"
  shows "\<exists>r m' s'. LZ4_compress_fast_continue p src dst n cap acceleration m S = Some (r, m', S(p \<mapsto> s')) \<and>
     frame m m' dst (dst + cap) \<and> 0 \<le> r \<and> r \<le> cap \<and>
     (0 < r \<longrightarrow> block_for (bytes m lo hi) (bytes m src (src + n)) (bytes m' dst (dst + r))) \<and>
     (LZ4_compressBound n \<le> cap \<longrightarrow> 0 < r) \<and> linked s' \<and> history_start s' (src + n) = Some src"
proof -
  obtain r m' s' where "LZ4_compress_fast_continue p src dst n cap acceleration m S = Some (r, m', S(p \<mapsto> s'))"
    "frame m m' dst (dst + cap)" "0 \<le> r" "r \<le> cap"
    "0 < r \<longrightarrow> block_for (bytes m lo hi) (bytes m src (src + n)) (bytes m' dst (dst + r))"
    "LZ4_compressBound n \<le> cap \<longrightarrow> 0 < r" "linked s'" "s_dictionary s' = src" "s_dictSize s' = n"
    using continue_ext [of S p s n src lo hi m dst cap acceleration, OF assms] by blast
  then show ?thesis using assms(3) by (fastforce simp: history_start_def)
qed

text \<open>A stream whose history is the first eight bytes of the text, and a source further on.\<close>

definition early_stream :: LZ4_stream_t_internal where
  "early_stream = text_stream\<lparr>s_dictSize := 8, s_currentOffset := 8\<rparr>"

lemma early_linked: "linked early_stream"
proof -
  have "entries_ok (\<lambda>h. past_index 8) byU32 early_stream"
    by (rule cleared_entries) (simp_all add: early_stream_def text_stream_def zero_stream_def index_table_def past_index_def)
  then show ?thesis by (simp add: linked_def indexed_def early_stream_def text_stream_def zero_stream_def)
qed

theorem fast_continue_elsewhere_witness:
  "\<exists>r m' s'. LZ4_compress_fast_continue 8 1009 5000 11 60 1 text_mem (Map.empty(8 \<mapsto> early_stream)) = Some (r, m', Map.empty(8 \<mapsto> s')) \<and>
     0 < r \<and> block_for (bytes text_mem 1000 1008) (bytes text_mem 1009 1020) (bytes m' 5000 (5000 + r)) \<and> linked s'"
proof -
  let ?S = "Map.empty(8 \<mapsto> early_stream)"
  have s: "?S 8 = Some early_stream" "s_dictionary early_stream = 1000" "s_dictSize early_stream = 8"
    by (simp_all add: early_stream_def text_stream_def)
  have aw: "away early_stream 1009 11" by (simp add: away_def s)
  have lo: "1000 = kept_start early_stream 1009 11" "1008 = s_dictionary early_stream + s_dictSize early_stream"
    by (simp_all add: kept_start_def s)
  have mp: "mapped text_mem 1000 1020" "mapped text_mem 5000 (5000 + 60)" using text_mapped [of 20 60] by simp_all
  have mp': "mapped text_mem 1009 (1009 + 11)" "mapped text_mem 1000 1008" using mapped_sub [OF mp(1)] by simp_all
  have n: "0 < (11 :: int)" "11 \<le> LZ4_MAX_INPUT_SIZE" "0 \<le> (60 :: int)" "(60 :: int) < 2147483648"
    "1009 + 11 \<le> (5000 :: int) \<or> 5000 + 60 \<le> (1009 :: int)" "1008 \<le> (5000 :: int) \<or> 5000 + 60 \<le> (1000 :: int)" by simp_all
  have bd: "LZ4_compressBound 11 = 27" by (simp add: compressBound_eq)
  from fast_continue_elsewhere [of ?S 8 early_stream 11 1009 1000 1008 text_mem 5000 60 1, OF s(1) early_linked n(1,2) aw lo mp'(1) mp(2) mp'(2) n(3-6)]
  show ?thesis by (auto simp: bd)
qed

section \<open>Attached dictionaries\<close>

text \<open>Decoding with a dictionary what is a block after it.\<close>

lemma dict_block_decodes:
  assumes "block_for D X (bytes m d (d + r))" "dict_history dict len m d r e cap D" "int (length X) \<le> cap"
  shows "\<exists>m'. LZ4_decompress_safe_usingDict m d e r cap dict len = Some (int (length X), m') \<and> frame m m' e (e + cap) \<and>
     bytes m' e (e + int (length X)) = X"
proof -
  obtain qs ls where q: "bytes m d (d + r) = encode_block qs ls" "seqs_ok D qs" "block_end_ok qs ls" "expand D qs ls = D @ X"
    using assms(1) unfolding block_for_def by auto
  have len: "total_len qs ls = length X" using length_expand [of D qs ls] q(4) by simp
  from dict_dec.complete [OF assms(2) q(1) seqs_ok_fit [OF q(2)] q(3)] assms(3) len q(4)
  show ?thesis by auto
qed

text \<open>Where the dictionary, the input, the block and the output are.\<close>

definition dict_layout :: "mem \<Rightarrow> int \<Rightarrow> int \<Rightarrow> int \<Rightarrow> int \<Rightarrow> int \<Rightarrow> int \<Rightarrow> int \<Rightarrow> int \<Rightarrow> bool" where
  "dict_layout m dict len src n dst cap e ecap \<longleftrightarrow>
     0 < dict \<and> 8 \<le> len \<and> len < 2147483648 \<and> 0 < src \<and> 0 < n \<and> n \<le> LZ4_MAX_INPUT_SIZE \<and> n \<le> ecap \<and>
     mapped m dict (dict + len) \<and> mapped m src (src + n) \<and> buffers_ok m dst cap e ecap \<and>
     (dict + len \<le> src \<or> src + n \<le> dict) \<and> (dict + len \<le> dst \<or> dst + cap \<le> dict) \<and> (dict + len \<le> e \<or> e + ecap \<le> dict) \<and>
     (src + n \<le> dst \<or> dst + cap \<le> src)"

text \<open>
  C8: the round trip through an attached dictionary. \<open>LZ4_loadDict\<close> prepares the dictionary once,
  \<open>LZ4_attach_dictionary\<close> lends it to a stream without a history, and \<open>LZ4_compress_fast_continue\<close>, which
  looks up both tables for a small block and copies the dictionary's stream for a large one, produces a
  block that \<open>LZ4_decompress_safe_usingDict\<close> decodes to the input; the stream of the dictionary is
  unchanged, so it can serve any number of streams.
\<close>

theorem attached_dict_roundtrip:
  assumes "S p = Some w" "linked w" "s_dictSize w = 0" "s_currentOffset w = 0 \<or> 65536 \<le> s_currentOffset w"
    and "S t \<noteq> None" "t \<noteq> 0" "t \<noteq> p" and "dict_layout m dict len src n dst cap e ecap" "LZ4_compressBound n \<le> cap"
  shows "\<exists>k S1 S2 r m1 S3 m2. LZ4_loadDict t dict len m S = Some (k, S1) \<and> LZ4_attach_dictionary p t S1 = Some S2 \<and>
     LZ4_compress_fast_continue p src dst n cap acceleration m S2 = Some (r, m1, S3) \<and> 0 < r \<and> S3 t = S1 t \<and>
     LZ4_decompress_safe_usingDict m1 dst e r ecap dict len = Some (n, m2) \<and> frame m1 m2 e (e + ecap) \<and>
     bytes m2 e (e + n) = bytes m src (src + n)"
proof -
  note l = assms(8) [unfolded dict_layout_def buffers_ok_def]
  define k where "k = (if len < 8 then 0 else min len 65536)"
  have k: "8 \<le> k" "k \<le> len" "k = min len 65536" using l by (auto simp: k_def)
  have ld0: "0 \<le> len" "mapped m dict (dict + len)" using l by simp_all
  obtain d where d: "LZ4_loadDict t dict len m S = Some (k, S(t \<mapsto> d))" "s_dictSize d = k" "s_dictionary d = dict + len - k" "loaded d"
    using loadDict_ok [of S t len m dict ld_fast, OF assms(5) ld0] k(1) unfolding LZ4_loadDict_def k_def by auto
  let ?S1 = "S(t \<mapsto> d)"
  have at: "?S1 p = Some w" "?S1 t = Some d" using assms(1,7) by simp_all
  obtain w' where w': "LZ4_attach_dictionary p t ?S1 = Some (?S1(p \<mapsto> w'))" "attached w' t"
    using attach_ok [of ?S1 p w t d, OF at(1) assms(2-4) at(2) d(4) assms(6,7)] by blast
  let ?S2 = "?S1(p \<mapsto> w')"
  have at2: "?S2 p = Some w'" "?S2 t = Some d" using assms(7) by simp_all
  have n: "0 < n" "n \<le> LZ4_MAX_INPUT_SIZE" "0 < src" using l by simp_all
  have "mapped m (dict + len - k) (dict + len)" using mapped_sub [OF ld0(2)] k by simp
  then have eb: "ext_buffers m src n dst cap (s_dictionary d) (s_dictSize d)"
    using l k unfolding ext_buffers_def d(2,3) by auto
  obtain r m1 s3 where c: "LZ4_compress_fast_continue p src dst n cap acceleration m ?S2 = Some (r, m1, ?S2(p \<mapsto> s3))"
    "frame m m1 dst (dst + cap)" "0 < r" "r \<le> cap"
    "block_for (bytes m (dict + len - k) (dict + len)) (bytes m src (src + n)) (bytes m1 dst (dst + r))"
    using continue_attached [of ?S2 p w' t d n src m dst cap acceleration, OF at2(1) w'(2) at2(2) d(4) assms(7) n eb] assms(9)
    unfolding d(2,3) by auto
  have "bytes m dict (dict + len) = bytes m dict (dict + len - k) @ bytes m (dict + len - k) (dict + len)"
    using k by (intro bytes_append) auto
  then have "block_for (bytes m dict (dict + len)) (bytes m src (src + n)) (bytes m1 dst (dst + r))"
    using c(5) block_for_prepend by metis
  moreover have same: "bytes m1 dict (dict + len) = bytes m dict (dict + len)"
    using l by (intro bytes_frame [OF c(2)]) auto
  ultimately have blk: "block_for (bytes m1 dict (dict + len)) (bytes m src (src + n)) (bytes m1 dst (dst + r))" by simp
  have "buffers_ok m dst cap e ecap" using l by (simp add: buffers_ok_def)
  then have "buffers_ok m1 dst r e ecap" using buffers_after [OF _ c(2), of e ecap r] c(3,4) by simp
  then have h: "dict_history dict len m1 dst r e ecap (bytes m1 dict (dict + len))"
    using l by (simp add: dict_history_def frame_mapped [OF c(2)])
  have len: "int (length (bytes m src (src + n))) = n" using n(1) by simp
  obtain m2 where "LZ4_decompress_safe_usingDict m1 dst e r ecap dict len = Some (n, m2)" "frame m1 m2 e (e + ecap)"
    "bytes m2 e (e + n) = bytes m src (src + n)"
    using dict_block_decodes [OF blk h] len l by auto
  moreover have "(?S2(p \<mapsto> s3)) t = ?S1 t" using assms(7) by simp
  ultimately show ?thesis using d(1) w'(1) c(1,3) by blast
qed

theorem attached_dict_roundtrip_witness:
  "\<exists>k S1 S2 r m1 S3 m2. LZ4_loadDict 16 1000 8 text_mem (Map.empty(8 \<mapsto> zero_stream, 16 \<mapsto> zero_stream)) = Some (k, S1) \<and>
     LZ4_attach_dictionary 8 16 S1 = Some S2 \<and> LZ4_compress_fast_continue 8 1008 5000 12 40 1 text_mem S2 = Some (r, m1, S3) \<and>
     LZ4_decompress_safe_usingDict m1 5000 7000 r 60 1000 8 = Some (12, m2) \<and> bytes m2 7000 7012 = bytes text_mem 1008 1020"
proof -
  let ?S = "Map.empty(8 \<mapsto> zero_stream, 16 \<mapsto> zero_stream)"
  have s: "?S 8 = Some zero_stream" "?S 16 \<noteq> None" by simp_all
  have z: "s_dictSize zero_stream = 0" "s_currentOffset zero_stream = 0 \<or> 65536 \<le> s_currentOffset zero_stream"
    by (simp_all add: zero_stream_def)
  have "mapped text_mem 1000 1008" "mapped text_mem 1008 1020" using mapped_sub [of text_mem 1000 1020] text_mapped(1) [of 20 0] by simp_all
  then have l: "dict_layout text_mem 1000 8 1008 12 5000 40 7000 60"
    using text_decode_buffers [of 40 60] by (simp add: dict_layout_def)
  have bd: "LZ4_compressBound 12 \<le> 40" by (simp add: compressBound_eq)
  have t: "(16 :: int) \<noteq> 0" "(16 :: int) \<noteq> 8" by simp_all
  from attached_dict_roundtrip [of ?S 8 zero_stream 16 text_mem 1000 8 1008 12 5000 40 7000 60 1, OF s(1) zero_linked z s(2) t l bd]
  show ?thesis by auto
qed

section \<open>Moving the history\<close>

text \<open>
  C36: \<open>LZ4_saveDict\<close> copies the last bytes of the history, at most 64 KB and at most what is asked for, to
  the safe buffer, which may overlap the history, and returns their number; the stream stays linked and
  has the buffer as its history, so that the next block can be compressed at once.
\<close>

theorem saveDict_history:
  assumes "S p = Some s" "linked s" "0 \<le> dictSize" "dictSize < 2147483648"
    and "k = min (min dictSize 65536) (s_dictSize s)" "hi = s_dictionary s + s_dictSize s"
    and "mapped m (hi - k) hi" "mapped m safeBuffer (safeBuffer + k)"
  shows "\<exists>m' s'. LZ4_saveDict p safeBuffer dictSize m S = Some (k, m', S(p \<mapsto> s')) \<and> frame m m' safeBuffer (safeBuffer + k) \<and>
     bytes m' (s_dictionary s') (s_dictionary s' + s_dictSize s') = bytes m (hi - k) hi \<and>
     linked s' \<and> s_dictionary s' = safeBuffer \<and> s_dictSize s' = k"
  using saveDict_ok [of S p s dictSize k hi m safeBuffer, OF assms] by auto

theorem saveDict_history_witness:
  "\<exists>m' s'. LZ4_saveDict 8 5000 6 text_mem (Map.empty(8 \<mapsto> early_stream)) = Some (6, m', Map.empty(8 \<mapsto> s')) \<and>
     bytes m' 5000 5006 = bytes text_mem 1002 1008 \<and> linked s'"
proof -
  let ?S = "Map.empty(8 \<mapsto> early_stream)"
  have s: "?S 8 = Some early_stream" "s_dictionary early_stream = 1000" "s_dictSize early_stream = 8"
    by (simp_all add: early_stream_def text_stream_def)
  have k: "6 = min (min 6 65536) (s_dictSize early_stream)" "1008 = s_dictionary early_stream + s_dictSize early_stream" by (simp_all add: s)
  have m: "mapped text_mem (1008 - 6) 1008" "mapped text_mem 5000 (5000 + 6)"
    using mapped_sub [of text_mem 1000 1020] text_mapped [of 20 6] by simp_all
  from saveDict_history [of ?S 8 early_stream 6 6 1008 text_mem 5000, OF s(1) early_linked _ _ k m] show ?thesis by auto
qed

end
