(* ===== verification/Spec2Isabelle.thy ===== *)
theory Spec2Isabelle
  imports Lz4_UnsafeTheorems Lz4_HcRoutineTheorems Lz4_DictTheorems
begin

text \<open>
  Verification of the LZ4 library of this repository (\<open>lib/lz4\<close>): the code that replaces the kernel's
  LZ4, with the fast compressor, the high-compression (HC) compressor, the decoders, and the dispatch to
  an ARM64 assembler decoder. Line numbers and names below are those of \<open>lib/lz4/lz4.c\<close> and
  \<open>lib/lz4/lz4hc.c\<close>; the configuration is the one of \<open>lib/lz4/Makefile\<close>: arm64, little-endian, 64-bit
  pointers, \<open>LZ4_FREESTANDING=1\<close>, \<open>LZ4_FAST_DEC_LOOP=1\<close>, assertions and debug output disabled.

  \<^bold>\<open>The program.\<close> A compressor reads an input, finds repetitions with tables of earlier positions, and
  writes a block of sequences (token, literals, offset, match length). A decoder reads such a block and
  copies literals and matches. The streaming functions keep, on both sides, a history that later blocks may
  refer to. The compressors share the memory primitives and the counting of equal bytes with the decoder;
  the entry points of a component differ only in how they prepare the state and the arguments of one
  generic function.

  \<^bold>\<open>How it is modelled.\<close> The memory is a partial map from addresses to bytes (\<open>mem\<close> of \<open>Lz4_Prelude\<close>). A
  read or write of an unmapped byte, a \<open>memcpy\<close> of overlapping ranges, an access outside a table and a shift
  or count that C leaves undefined give \<open>None\<close>; so a theorem that a call is \<open>Some\<close> says that it has no such
  behaviour and that it returns. Integers are \<open>int\<close>, and \<open>u16\<close>, \<open>u32\<close>, \<open>u64\<close>, \<open>s32\<close> write out the
  wrap-around where the code computes at that width. The structures of the streams are records, kept in
  stores from addresses to records because the code passes them by pointer. A loop is \<open>cloop body\<close>: \<open>body\<close>
  is one round, \<open>Inl\<close> goes on and \<open>Inr\<close> leaves; \<open>cloop\<close> is a \<open>partial_function\<close>, there is no fuel, and a
  loop that does not end is \<open>None\<close>. Every property that says \<open>Some\<close> therefore includes termination,
  proved with measures (\<open>cloop_total\<close>). Functions with \<open>goto\<close> are cut at their labels into one definition
  each; the ways out are constructors of a datatype.

  \<^bold>\<open>Theories.\<close>

  \<^item> \<open>Lz4_Prelude\<close>: machine integers, memory, frames, \<open>cloop\<close>. \<open>Lz4_Format\<close>: the block format as an abstract
    specification on byte lists (\<open>encode_block\<close>, \<open>expand\<close>, \<open>seqs_ok\<close>, \<open>block_end_ok\<close>).
  \<^item> \<open>Lz4_Common\<close>: constants, unaligned access, wild and overlapping copies, \<open>LZ4_count\<close>,
    \<open>LZ4_NbCommonBytes\<close>. \<open>Lz4_Count\<close>: they count exactly the common prefix, and the portable bit tricks
    agree with the builtins.
  \<^item> Decoder. \<open>Lz4_Decompress\<close>: \<open>LZ4_decompress_generic\<close> with its fast and safe loops. \<open>Lz4_DecodeApi\<close>: the
    one-shot, partial, dictionary and streaming functions and \<open>lz4armv8/lz4accel\<close>. \<open>Lz4_RefDecode\<close>: a parser on
    byte lists, which has no memory and no fast loop. \<open>Lz4_DecodeCopies\<close>, \<open>Lz4_DecodeSteps\<close>,
    \<open>Lz4_DecodeLoops\<close>: each stage and then both loops refine the parser, for arbitrary input.
    \<open>Lz4_RefFormat\<close>: the parser accepts exactly the series of sequences, and every block of the format.
    \<open>Lz4_DecodeProps\<close>, \<open>Lz4_DecodeSpec\<close>: safety, soundness and completeness, with the locale \<open>full_decoder\<close>
    for every entry point that decodes a whole block. \<open>Lz4_StreamDecode\<close>: the streaming state stands for a
    history; the assembler path. \<open>Lz4_DecodeTheorems\<close>, \<open>Lz4_StreamTheorems\<close>: the properties.
  \<^item> \<open>Lz4_Unsafe\<close>, \<open>Lz4_UnsafeProofs\<close>, \<open>Lz4_UnsafeTheorems\<close>: the decoder behind \<open>LZ4_decompress_fast*\<close>,
    which trusts its input: on blocks of the format it does what the safe decoder does (locale
    \<open>exact_decoder\<close>).
  \<^item> Fast compressor. \<open>Lz4_HashTable\<close>: \<open>LZ4_stream_t\<close> with its table as bytes. \<open>Lz4_Compress\<close>:
    \<open>LZ4_compress_generic_validated\<close>. \<open>Lz4_CompressApi\<close>: its entry points. \<open>Lz4_HashFacts\<close>: the table as an
    array of indexes. \<open>Lz4_Emit\<close>, \<open>Lz4_CompressSpec\<close>, \<open>Lz4_CompressFind\<close>, \<open>Lz4_CompressLits\<close>,
    \<open>Lz4_CompressMatch\<close>, \<open>Lz4_CompressLoop\<close>, \<open>Lz4_CompressMain\<close>, \<open>Lz4_CompressResult\<close>: what has been written is
    the encoding of sequences that expand to the input read so far, for every output directive and every
    way of using a dictionary (a dictionary elsewhere is put in front of the source by a view of the memory);
    the room checks are strong enough for the copies that run over. \<open>Lz4_CompressCalls\<close>, \<open>Lz4_CompressContract\<close>: the
    entry points fulfil the contract \<open>block_compressor\<close>, which gives totality, the bound and the round trip.
    \<open>Lz4_CompressStream\<close>: \<open>LZ4_loadDict\<close>, \<open>LZ4_renormDictT\<close>, \<open>LZ4_compress_fast_continue\<close> behind the
    history. \<open>Lz4_CompressExtDict\<close>: the same function with the history elsewhere or a dictionary attached,
    \<open>LZ4_saveDict\<close>. \<open>Lz4_CompressTheorems\<close>, \<open>Lz4_CompressStreamTheorems\<close>, \<open>Lz4_DictTheorems\<close>: the
    properties.
  \<^item> HC compressor. \<open>Lz4_HcState\<close>: the context, tables and counting. \<open>Lz4_HcSearch\<close>:
    \<open>LZ4HC_InsertAndGetWiderMatch\<close>. \<open>Lz4_HcEncode\<close>: \<open>LZ4HC_encodeSequence\<close> and the closing parts.
    \<open>Lz4_HcMid\<close>, \<open>Lz4_HcChain\<close>, \<open>Lz4_HcOptimal\<close>: the three compressors. \<open>Lz4_HcApi\<close>: the choice by level, the
    entry points, dictionaries and streaming. \<open>Lz4_HcCount\<close>, \<open>Lz4_HcTables\<close>, \<open>Lz4_HcSearchProofs\<close>,
    \<open>Lz4_HcEncodeProofs\<close>, \<open>Lz4_HcWider\<close>: counting is exact, the tables hold earlier positions, the search
    returns only true matches, encoding refines the format. \<open>Lz4_HcMidProofs\<close>, \<open>Lz4_HcChainProofs\<close>,
    \<open>Lz4_HcOptimalProofs\<close>: each compressor ends and its block expands to the input. \<open>Lz4_HcContract\<close>: the
    three fulfil one contract (locale \<open>segment_strategy\<close>), and the entry points that of \<open>block_compressor\<close>.
    \<open>Lz4_HcLoadDict\<close>: \<open>LZ4_loadDictHC\<close>, and streams of any length. \<open>Lz4_HcTheorems\<close>,
    \<open>Lz4_HcRoutineTheorems\<close>: the properties.
  \<^item> \<open>Lz4_StreamPipe\<close>: an encoder, a buffer and the streaming decoder put together (locale \<open>stream_encoder\<close>,
    interpreted on both compressors): every input, however it is cut into blocks, is delivered.

  \<^bold>\<open>Parameters.\<close> Code that is not C under \<open>lib/lz4\<close> is an argument. The assembler decoder
  (\<open>lz4armv8.S\<close>) is a function of type \<open>asm_code\<close>; the theorems that need it assume \<open>asm_contract\<close> (called
  without the flag for decoding in place, it decodes some leading sequences of a block into the output and
  leaves both pointers behind them), which a routine that does nothing fulfils. The streaming decoder calls
  it without that flag; with the flag the routine may rewrite a token of the source, and no theorem speaks of
  such a call. The kernel's CPU number, CPU part and \<open>may_use_simd\<close> are fields of \<open>cpu_env\<close>. The result of
  \<open>kzalloc\<close> in the optimal parser is a flag; the theorems take it as true, and one says what happens
  otherwise.

  \<^bold>\<open>Bounds.\<close> Sizes are those an \<open>int\<close> holds; buffers do not wrap around the address space and, for the
  decoders, end at least \<open>2 ^ 40\<close> bytes below \<open>2 ^ 64\<close>, so that the pointer comparisons of the code mean what they
  say. The source, the destination and the decoded output do not overlap. Working memory handed to the
  functions that initialise a stream is aligned as they require (\<open>LZ4_ALIGN_TEST\<close> is 1, so both structures need 8
  bytes); \<open>compress_HC_total\<close> says what happens otherwise.

  \<^bold>\<open>Not proved.\<close> The fast compressor is proved in all four of its ways of using a dictionary, for tables of
  indexes (the table of pointers is only used on 32-bit machines, or by nobody). The HC compressors are
  modelled in every mode, but their correctness is proved for content in one contiguous segment: one block, or
  blocks that follow each other (with a dictionary in front of them); their matches into an external or an
  attached dictionary (\<open>usingDictCtxHc\<close>) and \<open>LZ4_saveDictHC\<close> are definitions without theorems. The decoders
  are proved for all of their histories. Decoding and compression in place, with overlapping buffers, and
  \<open>LZ4_compress_forceExtDict\<close>, a debugging function that trusts its output buffer, are not covered.

  \<^bold>\<open>Not modelled.\<close> The allocation wrappers (\<open>LZ4_createStream\<close>, \<open>LZ4_freeStream\<close> and their kin) are compiled
  out by \<open>LZ4_FREESTANDING\<close>, as are the variants of the access routines for other compilers; the assembler
  source; \<open>patches/BBRV3/bbrv3-cLone-uaf.c\<close>, a user-space program of socket calls; the kernel patches, build
  files and workflows, which contain no program of their own.
\<close>

end
